(* ===== verification/Prelude.thy ===== *)
theory Prelude
  imports Complex_Main "HOL-Library.Multiset"
begin

text \<open>
  Shared vocabulary of the development: Python exceptions as values of a sum type and the
  combinators for statements that may raise, list operations of the Python language used by
  the sources (indexing, slices, \<open>sorted\<close>, insertion-ordered dictionaries), and the notion of a
  tiling of \<open>range(n)\<close> by a list of index lists, which the scheduling components promise to
  each other. Python floats are modelled by exact reals: rounding is not modelled.
\<close>

section \<open>Exceptions as values\<close>

datatype py_error =
    AssertionError string
  | ValueError string
  | KeyError string
  | TypeError string
  | RuntimeError string
  | NotImplementedError string
  | IndexError
  | ZeroDivisionError
  | OverflowError
  | CancelledError

type_synonym 'a result = "py_error + 'a"

named_theorems res_simps \<open>rewriting of statements that may raise\<close>

definition res_bind :: "'a result \<Rightarrow> ('a \<Rightarrow> 'b result) \<Rightarrow> 'b result" where
  "res_bind m f = (case m of Inl e \<Rightarrow> Inl e | Inr x \<Rightarrow> f x)"

lemma res_bind_Inl [simp]: "res_bind (Inl e) f = Inl e"
  by (simp add: res_bind_def)

lemma res_bind_Inr [simp]: "res_bind (Inr x) f = f x"
  by (simp add: res_bind_def)

lemma res_bind_eq_Inr [res_simps]:
  "res_bind m f = Inr y \<longleftrightarrow> (\<exists>x. m = Inr x \<and> f x = Inr y)"
  by (cases m) auto

lemma res_bind_eq_Inl [res_simps]:
  "res_bind m f = Inl e \<longleftrightarrow> m = Inl e \<or> (\<exists>x. m = Inr x \<and> f x = Inl e)"
  by (cases m) auto

lemma res_bind_cong [fundef_cong]:
  "m = m' \<Longrightarrow> (\<And>x. m' = Inr x \<Longrightarrow> f x = f' x) \<Longrightarrow> res_bind m f = res_bind m' f'"
  by (cases m') auto

lemma if_Inl_eq_Inr [res_simps]: "(if b then Inl e else r) = Inr y \<longleftrightarrow> \<not> b \<and> r = Inr y"
  by simp

text \<open>A list comprehension whose body may raise, and a \<open>for\<close> loop whose body may raise.\<close>

primrec res_map :: "('a \<Rightarrow> 'b result) \<Rightarrow> 'a list \<Rightarrow> 'b list result" where
  "res_map f [] = Inr []"
| "res_map f (x # xs) = res_bind (f x) (\<lambda>y. res_bind (res_map f xs) (\<lambda>ys. Inr (y # ys)))"

primrec res_fold :: "('s \<Rightarrow> 'a \<Rightarrow> 's result) \<Rightarrow> 's \<Rightarrow> 'a list \<Rightarrow> 's result" where
  "res_fold f s [] = Inr s"
| "res_fold f s (x # xs) = res_bind (f s x) (\<lambda>s'. res_fold f s' xs)"

lemma res_map_cong [fundef_cong]:
  "xs = ys \<Longrightarrow> (\<And>x. x \<in> set ys \<Longrightarrow> f x = g x) \<Longrightarrow> res_map f xs = res_map g ys"
  by (induction xs arbitrary: ys) auto

lemma res_map_eq_Inr:
  "res_map f xs = Inr ys \<longleftrightarrow> list_all2 (\<lambda>x y. f x = Inr y) xs ys"
  by (induction xs arbitrary: ys) (auto simp: res_bind_eq_Inr list_all2_Cons1)

lemma res_map_length: "res_map f xs = Inr ys \<Longrightarrow> length ys = length xs"
  by (auto simp: res_map_eq_Inr dest: list_all2_lengthD)

lemma res_map_nth: "res_map f xs = Inr ys \<Longrightarrow> i < length xs \<Longrightarrow> f (xs ! i) = Inr (ys ! i)"
  by (auto simp: res_map_eq_Inr list_all2_conv_all_nth)

lemma res_map_Inr_ball: "(\<forall>x \<in> set xs. f x = Inr (g x)) \<Longrightarrow> res_map f xs = Inr (map g xs)"
  by (induction xs) auto

lemma res_map_Inr [simp]: "res_map (\<lambda>x. Inr (g x)) xs = Inr (map g xs)"
  by (rule res_map_Inr_ball) simp

lemma res_fold_append:
  "res_fold f s (xs @ ys) = res_bind (res_fold f s xs) (\<lambda>s'. res_fold f s' ys)"
  by (induction xs arbitrary: s) (auto simp: res_bind_def split: sum.splits)

text \<open>The loop rules: an invariant kept by every completed iteration, and completion itself.\<close>

lemma res_fold_invariant:
  assumes "res_fold f s xs = Inr s'" and "I s"
    and "\<And>s x s'. x \<in> set xs \<Longrightarrow> I s \<Longrightarrow> f s x = Inr s' \<Longrightarrow> I s'"
  shows "I s'"
  using assms by (induction xs arbitrary: s) (auto simp: res_bind_eq_Inr)

lemma res_fold_index_invariant:
  assumes "res_fold f s [0..<n] = Inr s'" and "I 0 s"
    and "\<And>s i s'. i < n \<Longrightarrow> I i s \<Longrightarrow> f s i = Inr s' \<Longrightarrow> I (Suc i) s'"
  shows "I n s'"
  using assms
proof (induction n arbitrary: s')
  case (Suc n)
  from Suc.prems(1) obtain t where t: "res_fold f s [0..<n] = Inr t" "f t n = Inr s'"
    by (auto simp: res_fold_append res_bind_eq_Inr)
  with Suc.IH [OF t(1)] Suc.prems(2,3) show ?case by simp
qed simp

lemma res_fold_returns:
  assumes "I s" and "\<And>s x. x \<in> set xs \<Longrightarrow> I s \<Longrightarrow> \<exists>s'. f s x = Inr s' \<and> I s'"
  shows "\<exists>s'. res_fold f s xs = Inr s' \<and> I s'"
  using assms
proof (induction xs arbitrary: s)
  case (Cons x xs)
  then obtain t where t: "f s x = Inr t" "I t" by (meson list.set_intros(1))
  from Cons.IH [OF t(2)] Cons.prems(2) t(1) show ?case by simp
qed simp

lemma res_fold_returns_iff:
  assumes "\<And>s x. x \<in> set xs \<Longrightarrow> (\<exists>s'. f s x = Inr s') \<longleftrightarrow> P x"
  shows "(\<exists>s'. res_fold f s xs = Inr s') \<longleftrightarrow> (\<forall>x \<in> set xs. P x)"
  using assms
proof (induction xs arbitrary: s)
  case (Cons x xs)
  show ?case
  proof (cases "f s x")
    case (Inl e)
    then show ?thesis using Cons.prems [of x s] by simp
  next
    case (Inr t)
    then have "P x" using Cons.prems [of x s] by auto
    with Inr Cons.IH [of t] Cons.prems show ?thesis by simp
  qed
qed simp

text \<open>Statements that update an object and may raise: the updates made before an exception stay.\<close>

type_synonym ('s, 'a) op = "'s \<Rightarrow> 's \<times> 'a result"

definition op_return :: "'a \<Rightarrow> ('s, 'a) op" where
  "op_return x = (\<lambda>s. (s, Inr x))"

definition op_raise :: "py_error \<Rightarrow> ('s, 'a) op" where
  "op_raise e = (\<lambda>s. (s, Inl e))"

definition op_get :: "('s \<Rightarrow> 'a) \<Rightarrow> ('s, 'a) op" where
  "op_get f = (\<lambda>s. (s, Inr (f s)))"

definition op_modify :: "('s \<Rightarrow> 's) \<Rightarrow> ('s, unit) op" where
  "op_modify f = (\<lambda>s. (f s, Inr ()))"

definition op_lift :: "'a result \<Rightarrow> ('s, 'a) op" where
  "op_lift r = (\<lambda>s. (s, r))"

definition op_bind :: "('s, 'a) op \<Rightarrow> ('a \<Rightarrow> ('s, 'b) op) \<Rightarrow> ('s, 'b) op" where
  "op_bind m f = (\<lambda>s. case m s of (s', Inl e) \<Rightarrow> (s', Inl e) | (s', Inr x) \<Rightarrow> f x s')"

named_theorems op_simps \<open>rewriting of stateful statements that complete\<close>

lemma op_eq_Inr [op_simps]:
  "op_return x s = (s', Inr y) \<longleftrightarrow> s' = s \<and> y = x"
  "op_raise e s = (s', Inr y) \<longleftrightarrow> False"
  "op_get f s = (s', Inr z) \<longleftrightarrow> s' = s \<and> z = f s"
  "op_modify g s = (s', Inr u) \<longleftrightarrow> s' = g s \<and> u = ()"
  "op_lift r s = (s', Inr y) \<longleftrightarrow> s' = s \<and> r = Inr y"
  by (auto simp: op_return_def op_raise_def op_get_def op_modify_def op_lift_def)

lemma op_bind_eq_Inr [op_simps]:
  "op_bind m f s = (s', Inr y) \<longleftrightarrow> (\<exists>t x. m s = (t, Inr x) \<and> f x t = (s', Inr y))"
  by (auto simp: op_bind_def split: prod.splits sum.splits)

section \<open>Lists: indexing and slices\<close>

definition py_nth :: "'a list \<Rightarrow> nat \<Rightarrow> 'a result" where
  "py_nth xs i = (if i < length xs then Inr (xs ! i) else Inl IndexError)"

lemma py_nth_Inr [simp]: "py_nth xs i = Inr x \<longleftrightarrow> i < length xs \<and> x = xs ! i"
  by (auto simp: py_nth_def)

text \<open>\<open>xs[a:b]\<close> for non-negative bounds, and for arbitrary bounds, where a negative bound counts
  from the end and every bound is clamped to the list.\<close>

definition slice :: "nat \<Rightarrow> nat \<Rightarrow> 'a list \<Rightarrow> 'a list" where
  "slice a b xs = take (b - a) (drop a xs)"

definition clamp_index :: "nat \<Rightarrow> int \<Rightarrow> nat" where
  "clamp_index n i = (if i < 0 then nat (max 0 (int n + i)) else min n (nat i))"

definition py_slice :: "int \<Rightarrow> int \<Rightarrow> 'a list \<Rightarrow> 'a list" where
  "py_slice a b xs = slice (clamp_index (length xs) a) (clamp_index (length xs) b) xs"

lemma length_slice [simp]: "length (slice a b xs) = min (b - a) (length xs - a)"
  by (simp add: slice_def)

lemma py_slice_same [simp]: "py_slice a a xs = []"
  by (simp add: py_slice_def slice_def)

lemma py_slice_nat:
  "0 \<le> a \<Longrightarrow> 0 \<le> b \<Longrightarrow> py_slice a b xs = slice (nat a) (nat b) xs"
  by (cases "nat a \<le> length xs") (auto simp: py_slice_def clamp_index_def slice_def min_def)

text \<open>\<open>dst[start : start + len(src)] = src\<close> within the bounds of \<open>dst\<close>.\<close>

definition blit :: "'r list \<Rightarrow> nat \<Rightarrow> 'r list \<Rightarrow> 'r list" where
  "blit dst start src = take start dst @ src @ drop (start + length src) dst"

lemma blit_Nil [simp]: "blit dst d [] = dst"
  by (simp add: blit_def)

lemma length_blit [simp]: "d + length xs \<le> length dst \<Longrightarrow> length (blit dst d xs) = length dst"
  by (simp add: blit_def)

lemma blit_chain:
  "d + length xs + length ys \<le> length dst \<Longrightarrow> blit (blit dst d xs) (d + length xs) ys = blit dst d (xs @ ys)"
  by (simp add: blit_def ac_simps)

lemma blit_all: "length xs = length dst \<Longrightarrow> blit dst 0 xs = xs"
  by (simp add: blit_def)

lemma slice_Nil [simp]: "b \<le> a \<Longrightarrow> slice a b xs = []"
  by (simp add: slice_def)

lemma slice_empty [simp]: "slice a b [] = []"
  by (simp add: slice_def)

lemma slice_append:
  assumes "a \<le> b"
  shows "slice a b (xs @ ys) = slice a b xs @ slice (max a (length xs) - length xs) (b - length xs) ys"
proof -
  have "b - a - (length xs - a) = b - length xs - (max a (length xs) - length xs)" using assms by linarith
  moreover have "a - length xs = max a (length xs) - length xs" by linarith
  ultimately show ?thesis by (simp add: slice_def)
qed

lemma slice_min: "slice a b xs = slice a (min b (length xs)) xs"
  by (simp add: slice_def min_def)

lemma slice_map_upt: "b \<le> n - m \<Longrightarrow> slice a b (map f [m..<n]) = map f [m + a..<m + b]"
  by (intro nth_equalityI) (auto simp: slice_def add.assoc)

lemma slice_upt: "b \<le> length xs \<Longrightarrow> slice a b xs = map ((!) xs) [a..<b]"
  using slice_map_upt [of b "length xs" 0 a "(!) xs"] by (simp add: map_nth)

lemma slice_all [simp]: "slice 0 (length xs) xs = xs"
  by (simp add: slice_def)

text \<open>\<open>range(start, stop, step)\<close> for a positive step.\<close>

definition py_range :: "nat \<Rightarrow> nat \<Rightarrow> nat \<Rightarrow> nat list" where
  "py_range start stop step = map (\<lambda>j. start + j * step) [0..<(stop - start + step - 1) div step]"

section \<open>Tilings of an index range\<close>

text \<open>\<open>tiles n bins\<close>: every index below \<open>n\<close> lies in exactly one of the bins, exactly once.\<close>

definition tiles :: "nat \<Rightarrow> nat list list \<Rightarrow> bool" where
  "tiles n bins \<longleftrightarrow> mset (concat bins) = mset [0..<n]"

lemma tiles_set: "tiles n bins \<Longrightarrow> set (concat bins) = {0..<n}"
  by (metis atLeast_upt set_mset_mset tiles_def set_upt)

lemma tiles_distinct: "tiles n bins \<Longrightarrow> distinct (concat bins)"
  by (metis distinct_upt mset_eq_imp_distinct_iff tiles_def)

lemma tiles_length: "tiles n bins \<Longrightarrow> length (concat bins) = n"
  by (metis length_upt minus_nat.diff_0 size_mset tiles_def)

lemma tiles_index: "tiles n bins \<Longrightarrow> b \<in> set bins \<Longrightarrow> i \<in> set b \<Longrightarrow> i < n"
  using tiles_set by fastforce

lemma tilesI: "mset (concat bins) = mset [0..<n] \<Longrightarrow> tiles n bins"
  by (simp add: tiles_def)

lemma sum_list_perm:
  fixes f :: "'a \<Rightarrow> 'b::comm_monoid_add"
  assumes "mset xs = mset ys"
  shows "(\<Sum>x\<leftarrow>xs. f x) = (\<Sum>x\<leftarrow>ys. f x)"
  using assms by (metis mset_map sum_mset_sum_list)

lemma sum_list_map2_add:
  fixes xs ys :: "'a::comm_monoid_add list"
  shows "length xs = length ys \<Longrightarrow> sum_list (map2 (+) xs ys) = sum_list xs + sum_list ys"
  by (induction xs ys rule: list_induct2) (simp_all add: ac_simps)

lemma sum_list_lower: "(\<forall>x \<in> set xs. m \<le> x) \<Longrightarrow> length xs * m \<le> sum_list (xs :: nat list)"
  by (induction xs) auto

lemma concat_length_ge:
  "(\<forall>b \<in> set bins. b \<noteq> []) \<Longrightarrow> length bins \<le> length (concat bins)"
  by (induction bins) (auto simp: Suc_le_eq neq_Nil_conv)

lemma concat_length_eq_const: "(\<forall>b \<in> set bins. length b = m) \<Longrightarrow> length (concat bins) = length bins * m"
  by (induction bins) auto

lemma mset_concat_image: "mset (concat (map (map f) bins)) = image_mset f (mset (concat bins))"
  by (induction bins) auto

lemma mset_map_upt: "mset (map (\<lambda>i. xs ! i) [0..<length xs]) = mset xs"
  by (simp add: map_nth)

section \<open>Insertion-ordered dictionaries\<close>

text \<open>\<open>d.setdefault(k, []).append(v)\<close> on a dictionary kept in insertion order.\<close>

fun dict_append :: "'k \<Rightarrow> 'v \<Rightarrow> ('k \<times> 'v list) list \<Rightarrow> ('k \<times> 'v list) list" where
  "dict_append k v [] = [(k, [v])]"
| "dict_append k v ((k', vs) # d) =
     (if k' = k then (k', vs @ [v]) # d else (k', vs) # dict_append k v d)"

definition group_pairs :: "('k \<times> 'v) list \<Rightarrow> ('k \<times> 'v list) list" where
  "group_pairs kvs = foldl (\<lambda>d (k, v). dict_append k v d) [] kvs"

lemma set_fst_dict_append [simp]: "fst ` set (dict_append k v d) = insert k (fst ` set d)"
  by (induction k v d rule: dict_append.induct) auto

lemma distinct_dict_append: "distinct (map fst d) \<Longrightarrow> distinct (map fst (dict_append k v d))"
  by (induction k v d rule: dict_append.induct) (auto simp: set_fst_dict_append)

lemma mset_dict_append:
  "mset (concat (map snd (dict_append k v d))) = add_mset v (mset (concat (map snd d)))"
  by (induction k v d rule: dict_append.induct) auto

lemma map_of_dict_append:
  "map_of (dict_append k v d) k' =
     (if k' = k then Some ((case map_of d k of None \<Rightarrow> [] | Some vs \<Rightarrow> vs) @ [v]) else map_of d k')"
  by (induction k v d rule: dict_append.induct) auto

lemma dict_append_nonempty:
  "(\<forall>p \<in> set d. snd p \<noteq> []) \<Longrightarrow> \<forall>p \<in> set (dict_append k v d). snd p \<noteq> []"
  by (induction k v d rule: dict_append.induct) auto

lemma group_pairs_snoc: "group_pairs (kvs @ [(k, v)]) = dict_append k v (group_pairs kvs)"
  by (simp add: group_pairs_def)

lemma group_pairs_Nil [simp]: "group_pairs [] = []"
  by (simp add: group_pairs_def)

lemma group_pairs_distinct: "distinct (map fst (group_pairs kvs))"
  by (induction kvs rule: rev_induct) (auto simp: group_pairs_snoc intro: distinct_dict_append)

lemma group_pairs_keys: "fst ` set (group_pairs kvs) = fst ` set kvs"
proof (induction kvs rule: rev_induct)
  case (snoc p kvs)
  then show ?case by (cases p) (simp add: group_pairs_snoc)
qed simp

lemma group_pairs_mset: "mset (concat (map snd (group_pairs kvs))) = mset (map snd kvs)"
  by (induction kvs rule: rev_induct) (auto simp: group_pairs_snoc mset_dict_append)

lemma group_pairs_nonempty: "\<forall>p \<in> set (group_pairs kvs). snd p \<noteq> []"
proof (induction kvs rule: rev_induct)
  case (snoc p kvs)
  then show ?case by (cases p) (use dict_append_nonempty in \<open>force simp: group_pairs_snoc\<close>)
qed simp

lemma group_pairs_lookup:
  "map_of (group_pairs kvs) k =
     (if k \<in> fst ` set kvs then Some (map snd (filter (\<lambda>p. fst p = k) kvs)) else None)"
proof (induction kvs rule: rev_induct)
  case (snoc p kvs)
  show ?case
    by (cases p) (use snoc in \<open>auto simp: group_pairs_snoc map_of_dict_append filter_empty_conv\<close>)
qed simp

section \<open>Stable sorting by a strict comparison\<close>

text \<open>
  Python's \<open>sorted\<close> is stable and only uses \<open>__lt__\<close>; with \<open>reverse=True\<close> it still keeps equal
  elements in their original order.
\<close>

fun insort_lt :: "('a \<Rightarrow> 'a \<Rightarrow> bool) \<Rightarrow> 'a \<Rightarrow> 'a list \<Rightarrow> 'a list" where
  "insort_lt lt x [] = [x]"
| "insort_lt lt x (y # ys) = (if lt y x then y # insort_lt lt x ys else x # y # ys)"

definition py_sorted :: "('a \<Rightarrow> 'a \<Rightarrow> bool) \<Rightarrow> 'a list \<Rightarrow> 'a list" where
  "py_sorted lt xs = foldr (insort_lt lt) xs []"

definition py_sorted_rev :: "('a \<Rightarrow> 'a \<Rightarrow> bool) \<Rightarrow> 'a list \<Rightarrow> 'a list" where
  "py_sorted_rev lt xs = rev (py_sorted lt (rev xs))"

text \<open>\<open>max(xs)\<close> of a non-empty list: the first element that no other exceeds.\<close>

fun py_max :: "('a \<Rightarrow> 'a \<Rightarrow> bool) \<Rightarrow> 'a \<Rightarrow> 'a list \<Rightarrow> 'a" where
  "py_max lt m [] = m"
| "py_max lt m (x # xs) = py_max lt (if lt m x then x else m) xs"

text \<open>Tuples and lists compare by their first differing component.\<close>

fun tuple_lt :: "'a::linorder \<times> 'b::linorder \<Rightarrow> 'a \<times> 'b \<Rightarrow> bool" where
  "tuple_lt (a, b) (a', b') = (if a = a' then b < b' else a < a')"

fun list_lt :: "('a \<Rightarrow> 'a \<Rightarrow> bool) \<Rightarrow> 'a list \<Rightarrow> 'a list \<Rightarrow> bool" where
  "list_lt lt xs [] = False"
| "list_lt lt [] (y # ys) = True"
| "list_lt lt (x # xs) (y # ys) = (if x = y then list_lt lt xs ys else lt x y)"

lemma py_max_in: "py_max lt m xs \<in> insert m (set xs)"
  by (induction lt m xs rule: py_max.induct) auto

lemma mset_insort_lt [simp]: "mset (insort_lt lt x ys) = add_mset x (mset ys)"
  by (induction ys) auto

lemma mset_py_sorted [simp]: "mset (py_sorted lt xs) = mset xs"
  by (induction xs) (auto simp: py_sorted_def)

lemma mset_py_sorted_rev [simp]: "mset (py_sorted_rev lt xs) = mset xs"
  by (simp add: py_sorted_rev_def)

lemma set_py_sorted [simp]: "set (py_sorted lt xs) = set xs"
  by (metis mset_py_sorted set_mset_mset)

lemma set_py_sorted_rev [simp]: "set (py_sorted_rev lt xs) = set xs"
  by (metis mset_py_sorted_rev set_mset_mset)

lemma length_py_sorted_rev [simp]: "length (py_sorted_rev lt xs) = length xs"
  by (metis mset_py_sorted_rev size_mset)

lemma length_py_sorted [simp]: "length (py_sorted lt xs) = length xs"
  by (metis mset_py_sorted size_mset)

locale strict_weak_order =
  fixes lt :: "'a \<Rightarrow> 'a \<Rightarrow> bool"
  assumes lt_asym: "lt x y \<Longrightarrow> \<not> lt y x"
    and lt_split: "lt x z \<Longrightarrow> lt x y \<or> lt y z"
begin

lemma lt_trans: "lt x y \<Longrightarrow> lt y z \<Longrightarrow> lt x z"
  using lt_asym lt_split by blast

lemma not_lt_trans: "\<not> lt y x \<Longrightarrow> \<not> lt z y \<Longrightarrow> \<not> lt z x"
  using lt_split by blast

lemma py_max_greatest: "y \<in> insert m (set xs) \<Longrightarrow> \<not> lt (py_max lt m xs) y"
proof (induction xs arbitrary: m y)
  case Nil
  then show ?case using lt_asym by auto
next
  case (Cons x xs)
  let ?m = "if lt m x then x else m"
  have top: "\<not> lt (py_max lt ?m xs) z" if "z \<in> insert ?m (set xs)" for z
    using Cons.IH that by blast
  have "\<not> lt ?m y" if "y = m \<or> y = x" using that lt_asym by auto
  with top [of ?m] have "\<not> lt (py_max lt ?m xs) y" if "y = m \<or> y = x"
    using that not_lt_trans [of ?m y "py_max lt ?m xs"] by auto
  with Cons.prems top [of y] show ?case by auto
qed

lemma sorted_insort_lt:
  "sorted_wrt (\<lambda>x y. \<not> lt y x) ys \<Longrightarrow> sorted_wrt (\<lambda>x y. \<not> lt y x) (insort_lt lt x ys)"
proof (induction ys)
  case (Cons y ys)
  have s: "set (insort_lt lt x ys) = insert x (set ys)"
    by (metis mset_insort_lt set_mset_add_mset_insert set_mset_mset)
  show ?case
  proof (cases "lt y x")
    case True
    then show ?thesis using Cons lt_asym [OF True] by (simp add: s)
  next
    case False
    have "\<not> lt z x" if "z \<in> set ys" for z
      using that Cons.prems False not_lt_trans [of y x z] by simp
    with False Cons.prems show ?thesis by simp
  qed
qed simp

lemma sorted_py_sorted: "sorted_wrt (\<lambda>x y. \<not> lt y x) (py_sorted lt xs)"
  by (induction xs) (auto simp: py_sorted_def intro: sorted_insort_lt)

lemma sorted_py_sorted_rev: "sorted_wrt (\<lambda>x y. \<not> lt x y) (py_sorted_rev lt xs)"
  using sorted_py_sorted [of "rev xs"] by (simp add: py_sorted_rev_def sorted_wrt_rev)

end

interpretation tuple: strict_weak_order "tuple_lt :: 'a::linorder \<times> 'b::linorder \<Rightarrow> _"
  by unfold_locales (auto split: if_splits)

lemma tuple_lt_total: "x \<noteq> y \<Longrightarrow> tuple_lt x y \<or> tuple_lt y x"
  by (cases x; cases y) auto

lemma list_tuple_lt_asym: "list_lt tuple_lt xs ys \<Longrightarrow> \<not> list_lt tuple_lt ys xs"
  by (induction "tuple_lt :: 'a::linorder \<times> 'b::linorder \<Rightarrow> _" xs ys rule: list_lt.induct)
     (auto split: if_splits)

lemma list_tuple_lt_split:
  "list_lt tuple_lt xs zs \<Longrightarrow> list_lt tuple_lt xs ys \<or> list_lt tuple_lt ys zs"
proof (induction "tuple_lt :: 'a::linorder \<times> 'b::linorder \<Rightarrow> _" xs zs arbitrary: ys rule: list_lt.induct)
  case (2 z zs)
  then show ?case by (cases ys) auto
next
  case (3 x xs z zs)
  show ?case
  proof (cases ys)
    case (Cons y ys')
    with 3 tuple.lt_split [of x z y] tuple_lt_total [of x y] show ?thesis
      by (auto split: if_splits)
  qed (use 3 in simp)
qed simp

interpretation tuple_list: strict_weak_order "list_lt (tuple_lt :: 'a::linorder \<times> 'b::linorder \<Rightarrow> _)"
  by unfold_locales (rule list_tuple_lt_asym list_tuple_lt_split, assumption)+

interpretation nat_lt: strict_weak_order "(<) :: nat \<Rightarrow> nat \<Rightarrow> bool"
  by unfold_locales auto

interpretation real_lt: strict_weak_order "(<) :: real \<Rightarrow> real \<Rightarrow> bool"
  by unfold_locales auto

end
