(* ===== verification/Heapq.thy ===== *)
theory Heapq
  imports Prelude
begin

text \<open>
  The binary heap of Python's standard module \<open>heapq\<close>, as the sources call it: a list in which
  no element is smaller than its parent at index \<open>(i - 1) // 2\<close>, with \<open>heappush\<close> and \<open>heappop\<close>
  written over the same sift loops. The two locales are the interfaces the clients rely on: what
  a push and a pop do to the multiset of elements, and that a pop returns a least element.
\<close>

section \<open>The interfaces\<close>

locale mset_queue =
  fixes push :: "'a \<Rightarrow> 'q \<Rightarrow> 'q"
    and pop :: "'q \<Rightarrow> ('a \<times> 'q) result"
    and nothing :: 'q
    and elems :: "'q \<Rightarrow> 'a multiset"
  assumes elems_nothing: "elems nothing = {#}"
    and elems_push: "elems (push x q) = add_mset x (elems q)"
    and pop_returns: "elems q \<noteq> {#} \<Longrightarrow>
      \<exists>x q'. pop q = Inr (x, q') \<and> elems q = add_mset x (elems q')"
begin

lemma pop_elems: "pop q = Inr (x, q') \<Longrightarrow> elems q \<noteq> {#} \<Longrightarrow> elems q = add_mset x (elems q')"
  using pop_returns [of q] by auto

lemma pop_two:
  assumes "2 \<le> size (elems q)"
  obtains x q1 y q2 where "pop q = Inr (x, q1)" "pop q1 = Inr (y, q2)"
    "elems q = {#x, y#} + elems q2"
proof -
  from assms have "elems q \<noteq> {#}" by auto
  from pop_returns [OF this] obtain x q1
    where x: "pop q = Inr (x, q1)" "elems q = add_mset x (elems q1)" by blast
  with assms have "elems q1 \<noteq> {#}" by auto
  from pop_returns [OF this] obtain y q2
    where y: "pop q1 = Inr (y, q2)" "elems q1 = add_mset y (elems q2)" by blast
  show ?thesis by (rule that [OF x(1) y(1)]) (simp add: x(2) y(2))
qed

lemma elems_push_all: "elems (fold push xs q) = mset xs + elems q"
  by (induction xs arbitrary: q) (auto simp: elems_push)

end

locale min_queue = mset_queue push pop nothing elems + strict_weak_order lt
  for push :: "'a \<Rightarrow> 'q \<Rightarrow> 'q" and pop nothing elems lt +
  fixes ok :: "'q \<Rightarrow> bool"
  assumes ok_nothing: "ok nothing"
    and ok_push: "ok q \<Longrightarrow> ok (push x q)"
    and ok_pop: "ok q \<Longrightarrow> elems q \<noteq> {#} \<Longrightarrow> pop q = Inr (x, q') \<Longrightarrow> ok q'"
    and pop_least: "ok q \<Longrightarrow> elems q \<noteq> {#} \<Longrightarrow> pop q = Inr (x, q') \<Longrightarrow> y \<in># elems q \<Longrightarrow> \<not> lt y x"
begin

lemma ok_push_all: "ok q \<Longrightarrow> ok (fold push xs q)"
  by (induction xs arbitrary: q) (auto intro: ok_push)

text \<open>Two successive pops return a least element and a least one of the rest.\<close>

lemma pop_two_least:
  assumes "ok q" "pop q = Inr (x, q1)" "pop q1 = Inr (y, q2)" "2 \<le> size (elems q)"
  shows "\<not> lt y x" and "z \<in># elems q2 \<Longrightarrow> \<not> lt z y" and "ok q2"
proof -
  have ne: "elems q \<noteq> {#}" using assms(4) by auto
  have q: "elems q = add_mset x (elems q1)" by (rule pop_elems [OF assms(2) ne])
  with assms(4) have ne1: "elems q1 \<noteq> {#}" by auto
  have q1: "elems q1 = add_mset y (elems q2)" by (rule pop_elems [OF assms(3) ne1])
  have ok1: "ok q1" by (rule ok_pop [OF assms(1) ne assms(2)])
  show "\<not> lt y x" by (rule pop_least [OF assms(1) ne assms(2)]) (simp add: q q1)
  show "z \<in># elems q2 \<Longrightarrow> \<not> lt z y"
    by (rule pop_least [OF ok1 ne1 assms(3)]) (simp add: q1)
  show "ok q2" by (rule ok_pop [OF ok1 ne1 assms(3)])
qed

end

section \<open>The list heap\<close>

definition parent :: "nat \<Rightarrow> nat" where
  "parent i = (i - 1) div 2"

function siftdown :: "('a \<Rightarrow> 'a \<Rightarrow> bool) \<Rightarrow> 'a list \<Rightarrow> nat \<Rightarrow> nat \<Rightarrow> 'a \<Rightarrow> 'a list" where
  "siftdown lt heap startpos pos newitem =
     (if startpos < pos \<and> lt newitem (heap ! parent pos)
      then siftdown lt (heap[pos := heap ! parent pos]) startpos (parent pos) newitem
      else heap[pos := newitem])"
  by pat_completeness auto
termination
  by (relation "measure (\<lambda>(lt, heap, startpos, pos, newitem). pos)") (auto simp: parent_def)

text \<open>Moving the smaller child up until the hole reaches a leaf.\<close>

definition smaller_child :: "('a \<Rightarrow> 'a \<Rightarrow> bool) \<Rightarrow> 'a list \<Rightarrow> nat \<Rightarrow> nat" where
  "smaller_child lt heap pos =
     (let childpos = 2 * pos + 1; rightpos = childpos + 1
      in if rightpos < length heap \<and> \<not> lt (heap ! childpos) (heap ! rightpos)
         then rightpos else childpos)"

function siftup :: "('a \<Rightarrow> 'a \<Rightarrow> bool) \<Rightarrow> 'a list \<Rightarrow> nat \<Rightarrow> 'a list \<times> nat" where
  "siftup lt heap pos =
     (if 2 * pos + 1 < length heap
      then let c = smaller_child lt heap pos in siftup lt (heap[pos := heap ! c]) c
      else (heap, pos))"
  by pat_completeness auto
termination
  by (relation "measure (\<lambda>(lt, heap, pos). length heap - pos)")
     (auto simp: smaller_child_def Let_def)

declare siftdown.simps [simp del] siftup.simps [simp del]

definition heappush :: "('a \<Rightarrow> 'a \<Rightarrow> bool) \<Rightarrow> 'a \<Rightarrow> 'a list \<Rightarrow> 'a list" where
  "heappush lt item heap = siftdown lt (heap @ [item]) 0 (length heap) item"

definition heappop :: "('a \<Rightarrow> 'a \<Rightarrow> bool) \<Rightarrow> 'a list \<Rightarrow> ('a \<times> 'a list) result" where
  "heappop lt heap =
     (if heap = [] then Inl IndexError
      else let lastelt = last heap; rest = butlast heap in
        if rest = [] then Inr (lastelt, [])
        else let (heap', pos) = siftup lt (rest[0 := lastelt]) 0
             in Inr (hd rest, siftdown lt heap' 0 pos lastelt))"

subsection \<open>Elements\<close>

lemma mset_swap_update:
  assumes "i < length xs" "j < length xs"
  shows "mset (xs[i := xs ! j, j := x]) = mset (xs[i := x])"
proof (cases "i = j")
  case False
  have "(xs[i := x])[i := xs[i := x] ! j, j := xs[i := x] ! i] = xs[i := xs ! j, j := x]"
    using assms False by (simp add: list_update_swap)
  with mset_swap [of j "xs[i := x]" i] assms show ?thesis by simp
qed simp

lemma siftdown_length [simp]: "length (siftdown lt heap s pos x) = length heap"
proof (induction lt heap s pos x rule: siftdown.induct)
  case (1 lt heap s pos x)
  then show ?case by (simp add: siftdown.simps [of lt heap])
qed

lemma siftdown_mset:
  "pos < length heap \<Longrightarrow> mset (siftdown lt heap s pos x) = mset (heap[pos := x])"
proof (induction lt heap s pos x rule: siftdown.induct)
  case (1 lt heap s pos x)
  have "parent pos < length heap" using "1.prems" by (simp add: parent_def)
  with 1 show ?case
    by (simp add: siftdown.simps [of lt heap] mset_swap_update)
qed

lemma smaller_child_cases:
  "smaller_child lt heap pos = 2 * pos + 1 \<or>
   (smaller_child lt heap pos = 2 * pos + 2 \<and> 2 * pos + 2 < length heap)"
  by (auto simp: smaller_child_def Let_def)

lemma siftup_mset:
  "pos < length heap \<Longrightarrow> siftup lt heap pos = (heap', pos') \<Longrightarrow>
     pos' < length heap \<and> length heap' = length heap \<and>
     mset (heap'[pos' := x]) = mset (heap[pos := x])"
proof (induction lt heap pos rule: siftup.induct)
  case (1 lt heap pos)
  show ?case
  proof (cases "2 * pos + 1 < length heap")
    case True
    define c where "c = smaller_child lt heap pos"
    have c: "c < length heap" using smaller_child_cases [of lt heap pos] True c_def by auto
    have "siftup lt (heap[pos := heap ! c]) c = (heap', pos')"
      using "1.prems"(2) True by (simp add: siftup.simps [of lt heap] c_def Let_def)
    with "1.IH" [OF True c_def] c "1.prems"(1) mset_swap_update [of pos heap c x]
    show ?thesis by simp
  next
    case False
    with 1 show ?thesis by (simp add: siftup.simps [of lt heap])
  qed
qed

lemma heappush_mset [simp]: "mset (heappush lt x heap) = add_mset x (mset heap)"
  by (simp add: heappush_def siftdown_mset)

lemma heappop_mset:
  assumes "heap \<noteq> []"
  shows "\<exists>x heap'. heappop lt heap = Inr (x, heap') \<and> mset heap = add_mset x (mset heap')"
proof -
  define rest where "rest = butlast heap"
  have heap: "heap = rest @ [last heap]" using assms by (simp add: rest_def)
  show ?thesis
  proof (cases "rest = []")
    case True
    then have "heappop lt heap = Inr (last heap, [])"
      using assms by (simp add: heappop_def rest_def [symmetric] Let_def)
    moreover have "mset heap = {#last heap#}" by (subst heap) (simp add: True)
    ultimately show ?thesis by auto
  next
    case False
    obtain h p where hp: "siftup lt (rest[0 := last heap]) 0 = (h, p)" by fastforce
    from siftup_mset [OF _ hp, of "last heap"] False
    have "p < length h" "mset (h[p := last heap]) = mset (rest[0 := last heap])" by auto
    with False have "mset (siftdown lt h 0 p (last heap)) = mset (rest[0 := last heap])"
      by (simp add: siftdown_mset)
    also have "add_mset (hd rest) \<dots> = mset heap"
      using False by (subst heap) (cases rest; simp)
    finally have "mset heap = add_mset (hd rest) (mset (siftdown lt h 0 p (last heap)))" by simp
    moreover have "heappop lt heap = Inr (hd rest, siftdown lt h 0 p (last heap))"
      using False assms hp by (simp add: heappop_def rest_def [symmetric] Let_def)
    ultimately show ?thesis by blast
  qed
qed

interpretation heapq: mset_queue "heappush lt" "heappop lt" "[]" mset for lt
  using heappop_mset by unfold_locales auto

lemma heappop_length: "heappop lt heap = Inr (x, heap') \<Longrightarrow> length heap = Suc (length heap')"
proof -
  assume pop: "heappop lt heap = Inr (x, heap')"
  then have "mset heap \<noteq> {#}" by (auto simp: heappop_def)
  from heapq.pop_elems [OF pop this] have "size (mset heap) = size (add_mset x (mset heap'))" by simp
  then show "length heap = Suc (length heap')" by simp
qed

lemma heappush_length [simp]: "length (heappush lt x heap) = Suc (length heap)"
  by (simp add: heappush_def)

subsection \<open>Heap order\<close>

definition heap_ok :: "('a \<Rightarrow> 'a \<Rightarrow> bool) \<Rightarrow> 'a list \<Rightarrow> bool" where
  "heap_ok lt heap \<longleftrightarrow> (\<forall>i. 0 < i \<and> i < length heap \<longrightarrow> \<not> lt (heap ! i) (heap ! parent i))"

text \<open>
  The two loops work on a heap with a hole. Going down, the edges that touch the hole are not
  constrained, but the children of the hole respect its parent; going up, only the edge from the
  hole to its parent is not constrained once the new item is put in the hole.
\<close>

definition grandparent_ok :: "('a \<Rightarrow> 'a \<Rightarrow> bool) \<Rightarrow> 'a list \<Rightarrow> nat \<Rightarrow> bool" where
  "grandparent_ok lt heap pos \<longleftrightarrow> (0 < pos \<longrightarrow>
     (\<forall>i. 0 < i \<and> i < length heap \<and> parent i = pos \<longrightarrow> \<not> lt (heap ! i) (heap ! parent pos)))"

definition hole_ok :: "('a \<Rightarrow> 'a \<Rightarrow> bool) \<Rightarrow> 'a list \<Rightarrow> nat \<Rightarrow> bool" where
  "hole_ok lt heap pos \<longleftrightarrow> grandparent_ok lt heap pos \<and>
     (\<forall>i. 0 < i \<and> i < length heap \<and> i \<noteq> pos \<and> parent i \<noteq> pos \<longrightarrow>
        \<not> lt (heap ! i) (heap ! parent i))"

lemma parent_less: "0 < i \<Longrightarrow> parent i < i"
  by (auto simp: parent_def)

lemma parent_iff: "0 < i \<Longrightarrow> parent i = p \<longleftrightarrow> i = 2 * p + 1 \<or> i = 2 * p + 2"
  by (auto simp: parent_def)

lemma heappop_head: "heappop lt heap = Inr (x, heap') \<Longrightarrow> heap \<noteq> [] \<and> x = hd heap"
  by (cases heap) (auto simp: heappop_def Let_def split: if_splits prod.splits)

context strict_weak_order
begin

lemma hole_step:
  assumes "pos < length heap" "hole_ok lt heap pos" "2 * pos + 1 < length heap"
    and c_def: "c = smaller_child lt heap pos"
  shows "hole_ok lt (heap[pos := heap ! c]) c"
proof -
  have c: "c < length heap" "parent c = pos" "c \<noteq> pos" "0 < c"
    using smaller_child_cases [of lt heap pos] assms(3) c_def by (auto simp: parent_def)
  have sib: "\<not> lt (heap ! i) (heap ! c)"
    if "0 < i" "i < length heap" "parent i = pos" "i \<noteq> c" for i
    using that assms(3) c_def lt_asym
    by (auto simp: parent_iff smaller_child_def Let_def split: if_splits)
  have edge: "\<not> lt (heap ! i) (heap ! parent i)"
    if "0 < i" "i < length heap" "i \<noteq> pos" "parent i \<noteq> pos" for i
    using that assms(2) by (simp add: hole_ok_def)
  have gp: "\<not> lt (heap ! i) (heap ! parent pos)"
    if "0 < i" "i < length heap" "parent i = pos" "0 < pos" for i
    using that assms(2) by (simp add: hole_ok_def grandparent_ok_def)
  have "\<not> lt (heap ! i) (heap ! c)" if "0 < i" "i < length heap" "parent i = c" for i
    using edge [of i] that c parent_less [of i] parent_less [of c] by auto
  moreover have "i \<noteq> pos" if "parent i = c" for i
    using that c parent_less [of c] parent_less [of i] by (cases "i = 0") (auto simp: parent_def)
  ultimately have 1: "grandparent_ok lt (heap[pos := heap ! c]) c"
    using c assms(1) unfolding grandparent_ok_def by (metis length_list_update nth_list_update_eq nth_list_update_neq)
  have 2: "\<not> lt (heap[pos := heap ! c] ! i) (heap[pos := heap ! c] ! parent i)"
    if i: "0 < i" "i < length heap" "i \<noteq> c" "parent i \<noteq> c" for i
  proof (cases "i = pos")
    case True
    with gp [OF c(4,1,2)] i(1) parent_less [of i] assms(1) show ?thesis by simp
  next
    case False
    with i edge [of i] sib [of i] assms(1) show ?thesis by (cases "parent i = pos") auto
  qed
  from 1 2 show ?thesis by (simp add: hole_ok_def)
qed

lemma siftup_hole:
  "pos < length heap \<Longrightarrow> hole_ok lt heap pos \<Longrightarrow> siftup lt heap pos = (heap', pos') \<Longrightarrow>
     hole_ok lt heap' pos' \<and> length heap' \<le> 2 * pos' + 1"
proof (induction "length heap - pos" arbitrary: heap pos rule: less_induct)
  case less
  show ?case
  proof (cases "2 * pos + 1 < length heap")
    case True
    define c where "c = smaller_child lt heap pos"
    have c: "c < length heap" "pos < c"
      using smaller_child_cases [of lt heap pos] True c_def by auto
    have "hole_ok lt (heap[pos := heap ! c]) c"
      by (rule hole_step [OF less.prems(1,2) True c_def])
    moreover have "siftup lt (heap[pos := heap ! c]) c = (heap', pos')"
      using less.prems(3) True by (simp add: siftup.simps [of lt heap] c_def Let_def)
    ultimately show ?thesis using less.hyps [of "heap[pos := heap ! c]" c] c by simp
  next
    case False
    with less show ?thesis by (simp add: siftup.simps [of lt heap])
  qed
qed

lemma siftdown_heap_ok:
  assumes "pos < length heap" "hole_ok lt heap pos"
    and "\<forall>i. 0 < i \<and> i < length heap \<and> parent i = pos \<longrightarrow> \<not> lt (heap ! i) x"
  shows "heap_ok lt (siftdown lt heap 0 pos x)"
  using assms
proof (induction pos arbitrary: heap rule: less_induct)
  case (less pos)
  note edge = less.prems(2) [unfolded hole_ok_def grandparent_ok_def]
  show ?case
  proof (cases "0 < pos \<and> lt x (heap ! parent pos)")
    case True
    define p where "p = parent pos"
    have p: "p < pos" "p < length heap"
      using True parent_less [of pos] less.prems(1) by (auto simp: p_def)
    have up: "\<not> lt (heap ! i) (heap ! p)"
      if "0 < i" "i < length heap" "parent i = p" "i \<noteq> pos" for i
      using edge that p by auto
    have below: "\<not> lt (heap ! i) (heap ! p)"
      if "0 < i" "i < length heap" "parent i = pos" for i
      using edge that True by (auto simp: p_def)
    have pp: "\<not> lt (heap ! p) (heap ! parent p)" if "0 < p"
      using edge that p parent_less [of p] by auto
    let ?h = "heap[pos := heap ! p]"
    have "hole_ok lt ?h p"
      unfolding hole_ok_def grandparent_ok_def
    proof (intro conjI impI allI)
      fix i assume a: "0 < p" "0 < i \<and> i < length ?h \<and> parent i = p"
      have q: "parent p \<noteq> pos" using parent_less [OF a(1)] p by simp
      show "\<not> lt (?h ! i) (?h ! parent p)"
        using a q pp [OF a(1)] up [of i] less.prems(1) not_lt_trans [of "heap ! p" "heap ! parent p" "heap ! i"]
        by (cases "i = pos") auto
    next
      fix i assume "0 < i \<and> i < length ?h \<and> i \<noteq> p \<and> parent i \<noteq> p"
      then show "\<not> lt (?h ! i) (?h ! parent i)"
        using edge below [of i] less.prems(1) by (cases "i = pos"; cases "parent i = pos") (auto simp: p_def)
    qed
    moreover have "\<not> lt (?h ! i) x" if "0 < i" "i < length heap" "parent i = p" for i
    proof (cases "i = pos")
      case True
      with \<open>0 < pos \<and> lt x (heap ! parent pos)\<close> lt_asym less.prems(1) show ?thesis by (simp add: p_def)
    next
      case False
      have "lt x (heap ! p)" using True by (simp add: p_def)
      with up [OF that False] lt_trans have "\<not> lt (heap ! i) x" by blast
      with False show ?thesis by simp
    qed
    ultimately have "heap_ok lt (siftdown lt ?h 0 p x)"
      using less.IH [OF p(1), of ?h] p by simp
    with True show ?thesis by (simp add: siftdown.simps [of lt heap] p_def)
  next
    case False
    then have "siftdown lt heap 0 pos x = heap[pos := x]" by (subst siftdown.simps) auto
    moreover have "\<not> lt (heap[pos := x] ! i) (heap[pos := x] ! parent i)"
      if "0 < i" "i < length heap" for i
      using that False less.prems edge parent_less [of i]
      by (cases "i = pos"; cases "parent i = pos") auto
    ultimately show ?thesis by (simp add: heap_ok_def)
  qed
qed

lemma heap_ok_root: "heap_ok lt heap \<Longrightarrow> i < length heap \<Longrightarrow> \<not> lt (heap ! i) (heap ! 0)"
proof (induction i rule: less_induct)
  case (less i)
  show ?case
  proof (cases "i = 0")
    case False
    with less parent_less [of i] have "\<not> lt (heap ! parent i) (heap ! 0)" "\<not> lt (heap ! i) (heap ! parent i)"
      by (auto simp: heap_ok_def)
    then show ?thesis using not_lt_trans by blast
  qed (use lt_asym in blast)
qed

lemma heappush_heap_ok: "heap_ok lt heap \<Longrightarrow> heap_ok lt (heappush lt x heap)"
  unfolding heappush_def
proof (rule siftdown_heap_ok)
  assume ok: "heap_ok lt heap"
  have inner: "parent i < length heap" if "i < length (heap @ [x])" "0 < i" for i
    using that parent_less [of i] by simp
  then have no_child: "parent i \<noteq> length heap" if "i < length (heap @ [x])" "0 < i" for i
    using that by (metis less_irrefl)
  show "hole_ok lt (heap @ [x]) (length heap)"
    unfolding hole_ok_def grandparent_ok_def
  proof (intro conjI impI allI)
    fix i assume "0 < i \<and> i < length (heap @ [x]) \<and> i \<noteq> length heap \<and> parent i \<noteq> length heap"
    then show "\<not> lt ((heap @ [x]) ! i) ((heap @ [x]) ! parent i)"
      using ok inner [of i] by (auto simp: nth_append heap_ok_def)
  qed (use no_child in blast)
  show "\<forall>i. 0 < i \<and> i < length (heap @ [x]) \<and> parent i = length heap \<longrightarrow> \<not> lt ((heap @ [x]) ! i) x"
    using no_child by blast
qed simp

lemma heappop_heap_ok:
  assumes "heap_ok lt heap" "heap \<noteq> []" "heappop lt heap = Inr (x, heap')"
  shows "heap_ok lt heap'" and "y \<in> set heap \<Longrightarrow> \<not> lt y x"
proof -
  define rest where "rest = butlast heap"
  have heap: "heap = rest @ [last heap]" using assms(2) by (simp add: rest_def)
  have edge: "\<not> lt (rest ! i) (rest ! parent i)" if "0 < i" "i < length rest" for i
  proof -
    have "\<not> lt (heap ! i) (heap ! parent i)"
      using assms(1) that by (simp add: heap_ok_def rest_def)
    moreover have "heap ! j = rest ! j" if "j < length rest" for j
      using that by (simp add: rest_def nth_butlast)
    ultimately show ?thesis using that parent_less [of i] by simp
  qed
  have hd: "x = heap ! 0"
    using assms(3)
    by (metis hd_conv_nth heappop_head)
  show "\<not> lt y x" if "y \<in> set heap"
    using that heap_ok_root [OF assms(1)] by (auto simp: hd in_set_conv_nth)
  show "heap_ok lt heap'"
  proof (cases "rest = []")
    case True
    then show ?thesis using assms(2,3) by (auto simp: heappop_def rest_def [symmetric] heap_ok_def)
  next
    case False
    obtain h p where hp: "siftup lt (rest[0 := last heap]) 0 = (h, p)" by fastforce
    have "hole_ok lt (rest[0 := last heap]) 0"
      using edge by (auto simp: hole_ok_def grandparent_ok_def)
    from siftup_hole [OF _ this hp] siftup_mset [OF _ hp] False
    have h: "hole_ok lt h p" "length h \<le> 2 * p + 1" "p < length h" by auto
    moreover have "parent i \<noteq> p" if "0 < i" "i < length h" for i
      using that h(2) parent_iff [of i p] by auto
    ultimately have "heap_ok lt (siftdown lt h 0 p (last heap))"
      by (intro siftdown_heap_ok) auto
    with False assms(2,3) hp show ?thesis
      by (simp add: heappop_def rest_def [symmetric] Let_def)
  qed
qed

end

sublocale strict_weak_order \<subseteq> sorted_heap: min_queue "heappush lt" "heappop lt" "[]" mset lt "heap_ok lt"
  using heappush_heap_ok heappop_heap_ok
  by unfold_locales (auto simp: heap_ok_def [of lt "[]"])

end
