(* ===== verification/Seqlen_Balancing.thy ===== *)
theory Seqlen_Balancing
  imports Heapq
begin

text \<open>
  \<open>vime/utils/seqlen_balancing.py\<close>: the Karmarkar-Karp differencing method over a heap of
  partial partitions, the check-and-sort wrapper around it, first-fit packing, and growing a
  packing by splitting its largest bins. The weights of Karmarkar-Karp are elements of an
  arbitrary ordered ring (token counts or FLOP estimates); packing works on token counts.
\<close>

section \<open>Karmarkar-Karp: data\<close>

record 'v kk_set =
  ks_sum :: 'v
  ks_items :: "(nat \<times> 'v) list"

record 'v kk_state =
  st_k :: nat
  st_sets :: "'v kk_set list"

definition kk_set_new :: "'v::linordered_idom kk_set" where
  "kk_set_new = \<lparr>ks_sum = 0, ks_items = []\<rparr>"

definition kk_set_add :: "nat \<Rightarrow> 'v::linordered_idom \<Rightarrow> 'v kk_set \<Rightarrow> 'v kk_set" where
  "kk_set_add idx val s = s\<lparr>ks_items := ks_items s @ [(idx, val)], ks_sum := ks_sum s + val\<rparr>"

definition kk_set_merge :: "'v::linordered_idom kk_set \<Rightarrow> 'v kk_set \<Rightarrow> 'v kk_set" where
  "kk_set_merge s other = foldl (\<lambda>s (idx, val). kk_set_add idx val s) s (ks_items other)"

definition kk_set_lt :: "'v::linordered_idom kk_set \<Rightarrow> 'v kk_set \<Rightarrow> bool" where
  "kk_set_lt a b =
     (if ks_sum a \<noteq> ks_sum b then ks_sum a < ks_sum b
      else if length (ks_items a) \<noteq> length (ks_items b)
      then length (ks_items a) < length (ks_items b)
      else list_lt tuple_lt (ks_items a) (ks_items b))"

definition kk_state_new :: "(nat \<times> 'v::linordered_idom) list \<Rightarrow> nat \<Rightarrow> 'v kk_state result" where
  "kk_state_new items k =
     (if length items \<notin> {1, k} then Inl (AssertionError ''len(items) not in [1, k]'')
      else if k < length items then Inl IndexError
      else Inr \<lparr>st_k = k,
                st_sets = py_sorted_rev kk_set_lt
                  (map (\<lambda>(idx, seqlen). kk_set_add idx seqlen kk_set_new) items
                   @ replicate (k - length items) kk_set_new)\<rparr>)"

definition get_partitions :: "'v kk_state \<Rightarrow> nat list list" where
  "get_partitions st = map (\<lambda>s. map fst (ks_items s)) (st_sets st)"

definition kk_state_merge :: "'v::linordered_idom kk_state \<Rightarrow> 'v kk_state \<Rightarrow> 'v kk_state" where
  "kk_state_merge st other = st\<lparr>st_sets := py_sorted_rev kk_set_lt
     (map (\<lambda>i. kk_set_merge (st_sets st ! i) (st_sets other ! (st_k st - 1 - i))) [0..<st_k st])\<rparr>"

definition spread :: "'v::linordered_idom kk_state \<Rightarrow> 'v" where
  "spread st = ks_sum (hd (st_sets st)) - ks_sum (last (st_sets st))"

definition kk_state_lt :: "'v::linordered_idom kk_state \<Rightarrow> 'v kk_state \<Rightarrow> bool" where
  "kk_state_lt a b =
     (if spread a \<noteq> spread b then spread a > spread b
      else kk_set_lt (hd (st_sets b)) (hd (st_sets a)))"

section \<open>Karmarkar-Karp: the algorithm\<close>

definition sorted_seqlen_list :: "'v::linordered_idom list \<Rightarrow> ('v \<times> nat) list" where
  "sorted_seqlen_list seqlen_list = py_sorted tuple_lt (zip seqlen_list [0..<length seqlen_list])"

text \<open>The item lists the initial states are built from: consecutive runs of \<open>k\<close> items of the
  sorted list when every partition must get the same number of items, single items otherwise.\<close>

definition initial_items :: "'v::linordered_idom list \<Rightarrow> nat \<Rightarrow> bool \<Rightarrow> (nat \<times> 'v) list list" where
  "initial_items seqlen_list k equal_size =
     (let xs = map (\<lambda>(seqlen, idx). (idx, seqlen)) (sorted_seqlen_list seqlen_list)
      in if equal_size
         then map (\<lambda>j. map (\<lambda>i. xs ! (j * k + i)) [0..<k]) [0..<length xs div k]
         else map (\<lambda>x. [x]) xs)"

definition push_states ::
  "nat \<Rightarrow> (nat \<times> 'v::linordered_idom) list list \<Rightarrow> 'v kk_state list result" where
  "push_states k itemss = res_fold
     (\<lambda>pq items. res_bind (kk_state_new items k) (\<lambda>st. Inr (heappush kk_state_lt st pq))) [] itemss"

function kk_loop :: "'v::linordered_idom kk_state list \<Rightarrow> 'v kk_state list result" where
  "kk_loop states_pq =
     (if 1 < length states_pq
      then case heappop kk_state_lt states_pq of
          Inl e \<Rightarrow> Inl e
        | Inr (state0, pq1) \<Rightarrow>
            (case heappop kk_state_lt pq1 of
               Inl e \<Rightarrow> Inl e
             | Inr (state1, pq2) \<Rightarrow>
                 kk_loop (heappush kk_state_lt (kk_state_merge state0 state1) pq2))
      else Inr states_pq)"
  by pat_completeness auto
termination
  by (relation "measure length") (auto dest!: heappop_length)

declare kk_loop.simps [simp del]

definition karmarkar_karp ::
  "'v::linordered_idom list \<Rightarrow> nat \<Rightarrow> bool \<Rightarrow> nat list list result" where
  "karmarkar_karp seqlen_list k_partitions equal_size =
     (if equal_size \<and> k_partitions = 0 then Inl ZeroDivisionError
      else if equal_size \<and> length seqlen_list mod k_partitions \<noteq> 0
      then Inl (AssertionError ''len(seqlen_list) % k_partitions != 0'')
      else res_bind (push_states k_partitions (initial_items seqlen_list k_partitions equal_size))
        (\<lambda>states_pq. res_bind (kk_loop states_pq)
          (\<lambda>final_pq. res_bind (py_nth final_pq 0)
            (\<lambda>final_state.
               let partitions = get_partitions final_state in
               if equal_size \<and>
                  (\<exists>p \<in> set partitions. length p * k_partitions \<noteq> length seqlen_list)
               then Inl (AssertionError ''len(partition) * k_partitions != len(seqlen_list)'')
               else Inr partitions))))"

definition check_and_sort_partitions :: "nat \<Rightarrow> nat \<Rightarrow> nat list list \<Rightarrow> nat list list result" where
  "check_and_sort_partitions n k_partitions partitions =
     (if length partitions \<noteq> k_partitions then Inl (AssertionError ''len(partitions) != k_partitions'')
      else if \<exists>p \<in> set partitions. p = [] then Inl (AssertionError ''partition is empty'')
      else if set (concat partitions) \<noteq> set [0..<n] then Inl (AssertionError ''seen_idx'')
      else Inr (map sort partitions))"

definition get_seqlen_balanced_partitions ::
  "'v::linordered_idom list \<Rightarrow> nat \<Rightarrow> bool \<Rightarrow> nat list list result" where
  "get_seqlen_balanced_partitions seqlen_list k_partitions equal_size =
     (if length seqlen_list < k_partitions
      then Inl (AssertionError ''number of items < k_partitions'')
      else res_bind (karmarkar_karp seqlen_list k_partitions equal_size)
             (check_and_sort_partitions (length seqlen_list) k_partitions))"

section \<open>First-fit packing and splitting\<close>

fun find_fit :: "nat \<Rightarrow> nat \<Rightarrow> nat list \<Rightarrow> nat option" where
  "find_fit len cap [] = None"
| "find_fit len cap (s # ss) =
     (if s + len \<le> cap then Some 0 else map_option Suc (find_fit len cap ss))"

definition first_fit_step ::
  "nat \<Rightarrow> nat list list \<times> nat list \<Rightarrow> nat \<times> nat \<Rightarrow> nat list list \<times> nat list" where
  "first_fit_step cap = (\<lambda>(bins, bin_sums) (idx, len).
     case find_fit len cap bin_sums of
       Some j \<Rightarrow> (bins[j := bins ! j @ [idx]], bin_sums[j := bin_sums ! j + len])
     | None \<Rightarrow> (bins @ [[idx]], bin_sums @ [len]))"

definition first_fit_pack :: "nat list \<Rightarrow> nat \<Rightarrow> nat list list" where
  "first_fit_pack total_lengths max_tokens_per_bin =
     fst (foldl (first_fit_step max_tokens_per_bin) ([], []) (enumerate 0 total_lengths))"

definition split_step :: "nat list \<Rightarrow> (nat list \<times> nat list) \<times> (nat \<times> nat) \<Rightarrow> nat
    \<Rightarrow> (nat list \<times> nat list) \<times> (nat \<times> nat)" where
  "split_step lengths = (\<lambda>((left, right), (s0, s1)) idx.
     if s0 \<le> s1 then ((left @ [idx], right), (s0 + lengths ! idx, s1))
     else ((left, right @ [idx]), (s0, s1 + lengths ! idx)))"

definition split_bin_by_tokens :: "nat list \<Rightarrow> nat list \<Rightarrow> nat list \<times> nat list" where
  "split_bin_by_tokens bin_indices lengths =
     fst (foldl (split_step lengths) (([], []), (0, 0))
       (sort_key (\<lambda>i. - int (lengths ! i)) bin_indices))"

definition bin_sum :: "nat list \<Rightarrow> nat list \<Rightarrow> nat" where
  "bin_sum lengths b = sum_list (map (\<lambda>i. lengths ! i) b)"

definition split_candidates :: "nat list list \<Rightarrow> nat list \<Rightarrow> (nat \<times> nat) list" where
  "split_candidates bins lengths =
     map (\<lambda>(idx, b). (bin_sum lengths b, idx)) (filter (\<lambda>(idx, b). 1 < length b) (enumerate 0 bins))"

function expand_bins_by_splitting :: "nat list list \<Rightarrow> nat \<Rightarrow> nat list \<Rightarrow> nat list list" where
  "expand_bins_by_splitting bins target_count lengths =
     (if length bins < target_count
      then case split_candidates bins lengths of
          [] \<Rightarrow> bins
        | c # cs \<Rightarrow>
            let idx = snd (py_max tuple_lt c cs);
                (left, right) = split_bin_by_tokens (bins ! idx) lengths
            in expand_bins_by_splitting (bins[idx := left] @ [right]) target_count lengths
      else bins)"
  by pat_completeness auto
termination
  by (relation "measure (\<lambda>(bins, target, lengths). target - length bins)") auto

declare expand_bins_by_splitting.simps [simp del]

section \<open>Orders\<close>

interpretation kk_set_order: strict_weak_order "kk_set_lt :: 'v::linordered_idom kk_set \<Rightarrow> _"
proof unfold_locales
  fix x y z :: "'v kk_set"
  show "kk_set_lt x y \<Longrightarrow> \<not> kk_set_lt y x"
    using tuple_list.lt_asym by (auto simp: kk_set_lt_def split: if_splits)
  show "kk_set_lt x z \<Longrightarrow> kk_set_lt x y \<or> kk_set_lt y z"
    using tuple_list.lt_split [of "ks_items x" "ks_items z" "ks_items y"]
    by (auto simp: kk_set_lt_def split: if_splits)
qed

interpretation kk_order: strict_weak_order "kk_state_lt :: 'v::linordered_idom kk_state \<Rightarrow> _"
proof unfold_locales
  fix x y z :: "'v kk_state"
  show "kk_state_lt x y \<Longrightarrow> \<not> kk_state_lt y x"
    using kk_set_order.lt_asym by (auto simp: kk_state_lt_def split: if_splits)
  show "kk_state_lt x z \<Longrightarrow> kk_state_lt x y \<or> kk_state_lt y z"
    using kk_set_order.lt_split [of "hd (st_sets z)" "hd (st_sets x)" "hd (st_sets y)"]
    by (auto simp: kk_state_lt_def split: if_splits)
qed

lemma kk_state_not_lt_spread: "\<not> kk_state_lt a b \<Longrightarrow> spread a \<le> spread b"
  by (auto simp: kk_state_lt_def split: if_splits)

section \<open>Sets and states: what merging keeps\<close>

lemma kk_set_merge_items [simp]: "ks_items (kk_set_merge s other) = ks_items s @ ks_items other"
proof -
  have "ks_items (foldl (\<lambda>s (idx, val). kk_set_add idx val s) s xs) = ks_items s @ xs" for xs
    by (induction xs arbitrary: s) (auto simp: kk_set_add_def)
  then show ?thesis by (simp add: kk_set_merge_def)
qed

lemma kk_set_merge_sum [simp]:
  "ks_sum (kk_set_merge s other) = ks_sum s + sum_list (map snd (ks_items other))"
proof -
  have "ks_sum (foldl (\<lambda>s (idx, val). kk_set_add idx val s) s xs) = ks_sum s + sum_list (map snd xs)" for xs
    by (induction xs arbitrary: s) (auto simp: kk_set_add_def algebra_simps)
  then show ?thesis by (simp add: kk_set_merge_def)
qed

definition st_items :: "'v kk_state \<Rightarrow> nat multiset" where
  "st_items st = mset (concat (get_partitions st))"

text \<open>The invariant of a state: \<open>k\<close> sets in decreasing order whose sums are the sums of their
  non-negative items.\<close>

definition kk_ok :: "nat \<Rightarrow> 'v::linordered_idom kk_state \<Rightarrow> bool" where
  "kk_ok k st \<longleftrightarrow> st_k st = k \<and> length (st_sets st) = k \<and>
     sorted_wrt (\<lambda>x y. \<not> kk_set_lt x y) (st_sets st) \<and>
     (\<forall>s \<in> set (st_sets st). ks_sum s = sum_list (map snd (ks_items s)) \<and>
        (\<forall>p \<in> set (ks_items s). 0 \<le> snd p))"

abbreviation occupied :: "'v kk_set \<Rightarrow> bool" where
  "occupied s \<equiv> ks_items s \<noteq> []"

definition kk_spread_out :: "nat \<Rightarrow> 'v kk_state \<Rightarrow> bool" where
  "kk_spread_out k st \<longleftrightarrow> length (filter occupied (st_sets st)) = min k (size (st_items st))"

definition kk_even :: "'v kk_state \<Rightarrow> bool" where
  "kk_even st \<longleftrightarrow> (\<exists>m. \<forall>s \<in> set (st_sets st). length (ks_items s) = m)"

lemma index_pairs_rev:
  assumes "length xs = k" "length ys = k"
  shows "map (\<lambda>i. f (xs ! i) (ys ! (k - 1 - i))) [0..<k] = map2 f xs (rev ys)"
  using assms by (intro nth_equalityI) (auto simp: rev_nth)

lemma kk_state_merge_sets:
  assumes "kk_ok k a" "kk_ok k b"
  shows "st_sets (kk_state_merge a b) =
    py_sorted_rev kk_set_lt (map2 kk_set_merge (st_sets a) (rev (st_sets b)))"
  using assms index_pairs_rev [of "st_sets a" k "st_sets b" kk_set_merge]
  by (simp add: kk_state_merge_def kk_ok_def)

lemma mset_concat_perm: "mset xs = mset ys \<Longrightarrow> mset (concat (map f xs)) = mset (concat (map f ys))"
proof -
  have "mset (concat (map f zs)) = sum_mset (image_mset (\<lambda>z. mset (f z)) (mset zs))" for zs
    by (induction zs) auto
  then show "mset xs = mset ys \<Longrightarrow> ?thesis" by simp
qed

lemma zip_rev_mem: "(x, y) \<in> set (zip xs (rev ys)) \<Longrightarrow> x \<in> set xs \<and> y \<in> set ys"
  by (metis set_rev set_zip_leftD set_zip_rightD)

lemma length_filter_perm: "mset xs = mset ys \<Longrightarrow> length (filter P xs) = length (filter P ys)"
  by (metis mset_filter size_mset)

lemma mset_concat_map2_merge:
  "length xs = length ys \<Longrightarrow>
   mset (concat (map (\<lambda>s. map fst (ks_items s)) (map2 kk_set_merge xs ys))) =
   mset (concat (map (\<lambda>s. map fst (ks_items s)) xs)) + mset (concat (map (\<lambda>s. map fst (ks_items s)) ys))"
  by (induction xs ys rule: list_induct2) auto

lemma kk_merge_items:
  assumes "kk_ok k a" "kk_ok k b"
  shows "st_items (kk_state_merge a b) = st_items a + st_items b"
proof -
  let ?f = "\<lambda>s::'a kk_set. map fst (ks_items s)"
  have len: "length (st_sets a) = length (rev (st_sets b))" using assms by (simp add: kk_ok_def)
  have "st_items (kk_state_merge a b) = mset (concat (map ?f (map2 kk_set_merge (st_sets a) (rev (st_sets b)))))"
    unfolding st_items_def get_partitions_def kk_state_merge_sets [OF assms]
    by (rule mset_concat_perm) simp
  also have "\<dots> = st_items a + mset (concat (map ?f (rev (st_sets b))))"
    by (simp only: mset_concat_map2_merge [OF len] st_items_def get_partitions_def)
  also have "mset (concat (map ?f (rev (st_sets b)))) = st_items b"
    unfolding st_items_def get_partitions_def by (rule mset_concat_perm) simp
  finally show ?thesis .
qed

lemma kk_merge_ok:
  assumes "kk_ok k a" "kk_ok k b"
  shows "kk_ok k (kk_state_merge a b)"
proof -
  have "\<forall>s \<in> set (map2 kk_set_merge (st_sets a) (rev (st_sets b))).
      ks_sum s = sum_list (map snd (ks_items s)) \<and> (\<forall>p \<in> set (ks_items s). 0 \<le> snd p)"
  proof
    fix s assume "s \<in> set (map2 kk_set_merge (st_sets a) (rev (st_sets b)))"
    then obtain x y where "x \<in> set (st_sets a)" "y \<in> set (st_sets b)" "s = kk_set_merge x y"
      by (auto dest!: zip_rev_mem)
    with assms show "ks_sum s = sum_list (map snd (ks_items s)) \<and> (\<forall>p \<in> set (ks_items s). 0 \<le> snd p)"
      by (auto simp: kk_ok_def)
  qed
  moreover have "st_k (kk_state_merge a b) = k" using assms by (simp add: kk_state_merge_def kk_ok_def)
  ultimately show ?thesis
    using assms kk_set_order.sorted_py_sorted_rev
    by (simp add: kk_ok_def kk_state_merge_sets [OF assms])
qed

lemma kk_merge_even:
  assumes "kk_ok k a" "kk_ok k b" "kk_even a" "kk_even b"
  shows "kk_even (kk_state_merge a b)"
proof -
  from assms(3,4) obtain m m' where "\<forall>s \<in> set (st_sets a). length (ks_items s) = m"
    and "\<forall>s \<in> set (st_sets b). length (ks_items s) = m'" by (auto simp: kk_even_def)
  then have "\<forall>s \<in> set (st_sets (kk_state_merge a b)). length (ks_items s) = m + m'"
    by (auto simp: kk_state_merge_sets [OF assms(1,2)] dest!: zip_rev_mem)
  then show ?thesis by (auto simp: kk_even_def)
qed

subsection \<open>No set stays empty\<close>

text \<open>With non-negative items an empty set is smaller than a non-empty one, so the non-empty
  sets of a state are its first ones.\<close>

lemma filter_prefix_iff:
  "sorted_wrt (\<lambda>x y. P y \<longrightarrow> P x) xs \<Longrightarrow> i < length xs \<Longrightarrow> P (xs ! i) \<longleftrightarrow> i < length (filter P xs)"
proof (induction xs arbitrary: i)
  case (Cons x xs)
  show ?case
  proof (cases "P x")
    case True
    with Cons show ?thesis by (cases i) auto
  next
    case False
    with Cons.prems have "filter P (x # xs) = []" by (auto simp: filter_empty_conv)
    moreover have "\<not> P ((x # xs) ! i)"
      using Cons.prems False nth_mem [of i "x # xs"] by (metis calculation filter_empty_conv)
    ultimately show ?thesis by simp
  qed
qed simp

lemma kk_ok_occupied_prefix:
  assumes "kk_ok k st" "i < k"
  shows "occupied (st_sets st ! i) \<longleftrightarrow> i < length (filter occupied (st_sets st))"
proof (rule filter_prefix_iff)
  have "kk_set_lt e s" if "e \<in> set (st_sets st)" "s \<in> set (st_sets st)" "\<not> occupied e" "occupied s" for e s
  proof -
    have sums: "ks_sum x = sum_list (map snd (ks_items x))" "\<forall>v \<in> set (map snd (ks_items x)). 0 \<le> v"
      if "x \<in> set (st_sets st)" for x
      using assms(1) that by (auto simp: kk_ok_def)
    have "ks_sum e = 0" using sums(1) [OF that(1)] that(3) by simp
    moreover have "0 \<le> ks_sum s"
      using sums [OF that(2)] by (metis sum_list_nonneg)
    ultimately show ?thesis using that(3,4) by (auto simp: kk_set_lt_def)
  qed
  moreover have "sorted_wrt (\<lambda>x y. \<not> kk_set_lt x y) (st_sets st)" using assms(1) by (simp add: kk_ok_def)
  ultimately show "sorted_wrt (\<lambda>x y. occupied y \<longrightarrow> occupied x) (st_sets st)"
    by (auto elim!: sorted_wrt_mono_rel [rotated])
  show "i < length (st_sets st)" using assms by (simp add: kk_ok_def)
qed

lemma card_two_ended:
  assumes "x \<le> k" "y \<le> k"
  shows "card {i. i < k \<and> (i < x \<or> k - 1 - i < y)} = min k (x + (y::nat))"
proof (cases "x + y \<le> k")
  case True
  with assms have "{i. i < k \<and> (i < x \<or> k - 1 - i < y)} = {0..<x} \<union> {k - y..<k}" by auto
  also have "card \<dots> = x + y" using True assms by (subst card_Un_disjoint) auto
  finally show ?thesis using True by simp
next
  case False
  with assms have "{i. i < k \<and> (i < x \<or> k - 1 - i < y)} = {0..<k}" by auto
  with False show ?thesis by simp
qed

lemma kk_merge_spread_out:
  assumes "kk_ok k a" "kk_ok k b" "kk_spread_out k a" "kk_spread_out k b"
  shows "kk_spread_out k (kk_state_merge a b)"
proof -
  let ?L = "map2 kk_set_merge (st_sets a) (rev (st_sets b))"
  let ?na = "length (filter occupied (st_sets a))" and ?nb = "length (filter occupied (st_sets b))"
  have len: "length (st_sets a) = k" "length (st_sets b) = k" using assms by (auto simp: kk_ok_def)
  have "occupied (?L ! i) \<longleftrightarrow> i < ?na \<or> k - 1 - i < ?nb" if "i < k" for i
    using that len kk_ok_occupied_prefix [OF assms(1), of i] kk_ok_occupied_prefix [OF assms(2), of "k - 1 - i"]
    by (auto simp: rev_nth)
  moreover have "length ?L = k" using len by simp
  ultimately have "{i. i < length ?L \<and> occupied (?L ! i)} = {i. i < k \<and> (i < ?na \<or> k - 1 - i < ?nb)}"
    by (intro Collect_cong conj_cong) (simp_all only:)
  moreover have "?na \<le> k" "?nb \<le> k" using len by (metis length_filter_le)+
  ultimately have "length (filter occupied ?L) = min k (?na + ?nb)"
    by (simp only: length_filter_conv_card card_two_ended)
  moreover have "length (filter occupied (st_sets (kk_state_merge a b))) = length (filter occupied ?L)"
    unfolding kk_state_merge_sets [OF assms(1,2)] by (rule length_filter_perm) simp
  ultimately show ?thesis
    using assms(3,4) by (simp add: kk_spread_out_def kk_merge_items [OF assms(1,2)] min_def)
qed

subsection \<open>Merging keeps the sums close\<close>

text \<open>Largest sets are merged with smallest ones, so the distance between two sets of a merged state
  is at most the larger of the two states' distances.\<close>

definition kk_close :: "'v::linordered_idom \<Rightarrow> 'v kk_state \<Rightarrow> bool" where
  "kk_close m st \<longleftrightarrow> (\<forall>s \<in> set (st_sets st). \<forall>t \<in> set (st_sets st). ks_sum s \<le> ks_sum t + m)"

definition kk_weighs :: "'v list \<Rightarrow> 'v kk_state \<Rightarrow> bool" where
  "kk_weighs seqs st \<longleftrightarrow> (\<forall>s \<in> set (st_sets st). \<forall>p \<in> set (ks_items s). snd p = seqs ! fst p)"

lemma kk_ok_decreasing:
  assumes "kk_ok k st" "i \<le> j" "j < k"
  shows "ks_sum (st_sets st ! j) \<le> ks_sum (st_sets st ! i)"
proof (cases "i = j")
  case False
  then have "\<not> kk_set_lt (st_sets st ! i) (st_sets st ! j)"
    using assms sorted_wrt_nth_less [of _ "st_sets st" i j] by (auto simp: kk_ok_def)
  then show ?thesis by (auto simp: kk_set_lt_def split: if_splits)
qed simp

lemma kk_merge_close:
  assumes ok: "kk_ok k a" "kk_ok k b" and "kk_close m a" "kk_close m b"
  shows "kk_close m (kk_state_merge a b)"
proof -
  let ?A = "\<lambda>i. ks_sum (st_sets a ! i)" and ?B = "\<lambda>i. ks_sum (st_sets b ! (k - 1 - i))"
  have len: "length (st_sets a) = k" "length (st_sets b) = k" using ok by (auto simp: kk_ok_def)
  have sums: "\<exists>i < k. ks_sum s = ?A i + ?B i" if "s \<in> set (st_sets (kk_state_merge a b))" for s
  proof -
    from that obtain i where i: "i < k" "s = kk_set_merge (st_sets a ! i) (rev (st_sets b) ! i)"
      by (auto simp: kk_state_merge_sets [OF ok] in_set_zip len)
    moreover have "st_sets b ! (k - 1 - i) \<in> set (st_sets b)" using i(1) len by simp
    then have "ks_sum (st_sets b ! (k - 1 - i)) = sum_list (map snd (ks_items (st_sets b ! (k - 1 - i))))"
      using ok(2) by (simp only: kk_ok_def)
    ultimately show ?thesis using len by (auto simp: rev_nth)
  qed
  have close: "?A i + ?B i \<le> ?A j + ?B j + m" if "i < k" "j < k" for i j
  proof (cases "i \<le> j")
    case True
    have "?A i \<le> ?A j + m" using assms(3) that len by (simp add: kk_close_def)
    moreover have "?B i \<le> ?B j" using that True by (intro kk_ok_decreasing [OF ok(2)]) auto
    ultimately show ?thesis by (simp add: algebra_simps add_mono)
  next
    case False
    have "?B i \<le> ?B j + m" using assms(4) that len by (simp add: kk_close_def)
    moreover have "?A i \<le> ?A j" using that False by (intro kk_ok_decreasing [OF ok(1)]) auto
    ultimately show ?thesis by (simp add: add.assoc add_mono)
  qed
  show ?thesis unfolding kk_close_def
  proof (intro ballI)
    fix s t assume "s \<in> set (st_sets (kk_state_merge a b))" "t \<in> set (st_sets (kk_state_merge a b))"
    from sums [OF this(1)] sums [OF this(2)] close show "ks_sum s \<le> ks_sum t + m" by metis
  qed
qed

lemma kk_merge_weighs:
  assumes "kk_ok k a" "kk_ok k b" "kk_weighs seqs a" "kk_weighs seqs b"
  shows "kk_weighs seqs (kk_state_merge a b)"
  using assms(3,4)
  by (fastforce simp: kk_weighs_def kk_state_merge_sets [OF assms(1,2)] dest!: zip_rev_mem)

text \<open>Everything the loop maintains about a state.\<close>

definition kk_good :: "nat \<Rightarrow> bool \<Rightarrow> 'v list \<Rightarrow> 'v::linordered_idom \<Rightarrow> 'v kk_state \<Rightarrow> bool" where
  "kk_good k equal_size seqs m st \<longleftrightarrow> kk_ok k st \<and> kk_spread_out k st \<and> (equal_size \<longrightarrow> kk_even st) \<and>
     kk_weighs seqs st \<and> kk_close m st"

lemma kk_merge_good:
  assumes "kk_good k equal_size seqs m a" "kk_good k equal_size seqs m b"
  shows "kk_good k equal_size seqs m (kk_state_merge a b) \<and>
    st_items (kk_state_merge a b) = st_items a + st_items b"
  using assms kk_merge_ok [of k a b] kk_merge_spread_out [of k a b] kk_merge_even [of k a b]
    kk_merge_weighs [of k a b seqs] kk_merge_close [of k a b m] kk_merge_items [of k a b]
  by (simp add: kk_good_def)

section \<open>The loop\<close>

lemma kk_loop_step:
  assumes "1 < length pq" "heappop kk_state_lt pq = Inr (s0, q1)" "heappop kk_state_lt q1 = Inr (s1, q2)"
  shows "kk_loop pq = kk_loop (heappush kk_state_lt (kk_state_merge s0 s1) q2)"
  using assms by (subst kk_loop.simps) simp

text \<open>Any predicate merging keeps and any additive measure of the states pass through the loop.\<close>

lemma kk_loop_fold:
  fixes w :: "'v::linordered_idom kk_state \<Rightarrow> 'm::comm_monoid_add"
  assumes "pq \<noteq> []" "\<forall>st \<in> set pq. P st"
    and "\<And>a b. P a \<Longrightarrow> P b \<Longrightarrow> P (kk_state_merge a b) \<and> w (kk_state_merge a b) = w a + w b"
  shows "\<exists>st. kk_loop pq = Inr [st] \<and> P st \<and> w st = sum_mset (image_mset w (mset pq))"
  using assms(1,2)
proof (induction "length pq" arbitrary: pq rule: less_induct)
  case less
  show ?case
  proof (cases "1 < length pq")
    case True
    then have "2 \<le> size (mset pq)" by simp
    then obtain a q1 b q2 where pops: "heappop kk_state_lt pq = Inr (a, q1)"
        "heappop kk_state_lt q1 = Inr (b, q2)" and elems: "mset pq = {#a, b#} + mset q2"
      by (rule heapq.pop_two [where lt = kk_state_lt])
    let ?q = "heappush kk_state_lt (kk_state_merge a b) q2"
    have "set pq = {a, b} \<union> set q2" using elems by (metis set_mset_add_mset_insert set_mset_mset
      set_mset_union set_mset_single insert_is_Un)
    with less.prems(2) have P: "P a" "P b" "\<forall>st \<in> set q2. P st" by auto
    note merged = assms(3) [OF P(1,2)]
    have "set ?q = insert (kk_state_merge a b) (set q2)"
      by (metis heappush_mset set_mset_add_mset_insert set_mset_mset)
    with P merged have "\<forall>st \<in> set ?q. P st" by auto
    moreover have "length ?q < length pq"
      using heappop_length [OF pops(1)] heappop_length [OF pops(2)] by simp
    moreover have "?q \<noteq> []" by (metis heappush_length list.size(3) nat.distinct(1))
    ultimately obtain st where "kk_loop ?q = Inr [st]" "P st" "w st = sum_mset (image_mset w (mset ?q))"
      using less.hyps by blast
    with kk_loop_step [OF True pops] merged show ?thesis by (simp add: elems add.assoc)
  next
    case False
    with less.prems(1) obtain st where "pq = [st]" by (cases pq) auto
    with less.prems(2) show ?thesis by (simp add: kk_loop.simps)
  qed
qed

text \<open>The heap hands the loop the two states of largest spread.\<close>

lemma kk_pops_largest_spreads:
  assumes "heap_ok kk_state_lt pq" "1 < length pq"
    and "heappop kk_state_lt pq = Inr (s0, q1)" "heappop kk_state_lt q1 = Inr (s1, q2)"
  shows "spread s1 \<le> spread s0 \<and> (\<forall>s \<in> set q2. spread s \<le> spread s1) \<and> heap_ok kk_state_lt q2"
proof -
  have two: "2 \<le> size (mset pq)" using assms(2) by simp
  note pops = kk_order.sorted_heap.pop_two_least [OF assms(1,3,4) two]
  show ?thesis using pops by (auto intro: kk_state_not_lt_spread)
qed

section \<open>Initial states\<close>

definition init_state :: "nat \<Rightarrow> (nat \<times> 'v::linordered_idom) list \<Rightarrow> 'v kk_state" where
  "init_state k items = projr (kk_state_new items k)"

lemma init_state_sets:
  assumes "length items \<in> {1, k}" "0 < k"
  shows "kk_state_new items k = Inr (init_state k items)"
    and "st_k (init_state k items) = k"
    and "mset (st_sets (init_state k items)) =
      mset (map (\<lambda>p. \<lparr>ks_sum = snd p, ks_items = [p]\<rparr>) items @ replicate (k - length items) kk_set_new)"
    and "sorted_wrt (\<lambda>x y. \<not> kk_set_lt x y) (st_sets (init_state k items))"
  using assms kk_set_order.sorted_py_sorted_rev
  by (auto simp: init_state_def kk_state_new_def kk_set_add_def kk_set_new_def split_def)

lemma init_state_items:
  assumes "length items \<in> {1, k}" "0 < k"
  shows "st_items (init_state k items) = mset (map fst items)"
proof -
  let ?L = "map (\<lambda>p. \<lparr>ks_sum = snd p, ks_items = [p]\<rparr>) items @ replicate (k - length items) kk_set_new"
  have "st_items (init_state k items) = mset (concat (map (\<lambda>s. map fst (ks_items s)) ?L))"
    unfolding st_items_def get_partitions_def by (rule mset_concat_perm) (rule init_state_sets(3) [OF assms])
  also have "concat (map (\<lambda>s. map fst (ks_items s)) ?L) = map fst items"
    by (induction items) (auto simp: kk_set_new_def)
  finally show ?thesis .
qed

lemma init_state_ok:
  assumes "length items \<in> {1, k}" "0 < k" "\<forall>p \<in> set items. 0 \<le> snd p"
  shows "kk_ok k (init_state k items)"
proof -
  let ?L = "map (\<lambda>p. \<lparr>ks_sum = snd p, ks_items = [p]\<rparr>) items @ replicate (k - length items) kk_set_new"
  have "length (st_sets (init_state k items)) = length ?L" "set (st_sets (init_state k items)) = set ?L"
    using init_state_sets(3) [OF assms(1,2)] by (metis size_mset, metis set_mset_mset)
  with assms init_state_sets(2,4) [OF assms(1,2)] show ?thesis
    by (auto simp: kk_ok_def kk_set_new_def)
qed

lemma init_state_spread_out:
  assumes "length items \<in> {1, k}" "0 < k"
  shows "kk_spread_out k (init_state k items)"
proof -
  let ?L = "map (\<lambda>p. \<lparr>ks_sum = snd p, ks_items = [p]\<rparr>) items @ replicate (k - length items) kk_set_new"
  have "length (filter occupied (st_sets (init_state k items))) = length (filter occupied ?L)"
    by (rule length_filter_perm) (rule init_state_sets(3) [OF assms])
  also have "\<dots> = length items" by (simp add: kk_set_new_def comp_def)
  finally show ?thesis
    using assms by (auto simp: kk_spread_out_def init_state_items [OF assms])
qed

lemma init_state_even:
  assumes "length items = k" "0 < k"
  shows "kk_even (init_state k items)"
proof -
  have "mset (st_sets (init_state k items)) = mset (map (\<lambda>p. \<lparr>ks_sum = snd p, ks_items = [p]\<rparr>) items)"
    using init_state_sets(3) [of items k] assms by simp
  then have "set (st_sets (init_state k items)) = (\<lambda>p. \<lparr>ks_sum = snd p, ks_items = [p]\<rparr>) ` set items"
    by (metis set_map set_mset_mset)
  then show ?thesis by (auto simp: kk_even_def)
qed

lemma init_state_close:
  assumes "length items \<in> {1, k}" "0 < k" "\<forall>p \<in> set items. 0 \<le> snd p \<and> snd p \<le> m \<and> snd p = seqs ! fst p" "0 \<le> m"
  shows "kk_close m (init_state k items)" and "kk_weighs seqs (init_state k items)"
proof -
  let ?L = "map (\<lambda>p. \<lparr>ks_sum = snd p, ks_items = [p]\<rparr>) items @ replicate (k - length items) kk_set_new"
  have sets: "set (st_sets (init_state k items)) = set ?L"
    using init_state_sets(3) [OF assms(1,2)] by (metis set_mset_mset)
  have "0 \<le> ks_sum s \<and> ks_sum s \<le> m" if "s \<in> set ?L" for s
    using that assms(3,4) by (auto simp: kk_set_new_def)
  then show "kk_close m (init_state k items)"
    unfolding kk_close_def sets by (meson add_increasing order_trans)
  show "kk_weighs seqs (init_state k items)"
    unfolding kk_weighs_def sets using assms(3) by (auto simp: kk_set_new_def)
qed

lemma init_state_good:
  assumes "length items = (if equal_size then k else 1)" "0 < k" "0 \<le> m"
    and "\<forall>p \<in> set items. 0 \<le> snd p \<and> snd p \<le> m \<and> snd p = seqs ! fst p"
  shows "kk_good k equal_size seqs m (init_state k items)"
proof -
  have len: "length items \<in> {1, k}" using assms(1) by simp
  have nonneg: "\<forall>p \<in> set items. 0 \<le> snd p" using assms(4) by blast
  show ?thesis unfolding kk_good_def
    using init_state_ok [OF len assms(2) nonneg] init_state_spread_out [OF len assms(2)]
      init_state_close [OF len assms(2,4,3)] init_state_even [of items k] assms by auto
qed

lemma push_states_returns:
  assumes "\<forall>items \<in> set itemss. length items \<in> {1, k}" "0 < k"
  shows "\<exists>pq. push_states k itemss = Inr pq \<and> mset pq = mset (map (init_state k) itemss)
    \<and> heap_ok kk_state_lt pq"
proof -
  have "push_states k itemss = Inr (fold (heappush kk_state_lt) (map (init_state k) itemss) [])"
  proof -
    have "res_fold (\<lambda>pq items. res_bind (kk_state_new items k) (\<lambda>st. Inr (heappush kk_state_lt st pq))) q xs
      = Inr (fold (heappush kk_state_lt) (map (init_state k) xs) q)"
      if "\<forall>items \<in> set xs. length items \<in> {1, k}" for xs q
      using that by (induction xs arbitrary: q) (simp_all add: init_state_sets(1) [OF _ assms(2)])
    with assms(1) show ?thesis by (simp add: push_states_def)
  qed
  then show ?thesis
    using heapq.elems_push_all [of kk_state_lt "map (init_state k) itemss" "[]"]
      kk_order.sorted_heap.ok_push_all [of "[]" "map (init_state k) itemss"]
    by (auto simp: kk_order.sorted_heap.ok_nothing)
qed

section \<open>The initial items\<close>

lemma concat_runs:
  "m * k \<le> length xs \<Longrightarrow> concat (map (\<lambda>j. map (\<lambda>i. xs ! (j * k + i)) [0..<k]) [0..<m]) = take (m * k) xs"
proof (induction m)
  case (Suc m)
  have "map (\<lambda>i. xs ! (m * k + i)) [0..<k] = take k (drop (m * k) xs)"
    using Suc.prems by (intro nth_equalityI) auto
  moreover have "take (Suc m * k) xs = take (m * k) xs @ take k (drop (m * k) xs)"
    by (metis add.commute mult_Suc take_add)
  ultimately show ?case using Suc by simp
qed simp

lemma initial_items_facts:
  assumes "0 < k" "equal_size \<longrightarrow> length seqs mod k = 0"
  shows "\<forall>items \<in> set (initial_items seqs k equal_size). length items = (if equal_size then k else 1)"
    and "mset (concat (initial_items seqs k equal_size)) =
      mset (map (\<lambda>(v, i). (i, v)) (zip seqs [0..<length seqs]))"
proof -
  let ?xs = "map (\<lambda>(v, i). (i, v)) (sorted_seqlen_list seqs)"
  have len: "length ?xs = length seqs" by (simp add: sorted_seqlen_list_def)
  have "concat (initial_items seqs k equal_size) = ?xs"
  proof (cases equal_size)
    case True
    with assms(2) have "length ?xs div k * k = length ?xs" by (simp only: len) (simp add: mod_0_imp_dvd)
    with concat_runs [of "length ?xs div k" k ?xs]
    have "concat (map (\<lambda>j. map (\<lambda>i. ?xs ! (j * k + i)) [0..<k]) [0..<length ?xs div k]) = ?xs"
      by (simp only: order_refl take_all)
    with True show ?thesis by (simp only: initial_items_def Let_def if_True)
  next
    case False
    have "concat (map (\<lambda>x. [x]) ys) = ys" for ys :: "(nat \<times> 'a) list" by (induction ys) auto
    with False show ?thesis by (simp only: initial_items_def Let_def if_False)
  qed
  then show "mset (concat (initial_items seqs k equal_size)) =
      mset (map (\<lambda>(v, i). (i, v)) (zip seqs [0..<length seqs]))"
    by (simp add: sorted_seqlen_list_def)
  show "\<forall>items \<in> set (initial_items seqs k equal_size). length items = (if equal_size then k else 1)"
    by (auto simp: initial_items_def Let_def)
qed

section \<open>Total correctness of the balanced partition\<close>

lemma sum_init_items:
  assumes "\<forall>items \<in> set itemss. length items \<in> {1, k}" "0 < k"
  shows "sum_mset (image_mset st_items (mset (map (init_state k) itemss))) = mset (map fst (concat itemss))"
  using assms(1)
  by (induction itemss) (simp_all add: init_state_items [OF _ assms(2)])

lemma tiles_even_length:
  assumes "tiles n parts" "\<forall>p \<in> set parts. length p = m" "length parts = k" "p \<in> set parts"
  shows "length p * k = n"
  using assms tiles_length [OF assms(1)] concat_length_eq_const [OF assms(2)] by (simp add: mult.commute)

text \<open>What the loop's final state says about the partitions read off it.\<close>

lemma kk_good_partitions:
  assumes good: "kk_good k equal_size seqs m st" and items: "st_items st = mset [0..<length seqs]"
  shows "length (get_partitions st) = k" and "tiles (length seqs) (get_partitions st)"
    and "k \<le> length seqs \<Longrightarrow> [] \<notin> set (get_partitions st)"
    and "equal_size \<Longrightarrow> \<forall>p \<in> set (get_partitions st). length p * k = length seqs"
    and "\<forall>p \<in> set (get_partitions st). \<forall>q \<in> set (get_partitions st).
      (\<Sum>i\<leftarrow>p. seqs ! i) \<le> (\<Sum>i\<leftarrow>q. seqs ! i) + m"
proof -
  let ?parts = "get_partitions st" and ?n = "length seqs"
  show len: "length ?parts = k" using good by (simp add: get_partitions_def kk_ok_def kk_good_def)
  show tiles: "tiles ?n ?parts" using items by (intro tilesI) (simp add: st_items_def)
  have size: "size (st_items st) = ?n" using items by simp
  show "[] \<notin> set ?parts" if "k \<le> ?n"
  proof -
    have "length (filter occupied (st_sets st)) = length (st_sets st)"
      using good that size by (simp add: kk_spread_out_def kk_ok_def kk_good_def)
    then have "occupied s" if "s \<in> set (st_sets st)" for s
      using that length_filter_less [of s "st_sets st" occupied] by (metis less_irrefl)
    then show ?thesis by (auto simp: get_partitions_def)
  qed
  show "\<forall>p \<in> set ?parts. length p * k = ?n" if "equal_size"
  proof -
    from good that obtain c where "\<forall>s \<in> set (st_sets st). length (ks_items s) = c"
      by (auto simp: kk_even_def kk_good_def)
    then have "\<forall>p \<in> set ?parts. length p = c" by (auto simp: get_partitions_def)
    with tiles_even_length [OF tiles _ len] show ?thesis by blast
  qed
  have weight: "(\<Sum>i\<leftarrow>map fst (ks_items s). seqs ! i) = ks_sum s" if "s \<in> set (st_sets st)" for s
  proof -
    have "map (\<lambda>p. seqs ! fst p) (ks_items s) = map snd (ks_items s)"
      using good that by (auto simp: kk_good_def kk_weighs_def)
    moreover have "ks_sum s = sum_list (map snd (ks_items s))"
      using good that by (simp only: kk_good_def kk_ok_def)
    ultimately show ?thesis by (simp only: map_map comp_def)
  qed
  have "ks_sum s \<le> ks_sum t + m" if "s \<in> set (st_sets st)" "t \<in> set (st_sets st)" for s t
    using good that by (simp add: kk_good_def kk_close_def)
  then show "\<forall>p \<in> set ?parts. \<forall>q \<in> set ?parts. (\<Sum>i\<leftarrow>p. seqs ! i) \<le> (\<Sum>i\<leftarrow>q. seqs ! i) + m"
    by (simp add: get_partitions_def weight del: map_map)
qed

lemma initial_items_values:
  assumes "0 < k" "equal_size \<longrightarrow> length seqs mod k = 0" "items \<in> set (initial_items seqs k equal_size)" "p \<in> set items"
  shows "fst p < length seqs \<and> snd p = seqs ! fst p"
proof -
  have "set (concat (initial_items seqs k equal_size)) = (\<lambda>(v, i). (i, v)) ` set (zip seqs [0..<length seqs])"
    using initial_items_facts(2) [OF assms(1,2)] by (metis set_map set_mset_mset)
  moreover have "p \<in> set (concat (initial_items seqs k equal_size))" using assms(3,4) by auto
  ultimately show ?thesis by (auto simp: in_set_zip)
qed

lemma karmarkar_karp_returns:
  assumes k: "0 < k" and ne: "seqs \<noteq> []" and eq: "equal_size \<longrightarrow> length seqs mod k = 0"
    and pos: "\<forall>v \<in> set seqs. 0 \<le> v \<and> v \<le> m"
  shows "\<exists>parts. karmarkar_karp seqs k equal_size = Inr parts \<and> length parts = k \<and>
    tiles (length seqs) parts \<and> (k \<le> length seqs \<longrightarrow> [] \<notin> set parts) \<and>
    (equal_size \<longrightarrow> (\<forall>p \<in> set parts. length p * k = length seqs)) \<and>
    (\<forall>p \<in> set parts. \<forall>q \<in> set parts. (\<Sum>i\<leftarrow>p. seqs ! i) \<le> (\<Sum>i\<leftarrow>q. seqs ! i) + m)"
proof -
  let ?I = "initial_items seqs k equal_size" and ?n = "length seqs" and ?P = "kk_good k equal_size seqs m"
  note I = initial_items_facts [OF k eq]
  have m: "0 \<le> m" using pos ne by (metis list.set_sel(1) order_trans)
  have lens: "\<forall>items \<in> set ?I. length items \<in> {1, k}" using I(1) by auto
  have "map fst (map (\<lambda>(v, i). (i, v)) (zip seqs [0..<?n])) = [0..<?n]"
    by (simp add: comp_def case_prod_unfold)
  with I(2) have idx: "mset (map fst (concat ?I)) = mset [0..<?n]" by (metis mset_map)
  obtain pq where pq: "push_states k ?I = Inr pq" "mset pq = mset (map (init_state k) ?I)"
    using push_states_returns [OF lens k] by blast
  have "?I \<noteq> []"
  proof
    assume "?I = []"
    with idx have "length [0..<?n] = length ([] :: nat list)" by (metis concat.simps(1) list.map(1) size_mset)
    with ne show False by simp
  qed
  have "?P (init_state k items)" if "items \<in> set ?I" for items
    using I(1) that initial_items_values [OF k eq that] pos
    by (intro init_state_good [OF _ k m]) auto
  moreover have "set pq = init_state k ` set ?I" using pq(2) by (metis set_map set_mset_mset)
  ultimately have "\<forall>st \<in> set pq. ?P st" by (simp only: ball_simps) simp
  moreover have "pq \<noteq> []" using pq(2) \<open>?I \<noteq> []\<close> by auto
  ultimately obtain st where st: "kk_loop pq = Inr [st]" "?P st"
    "st_items st = sum_mset (image_mset st_items (mset pq))"
    using kk_loop_fold [of pq ?P st_items] kk_merge_good by blast
  have "st_items st = mset [0..<?n]" using st(3) sum_init_items [OF lens k] pq(2) idx by simp
  note parts = kk_good_partitions [OF st(2) this]
  have "karmarkar_karp seqs k equal_size = Inr (get_partitions st)"
    using k eq pq(1) st(1) parts(4) by (auto simp: karmarkar_karp_def py_nth_def Let_def)
  with parts show ?thesis by blast
qed

lemma get_seqlen_balanced_partitions_returns:
  assumes "0 < k" "k \<le> length seqs" "equal_size \<longrightarrow> length seqs mod k = 0" "\<forall>v \<in> set seqs. 0 \<le> v"
  shows "\<exists>parts. get_seqlen_balanced_partitions seqs k equal_size = Inr parts \<and> length parts = k \<and>
    tiles (length seqs) parts \<and> (\<forall>p \<in> set parts. p \<noteq> [] \<and> sorted p) \<and>
    (equal_size \<longrightarrow> (\<forall>p \<in> set parts. length p * k = length seqs)) \<and>
    (\<forall>p \<in> set parts. \<forall>q \<in> set parts. (\<Sum>i\<leftarrow>p. seqs ! i) \<le> (\<Sum>i\<leftarrow>q. seqs ! i) + Max (set seqs))"
proof -
  from assms have "seqs \<noteq> []" by auto
  have "\<forall>v \<in> set seqs. 0 \<le> v \<and> v \<le> Max (set seqs)" using assms(4) by simp
  from karmarkar_karp_returns [OF assms(1) \<open>seqs \<noteq> []\<close> assms(3) this] assms(2) obtain parts where
    p: "karmarkar_karp seqs k equal_size = Inr parts" "length parts = k" "tiles (length seqs) parts"
    "[] \<notin> set parts" "equal_size \<longrightarrow> (\<forall>p \<in> set parts. length p * k = length seqs)"
    "\<forall>p \<in> set parts. \<forall>q \<in> set parts. (\<Sum>i\<leftarrow>p. seqs ! i) \<le> (\<Sum>i\<leftarrow>q. seqs ! i) + Max (set seqs)"
    by blast
  have "set (concat parts) = set [0..<length seqs]" using tiles_set [OF p(3)] by simp
  with p assms(2) have "get_seqlen_balanced_partitions seqs k equal_size = Inr (map sort parts)"
    by (auto simp: get_seqlen_balanced_partitions_def check_and_sort_partitions_def)
  moreover have "tiles (length seqs) (map sort parts)"
  proof -
    have "mset (concat (map sort parts)) = mset (concat parts)" by (induction parts) auto
    with p(3) show ?thesis by (simp add: tiles_def)
  qed
  moreover have "sort q \<noteq> []" if "q \<in> set parts" for q
    using that p(4) by (metis length_0_conv length_sort)
  moreover have "(\<Sum>i\<leftarrow>sort q. seqs ! i) = (\<Sum>i\<leftarrow>q. seqs ! i)" for q
    by (rule sum_list_perm) simp
  ultimately show ?thesis using p by auto
qed

section \<open>First-fit packing\<close>

lemma find_fit_Some:
  "find_fit len cap ss = Some j \<Longrightarrow> j < length ss \<and> ss ! j + len \<le> cap"
  by (induction len cap ss arbitrary: j rule: find_fit.induct) (auto split: if_splits)

lemma find_fit_None: "find_fit len cap ss = None \<Longrightarrow> \<forall>s \<in> set ss. cap < s + len"
  by (induction len cap ss rule: find_fit.induct) (auto split: if_splits)

lemma bin_sum_append [simp]: "bin_sum lengths (b @ c) = bin_sum lengths b + bin_sum lengths c"
  by (simp add: bin_sum_def)

lemma bin_sum_snoc_lengths: "(\<forall>i \<in> set b. i < length ls) \<Longrightarrow> bin_sum (ls @ [l]) b = bin_sum ls b"
  by (induction b) (auto simp: bin_sum_def nth_append)

lemma bin_sum_mset: "mset b = mset c \<Longrightarrow> bin_sum lengths b = bin_sum lengths c"
  by (metis bin_sum_def mset_map sum_mset_sum_list)

lemma mset_concat_update:
  "j < length bins \<Longrightarrow> mset (concat (bins[j := bins ! j @ [x]])) = add_mset x (mset (concat bins))"
proof (induction bins arbitrary: j)
  case (Cons b bins)
  then show ?case by (cases j) auto
qed simp

text \<open>What the packing has established after a prefix of the samples.\<close>

definition first_fit_inv :: "nat \<Rightarrow> nat list \<Rightarrow> nat list list \<times> nat list \<Rightarrow> bool" where
  "first_fit_inv cap ls = (\<lambda>(bins, bin_sums).
     tiles (length ls) bins \<and> bin_sums = map (bin_sum ls) bins \<and>
     (\<forall>b \<in> set bins. b \<noteq> [] \<and> sorted b \<and> (bin_sum ls b \<le> cap \<or> length b = 1)) \<and>
     sorted_wrt (\<lambda>s t. cap < s + t) bin_sums)"

lemma sorted_wrt_grow:
  assumes "sorted_wrt (\<lambda>s t. cap < s + (t::nat)) ss" "j < length ss"
  shows "sorted_wrt (\<lambda>s t. cap < s + t) (ss[j := ss ! j + len])"
  using assms by (auto simp: sorted_wrt_iff_nth_less nth_list_update) (metis add.commute trans_less_add1 add.left_commute add.assoc)+

lemma first_fit_step_inv:
  assumes inv: "first_fit_inv cap ls (bins, bin_sums)"
  shows "first_fit_inv cap (ls @ [len]) (first_fit_step cap (bins, bin_sums) (length ls, len))"
proof -
  have tiles: "tiles (length ls) bins" and sums: "bin_sums = map (bin_sum ls) bins"
    and bins: "\<And>b. b \<in> set bins \<Longrightarrow> b \<noteq> [] \<and> sorted b \<and> (bin_sum ls b \<le> cap \<or> length b = 1)"
    and order: "sorted_wrt (\<lambda>s t. cap < s + t) bin_sums"
    using inv by (auto simp: first_fit_inv_def)
  have below: "\<forall>i \<in> set b. i < length ls" if "b \<in> set bins" for b
    using tiles_index [OF tiles that] by blast
  have old: "bin_sum (ls @ [len]) b = bin_sum ls b" if "b \<in> set bins" for b
    by (rule bin_sum_snoc_lengths [OF below [OF that]])
  have new: "bin_sum (ls @ [len]) [length ls] = len" by (simp add: bin_sum_def)
  show ?thesis
  proof (cases "find_fit len cap bin_sums")
    case None
    have "tiles (length (ls @ [len])) (bins @ [[length ls]])" using tiles by (simp add: tiles_def)
    moreover have "sorted_wrt (\<lambda>s t. cap < s + t) (bin_sums @ [len])"
      using order find_fit_None [OF None] by (simp add: sorted_wrt_append)
    ultimately show ?thesis
      using None bins old new by (auto simp: first_fit_step_def first_fit_inv_def sums)
  next
    case (Some j)
    from find_fit_Some [OF Some] have j: "j < length bins" "bin_sum ls (bins ! j) + len \<le> cap"
      by (auto simp: sums)
    let ?b = "bins ! j @ [length ls]"
    have bj: "bins ! j \<in> set bins" using j(1) by simp
    have "tiles (length (ls @ [len])) (bins[j := ?b])"
      using tiles by (simp add: tiles_def mset_concat_update [OF j(1)])
    moreover have "bin_sums[j := bin_sums ! j + len] = map (bin_sum (ls @ [len])) (bins[j := ?b])"
      using j(1) old new by (auto intro!: nth_equalityI simp: sums nth_list_update)
    moreover have "sorted ?b" using bins [OF bj] below [OF bj] by (auto simp: sorted_append less_imp_le)
    moreover have "bin_sum (ls @ [len]) ?b \<le> cap" using j(2) old [OF bj] new by simp
    moreover have "c \<noteq> [] \<and> sorted c \<and> (bin_sum (ls @ [len]) c \<le> cap \<or> length c = 1)"
      if "c \<in> set (bins[j := ?b])" for c
    proof (cases "c = ?b")
      case False
      with that have "c \<in> set bins" using set_update_subset_insert by fastforce
      with bins old show ?thesis by simp
    qed (use calculation in simp)
    ultimately show ?thesis
      using Some sorted_wrt_grow [OF order, of j len] j(1)
      by (simp add: first_fit_step_def first_fit_inv_def sums)
  qed
qed

lemma first_fit_inv_fold:
  "first_fit_inv cap ls (foldl (first_fit_step cap) ([], []) (enumerate 0 ls))"
proof (induction ls rule: rev_induct)
  case Nil
  show ?case by (simp add: first_fit_inv_def tiles_def)
next
  case (snoc l ls)
  then show ?case
    using first_fit_step_inv [of cap ls] by (cases "foldl (first_fit_step cap) ([], []) (enumerate 0 ls)")
      (simp add: enumerate_append_eq)
qed

lemma first_fit_pack_facts:
  assumes "bins = first_fit_pack ls cap"
  shows "tiles (length ls) bins" and "[] \<notin> set bins"
    and "b \<in> set bins \<Longrightarrow> sorted b \<and> (bin_sum ls b \<le> cap \<or> length b = 1)"
    and "sorted_wrt (\<lambda>b c. cap < bin_sum ls b + bin_sum ls c) bins"
  using first_fit_inv_fold [of cap ls] assms
  by (auto simp: first_fit_pack_def first_fit_inv_def sorted_wrt_map split: prod.splits)

section \<open>Splitting and growing a packing\<close>

text \<open>Splitting distributes the bin's indices over the two halves and keeps the halves' sums.\<close>

lemma split_fold_mset:
  "foldl (split_step lengths) ((l, r), (s, t)) xs = ((l', r'), (s', t')) \<Longrightarrow>
     mset l' + mset r' = mset l + mset r + mset xs \<and>
     s' = s + (bin_sum lengths l' - bin_sum lengths l) \<and> bin_sum lengths l \<le> bin_sum lengths l' \<and>
     t' = t + (bin_sum lengths r' - bin_sum lengths r) \<and> bin_sum lengths r \<le> bin_sum lengths r' \<and>
     length l \<le> length l' \<and> length r \<le> length r'"
proof (induction xs arbitrary: l r s t)
  case (Cons x xs)
  show ?case
  proof (cases "s \<le> t")
    case True
    with Cons.prems have
      "foldl (split_step lengths) ((l @ [x], r), (s + lengths ! x, t)) xs = ((l', r'), (s', t'))"
      by (simp add: split_step_def)
    from Cons.IH [OF this] show ?thesis by (auto simp: bin_sum_def)
  next
    case False
    with Cons.prems have
      "foldl (split_step lengths) ((l, r @ [x]), (s, t + lengths ! x)) xs = ((l', r'), (s', t'))"
      by (simp add: split_step_def)
    from Cons.IH [OF this] show ?thesis by (auto simp: bin_sum_def)
  qed
qed auto

lemma split_bin_mset:
  assumes "split_bin_by_tokens b lengths = (l, r)"
  shows "mset l + mset r = mset b"
proof -
  obtain s t where "foldl (split_step lengths) (([], []), (0, 0)) (sort_key (\<lambda>i. - int (lengths ! i)) b)
      = ((l, r), (s, t))"
    using assms by (cases "foldl (split_step lengths) (([], []), (0, 0)) (sort_key (\<lambda>i. - int (lengths ! i)) b)")
      (auto simp: split_bin_by_tokens_def)
  from split_fold_mset [OF this] show ?thesis by simp
qed

lemma split_bin_sums:
  assumes "split_bin_by_tokens b lengths = (l, r)"
  shows "bin_sum lengths l + bin_sum lengths r = bin_sum lengths b"
  using split_bin_mset [OF assms] bin_sum_mset [of "l @ r" b lengths] by simp

lemma split_bin_nonempty:
  assumes split: "split_bin_by_tokens b lengths = (l, r)" and two: "1 < length b"
    and pos: "\<exists>i \<in> set b. 0 < lengths ! i"
  shows "l \<noteq> [] \<and> r \<noteq> []"
proof -
  let ?f = "\<lambda>i. - int (lengths ! i)"
  let ?xs = "sort_key ?f b"
  have "length ?xs = length b" by simp
  with two obtain x y ys where xs: "?xs = x # y # ys"
    by (cases ?xs; cases "tl ?xs") auto
  have "sorted (map ?f ?xs)" by (rule sorted_sort_key)
  then have "\<forall>i \<in> set ?xs. ?f x \<le> ?f i" by (simp add: xs)
  then have "\<forall>i \<in> set b. ?f x \<le> ?f i" by simp
  with pos have "0 < lengths ! x" by fastforce
  then have "foldl (split_step lengths) (([], []), (0, 0)) ?xs
      = foldl (split_step lengths) (([x], [y]), (lengths ! x, lengths ! y)) ys"
    by (simp add: xs split_step_def)
  moreover obtain s t where "foldl (split_step lengths) (([], []), (0, 0)) ?xs = ((l, r), (s, t))"
    using split by (cases "foldl (split_step lengths) (([], []), (0, 0)) ?xs")
      (auto simp: split_bin_by_tokens_def)
  ultimately have "foldl (split_step lengths) (([x], [y]), (lengths ! x, lengths ! y)) ys = ((l, r), (s, t))"
    by simp
  from split_fold_mset [OF this] show ?thesis by auto
qed

text \<open>The two halves differ by at most the largest single sample.\<close>

lemma split_fold_balanced:
  assumes "foldl (split_step lengths) ((l, r), (s, t)) xs = ((l', r'), (s', t'))"
    and "\<forall>i \<in> set xs. lengths ! i \<le> m" "s \<le> t + m" "t \<le> s + m"
  shows "s' \<le> t' + m \<and> t' \<le> s' + m"
  using assms
proof (induction xs arbitrary: l r s t)
  case (Cons x xs)
  then show ?case by (cases "s \<le> t") (auto simp: split_step_def)
qed auto

lemma split_bin_balanced:
  assumes split: "split_bin_by_tokens b lengths = (l, r)" and "\<forall>i \<in> set b. lengths ! i \<le> m"
  shows "bin_sum lengths l \<le> bin_sum lengths r + m \<and> bin_sum lengths r \<le> bin_sum lengths l + m"
proof -
  let ?xs = "sort_key (\<lambda>i. - int (lengths ! i)) b"
  obtain s t where f: "foldl (split_step lengths) (([], []), (0, 0)) ?xs = ((l, r), (s, t))"
    using split by (cases "foldl (split_step lengths) (([], []), (0, 0)) ?xs")
      (auto simp: split_bin_by_tokens_def)
  from split_fold_mset [OF f] have "s = bin_sum lengths l" "t = bin_sum lengths r"
    by (auto simp: bin_sum_def)
  with split_fold_balanced [OF f, of m] assms(2) show ?thesis by simp
qed

lemma split_candidates_mem:
  "(s, idx) \<in> set (split_candidates bins lengths) \<longleftrightarrow>
     idx < length bins \<and> 1 < length (bins ! idx) \<and> s = bin_sum lengths (bins ! idx)"
  by (force simp: split_candidates_def in_set_enumerate_eq image_iff)

lemma split_candidates_Nil:
  "split_candidates bins lengths = [] \<longleftrightarrow> (\<forall>b \<in> set bins. length b \<le> 1)"
proof -
  have "split_candidates bins lengths = [] \<longleftrightarrow> (\<forall>s idx. (s, idx) \<notin> set (split_candidates bins lengths))"
    by (cases "split_candidates bins lengths") auto
  also have "\<dots> \<longleftrightarrow> (\<forall>idx < length bins. length (bins ! idx) \<le> 1)"
    by (simp only: split_candidates_mem) (blast intro: leI dest: leD)
  finally show ?thesis by (simp add: all_set_conv_all_nth)
qed

text \<open>One round of growing, as its client sees it: a bin of at least two samples that no other such
  bin exceeds is replaced by its halves.\<close>

lemma expand_step:
  assumes "length bins < target" "\<not> (\<forall>b \<in> set bins. length b \<le> 1)"
  obtains idx l r where "idx < length bins" "1 < length (bins ! idx)"
    "\<And>b. b \<in> set bins \<Longrightarrow> 1 < length b \<Longrightarrow> bin_sum lengths b \<le> bin_sum lengths (bins ! idx)"
    "split_bin_by_tokens (bins ! idx) lengths = (l, r)"
    "expand_bins_by_splitting bins target lengths =
       expand_bins_by_splitting (bins[idx := l] @ [r]) target lengths"
proof -
  from assms(2) obtain c cs where cs: "split_candidates bins lengths = c # cs"
    using split_candidates_Nil [of bins lengths] by (cases "split_candidates bins lengths") auto
  obtain s idx where m: "py_max tuple_lt c cs = (s, idx)" by fastforce
  have "(s, idx) \<in> set (split_candidates bins lengths)"
    using py_max_in [of tuple_lt c cs] m cs by simp
  then have idx: "idx < length bins" "1 < length (bins ! idx)" "s = bin_sum lengths (bins ! idx)"
    by (simp_all add: split_candidates_mem)
  have "bin_sum lengths b \<le> s" if b: "b \<in> set bins" "1 < length b" for b
  proof -
    from b obtain j where "(bin_sum lengths b, j) \<in> set (c # cs)"
      using split_candidates_mem [of _ _ bins lengths] cs by (metis in_set_conv_nth)
    then have "\<not> tuple_lt (s, idx) (bin_sum lengths b, j)"
      using tuple.py_max_greatest [of "(bin_sum lengths b, j)" c cs] m by simp
    then show ?thesis by (auto split: if_splits)
  qed
  moreover obtain l r where lr: "split_bin_by_tokens (bins ! idx) lengths = (l, r)" by fastforce
  moreover have "expand_bins_by_splitting bins target lengths =
      expand_bins_by_splitting (bins[idx := l] @ [r]) target lengths"
    using assms(1) by (subst expand_bins_by_splitting.simps) (simp add: cs m lr)
  ultimately show ?thesis using that idx by blast
qed

lemma mset_concat_split:
  "idx < length bins \<Longrightarrow> mset l + mset r = mset (bins ! idx) \<Longrightarrow>
     mset (concat (bins[idx := l] @ [r])) = mset (concat bins)"
proof (induction bins arbitrary: idx)
  case (Cons b bins)
  then show ?case
  proof (cases idx)
    case 0
    with Cons.prems show ?thesis by (simp add: union_ac)
  next
    case (Suc i)
    with Cons.IH [of i] Cons.prems show ?thesis by simp
  qed
qed simp

lemma expand_mset: "mset (concat (expand_bins_by_splitting bins target lengths)) = mset (concat bins)"
proof (induction "target - length bins" arbitrary: bins rule: less_induct)
  case less
  show ?case
  proof (cases "length bins < target \<and> \<not> (\<forall>b \<in> set bins. length b \<le> 1)")
    case True
    then obtain idx l r where idx: "idx < length bins"
      and lr: "split_bin_by_tokens (bins ! idx) lengths = (l, r)"
      and step: "expand_bins_by_splitting bins target lengths =
         expand_bins_by_splitting (bins[idx := l] @ [r]) target lengths"
      using expand_step [of bins target lengths] by metis
    have "target - length (bins[idx := l] @ [r]) < target - length bins"
      using True by (simp add: diff_less_mono2)
    from less.hyps [OF this] show ?thesis
      unfolding step using mset_concat_split [OF idx split_bin_mset [OF lr]] by simp
  next
    case False
    then show ?thesis
      using split_candidates_Nil [of bins lengths] by (subst expand_bins_by_splitting.simps) auto
  qed
qed

text \<open>Growing never loses or duplicates an index, never makes a bin that exceeds a cap every
  multi-sample bin respected, and never makes an empty bin of samples with tokens.\<close>

lemma expand_keeps:
  assumes "\<forall>b \<in> set bins. b \<noteq> [] \<and> (bin_sum lengths b \<le> cap \<or> length b = 1)"
    and "\<forall>b \<in> set bins. \<forall>i \<in> set b. 0 < lengths ! i"
    and "bins' = expand_bins_by_splitting bins target lengths"
  shows "mset (concat bins') = mset (concat bins) \<and>
    (\<forall>b \<in> set bins'. b \<noteq> [] \<and> (bin_sum lengths b \<le> cap \<or> length b = 1)) \<and>
    length bins' = (if length bins < target then min target (length (concat bins)) else length bins)"
  using assms
proof (induction "target - length bins" arbitrary: bins rule: less_induct)
  case less
  show ?case
  proof (cases "length bins < target \<and> \<not> (\<forall>b \<in> set bins. length b \<le> 1)")
    case True
    then obtain idx l r where idx: "idx < length bins" "1 < length (bins ! idx)"
      and lr: "split_bin_by_tokens (bins ! idx) lengths = (l, r)"
      and step: "expand_bins_by_splitting bins target lengths =
         expand_bins_by_splitting (bins[idx := l] @ [r]) target lengths"
      using expand_step [of bins target lengths] by metis
    let ?bins = "bins[idx := l] @ [r]"
    have old: "bins ! idx \<in> set bins" using idx by simp
    have parts: "set l \<union> set r = set (bins ! idx)"
      using split_bin_mset [OF lr] by (metis set_mset_mset set_mset_union)
    have "l \<noteq> [] \<and> r \<noteq> []"
      using less.prems old by (intro split_bin_nonempty [OF lr idx(2)]) (metis list.set_intros(1) neq_Nil_conv)
    moreover have "bin_sum lengths l \<le> cap \<and> bin_sum lengths r \<le> cap"
      using split_bin_sums [OF lr] less.prems(1) old idx(2) by fastforce
    ultimately have 1: "\<forall>b \<in> set ?bins. b \<noteq> [] \<and> (bin_sum lengths b \<le> cap \<or> length b = 1)"
      using less.prems(1) set_update_subset_insert [of bins idx l] by auto
    have sub: "set ?bins \<subseteq> insert l (insert r (set bins))" using set_update_subset_insert [of bins idx l] by auto
    have "\<forall>i \<in> set l \<union> set r. 0 < lengths ! i" using less.prems(2) old by (simp only: parts) blast
    with less.prems(2) sub have 2: "\<forall>b \<in> set ?bins. \<forall>i \<in> set b. 0 < lengths ! i" by blast
    have mset: "mset (concat ?bins) = mset (concat bins)"
      by (rule mset_concat_split [OF idx(1) split_bin_mset [OF lr]])
    then have len: "length (concat ?bins) = length (concat bins)" by (metis size_mset)
    have "length ?bins \<le> length (concat ?bins)" using 1 by (intro concat_length_ge) blast
    have "target - length ?bins < target - length bins" using True by (simp add: diff_less_mono2)
    note IH = less.hyps [OF this 1 2 less.prems(3) [unfolded step]]
    show ?thesis using IH True \<open>length ?bins \<le> length (concat ?bins)\<close> unfolding mset len
      by (cases "Suc (length bins) < target") (simp_all add: min_def)
  next
    case False
    then have same: "expand_bins_by_splitting bins target lengths = bins"
      using split_candidates_Nil [of bins lengths] by (subst expand_bins_by_splitting.simps) auto
    have "length (concat bins) = length bins" if "\<forall>b \<in> set bins. length b \<le> 1"
    proof -
      have "\<forall>b \<in> set bins. length b = 1" using that less.prems(1) by (metis le_neq_implies_less length_0_conv less_one)
      then show ?thesis using concat_length_eq_const by fastforce
    qed
    with False less.prems same show ?thesis by auto
  qed
qed

section \<open>Properties\<close>

text \<open>C6: for non-negative weights, \<open>get_seqlen_balanced_partitions\<close> always returns: the requested number of
  non-empty sorted partitions that together hold every index exactly once, all of the same size when
  that is asked for, and no partition outweighs another by more than the heaviest single item.\<close>

theorem balanced_partitions_correct:
  fixes seqs :: "'v::linordered_idom list"
  assumes "0 < k" "k \<le> length seqs" "equal_size \<longrightarrow> length seqs mod k = 0" "\<forall>v \<in> set seqs. 0 \<le> v"
  shows "\<exists>parts. get_seqlen_balanced_partitions seqs k equal_size = Inr parts \<and> length parts = k \<and>
    tiles (length seqs) parts \<and> (\<forall>p \<in> set parts. p \<noteq> [] \<and> sorted p) \<and>
    (equal_size \<longrightarrow> (\<forall>p \<in> set parts. length p * k = length seqs)) \<and>
    (\<forall>p \<in> set parts. \<forall>q \<in> set parts. (\<Sum>i\<leftarrow>p. seqs ! i) \<le> (\<Sum>i\<leftarrow>q. seqs ! i) + Max (set seqs))"
  by (rule get_seqlen_balanced_partitions_returns [OF assms])

theorem balanced_partitions_correct_witness:
  "\<exists>parts. get_seqlen_balanced_partitions [7, 3, 5, 4 :: int] 2 True = Inr parts \<and> length parts = 2"
  using balanced_partitions_correct [of 2 "[7, 3, 5, 4 :: int]" True] by auto

text \<open>every round of Karmarkar-Karp merges the two partial partitions of largest spread: the heap
  returns the largest first, and keeps the order of what remains.\<close>

theorem karmarkar_karp_merges_largest_spreads:
  fixes pq :: "'v::linordered_idom kk_state list"
  assumes "heap_ok kk_state_lt pq" "1 < length pq"
  shows "\<exists>s0 q1 s1 q2. heappop kk_state_lt pq = Inr (s0, q1) \<and> heappop kk_state_lt q1 = Inr (s1, q2) \<and>
    mset pq = {#s0, s1#} + mset q2 \<and>
    spread s1 \<le> spread s0 \<and> (\<forall>s \<in> set q2. spread s \<le> spread s1) \<and>
    kk_loop pq = kk_loop (heappush kk_state_lt (kk_state_merge s0 s1) q2) \<and>
    heap_ok kk_state_lt (heappush kk_state_lt (kk_state_merge s0 s1) q2)"
proof -
  from assms(2) have "2 \<le> size (mset pq)" by simp
  then obtain a q1 b q2 where pops: "heappop kk_state_lt pq = Inr (a, q1)"
      "heappop kk_state_lt q1 = Inr (b, q2)" "mset pq = {#a, b#} + mset q2"
    by (rule heapq.pop_two [where lt = kk_state_lt])
  note largest = kk_pops_largest_spreads [OF assms pops(1,2)]
  have "heap_ok kk_state_lt (heappush kk_state_lt (kk_state_merge a b) q2)"
    using largest kk_order.sorted_heap.ok_push by blast
  with pops largest kk_loop_step [OF assms(2) pops(1,2)] show ?thesis by blast
qed

theorem karmarkar_karp_merges_largest_spreads_witness:
  "\<exists>pq s0 q1 s1 q2. push_states 2 [[(0, 7)], [(1, 3)], [(2, 5 :: int)]] = Inr pq \<and>
     heappop kk_state_lt pq = Inr (s0, q1) \<and> heappop kk_state_lt q1 = Inr (s1, q2) \<and> spread s1 \<le> spread s0"
proof -
  let ?items = "[[(0, 7)], [(1, 3)], [(2, 5 :: int)]] :: (nat \<times> int) list list"
  obtain pq where pq: "push_states 2 ?items = Inr pq" "mset pq = mset (map (init_state 2) ?items)"
    "heap_ok kk_state_lt pq"
    using push_states_returns [of ?items 2] by auto
  then have "length pq = 3" by (metis length_map list.size(3,4) add_Suc_right add_0_right
    numeral_3_eq_3 size_mset One_nat_def add_Suc)
  then have "1 < length pq" by simp
  from karmarkar_karp_merges_largest_spreads [OF pq(3) this] pq(1) show ?thesis by blast
qed

lemma bin_sum_concat: "bin_sum ls (concat bins) = sum_list (map (bin_sum ls) bins)"
  by (induction bins) (simp_all add: bin_sum_def)

lemma sum_pairs_bound:
  assumes "sorted_wrt (\<lambda>s t. cap < s + t) (xs :: nat list)" "2 \<le> length xs"
  shows "cap * length xs < 2 * sum_list xs"
proof -
  have pair: "cap < a + b" if "(a, b) \<in> set (zip xs (rotate1 xs))" for a b
  proof -
    from that obtain i where i: "i < length xs" "a = xs ! i" "b = xs ! (Suc i mod length xs)"
      by (auto simp: in_set_zip nth_rotate1)
    show ?thesis
    proof (cases "Suc i < length xs")
      case True
      with sorted_wrt_nth_less [OF assms(1), of i "Suc i"] i show ?thesis by simp
    next
      case False
      with i(1) have "Suc i = length xs" by simp
      with sorted_wrt_nth_less [OF assms(1), of 0 i] i assms(2) show ?thesis by (simp add: add.commute)
    qed
  qed
  have "sum_list (map2 (+) xs (rotate1 xs)) = sum_list xs + sum_list (rotate1 xs)"
    by (rule sum_list_map2_add) simp
  also have "sum_list (rotate1 xs) = sum_list xs" by (cases xs) auto
  finally have total: "sum_list (map2 (+) xs (rotate1 xs)) = 2 * sum_list xs" by simp
  have "\<forall>x \<in> set (map2 (+) xs (rotate1 xs)). Suc cap \<le> x" using pair by (auto simp: Suc_le_eq)
  from sum_list_lower [OF this] have "length xs * Suc cap \<le> sum_list (map2 (+) xs (rotate1 xs))" by simp
  moreover have "cap * length xs < length xs * Suc cap" using assms(2) by auto
  ultimately show ?thesis using total by linarith
qed

text \<open>C7: first-fit packing places every sample exactly once, in order within its bin; every bin is
  non-empty and within the cap unless it is a single oversized sample; no two bins could be merged
  under the cap, so a packing of two bins or more has fewer bins than twice the token total over the
  cap (nothing is said of the number when everything fits in one bin).\<close>

theorem first_fit_pack_correct:
  "let bins = first_fit_pack ls cap in
     tiles (length ls) bins \<and> [] \<notin> set bins \<and>
     list_all (\<lambda>b. sorted b \<and> (cap < bin_sum ls b \<longrightarrow> length b = 1)) bins \<and>
     sorted_wrt (\<lambda>b c. cap < bin_sum ls b + bin_sum ls c) bins \<and>
     (2 \<le> length bins \<longrightarrow> cap * length bins < 2 * sum_list ls)"
proof -
  let ?bins = "first_fit_pack ls cap"
  note facts = first_fit_pack_facts [of ?bins ls cap, OF refl]
  have "sum_list (map (bin_sum ls) ?bins) = bin_sum ls (concat ?bins)"
    by (simp add: bin_sum_concat)
  also have "\<dots> = bin_sum ls [0..<length ls]" using facts(1) bin_sum_mset unfolding tiles_def by blast
  also have "\<dots> = sum_list ls" by (simp add: bin_sum_def map_nth)
  finally have total: "sum_list (map (bin_sum ls) ?bins) = sum_list ls" .
  have "cap * length ?bins < 2 * sum_list ls" if "2 \<le> length ?bins"
    using sum_pairs_bound [of cap "map (bin_sum ls) ?bins"] facts(4) that total by (simp add: sorted_wrt_map)
  moreover have "list_all (\<lambda>b. sorted b \<and> (cap < bin_sum ls b \<longrightarrow> length b = 1)) ?bins"
    using facts(3) by (fastforce simp: list_all_iff)
  ultimately show ?thesis using facts(1,2,4) by (simp add: Let_def)
qed

theorem first_fit_pack_correct_witness:
  "first_fit_pack [4, 7, 3, 12, 2] 10 = [[0, 2, 4], [1], [3]] \<and> 10 * 3 < 2 * sum_list [4, 7, 3, 12, 2 :: nat]"
proof -
  have eq: "first_fit_pack [4, 7, 3, 12, 2] 10 = [[0, 2, 4], [1], [3]]" by code_simp
  with first_fit_pack_correct [of "[4, 7, 3, 12, 2]" 10] show ?thesis by (simp add: Let_def)
qed

text \<open>growing a packing of samples that have tokens keeps every index, keeps every bin non-empty and
  within the cap (or a singleton), and reaches the target count exactly when there are enough samples.\<close>

theorem expand_bins_correct:
  assumes "\<forall>b \<in> set bins. b \<noteq> [] \<and> (bin_sum lengths b \<le> cap \<or> length b = 1)"
    and "\<forall>b \<in> set bins. \<forall>i \<in> set b. 0 < lengths ! i"
    and "length bins \<le> target"
  shows "let bins' = expand_bins_by_splitting bins target lengths in
    mset (concat bins') = mset (concat bins) \<and>
    (\<forall>b \<in> set bins'. b \<noteq> [] \<and> (bin_sum lengths b \<le> cap \<or> length b = 1)) \<and>
    length bins' = min target (length (concat bins))"
proof -
  have "length bins \<le> length (concat bins)" using assms(1) by (intro concat_length_ge) blast
  with expand_keeps [OF assms(1,2) refl, of target] assms(3) show ?thesis
    by (auto simp: Let_def min_def split: if_splits)
qed

theorem expand_bins_correct_witness:
  "length (expand_bins_by_splitting [[0, 1, 2], [3]] 3 [4, 3, 2, 9]) = 3"
  using expand_bins_correct [of "[[0, 1, 2], [3]]" "[4, 3, 2, 9]" 10 3]
  by (auto simp: Let_def bin_sum_def)

text \<open>splitting a bin keeps its indices, and the two halves differ by at most its largest sample. Each
  half is a strict part of a bin of at least two samples exactly when some sample has tokens: a
  bin of empty samples is returned whole beside an empty half.\<close>

theorem split_bin_correct:
  assumes "split_bin_by_tokens b lengths = (l, r)" "1 < length b"
  shows "mset l + mset r = mset b \<and>
    bin_sum lengths l \<le> bin_sum lengths r + Max ((!) lengths ` set b) \<and>
    bin_sum lengths r \<le> bin_sum lengths l + Max ((!) lengths ` set b) \<and>
    (l \<noteq> [] \<and> r \<noteq> [] \<longleftrightarrow> (\<exists>i \<in> set b. 0 < lengths ! i))"
proof -
  have le: "\<forall>i \<in> set b. lengths ! i \<le> Max ((!) lengths ` set b)" by simp
  have "r = []" if zero: "\<not> (\<exists>i \<in> set b. 0 < lengths ! i)"
  proof -
    have "foldl (split_step lengths) ((xs, []), (0, 0)) ys = ((xs @ ys, []), (0, 0))"
      if "\<forall>i \<in> set ys. lengths ! i = 0" for xs ys
      using that by (induction ys arbitrary: xs) (auto simp: split_step_def)
    from this [of "sort_key (\<lambda>i. - int (lengths ! i)) b" "[]"] zero assms(1) show ?thesis
      by (simp add: split_bin_by_tokens_def)
  qed
  with split_bin_mset [OF assms(1)] split_bin_balanced [OF assms(1) le] split_bin_nonempty [OF assms]
  show ?thesis by blast
qed

theorem split_bin_correct_witness:
  "split_bin_by_tokens [0, 1] [0, 0] = ([0, 1], []) \<and> mset [0, 1] + mset [] = mset [0, 1 :: nat]"
proof -
  have eq: "split_bin_by_tokens [0, 1] [0, 0] = ([0, 1], [])" by code_simp
  from split_bin_correct [OF eq] show ?thesis using eq by simp
qed

end
