(* ===== verification/Flops.thy ===== *)
theory Flops
  imports Prelude
begin

text \<open>
  \<open>vime/utils/flops_utils.py\<close>: the forward FLOP estimate of a list of sequence lengths, for dense
  and mixture-of-experts layers, with and without multi-latent attention. The \<open>args\<close> namespace is
  an extensible record, so that the scheduler's arguments extend it; attributes the code reads
  with a default, or tests for presence, are options.
\<close>

datatype moe_freq = FreqAbsent | FreqList "int list" | FreqEvery nat

record flops_args =
  hidden_size :: nat
  num_attention_heads :: nat
  num_query_groups :: nat
  vocab_size :: nat
  ffn_hidden_size :: nat
  num_layers :: nat
  kv_channels :: nat
  multi_latent_attention :: bool
  q_lora_rank :: "nat option"
  kv_lora_rank :: "nat option"
  qk_head_dim :: nat
  qk_pos_emb_head_dim :: nat
  v_head_dim :: nat
  num_experts :: "nat option"
  moe_shared_expert_intermediate_size :: "nat option"
  moe_ffn_hidden_size :: nat
  moe_router_topk :: nat
  moe_layer_freq :: moe_freq

definition calculate_lm_head_flops :: "nat \<Rightarrow> nat \<Rightarrow> nat \<Rightarrow> real" where
  "calculate_lm_head_flops seqlen hidden vocab = real (2 * seqlen * hidden * vocab)"

definition calculate_qkv_projection_flops ::
  "'a flops_args_scheme \<Rightarrow> nat \<Rightarrow> nat \<Rightarrow> nat \<Rightarrow> nat \<Rightarrow> real" where
  "calculate_qkv_projection_flops args seqlen hidden heads query_groups =
     (let is_mla = multi_latent_attention args;
          q_flops = (case (is_mla, q_lora_rank args) of
              (True, Some rank) \<Rightarrow>
                2 * seqlen * rank *
                (hidden_size args + num_attention_heads args * (qk_head_dim args + qk_pos_emb_head_dim args))
            | _ \<Rightarrow>
                (let q_head_dim = (if is_mla then qk_head_dim args + qk_pos_emb_head_dim args
                                   else kv_channels args)
                 in 2 * seqlen * hidden * heads * q_head_dim));
          kv_flops = (case (is_mla, kv_lora_rank args) of
              (True, Some rank) \<Rightarrow>
                2 * seqlen *
                (rank * (hidden_size args + num_attention_heads args * (qk_head_dim args + v_head_dim args))
                 + hidden_size args * qk_pos_emb_head_dim args)
            | _ \<Rightarrow> 2 * 2 * seqlen * hidden * query_groups * kv_channels args)
      in real (q_flops + kv_flops))"

definition calculate_attention_flops :: "'a flops_args_scheme \<Rightarrow> nat \<Rightarrow> nat \<Rightarrow> real" where
  "calculate_attention_flops args seqlen heads =
     (let is_mla = multi_latent_attention args;
          qk = (if is_mla
                then real (2 * heads * seqlen * seqlen * (qk_head_dim args + qk_pos_emb_head_dim args)) / 2
                else real (2 * heads * seqlen * seqlen * kv_channels args) / 2)
      in qk + (if is_mla then real (heads * seqlen * seqlen * v_head_dim args)
               else real (heads * seqlen * seqlen * kv_channels args)))"

definition calculate_output_flops :: "nat \<Rightarrow> nat \<Rightarrow> real" where
  "calculate_output_flops seqlen hidden = real (2 * seqlen * hidden * hidden)"

definition calculate_mlp_flops :: "nat \<Rightarrow> nat \<Rightarrow> nat \<Rightarrow> real" where
  "calculate_mlp_flops seqlen hidden ffn = real (2 * seqlen * hidden * ffn * 3)"

definition calculate_layer_flops ::
  "'a flops_args_scheme \<Rightarrow> nat \<Rightarrow> nat \<Rightarrow> nat \<Rightarrow> nat \<Rightarrow> nat \<Rightarrow> real" where
  "calculate_layer_flops args seqlen hidden heads query_groups ffn =
     calculate_qkv_projection_flops args seqlen hidden heads query_groups
     + calculate_attention_flops args seqlen heads
     + calculate_output_flops seqlen hidden
     + calculate_mlp_flops seqlen hidden ffn"

text \<open>The numbers of dense and of mixture-of-experts layers, and the width of the latter's MLP.\<close>

definition layer_counts :: "'a flops_args_scheme \<Rightarrow> (nat \<times> nat \<times> nat) result" where
  "layer_counts args =
     (case num_experts args of
        None \<Rightarrow> Inr (num_layers args, 0, 0)
      | Some _ \<Rightarrow>
          let shared_expert_ffn = (case moe_shared_expert_intermediate_size args of None \<Rightarrow> 0 | Some n \<Rightarrow> n);
              moe_ffn = moe_ffn_hidden_size args * moe_router_topk args + shared_expert_ffn
          in case moe_layer_freq args of
               FreqList freqs \<Rightarrow>
                 Inr (length (filter (\<lambda>f. f = 0) freqs), length (filter (\<lambda>f. f > 0) freqs), moe_ffn)
             | FreqEvery freq \<Rightarrow>
                 if freq = 0 \<and> num_layers args \<noteq> 0 then Inl ZeroDivisionError
                 else Inr (length (filter (\<lambda>i. i mod freq \<noteq> 0) [0..<num_layers args]),
                           length (filter (\<lambda>i. i mod freq = 0) [0..<num_layers args]), moe_ffn)
             | FreqAbsent \<Rightarrow> Inr (0, num_layers args, moe_ffn))"

definition seqlen_flops :: "'a flops_args_scheme \<Rightarrow> nat \<times> nat \<times> nat \<Rightarrow> nat \<Rightarrow> real" where
  "seqlen_flops args = (\<lambda>(num_dense_layers, num_moe_layers, moe_ffn) seqlen.
     (if 0 < num_dense_layers
      then calculate_layer_flops args seqlen (hidden_size args) (num_attention_heads args)
             (num_query_groups args) (ffn_hidden_size args) * num_dense_layers
      else 0)
     + (if 0 < num_moe_layers
        then calculate_layer_flops args seqlen (hidden_size args) (num_attention_heads args)
               (num_query_groups args) moe_ffn * num_moe_layers
        else 0)
     + calculate_lm_head_flops seqlen (hidden_size args) (vocab_size args))"

definition calculate_fwd_flops :: "nat list \<Rightarrow> 'a flops_args_scheme \<Rightarrow> real result" where
  "calculate_fwd_flops seqlens args =
     res_bind (layer_counts args)
       (\<lambda>counts. Inr (foldl (\<lambda>total_flops seqlen. total_flops + seqlen_flops args counts seqlen) 0 seqlens))"

section \<open>The estimate is additive, monotone and non-negative\<close>

named_theorems flops_defs \<open>the summands of a layer's estimate\<close>

declare calculate_lm_head_flops_def [flops_defs] calculate_output_flops_def [flops_defs]
  calculate_mlp_flops_def [flops_defs] calculate_layer_flops_def [flops_defs]

lemma qkv_flops_mono:
  "s \<le> t \<Longrightarrow> 0 \<le> calculate_qkv_projection_flops args s h n g \<and>
     calculate_qkv_projection_flops args s h n g \<le> calculate_qkv_projection_flops args t h n g"
  by (auto simp: calculate_qkv_projection_flops_def Let_def intro!: add_mono mult_mono
      split: option.split bool.split simp del: of_nat_add of_nat_mult)

lemma attention_flops_mono:
  "s \<le> t \<Longrightarrow> 0 \<le> calculate_attention_flops args s n \<and>
     calculate_attention_flops args s n \<le> calculate_attention_flops args t n"
  by (auto simp: calculate_attention_flops_def Let_def intro!: add_mono divide_right_mono mult_mono)

lemma layer_flops_mono:
  assumes "s \<le> t"
  shows "0 \<le> calculate_layer_flops args s h n g f"
    and "calculate_layer_flops args s h n g f \<le> calculate_layer_flops args t h n g f"
proof -
  note parts = qkv_flops_mono [OF assms, of args h n g] attention_flops_mono [OF assms, of args n]
  have "real (2 * s * h * h) \<le> real (2 * t * h * h)" "real (2 * s * h * f * 3) \<le> real (2 * t * h * f * 3)"
    using assms by (simp_all only: of_nat_le_iff mult_le_mono order_refl)
  with parts show "calculate_layer_flops args s h n g f \<le> calculate_layer_flops args t h n g f"
    by (simp only: flops_defs add_mono)
  from parts show "0 \<le> calculate_layer_flops args s h n g f" by (simp add: flops_defs)
qed

lemma seqlen_flops_mono:
  assumes "s \<le> t"
  shows "0 \<le> seqlen_flops args c s" and "seqlen_flops args c s \<le> seqlen_flops args c t"
proof -
  have "calculate_lm_head_flops s (hidden_size args) (vocab_size args)
      \<le> calculate_lm_head_flops t (hidden_size args) (vocab_size args)"
    unfolding calculate_lm_head_flops_def using assms by (simp only: of_nat_le_iff mult_le_mono order_refl)
  with layer_flops_mono [OF assms, of args "hidden_size args"] show "seqlen_flops args c s \<le> seqlen_flops args c t"
    by (cases c) (auto simp: seqlen_flops_def intro!: add_mono mult_right_mono)
  show "0 \<le> seqlen_flops args c s"
    using layer_flops_mono(1) [OF order_refl, of args s "hidden_size args"]
    by (cases c) (auto simp: seqlen_flops_def calculate_lm_head_flops_def)
qed

lemma fwd_flops_sum:
  "calculate_fwd_flops xs args = res_bind (layer_counts args) (\<lambda>c. Inr (\<Sum>s\<leftarrow>xs. seqlen_flops args c s))"
proof -
  have "foldl (\<lambda>t s. t + seqlen_flops args c s) a xs = a + (\<Sum>s\<leftarrow>xs. seqlen_flops args c s)" for c a
    by (induction xs arbitrary: a) auto
  then show ?thesis by (simp add: calculate_fwd_flops_def)
qed

lemma fwd_flops_nonneg: "calculate_fwd_flops xs args = Inr f \<Longrightarrow> 0 \<le> f"
  using seqlen_flops_mono(1) [OF order_refl]
  by (auto simp: fwd_flops_sum res_bind_eq_Inr intro!: sum_list_nonneg)

lemma fwd_flops_returns:
  "moe_layer_freq args \<noteq> FreqEvery 0 \<Longrightarrow> \<exists>f. calculate_fwd_flops xs args = Inr f"
  by (auto simp: calculate_fwd_flops_def layer_counts_def Let_def split: option.splits moe_freq.splits)

section \<open>Properties\<close>

text \<open>the FLOP estimate is defined for every batch unless a zero MoE layer period is configured;
  it is non-negative, grows with every sequence length and adds up over the sequences of a batch.\<close>

theorem fwd_flops_additive_monotone:
  assumes "moe_layer_freq args \<noteq> FreqEvery 0" "list_all2 (\<le>) xs ys"
  shows "\<exists>f g h. calculate_fwd_flops xs args = Inr f \<and> calculate_fwd_flops ys args = Inr g \<and>
    calculate_fwd_flops zs args = Inr h \<and> 0 \<le> f \<and> f \<le> g \<and> calculate_fwd_flops (xs @ zs) args = Inr (f + h)"
proof -
  obtain c where c: "layer_counts args = Inr c"
    using fwd_flops_returns [OF assms(1), of "[]"] by (auto simp: fwd_flops_sum res_bind_eq_Inr)
  have "(\<Sum>s\<leftarrow>xs. seqlen_flops args c s) \<le> (\<Sum>s\<leftarrow>ys. seqlen_flops args c s)"
    using assms(2) by (induction rule: list_all2_induct) (auto intro: add_mono seqlen_flops_mono(2))
  moreover have "0 \<le> (\<Sum>s\<leftarrow>xs. seqlen_flops args c s)"
    by (cases c) (auto intro!: sum_list_nonneg seqlen_flops_mono(1))
  ultimately show ?thesis by (simp add: fwd_flops_sum c)
qed

definition tiny_args :: flops_args where
  "tiny_args = \<lparr>hidden_size = 4, num_attention_heads = 2, num_query_groups = 2, vocab_size = 10,
     ffn_hidden_size = 8, num_layers = 2, kv_channels = 2, multi_latent_attention = False,
     q_lora_rank = None, kv_lora_rank = None, qk_head_dim = 0, qk_pos_emb_head_dim = 0, v_head_dim = 0,
     num_experts = None, moe_shared_expert_intermediate_size = None, moe_ffn_hidden_size = 0,
     moe_router_topk = 0, moe_layer_freq = FreqAbsent\<rparr>"

theorem fwd_flops_additive_monotone_witness:
  "\<exists>f g. calculate_fwd_flops [3, 5] tiny_args = Inr f \<and> calculate_fwd_flops [4, 5] tiny_args = Inr g \<and> f \<le> g"
  using fwd_flops_additive_monotone [of tiny_args "[3, 5]" "[4, 5]" "[]"] by (auto simp: tiny_args_def)

end
