(* ===== verification/Dp_Schedule.thy ===== *)
theory Dp_Schedule
  imports Seqlen_Balancing Flops
begin

text \<open>
  \<open>vime/utils/dp_schedule.py\<close>: grouping samples by rollout, cutting the rollouts into training
  steps, packing each step into micro-batches, aligning their number to the pipeline layout and
  distributing them over the data-parallel ranks. The loop over the steps threads the four lists
  the function returns.
\<close>

section \<open>Arguments and the schedule\<close>

record dp_args = flops_args +
  use_dynamic_batch_size :: bool
  max_tokens_per_gpu :: "nat option"
  micro_batch_size :: "nat option"
  balance_by_flops :: bool
  balance_data :: bool

record train_parallel_config =
  dp_size :: nat
  cp_size :: nat
  vpp_size :: nat
  microbatch_group_size_per_vp_stage :: nat

record schedule =
  partitions :: "nat list list"
  micro_batch_indices :: "nat list list list"
  num_microbatches :: "nat list"
  global_batch_sizes :: "nat list"

section \<open>Packing one step\<close>

definition calculate_workloads :: "nat list \<Rightarrow> 'a flops_args_scheme \<Rightarrow> real list result" where
  "calculate_workloads step_lengths args = res_map (\<lambda>sl. calculate_fwd_flops [sl] args) step_lengths"

definition pack_step_into_mbs ::
  "nat list \<Rightarrow> 'a dp_args_scheme \<Rightarrow> bool \<Rightarrow> nat option \<Rightarrow> nat option \<Rightarrow> bool \<Rightarrow> nat list list result" where
  "pack_step_into_mbs step_lengths args dynamic max_per_bin mbs_size by_flops =
     (if dynamic then
        case max_per_bin of
          None \<Rightarrow> Inl (AssertionError ''max_per_bin is not None'')
        | Some cap \<Rightarrow>
            if by_flops then
              if cap = 0 then Inl ZeroDivisionError
              else let total_tokens = sum_list step_lengths;
                       num_mbs = max 1 ((total_tokens + cap - 1) div cap)
                   in if length step_lengths \<le> num_mbs
                      then Inr (map (\<lambda>i. [i]) [0..<length step_lengths])
                      else res_bind (calculate_workloads step_lengths args)
                        (\<lambda>workloads. get_seqlen_balanced_partitions workloads num_mbs False)
            else Inr (first_fit_pack step_lengths cap)
      else
        case mbs_size of
          None \<Rightarrow> Inl (AssertionError ''micro_batch_size is not None'')
        | Some m \<Rightarrow>
            if m = 0 then Inl (ValueError ''range() arg 3 must not be zero'')
            else let n = length step_lengths
                 in Inr (map (\<lambda>i. [i..<min (i + m) n]) (py_range 0 n m)))"

definition max_per_bin_of :: "'a dp_args_scheme \<Rightarrow> train_parallel_config \<Rightarrow> nat option result" where
  "max_per_bin_of args cfg =
     (if use_dynamic_batch_size args
      then case max_tokens_per_gpu args of
          None \<Rightarrow> Inl (AssertionError ''max_tokens_per_gpu is not None'')
        | Some m \<Rightarrow> Inr (Some (m * cp_size cfg))
      else Inr None)"

definition align_to_of :: "train_parallel_config \<Rightarrow> nat" where
  "align_to_of cfg =
     dp_size cfg * (if 1 < vpp_size cfg then microbatch_group_size_per_vp_stage cfg else 1)"

text \<open>Steps 1 and 2 of the loop body: the micro-batches of a step, their number aligned.\<close>

definition align_step_mbs ::
  "'a dp_args_scheme \<Rightarrow> nat \<Rightarrow> nat list \<Rightarrow> nat list list \<Rightarrow> nat list list result" where
  "align_step_mbs args align_to step_lengths step_mbs =
     (if align_to = 0 then Inl ZeroDivisionError
      else let target_K = max ((length step_mbs + align_to - 1) div align_to * align_to) align_to
           in if target_K \<noteq> length step_mbs then
                if use_dynamic_batch_size args then
                  let step_mbs' = expand_bins_by_splitting step_mbs target_K step_lengths
                  in if length step_mbs' \<noteq> target_K
                     then Inl (AssertionError ''dynamic path: could only produce fewer mbs'')
                     else Inr step_mbs'
                else Inl (AssertionError ''static path: num_mbs is not a multiple of dp_size * mb_group'')
              else Inr step_mbs)"

text \<open>Step 3: which micro-batches each rank runs.\<close>

definition distribute_mbs ::
  "'a dp_args_scheme \<Rightarrow> nat \<Rightarrow> nat list \<Rightarrow> nat list list \<Rightarrow> nat list list result" where
  "distribute_mbs args dp step_lengths step_mbs =
     (if balance_data args
      then res_bind (calculate_workloads step_lengths args)
        (\<lambda>step_workloads.
           get_seqlen_balanced_partitions
             (map (\<lambda>bin. sum_list (map (\<lambda>i. step_workloads ! i) bin)) step_mbs) dp True)
      else Inr (map (\<lambda>r. py_range r (length step_mbs) dp) [0..<dp]))"

text \<open>Step 4: one rank's samples and local micro-batch indices.\<close>

definition place_rank ::
  "nat list \<Rightarrow> nat list list \<Rightarrow> nat list \<times> nat list list \<Rightarrow> nat list \<Rightarrow> nat list \<times> nat list list" where
  "place_rank sample_indices step_mbs = foldl
     (\<lambda>(part, mbi) mbs_idx.
        let mbs_locals = step_mbs ! mbs_idx; local_start = length part
        in (part @ map (\<lambda>i. sample_indices ! i) mbs_locals,
            mbi @ [[local_start..<local_start + length mbs_locals]]))"

section \<open>The schedule\<close>

definition group_by_rollout :: "int list \<Rightarrow> (int \<times> nat list) list" where
  "group_by_rollout rollout_indices = group_pairs (zip rollout_indices [0..<length rollout_indices])"

definition step_sample_indices :: "(int \<times> nat list) list \<Rightarrow> nat \<Rightarrow> nat \<Rightarrow> nat list" where
  "step_sample_indices groups gbs step_i =
     concat (map (\<lambda>rid. case map_of groups rid of Some ps \<Rightarrow> ps | None \<Rightarrow> [])
       (slice (step_i * gbs) ((step_i + 1) * gbs) (map fst groups)))"

definition dp_step ::
  "'a dp_args_scheme \<Rightarrow> train_parallel_config \<Rightarrow> nat option \<Rightarrow> nat list \<Rightarrow> nat \<Rightarrow>
   (int \<times> nat list) list \<Rightarrow> schedule \<Rightarrow> nat \<Rightarrow> schedule result" where
  "dp_step args cfg max_per_bin total_lengths gbs groups out step_i =
     (let sample_indices = step_sample_indices groups gbs step_i; dp = dp_size cfg in
      res_bind (res_map (py_nth total_lengths) sample_indices) (\<lambda>step_lengths.
      if length sample_indices < dp then Inl (AssertionError ''each step needs at least one sample per rank'')
      else
      res_bind (pack_step_into_mbs step_lengths args (use_dynamic_batch_size args) max_per_bin
                  (micro_batch_size args) (balance_by_flops args)) (\<lambda>packed.
      res_bind (align_step_mbs args (align_to_of cfg) step_lengths packed) (\<lambda>step_mbs.
      res_bind (distribute_mbs args dp step_lengths step_mbs) (\<lambda>rank_mbs_idx.
      let placed = map (\<lambda>r. place_rank sample_indices step_mbs
                          (partitions out ! r, micro_batch_indices out ! r) (rank_mbs_idx ! r)) [0..<dp]
      in Inr \<lparr>partitions = map fst placed,
              micro_batch_indices = map snd placed,
              num_microbatches = num_microbatches out @ [length step_mbs div dp],
              global_batch_sizes = global_batch_sizes out @ [gbs]\<rparr>)))))"

definition build_dp_schedule ::
  "'a dp_args_scheme \<Rightarrow> train_parallel_config \<Rightarrow> nat list \<Rightarrow> nat \<Rightarrow> int list \<Rightarrow> schedule result" where
  "build_dp_schedule args cfg total_lengths gbs rollout_indices =
     res_bind (max_per_bin_of args cfg) (\<lambda>max_per_bin.
       let groups = group_by_rollout rollout_indices in
       if gbs = 0 then Inl ZeroDivisionError
       else let num_steps = length groups div gbs in
         if num_steps < 1 then Inl (AssertionError ''num_rollouts < global_batch_size'')
         else res_fold (dp_step args cfg max_per_bin total_lengths gbs groups)
           \<lparr>partitions = replicate (dp_size cfg) [], micro_batch_indices = replicate (dp_size cfg) [],
            num_microbatches = [], global_batch_sizes = []\<rparr> [0..<num_steps])"

section \<open>Packing tiles the step\<close>

lemma workloads_facts:
  assumes "calculate_workloads ls args = Inr ws"
  shows "length ws = length ls" and "\<forall>w \<in> set ws. 0 \<le> w"
proof -
  show len: "length ws = length ls"
    using assms by (auto simp: calculate_workloads_def dest: res_map_length)
  have "0 \<le> ws ! i" if "i < length ls" for i
    using res_map_nth [of "\<lambda>sl. calculate_fwd_flops [sl] args" ls ws i] assms that
    by (auto simp: calculate_workloads_def intro: fwd_flops_nonneg)
  with len show "\<forall>w \<in> set ws. 0 \<le> w" by (auto simp: in_set_conv_nth)
qed

lemma concat_static_chunks:
  "concat (map (\<lambda>j. [j * m..<min (j * m + m) n]) [0..<c]) = [0..<min (c * m) n]"
proof (induction c)
  case (Suc c)
  have "[0..<min (c * m) n] @ [c * m..<min (c * m + m) n] = [0..<min (Suc c * m) n]"
  proof (cases "c * m \<le> n")
    case True
    then have "min (Suc c * m) n = c * m + (min (c * m + m) n - c * m)" by simp
    with upt_add_eq_append [of 0 "c * m" "min (c * m + m) n - c * m"] True
    have "[0..<min (Suc c * m) n] = [0..<c * m] @ [c * m..<min (c * m + m) n]" by simp
    with True show ?thesis by simp
  qed (simp add: add.commute)
  with Suc show ?case by simp
qed simp

lemma ceil_div_mult:
  assumes "0 < m"
  shows "n \<le> (n + m - 1) div m * (m::nat)"
proof -
  have "(n + m - 1) div m * m + (n + m - 1) mod m = n + m - 1" by (rule div_mult_mod_eq)
  moreover have "(n + m - 1) mod m < m" using assms by simp
  ultimately show ?thesis by linarith
qed

lemma pack_tiles:
  assumes "pack_step_into_mbs ls args dyn cap mbs by_flops = Inr bins"
  shows "tiles (length ls) bins \<and> [] \<notin> set bins"
proof (cases dyn)
  case False
  with assms obtain m where m: "0 < m" and bins: "bins = map (\<lambda>i. [i..<min (i + m) (length ls)]) (py_range 0 (length ls) m)"
    by (auto simp: pack_step_into_mbs_def Let_def split: option.splits if_splits)
  have "concat bins = [0..<length ls]"
    using concat_static_chunks [of m "length ls" "(length ls + m - 1) div m"] ceil_div_mult [OF m, of "length ls"]
    by (simp add: bins py_range_def comp_def)
  moreover have "i < length ls" if "i \<in> set (py_range 0 (length ls) m)" for i
  proof -
    from that obtain j where j: "i = j * m" "j < (length ls + m - 1) div m" unfolding py_range_def by force
    then have "Suc j \<le> (length ls + m - 1) div m" by simp
    then have "Suc j * m \<le> length ls + m - 1" by (metis div_times_less_eq_dividend le_trans mult_le_mono1)
    with j m show ?thesis by simp
  qed
  then have chunk: "i < min (i + m) (length ls)" if "i \<in> set (py_range 0 (length ls) m)" for i
    using m that by (simp only: min_less_iff_conj less_add_same_cancel1)
  have "[] \<notin> set bins"
  proof
    assume "[] \<in> set bins"
    then obtain i where "[] = [i..<min (i + m) (length ls)]" "i \<in> set (py_range 0 (length ls) m)"
      unfolding bins set_map by (rule imageE)
    with chunk [of i] show False by (metis upt_conv_Cons list.discI)
  qed
  ultimately show ?thesis by (simp add: tiles_def)
next
  case True
  with assms obtain c where c: "cap = Some c" by (auto simp: pack_step_into_mbs_def split: option.splits)
  show ?thesis
  proof (cases by_flops)
    case False
    with assms True c first_fit_pack_facts(1,2) [of bins ls c] show ?thesis
      by (simp add: pack_step_into_mbs_def)
  next
    case by_flops: True
    let ?k = "max 1 ((sum_list ls + c - 1) div c)"
    have single: "tiles (length ls) (map (\<lambda>i. [i]) [0..<length ls])"
      by (induction ls) (simp_all add: tiles_def)
    show ?thesis
    proof (cases "length ls \<le> ?k")
      case True
      then have "bins = map (\<lambda>i. [i]) [0..<length ls]"
        using assms \<open>dyn\<close> c by_flops by (auto simp: pack_step_into_mbs_def Let_def split: if_splits)
      with single show ?thesis by auto
    next
      case False
      with assms \<open>dyn\<close> c by_flops obtain ws where ws: "calculate_workloads ls args = Inr ws"
        "get_seqlen_balanced_partitions ws ?k False = Inr bins"
        by (auto simp: pack_step_into_mbs_def Let_def res_bind_eq_Inr split: if_splits)
      note facts = workloads_facts [OF ws(1)]
      have k: "0 < ?k" "?k \<le> length ws" using False facts(1) by linarith+
      from get_seqlen_balanced_partitions_returns [OF k, of False] facts ws(2)
      show ?thesis by auto
    qed
  qed
qed

lemma align_facts:
  assumes "align_step_mbs args align ls mbs = Inr mbs'"
  shows "0 < align" and "align dvd length mbs'" and "mset (concat mbs') = mset (concat mbs)"
    and "0 < length mbs'"
proof -
  let ?K = "max ((length mbs + align - 1) div align * align) align"
  show pos: "0 < align" using assms by (cases "align = 0") (simp_all add: align_step_mbs_def)
  have dvd: "align dvd ?K" by (simp add: max_def)
  have cases: "(?K = length mbs \<and> mbs' = mbs) \<or>
      (length mbs' = ?K \<and> mbs' = expand_bins_by_splitting mbs ?K ls)"
    using assms by (auto simp: align_step_mbs_def Let_def split: if_splits)
  then have len: "length mbs' = ?K" by auto
  with dvd show "align dvd length mbs'" by simp
  show "mset (concat mbs') = mset (concat mbs)" using cases expand_mset by auto
  show "0 < length mbs'" using len pos by simp
qed

section \<open>Distribution\<close>

lemma mset_concat_snoc: "mset (concat (map (\<lambda>r. g r @ [h r]) xs)) = mset (concat (map g xs)) + mset (map h xs)"
  by (induction xs) auto

lemma tiles_round_robin: "tiles (q * dp) (map (\<lambda>r. map (\<lambda>j. r + j * dp) [0..<q]) [0..<dp])"
proof (induction q)
  case (Suc q)
  let ?f = "\<lambda>r. map (\<lambda>j. r + j * dp) [0..<q]"
  have "map (\<lambda>r. map (\<lambda>j. r + j * dp) [0..<Suc q]) [0..<dp] = map (\<lambda>r. ?f r @ [r + q * dp]) [0..<dp]" by simp
  moreover have "[0..<Suc q * dp] = [0..<q * dp] @ map (\<lambda>r. r + q * dp) [0..<dp]"
    using upt_add_eq_append [of 0 "q * dp" dp] map_add_upt [of "q * dp" dp] by (simp add: add.commute)
  ultimately show ?case using Suc unfolding tiles_def by (simp only: mset_concat_snoc mset_append)
qed (simp add: tiles_def)

lemma distribute_facts:
  assumes "distribute_mbs args dp ls mbs = Inr ranks" "0 < dp" "dp dvd length mbs"
    and "tiles (length ls) mbs" "0 < length mbs"
  shows "length ranks = dp" and "tiles (length mbs) ranks"
    and "\<forall>r \<in> set ranks. length r = length mbs div dp"
proof -
  have le: "dp \<le> length mbs" using assms(3,5) by (rule dvd_imp_le)
  have "length ranks = dp \<and> tiles (length mbs) ranks \<and> (\<forall>r \<in> set ranks. length r * dp = length mbs)"
  proof (cases "balance_data args")
    case True
    let ?w = "\<lambda>ws. map (\<lambda>bin. sum_list (map (\<lambda>i. ws ! i) bin)) mbs"
    from assms(1) True obtain ws where ws: "calculate_workloads ls args = Inr ws"
      "get_seqlen_balanced_partitions (?w ws) dp True = Inr ranks"
      by (auto simp: distribute_mbs_def res_bind_eq_Inr)
    note facts = workloads_facts [OF ws(1)]
    have "0 \<le> sum_list (map (\<lambda>i. ws ! i) bin)" if "bin \<in> set mbs" for bin
      using facts tiles_index [OF assms(4) that] by (intro sum_list_nonneg) auto
    then have "\<forall>v \<in> set (?w ws). 0 \<le> v" by auto
    with get_seqlen_balanced_partitions_returns [of dp "?w ws" True] assms(2,3) le ws(2)
    show ?thesis by auto
  next
    case False
    obtain q where q: "length mbs = q * dp" using assms(3) by (metis dvdE mult.commute)
    have "(q * dp - r + dp - 1) div dp = q" if "r < dp" for r
    proof (cases "q = 0")
      case True
      then show ?thesis using assms(5) q by simp
    next
      case False
      have "q * dp - r + dp - 1 = q * dp + (dp - 1 - r)" using False that by (cases q) auto
      then show ?thesis using assms(2) by simp
    qed
    then have "ranks = map (\<lambda>r. map (\<lambda>j. r + j * dp) [0..<q]) [0..<dp]"
      using assms(1) False by (auto simp: distribute_mbs_def py_range_def q)
    then show ?thesis using tiles_round_robin [of q dp] by (auto simp: q)
  qed
  with assms(2) show "length ranks = dp" "tiles (length mbs) ranks"
    "\<forall>r \<in> set ranks. length r = length mbs div dp"
    by (auto, metis nonzero_mult_div_cancel_right less_not_refl)
qed

section \<open>Placement\<close>

text \<open>A rank's lists are consistent: its micro-batches tile its samples in order, and the samples of
  every micro-batch satisfy \<open>Q\<close>.\<close>

definition rank_ok :: "(nat list \<Rightarrow> bool) \<Rightarrow> nat list \<times> nat list list \<Rightarrow> bool" where
  "rank_ok Q = (\<lambda>(part, mbi). concat mbi = [0..<length part] \<and>
     (\<forall>mb \<in> set mbi. Q (map (\<lambda>i. part ! i) mb)))"

lemma map_nth_append_left: "(\<forall>i \<in> set is. i < length xs) \<Longrightarrow> map ((!) (xs @ ys)) is = map ((!) xs) is"
  by (simp add: nth_append)

lemma map_nth_append_right: "map ((!) (xs @ ys)) [length xs..<length xs + length ys] = ys"
  by (intro nth_equalityI) auto

lemma rank_ok_extend:
  assumes "rank_ok Q (part, mbi)" "Q new"
  shows "rank_ok Q (part @ new, mbi @ [[length part..<length part + length new]])"
proof -
  have tile: "concat mbi = [0..<length part]" and Q: "\<forall>mb \<in> set mbi. Q (map ((!) part) mb)"
    using assms(1) by (auto simp: rank_ok_def)
  have "map ((!) (part @ new)) mb = map ((!) part) mb" if "mb \<in> set mbi" for mb
  proof (rule map_nth_append_left)
    have "set mb \<subseteq> set (concat mbi)" using that by auto
    then show "\<forall>i \<in> set mb. i < length part" unfolding tile by auto
  qed
  with Q have "\<forall>mb \<in> set mbi. Q (map ((!) (part @ new)) mb)" by metis
  moreover have "concat (mbi @ [[length part..<length part + length new]]) = [0..<length (part @ new)]"
    using tile upt_add_eq_append [of 0 "length part" "length new"] by simp
  ultimately show ?thesis using assms(2) by (simp add: rank_ok_def map_nth_append_right)
qed

lemma place_rank_facts:
  assumes "place_rank si mbs (part, mbi) ks = (part', mbi')"
  shows "part' = part @ concat (map (\<lambda>k. map ((!) si) (mbs ! k)) ks)"
    and "length mbi' = length mbi + length ks"
    and "rank_ok Q (part, mbi) \<Longrightarrow> (\<forall>k \<in> set ks. Q (map ((!) si) (mbs ! k))) \<Longrightarrow> rank_ok Q (part', mbi')"
proof -
  have "part' = part @ concat (map (\<lambda>k. map ((!) si) (mbs ! k)) ks) \<and>
    length mbi' = length mbi + length ks \<and>
    (rank_ok Q (part, mbi) \<longrightarrow> (\<forall>k \<in> set ks. Q (map ((!) si) (mbs ! k))) \<longrightarrow> rank_ok Q (part', mbi'))"
    using assms
  proof (induction ks arbitrary: part mbi)
    case (Cons k ks)
    let ?new = "map ((!) si) (mbs ! k)"
    have "place_rank si mbs (part @ ?new, mbi @ [[length part..<length part + length ?new]]) ks = (part', mbi')"
      using Cons.prems by (simp add: place_rank_def Let_def)
    from Cons.IH [OF this] rank_ok_extend [of Q part mbi ?new] show ?case by auto
  qed (auto simp: place_rank_def)
  then show "part' = part @ concat (map (\<lambda>k. map ((!) si) (mbs ! k)) ks)"
    and "length mbi' = length mbi + length ks"
    and "rank_ok Q (part, mbi) \<Longrightarrow> (\<forall>k \<in> set ks. Q (map ((!) si) (mbs ! k))) \<Longrightarrow> rank_ok Q (part', mbi')"
    by auto
qed

lemma mset_concat_append2:
  "mset (concat (map (\<lambda>r. f r @ g r) xs)) = mset (concat (map f xs)) + mset (concat (map g xs))"
  by (induction xs) auto

lemma mset_concat_nested: "concat (map (\<lambda>r. concat (map f (R r))) xs) = concat (map f (concat (map R xs)))"
  by (induction xs) auto

lemma placed_mset:
  assumes "length parts = dp" "length ranks = dp" "tiles (length mbs) ranks" "tiles (length si) mbs"
  shows "mset (concat (map (\<lambda>r. parts ! r @ concat (map (\<lambda>k. map ((!) si) (mbs ! k)) (ranks ! r))) [0..<dp]))
    = mset (concat parts) + mset si"
proof -
  let ?h = "\<lambda>k. map ((!) si) (mbs ! k)"
  have "map ((!) parts) [0..<dp] = parts" "map ((!) ranks) [0..<dp] = ranks"
    using assms(1,2) by (simp_all add: list_eq_iff_nth_eq)
  then have "concat (map (\<lambda>r. concat (map ?h (ranks ! r))) [0..<dp]) = concat (map ?h (concat ranks))"
    by (simp only: mset_concat_nested)
  moreover have "mset (concat (map ?h (concat ranks))) = mset (concat (map ?h [0..<length mbs]))"
    using assms(3) by (intro mset_concat_perm) (simp add: tiles_def)
  moreover have "concat (map ?h [0..<length mbs]) = map ((!) si) (concat mbs)"
  proof -
    have "map ?h [0..<length mbs] = map (map ((!) si)) (map ((!) mbs) [0..<length mbs])"
      by (simp only: map_map comp_def)
    also have "\<dots> = map (map ((!) si)) mbs" by (simp only: map_nth)
    finally have "map ?h [0..<length mbs] = map (map ((!) si)) mbs" .
    then show ?thesis by (simp only: map_concat)
  qed
  moreover have "mset (map ((!) si) (concat mbs)) = mset si"
  proof -
    have "mset (map ((!) si) (concat mbs)) = image_mset ((!) si) (mset [0..<length si])"
      using assms(4) by (simp only: mset_map tiles_def)
    also have "\<dots> = mset (map ((!) si) [0..<length si])" by (simp only: mset_map)
    finally show ?thesis by (simp only: map_nth)
  qed
  ultimately show ?thesis
    using \<open>map ((!) parts) [0..<dp] = parts\<close> by (simp only: mset_concat_append2)
qed

section \<open>Steps\<close>

lemma group_by_rollout_facts:
  "distinct (map fst (group_by_rollout rids))"
  "mset (concat (map snd (group_by_rollout rids))) = mset [0..<length rids]"
  "map_of (group_by_rollout rids) rid = Some ps \<Longrightarrow> ps = filter (\<lambda>i. rids ! i = rid) [0..<length rids]"
proof -
  let ?z = "zip rids [0..<length rids]"
  show "distinct (map fst (group_by_rollout rids))"
    by (simp only: group_by_rollout_def group_pairs_distinct)
  have "map snd ?z = [0..<length rids]" by simp
  then show "mset (concat (map snd (group_by_rollout rids))) = mset [0..<length rids]"
    by (simp only: group_by_rollout_def group_pairs_mset)
  have "?z = map (\<lambda>i. (rids ! i, i)) [0..<length rids]" by (intro nth_equalityI) auto
  then have "map snd (filter (\<lambda>p. fst p = rid) ?z) = filter (\<lambda>i. rids ! i = rid) [0..<length rids]"
    by (simp add: filter_map comp_def)
  then show "map_of (group_by_rollout rids) rid = Some ps \<Longrightarrow> ps = filter (\<lambda>i. rids ! i = rid) [0..<length rids]"
    by (auto simp: group_by_rollout_def group_pairs_lookup split: if_splits)
qed

lemma step_sample_indices_slice:
  assumes "distinct (map fst groups)"
  shows "step_sample_indices groups gbs s = concat (map snd (slice (s * gbs) ((s + 1) * gbs) groups))"
proof -
  let ?S = "slice (s * gbs) ((s + 1) * gbs) groups"
  have "slice (s * gbs) ((s + 1) * gbs) (map fst groups) = map fst ?S"
    by (simp add: slice_def take_map drop_map)
  moreover have "set ?S \<subseteq> set groups"
    unfolding slice_def by (meson order_trans set_drop_subset set_take_subset)
  then have "map (\<lambda>rid. case map_of groups rid of Some ps \<Rightarrow> ps | None \<Rightarrow> []) (map fst ?S) = map snd ?S"
    using assms by (auto simp: map_of_eq_Some_iff)
  ultimately show ?thesis by (simp only: step_sample_indices_def)
qed

lemma take_step: "take ((s + 1) * gbs) xs = take (s * gbs) xs @ slice (s * gbs) ((s + 1) * gbs) xs"
proof -
  have "(s + 1) * gbs = s * gbs + gbs" by simp
  then show ?thesis by (simp only: take_add slice_def add_diff_cancel_left')
qed

text \<open>What a completed step did: its samples are packed into micro-batches that tile them, whose
  number is a positive multiple of the alignment, and every rank got an equal share of them.\<close>

lemma dp_step_facts:
  assumes "dp_step args cfg cap total_lengths gbs groups out s = Inr out'"
  obtains step_lengths packed step_mbs ranks where
    "res_map (py_nth total_lengths) (step_sample_indices groups gbs s) = Inr step_lengths"
    "pack_step_into_mbs step_lengths args (use_dynamic_batch_size args) cap (micro_batch_size args)
       (balance_by_flops args) = Inr packed"
    "align_step_mbs args (align_to_of cfg) step_lengths packed = Inr step_mbs"
    "tiles (length (step_sample_indices groups gbs s)) step_mbs"
    "align_to_of cfg dvd length step_mbs" "0 < dp_size cfg" "dp_size cfg dvd length step_mbs"
    "length ranks = dp_size cfg" "tiles (length step_mbs) ranks"
    "\<forall>r \<in> set ranks. length r = length step_mbs div dp_size cfg"
    "out' = (let placed = map (\<lambda>r. place_rank (step_sample_indices groups gbs s) step_mbs
         (partitions out ! r, micro_batch_indices out ! r) (ranks ! r)) [0..<dp_size cfg]
       in \<lparr>partitions = map fst placed, micro_batch_indices = map snd placed,
           num_microbatches = num_microbatches out @ [length step_mbs div dp_size cfg],
           global_batch_sizes = global_batch_sizes out @ [gbs]\<rparr>)"
proof -
  let ?si = "step_sample_indices groups gbs s"
  from assms obtain ls packed mbs ranks where
    ls: "res_map (py_nth total_lengths) ?si = Inr ls"
    and packed: "pack_step_into_mbs ls args (use_dynamic_batch_size args) cap (micro_batch_size args)
       (balance_by_flops args) = Inr packed"
    and mbs: "align_step_mbs args (align_to_of cfg) ls packed = Inr mbs"
    and ranks: "distribute_mbs args (dp_size cfg) ls mbs = Inr ranks"
    and out': "out' = (let placed = map (\<lambda>r. place_rank ?si mbs
         (partitions out ! r, micro_batch_indices out ! r) (ranks ! r)) [0..<dp_size cfg]
       in \<lparr>partitions = map fst placed, micro_batch_indices = map snd placed,
           num_microbatches = num_microbatches out @ [length mbs div dp_size cfg],
           global_batch_sizes = global_batch_sizes out @ [gbs]\<rparr>)"
    by (auto simp: dp_step_def Let_def res_simps)
  note al = align_facts [OF mbs]
  have len: "length ls = length ?si" using res_map_length [OF ls] .
  have tiles: "tiles (length ?si) mbs"
    using pack_tiles [OF packed] al(3) len by (simp add: tiles_def)
  have dp: "0 < dp_size cfg" "dp_size cfg dvd length mbs"
    using al(1,2) by (auto simp: align_to_of_def intro: dvd_mult_left dvd_trans split: if_splits)
  have tiles': "tiles (length ls) mbs" using tiles len by simp
  note dist = distribute_facts [OF ranks dp(1,2) tiles' al(4)]
  show ?thesis by (rule that [OF ls packed mbs tiles al(2) dp dist out'])
qed

section \<open>The loop invariant\<close>

definition dp_inv :: "(nat list \<Rightarrow> bool) \<Rightarrow> train_parallel_config \<Rightarrow> nat \<Rightarrow>
    (int \<times> nat list) list \<Rightarrow> nat \<Rightarrow> schedule \<Rightarrow> bool" where
  "dp_inv Q cfg gbs groups s out \<longleftrightarrow>
     length (partitions out) = dp_size cfg \<and> length (micro_batch_indices out) = dp_size cfg \<and>
     length (num_microbatches out) = s \<and> global_batch_sizes out = replicate s gbs \<and>
     (\<forall>k \<in> set (num_microbatches out). align_to_of cfg dvd k * dp_size cfg) \<and>
     mset (concat (partitions out)) = mset (concat (map snd (take (s * gbs) groups))) \<and>
     (\<forall>r < dp_size cfg. rank_ok Q (partitions out ! r, micro_batch_indices out ! r) \<and>
        length (micro_batch_indices out ! r) = sum_list (num_microbatches out))"

lemma dp_step_inv:
  assumes step: "dp_step args cfg cap total_lengths gbs groups out s = Inr out'"
    and inv: "dp_inv Q cfg gbs groups s out" and dist: "distinct (map fst groups)"
    and Q: "\<And>step_lengths packed step_mbs mb.
      res_map (py_nth total_lengths) (step_sample_indices groups gbs s) = Inr step_lengths \<Longrightarrow>
      pack_step_into_mbs step_lengths args (use_dynamic_batch_size args) cap (micro_batch_size args)
        (balance_by_flops args) = Inr packed \<Longrightarrow>
      align_step_mbs args (align_to_of cfg) step_lengths packed = Inr step_mbs \<Longrightarrow>
      mb \<in> set step_mbs \<Longrightarrow> Q (map ((!) (step_sample_indices groups gbs s)) mb)"
  shows "dp_inv Q cfg gbs groups (Suc s) out'"
proof -
  let ?dp = "dp_size cfg" and ?si = "step_sample_indices groups gbs s"
  from step obtain ls packed mbs ranks where
    ls: "res_map (py_nth total_lengths) ?si = Inr ls"
    and packed: "pack_step_into_mbs ls args (use_dynamic_batch_size args) cap (micro_batch_size args)
       (balance_by_flops args) = Inr packed"
    and mbs: "align_step_mbs args (align_to_of cfg) ls packed = Inr mbs"
    and tiles: "tiles (length ?si) mbs" and align: "align_to_of cfg dvd length mbs"
    and dp: "0 < ?dp" "?dp dvd length mbs"
    and ranks: "length ranks = ?dp" "tiles (length mbs) ranks" "\<forall>r \<in> set ranks. length r = length mbs div ?dp"
    and out': "out' = (let placed = map (\<lambda>r. place_rank ?si mbs
         (partitions out ! r, micro_batch_indices out ! r) (ranks ! r)) [0..<?dp]
       in \<lparr>partitions = map fst placed, micro_batch_indices = map snd placed,
           num_microbatches = num_microbatches out @ [length mbs div ?dp],
           global_batch_sizes = global_batch_sizes out @ [gbs]\<rparr>)"
    by (rule dp_step_facts)
  define placed where "placed = (\<lambda>r. place_rank ?si mbs (partitions out ! r, micro_batch_indices out ! r) (ranks ! r))"
  have out'_eq: "partitions out' = map (\<lambda>r. fst (placed r)) [0..<?dp]"
    "micro_batch_indices out' = map (\<lambda>r. snd (placed r)) [0..<?dp]"
    "num_microbatches out' = num_microbatches out @ [length mbs div ?dp]"
    "global_batch_sizes out' = global_batch_sizes out @ [gbs]"
    by (simp_all add: out' placed_def comp_def Let_def)
  have placed: "fst (placed r) = partitions out ! r @ concat (map (\<lambda>k. map ((!) ?si) (mbs ! k)) (ranks ! r))"
    "length (snd (placed r)) = length (micro_batch_indices out ! r) + length (ranks ! r)"
    "rank_ok Q (partitions out ! r, micro_batch_indices out ! r) \<Longrightarrow>
       \<forall>k \<in> set (ranks ! r). Q (map ((!) ?si) (mbs ! k)) \<Longrightarrow> rank_ok Q (fst (placed r), snd (placed r))" for r
  proof -
    have eq: "place_rank ?si mbs (partitions out ! r, micro_batch_indices out ! r) (ranks ! r)
        = (fst (placed r), snd (placed r))" by (simp add: placed_def)
    show "fst (placed r) = partitions out ! r @ concat (map (\<lambda>k. map ((!) ?si) (mbs ! k)) (ranks ! r))"
      "length (snd (placed r)) = length (micro_batch_indices out ! r) + length (ranks ! r)"
      "rank_ok Q (partitions out ! r, micro_batch_indices out ! r) \<Longrightarrow>
         \<forall>k \<in> set (ranks ! r). Q (map ((!) ?si) (mbs ! k)) \<Longrightarrow> rank_ok Q (fst (placed r), snd (placed r))"
      by (fact place_rank_facts [OF eq])+
  qed
  have idx: "k < length mbs" if "r < ?dp" "k \<in> set (ranks ! r)" for r k
    using tiles_index [OF ranks(2)] that ranks(1) by (metis nth_mem)
  have "rank_ok Q (fst (placed r), snd (placed r))" if r: "r < ?dp" for r
  proof (rule placed(3))
    show "rank_ok Q (partitions out ! r, micro_batch_indices out ! r)" using inv r by (simp add: dp_inv_def)
    show "\<forall>k \<in> set (ranks ! r). Q (map ((!) ?si) (mbs ! k))"
      using Q [OF ls packed mbs] idx [OF r] by simp
  qed
  moreover have "length (snd (placed r)) = sum_list (num_microbatches out')" if "r < ?dp" for r
    using placed(2) [of r] inv ranks(1,3) that by (simp add: out'_eq dp_inv_def)
  moreover have "mset (concat (partitions out')) = mset (concat (map snd (take (Suc s * gbs) groups)))"
  proof -
    have "mset (concat (partitions out')) = mset (concat (partitions out)) + mset ?si"
      using placed_mset [OF _ ranks(1,2) tiles] inv by (simp only: out'_eq placed(1) dp_inv_def)
    with inv show ?thesis
      using take_step [of s gbs groups] by (simp only: dp_inv_def step_sample_indices_slice [OF dist]
          Suc_eq_plus1 map_append concat_append mset_append)
  qed
  moreover have "align_to_of cfg dvd length mbs div ?dp * ?dp" using align dp(2) by simp
  ultimately show ?thesis
    using inv by (auto simp: dp_inv_def out'_eq replicate_append_same)
qed

lemma dp_inv_init:
  "dp_inv Q cfg gbs groups 0 \<lparr>partitions = replicate (dp_size cfg) [],
     micro_batch_indices = replicate (dp_size cfg) [], num_microbatches = [], global_batch_sizes = []\<rparr>"
proof -
  have "concat (replicate n ([] :: nat list)) = []" for n by (induction n) auto
  then show ?thesis by (simp add: dp_inv_def rank_ok_def)
qed

text \<open>The rollouts that are scheduled: whole groups, up to the last full step.\<close>

definition kept_groups :: "nat \<Rightarrow> int list \<Rightarrow> (int \<times> nat list) list" where
  "kept_groups gbs rids = (let groups = group_by_rollout rids in take (length groups div gbs * gbs) groups)"

definition kept_samples :: "nat \<Rightarrow> int list \<Rightarrow> nat list" where
  "kept_samples gbs rids = concat (map snd (kept_groups gbs rids))"

lemma build_facts:
  assumes "build_dp_schedule args cfg total_lengths gbs rids = Inr out"
  obtains cap where "max_per_bin_of args cfg = Inr cap" "0 < gbs"
    "1 \<le> length (group_by_rollout rids) div gbs"
    "res_fold (dp_step args cfg cap total_lengths gbs (group_by_rollout rids))
       \<lparr>partitions = replicate (dp_size cfg) [], micro_batch_indices = replicate (dp_size cfg) [],
        num_microbatches = [], global_batch_sizes = []\<rparr> [0..<length (group_by_rollout rids) div gbs] = Inr out"
  using assms by (auto simp: build_dp_schedule_def Let_def res_simps split: if_splits)

lemma build_dp_schedule_inv:
  assumes "build_dp_schedule args cfg total_lengths gbs rids = Inr out"
    and Q: "\<And>s cap step_lengths packed step_mbs mb.
      max_per_bin_of args cfg = Inr cap \<Longrightarrow>
      res_map (py_nth total_lengths) (step_sample_indices (group_by_rollout rids) gbs s) = Inr step_lengths \<Longrightarrow>
      pack_step_into_mbs step_lengths args (use_dynamic_batch_size args) cap (micro_batch_size args)
        (balance_by_flops args) = Inr packed \<Longrightarrow>
      align_step_mbs args (align_to_of cfg) step_lengths packed = Inr step_mbs \<Longrightarrow>
      mb \<in> set step_mbs \<Longrightarrow> Q (map ((!) (step_sample_indices (group_by_rollout rids) gbs s)) mb)"
  shows "dp_inv Q cfg gbs (group_by_rollout rids) (length (group_by_rollout rids) div gbs) out"
proof -
  from assms(1) obtain cap where cap: "max_per_bin_of args cfg = Inr cap"
    and loop: "res_fold (dp_step args cfg cap total_lengths gbs (group_by_rollout rids))
       \<lparr>partitions = replicate (dp_size cfg) [], micro_batch_indices = replicate (dp_size cfg) [],
        num_microbatches = [], global_batch_sizes = []\<rparr> [0..<length (group_by_rollout rids) div gbs] = Inr out"
    by (rule build_facts)
  from loop dp_inv_init show ?thesis
  proof (rule res_fold_index_invariant)
    fix out i out'
    assume inv: "dp_inv Q cfg gbs (group_by_rollout rids) i out"
      and step: "dp_step args cfg cap total_lengths gbs (group_by_rollout rids) out i = Inr out'"
    show "dp_inv Q cfg gbs (group_by_rollout rids) (Suc i) out'"
      by (rule dp_step_inv [OF step inv group_by_rollout_facts(1)]) (rule Q [OF cap])
  qed
qed

section \<open>What is scheduled\<close>

lemma kept_prefix: "concat (map snd (take (length (group_by_rollout rids) div gbs * gbs) (group_by_rollout rids)))
    = kept_samples gbs rids"
  by (simp add: kept_samples_def kept_groups_def Let_def)

lemma kept_samples_split: "\<exists>rest. mset (kept_samples gbs rids) + mset rest = mset [0..<length rids]"
proof -
  let ?g = "group_by_rollout rids"
  let ?n = "length ?g div gbs * gbs"
  have "concat (map snd ?g) = kept_samples gbs rids @ concat (map snd (drop ?n ?g))"
    by (metis append_take_drop_id concat_append kept_prefix map_append)
  with group_by_rollout_facts(2) [of rids] show ?thesis by (metis mset_append)
qed

lemma kept_samples_distinct: "distinct (kept_samples gbs rids)"
proof -
  from kept_samples_split [of gbs rids] obtain rest
    where "mset (kept_samples gbs rids @ rest) = mset [0..<length rids]" by auto
  then have "distinct (kept_samples gbs rids @ rest)" by (metis distinct_upt mset_eq_imp_distinct_iff)
  then show ?thesis by simp
qed

lemma kept_samples_index: "i \<in> set (kept_samples gbs rids) \<Longrightarrow> i < length rids"
proof -
  from kept_samples_split [of gbs rids] obtain rest
    where "mset (kept_samples gbs rids @ rest) = mset [0..<length rids]" by auto
  then have "set (kept_samples gbs rids @ rest) = set [0..<length rids]" by (metis set_mset_mset)
  then show "i \<in> set (kept_samples gbs rids) \<Longrightarrow> i < length rids" by auto
qed

lemma kept_samples_whole_rollouts:
  assumes "i \<in> set (kept_samples gbs rids)" "j < length rids" "rids ! j = rids ! i"
  shows "j \<in> set (kept_samples gbs rids)"
proof -
  from assms(1) obtain p where p: "p \<in> set (kept_groups gbs rids)" "i \<in> set (snd p)"
    by (auto simp: kept_samples_def)
  then have "p \<in> set (group_by_rollout rids)" unfolding kept_groups_def Let_def by (meson in_set_takeD)
  then have "map_of (group_by_rollout rids) (fst p) = Some (snd p)"
    using group_by_rollout_facts(1) by (metis map_of_eq_Some_iff surjective_pairing)
  from group_by_rollout_facts(3) [OF this] p(2) assms(2,3) have "j \<in> set (snd p)" by auto
  with p(1) show ?thesis by (auto simp: kept_samples_def)
qed

text \<open>How a schedule tiles the kept samples: over the ranks, and over the micro-batches of each rank.\<close>

lemma dp_schedule_tiling:
  assumes "build_dp_schedule args cfg total_lengths gbs rids = Inr out"
  shows "mset (concat (partitions out)) = mset (kept_samples gbs rids)" "length (partitions out) = dp_size cfg"
    "r < dp_size cfg \<Longrightarrow> concat (micro_batch_indices out ! r) = [0..<length (partitions out ! r)]"
proof -
  have "dp_inv (\<lambda>_. True) cfg gbs (group_by_rollout rids) (length (group_by_rollout rids) div gbs) out"
    using assms by (rule build_dp_schedule_inv) simp
  then show "mset (concat (partitions out)) = mset (kept_samples gbs rids)" "length (partitions out) = dp_size cfg"
    "r < dp_size cfg \<Longrightarrow> concat (micro_batch_indices out ! r) = [0..<length (partitions out ! r)]"
    by (simp_all add: dp_inv_def kept_prefix rank_ok_def)
qed

text \<open>C1: every sample of the scheduled rollouts is placed on exactly one rank exactly once, no other
  sample is placed, the samples of one rollout are placed together or dropped together, and fewer
  than \<open>global_batch_size\<close> rollouts are dropped.\<close>

theorem dp_schedule_places_kept_samples:
  assumes "build_dp_schedule args cfg total_lengths gbs rids = Inr out"
  shows "mset (concat (partitions out)) = mset (kept_samples gbs rids)
    \<and> distinct (concat (partitions out))
    \<and> (\<forall>i \<in> set (concat (partitions out)). \<forall>j < length rids.
         rids ! j = rids ! i \<longrightarrow> j \<in> set (concat (partitions out)))
    \<and> length (group_by_rollout rids) - length (kept_groups gbs rids) < gbs"
proof -
  have mset: "mset (concat (partitions out)) = mset (kept_samples gbs rids)"
    using assms by (rule dp_schedule_tiling)
  then have "distinct (concat (partitions out))" "set (concat (partitions out)) = set (kept_samples gbs rids)"
    using kept_samples_distinct by (metis mset_eq_imp_distinct_iff, metis set_mset_mset)
  moreover have "0 < gbs" using assms by (rule build_facts)
  then have "length (group_by_rollout rids) - length (kept_groups gbs rids) < gbs"
    by (simp add: kept_groups_def Let_def minus_div_mult_eq_mod)
  ultimately show ?thesis using mset kept_samples_whole_rollouts by metis
qed

text \<open>C2: every rank runs the same number of micro-batches, its micro-batches enumerate its samples
  in order exactly once, there is one count per training step, and with virtual pipelining every
  count is a multiple of the micro-batch group size.\<close>

theorem dp_schedule_ranks_in_lockstep:
  assumes "build_dp_schedule args cfg total_lengths gbs rids = Inr out"
  shows "length (num_microbatches out) = length (group_by_rollout rids) div gbs
    \<and> global_batch_sizes out = replicate (length (num_microbatches out)) gbs
    \<and> (\<forall>r < dp_size cfg. concat (micro_batch_indices out ! r) = [0..<length (partitions out ! r)]
         \<and> length (micro_batch_indices out ! r) = sum_list (num_microbatches out))
    \<and> (1 < vpp_size cfg \<longrightarrow>
         (\<forall>k \<in> set (num_microbatches out). microbatch_group_size_per_vp_stage cfg dvd k))"
proof -
  have inv: "dp_inv (\<lambda>_. True) cfg gbs (group_by_rollout rids) (length (group_by_rollout rids) div gbs) out"
    using assms by (rule build_dp_schedule_inv) simp
  have "microbatch_group_size_per_vp_stage cfg dvd k"
    if "1 < vpp_size cfg" "k \<in> set (num_microbatches out)" "0 < dp_size cfg" for k
    using inv that by (auto simp: dp_inv_def align_to_of_def mult.commute [of k])
  moreover have "0 < dp_size cfg"
  proof -
    from assms obtain cap where
      "res_fold (dp_step args cfg cap total_lengths gbs (group_by_rollout rids))
       \<lparr>partitions = replicate (dp_size cfg) [], micro_batch_indices = replicate (dp_size cfg) [],
        num_microbatches = [], global_batch_sizes = []\<rparr> [0..<length (group_by_rollout rids) div gbs] = Inr out"
      and "1 \<le> length (group_by_rollout rids) div gbs" by (rule build_facts)
    then obtain s where "dp_step args cfg cap total_lengths gbs (group_by_rollout rids)
        \<lparr>partitions = replicate (dp_size cfg) [], micro_batch_indices = replicate (dp_size cfg) [],
         num_microbatches = [], global_batch_sizes = []\<rparr> 0 = Inr s"
      by (auto simp: upt_rec [of 0] res_bind_eq_Inr Suc_le_eq)
    then show ?thesis by (rule dp_step_facts)
  qed
  ultimately show ?thesis using inv by (simp add: dp_inv_def rank_ok_def)
qed

section \<open>The token cap\<close>

lemma step_lengths_eq:
  "res_map (py_nth total_lengths) si = Inr ls \<Longrightarrow>
     ls = map ((!) total_lengths) si \<and> (\<forall>i \<in> set si. i < length total_lengths)"
  by (induction si arbitrary: ls) (auto simp: res_bind_eq_Inr)

lemma dynamic_mbs_within_cap:
  assumes "\<forall>l \<in> set ls. 0 < l" "tiles (length ls) packed"
    and packed: "packed = first_fit_pack ls cap"
    and mbs: "align_step_mbs args align ls packed = Inr mbs" and mb: "mb \<in> set mbs"
  shows "mb \<noteq> [] \<and> (bin_sum ls mb \<le> cap \<or> length mb = 1)"
proof -
  have fits: "\<forall>b \<in> set packed. b \<noteq> [] \<and> (bin_sum ls b \<le> cap \<or> length b = 1)"
    using first_fit_pack_facts(2,3) [OF packed] by metis
  have pos: "\<forall>b \<in> set packed. \<forall>i \<in> set b. 0 < ls ! i"
    using assms(1) tiles_index [OF assms(2)] by (meson nth_mem)
  have "mbs = packed \<or> (\<exists>K. mbs = expand_bins_by_splitting packed K ls)"
    using mbs by (auto simp: align_step_mbs_def Let_def split: if_splits)
  with expand_keeps [OF fits pos] fits mb show ?thesis by blast
qed

text \<open>C3: with dynamic batching by tokens, every micro-batch holds at least one sample and its samples
  have at most \<open>max_tokens_per_gpu * cp_size\<close> tokens, unless it is a single oversized sample.\<close>

theorem dp_schedule_respects_token_cap:
  assumes "build_dp_schedule args cfg total_lengths gbs rids = Inr out"
    and "use_dynamic_batch_size args" "\<not> balance_by_flops args" "max_tokens_per_gpu args = Some m"
    and "\<forall>l \<in> set total_lengths. 0 < l" and "r < dp_size cfg" "mb \<in> set (micro_batch_indices out ! r)"
  shows "mb \<noteq> [] \<and> ((\<Sum>i\<leftarrow>mb. total_lengths ! (partitions out ! r ! i)) \<le> m * cp_size cfg \<or> length mb = 1)"
proof -
  let ?Q = "\<lambda>gs. gs \<noteq> [] \<and> ((\<Sum>g\<leftarrow>gs. total_lengths ! g) \<le> m * cp_size cfg \<or> length gs = 1)"
  have "dp_inv ?Q cfg gbs (group_by_rollout rids) (length (group_by_rollout rids) div gbs) out"
    using assms(1)
  proof (rule build_dp_schedule_inv)
    fix s cap ls packed mbs mb
    let ?si = "step_sample_indices (group_by_rollout rids) gbs s"
    assume a: "max_per_bin_of args cfg = Inr cap" "res_map (py_nth total_lengths) ?si = Inr ls"
      "pack_step_into_mbs ls args (use_dynamic_batch_size args) cap (micro_batch_size args) (balance_by_flops args)
        = Inr packed" "align_step_mbs args (align_to_of cfg) ls packed = Inr mbs" "mb \<in> set mbs"
    from a(1) assms(2,4) have cap: "cap = Some (m * cp_size cfg)" by (simp add: max_per_bin_of_def)
    note ls = step_lengths_eq [OF a(2)]
    have tiles: "tiles (length ls) packed" using pack_tiles [OF a(3)] by blast
    have packed: "packed = first_fit_pack ls (m * cp_size cfg)"
      using a(3) assms(2,3) by (simp add: pack_step_into_mbs_def cap)
    have pos: "\<forall>l \<in> set ls. 0 < l" using ls assms(5) by auto
    have within: "mb \<noteq> [] \<and> (bin_sum ls mb \<le> m * cp_size cfg \<or> length mb = 1)"
      by (rule dynamic_mbs_within_cap [OF pos tiles packed a(4,5)])
    have "i < length ?si" if "i \<in> set mb" for i
    proof -
      have "tiles (length ls) mbs" using tiles align_facts(3) [OF a(4)] by (simp add: tiles_def)
      from tiles_index [OF this a(5) that] show ?thesis using ls by simp
    qed
    then have "bin_sum ls mb = (\<Sum>g\<leftarrow>map ((!) ?si) mb. total_lengths ! g)"
      using ls by (auto simp: bin_sum_def intro!: arg_cong [where f = sum_list])
    with within show "?Q (map ((!) ?si) mb)" by simp
  qed
  with assms(6,7) show ?thesis by (auto simp: dp_inv_def rank_ok_def comp_def)
qed

text \<open>The number of micro-batches a step needs: its first-fit packing, rounded up to the alignment.\<close>

definition aligned_count :: "nat \<Rightarrow> nat \<Rightarrow> nat" where
  "aligned_count align k = max ((k + align - 1) div align * align) align"

lemma aligned_count_ge: "0 < align \<Longrightarrow> k \<le> aligned_count align k \<and> align \<le> aligned_count align k"
  using ceil_div_mult [of align k] by (simp add: aligned_count_def)

lemma aligned_count_le:
  assumes "align dvd n" "0 < n" "k \<le> n"
  shows "aligned_count align k \<le> n"
proof -
  obtain q where q: "n = align * q" using assms(1) by (auto elim: dvdE)
  then have pos: "0 < align" using assms(2) by simp
  have "(k + align - 1) div align \<le> (align * q + (align - 1)) div align"
    using assms(3) q pos by (intro div_le_mono) simp
  also have "\<dots> = q + (align - 1) div align" using pos by (intro div_mult_self4) simp
  also have "\<dots> = q" using pos by simp
  finally have "(k + align - 1) div align * align \<le> n" using q by (simp add: mult.commute)
  with assms(1,2) show ?thesis by (simp add: aligned_count_def dvd_imp_le)
qed

lemma align_dynamic_iff:
  assumes "use_dynamic_batch_size args" "0 < align" "\<forall>l \<in> set ls. 0 < l"
  shows "(\<exists>mbs. align_step_mbs args align ls (first_fit_pack ls cap) = Inr mbs) \<longleftrightarrow>
    aligned_count align (length (first_fit_pack ls cap)) \<le> length ls"
proof -
  let ?p = "first_fit_pack ls cap"
  let ?K = "aligned_count align (length ?p)"
  have fits: "\<forall>b \<in> set ?p. b \<noteq> [] \<and> (bin_sum ls b \<le> cap \<or> length b = 1)"
    using first_fit_pack_facts(2,3) [of ?p ls cap] by metis
  have tiles: "tiles (length ls) ?p" by (rule first_fit_pack_facts(1) [OF refl])
  have pos: "\<forall>b \<in> set ?p. \<forall>i \<in> set b. 0 < ls ! i"
    using assms(3) tiles_index [OF tiles] by (meson nth_mem)
  have total: "length (concat ?p) = length ls" using tiles by (rule tiles_length)
  have le: "length ?p \<le> length ls"
    using concat_length_ge [of ?p] fits total by auto
  have grow: "length (expand_bins_by_splitting ?p ?K ls) = min ?K (length ls)" if "?K \<noteq> length ?p"
    using expand_keeps [OF fits pos refl, of ?K] total that aligned_count_ge [OF assms(2), of "length ?p"]
    by auto
  have unfolded: "align_step_mbs args align ls ?p =
      (if ?K \<noteq> length ?p then
         if length (expand_bins_by_splitting ?p ?K ls) \<noteq> ?K
         then Inl (AssertionError ''dynamic path: could only produce fewer mbs'')
         else Inr (expand_bins_by_splitting ?p ?K ls)
       else Inr ?p)"
    using assms(1,2) by (simp add: align_step_mbs_def aligned_count_def Let_def)
  show ?thesis
    unfolding unfolded using grow le by (cases "?K = length ?p") (simp_all add: min_def)
qed

lemma distribute_returns:
  assumes "moe_layer_freq args \<noteq> FreqEvery 0" "0 < dp" "dp dvd length mbs" "0 < length mbs"
    and "tiles (length ls) mbs"
  shows "\<exists>ranks. distribute_mbs args dp ls mbs = Inr ranks"
proof (cases "balance_data args")
  case True
  obtain c where c: "layer_counts args = Inr c"
    using fwd_flops_returns [OF assms(1), of "[]"] by (auto simp: fwd_flops_sum res_bind_eq_Inr)
  then obtain ws where ws: "calculate_workloads ls args = Inr ws"
    by (simp add: calculate_workloads_def fwd_flops_sum)
  note facts = workloads_facts [OF ws]
  let ?w = "map (\<lambda>bin. sum_list (map (\<lambda>i. ws ! i) bin)) mbs"
  have "0 \<le> sum_list (map (\<lambda>i. ws ! i) bin)" if "bin \<in> set mbs" for bin
    using facts tiles_index [OF assms(5) that] by (intro sum_list_nonneg) auto
  then have "\<forall>v \<in> set ?w. 0 \<le> v" by auto
  moreover have "dp \<le> length ?w" using assms(3,4) by (simp add: dvd_imp_le)
  moreover have "True \<longrightarrow> length ?w mod dp = 0" using assms(3) by simp
  ultimately obtain ranks where "get_seqlen_balanced_partitions ?w dp True = Inr ranks"
    using get_seqlen_balanced_partitions_returns [OF assms(2), of ?w True] by metis
  with True ws show ?thesis by (simp add: distribute_mbs_def)
qed (simp add: distribute_mbs_def)

lemma dp_step_returns_iff:
  assumes "use_dynamic_batch_size args" "\<not> balance_by_flops args" "\<forall>l \<in> set total_lengths. 0 < l"
    and "moe_layer_freq args \<noteq> FreqEvery 0" "0 < align_to_of cfg"
    and idx: "\<forall>i \<in> set (step_sample_indices groups gbs s). i < length total_lengths"
  shows "(\<exists>out'. dp_step args cfg (Some cap) total_lengths gbs groups out s = Inr out') \<longleftrightarrow>
    aligned_count (align_to_of cfg)
      (length (first_fit_pack (map ((!) total_lengths) (step_sample_indices groups gbs s)) cap))
    \<le> length (step_sample_indices groups gbs s)"
proof -
  let ?si = "step_sample_indices groups gbs s"
  let ?ls = "map ((!) total_lengths) ?si"
  let ?p = "first_fit_pack ?ls cap"
  have ls: "res_map (py_nth total_lengths) ?si = Inr ?ls"
    using idx by (intro res_map_Inr_ball) (simp add: py_nth_def)
  have pack: "pack_step_into_mbs ?ls args (use_dynamic_batch_size args) (Some cap)
      (micro_batch_size args) (balance_by_flops args) = Inr ?p"
    using assms(1,2) by (simp add: pack_step_into_mbs_def)
  have pos: "\<forall>l \<in> set ?ls. 0 < l" using assms(3) idx by auto
  note iff = align_dynamic_iff [OF assms(1,5) pos, of cap]
  have dp: "0 < dp_size cfg" "dp_size cfg \<le> align_to_of cfg"
    using assms(5) by (auto simp: align_to_of_def)
  have ranks: "\<exists>ranks. distribute_mbs args (dp_size cfg) ?ls mbs = Inr ranks"
    if "align_step_mbs args (align_to_of cfg) ?ls ?p = Inr mbs" for mbs
  proof (rule distribute_returns [OF assms(4) dp(1)])
    note al = align_facts [OF that]
    show "dp_size cfg dvd length mbs" using al(2) by (auto simp: align_to_of_def intro: dvd_mult_left split: if_splits)
    show "0 < length mbs" by (rule al(4))
    show "tiles (length ?ls) mbs" using al(3) first_fit_pack_facts(1) [OF refl, of ?ls cap] by (simp add: tiles_def)
  qed
  show ?thesis
  proof (cases "align_step_mbs args (align_to_of cfg) ?ls ?p")
    case (Inl e)
    then show ?thesis using iff by (auto simp: dp_step_def Let_def ls pack)
  next
    case (Inr mbs)
    with iff have le: "aligned_count (align_to_of cfg) (length ?p) \<le> length ?si" by simp
    with aligned_count_ge [OF assms(5), of "length ?p"] dp(2) have "dp_size cfg \<le> length ?si" by linarith
    with ranks [OF Inr] le Inr show ?thesis by (auto simp: dp_step_def Let_def ls pack not_less)
  qed
qed

lemma step_sample_index:
  assumes "i \<in> set (step_sample_indices (group_by_rollout rids) gbs s)"
  shows "i < length rids"
proof -
  let ?g = "group_by_rollout rids"
  from assms obtain k ps where kp: "map_of ?g k = Some ps" "i \<in> set ps"
    by (auto simp: step_sample_indices_def dest: sym split: option.splits)
  then have "i \<in> set (concat (map snd ?g))" by (force dest: map_of_SomeD)
  then have "i \<in># mset (concat (map snd ?g))" by (simp only: set_mset_mset)
  also have "mset (concat (map snd ?g)) = mset [0..<length rids]" by (rule group_by_rollout_facts)
  finally show ?thesis by simp
qed

lemma first_fit_singletons:
  assumes big: "\<forall>l \<in> set ls. cap < 2 * l"
  shows "length (first_fit_pack ls cap) = length ls"
proof -
  let ?p = "first_fit_pack ls cap"
  have tiles: "tiles (length ls) ?p" by (rule first_fit_pack_facts(1) [OF refl])
  have "length b = 1" if b: "b \<in> set ?p" for b
  proof (rule ccontr)
    assume len: "length b \<noteq> 1"
    moreover have "b \<noteq> []" using first_fit_pack_facts(2) [OF refl, of ls cap] b by metis
    ultimately obtain i j r where ij: "b = i # j # r" by (cases b; cases "tl b") auto
    then have "cap < 2 * ls ! i" "cap < 2 * ls ! j"
      using big tiles_index [OF tiles b, of i] tiles_index [OF tiles b, of j] by auto
    moreover have "bin_sum ls b = ls ! i + (ls ! j + bin_sum ls r)" by (simp add: bin_sum_def ij)
    moreover have "bin_sum ls b \<le> cap" using first_fit_pack_facts(3) [OF refl b] len by blast
    ultimately show False by linarith
  qed
  with concat_length_eq_const [of ?p 1] tiles_length [OF tiles] show ?thesis by simp
qed

lemma aligned_count_fits:
  assumes "0 < align" "0 < n"
  shows "aligned_count align n \<le> n \<longleftrightarrow> align dvd n"
proof
  assume le: "aligned_count align n \<le> n"
  have "align dvd aligned_count align n" by (simp add: aligned_count_def max_def)
  with le aligned_count_ge [OF assms(1), of n] show "align dvd n" by simp
qed (simp add: aligned_count_le assms(2))

lemma dynamic_schedule_returns_iff:
  assumes "use_dynamic_batch_size args" "\<not> balance_by_flops args" "max_tokens_per_gpu args = Some m"
    and "\<forall>l \<in> set total_lengths. 0 < l" "length rids \<le> length total_lengths"
    and "moe_layer_freq args \<noteq> FreqEvery 0" "0 < align_to_of cfg" "0 < gbs" "gbs \<le> length (group_by_rollout rids)"
  shows "(\<exists>out. build_dp_schedule args cfg total_lengths gbs rids = Inr out) \<longleftrightarrow>
    (\<forall>s < length (group_by_rollout rids) div gbs.
       let si = step_sample_indices (group_by_rollout rids) gbs s
       in aligned_count (align_to_of cfg)
            (length (first_fit_pack (map ((!) total_lengths) si) (m * cp_size cfg))) \<le> length si)"
proof -
  have steps: "0 < length (group_by_rollout rids) div gbs"
    using assms(8,9) by (simp add: div_greater_zero_iff)
  have idx: "\<forall>i \<in> set (step_sample_indices (group_by_rollout rids) gbs s). i < length total_lengths" for s
    using step_sample_index [of _ rids gbs s] assms(5) by (meson less_le_trans)
  have cap: "max_per_bin_of args cfg = Inr (Some (m * cp_size cfg))" using assms(1,3) by (simp add: max_per_bin_of_def)
  show ?thesis
    unfolding build_dp_schedule_def cap using steps assms(8)
    by (simp add: Let_def Suc_le_eq
        res_fold_returns_iff [OF dp_step_returns_iff [OF assms(1,2,4,6,7) idx]] atLeast0LessThan Ball_def)
qed

text \<open>C4: dynamic batching by tokens returns a schedule exactly when every training step can be cut into
  enough micro-batches: the first-fit packing of the step, rounded up to a multiple of
  \<open>dp_size * mb_group\<close>, must not exceed the number of samples of the step. In every other case the
  function raises.\<close>

theorem dp_schedule_returns_iff:
  assumes "use_dynamic_batch_size args" "\<not> balance_by_flops args" "max_tokens_per_gpu args = Some m"
    and "\<forall>l \<in> set total_lengths. 0 < l" "length rids \<le> length total_lengths"
    and "moe_layer_freq args \<noteq> FreqEvery 0" "0 < align_to_of cfg" "0 < gbs" "gbs \<le> length (group_by_rollout rids)"
  shows "(\<exists>out. build_dp_schedule args cfg total_lengths gbs rids = Inr out) \<longleftrightarrow>
    (\<forall>s < length (group_by_rollout rids) div gbs.
       let si = step_sample_indices (group_by_rollout rids) gbs s
       in aligned_count (align_to_of cfg)
            (length (first_fit_pack (map ((!) total_lengths) si) (m * cp_size cfg))) \<le> length si)"
  by (rule dynamic_schedule_returns_iff [OF assms])

lemma step_samples_nonempty:
  assumes "0 < gbs" "s < length (group_by_rollout rids) div gbs"
  shows "step_sample_indices (group_by_rollout rids) gbs s \<noteq> []"
proof -
  let ?g = "group_by_rollout rids"
  have "s * gbs < length ?g"
  proof -
    have "Suc s * gbs \<le> length ?g" using assms(2) by (metis Suc_leI div_times_less_eq_dividend le_trans mult_le_mono1)
    with assms(1) show ?thesis by simp
  qed
  then have "?g ! (s * gbs) \<in> set (slice (s * gbs) ((s + 1) * gbs) ?g)"
    using assms(1) by (simp add: slice_def Cons_nth_drop_Suc [symmetric] take_Cons')
  moreover have "snd (?g ! (s * gbs)) \<noteq> []"
    using group_pairs_nonempty [of "zip rids [0..<length rids]"] \<open>s * gbs < length ?g\<close>
    by (simp add: group_by_rollout_def)
  ultimately show ?thesis
    unfolding step_sample_indices_slice [OF group_by_rollout_facts(1)] by (auto simp: concat_eq_Nil_conv)
qed

text \<open>C5: Samples that do not fit in a micro-batch two at a time cannot be regrouped, so a step is
  scheduled exactly when its sample count is a multiple of \<open>dp_size * mb_group\<close>: a step above that
  threshold raises too when it is not a multiple.\<close>

theorem dp_schedule_big_samples_need_multiple:
  assumes "use_dynamic_batch_size args" "\<not> balance_by_flops args" "max_tokens_per_gpu args = Some m"
    and "\<forall>l \<in> set total_lengths. m * cp_size cfg < 2 * l" "length rids \<le> length total_lengths"
    and "moe_layer_freq args \<noteq> FreqEvery 0" "0 < align_to_of cfg" "0 < gbs" "gbs \<le> length (group_by_rollout rids)"
  shows "(\<exists>out. build_dp_schedule args cfg total_lengths gbs rids = Inr out) \<longleftrightarrow>
    (\<forall>s < length (group_by_rollout rids) div gbs.
       align_to_of cfg dvd length (step_sample_indices (group_by_rollout rids) gbs s))"
proof -
  have pos: "\<forall>l \<in> set total_lengths. 0 < l" using assms(4) by (metis mult_0_right not_less_zero gr0I)
  let ?si = "step_sample_indices (group_by_rollout rids) gbs"
  have "aligned_count (align_to_of cfg) (length (first_fit_pack (map ((!) total_lengths) (?si s)) (m * cp_size cfg)))
      \<le> length (?si s) \<longleftrightarrow> align_to_of cfg dvd length (?si s)"
    if "s < length (group_by_rollout rids) div gbs" for s
  proof -
    have "\<forall>l \<in> set (map ((!) total_lengths) (?si s)). m * cp_size cfg < 2 * l"
      using assms(4,5) step_sample_index [of _ rids gbs s] by fastforce
    from first_fit_singletons [OF this] show ?thesis
      using aligned_count_fits [OF assms(7), of "length (?si s)"] step_samples_nonempty [OF assms(8) that] by simp
  qed
  with dynamic_schedule_returns_iff [OF assms(1-3) pos assms(5-9)] show ?thesis by (simp add: Let_def)
qed

section \<open>A concrete schedule\<close>

text \<open>Six samples of four rollouts, two rollouts per step, on two ranks with a cap of eight tokens.\<close>

definition sample_args :: dp_args where
  "sample_args = \<lparr>hidden_size = 4, num_attention_heads = 2, num_query_groups = 2, vocab_size = 10,
     ffn_hidden_size = 8, num_layers = 2, kv_channels = 2, multi_latent_attention = False,
     q_lora_rank = None, kv_lora_rank = None, qk_head_dim = 0, qk_pos_emb_head_dim = 0, v_head_dim = 0,
     num_experts = None, moe_shared_expert_intermediate_size = None, moe_ffn_hidden_size = 0,
     moe_router_topk = 0, moe_layer_freq = FreqAbsent, use_dynamic_batch_size = True,
     max_tokens_per_gpu = Some 8, micro_batch_size = None, balance_by_flops = False, balance_data = False\<rparr>"

definition sample_cfg :: train_parallel_config where
  "sample_cfg = \<lparr>dp_size = 2, cp_size = 1, vpp_size = 1, microbatch_group_size_per_vp_stage = 1\<rparr>"

definition sample_schedule :: schedule where
  "sample_schedule = \<lparr>partitions = [[0, 1, 3, 4], [2, 5]],
     micro_batch_indices = [[[0, 1], [2, 3]], [[0], [1]]],
     num_microbatches = [1, 1], global_batch_sizes = [2, 2]\<rparr>"

lemma sample_schedule_eq:
  "build_dp_schedule sample_args sample_cfg [3, 5, 4, 2, 6, 1] 2 [7, 7, 8, 9, 9, 5] = Inr sample_schedule"
  by code_simp

theorem dp_schedule_places_kept_samples_witness:
  "mset (concat (partitions sample_schedule)) = mset (kept_samples 2 [7, 7, 8, 9, 9, 5])"
  using dp_schedule_places_kept_samples [OF sample_schedule_eq] by blast

theorem dp_schedule_ranks_in_lockstep_witness:
  "length (micro_batch_indices sample_schedule ! 1) = sum_list (num_microbatches sample_schedule)"
proof -
  have "1 < dp_size sample_cfg" by (simp add: sample_cfg_def)
  with dp_schedule_ranks_in_lockstep [OF sample_schedule_eq] show ?thesis by blast
qed

theorem dp_schedule_respects_token_cap_witness:
  "(\<Sum>i\<leftarrow>[2, 3]. [3, 5, 4, 2, 6, 1] ! (partitions sample_schedule ! 0 ! i)) \<le> (8 :: nat)"
proof -
  have "([2, 3] :: nat list) \<noteq> [] \<and>
      ((\<Sum>i\<leftarrow>[2, 3]. [3, 5, 4, 2, 6, 1] ! (partitions sample_schedule ! 0 ! i)) \<le> 8 * cp_size sample_cfg
       \<or> length [2, 3 :: nat] = 1)"
    by (rule dp_schedule_respects_token_cap [OF sample_schedule_eq])
      (simp_all add: sample_args_def sample_cfg_def sample_schedule_def)
  then show ?thesis by (simp add: sample_cfg_def)
qed

theorem dp_schedule_returns_iff_witness:
  "\<exists>out. build_dp_schedule sample_args sample_cfg [3, 5, 4, 2, 6, 1] 2 [7, 7, 8, 9, 9, 5] = Inr out"
proof (subst dp_schedule_returns_iff [where m = 8])
  show "\<forall>s < length (group_by_rollout [7, 7, 8, 9, 9, 5]) div 2.
       let si = step_sample_indices (group_by_rollout [7, 7, 8, 9, 9, 5]) 2 s
       in aligned_count (align_to_of sample_cfg)
            (length (first_fit_pack (map ((!) [3, 5, 4, 2, 6, 1]) si) (8 * cp_size sample_cfg))) \<le> length si"
    by code_simp
qed code_simp+

theorem dp_schedule_big_samples_need_multiple_witness:
  "align_to_of sample_cfg < 3 \<and> \<not> (\<exists>out. build_dp_schedule sample_args sample_cfg [5, 5, 5] 3 [7, 8, 9] = Inr out)"
proof -
  have "(\<exists>out. build_dp_schedule sample_args sample_cfg [5, 5, 5] 3 [7, 8, 9] = Inr out) \<longleftrightarrow>
    (\<forall>s < length (group_by_rollout [7, 8, 9]) div 3.
       align_to_of sample_cfg dvd length (step_sample_indices (group_by_rollout [7, 8, 9]) 3 s))"
    by (rule dp_schedule_big_samples_need_multiple [where m = 8]) code_simp+
  moreover have "\<not> (\<forall>s < length (group_by_rollout [7, 8, 9]) div 3.
       align_to_of sample_cfg dvd length (step_sample_indices (group_by_rollout [7, 8, 9]) 3 s))"
    by code_simp
  moreover have "align_to_of sample_cfg < 3" by code_simp
  ultimately show ?thesis by blast
qed

end
