(* ===== verification/Cp_Utils.thy ===== *)
theory Cp_Utils
  imports Prelude
begin

text \<open>
  \<open>vime/backends/megatron_utils/cp_utils.py\<close>, lines 1-251: how a sequence is cut over the ranks of a
  context-parallel group. Rank \<open>r\<close> of \<open>n\<close> owns the chunks \<open>r\<close> and \<open>2 n - 1 - r\<close> of \<open>2 n\<close> equal
  chunks. The rank and the size of the group, which the code asks of Megatron, are arguments. The
  collective of \<open>all_gather_with_cp\<close> is a parameter, with the documented behaviour of a summing
  all-reduce as the hypothesis \<open>sums_ranks\<close>.
\<close>

section \<open>Offsets\<close>

type_synonym range = "int \<times> int"

record cp_offsets =
  co_chunk_size :: int
  co_chunks :: "range \<times> range"
  logits_offset :: "range \<times> range"
  tokens_offset :: "range \<times> range"

text \<open>One chunk's logits and tokens: the logits of a token stand one position before it, and an empty
  intersection with the response becomes the empty slice at 0.\<close>

definition chunk_logits :: "int \<Rightarrow> int \<Rightarrow> range \<Rightarrow> range" where
  "chunk_logits tot prompt = (\<lambda>(lo, hi).
     let l = (max lo (prompt - 1), min hi (tot - 1)) in if fst l < snd l then l else (0, 0))"

definition chunk_tokens :: "int \<Rightarrow> int \<Rightarrow> range \<Rightarrow> range" where
  "chunk_tokens tot prompt = (\<lambda>(lo, hi).
     let l = (max lo (prompt - 1), min hi (tot - 1))
     in if fst l < snd l then (fst l + 1, snd l + 1) else (0, 0))"

definition get_logits_and_tokens_offset_with_cp :: "int \<Rightarrow> int \<Rightarrow> int \<Rightarrow> int \<Rightarrow> cp_offsets result" where
  "get_logits_and_tokens_offset_with_cp cp_rank cp_size total_length response_length =
     (if cp_size \<le> 1 then Inl (AssertionError ''cp_size > 1'')
      else let prompt_length = total_length - response_length;
               chunk = (total_length + 2 * cp_size - 1) div (2 * cp_size);
               chunk_0 = (cp_rank * chunk, (cp_rank + 1) * chunk);
               chunk_1 = ((2 * cp_size - cp_rank - 1) * chunk, (2 * cp_size - cp_rank) * chunk);
               f = chunk_logits total_length prompt_length; g = chunk_tokens total_length prompt_length
           in Inr \<lparr>co_chunk_size = chunk, co_chunks = (chunk_0, chunk_1), logits_offset = (f chunk_0, f chunk_1),
                   tokens_offset = (g chunk_0, g chunk_1)\<rparr>)"

section \<open>Slicing and gathering\<close>

definition slice_log_prob_with_cp :: "int \<Rightarrow> int \<Rightarrow> 'a list \<Rightarrow> int \<Rightarrow> int \<Rightarrow> 'a list result" where
  "slice_log_prob_with_cp cp_rank cp_size log_prob total_length response_length =
     (if int (length log_prob) \<noteq> response_length then Inl (AssertionError ''log_prob length mismatch'')
      else if cp_size = 1 then Inr log_prob
      else let prompt_length = total_length - response_length in
        res_bind (get_logits_and_tokens_offset_with_cp cp_rank cp_size total_length response_length) (\<lambda>o'.
          let ((a, b), (c, d)) = logits_offset o'
          in Inr (py_slice (a - (prompt_length - 1)) (b - (prompt_length - 1)) log_prob
                  @ py_slice (c - (prompt_length - 1)) (d - (prompt_length - 1)) log_prob)))"

definition zeros :: "int \<Rightarrow> 'a::zero list result" where
  "zeros n = (if n < 0 then Inl (RuntimeError ''negative dimension'') else Inr (replicate (nat n) 0))"

text \<open>What one rank contributes to the collective: its two chunks in a tensor of the response's length.\<close>

definition gather_contribution :: "int \<Rightarrow> int \<Rightarrow> 'a::zero list \<Rightarrow> int \<Rightarrow> int \<Rightarrow> 'a list result" where
  "gather_contribution cp_rank cp_size tensor total_length response_length =
     res_bind (get_logits_and_tokens_offset_with_cp cp_rank cp_size total_length response_length) (\<lambda>o'.
       let ((l0, h0), (l1, h1)) = logits_offset o';
           prompt_length = total_length - response_length;
           chunk_0 = take (nat (h0 - l0)) tensor; chunk_1 = drop (nat (h0 - l0)) tensor
       in if int (length chunk_1) \<noteq> h1 - l1 then Inl (AssertionError ''chunk_1.shape[0]'')
          else res_bind
            (if chunk_0 = [] \<and> chunk_1 = [] then zeros response_length
             else if chunk_1 = [] then
               res_bind (zeros (l0 - (prompt_length - 1))) (\<lambda>left.
               res_bind (zeros (total_length - 1 - h0)) (\<lambda>right. Inr (left @ chunk_0 @ right)))
             else if chunk_0 = [] then
               res_bind (zeros (l1 - (prompt_length - 1))) (\<lambda>left.
               res_bind (zeros (total_length - 1 - h1)) (\<lambda>right. Inr (left @ chunk_1 @ right)))
             else
               res_bind (zeros (l0 - (prompt_length - 1))) (\<lambda>left.
               res_bind (zeros (l1 - h0)) (\<lambda>mid.
               res_bind (zeros (total_length - 1 - h1)) (\<lambda>right.
                 Inr (left @ chunk_0 @ mid @ chunk_1 @ right)))))
            (\<lambda>full. if int (length full) \<noteq> response_length
                    then Inl (AssertionError ''Expected response_length'') else Inr full))"

text \<open>The gather over the whole group: \<open>tensors\<close> holds every rank's local tensor, the collective combines
  the contributions, and every rank receives the result.\<close>

definition all_gather_with_cp ::
  "('a::zero list list \<Rightarrow> 'a list) \<Rightarrow> 'a list list \<Rightarrow> int \<Rightarrow> int \<Rightarrow> 'a list result" where
  "all_gather_with_cp all_reduce tensors total_length response_length =
     (let cp_size = int (length tensors)
      in if cp_size = 1 then Inr (hd tensors)
         else res_bind
           (res_map (\<lambda>r. gather_contribution (int r) cp_size (tensors ! r) total_length response_length)
              [0..<length tensors])
           (\<lambda>fulls. Inr (all_reduce fulls)))"

definition slice_with_cp :: "nat \<Rightarrow> nat \<Rightarrow> ('a list \<Rightarrow> nat \<Rightarrow> 'a list) \<Rightarrow> 'a list \<Rightarrow> 'a list result" where
  "slice_with_cp cp_rank cp_size pad_tokens tokens =
     (if cp_size = 1 then Inr tokens
      else if cp_size = 0 then Inl ZeroDivisionError
      else let token_len = length tokens;
               chunk = (token_len + 2 * cp_size - 1) div (2 * cp_size);
               pad = 2 * cp_size * chunk - token_len;
               padded = pad_tokens tokens pad
           in Inr (slice (chunk * cp_rank) (chunk * (cp_rank + 1)) padded
                   @ slice (chunk * (2 * cp_size - cp_rank - 1)) (chunk * (2 * cp_size - cp_rank)) padded))"

text \<open>The constant \<open>pad_value\<close> of \<open>slice_with_cp\<close>.\<close>

definition pad_constant :: "'a \<Rightarrow> 'a list \<Rightarrow> nat \<Rightarrow> 'a list" where
  "pad_constant v tokens pad = tokens @ replicate pad v"

section \<open>Sample means\<close>

fun torch_split :: "'a list \<Rightarrow> nat list \<Rightarrow> 'a list list result" where
  "torch_split x [] = (if x = [] then Inr [] else Inl (RuntimeError ''split_with_sizes''))"
| "torch_split x (n # ns) =
     (if length x < n then Inl (RuntimeError ''split_with_sizes'')
      else res_bind (torch_split (drop n x) ns) (\<lambda>rest. Inr (take n x # rest)))"

definition dot :: "real list \<Rightarrow> real list \<Rightarrow> real" where
  "dot xs ys = sum_list (map2 (*) xs ys)"

definition chunked_loss_mask :: "int \<Rightarrow> int \<Rightarrow> int \<Rightarrow> int \<Rightarrow> real list \<Rightarrow> real list result" where
  "chunked_loss_mask cp_rank cp_size total_length response_length loss_mask =
     res_bind (get_logits_and_tokens_offset_with_cp cp_rank cp_size total_length response_length) (\<lambda>o'.
       let prompt_length = total_length - response_length; ((a, b), (c, d)) = tokens_offset o'
       in Inr (py_slice (a - prompt_length) (b - prompt_length) loss_mask
               @ py_slice (c - prompt_length) (d - prompt_length) loss_mask))"

definition get_sum_of_sample_mean ::
  "int \<Rightarrow> int \<Rightarrow> int list \<Rightarrow> int list \<Rightarrow> real list list \<Rightarrow> real list option \<Rightarrow> bool \<Rightarrow> real list \<Rightarrow> real result" where
  "get_sum_of_sample_mean cp_rank cp_size total_lengths response_lengths loss_masks sample_denoms per_token x =
     (let denoms = (case sample_denoms of None \<Rightarrow> map sum_list loss_masks | Some ds \<Rightarrow> ds) in
      res_bind
        (if cp_size = 1 then Inr (map nat response_lengths, loss_masks)
         else res_bind (res_map (\<lambda>(t, r, m). chunked_loss_mask cp_rank cp_size t r m)
                (zip total_lengths (zip response_lengths loss_masks)))
              (\<lambda>masks. Inr (map length masks, masks)))
        (\<lambda>(lengths, masks). res_bind (torch_split x lengths) (\<lambda>xs.
           Inr (if per_token then sum_list (map2 dot xs masks)
                else sum_list (map (\<lambda>(x, m, d). dot x m / max d 1) (zip xs (zip masks denoms)))))))"

section \<open>Which rank owns a position\<close>

definition owns :: "int \<Rightarrow> int \<Rightarrow> int \<Rightarrow> int \<Rightarrow> bool" where
  "owns cp_rank cp_size tot p \<longleftrightarrow>
     (let c = (tot + 2 * cp_size - 1) div (2 * cp_size)
      in cp_rank * c \<le> p \<and> p < (cp_rank + 1) * c
         \<or> (2 * cp_size - cp_rank - 1) * c \<le> p \<and> p < (2 * cp_size - cp_rank) * c)"

definition owner :: "int \<Rightarrow> int \<Rightarrow> int \<Rightarrow> int" where
  "owner cp_size tot p =
     (let c = (tot + 2 * cp_size - 1) div (2 * cp_size); j = p div c
      in if j < cp_size then j else 2 * cp_size - 1 - j)"

lemma chunk_cover:
  assumes "0 < n" "0 < tot"
  shows "0 < (tot + 2 * n - 1) div (2 * n)" and "tot \<le> 2 * n * ((tot + 2 * n - 1) div (2 * (n :: int)))"
proof -
  let ?c = "(tot + 2 * n - 1) div (2 * n)"
  have "2 * n * ?c + (tot + 2 * n - 1) mod (2 * n) = tot + 2 * n - 1" by (rule mult_div_mod_eq)
  moreover have "(tot + 2 * n - 1) mod (2 * n) < 2 * n" using assms by simp
  ultimately show cover: "tot \<le> 2 * n * ?c" by linarith
  show "0 < ?c" using assms by (intro pos_imp_zdiv_pos_iff [THEN iffD2]) auto
qed

lemma in_chunk_iff:
  fixes c :: int
  assumes "0 < c"
  shows "j * c \<le> p \<and> p < (j + 1) * c \<longleftrightarrow> p div c = j"
proof
  assume j: "j * c \<le> p \<and> p < (j + 1) * c"
  then have "p = j * c + (p - j * c)" "0 \<le> p - j * c" "p - j * c < c" by (auto simp: algebra_simps)
  then show "p div c = j" by (metis add.commute assms div_mult_self1 div_pos_pos_trivial add_0 less_irrefl)
next
  assume "p div c = j"
  then show "j * c \<le> p \<and> p < (j + 1) * c"
    using assms mult_div_mod_eq [of c p] pos_mod_sign [OF assms, of p] pos_mod_bound [OF assms, of p]
    by (auto simp: algebra_simps)
qed

lemma owns_iff_owner:
  assumes "1 < cp_size" "0 \<le> p" "p < tot" "0 \<le> r" "r < cp_size"
  shows "owns r cp_size tot p \<longleftrightarrow> r = owner cp_size tot p"
    and "0 \<le> owner cp_size tot p \<and> owner cp_size tot p < cp_size"
proof -
  define c where "c = (tot + 2 * cp_size - 1) div (2 * cp_size)"
  have c: "0 < c" "tot \<le> 2 * cp_size * c" using chunk_cover [of cp_size tot] assms by (auto simp: c_def)
  define j where "j = p div c"
  have "j < 2 * cp_size"
  proof -
    have "p < 2 * cp_size * c" using assms(3) c(2) by linarith
    moreover have "j * c \<le> p" using in_chunk_iff [OF c(1), of j p] by (simp add: j_def)
    ultimately have "j * c < 2 * cp_size * c" by linarith
    then show ?thesis using c(1) by (simp only: mult_less_cancel_right_pos)
  qed
  moreover have "0 \<le> j" using assms(2) c(1) by (simp add: j_def pos_imp_zdiv_nonneg_iff)
  moreover have "owns r cp_size tot p \<longleftrightarrow> j = r \<or> j = 2 * cp_size - r - 1"
    using in_chunk_iff [OF c(1), of r p] in_chunk_iff [OF c(1), of "2 * cp_size - r - 1" p]
    by (simp add: owns_def c_def [symmetric] j_def Let_def)
  ultimately show "owns r cp_size tot p \<longleftrightarrow> r = owner cp_size tot p"
    "0 \<le> owner cp_size tot p \<and> owner cp_size tot p < cp_size"
    using assms(4,5) by (auto simp: owner_def c_def [symmetric] j_def [symmetric] Let_def)
qed

section \<open>Slices as sets of response positions\<close>

text \<open>The response indices of one chunk: response index \<open>i\<close> has its logit at position \<open>i + prompt - 1\<close>.\<close>

abbreviation chunk_lo :: "int \<Rightarrow> range \<Rightarrow> nat" where
  "chunk_lo prompt ch \<equiv> nat (max (fst ch) (prompt - 1) - (prompt - 1))"

abbreviation chunk_hi :: "int \<Rightarrow> int \<Rightarrow> range \<Rightarrow> nat" where
  "chunk_hi tot prompt ch \<equiv> nat (min (snd ch) (tot - 1) - (prompt - 1))"

lemma chunk_logits_slice:
  assumes "fst ch \<le> snd ch" "chunk_logits tot prompt ch = (a, b)"
  shows "py_slice (a - (prompt - 1)) (b - (prompt - 1)) xs = slice (chunk_lo prompt ch) (chunk_hi tot prompt ch) xs"
    and "nat (b - a) = chunk_hi tot prompt ch - chunk_lo prompt ch" and "a \<le> b"
    and "a < b \<Longrightarrow> a = prompt - 1 + int (chunk_lo prompt ch) \<and> b = prompt - 1 + int (chunk_hi tot prompt ch)"
proof -
  obtain lo hi where ch: "ch = (lo, hi)" by fastforce
  let ?a = "max lo (prompt - 1)" and ?b = "min hi (tot - 1)"
  have "py_slice (a - (prompt - 1)) (b - (prompt - 1)) xs = slice (chunk_lo prompt ch) (chunk_hi tot prompt ch) xs \<and>
    nat (b - a) = chunk_hi tot prompt ch - chunk_lo prompt ch \<and> a \<le> b \<and>
    (a < b \<longrightarrow> a = prompt - 1 + int (chunk_lo prompt ch) \<and> b = prompt - 1 + int (chunk_hi tot prompt ch))"
  proof (cases "?a < ?b")
    case True
    then have ab: "a = ?a" "b = ?b" using assms(2) by (auto simp: chunk_logits_def ch)
    with True show ?thesis by (simp add: py_slice_nat ch nat_diff_distrib' [symmetric])
  next
    case False
    then have ab: "a = 0" "b = 0" using assms(2) by (auto simp: chunk_logits_def ch)
    have "chunk_hi tot prompt ch \<le> chunk_lo prompt ch" using False unfolding ch fst_conv snd_conv
      by (intro nat_mono diff_right_mono) (simp only: not_less)
    then show ?thesis by (simp add: ab slice_def)
  qed
  then show "py_slice (a - (prompt - 1)) (b - (prompt - 1)) xs = slice (chunk_lo prompt ch) (chunk_hi tot prompt ch) xs"
    "nat (b - a) = chunk_hi tot prompt ch - chunk_lo prompt ch" "a \<le> b"
    "a < b \<Longrightarrow> a = prompt - 1 + int (chunk_lo prompt ch) \<and> b = prompt - 1 + int (chunk_hi tot prompt ch)"
    by blast+
qed

lemma chunk_tokens_slice:
  assumes "fst ch \<le> snd ch" "chunk_tokens tot prompt ch = (a, b)"
  shows "py_slice (a - prompt) (b - prompt) xs = slice (chunk_lo prompt ch) (chunk_hi tot prompt ch) xs"
proof -
  obtain lo hi where ch: "ch = (lo, hi)" by fastforce
  obtain u v where uv: "chunk_logits tot prompt ch = (u, v)" by fastforce
  show ?thesis
  proof (cases "max lo (prompt - 1) < min hi (tot - 1)")
    case True
    then have "a = u + 1" "b = v + 1" using assms(2) uv by (auto simp: chunk_tokens_def chunk_logits_def ch)
    then have "a - prompt = u - (prompt - 1)" "b - prompt = v - (prompt - 1)" by auto
    then show ?thesis by (simp only: chunk_logits_slice(1) [OF assms(1) uv])
  next
    case False
    then have "a = 0" "b = 0" "u = 0" "v = 0" using assms(2) uv by (auto simp: chunk_tokens_def chunk_logits_def ch)
    with chunk_logits_slice(1) [OF assms(1) uv, of xs] show ?thesis by simp
  qed
qed

lemma chunk_member:
  "1 \<le> prompt \<Longrightarrow> int i < tot - prompt \<Longrightarrow>
   chunk_lo prompt ch \<le> i \<and> i < chunk_hi tot prompt ch \<longleftrightarrow>
   fst ch \<le> int i + prompt - 1 \<and> int i + prompt - 1 < snd ch"
  by (auto simp: nat_le_iff zless_nat_eq_int_zless)

lemma embed_two:
  assumes "a \<le> b" "b \<le> c" "c \<le> d" "d \<le> length xs"
  shows "replicate a 0 @ slice a b xs @ replicate (c - b) 0 @ slice c d xs @ replicate (length xs - d) 0
    = map (\<lambda>i. if a \<le> i \<and> i < b \<or> c \<le> i \<and> i < d then xs ! i else 0) [0..<length xs]"
  using assms by (intro nth_equalityI) (auto simp: nth_append slice_def)

text \<open>The two chunks of a rank, in order, and the response indices they hold.\<close>

definition first_chunk :: "int \<Rightarrow> int \<Rightarrow> int \<Rightarrow> range" where
  "first_chunk r n tot = (let c = (tot + 2 * n - 1) div (2 * n) in (r * c, (r + 1) * c))"

definition second_chunk :: "int \<Rightarrow> int \<Rightarrow> int \<Rightarrow> range" where
  "second_chunk r n tot = (let c = (tot + 2 * n - 1) div (2 * n) in ((2 * n - r - 1) * c, (2 * n - r) * c))"

lemma rank_chunks:
  assumes "1 < n" "0 \<le> r" "r < n" "0 < tot"
  shows "0 \<le> fst (first_chunk r n tot)" "fst (first_chunk r n tot) \<le> snd (first_chunk r n tot)"
    "snd (first_chunk r n tot) \<le> fst (second_chunk r n tot)"
    "fst (second_chunk r n tot) \<le> snd (second_chunk r n tot)"
    "owns r n tot p \<longleftrightarrow> fst (first_chunk r n tot) \<le> p \<and> p < snd (first_chunk r n tot) \<or>
       fst (second_chunk r n tot) \<le> p \<and> p < snd (second_chunk r n tot)"
proof -
  let ?c = "(tot + 2 * n - 1) div (2 * n)"
  have c: "0 < ?c" using chunk_cover [of n tot] assms by simp
  show "0 \<le> fst (first_chunk r n tot)" "fst (first_chunk r n tot) \<le> snd (first_chunk r n tot)"
    "fst (second_chunk r n tot) \<le> snd (second_chunk r n tot)"
    using c assms by (auto simp: first_chunk_def second_chunk_def Let_def intro: mult_right_mono)
  have "(r + 1) * ?c \<le> (2 * n - r - 1) * ?c" using c assms by (intro mult_right_mono) auto
  then show "snd (first_chunk r n tot) \<le> fst (second_chunk r n tot)"
    by (simp add: first_chunk_def second_chunk_def Let_def)
  show "owns r n tot p \<longleftrightarrow> fst (first_chunk r n tot) \<le> p \<and> p < snd (first_chunk r n tot) \<or>
       fst (second_chunk r n tot) \<le> p \<and> p < snd (second_chunk r n tot)"
    by (simp add: owns_def first_chunk_def second_chunk_def Let_def)
qed

lemma offsets_eq:
  assumes "1 < n"
  shows "get_logits_and_tokens_offset_with_cp r n tot resp = Inr
    \<lparr>co_chunk_size = (tot + 2 * n - 1) div (2 * n), co_chunks = (first_chunk r n tot, second_chunk r n tot),
     logits_offset = (chunk_logits tot (tot - resp) (first_chunk r n tot),
                      chunk_logits tot (tot - resp) (second_chunk r n tot)),
     tokens_offset = (chunk_tokens tot (tot - resp) (first_chunk r n tot),
                      chunk_tokens tot (tot - resp) (second_chunk r n tot))\<rparr>"
  using assms by (simp add: get_logits_and_tokens_offset_with_cp_def first_chunk_def second_chunk_def Let_def)

abbreviation rank_slice :: "int \<Rightarrow> int \<Rightarrow> int \<Rightarrow> int \<Rightarrow> 'a list \<Rightarrow> 'a list" where
  "rank_slice r n tot prompt xs \<equiv>
     slice (chunk_lo prompt (first_chunk r n tot)) (chunk_hi tot prompt (first_chunk r n tot)) xs
     @ slice (chunk_lo prompt (second_chunk r n tot)) (chunk_hi tot prompt (second_chunk r n tot)) xs"

lemma slice_log_prob_eq:
  assumes "1 < n" "0 \<le> r" "r < n" "0 < tot" "int (length xs) = resp"
  shows "slice_log_prob_with_cp r n xs tot resp = Inr (rank_slice r n tot (tot - resp) xs)"
proof -
  note ch = rank_chunks [OF assms(1-4)]
  obtain a b where ab: "chunk_logits tot (tot - resp) (first_chunk r n tot) = (a, b)" by fastforce
  obtain c d where cd: "chunk_logits tot (tot - resp) (second_chunk r n tot) = (c, d)" by fastforce
  show ?thesis
    unfolding slice_log_prob_with_cp_def Let_def offsets_eq [OF assms(1)]
    using assms(1,5) by (simp add: ab cd chunk_logits_slice(1) [OF ch(2) ab] chunk_logits_slice(1) [OF ch(4) cd]
      del: diff_diff_eq diff_diff_eq2)
qed

lemma chunked_loss_mask_eq:
  assumes "1 < n" "0 \<le> r" "r < n" "0 < tot"
  shows "chunked_loss_mask r n tot resp m = Inr (rank_slice r n tot (tot - resp) m)"
proof -
  note ch = rank_chunks [OF assms]
  obtain a b where ab: "chunk_tokens tot (tot - resp) (first_chunk r n tot) = (a, b)" by fastforce
  obtain c d where cd: "chunk_tokens tot (tot - resp) (second_chunk r n tot) = (c, d)" by fastforce
  show ?thesis
    unfolding chunked_loss_mask_def Let_def offsets_eq [OF assms(1)]
    by (simp add: ab cd chunk_tokens_slice [OF ch(2) ab] chunk_tokens_slice [OF ch(4) cd]
      del: diff_diff_eq diff_diff_eq2)
qed

lemma zeros_nat [simp]: "zeros (int k) = Inr (replicate k 0)"
  by (simp add: zeros_def)

text \<open>The four cases of the code place the two chunks at their response indices.\<close>

lemma place_chunks:
  fixes xs :: "'a::zero list"
  assumes "B0 \<le> length xs" "B1 \<le> length xs" "B0 \<le> A1 \<or> B1 \<le> A1" "R = int (length xs)"
    and l0: "A0 < B0 \<Longrightarrow> l0 = q + int A0 \<and> h0 = q + int B0" and l1: "A1 < B1 \<Longrightarrow> l1 = q + int A1 \<and> h1 = q + int B1"
    and t: "t = q + R" and c0: "c0 = slice A0 B0 xs" and c1: "c1 = slice A1 B1 xs"
  shows "(if c0 = [] \<and> c1 = [] then zeros R
    else if c1 = [] then res_bind (zeros (l0 - q)) (\<lambda>left. res_bind (zeros (t - h0)) (\<lambda>right. Inr (left @ c0 @ right)))
    else if c0 = [] then res_bind (zeros (l1 - q)) (\<lambda>left. res_bind (zeros (t - h1)) (\<lambda>right. Inr (left @ c1 @ right)))
    else res_bind (zeros (l0 - q)) (\<lambda>left. res_bind (zeros (l1 - h0)) (\<lambda>mid. res_bind (zeros (t - h1))
      (\<lambda>right. Inr (left @ c0 @ mid @ c1 @ right)))))
    = Inr (map (\<lambda>i. if A0 \<le> i \<and> i < B0 \<or> A1 \<le> i \<and> i < B1 then xs ! i else 0) [0..<length xs])"
proof -
  have e0: "c0 = [] \<longleftrightarrow> \<not> A0 < B0" and e1: "c1 = [] \<longleftrightarrow> \<not> A1 < B1"
    using assms(1,2) by (auto simp: c0 c1 slice_def)
  have right: "zeros (q + R - (q + int b)) = Inr (replicate (length xs - b) (0 :: 'a))" if "b \<le> length xs" for b
    using zeros_nat [of "length xs - b"] that by (simp add: assms(4) of_nat_diff)
  have left: "zeros (q + int a - q) = Inr (replicate a (0 :: 'a))" for a by simp
  let ?m = "map (\<lambda>i. if A0 \<le> i \<and> i < B0 \<or> A1 \<le> i \<and> i < B1 then xs ! i else 0) [0..<length xs]"
  show ?thesis
  proof (cases "A0 < B0"; cases "A1 < B1")
    assume c: "A0 < B0" "A1 < B1"
    then have "B0 \<le> A1" using assms(3) by simp
    then have mid: "zeros (q + int A1 - (q + int B0)) = Inr (replicate (A1 - B0) (0 :: 'a))"
      using zeros_nat [of "A1 - B0"] by (simp add: of_nat_diff)
    have ne: "c0 \<noteq> []" "c1 \<noteq> []" using c e0 e1 by auto
    have "replicate A0 0 @ c0 @ replicate (A1 - B0) 0 @ c1 @ replicate (length xs - B1) 0 = ?m"
      unfolding c0 c1 using c assms(2) \<open>B0 \<le> A1\<close> by (intro embed_two) auto
    with l0 [OF c(1)] l1 [OF c(2)] show ?thesis
      by (simp only: ne t left mid right [OF assms(2)] res_bind_Inr if_False simp_thms)
  next
    assume c: "A0 < B0" "\<not> A1 < B1"
    have ne: "c0 \<noteq> []" "c1 = []" using c e0 e1 by auto
    have "replicate A0 0 @ c0 @ replicate (length xs - B0) 0 = ?m"
      using embed_two [of A0 B0 B0 B0 xs] c assms(1) unfolding c0 by (auto simp: slice_def)
    with l0 [OF c(1)] show ?thesis
      by (simp only: ne t left right [OF assms(1)] res_bind_Inr if_False if_True simp_thms)
  next
    assume c: "\<not> A0 < B0" "A1 < B1"
    have ne: "c0 = []" "c1 \<noteq> []" using c e0 e1 by auto
    have "replicate A1 0 @ c1 @ replicate (length xs - B1) 0 = ?m"
      using embed_two [of A1 B1 B1 B1 xs] c assms(2) unfolding c1 by (auto simp: slice_def)
    with l1 [OF c(2)] show ?thesis
      by (simp only: ne t left right [OF assms(2)] res_bind_Inr if_False if_True simp_thms)
  next
    assume c: "\<not> A0 < B0" "\<not> A1 < B1"
    have ne: "c0 = []" "c1 = []" using c e0 e1 by auto
    have "?m = replicate (length xs) (0 :: 'a)" using c by (intro nth_equalityI) auto
    then show ?thesis by (simp only: ne assms(4) zeros_nat if_True simp_thms)
  qed
qed

lemma take_drop_slice:
  assumes "b \<le> length xs"
  shows "take (b - a) (slice a b xs @ ys) = slice a b xs" and "drop (b - a) (slice a b xs @ ys) = ys"
proof -
  have "length (slice a b xs) = b - a" using assms by simp
  then show "take (b - a) (slice a b xs @ ys) = slice a b xs" "drop (b - a) (slice a b xs @ ys) = ys"
    by (metis append_eq_conv_conj)+
qed

lemma gather_contribution_eq:
  fixes xs :: "'a::zero list"
  assumes "1 < n" "0 \<le> r" "r < n" "int (length xs) = resp" "resp < tot"
  shows "gather_contribution r n (rank_slice r n tot (tot - resp) xs) tot resp =
    Inr (map (\<lambda>i. if owns r n tot (int i + (tot - resp) - 1) then xs ! i else 0) [0..<length xs])"
proof -
  have tot: "0 < tot" using assms(4,5) by simp
  note ch = rank_chunks [OF assms(1-3) tot]
  let ?P = "tot - resp"
  let ?A0 = "chunk_lo ?P (first_chunk r n tot)" and ?B0 = "chunk_hi tot ?P (first_chunk r n tot)"
  let ?A1 = "chunk_lo ?P (second_chunk r n tot)" and ?B1 = "chunk_hi tot ?P (second_chunk r n tot)"
  obtain l0 h0 where 0: "chunk_logits tot ?P (first_chunk r n tot) = (l0, h0)" by fastforce
  obtain l1 h1 where 1: "chunk_logits tot ?P (second_chunk r n tot) = (l1, h1)" by fastforce
  note s0 = chunk_logits_slice [OF ch(2) 0] and s1 = chunk_logits_slice [OF ch(4) 1]
  have B: "?B0 \<le> length xs" "?B1 \<le> length xs" using assms(4) by (simp_all add: nat_le_iff)
  have "?B0 \<le> ?A1" using ch(3) by (intro nat_mono diff_right_mono) linarith
  have t0: "take (nat (h0 - l0)) (rank_slice r n tot ?P xs) = slice ?A0 ?B0 xs"
    and d0: "drop (nat (h0 - l0)) (rank_slice r n tot ?P xs) = slice ?A1 ?B1 xs"
    by (simp_all only: s0(2) take_drop_slice [OF B(1)])
  have l1': "int (length (slice ?A1 ?B1 xs)) = h1 - l1"
  proof -
    have "length (slice ?A1 ?B1 xs) = nat (h1 - l1)" using B(2) s1(2) by (simp only: length_slice) linarith
    with s1(3) show ?thesis by (simp only: nat_0_le diff_ge_0_iff_ge)
  qed
  have p0: "l0 = ?P - 1 + int ?A0 \<and> h0 = ?P - 1 + int ?B0" if "?A0 < ?B0"
  proof -
    have "0 < nat (h0 - l0)" using that by (simp only: s0(2) zero_less_diff)
    then have "l0 < h0" by (simp only: zero_less_nat_eq diff_gt_0_iff_gt)
    then show ?thesis by (rule s0(4))
  qed
  have p1: "l1 = ?P - 1 + int ?A1 \<and> h1 = ?P - 1 + int ?B1" if "?A1 < ?B1"
  proof -
    have "0 < nat (h1 - l1)" using that by (simp only: s1(2) zero_less_diff)
    then have "l1 < h1" by (simp only: zero_less_nat_eq diff_gt_0_iff_gt)
    then show ?thesis by (rule s1(4))
  qed
  have t: "tot - 1 = ?P - 1 + resp" by simp
  note placed = place_chunks [OF B disjI1 [OF \<open>?B0 \<le> ?A1\<close>] assms(4) [symmetric] p0 p1 t refl refl]
  have "map (\<lambda>i. if ?A0 \<le> i \<and> i < ?B0 \<or> ?A1 \<le> i \<and> i < ?B1 then xs ! i else 0) [0..<length xs]
      = map (\<lambda>i. if owns r n tot (int i + ?P - 1) then xs ! i else 0) [0..<length xs]"
  proof (rule map_cong [OF refl])
    fix i assume "i \<in> set [0..<length xs]"
    then have i: "int i < tot - ?P" using assms(4) by simp
    have "1 \<le> ?P" using assms(5) by simp
    from chunk_member [OF this i, of "first_chunk r n tot"] chunk_member [OF this i, of "second_chunk r n tot"]
    show "(if ?A0 \<le> i \<and> i < ?B0 \<or> ?A1 \<le> i \<and> i < ?B1 then xs ! i else 0)
        = (if owns r n tot (int i + ?P - 1) then xs ! i else 0)" by (simp only: ch(5))
  qed
  with placed show ?thesis
    unfolding gather_contribution_def offsets_eq [OF assms(1)] Let_def
    by (simp only: res_bind_Inr cp_offsets.simps 0 1 prod.case t0 d0 l1' length_map length_upt assms(4)
      diff_zero simp_thms if_False)
qed

section \<open>Summing over the ranks\<close>

text \<open>The documented behaviour of the all-reduce with the default sum: on tensors of one shape, the
  elementwise sum over the ranks.\<close>

definition sums_ranks :: "('a::comm_monoid_add list list \<Rightarrow> 'a list) \<Rightarrow> bool" where
  "sums_ranks all_reduce \<longleftrightarrow>
     (\<forall>xss n. xss \<noteq> [] \<and> (\<forall>xs \<in> set xss. length xs = n) \<longrightarrow>
        all_reduce xss = map (\<lambda>i. \<Sum>xs\<leftarrow>xss. xs ! i) [0..<n])"

lemma sums_ranksD:
  "sums_ranks all_reduce \<Longrightarrow> xss \<noteq> [] \<Longrightarrow> \<forall>xs \<in> set xss. length xs = n \<Longrightarrow>
     all_reduce xss = map (\<lambda>i. \<Sum>xs\<leftarrow>xss. xs ! i) [0..<n]"
  by (simp add: sums_ranks_def)

lemma sum_over_owner:
  assumes "1 < n" "0 \<le> p" "p < tot"
  shows "(\<Sum>r\<leftarrow>[0..<nat n]. if owns (int r) n tot p then (x :: 'a::comm_monoid_add) else 0) = x"
proof -
  have o: "0 \<le> owner n tot p \<and> owner n tot p < n"
    using owns_iff_owner(2) [OF assms, of 0] assms(1) by simp
  have "(\<Sum>r\<leftarrow>[0..<nat n]. if owns (int r) n tot p then x else 0) = (\<Sum>r<nat n. if owns (int r) n tot p then x else 0)"
    by (simp add: interv_sum_list_conv_sum_set_nat atLeast0LessThan)
  also have "\<dots> = (\<Sum>r<nat n. if r = nat (owner n tot p) then x else 0)"
  proof (rule sum.cong [OF refl])
    fix r assume "r \<in> {..<nat n}"
    then have "owns (int r) n tot p \<longleftrightarrow> int r = owner n tot p"
      using owns_iff_owner(1) [OF assms, of "int r"] by simp
    also have "\<dots> \<longleftrightarrow> r = nat (owner n tot p)" using o by auto
    finally show "(if owns (int r) n tot p then x else 0) = (if r = nat (owner n tot p) then x else 0)" by simp
  qed
  also have "\<dots> = x" using o by simp
  finally show ?thesis .
qed

lemma sum_slice:
  fixes xs :: "'a::comm_monoid_add list"
  shows "sum_list (slice a b xs) = (\<Sum>i<length xs. if a \<le> i \<and> i < b then xs ! i else 0)"
proof -
  have "slice a b xs = map ((!) xs) [a..<min b (length xs)]"
    by (intro nth_equalityI) (auto simp: slice_def less_diff_conv add.commute)
  then have "sum_list (slice a b xs) = (\<Sum>i\<in>{a..<min b (length xs)}. xs ! i)"
    by (simp add: interv_sum_list_conv_sum_set_nat)
  also have "{a..<min b (length xs)} = {i \<in> {..<length xs}. a \<le> i \<and> i < b}" by auto
  also have "(\<Sum>i\<in>{i \<in> {..<length xs}. a \<le> i \<and> i < b}. xs ! i) = (\<Sum>i<length xs. if a \<le> i \<and> i < b then xs ! i else 0)"
    by (rule sum.inter_filter) simp
  finally show ?thesis .
qed

lemma rank_slice_sum:
  fixes xs :: "'a::comm_monoid_add list"
  assumes "1 < n" "0 \<le> r" "r < n" "int (length xs) = tot - prompt" "1 \<le> prompt"
  shows "sum_list (rank_slice r n tot prompt xs) =
    (\<Sum>i<length xs. if owns r n tot (int i + prompt - 1) then xs ! i else 0)"
proof -
  have tot: "0 < tot" using assms(4,5) by linarith
  note ch = rank_chunks [OF assms(1-3) tot]
  let ?in = "\<lambda>ch i. chunk_lo prompt ch \<le> i \<and> i < chunk_hi tot prompt ch"
  let ?f = "first_chunk r n tot" and ?s = "second_chunk r n tot"
  have split: "(if ?in ?f i then xs ! i else 0) + (if ?in ?s i then xs ! i else 0)
      = (if owns r n tot (int i + prompt - 1) then xs ! i else 0)" if "i < length xs" for i
  proof -
    have i: "int i < tot - prompt" using that assms(4) by simp
    let ?p = "int i + prompt - 1"
    have own: "owns r n tot ?p \<longleftrightarrow> ?in ?f i \<or> ?in ?s i"
      by (simp only: ch(5) chunk_member [OF assms(5) i])
    have "\<not> (?in ?f i \<and> ?in ?s i)" unfolding chunk_member [OF assms(5) i] using ch(3) by linarith
    then show ?thesis unfolding own by (cases "?in ?f i"; cases "?in ?s i") (simp_all only: if_True if_False add_0_left add_0_right simp_thms)
  qed
  have "sum_list (rank_slice r n tot prompt xs) =
      (\<Sum>i<length xs. (if ?in ?f i then xs ! i else 0) + (if ?in ?s i then xs ! i else 0))"
    by (simp only: sum_list_append sum_slice sum.distrib)
  also have "\<dots> = (\<Sum>i<length xs. if owns r n tot (int i + prompt - 1) then xs ! i else 0)"
    by (rule sum.cong [OF refl]) (simp only: split lessThan_iff)
  finally show ?thesis .
qed

lemma sum_rank_slices:
  fixes xs :: "'a::comm_monoid_add list"
  assumes "1 < n" "int (length xs) = tot - prompt" "1 \<le> prompt"
  shows "(\<Sum>r\<leftarrow>[0..<nat n]. sum_list (rank_slice (int r) n tot prompt xs)) = sum_list xs"
proof -
  let ?o = "\<lambda>r i. if owns (int r) n tot (int i + prompt - 1) then xs ! i else 0"
  have "(\<Sum>r\<leftarrow>[0..<nat n]. sum_list (rank_slice (int r) n tot prompt xs)) = (\<Sum>r<nat n. \<Sum>i<length xs. ?o r i)"
    using assms by (auto simp only: interv_sum_list_conv_sum_set_nat atLeast0LessThan
      intro!: sum.cong rank_slice_sum) auto
  also have "\<dots> = (\<Sum>i<length xs. \<Sum>r<nat n. ?o r i)" by (rule sum.swap)
  also have "\<dots> = (\<Sum>i<length xs. xs ! i)"
  proof (rule sum.cong [OF refl])
    fix i assume "i \<in> {..<length xs}"
    then show "(\<Sum>r<nat n. ?o r i) = xs ! i"
      using sum_over_owner [OF assms(1), of "int i + prompt - 1" tot "xs ! i"] assms(2,3)
      by (simp add: interv_sum_list_conv_sum_set_nat atLeast0LessThan)
  qed
  also have "\<dots> = sum_list xs" by (simp add: sum_list_sum_nth atLeast0LessThan)
  finally show ?thesis .
qed

lemma cp_gather_slices:
  fixes xs :: "'a::comm_monoid_add list"
  assumes "sums_ranks all_reduce" "1 < n" "int (length xs) < tot"
  shows "\<exists>locals. res_map (\<lambda>r. slice_log_prob_with_cp (int r) (int n) xs tot (int (length xs))) [0..<n] = Inr locals \<and>
    all_gather_with_cp all_reduce locals tot (int (length xs)) = Inr xs"
proof -
  let ?P = "tot - int (length xs)" and ?R = "int (length xs)"
  let ?l = "\<lambda>r. rank_slice (int r) (int n) tot ?P xs"
  let ?g = "\<lambda>r. map (\<lambda>i. if owns (int r) (int n) tot (int i + ?P - 1) then xs ! i else 0) [0..<length xs]"
  have locals: "res_map (\<lambda>r. slice_log_prob_with_cp (int r) (int n) xs tot ?R) [0..<n] = Inr (map ?l [0..<n])"
    using assms(2,3) by (intro res_map_Inr_ball ballI slice_log_prob_eq) auto
  have "gather_contribution (int r) (int n) (map ?l [0..<n] ! r) tot ?R = Inr (?g r)" if "r < n" for r
  proof -
    have "map ?l [0..<n] ! r = ?l r" using that by simp
    with gather_contribution_eq [of "int n" "int r" xs ?R tot] assms(2,3) that show ?thesis by simp
  qed
  then have "res_map (\<lambda>r. gather_contribution (int r) (int n) (map ?l [0..<n] ! r) tot ?R) [0..<n] = Inr (map ?g [0..<n])"
    by (intro res_map_Inr_ball) simp
  moreover have "all_reduce (map ?g [0..<n]) = xs"
  proof -
    have "all_reduce (map ?g [0..<n]) = map (\<lambda>i. \<Sum>ys\<leftarrow>map ?g [0..<n]. ys ! i) [0..<length xs]"
      using assms(2) by (intro sums_ranksD [OF assms(1)]) auto
    also have "\<dots> = xs"
    proof (intro nth_equalityI)
      fix i assume i: "i < length (map (\<lambda>i. \<Sum>ys\<leftarrow>map ?g [0..<n]. ys ! i) [0..<length xs])"
      then have "map (\<lambda>i. \<Sum>ys\<leftarrow>map ?g [0..<n]. ys ! i) [0..<length xs] ! i
          = (\<Sum>r\<leftarrow>[0..<nat (int n)]. if owns (int r) (int n) tot (int i + ?P - 1) then xs ! i else 0)"
        by (simp add: comp_def cong: if_cong)
      also have "\<dots> = xs ! i" using assms(2,3) i by (intro sum_over_owner) auto
      finally show "map (\<lambda>i. \<Sum>ys\<leftarrow>map ?g [0..<n]. ys ! i) [0..<length xs] ! i = xs ! i" .
    qed simp
    finally show ?thesis .
  qed
  ultimately have "all_gather_with_cp all_reduce (map ?l [0..<n]) tot ?R = Inr xs"
    using assms(2) by (simp add: all_gather_with_cp_def Let_def)
  with locals show ?thesis by blast
qed

text \<open>The same for the ranks' local tensors given one by one, and for a group of a single rank.\<close>

abbreviation cp_local :: "nat \<Rightarrow> nat \<Rightarrow> int \<Rightarrow> 'a list \<Rightarrow> 'a list" where
  "cp_local r n tot xs \<equiv> projr (slice_log_prob_with_cp (int r) (int n) xs tot (int (length xs)))"

lemma cp_local_returns:
  "r < n \<Longrightarrow> int (length xs) < tot \<Longrightarrow>
     slice_log_prob_with_cp (int r) (int n) xs tot (int (length xs)) = Inr (cp_local r n tot xs)"
proof -
  assume a: "r < n" "int (length xs) < tot"
  have "\<exists>ys. slice_log_prob_with_cp (int r) (int n) xs tot (int (length xs)) = Inr ys"
  proof (cases "n = 1")
    case False
    with a slice_log_prob_eq [of "int n" "int r" tot xs "int (length xs)"] show ?thesis by auto
  qed (simp add: slice_log_prob_with_cp_def)
  then show "slice_log_prob_with_cp (int r) (int n) xs tot (int (length xs)) = Inr (cp_local r n tot xs)"
    by (elim exE) (simp only: sum.sel)
qed

lemma cp_gather_local:
  fixes xs :: "'a::comm_monoid_add list"
  assumes "sums_ranks all_reduce" "0 < n" "int (length xs) < tot"
  shows "all_gather_with_cp all_reduce (map (\<lambda>r. cp_local r n tot xs) [0..<n]) tot (int (length xs)) = Inr xs"
proof (cases "n = 1")
  case True
  then show ?thesis by (simp add: all_gather_with_cp_def slice_log_prob_with_cp_def)
next
  case False
  with assms(2) have "1 < n" by simp
  from cp_gather_slices [OF assms(1) this assms(3)] obtain locals where
    locals: "res_map (\<lambda>r. slice_log_prob_with_cp (int r) (int n) xs tot (int (length xs))) [0..<n] = Inr locals"
    "all_gather_with_cp all_reduce locals tot (int (length xs)) = Inr xs" by blast
  have "res_map (\<lambda>r. slice_log_prob_with_cp (int r) (int n) xs tot (int (length xs))) [0..<n]
      = Inr (map (\<lambda>r. cp_local r n tot xs) [0..<n])"
    by (intro res_map_Inr_ball ballI cp_local_returns assms(3)) simp
  with locals(1) have "locals = map (\<lambda>r. cp_local r n tot xs) [0..<n]" by (simp only: sum.inject)
  with locals(2) show ?thesis by (simp only:)
qed

text \<open>C8: slicing a response over the ranks of a context-parallel group and gathering the slices
  restores it, whatever the padding of the last chunk, and every assertion on the way holds.\<close>

theorem cp_slice_gather_roundtrip:
  fixes xs :: "'a::comm_monoid_add list"
  assumes "sums_ranks all_reduce" "1 < n" "int (length xs) < tot"
  shows "\<exists>locals. res_map (\<lambda>r. slice_log_prob_with_cp (int r) (int n) xs tot (int (length xs))) [0..<n] = Inr locals \<and>
    all_gather_with_cp all_reduce locals tot (int (length xs)) = Inr xs"
  by (rule cp_gather_slices [OF assms])

text \<open>The elementwise sum, an all-reduce that satisfies the hypothesis.\<close>

definition vec_sum :: "'a::comm_monoid_add list list \<Rightarrow> 'a list" where
  "vec_sum xss = map (\<lambda>i. \<Sum>xs\<leftarrow>xss. xs ! i) [0..<length (hd xss)]"

lemma vec_sum_sums_ranks: "sums_ranks vec_sum"
  by (auto simp: sums_ranks_def vec_sum_def neq_Nil_conv)

theorem cp_slice_gather_roundtrip_witness:
  "\<exists>locals. res_map (\<lambda>r. slice_log_prob_with_cp (int r) (int 2) [5, 7, 11 :: int] 6 3) [0..<2] = Inr locals \<and>
    all_gather_with_cp vec_sum locals 6 3 = Inr [5, 7, 11]"
  using cp_slice_gather_roundtrip [OF vec_sum_sums_ranks, of 2 "[5, 7, 11 :: int]" 6] by simp

section \<open>Sample means do not depend on the context-parallel layout\<close>

lemma torch_split_concat: "torch_split (concat xss) (map length xss) = Inr xss"
  by (induction xss) auto

lemma map2_slice: "map2 f (slice a b xs) (slice a b ys) = slice a b (map2 f xs ys)"
  by (simp add: slice_def take_zip drop_zip take_map drop_map)

lemma dot_rank_slice:
  assumes "1 < n" "0 \<le> r" "r < n" "length xs = length ms" "int (length xs) = tot - prompt" "1 \<le> prompt"
  shows "dot (rank_slice r n tot prompt xs) (rank_slice r n tot prompt ms)
    = sum_list (rank_slice r n tot prompt (map2 (*) xs ms))"
proof -
  have "map2 (*) (slice a b xs @ slice c d xs) (slice a b ms @ slice c d ms)
      = slice a b (map2 (*) xs ms) @ slice c d (map2 (*) xs ms)" for a b c d
    using assms(4) by (simp add: map2_slice)
  then show ?thesis unfolding dot_def by (simp only:)
qed

lemma dot_over_ranks:
  assumes "1 < n" "length xs = length ms" "int (length xs) = tot - prompt" "1 \<le> prompt"
  shows "(\<Sum>r\<leftarrow>[0..<nat n]. dot (rank_slice (int r) n tot prompt xs) (rank_slice (int r) n tot prompt ms)) = dot xs ms"
proof -
  have "(\<Sum>r\<leftarrow>[0..<nat n]. dot (rank_slice (int r) n tot prompt xs) (rank_slice (int r) n tot prompt ms))
      = (\<Sum>r\<leftarrow>[0..<nat n]. sum_list (rank_slice (int r) n tot prompt (map2 (*) xs ms)))"
    using assms by (intro arg_cong [where f = sum_list] map_cong refl dot_rank_slice) auto
  also have "\<dots> = sum_list (map2 (*) xs ms)" using assms by (intro sum_rank_slices) auto
  finally show ?thesis by (simp add: dot_def)
qed

text \<open>A batch: total length, per-token values and loss mask of every sample, with at least one prompt token.\<close>

type_synonym cp_sample = "int \<times> real list \<times> real list"

abbreviation cp_values :: "cp_sample \<Rightarrow> real list" where "cp_values s \<equiv> fst (snd s)"
abbreviation cp_mask :: "cp_sample \<Rightarrow> real list" where "cp_mask s \<equiv> snd (snd s)"

definition cp_batch_ok :: "cp_sample list \<Rightarrow> bool" where
  "cp_batch_ok batch \<longleftrightarrow> (\<forall>s \<in> set batch. length (cp_mask s) = length (cp_values s) \<and> int (length (cp_values s)) < fst s)"

text \<open>What rank \<open>r\<close> of \<open>n\<close> holds of the concatenated values, and the reducer it applies to them.\<close>

definition local_values :: "int \<Rightarrow> int \<Rightarrow> cp_sample list \<Rightarrow> real list result" where
  "local_values r n batch = res_bind
     (res_map (\<lambda>s. slice_log_prob_with_cp r n (cp_values s) (fst s) (int (length (cp_values s)))) batch)
     (\<lambda>xs. Inr (concat xs))"

definition local_mean :: "int \<Rightarrow> int \<Rightarrow> cp_sample list \<Rightarrow> real list option \<Rightarrow> bool \<Rightarrow> real result" where
  "local_mean r n batch denoms per_token = res_bind (local_values r n batch)
     (get_sum_of_sample_mean r n (map fst batch) (map (\<lambda>s. int (length (cp_values s))) batch)
        (map cp_mask batch) denoms per_token)"

text \<open>The reduction over one family of values and masks.\<close>

definition reduce_with :: "real list list \<Rightarrow> real list list \<Rightarrow> real list \<Rightarrow> bool \<Rightarrow> real" where
  "reduce_with xs masks denoms per_token =
     (if per_token then sum_list (map2 dot xs masks)
      else sum_list (map (\<lambda>(x, m, d). dot x m / max d 1) (zip xs (zip masks denoms))))"

abbreviation denoms_of :: "cp_sample list \<Rightarrow> real list option \<Rightarrow> real list" where
  "denoms_of batch denoms \<equiv> (case denoms of None \<Rightarrow> map sum_list (map cp_mask batch) | Some ds \<Rightarrow> ds)"

lemma local_mean_one:
  "local_mean 0 1 batch denoms per_token =
     Inr (reduce_with (map cp_values batch) (map cp_mask batch) (denoms_of batch denoms) per_token)"
proof -
  have "local_values 0 1 batch = Inr (concat (map cp_values batch))"
    unfolding local_values_def
    by (subst res_map_Inr_ball [where g = cp_values]) (auto simp: slice_log_prob_with_cp_def)
  then show ?thesis
    using torch_split_concat [of "map cp_values batch"]
    by (simp add: local_mean_def get_sum_of_sample_mean_def reduce_with_def Let_def comp_def)
qed

lemma local_mean_rank:
  assumes "cp_batch_ok batch" "1 < n" "0 \<le> r" "r < n"
  shows "local_mean r n batch denoms per_token =
    Inr (reduce_with (map (\<lambda>s. rank_slice r n (fst s) (fst s - int (length (cp_values s))) (cp_values s)) batch)
      (map (\<lambda>s. rank_slice r n (fst s) (fst s - int (length (cp_values s))) (cp_mask s)) batch)
      (denoms_of batch denoms) per_token)"
proof -
  let ?x = "\<lambda>s. rank_slice r n (fst s) (fst s - int (length (cp_values s))) (cp_values s)"
  let ?m = "\<lambda>s. rank_slice r n (fst s) (fst s - int (length (cp_values s))) (cp_mask s)"
  have pos: "0 < fst s" if "s \<in> set batch" for s using assms(1) that by (force simp: cp_batch_ok_def)
  have "local_values r n batch = Inr (concat (map ?x batch))"
    unfolding local_values_def using assms pos
    by (subst res_map_Inr_ball [where g = ?x]) (auto intro!: slice_log_prob_eq)
  moreover have "res_map (\<lambda>(t, rl, m). chunked_loss_mask r n t rl m)
      (zip (map fst batch) (zip (map (\<lambda>s. int (length (cp_values s))) batch) (map cp_mask batch))) = Inr (map ?m batch)"
  proof -
    have "zip (map fst batch) (zip (map (\<lambda>s. int (length (cp_values s))) batch) (map cp_mask batch))
        = map (\<lambda>s. (fst s, int (length (cp_values s)), cp_mask s)) batch"
      by (induction batch) auto
    moreover have "res_map (\<lambda>(t, rl, m). chunked_loss_mask r n t rl m)
        (map (\<lambda>s. (fst s, int (length (cp_values s)), cp_mask s)) batch) = Inr (map ?m batch)"
      using assms(2-4) pos by (induction batch) (simp_all add: chunked_loss_mask_eq)
    ultimately show ?thesis by simp
  qed
  moreover have "map length (map ?m batch) = map length (map ?x batch)"
    using assms(1) by (auto simp: cp_batch_ok_def)
  moreover have "n \<noteq> 1" using assms(2) by simp
  ultimately show ?thesis
    using torch_split_concat [of "map ?x batch"]
    by (simp only: local_mean_def get_sum_of_sample_mean_def reduce_with_def Let_def res_bind_Inr if_False prod.case)
qed

lemma reduce_over_ranks:
  fixes n :: nat
  assumes "\<And>s. s \<in> set batch \<Longrightarrow> (\<Sum>r\<leftarrow>[0..<n]. dot (x r s) (m r s)) = dot (X s) (M s)"
  shows "(\<Sum>r\<leftarrow>[0..<n]. reduce_with (map (x r) batch) (map (m r) batch) ds per_token)
    = reduce_with (map X batch) (map M batch) ds per_token"
  using assms
proof (induction batch arbitrary: ds)
  case Nil
  then show ?case by (simp add: reduce_with_def)
next
  case (Cons s batch)
  have head: "(\<Sum>r\<leftarrow>[0..<n]. dot (x r s) (m r s)) = dot (X s) (M s)" using Cons.prems by simp
  show ?case
  proof (cases per_token)
    case True
    with Cons.IH [of ds] Cons.prems head show ?thesis
      by (simp add: reduce_with_def sum_list_addf)
  next
    case False
    show ?thesis
    proof (cases ds)
      case Nil
      with False show ?thesis by (simp add: reduce_with_def)
    next
      case (Cons d ds')
      have "(\<Sum>r\<leftarrow>[0..<n]. dot (x r s) (m r s) / max d 1) = dot (X s) (M s) / max d 1"
        by (simp only: divide_inverse sum_list_mult_const head)
      with False Cons Cons.IH [of ds'] Cons.prems show ?thesis
        by (simp add: reduce_with_def sum_list_addf)
    qed
  qed
qed

text \<open>The partial results of any number of ranks.\<close>

lemma local_means_add_up:
  assumes "cp_batch_ok batch" "0 < n"
  shows "\<exists>ms. res_map (\<lambda>r. local_mean (int r) (int n) batch denoms per_token) [0..<n] = Inr ms \<and>
    sum_list ms = reduce_with (map cp_values batch) (map cp_mask batch) (denoms_of batch denoms) per_token"
proof (cases "n = 1")
  case True
  then show ?thesis by (simp add: local_mean_one)
next
  case False
  let ?x = "\<lambda>r s. rank_slice (int r) (int n) (fst s) (fst s - int (length (cp_values s))) (cp_values s)"
  let ?m = "\<lambda>r s. rank_slice (int r) (int n) (fst s) (fst s - int (length (cp_values s))) (cp_mask s)"
  let ?v = "\<lambda>r. reduce_with (map (?x r) batch) (map (?m r) batch) (denoms_of batch denoms) per_token"
  have "res_map (\<lambda>r. local_mean (int r) (int n) batch denoms per_token) [0..<n] = Inr (map ?v [0..<n])"
    using assms False by (intro res_map_Inr_ball ballI local_mean_rank) auto
  moreover have "(\<Sum>r\<leftarrow>[0..<n]. ?v r) = reduce_with (map cp_values batch) (map cp_mask batch) (denoms_of batch denoms) per_token"
  proof (rule reduce_over_ranks)
    fix s assume "s \<in> set batch"
    with assms(1) have "length (cp_mask s) = length (cp_values s)" "int (length (cp_values s)) < fst s"
      by (auto simp: cp_batch_ok_def)
    then show "(\<Sum>r\<leftarrow>[0..<n]. dot (?x r s) (?m r s)) = dot (cp_values s) (cp_mask s)"
      using dot_over_ranks [of "int n" "cp_values s" "cp_mask s" "fst s"] assms(2) False by simp
  qed
  ultimately show ?thesis by simp
qed

text \<open>The loss reducers do not depend on the context-parallel layout: for every choice of denominators
  and for both reducers, the ranks' partial results add up to what a single rank computes on the
  whole responses.\<close>

theorem cp_sample_mean_layout_independent:
  assumes "cp_batch_ok batch" "1 < n"
  shows "\<exists>ms m. res_map (\<lambda>r. local_mean (int r) (int n) batch denoms per_token) [0..<n] = Inr ms \<and>
    local_mean 0 1 batch denoms per_token = Inr m \<and> sum_list ms = m"
  using local_means_add_up [OF assms(1), of n denoms per_token] assms(2) by (simp add: local_mean_one)

theorem cp_sample_mean_layout_independent_witness:
  "\<exists>ms m. res_map (\<lambda>r. local_mean (int r) (int 2) [(5, [1, 2, 4], [1, 0, 1])] None False) [0..<2] = Inr ms \<and>
    local_mean 0 1 [(5, [1, 2, 4], [1, 0, 1])] None False = Inr m \<and> sum_list ms = m"
  using cp_sample_mean_layout_independent [of "[(5, [1, 2, 4], [1, 0, 1])]" 2] by (simp add: cp_batch_ok_def)

end
