(* ===== verification/Values.thy ===== *)
theory Values
  imports Prelude "HOL-Library.Finite_Map"
begin

text \<open>
  Python and torch values shared by the rollout components. Python compares \<open>True\<close>, \<open>1\<close> and \<open>1.0\<close> as
  equal, so numbers of every type are one constructor and equality of values is equality in HOL; a
  dictionary is a finite map, whose equality ignores the insertion order as Python's does. The
  entries of log-probability arrays keep the infinities and NaN, which the validators look for.
  Tensors on disk belong to the straw package: a \<open>TensorRef\<close> is a handle with its published
  header, and what \<open>load()\<close> reads from it is a parameter.
\<close>

section \<open>Values\<close>

datatype fp = Fin real | PInf | NInf | NaN

datatype py_value =
    PyNone
  | PyNum real
  | PyStr string
  | PyList "py_value list"
  | PyDict "(string, py_value) fmap"

type_synonym py_dict = "(string, py_value) fmap"

text \<open>\<open>bool(value)\<close>\<close>

fun truthy :: "py_value \<Rightarrow> bool" where
  "truthy PyNone = False"
| "truthy (PyNum x) = (x \<noteq> 0)"
| "truthy (PyStr s) = (s \<noteq> [])"
| "truthy (PyList vs) = (vs \<noteq> [])"
| "truthy (PyDict d) = (d \<noteq> fmempty)"

abbreviation py_bool :: "bool \<Rightarrow> py_value" where
  "py_bool b \<equiv> PyNum (of_bool b)"

text \<open>A two-dimensional tensor keeps its width when it has no rows.\<close>

datatype 'a matrix = Matrix (mat_width: nat) (mat_rows: "'a list list")

text \<open>\<open>torch.cat\<close> and \<open>numpy.concatenate\<close> of two matrices along their rows.\<close>

definition mat_cat :: "'a matrix \<Rightarrow> 'a matrix \<Rightarrow> 'a matrix result" where
  "mat_cat a b =
     (if mat_width a \<noteq> mat_width b then Inl (RuntimeError ''sizes of tensors must match except in dimension 0'')
      else Inr (Matrix (mat_width a) (mat_rows a @ mat_rows b)))"

definition mat_slice :: "int \<Rightarrow> int \<Rightarrow> 'a matrix \<Rightarrow> 'a matrix" where
  "mat_slice a b m = Matrix (mat_width m) (py_slice a b (mat_rows m))"

text \<open>Routed experts: one row per token, with the expert ids per layer.\<close>

type_synonym expert_row = "int list list"

record expert_tensor =
  et_dims :: "nat \<times> nat"
  et_rows :: "expert_row list"

definition et_cat :: "expert_tensor \<Rightarrow> expert_tensor \<Rightarrow> expert_tensor result" where
  "et_cat a b =
     (if et_dims a \<noteq> et_dims b then Inl (RuntimeError ''sizes of tensors must match except in dimension 0'')
      else Inr \<lparr>et_dims = et_dims a, et_rows = et_rows a @ et_rows b\<rparr>)"

text \<open>Handles of tensors on disk, and a field that holds a tensor or a handle.\<close>

record tensor_ref =
  ref_id :: nat
  ref_shape :: "nat list"
  ref_dtype :: string
  ref_nbytes :: nat
  ref_kind :: string
  ref_validated :: bool

datatype 'a stored = Mem 'a | Ref tensor_ref

record straw =
  load_ints :: "tensor_ref \<Rightarrow> int list"
  load_floats :: "tensor_ref \<Rightarrow> fp list"
  load_int_matrix :: "tensor_ref \<Rightarrow> int matrix"
  load_float_matrix :: "tensor_ref \<Rightarrow> fp matrix"
  load_experts :: "tensor_ref \<Rightarrow> expert_tensor"
  ref_validate :: "tensor_ref \<Rightarrow> unit result"

definition load_stored :: "(tensor_ref \<Rightarrow> 'a) \<Rightarrow> 'a stored \<Rightarrow> 'a" where
  "load_stored load v = (case v of Mem x \<Rightarrow> x | Ref r \<Rightarrow> load r)"

lemma load_stored_simps [simp]: "load_stored load (Mem x) = x" "load_stored load (Ref r) = load r"
  by (simp_all add: load_stored_def)

text \<open>32-bit two's complement, the type of the offset tensors.\<close>

definition wrap32 :: "int \<Rightarrow> int" where
  "wrap32 x = (x + 2 ^ 31) mod 2 ^ 32 - 2 ^ 31"

lemma wrap32_id [simp]: "- (2 ^ 31) \<le> x \<Longrightarrow> x < 2 ^ 31 \<Longrightarrow> wrap32 x = x"
  by (simp add: wrap32_def)

text \<open>The last element, \<open>xs[-1]\<close>.\<close>

definition py_last :: "'a list \<Rightarrow> 'a result" where
  "py_last xs = (if xs = [] then Inl IndexError else Inr (last xs))"

lemma py_last_Inr [simp]: "py_last xs = Inr x \<longleftrightarrow> xs \<noteq> [] \<and> x = last xs"
  by (auto simp: py_last_def)

end
