(* ===== verification/Routing_Replay.thy ===== *)
theory Routing_Replay
  imports Cp_Utils Values
begin

text \<open>
  \<open>vime/backends/megatron_utils/cp_utils.py\<close>, lines 254-547: the routed-expert rows a rank replays,
  read lazily into a buffer from the overlaps of its row range with the samples and with the
  padding. The buffer is allocated uninitialised, so its initial rows are an argument. The
  theorems show that every row is overwritten, with the row that padding and slicing the whole
  batch would put there. The number of experts is positive in every use.
\<close>

section \<open>Padding rows\<close>

definition make_routed_experts_pad :: "nat \<Rightarrow> nat \<times> nat \<Rightarrow> nat \<Rightarrow> nat \<Rightarrow> expert_row list" where
  "make_routed_experts_pad rows = (\<lambda>(num_layers, topk) num_experts row_offset.
     map (\<lambda>j. map (\<lambda>l. map (\<lambda>k.
         int ((j * (num_layers * topk) + l * topk + k + row_offset * (num_layers * topk)) mod num_experts))
       [0..<topk]) [0..<num_layers]) [0..<rows])"

definition fill_routed_experts_pad ::
  "nat \<times> nat \<Rightarrow> nat \<Rightarrow> expert_row list \<Rightarrow> nat \<Rightarrow> nat \<Rightarrow> nat \<Rightarrow> expert_row list" where
  "fill_routed_experts_pad dims num_experts dst dst_start rows row_offset =
     (if rows = 0 then dst else blit dst dst_start (make_routed_experts_pad rows dims num_experts row_offset))"

definition fill_padded_sample_range ::
  "nat \<times> nat \<Rightarrow> nat \<Rightarrow> expert_row list \<Rightarrow> nat \<Rightarrow> expert_row list \<Rightarrow> nat \<Rightarrow> nat \<Rightarrow> expert_row list" where
  "fill_padded_sample_range dims num_experts dst dst_start experts sample_start sample_end =
     (if sample_end \<le> sample_start then dst
      else
        let actual_len = length experts; token_len = actual_len + 1;
            real_start = max sample_start 0; real_end = min sample_end actual_len;
            dst1 = (if real_start < real_end
                    then blit dst (dst_start + real_start - sample_start) (slice real_start real_end experts)
                    else dst);
            tail_start = max sample_start actual_len; tail_end = min sample_end token_len;
            dst2 = (if tail_start < tail_end
                    then fill_routed_experts_pad dims num_experts dst1 (dst_start + tail_start - sample_start)
                           (tail_end - tail_start) (tail_start - actual_len)
                    else dst1);
            cp_pad_start = max sample_start token_len; cp_pad_end = sample_end
        in if cp_pad_start < cp_pad_end
           then fill_routed_experts_pad dims num_experts dst2 (dst_start + cp_pad_start - sample_start)
                  (cp_pad_end - cp_pad_start) (cp_pad_start - token_len)
           else dst2)"

section \<open>The loops over the samples\<close>

text \<open>The loop both range functions run: fill the overlap of \<open>[range_start, range_end)\<close> with each
  segment, and return at once when the segments have passed the end of the range (\<open>True\<close>).\<close>

fun fill_loop :: "('s \<Rightarrow> nat) \<Rightarrow> ('r list \<Rightarrow> nat \<Rightarrow> 's \<Rightarrow> nat \<Rightarrow> nat \<Rightarrow> 'r list) \<Rightarrow> nat \<Rightarrow> nat \<Rightarrow> nat \<Rightarrow>
    'r list \<Rightarrow> 's list \<Rightarrow> 'r list \<times> bool" where
  "fill_loop seg_len fill range_start range_end pos dst [] = (dst, False)"
| "fill_loop seg_len fill range_start range_end pos dst (s # rest) =
     (let overlap_start = max range_start pos; overlap_end = min range_end (pos + seg_len s);
          dst' = (if overlap_start < overlap_end
                  then fill dst (overlap_start - range_start) s (overlap_start - pos) (overlap_end - pos)
                  else dst);
          pos' = pos + seg_len s
      in if range_end \<le> pos' then (dst', True)
         else fill_loop seg_len fill range_start range_end pos' dst' rest)"

text \<open>The rows after the samples, unless the loop has returned.\<close>

definition fill_tail ::
  "nat \<times> nat \<Rightarrow> nat \<Rightarrow> nat \<Rightarrow> nat \<Rightarrow> nat \<Rightarrow> expert_row list \<times> bool \<Rightarrow> expert_row list" where
  "fill_tail dims num_experts range_start range_end total_rows = (\<lambda>(dst, returned).
     let overlap_start = max range_start total_rows; overlap_end = range_end
     in if \<not> returned \<and> overlap_start < overlap_end
        then fill_routed_experts_pad dims num_experts dst (overlap_start - range_start)
               (overlap_end - overlap_start) (overlap_start - total_rows)
        else dst)"

definition fill_routed_experts_allgather_range ::
  "nat \<times> nat \<Rightarrow> nat \<Rightarrow> expert_row list \<Rightarrow> nat \<Rightarrow> nat \<Rightarrow> expert_row list list \<Rightarrow> nat \<Rightarrow> expert_row list" where
  "fill_routed_experts_allgather_range dims num_experts dst range_start range_end experts total_rows =
     fill_tail dims num_experts range_start range_end total_rows
       (fill_loop (\<lambda>e. length e + 1) (fill_padded_sample_range dims num_experts) range_start range_end 0 dst experts)"

type_synonym sample_spec = "expert_row list \<times> nat \<times> (nat \<times> nat) list"

definition fill_chunk ::
  "nat \<times> nat \<Rightarrow> nat \<Rightarrow> expert_row list \<Rightarrow> nat \<Rightarrow> nat \<Rightarrow> nat \<Rightarrow>
   expert_row list \<times> nat \<Rightarrow> nat \<times> nat \<Rightarrow> expert_row list \<times> nat" where
  "fill_chunk dims num_experts experts base rel_start rel_end =
     (\<lambda>(dst, chunk_out_start) (chunk_src_start, chunk_src_end).
       let chunk_len = chunk_src_end - chunk_src_start;
           chunk_overlap_start = max rel_start chunk_out_start;
           chunk_overlap_end = min rel_end (chunk_out_start + chunk_len);
           dst' = (if chunk_overlap_start < chunk_overlap_end
                   then fill_padded_sample_range dims num_experts dst (base + chunk_overlap_start - rel_start) experts
                          (chunk_src_start + chunk_overlap_start - chunk_out_start)
                          (chunk_src_start + chunk_overlap_end - chunk_out_start)
                   else dst)
       in (dst', chunk_out_start + chunk_len))"

definition fill_sample_chunks ::
  "nat \<times> nat \<Rightarrow> nat \<Rightarrow> expert_row list \<Rightarrow> nat \<Rightarrow> sample_spec \<Rightarrow> nat \<Rightarrow> nat \<Rightarrow> expert_row list" where
  "fill_sample_chunks dims num_experts dst base spec rel_start rel_end =
     (case spec of (experts, sample_out_len, cs) \<Rightarrow>
        fst (foldl (fill_chunk dims num_experts experts base rel_start rel_end) (dst, 0) cs))"

definition fill_routed_experts_cp_range ::
  "nat \<times> nat \<Rightarrow> nat \<Rightarrow> expert_row list \<Rightarrow> nat \<Rightarrow> nat \<Rightarrow> sample_spec list \<Rightarrow> nat \<Rightarrow> expert_row list" where
  "fill_routed_experts_cp_range dims num_experts dst range_start range_end specs total_rows =
     fill_tail dims num_experts range_start range_end total_rows
       (fill_loop (\<lambda>(e, n, cs). n) (fill_sample_chunks dims num_experts) range_start range_end 0 dst specs)"

section \<open>Preparing a rank's rows\<close>

record parallel_state =
  mpu_cp_rank :: nat
  mpu_cp_size :: nat
  mpu_tp_rank :: nat
  mpu_tp_size :: nat

definition cp_sample_spec :: "parallel_state \<Rightarrow> expert_row list \<Rightarrow> sample_spec" where
  "cp_sample_spec mpu experts =
     (let token_len = length experts + 1; n = mpu_cp_size mpu; r = mpu_cp_rank mpu;
          cs = (if n = 1 then [(0, token_len)]
                else let c = (token_len + 2 * n - 1) div (2 * n)
                     in [(c * r, c * (r + 1)), (c * (2 * n - r - 1), c * (2 * n - r))])
      in (experts, sum_list (map (\<lambda>(a, b). b - a) cs), cs))"

text \<open>Lines 478-521: the number of rows before padding and the range of rows of this rank.\<close>

definition replay_plan ::
  "parallel_state \<Rightarrow> nat \<Rightarrow> bool \<Rightarrow> bool \<Rightarrow> expert_row list list \<Rightarrow> (nat \<times> nat \<times> nat) result" where
  "replay_plan mpu multiplier sequence_parallel allgather_cp experts =
     (let pad_size = mpu_tp_size mpu * multiplier; n = mpu_cp_size mpu in
      res_bind
        (if allgather_cp then
           let total_rows = sum_list (map (\<lambda>e. length e + 1) experts); global_pad_size = n * pad_size
           in if global_pad_size = 0 \<or> n = 0 then Inl ZeroDivisionError
              else let final_rows = total_rows + (global_pad_size - total_rows mod global_pad_size) mod global_pad_size;
                       c = final_rows div n
                   in Inr (total_rows, mpu_cp_rank mpu * c, mpu_cp_rank mpu * c + c)
         else if n = 0 \<and> experts \<noteq> [] then Inl ZeroDivisionError
         else let total_rows = sum_list (map (\<lambda>e. fst (snd (cp_sample_spec mpu e))) experts)
              in if pad_size = 0 then Inl ZeroDivisionError
                 else Inr (total_rows, 0, total_rows + (pad_size - total_rows mod pad_size) mod pad_size))
        (\<lambda>(total_rows, range_start, range_end).
           if sequence_parallel then
             if mpu_tp_size mpu = 0 then Inl ZeroDivisionError
             else let seqlen = range_end - range_start in
               if seqlen mod mpu_tp_size mpu \<noteq> 0 then Inl (AssertionError ''seqlen % tp_size == 0'')
               else let t = seqlen div mpu_tp_size mpu; s = range_start + t * mpu_tp_rank mpu
                    in Inr (total_rows, s, s + t)
           else Inr (total_rows, range_start, range_end)))"

definition prepare_routed_experts_for_routing_replay ::
  "(nat \<Rightarrow> expert_row list) \<Rightarrow> parallel_state \<Rightarrow> expert_tensor list \<Rightarrow> nat list \<Rightarrow> nat \<Rightarrow> nat \<Rightarrow> bool \<Rightarrow> bool \<Rightarrow>
   expert_row list result" where
  "prepare_routed_experts_for_routing_replay uninit mpu experts token_lens num_experts multiplier
     sequence_parallel allgather_cp =
     (if length experts \<noteq> length token_lens then Inl (AssertionError ''len(rollout_routed_experts) == len(tokens)'')
      else case experts of [] \<Rightarrow> Inl (AssertionError ''len(rollout_routed_experts) > 0'')
      | e0 # _ \<Rightarrow>
        if \<not> list_all2 (\<lambda>e n. length (et_rows e) + 1 = n \<and> et_dims e = et_dims e0) experts token_lens
        then Inl (AssertionError ''experts.shape'')
        else let rows = map et_rows experts; dims = et_dims e0 in
          res_bind (replay_plan mpu multiplier sequence_parallel allgather_cp rows)
            (\<lambda>(total_rows, range_start, range_end).
               let buffer = uninit (range_end - range_start)
               in Inr (if allgather_cp
                       then fill_routed_experts_allgather_range dims num_experts buffer range_start range_end rows total_rows
                       else fill_routed_experts_cp_range dims num_experts buffer range_start range_end
                              (map (cp_sample_spec mpu) rows) total_rows)))"

section \<open>Windows\<close>

lemma window_arith:
  "rs \<le> M \<Longrightarrow> p \<le> M \<Longrightarrow> M < N \<Longrightarrow> N \<le> re \<Longrightarrow> base + (re - rs) \<le> L \<Longrightarrow> base + (M - rs) + (N - p - (M - p)) \<le> (L :: nat)"
  by linarith

text \<open>One step of a fill loop: the window \<open>[rs, re)\<close> of the rows so far, extended by a segment.\<close>

lemma blit_window_step:
  assumes "base + (re - rs) \<le> length dst0" and p: "p = length C"
  shows "(if max rs p < min re (p + length X)
      then blit (blit dst0 base (slice rs re C)) (base + (max rs p - rs)) (slice (max rs p - p) (min re (p + length X) - p) X)
      else blit dst0 base (slice rs re C))
    = blit dst0 base (slice rs re (C @ X))"
proof (cases "max rs p < min re (p + length X)")
  case True
  then have "max rs p < re" by simp
  then have len: "length (slice rs re C) = max rs p - rs" using p by (auto simp: min_def max_def split: if_splits)
  have X: "slice (max rs p - p) (min re (p + length X) - p) X = slice (max rs p - p) (re - p) X"
  proof -
    have "min re (p + length X) - p = min (re - p) (length X)" by linarith
    then show ?thesis using slice_min [of "max rs p - p" "re - p" X] by (simp only:)
  qed
  have app: "slice rs re (C @ X) = slice rs re C @ slice (max rs p - p) (re - p) X"
    using slice_append [of rs re C X] True p by simp
  have "length (slice rs re C) + length (slice (max rs p - p) (re - p) X) \<le> re - rs"
  proof -
    have "length (slice rs re (C @ X)) \<le> re - rs" by simp
    then show ?thesis by (simp only: app length_append)
  qed
  with assms(1) have "base + length (slice rs re C) + length (slice (max rs p - p) (re - p) X) \<le> length dst0" by linarith
  from blit_chain [OF this] True show ?thesis by (simp only: len app X if_True)
next
  case False
  have "slice rs re (C @ X) = slice rs re C"
  proof (cases "rs < re")
    case True
    with False have "slice (max rs p - p) (re - p) X = []"
      by (cases "re \<le> p") (auto simp: slice_def max_def min_def split: if_splits)
    with slice_append [of rs re C X] True p show ?thesis by simp
  qed simp
  with False show ?thesis by (simp only: if_False)
qed

section \<open>Segments\<close>

text \<open>The contract the loops rely on: a segment has a content of the announced length, and filling a
  part of it blits that part of its content.\<close>

locale segment_filler =
  fixes seg_len :: "'s \<Rightarrow> nat"
    and content :: "'s \<Rightarrow> 'r list"
    and fill :: "'r list \<Rightarrow> nat \<Rightarrow> 's \<Rightarrow> nat \<Rightarrow> nat \<Rightarrow> 'r list"
    and ok :: "'s \<Rightarrow> bool"
  assumes content_length: "ok s \<Longrightarrow> length (content s) = seg_len s"
    and fill_blit: "ok s \<Longrightarrow> a < b \<Longrightarrow> b \<le> seg_len s \<Longrightarrow> d + (b - a) \<le> length dst \<Longrightarrow>
      fill dst d s a b = blit dst d (slice a b (content s))"
begin

lemma fill_overlap:
  assumes "ok s" "base + (re - rs) \<le> length dst0" "p = length C" "dst = blit dst0 base (slice rs re C)"
  shows "(if max rs p < min re (p + seg_len s)
      then fill dst (base + (max rs p - rs)) s (max rs p - p) (min re (p + seg_len s) - p) else dst)
    = blit dst0 base (slice rs re (C @ content s))"
proof -
  have "length dst = length dst0" using assms(2,4) by (simp add: min_def)
  have "fill dst (base + (max rs p - rs)) s (max rs p - p) (min re (p + seg_len s) - p)
      = blit dst (base + (max rs p - rs)) (slice (max rs p - p) (min re (p + seg_len s) - p) (content s))"
    if "max rs p < min re (p + seg_len s)"
  proof (rule fill_blit [OF assms(1)])
    show "max rs p - p < min re (p + seg_len s) - p" "min re (p + seg_len s) - p \<le> seg_len s" using that by linarith+
    show "base + (max rs p - rs) + (min re (p + seg_len s) - p - (max rs p - p)) \<le> length dst"
      using that assms(2) \<open>length dst = length dst0\<close> by (intro window_arith [of rs _ p _ re]) (simp_all only: max.cobounded1 max.cobounded2 min.cobounded1)
  qed
  then have "(if max rs p < min re (p + seg_len s)
      then fill dst (base + (max rs p - rs)) s (max rs p - p) (min re (p + seg_len s) - p) else dst)
    = (if max rs p < min re (p + seg_len s)
      then blit dst (base + (max rs p - rs)) (slice (max rs p - p) (min re (p + seg_len s) - p) (content s)) else dst)"
    by (rule if_cong [OF refl]) simp_all
  also have "\<dots> = blit dst0 base (slice rs re (C @ content s))"
    using blit_window_step [OF assms(2,3), of "content s"] by (simp only: content_length [OF assms(1)] assms(4))
  finally show ?thesis .
qed

lemma fill_loop_blit:
  assumes "\<forall>s \<in> set segs. ok s" "length dst0 = re - rs" "p = length C" "dst = blit dst0 0 (slice rs re C)"
    and "fill_loop seg_len fill rs re p dst segs = (out, returned)"
  shows "out = blit dst0 0 (slice rs re (C @ concat (map content segs)))
    \<and> (returned \<longrightarrow> re \<le> length C + length (concat (map content segs)))"
  using assms
proof (induction segs arbitrary: p C dst)
  case (Cons s segs)
  define dst' where "dst' = (if max rs p < min re (p + seg_len s)
      then fill dst (0 + (max rs p - rs)) s (max rs p - p) (min re (p + seg_len s) - p) else dst)"
  have s: "ok s" using Cons.prems(1) by simp
  have le: "0 + (re - rs) \<le> length dst0" using Cons.prems(2) by simp
  have dst': "dst' = blit dst0 0 (slice rs re (C @ content s))"
    unfolding dst'_def by (rule fill_overlap [OF s le Cons.prems(3,4)])
  have loop: "fill_loop seg_len fill rs re p dst (s # segs) =
      (if re \<le> p + seg_len s then (dst', True) else fill_loop seg_len fill rs re (p + seg_len s) dst' segs)"
    by (simp add: dst'_def Let_def)
  have p': "p + seg_len s = length (C @ content s)" using Cons.prems(3) content_length [OF s] by simp
  show ?case
  proof (cases "re \<le> p + seg_len s")
    case True
    have "slice rs re (C @ content s) = slice rs re (C @ concat (map content (s # segs)))"
    proof (cases "rs < re")
      case True
      then show ?thesis
        using slice_append [of rs re "C @ content s" "concat (map content segs)"] \<open>re \<le> p + seg_len s\<close> p'
        by (simp add: slice_def [of _ 0])
    qed simp
    with True loop Cons.prems(5) dst' p' show ?thesis by auto
  next
    case False
    with loop Cons.prems(5) have "fill_loop seg_len fill rs re (p + seg_len s) dst' segs = (out, returned)" by simp
    from Cons.IH [OF _ Cons.prems(2) p' dst' this] Cons.prems(1) show ?thesis by (simp add: add.assoc)
  qed
qed simp

end

section \<open>The contents of the segments\<close>

definition pad_row :: "nat \<times> nat \<Rightarrow> nat \<Rightarrow> nat \<Rightarrow> expert_row" where
  "pad_row = (\<lambda>(num_layers, topk) num_experts j.
     map (\<lambda>l. map (\<lambda>k. int ((j * (num_layers * topk) + l * topk + k) mod num_experts)) [0..<topk]) [0..<num_layers])"

text \<open>Row \<open>i\<close> of a sample after the row added before slicing and any number of padding rows.\<close>

definition padded_row :: "nat \<times> nat \<Rightarrow> nat \<Rightarrow> expert_row list \<Rightarrow> nat \<Rightarrow> expert_row" where
  "padded_row dims num_experts experts i =
     (if i < length experts then experts ! i
      else if i = length experts then pad_row dims num_experts 0
      else pad_row dims num_experts (i - (length experts + 1)))"

lemma make_pad_rows: "make_routed_experts_pad n dims E off = map (\<lambda>j. pad_row dims E (off + j)) [0..<n]"
  by (cases dims) (simp add: make_routed_experts_pad_def pad_row_def algebra_simps)

lemma make_pad_upt: "make_routed_experts_pad (b - a) dims E (a - c) = map (\<lambda>i. pad_row dims E (i - c)) [a..<b]" if "c \<le> a"
  using that unfolding make_pad_rows by (intro nth_equalityI) auto

lemma fill_pad_blit: "fill_routed_experts_pad dims E dst d n off = blit dst d (make_routed_experts_pad n dims E off)"
  by (simp add: fill_routed_experts_pad_def make_pad_rows)

text \<open>Filling a part of a padded sample blits its rows: the three branches write adjacent runs of rows.\<close>

lemma blit_upt_chain:
  "a \<le> b \<Longrightarrow> b \<le> c \<Longrightarrow> d + (c - a) \<le> length dst \<Longrightarrow>
   blit (blit dst d (map f [a..<b])) (d + b - a) (map f [b..<c]) = blit dst d (map f [a..<c])"
  using blit_chain [of d "map f [a..<b]" "map f [b..<c]" dst] upt_add_eq_append [of a b "c - b"]
  by (simp flip: map_append)

lemma fill_padded_sample_range_blit:
  assumes "s < e" "d + (e - s) \<le> length dst"
  shows "fill_padded_sample_range dims E dst d experts s e = blit dst d (map (padded_row dims E experts) [s..<e])"
proof -
  let ?n = "length experts" and ?f = "padded_row dims E experts"
  define b1 where "b1 = max s (min e ?n)"
  define b2 where "b2 = max b1 (min e (?n + 1))"
  have b: "s \<le> b1" "b1 \<le> b2" "b2 \<le> e" using assms(1) by (auto simp: b1_def b2_def)
  have 1: "(if max s 0 < min e ?n then blit dst (d + max s 0 - s) (slice (max s 0) (min e ?n) experts) else dst)
      = blit dst d (map ?f [s..<b1])"
  proof (cases "s < min e ?n")
    case True
    then have "b1 = min e ?n" by (simp add: b1_def)
    then have "slice s (min e ?n) experts = map ?f [s..<b1]"
      by (simp add: slice_upt padded_row_def)
    with True show ?thesis by simp
  next
    case False
    then have "b1 = s" by (auto simp: b1_def)
    with False show ?thesis by (simp only: max_0R upt_conv_Nil list.map blit_Nil if_False order_refl)
  qed
  have 2: "(if max s ?n < min e (?n + 1)
      then fill_routed_experts_pad dims E dst1 (d + max s ?n - s) (min e (?n + 1) - max s ?n) (max s ?n - ?n) else dst1)
      = blit dst1 (d + b1 - s) (map ?f [b1..<b2])" for dst1
  proof (cases "max s ?n < min e (?n + 1)")
    case True
    then have "b1 = ?n" "b2 = ?n + 1" "max s ?n = ?n" "min e (?n + 1) = ?n + 1" by (auto simp: b1_def b2_def)
    with True show ?thesis by (simp add: fill_pad_blit padded_row_def make_pad_rows)
  next
    case False
    then have "b2 = b1" by (auto simp: b1_def b2_def)
    with False show ?thesis by (simp only: upt_conv_Nil list.map blit_Nil if_False order_refl)
  qed
  have 3: "(if max s (?n + 1) < e
      then fill_routed_experts_pad dims E dst2 (d + max s (?n + 1) - s) (e - max s (?n + 1)) (max s (?n + 1) - (?n + 1)) else dst2)
      = blit dst2 (d + b2 - s) (map ?f [b2..<e])" for dst2
  proof (cases "max s (?n + 1) < e")
    case True
    then have b2: "b2 = max s (?n + 1)" by (auto simp: b1_def b2_def)
    have "make_routed_experts_pad (e - b2) dims E (b2 - (?n + 1)) = map ?f [b2..<e]"
      using b2 by (subst make_pad_upt) (auto simp: padded_row_def)
    with True b2 show ?thesis by (simp add: fill_pad_blit)
  next
    case False
    then have "b2 = e" using assms(1) by (auto simp: b1_def b2_def)
    with False show ?thesis by (simp only: upt_conv_Nil list.map blit_Nil if_False order_refl)
  qed
  have "fill_padded_sample_range dims E dst d experts s e =
      blit (blit (blit dst d (map ?f [s..<b1])) (d + b1 - s) (map ?f [b1..<b2])) (d + b2 - s) (map ?f [b2..<e])"
  proof -
    have "\<not> e \<le> s" using assms(1) by simp
    then show ?thesis unfolding fill_padded_sample_range_def Let_def by (simp only: 1 2 3 if_False)
  qed
  also have "\<dots> = blit dst d (map ?f [s..<e])"
    using b assms(2) by (simp only: blit_upt_chain)
  finally show ?thesis .
qed

text \<open>The two kinds of segments of the code: a sample with its tail row, and a part of a sample's chunk.\<close>

abbreviation sample_rows :: "nat \<times> nat \<Rightarrow> nat \<Rightarrow> expert_row list \<Rightarrow> expert_row list" where
  "sample_rows dims E experts \<equiv> map (padded_row dims E experts) [0..<length experts + 1]"

interpretation whole_sample: segment_filler "\<lambda>e. length e + 1" "sample_rows dims E"
  "fill_padded_sample_range dims E" "\<lambda>_. True" for dims E
  by unfold_locales (simp_all add: fill_padded_sample_range_blit slice_map_upt del: upt_Suc)

interpretation sample_chunk: segment_filler "\<lambda>(a, b). b - a" "\<lambda>(a, b). map (padded_row dims E experts) [a..<b]"
  "\<lambda>dst d (a, b) s e. fill_padded_sample_range dims E dst d experts (a + s) (a + e)" "\<lambda>_. True" for dims E experts
  by unfold_locales (auto simp: fill_padded_sample_range_blit slice_map_upt)

abbreviation chunk_rows :: "nat \<times> nat \<Rightarrow> nat \<Rightarrow> expert_row list \<Rightarrow> (nat \<times> nat) list \<Rightarrow> expert_row list" where
  "chunk_rows dims E experts cs \<equiv> concat (map (\<lambda>(a, b). map (padded_row dims E experts) [a..<b]) cs)"

lemma fill_chunk_overlap:
  assumes "base + (re - rs) \<le> length dst0" "dst = blit dst0 base (slice rs re C)"
  shows "fill_chunk dims E experts base rs re (dst, length C) (a, b)
    = (blit dst0 base (slice rs re (C @ map (padded_row dims E experts) [a..<b])),
       length (C @ map (padded_row dims E experts) [a..<b]))"
proof -
  let ?p = "length C"
  have "a + max rs ?p - ?p = a + (max rs ?p - ?p)" "base + max rs ?p - rs = base + (max rs ?p - rs)"
    by (simp_all only: max.cobounded1 max.cobounded2 Nat.add_diff_assoc)
  moreover have "a + min re (?p + (b - a)) - ?p = a + (min re (?p + (b - a)) - ?p)"
    if "max rs ?p < min re (?p + (b - a))"
    using that by linarith
  moreover note sample_chunk.fill_overlap [where s = "(a, b)" and dims = dims and E = E and experts = experts,
      OF TrueI assms(1) refl assms(2)]
  ultimately show ?thesis unfolding fill_chunk_def Let_def prod.case by (auto split: if_splits)
qed

lemma fill_chunks_blit:
  assumes "base + (re - rs) \<le> length dst0" "dst = blit dst0 base (slice rs re C)"
  shows "foldl (fill_chunk dims E experts base rs re) (dst, length C) cs
    = (blit dst0 base (slice rs re (C @ chunk_rows dims E experts cs)), length (C @ chunk_rows dims E experts cs))"
  using assms(2)
proof (induction cs arbitrary: C dst)
  case (Cons c cs)
  obtain a b where c: "c = (a, b)" by fastforce
  from Cons.IH [OF refl, of "C @ map (padded_row dims E experts) [a..<b]"]
  show ?case unfolding c foldl.simps fill_chunk_overlap [OF assms(1) Cons.prems] by simp
qed simp

interpretation cp_sample: segment_filler "\<lambda>(e, n, cs). n" "\<lambda>(e, n, cs). chunk_rows dims E e cs"
  "fill_sample_chunks dims E" "\<lambda>(e, n, cs). length (chunk_rows dims E e cs) = n" for dims E
proof unfold_locales
  fix s :: sample_spec and a b d :: nat and dst :: "expert_row list"
  obtain e n cs where s: "s = (e, n, cs)" by (cases s) auto
  assume "d + (b - a) \<le> length dst"
  from fill_chunks_blit [OF this, of dst "[]" dims E e cs]
  show "fill_sample_chunks dims E dst d s a b = blit dst d (slice a b (case s of (e, n, cs) \<Rightarrow> chunk_rows dims E e cs))"
    by (simp add: s fill_sample_chunks_def)
qed auto

text \<open>The rows after the samples.\<close>

lemma fill_tail_blit:
  assumes "out = blit dst0 0 (slice rs re C)" "returned \<longrightarrow> re \<le> length C" "length dst0 = re - rs"
    and pad: "C' = map (pad_row dims E) [0..<k]" "re \<le> length C + k"
  shows "fill_tail dims E rs re (length C) (out, returned) = slice rs re (C @ C')"
proof -
  let ?p = "length C"
  have step: "blit dst0 0 (slice rs re (C @ C')) = (if max rs ?p < min re (?p + length C')
      then blit (blit dst0 0 (slice rs re C)) (0 + (max rs ?p - rs)) (slice (max rs ?p - ?p) (min re (?p + length C') - ?p) C')
      else blit dst0 0 (slice rs re C))"
    by (rule sym, rule blit_window_step) (simp_all add: assms(3))
  have re: "min re (?p + length C') = re" using pad by simp
  have C': "slice (max rs ?p - ?p) (re - ?p) C' = make_routed_experts_pad (re - max rs ?p) dims E (max rs ?p - ?p)"
    using pad unfolding make_pad_rows pad(1)
    by (subst slice_map_upt) (auto intro!: nth_equalityI)
  have "fill_tail dims E rs re ?p (out, returned) = blit dst0 0 (slice rs re (C @ C'))"
    using assms(2) unfolding step re C' fill_tail_def Let_def prod.case fill_pad_blit assms(1) by auto
  also have "\<dots> = slice rs re (C @ C')" using assms(3) pad by (intro blit_all) simp
  finally show ?thesis .
qed

section \<open>The rows a rank replays\<close>

text \<open>The reference: pad every sample by one row, slice it for the rank (or not), join the samples, pad the
  result to the required multiple.\<close>

definition pad_rows :: "nat \<times> nat \<Rightarrow> nat \<Rightarrow> expert_row list \<Rightarrow> nat \<Rightarrow> expert_row list" where
  "pad_rows dims E tokens pad = tokens @ map (pad_row dims E) [0..<pad]"

definition pad_to_multiple :: "nat \<times> nat \<Rightarrow> nat \<Rightarrow> nat \<Rightarrow> expert_row list \<Rightarrow> expert_row list" where
  "pad_to_multiple dims E m rows = pad_rows dims E rows ((m - length rows mod m) mod m)"

definition replay_layout ::
  "parallel_state \<Rightarrow> nat \<times> nat \<Rightarrow> nat \<Rightarrow> nat \<Rightarrow> bool \<Rightarrow> expert_row list list \<Rightarrow> expert_row list" where
  "replay_layout mpu dims E multiplier allgather_cp rows =
     (let samples = map (\<lambda>e. pad_rows dims E e 1) rows; pad_size = mpu_tp_size mpu * multiplier
      in if allgather_cp then pad_to_multiple dims E (mpu_cp_size mpu * pad_size) (concat samples)
         else pad_to_multiple dims E pad_size
                (concat (map (\<lambda>e. projr (slice_with_cp (mpu_cp_rank mpu) (mpu_cp_size mpu) (pad_rows dims E) e)) samples)))"

lemma sample_rows_eq: "sample_rows dims E e = pad_rows dims E e 1"
  by (intro nth_equalityI) (auto simp: pad_rows_def padded_row_def nth_append)

lemma chunk_rows_slice:
  assumes "mpu_cp_rank mpu < mpu_cp_size mpu" "cp_sample_spec mpu e = (e', n, cs)"
  shows "e' = e" and "length (chunk_rows dims E e cs) = n"
    and "chunk_rows dims E e cs =
      projr (slice_with_cp (mpu_cp_rank mpu) (mpu_cp_size mpu) (pad_rows dims E) (pad_rows dims E e 1))"
proof -
  let ?n = "mpu_cp_size mpu" and ?r = "mpu_cp_rank mpu"
  show "e' = e" using assms(2) by (simp add: cp_sample_spec_def Let_def)
  have spec: "n = sum_list (map (\<lambda>(a, b). b - a) cs)"
    "cs = (if ?n = 1 then [(0, length e + 1)]
       else let c = (length e + 1 + 2 * ?n - 1) div (2 * ?n)
            in [(c * ?r, c * (?r + 1)), (c * (2 * ?n - ?r - 1), c * (2 * ?n - ?r))])"
    using assms(2) by (auto simp: cp_sample_spec_def Let_def)
  have "length (chunk_rows dims E e ds) = sum_list (map (\<lambda>(a, b). b - a) ds)" for ds
    by (induction ds) auto
  then show "length (chunk_rows dims E e cs) = n" by (simp only: spec(1))
  show "chunk_rows dims E e cs = projr (slice_with_cp ?r ?n (pad_rows dims E) (pad_rows dims E e 1))"
  proof (cases "?n = 1")
    case True
    then show ?thesis using sample_rows_eq [of dims E e] by (simp add: spec(2) slice_with_cp_def)
  next
    case False
    define c where "c = (length e + 1 + 2 * ?n - 1) div (2 * ?n)"
    let ?t = "pad_rows dims E e 1" and ?p = "2 * ?n * c - (length e + 1)"
    have len: "length ?t = length e + 1" by (simp add: pad_rows_def)
    have cover: "length e + 1 \<le> 2 * ?n * c"
    proof -
      have "2 * ?n * c + (length e + 1 + 2 * ?n - 1) mod (2 * ?n) = length e + 1 + 2 * ?n - 1"
        unfolding c_def by (rule mult_div_mod_eq)
      moreover have "(length e + 1 + 2 * ?n - 1) mod (2 * ?n) < 2 * ?n" using assms(1) by simp
      ultimately show ?thesis by linarith
    qed
    have rows: "slice a b (pad_rows dims E ?t ?p) = map (padded_row dims E e) [a..<b]" if "b \<le> 2 * ?n * c" for a b
    proof -
      have "pad_rows dims E ?t ?p = map (padded_row dims E e) [0..<2 * ?n * c]"
        using cover by (intro nth_equalityI) (auto simp: pad_rows_def padded_row_def nth_append)
      with that show ?thesis by (simp add: slice_map_upt)
    qed
    have r: "?r + 1 \<le> 2 * ?n" "2 * ?n - ?r \<le> 2 * ?n" using assms(1) by auto
    have "c * (?r + 1) \<le> 2 * ?n * c" "c * (2 * ?n - ?r) \<le> 2 * ?n * c"
      using mult_le_mono2 [OF r(1), of c] mult_le_mono2 [OF r(2), of c] by (simp_all only: mult.commute)
    note slices = this [THEN rows]
    have "slice_with_cp ?r ?n (pad_rows dims E) ?t = Inr
        (slice (c * ?r) (c * (?r + 1)) (pad_rows dims E ?t ?p)
         @ slice (c * (2 * ?n - ?r - 1)) (c * (2 * ?n - ?r)) (pad_rows dims E ?t ?p))"
      using False assms(1) unfolding slice_with_cp_def len c_def [symmetric] Let_def by simp
    moreover have "cs = [(c * ?r, c * (?r + 1)), (c * (2 * ?n - ?r - 1), c * (2 * ?n - ?r))]"
      using False unfolding spec(2) c_def [symmetric] Let_def by simp
    ultimately show ?thesis by (simp only: slices sum.sel list.map concat.simps prod.case append_Nil2)
  qed
qed

lemma replay_plan_cases:
  assumes "replay_plan mpu multiplier sp ag rows = Inr (tot, rs, re)" "mpu_cp_rank mpu < mpu_cp_size mpu"
    "mpu_tp_rank mpu < mpu_tp_size mpu"
    and that: "m = (if ag then mpu_cp_size mpu * (mpu_tp_size mpu * multiplier) else mpu_tp_size mpu * multiplier)"
  shows "tot = (if ag then sum_list (map (\<lambda>e. length e + 1) rows)
      else sum_list (map (\<lambda>e. fst (snd (cp_sample_spec mpu e))) rows))"
    and "rs \<le> re" and "re \<le> tot + (m - tot mod m) mod m"
proof -
  define rs0 where "rs0 = (if ag then mpu_cp_rank mpu * ((tot + (m - tot mod m) mod m) div mpu_cp_size mpu) else 0)"
  define re0 where "re0 = (if ag then rs0 + (tot + (m - tot mod m) mod m) div mpu_cp_size mpu else tot + (m - tot mod m) mod m)"
  let ?t = "(re0 - rs0) div mpu_tp_size mpu"
  show tot: "tot = (if ag then sum_list (map (\<lambda>e. length e + 1) rows)
      else sum_list (map (\<lambda>e. fst (snd (cp_sample_spec mpu e))) rows))"
    using assms(1) by (auto simp: replay_plan_def Let_def res_simps split: if_splits)
  have range: "(rs, re) = (if sp then (rs0 + ?t * mpu_tp_rank mpu, rs0 + ?t * mpu_tp_rank mpu + ?t) else (rs0, re0))"
    using assms(1) tot that unfolding rs0_def re0_def
    by (auto simp: replay_plan_def Let_def res_simps split: if_splits)
  have "re0 \<le> tot + (m - tot mod m) mod m"
  proof (cases ag)
    case True
    let ?f = "tot + (m - tot mod m) mod m"
    have "(mpu_cp_rank mpu + 1) * (?f div mpu_cp_size mpu) \<le> mpu_cp_size mpu * (?f div mpu_cp_size mpu)"
      using assms(2) by (intro mult_le_mono1) simp
    also have "\<dots> \<le> ?f" by simp
    finally show ?thesis using True by (simp add: re0_def rs0_def)
  qed (simp add: re0_def)
  moreover have "rs0 \<le> re0" by (simp add: rs0_def re0_def)
  moreover have "?t * mpu_tp_rank mpu + ?t \<le> re0 - rs0"
  proof -
    have "?t * (mpu_tp_rank mpu + 1) \<le> ?t * mpu_tp_size mpu" using assms(3) by (intro mult_le_mono2) simp
    also have "\<dots> \<le> re0 - rs0" by simp
    finally show ?thesis by simp
  qed
  ultimately show "rs \<le> re" "re \<le> tot + (m - tot mod m) mod m" using range by (auto split: if_splits)
qed

lemma range_fill_eq:
  assumes "length dst = re - rs" "rs \<le> re" "re \<le> length C + k"
    and loop: "fill_loop seg_len fill rs re 0 dst segs = (out, returned)"
    and out: "out = blit dst 0 (slice rs re C)" "returned \<longrightarrow> re \<le> length C"
  shows "fill_tail dims E rs re (length C) (fill_loop seg_len fill rs re 0 dst segs) = slice rs re (pad_rows dims E C k)"
  unfolding loop pad_rows_def by (rule fill_tail_blit [OF out assms(1) refl assms(3)])

lemma allgather_range_eq:
  assumes "length dst = re - rs" "rs \<le> re" "C = concat (map (\<lambda>e. pad_rows dims E e 1) rows)" "re \<le> length C + k"
  shows "fill_routed_experts_allgather_range dims E dst rs re rows (length C) = slice rs re (pad_rows dims E C k)"
proof -
  obtain out returned where loop: "fill_loop (\<lambda>e. length e + 1) (fill_padded_sample_range dims E) rs re 0 dst rows = (out, returned)"
    by fastforce
  have "out = blit dst 0 (slice rs re C)" "returned \<longrightarrow> re \<le> length C"
    using whole_sample.fill_loop_blit [where C = "[]" and p = 0, OF _ assms(1) _ _ loop]
    by (simp_all add: sample_rows_eq [simplified] assms(3))
  from range_fill_eq [OF assms(1,2,4) loop this] show ?thesis
    by (simp only: fill_routed_experts_allgather_range_def)
qed

lemma cp_range_eq:
  assumes "length dst = re - rs" "rs \<le> re" "mpu_cp_rank mpu < mpu_cp_size mpu"
    and C: "C = concat (map (\<lambda>e. projr (slice_with_cp (mpu_cp_rank mpu) (mpu_cp_size mpu) (pad_rows dims E) (pad_rows dims E e 1))) rows)"
    and "re \<le> length C + k"
  shows "fill_routed_experts_cp_range dims E dst rs re (map (cp_sample_spec mpu) rows) (length C) = slice rs re (pad_rows dims E C k)"
proof -
  let ?specs = "map (cp_sample_spec mpu) rows" and ?c = "\<lambda>(e, n, cs). chunk_rows dims E e cs"
  obtain out returned where loop: "fill_loop (\<lambda>(e, n, cs). n) (fill_sample_chunks dims E) rs re 0 dst ?specs = (out, returned)"
    by fastforce
  have ok: "\<forall>s \<in> set ?specs. case s of (e, n, cs) \<Rightarrow> length (chunk_rows dims E e cs) = n"
  proof
    fix s assume "s \<in> set ?specs"
    then obtain e where e: "s = cp_sample_spec mpu e" by auto
    obtain e' n cs where s: "cp_sample_spec mpu e = (e', n, cs)" by (cases "cp_sample_spec mpu e") auto
    from chunk_rows_slice(1,2) [OF assms(3) s] show "case s of (e, n, cs) \<Rightarrow> length (chunk_rows dims E e cs) = n"
      by (simp add: e s)
  qed
  have "?c (cp_sample_spec mpu e) = projr (slice_with_cp (mpu_cp_rank mpu) (mpu_cp_size mpu) (pad_rows dims E) (pad_rows dims E e 1))" for e
  proof -
    obtain e' n cs where s: "cp_sample_spec mpu e = (e', n, cs)" by (cases "cp_sample_spec mpu e") auto
    from chunk_rows_slice(1,3) [OF assms(3) s] show ?thesis by (simp add: s)
  qed
  then have content: "concat (map ?c ?specs) = C" by (simp only: C map_map comp_def)
  have "out = blit dst 0 (slice rs re C)" "returned \<longrightarrow> re \<le> length C"
    using cp_sample.fill_loop_blit [where C = "[]" and p = 0, OF ok assms(1) _ _ loop] content by simp_all
  from range_fill_eq [OF assms(1,2,5) loop this] show ?thesis
    by (simp only: fill_routed_experts_cp_range_def)
qed

lemma layout_samples_length:
  assumes "mpu_cp_rank mpu < mpu_cp_size mpu"
  shows "length (concat (map (\<lambda>e. pad_rows dims E e 1) rows)) = sum_list (map (\<lambda>e. length e + 1) rows)"
    and "length (concat (map (\<lambda>e. projr (slice_with_cp (mpu_cp_rank mpu) (mpu_cp_size mpu) (pad_rows dims E)
        (pad_rows dims E e 1))) rows)) = sum_list (map (\<lambda>e. fst (snd (cp_sample_spec mpu e))) rows)"
proof -
  show "length (concat (map (\<lambda>e. pad_rows dims E e 1) rows)) = sum_list (map (\<lambda>e. length e + 1) rows)"
    by (induction rows) (auto simp: pad_rows_def)
  have "length (projr (slice_with_cp (mpu_cp_rank mpu) (mpu_cp_size mpu) (pad_rows dims E) (pad_rows dims E e 1)))
      = fst (snd (cp_sample_spec mpu e))" for e
  proof -
    obtain e' n cs where s: "cp_sample_spec mpu e = (e', n, cs)" by (cases "cp_sample_spec mpu e") auto
    from chunk_rows_slice(2,3) [OF assms s, of dims E] show ?thesis by (simp add: s)
  qed
  then show "length (concat (map (\<lambda>e. projr (slice_with_cp (mpu_cp_rank mpu) (mpu_cp_size mpu) (pad_rows dims E)
        (pad_rows dims E e 1))) rows)) = sum_list (map (\<lambda>e. fst (snd (cp_sample_spec mpu e))) rows)"
    by (simp only: length_concat map_map comp_def)
qed

text \<open>C9: a rank's lazily filled buffer holds exactly the rows of its range in the padded and sliced batch,
  whatever the buffer held before: every row is written, and with the row it should hold, for both
  context-parallel layouts and with or without sequence parallelism.\<close>

theorem routing_replay_rows_correct:
  assumes plan: "replay_plan mpu multiplier sp ag (map et_rows experts) = Inr (tot, rs, re)"
    and ranks: "mpu_cp_rank mpu < mpu_cp_size mpu" "mpu_tp_rank mpu < mpu_tp_size mpu"
    and "experts \<noteq> []" "\<forall>e \<in> set experts. et_dims e = dims"
    and uninit: "\<And>n. length (uninit n) = n"
  shows "prepare_routed_experts_for_routing_replay uninit mpu experts
      (map (\<lambda>e. length (et_rows e) + 1) experts) E multiplier sp ag
    = Inr (slice rs re (replay_layout mpu dims E multiplier ag (map et_rows experts)))"
proof -
  let ?rows = "map et_rows experts"
  define m where "m = (if ag then mpu_cp_size mpu * (mpu_tp_size mpu * multiplier) else mpu_tp_size mpu * multiplier)"
  note range = replay_plan_cases [OF plan ranks m_def]
  let ?k = "(m - tot mod m) mod m" and ?dst = "uninit (re - rs)"
  have fill: "(if ag then fill_routed_experts_allgather_range dims E ?dst rs re ?rows tot
      else fill_routed_experts_cp_range dims E ?dst rs re (map (cp_sample_spec mpu) ?rows) tot)
    = slice rs re (replay_layout mpu dims E multiplier ag ?rows)"
  proof (cases ag)
    case True
    let ?C = "concat (map (\<lambda>e. pad_rows dims E e 1) ?rows)"
    have C: "tot = length ?C" using range(1) layout_samples_length(1) [OF ranks(1)] True by (simp only: if_True)
    from allgather_range_eq [OF uninit range(2) refl range(3) [unfolded C]] True
    show ?thesis by (simp only: if_True replay_layout_def Let_def pad_to_multiple_def C m_def)
  next
    case False
    let ?C = "concat (map (\<lambda>e. projr (slice_with_cp (mpu_cp_rank mpu) (mpu_cp_size mpu) (pad_rows dims E) (pad_rows dims E e 1))) ?rows)"
    have C: "tot = length ?C" using range(1) layout_samples_length(2) [OF ranks(1)] False by (simp only: if_False)
    from cp_range_eq [OF uninit range(2) ranks(1) refl range(3) [unfolded C]] False
    show ?thesis by (simp only: if_False replay_layout_def Let_def pad_to_multiple_def C m_def map_map comp_def)
  qed
  obtain e0 es where e0: "experts = e0 # es" "et_dims e0 = dims" using assms(4,5) by (cases experts) auto
  have "list_all2 (\<lambda>e n. length (et_rows e) + 1 = n \<and> et_dims e = et_dims e0) experts (map (\<lambda>e. length (et_rows e) + 1) experts)"
    using assms(5) e0 by (auto simp: list_all2_map2 intro: list_all2_refl list.rel_refl_strong)
  then have "prepare_routed_experts_for_routing_replay uninit mpu experts
      (map (\<lambda>e. length (et_rows e) + 1) experts) E multiplier sp ag
    = Inr (if ag then fill_routed_experts_allgather_range dims E ?dst rs re ?rows tot
      else fill_routed_experts_cp_range dims E ?dst rs re (map (cp_sample_spec mpu) ?rows) tot)"
    using plan e0 unfolding prepare_routed_experts_for_routing_replay_def Let_def by (cases ag) simp_all
  then show ?thesis by (simp only: fill)
qed

text \<open>Two samples on rank 1 of 2, rows of one layer and one expert per token.\<close>

definition demo_experts :: "expert_tensor list" where
  "demo_experts = [\<lparr>et_dims = (1, 1), et_rows = [[[5]], [[6]], [[7]]]\<rparr>, \<lparr>et_dims = (1, 1), et_rows = [[[8]]]\<rparr>]"

definition demo_mpu :: parallel_state where
  "demo_mpu = \<lparr>mpu_cp_rank = 1, mpu_cp_size = 2, mpu_tp_rank = 0, mpu_tp_size = 1\<rparr>"

theorem routing_replay_rows_correct_witness:
  "prepare_routed_experts_for_routing_replay (\<lambda>n. replicate n [[0]]) demo_mpu demo_experts
    (map (\<lambda>e. length (et_rows e) + 1) demo_experts) 3 4 False False
    = Inr (slice 0 4 (replay_layout demo_mpu (1, 1) 3 4 False (map et_rows demo_experts)))"
proof -
  have "replay_plan demo_mpu 4 False False (map et_rows demo_experts) = Inr (4, 0, 4)" by code_simp
  from routing_replay_rows_correct [OF this, of "(1, 1)" "\<lambda>n. replicate n [[0]]" 3] show ?thesis
    by (simp add: demo_experts_def demo_mpu_def)
qed

end
