(* ===== verification/Ppo_Utils.thy ===== *)
theory Ppo_Utils
  imports Cp_Utils
begin

text \<open>
  \<open>vime/utils/ppo_utils.py\<close>: the objective selection, importance weights, KL estimators, policy losses,
  sequence-level masks and the return and advantage estimators. Tensors of a batch are lists of
  rows, arithmetic is over the reals. The vocabulary-parallel log-probability kernels of the file
  are not modelled.
\<close>

section \<open>Objectives, weights and losses\<close>

definition get_pg_loss_type :: "string option \<Rightarrow> bool \<Rightarrow> string option \<Rightarrow> string result" where
  "get_pg_loss_type configured sc estimator =
     (let objective = (case configured of
          Some c \<Rightarrow> if c \<noteq> [] then c
                    else if sc then ''reinforce'' else if estimator = Some ''cispo'' then ''cispo'' else ''ppo''
        | None \<Rightarrow> if sc then ''reinforce'' else if estimator = Some ''cispo'' then ''cispo'' else ''ppo'')
      in if sc \<and> objective \<noteq> ''reinforce''
         then Inl (ValueError ''--use-score-centering requires --pg-loss-type reinforce.'')
         else if configured \<noteq> None \<and> estimator \<in> {Some ''gspo'', Some ''cispo''} \<and>
                 objective \<noteq> (if estimator = Some ''gspo'' then ''ppo'' else ''cispo'')
         then Inl (ValueError ''--pg-loss-type cannot combine with --advantage-estimator'')
         else Inr objective)"

definition clamp :: "real \<Rightarrow> real \<Rightarrow> real \<Rightarrow> real" where
  "clamp lo hi x = min (max x lo) hi"

definition importance_weights :: "real list \<Rightarrow> string \<Rightarrow> real option \<Rightarrow> real option \<Rightarrow> real list result" where
  "importance_weights ratio mode low high =
     (if mode = ''none'' then Inr (map (\<lambda>_. 1) ratio)
      else if mode = ''tis'' then
        Inr (map (clamp (case low of None \<Rightarrow> 0 | Some l \<Rightarrow> l) (case high of None \<Rightarrow> 2 | Some h \<Rightarrow> h)) ratio)
      else if mode = ''mis'' then
        let l = (case low of None \<Rightarrow> 1 / 2 | Some l \<Rightarrow> l); h = (case high of None \<Rightarrow> 5 | Some h \<Rightarrow> h)
        in Inr (map (\<lambda>r. if l \<le> r \<and> r \<le> h then r else 0) ratio)
      else Inl (ValueError ''Unknown importance sampling mode''))"

definition compute_approx_kl ::
  "real list \<Rightarrow> real list \<Rightarrow> string \<Rightarrow> real list option \<Rightarrow> real list result" where
  "compute_approx_kl log_probs log_probs_base kl_loss_type importance_ratio =
     (let log_ratio = map2 (-) log_probs log_probs_base in
      res_bind
        (if kl_loss_type = ''k1'' then Inr log_ratio
         else if kl_loss_type = ''k2'' then Inr (map (\<lambda>x. x ^ 2 / 2) log_ratio)
         else if kl_loss_type \<in> {''k3'', ''low_var_kl''} then Inr (map (\<lambda>x. exp (- x) - 1 - (- x)) log_ratio)
         else Inl (ValueError ''Unknown kl_loss_type''))
        (\<lambda>kl. let kl' = (case importance_ratio of None \<Rightarrow> kl | Some ratio \<Rightarrow> map2 (*) ratio kl)
              in Inr (if kl_loss_type = ''low_var_kl'' then map (clamp (-10) 10) kl' else kl')))"

definition masked_mean :: "real list \<Rightarrow> real list \<Rightarrow> real" where
  "masked_mean xs loss_mask = dot xs loss_mask / max (sum_list loss_mask) 1"

definition compute_opsm_mask ::
  "real \<Rightarrow> real list list \<Rightarrow> real list list \<Rightarrow> real list list \<Rightarrow> real list list \<Rightarrow> (real list \<times> real) result" where
  "compute_opsm_mask opsm_delta full_log_probs full_old_log_probs advantages loss_masks =
     (if advantages = [] then Inl IndexError
      else let masks = map (\<lambda>(lp, old, adv, m).
                 map (\<lambda>a. if a < 0 \<and> opsm_delta < masked_mean (map2 (-) old lp) m then 1 else 0) adv)
                 (zip full_log_probs (zip full_old_log_probs (zip advantages loss_masks)))
           in if masks = [] then Inl (RuntimeError ''torch.cat(): expected a non-empty list of Tensors'')
              else Inr (concat (map (map (\<lambda>m. 1 - m)) masks),
                        sum_list (map2 (\<lambda>mask m. sum_list mask / max (sum_list m) 1) masks loss_masks)))"

definition compute_gspo_kl ::
  "real list list \<Rightarrow> real list list \<Rightarrow> real list list \<Rightarrow> real list list \<Rightarrow> real list result" where
  "compute_gspo_kl full_log_probs full_old_log_probs local_log_probs loss_masks =
     (let kls = map (\<lambda>(lp, old, m). masked_mean (map2 (-) old lp) m)
            (zip full_log_probs (zip full_old_log_probs loss_masks));
          ppo_kl = map2 (\<lambda>kl lp. replicate (length lp) kl) kls local_log_probs
      in if ppo_kl = [] then Inl (RuntimeError ''torch.cat(): expected a non-empty list of Tensors'')
         else Inr (concat ppo_kl))"

definition policy_loss_token :: "real \<Rightarrow> real \<Rightarrow> real option \<Rightarrow> real \<Rightarrow> real \<Rightarrow> real \<times> real" where
  "policy_loss_token eps_clip eps_clip_high eps_clip_c kl adv =
     (let ratio = exp (- kl);
          pg_losses1 = - ratio * adv;
          pg_losses2 = - clamp (1 - eps_clip) (1 + eps_clip_high) ratio * adv;
          clip_pg_losses1 = max pg_losses1 pg_losses2;
          clipfrac = (if pg_losses2 > pg_losses1 then 1 else 0);
          pg_losses = (case eps_clip_c of
              Some c \<Rightarrow> let pg_losses3 = - c * adv in if adv < 0 then min pg_losses3 clip_pg_losses1 else clip_pg_losses1
            | None \<Rightarrow> clip_pg_losses1)
      in (pg_losses, clipfrac))"

definition compute_policy_loss ::
  "real list \<Rightarrow> real list \<Rightarrow> real \<Rightarrow> real \<Rightarrow> real option \<Rightarrow> (real list \<times> real list) result" where
  "compute_policy_loss ppo_kl advantages eps_clip eps_clip_high eps_clip_c =
     (case eps_clip_c of
        Some c \<Rightarrow> if c \<le> 1 then Inl (AssertionError ''eps_clip_c > 1.0'')
                  else Inr (let r = map2 (policy_loss_token eps_clip eps_clip_high eps_clip_c) ppo_kl advantages
                            in (map fst r, map snd r))
      | None \<Rightarrow> Inr (let r = map2 (policy_loss_token eps_clip eps_clip_high eps_clip_c) ppo_kl advantages
                     in (map fst r, map snd r)))"

definition compute_cispo_loss ::
  "real list \<Rightarrow> real list \<Rightarrow> real list \<Rightarrow> real \<Rightarrow> real \<Rightarrow> real list \<times> real list" where
  "compute_cispo_loss ppo_kl log_probs advantages eps_clip eps_clip_high =
     (let ratio = map (\<lambda>k. exp (- k)) ppo_kl;
          ratio_truncated = map (clamp (1 - eps_clip) (1 + eps_clip_high)) ratio
      in (map (\<lambda>(t, a, lp). - t * a * lp) (zip ratio_truncated (zip advantages log_probs)),
          map2 (\<lambda>t r. if t \<noteq> r then 1 else 0) ratio_truncated ratio))"

section \<open>Returns and advantages\<close>

definition get_grpo_returns :: "real list \<Rightarrow> real list list \<Rightarrow> real list list result" where
  "get_grpo_returns rewards kl =
     res_map (\<lambda>i. res_bind (py_nth kl i) (\<lambda>k. Inr (map (\<lambda>_. 1 * rewards ! i) k))) [0..<length rewards]"

definition get_reinforce_plus_plus_baseline_advantages ::
  "real list \<Rightarrow> real list list \<Rightarrow> real \<Rightarrow> real list list" where
  "get_reinforce_plus_plus_baseline_advantages rewards kl kl_coef =
     map2 (\<lambda>k r. map (\<lambda>x. 1 * r - kl_coef * x) k) kl rewards"

text \<open>\<open>vanilla_gae\<close>: the loop runs over the time steps from the last to the first, on every row.\<close>

definition gae_step ::
  "real \<Rightarrow> real \<Rightarrow> real list \<Rightarrow> real list \<Rightarrow> nat \<Rightarrow> real \<times> real list \<Rightarrow> real \<times> real list" where
  "gae_step gamma lambd rewards values t = (\<lambda>(lastgaelam, adv_rev).
     let next_value = (if t < length rewards - 1 then values ! (t + 1) else 0);
         delta = rewards ! t + gamma * next_value - values ! t;
         lastgaelam' = delta + gamma * lambd * lastgaelam
     in (lastgaelam', adv_rev @ [lastgaelam']))"

definition vanilla_gae_row :: "real \<Rightarrow> real \<Rightarrow> real list \<Rightarrow> real list \<Rightarrow> real list" where
  "vanilla_gae_row gamma lambd rewards values =
     rev (snd (fold (gae_step gamma lambd rewards values) (rev [0..<length rewards]) (0, [])))"

definition vanilla_gae ::
  "nat \<Rightarrow> real list list \<Rightarrow> real list list \<Rightarrow> real \<Rightarrow> real \<Rightarrow> (real list list \<times> real list list) result" where
  "vanilla_gae T rewards values gamma lambd =
     (if T = 0 then Inl (RuntimeError ''stack expects a non-empty TensorList'')
      else let full_advantages = map2 (vanilla_gae_row gamma lambd) rewards values
           in Inr (full_advantages, map2 (map2 (+)) full_advantages values))"

text \<open>\<open>chunked_discounted_returns\<close>: the scan matrix, the carry vector and the loop over the chunks.\<close>

definition scan_matrix :: "real \<Rightarrow> nat \<Rightarrow> nat \<Rightarrow> real" where
  "scan_matrix discount row col =
     (if row \<le> col then
        if discount = 0 then if col - row = 0 then 1 else 0
        else discount ^ (col - row)
      else 0)"

definition pow_vec :: "real \<Rightarrow> nat \<Rightarrow> real list" where
  "pow_vec discount chunk_size =
     (if discount = 0 then replicate chunk_size 0 else map (\<lambda>j. discount ^ j) [1..<chunk_size + 1])"

definition local_scan :: "real \<Rightarrow> nat \<Rightarrow> real list \<Rightarrow> real list" where
  "local_scan discount chunk_size chunk =
     map (\<lambda>j. \<Sum>i\<leftarrow>[0..<chunk_size]. chunk ! i * scan_matrix discount i j) [0..<chunk_size]"

definition scan_chunk ::
  "real \<Rightarrow> nat \<Rightarrow> nat \<Rightarrow> nat \<Rightarrow> real list \<Rightarrow> real list \<times> real \<Rightarrow> nat \<Rightarrow> real list \<times> real" where
  "scan_chunk discount chunk_size n_chunks pad rewards_rev = (\<lambda>(S_rev, s_prev) c.
     let Lc = (if 0 < pad \<and> c = n_chunks - 1 then chunk_size - pad else chunk_size);
         start = c * chunk_size;
         S_local = take Lc (local_scan discount chunk_size (slice start (start + chunk_size) rewards_rev));
         S_global = map2 (\<lambda>s p. s + s_prev * p) S_local (take Lc (pow_vec discount chunk_size))
     in (blit S_rev start S_global, last S_global))"

definition discounted_returns_row :: "real \<Rightarrow> nat \<Rightarrow> real list \<Rightarrow> real list" where
  "discounted_returns_row discount chunk_size rewards =
     (let T = length rewards;
          pad = (if T mod chunk_size \<noteq> 0 then chunk_size - T mod chunk_size else 0);
          rewards_rev = rev rewards @ replicate pad 0;
          n_chunks = length rewards_rev div chunk_size;
          S_rev = fst (foldl (scan_chunk discount chunk_size n_chunks pad rewards_rev)
                    (replicate (length rewards_rev) 0, 0) [0..<n_chunks])
      in rev (if 0 < pad then take T S_rev else S_rev))"

definition chunked_discounted_returns :: "real list list \<Rightarrow> real \<Rightarrow> nat \<Rightarrow> real list list result" where
  "chunked_discounted_returns rewards discount chunk_size =
     (if chunk_size = 0 then Inl ZeroDivisionError
      else Inr (map (discounted_returns_row discount chunk_size) rewards))"

definition chunked_gae ::
  "nat \<Rightarrow> real list list \<Rightarrow> real list list \<Rightarrow> real \<Rightarrow> real \<Rightarrow> nat \<Rightarrow> (real list list \<times> real list list) result" where
  "chunked_gae T rewards values gamma lambd chunk_size =
     (if length values \<noteq> length rewards \<or> (\<exists>v \<in> set values. length v \<noteq> T)
      then Inl (AssertionError ''values.shape == (B, T)'')
      else let next_values = map (\<lambda>v. tl v @ [0]) values;
               deltas = map (\<lambda>(r, n, v). map (\<lambda>(r, n, v). r + gamma * n - v) (zip r (zip n v)))
                 (zip rewards (zip next_values values))
           in res_bind (chunked_discounted_returns deltas (gamma * lambd) chunk_size)
                (\<lambda>advantages. Inr (advantages, map2 (map2 (+)) advantages values)))"

text \<open>The batched estimators under context parallelism. The inputs hold every rank's local tensors
  (\<open>vals ! r ! i\<close> is rank \<open>r\<close>'s part of sample \<open>i\<close>); the result is what rank \<open>cp_rank\<close> returns.
  \<open>row[:L] = src[:L]\<close> on a row of zeros broadcasts a source of one element.\<close>

definition assign_prefix :: "nat \<Rightarrow> nat \<Rightarrow> real list \<Rightarrow> real list result" where
  "assign_prefix max_len L src =
     (let s = take L src in
      if length s = L then Inr (s @ replicate (max_len - L) 0)
      else if length s = 1 then Inr (replicate L (hd s) @ replicate (max_len - L) 0)
      else Inl (RuntimeError ''The expanded size of the tensor must match the existing size''))"

definition gather_samples ::
  "(real list list \<Rightarrow> real list) \<Rightarrow> nat \<Rightarrow> int list \<Rightarrow> nat list \<Rightarrow> real list list list \<Rightarrow> real list list result" where
  "gather_samples all_reduce cp_rank total_lengths response_lengths vals =
     (if 1 < length vals
      then res_map (\<lambda>i. all_gather_with_cp all_reduce (map (\<lambda>v. v ! i) vals) (total_lengths ! i) (int (response_lengths ! i)))
             [0..<min (length total_lengths) (length response_lengths)]
      else Inr (vals ! cp_rank))"

definition slice_rows :: "nat \<Rightarrow> nat \<Rightarrow> int list \<Rightarrow> nat list \<Rightarrow> real list list \<Rightarrow> real list list result" where
  "slice_rows cp_rank cp_size total_lengths response_lengths rows =
     (if 1 < cp_size
      then res_map (\<lambda>(t, l, row). slice_log_prob_with_cp (int cp_rank) (int cp_size) (take l row) t (int l))
             (zip total_lengths (zip response_lengths rows))
      else Inr (map2 take response_lengths rows))"

definition get_advantages_and_returns_batch ::
  "(real list list \<Rightarrow> real list) \<Rightarrow> nat \<Rightarrow> int list \<Rightarrow> nat list \<Rightarrow> real list list list \<Rightarrow> real list list list \<Rightarrow>
   real \<Rightarrow> real \<Rightarrow> bool \<Rightarrow> (real list list \<times> real list list) result" where
  "get_advantages_and_returns_batch all_reduce cp_rank total_lengths response_lengths vals rewards gamma lambd chunked =
     (let B = length response_lengths; cp_size = length vals in
      if B \<noteq> length (vals ! cp_rank) then Inl (AssertionError ''B == len(values_list)'')
      else if B \<noteq> length (rewards ! cp_rank) then Inl (AssertionError ''B == len(rewards_list)'')
      else if B = 0 then Inl IndexError
      else
      res_bind (gather_samples all_reduce cp_rank total_lengths response_lengths vals) (\<lambda>full_values_list.
      res_bind (gather_samples all_reduce cp_rank total_lengths response_lengths rewards) (\<lambda>full_rewards_list.
      let max_len = fold max response_lengths 0;
          place = (\<lambda>rows. res_map (\<lambda>i. res_bind (py_nth rows i) (assign_prefix max_len (response_lengths ! i))) [0..<B])
      in res_bind (place full_values_list) (\<lambda>full_values.
         res_bind (place full_rewards_list) (\<lambda>full_rewards.
         res_bind (if \<not> chunked then vanilla_gae max_len full_rewards full_values gamma lambd
                   else chunked_gae max_len full_rewards full_values gamma lambd 128) (\<lambda>(adv, ret).
         res_bind (slice_rows cp_rank cp_size total_lengths response_lengths adv) (\<lambda>advantages_list.
         res_bind (slice_rows cp_rank cp_size total_lengths response_lengths ret) (\<lambda>returns_list.
           Inr (advantages_list, returns_list)))))))))"

text \<open>REINFORCE++: the KL penalty of every token, and the reward on the last token of the loss mask. The
  product of two vectors broadcasts a vector of one element.\<close>

definition broadcast2 :: "(real \<Rightarrow> real \<Rightarrow> real) \<Rightarrow> real list \<Rightarrow> real list \<Rightarrow> real list result" where
  "broadcast2 f xs ys =
     (if length xs = length ys then Inr (map2 f xs ys)
      else if length xs = 1 then Inr (map (f (hd xs)) ys)
      else if length ys = 1 then Inr (map (\<lambda>x. f x (hd ys)) xs)
      else Inl (RuntimeError ''The size of tensor a must match the size of tensor b''))"

definition reinforce_token_rewards :: "real \<Rightarrow> real list \<Rightarrow> real list \<Rightarrow> real \<Rightarrow> real list result" where
  "reinforce_token_rewards kl_coef full_kl full_mask reward =
     (if sum_list full_mask \<le> 0 then Inl (AssertionError ''Sequence is fully masked.'')
      else res_bind (broadcast2 (*) full_kl full_mask) (\<lambda>masked_kl.
        let rewards_for_seq = map (\<lambda>x. - kl_coef * x) masked_kl;
            last_idx = last (filter (\<lambda>i. full_mask ! i \<noteq> 0) [0..<length full_mask])
        in Inr (rewards_for_seq[last_idx := rewards_for_seq ! last_idx + reward])))"

definition get_reinforce_plus_plus_returns ::
  "(real list list \<Rightarrow> real list) \<Rightarrow> nat \<Rightarrow> real list \<Rightarrow> real list list list \<Rightarrow> real list list \<Rightarrow> nat list \<Rightarrow> int list \<Rightarrow>
   real \<Rightarrow> real \<Rightarrow> real list list result" where
  "get_reinforce_plus_plus_returns all_reduce cp_rank rewards kl loss_masks response_lengths total_lengths kl_coef gamma =
     (let cp_size = length kl in
      res_bind (res_map (\<lambda>i.
         res_bind (py_nth (kl ! cp_rank) i) (\<lambda>local_kl_chunk.
         res_bind (py_nth total_lengths i) (\<lambda>total_len.
         res_bind (py_nth response_lengths i) (\<lambda>response_len.
         res_bind (if 1 < cp_size
                   then all_gather_with_cp all_reduce (map (\<lambda>v. v ! i) kl) total_len (int response_len)
                   else Inr local_kl_chunk) (\<lambda>full_kl.
         res_bind (py_nth loss_masks i) (\<lambda>full_mask.
           reinforce_token_rewards kl_coef full_kl full_mask (rewards ! i))))))) [0..<length rewards])
      (\<lambda>token_level_rewards.
         if token_level_rewards = [] then Inr []
         else let max_len = fold max (map length token_level_rewards) 0;
                  padded_rewards = map (\<lambda>r. r @ replicate (max_len - length r) 0) token_level_rewards
              in res_bind (chunked_discounted_returns padded_rewards gamma 128) (\<lambda>padded_returns.
                   res_map (\<lambda>i.
                     let returns_for_seq = take (length (token_level_rewards ! i)) (padded_returns ! i)
                     in if 1 < cp_size
                        then slice_log_prob_with_cp (int cp_rank) (int cp_size) returns_for_seq
                               (total_lengths ! i) (int (response_lengths ! i))
                        else Inr returns_for_seq) [0..<length padded_returns])))"

section \<open>The chunked scan computes the discounted returns\<close>

text \<open>The reference: the return of a step is its reward plus the discounted return of the next step.\<close>

fun discounted :: "real \<Rightarrow> real list \<Rightarrow> real list" where
  "discounted d [] = []"
| "discounted d (r # rs) = (let g = discounted d rs in (r + d * (case g of [] \<Rightarrow> 0 | x # _ \<Rightarrow> x)) # g)"

lemma length_discounted [simp]: "length (discounted d rs) = length rs"
  by (induction rs) (auto simp: Let_def)

lemma discounted_nth:
  "t < length rs \<Longrightarrow> discounted d rs ! t = (\<Sum>k\<in>{t..<length rs}. d ^ (k - t) * rs ! k)"
proof (induction rs arbitrary: t)
  case (Cons r rs)
  show ?case
  proof (cases t)
    case (Suc t')
    with Cons have "discounted d (r # rs) ! t = (\<Sum>k\<in>{t'..<length rs}. d ^ (k - t') * rs ! k)" by (simp add: Let_def)
    also have "\<dots> = (\<Sum>k\<in>{Suc t'..<Suc (length rs)}. d ^ (k - Suc t') * (r # rs) ! k)"
      by (subst sum.shift_bounds_Suc_ivl) simp
    finally show ?thesis by (simp add: Suc)
  next
    case 0
    have "{0..<Suc (length rs)} = insert 0 {Suc 0..<Suc (length rs)}" by auto
    then have split: "(\<Sum>k\<in>{0..<Suc (length rs)}. d ^ k * (r # rs) ! k)
        = r + (\<Sum>k\<in>{Suc 0..<Suc (length rs)}. d ^ k * (r # rs) ! k)" by simp
    have tail: "(\<Sum>k\<in>{Suc 0..<Suc (length rs)}. d ^ k * (r # rs) ! k) = d * (\<Sum>k\<in>{0..<length rs}. d ^ k * rs ! k)"
      by (subst sum.shift_bounds_Suc_ivl) (simp add: sum_distrib_left mult.assoc)
    show ?thesis
    proof (cases rs)
      case Nil
      then show ?thesis by (simp add: 0)
    next
      case rs: (Cons x xs)
      then have "(case discounted d rs of [] \<Rightarrow> 0 | x # _ \<Rightarrow> x) = discounted d rs ! 0"
        by (simp add: Let_def)
      also have "\<dots> = (\<Sum>k\<in>{0..<length rs}. d ^ k * rs ! k)" using Cons.IH [of 0] rs by simp
      finally show ?thesis using split tail by (simp add: 0 Let_def)
    qed
  qed
qed simp

definition scan :: "real \<Rightarrow> real list \<Rightarrow> nat \<Rightarrow> real" where
  "scan d ys k = (\<Sum>i\<in>{0..<Suc k}. d ^ (k - i) * ys ! i)"

lemma scan_matrix_eq: "scan_matrix d i j = (if i \<le> j then d ^ (j - i) else 0)"
  by (auto simp: scan_matrix_def power_0_left)

lemma pow_vec_nth: "j < C \<Longrightarrow> pow_vec d C ! j = d ^ Suc j"
  by (simp add: pow_vec_def del: upt_Suc)

lemma length_pow_vec [simp]: "length (pow_vec d C) = C"
  by (simp add: pow_vec_def)

lemma local_scan_nth:
  assumes "j < C" "m + C \<le> length ys"
  shows "local_scan d C (slice m (m + C) ys) ! j = (\<Sum>i\<in>{m..<Suc (m + j)}. d ^ (m + j - i) * ys ! i)"
proof -
  have "local_scan d C (slice m (m + C) ys) ! j = (\<Sum>i\<in>{0..<C}. ys ! (m + i) * (if i \<le> j then d ^ (j - i) else 0))"
    using assms by (simp add: local_scan_def scan_matrix_eq interv_sum_list_conv_sum_set_nat slice_upt
      cong: if_cong)
  also have "\<dots> = (\<Sum>i\<in>{0..<C}. if i \<le> j then d ^ (j - i) * ys ! (m + i) else 0)"
    by (rule sum.cong) auto
  also have "\<dots> = (\<Sum>i\<in>{i \<in> {0..<C}. i \<le> j}. d ^ (j - i) * ys ! (m + i))"
    by (rule sum.inter_filter [symmetric]) simp
  also have "{i \<in> {0..<C}. i \<le> j} = {0..<Suc j}" using assms(1) by auto
  also have "(\<Sum>i\<in>{0..<Suc j}. d ^ (j - i) * ys ! (m + i)) = (\<Sum>i\<in>{0 + m..<Suc j + m}. d ^ (m + j - i) * ys ! i)"
    by (subst sum.shift_bounds_nat_ivl) (simp add: add.commute)
  finally show ?thesis by (simp add: add.commute)
qed

text \<open>A chunk's global value: its local scan plus the carried value of the previous chunks.\<close>

lemma scan_split:
  "scan d ys (m + j) = (\<Sum>i\<in>{m..<Suc (m + j)}. d ^ (m + j - i) * ys ! i)
     + (if m = 0 then 0 else scan d ys (m - 1)) * d ^ Suc j"
proof (cases m)
  case 0
  then show ?thesis by (simp add: scan_def)
next
  case (Suc m')
  have "{0..<Suc (m + j)} = {0..<m} \<union> {m..<Suc (m + j)}" by auto
  then have "scan d ys (m + j) = (\<Sum>i\<in>{0..<m}. d ^ (m + j - i) * ys ! i)
      + (\<Sum>i\<in>{m..<Suc (m + j)}. d ^ (m + j - i) * ys ! i)"
    unfolding scan_def by (simp only:) (rule sum.union_disjoint; auto)
  moreover have "(\<Sum>i\<in>{0..<m}. d ^ (m + j - i) * ys ! i) = scan d ys (m - 1) * d ^ Suc j"
  proof -
    have "d ^ (m + j - i) * ys ! i = d ^ (m' - i) * ys ! i * d ^ Suc j" if "i \<in> {0..<m}" for i
    proof -
      have "m + j - i = m' - i + Suc j" using that Suc by simp
      then show ?thesis by (simp only: power_add) simp
    qed
    then have "(\<Sum>i\<in>{0..<m}. d ^ (m + j - i) * ys ! i) = (\<Sum>i\<in>{0..<m}. d ^ (m' - i) * ys ! i * d ^ Suc j)"
      by (rule sum.cong [OF refl])
    then show ?thesis by (simp only: scan_def Suc diff_Suc_1 sum_distrib_right)
  qed
  ultimately show ?thesis using Suc by simp
qed

lemma scan_chunk_eq:
  assumes "0 < C" "L = (if 0 < pad \<and> c = n - 1 then C - pad else C)" "0 < L" "L \<le> C" "c * C + C \<le> length ys"
    and "s_prev = (if c = 0 then 0 else scan d ys (c * C - 1))"
  shows "scan_chunk d C n pad ys (S, s_prev) c =
    (blit S (c * C) (map (scan d ys) [c * C..<c * C + L]), scan d ys (c * C + L - 1))"
proof -
  let ?m = "c * C"
  have "map2 (\<lambda>s p. s + s_prev * p) (take L (local_scan d C (slice ?m (?m + C) ys))) (take L (pow_vec d C))
      = map (scan d ys) [?m..<?m + L]"
  proof (intro nth_equalityI)
    fix j assume "j < length (map2 (\<lambda>s p. s + s_prev * p) (take L (local_scan d C (slice ?m (?m + C) ys))) (take L (pow_vec d C)))"
    then have j: "j < L" by simp
    with assms(4) have jC: "j < C" by simp
    have len: "length (local_scan d C (slice ?m (?m + C) ys)) = C" by (simp add: local_scan_def)
    have "?m = 0 \<longleftrightarrow> c = 0" using assms(1) by simp
    with scan_split [of d ys ?m j] local_scan_nth [OF jC assms(5), of d] assms(6) j jC len
    show "map2 (\<lambda>s p. s + s_prev * p) (take L (local_scan d C (slice ?m (?m + C) ys))) (take L (pow_vec d C)) ! j
        = map (scan d ys) [?m..<?m + L] ! j"
      by (simp add: pow_vec_nth)
  qed (use assms(4) in \<open>simp add: local_scan_def\<close>)
  moreover have "last (map (scan d ys) [?m..<?m + L]) = scan d ys (?m + L - 1)"
    using assms(3) by (simp add: last_map)
  ultimately show ?thesis
    using assms(2) unfolding scan_chunk_def Let_def prod.case by (simp only: simp_thms)
qed

lemma scan_loop:
  assumes C: "0 < C" and pad: "pad < C" and n: "length ys = n * C" and T: "T = n * C - pad" "0 < n \<or> pad = 0"
  shows "k \<le> n \<Longrightarrow> foldl (scan_chunk d C n pad ys) (replicate (n * C) 0, 0) [0..<k] = (S, s_prev) \<Longrightarrow>
    length S = n * C \<and> take (min (k * C) T) S = map (scan d ys) [0..<min (k * C) T] \<and>
    (k < n \<longrightarrow> s_prev = (if k = 0 then 0 else scan d ys (k * C - 1)))"
proof (induction k arbitrary: S s_prev)
  case (Suc k)
  obtain S' s' where IH: "foldl (scan_chunk d C n pad ys) (replicate (n * C) 0, 0) [0..<k] = (S', s')" by fastforce
  from Suc.IH [OF _ IH] Suc.prems(1) have S': "length S' = n * C"
    "take (min (k * C) T) S' = map (scan d ys) [0..<min (k * C) T]"
    "s' = (if k = 0 then 0 else scan d ys (k * C - 1))" by auto
  define L where "L = (if 0 < pad \<and> k = n - 1 then C - pad else C)"
  have L: "0 < L" "L \<le> C" using C pad by (auto simp: L_def)
  have kn: "k * C + C \<le> n * C" using Suc.prems(1) mult_le_mono1 [of "Suc k" n C] by simp
  have kT: "k * C \<le> T" using kn T pad by simp
  have stop: "min (Suc k * C) T = k * C + L"
  proof (cases "k = n - 1")
    case True
    then have n: "n = Suc k" using Suc.prems(1) by simp
    have "min (Suc k * C) T = T" using T n by simp
    also have "\<dots> = k * C + (C - pad)" using T n pad by simp
    finally show ?thesis using True by (cases "pad = 0") (simp_all add: L_def)
  next
    case False
    then have "Suc (Suc k) \<le> n" using Suc.prems(1) by simp
    then have "Suc (Suc k) * C \<le> n * C" by (rule mult_le_mono1)
    with False T pad show ?thesis by (simp add: L_def min_def)
  qed
  have step: "scan_chunk d C n pad ys (S', s') k =
      (blit S' (k * C) (map (scan d ys) [k * C..<k * C + L]), scan d ys (k * C + L - 1))"
    using scan_chunk_eq [OF C L_def L _ S'(3)] kn n by simp
  have SS: "S = blit S' (k * C) (map (scan d ys) [k * C..<k * C + L])" "s_prev = scan d ys (k * C + L - 1)"
    using Suc.prems(2) IH step by simp_all
  have fits: "k * C + L \<le> n * C" using kn L by simp
  have "take (k * C) S' = map (scan d ys) [0..<k * C]" using S'(2) kT by (simp add: min_def)
  then have "take (k * C + L) S = map (scan d ys) [0..<k * C + L]"
    using SS(1) S'(1) fits by (simp add: blit_def upt_add_eq_append [of 0 "k * C" L])
  moreover have "length S = n * C" using SS(1) S'(1) fits by simp
  moreover have "s_prev = scan d ys (Suc k * C - 1)" if "Suc k < n"
  proof -
    have "L = C" using that by (auto simp: L_def)
    then show ?thesis using SS(2) by (simp add: add.commute)
  qed
  ultimately show ?case unfolding stop by auto
qed simp

lemma discounted_returns_row_eq:
  assumes C: "0 < C"
  shows "discounted_returns_row d C rs = discounted d rs"
proof -
  let ?T = "length rs"
  define pad where "pad = (if ?T mod C \<noteq> 0 then C - ?T mod C else 0)"
  define ys where "ys = rev rs @ replicate pad 0"
  define n where "n = length ys div C"
  have pad: "pad < C" using C by (simp add: pad_def)
  have "length ys = n * C"
  proof -
    have "C dvd length ys"
    proof (cases "?T mod C = 0")
      case False
      have "?T mod C < C" using C by simp
      then have "?T + (C - ?T mod C) = ?T div C * C + C" using div_mult_mod_eq [of ?T C] by linarith
      then show ?thesis using False by (simp add: ys_def pad_def)
    qed (simp add: ys_def pad_def mod_0_imp_dvd)
    then show ?thesis by (simp add: n_def)
  qed
  then have T: "?T = n * C - pad" by (simp add: ys_def)
  have np: "0 < n \<or> pad = 0"
  proof (cases "n = 0")
    case True
    then have "?T = 0" using T by simp
    then show ?thesis by (simp add: pad_def)
  qed simp
  obtain S s where loop: "foldl (scan_chunk d C n pad ys) (replicate (n * C) 0, 0) [0..<n] = (S, s)" by fastforce
  from scan_loop [OF C pad \<open>length ys = n * C\<close> T np order_refl loop]
  have S: "length S = n * C" "take ?T S = map (scan d ys) [0..<?T]" using T by (simp_all add: min_absorb2)
  have "discounted_returns_row d C rs = rev (if 0 < pad then take ?T S else S)"
    unfolding discounted_returns_row_def Let_def pad_def [symmetric] ys_def [symmetric] n_def [symmetric]
    by (simp only: loop \<open>length ys = n * C\<close> fst_conv)
  also have "\<dots> = rev (map (scan d ys) [0..<?T])"
  proof (cases "0 < pad")
    case False
    then have "take ?T S = S" using S(1) T by simp
    with S(2) False show ?thesis by simp
  qed (use S(2) in simp)
  also have "\<dots> = discounted d rs"
  proof (intro nth_equalityI)
    fix t assume "t < length (rev (map (scan d ys) [0..<?T]))"
    then have t: "t < ?T" by simp
    then have "rev (map (scan d ys) [0..<?T]) ! t = scan d ys (?T - 1 - t)" by (simp add: rev_nth)
    also have "\<dots> = (\<Sum>i\<in>{0..<?T - t}. d ^ (?T - 1 - t - i) * rs ! (?T - 1 - i))"
    proof -
      have "Suc (?T - 1 - t) = ?T - t" using t by simp
      then show ?thesis unfolding scan_def by (intro sum.cong) (auto simp: ys_def nth_append rev_nth)
    qed
    also have "\<dots> = (\<Sum>k\<in>{t..<?T}. d ^ (k - t) * rs ! k)"
      by (rule sum.reindex_bij_witness [of _ "\<lambda>k. ?T - 1 - k" "\<lambda>i. ?T - 1 - i"]) (use t in \<open>auto simp: algebra_simps\<close>)
    finally show "rev (map (scan d ys) [0..<?T]) ! t = discounted d rs ! t" by (simp only: discounted_nth [OF t])
  qed simp
  finally show ?thesis .
qed

section \<open>Generalized advantage estimation\<close>

text \<open>The reference: the temporal differences of one sequence, and their discounted sums.\<close>

definition td_errors :: "real \<Rightarrow> real list \<Rightarrow> real list \<Rightarrow> real list" where
  "td_errors gamma rewards vals =
     map (\<lambda>t. rewards ! t + gamma * (if Suc t < length vals then vals ! Suc t else 0) - vals ! t) [0..<length rewards]"

definition gae :: "real \<Rightarrow> real \<Rightarrow> real list \<Rightarrow> real list \<Rightarrow> real list" where
  "gae gamma lambd rewards vals = discounted (gamma * lambd) (td_errors gamma rewards vals)"

lemma discounted_snoc_fold:
  "fold (\<lambda>x (last', acc). let l = x + d * last' in (l, acc @ [l])) (rev xs) (0, [])
   = ((case discounted d xs of [] \<Rightarrow> 0 | y # _ \<Rightarrow> y), rev (discounted d xs))"
  by (induction xs) (auto simp: Let_def)

lemma vanilla_gae_row_eq:
  assumes "length vals = length rewards"
  shows "vanilla_gae_row gamma lambd rewards vals = gae gamma lambd rewards vals"
proof -
  let ?d = "td_errors gamma rewards vals"
  let ?f = "\<lambda>x (last', acc). let l = x + gamma * lambd * last' in (l, acc @ [l :: real])"
  have "fold (gae_step gamma lambd rewards vals) (rev [0..<length rewards]) (0, [])
      = fold (?f \<circ> (!) ?d) (rev [0..<length rewards]) (0, [])"
  proof (rule fold_cong [OF refl refl])
    fix t assume "t \<in> set (rev [0..<length rewards])"
    then have t: "t < length rewards" by simp
    have "(t < length rewards - 1) = (Suc t < length vals)" using assms by auto
    with t show "gae_step gamma lambd rewards vals t = (?f \<circ> (!) ?d) t"
      by (auto simp: gae_step_def td_errors_def fun_eq_iff Let_def)
  qed
  also have "\<dots> = fold ?f (rev ?d) (0, [])"
  proof -
    have "map ((!) ?d) [0..<length rewards] = ?d" using map_nth [of ?d] by (simp add: td_errors_def)
    then show ?thesis by (metis fold_map rev_map)
  qed
  finally show ?thesis by (simp add: vanilla_gae_row_def gae_def discounted_snoc_fold)
qed

lemma chunked_deltas:
  assumes "length vals = length rewards"
  shows "map (\<lambda>(r, n, v). r + gamma * n - v) (zip rewards (zip (tl vals @ [0]) vals)) = td_errors gamma rewards vals"
proof (intro nth_equalityI)
  show "length (map (\<lambda>(r, n, v). r + gamma * n - v) (zip rewards (zip (tl vals @ [0]) vals))) = length (td_errors gamma rewards vals)"
    using assms by (cases vals) (simp_all add: td_errors_def)
next
  fix t assume "t < length (map (\<lambda>(r, n, v). r + gamma * n - v) (zip rewards (zip (tl vals @ [0]) vals)))"
  then have t: "t < length rewards" "t < length vals" using assms by auto
  have "(tl vals @ [0]) ! t = (if Suc t < length vals then vals ! Suc t else 0)"
    using t by (auto simp: nth_append nth_tl)
  with t show "map (\<lambda>(r, n, v). r + gamma * n - v) (zip rewards (zip (tl vals @ [0]) vals)) ! t = td_errors gamma rewards vals ! t"
    by (simp add: td_errors_def)
qed

lemma map2_map_snd: "length xs = length ys \<Longrightarrow> map2 (\<lambda>x y. f x y) xs ys = map (\<lambda>(x, y). f x y) (zip xs ys)"
  by simp

lemma chunked_gae_eq:
  assumes "0 < C" "length vals = length rewards" "\<forall>v \<in> set vals. length v = T" "\<forall>r \<in> set rewards. length r = T"
  shows "chunked_gae T rewards vals gamma lambd C =
    (let adv = map2 (gae gamma lambd) rewards vals in Inr (adv, map2 (map2 (+)) adv vals))"
proof -
  let ?D = "map (\<lambda>(r, n, v). map (\<lambda>(r, n, v). r + gamma * n - v) (zip r (zip n v)))
       (zip rewards (zip (map (\<lambda>v. tl v @ [0]) vals) vals))"
  have "?D = map2 (td_errors gamma) rewards vals"
    using assms(2-4)
  proof (induction vals rewards rule: list_induct2)
    case (Cons v vals r rewards)
    then have "length v = length r" by simp
    with Cons chunked_deltas [of v r gamma] show ?case by simp
  qed simp
  moreover have "map (discounted_returns_row (gamma * lambd) C) (map2 (td_errors gamma) rewards vals)
      = map2 (gae gamma lambd) rewards vals"
    by (simp add: discounted_returns_row_eq [OF assms(1)] gae_def split_def)
  moreover have "\<not> (length vals \<noteq> length rewards \<or> (\<exists>v \<in> set vals. length v \<noteq> T))" "C \<noteq> 0" using assms(1-3) by auto
  ultimately show ?thesis
    unfolding chunked_gae_def chunked_discounted_returns_def Let_def by (simp only: if_False res_bind_Inr)
qed

lemma vanilla_gae_eq:
  assumes "0 < T" "length vals = length rewards" "\<forall>v \<in> set vals. length v = T" "\<forall>r \<in> set rewards. length r = T"
  shows "vanilla_gae T rewards vals gamma lambd =
    (let adv = map2 (gae gamma lambd) rewards vals in Inr (adv, map2 (map2 (+)) adv vals))"
proof -
  have "map2 (vanilla_gae_row gamma lambd) rewards vals = map2 (gae gamma lambd) rewards vals"
    using assms(2-4)
  proof (induction vals rewards rule: list_induct2)
    case (Cons v vals r rewards)
    then have "length v = length r" by simp
    with Cons vanilla_gae_row_eq [of v r] show ?case by simp
  qed simp
  moreover have "T \<noteq> 0" using assms(1) by simp
  ultimately show ?thesis unfolding vanilla_gae_def Let_def by (simp only: if_False)
qed

text \<open>C10: the chunked parallel scan computes, for every chunk size, the discounted return of every step of
  every row: the sum of the later rewards, each discounted by its distance.\<close>

theorem chunked_discounted_returns_correct:
  assumes "0 < chunk_size"
  shows "\<exists>returns. chunked_discounted_returns rewards discount chunk_size = Inr returns \<and>
    length returns = length rewards \<and>
    (\<forall>b < length rewards. length (returns ! b) = length (rewards ! b) \<and>
       (\<forall>t < length (rewards ! b).
          returns ! b ! t = (\<Sum>k\<in>{t..<length (rewards ! b)}. discount ^ (k - t) * rewards ! b ! k)))"
  using assms by (simp add: chunked_discounted_returns_def discounted_returns_row_eq discounted_nth)

theorem chunked_discounted_returns_correct_witness:
  "\<exists>returns. chunked_discounted_returns [[1, 2, 4]] (1 / 2) 2 = Inr returns \<and> length returns = 1"
  using chunked_discounted_returns_correct [of 2 "[[1, 2, 4]]" "1 / 2"] by auto

text \<open>the chunked estimator is equivalent to the sequential one: on tensors of one shape with at least
  one step both return, and the same advantages and returns, for every chunk size.\<close>

theorem chunked_gae_equals_vanilla_gae:
  assumes "0 < chunk_size" "0 < T" "length vals = length rewards"
    and "\<forall>v \<in> set vals. length v = T" "\<forall>r \<in> set rewards. length r = T"
  shows "\<exists>adv ret. chunked_gae T rewards vals gamma lambd chunk_size = Inr (adv, ret) \<and>
    vanilla_gae T rewards vals gamma lambd = Inr (adv, ret)"
  using chunked_gae_eq [OF assms(1,3,4,5)] vanilla_gae_eq [OF assms(2-5)] by (simp add: Let_def)

theorem chunked_gae_equals_vanilla_gae_witness:
  "\<exists>adv ret. chunked_gae 2 [[1, 2]] [[3, 5]] 1 (1 / 2) 128 = Inr (adv, ret) \<and>
    vanilla_gae 2 [[1, 2]] [[3, 5]] 1 (1 / 2) = Inr (adv, ret)"
  by (rule chunked_gae_equals_vanilla_gae) simp_all

section \<open>Batches: padding and context parallelism\<close>

lemma discounted_pad: "discounted d (xs @ replicate k 0) = discounted d xs @ replicate k 0"
proof (induction xs)
  case Nil
  show ?case
  proof (induction k)
    case (Suc k)
    then show ?case by (cases k) (auto simp: Let_def)
  qed simp
next
  case (Cons x xs)
  then show ?case by (cases "discounted d xs"; cases k) (auto simp: Let_def)
qed

lemma gae_pad:
  assumes "length vals = length rewards"
  shows "gae gamma lambd (rewards @ replicate k 0) (vals @ replicate k 0) = gae gamma lambd rewards vals @ replicate k 0"
proof -
  have "td_errors gamma (rewards @ replicate k 0) (vals @ replicate k 0) = td_errors gamma rewards vals @ replicate k 0"
    using assms by (intro nth_equalityI) (auto simp: td_errors_def nth_append)
  then show ?thesis by (simp add: gae_def discounted_pad)
qed

lemma length_gae [simp]: "length (gae gamma lambd rewards vals) = length rewards"
  by (simp add: gae_def td_errors_def)

lemma fold_max_ge: "x \<in> set xs \<Longrightarrow> x \<le> fold max xs (a :: nat)"
proof -
  have "fold max xs a = Max (insert a (set xs))"
    by (metis List.finite_set Max.set_eq_fold list.simps(15))
  then show "x \<in> set xs \<Longrightarrow> ?thesis" by simp
qed

lemma assign_prefix_exact: "length src = L \<Longrightarrow> assign_prefix m L src = Inr (src @ replicate (m - L) 0)"
  by (simp add: assign_prefix_def)

text \<open>A batch of full sequences: total length, rewards and values, with at least one prompt token.\<close>

type_synonym gae_sample = "int \<times> real list \<times> real list"

abbreviation gs_rewards :: "gae_sample \<Rightarrow> real list" where "gs_rewards s \<equiv> fst (snd s)"
abbreviation gs_values :: "gae_sample \<Rightarrow> real list" where "gs_values s \<equiv> snd (snd s)"

definition gae_batch_ok :: "gae_sample list \<Rightarrow> bool" where
  "gae_batch_ok batch \<longleftrightarrow> batch \<noteq> [] \<and>
     (\<forall>s \<in> set batch. length (gs_rewards s) = length (gs_values s) \<and> int (length (gs_values s)) < fst s)"

text \<open>Rank \<open>r\<close>'s local tensors of a quantity of the batch.\<close>

abbreviation local_rows :: "(gae_sample \<Rightarrow> real list) \<Rightarrow> gae_sample list \<Rightarrow> nat \<Rightarrow> nat \<Rightarrow> real list list" where
  "local_rows f batch n r \<equiv> map (\<lambda>s. cp_local r n (fst s) (f s)) batch"

lemma gather_samples_local:
  assumes "sums_ranks all_reduce" "r < n" "gae_batch_ok batch" "\<And>s. s \<in> set batch \<Longrightarrow> length (f s) = length (gs_values s)"
  shows "gather_samples all_reduce r (map fst batch) (map (\<lambda>s. length (gs_values s)) batch)
      (map (local_rows f batch n) [0..<n]) = Inr (map f batch)"
proof (cases "n = 1")
  case True
  then show ?thesis using assms(2) by (simp add: gather_samples_def slice_log_prob_with_cp_def)
next
  case False
  have "all_gather_with_cp all_reduce (map (\<lambda>v. v ! i) (map (local_rows f batch n) [0..<n]))
      (map fst batch ! i) (int (map (\<lambda>s. length (gs_values s)) batch ! i)) = Inr (map f batch ! i)"
    if i: "i < length batch" for i
  proof -
    let ?s = "batch ! i"
    have s: "?s \<in> set batch" using i by simp
    have locals: "map (\<lambda>v. v ! i) (map (local_rows f batch n) [0..<n]) = map (\<lambda>r. cp_local r n (fst ?s) (f ?s)) [0..<n]"
      using i by simp
    have "int (length (f ?s)) < fst ?s" using assms(3) assms(4) [OF s] s by (simp add: gae_batch_ok_def)
    then show ?thesis
      unfolding locals using cp_gather_local [OF assms(1), of n "f ?s" "fst ?s"] assms(2) assms(4) [OF s] i by simp
  qed
  then have "res_map (\<lambda>i. all_gather_with_cp all_reduce (map (\<lambda>v. v ! i) (map (local_rows f batch n) [0..<n]))
      (map fst batch ! i) (int (map (\<lambda>s. length (gs_values s)) batch ! i))) [0..<length batch]
      = Inr (map (\<lambda>i. map f batch ! i) [0..<length batch])"
    by (intro res_map_Inr_ball) simp
  also have "map (\<lambda>i. map f batch ! i) [0..<length batch] = map f batch" by (rule nth_equalityI) auto
  finally show ?thesis using False assms(2) by (simp add: gather_samples_def)
qed

lemma slice_rows_local:
  assumes "r < n" "gae_batch_ok batch" "\<And>s. s \<in> set batch \<Longrightarrow> length (f s) = length (gs_values s)"
  shows "slice_rows r n (map fst batch) (map (\<lambda>s. length (gs_values s)) batch)
      (map (\<lambda>s. f s @ replicate (m - length (gs_values s)) 0) batch) = Inr (local_rows f batch n r)"
proof (cases "n = 1")
  case True
  have "map2 take (map (\<lambda>s. length (gs_values s)) batch) (map (\<lambda>s. f s @ replicate (m - length (gs_values s)) 0) batch) = map f batch"
    using assms(3) by (induction batch) auto
  moreover have "cp_local r 1 t xs = xs" for t and xs :: "real list" by (simp add: slice_log_prob_with_cp_def)
  ultimately show ?thesis using True by (simp add: slice_rows_def)
next
  case False
  have z: "zip (map fst batch) (zip (map (\<lambda>s. length (gs_values s)) batch) (map (\<lambda>s. f s @ replicate (m - length (gs_values s)) 0) batch))
      = map (\<lambda>s. (fst s, length (gs_values s), f s @ replicate (m - length (gs_values s)) 0)) batch"
    by (induction batch) auto
  have local: "slice_log_prob_with_cp (int r) (int n) (take (length (gs_values s)) (f s @ replicate (m - length (gs_values s)) 0)) (fst s)
      (int (length (gs_values s))) = Inr (cp_local r n (fst s) (f s))" if "s \<in> set batch" for s
  proof -
    have "take (length (gs_values s)) (f s @ replicate (m - length (gs_values s)) 0) = f s" using assms(3) [OF that] by simp
    moreover have "int (length (f s)) < fst s" using assms(2) assms(3) [OF that] that by (simp add: gae_batch_ok_def)
    ultimately show ?thesis using cp_local_returns [OF assms(1), of "f s" "fst s"] assms(3) [OF that] by simp
  qed
  have "res_map (\<lambda>(t, l, row). slice_log_prob_with_cp (int r) (int n) (take l row) t (int l))
      (map (\<lambda>s. (fst s, length (gs_values s), f s @ replicate (m - length (gs_values s)) 0)) batch) = Inr (local_rows f batch n r)"
    using local by (induction batch) simp_all
  then show ?thesis using False assms(1) unfolding slice_rows_def z by simp
qed

lemma place_rows:
  assumes "\<And>s. s \<in> set batch \<Longrightarrow> length (f s) = length (gs_values s)"
  shows "res_map (\<lambda>i. res_bind (py_nth (map f batch) i) (assign_prefix m (map (\<lambda>s. length (gs_values s)) batch ! i)))
      [0..<length batch] = Inr (map (\<lambda>s. f s @ replicate (m - length (gs_values s)) 0) batch)"
proof -
  have "res_map (\<lambda>i. res_bind (py_nth (map f batch) i) (assign_prefix m (map (\<lambda>s. length (gs_values s)) batch ! i))) [0..<length batch]
      = Inr (map (\<lambda>i. f (batch ! i) @ replicate (m - length (gs_values (batch ! i))) 0) [0..<length batch])"
    using assms by (intro res_map_Inr_ball) (simp add: py_nth_def assign_prefix_exact)
  also have "map (\<lambda>i. f (batch ! i) @ replicate (m - length (gs_values (batch ! i))) 0) [0..<length batch]
      = map (\<lambda>s. f s @ replicate (m - length (gs_values s)) 0) batch" by (rule nth_equalityI) auto
  finally show ?thesis .
qed

lemma padded_gae_rows:
  assumes "\<And>s. s \<in> set batch \<Longrightarrow> length (gs_rewards s) = length (gs_values s)"
  shows "map2 (gae gamma lambd) (map (\<lambda>s. gs_rewards s @ replicate (m - length (gs_values s)) 0) batch)
      (map (\<lambda>s. gs_values s @ replicate (m - length (gs_values s)) 0) batch)
    = map (\<lambda>s. gae gamma lambd (gs_rewards s) (gs_values s) @ replicate (m - length (gs_values s)) 0) batch"
  using assms by (induction batch) (simp_all add: gae_pad)

lemma padded_return_rows:
  assumes "\<And>s. s \<in> set batch \<Longrightarrow> length (gs_rewards s) = length (gs_values s)"
  shows "map2 (map2 (+)) (map (\<lambda>s. gae gamma lambd (gs_rewards s) (gs_values s) @ replicate (m - length (gs_values s)) 0) batch)
      (map (\<lambda>s. gs_values s @ replicate (m - length (gs_values s)) 0) batch)
    = map (\<lambda>s. map2 (+) (gae gamma lambd (gs_rewards s) (gs_values s)) (gs_values s) @ replicate (m - length (gs_values s)) 0) batch"
  using assms by (induction batch) (simp_all add: zip_replicate)

lemma gae_batch_slices:
  assumes "sums_ranks all_reduce" "r < n" "gae_batch_ok batch" "\<exists>s \<in> set batch. gs_values s \<noteq> []"
  shows "get_advantages_and_returns_batch all_reduce r (map fst batch) (map (\<lambda>s. length (gs_values s)) batch)
      (map (local_rows gs_values batch n) [0..<n]) (map (local_rows gs_rewards batch n) [0..<n]) gamma lambd chunked
    = Inr (local_rows (\<lambda>s. gae gamma lambd (gs_rewards s) (gs_values s)) batch n r,
           local_rows (\<lambda>s. map2 (+) (gae gamma lambd (gs_rewards s) (gs_values s)) (gs_values s)) batch n r)"
proof -
  let ?lens = "map (\<lambda>s. length (gs_values s)) batch"
  let ?m = "fold max ?lens 0"
  let ?p = "\<lambda>f s. f s @ replicate (?m - length (gs_values s)) (0 :: real)"
  have len: "length (gs_rewards s) = length (gs_values s)" if "s \<in> set batch" for s
    using assms(3) that by (simp add: gae_batch_ok_def)
  have le: "length (gs_values s) \<le> ?m" if "s \<in> set batch" for s using that by (intro fold_max_ge) simp
  have m: "0 < ?m" using assms(4) le by (metis length_greater_0_conv less_le_trans)
  let ?V = "map (?p gs_values) batch" and ?R = "map (?p gs_rewards) batch"
  have shapes: "length ?V = length ?R" "\<forall>v \<in> set ?V. length v = ?m" "\<forall>v \<in> set ?R. length v = ?m"
    using le len by auto
  have adv: "map2 (gae gamma lambd) ?R ?V = map (?p (\<lambda>s. gae gamma lambd (gs_rewards s) (gs_values s))) batch"
    by (rule padded_gae_rows [OF len])
  have ret: "map2 (map2 (+)) (map (?p (\<lambda>s. gae gamma lambd (gs_rewards s) (gs_values s))) batch) ?V
      = map (?p (\<lambda>s. map2 (+) (gae gamma lambd (gs_rewards s) (gs_values s)) (gs_values s))) batch"
    by (rule padded_return_rows [OF len])
  have est: "(if \<not> chunked then vanilla_gae ?m ?R ?V gamma lambd else chunked_gae ?m ?R ?V gamma lambd 128)
      = Inr (map (?p (\<lambda>s. gae gamma lambd (gs_rewards s) (gs_values s))) batch,
             map (?p (\<lambda>s. map2 (+) (gae gamma lambd (gs_rewards s) (gs_values s)) (gs_values s))) batch)"
    using vanilla_gae_eq [OF m shapes, of gamma lambd] chunked_gae_eq [of 128, OF _ shapes, of gamma lambd]
    unfolding adv ret Let_def by (cases chunked) simp_all
  have checks: "length (map (local_rows gs_values batch n) [0..<n] ! r) = length batch"
    "length (map (local_rows gs_rewards batch n) [0..<n] ! r) = length batch" "length batch \<noteq> 0"
    "length (map (local_rows gs_values batch n) [0..<n]) = n" "length ?lens = length batch"
    using assms(2,3) by (simp_all add: gae_batch_ok_def)
  note gathered = gather_samples_local [OF assms(1-3) refl] gather_samples_local [OF assms(1-3) len]
  note placed = place_rows [where m = ?m, OF refl] place_rows [where m = ?m, OF len]
  have slices:
    "slice_rows r n (map fst batch) ?lens (map (?p (\<lambda>s. gae gamma lambd (gs_rewards s) (gs_values s))) batch)
       = Inr (local_rows (\<lambda>s. gae gamma lambd (gs_rewards s) (gs_values s)) batch n r)"
    "slice_rows r n (map fst batch) ?lens (map (?p (\<lambda>s. map2 (+) (gae gamma lambd (gs_rewards s) (gs_values s)) (gs_values s))) batch)
       = Inr (local_rows (\<lambda>s. map2 (+) (gae gamma lambd (gs_rewards s) (gs_values s)) (gs_values s)) batch n r)"
    by (rule slice_rows_local [OF assms(2,3)]; simp add: len)+
  show ?thesis
    unfolding get_advantages_and_returns_batch_def Let_def
    by (simp only: checks gathered res_bind_Inr placed est prod.case slices simp_thms if_False)
qed

text \<open>C11: batched advantage estimation does not depend on padding, on the context-parallel layout or on the
  chosen estimator: from the ranks' slices of the sequences every rank gets its slices of the
  advantages and returns of each sequence alone.\<close>

theorem gae_batch_layout_independent:
  assumes "sums_ranks all_reduce" "r < n" "gae_batch_ok batch" "\<exists>s \<in> set batch. gs_values s \<noteq> []"
  shows "get_advantages_and_returns_batch all_reduce r (map fst batch) (map (\<lambda>s. length (gs_values s)) batch)
      (map (local_rows gs_values batch n) [0..<n]) (map (local_rows gs_rewards batch n) [0..<n]) gamma lambd chunked
    = Inr (local_rows (\<lambda>s. gae gamma lambd (gs_rewards s) (gs_values s)) batch n r,
           local_rows (\<lambda>s. map2 (+) (gae gamma lambd (gs_rewards s) (gs_values s)) (gs_values s)) batch n r)"
  by (rule gae_batch_slices [OF assms])

definition gae_demo :: "gae_sample list" where
  "gae_demo = [(5, [0, 0, 1], [1, 2, 3]), (4, [2], [1])]"

theorem gae_batch_layout_independent_witness:
  "\<exists>adv ret. get_advantages_and_returns_batch vec_sum 1 (map fst gae_demo) (map (\<lambda>s. length (gs_values s)) gae_demo)
      (map (local_rows gs_values gae_demo 2) [0..<2]) (map (local_rows gs_rewards gae_demo 2) [0..<2]) 1 (1 / 2) True
    = Inr (adv, ret)"
proof -
  have "gae_batch_ok gae_demo" "\<exists>s \<in> set gae_demo. gs_values s \<noteq> []" by (simp_all add: gae_demo_def gae_batch_ok_def)
  from gae_batch_layout_independent [OF vec_sum_sums_ranks _ this, of 1 2 1 "1 / 2" True] show ?thesis by auto
qed

section \<open>REINFORCE++ returns\<close>

text \<open>A sequence: total length, per-token KL, loss mask, and its scalar reward.\<close>

type_synonym rpp_sample = "int \<times> real list \<times> real list \<times> real"

abbreviation rpp_kl :: "rpp_sample \<Rightarrow> real list" where "rpp_kl s \<equiv> fst (snd s)"
abbreviation rpp_mask :: "rpp_sample \<Rightarrow> real list" where "rpp_mask s \<equiv> fst (snd (snd s))"
abbreviation rpp_reward :: "rpp_sample \<Rightarrow> real" where "rpp_reward s \<equiv> snd (snd (snd s))"

definition rpp_batch_ok :: "rpp_sample list \<Rightarrow> bool" where
  "rpp_batch_ok batch \<longleftrightarrow>
     (\<forall>s \<in> set batch. length (rpp_mask s) = length (rpp_kl s) \<and> int (length (rpp_kl s)) < fst s \<and> 0 < sum_list (rpp_mask s))"

text \<open>The reference: minus the weighted KL of every unmasked token, plus the reward on the last unmasked one.\<close>

definition rpp_token_rewards :: "real \<Rightarrow> rpp_sample \<Rightarrow> real list" where
  "rpp_token_rewards kl_coef s =
     (let last_idx = last (filter (\<lambda>i. rpp_mask s ! i \<noteq> 0) [0..<length (rpp_mask s)])
      in map (\<lambda>i. - kl_coef * (rpp_kl s ! i * rpp_mask s ! i) + (if i = last_idx then rpp_reward s else 0)) [0..<length (rpp_kl s)])"

lemma reinforce_token_rewards_eq:
  assumes "length (rpp_mask s) = length (rpp_kl s)" "0 < sum_list (rpp_mask s)"
  shows "reinforce_token_rewards kl_coef (rpp_kl s) (rpp_mask s) (rpp_reward s) = Inr (rpp_token_rewards kl_coef s)"
proof -
  let ?idx = "filter (\<lambda>i. rpp_mask s ! i \<noteq> 0) [0..<length (rpp_mask s)]"
  have "?idx \<noteq> []"
  proof
    assume "?idx = []"
    then have "\<forall>i < length (rpp_mask s). rpp_mask s ! i = 0" by (simp add: filter_empty_conv)
    then have "\<forall>x \<in> set (rpp_mask s). x = 0" by (metis in_set_conv_nth)
    moreover have "sum_list xs = 0" if "\<forall>x \<in> set xs. x = 0" for xs :: "real list"
      using that by (induction xs) auto
    ultimately show False using assms(2) by (metis less_irrefl)
  qed
  then have "last ?idx \<in> set ?idx" by (rule last_in_set)
  then have last: "last ?idx < length (rpp_kl s)" using assms(1) by simp
  define L where "L = last ?idx"
  have "(map (\<lambda>x. - kl_coef * x) (map2 (*) (rpp_kl s) (rpp_mask s)))
      [L := map (\<lambda>x. - kl_coef * x) (map2 (*) (rpp_kl s) (rpp_mask s)) ! L + rpp_reward s]
      = map (\<lambda>i. - kl_coef * (rpp_kl s ! i * rpp_mask s ! i) + (if i = L then rpp_reward s else 0)) [0..<length (rpp_kl s)]"
    using assms(1) last [folded L_def] by (intro nth_equalityI) (simp_all add: nth_list_update)
  moreover have "\<not> sum_list (rpp_mask s) \<le> 0" "length (rpp_kl s) = length (rpp_mask s)" using assms by simp_all
  ultimately show ?thesis
    unfolding reinforce_token_rewards_def broadcast2_def rpp_token_rewards_def Let_def L_def
    by (simp only: if_True if_False res_bind_Inr refl)
qed

lemma length_rpp_token_rewards [simp]: "length (rpp_token_rewards c s) = length (rpp_kl s)"
  by (simp add: rpp_token_rewards_def Let_def)

abbreviation rpp_local :: "(rpp_sample \<Rightarrow> real list) \<Rightarrow> rpp_sample list \<Rightarrow> nat \<Rightarrow> nat \<Rightarrow> real list list" where
  "rpp_local f batch n r \<equiv> map (\<lambda>s. cp_local r n (fst s) (f s)) batch"

lemma map_nth_upt: "map (\<lambda>i. f (xs ! i)) [0..<length xs] = map f xs"
  by (rule nth_equalityI) auto

lemma rpp_batch_okD:
  assumes "rpp_batch_ok batch" "s \<in> set batch"
  shows "length (rpp_mask s) = length (rpp_kl s)" "int (length (rpp_kl s)) < fst s" "0 < sum_list (rpp_mask s)"
  using assms by (auto simp: rpp_batch_ok_def)

lemma gathered_kl:
  assumes "sums_ranks all_reduce" "r < n" "rpp_batch_ok batch" "i < length batch"
  defines "kl \<equiv> map (rpp_local rpp_kl batch n) [0..<n]"
  shows "(if 1 < n then all_gather_with_cp all_reduce (map (\<lambda>v. v ! i) kl) (fst (batch ! i)) (int (length (rpp_kl (batch ! i))))
      else Inr (kl ! r ! i)) = Inr (rpp_kl (batch ! i))"
proof (cases "1 < n")
  case True
  have "map (\<lambda>v. v ! i) kl = map (\<lambda>r. cp_local r n (fst (batch ! i)) (rpp_kl (batch ! i))) [0..<n]" using assms(4) by (simp add: kl_def)
  with cp_gather_local [OF assms(1), of n "rpp_kl (batch ! i)" "fst (batch ! i)"] rpp_batch_okD(2) [OF assms(3), of "batch ! i"] True assms(4)
  show ?thesis by (simp only: if_True) (simp add: \<open>1 < n\<close> [THEN less_trans [OF zero_less_one]])
next
  case False
  then have "n = 1" "r = 0" using assms(2) by auto
  then show ?thesis using assms(4) by (simp add: kl_def slice_log_prob_with_cp_def)
qed

lemma rpp_token_rewards_run:
  assumes "sums_ranks all_reduce" "r < n" "rpp_batch_ok batch"
  defines "kl \<equiv> map (rpp_local rpp_kl batch n) [0..<n]"
  shows "res_map (\<lambda>i.
         res_bind (py_nth (kl ! r) i) (\<lambda>local_kl_chunk.
         res_bind (py_nth (map fst batch) i) (\<lambda>total_len.
         res_bind (py_nth (map (\<lambda>s. length (rpp_kl s)) batch) i) (\<lambda>response_len.
         res_bind (if 1 < n then all_gather_with_cp all_reduce (map (\<lambda>v. v ! i) kl) total_len (int response_len)
                   else Inr local_kl_chunk) (\<lambda>full_kl.
         res_bind (py_nth (map rpp_mask batch) i) (\<lambda>full_mask.
           reinforce_token_rewards kl_coef full_kl full_mask (map rpp_reward batch ! i))))))) [0..<length (map rpp_reward batch)]
      = Inr (map (rpp_token_rewards kl_coef) batch)"
proof -
  have "res_bind (py_nth (kl ! r) i) (\<lambda>local_kl_chunk.
         res_bind (py_nth (map fst batch) i) (\<lambda>total_len.
         res_bind (py_nth (map (\<lambda>s. length (rpp_kl s)) batch) i) (\<lambda>response_len.
         res_bind (if 1 < n then all_gather_with_cp all_reduce (map (\<lambda>v. v ! i) kl) total_len (int response_len)
                   else Inr local_kl_chunk) (\<lambda>full_kl.
         res_bind (py_nth (map rpp_mask batch) i) (\<lambda>full_mask.
           reinforce_token_rewards kl_coef full_kl full_mask (map rpp_reward batch ! i)))))) = Inr (rpp_token_rewards kl_coef (batch ! i))"
    if i: "i < length batch" for i
  proof -
    have "length (kl ! r) = length batch" using assms(2) by (simp add: kl_def)
    with gathered_kl [OF assms(1-3) i, folded kl_def] reinforce_token_rewards_eq [of "batch ! i" kl_coef] rpp_batch_okD(1,3) [OF assms(3), of "batch ! i"] i
    show ?thesis by (simp only: py_nth_def length_map if_True res_bind_Inr nth_map nth_mem)
  qed
  then have "res_map (\<lambda>i.
         res_bind (py_nth (kl ! r) i) (\<lambda>local_kl_chunk.
         res_bind (py_nth (map fst batch) i) (\<lambda>total_len.
         res_bind (py_nth (map (\<lambda>s. length (rpp_kl s)) batch) i) (\<lambda>response_len.
         res_bind (if 1 < n then all_gather_with_cp all_reduce (map (\<lambda>v. v ! i) kl) total_len (int response_len)
                   else Inr local_kl_chunk) (\<lambda>full_kl.
         res_bind (py_nth (map rpp_mask batch) i) (\<lambda>full_mask.
           reinforce_token_rewards kl_coef full_kl full_mask (map rpp_reward batch ! i))))))) [0..<length (map rpp_reward batch)]
      = Inr (map (\<lambda>i. rpp_token_rewards kl_coef (batch ! i)) [0..<length (map rpp_reward batch)])"
    by (intro res_map_Inr_ball ballI) simp
  then show ?thesis by (simp only: length_map map_nth_upt)
qed

lemma sliced_returns:
  assumes "r < n" "rpp_batch_ok batch" "rows = map (\<lambda>s. discounted gamma (rpp_token_rewards kl_coef s) @ replicate (pad s) 0) batch"
  shows "res_map (\<lambda>i. if 1 < n
        then slice_log_prob_with_cp (int r) (int n) (take (length (map (rpp_token_rewards kl_coef) batch ! i)) (rows ! i))
               (map fst batch ! i) (int (map (\<lambda>s. length (rpp_kl s)) batch ! i))
        else Inr (take (length (map (rpp_token_rewards kl_coef) batch ! i)) (rows ! i))) [0..<length rows]
      = Inr (rpp_local (\<lambda>s. discounted gamma (rpp_token_rewards kl_coef s)) batch n r)"
proof -
  let ?d = "\<lambda>i. discounted gamma (rpp_token_rewards kl_coef (batch ! i))"
  have one: "(if 1 < n
        then slice_log_prob_with_cp (int r) (int n) (take (length (map (rpp_token_rewards kl_coef) batch ! i)) (rows ! i))
               (map fst batch ! i) (int (map (\<lambda>s. length (rpp_kl s)) batch ! i))
        else Inr (take (length (map (rpp_token_rewards kl_coef) batch ! i)) (rows ! i))) = Inr (cp_local r n (fst (batch ! i)) (?d i))"
    if i: "i < length batch" for i
  proof -
    have row: "take (length (map (rpp_token_rewards kl_coef) batch ! i)) (rows ! i) = ?d i" using i by (simp add: assms(3))
    have len: "length (?d i) = length (rpp_kl (batch ! i))" by simp
    have "int (length (?d i)) < fst (batch ! i)" using rpp_batch_okD(2) [OF assms(2), of "batch ! i"] i by simp
    note local = cp_local_returns [OF assms(1) this]
    show ?thesis
    proof (cases "1 < n")
      case True
      then show ?thesis using local i unfolding row by (simp only: if_True nth_map len)
    next
      case False
      then have "n = 1" "r = 0" using assms(1) by auto
      then show ?thesis unfolding row by (simp add: slice_log_prob_with_cp_def)
    qed
  qed
  have rows: "length rows = length batch" by (simp add: assms(3))
  have "res_map (\<lambda>i. if 1 < n
        then slice_log_prob_with_cp (int r) (int n) (take (length (map (rpp_token_rewards kl_coef) batch ! i)) (rows ! i))
               (map fst batch ! i) (int (map (\<lambda>s. length (rpp_kl s)) batch ! i))
        else Inr (take (length (map (rpp_token_rewards kl_coef) batch ! i)) (rows ! i))) [0..<length rows]
      = Inr (map (\<lambda>i. cp_local r n (fst (batch ! i)) (?d i)) [0..<length rows])"
    using one rows by (intro res_map_Inr_ball ballI) simp
  then show ?thesis unfolding rows map_nth_upt [of "\<lambda>s. cp_local r n (fst s) (discounted gamma (rpp_token_rewards kl_coef s))"] .
qed

lemma reinforce_returns_slices:
  assumes "sums_ranks all_reduce" "r < n" "rpp_batch_ok batch"
  shows "get_reinforce_plus_plus_returns all_reduce r (map rpp_reward batch) (map (rpp_local rpp_kl batch n) [0..<n])
      (map rpp_mask batch) (map (\<lambda>s. length (rpp_kl s)) batch) (map fst batch) kl_coef gamma
    = Inr (rpp_local (\<lambda>s. discounted gamma (rpp_token_rewards kl_coef s)) batch n r)"
proof (cases "batch = []")
  case True
  then show ?thesis by (simp add: get_reinforce_plus_plus_returns_def)
next
  case False
  let ?TL = "map (rpp_token_rewards kl_coef) batch"
  define m where "m = fold max (map length ?TL) 0"
  define rows where "rows = map (\<lambda>s. discounted gamma (rpp_token_rewards kl_coef s) @ replicate (m - length (rpp_token_rewards kl_coef s)) 0) batch"
  have returns: "chunked_discounted_returns (map (\<lambda>r. r @ replicate (m - length r) 0) ?TL) gamma 128 = Inr rows"
    by (simp add: chunked_discounted_returns_def discounted_returns_row_eq discounted_pad rows_def)
  have n: "length (map (rpp_local rpp_kl batch n) [0..<n]) = n" "?TL \<noteq> []" using False by simp_all
  show ?thesis
    unfolding get_reinforce_plus_plus_returns_def Let_def n(1) rpp_token_rewards_run [OF assms]
    using n(2) by (simp only: res_bind_Inr if_False m_def [symmetric] returns sliced_returns [OF assms(2,3) rows_def])
qed

text \<open>the REINFORCE++ returns of a batch are, on every rank, the rank's slices of the discounted sums of
  the sequence's token rewards, whatever the padding and the context-parallel layout.\<close>

theorem reinforce_returns_layout_independent:
  assumes "sums_ranks all_reduce" "r < n" "rpp_batch_ok batch"
  shows "get_reinforce_plus_plus_returns all_reduce r (map rpp_reward batch) (map (rpp_local rpp_kl batch n) [0..<n])
      (map rpp_mask batch) (map (\<lambda>s. length (rpp_kl s)) batch) (map fst batch) kl_coef gamma
    = Inr (rpp_local (\<lambda>s. discounted gamma (rpp_token_rewards kl_coef s)) batch n r)"
  by (rule reinforce_returns_slices [OF assms])

theorem reinforce_returns_layout_independent_witness:
  "get_reinforce_plus_plus_returns vec_sum 0 [2] (map (rpp_local rpp_kl [(4, [1, 3], [1, 0], 2)] 2) [0..<2])
      [[1, 0]] [Suc (Suc 0)] [4] 1 1
    = Inr (rpp_local (\<lambda>s. discounted 1 (rpp_token_rewards 1 s)) [(4, [1, 3], [1, 0], 2)] 2 0)"
  using reinforce_returns_layout_independent [OF vec_sum_sums_ranks, of 0 2 "[(4, [1, 3], [1, 0], 2)]" 1 1]
  by (simp add: rpp_batch_ok_def)

section \<open>Losses and KL estimators\<close>

lemma exp_minus_one_nonneg: "0 \<le> exp x - 1 - (x :: real)"
  using exp_ge_add_one_self [of x] by linarith

text \<open>C12: the per-token policy loss is the pessimistic clipped objective: a positive advantage is rewarded up to
  the upper ratio bound only, a negative one is punished from the lower bound on, and with dual
  clipping never by more than \<open>eps_clip_c\<close> times the advantage; it is never below the unclipped loss
  unless dual clipping bounds a negative advantage.\<close>

theorem policy_loss_token_clipped:
  assumes "0 \<le> eps" "0 \<le> eps_high"
  shows "fst (policy_loss_token eps eps_high c kl adv) =
      (if 0 \<le> adv then - min (exp (- kl)) (1 + eps_high) * adv
       else case c of None \<Rightarrow> - max (exp (- kl)) (1 - eps) * adv
                    | Some c \<Rightarrow> - min c (max (exp (- kl)) (1 - eps)) * adv)
    \<and> (0 \<le> adv \<or> c = None \<longrightarrow> - exp (- kl) * adv \<le> fst (policy_loss_token eps eps_high c kl adv))
    \<and> (snd (policy_loss_token eps eps_high c kl adv) = 1 \<longleftrightarrow>
         0 < adv \<and> 1 + eps_high < exp (- kl) \<or> adv < 0 \<and> exp (- kl) < 1 - eps)"
proof -
  define x where "x = exp (- kl)"
  have le: "1 - eps \<le> 1 + eps_high" using assms by simp
  have loss: "max (- x * adv) (- clamp (1 - eps) (1 + eps_high) x * adv) =
      (if 0 \<le> adv then - min x (1 + eps_high) * adv else - max x (1 - eps) * adv)"
  proof (cases "0 \<le> adv")
    case True
    then have "max (- x * adv) (- clamp (1 - eps) (1 + eps_high) x * adv) = - (min x (clamp (1 - eps) (1 + eps_high) x)) * adv"
      by (simp only: minus_min_eq_max max_mult_distrib_right if_True)
    moreover have "min x (clamp (1 - eps) (1 + eps_high) x) = min x (1 + eps_high)" using le by (auto simp: clamp_def)
    ultimately show ?thesis using True by simp
  next
    case False
    then have "max (- x * adv) (- clamp (1 - eps) (1 + eps_high) x * adv) = - (max x (clamp (1 - eps) (1 + eps_high) x)) * adv"
      by (simp only: minus_max_eq_min min_mult_distrib_right if_False)
    moreover have "max x (clamp (1 - eps) (1 + eps_high) x) = max x (1 - eps)" using le by (auto simp: clamp_def)
    ultimately show ?thesis using False by simp
  qed
  have clip: "- clamp (1 - eps) (1 + eps_high) x * adv > - x * adv \<longleftrightarrow> 0 < adv \<and> 1 + eps_high < x \<or> adv < 0 \<and> x < 1 - eps"
  proof -
    have "- clamp (1 - eps) (1 + eps_high) x * adv > - x * adv \<longleftrightarrow> clamp (1 - eps) (1 + eps_high) x * adv < x * adv" by simp
    also have "\<dots> \<longleftrightarrow> 0 < adv \<and> clamp (1 - eps) (1 + eps_high) x < x \<or> adv < 0 \<and> x < clamp (1 - eps) (1 + eps_high) x"
      by (simp add: mult_less_cancel_right_disj)
    also have "\<dots> \<longleftrightarrow> 0 < adv \<and> 1 + eps_high < x \<or> adv < 0 \<and> x < 1 - eps" using le by (auto simp: clamp_def)
    finally show ?thesis .
  qed
  have dual: "min (- c * adv) (- max x (1 - eps) * adv) = - min c (max x (1 - eps)) * adv" if "adv < 0" for c
  proof -
    have "\<not> 0 \<le> adv" using that by simp
    then show ?thesis by (simp only: minus_min_eq_max max_mult_distrib_right if_False)
  qed
  show ?thesis
    using dual unfolding policy_loss_token_def Let_def x_def [symmetric] fst_conv snd_conv loss clip
    by (cases c) (auto simp: min_def max_def intro: mult_right_mono mult_right_mono_neg)
qed

theorem policy_loss_token_clipped_witness:
  "fst (policy_loss_token (1 / 5) (1 / 5) None 0 2) = - 2"
  using policy_loss_token_clipped [of "1 / 5" "1 / 5" None 0 2] by simp

text \<open>without an importance ratio, the k2, k3 and low-variance KL estimators are non-negative on every
  token and vanish where the two policies agree, and the low-variance one is at most 10.\<close>

theorem approx_kl_nonneg:
  assumes "length lp = length base" "kind \<in> {''k2'', ''k3'', ''low_var_kl''}"
  shows "\<exists>kl. compute_approx_kl lp base kind None = Inr kl \<and> length kl = length lp \<and>
    (\<forall>i < length lp. 0 \<le> kl ! i \<and> (lp ! i = base ! i \<longrightarrow> kl ! i = 0) \<and> (kind = ''low_var_kl'' \<longrightarrow> kl ! i \<le> 10))"
proof -
  have nonneg: "0 \<le> exp (y - x) - 1 + (x - y)" for x y :: real using exp_minus_one_nonneg [of "y - x"] by linarith
  from assms(2) consider "kind = ''k2''" | "kind = ''k3''" | "kind = ''low_var_kl''" by auto
  then show ?thesis
    by cases (use assms(1) nonneg in \<open>auto simp: compute_approx_kl_def clamp_def Let_def le_max_iff_disj\<close>)
qed

theorem approx_kl_nonneg_witness: "\<exists>kl. compute_approx_kl [1, 2] [1, 3] ''k3'' None = Inr kl \<and> kl ! 0 = 0"
  using approx_kl_nonneg [of "[1, 2]" "[1, 3]" "''k3''"] by force

end
