(* ===== verification/Sample_Types.thy ===== *)
theory Sample_Types
  imports Values
begin

text \<open>
  The data that rollout and training exchange, \<open>vime/utils/types.py\<close>: the \<open>Sample\<close> dataclass with its
  counters and the operations that append response tokens and keep the training metadata aligned.
\<close>

section \<open>The sample\<close>

datatype sample_status = PENDING | COMPLETED | TRUNCATED | ABORTED | FAILED

record spec_info =
  spec_accept_token_num :: int
  spec_draft_token_num :: int
  spec_verify_ct :: int
  completion_token_num :: int

record prefix_cache_info =
  cached_tokens :: int
  total_prompt_tokens :: int

definition spec_info_new :: spec_info where
  "spec_info_new = \<lparr>spec_accept_token_num = 0, spec_draft_token_num = 0, spec_verify_ct = 0, completion_token_num = 0\<rparr>"

definition prefix_cache_info_new :: prefix_cache_info where
  "prefix_cache_info_new = \<lparr>cached_tokens = 0, total_prompt_tokens = 0\<rparr>"

text \<open>Routed experts are kept as one tensor, a handle, or the chunks of a partial rollout; a nested
  Python list is the tensor it converts to.\<close>

datatype routed = RTensor expert_tensor | RRef tensor_ref | RChunks "expert_tensor list"

record sample =
  sm_group_index :: "int option"
  sm_index :: "int option"
  sm_rollout_id :: "int option"
  sm_prompt :: py_value
  sm_tokens :: "int list"
  sm_multimodal_inputs :: "py_dict option"
  sm_multimodal_train_inputs :: "py_dict option"
  sm_multimodal_train_input_id :: "string option"
  sm_apply_chat_template_kwargs :: py_dict
  sm_response :: string
  sm_response_length :: int
  sm_label :: "string option"
  sm_reward :: py_value
  sm_loss_mask :: "int list option"
  sm_weight_versions :: "string list"
  sm_rollout_log_probs :: "fp list option"
  sm_topk_token_ids :: "int matrix stored option"
  sm_topk_log_probs :: "fp matrix stored option"
  sm_top_p_token_ids :: "int list stored option"
  sm_top_p_token_offsets :: "int list stored option"
  sm_top_p_log_probs :: "fp list stored option"
  sm_routed_experts :: "routed option"
  sm_remove_sample :: bool
  sm_teacher_log_probs :: "fp list option"
  sm_status :: sample_status
  sm_metadata :: py_dict
  sm_generate_function_path :: "string option"
  sm_custom_rm_path :: "string option"
  sm_train_metadata :: "py_dict option"
  sm_session_id :: "string option"
  sm_non_generation_time :: real
  sm_spec_info :: spec_info
  sm_prefix_cache_info :: prefix_cache_info
  sm_trace :: "py_value option"

definition sample_new :: sample where
  "sample_new = \<lparr>sm_group_index = None, sm_index = None, sm_rollout_id = None, sm_prompt = PyStr [], sm_tokens = [],
     sm_multimodal_inputs = None, sm_multimodal_train_inputs = None, sm_multimodal_train_input_id = None,
     sm_apply_chat_template_kwargs = fmempty, sm_response = [], sm_response_length = 0, sm_label = None,
     sm_reward = PyNone, sm_loss_mask = None, sm_weight_versions = [], sm_rollout_log_probs = None,
     sm_topk_token_ids = None, sm_topk_log_probs = None, sm_top_p_token_ids = None,
     sm_top_p_token_offsets = None, sm_top_p_log_probs = None, sm_routed_experts = None,
     sm_remove_sample = False, sm_teacher_log_probs = None, sm_status = PENDING, sm_metadata = fmempty,
     sm_generate_function_path = None, sm_custom_rm_path = None, sm_train_metadata = None,
     sm_session_id = None, sm_non_generation_time = 0, sm_spec_info = spec_info_new,
     sm_prefix_cache_info = prefix_cache_info_new, sm_trace = None\<rparr>"

section \<open>Reward and effective length\<close>

text \<open>\<open>get_reward_value\<close>: the reward, or the entry the reward key selects in it.\<close>

definition get_reward_value :: "string option \<Rightarrow> sample \<Rightarrow> py_value result" where
  "get_reward_value reward_key s =
     (case reward_key of
        None \<Rightarrow> Inr (sm_reward s)
      | Some key \<Rightarrow>
          if key = [] then Inr (sm_reward s)
          else (case sm_reward s of
              PyDict d \<Rightarrow> (case fmlookup d key of None \<Rightarrow> Inl (KeyError key) | Some v \<Rightarrow> Inr v)
            | _ \<Rightarrow> Inl (TypeError ''object is not subscriptable by a string'')))"

definition effective_response_length :: "sample \<Rightarrow> int" where
  "effective_response_length s = (case sm_loss_mask s of Some m \<Rightarrow> sum_list m | None \<Rightarrow> sm_response_length s)"

section \<open>Multimodal types\<close>

record multimodal_type =
  mm_name :: string
  mm_placeholder :: string

definition multimodal_types_all :: "multimodal_type list" where
  "multimodal_types_all = [\<lparr>mm_name = ''image'', mm_placeholder = ''<image>''\<rparr>,
     \<lparr>mm_name = ''video'', mm_placeholder = ''<video>''\<rparr>, \<lparr>mm_name = ''audio'', mm_placeholder = ''<audio>''\<rparr>]"

definition multimodal_types_get :: "string \<Rightarrow> multimodal_type option" where
  "multimodal_types_get name = find (\<lambda>m. mm_name m = name) multimodal_types_all"

section \<open>Engine metadata\<close>

text \<open>
  The \<open>meta_info\<close> dictionary of a generation response: the encoded arrays by key, the sampler captures,
  the counters by key, and the finish reason. A byte string is a list of characters. Base64 (pybase64)
  and \<open>torch.frombuffer\<close> are parameters.
\<close>

datatype meta_array = MNone | MStr string | MBytes string | MTensor "int list" | MList "int list"

record meta_info =
  mi_arrays :: "string \<rightharpoonup> meta_array"
  mi_topk :: "(int matrix \<times> fp matrix) option"
  mi_top_p :: "(int list \<times> int list \<times> fp list) option"
  mi_counters :: "string \<rightharpoonup> int"
  mi_weight_versions :: "string list option"
  mi_weight_version :: "string option"
  mi_finish_reason :: "string option"

definition meta_info_empty :: meta_info where
  "meta_info_empty = \<lparr>mi_arrays = Map.empty, mi_topk = None, mi_top_p = None, mi_counters = Map.empty,
     mi_weight_versions = None, mi_weight_version = None, mi_finish_reason = None\<rparr>"

record meta_codec =
  b64decode :: "string \<Rightarrow> string result"
  frombuffer_int32 :: "string \<Rightarrow> int list result"

fun first_present :: "(string \<rightharpoonup> 'a) \<Rightarrow> string list \<Rightarrow> 'a option" where
  "first_present m [] = None"
| "first_present m (k # ks) = (case m k of Some v \<Rightarrow> Some v | None \<Rightarrow> first_present m ks)"

definition decode_int32_meta_array :: "meta_codec \<Rightarrow> (string \<rightharpoonup> meta_array) \<Rightarrow> string list \<Rightarrow> int list option result" where
  "decode_int32_meta_array codec arrays keys =
     (case first_present arrays keys of
        None \<Rightarrow> Inr None
      | Some MNone \<Rightarrow> Inr None
      | Some (MStr s) \<Rightarrow> res_bind (b64decode codec s) (\<lambda>raw. res_bind (frombuffer_int32 codec raw) (\<lambda>xs. Inr (Some xs)))
      | Some (MBytes raw) \<Rightarrow> res_bind (frombuffer_int32 codec raw) (\<lambda>xs. Inr (Some xs))
      | Some (MTensor xs) \<Rightarrow> Inr (Some (map wrap32 xs))
      | Some (MList xs) \<Rightarrow>
          if \<exists>x \<in> set xs. wrap32 x \<noteq> x then Inl (RuntimeError ''value cannot be converted to type int32_t without overflow'')
          else Inr (Some xs))"

section \<open>Counters\<close>

definition counter :: "(string \<rightharpoonup> int) \<Rightarrow> string \<Rightarrow> int \<Rightarrow> int" where
  "counter m key dflt = (case m key of None \<Rightarrow> dflt | Some v \<Rightarrow> v)"

definition spec_accept_rate :: "spec_info \<Rightarrow> real" where
  "spec_accept_rate i = (if 0 < spec_draft_token_num i then spec_accept_token_num i / spec_draft_token_num i else 0)"

definition spec_accept_length :: "spec_info \<Rightarrow> real" where
  "spec_accept_length i = (if 0 < spec_verify_ct i then completion_token_num i / spec_verify_ct i else 0)"

definition spec_info_add :: "(string \<rightharpoonup> int) \<Rightarrow> spec_info \<Rightarrow> spec_info" where
  "spec_info_add m i = \<lparr>
     spec_accept_token_num = spec_accept_token_num i +
       counter m ''spec_num_correct_drafts'' (counter m ''spec_accept_token_num'' 0),
     spec_draft_token_num = spec_draft_token_num i +
       counter m ''spec_num_proposed_drafts'' (counter m ''spec_draft_token_num'' 0),
     spec_verify_ct = spec_verify_ct i + counter m ''spec_verify_ct'' 0,
     completion_token_num = completion_token_num i + counter m ''completion_tokens'' 0\<rparr>"

definition prefix_cache_hit_rate :: "prefix_cache_info \<Rightarrow> real" where
  "prefix_cache_hit_rate i = (if 0 < total_prompt_tokens i then cached_tokens i / total_prompt_tokens i else 0)"

definition prefix_cache_info_add :: "(string \<rightharpoonup> int) \<Rightarrow> prefix_cache_info \<Rightarrow> prefix_cache_info" where
  "prefix_cache_info_add m i = \<lparr>cached_tokens = cached_tokens i + counter m ''cached_tokens'' 0,
     total_prompt_tokens = total_prompt_tokens i + counter m ''prompt_tokens'' 0\<rparr>"

definition spec_info_to_dict :: "spec_info \<Rightarrow> (string \<rightharpoonup> int)" where
  "spec_info_to_dict i = [''spec_accept_token_num'' \<mapsto> spec_accept_token_num i,
     ''spec_draft_token_num'' \<mapsto> spec_draft_token_num i, ''spec_verify_ct'' \<mapsto> spec_verify_ct i,
     ''completion_token_num'' \<mapsto> completion_token_num i]"

definition spec_info_from_dict :: "(string \<rightharpoonup> int) \<Rightarrow> spec_info" where
  "spec_info_from_dict d = \<lparr>spec_accept_token_num = counter d ''spec_accept_token_num'' 0,
     spec_draft_token_num = counter d ''spec_draft_token_num'' 0, spec_verify_ct = counter d ''spec_verify_ct'' 0,
     completion_token_num = counter d ''completion_token_num'' 0\<rparr>"

definition prefix_cache_info_to_dict :: "prefix_cache_info \<Rightarrow> (string \<rightharpoonup> int)" where
  "prefix_cache_info_to_dict i = [''cached_tokens'' \<mapsto> cached_tokens i, ''total_prompt_tokens'' \<mapsto> total_prompt_tokens i]"

definition prefix_cache_info_from_dict :: "(string \<rightharpoonup> int) \<Rightarrow> prefix_cache_info" where
  "prefix_cache_info_from_dict d = \<lparr>cached_tokens = counter d ''cached_tokens'' 0,
     total_prompt_tokens = counter d ''total_prompt_tokens'' 0\<rparr>"

lemma spec_info_roundtrip [simp]: "spec_info_from_dict (spec_info_to_dict i) = i"
  by (simp add: spec_info_from_dict_def spec_info_to_dict_def counter_def)

lemma prefix_cache_info_roundtrip [simp]: "prefix_cache_info_from_dict (prefix_cache_info_to_dict i) = i"
  by (simp add: prefix_cache_info_from_dict_def prefix_cache_info_to_dict_def counter_def)

section \<open>Dictionaries of samples\<close>

text \<open>
  \<open>to_dict\<close> and \<open>from_dict\<close> see the sample as its attribute dictionary: the status and the two counter
  records are converted, everything else is passed through. The type of the other values is left open.
\<close>

datatype 'v attr = Plain 'v | StatusAttr sample_status | SpecAttr spec_info | PrefixAttr prefix_cache_info

datatype 'v dict_value = DPlain 'v | DStr string | DCounters "string \<rightharpoonup> int"

definition status_value :: "sample_status \<Rightarrow> string" where
  "status_value s = (case s of PENDING \<Rightarrow> ''pending'' | COMPLETED \<Rightarrow> ''completed'' | TRUNCATED \<Rightarrow> ''truncated''
     | ABORTED \<Rightarrow> ''aborted'' | FAILED \<Rightarrow> ''failed'')"

text \<open>\<open>Sample.Status(value)\<close>\<close>

definition status_of :: "'v dict_value \<Rightarrow> sample_status result" where
  "status_of v = (case v of
       DStr s \<Rightarrow> if s = ''pending'' then Inr PENDING else if s = ''completed'' then Inr COMPLETED
         else if s = ''truncated'' then Inr TRUNCATED else if s = ''aborted'' then Inr ABORTED
         else if s = ''failed'' then Inr FAILED else Inl (ValueError ''not a valid Sample.Status'')
     | _ \<Rightarrow> Inl (ValueError ''not a valid Sample.Status''))"

definition attr_to_value :: "'v attr \<Rightarrow> 'v dict_value" where
  "attr_to_value a = (case a of Plain v \<Rightarrow> DPlain v | StatusAttr s \<Rightarrow> DStr (status_value s)
     | SpecAttr i \<Rightarrow> DCounters (spec_info_to_dict i) | PrefixAttr i \<Rightarrow> DCounters (prefix_cache_info_to_dict i))"

definition sample_to_dict :: "(string \<rightharpoonup> 'v attr) \<Rightarrow> (string \<rightharpoonup> 'v dict_value)" where
  "sample_to_dict attrs key = map_option attr_to_value (attrs key)"

definition counters_of :: "'v dict_value option \<Rightarrow> (string \<rightharpoonup> int)" where
  "counters_of v = (case v of Some (DCounters d) \<Rightarrow> d | _ \<Rightarrow> Map.empty)"

text \<open>\<open>defaults\<close> holds the dataclass defaults of the fields; keys that are no field are set as attributes.\<close>

definition sample_from_dict ::
  "(string \<rightharpoonup> 'v attr) \<Rightarrow> (string \<rightharpoonup> 'v dict_value) \<Rightarrow> (string \<rightharpoonup> 'v attr) result" where
  "sample_from_dict defaults data =
     (case data ''status'' of
        None \<Rightarrow> Inl (KeyError ''status'')
      | Some v \<Rightarrow> res_bind (status_of v) (\<lambda>status.
          Inr (defaults ++ (\<lambda>key. if key = ''status'' then Some (StatusAttr status)
            else if key = ''spec_info'' then Some (SpecAttr (spec_info_from_dict (counters_of (data key))))
            else if key = ''prefix_cache_info'' then Some (PrefixAttr (prefix_cache_info_from_dict (counters_of (data key))))
            else (case data key of Some (DPlain v) \<Rightarrow> Some (Plain v) | _ \<Rightarrow> None)))))"

lemma status_roundtrip [simp]: "status_of (DStr (status_value s)) = Inr s"
  by (cases s) (simp_all add: status_of_def status_value_def)

text \<open>A sample survives the trip through its dictionary: \<open>from_dict\<close> restores every attribute of any
  object whose status and counter attributes have their types, attributes that are no field included.\<close>

theorem sample_dict_roundtrip:
  assumes "attrs ''status'' = Some (StatusAttr status)" "attrs ''spec_info'' = Some (SpecAttr spec)"
    and "attrs ''prefix_cache_info'' = Some (PrefixAttr prefix)" "dom defaults \<subseteq> dom attrs"
    and plain: "\<And>key. key \<notin> {''status'', ''spec_info'', ''prefix_cache_info''} \<Longrightarrow> attrs key = None \<or> (\<exists>v. attrs key = Some (Plain v))"
  shows "sample_from_dict defaults (sample_to_dict attrs) = Inr attrs"
proof -
  have key: "(if key = ''status'' then Some (StatusAttr status)
      else if key = ''spec_info'' then Some (SpecAttr (spec_info_from_dict (counters_of (sample_to_dict attrs key))))
      else if key = ''prefix_cache_info''
        then Some (PrefixAttr (prefix_cache_info_from_dict (counters_of (sample_to_dict attrs key))))
      else (case sample_to_dict attrs key of Some (DPlain v) \<Rightarrow> Some (Plain v) | _ \<Rightarrow> None)) = attrs key" for key
    using assms(1-3) plain [of key]
    by (auto simp: sample_to_dict_def attr_to_value_def counters_of_def)
  have "defaults ++ attrs = attrs" using assms(4) by (auto simp: map_add_def fun_eq_iff dom_def split: option.splits)
  moreover have "sample_to_dict attrs ''status'' = Some (DStr (status_value status))"
    using assms(1) by (simp add: sample_to_dict_def attr_to_value_def)
  ultimately show ?thesis by (simp only: sample_from_dict_def option.case status_roundtrip res_bind_Inr key)
qed

theorem sample_dict_roundtrip_witness:
  "sample_from_dict [''index'' \<mapsto> Plain (0 :: int)]
     (sample_to_dict [''status'' \<mapsto> StatusAttr TRUNCATED, ''spec_info'' \<mapsto> SpecAttr spec_info_new,
        ''prefix_cache_info'' \<mapsto> PrefixAttr prefix_cache_info_new, ''index'' \<mapsto> Plain (7 :: int), ''trace'' \<mapsto> Plain 1]) =
   Inr [''status'' \<mapsto> StatusAttr TRUNCATED, ''spec_info'' \<mapsto> SpecAttr spec_info_new,
        ''prefix_cache_info'' \<mapsto> PrefixAttr prefix_cache_info_new, ''index'' \<mapsto> Plain (7 :: int), ''trace'' \<mapsto> Plain 1]"
  by (rule sample_dict_roundtrip [where status = TRUNCATED and spec = spec_info_new and prefix = prefix_cache_info_new]) auto

end
