(* ===== verification/Trajectory.thy ===== *)
theory Trajectory
  imports Sample_Types
begin

text \<open>
  \<open>vime/agent/trajectory.py\<close>: turns recorded into a per-session tree of chat messages, and the
  linearisation of that tree into loss-masked samples. A session's tree is a nested datatype; a node is
  addressed by its path of child positions from the root, which stands for the parent pointers.
  The fields of a turn's replay dictionary are the keys of \<open>REPLAY_FIELDS\<close>, a missing key is \<open>None\<close>.
\<close>

section \<open>Turns and nodes\<close>

record replay =
  rp_top_p_token_ids :: "int list option"
  rp_top_p_token_offsets :: "int list option"
  rp_top_p_log_probs :: "fp list option"
  rp_topk_token_ids :: "int matrix option"
  rp_topk_log_probs :: "fp matrix option"
  rp_routed_experts :: "expert_tensor option"

definition replay_empty :: replay where
  "replay_empty = \<lparr>rp_top_p_token_ids = None, rp_top_p_token_offsets = None, rp_top_p_log_probs = None,
     rp_topk_token_ids = None, rp_topk_log_probs = None, rp_routed_experts = None\<rparr>"

definition replay_keys :: "replay \<Rightarrow> string list" where
  "replay_keys r = map fst (filter snd
     [(''rollout_top_p_token_ids'', rp_top_p_token_ids r \<noteq> None),
      (''rollout_top_p_token_offsets'', rp_top_p_token_offsets r \<noteq> None),
      (''rollout_top_p_log_probs'', rp_top_p_log_probs r \<noteq> None),
      (''rollout_topk_token_ids'', rp_topk_token_ids r \<noteq> None),
      (''rollout_topk_log_probs'', rp_topk_log_probs r \<noteq> None),
      (''rollout_routed_experts'', rp_routed_experts r \<noteq> None)])"

record turn_record =
  tr_prompt_ids :: "int list"
  tr_output_ids :: "int list"
  tr_finish_reason :: string
  tr_output_log_probs :: "fp list"
  tr_ill_formed :: bool
  tr_replay :: "replay option"
  tr_weight_versions :: "string list"
  tr_spec_info :: spec_info
  tr_prefix_cache_info :: prefix_cache_info

type_synonym message = py_dict

definition msg_get :: "message \<Rightarrow> string \<Rightarrow> py_value" where
  "msg_get m k = (case fmlookup m k of None \<Rightarrow> PyNone | Some v \<Rightarrow> v)"

record node_info =
  nd_role :: py_value
  nd_message :: "message option"
  nd_metadata :: py_dict
  nd_turn :: "turn_record option"
  nd_turn_index :: "nat option"
  nd_response_trained :: bool

datatype message_node = MessageNode (nd_info: node_info) (nd_children: "message_node list")

definition message_node_new :: "py_value \<Rightarrow> message option \<Rightarrow> py_dict \<Rightarrow> message_node" where
  "message_node_new role msg md = MessageNode
     \<lparr>nd_role = role, nd_message = msg, nd_metadata = md, nd_turn = None, nd_turn_index = None,
      nd_response_trained = False\<rparr> []"

text \<open>The node at a path, and an update of the node at a path.\<close>

type_synonym path = "nat list"

fun node_at :: "message_node \<Rightarrow> path \<Rightarrow> message_node option" where
  "node_at n [] = Some n"
| "node_at n (j # p) = (if j < length (nd_children n) then node_at (nd_children n ! j) p else None)"

fun update_at :: "path \<Rightarrow> (message_node \<Rightarrow> message_node) \<Rightarrow> message_node \<Rightarrow> message_node" where
  "update_at [] f n = f n"
| "update_at (j # p) f n =
     (if j < length (nd_children n)
      then MessageNode (nd_info n) ((nd_children n)[j := update_at p f (nd_children n ! j)]) else n)"

definition add_child :: "message_node \<Rightarrow> path \<Rightarrow> message_node \<Rightarrow> message_node \<times> path" where
  "add_child tree p child =
     (update_at p (\<lambda>n. MessageNode (nd_info n) (nd_children n @ [child])) tree,
      p @ [case node_at tree p of None \<Rightarrow> 0 | Some n \<Rightarrow> length (nd_children n)])"

text \<open>\<open>path_from_root()\<close>: the positions from the first non-root ancestor down to the node itself.\<close>

definition path_from_root :: "path \<Rightarrow> path list" where
  "path_from_root p = map (\<lambda>i. take (Suc i) p) [0..<length p]"

fun leaves :: "message_node \<Rightarrow> path list" and leaves_of :: "nat \<Rightarrow> message_node list \<Rightarrow> path list" where
  "leaves (MessageNode i cs) = (if cs = [] then [[]] else leaves_of 0 cs)"
| "leaves_of j [] = []"
| "leaves_of j (c # cs) = map ((#) j) (leaves c) @ leaves_of (Suc j) cs"

section \<open>Drift classification\<close>

definition prefix_chunk :: nat where
  "prefix_chunk = 4096"

function scan_equal :: "'a list \<Rightarrow> 'a list \<Rightarrow> nat \<Rightarrow> nat \<Rightarrow> nat" where
  "scan_equal a b chunk_end matched =
     (if matched < chunk_end \<and> a ! matched = b ! matched then scan_equal a b chunk_end (Suc matched) else matched)"
  by pat_completeness auto
termination by (relation "measure (\<lambda>(a, b, e, m). e - m)") auto

function common_prefix_loop :: "'a list \<Rightarrow> 'a list \<Rightarrow> nat \<Rightarrow> nat" where
  "common_prefix_loop a b matched =
     (let limit = min (length a) (length b) in
      if matched < limit then
        let chunk_end = min (matched + prefix_chunk) limit
        in if slice matched chunk_end a = slice matched chunk_end b then common_prefix_loop a b chunk_end
           else scan_equal a b chunk_end matched
      else matched)"
  by pat_completeness auto
termination by (relation "measure (\<lambda>(a, b, m). min (length a) (length b) - m)") (auto simp: prefix_chunk_def)

definition common_prefix_len :: "'a list \<Rightarrow> 'a list \<Rightarrow> nat" where
  "common_prefix_len a b = common_prefix_loop a b 0"

datatype drift_kind = CLEAN | REALIGN | FORK

declare scan_equal.simps [simp del] common_prefix_loop.simps [simp del]

section \<open>The sample builder\<close>

record sample_builder =
  sb_fork_threshold :: int
  sb_tokens :: "int list"
  sb_loss_mask :: "int list"
  sb_logprobs :: "fp list"
  sb_last_response_start_idx :: "nat option"
  sb_leading_prompt_len :: nat
  sb_replay :: "replay option"
  sb_weight_versions :: "string list"
  sb_spec_info :: spec_info
  sb_prefix_cache_info :: prefix_cache_info

definition sample_builder_new :: "int \<Rightarrow> sample_builder" where
  "sample_builder_new threshold = \<lparr>sb_fork_threshold = threshold, sb_tokens = [], sb_loss_mask = [], sb_logprobs = [],
     sb_last_response_start_idx = None, sb_leading_prompt_len = 0, sb_replay = None, sb_weight_versions = [],
     sb_spec_info = spec_info_new, sb_prefix_cache_info = prefix_cache_info_new\<rparr>"

definition replay_or_empty :: "replay option \<Rightarrow> replay" where
  "replay_or_empty r = (case r of None \<Rightarrow> replay_empty | Some r \<Rightarrow> r)"

definition classify_token_drift :: "sample_builder \<Rightarrow> turn_record \<Rightarrow> drift_kind" where
  "classify_token_drift b turn =
     (let held_replay = replay_or_empty (sb_replay b); new_replay = replay_or_empty (tr_replay turn) in
      if rp_routed_experts held_replay \<noteq> None \<or> rp_routed_experts new_replay \<noteq> None \<or>
         replay_keys held_replay \<noteq> replay_keys new_replay then FORK
      else if (case (rp_topk_token_ids held_replay, rp_topk_token_ids new_replay) of
                 (Some h, Some n) \<Rightarrow> mat_width h \<noteq> mat_width n | _ \<Rightarrow> False) then FORK
      else
        let realign_at = common_prefix_len (sb_tokens b) (tr_prompt_ids turn);
            drift = length (sb_tokens b) - realign_at
        in if drift = 0 then CLEAN
           else if replay_keys held_replay \<noteq> [] then FORK
           else case sb_last_response_start_idx b of
               Some start \<Rightarrow>
                 if start \<le> realign_at \<and> int (length (tr_output_ids turn)) < sb_fork_threshold b then REALIGN else FORK
             | None \<Rightarrow> FORK)"

definition append_top_p :: "nat \<Rightarrow> replay \<Rightarrow> replay \<Rightarrow> replay result" where
  "append_top_p gap incoming held =
     (case (rp_top_p_token_offsets incoming, rp_top_p_token_offsets held) of
        (None, _) \<Rightarrow> Inr held
      | (Some new, None) \<Rightarrow> Inl (KeyError ''rollout_top_p_token_offsets'')
      | (Some new, Some offsets) \<Rightarrow> res_bind (py_last offsets) (\<lambda>last_offset.
          Inr (held\<lparr>rp_top_p_token_offsets :=
                 Some (offsets @ replicate gap last_offset @ map (\<lambda>o'. wrap32 (o' + last_offset)) (drop 1 new)),
               rp_top_p_token_ids := (case (rp_top_p_token_ids held, rp_top_p_token_ids incoming) of
                 (Some xs, Some ys) \<Rightarrow> Some (xs @ ys) | _ \<Rightarrow> rp_top_p_token_ids held),
               rp_top_p_log_probs := (case (rp_top_p_log_probs held, rp_top_p_log_probs incoming) of
                 (Some xs, Some ys) \<Rightarrow> Some (xs @ ys) | _ \<Rightarrow> rp_top_p_log_probs held)\<rparr>)))"

definition append_topk :: "nat \<Rightarrow> replay \<Rightarrow> replay \<Rightarrow> replay result" where
  "append_topk gap incoming held =
     (case rp_topk_token_ids incoming of
        None \<Rightarrow> Inr held
      | Some new_ids \<Rightarrow> let k = mat_width new_ids in
          (case rp_topk_token_ids held of
             None \<Rightarrow> Inl (KeyError ''rollout_topk_token_ids'')
           | Some ids \<Rightarrow>
               res_bind (mat_cat ids (Matrix k (replicate gap (map int [0..<k])))) (\<lambda>ids1.
               res_bind (mat_cat ids1 new_ids) (\<lambda>ids2.
               case (rp_topk_log_probs held, rp_topk_log_probs incoming) of
                 (Some lps, Some new_lps) \<Rightarrow>
                   if k = 0 then Inl (ValueError ''math domain error'')
                   else
                     res_bind (mat_cat lps (Matrix k (replicate gap (replicate k (Fin (- ln (real k))))))) (\<lambda>lps1.
                     res_bind (mat_cat lps1 new_lps) (\<lambda>lps2.
                     Inr (held\<lparr>rp_topk_token_ids := Some ids2, rp_topk_log_probs := Some lps2\<rparr>)))
               | _ \<Rightarrow> Inl (KeyError ''rollout_topk_log_probs'')))))"

definition append_replay :: "replay \<Rightarrow> int \<Rightarrow> sample_builder \<Rightarrow> sample_builder result" where
  "append_replay incoming gap b =
     (case sb_replay b of
        None \<Rightarrow> Inr (b\<lparr>sb_replay := Some incoming\<rparr>)
      | Some held \<Rightarrow>
          if gap < 0 \<or> replay_keys held \<noteq> replay_keys incoming
          then Inl (AssertionError ''gap >= 0 and self.replay.keys() == incoming.keys()'')
          else if rp_routed_experts incoming \<noteq> None then Inl (AssertionError ''rollout_routed_experts not in incoming'')
          else res_bind (append_top_p (nat gap) incoming held) (\<lambda>r.
               res_bind (append_topk (nat gap) incoming r) (\<lambda>r'. Inr (b\<lparr>sb_replay := Some r'\<rparr>))))"

definition append_tokens :: "int list \<Rightarrow> int \<Rightarrow> fp list \<Rightarrow> sample_builder \<Rightarrow> sample_builder" where
  "append_tokens ids loss_mask lps b = b\<lparr>
     sb_tokens := sb_tokens b @ ids,
     sb_loss_mask := sb_loss_mask b @ replicate (length ids) loss_mask,
     sb_logprobs := sb_logprobs b @ (if lps \<noteq> [] then lps else replicate (length ids) (Fin 0))\<rparr>"

definition align_to_prompt :: "int list \<Rightarrow> sample_builder \<Rightarrow> sample_builder" where
  "align_to_prompt prompt b =
     (let response_start = (case sb_last_response_start_idx b of None \<Rightarrow> 0 | Some s \<Rightarrow> s);
          tail = drop response_start prompt
      in b\<lparr>sb_tokens := take response_start (sb_tokens b) @ tail,
           sb_loss_mask := take response_start (sb_loss_mask b) @ replicate (length tail) 0,
           sb_logprobs := take response_start (sb_logprobs b) @ replicate (length tail) (Fin 0)\<rparr>)"

definition add_counters :: "turn_record \<Rightarrow> sample_builder \<Rightarrow> sample_builder" where
  "add_counters turn b =
     (let s = sb_spec_info b; t = tr_spec_info turn; c = sb_prefix_cache_info b; d = tr_prefix_cache_info turn in
      b\<lparr>sb_spec_info := \<lparr>spec_accept_token_num = spec_accept_token_num s + spec_accept_token_num t,
                          spec_draft_token_num = spec_draft_token_num s + spec_draft_token_num t,
                          spec_verify_ct = spec_verify_ct s + spec_verify_ct t,
                          completion_token_num = completion_token_num s + completion_token_num t\<rparr>,
        sb_prefix_cache_info := \<lparr>cached_tokens = cached_tokens c + cached_tokens d,
                                 total_prompt_tokens = total_prompt_tokens c + total_prompt_tokens d\<rparr>\<rparr>)"

text \<open>The statements of \<open>append_turn\<close> after the replay data, and the whole method.\<close>

definition absorb_turn :: "turn_record \<Rightarrow> drift_kind \<Rightarrow> bool \<Rightarrow> sample_builder \<Rightarrow> sample_builder" where
  "absorb_turn turn kind trained b1 =
     (let is_first_turn = (sb_last_response_start_idx b1 = None);
          b2 = (if kind = REALIGN then align_to_prompt (tr_prompt_ids turn) b1
                else append_tokens (drop (length (sb_tokens b1)) (tr_prompt_ids turn)) 0 [] b1);
          b3 = b2\<lparr>sb_last_response_start_idx := Some (length (sb_tokens b2))\<rparr>;
          b4 = append_tokens (tr_output_ids turn) (of_bool trained) (tr_output_log_probs turn) b3;
          b5 = b4\<lparr>sb_weight_versions := sb_weight_versions b4 @ tr_weight_versions turn\<rparr>;
          b6 = (if trained then add_counters turn b5 else b5)
      in if is_first_turn then b6\<lparr>sb_leading_prompt_len := length (tr_prompt_ids turn)\<rparr> else b6)"

definition append_turn :: "turn_record \<Rightarrow> drift_kind \<Rightarrow> bool \<Rightarrow> sample_builder \<Rightarrow> sample_builder result" where
  "append_turn turn kind trained b =
     (if kind = FORK then Inl (AssertionError ''append_turn called on a builder that would fork'')
      else res_bind (case tr_replay turn of
            None \<Rightarrow> Inr b
          | Some r \<Rightarrow> append_replay r
              (if sb_last_response_start_idx b = None then 0
               else int (length (tr_prompt_ids turn)) - int (length (sb_tokens b))) b)
        (\<lambda>b1. Inr (absorb_turn turn kind trained b1)))"

definition has_trained_response :: "sample_builder \<Rightarrow> bool" where
  "has_trained_response b = (\<exists>m \<in> set (drop (sb_leading_prompt_len b) (sb_loss_mask b)). m \<noteq> 0)"

text \<open>The fields of the emitted sample that come from the replay arrays.\<close>

definition set_replay_fields :: "replay \<Rightarrow> sample \<Rightarrow> sample result" where
  "set_replay_fields r s0 =
     (let count = sm_response_length s0;
          s1 = (case rp_topk_token_ids r of None \<Rightarrow> s0
                | Some m \<Rightarrow> s0\<lparr>sm_topk_token_ids := Some (Mem (mat_slice 0 count m))\<rparr>);
          s2 = (case rp_topk_log_probs r of None \<Rightarrow> s1
                | Some m \<Rightarrow> s1\<lparr>sm_topk_log_probs := Some (Mem (mat_slice 0 count m))\<rparr>)
      in res_bind (case rp_top_p_token_offsets r of
             None \<Rightarrow> Inr s2
           | Some all_offsets \<Rightarrow>
               let offsets = py_slice 0 (count + 1) all_offsets in
               res_bind (py_last offsets) (\<lambda>last_offset.
               case rp_top_p_token_ids r of
                 None \<Rightarrow> Inl (KeyError ''rollout_top_p_token_ids'')
               | Some ids \<Rightarrow>
                   let s3 = s2\<lparr>sm_top_p_token_offsets := Some (Mem offsets),
                               sm_top_p_token_ids := Some (Mem (py_slice 0 last_offset ids))\<rparr>
                   in Inr (case rp_top_p_log_probs r of None \<Rightarrow> s3
                           | Some lps \<Rightarrow> s3\<lparr>sm_top_p_log_probs := Some (Mem (py_slice 0 last_offset lps))\<rparr>)))
         (\<lambda>s4. Inr (case rp_routed_experts r of None \<Rightarrow> s4
           | Some e \<Rightarrow> s4\<lparr>sm_routed_experts :=
               Some (RTensor \<lparr>et_dims = et_dims e, et_rows = take (length (sm_tokens s0) - 1) (et_rows e)\<rparr>)\<rparr>)))"

definition to_sample :: "sample \<Rightarrow> py_dict \<Rightarrow> nat \<Rightarrow> sample_builder \<Rightarrow> sample result" where
  "to_sample base_sample md max_sample_tokens b =
     (let start = sb_leading_prompt_len b;
          cut = (max_sample_tokens \<noteq> 0 \<and> max_sample_tokens < length (sb_tokens b));
          toks = (if cut then take max_sample_tokens (sb_tokens b) else sb_tokens b);
          lmask = (if cut then take max_sample_tokens (sb_loss_mask b) else sb_loss_mask b);
          lps = (if cut then take max_sample_tokens (sb_logprobs b) else sb_logprobs b);
          s = sample_new\<lparr>sm_index := sm_index base_sample, sm_group_index := sm_group_index base_sample,
                sm_rollout_id := (if sm_rollout_id base_sample \<noteq> None then sm_rollout_id base_sample
                                  else sm_index base_sample),
                sm_prompt := sm_prompt base_sample, sm_label := sm_label base_sample, sm_tokens := toks,
                sm_response_length := int (length lmask) - int start,
                sm_loss_mask := Some (drop start lmask), sm_rollout_log_probs := Some (drop start lps),
                sm_reward := PyNum 0, sm_status := COMPLETED, sm_metadata := md,
                sm_weight_versions := sb_weight_versions b, sm_spec_info := sb_spec_info b,
                sm_prefix_cache_info := sb_prefix_cache_info b, sm_trace := sm_trace base_sample\<rparr>
      in case sb_replay b of None \<Rightarrow> Inr s | Some r \<Rightarrow> set_replay_fields r s)"

section \<open>The trajectory manager\<close>

record trajectory_manager =
  tm_fork_threshold :: int
  tm_trees :: "string \<rightharpoonup> message_node"
  tm_turn_count :: "string \<rightharpoonup> nat"

definition trajectory_manager_new :: "int option \<Rightarrow> trajectory_manager" where
  "trajectory_manager_new threshold = \<lparr>tm_fork_threshold = (case threshold of None \<Rightarrow> 1024 | Some t \<Rightarrow> t),
     tm_trees = Map.empty, tm_turn_count = Map.empty\<rparr>"

definition has_session :: "trajectory_manager \<Rightarrow> string \<Rightarrow> bool" where
  "has_session m sid = (tm_trees m sid \<noteq> None)"

definition turn_count :: "trajectory_manager \<Rightarrow> string \<Rightarrow> nat" where
  "turn_count m sid = (case tm_turn_count m sid of None \<Rightarrow> 0 | Some n \<Rightarrow> n)"

definition drop_session :: "string \<Rightarrow> trajectory_manager \<Rightarrow> trajectory_manager" where
  "drop_session sid m = m\<lparr>tm_trees := (tm_trees m)(sid := None), tm_turn_count := (tm_turn_count m)(sid := None)\<rparr>"

subsection \<open>Recording a turn\<close>

definition node_matches :: "message \<Rightarrow> message_node \<Rightarrow> bool" where
  "node_matches msg child \<longleftrightarrow>
     nd_role (nd_info child) = msg_get msg ''role'' \<and> nd_message (nd_info child) = Some msg"

fun find_child :: "message \<Rightarrow> message_node list \<Rightarrow> nat option" where
  "find_child msg [] = None"
| "find_child msg (c # cs) = (if node_matches msg c then Some 0 else map_option Suc (find_child msg cs))"

fun find_mount_point :: "message_node \<Rightarrow> message list \<Rightarrow> path \<times> nat" where
  "find_mount_point n [] = ([], 0)"
| "find_mount_point n (msg # msgs) =
     (case find_child msg (nd_children n) of
        None \<Rightarrow> ([], 0)
      | Some j \<Rightarrow> let (p, depth) = find_mount_point (nd_children n ! j) msgs in (j # p, Suc depth))"

abbreviation assistant :: py_value where
  "assistant \<equiv> PyStr ''assistant''"

definition demote :: "message \<Rightarrow> message_node \<Rightarrow> message_node" where
  "demote msg n = MessageNode ((nd_info n)
     \<lparr>nd_metadata := fmupd ''merged_rewrite''
        (PyDict (fmupd ''abandoned_turn_index''
                  (case nd_turn_index (nd_info n) of None \<Rightarrow> PyNone | Some i \<Rightarrow> PyNum (real i))
           (fmupd ''abandoned_response_tokens''
                  (PyNum (case nd_turn (nd_info n) of None \<Rightarrow> 0 | Some t \<Rightarrow> real (length (tr_output_ids t)))) fmempty)))
        (nd_metadata (nd_info n)),
      nd_turn := None, nd_turn_index := None, nd_message := Some msg\<rparr>) (nd_children n)"

definition try_merge_assistant_rewrite ::
  "int \<Rightarrow> message_node \<Rightarrow> path \<Rightarrow> message list \<Rightarrow> nat \<Rightarrow> message_node \<times> path \<times> nat" where
  "try_merge_assistant_rewrite fork_threshold tree p prompt_messages depth =
     (if fork_threshold \<le> 0 then (tree, p, depth)
      else if length prompt_messages \<le> depth \<or> msg_get (prompt_messages ! depth) ''role'' \<noteq> assistant
      then (tree, p, depth)
      else
        let children = (case node_at tree p of None \<Rightarrow> [] | Some n \<Rightarrow> nd_children n);
            asst_children = filter (\<lambda>j. nd_role (nd_info (children ! j)) = assistant) [0..<length children]
        in case asst_children of
             [j] \<Rightarrow>
               let rewritten_node = children ! j in
               if nd_children rewritten_node \<noteq> [] \<or>
                  (case nd_turn (nd_info rewritten_node) of
                     None \<Rightarrow> True | Some t \<Rightarrow> fork_threshold \<le> int (length (tr_output_ids t)))
               then (tree, p, depth)
               else (update_at (p @ [j]) (demote (prompt_messages ! depth)) tree, p @ [j], depth + 1)
           | _ \<Rightarrow> (tree, p, depth))"

definition mount_prompt_messages :: "message_node \<Rightarrow> path \<Rightarrow> message list \<Rightarrow> message_node \<times> path" where
  "mount_prompt_messages tree p msgs = foldl
     (\<lambda>(tree, p) m. add_child tree p (message_node_new (msg_get m ''role'') (Some m) fmempty)) (tree, p) msgs"

definition assistant_leaf :: "turn_record \<Rightarrow> message option \<Rightarrow> py_dict \<Rightarrow> nat \<Rightarrow> message_node" where
  "assistant_leaf turn response_message metadata idx = MessageNode
     \<lparr>nd_role = assistant, nd_message = response_message, nd_metadata = metadata, nd_turn = Some turn,
      nd_turn_index = Some idx, nd_response_trained = False\<rparr> []"

definition attach_assistant_leaf ::
  "string \<Rightarrow> message_node \<Rightarrow> path \<Rightarrow> turn_record \<Rightarrow> message option \<Rightarrow> py_dict \<Rightarrow>
   trajectory_manager \<Rightarrow> trajectory_manager" where
  "attach_assistant_leaf sid tree p turn response_message metadata m =
     (let idx = turn_count m sid + 1;
          tree' = fst (add_child tree p (assistant_leaf turn response_message metadata idx))
      in m\<lparr>tm_trees := (tm_trees m)(sid \<mapsto> tree'), tm_turn_count := (tm_turn_count m)(sid \<mapsto> idx)\<rparr>)"

definition record_turn ::
  "string \<Rightarrow> turn_record \<Rightarrow> message list \<Rightarrow> message option \<Rightarrow> py_dict \<Rightarrow>
   trajectory_manager \<Rightarrow> trajectory_manager result" where
  "record_turn sid turn prompt_messages response_message metadata m =
     (if prompt_messages = [] then Inr m
      else if tr_output_log_probs turn \<noteq> [] \<and> length (tr_output_log_probs turn) \<noteq> length (tr_output_ids turn)
      then Inl (AssertionError ''turn.output_log_probs length != turn.output_ids length'')
      else
        let tree0 = (case tm_trees m sid of None \<Rightarrow> message_node_new PyNone None fmempty | Some t \<Rightarrow> t);
            (p0, depth0) = find_mount_point tree0 prompt_messages;
            (tree1, p1, depth1) = try_merge_assistant_rewrite (tm_fork_threshold m) tree0 p0 prompt_messages depth0;
            (tree2, p2) = mount_prompt_messages tree1 p1 (drop depth1 prompt_messages)
        in Inr (attach_assistant_leaf sid tree2 p2 turn response_message metadata m))"

subsection \<open>Linearising a session\<close>

definition is_generated :: "message_node \<Rightarrow> bool" where
  "is_generated n \<longleftrightarrow> nd_role (nd_info n) = assistant \<and> nd_turn (nd_info n) \<noteq> None"

definition asst_nodes :: "message_node \<Rightarrow> path list \<Rightarrow> path list" where
  "asst_nodes tree chain =
     filter (\<lambda>p. case node_at tree p of None \<Rightarrow> False | Some n \<Rightarrow> is_generated n) chain"

definition mark_trained :: "message_node \<Rightarrow> message_node" where
  "mark_trained n = MessageNode ((nd_info n)\<lparr>nd_response_trained := True\<rparr>) (nd_children n)"

text \<open>One turn flows into the last builder or opens a new one.\<close>

definition flow_turn ::
  "int \<Rightarrow> turn_record \<Rightarrow> bool \<Rightarrow> sample_builder list \<Rightarrow> sample_builder list result" where
  "flow_turn fork_threshold turn trained builders =
     (if builders = [] \<or> classify_token_drift (last builders) turn = FORK
      then res_bind (append_turn turn CLEAN trained (sample_builder_new fork_threshold))
             (\<lambda>b. Inr (builders @ [b]))
      else res_bind (append_turn turn (classify_token_drift (last builders) turn) trained (last builders))
             (\<lambda>b. Inr (butlast builders @ [b])))"

text \<open>The loop over the generated turns of a chain; the flags set before an exception stay set.\<close>

fun split_chain_loop ::
  "int \<Rightarrow> path list \<Rightarrow> message_node \<Rightarrow> sample_builder list \<Rightarrow> message_node \<times> sample_builder list result" where
  "split_chain_loop fork_threshold [] tree builders = (tree, Inr builders)"
| "split_chain_loop fork_threshold (p # ps) tree builders =
     (case node_at tree p of
        None \<Rightarrow> (tree, Inr builders)
      | Some n \<Rightarrow> (case nd_turn (nd_info n) of
          None \<Rightarrow> (tree, Inr builders)
        | Some turn \<Rightarrow>
            let trained = (\<not> nd_response_trained (nd_info n)); tree' = update_at p mark_trained tree
            in (case flow_turn fork_threshold turn trained builders of
                  Inl e \<Rightarrow> (tree', Inl e)
                | Inr builders' \<Rightarrow> split_chain_loop fork_threshold ps tree' builders')))"

definition split_chain_into_builders ::
  "int \<Rightarrow> path list \<Rightarrow> message_node \<Rightarrow> message_node \<times> sample_builder list result" where
  "split_chain_into_builders fork_threshold chain tree =
     split_chain_loop fork_threshold (asst_nodes tree chain) tree []"

definition chain_metadata :: "message_node \<Rightarrow> path list \<Rightarrow> py_dict \<Rightarrow> py_dict" where
  "chain_metadata tree chain extra_metadata =
     (let nodes = map (\<lambda>p. nd_info (the (node_at tree p))) (asst_nodes tree chain);
          turns = map (\<lambda>i. the (nd_turn i)) nodes
      in fmupd ''ill_formed'' (py_bool (\<exists>t \<in> set turns. tr_ill_formed t))
        (fmupd ''use_tool'' (py_bool (\<exists>i \<in> set nodes. case nd_message i of
             None \<Rightarrow> False | Some msg \<Rightarrow> truthy (msg_get msg ''tool_calls'')))
        (fmupd ''truncated'' (py_bool (turns \<noteq> [] \<and> tr_finish_reason (last turns) = ''length''))
          extra_metadata)))"

definition chain_to_samples ::
  "int \<Rightarrow> sample \<Rightarrow> py_dict \<Rightarrow> nat \<Rightarrow> path list \<Rightarrow> message_node \<Rightarrow> message_node \<times> sample list result" where
  "chain_to_samples fork_threshold base_sample extra_metadata max_sample_tokens chain tree =
     (let md = chain_metadata tree chain extra_metadata;
          (tree', r) = split_chain_into_builders fork_threshold chain tree
      in (tree', res_bind r (\<lambda>builders.
            res_map (to_sample base_sample md max_sample_tokens) (filter has_trained_response builders))))"

fun leaves_to_samples ::
  "int \<Rightarrow> sample \<Rightarrow> py_dict \<Rightarrow> nat \<Rightarrow> path list \<Rightarrow> message_node \<Rightarrow> sample list \<Rightarrow>
   message_node \<times> sample list result" where
  "leaves_to_samples fork_threshold base_sample extra max_tokens [] tree samples = (tree, Inr samples)"
| "leaves_to_samples fork_threshold base_sample extra max_tokens (leaf # leafs) tree samples =
     (if leaf = [] then leaves_to_samples fork_threshold base_sample extra max_tokens leafs tree samples
      else case chain_to_samples fork_threshold base_sample extra max_tokens (path_from_root leaf) tree of
          (tree', Inl e) \<Rightarrow> (tree', Inl e)
        | (tree', Inr new) \<Rightarrow>
            leaves_to_samples fork_threshold base_sample extra max_tokens leafs tree' (samples @ new))"

definition get_trajectory ::
  "string \<Rightarrow> sample \<Rightarrow> real \<Rightarrow> py_dict \<Rightarrow> nat \<Rightarrow> trajectory_manager \<Rightarrow>
   trajectory_manager \<times> sample list result" where
  "get_trajectory sid base_sample reward extra_metadata max_sample_tokens m =
     (case tm_trees m sid of
        None \<Rightarrow> (m, Inr [])
      | Some tree \<Rightarrow>
          (case leaves_to_samples (tm_fork_threshold m) base_sample extra_metadata max_sample_tokens (leaves tree) tree [] of
             (tree', Inl e) \<Rightarrow> (m\<lparr>tm_trees := (tm_trees m)(sid \<mapsto> tree')\<rparr>, Inl e)
           | (tree', Inr samples) \<Rightarrow>
               (drop_session sid m, Inr (map (\<lambda>s. s\<lparr>sm_reward := PyNum reward\<rparr>) samples))))"

end
