(* ===== verification/Trajectory_Builder.thy ===== *)
theory Trajectory_Builder
  imports Trajectory "HOL-Library.Sublist"
begin

text \<open>
  Facts about the sample builder: the chunked scan finds the longest common prefix, a turn that the
  classification accepts leaves exactly its own prompt and output as the builder's tokens, and every
  token that stays trainable was sampled by some turn in exactly the context the builder holds.
\<close>

section \<open>The longest common prefix\<close>

lemma take_eq_Suc:
  "take n a = take n b \<Longrightarrow> n < length a \<Longrightarrow> n < length b \<Longrightarrow> a ! n = b ! n \<Longrightarrow> take (Suc n) a = take (Suc n) b"
  by (simp add: take_Suc_conv_app_nth)

lemma take_eq_extend:
  "take m a = take m b \<Longrightarrow> slice m n a = slice m n b \<Longrightarrow> m \<le> n \<Longrightarrow> take n a = take n b"
  by (metis le_add_diff_inverse slice_def take_add)

lemma scan_equal_prefix:
  "take m a = take m b \<Longrightarrow> m \<le> e \<Longrightarrow> e \<le> length a \<Longrightarrow> e \<le> length b \<Longrightarrow>
   scan_equal a b e m \<le> e \<and> take (scan_equal a b e m) a = take (scan_equal a b e m) b \<and>
   (scan_equal a b e m = e \<or> a ! scan_equal a b e m \<noteq> b ! scan_equal a b e m)"
proof (induction a b e m rule: scan_equal.induct)
  case (1 a b e m)
  show ?case
  proof (cases "m < e \<and> a ! m = b ! m")
    case True
    then have "take (Suc m) a = take (Suc m) b" using 1 take_eq_Suc [of m a b] by simp
    with 1 True show ?thesis by (subst (1 2 3 4 5 6) scan_equal.simps) simp
  next
    case False
    with 1 show ?thesis by (subst (1 2 3 4 5 6) scan_equal.simps) auto
  qed
qed

text \<open>What makes a number the length of the longest common prefix.\<close>

definition lcp_at :: "'a list \<Rightarrow> 'a list \<Rightarrow> nat \<Rightarrow> bool" where
  "lcp_at a b n \<longleftrightarrow> n \<le> length a \<and> n \<le> length b \<and> take n a = take n b \<and>
     (n = min (length a) (length b) \<or> a ! n \<noteq> b ! n)"

lemma common_prefix_loop_lcp:
  "take m a = take m b \<Longrightarrow> m \<le> min (length a) (length b) \<Longrightarrow> lcp_at a b (common_prefix_loop a b m)"
proof (induction a b m rule: common_prefix_loop.induct)
  case (1 a b m)
  define limit where "limit = min (length a) (length b)"
  define e where "e = min (m + prefix_chunk) limit"
  show ?case
  proof (cases "m < limit")
    case False
    with 1 show ?thesis by (subst common_prefix_loop.simps) (auto simp: lcp_at_def limit_def)
  next
    case less: True
    have e: "m < e" "e \<le> limit" using less by (auto simp: e_def prefix_chunk_def)
    show ?thesis
    proof (cases "slice m e a = slice m e b")
      case True
      then have "common_prefix_loop a b m = common_prefix_loop a b e"
        using less by (subst common_prefix_loop.simps) (simp add: limit_def e_def Let_def)
      moreover have "take e a = take e b" using take_eq_extend [OF 1(2) True] e by simp
      ultimately show ?thesis using 1(1) [OF limit_def less e_def True] e by (simp add: limit_def)
    next
      case False
      then have eq: "common_prefix_loop a b m = scan_equal a b e m"
        using less by (subst common_prefix_loop.simps) (simp add: limit_def e_def Let_def)
      have "scan_equal a b e m \<noteq> e"
      proof
        assume "scan_equal a b e m = e"
        then have "take e a = take e b"
          using scan_equal_prefix [OF 1(2), of e] e by (auto simp: limit_def)
        then have "slice m e a = slice m e b" by (simp add: slice_def take_drop e(1) less_imp_le)
        with False show False by simp
      qed
      then show ?thesis
        using scan_equal_prefix [OF 1(2), of e] e by (auto simp: eq lcp_at_def limit_def)
    qed
  qed
qed

lemma lcp_at_unique: "lcp_at a b n \<Longrightarrow> n = length (longest_common_prefix a b)"
proof (induction a arbitrary: b n)
  case (Cons x xs)
  show ?case
  proof (cases b)
    case (Cons y ys)
    then show ?thesis using Cons.prems Cons.IH [of ys "n - 1"]
      by (cases n) (auto simp: lcp_at_def)
  qed (use Cons in \<open>auto simp: lcp_at_def\<close>)
qed (auto simp: lcp_at_def)

lemma common_prefix_len_lcp: "lcp_at a b (common_prefix_len a b)"
  using common_prefix_loop_lcp [of 0 a b] by (simp add: common_prefix_len_def)

section \<open>Accepting a turn\<close>

text \<open>How much of the held tokens a turn of each kind keeps, and what the classification guarantees.\<close>

definition kept_len :: "drift_kind \<Rightarrow> sample_builder \<Rightarrow> nat" where
  "kept_len kind b = (case (kind, sb_last_response_start_idx b) of (REALIGN, Some s) \<Rightarrow> s | _ \<Rightarrow> length (sb_tokens b))"

definition extends :: "drift_kind \<Rightarrow> sample_builder \<Rightarrow> turn_record \<Rightarrow> bool" where
  "extends kind b turn \<longleftrightarrow> kind \<noteq> FORK \<and> kept_len kind b \<le> length (tr_prompt_ids turn) \<and>
     kept_len kind b \<le> length (sb_tokens b) \<and>
     take (kept_len kind b) (sb_tokens b) = take (kept_len kind b) (tr_prompt_ids turn) \<and>
     (kind = REALIGN \<longrightarrow> sb_last_response_start_idx b \<noteq> None)"

definition well_aligned :: "sample_builder \<Rightarrow> bool" where
  "well_aligned b \<longleftrightarrow> length (sb_loss_mask b) = length (sb_tokens b) \<and> length (sb_logprobs b) = length (sb_tokens b) \<and>
     (case sb_last_response_start_idx b of
        None \<Rightarrow> sb_tokens b = [] \<and> sb_leading_prompt_len b = 0
      | Some s \<Rightarrow> sb_leading_prompt_len b \<le> s \<and> s \<le> length (sb_tokens b))"

lemma well_aligned_new [simp]: "well_aligned (sample_builder_new th)"
  by (simp add: well_aligned_def sample_builder_new_def)

lemma classify_extends:
  assumes "well_aligned b" "classify_token_drift b turn \<noteq> FORK"
  shows "extends (classify_token_drift b turn) b turn"
proof -
  define n where "n = common_prefix_len (sb_tokens b) (tr_prompt_ids turn)"
  have n: "n \<le> length (sb_tokens b)" "n \<le> length (tr_prompt_ids turn)"
    "take n (sb_tokens b) = take n (tr_prompt_ids turn)"
    using common_prefix_len_lcp [of "sb_tokens b" "tr_prompt_ids turn"] by (auto simp: lcp_at_def n_def)
  consider "classify_token_drift b turn = CLEAN" "length (sb_tokens b) - n = 0"
    | s where "classify_token_drift b turn = REALIGN" "sb_last_response_start_idx b = Some s" "s \<le> n"
    using assms(2)
    by (auto simp: classify_token_drift_def n_def Let_def split: if_splits option.splits)
  then show ?thesis
  proof cases
    case 1
    with n show ?thesis by (simp add: extends_def kept_len_def)
  next
    case (2 s)
    then have "take s (sb_tokens b) = take s (tr_prompt_ids turn)"
      by (metis n(3) min.absorb1 take_take)
    with 2 n assms(1) show ?thesis by (simp add: extends_def kept_len_def well_aligned_def)
  qed
qed

lemma extends_new [simp]: "extends CLEAN (sample_builder_new th) turn"
  by (simp add: extends_def kept_len_def sample_builder_new_def)

lemma append_replay_fields:
  assumes "append_replay r gap b = Inr b'"
  shows "\<exists>r'. b' = b\<lparr>sb_replay := Some r'\<rparr>"
  using assms by (auto simp: append_replay_def res_simps split: option.splits if_splits)

text \<open>The fields of a builder that has accepted a turn.\<close>

lemma absorb_turn_fields:
  assumes ext: "extends kind b turn" and wf: "well_aligned b"
  defines "k \<equiv> kept_len kind b" and "p \<equiv> tr_prompt_ids turn" and "outp \<equiv> tr_output_ids turn"
  shows "sb_tokens (absorb_turn turn kind trained b) = p @ outp"
    and "sb_loss_mask (absorb_turn turn kind trained b) =
           take k (sb_loss_mask b) @ replicate (length p - k) 0 @ replicate (length outp) (of_bool trained)"
    and "sb_logprobs (absorb_turn turn kind trained b) = take k (sb_logprobs b) @ replicate (length p - k) (Fin 0) @
           (if tr_output_log_probs turn \<noteq> [] then tr_output_log_probs turn else replicate (length outp) (Fin 0))"
    and "sb_last_response_start_idx (absorb_turn turn kind trained b) = Some (length p)"
    and "sb_leading_prompt_len (absorb_turn turn kind trained b) =
           (if sb_last_response_start_idx b = None then length p else sb_leading_prompt_len b)"
proof -
  have tk: "take k (sb_tokens b) @ drop k p = p"
    using ext by (metis append_take_drop_id extends_def k_def p_def)
  have kinds: "kind = REALIGN \<and> sb_last_response_start_idx b = Some k \<or> kind = CLEAN \<and> k = length (sb_tokens b)"
    using ext by (cases kind) (auto simp: extends_def k_def kept_len_def)
  note defs = absorb_turn_def Let_def align_to_prompt_def append_tokens_def add_counters_def p_def [symmetric] outp_def [symmetric]
  show toks: "sb_tokens (absorb_turn turn kind trained b) = p @ outp" using kinds tk by (auto simp: defs)
  show "sb_loss_mask (absorb_turn turn kind trained b) =
           take k (sb_loss_mask b) @ replicate (length p - k) 0 @ replicate (length outp) (of_bool trained)"
    using kinds wf by (auto simp: defs well_aligned_def)
  show "sb_logprobs (absorb_turn turn kind trained b) = take k (sb_logprobs b) @ replicate (length p - k) (Fin 0) @
           (if tr_output_log_probs turn \<noteq> [] then tr_output_log_probs turn else replicate (length outp) (Fin 0))"
    using kinds wf by (auto simp: defs well_aligned_def)
  have "length (take k (sb_tokens b)) + (length p - k) = length p" using arg_cong [OF tk, of length] by simp
  then show "sb_last_response_start_idx (absorb_turn turn kind trained b) = Some (length p)"
    using kinds by (auto simp: defs)
  show "sb_leading_prompt_len (absorb_turn turn kind trained b) =
           (if sb_last_response_start_idx b = None then length p else sb_leading_prompt_len b)"
    by (simp add: defs)
qed

lemma append_turn_cases:
  assumes "append_turn turn kind trained b = Inr b'"
  obtains r where "b' = absorb_turn turn kind trained (b\<lparr>sb_replay := r\<rparr>)"
proof (cases "tr_replay turn")
  case None
  then have "b' = absorb_turn turn kind trained (b\<lparr>sb_replay := sb_replay b\<rparr>)"
    using assms by (simp add: append_turn_def split: if_splits)
  then show thesis by (rule that)
next
  case (Some r)
  then obtain b1 gap where "append_replay r gap b = Inr b1" "b' = absorb_turn turn kind trained b1"
    using assms by (auto simp: append_turn_def res_simps split: if_splits)
  then show thesis using append_replay_fields that by blast
qed

section \<open>Trainable tokens were sampled in the context the builder holds\<close>

definition sampled_at :: "turn_record \<Rightarrow> int list \<Rightarrow> fp \<Rightarrow> nat \<Rightarrow> bool" where
  "sampled_at t toks lp i \<longleftrightarrow>
     length (tr_prompt_ids t) \<le> i \<and> i < length (tr_prompt_ids t) + length (tr_output_ids t) \<and>
     take (Suc i) toks = take (Suc i) (tr_prompt_ids t @ tr_output_ids t) \<and>
     lp = (if tr_output_log_probs t = [] then Fin 0 else tr_output_log_probs t ! (i - length (tr_prompt_ids t)))"

definition log_probs_ok :: "turn_record \<Rightarrow> bool" where
  "log_probs_ok t \<longleftrightarrow> tr_output_log_probs t = [] \<or> length (tr_output_log_probs t) = length (tr_output_ids t)"

definition builder_ok :: "turn_record set \<Rightarrow> sample_builder \<Rightarrow> bool" where
  "builder_ok T b \<longleftrightarrow> well_aligned b \<and>
     (\<forall>i < length (sb_tokens b). sb_loss_mask b ! i = 0 \<or>
        sb_leading_prompt_len b \<le> i \<and> sb_loss_mask b ! i = 1 \<and> (\<exists>t \<in> T. sampled_at t (sb_tokens b) (sb_logprobs b ! i) i))"

lemma builder_ok_new [simp]: "builder_ok T (sample_builder_new th)"
  by (simp add: builder_ok_def) (simp add: sample_builder_new_def)

lemma kept_len_replay [simp]: "kept_len kind (b\<lparr>sb_replay := r\<rparr>) = kept_len kind b"
  by (simp add: kept_len_def split: drift_kind.split option.split)

lemma well_aligned_replay [simp]: "well_aligned (b\<lparr>sb_replay := r\<rparr>) = well_aligned b"
  by (simp add: well_aligned_def split: option.split)

lemma builder_ok_replay [simp]: "builder_ok T (b\<lparr>sb_replay := r\<rparr>) = builder_ok T b"
  by (simp add: builder_ok_def)

lemma extends_replay [simp]: "extends kind (b\<lparr>sb_replay := r\<rparr>) turn = extends kind b turn"
  by (simp add: extends_def)

lemma kept_len_leading: "well_aligned b \<Longrightarrow> sb_leading_prompt_len b \<le> kept_len kind b"
  by (auto simp: well_aligned_def kept_len_def split: drift_kind.split option.splits)

lemma builder_ok_mono: "builder_ok T b \<Longrightarrow> T \<subseteq> T' \<Longrightarrow> builder_ok T' b"
  unfolding builder_ok_def by blast

lemma absorb_turn_ok:
  assumes ok: "builder_ok T b" and ext: "extends kind b turn" and lp: "log_probs_ok turn"
  shows "builder_ok (if trained then insert turn T else T) (absorb_turn turn kind trained b)"
proof -
  define k where "k = kept_len kind b"
  define b' where "b' = absorb_turn turn kind trained b"
  let ?p = "tr_prompt_ids turn" and ?o = "tr_output_ids turn"
  have wf: "well_aligned b" using ok by (simp add: builder_ok_def)
  note f = absorb_turn_fields [OF ext wf, folded k_def, of trained, folded b'_def]
  have k: "k \<le> length ?p" "k \<le> length (sb_tokens b)" "take k (sb_tokens b) = take k ?p"
    using ext by (auto simp: extends_def k_def)
  have len: "length (sb_loss_mask b) = length (sb_tokens b)" "length (sb_logprobs b) = length (sb_tokens b)"
    using wf by (auto simp: well_aligned_def)
  have lead: "sb_leading_prompt_len b' \<le> length ?p"
    using kept_len_leading [OF wf, of kind] k by (simp add: f k_def)
  have aligned: "well_aligned b'"
    using lp len k lead by (auto simp: well_aligned_def f log_probs_ok_def)
  have "sb_loss_mask b' ! i = 0 \<or> sb_leading_prompt_len b' \<le> i \<and> sb_loss_mask b' ! i = 1 \<and>
        (\<exists>t \<in> (if trained then insert turn T else T). sampled_at t (sb_tokens b') (sb_logprobs b' ! i) i)"
    if i: "i < length (sb_tokens b')" for i
  proof -
    consider "i < k" | "k \<le> i" "i < length ?p" | "length ?p \<le> i" by linarith
    then show ?thesis
    proof cases
      case 1
      then have old: "sb_loss_mask b' ! i = sb_loss_mask b ! i" "sb_logprobs b' ! i = sb_logprobs b ! i"
        using len k by (simp_all add: f nth_append)
      have "take (Suc i) (sb_tokens b') = take (Suc i) (sb_tokens b)"
        using 1 k by (metis Suc_leI f(1) min.absorb1 order_trans take_append take_take diff_is_0_eq take0 append_Nil2)
      moreover have "sb_leading_prompt_len b' = sb_leading_prompt_len b"
        using 1 k wf by (auto simp: f well_aligned_def split: option.splits)
      ultimately show ?thesis
        using ok 1 k unfolding builder_ok_def old sampled_at_def by auto
    next
      case 2
      then have "i - k < length ?p - k" by simp
      with 2 have "sb_loss_mask b' ! i = 0" using len k by (simp add: f nth_append)
      then show ?thesis ..
    next
      case 3
      then have far: "\<not> i < k" "\<not> i - k < length ?p - k" using k by auto
      with 3 i have "sb_loss_mask b' ! i = of_bool trained" using len k by (simp add: f nth_append)
      moreover have "sampled_at turn (sb_tokens b') (sb_logprobs b' ! i) i"
        using 3 i far len k by (simp add: sampled_at_def f nth_append)
      moreover have "sb_leading_prompt_len b' \<le> i" using lead 3 by simp
      ultimately show ?thesis by auto
    qed
  qed
  with aligned show ?thesis by (simp add: builder_ok_def b'_def)
qed

lemma append_turn_ok:
  assumes "append_turn turn kind trained b = Inr b'" "builder_ok T b" "extends kind b turn" "log_probs_ok turn"
  shows "builder_ok (if trained then insert turn T else T) b'" and "sb_tokens b' = tr_prompt_ids turn @ tr_output_ids turn"
proof -
  obtain r where b': "b' = absorb_turn turn kind trained (b\<lparr>sb_replay := r\<rparr>)"
    using assms(1) by (rule append_turn_cases)
  show "builder_ok (if trained then insert turn T else T) b'"
    unfolding b' by (rule absorb_turn_ok) (use assms in simp_all)
  show "sb_tokens b' = tr_prompt_ids turn @ tr_output_ids turn"
    unfolding b' by (rule absorb_turn_fields) (use assms in \<open>simp_all add: builder_ok_def\<close>)
qed

text \<open>The trainable tokens of a builder: a turn adds its output, and only a realignment drops some.\<close>

abbreviation trained_tokens :: "sample_builder \<Rightarrow> int" where
  "trained_tokens b \<equiv> sum_list (sb_loss_mask b)"

lemma append_turn_trained:
  assumes "append_turn turn kind trained b = Inr b'" "builder_ok T b" "extends kind b turn"
  shows "trained_tokens b' \<le> trained_tokens b + of_bool trained * int (length (tr_output_ids turn))"
    and "kind = CLEAN \<Longrightarrow> trained_tokens b' = trained_tokens b + of_bool trained * int (length (tr_output_ids turn))"
proof -
  obtain r where b': "b' = absorb_turn turn kind trained (b\<lparr>sb_replay := r\<rparr>)"
    using assms(1) by (rule append_turn_cases)
  have wf: "well_aligned b" using assms(2) by (simp add: builder_ok_def)
  then have "well_aligned (b\<lparr>sb_replay := r\<rparr>)" by simp
  from absorb_turn_fields(2) [OF _ this] assms(3)
  have sum: "trained_tokens b' = sum_list (take (kept_len kind b) (sb_loss_mask b)) +
      of_bool trained * int (length (tr_output_ids turn))"
    by (simp add: b' sum_list_replicate)
  have "\<forall>x \<in> set (sb_loss_mask b). 0 \<le> x"
    using assms(2) wf unfolding builder_ok_def well_aligned_def by (auto simp: in_set_conv_nth) fastforce
  then have "0 \<le> sum_list (drop (kept_len kind b) (sb_loss_mask b))"
    by (intro sum_list_nonneg) (auto dest: in_set_dropD)
  then have "sum_list (take (kept_len kind b) (sb_loss_mask b)) \<le> trained_tokens b"
    by (metis append_take_drop_id sum_list.append le_add_same_cancel1)
  with sum show "trained_tokens b' \<le> trained_tokens b + of_bool trained * int (length (tr_output_ids turn))" by simp
  show "kind = CLEAN \<Longrightarrow> trained_tokens b' = trained_tokens b + of_bool trained * int (length (tr_output_ids turn))"
    using sum wf by (simp add: kept_len_def well_aligned_def)
qed

end
