(* ===== verification/Trajectory_Tree.thy ===== *)
theory Trajectory_Tree
  imports Trajectory_Builder
begin

text \<open>
  Facts about the session tree: positions and leaves, updates at a position, and the path that
  recording a turn follows and extends.
\<close>

section \<open>Positions\<close>

definition info_at :: "message_node \<Rightarrow> path \<Rightarrow> node_info option" where
  "info_at t p = map_option nd_info (node_at t p)"

lemma info_at_Nil [simp]: "info_at t [] = Some (nd_info t)"
  by (simp add: info_at_def)

lemma info_at_Cons [simp]:
  "info_at t (j # p) = (if j < length (nd_children t) then info_at (nd_children t ! j) p else None)"
  by (simp add: info_at_def)

lemma info_at_node: "node_at t p = Some n \<Longrightarrow> info_at t p = Some (nd_info n)"
  by (simp add: info_at_def)

lemma info_at_None [simp]: "info_at t p = None \<longleftrightarrow> node_at t p = None"
  by (simp add: info_at_def)

lemma node_at_append: "node_at t (p @ q) = (case node_at t p of None \<Rightarrow> None | Some n \<Rightarrow> node_at n q)"
  by (induction t p rule: node_at.induct) auto

lemma node_at_prefix: "node_at t q \<noteq> None \<Longrightarrow> prefix p q \<Longrightarrow> node_at t p \<noteq> None"
  by (auto simp: prefix_def node_at_append split: option.splits)

lemma finite_positions: "finite {p. node_at t p \<noteq> None}"
proof (induction t)
  case (MessageNode i cs)
  have "{p. node_at (MessageNode i cs) p \<noteq> None} \<subseteq>
      insert [] (\<Union>j \<in> {..<length cs}. (#) j ` {p. node_at (cs ! j) p \<noteq> None})"
  proof
    fix p assume "p \<in> {p. node_at (MessageNode i cs) p \<noteq> None}"
    then show "p \<in> insert [] (\<Union>j \<in> {..<length cs}. (#) j ` {p. node_at (cs ! j) p \<noteq> None})"
      by (cases p) (auto split: if_splits)
  qed
  moreover have "finite (insert [] (\<Union>j \<in> {..<length cs}. (#) j ` {p. node_at (cs ! j) p \<noteq> None}))"
    using MessageNode by simp
  ultimately show ?case by (rule finite_subset)
qed

lemma set_leaves_of:
  "set (leaves_of k cs) = {(k + j) # l | j l. j < length cs \<and> l \<in> set (leaves (cs ! j))}"
proof (induction cs arbitrary: k)
  case (Cons c cs)
  have "set (leaves_of k (c # cs)) = (#) k ` set (leaves c) \<union> set (leaves_of (Suc k) cs)" by simp
  also have "\<dots> = {(k + j) # l | j l. j < length (c # cs) \<and> l \<in> set (leaves ((c # cs) ! j))}" (is "_ = ?R")
  proof (intro equalityI subsetI)
    fix x assume "x \<in> (#) k ` set (leaves c) \<union> set (leaves_of (Suc k) cs)"
    then consider l where "x = k # l" "l \<in> set (leaves c)"
      | j l where "x = (Suc k + j) # l" "j < length cs" "l \<in> set (leaves (cs ! j))"
      using Cons [of "Suc k"] by auto
    then show "x \<in> ?R"
    proof cases
      case 1
      then show ?thesis by (force intro: exI [of _ 0])
    next
      case (2 j l)
      then show ?thesis by (intro CollectI exI [of _ "Suc j"] exI [of _ l]) simp
    qed
  next
    fix x assume "x \<in> ?R"
    then obtain j l where "x = (k + j) # l" "j < Suc (length cs)" "l \<in> set (leaves ((c # cs) ! j))" by auto
    then show "x \<in> (#) k ` set (leaves c) \<union> set (leaves_of (Suc k) cs)"
      using Cons [of "Suc k"] by (cases j) auto
  qed
  finally show ?case .
qed simp

lemma set_leaves:
  "set (leaves t) = (if nd_children t = [] then {[]}
     else {j # l | j l. j < length (nd_children t) \<and> l \<in> set (leaves (nd_children t ! j))})"
  by (cases t) (simp add: set_leaves_of)

lemma leaves_Nil_iff [simp]: "[] \<in> set (leaves t) \<longleftrightarrow> nd_children t = []"
  by (subst set_leaves) simp

lemma leaves_Cons_iff [simp]:
  "j # l \<in> set (leaves t) \<longleftrightarrow> j < length (nd_children t) \<and> l \<in> set (leaves (nd_children t ! j))"
  by (subst set_leaves) simp

lemma leaves_valid: "p \<in> set (leaves t) \<Longrightarrow> node_at t p \<noteq> None"
  by (induction p arbitrary: t) auto

lemma leaves_nonempty: "leaves t \<noteq> []"
proof (induction t)
  case (MessageNode i cs)
  then show ?case by (cases cs) auto
qed

lemma leaves_below: "node_at t q = Some n \<Longrightarrow> l \<in> set (leaves n) \<Longrightarrow> q @ l \<in> set (leaves t)"
  by (induction t q rule: node_at.induct) (auto split: if_splits)

lemma position_below_leaf: "node_at t q \<noteq> None \<Longrightarrow> \<exists>l \<in> set (leaves t). prefix q l"
  by (metis leaves_below leaves_nonempty list.set_intros(1) neq_Nil_conv not_None_eq prefixI)

lemma set_path_from_root: "set (path_from_root p) = {q. prefix q p \<and> q \<noteq> []}"
proof (intro equalityI subsetI)
  fix q assume "q \<in> set (path_from_root p)"
  then show "q \<in> {q. prefix q p \<and> q \<noteq> []}" by (auto simp: path_from_root_def take_is_prefix)
next
  fix q assume "q \<in> {q. prefix q p \<and> q \<noteq> []}"
  then have "q = take (Suc (length q - 1)) p" "length q - 1 < length p"
    by (auto simp: prefix_def neq_Nil_conv)
  then show "q \<in> set (path_from_root p)" unfolding path_from_root_def by auto
qed

lemma distinct_path_from_root: "distinct (path_from_root p)"
  by (auto simp: path_from_root_def distinct_map inj_on_def dest: arg_cong [of _ _ length])

text \<open>Every position but the root lies on the chain of some leaf.\<close>

lemma chains_cover_positions:
  "(\<Union>l \<in> set (leaves t). set (path_from_root l)) = {q. node_at t q \<noteq> None \<and> q \<noteq> []}"
proof (intro equalityI subsetI)
  fix q assume "q \<in> (\<Union>l \<in> set (leaves t). set (path_from_root l))"
  then obtain l where "l \<in> set (leaves t)" "prefix q l" "q \<noteq> []" by (auto simp: set_path_from_root)
  then show "q \<in> {q. node_at t q \<noteq> None \<and> q \<noteq> []}" using leaves_valid node_at_prefix by blast
qed (use position_below_leaf in \<open>force simp: set_path_from_root\<close>)

section \<open>Updates\<close>

lemma info_at_update_info:
  "info_at (update_at p (\<lambda>n. MessageNode (g (nd_info n)) (nd_children n)) t) q =
     (if q = p then map_option g (info_at t q) else info_at t q)"
proof (induction p arbitrary: t q)
  case Nil
  then show ?case by (cases q) simp_all
next
  case (Cons j p)
  show ?case
  proof (cases q)
    case (Cons k q')
    then show ?thesis using Cons.IH [of "nd_children t ! j" q'] by (cases "j = k"; cases "q' = p") simp_all
  qed simp
qed

lemma node_at_update_None:
  "node_at (update_at p (\<lambda>n. MessageNode (g (nd_info n)) (nd_children n)) t) q = None \<longleftrightarrow> node_at t q = None"
  using info_at_update_info [of p g t q] by (auto simp flip: info_at_None split: if_splits)

lemma update_at_append:
  "node_at t p = Some n \<Longrightarrow> update_at (p @ q) f t = update_at p (update_at q f) t"
  by (induction t p rule: node_at.induct) (auto split: if_splits)

lemma node_at_update_same: "node_at t p = Some n \<Longrightarrow> node_at (update_at p f t) (p @ q) = node_at (f n) q"
  by (induction t p rule: node_at.induct) (auto split: if_splits)

lemma info_at_add_child:
  assumes "node_at t p = Some n" and "nd_children c = []"
  shows "info_at (fst (add_child t p c)) q =
    (if q = p @ [length (nd_children n)] then Some (nd_info c) else info_at t q)"
  using assms(1)
proof (induction p arbitrary: t q)
  case Nil
  show ?case
  proof (cases q)
    case (Cons j q')
    then show ?thesis using Nil assms(2) by (cases q') (auto simp: add_child_def nth_append)
  qed (use Nil in \<open>simp add: add_child_def\<close>)
next
  case (Cons i p)
  show ?case
  proof (cases q)
    case (Cons j q')
    then show ?thesis using Cons.IH [of "nd_children t ! i" q'] Cons.prems
      by (auto simp: add_child_def nth_list_update split: if_splits)
  qed (use Cons.prems in \<open>simp add: add_child_def split: if_splits\<close>)
qed

section \<open>The path of a recorded turn\<close>

text \<open>\<open>routes t p msgs\<close>: from the root the messages lead along \<open>p\<close>, by the first matching child each time.\<close>

fun routes :: "message_node \<Rightarrow> path \<Rightarrow> message list \<Rightarrow> bool" where
  "routes t [] [] = True"
| "routes t (j # p) (m # ms) = (find_child m (nd_children t) = Some j \<and> routes (nd_children t ! j) p ms)"
| "routes t _ _ = False"

lemma find_child_Some:
  "find_child m cs = Some j \<longleftrightarrow> j < length cs \<and> node_matches m (cs ! j) \<and> (\<forall>i < j. \<not> node_matches m (cs ! i))"
proof (induction cs arbitrary: j)
  case (Cons c cs)
  show ?case
  proof (cases j)
    case (Suc i)
    have "(\<forall>k < Suc i. \<not> node_matches m ((c # cs) ! k)) \<longleftrightarrow>
        \<not> node_matches m c \<and> (\<forall>k < i. \<not> node_matches m (cs ! k))"
      by (auto simp: less_Suc_eq_0_disj)
    then show ?thesis using Cons [of i] Suc by auto
  qed auto
qed simp

lemma find_child_None: "find_child m cs = None \<longleftrightarrow> (\<forall>c \<in> set cs. \<not> node_matches m c)"
  by (induction cs) auto

lemma find_child_less: "find_child m cs = Some j \<Longrightarrow> j < length cs"
  by (simp add: find_child_Some)

lemma routes_length: "routes t p ms \<Longrightarrow> length p = length ms"
  by (induction t p ms rule: routes.induct) auto

lemma routes_valid: "routes t p ms \<Longrightarrow> node_at t p \<noteq> None"
  by (induction t p ms rule: routes.induct) (auto dest: find_child_less)

lemma routes_find_mount_point: "routes t p ms \<Longrightarrow> find_mount_point t ms = (p, length ms)"
  by (induction t p ms rule: routes.induct) auto

lemma find_mount_point_routes:
  "find_mount_point t ms = (p, d) \<Longrightarrow> d \<le> length ms \<and> routes t p (take d ms) \<and>
     (d < length ms \<longrightarrow> (\<forall>n. node_at t p = Some n \<longrightarrow> find_child (ms ! d) (nd_children n) = None))"
proof (induction t ms arbitrary: p d rule: find_mount_point.induct)
  case (2 t m ms)
  show ?case
  proof (cases "find_child m (nd_children t)")
    case (Some j)
    then obtain q e where "find_mount_point (nd_children t ! j) ms = (q, e)" "p = j # q" "d = Suc e"
      using "2.prems" by (auto split: prod.splits)
    with 2 Some show ?thesis by (auto dest: find_child_less)
  qed (use "2.prems" in auto)
qed simp

lemma node_matches_info: "nd_info c = nd_info c' \<Longrightarrow> node_matches m c = node_matches m c'"
  by (simp add: node_matches_def)

lemma find_child_update:
  assumes "nd_info c = nd_info (cs ! j)"
  shows "find_child m (cs[j := c]) = find_child m cs"
proof (cases "j < length cs")
  case True
  have "node_matches m (cs[j := c] ! i) = node_matches m (cs ! i)" if "i < length cs" for i
    using that node_matches_info [OF assms] by (cases "i = j") simp_all
  then have "find_child m (cs[j := c]) = Some k \<longleftrightarrow> find_child m cs = Some k" for k
    by (auto simp: find_child_Some)
  then show ?thesis by (cases "find_child m cs"; cases "find_child m (cs[j := c])") auto
qed (simp add: list_update_beyond)

lemma nd_info_update_at: "nd_info (f n) = nd_info n \<Longrightarrow> node_at t p = Some n \<Longrightarrow> nd_info (update_at p f t) = nd_info t"
  by (cases p) auto

lemma routes_update:
  "routes t p ms \<Longrightarrow> node_at t p = Some n \<Longrightarrow> nd_info (f n) = nd_info n \<Longrightarrow>
   routes (update_at p f t) (p @ q) (ms @ ms') = routes (f n) q ms'"
proof (induction t p ms rule: routes.induct)
  case (2 t j p m ms)
  let ?c = "nd_children t ! j"
  have j: "j < length (nd_children t)" using 2(2) by (auto dest: find_child_less)
  then have n: "node_at ?c p = Some n" using 2(3) by simp
  then have "nd_info (update_at p f ?c) = nd_info ?c" using 2(4) nd_info_update_at by blast
  then show ?case using 2 j n by (simp add: find_child_update)
qed auto

text \<open>Mounting one message below the end of the route, and overwriting one child there.\<close>

lemma find_child_snoc:
  "find_child m cs = None \<Longrightarrow> node_matches m c \<Longrightarrow> find_child m (cs @ [c]) = Some (length cs)"
  by (induction cs) (auto split: if_splits)

lemma routes_add_child:
  assumes "routes t p ms" "node_at t p = Some n" "find_child m (nd_children n) = None" "node_matches m c"
  shows "routes (fst (add_child t p c)) (snd (add_child t p c)) (ms @ [m])"
    and "node_at (fst (add_child t p c)) (snd (add_child t p c)) = Some c"
  using assms by (simp_all add: add_child_def routes_update find_child_snoc node_at_update_same)

lemma mount_prompt_messages_routes:
  "routes t p ms \<Longrightarrow> (case rest of [] \<Rightarrow> True | m # _ \<Rightarrow> \<forall>n. node_at t p = Some n \<longrightarrow> find_child m (nd_children n) = None) \<Longrightarrow>
   mount_prompt_messages t p rest = (t', p') \<Longrightarrow> routes t' p' (ms @ rest)"
proof (induction rest arbitrary: t p ms)
  case (Cons m rest)
  define c where "c = message_node_new (msg_get m ''role'') (Some m) fmempty"
  obtain n where n: "node_at t p = Some n" using routes_valid [OF Cons.prems(1)] by blast
  have c: "node_matches m c" "nd_children c = []" by (simp_all add: c_def message_node_new_def node_matches_def)
  have none: "find_child m (nd_children n) = None" using Cons.prems(2) n by simp
  note r = routes_add_child [OF Cons.prems(1) n none c(1)]
  have "mount_prompt_messages (fst (add_child t p c)) (snd (add_child t p c)) rest = (t', p')"
    using Cons.prems(3) by (simp add: mount_prompt_messages_def c_def split_beta)
  from Cons.IH [OF r(1) _ this] r(2) c(2) show ?case by (simp split: list.splits)
qed (simp add: mount_prompt_messages_def)

section \<open>What recording a turn does to the tree\<close>

lemma demote_info:
  "demote msg n = MessageNode (nd_info (demote msg (MessageNode (nd_info n) []))) (nd_children n)"
  by (simp add: demote_def)

lemma try_merge_cases:
  assumes "try_merge_assistant_rewrite th t p msgs d = (t', p', d')"
  obtains (same) "t' = t" "p' = p" "d' = d"
  | (merged) n j turn where "node_at t p = Some n" "j < length (nd_children n)"
      "nd_children (nd_children n ! j) = []" "nd_role (nd_info (nd_children n ! j)) = assistant"
      "nd_turn (nd_info (nd_children n ! j)) = Some turn" "int (length (tr_output_ids turn)) < th"
      "d < length msgs" "msg_get (msgs ! d) ''role'' = assistant"
      "t' = update_at (p @ [j]) (demote (msgs ! d)) t" "p' = p @ [j]" "d' = Suc d"
proof -
  define children where "children = (case node_at t p of None \<Rightarrow> [] | Some n \<Rightarrow> nd_children n)"
  define asst where "asst = filter (\<lambda>j. nd_role (nd_info (children ! j)) = assistant) [0..<length children]"
  show thesis
  proof (cases "t' = t \<and> p' = p \<and> d' = d")
    case True
    then show thesis using same by blast
  next
    case False
    note eq = assms [unfolded try_merge_assistant_rewrite_def Let_def, folded children_def, folded asst_def]
    have guard: "0 < th" "d < length msgs" "msg_get (msgs ! d) ''role'' = assistant"
      using False eq by (auto split: if_splits)
    obtain j where j: "asst = [j]"
      using False eq guard by (auto split: list.splits)
    have in_j: "j < length children" "nd_role (nd_info (children ! j)) = assistant"
    proof -
      have "j \<in> set asst" by (simp add: j)
      then show "j < length children" "nd_role (nd_info (children ! j)) = assistant" by (auto simp: asst_def)
    qed
    then obtain n where n: "node_at t p = Some n" "children = nd_children n"
      by (cases "node_at t p") (auto simp: children_def)
    obtain turn where turn: "nd_turn (nd_info (children ! j)) = Some turn" "int (length (tr_output_ids turn)) < th"
      "nd_children (children ! j) = []"
      using False eq guard by (auto simp: j split: if_splits option.splits)
    have "t' = update_at (p @ [j]) (demote (msgs ! d)) t \<and> p' = p @ [j] \<and> d' = Suc d"
      using eq guard turn by (auto simp: j)
    then show thesis
      using merged [of n j turn] n(1) in_j [unfolded n(2)] turn [unfolded n(2)] guard by blast
  qed
qed

lemma info_at_demote:
  "info_at (update_at p (demote msg) t) q =
     (if q = p then map_option (\<lambda>i. nd_info (demote msg (MessageNode i []))) (info_at t q) else info_at t q)"
proof -
  have "demote msg = (\<lambda>n. MessageNode (nd_info (demote msg (MessageNode (nd_info n) []))) (nd_children n))"
    using demote_info by blast
  then show ?thesis
    using info_at_update_info [of p "\<lambda>i. nd_info (demote msg (MessageNode i []))" t q] by simp
qed

lemma merge_routes:
  assumes mount: "find_mount_point t msgs = (p, d)" and merge: "try_merge_assistant_rewrite th t p msgs d = (t', p', d')"
  shows "d' \<le> length msgs \<and> routes t' p' (take d' msgs) \<and>
    (d' < length msgs \<longrightarrow> (\<forall>n. node_at t' p' = Some n \<longrightarrow> find_child (msgs ! d') (nd_children n) = None))"
  using merge
proof (cases rule: try_merge_cases)
  case same
  then show ?thesis using find_mount_point_routes [OF mount] by simp
next
  case (merged n j turn)
  note r = find_mount_point_routes [OF mount]
  let ?m = "msgs ! d" and ?c = "nd_children n ! j"
  let ?f = "\<lambda>n. MessageNode (nd_info n) ((nd_children n)[j := demote ?m (nd_children n ! j)])"
  have upd: "update_at [j] (demote ?m) n = ?f n" using merged by simp
  have t': "t' = update_at p (update_at [j] (demote ?m)) t"
    using merged by (simp add: update_at_append del: update_at.simps)
  have "find_child ?m (nd_children n) = None" using r merged by simp
  then have "find_child ?m ((nd_children n)[j := demote ?m ?c]) = Some j"
    using merged by (auto simp: find_child_Some find_child_None node_matches_def demote_def nth_list_update)
  then have "routes (update_at [j] (demote ?m) n) [j] [?m]" using merged by (simp add: upd)
  then have "routes t' (p @ [j]) (take d msgs @ [?m])"
    using routes_update [of t p "take d msgs" n "update_at [j] (demote ?m)" "[j]" "[?m]"] r merged(1,2)
    by (simp add: t' del: update_at.simps) (simp add: upd)
  moreover have "node_at t' (p @ [j]) = Some (demote ?m ?c)"
    using node_at_update_same [OF merged(1), of "update_at [j] (demote ?m)" "[j]"] merged(2) by (simp add: t')
  ultimately show ?thesis
    using merged by (simp add: take_Suc_conv_app_nth demote_def)
qed

text \<open>The nodes a mount adds carry no turn, and it keeps every node.\<close>

definition adds_routing :: "message_node \<Rightarrow> message_node \<Rightarrow> bool" where
  "adds_routing t t' \<longleftrightarrow> (\<forall>q i. info_at t q = Some i \<longrightarrow> info_at t' q = Some i) \<and>
     (\<forall>q i. info_at t' q = Some i \<longrightarrow> info_at t q = Some i \<or>
        info_at t q = None \<and> nd_turn i = None \<and> nd_turn_index i = None)"

lemma adds_routing_refl [simp]: "adds_routing t t"
  by (simp add: adds_routing_def)

lemma adds_routing_trans: "adds_routing t u \<Longrightarrow> adds_routing u v \<Longrightarrow> adds_routing t v"
  unfolding adds_routing_def by (metis not_None_eq)

lemma mount_adds_routing:
  "node_at t p \<noteq> None \<Longrightarrow> mount_prompt_messages t p rest = (t', p') \<Longrightarrow> adds_routing t t' \<and> node_at t' p' \<noteq> None"
proof (induction rest arbitrary: t p)
  case (Cons m rest)
  define c where "c = message_node_new (msg_get m ''role'') (Some m) fmempty"
  obtain n where n: "node_at t p = Some n" using Cons.prems(1) by blast
  have c: "nd_children c = []" "nd_turn (nd_info c) = None" "nd_turn_index (nd_info c) = None"
    by (simp_all add: c_def message_node_new_def)
  have fresh: "node_at t (p @ [length (nd_children n)]) = None" using n by (simp add: node_at_append)
  then have "adds_routing t (fst (add_child t p c))"
    using c by (auto simp: adds_routing_def info_at_add_child [OF n c(1)]) (metis info_at_None option.distinct(1))
  moreover have "node_at (fst (add_child t p c)) (snd (add_child t p c)) = Some c"
    using node_at_update_same [OF n, of _ "[length (nd_children n)]"] by (simp add: add_child_def n)
  moreover have "mount_prompt_messages (fst (add_child t p c)) (snd (add_child t p c)) rest = (t', p')"
    using Cons.prems(2) by (simp add: mount_prompt_messages_def c_def split_beta)
  ultimately show ?case using Cons.IH [of "fst (add_child t p c)" "snd (add_child t p c)"] adds_routing_trans by auto
qed (simp add: mount_prompt_messages_def)

definition session_tree :: "trajectory_manager \<Rightarrow> string \<Rightarrow> message_node" where
  "session_tree m sid = (case tm_trees m sid of None \<Rightarrow> message_node_new PyNone None fmempty | Some t \<Rightarrow> t)"

text \<open>At most one generated leaf, shorter than the threshold, loses its turn: it becomes the routing node
  of an assistant message of the prompt.\<close>

definition demotes_short_leaf :: "int \<Rightarrow> message list \<Rightarrow> message_node \<Rightarrow> message_node \<Rightarrow> bool" where
  "demotes_short_leaf th msgs t t' \<longleftrightarrow> (\<exists>q msg turn n. node_at t q = Some n \<and> q \<noteq> [] \<and> nd_children n = [] \<and>
     msg \<in> set msgs \<and> msg_get msg ''role'' = assistant \<and>
     nd_turn (nd_info n) = Some turn \<and> int (length (tr_output_ids turn)) < th \<and> t' = update_at q (demote msg) t)"

lemma record_turn_cases:
  assumes "record_turn sid turn msgs resp md m = Inr m'" "msgs \<noteq> []"
  obtains t1 t2 p n where "t1 = session_tree m sid \<or> demotes_short_leaf (tm_fork_threshold m) msgs (session_tree m sid) t1"
    "adds_routing t1 t2" "routes t2 p msgs" "node_at t2 p = Some n" "log_probs_ok turn"
    "m' = attach_assistant_leaf sid t2 p turn resp md m"
proof -
  let ?t = "session_tree m sid"
  obtain p0 d0 where find: "find_mount_point ?t msgs = (p0, d0)" by fastforce
  obtain t1 p1 d1 where merge: "try_merge_assistant_rewrite (tm_fork_threshold m) ?t p0 msgs d0 = (t1, p1, d1)"
    using prod_cases3 by blast
  obtain t2 p2 where mount: "mount_prompt_messages t1 p1 (drop d1 msgs) = (t2, p2)" by fastforce
  have res: "m' = attach_assistant_leaf sid t2 p2 turn resp md m" and lp: "log_probs_ok turn"
    using assms find merge mount
    by (auto simp: record_turn_def session_tree_def Let_def log_probs_ok_def split: if_splits)
  have merged: "t1 = ?t \<or> demotes_short_leaf (tm_fork_threshold m) msgs ?t t1" using merge
  proof (cases rule: try_merge_cases)
    case (merged n j turn')
    then have "node_at ?t (p0 @ [j]) = Some (nd_children n ! j)" "msgs ! d0 \<in> set msgs"
      by (simp_all add: node_at_append)
    with merged show ?thesis unfolding demotes_short_leaf_def by blast
  qed simp
  note r = merge_routes [OF find merge]
  have "case drop d1 msgs of [] \<Rightarrow> True
    | msg # _ \<Rightarrow> \<forall>n. node_at t1 p1 = Some n \<longrightarrow> find_child msg (nd_children n) = None"
    using r by (cases "d1 < length msgs") (simp_all add: Cons_nth_drop_Suc [symmetric])
  with r have "routes t2 p2 (take d1 msgs @ drop d1 msgs)"
    using mount_prompt_messages_routes [OF _ _ mount] by blast
  then have routes: "routes t2 p2 msgs" by simp
  have add: "adds_routing t1 t2" using mount_adds_routing [OF _ mount] r routes_valid by blast
  obtain n where "node_at t2 p2 = Some n" using routes_valid [OF routes] by blast
  then show thesis using that [OF merged add routes _ lp res] by blast
qed

end
