(* ===== verification/Trajectory_Samples.thy ===== *)
theory Trajectory_Samples
  imports Trajectory_Tree
begin

text \<open>
  Linearising a session: every sample a tree yields trains only tokens that one of its turns
  sampled in that very context, and every generated response is claimed by one chain only.
\<close>

section \<open>Builders of one chain\<close>

definition builders_ok :: "int \<Rightarrow> turn_record set \<Rightarrow> sample_builder list \<Rightarrow> bool" where
  "builders_ok th T bs \<longleftrightarrow> (\<forall>b \<in> set bs. builder_ok T b \<and> sb_fork_threshold b = th)"

definition all_trained :: "sample_builder list \<Rightarrow> int" where
  "all_trained bs = sum_list (map trained_tokens bs)"

lemma sample_builder_new_sel [simp]:
  "sb_fork_threshold (sample_builder_new th) = th" "sb_loss_mask (sample_builder_new th) = []"
  by (simp_all add: sample_builder_new_def)

lemma all_trained_snoc [simp]: "all_trained (bs @ [b]) = all_trained bs + trained_tokens b"
  by (simp add: all_trained_def)

lemma absorb_turn_threshold [simp]: "sb_fork_threshold (absorb_turn turn kind trained b) = sb_fork_threshold b"
  by (simp add: absorb_turn_def Let_def align_to_prompt_def append_tokens_def add_counters_def)

lemma append_turn_threshold:
  "append_turn turn kind trained b = Inr b' \<Longrightarrow> sb_fork_threshold b' = sb_fork_threshold b"
  by (erule append_turn_cases) simp

lemma classify_realign_short:
  "classify_token_drift b turn = REALIGN \<Longrightarrow> int (length (tr_output_ids turn)) < sb_fork_threshold b"
  by (auto simp: classify_token_drift_def Let_def split: if_splits option.splits)

lemma flow_turn_ok:
  assumes flow: "flow_turn th turn trained bs = Inr bs'" and ok: "builders_ok th T bs"
    and lp: "log_probs_ok turn" and T: "turn \<in> T"
  shows "builders_ok th T bs'"
    and "all_trained bs' \<le> all_trained bs + of_bool trained * int (length (tr_output_ids turn))"
    and "th \<le> 0 \<Longrightarrow> all_trained bs' = all_trained bs + of_bool trained * int (length (tr_output_ids turn))"
proof -
  obtain b kind b' rest where step: "append_turn turn kind trained b = Inr b'" "extends kind b turn" "builder_ok T b"
      "sb_fork_threshold b = th" "bs' = rest @ [b']" "builders_ok th T rest"
      "all_trained rest + trained_tokens b = all_trained bs" "th \<le> 0 \<longrightarrow> kind = CLEAN"
  proof (cases "bs = [] \<or> classify_token_drift (last bs) turn = FORK")
    case True
    then obtain b' where "append_turn turn CLEAN trained (sample_builder_new th) = Inr b'" "bs' = bs @ [b']"
      using flow by (auto simp: flow_turn_def res_bind_eq_Inr)
    then show thesis
      using ok that [of CLEAN "sample_builder_new th" b' bs] by simp
  next
    case False
    define kind where "kind = classify_token_drift (last bs) turn"
    from False obtain b' where b': "append_turn turn kind trained (last bs) = Inr b'" "bs' = butlast bs @ [b']"
      using flow by (auto simp: flow_turn_def kind_def res_bind_eq_Inr)
    have last: "builder_ok T (last bs)" "sb_fork_threshold (last bs) = th" and rest: "builders_ok th T (butlast bs)"
      using ok False by (auto simp: builders_ok_def dest: in_set_butlastD)
    have "extends kind (last bs) turn"
      using False last classify_extends by (simp add: kind_def builder_ok_def)
    moreover have "th \<le> 0 \<longrightarrow> kind = CLEAN"
      using False classify_realign_short [of "last bs" turn] last(2) by (cases kind) (auto simp: kind_def)
    moreover have "all_trained (butlast bs) + trained_tokens (last bs) = all_trained bs"
      using False by (metis all_trained_snoc append_butlast_last_id)
    ultimately show thesis using that b' last rest by blast
  qed
  have ok': "builder_ok T b'"
    using append_turn_ok(1) [OF step(1,3,2) lp] T by (auto split: if_splits simp: insert_absorb)
  then show "builders_ok th T bs'"
    using step append_turn_threshold [OF step(1)] by (auto simp: builders_ok_def)
  show "all_trained bs' \<le> all_trained bs + of_bool trained * int (length (tr_output_ids turn))"
    using append_turn_trained(1) [OF step(1,3,2)] step(5,7) by simp
  show "all_trained bs' = all_trained bs + of_bool trained * int (length (tr_output_ids turn))" if "th \<le> 0"
    using append_turn_trained(2) [OF step(1,3,2)] step(5,7,8) that by simp
qed

section \<open>The claimed responses\<close>

text \<open>The tokens a position would still train, were it reached.\<close>

definition generated_info :: "node_info \<Rightarrow> bool" where
  "generated_info i \<longleftrightarrow> nd_role i = assistant \<and> nd_turn i \<noteq> None"

definition open_tokens :: "message_node \<Rightarrow> path \<Rightarrow> int" where
  "open_tokens t q = (case info_at t q of
       Some i \<Rightarrow> if generated_info i \<and> \<not> nd_response_trained i then int (length (tr_output_ids (the (nd_turn i)))) else 0
     | None \<Rightarrow> 0)"

definition unmark :: "node_info \<Rightarrow> node_info" where
  "unmark i = i\<lparr>nd_response_trained := False\<rparr>"

definition same_but_marks :: "message_node \<Rightarrow> message_node \<Rightarrow> bool" where
  "same_but_marks t t' \<longleftrightarrow> (\<forall>q. map_option unmark (info_at t q) = map_option unmark (info_at t' q))"

lemma same_but_marks_refl [simp]: "same_but_marks t t"
  by (simp add: same_but_marks_def)

lemma same_but_marks_trans: "same_but_marks t u \<Longrightarrow> same_but_marks u v \<Longrightarrow> same_but_marks t v"
  by (simp add: same_but_marks_def)

lemma info_at_mark:
  "info_at (update_at p mark_trained t) q =
     (if q = p then map_option (\<lambda>i. i\<lparr>nd_response_trained := True\<rparr>) (info_at t q) else info_at t q)"
proof -
  have "mark_trained = (\<lambda>n. MessageNode ((\<lambda>i. i\<lparr>nd_response_trained := True\<rparr>) (nd_info n)) (nd_children n))"
    by (simp add: mark_trained_def fun_eq_iff)
  then show ?thesis using info_at_update_info [of p "\<lambda>i. i\<lparr>nd_response_trained := True\<rparr>" t q] by simp
qed

lemma mark_same_but_marks [simp]: "same_but_marks t (update_at p mark_trained t)"
  by (simp add: same_but_marks_def info_at_mark option.map_comp o_def) (simp add: unmark_def cong: map_option_cong)

lemma open_tokens_mark: "open_tokens (update_at p mark_trained t) q = (if q = p then 0 else open_tokens t q)"
  by (simp add: open_tokens_def info_at_mark split: option.split)

text \<open>The turns of the generated nodes.\<close>

definition generated_turns :: "message_node \<Rightarrow> turn_record set" where
  "generated_turns t = {turn. \<exists>q i. info_at t q = Some i \<and> generated_info i \<and> nd_turn i = Some turn}"

lemma unmark_fields:
  "unmark i = unmark j \<Longrightarrow> nd_turn i = nd_turn j \<and> generated_info i = generated_info j \<and>
   nd_turn_index i = nd_turn_index j \<and> nd_role i = nd_role j"
  by (cases i, cases j) (simp add: unmark_def generated_info_def)

lemma same_but_marks_info:
  assumes "same_but_marks t t'" "info_at t' q = Some i"
  obtains j where "info_at t q = Some j" "nd_turn i = nd_turn j" "generated_info i = generated_info j"
    "nd_turn_index i = nd_turn_index j" "nd_role i = nd_role j"
proof -
  have "map_option unmark (info_at t q) = Some (unmark i)" using assms by (simp add: same_but_marks_def)
  then obtain j where "info_at t q = Some j" "unmark j = unmark i" by blast
  then show thesis using that unmark_fields by metis
qed

lemma same_but_marks_sym: "same_but_marks t t' \<Longrightarrow> same_but_marks t' t"
  by (simp add: same_but_marks_def)

lemma generated_turns_marks_le: "same_but_marks t t' \<Longrightarrow> generated_turns t' \<subseteq> generated_turns t"
proof
  fix turn assume marks: "same_but_marks t t'" and "turn \<in> generated_turns t'"
  then obtain q i where i: "info_at t' q = Some i" "generated_info i" "nd_turn i = Some turn"
    by (auto simp: generated_turns_def)
  from marks i(1) obtain j where "info_at t q = Some j" "nd_turn i = nd_turn j" "generated_info i = generated_info j"
    by (rule same_but_marks_info)
  with i show "turn \<in> generated_turns t" unfolding generated_turns_def by auto
qed

lemma generated_turns_marks: "same_but_marks t t' \<Longrightarrow> generated_turns t' = generated_turns t"
  using generated_turns_marks_le same_but_marks_sym by blast

lemma asst_nodes_iff: "set (asst_nodes t ps) = {p \<in> set ps. \<exists>i. info_at t p = Some i \<and> generated_info i}"
  by (auto simp: asst_nodes_def info_at_def is_generated_def generated_info_def split: option.splits)

section \<open>Splitting a chain\<close>

lemma split_chain_loop_marks:
  "split_chain_loop th ps t bs = (t', r) \<Longrightarrow> same_but_marks t t'"
proof (induction th ps t bs rule: split_chain_loop.induct)
  case (2 th p ps t bs)
  show ?case
  proof (cases "node_at t p")
    case (Some n)
    show ?thesis
    proof (cases "nd_turn (nd_info n)")
      case turn: (Some turn)
      define flow where "flow = flow_turn th turn (\<not> nd_response_trained (nd_info n)) bs"
      show ?thesis
      proof (cases flow)
        case (Inl e)
        then have "t' = update_at p mark_trained t" using "2.prems" Some turn by (auto simp: flow_def)
        then show ?thesis by simp
      next
        case (Inr bs')
        then have "same_but_marks (update_at p mark_trained t) t'"
          using 2 Some turn by (simp add: flow_def)
        then show ?thesis using mark_same_but_marks same_but_marks_trans by blast
      qed
    qed (use "2.prems" Some in simp)
  qed (use "2.prems" in simp)
qed simp

lemma split_chain_loop_ok:
  assumes "split_chain_loop th ps t bs = (t', Inr bs')" "distinct ps"
    and "\<And>p. p \<in> set ps \<Longrightarrow> \<exists>i turn. info_at t p = Some i \<and> generated_info i \<and> nd_turn i = Some turn"
    and "\<And>turn. turn \<in> generated_turns t \<Longrightarrow> log_probs_ok turn"
    and "builders_ok th (generated_turns t) bs"
  shows "builders_ok th (generated_turns t) bs' \<and>
    all_trained bs' \<le> all_trained bs + (\<Sum>p\<in>set ps. open_tokens t p) \<and>
    (th \<le> 0 \<longrightarrow> all_trained bs' = all_trained bs + (\<Sum>p\<in>set ps. open_tokens t p)) \<and>
    (\<forall>q. open_tokens t' q = (if q \<in> set ps then 0 else open_tokens t q))"
  using assms
proof (induction ps arbitrary: t bs)
  case (Cons p ps)
  obtain i turn where i: "info_at t p = Some i" "generated_info i" "nd_turn i = Some turn"
    using Cons.prems(3) [of p] by auto
  then obtain n where n: "node_at t p = Some n" "nd_info n = i" by (auto simp: info_at_def)
  define u where "u = update_at p mark_trained t"
  have marks: "same_but_marks t u" by (simp add: u_def)
  have gen: "generated_turns u = generated_turns t" using generated_turns_marks [OF marks] .
  obtain bs1 where flow: "flow_turn th turn (\<not> nd_response_trained i) bs = Inr bs1"
      and rest: "split_chain_loop th ps u bs1 = (t', Inr bs')"
    using Cons.prems(1) n i by (auto simp: u_def Let_def split: sum.splits)
  have "turn \<in> generated_turns t" using i unfolding generated_turns_def by blast
  note f = flow_turn_ok [OF flow Cons.prems(5) Cons.prems(4) [OF this] this]
  have op: "of_bool (\<not> nd_response_trained i) * int (length (tr_output_ids turn)) = open_tokens t p"
    using i by (simp add: open_tokens_def)
  have "\<exists>i turn. info_at u q = Some i \<and> generated_info i \<and> nd_turn i = Some turn" if q: "q \<in> set ps" for q
  proof -
    obtain i' turn' where "info_at t q = Some i'" "generated_info i'" "nd_turn i' = Some turn'"
      using Cons.prems(3) [of q] q by auto
    then show ?thesis by (auto simp: u_def info_at_mark generated_info_def)
  qed
  from Cons.IH [OF rest _ this] f(1) Cons.prems(2,4)
  have IH: "builders_ok th (generated_turns t) bs'"
      "all_trained bs' \<le> all_trained bs1 + (\<Sum>p\<in>set ps. open_tokens u p)"
      "th \<le> 0 \<longrightarrow> all_trained bs' = all_trained bs1 + (\<Sum>p\<in>set ps. open_tokens u p)"
      "\<forall>q. open_tokens t' q = (if q \<in> set ps then 0 else open_tokens u q)"
    by (simp_all add: gen)
  have sum: "(\<Sum>p\<in>set ps. open_tokens u p) = (\<Sum>p\<in>set ps. open_tokens t p)"
    using Cons.prems(2) by (intro sum.cong) (auto simp: u_def open_tokens_mark)
  have "(\<Sum>p\<in>set (p # ps). open_tokens t p) = open_tokens t p + (\<Sum>p\<in>set ps. open_tokens t p)"
    using Cons.prems(2) by simp
  with IH f(2,3) op sum show ?case by (auto simp: u_def open_tokens_mark)
qed simp

section \<open>Samples\<close>

definition on_policy :: "turn_record set \<Rightarrow> sample \<Rightarrow> bool" where
  "on_policy T s \<longleftrightarrow> (\<exists>lmask lps. sm_loss_mask s = Some lmask \<and> sm_rollout_log_probs s = Some lps \<and>
     length lps = length lmask \<and> length lmask \<le> length (sm_tokens s) \<and>
     (\<forall>i < length lmask. lmask ! i = 0 \<or> lmask ! i = 1 \<and>
        (\<exists>t \<in> T. sampled_at t (sm_tokens s) (lps ! i) (length (sm_tokens s) - length lmask + i))))"

definition sample_trained :: "sample \<Rightarrow> int" where
  "sample_trained s = (case sm_loss_mask s of None \<Rightarrow> 0 | Some lmask \<Rightarrow> sum_list lmask)"

lemma set_replay_fields_same:
  assumes "set_replay_fields r s = Inr s'"
  shows "sm_tokens s' = sm_tokens s \<and> sm_loss_mask s' = sm_loss_mask s \<and>
    sm_rollout_log_probs s' = sm_rollout_log_probs s \<and> sm_response_length s' = sm_response_length s"
  using assms
  by (auto simp: set_replay_fields_def Let_def res_simps split: option.splits)

text \<open>The token fields of an emitted sample.\<close>

definition cut_len :: "nat \<Rightarrow> sample_builder \<Rightarrow> nat" where
  "cut_len limit b = (if limit \<noteq> 0 \<and> limit < length (sb_tokens b) then limit else length (sb_tokens b))"

lemma to_sample_fields:
  assumes "to_sample base md limit b = Inr s" "well_aligned b"
  shows "sm_tokens s = take (cut_len limit b) (sb_tokens b)"
    and "sm_loss_mask s = Some (drop (sb_leading_prompt_len b) (take (cut_len limit b) (sb_loss_mask b)))"
    and "sm_rollout_log_probs s = Some (drop (sb_leading_prompt_len b) (take (cut_len limit b) (sb_logprobs b)))"
    and "sm_response_length s = int (cut_len limit b) - int (sb_leading_prompt_len b)"
proof -
  have len: "length (sb_loss_mask b) = length (sb_tokens b)" "length (sb_logprobs b) = length (sb_tokens b)"
    using assms(2) by (auto simp: well_aligned_def)
  show "sm_tokens s = take (cut_len limit b) (sb_tokens b)"
    "sm_loss_mask s = Some (drop (sb_leading_prompt_len b) (take (cut_len limit b) (sb_loss_mask b)))"
    "sm_rollout_log_probs s = Some (drop (sb_leading_prompt_len b) (take (cut_len limit b) (sb_logprobs b)))"
    "sm_response_length s = int (cut_len limit b) - int (sb_leading_prompt_len b)"
    using assms(1) len
    by (auto simp: to_sample_def Let_def cut_len_def dest!: set_replay_fields_same split: option.splits if_splits)
qed

lemma to_sample_on_policy:
  assumes "to_sample base md limit b = Inr s" "builder_ok T b"
  shows "on_policy T s"
proof -
  have wf: "well_aligned b" using assms(2) by (simp add: builder_ok_def)
  note f = to_sample_fields [OF assms(1) wf]
  define c where "c = cut_len limit b"
  define k where "k = sb_leading_prompt_len b"
  have c: "c \<le> length (sb_tokens b)" by (simp add: c_def cut_len_def)
  have len: "length (sb_loss_mask b) = length (sb_tokens b)" "length (sb_logprobs b) = length (sb_tokens b)"
    using wf by (auto simp: well_aligned_def)
  have "sb_loss_mask b ! (k + i) = 0 \<or> sb_loss_mask b ! (k + i) = 1 \<and>
      (\<exists>t \<in> T. sampled_at t (take c (sb_tokens b)) (sb_logprobs b ! (k + i)) (k + i))" if "i < c - k" for i
  proof -
    have i: "k + i < c" "k + i < length (sb_tokens b)" using that c by auto
    then have "take (Suc (k + i)) (take c (sb_tokens b)) = take (Suc (k + i)) (sb_tokens b)" by simp
    then have "sampled_at t (take c (sb_tokens b)) lp (k + i) = sampled_at t (sb_tokens b) lp (k + i)" for t lp
      by (simp only: sampled_at_def)
    then show ?thesis using assms(2) i unfolding builder_ok_def by auto
  qed
  then show ?thesis
    using c len by (auto simp: on_policy_def f c_def [symmetric] k_def [symmetric])
qed

lemma sum_list_zero: "(\<forall>x \<in> set xs. x = 0) \<Longrightarrow> sum_list (xs :: int list) = 0"
  by (induction xs) auto

lemma builder_mask:
  assumes "builder_ok T b"
  shows "trained_tokens b = sum_list (drop (sb_leading_prompt_len b) (sb_loss_mask b))"
    and "\<forall>x \<in> set (sb_loss_mask b). 0 \<le> x"
proof -
  have z: "\<forall>i < length (sb_loss_mask b). sb_loss_mask b ! i = 0 \<or>
      sb_leading_prompt_len b \<le> i \<and> sb_loss_mask b ! i = 1"
    using assms by (auto simp: builder_ok_def well_aligned_def)
  have "x = 0" if x: "x \<in> set (take (sb_leading_prompt_len b) (sb_loss_mask b))" for x
  proof -
    obtain i where "i < sb_leading_prompt_len b" "i < length (sb_loss_mask b)" "x = sb_loss_mask b ! i"
      using x by (auto simp: in_set_conv_nth)
    then show ?thesis using z by auto
  qed
  then have "sum_list (take (sb_leading_prompt_len b) (sb_loss_mask b)) = 0" by (intro sum_list_zero) blast
  then show "trained_tokens b = sum_list (drop (sb_leading_prompt_len b) (sb_loss_mask b))"
    by (metis add_0 append_take_drop_id sum_list.append)
  show "\<forall>x \<in> set (sb_loss_mask b). 0 \<le> x" using z by (auto simp: in_set_conv_nth) fastforce
qed

lemma to_sample_trained:
  assumes "to_sample base md limit b = Inr s" "builder_ok T b"
  shows "sample_trained s \<le> trained_tokens b" and "limit = 0 \<Longrightarrow> sample_trained s = trained_tokens b"
proof -
  have wf: "well_aligned b" using assms(2) by (simp add: builder_ok_def)
  note f = to_sample_fields [OF assms(1) wf] and m = builder_mask [OF assms(2)]
  let ?m = "sb_loss_mask b" and ?k = "sb_leading_prompt_len b" and ?c = "cut_len limit b"
  have "0 \<le> sum_list (drop (?c - ?k) (drop ?k ?m))"
    using m(2) by (intro sum_list_nonneg) (auto dest!: in_set_dropD)
  then have "sum_list (take (?c - ?k) (drop ?k ?m)) \<le> sum_list (drop ?k ?m)"
    by (metis append_take_drop_id le_add_same_cancel1 sum_list.append)
  then show "sample_trained s \<le> trained_tokens b" by (simp add: sample_trained_def f m(1) drop_take)
  show "limit = 0 \<Longrightarrow> sample_trained s = trained_tokens b"
    using wf by (simp add: sample_trained_def f m(1) cut_len_def well_aligned_def)
qed

lemma no_trained_response: "builder_ok T b \<Longrightarrow> \<not> has_trained_response b \<Longrightarrow> trained_tokens b = 0"
  by (simp only: builder_mask(1)) (auto simp: has_trained_response_def intro: sum_list_zero)

section \<open>All leaves of a session\<close>

definition samples_trained :: "sample list \<Rightarrow> int" where
  "samples_trained ss = sum_list (map sample_trained ss)"

lemma samples_trained_append [simp]: "samples_trained (xs @ ys) = samples_trained xs + samples_trained ys"
  by (simp add: samples_trained_def)

lemma all_trained_filter:
  "builders_ok th T bs \<Longrightarrow> all_trained (filter has_trained_response bs) = all_trained bs"
  by (induction bs) (auto simp: builders_ok_def all_trained_def dest: no_trained_response)

lemma emit_samples:
  assumes "res_map (to_sample base md limit) bs = Inr ss" "builders_ok th T bs"
  shows "(\<forall>s \<in> set ss. on_policy T s) \<and> samples_trained ss \<le> all_trained bs \<and>
    (limit = 0 \<longrightarrow> samples_trained ss = all_trained bs)"
  using assms
proof (induction bs arbitrary: ss)
  case (Cons b bs)
  then obtain s ss' where s: "to_sample base md limit b = Inr s" "res_map (to_sample base md limit) bs = Inr ss'" "ss = s # ss'"
    by (auto simp: res_bind_eq_Inr)
  have b: "builder_ok T b" "builders_ok th T bs" using Cons.prems(2) by (auto simp: builders_ok_def)
  from to_sample_on_policy [OF s(1) b(1)] to_sample_trained [OF s(1) b(1)] Cons.IH [OF s(2) b(2)]
  show ?case by (auto simp: s(3) samples_trained_def all_trained_def)
qed (simp add: samples_trained_def all_trained_def)

lemma open_tokens_not_generated: "p \<notin> set (asst_nodes t ps) \<Longrightarrow> p \<in> set ps \<Longrightarrow> open_tokens t p = 0"
  by (auto simp: asst_nodes_iff open_tokens_def split: option.splits)

lemma chain_to_samples_ok:
  assumes "chain_to_samples th base extra limit (path_from_root l) t = (t', Inr ss)"
    and lp: "\<And>turn. turn \<in> generated_turns t \<Longrightarrow> log_probs_ok turn"
  defines "claimed \<equiv> \<Sum>q\<in>set (path_from_root l). open_tokens t q"
  shows "\<forall>s \<in> set ss. on_policy (generated_turns t) s"
    and "samples_trained ss \<le> claimed"
    and "th \<le> 0 \<Longrightarrow> limit = 0 \<Longrightarrow> samples_trained ss = claimed"
    and "open_tokens t' q = (if q \<in> set (path_from_root l) then 0 else open_tokens t q)"
    and "same_but_marks t t'"
proof -
  define ps where "ps = asst_nodes t (path_from_root l)"
  obtain bs where split: "split_chain_loop th ps t [] = (t', Inr bs)"
    and emit: "res_map (to_sample base (chain_metadata t (path_from_root l) extra) limit) (filter has_trained_response bs) = Inr ss"
    using assms(1) by (auto simp: chain_to_samples_def split_chain_into_builders_def ps_def res_bind_eq_Inr split: prod.splits)
  have "distinct ps" by (simp add: ps_def asst_nodes_def distinct_path_from_root)
  moreover have "\<exists>i turn. info_at t p = Some i \<and> generated_info i \<and> nd_turn i = Some turn" if "p \<in> set ps" for p
    using that by (auto simp: ps_def asst_nodes_iff generated_info_def)
  ultimately have ok: "builders_ok th (generated_turns t) bs"
      "all_trained bs \<le> (\<Sum>p\<in>set ps. open_tokens t p)"
      "th \<le> 0 \<longrightarrow> all_trained bs = (\<Sum>p\<in>set ps. open_tokens t p)"
      "\<forall>q. open_tokens t' q = (if q \<in> set ps then 0 else open_tokens t q)"
    using split_chain_loop_ok [OF split _ _ lp] by (auto simp: builders_ok_def all_trained_def)
  have sum: "(\<Sum>p\<in>set ps. open_tokens t p) = claimed"
    unfolding claimed_def ps_def
    by (intro sum.mono_neutral_left) (auto simp: open_tokens_not_generated, auto simp: asst_nodes_iff)
  have "builders_ok th (generated_turns t) (filter has_trained_response bs)" using ok(1) by (simp add: builders_ok_def)
  note e = emit_samples [OF emit this, unfolded all_trained_filter [OF ok(1)]]
  show "\<forall>s \<in> set ss. on_policy (generated_turns t) s" "samples_trained ss \<le> claimed"
    "th \<le> 0 \<Longrightarrow> limit = 0 \<Longrightarrow> samples_trained ss = claimed"
    using e ok(2,3) sum by auto
  show "open_tokens t' q = (if q \<in> set (path_from_root l) then 0 else open_tokens t q)"
    using ok(4) open_tokens_not_generated [of q t "path_from_root l"] by (auto simp: ps_def asst_nodes_iff)
  show "same_but_marks t t'" using split_chain_loop_marks [OF split] .
qed

lemma sum_union_minus: "finite A \<Longrightarrow> finite B \<Longrightarrow> sum f A + sum f (B - A) = sum f (A \<union> B)"
  for f :: "'a \<Rightarrow> int"
  by (metis Diff_disjoint Un_Diff_cancel finite_Diff sum.union_disjoint)

lemma leaves_to_samples_ok:
  assumes "leaves_to_samples th base extra limit ls t acc = (t', Inr ss)"
    and "\<And>turn. turn \<in> generated_turns t \<Longrightarrow> log_probs_ok turn"
    and "\<forall>s \<in> set acc. on_policy (generated_turns t) s"
  shows "(\<forall>s \<in> set ss. on_policy (generated_turns t) s) \<and>
    samples_trained ss \<le> samples_trained acc + (\<Sum>q\<in>(\<Union>l\<in>set ls. set (path_from_root l)). open_tokens t q) \<and>
    (th \<le> 0 \<longrightarrow> limit = 0 \<longrightarrow>
     samples_trained ss = samples_trained acc + (\<Sum>q\<in>(\<Union>l\<in>set ls. set (path_from_root l)). open_tokens t q))"
  using assms
proof (induction ls arbitrary: t acc)
  case (Cons l ls)
  show ?case
  proof (cases "l = []")
    case True
    then show ?thesis using Cons.IH [OF _ Cons.prems(2,3)] Cons.prems(1) by (simp add: path_from_root_def)
  next
    case False
    then obtain u new where chain: "chain_to_samples th base extra limit (path_from_root l) t = (u, Inr new)"
        and rest: "leaves_to_samples th base extra limit ls u (acc @ new) = (t', Inr ss)"
      using Cons.prems(1) by (auto split: prod.splits sum.splits)
    note c = chain_to_samples_ok [OF chain Cons.prems(2)]
    have gen: "generated_turns u = generated_turns t" using generated_turns_marks [OF c(5)] .
    let ?A = "set (path_from_root l)" and ?B = "\<Union>l\<in>set ls. set (path_from_root l)"
    have "(\<Sum>q\<in>?B. open_tokens u q) = (\<Sum>q\<in>?B. if q \<in> ?A then 0 else open_tokens t q)"
      by (intro sum.cong refl) (rule c(4))
    also have "\<dots> = (\<Sum>q\<in>?B - ?A. open_tokens t q)" by (intro sum.mono_neutral_cong_right) auto
    finally have B: "(\<Sum>q\<in>?A. open_tokens t q) + (\<Sum>q\<in>?B. open_tokens u q) = (\<Sum>q\<in>?A \<union> ?B. open_tokens t q)"
      by (simp add: sum_union_minus)
    have "\<forall>s \<in> set (acc @ new). on_policy (generated_turns u) s" using Cons.prems(3) c(1) by (auto simp: gen)
    from Cons.IH [OF rest _ this] Cons.prems(2) c(2,3) B show ?thesis by (auto simp: gen)
  qed
qed simp

lemma leaves_to_samples_marks:
  "leaves_to_samples th base extra limit ls t acc = (t', r) \<Longrightarrow> same_but_marks t t'"
proof (induction ls arbitrary: t acc)
  case (Cons l ls)
  show ?case
  proof (cases "l = []")
    case True
    then show ?thesis using Cons by simp
  next
    case False
    obtain u rl where chain: "chain_to_samples th base extra limit (path_from_root l) t = (u, rl)" by fastforce
    then have "same_but_marks t u"
      using split_chain_loop_marks
      by (fastforce simp: chain_to_samples_def split_chain_into_builders_def split: prod.splits)
    moreover have "u = t' \<or> (\<exists>acc'. leaves_to_samples th base extra limit ls u acc' = (t', r))"
      using Cons.prems False chain by (auto split: sum.splits)
    ultimately show ?thesis using Cons.IH same_but_marks_trans by blast
  qed
qed simp

end
