(* ===== verification/Trajectory_Session.thy ===== *)
theory Trajectory_Session
  imports Trajectory_Samples
begin

text \<open>
  The trajectory manager as a state machine: its public operations as steps, the invariant of every
  reachable manager, and the properties of recording and consuming a session.
\<close>

section \<open>Reachable managers\<close>

inductive manager_step :: "trajectory_manager \<Rightarrow> trajectory_manager \<Rightarrow> bool" where
  recorded: "record_turn sid turn msgs resp md m = Inr m' \<Longrightarrow> manager_step m m'"
| consumed: "get_trajectory sid base r extra limit m = (m', res) \<Longrightarrow> manager_step m m'"
| dropped: "manager_step m (drop_session sid m)"

inductive reachable :: "int option \<Rightarrow> trajectory_manager \<Rightarrow> bool" for threshold where
  start: "reachable threshold (trajectory_manager_new threshold)"
| step: "reachable threshold m \<Longrightarrow> manager_step m m' \<Longrightarrow> reachable threshold m'"

inductive_cases manager_stepE: "manager_step m m'"

text \<open>Turns sit on assistant nodes, and the turn index tells them apart.\<close>

definition node_ok :: "nat \<Rightarrow> node_info \<Rightarrow> bool" where
  "node_ok n i \<longleftrightarrow> (case nd_turn i of
       None \<Rightarrow> nd_turn_index i = None
     | Some turn \<Rightarrow> nd_role i = assistant \<and> log_probs_ok turn \<and> (\<exists>k. nd_turn_index i = Some k \<and> 1 \<le> k \<and> k \<le> n))"

definition tree_ok :: "nat \<Rightarrow> message_node \<Rightarrow> bool" where
  "tree_ok n t \<longleftrightarrow> nd_turn (nd_info t) = None \<and> (\<forall>q i. info_at t q = Some i \<longrightarrow> node_ok n i) \<and>
     (\<forall>q q' i i'. info_at t q = Some i \<longrightarrow> info_at t q' = Some i' \<longrightarrow> nd_turn_index i \<noteq> None \<longrightarrow>
        nd_turn_index i = nd_turn_index i' \<longrightarrow> q = q')"

definition manager_ok :: "trajectory_manager \<Rightarrow> bool" where
  "manager_ok m \<longleftrightarrow> (\<forall>sid. (tm_trees m sid = None \<longleftrightarrow> tm_turn_count m sid = None) \<and>
     (\<forall>t. tm_trees m sid = Some t \<longrightarrow> tree_ok (turn_count m sid) t))"

text \<open>A tree whose turns are some of the turns of a good one, at the same positions, is good.\<close>

lemma tree_ok_subturns:
  assumes "tree_ok n t" "nd_turn (nd_info t') = None"
    and sub: "\<And>q i. info_at t' q = Some i \<Longrightarrow> nd_turn i = None \<and> nd_turn_index i = None \<or>
      (\<exists>j. info_at t q = Some j \<and> nd_turn i = nd_turn j \<and> nd_turn_index i = nd_turn_index j \<and> nd_role i = nd_role j)"
  shows "tree_ok n t'"
  unfolding tree_ok_def
proof (intro conjI allI impI)
  fix q i assume "info_at t' q = Some i"
  then consider "nd_turn i = None" "nd_turn_index i = None"
    | j where "node_ok n j" "nd_turn i = nd_turn j" "nd_turn_index i = nd_turn_index j" "nd_role i = nd_role j"
    using sub [of q i] assms(1) unfolding tree_ok_def by metis
  then show "node_ok n i" by cases (auto simp: node_ok_def split: option.splits)
next
  fix q q' i i' assume i: "info_at t' q = Some i" "info_at t' q' = Some i'" "nd_turn_index i \<noteq> None"
    "nd_turn_index i = nd_turn_index i'"
  obtain j where "info_at t q = Some j" "nd_turn_index i = nd_turn_index j" using sub [OF i(1)] i(3) by auto
  moreover obtain j' where "info_at t q' = Some j'" "nd_turn_index i' = nd_turn_index j'"
    using sub [OF i(2)] i(3,4) by auto
  ultimately show "q = q'" using assms(1) i(3,4) unfolding tree_ok_def by metis
qed (rule assms(2))

lemma tree_ok_adds_routing:
  assumes "tree_ok n t" "adds_routing t t'"
  shows "tree_ok n t'"
proof (rule tree_ok_subturns [OF assms(1)])
  have "info_at t' [] = info_at t []" using assms(2) by (metis adds_routing_def info_at_Nil)
  then show "nd_turn (nd_info t') = None" using assms(1) by (simp add: tree_ok_def)
  fix q i assume "info_at t' q = Some i"
  then show "nd_turn i = None \<and> nd_turn_index i = None \<or> (\<exists>j. info_at t q = Some j \<and> nd_turn i = nd_turn j \<and>
      nd_turn_index i = nd_turn_index j \<and> nd_role i = nd_role j)"
    using assms(2) unfolding adds_routing_def by blast
qed

lemma tree_ok_demotes:
  assumes "tree_ok n t" "demotes_short_leaf th msgs t t'"
  shows "tree_ok n t'"
proof -
  obtain q msg where q: "q \<noteq> []" "t' = update_at q (demote msg) t" using assms(2) by (auto simp: demotes_short_leaf_def)
  show ?thesis
  proof (rule tree_ok_subturns [OF assms(1)])
    have "info_at t' [] = info_at t []" unfolding q(2) info_at_demote using q(1) by (auto simp: info_at_demote)
    then show "nd_turn (nd_info t') = None" using assms(1) by (simp add: tree_ok_def)
  next
    fix r i assume "info_at t' r = Some i"
    then show "nd_turn i = None \<and> nd_turn_index i = None \<or> (\<exists>j. info_at t r = Some j \<and> nd_turn i = nd_turn j \<and>
        nd_turn_index i = nd_turn_index j \<and> nd_role i = nd_role j)"
      by (auto simp: q(2) info_at_demote demote_def split: if_splits)
  qed
qed

lemma tree_ok_marks:
  assumes "tree_ok n t" "same_but_marks t t'"
  shows "tree_ok n t'"
proof (rule tree_ok_subturns [OF assms(1)])
  show "nd_turn (nd_info t') = None"
    using same_but_marks_info [OF assms(2) info_at_Nil] assms(1) by (metis info_at_Nil option.inject tree_ok_def)
  fix q i assume "info_at t' q = Some i"
  then show "nd_turn i = None \<and> nd_turn_index i = None \<or> (\<exists>j. info_at t q = Some j \<and> nd_turn i = nd_turn j \<and>
      nd_turn_index i = nd_turn_index j \<and> nd_role i = nd_role j)"
    by (metis same_but_marks_info [OF assms(2)])
qed

lemma tree_ok_attach:
  assumes "tree_ok n t" "node_at t p = Some x" "log_probs_ok turn"
  shows "tree_ok (Suc n) (fst (add_child t p (assistant_leaf turn resp md (Suc n))))"
proof -
  define c where "c = assistant_leaf turn resp md (Suc n)"
  have leaf: "nd_children c = []" by (simp add: c_def assistant_leaf_def)
  note i = info_at_add_child [OF assms(2) leaf]
  have old: "node_ok n i \<Longrightarrow> node_ok (Suc n) i" "node_ok n i \<Longrightarrow> nd_turn_index i \<noteq> Some (Suc n)" for i
    by (auto simp: node_ok_def split: option.splits)
  have new: "node_ok (Suc n) (nd_info c)" "nd_turn_index (nd_info c) = Some (Suc n)"
    using assms(3) by (simp_all add: c_def assistant_leaf_def node_ok_def)
  have "info_at (fst (add_child t p c)) [] = info_at t []" by (simp only: i) simp
  then have "nd_turn (nd_info (fst (add_child t p c))) = None" using assms(1) by (simp add: tree_ok_def)
  then show ?thesis
    using assms(1) old new unfolding tree_ok_def c_def [symmetric] i by (auto split: if_splits) metis+
qed

lemma tree_ok_new [simp]: "tree_ok n (message_node_new r msg md)"
proof -
  have "info_at (message_node_new r msg md) q = Some i \<Longrightarrow> q = [] \<and> nd_turn i = None \<and> nd_turn_index i = None" for q i
    by (cases q) (auto simp: message_node_new_def)
  then show ?thesis by (auto simp: tree_ok_def node_ok_def message_node_new_def)
qed

lemma session_tree_ok: "manager_ok m \<Longrightarrow> tree_ok (turn_count m sid) (session_tree m sid)"
  by (auto simp: manager_ok_def session_tree_def split: option.split)

lemma record_turn_keeps_ok:
  assumes "record_turn sid turn msgs resp md m = Inr m'" "manager_ok m"
  shows "manager_ok m'"
proof (cases "msgs = []")
  case True
  then show ?thesis using assms by (simp add: record_turn_def)
next
  case False
  obtain t1 t2 p n where r: "t1 = session_tree m sid \<or> demotes_short_leaf (tm_fork_threshold m) msgs (session_tree m sid) t1"
    "adds_routing t1 t2" "routes t2 p msgs" "node_at t2 p = Some n" "log_probs_ok turn"
    "m' = attach_assistant_leaf sid t2 p turn resp md m"
    using assms(1) False by (rule record_turn_cases)
  have "tree_ok (turn_count m sid) t1" using r(1) session_tree_ok [OF assms(2)] tree_ok_demotes by blast
  then have "tree_ok (turn_count m sid) t2" using r(2) tree_ok_adds_routing by blast
  from tree_ok_attach [OF this r(4,5)] assms(2) show ?thesis
    unfolding r(6) by (auto simp: manager_ok_def attach_assistant_leaf_def Let_def turn_count_def)
qed

lemma drop_session_keeps_ok: "manager_ok m \<Longrightarrow> manager_ok (drop_session sid m)"
  by (auto simp: manager_ok_def drop_session_def turn_count_def)

lemma get_trajectory_cases:
  assumes "get_trajectory sid base r extra limit m = (m', res)"
  obtains (absent) "tm_trees m sid = None" "m' = m" "res = Inr []"
  | (failed) t t' e where "tm_trees m sid = Some t" "res = Inl e" "m' = m\<lparr>tm_trees := (tm_trees m)(sid \<mapsto> t')\<rparr>"
      "leaves_to_samples (tm_fork_threshold m) base extra limit (leaves t) t [] = (t', Inl e)"
  | (emitted) t t' ss where "tm_trees m sid = Some t" "m' = drop_session sid m"
      "res = Inr (map (\<lambda>s. s\<lparr>sm_reward := PyNum r\<rparr>) ss)"
      "leaves_to_samples (tm_fork_threshold m) base extra limit (leaves t) t [] = (t', Inr ss)"
  using assms by (auto simp: get_trajectory_def split: option.splits prod.splits sum.splits)

lemma get_trajectory_keeps_ok:
  assumes "get_trajectory sid base r extra limit m = (m', res)" "manager_ok m"
  shows "manager_ok m'"
  using assms(1)
proof (cases rule: get_trajectory_cases)
  case (failed t t' e)
  then have "tree_ok (turn_count m sid) t'"
    using assms(2) leaves_to_samples_marks tree_ok_marks unfolding manager_ok_def by blast
  moreover have "tm_turn_count m sid \<noteq> None"
    using failed(1) assms(2) unfolding manager_ok_def by (metis option.distinct(1))
  ultimately show ?thesis using failed assms(2) by (auto simp: manager_ok_def turn_count_def)
qed (use assms(2) drop_session_keeps_ok in simp_all)

text \<open>The fork threshold never changes.\<close>

lemma step_threshold: "manager_step m m' \<Longrightarrow> tm_fork_threshold m' = tm_fork_threshold m"
proof (erule manager_stepE)
  fix sid turn msgs resp md assume r: "record_turn sid turn msgs resp md m = Inr m'"
  show ?thesis
  proof (cases "msgs = []")
    case False
    with r show ?thesis by (rule record_turn_cases) (simp add: attach_assistant_leaf_def Let_def)
  qed (use r in \<open>simp add: record_turn_def\<close>)
next
  fix sid base r extra limit res assume "get_trajectory sid base r extra limit m = (m', res)"
  then show ?thesis by (cases rule: get_trajectory_cases) (auto simp: drop_session_def)
qed (simp add: drop_session_def)

lemma reachable_ok: "reachable th m \<Longrightarrow> manager_ok m"
proof (induction rule: reachable.induct)
  case start
  then show ?case by (simp add: manager_ok_def trajectory_manager_new_def)
next
  case (step m m')
  from step(2) step.IH show ?case
    by (cases rule: manager_step.cases)
       (auto intro: record_turn_keeps_ok get_trajectory_keeps_ok drop_session_keeps_ok)
qed

section \<open>Properties\<close>

text \<open>\<open>_common_prefix_len\<close>, with its 4096-token comparisons, returns the length of the longest
  common prefix of its arguments.\<close>

theorem common_prefix_len_longest: "common_prefix_len a b = length (longest_common_prefix a b)"
  by (rule lcp_at_unique) (rule common_prefix_len_lcp)

text \<open>C16: In every manager the public operations can reach, also after a linearisation that raised, a
  session has a tree exactly when it has a turn counter, only assistant nodes carry turns, their
  log-probabilities are absent or one per output token, and the turn indices are distinct, positive
  and bounded by the counter.\<close>

theorem reachable_manager_well_formed: "reachable threshold m \<Longrightarrow> manager_ok m"
  by (rule reachable_ok)

text \<open>A session of two turns: the second prompt repeats the first exchange.\<close>

definition demo_turn :: "int list \<Rightarrow> int list \<Rightarrow> turn_record" where
  "demo_turn prompt outp = \<lparr>tr_prompt_ids = prompt, tr_output_ids = outp, tr_finish_reason = ''stop'',
     tr_output_log_probs = [], tr_ill_formed = False, tr_replay = None, tr_weight_versions = [],
     tr_spec_info = spec_info_new, tr_prefix_cache_info = prefix_cache_info_new\<rparr>"

definition demo_msg :: "string \<Rightarrow> message" where
  "demo_msg role = fmupd ''role'' (PyStr role) fmempty"

definition demo_leaf :: "turn_record \<Rightarrow> nat \<Rightarrow> message_node list \<Rightarrow> message_node" where
  "demo_leaf turn k cs = MessageNode \<lparr>nd_role = assistant, nd_message = Some (demo_msg ''assistant''),
     nd_metadata = fmempty, nd_turn = Some turn, nd_turn_index = Some k, nd_response_trained = False\<rparr> cs"

definition demo_routing :: "string \<Rightarrow> message_node list \<Rightarrow> message_node" where
  "demo_routing role cs = MessageNode \<lparr>nd_role = PyStr role, nd_message = Some (demo_msg role),
     nd_metadata = fmempty, nd_turn = None, nd_turn_index = None, nd_response_trained = False\<rparr> cs"

definition demo_tree :: "message_node list \<Rightarrow> message_node" where
  "demo_tree cs = MessageNode \<lparr>nd_role = PyNone, nd_message = None, nd_metadata = fmempty, nd_turn = None,
     nd_turn_index = None, nd_response_trained = False\<rparr> cs"

definition demo_manager1 :: trajectory_manager where
  "demo_manager1 = \<lparr>tm_fork_threshold = 0,
     tm_trees = [''s'' \<mapsto> demo_tree [demo_routing ''user'' [demo_leaf (demo_turn [1, 2] [3]) 1 []]]],
     tm_turn_count = [''s'' \<mapsto> 1]\<rparr>"

definition demo_manager2 :: trajectory_manager where
  "demo_manager2 = \<lparr>tm_fork_threshold = 0,
     tm_trees = [''s'' \<mapsto> demo_tree [demo_routing ''user'' [demo_leaf (demo_turn [1, 2] [3]) 1
       [demo_routing ''tool'' [demo_leaf (demo_turn [1, 2, 3, 4] [5, 6]) 2 []]]]]],
     tm_turn_count = [''s'' \<mapsto> 2]\<rparr>"

lemma demo_msg_get [simp]: "msg_get (demo_msg r) ''role'' = PyStr r"
  by (simp add: msg_get_def demo_msg_def)

lemmas demo_defs = demo_leaf_def demo_routing_def demo_tree_def demo_manager1_def demo_manager2_def

lemma demo_record1:
  "record_turn ''s'' (demo_turn [1, 2] [3]) [demo_msg ''user''] (Some (demo_msg ''assistant'')) fmempty
     (trajectory_manager_new (Some 0)) = Inr demo_manager1"
  by (simp add: record_turn_def trajectory_manager_new_def message_node_new_def try_merge_assistant_rewrite_def
      mount_prompt_messages_def add_child_def attach_assistant_leaf_def turn_count_def assistant_leaf_def
      demo_defs) (simp add: demo_turn_def)

lemma demo_record2:
  "record_turn ''s'' (demo_turn [1, 2, 3, 4] [5, 6]) [demo_msg ''user'', demo_msg ''assistant'', demo_msg ''tool'']
     (Some (demo_msg ''assistant'')) fmempty demo_manager1 = Inr demo_manager2"
  by (simp add: record_turn_def message_node_new_def try_merge_assistant_rewrite_def node_matches_def
      mount_prompt_messages_def add_child_def attach_assistant_leaf_def turn_count_def assistant_leaf_def
      demo_defs) (simp add: demo_turn_def numeral_2_eq_2)

lemma demo_reachable: "reachable (Some 0) demo_manager2"
  by (rule reachable.step [OF reachable.step [OF reachable.start manager_step.recorded [OF demo_record1]]
        manager_step.recorded [OF demo_record2]])

theorem reachable_manager_well_formed_witness: "manager_ok demo_manager2"
  using reachable_manager_well_formed [OF demo_reachable] .

lemma common_prefix_len_eq: "common_prefix_len a b = length (longest_common_prefix a b)"
  by (rule lcp_at_unique) (rule common_prefix_len_lcp)

definition demo_sample :: sample where
  "demo_sample = sample_new\<lparr>sm_tokens := [1, 2, 3, 4, 5, 6], sm_response_length := 4, sm_loss_mask := Some [1, 0, 1, 1],
     sm_rollout_log_probs := Some [Fin 0, Fin 0, Fin 0, Fin 0], sm_reward := PyNum 1, sm_status := COMPLETED,
     sm_metadata := fmupd ''ill_formed'' (py_bool False) (fmupd ''use_tool'' (py_bool False)
       (fmupd ''truncated'' (py_bool False) fmempty))\<rparr>"

lemma demo_get:
  "get_trajectory ''s'' sample_new 1 fmempty 0 demo_manager2 = (drop_session ''s'' demo_manager2, Inr [demo_sample])"
  by (simp add: get_trajectory_def demo_manager2_def chain_to_samples_def split_chain_into_builders_def
      asst_nodes_def is_generated_def path_from_root_def demo_tree_def demo_routing_def demo_leaf_def
      flow_turn_def classify_token_drift_def append_turn_def absorb_turn_def append_tokens_def add_counters_def
      sample_builder_new_def demo_turn_def common_prefix_len_eq replay_or_empty_def replay_empty_def replay_keys_def
      mark_trained_def has_trained_response_def to_sample_def demo_sample_def chain_metadata_def Let_def
      msg_get_def demo_msg_def spec_info_new_def prefix_cache_info_new_def)
    (simp add: sample_new_def spec_info_new_def prefix_cache_info_new_def)

text \<open>Every turn keeps its position and its index, except possibly the one at \<open>q0\<close>: its node was a leaf
  with an output shorter than the threshold, and it now holds an assistant message of the prompt and
  no turn.\<close>

definition keeps_turns_except :: "path \<Rightarrow> int \<Rightarrow> message list \<Rightarrow> message_node \<Rightarrow> message_node \<Rightarrow> bool" where
  "keeps_turns_except q0 th msgs t t' \<longleftrightarrow> (\<forall>q i old. info_at t q = Some i \<longrightarrow> nd_turn i = Some old \<longrightarrow>
     (\<exists>i'. info_at t' q = Some i' \<and> (nd_turn i' = Some old \<and> nd_turn_index i' = nd_turn_index i \<or>
        q = q0 \<and> node_at t q = Some (MessageNode i []) \<and> int (length (tr_output_ids old)) < th \<and>
        nd_turn i' = None \<and> nd_turn_index i' = None \<and>
        (\<exists>msg\<in>set msgs. msg_get msg ''role'' = assistant \<and> nd_message i' = Some msg))))"

lemma merge_keeps_turns:
  assumes "t' = t \<or> demotes_short_leaf th msgs t t'"
  shows "\<exists>q0. keeps_turns_except q0 th msgs t t'"
  using assms
proof
  assume "demotes_short_leaf th msgs t t'"
  then obtain q msg turn n where d: "node_at t q = Some n" "nd_children n = []" "msg \<in> set msgs"
    "msg_get msg ''role'' = assistant" "nd_turn (nd_info n) = Some turn"
    "int (length (tr_output_ids turn)) < th" "t' = update_at q (demote msg) t"
    by (auto simp: demotes_short_leaf_def)
  then have "node_at t q = Some (MessageNode (nd_info n) [])" by (cases n) simp
  with d have "keeps_turns_except q th msgs t t'"
    by (auto simp: keeps_turns_except_def info_at_demote info_at_node demote_def)
  then show ?thesis ..
qed (auto simp: keeps_turns_except_def)

lemma keeps_turns_mono:
  "keeps_turns_except q0 th msgs t u \<Longrightarrow> (\<And>q i. info_at u q = Some i \<Longrightarrow> info_at v q = Some i) \<Longrightarrow>
   keeps_turns_except q0 th msgs t v"
  unfolding keeps_turns_except_def by meson

text \<open>C15: A recorded turn with a non-empty prompt ends below it: in the new tree the prompt's messages lead, message by
  message, to a node whose last child is the generated leaf with the next turn index. Every other
  session is untouched. The turns recorded before keep their position and index, all but possibly
  one: a node that was a leaf, with fewer output tokens than the fork threshold, which the rewrite
  merge turns into the routing node of an assistant message of the prompt.\<close>

theorem record_turn_mounts:
  assumes "record_turn sid turn msgs resp md m = Inr m'" "msgs \<noteq> []"
  shows "\<exists>t p n cs q0. tm_trees m' = (tm_trees m)(sid \<mapsto> t) \<and>
     tm_turn_count m' = (tm_turn_count m)(sid \<mapsto> turn_count m sid + 1) \<and>
     find_mount_point t msgs = (p, length msgs) \<and> node_at t p = Some n \<and>
     nd_children n = cs @ [assistant_leaf turn resp md (turn_count m sid + 1)] \<and>
     keeps_turns_except q0 (tm_fork_threshold m) msgs (session_tree m sid) t"
proof -
  obtain t1 t2 p n where r: "t1 = session_tree m sid \<or> demotes_short_leaf (tm_fork_threshold m) msgs (session_tree m sid) t1"
    "adds_routing t1 t2" "routes t2 p msgs" "node_at t2 p = Some n" "log_probs_ok turn"
    "m' = attach_assistant_leaf sid t2 p turn resp md m"
    using assms by (rule record_turn_cases)
  define leaf where "leaf = assistant_leaf turn resp md (turn_count m sid + 1)"
  define t where "t = fst (add_child t2 p leaf)"
  have t: "tm_trees m' = (tm_trees m)(sid \<mapsto> t)" "tm_turn_count m' = (tm_turn_count m)(sid \<mapsto> turn_count m sid + 1)"
    by (simp_all add: r(6) attach_assistant_leaf_def Let_def t_def leaf_def)
  have "routes t p msgs"
    using routes_update [OF r(3,4), of "\<lambda>n. MessageNode (nd_info n) (nd_children n @ [leaf])" "[]" "[]"]
    by (simp add: t_def add_child_def)
  then have "find_mount_point t msgs = (p, length msgs)" by (rule routes_find_mount_point)
  moreover have "node_at t p = Some (MessageNode (nd_info n) (nd_children n @ [leaf]))"
    using node_at_update_same [OF r(4), of _ "[]"] by (simp add: t_def add_child_def)
  moreover have keep: "info_at t2 q = Some i \<Longrightarrow> info_at t q = Some i" for q i
    using info_at_add_child [OF r(4), of leaf q] r(4)
    by (auto simp: t_def leaf_def assistant_leaf_def info_at_def node_at_append)
  obtain q0 where "keeps_turns_except q0 (tm_fork_threshold m) msgs (session_tree m sid) t1"
    using merge_keeps_turns [OF r(1)] by blast
  then have "keeps_turns_except q0 (tm_fork_threshold m) msgs (session_tree m sid) t"
    by (rule keeps_turns_mono) (use keep r(2) in \<open>auto simp: adds_routing_def\<close>)
  ultimately show ?thesis using t
    by (intro exI [of _ t] exI [of _ p] exI [of _ "MessageNode (nd_info n) (nd_children n @ [leaf])"]
        exI [of _ "nd_children n"] exI [of _ q0]) (simp add: leaf_def)
qed

theorem record_turn_mounts_witness:
  "\<exists>t p n cs q0. tm_trees demo_manager2 = (tm_trees demo_manager1)(''s'' \<mapsto> t) \<and>
     tm_turn_count demo_manager2 = (tm_turn_count demo_manager1)(''s'' \<mapsto> turn_count demo_manager1 ''s'' + 1) \<and>
     find_mount_point t [demo_msg ''user'', demo_msg ''assistant'', demo_msg ''tool''] =
       (p, length [demo_msg ''user'', demo_msg ''assistant'', demo_msg ''tool'']) \<and> node_at t p = Some n \<and>
     nd_children n = cs @ [assistant_leaf (demo_turn [1, 2, 3, 4] [5, 6]) (Some (demo_msg ''assistant'')) fmempty
       (turn_count demo_manager1 ''s'' + 1)] \<and>
     keeps_turns_except q0 (tm_fork_threshold demo_manager1)
       [demo_msg ''user'', demo_msg ''assistant'', demo_msg ''tool''] (session_tree demo_manager1 ''s'') t"
  by (rule record_turn_mounts [OF demo_record2]) simp

text \<open>C13: Samples are on-policy. Of a session of any reachable manager, every emitted sample has one mask
  and one log-probability entry per response token, every mask entry is 0 or 1, and a token with mask
  1 was sampled by a recorded turn whose prompt and output are exactly the sample's tokens up to it,
  with the log-probability that turn recorded. The session is consumed.\<close>

theorem trajectory_samples_on_policy:
  assumes "reachable threshold m" "get_trajectory sid base r extra limit m = (m', Inr ss)" "s \<in> set ss"
  shows "on_policy (generated_turns (session_tree m sid)) s \<and> sm_reward s = PyNum r \<and> \<not> has_session m' sid"
  using assms(2)
proof (cases rule: get_trajectory_cases)
  case (emitted t t' ss0)
  have ok: "tree_ok (turn_count m sid) t" using emitted(1) reachable_ok [OF assms(1)] by (simp add: manager_ok_def)
  then have lp: "turn \<in> generated_turns t \<Longrightarrow> log_probs_ok turn" for turn
    by (fastforce simp: generated_turns_def tree_ok_def node_ok_def)
  obtain s0 where "s0 \<in> set ss0" "s = s0\<lparr>sm_reward := PyNum r\<rparr>" using assms(3) emitted(3) by auto
  then have "on_policy (generated_turns t) s \<and> sm_reward s = PyNum r"
    using leaves_to_samples_ok [OF emitted(4) lp] by (auto simp: on_policy_def)
  then show ?thesis using emitted(1,2) by (simp add: session_tree_def has_session_def drop_session_def)
qed (use assms(3) in simp_all)

theorem trajectory_samples_on_policy_witness:
  "on_policy (generated_turns (session_tree demo_manager2 ''s'')) demo_sample \<and> sm_reward demo_sample = PyNum 1 \<and>
   \<not> has_session (drop_session ''s'' demo_manager2) ''s''"
  by (rule trajectory_samples_on_policy [OF demo_reachable demo_get]) simp

text \<open>C14: Responses are trained once. Over all samples of a session the trainable tokens number at most
  the output tokens of its generated responses, each counted once although sibling leaves share it,
  and exactly as many when realignment is off (threshold 0) and samples are not truncated. (A response
  already claimed by an earlier linearisation that raised does not count.)\<close>

theorem trajectory_trains_once:
  assumes "reachable threshold m" "get_trajectory sid base r extra limit m = (m', Inr ss)"
  defines "claimable \<equiv> \<Sum>q | node_at (session_tree m sid) q \<noteq> None. open_tokens (session_tree m sid) q"
  shows "samples_trained ss \<le> claimable \<and>
    (tm_fork_threshold m \<le> 0 \<and> limit = 0 \<longrightarrow> samples_trained ss = claimable)"
  using assms(2)
proof (cases rule: get_trajectory_cases)
  case absent
  have "open_tokens (message_node_new PyNone None fmempty) q = 0" for q
    by (cases q) (auto simp: open_tokens_def message_node_new_def generated_info_def)
  with absent show ?thesis by (simp add: claimable_def session_tree_def samples_trained_def)
next
  case (emitted t t' ss0)
  have t: "session_tree m sid = t" using emitted(1) by (simp add: session_tree_def)
  have ok: "tree_ok (turn_count m sid) t" using emitted(1) reachable_ok [OF assms(1)] by (simp add: manager_ok_def)
  then have lp: "turn \<in> generated_turns t \<Longrightarrow> log_probs_ok turn" for turn
    by (fastforce simp: generated_turns_def tree_ok_def node_ok_def)
  have "open_tokens t [] = 0" using ok by (simp add: open_tokens_def tree_ok_def generated_info_def)
  then have "claimable = (\<Sum>q\<in>(\<Union>l\<in>set (leaves t). set (path_from_root l)). open_tokens t q)"
    unfolding claimable_def t chains_cover_positions
    by (intro sum.mono_neutral_right finite_positions) auto
  moreover have "samples_trained ss = samples_trained ss0"
    using emitted(3) by (simp add: samples_trained_def o_def sample_trained_def [abs_def])
  ultimately show ?thesis using leaves_to_samples_ok [OF emitted(4) lp] by (auto simp: samples_trained_def)
qed simp

theorem trajectory_trains_once_witness:
  "samples_trained [demo_sample] =
     (\<Sum>q | node_at (session_tree demo_manager2 ''s'') q \<noteq> None. open_tokens (session_tree demo_manager2 ''s'') q)"
  using trajectory_trains_once [OF demo_reachable demo_get] by (simp add: demo_manager2_def)

end
