(* ===== verification/Score_Centering.thy ===== *)
theory Score_Centering
  imports Sample_Types Ppo_Utils
begin

text \<open>
  \<open>vime/utils/score_centering.py\<close>: the configuration checks of score centering, the head-only
  correction, the parsing of a response's sampler distributions and their validators, which read
  large captures in bounded chunks. The response is the parsed JSON document: decoding its bytes
  (json, msgspec) is not modelled. Rounding to float32 is not modelled.
\<close>

section \<open>Configuration\<close>

record sc_args =
  sc_use_score_centering :: bool
  sc_use_tis :: bool
  sc_custom_tis_function_path :: "string option"
  sc_tis_clip_low :: fp
  sc_tis_clip :: fp
  sc_rollout_temperature :: fp
  sc_rollout_top_p :: fp
  sc_rollout_top_k :: int
  sc_top_k :: int
  sc_train_backend :: string
  sc_custom_generate_function_path :: "string option"
  sc_loss_type :: string
  sc_use_opd :: bool
  sc_use_opsm :: bool
  sc_get_mismatch_metrics :: bool
  sc_use_unbiased_kl :: bool
  sc_custom_pg_loss_reducer_function_path :: "string option"
  sc_rollout_logprob_server_url :: "string option"
  sc_advantage_estimator :: "string option"
  sc_pg_loss_type :: "string option"

text \<open>Python's comparisons of floats.\<close>

fun fp_lt :: "fp \<Rightarrow> fp \<Rightarrow> bool" where
  "fp_lt (Fin x) (Fin y) = (x < y)"
| "fp_lt NInf (Fin y) = True"
| "fp_lt NInf PInf = True"
| "fp_lt (Fin x) PInf = True"
| "fp_lt _ _ = False"

definition fp_eq :: "fp \<Rightarrow> fp \<Rightarrow> bool" where
  "fp_eq a b \<longleftrightarrow> a = b \<and> a \<noteq> NaN"

definition fp_le :: "fp \<Rightarrow> fp \<Rightarrow> bool" where
  "fp_le a b \<longleftrightarrow> fp_lt a b \<or> fp_eq a b"

definition is_finite :: "fp \<Rightarrow> bool" where
  "is_finite x = (case x of Fin _ \<Rightarrow> True | _ \<Rightarrow> False)"

record is_config =
  is_mode :: string
  is_low :: "fp option"
  is_high :: "fp option"

definition get_score_centering_is_config :: "sc_args \<Rightarrow> is_config result" where
  "get_score_centering_is_config args =
     (if \<not> sc_use_tis args then Inr \<lparr>is_mode = ''none'', is_low = None, is_high = None\<rparr>
      else
        let path = sc_custom_tis_function_path args in
        res_bind
          (if path \<in> {None, Some ''vime.backends.megatron_utils.loss.vanilla_tis_function''} then Inr ''tis''
           else if path = Some ''vime.backends.megatron_utils.loss.icepop_function'' then Inr ''mis''
           else Inl (ValueError ''Score centering with --use-tis supports the built-in TIS and icepop_function only''))
          (\<lambda>mode. let low = sc_tis_clip_low args; high = sc_tis_clip args in
             if \<not> is_finite low \<or> \<not> is_finite high \<or> fp_lt low (Fin 0) \<or> fp_le high (Fin 0) \<or> fp_lt high low
             then Inl (ValueError ''Score centering IS bounds require finite 0 <= tis_clip_low <= tis_clip and tis_clip > 0.'')
             else Inr \<lparr>is_mode = mode, is_low = Some low, is_high = Some high\<rparr>))"

record sampling_params =
  sp_temperature :: "fp option"
  sp_top_p :: "fp option"
  sp_top_k :: "int option"
  sp_min_p :: "fp option"
  sp_repetition_penalty :: "fp option"
  sp_presence_penalty :: "fp option"
  sp_frequency_penalty :: "fp option"
  sp_constraints :: "string list"

text \<open>\<open>sp_constraints\<close> lists the keys whose values are true, among all keys of the request.\<close>

definition constrained_keys :: "string list" where
  "constrained_keys = [''json_schema'', ''regex'', ''ebnf'', ''structural_tag'', ''logit_bias'']"

definition get_fp :: "fp option \<Rightarrow> fp \<Rightarrow> fp" where
  "get_fp v dflt = (case v of None \<Rightarrow> dflt | Some x \<Rightarrow> x)"

text \<open>The request keeps the values that \<open>setdefault\<close> wrote, also when a later check raises.\<close>

definition score_centering_request :: "sc_args \<Rightarrow> sampling_params \<Rightarrow> sampling_params \<times> unit result" where
  "score_centering_request args sp =
     (if \<not> sc_use_score_centering args then (sp, Inr ())
      else
        let temperature = get_fp (sp_temperature sp) (sc_rollout_temperature args);
            sp1 = sp\<lparr>sp_temperature := Some temperature\<rparr> in
        if \<not> is_finite temperature \<or> fp_le temperature (Fin 0)
        then (sp1, Inl (ValueError ''Score centering requires stochastic sampling (temperature > 0).''))
        else if \<not> fp_eq temperature (sc_rollout_temperature args)
        then (sp1, Inl (ValueError ''Score centering requires the configured rollout temperature on every training request.''))
        else
          let top_p = get_fp (sp_top_p sp1) (sc_rollout_top_p args);
              sp2 = sp1\<lparr>sp_top_p := Some top_p\<rparr> in
          if \<not> (fp_lt (Fin 0) top_p \<and> fp_le top_p (Fin 1)) \<or> \<not> fp_eq top_p (sc_rollout_top_p args)
          then (sp2, Inl (ValueError ''Score centering requires the configured rollout top_p in (0, 1] on every request.''))
          else if (case sp_top_k sp2 of None \<Rightarrow> -1 | Some k \<Rightarrow> k) \<noteq> -1
          then (sp2, Inl (ValueError ''Score centering requires top_k=-1; only top-p truncation is supported.''))
          else if \<not> fp_eq (get_fp (sp_min_p sp2) (Fin 0)) (Fin 0)
          then (sp2, Inl (ValueError ''Score centering requires min_p=0.0; only top-p truncation is supported.''))
          else if \<not> fp_eq (get_fp (sp_repetition_penalty sp2) (Fin 1)) (Fin 1)
          then (sp2, Inl (ValueError ''Score centering requires repetition_penalty=1.0.''))
          else if \<not> fp_eq (get_fp (sp_presence_penalty sp2) (Fin 0)) (Fin 0)
          then (sp2, Inl (ValueError ''Score centering requires presence_penalty=0.0.''))
          else if \<not> fp_eq (get_fp (sp_frequency_penalty sp2) (Fin 0)) (Fin 0)
          then (sp2, Inl (ValueError ''Score centering requires frequency_penalty=0.0.''))
          else if \<exists>key \<in> set constrained_keys. key \<in> set (sp_constraints sp2)
          then (sp2, Inl (ValueError ''Score centering does not support constrained sampling.''))
          else (sp2, Inr ()))"

definition is_truthy_path :: "string option \<Rightarrow> bool" where
  "is_truthy_path p = (case p of None \<Rightarrow> False | Some s \<Rightarrow> s \<noteq> [])"

definition validate_score_centering_args :: "sc_args \<Rightarrow> unit result" where
  "validate_score_centering_args args =
     (if \<not> sc_use_score_centering args then Inr ()
      else
        res_bind (get_pg_loss_type (sc_pg_loss_type args) (sc_use_score_centering args) (sc_advantage_estimator args))
        (\<lambda>_. if sc_train_backend args \<noteq> ''megatron''
          then Inl (ValueError ''Score centering is supported by the Megatron backend only.'')
          else if sc_custom_generate_function_path args = Some ''vime.rollout.vllm_streaming_rollout.generate_streaming''
          then Inl (ValueError ''Score centering does not support streaming rollout.'')
          else if fp_eq (sc_rollout_top_p args) (Fin 1) \<and> sc_top_k args < 1
          then Inl (ValueError ''--score-centering-top-k must be positive.'')
          else res_bind (get_score_centering_is_config args)
            (\<lambda>_. if sc_loss_type args \<noteq> ''policy_loss''
              then Inl (ValueError ''--use-score-centering requires --loss-type policy_loss.'')
              else if sc_use_opd args \<or> sc_use_opsm args \<or> sc_get_mismatch_metrics args \<or> sc_use_unbiased_kl args
              then Inl (ValueError ''--use-score-centering cannot combine with the selected option.'')
              else if is_truthy_path (sc_custom_pg_loss_reducer_function_path args)
              then Inl (ValueError ''Score centering does not support a custom PG reducer.'')
              else if is_truthy_path (sc_rollout_logprob_server_url args)
              then Inl (ValueError ''Score centering requires original sampler probabilities.'')
              else if sc_advantage_estimator args \<in> {Some ''gspo'', Some ''cispo''}
              then Inl (ValueError ''Score centering uses a REINFORCE objective.'')
              else snd (score_centering_request args
                \<lparr>sp_temperature = Some (sc_rollout_temperature args), sp_top_p = Some (sc_rollout_top_p args),
                 sp_top_k = Some (sc_rollout_top_k args), sp_min_p = None, sp_repetition_penalty = None,
                 sp_presence_penalty = None, sp_frequency_penalty = None, sp_constraints = []\<rparr>))))"

section \<open>The correction\<close>

definition sc_rho :: "real \<Rightarrow> real list \<Rightarrow> real list \<Rightarrow> real" where
  "sc_rho eps p q = max (1 - sum_list q) eps / max (1 - sum_list p) eps"

text \<open>One token: the detached residual over the head.\<close>

definition sc_residual ::
  "string \<Rightarrow> real option \<Rightarrow> real option \<Rightarrow> real \<Rightarrow> real list \<Rightarrow> real list \<Rightarrow> real list result" where
  "sc_residual mode low high eps train_logp sampler_logp =
     (let p = map exp train_logp; q = map exp sampler_logp; rho = sc_rho eps p q in
      res_bind (importance_weights [1 / rho] mode low high) (\<lambda>tail_weight.
        let alpha = rho * hd tail_weight in
        res_bind (importance_weights (map exp (map2 (-) train_logp sampler_logp)) mode low high) (\<lambda>weights.
          Inr (map2 (-) (map2 (*) q weights) (map (\<lambda>x. alpha * x) p)))))"

definition score_centering_correction ::
  "string \<Rightarrow> real option \<Rightarrow> real option \<Rightarrow> real \<Rightarrow> real list list \<Rightarrow> real list list \<Rightarrow>
   (real list \<times> real list \<times> real list) result" where
  "score_centering_correction mode low high eps train_head_logp sampler_head_logp =
     res_bind (importance_weights [] mode low high) (\<lambda>_.
     res_bind (res_map (\<lambda>(t, s). res_bind (sc_residual mode low high eps t s) (\<lambda>residual. Inr (dot residual t)))
                 (zip train_head_logp sampler_head_logp))
       (\<lambda>corrections. Inr (corrections, map (\<lambda>s. sum_list (map exp s)) sampler_head_logp,
                            map (\<lambda>t. sum_list (map exp t)) train_head_logp)))"

section \<open>Sampler heads\<close>

definition int32_max :: int where
  "int32_max = 2 ^ 31 - 1"

text \<open>\<open>np.diff(np.sort(row)) == 0\<close> somewhere.\<close>

fun adjacent_equal :: "'a list \<Rightarrow> bool" where
  "adjacent_equal (x # y # ys) = (x = y \<or> adjacent_equal (y # ys))"
| "adjacent_equal _ = False"

definition valid_logp :: "fp \<Rightarrow> bool" where
  "valid_logp x \<longleftrightarrow> is_finite x \<and> \<not> fp_lt (Fin 0) x"

definition validate_head_arrays :: "int list list \<Rightarrow> fp list list \<Rightarrow> unit result" where
  "validate_head_arrays chunk_ids chunk_logps =
     (if (\<exists>x \<in> set (concat chunk_ids). x < 0) \<or> (\<exists>x \<in> set (concat chunk_ids). int32_max < x) \<or>
         (\<exists>row \<in> set chunk_ids. adjacent_equal (sort row))
      then Inl (ValueError ''Sampler top-k token ids must be distinct and nonnegative int32 integers.'')
      else if \<exists>x \<in> set (concat chunk_logps). \<not> valid_logp x
      then Inl (ValueError ''Sampler top-k logprobs must be finite nonpositive values.'')
      else Inr ())"

definition validate_heads :: "nat \<Rightarrow> int list list \<Rightarrow> fp list list \<Rightarrow> unit result" where
  "validate_heads cnt ids logps =
     res_fold (\<lambda>_ start. validate_head_arrays (slice start (start + 1024) ids) (slice start (start + 1024) logps))
       () (py_range 0 cnt 1024)"

definition has_shape :: "nat \<Rightarrow> nat \<Rightarrow> 'a matrix \<Rightarrow> bool" where
  "has_shape cnt k m \<longleftrightarrow> length (mat_rows m) = cnt \<and> mat_width m = k"

definition extract_sampler_topk :: "(int matrix \<times> fp matrix) option \<Rightarrow> nat \<Rightarrow> nat \<Rightarrow> (int matrix \<times> fp matrix) result" where
  "extract_sampler_topk captured cnt k =
     (case captured of
        None \<Rightarrow> Inl (ValueError ''Score centering requires sampler top-k metadata for every generated token.'')
      | Some (ids, logps) \<Rightarrow>
          if \<not> has_shape cnt k ids \<or> \<not> has_shape cnt k logps
          then Inl (ValueError ''Sampler top-k tensors must have the shape of the response.'')
          else res_bind (validate_heads cnt (mat_rows ids) (mat_rows logps)) (\<lambda>_. Inr (ids, logps)))"

text \<open>Disk references are checked by their header, and read only when not validated before.\<close>

definition check_topk_ref :: "straw \<Rightarrow> nat list \<Rightarrow> string \<Rightarrow> string \<Rightarrow> tensor_ref \<Rightarrow> unit result" where
  "check_topk_ref st shape dtype key ref =
     (if ref_shape ref \<noteq> shape \<or> ref_dtype ref \<noteq> dtype \<or> ref_nbytes ref \<noteq> prod_list shape * 4
      then Inl (ValueError ''Sampler top-k disk reference must have the shape and dtype of the response.'')
      else if ref_kind ref \<noteq> key then Inl (ValueError ''Unexpected sampler top-k disk reference kind'')
      else ref_validate st ref)"

definition validate_sampler_topk :: "straw \<Rightarrow> nat \<Rightarrow> sample \<Rightarrow> sample result" where
  "validate_sampler_topk st k s =
     (let cnt = nat (sm_response_length s) in
      case (sm_topk_token_ids s, sm_topk_log_probs s) of
        (None, None) \<Rightarrow>
          if sm_response_length s = 0
          then Inr (s\<lparr>sm_topk_token_ids := Some (Mem (Matrix k [])), sm_topk_log_probs := Some (Mem (Matrix k []))\<rparr>)
          else Inl (ValueError ''Score centering requires rollout_topk_token_ids and rollout_topk_log_probs on every sample.'')
      | (Some (Ref i), Some (Ref l)) \<Rightarrow>
          if sm_response_length s < 0
          then Inl (ValueError ''Sampler top-k disk reference must have the shape and dtype of the response.'')
          else res_bind (check_topk_ref st [cnt, k] ''int32'' ''rollout_topk_token_ids'' i) (\<lambda>_.
          res_bind (check_topk_ref st [cnt, k] ''float32'' ''rollout_topk_log_probs'' l) (\<lambda>_.
          if ref_validated i \<and> ref_validated l then Inr s
          else res_bind (validate_heads cnt (mat_rows (load_int_matrix st i)) (mat_rows (load_float_matrix st l))) (\<lambda>_. Inr s)))
      | (Some (Mem i), Some (Mem l)) \<Rightarrow>
          if \<not> has_shape cnt k i \<or> \<not> has_shape cnt k l \<or> sm_response_length s < 0
          then Inl (ValueError ''Sampler top-k tensors must have the shape of the response.'')
          else res_bind (validate_heads cnt (mat_rows i) (mat_rows l)) (\<lambda>_. Inr s)
      | (Some _, Some _) \<Rightarrow> Inl (ValueError ''Sampler top-k ids and logprobs must both be disk references.'')
      | _ \<Rightarrow> Inl (ValueError ''Score centering requires rollout_topk_token_ids and rollout_topk_log_probs on every sample.''))"

section \<open>Sampler nuclei\<close>

text \<open>The rows of a ragged capture.\<close>

definition ragged_row :: "int list \<Rightarrow> 'a list \<Rightarrow> nat \<Rightarrow> 'a list" where
  "ragged_row offsets xs r = slice (nat (offsets ! r)) (nat (offsets ! Suc r)) xs"

definition is_close :: "fp \<Rightarrow> fp \<Rightarrow> bool" where
  "is_close a b = (case (a, b) of
     (Fin x, Fin y) \<Rightarrow> \<bar>x - y\<bar> \<le> 1 / 100000 + 1 / 10000 * \<bar>y\<bar> | _ \<Rightarrow> a = b \<and> a \<noteq> NaN)"

text \<open>\<open>np.searchsorted(offsets, value, side="right")\<close> on a sorted array.\<close>

definition searchsorted_right :: "int list \<Rightarrow> int \<Rightarrow> nat" where
  "searchsorted_right xs v = length (takeWhile (\<lambda>x. x \<le> v) xs)"

definition chunk_stop :: "int list \<Rightarrow> nat \<Rightarrow> nat \<Rightarrow> nat" where
  "chunk_stop offsets cnt first =
     min cnt (min (first + 4096) (max (first + 1) (searchsorted_right offsets (offsets ! first + 2 ^ 20) - 1)))"

text \<open>One chunk of rows \<open>first .. stop - 1\<close>; \<open>sampled\<close> is the pair of tokens and log-probabilities to match.\<close>

definition check_top_p_chunk ::
  "int list \<Rightarrow> int list \<Rightarrow> fp list \<Rightarrow> bool list \<Rightarrow> (int list \<times> fp list) option \<Rightarrow> nat \<Rightarrow> nat \<Rightarrow> unit result" where
  "check_top_p_chunk offsets ids logps lmask sampled first stop =
     (let start = offsets ! first; last_end = offsets ! stop;
          lengths = map (\<lambda>i. nat (offsets ! Suc (first + i) - offsets ! (first + i))) [0..<stop - first];
          row_ids = concat (map (\<lambda>i. replicate (lengths ! i) i) [0..<stop - first]);
          chunk_ids = slice (nat start) (nat last_end) ids;
          chunk_logps = slice (nat start) (nat last_end) logps in
      if (\<exists>x \<in> set chunk_ids. x < 0) \<or> (\<exists>x \<in> set chunk_ids. int32_max < x)
      then Inl (ValueError ''Sampler top-p token ids must be distinct and nonnegative int32 integers.'')
      else if adjacent_equal (sort (map2 (\<lambda>r x. int r * 2 ^ 31 + x) row_ids chunk_ids))
      then Inl (ValueError ''Sampler top-p token ids must be distinct and nonnegative int32 integers.'')
      else if \<exists>x \<in> set chunk_logps. \<not> valid_logp x
      then Inl (ValueError ''Sampler top-p logprobs must be finite nonpositive values.'')
      else if \<exists>i \<in> set [0..<stop - first]. lmask ! (first + i) \<and> lengths ! i = 0
      then Inl (ValueError ''Missing top-p support for a trainable token.'')
      else
        let active = filter (\<lambda>i. 0 < lengths ! i \<or> lmask ! (first + i)) [0..<stop - first] in
        case sampled of
          None \<Rightarrow> Inr ()
        | Some (tokens, sampled_logps) \<Rightarrow>
            let selected = filter (\<lambda>(r, x, lp). x = tokens ! (first + r)) (zip row_ids (zip chunk_ids chunk_logps)) in
            if map fst selected \<noteq> active \<or>
               (\<exists>(r, x, lp) \<in> set selected. \<not> is_close lp (sampled_logps ! (first + r)))
            then Inl (ValueError ''Top-p sampler distribution must include the sampled token with its rollout logprob.'')
            else Inr ())"

function check_top_p_loop ::
  "int list \<Rightarrow> int list \<Rightarrow> fp list \<Rightarrow> bool list \<Rightarrow> (int list \<times> fp list) option \<Rightarrow> nat \<Rightarrow> nat \<Rightarrow> unit result" where
  "check_top_p_loop offsets ids logps lmask sampled cnt first =
     (if first < cnt then
        let stop = chunk_stop offsets cnt first
        in res_bind (check_top_p_chunk offsets ids logps lmask sampled first stop)
             (\<lambda>_. check_top_p_loop offsets ids logps lmask sampled cnt stop)
      else Inr ())"
  by pat_completeness auto
termination by (relation "measure (\<lambda>(o', i, l, m, s, c, f). c - f)") (auto simp: chunk_stop_def)

declare check_top_p_loop.simps [simp del]

definition stored_shape :: "'a list stored \<Rightarrow> nat list" where
  "stored_shape v = (case v of Mem xs \<Rightarrow> [length xs] | Ref r \<Rightarrow> ref_shape r)"

definition is_integer_dtype :: "string \<Rightarrow> bool" where
  "is_integer_dtype d \<longleftrightarrow> d \<in> {''int8'', ''int16'', ''int32'', ''int64'', ''uint8'', ''uint16'', ''uint32'', ''uint64''}"

definition integer_stored :: "'a stored \<Rightarrow> bool" where
  "integer_stored v = (case v of Mem _ \<Rightarrow> True | Ref r \<Rightarrow> is_integer_dtype (ref_dtype r))"

definition is_validated_ref :: "'a stored \<Rightarrow> bool" where
  "is_validated_ref v = (case v of Mem _ \<Rightarrow> False | Ref r \<Rightarrow> ref_validated r)"

text \<open>Lists given as \<open>tokens\<close> come with \<open>sampled_logps\<close>; both are lists of one dimension.\<close>

definition validate_sampler_top_p ::
  "straw \<Rightarrow> int list stored option \<Rightarrow> int list stored option \<Rightarrow> fp list stored option \<Rightarrow> nat \<Rightarrow>
   int list option \<Rightarrow> (int list \<times> fp list) option \<Rightarrow> unit result" where
  "validate_sampler_top_p st ids offsets logps cnt loss_mask sampled =
     (case (ids, offsets, logps) of
        (Some ids, Some offsets, Some logps) \<Rightarrow>
          let aligned_mask = (case loss_mask of None \<Rightarrow> True | Some m \<Rightarrow> length m = cnt);
              aligned_sampled = (case sampled of None \<Rightarrow> True
                | Some (tokens, lps) \<Rightarrow> length tokens = cnt \<and> length lps = cnt) in
          if is_validated_ref ids \<and> is_validated_ref offsets \<and> is_validated_ref logps then
            if length (stored_shape ids) \<noteq> 1 \<or> stored_shape logps \<noteq> stored_shape ids \<or>
               stored_shape offsets \<noteq> [cnt + 1] \<or> \<not> integer_stored ids \<or> \<not> integer_stored offsets
            then Inl (ValueError ''Invalid top-p score-centering ids/logprobs/offsets.'')
            else if \<not> aligned_mask then Inl (ValueError ''Top-p loss mask must align with the response length.'')
            else if \<not> aligned_sampled
            then Inl (ValueError ''Top-p sampled tokens and logprobs must align with the response length.'')
            else Inr ()
          else
            let offs = load_stored (load_ints st) offsets in
            if length (stored_shape ids) \<noteq> 1 \<or> stored_shape logps \<noteq> stored_shape ids \<or> length offs \<noteq> cnt + 1 \<or>
               \<not> integer_stored ids \<or> \<not> integer_stored offsets \<or> offs ! 0 \<noteq> 0 \<or>
               last offs \<noteq> int (hd (stored_shape ids)) \<or> (\<exists>i \<in> set [0..<cnt]. offs ! Suc i < offs ! i)
            then Inl (ValueError ''Invalid top-p score-centering ids/logprobs/offsets.'')
            else if \<not> aligned_mask then Inl (ValueError ''Top-p loss mask must align with the response length.'')
            else if \<not> aligned_sampled
            then Inl (ValueError ''Top-p sampled tokens and logprobs must align with the response length.'')
            else check_top_p_loop offs (load_stored (load_ints st) ids) (load_stored (load_floats st) logps)
                   (case loss_mask of None \<Rightarrow> replicate cnt True | Some m \<Rightarrow> map (\<lambda>x. x \<noteq> 0) m) sampled cnt 0
      | _ \<Rightarrow> Inl (ValueError ''Top-p score centering requires complete sampler top-p ids, offsets, and logprobs.''))"

definition extract_sampler_top_p ::
  "straw \<Rightarrow> (int list \<times> int list \<times> fp list) option \<Rightarrow> nat \<Rightarrow> (int list \<times> int list \<times> fp list) result" where
  "extract_sampler_top_p st captured cnt =
     (case captured of
        None \<Rightarrow> Inl (ValueError ''Top-p score centering requires complete sampler top-p ids, offsets, and logprobs.'')
      | Some (ids, offsets, logps) \<Rightarrow>
          res_bind (validate_sampler_top_p st (Some (Mem ids)) (Some (Mem offsets)) (Some (Mem logps)) cnt None None)
            (\<lambda>_. Inr (ids, offsets, logps)))"

section \<open>Chunked validation checks every row\<close>

lemma adjacent_equal_sorted: "sorted xs \<Longrightarrow> adjacent_equal xs \<longleftrightarrow> \<not> distinct xs"
proof (induction xs rule: adjacent_equal.induct)
  case (1 x y ys)
  have "x = y" if "x \<in> set ys" using that 1(2) by (auto intro: antisym)
  with 1 show ?case by auto
qed simp_all

lemma adjacent_equal_sort [simp]: "adjacent_equal (sort xs) \<longleftrightarrow> \<not> distinct xs"
  by (simp add: adjacent_equal_sorted)

definition sorted_offsets :: "int list \<Rightarrow> nat \<Rightarrow> bool" where
  "sorted_offsets offs cnt \<longleftrightarrow> length offs = cnt + 1 \<and> offs ! 0 = 0 \<and> (\<forall>i < cnt. offs ! i \<le> offs ! Suc i)"

lemma sorted_offsets_mono: "sorted_offsets offs cnt \<Longrightarrow> i \<le> j \<Longrightarrow> j \<le> cnt \<Longrightarrow> offs ! i \<le> offs ! j"
proof (induction j)
  case (Suc j)
  then show ?case by (cases "i = Suc j") (auto simp: sorted_offsets_def intro: order_trans)
qed simp

lemma sorted_offsets_nonneg: "sorted_offsets offs cnt \<Longrightarrow> i \<le> cnt \<Longrightarrow> 0 \<le> offs ! i"
  using sorted_offsets_mono [of offs cnt 0 i] by (simp add: sorted_offsets_def)

lemma slice_slice_append: "a \<le> b \<Longrightarrow> b \<le> c \<Longrightarrow> slice a c xs = slice a b xs @ slice b c xs"
proof -
  assume "a \<le> b" "b \<le> c"
  then have "c - a = (b - a) + (c - b)" "drop (b - a) (drop a xs) = drop b xs" by simp_all
  then show ?thesis by (simp add: slice_def take_add)
qed

lemma ragged_concat:
  assumes "sorted_offsets offs cnt" "first \<le> stop" "stop \<le> cnt"
  shows "slice (nat (offs ! first)) (nat (offs ! stop)) xs = concat (map (ragged_row offs xs) [first..<stop])"
  using assms(2,3)
proof (induction stop)
  case (Suc stop)
  show ?case
  proof (cases "first = Suc stop")
    case False
    then have f: "first \<le> stop" using Suc.prems by simp
    have "slice (nat (offs ! first)) (nat (offs ! Suc stop)) xs =
        slice (nat (offs ! first)) (nat (offs ! stop)) xs @ slice (nat (offs ! stop)) (nat (offs ! Suc stop)) xs"
      using sorted_offsets_mono [OF assms(1), of first stop] sorted_offsets_mono [OF assms(1), of stop "Suc stop"] f Suc.prems
      by (intro slice_slice_append) auto
    then show ?thesis using Suc f by (simp add: ragged_row_def)
  qed simp
qed simp

lemma length_ragged_row:
  assumes "sorted_offsets offs cnt" "r < cnt" "nat (offs ! cnt) \<le> length xs"
  shows "length (ragged_row offs xs r) = nat (offs ! Suc r - offs ! r)"
proof -
  have "offs ! Suc r \<le> offs ! cnt" "offs ! r \<le> offs ! Suc r" "0 \<le> offs ! r"
    using sorted_offsets_mono [OF assms(1), of "Suc r" cnt] sorted_offsets_mono [OF assms(1), of r "Suc r"]
      sorted_offsets_nonneg [OF assms(1), of r] assms(2) by auto
  then have "nat (offs ! Suc r) - nat (offs ! r) = nat (offs ! Suc r - offs ! r)" "nat (offs ! Suc r) \<le> length xs"
    using assms(3) by auto
  then show ?thesis by (simp add: ragged_row_def)
qed

lemma zip_replicate_concat:
  "zip (concat (map (\<lambda>i. replicate (length (f i)) i) js)) (concat (map f js)) = concat (map (\<lambda>i. map (Pair i) (f i)) js)"
proof (induction js)
  case (Cons j js)
  have "zip (replicate (length (f j)) j) (f j) = map (Pair j) (f j)"
    by (simp add: zip_replicate1)
  then show ?case using Cons by simp
qed simp

lemma zip_concat: "(\<forall>j \<in> set js. length (f j) = length (g j)) \<Longrightarrow>
  zip (concat (map f js)) (concat (map g js)) = concat (map (\<lambda>j. zip (f j) (g j)) js)"
  by (induction js) auto

lemma distinct_rows:
  "distinct js \<Longrightarrow> distinct (concat (map (\<lambda>i. map (Pair i) (f i)) js)) \<longleftrightarrow> (\<forall>i \<in> set js. distinct (f i))"
  by (induction js) (auto simp: distinct_map inj_on_def)

lemma keys_inj:
  "inj_on (\<lambda>(r, x). int r * 2 ^ 31 + x) {(r, x). 0 \<le> x \<and> x \<le> int32_max}"
proof (rule inj_onI)
  fix a b :: "nat \<times> int"
  assume "a \<in> {(r, x). 0 \<le> x \<and> x \<le> int32_max}" "b \<in> {(r, x). 0 \<le> x \<and> x \<le> int32_max}"
    and eq: "(\<lambda>(r, x). int r * 2 ^ 31 + x) a = (\<lambda>(r, x). int r * 2 ^ 31 + x) b"
  then obtain r x r' x' where ab: "a = (r, x)" "b = (r', x')" "0 \<le> x" "x < 2 ^ 31" "0 \<le> x'" "x' < 2 ^ 31"
    by (cases a; cases b) (auto simp: int32_max_def)
  then have "int r * 2 ^ 31 + x = int r' * 2 ^ 31 + x'" using eq by simp
  then have "x = x'" using ab by (metis mod_mult_self3 mod_pos_pos_trivial)
  then show "a = b" using ab eq by simp
qed

lemma filter_replicate_eq:
  assumes "distinct js"
  shows "concat (map (\<lambda>i. replicate (c i) i) js) = filter P js \<longleftrightarrow> (\<forall>i \<in> set js. c i = of_bool (P i))"
proof (rule iffI)
  assume "concat (map (\<lambda>i. replicate (c i) i) js) = filter P js"
  then have "mset (concat (map (\<lambda>i. replicate (c i) i) js)) = mset (filter P js)" by simp
  moreover have "count (mset (concat (map (\<lambda>i. replicate (c i) i) ks))) j = (if j \<in> set ks then c j else 0)"
    if "distinct ks" for ks j
    using that by (induction ks) (auto simp: count_eq_zero_iff)
  moreover have "count (mset (filter P js)) i = of_bool (P i)" if "i \<in> set js" for i
    using that assms by (simp add: distinct_count_atmost_1)
  ultimately show "\<forall>i \<in> set js. c i = of_bool (P i)" using assms by metis
next
  assume "\<forall>i \<in> set js. c i = of_bool (P i)"
  then show "concat (map (\<lambda>i. replicate (c i) i) js) = filter P js" by (induction js) auto
qed
text \<open>What one row has to satisfy.\<close>

definition top_p_row_ok ::
  "int list \<Rightarrow> int list \<Rightarrow> fp list \<Rightarrow> bool list \<Rightarrow> (int list \<times> fp list) option \<Rightarrow> nat \<Rightarrow> bool" where
  "top_p_row_ok offs ids logps lmask sampled r \<longleftrightarrow>
     (let row = ragged_row offs ids r; lrow = ragged_row offs logps r in
      (\<forall>x \<in> set row. 0 \<le> x \<and> x \<le> int32_max) \<and> distinct row \<and> (\<forall>lp \<in> set lrow. valid_logp lp) \<and>
      (lmask ! r \<longrightarrow> row \<noteq> []) \<and>
      (case sampled of None \<Rightarrow> True
       | Some (tokens, lps) \<Rightarrow> row \<noteq> [] \<longrightarrow> (\<exists>j < length row. row ! j = tokens ! r \<and> is_close (lrow ! j) (lps ! r))))"

text \<open>The sampled token occurs once in a distinct row; the filter finds it with its log-probability.\<close>

lemma filter_distinct_row:
  assumes "distinct row" "length lrow = length row"
  shows "length (filter (\<lambda>(x, lp). x = tok) (zip row lrow)) = of_bool (tok \<in> set row)"
  using assms(2,1) by (induction lrow row rule: list_induct2) (auto simp: filter_empty_conv dest: set_zip_leftD)

lemma selected_rows:
  "map fst (filter (\<lambda>(r, x, lp). x = tok r) (concat (map (\<lambda>i. map (Pair i) (f i)) js))) =
   concat (map (\<lambda>i. replicate (length (filter (\<lambda>(x, lp). x = tok i) (f i))) i) js)"
proof (induction js)
  case (Cons j js)
  have "map fst (filter (\<lambda>(r, x, lp). x = tok r) (map (Pair j) xs)) =
      replicate (length (filter (\<lambda>(x, lp). x = tok j) xs)) j" for xs
    by (induction xs) auto
  with Cons show ?case by simp
qed simp

lemma rows_member: "(r, y) \<in> set (concat (map (\<lambda>i. map (Pair i) (f i)) [0..<n])) \<longleftrightarrow> r < n \<and> y \<in> set (f r)"
  by auto

lemma matched_rows_iff:
  fixes row :: "nat \<Rightarrow> int list" and lrow :: "nat \<Rightarrow> fp list" and tok :: "nat \<Rightarrow> int"
  assumes "\<forall>i < n. distinct (row i) \<and> length (lrow i) = length (row i) \<and> (active i \<longleftrightarrow> row i \<noteq> [])"
  defines "sel \<equiv> filter (\<lambda>(r, x, lp). x = tok r) (concat (map (\<lambda>i. map (Pair i) (zip (row i) (lrow i))) [0..<n]))"
  shows "map fst sel = filter active [0..<n] \<and> (\<forall>(r, x, lp) \<in> set sel. is_close lp (slp r)) \<longleftrightarrow>
    (\<forall>i < n. row i \<noteq> [] \<longrightarrow> (\<exists>j < length (row i). row i ! j = tok i \<and> is_close (lrow i ! j) (slp i)))"
    (is "?L \<longleftrightarrow> ?R")
proof -
  have "map fst sel = filter active [0..<n] \<longleftrightarrow> (\<forall>i \<in> set [0..<n]. of_bool (tok i \<in> set (row i)) = (of_bool (active i) :: nat))"
    unfolding sel_def selected_rows
    by (subst filter_replicate_eq) (use assms(1) in \<open>auto simp: filter_distinct_row\<close>)
  then have fst_iff: "map fst sel = filter active [0..<n] \<longleftrightarrow> (\<forall>i < n. row i \<noteq> [] \<longrightarrow> tok i \<in> set (row i))"
    using assms(1) by auto
  have set_sel: "(r, x, lp) \<in> set sel \<longleftrightarrow> r < n \<and> (\<exists>j < length (row r). x = row r ! j \<and> lp = lrow r ! j \<and> x = tok r)" for r x lp
  proof -
    have "(r, x, lp) \<in> set sel \<longleftrightarrow> r < n \<and> (x, lp) \<in> set (zip (row r) (lrow r)) \<and> x = tok r"
      unfolding sel_def set_filter mem_Collect_eq rows_member by auto
    also have "\<dots> \<longleftrightarrow> r < n \<and> (\<exists>j < length (row r). x = row r ! j \<and> lp = lrow r ! j \<and> x = tok r)"
      using assms(1) by (auto simp: in_set_zip)
    finally show ?thesis .
  qed
  have uniq: "i < n \<Longrightarrow> j < length (row i) \<Longrightarrow> k < length (row i) \<Longrightarrow> row i ! j = row i ! k \<Longrightarrow> j = k" for i j k
    using assms(1) by (metis nth_eq_iff_index_eq)
  show ?thesis
  proof
    assume L: ?L
    then show ?R
      unfolding fst_iff by (auto simp: in_set_conv_nth set_sel) (metis (no_types, lifting) L case_prodD set_sel)
  next
    assume R: ?R
    then have "\<forall>i < n. row i \<noteq> [] \<longrightarrow> tok i \<in> set (row i)" by (metis nth_mem)
    moreover have "is_close lp (slp r)" if mem: "(r, x, lp) \<in> set sel" for r x lp
    proof -
      obtain j where j: "r < n" "j < length (row r)" "x = row r ! j" "lp = lrow r ! j" "x = tok r"
        using mem by (auto simp: set_sel)
      then obtain k where "k < length (row r)" "row r ! k = tok r" "is_close (lrow r ! k) (slp r)" using R by fastforce
      then show ?thesis using uniq [of r j k] j by simp
    qed
    ultimately show ?L using fst_iff by auto
  qed
qed

text \<open>The checks of a chunk over its rows.\<close>

definition check_rows ::
  "(nat \<Rightarrow> int list) \<Rightarrow> (nat \<Rightarrow> fp list) \<Rightarrow> (nat \<Rightarrow> bool) \<Rightarrow> ((nat \<Rightarrow> int) \<times> (nat \<Rightarrow> fp)) option \<Rightarrow> nat \<Rightarrow> bool" where
  "check_rows row lrow lm sampled n \<longleftrightarrow>
     (\<forall>x \<in> set (concat (map row [0..<n])). 0 \<le> x \<and> x \<le> int32_max) \<and>
     distinct (map (\<lambda>(r, x). int r * 2 ^ 31 + x) (concat (map (\<lambda>i. map (Pair i) (row i)) [0..<n]))) \<and>
     (\<forall>lp \<in> set (concat (map lrow [0..<n])). valid_logp lp) \<and> (\<forall>i < n. lm i \<longrightarrow> row i \<noteq> []) \<and>
     (case sampled of None \<Rightarrow> True
      | Some (tok, slp) \<Rightarrow>
          let sel = filter (\<lambda>(r, x, lp). x = tok r) (concat (map (\<lambda>i. map (Pair i) (zip (row i) (lrow i))) [0..<n]))
          in map fst sel = filter (\<lambda>i. row i \<noteq> [] \<or> lm i) [0..<n] \<and> (\<forall>(r, x, lp) \<in> set sel. is_close lp (slp r)))"

lemma distinct_keys:
  fixes row :: "nat \<Rightarrow> int list"
  assumes "\<forall>x \<in> set (concat (map row [0..<n])). 0 \<le> x \<and> x \<le> int32_max"
  shows "distinct (map (\<lambda>(r, x). int r * 2 ^ 31 + x) (concat (map (\<lambda>i. map (Pair i) (row i)) [0..<n]))) \<longleftrightarrow>
    (\<forall>i < n. distinct (row i))"
proof -
  have "inj_on (\<lambda>(r, x). int r * 2 ^ 31 + x) (set (concat (map (\<lambda>i. map (Pair i) (row i)) [0..<n])))"
    by (rule inj_on_subset [OF keys_inj]) (use assms in auto)
  then show ?thesis by (auto simp: distinct_map distinct_rows)
qed

lemma check_rows_iff:
  assumes len: "\<And>i. i < n \<Longrightarrow> length (lrow i) = length (row i)"
  shows "check_rows row lrow lm sampled n \<longleftrightarrow>
    (\<forall>i < n. (\<forall>x \<in> set (row i). 0 \<le> x \<and> x \<le> int32_max) \<and> distinct (row i) \<and> (\<forall>lp \<in> set (lrow i). valid_logp lp) \<and>
      (lm i \<longrightarrow> row i \<noteq> []) \<and> (case sampled of None \<Rightarrow> True | Some (tok, slp) \<Rightarrow>
         row i \<noteq> [] \<longrightarrow> (\<exists>j < length (row i). row i ! j = tok i \<and> is_close (lrow i ! j) (slp i))))"
proof -
  let ?basic = "(\<forall>i < n. (\<forall>x \<in> set (row i). 0 \<le> x \<and> x \<le> int32_max) \<and> distinct (row i) \<and> (\<forall>lp \<in> set (lrow i). valid_logp lp) \<and>
      (lm i \<longrightarrow> row i \<noteq> []))"
  let ?sel = "\<lambda>tok. filter (\<lambda>(r, x, lp). x = tok r) (concat (map (\<lambda>i. map (Pair i) (zip (row i) (lrow i))) [0..<n]))"
  have "check_rows row lrow lm sampled n \<longleftrightarrow> ?basic \<and> (case sampled of None \<Rightarrow> True
      | Some (tok, slp) \<Rightarrow> map fst (?sel tok) = filter (\<lambda>i. row i \<noteq> [] \<or> lm i) [0..<n] \<and>
          (\<forall>(r, x, lp) \<in> set (?sel tok). is_close lp (slp r)))"
  proof -
    have bounds: "(\<forall>x \<in> set (concat (map row [0..<n])). 0 \<le> x \<and> x \<le> int32_max) \<longleftrightarrow>
        (\<forall>i < n. \<forall>x \<in> set (row i). 0 \<le> x \<and> x \<le> int32_max)"
      and lps: "(\<forall>lp \<in> set (concat (map lrow [0..<n])). valid_logp lp) \<longleftrightarrow> (\<forall>i < n. \<forall>lp \<in> set (lrow i). valid_logp lp)"
      by fastforce+
    show ?thesis
      unfolding check_rows_def Let_def using distinct_keys [of row n] unfolding bounds lps by blast
  qed
  also have "\<dots> \<longleftrightarrow> ?basic \<and> (case sampled of None \<Rightarrow> True | Some (tok, slp) \<Rightarrow>
      \<forall>i < n. row i \<noteq> [] \<longrightarrow> (\<exists>j < length (row i). row i ! j = tok i \<and> is_close (lrow i ! j) (slp i)))"
  proof (cases sampled)
    case (Some ts)
    obtain tok slp where ts: "ts = (tok, slp)" by fastforce
    have "?basic \<Longrightarrow> (map fst (?sel tok) = filter (\<lambda>i. row i \<noteq> [] \<or> lm i) [0..<n] \<and>
        (\<forall>(r, x, lp) \<in> set (?sel tok). is_close lp (slp r))) \<longleftrightarrow>
        (\<forall>i < n. row i \<noteq> [] \<longrightarrow> (\<exists>j < length (row i). row i ! j = tok i \<and> is_close (lrow i ! j) (slp i)))"
      by (rule matched_rows_iff) (auto simp: len)
    then show ?thesis unfolding Some ts option.case prod.case by blast
  qed simp
  finally show ?thesis by (auto split: option.splits)
qed

lemma check_chunk_rows:
  assumes offs: "sorted_offsets offs cnt" "first \<le> stop" "stop \<le> cnt"
    and len: "nat (offs ! cnt) \<le> length ids" "nat (offs ! cnt) \<le> length logps"
  shows "check_top_p_chunk offs ids logps lmask sampled first stop = Inr () \<longleftrightarrow>
    check_rows (\<lambda>i. ragged_row offs ids (first + i)) (\<lambda>i. ragged_row offs logps (first + i)) (\<lambda>i. lmask ! (first + i))
      (map_option (\<lambda>(toks, lps). (\<lambda>i. toks ! (first + i), \<lambda>i. lps ! (first + i))) sampled) (stop - first)"
proof -
  define n where "n = stop - first"
  define row where "row i = ragged_row offs ids (first + i)" for i
  define lrow where "lrow i = ragged_row offs logps (first + i)" for i
  define lengths where "lengths = map (\<lambda>i. nat (offs ! Suc (first + i) - offs ! (first + i))) [0..<n]"
  have upt: "[first..<stop] = map (\<lambda>i. first + i) [0..<n]"
    using offs(2) by (simp add: n_def map_add_upt add.commute)
  have lrows: "lengths ! i = length (row i)" "length (lrow i) = length (row i)" if "i < n" for i
    using that offs(3) length_ragged_row [OF offs(1) _ len(1), of "first + i"] length_ragged_row [OF offs(1) _ len(2), of "first + i"]
    by (auto simp: lengths_def row_def lrow_def n_def)
  have ids: "slice (nat (offs ! first)) (nat (offs ! stop)) ids = concat (map row [0..<n])"
    and logps: "slice (nat (offs ! first)) (nat (offs ! stop)) logps = concat (map lrow [0..<n])"
    unfolding ragged_concat [OF offs] upt by (simp_all add: row_def [abs_def] lrow_def [abs_def] o_def)
  have reps: "concat (map (\<lambda>i. replicate (lengths ! i) i) [0..<n]) = concat (map (\<lambda>i. replicate (length (row i)) i) [0..<n])"
    and reps2: "concat (map (\<lambda>i. replicate (length (row i)) i) [0..<n]) = concat (map (\<lambda>i. replicate (length (zip (row i) (lrow i))) i) [0..<n])"
    by (intro arg_cong [of _ _ concat] map_cong; simp add: lrows)+
  have zip1: "zip (concat (map (\<lambda>i. replicate (length (row i)) i) [0..<n])) (concat (map row [0..<n])) =
      concat (map (\<lambda>i. map (Pair i) (row i)) [0..<n])" by (rule zip_replicate_concat)
  have "zip (concat (map row [0..<n])) (concat (map lrow [0..<n])) = concat (map (\<lambda>i. zip (row i) (lrow i)) [0..<n])"
    using lrows by (intro zip_concat) simp
  then have zip2: "zip (concat (map (\<lambda>i. replicate (length (row i)) i) [0..<n])) (zip (concat (map row [0..<n])) (concat (map lrow [0..<n]))) =
      concat (map (\<lambda>i. map (Pair i) (zip (row i) (lrow i))) [0..<n])"
    unfolding reps2 by (simp only: zip_replicate_concat)
  have act: "filter (\<lambda>i. 0 < lengths ! i \<or> lmask ! (first + i)) [0..<n] = filter (\<lambda>i. row i \<noteq> [] \<or> lmask ! (first + i)) [0..<n]"
    by (intro filter_cong) (auto simp: lrows)
  have empty: "(\<exists>i \<in> set [0..<n]. lmask ! (first + i) \<and> lengths ! i = 0) \<longleftrightarrow> \<not> (\<forall>i < n. lmask ! (first + i) \<longrightarrow> row i \<noteq> [])"
    using lrows by auto
  show ?thesis
    unfolding check_top_p_chunk_def Let_def n_def [symmetric] lengths_def [symmetric] ids logps reps zip1 zip2 act empty
      row_def [symmetric] lrow_def [symmetric] adjacent_equal_sort check_rows_def
    by (cases sampled) (auto simp: not_le not_less simp del: set_concat split: if_splits)
qed

lemma check_top_p_chunk_iff:
  assumes "sorted_offsets offs cnt" "first \<le> stop" "stop \<le> cnt"
    and "nat (offs ! cnt) \<le> length ids" "nat (offs ! cnt) \<le> length logps"
  shows "check_top_p_chunk offs ids logps lmask sampled first stop = Inr () \<longleftrightarrow>
    (\<forall>r \<in> {first..<stop}. top_p_row_ok offs ids logps lmask sampled r)"
proof -
  have len: "length (ragged_row offs logps (first + i)) = length (ragged_row offs ids (first + i))" if "i < stop - first" for i
    using that assms(2,3) length_ragged_row [OF assms(1) _ assms(4), of "first + i"]
      length_ragged_row [OF assms(1) _ assms(5), of "first + i"] by simp
  have "check_top_p_chunk offs ids logps lmask sampled first stop = Inr () \<longleftrightarrow>
      (\<forall>i < stop - first. top_p_row_ok offs ids logps lmask sampled (first + i))"
    unfolding check_chunk_rows [OF assms] top_p_row_ok_def Let_def
    by (subst check_rows_iff, erule len) (cases sampled, auto)
  also have "\<dots> \<longleftrightarrow> (\<forall>r \<in> {first..<stop}. top_p_row_ok offs ids logps lmask sampled r)"
    using assms(2) by (metis add_diff_inverse_nat atLeastLessThan_iff diff_less_mono le_add1 less_diff_conv2 nat_add_left_cancel_less not_less add.commute)
  finally show ?thesis .
qed

lemma check_top_p_loop_iff:
  assumes offs: "sorted_offsets offs cnt" and len: "nat (offs ! cnt) \<le> length ids" "nat (offs ! cnt) \<le> length logps"
  shows "check_top_p_loop offs ids logps lmask sampled cnt first = Inr () \<longleftrightarrow>
    (\<forall>r \<in> {first..<cnt}. top_p_row_ok offs ids logps lmask sampled r)"
proof (induction "cnt - first" arbitrary: first rule: less_induct)
  case less
  show ?case
  proof (cases "first < cnt")
    case True
    define stop where "stop = chunk_stop offs cnt first"
    have stop: "first < stop" "stop \<le> cnt" using True by (auto simp: stop_def chunk_stop_def)
    have "check_top_p_loop offs ids logps lmask sampled cnt first = Inr () \<longleftrightarrow>
        check_top_p_chunk offs ids logps lmask sampled first stop = Inr () \<and>
        check_top_p_loop offs ids logps lmask sampled cnt stop = Inr ()"
      using True by (subst check_top_p_loop.simps) (auto simp: stop_def Let_def res_bind_eq_Inr)
    also have "\<dots> \<longleftrightarrow> (\<forall>r \<in> {first..<stop} \<union> {stop..<cnt}. top_p_row_ok offs ids logps lmask sampled r)"
      using check_top_p_chunk_iff [OF offs _ stop(2) len] less [of stop] stop by auto
    also have "{first..<stop} \<union> {stop..<cnt} = {first..<cnt}" using stop by auto
    finally show ?thesis .
  qed (simp add: check_top_p_loop.simps)
qed

lemma validate_top_p_iff:
  "validate_sampler_top_p st (Some (Mem ids)) (Some (Mem offs)) (Some (Mem logps)) cnt loss_mask sampled = Inr () \<longleftrightarrow>
     length logps = length ids \<and> sorted_offsets offs cnt \<and> offs ! cnt = int (length ids) \<and>
     (case loss_mask of None \<Rightarrow> True | Some m \<Rightarrow> length m = cnt) \<and>
     (case sampled of None \<Rightarrow> True | Some (tokens, lps) \<Rightarrow> length tokens = cnt \<and> length lps = cnt) \<and>
     (\<forall>r < cnt. top_p_row_ok offs ids logps
        (case loss_mask of None \<Rightarrow> replicate cnt True | Some m \<Rightarrow> map (\<lambda>x. x \<noteq> 0) m) sampled r)"
proof -
  let ?lmask = "case loss_mask of None \<Rightarrow> replicate cnt True | Some m \<Rightarrow> map (\<lambda>x. x \<noteq> 0) m"
  have "length offs = cnt + 1 \<Longrightarrow> last offs = offs ! cnt" by (subst last_conv_nth) auto
  then have hdr: "length offs = cnt + 1 \<and> offs ! 0 = 0 \<and> last offs = int (length ids) \<and>
      \<not> (\<exists>i \<in> set [0..<cnt]. offs ! Suc i < offs ! i) \<longleftrightarrow> sorted_offsets offs cnt \<and> offs ! cnt = int (length ids)"
    by (cases "length offs = cnt + 1") (auto simp: sorted_offsets_def not_less)
  have "check_top_p_loop offs ids logps ?lmask sampled cnt 0 = Inr () \<longleftrightarrow> (\<forall>r < cnt. top_p_row_ok offs ids logps ?lmask sampled r)"
    if "sorted_offsets offs cnt" "offs ! cnt = int (length ids)" "length logps = length ids"
    using check_top_p_loop_iff [OF that(1), of ids logps] that(2,3) by auto
  then show ?thesis
    unfolding validate_sampler_top_p_def using hdr
    by (auto simp: Let_def is_validated_ref_def stored_shape_def integer_stored_def split: if_splits)
qed

text \<open>C17: The chunked validator of a top-p capture accepts exactly the captures whose arrays agree in
  shape, whose offsets start at 0, never decrease and end at the number of ids, and whose every row
  has distinct int32 ids and finite non-positive log-probabilities, is non-empty where the mask is
  set, and contains the sampled token with its log-probability.\<close>

theorem validate_sampler_top_p_iff:
  "validate_sampler_top_p st (Some (Mem ids)) (Some (Mem offs)) (Some (Mem logps)) cnt loss_mask sampled = Inr () \<longleftrightarrow>
     length logps = length ids \<and> sorted_offsets offs cnt \<and> offs ! cnt = int (length ids) \<and>
     (case loss_mask of None \<Rightarrow> True | Some m \<Rightarrow> length m = cnt) \<and>
     (case sampled of None \<Rightarrow> True | Some (tokens, lps) \<Rightarrow> length tokens = cnt \<and> length lps = cnt) \<and>
     (\<forall>r < cnt. top_p_row_ok offs ids logps
        (case loss_mask of None \<Rightarrow> replicate cnt True | Some m \<Rightarrow> map (\<lambda>x. x \<noteq> 0) m) sampled r)"
  by (rule validate_top_p_iff)

definition demo_straw :: straw where
  "demo_straw = \<lparr>load_ints = (\<lambda>_. []), load_floats = (\<lambda>_. []), load_int_matrix = (\<lambda>_. Matrix 0 []),
     load_float_matrix = (\<lambda>_. Matrix 0 []), load_experts = (\<lambda>_. \<lparr>et_dims = (0, 0), et_rows = []\<rparr>),
     ref_validate = (\<lambda>_. Inr ())\<rparr>"

theorem validate_sampler_top_p_iff_witness:
  "validate_sampler_top_p demo_straw (Some (Mem [4, 7, 9])) (Some (Mem [0, 2, 3])) (Some (Mem [Fin (-1), Fin (-2), Fin 0])) 2
     (Some [1, 1]) (Some ([7, 9], [Fin (-2), Fin 0])) = Inr ()"
proof -
  have "top_p_row_ok [0, 2, 3] [4, 7, 9] [Fin (-1), Fin (-2), Fin 0] [True, True] (Some ([7, 9], [Fin (-2), Fin 0])) 0"
    by (auto simp: top_p_row_ok_def ragged_row_def slice_def int32_max_def valid_logp_def is_finite_def is_close_def
        numeral_2_eq_2 Let_def intro!: exI [of _ "Suc 0"])
  moreover have "top_p_row_ok [0, 2, 3] [4, 7, 9] [Fin (-1), Fin (-2), Fin 0] [True, True] (Some ([7, 9], [Fin (-2), Fin 0])) 1"
    by (auto simp: top_p_row_ok_def ragged_row_def slice_def int32_max_def valid_logp_def is_finite_def is_close_def
        numeral_2_eq_2 numeral_3_eq_3 Let_def)
  ultimately show ?thesis
    unfolding validate_sampler_top_p_iff
    by (auto simp: sorted_offsets_def less_Suc_eq numeral_2_eq_2 numeral_3_eq_3)
qed

section \<open>Head validation\<close>

lemma slices_cover:
  assumes "0 < c" "length xs \<le> n"
  shows "concat (map (\<lambda>s. slice s (s + c) xs) (py_range 0 n c)) = xs"
proof -
  have step: "concat (map (\<lambda>j. slice (j * c) (j * c + c) xs) [0..<m]) = take (m * c) xs" for m
  proof (induction m)
    case (Suc m)
    then show ?case by (simp add: slice_def take_add [symmetric] add.commute)
  qed simp
  have "n \<le> (n + c - 1) div c * c"
  proof -
    have "n + c - 1 = (n + c - 1) div c * c + (n + c - 1) mod c" by simp
    moreover have "(n + c - 1) mod c < c" using assms(1) by simp
    ultimately show ?thesis by linarith
  qed
  then show ?thesis using step [of "(n + c - 1) div c"] assms(2) by (simp add: py_range_def o_def)
qed

definition head_row_ok :: "int list \<Rightarrow> bool" where
  "head_row_ok row \<longleftrightarrow> (\<forall>x \<in> set row. 0 \<le> x \<and> x \<le> int32_max) \<and> distinct row"

lemma validate_head_arrays_iff:
  "validate_head_arrays ids logps = Inr () \<longleftrightarrow> (\<forall>row \<in> set ids. head_row_ok row) \<and> (\<forall>row \<in> set logps. \<forall>x \<in> set row. valid_logp x)"
proof -
  have "(\<exists>x \<in> set (concat ids). x < 0) \<or> (\<exists>x \<in> set (concat ids). int32_max < x) \<or> (\<exists>row \<in> set ids. adjacent_equal (sort row))
      \<longleftrightarrow> \<not> (\<forall>row \<in> set ids. head_row_ok row)"
    by (auto simp: head_row_ok_def) (meson not_le)+
  then show ?thesis by (auto simp: validate_head_arrays_def)
qed

lemma res_fold_unit: "res_fold (\<lambda>_ x. f x) () xs = Inr () \<longleftrightarrow> (\<forall>x \<in> set xs. f x = Inr ())"
  by (induction xs) (auto simp: res_bind_eq_Inr)

lemma validate_heads_iff:
  assumes "length ids \<le> cnt" "length logps \<le> cnt"
  shows "validate_heads cnt ids logps = Inr () \<longleftrightarrow>
    (\<forall>row \<in> set ids. head_row_ok row) \<and> (\<forall>row \<in> set logps. \<forall>x \<in> set row. valid_logp x)"
proof -
  have cover: "set xs = (\<Union>s \<in> set (py_range 0 cnt 1024). set (slice s (s + 1024) xs))" if "length xs \<le> cnt" for xs :: "'b list"
    using arg_cong [OF slices_cover [of 1024 xs cnt], of set] that by simp
  show ?thesis
    unfolding validate_heads_def res_fold_unit validate_head_arrays_iff
    using cover [OF assms(1)] cover [OF assms(2)] by auto
qed

text \<open>In-memory top-k heads are accepted exactly when both matrices have one row of \<open>k\<close> entries per
  response token and every row holds distinct int32 ids and finite non-positive log-probabilities;
  an accepted sample is returned unchanged.\<close>

theorem validate_sampler_topk_iff:
  assumes "sm_topk_token_ids s = Some (Mem ids)" "sm_topk_log_probs s = Some (Mem logps)"
  shows "validate_sampler_topk st k s = Inr s' \<longleftrightarrow>
    s' = s \<and> 0 \<le> sm_response_length s \<and> has_shape (nat (sm_response_length s)) k ids \<and>
    has_shape (nat (sm_response_length s)) k logps \<and>
    (\<forall>row \<in> set (mat_rows ids). head_row_ok row) \<and> (\<forall>row \<in> set (mat_rows logps). \<forall>x \<in> set row. valid_logp x)"
  using assms validate_heads_iff [of "mat_rows ids" "nat (sm_response_length s)" "mat_rows logps"]
  by (auto simp: validate_sampler_topk_def Let_def res_bind_eq_Inr has_shape_def)

theorem validate_sampler_topk_iff_witness:
  "validate_sampler_topk demo_straw 2
     (sample_new\<lparr>sm_response_length := 1, sm_topk_token_ids := Some (Mem (Matrix 2 [[3, 5]])),
        sm_topk_log_probs := Some (Mem (Matrix 2 [[Fin (-1), Fin (-2)]]))\<rparr>) =
   Inr (sample_new\<lparr>sm_response_length := 1, sm_topk_token_ids := Some (Mem (Matrix 2 [[3, 5]])),
        sm_topk_log_probs := Some (Mem (Matrix 2 [[Fin (-1), Fin (-2)]]))\<rparr>)"
  by (subst validate_sampler_topk_iff [where ids = "Matrix 2 [[3, 5]]" and logps = "Matrix 2 [[Fin (-1), Fin (-2)]]"])
     (simp_all add: has_shape_def head_row_ok_def int32_max_def valid_logp_def is_finite_def)

section \<open>The correction is the expected score\<close>

lemma dot_diff: "length a = length b \<Longrightarrow> dot (map2 (-) a b) g = dot a g - dot b g"
  unfolding dot_def
proof (induction a b arbitrary: g rule: list_induct2)
  case (Cons x xs y ys)
  then show ?case by (cases g) (simp_all add: algebra_simps)
qed simp

lemma dot_scale: "dot (map (\<lambda>x. c * x) p) g = c * dot p g"
  unfolding dot_def
proof (induction p arbitrary: g)
  case (Cons x xs)
  then show ?case by (cases g) (simp_all add: algebra_simps)
qed simp

lemma importance_weights_length: "importance_weights r mode low high = Inr w \<Longrightarrow> length w = length r"
  by (auto simp: importance_weights_def Let_def split: if_splits)

text \<open>C18: The detached residual is the gradient of the expected importance-weighted score. Give every
  token outside the head the sampler probability \<open>rho\<close> times its trained probability, as the tail model
  does. For all scores with mean zero under the trained distribution, weighting the head scores by
  the residual gives the expectation, under the sampler, of the weighted scores of the whole
  vocabulary; and unless a tail mass was floored the modelled sampler distribution sums to 1.\<close>

theorem score_centering_expected_score:
  assumes "sc_residual mode low high eps t s = Inr residual" "length s = length t"
    and "importance_weights (map exp (map2 (-) t s)) mode low high = Inr weights"
  defines "p \<equiv> map exp t" and "q \<equiv> map exp s"
  assumes "importance_weights [1 / sc_rho eps p q] mode low high = Inr [tail_weight]"
    and "dot p scores + dot p_tail tail_scores = 0"
  shows "dot residual scores =
      dot (map2 (*) q weights) scores + dot (map (\<lambda>x. sc_rho eps p q * tail_weight * x) p_tail) tail_scores \<and>
    (0 < eps \<and> eps \<le> 1 - sum_list q \<and> eps \<le> 1 - sum_list p \<and> sum_list p_tail = 1 - sum_list p \<longrightarrow>
     sum_list q + sum_list (map (\<lambda>x. sc_rho eps p q * x) p_tail) = 1)"
proof
  have w: "length weights = length t" using importance_weights_length [OF assms(3)] assms(2) by simp
  have length_pq: "length p = length t" "length q = length t" using assms(2) by (simp_all add: p_def q_def)
  have "residual = map2 (-) (map2 (*) q weights) (map (\<lambda>x. sc_rho eps p q * tail_weight * x) p)"
    using assms(1,3,6) by (simp add: sc_residual_def Let_def p_def q_def)
  then have "dot residual scores = dot (map2 (*) q weights) scores - sc_rho eps p q * tail_weight * dot p scores"
    using w assms(2) dot_diff [of "map2 (*) q weights" "map (\<lambda>x. sc_rho eps p q * tail_weight * x) p" scores]
    by (simp add: dot_scale length_pq)
  also have "\<dots> = dot (map2 (*) q weights) scores + sc_rho eps p q * tail_weight * dot p_tail tail_scores"
    using assms(7) by (simp add: eq_neg_iff_add_eq_0 [symmetric] minus_equation_iff)
  finally show "dot residual scores =
      dot (map2 (*) q weights) scores + dot (map (\<lambda>x. sc_rho eps p q * tail_weight * x) p_tail) tail_scores"
    by (simp only: dot_scale)
  show "0 < eps \<and> eps \<le> 1 - sum_list q \<and> eps \<le> 1 - sum_list p \<and> sum_list p_tail = 1 - sum_list p \<longrightarrow>
     sum_list q + sum_list (map (\<lambda>x. sc_rho eps p q * x) p_tail) = 1"
  proof
    assume *: "0 < eps \<and> eps \<le> 1 - sum_list q \<and> eps \<le> 1 - sum_list p \<and> sum_list p_tail = 1 - sum_list p"
    then have "sc_rho eps p q * sum_list p_tail = 1 - sum_list q" by (auto simp: sc_rho_def max_def)
    then show "sum_list q + sum_list (map (\<lambda>x. sc_rho eps p q * x) p_tail) = 1" by (simp add: sum_list_const_mult)
  qed
qed

text \<open>On-policy there is nothing to correct: when the trained head equals the sampler's, the correction of
  every token is 0, without importance weighting and with both clipping rules as long as the ratio
  1 is within their bounds.\<close>

theorem score_centering_zero_on_policy:
  assumes "mode = ''none'' \<or> mode \<in> {''tis'', ''mis''} \<and> low \<le> 1 \<and> 1 \<le> high" "0 < eps"
  shows "score_centering_correction mode (Some low) (Some high) eps heads heads =
    Inr (replicate (length heads) 0, map (\<lambda>t. sum_list (map exp t)) heads, map (\<lambda>t. sum_list (map exp t)) heads)"
proof -
  have w: "importance_weights (map (\<lambda>_. 1) xs) mode (Some low) (Some high) = Inr (map (\<lambda>_. 1) xs)" for xs :: "real list"
    using assms(1) by (auto simp: importance_weights_def clamp_def)
  have one: "sc_rho eps p p = 1" for p using assms(2) by (simp add: sc_rho_def max_def)
  have ones: "map exp (map2 (-) t t) = map (\<lambda>_. 1 :: real) t" for t :: "real list"
    by (induction t) auto
  have zero: "sc_residual mode (Some low) (Some high) eps t t = Inr (map (\<lambda>_. 0) t)" for t
  proof -
    have "map2 (-) (map2 (*) (map exp t) (map (\<lambda>_. 1) t)) (map ((*) 1) (map exp t)) = map (\<lambda>_. 0 :: real) t"
      by (induction t) auto
    then show ?thesis using w [of "[1]"] w [of t] by (simp add: sc_residual_def Let_def one ones del: map_map mult_1)
  qed
  have dot: "dot (map (\<lambda>_. 0) t) u = 0" for t :: "real list" and u by (simp add: dot_def sum_list_0 zip_map1 o_def split_def)
  have "res_map (\<lambda>(t, s). res_bind (sc_residual mode (Some low) (Some high) eps t s) (\<lambda>residual. Inr (dot residual t)))
      (zip heads heads) = Inr (replicate (length heads) 0)"
    by (induction heads) (simp_all add: zero dot)
  then show ?thesis using w [of "[]"] by (simp add: score_centering_correction_def)
qed

theorem score_centering_expected_score_witness:
  "dot [-1 / 2] [1] =
     dot (map2 (*) (map exp [ln (1 / 4)]) [1]) [1] +
     dot (map (\<lambda>x. sc_rho (1 / 10) (map exp [ln (1 / 2)]) (map exp [ln (1 / 4)]) * 1 * x) [1 / 2]) [-1]"
proof -
  have rho: "sc_rho (1 / 10) [1 / 2] [1 / 4] = 3 / 2" by (simp add: sc_rho_def)
  have exps: "map exp [ln (1 / 2)] = [1 / 2 :: real]" "map exp [ln (1 / 4)] = [1 / 4 :: real]" by simp_all
  have "sc_residual ''none'' None None (1 / 10) [ln (1 / 2)] [ln (1 / 4)] = Inr [-1 / 2]"
    unfolding sc_residual_def Let_def exps rho by (simp add: importance_weights_def)
  from score_centering_expected_score [OF this, of "[1]" 1 "[1]" "[1 / 2]" "[-1]"] show ?thesis
    unfolding exps by (simp add: importance_weights_def dot_def)
qed

theorem score_centering_zero_on_policy_witness:
  "score_centering_correction ''tis'' (Some 0) (Some 2) (1 / 1000000) [[ln (1 / 2), ln (1 / 4)]] [[ln (1 / 2), ln (1 / 4)]] =
     Inr ([0], [sum_list (map exp [ln (1 / 2), ln (1 / 4)])], [sum_list (map exp [ln (1 / 2), ln (1 / 4)])])"
  using score_centering_zero_on_policy [of "''tis''" 0 2 "1 / 1000000" "[[ln (1 / 2), ln (1 / 4)]]"] by simp

section \<open>Requests\<close>

lemma fp_eq_Fin [simp]: "fp_eq x (Fin a) \<longleftrightarrow> x = Fin a"
  by (auto simp: fp_eq_def)

lemma positive_temperature: "is_finite x \<and> \<not> fp_le x (Fin 0) \<longleftrightarrow> (\<exists>t > 0. x = Fin t)"
  by (cases x) (auto simp: is_finite_def fp_le_def not_less le_less)

lemma proper_top_p: "fp_lt (Fin 0) x \<and> fp_le x (Fin 1) \<longleftrightarrow> (\<exists>p. 0 < p \<and> p \<le> 1 \<and> x = Fin p)"
  by (cases x) (auto simp: fp_le_def)

lemma get_fp_default [simp]: "get_fp v (Fin a) = Fin a \<longleftrightarrow> v = None \<or> v = Some (Fin a)"
  by (auto simp: get_fp_def split: option.split)

lemma request_accepts_iff:
  assumes "sc_use_score_centering args"
  shows "score_centering_request args sp = (sp', Inr ()) \<longleftrightarrow>
    (\<exists>t p. sc_rollout_temperature args = Fin t \<and> 0 < t \<and> sc_rollout_top_p args = Fin p \<and> 0 < p \<and> p \<le> 1 \<and>
      sp_temperature sp \<in> {None, Some (Fin t)} \<and> sp_top_p sp \<in> {None, Some (Fin p)} \<and>
      sp_top_k sp \<in> {None, Some (-1)} \<and> sp_min_p sp \<in> {None, Some (Fin 0)} \<and>
      sp_repetition_penalty sp \<in> {None, Some (Fin 1)} \<and> sp_presence_penalty sp \<in> {None, Some (Fin 0)} \<and>
      sp_frequency_penalty sp \<in> {None, Some (Fin 0)} \<and> set constrained_keys \<inter> set (sp_constraints sp) = {} \<and>
      sp' = sp\<lparr>sp_temperature := Some (Fin t), sp_top_p := Some (Fin p)\<rparr>)"
    (is "?L \<longleftrightarrow> ?R")
proof
  assume L: ?L
  define temp where "temp = get_fp (sp_temperature sp) (sc_rollout_temperature args)"
  define top_p where "top_p = get_fp (sp_top_p sp) (sc_rollout_top_p args)"
  note c = L [unfolded score_centering_request_def Let_def, folded temp_def]
  have t: "is_finite temp \<and> \<not> fp_le temp (Fin 0)" "fp_eq temp (sc_rollout_temperature args)"
    using c assms by (auto split: if_splits)
  then obtain t where t': "0 < t" "temp = Fin t" "sc_rollout_temperature args = Fin t"
    unfolding positive_temperature by (auto simp: fp_eq_def)
  have p: "fp_lt (Fin 0) top_p \<and> fp_le top_p (Fin 1)" "fp_eq top_p (sc_rollout_top_p args)"
    using c assms t t' by (auto simp: top_p_def split: if_splits)
  then obtain p where p': "0 < p" "p \<le> 1" "top_p = Fin p" "sc_rollout_top_p args = Fin p"
    unfolding proper_top_p by (auto simp: fp_eq_def)
  have "sp_temperature sp \<in> {None, Some (Fin t)}" "sp_top_p sp \<in> {None, Some (Fin p)}"
    using t' p' by (auto simp: temp_def top_p_def)
  then show ?R using c assms t t' p p' by (auto simp: get_fp_def split: if_splits option.splits)
next
  assume ?R
  then obtain t p where r: "sc_rollout_temperature args = Fin t" "0 < t" "sc_rollout_top_p args = Fin p" "0 < p" "p \<le> 1"
    "sp_temperature sp \<in> {None, Some (Fin t)}" "sp_top_p sp \<in> {None, Some (Fin p)}"
    "sp_top_k sp \<in> {None, Some (-1)}" "sp_min_p sp \<in> {None, Some (Fin 0)}"
    "sp_repetition_penalty sp \<in> {None, Some (Fin 1)}" "sp_presence_penalty sp \<in> {None, Some (Fin 0)}"
    "sp_frequency_penalty sp \<in> {None, Some (Fin 0)}" "set constrained_keys \<inter> set (sp_constraints sp) = {}"
    "sp' = sp\<lparr>sp_temperature := Some (Fin t), sp_top_p := Some (Fin p)\<rparr>" by blast
  have "get_fp (sp_temperature sp) (Fin t) = Fin t" "get_fp (sp_top_p sp) (Fin p) = Fin p"
    "get_fp (sp_min_p sp) (Fin 0) = Fin 0" "get_fp (sp_repetition_penalty sp) (Fin 1) = Fin 1"
    "get_fp (sp_presence_penalty sp) (Fin 0) = Fin 0" "get_fp (sp_frequency_penalty sp) (Fin 0) = Fin 0"
    using r(6,7,9-12) by simp_all
  moreover have "(case sp_top_k sp of None \<Rightarrow> -1 | Some k \<Rightarrow> k) = -1"
    "\<not> (\<exists>key \<in> set constrained_keys. key \<in> set (sp_constraints sp))" using r(8,13) by auto
  moreover have "is_finite (Fin t)" "\<not> fp_le (Fin t) (Fin 0)" "fp_lt (Fin 0) (Fin p)" "fp_le (Fin p) (Fin 1)"
    using r(2,4,5) by (auto simp: is_finite_def fp_le_def)
  ultimately show ?L
    unfolding score_centering_request_def Let_def using assms r(1,3,14) by (simp del: get_fp_default)
qed

text \<open>A training request passes exactly when every setting it carries is the configured one or the
  neutral value, and then it is sent with the temperature and top-p the trainer assumes.\<close>

theorem score_centering_request_iff:
  assumes "sc_use_score_centering args"
  shows "score_centering_request args sp = (sp', Inr ()) \<longleftrightarrow>
    (\<exists>t p. sc_rollout_temperature args = Fin t \<and> 0 < t \<and> sc_rollout_top_p args = Fin p \<and> 0 < p \<and> p \<le> 1 \<and>
      sp_temperature sp \<in> {None, Some (Fin t)} \<and> sp_top_p sp \<in> {None, Some (Fin p)} \<and>
      sp_top_k sp \<in> {None, Some (-1)} \<and> sp_min_p sp \<in> {None, Some (Fin 0)} \<and>
      sp_repetition_penalty sp \<in> {None, Some (Fin 1)} \<and> sp_presence_penalty sp \<in> {None, Some (Fin 0)} \<and>
      sp_frequency_penalty sp \<in> {None, Some (Fin 0)} \<and> set constrained_keys \<inter> set (sp_constraints sp) = {} \<and>
      sp' = sp\<lparr>sp_temperature := Some (Fin t), sp_top_p := Some (Fin p)\<rparr>)"
  using assms by (rule request_accepts_iff)

definition demo_sc_args :: sc_args where
  "demo_sc_args = \<lparr>sc_use_score_centering = True, sc_use_tis = True, sc_custom_tis_function_path = None,
     sc_tis_clip_low = Fin 0, sc_tis_clip = Fin 2, sc_rollout_temperature = Fin 1, sc_rollout_top_p = Fin 1,
     sc_rollout_top_k = -1, sc_top_k = 8, sc_train_backend = ''megatron'', sc_custom_generate_function_path = None,
     sc_loss_type = ''policy_loss'', sc_use_opd = False, sc_use_opsm = False, sc_get_mismatch_metrics = False,
     sc_use_unbiased_kl = False, sc_custom_pg_loss_reducer_function_path = None, sc_rollout_logprob_server_url = None,
     sc_advantage_estimator = Some ''grpo'', sc_pg_loss_type = None\<rparr>"

definition empty_params :: sampling_params where
  "empty_params = \<lparr>sp_temperature = None, sp_top_p = None, sp_top_k = None, sp_min_p = None,
     sp_repetition_penalty = None, sp_presence_penalty = None, sp_frequency_penalty = None, sp_constraints = []\<rparr>"

theorem score_centering_request_iff_witness:
  "score_centering_request demo_sc_args empty_params =
     (empty_params\<lparr>sp_temperature := Some (Fin 1), sp_top_p := Some (Fin 1)\<rparr>, Inr ())"
  by (subst score_centering_request_iff) (simp_all add: demo_sc_args_def empty_params_def)


text \<open>A configuration that passes validation is usable: a request that sets nothing is accepted, the objective is
  REINFORCE, and the importance weights are off or clipped to finite bounds with \<open>0 \<le> low \<le> high\<close> and \<open>0 < high\<close>.\<close>

theorem validated_score_centering_args:
  assumes "sc_use_score_centering args" "validate_score_centering_args args = Inr ()"
  shows "(\<exists>sp'. score_centering_request args empty_params = (sp', Inr ())) \<and>
    get_pg_loss_type (sc_pg_loss_type args) True (sc_advantage_estimator args) = Inr ''reinforce'' \<and>
    (\<exists>c. get_score_centering_is_config args = Inr c \<and> (is_mode c = ''none'' \<and> \<not> sc_use_tis args \<or>
       is_mode c \<in> {''tis'', ''mis''} \<and>
       (\<exists>l h. is_low c = Some (Fin l) \<and> is_high c = Some (Fin h) \<and> 0 \<le> l \<and> l \<le> h \<and> 0 < h)))"
proof (intro conjI)
  obtain c obj where c: "get_score_centering_is_config args = Inr c"
      "get_pg_loss_type (sc_pg_loss_type args) (sc_use_score_centering args) (sc_advantage_estimator args) = Inr obj"
    and request: "snd (score_centering_request args
      \<lparr>sp_temperature = Some (sc_rollout_temperature args), sp_top_p = Some (sc_rollout_top_p args),
       sp_top_k = Some (sc_rollout_top_k args), sp_min_p = None, sp_repetition_penalty = None,
       sp_presence_penalty = None, sp_frequency_penalty = None, sp_constraints = []\<rparr>) = Inr ()"
    using assms unfolding validate_score_centering_args_def by (auto simp: res_bind_eq_Inr split: if_splits)
  obtain sp' where "score_centering_request args
      \<lparr>sp_temperature = Some (sc_rollout_temperature args), sp_top_p = Some (sc_rollout_top_p args),
       sp_top_k = Some (sc_rollout_top_k args), sp_min_p = None, sp_repetition_penalty = None,
       sp_presence_penalty = None, sp_frequency_penalty = None, sp_constraints = []\<rparr> = (sp', Inr ())"
    using request by (metis prod.collapse)
  then show "\<exists>sp'. score_centering_request args empty_params = (sp', Inr ())"
    unfolding request_accepts_iff [OF assms(1)] by (auto simp: empty_params_def)
  show "get_pg_loss_type (sc_pg_loss_type args) True (sc_advantage_estimator args) = Inr ''reinforce''"
    using c(2) assms(1) by (auto simp: get_pg_loss_type_def Let_def split: if_splits)
  have "is_mode c = ''none'' \<and> \<not> sc_use_tis args \<or> is_mode c \<in> {''tis'', ''mis''} \<and>
      (\<exists>l h. is_low c = Some (Fin l) \<and> is_high c = Some (Fin h) \<and> 0 \<le> l \<and> l \<le> h \<and> 0 < h)"
    using c(1) unfolding get_score_centering_is_config_def
    by (cases "sc_tis_clip_low args"; cases "sc_tis_clip args")
       (auto simp: Let_def res_bind_eq_Inr is_finite_def fp_le_def split: if_splits)
  then show "\<exists>c. get_score_centering_is_config args = Inr c \<and> (is_mode c = ''none'' \<and> \<not> sc_use_tis args \<or>
       is_mode c \<in> {''tis'', ''mis''} \<and>
       (\<exists>l h. is_low c = Some (Fin l) \<and> is_high c = Some (Fin h) \<and> 0 \<le> l \<and> l \<le> h \<and> 0 < h))"
    using c(1) by blast
qed

lemma demo_sc_valid: "validate_score_centering_args demo_sc_args = Inr ()"
  by (simp add: validate_score_centering_args_def demo_sc_args_def get_pg_loss_type_def get_score_centering_is_config_def
      is_finite_def fp_le_def is_truthy_path_def score_centering_request_def constrained_keys_def get_fp_def fp_eq_def Let_def)

theorem validated_score_centering_args_witness:
  "(\<exists>sp'. score_centering_request demo_sc_args empty_params = (sp', Inr ())) \<and>
   get_pg_loss_type None True (Some ''grpo'') = Inr ''reinforce''"
  using validated_score_centering_args [OF _ demo_sc_valid] by (simp add: demo_sc_args_def)

section \<open>Sampler distributions of a response\<close>

record sc_row =
  rw_logprob :: fp
  rw_top_logprobs :: "(int \<times> fp) list"

record sc_choice =
  ch_token_ids :: "int list"
  ch_content :: "sc_row list"
  ch_sampling_mask :: "int list list option"
  ch_sampling_mask_logprobs :: "fp list list option"

datatype sc_metadata = TopK "int matrix" "fp matrix" | TopP "int list" "int list" "fp list"

text \<open>\<open>{key: value for ...}\<close>: a later entry replaces the value at the key's first position.\<close>

fun dict_set :: "'k \<Rightarrow> 'v \<Rightarrow> ('k \<times> 'v) list \<Rightarrow> ('k \<times> 'v) list" where
  "dict_set k v [] = [(k, v)]"
| "dict_set k v ((k', v') # d) = (if k' = k then (k', v) # d else (k', v') # dict_set k v d)"

definition dict_of :: "('k \<times> 'v) list \<Rightarrow> ('k \<times> 'v) list" where
  "dict_of kvs = foldl (\<lambda>d (k, v). dict_set k v d) [] kvs"

text \<open>Assignment into an int32 array.\<close>

definition to_int32s :: "int list \<Rightarrow> int list result" where
  "to_int32s xs = (if \<exists>x \<in> set xs. wrap32 x \<noteq> x then Inl OverflowError else Inr xs)"

definition sampler_head :: "nat \<Rightarrow> (int \<times> fp) list \<Rightarrow> (int \<times> fp) list result" where
  "sampler_head top_k entries =
     (let head = take top_k (py_sorted_rev (\<lambda>a b. fp_lt (snd a) (snd b)) (dict_of entries)) in
      if length head \<noteq> top_k then Inl (ValueError ''Score centering requires top_k sampler top logprobs per token.'')
      else res_bind (to_int32s (map fst head)) (\<lambda>_. Inr head))"

text \<open>\<open>support_ids.index(token)\<close>\<close>

fun index_of :: "'a \<Rightarrow> 'a list \<Rightarrow> nat option" where
  "index_of x [] = None"
| "index_of x (y # ys) = (if x = y then Some 0 else map_option Suc (index_of x ys))"

definition sampled_logprob :: "int \<times> int list \<times> fp list \<Rightarrow> fp result" where
  "sampled_logprob = (\<lambda>(sampled_token, support_ids, logprobs).
     if length support_ids \<noteq> length logprobs
     then Inl (ValueError ''Top-p score centering requires logprobs aligned with the sampling mask.'')
     else case index_of sampled_token support_ids of
         None \<Rightarrow> Inl (ValueError ''Sampled token is missing from the top-p sampling mask.'')
       | Some i \<Rightarrow> Inr (logprobs ! i))"

definition cumsum_offsets :: "'a list list \<Rightarrow> int list" where
  "cumsum_offsets support = map (\<lambda>i. wrap32 (int (sum_list (map length (take i support))))) [0..<length support + 1]"

definition score_centering_metadata ::
  "sc_choice \<Rightarrow> int list \<Rightarrow> bool \<Rightarrow> nat \<Rightarrow> (sc_metadata \<times> fp list option) result" where
  "score_centering_metadata choice token_ids full_support top_k =
     (if length (ch_content choice) \<noteq> length token_ids
      then Inl (ValueError ''Score centering requires top logprobs for every generated token.'')
      else if full_support then
        res_bind (res_map (\<lambda>item. sampler_head top_k (rw_top_logprobs item)) (ch_content choice)) (\<lambda>heads.
          let width = (if ch_content choice = [] then 0 else top_k) in
          Inr (TopK (Matrix width (map (map fst) heads)) (Matrix width (map (map snd) heads)), None))
      else case ch_sampling_mask choice of
          None \<Rightarrow> Inl (ValueError ''Top-p score centering requires a sampling mask for every generated token.'')
        | Some support \<Rightarrow>
            if length support \<noteq> length token_ids
            then Inl (ValueError ''Top-p score centering requires a sampling mask for every generated token.'')
            else case ch_sampling_mask_logprobs choice of
                None \<Rightarrow> Inl (ValueError ''Top-p score centering requires logprobs aligned with the sampling mask.'')
              | Some support_logprobs \<Rightarrow>
                  if length support_logprobs \<noteq> length support
                  then Inl (ValueError ''Top-p score centering requires logprobs aligned with the sampling mask.'')
                  else res_bind (to_int32s (concat support)) (\<lambda>ids.
                       res_bind (res_map sampled_logprob (zip token_ids (zip support support_logprobs))) (\<lambda>sampled.
                       Inr (TopP ids (cumsum_offsets support) (concat support_logprobs), Some sampled))))"

text \<open>The decoded document: the choice and the two score-centering entries of its \<open>meta_info\<close>.\<close>

definition decode_score_centering_response_stdlib ::
  "nat \<Rightarrow> sc_choice \<Rightarrow> meta_info \<Rightarrow> (sc_choice \<times> meta_info) result" where
  "decode_score_centering_response_stdlib k choice meta =
     (let meta0 = meta\<lparr>mi_topk := None, mi_top_p := None\<rparr> in
      if ch_token_ids choice = [] \<and> ch_content choice = [] then Inr (choice, meta0)
      else res_bind (score_centering_metadata choice (ch_token_ids choice) (k \<noteq> 0) k) (\<lambda>(metadata, sampled_logprobs).
        let meta1 = (case metadata of
                TopK ids lps \<Rightarrow> meta0\<lparr>mi_topk := Some (ids, lps)\<rparr>
              | TopP ids offsets lps \<Rightarrow> meta0\<lparr>mi_top_p := Some (ids, offsets, lps)\<rparr>);
            rows = map (\<lambda>(position, row). row\<lparr>rw_top_logprobs := [],
                rw_logprob := (case sampled_logprobs of None \<Rightarrow> rw_logprob row | Some lps \<Rightarrow> lps ! position)\<rparr>)
              (zip [0..<length (ch_content choice)] (ch_content choice));
            choice1 = choice\<lparr>ch_content := rows\<rparr>;
            choice2 = (if k = 0 then choice1\<lparr>ch_sampling_mask := None, ch_sampling_mask_logprobs := None\<rparr> else choice1)
        in Inr (choice2, meta1)))"

lemma nth_cumsum:
  assumes "i \<le> length support" "sum_list (map length support) < 2 ^ 31"
  shows "cumsum_offsets support ! i = int (sum_list (map length (take i support)))"
proof -
  have "sum_list (map length (take i support)) \<le> sum_list (map length support)"
    by (metis append_take_drop_id le_add1 map_append sum_list_append)
  then show ?thesis using assms by (simp add: cumsum_offsets_def nth_append less_Suc_eq_le del: upt_Suc)
qed

lemma ragged_cumsum:
  assumes "map length xss = map length support" "sum_list (map length support) < 2 ^ 31" "r < length support"
  shows "ragged_row (cumsum_offsets support) (concat xss) r = xss ! r"
proof -
  have len: "length xss = length support" using assms(1) by (metis length_map)
  have parts: "concat xss = concat (take r xss) @ xss ! r @ concat (drop (Suc r) xss)"
    using assms(3) len by (metis concat.simps(2) concat_append id_take_nth_drop)
  have sum: "sum_list (map length (take i support)) = length (concat (take i xss))" for i
    by (simp add: length_concat take_map [symmetric] assms(1))
  have "length (concat (take (Suc r) xss)) = length (concat (take r xss)) + length (xss ! r)"
    using assms(3) len by (simp add: take_Suc_conv_app_nth)
  then show ?thesis
    using assms(2,3) by (simp add: ragged_row_def nth_cumsum sum slice_def parts del: length_concat)
qed

lemma sorted_cumsum:
  assumes "sum_list (map length support) < 2 ^ 31"
  shows "sorted_offsets (cumsum_offsets support) (length support)"
    and "cumsum_offsets support ! length support = int (sum_list (map length support))"
proof -
  have "sum_list (map length (take i support)) \<le> sum_list (map length (take (Suc i) support))" if "i < length support" for i
    using that by (simp add: take_Suc_conv_app_nth)
  then show "sorted_offsets (cumsum_offsets support) (length support)"
    using assms by (simp add: sorted_offsets_def nth_cumsum) (simp add: cumsum_offsets_def)
  show "cumsum_offsets support ! length support = int (sum_list (map length support))"
    using nth_cumsum [OF order_refl assms] by simp
qed

lemma index_of_Some: "index_of x xs = Some i \<Longrightarrow> i < length xs \<and> xs ! i = x"
  by (induction xs arbitrary: i) (auto split: if_splits)

lemma is_close_refl: "valid_logp x \<Longrightarrow> is_close x x"
  by (cases x) (auto simp: valid_logp_def is_finite_def is_close_def)

lemma sampled_logprobs_lookup:
  assumes "res_map sampled_logprob (zip toks (zip support slps)) = Inr sampled"
    "length support = length toks" "length slps = length support" "r < length toks"
  shows "length sampled = length toks \<and> length (slps ! r) = length (support ! r) \<and>
    (\<exists>j < length (support ! r). support ! r ! j = toks ! r \<and> slps ! r ! j = sampled ! r)"
proof -
  have len: "length (zip toks (zip support slps)) = length toks" using assms(2,3) by simp
  have "sampled_logprob (zip toks (zip support slps) ! r) = Inr (sampled ! r)"
    using res_map_nth [OF assms(1)] assms(4) by (simp only: len)
  then have "sampled_logprob (toks ! r, support ! r, slps ! r) = Inr (sampled ! r)" using assms(2-4) by simp
  then show ?thesis
    using res_map_length [OF assms(1)] len
    by (auto simp: sampled_logprob_def split: if_splits option.splits dest!: index_of_Some)
qed

text \<open>A top-p response that decodes carries a capture the trainer accepts: if the sampling masks hold
  distinct int32 ids with finite non-positive log-probabilities and fewer than \<open>2^31\<close> of them, the stored
  capture passes validation against the response's own tokens and their rewritten log-probabilities.\<close>

theorem decoded_top_p_validates:
  assumes dec: "decode_score_centering_response_stdlib 0 choice meta = Inr (choice', meta')" "ch_token_ids choice \<noteq> []"
    and rows: "ch_sampling_mask choice = Some support" "ch_sampling_mask_logprobs choice = Some slps"
      "\<forall>row \<in> set support. head_row_ok row" "\<forall>lrow \<in> set slps. \<forall>x \<in> set lrow. valid_logp x"
    and small: "sum_list (map length support) < 2 ^ 31"
  shows "\<exists>ids offs lps. mi_top_p meta' = Some (ids, offs, lps) \<and>
    validate_sampler_top_p st (Some (Mem ids)) (Some (Mem offs)) (Some (Mem lps)) (length (ch_token_ids choice)) None
      (Some (ch_token_ids choice', map rw_logprob (ch_content choice'))) = Inr ()"
proof -
  let ?toks = "ch_token_ids choice" and ?offs = "cumsum_offsets support"
  obtain sampled where s: "length (ch_content choice) = length ?toks" "length support = length ?toks" "length slps = length support"
      "res_map sampled_logprob (zip ?toks (zip support slps)) = Inr sampled"
      "mi_top_p meta' = Some (concat support, ?offs, concat slps)" "ch_token_ids choice' = ?toks"
      "ch_content choice' = map (\<lambda>(position, row). row\<lparr>rw_top_logprobs := [], rw_logprob := sampled ! position\<rparr>)
         (zip [0..<length (ch_content choice)] (ch_content choice))"
    using dec rows(1,2)
    by (auto simp: decode_score_centering_response_stdlib_def score_centering_metadata_def to_int32s_def Let_def
        res_bind_eq_Inr split: if_splits)
  note look = sampled_logprobs_lookup [OF s(4,2,3)]
  have lps: "map rw_logprob (ch_content choice') = sampled"
    by (rule nth_equalityI) (use s look [of 0] dec(2) in \<open>auto simp: s(7)\<close>)
  have lens: "map length slps = map length support"
    by (rule nth_equalityI) (use s look in auto)
  have rag: "ragged_row ?offs (concat support) r = support ! r" "ragged_row ?offs (concat slps) r = slps ! r"
    if "r < length support" for r
    using ragged_cumsum [OF refl small that] ragged_cumsum [OF lens small that] by auto
  have "top_p_row_ok ?offs (concat support) (concat slps) (replicate (length ?toks) True) (Some (?toks, sampled)) r"
    if r: "r < length ?toks" for r
  proof -
    have mem: "support ! r \<in> set support" "slps ! r \<in> set slps" using r s(2,3) by simp_all
    obtain j where j: "j < length (support ! r)" "support ! r ! j = ?toks ! r" "slps ! r ! j = sampled ! r" "length (slps ! r) = length (support ! r)"
      using look [OF r] by blast
    then have "is_close (slps ! r ! j) (sampled ! r)" using rows(4) mem is_close_refl by (metis nth_mem)
    with j mem rows(3,4) r s(2) show ?thesis by (auto simp: top_p_row_ok_def rag head_row_ok_def Let_def)
  qed
  moreover have "length (concat slps) = length (concat support)" by (simp add: length_concat lens)
  ultimately have "validate_sampler_top_p st (Some (Mem (concat support))) (Some (Mem ?offs)) (Some (Mem (concat slps)))
      (length ?toks) None (Some (?toks, sampled)) = Inr ()"
    unfolding validate_top_p_iff using sorted_cumsum [OF small] s(2) look [of 0] dec(2) by (simp add: length_concat)
  then show ?thesis using s(5,6) lps by simp
qed

theorem decoded_top_p_validates_witness:
  "\<exists>ids offs lps. mi_top_p (meta_info_empty\<lparr>mi_top_p := Some ([4, 7], [0, 2], [Fin (-1), Fin (-2)])\<rparr>) = Some (ids, offs, lps) \<and>
    validate_sampler_top_p demo_straw (Some (Mem ids)) (Some (Mem offs)) (Some (Mem lps)) (length [7 :: int]) None
      (Some ([7], [Fin (-2)])) = Inr ()"
proof -
  define choice where "choice = \<lparr>ch_token_ids = [7], ch_content = [\<lparr>rw_logprob = Fin (-3), rw_top_logprobs = []\<rparr>],
    ch_sampling_mask = Some [[4, 7]], ch_sampling_mask_logprobs = Some [[Fin (-1), Fin (-2)]]\<rparr>"
  define choice' where "choice' = \<lparr>ch_token_ids = [7], ch_content = [\<lparr>rw_logprob = Fin (-2), rw_top_logprobs = []\<rparr>],
    ch_sampling_mask = None, ch_sampling_mask_logprobs = None\<rparr>"
  have "decode_score_centering_response_stdlib 0 choice meta_info_empty =
      Inr (choice', meta_info_empty\<lparr>mi_top_p := Some ([4, 7], [0, 2], [Fin (-1), Fin (-2)])\<rparr>)"
    by (simp add: decode_score_centering_response_stdlib_def choice_def choice'_def score_centering_metadata_def to_int32s_def
        sampled_logprob_def cumsum_offsets_def meta_info_empty_def)
  from decoded_top_p_validates [OF this, of "[[4, 7]]" "[[Fin (-1), Fin (-2)]]" demo_straw] show ?thesis
    by (simp add: choice_def choice'_def head_row_ok_def int32_max_def valid_logp_def is_finite_def)
qed

end
