(* ===== verification/Sample_Append.thy ===== *)
theory Sample_Append
  imports Score_Centering
begin

text \<open>
  \<open>vime/utils/types.py\<close>: appending response tokens to a sample and applying the engine's metadata, with
  every exception of the source. The methods update the sample in place, so they are stateful
  operations: what was assigned before an exception stays assigned.
\<close>

section \<open>Top-p spans\<close>

definition top_p_token_id_keys :: "string list" where
  "top_p_token_id_keys = [''top_p_token_ids'', ''top_p_kept_token_ids'']"

definition top_p_token_offset_keys :: "string list" where
  "top_p_token_offset_keys = [''top_p_token_offsets'', ''top_p_kept_token_offsets'']"

definition extract_rollout_top_p_token_data ::
  "meta_codec \<Rightarrow> meta_info \<Rightarrow> nat \<Rightarrow> (int list \<times> int list) option result" where
  "extract_rollout_top_p_token_data codec meta expected_num_tokens =
     res_bind (decode_int32_meta_array codec (mi_arrays meta) top_p_token_id_keys) (\<lambda>token_ids.
     res_bind (decode_int32_meta_array codec (mi_arrays meta) top_p_token_offset_keys) (\<lambda>offsets.
     case (token_ids, offsets) of
       (None, None) \<Rightarrow> Inr None
     | (Some token_ids, Some offsets) \<Rightarrow>
         if offsets = [] \<or> offsets ! 0 \<noteq> 0 then Inl (ValueError ''VLLM top-p token offsets must start with 0'')
         else if last offsets \<noteq> int (length token_ids) then Inl (ValueError ''VLLM top-p token ids/offsets mismatch'')
         else if length offsets \<noteq> expected_num_tokens + 1
         then Inl (ValueError ''VLLM top-p token offsets length must equal generated token count + 1'')
         else Inr (Some (token_ids, offsets))
     | _ \<Rightarrow> Inl (ValueError ''VLLM top-p token replay must include both token ids and offsets.'')))"

definition merge_rollout_top_p_token_data ::
  "straw \<Rightarrow> int list stored option \<Rightarrow> int list stored option \<Rightarrow> int list \<Rightarrow> int list \<Rightarrow> (int list \<times> int list) result" where
  "merge_rollout_top_p_token_data st base_token_ids base_offsets token_ids offsets =
     (let base_ids = (case base_token_ids of None \<Rightarrow> [] | Some v \<Rightarrow> load_stored (load_ints st) v);
          base_offs = (case base_offsets of None \<Rightarrow> [0] | Some v \<Rightarrow> load_stored (load_ints st) v)
      in res_bind (py_last base_offs) (\<lambda>base_offset.
           Inr (base_ids @ token_ids, base_offs @ map (\<lambda>o'. wrap32 (o' + base_offset)) (drop 1 offsets))))"

definition pad_rollout_top_p_offsets ::
  "straw \<Rightarrow> int list stored option \<Rightarrow> int list stored option \<Rightarrow> nat \<Rightarrow> (int list stored \<times> int list) result" where
  "pad_rollout_top_p_offsets st token_ids offsets num_tokens =
     (case (token_ids, offsets) of
        (Some ids, Some offs) \<Rightarrow>
          let loaded = load_stored (load_ints st) offs in
          if loaded = [] then Inl (ValueError ''Cannot append empty top-p spans to empty offsets.'')
          else Inr (ids, loaded @ replicate num_tokens (last loaded))
      | _ \<Rightarrow> Inl (ValueError ''Cannot append empty top-p spans without existing token ids and offsets.''))"

section \<open>Routed experts\<close>

definition get_rollout_routed_experts_length :: "sample \<Rightarrow> nat" where
  "get_rollout_routed_experts_length s = (case sm_routed_experts s of
       None \<Rightarrow> 0
     | Some (RRef r) \<Rightarrow> hd (ref_shape r)
     | Some (RTensor t) \<Rightarrow> length (et_rows t)
     | Some (RChunks ts) \<Rightarrow> sum_list (map (\<lambda>t. length (et_rows t)) ts))"

definition et_cat_all :: "expert_tensor list \<Rightarrow> expert_tensor result" where
  "et_cat_all ts = (case ts of [] \<Rightarrow> Inl IndexError | t # rest \<Rightarrow> res_fold et_cat t rest)"

definition load_routed :: "straw \<Rightarrow> routed \<Rightarrow> expert_tensor result" where
  "load_routed st r = (case r of RRef ref \<Rightarrow> Inr (load_experts st ref) | RTensor t \<Rightarrow> Inr t | RChunks ts \<Rightarrow> et_cat_all ts)"

definition materialize_rollout_routed_experts :: "straw \<Rightarrow> bool \<Rightarrow> (sample, expert_tensor option) op" where
  "materialize_rollout_routed_experts st repl = (\<lambda>s. case sm_routed_experts s of
       None \<Rightarrow> (s, Inr None)
     | Some r \<Rightarrow> (case load_routed st r of
         Inl e \<Rightarrow> (s, Inl e)
       | Inr t \<Rightarrow> ((if repl then s\<lparr>sm_routed_experts := Some (RTensor t)\<rparr> else s), Inr (Some t))))"

definition append_rollout_routed_experts_chunk :: "straw \<Rightarrow> expert_tensor \<Rightarrow> sample \<Rightarrow> sample" where
  "append_rollout_routed_experts_chunk st chunk s = s\<lparr>sm_routed_experts := Some (case sm_routed_experts s of
       None \<Rightarrow> RTensor chunk
     | Some (RRef r) \<Rightarrow> RChunks [load_experts st r, chunk]
     | Some (RChunks ts) \<Rightarrow> RChunks (ts @ [chunk])
     | Some (RTensor t) \<Rightarrow> RChunks [t, chunk])\<rparr>"

section \<open>Engine metadata\<close>

record append_args =
  aa_use_score_centering :: bool
  aa_rollout_top_p :: fp
  aa_score_centering_top_k :: nat
  aa_num_layers :: nat
  aa_moe_router_topk :: nat
  aa_vllm_speculative_config :: bool

definition set_top_p :: "int list stored \<Rightarrow> int list \<Rightarrow> sample \<Rightarrow> sample" where
  "set_top_p ids offsets s = s\<lparr>sm_top_p_token_ids := Some ids, sm_top_p_token_offsets := Some (Mem offsets)\<rparr>"

definition apply_top_p :: "straw \<Rightarrow> meta_codec \<Rightarrow> meta_info \<Rightarrow> nat \<Rightarrow> bool \<Rightarrow> (sample, unit) op" where
  "apply_top_p st codec meta new_token_count pad_missing_top_p =
     op_bind (if new_token_count \<noteq> 0 then op_lift (extract_rollout_top_p_token_data codec meta new_token_count) else op_return None)
     (\<lambda>top_p_data. case top_p_data of
        Some (ids, offsets) \<Rightarrow>
          op_bind (op_get (\<lambda>s. (sm_top_p_token_ids s, sm_top_p_token_offsets s))) (\<lambda>(base_ids, base_offsets).
          if base_ids = None \<and> base_offsets = None then op_modify (set_top_p (Mem ids) offsets)
          else op_bind (op_lift (merge_rollout_top_p_token_data st base_ids base_offsets ids offsets))
                 (\<lambda>(ids, offsets). op_modify (set_top_p (Mem ids) offsets)))
      | None \<Rightarrow>
          op_bind (op_get (\<lambda>s. (sm_top_p_token_ids s, sm_top_p_token_offsets s))) (\<lambda>(base_ids, base_offsets).
          if pad_missing_top_p \<and> new_token_count \<noteq> 0 \<and> base_offsets \<noteq> None
          then op_bind (op_lift (pad_rollout_top_p_offsets st base_ids base_offsets new_token_count))
                 (\<lambda>(ids, offsets). op_modify (set_top_p ids offsets))
          else op_return ()))"

text \<open>\<open>reshape(rows, num_layers, topk)\<close> of a flat tensor.\<close>

definition reshape_experts :: "nat \<Rightarrow> nat \<Rightarrow> nat \<Rightarrow> int list \<Rightarrow> expert_tensor" where
  "reshape_experts rows num_layers topk xs = \<lparr>et_dims = (num_layers, topk),
     et_rows = map (\<lambda>r. map (\<lambda>l. slice ((r * num_layers + l) * topk) ((r * num_layers + l + 1) * topk) xs) [0..<num_layers]) [0..<rows]\<rparr>"

definition apply_routed_experts :: "straw \<Rightarrow> meta_codec \<Rightarrow> append_args option \<Rightarrow> meta_info \<Rightarrow> (sample, unit) op" where
  "apply_routed_experts st codec args meta =
     op_bind (op_lift (decode_int32_meta_array codec (mi_arrays meta) [''routed_experts''])) (\<lambda>decoded.
     case decoded of None \<Rightarrow> op_return ()
     | Some flat \<Rightarrow>
       (case args of None \<Rightarrow> op_raise (ValueError ''args is required to decode routed experts metadata.'')
        | Some args \<Rightarrow>
          let start_len = counter (mi_counters meta) ''routed_experts_start_len'' 0 in
          if start_len < 0 then op_raise (ValueError ''VLLM routed_experts_start_len must be non-negative'')
          else op_bind (op_get (\<lambda>s. (length (sm_tokens s), get_rollout_routed_experts_length s))) (\<lambda>(num_tokens, existing_len).
            let start = nat start_len; expected_rows = num_tokens - 1 - start in
            if length flat \<noteq> expected_rows * aa_num_layers args * aa_moe_router_topk args
            then op_raise (ValueError ''VLLM routed_experts element count does not match sample tokens'')
            else
              let chunk = reshape_experts expected_rows (aa_num_layers args) (aa_moe_router_topk args) flat in
              if start = 0 then op_modify (\<lambda>s. s\<lparr>sm_routed_experts := Some (RTensor chunk)\<rparr>)
              else if existing_len = 0
              then op_raise (ValueError ''Cannot append partial routed experts without existing routed experts'')
              else if existing_len < start
              then op_raise (ValueError ''Existing routed experts shorter than routed_experts_start_len'')
              else if existing_len = start then op_modify (append_rollout_routed_experts_chunk st chunk)
              else op_bind (materialize_rollout_routed_experts st False) (\<lambda>existing.
                case existing of
                  None \<Rightarrow> op_raise (TypeError ''NoneType object is not subscriptable'')
                | Some t \<Rightarrow> op_bind (op_lift (et_cat \<lparr>et_dims = et_dims t, et_rows = take start (et_rows t)\<rparr> chunk))
                    (\<lambda>merged. op_modify (\<lambda>s. s\<lparr>sm_routed_experts := Some (RTensor merged)\<rparr>))))))"

definition apply_terminal_info :: "append_args option \<Rightarrow> meta_info \<Rightarrow> nat \<Rightarrow> string \<Rightarrow> sample \<Rightarrow> sample" where
  "apply_terminal_info args meta new_token_count reason s0 =
     (let s1 = (case args of Some a \<Rightarrow> if aa_vllm_speculative_config a
                  then s0\<lparr>sm_spec_info := spec_info_add (mi_counters meta) (sm_spec_info s0)\<rparr> else s0 | None \<Rightarrow> s0);
          s2 = s1\<lparr>sm_prefix_cache_info := prefix_cache_info_add (mi_counters meta) (sm_prefix_cache_info s1)\<rparr>;
          s3 = (if 0 < new_token_count then s2\<lparr>sm_weight_versions := sm_weight_versions s2 @
                  (case mi_weight_versions meta of Some vs \<Rightarrow> vs
                   | None \<Rightarrow> (case mi_weight_version meta of Some v \<Rightarrow> [v] | None \<Rightarrow> []))\<rparr> else s2)
      in s3\<lparr>sm_status := (if reason = ''length'' then TRUNCATED else if reason = ''abort'' then ABORTED
             else if reason = ''stop'' then COMPLETED else sm_status s3)\<rparr>)"

definition apply_meta_info ::
  "straw \<Rightarrow> meta_codec \<Rightarrow> append_args option \<Rightarrow> meta_info \<Rightarrow> nat \<Rightarrow> bool \<Rightarrow> bool \<Rightarrow> (sample, unit) op" where
  "apply_meta_info st codec args meta new_token_count pad_missing_top_p update_terminal_info =
     op_bind (apply_top_p st codec meta new_token_count pad_missing_top_p) (\<lambda>_.
     op_bind (apply_routed_experts st codec args meta) (\<lambda>_.
     case mi_finish_reason meta of
       None \<Rightarrow> op_return ()
     | Some reason \<Rightarrow> if update_terminal_info then op_modify (apply_terminal_info args meta new_token_count reason)
                      else op_return ()))"

section \<open>Validation of the lengths\<close>

definition mat_len :: "'a matrix stored \<Rightarrow> nat" where
  "mat_len v = (case v of Mem m \<Rightarrow> length (mat_rows m) | Ref r \<Rightarrow> hd (ref_shape r))"

definition stored_numel :: "'a list stored \<Rightarrow> nat" where
  "stored_numel v = (case v of Mem xs \<Rightarrow> length xs | Ref r \<Rightarrow> prod_list (ref_shape r))"

definition stored_len :: "'a list stored \<Rightarrow> nat" where
  "stored_len v = (case v of Mem xs \<Rightarrow> length xs | Ref r \<Rightarrow> hd (ref_shape r))"

definition len_is :: "'a option \<Rightarrow> ('a \<Rightarrow> nat) \<Rightarrow> int \<Rightarrow> bool" where
  "len_is v len n = (case v of None \<Rightarrow> True | Some x \<Rightarrow> int (len x) = n)"

definition validate_response_metadata_lengths :: "straw \<Rightarrow> sample \<Rightarrow> unit result" where
  "validate_response_metadata_lengths st s =
     (let n = sm_response_length s in
      if \<not> len_is (sm_topk_token_ids s) mat_len n then Inl (ValueError ''rollout_topk_token_ids length != response_length'')
      else if \<not> len_is (sm_topk_log_probs s) mat_len n then Inl (ValueError ''rollout_topk_log_probs length != response_length'')
      else if \<not> len_is (sm_loss_mask s) length n then Inl (ValueError ''loss_mask length != response_length'')
      else if \<not> len_is (sm_rollout_log_probs s) length n then Inl (ValueError ''rollout_log_probs length != response_length'')
      else case (sm_top_p_token_ids s, sm_top_p_token_offsets s) of
          (None, None) \<Rightarrow> Inr ()
        | (Some ids, Some offs) \<Rightarrow>
            let offsets = load_stored (load_ints st) offs in
            if int (length offsets) \<noteq> n + 1
            then Inl (ValueError ''rollout_top_p_token_offsets length must equal response_length + 1'')
            else if \<not> len_is (sm_top_p_log_probs s) stored_len (int (stored_numel ids))
            then Inl (ValueError ''Top-p logprobs must align with the replay token ids.'')
            else res_bind (py_last offsets) (\<lambda>last_offset.
              if last_offset \<noteq> int (stored_numel ids) then Inl (ValueError ''rollout top-p token ids/offsets mismatch'')
              else Inr ())
        | _ \<Rightarrow> Inl (ValueError ''rollout top-p replay must include both token ids and offsets.''))"

section \<open>Appending response tokens\<close>

text \<open>Dummy heads for masked tokens.\<close>

definition dummy_ids :: "nat \<Rightarrow> nat \<Rightarrow> int matrix" where
  "dummy_ids rows k = Matrix k (replicate rows (map int [0..<k]))"

definition dummy_log_probs :: "nat \<Rightarrow> nat \<Rightarrow> fp matrix result" where
  "dummy_log_probs rows k =
     (if k = 0 then Inl (ValueError ''math domain error'')
      else Inr (Matrix k (replicate rows (replicate k (Fin (- ln (real k)))))))"

definition existing_trainable :: "sample \<Rightarrow> bool" where
  "existing_trainable s \<longleftrightarrow> sm_response_length s \<noteq> 0 \<and>
     (case sm_loss_mask s of None \<Rightarrow> True | Some [] \<Rightarrow> True | Some m \<Rightarrow> \<exists>x \<in> set m. x \<noteq> 0)"

definition mat_concatenate :: "nat \<Rightarrow> 'a matrix stored option \<Rightarrow> 'a matrix \<Rightarrow> 'a matrix result" where
  "mat_concatenate previous old new =
     (if previous = 0 then Inr new
      else case old of Some (Mem m) \<Rightarrow> mat_cat m new
         | _ \<Rightarrow> Inl (ValueError ''zero-dimensional arrays cannot be concatenated''))"

definition append_topk_capture :: "straw \<Rightarrow> nat \<Rightarrow> meta_info \<Rightarrow> nat \<Rightarrow> bool \<Rightarrow> (sample, unit) op" where
  "append_topk_capture st k meta num_tokens trainable =
     op_bind (op_get (\<lambda>s. nat (sm_response_length s))) (\<lambda>previous.
     op_bind (op_modify (\<lambda>s. s\<lparr>sm_topk_token_ids := map_option (\<lambda>v. Mem (load_stored (load_int_matrix st) v)) (sm_topk_token_ids s),
        sm_topk_log_probs := map_option (\<lambda>v. Mem (load_stored (load_float_matrix st) v)) (sm_topk_log_probs s)\<rparr>)) (\<lambda>_.
     op_bind (if trainable then op_lift (extract_sampler_topk (mi_topk meta) num_tokens k)
              else op_lift (res_bind (dummy_log_probs num_tokens k) (\<lambda>lps. Inr (dummy_ids num_tokens k, lps)))) (\<lambda>(ids, logps).
     op_bind (op_get (\<lambda>s. (sm_topk_token_ids s, existing_trainable s))) (\<lambda>(old_ids, old_trainable).
     op_bind (if old_ids \<noteq> None then op_return ()
              else if old_trainable then op_raise (ValueError ''Existing trainable response tokens have no sampler top-k data.'')
              else op_bind (op_modify (\<lambda>s. s\<lparr>sm_topk_token_ids := Some (Mem (dummy_ids previous k))\<rparr>)) (\<lambda>_.
                   op_bind (op_lift (dummy_log_probs previous k)) (\<lambda>lps.
                   op_modify (\<lambda>s. s\<lparr>sm_topk_log_probs := Some (Mem lps)\<rparr>)))) (\<lambda>_.
     op_bind (op_get (\<lambda>s. (sm_topk_token_ids s, sm_topk_log_probs s))) (\<lambda>(base_ids, base_lps).
     op_bind (op_lift (mat_concatenate previous base_ids ids)) (\<lambda>new_ids.
     op_bind (op_modify (\<lambda>s. s\<lparr>sm_topk_token_ids := Some (Mem new_ids)\<rparr>)) (\<lambda>_.
     op_bind (op_lift (mat_concatenate previous base_lps logps)) (\<lambda>new_lps.
     op_modify (\<lambda>s. s\<lparr>sm_topk_log_probs := Some (Mem new_lps)\<rparr>))))))))))"

definition append_top_p_capture ::
  "straw \<Rightarrow> meta_info \<Rightarrow> int list \<Rightarrow> fp list \<Rightarrow> bool \<Rightarrow> (sample, unit) op" where
  "append_top_p_capture st meta tokens log_probs trainable =
     op_bind (op_get (\<lambda>s. (sm_top_p_token_ids s, nat (sm_response_length s), existing_trainable s))) (\<lambda>(old_ids, previous, old_trainable).
     op_bind (if old_ids \<noteq> None then op_return ()
              else if old_trainable then op_raise (ValueError ''Existing trainable response tokens have no sampler top-p data.'')
              else op_modify (\<lambda>s. s\<lparr>sm_top_p_token_ids := Some (Mem []),
                     sm_top_p_token_offsets := Some (Mem (replicate (previous + 1) 0)), sm_top_p_log_probs := Some (Mem [])\<rparr>)) (\<lambda>_.
     if \<not> trainable then op_return ()
     else
       op_bind (op_lift (extract_sampler_top_p st (mi_top_p meta) (length tokens))) (\<lambda>(ids, offsets, logps).
       op_bind (op_lift (validate_sampler_top_p st (Some (Mem ids)) (Some (Mem offsets)) (Some (Mem logps)) (length tokens) None
                  (Some (tokens, log_probs)))) (\<lambda>_.
       op_bind (op_get (\<lambda>s. (sm_top_p_token_ids s, sm_top_p_token_offsets s))) (\<lambda>(base_ids, base_offsets).
       op_bind (op_lift (merge_rollout_top_p_token_data st base_ids base_offsets ids offsets)) (\<lambda>(new_ids, new_offsets).
       op_bind (op_modify (set_top_p (Mem new_ids) new_offsets)) (\<lambda>_.
       op_bind (op_get sm_top_p_log_probs) (\<lambda>previous_logps. case previous_logps of
           None \<Rightarrow> op_raise (ValueError ''zero-dimensional arrays cannot be concatenated'')
         | Some v \<Rightarrow> op_modify (\<lambda>s. s\<lparr>sm_top_p_log_probs := Some (Mem (load_stored (load_floats st) v @ logps))\<rparr>)))))))))"

text \<open>The metadata that remains once the validated capture has been appended.\<close>

definition drop_top_p_keys :: "meta_info \<Rightarrow> meta_info" where
  "drop_top_p_keys meta = meta\<lparr>mi_arrays := (\<lambda>key.
     if key \<in> set top_p_token_id_keys \<union> set top_p_token_offset_keys then None else mi_arrays meta key)\<rparr>"

definition append_text_and_tokens :: "string option \<Rightarrow> int list \<Rightarrow> bool \<Rightarrow> sample \<Rightarrow> sample" where
  "append_text_and_tokens text tokens trainable s0 =
     (let s1 = (case text of None \<Rightarrow> s0 | Some t \<Rightarrow> s0\<lparr>sm_response := sm_response s0 @ t\<rparr>) in
      if tokens = [] then s1
      else s1\<lparr>sm_tokens := sm_tokens s1 @ tokens, sm_response_length := sm_response_length s1 + int (length tokens),
             sm_loss_mask := Some ((case sm_loss_mask s1 of None \<Rightarrow> replicate (nat (sm_response_length s1)) 1 | Some m \<Rightarrow> m) @
               replicate (length tokens) (of_bool trainable))\<rparr>)"

definition append_log_probs :: "fp list option \<Rightarrow> bool \<Rightarrow> nat \<Rightarrow> (sample, unit) op" where
  "append_log_probs log_probs trainable previous =
     (case log_probs of
        None \<Rightarrow> op_return ()
      | Some lps \<Rightarrow> op_bind (op_get sm_rollout_log_probs) (\<lambda>old. case old of
            Some xs \<Rightarrow> op_modify (\<lambda>s. s\<lparr>sm_rollout_log_probs := Some (xs @ lps)\<rparr>)
          | None \<Rightarrow>
              if trainable \<and> previous \<noteq> 0
              then op_raise (ValueError ''Cannot append trainable rollout log probabilities without existing rollout_log_probs.'')
              else op_modify (\<lambda>s. s\<lparr>sm_rollout_log_probs := Some (replicate previous (Fin 0) @ lps)\<rparr>)))"

definition uses_score_centering :: "append_args option \<Rightarrow> bool" where
  "uses_score_centering args = (case args of None \<Rightarrow> False | Some a \<Rightarrow> aa_use_score_centering a)"

definition append_captures ::
  "straw \<Rightarrow> append_args option \<Rightarrow> int list \<Rightarrow> fp list \<Rightarrow> bool \<Rightarrow> meta_info option \<Rightarrow> (sample, meta_info option) op" where
  "append_captures st args tokens log_probs trainable meta =
     (let meta_or_empty = (case meta of None \<Rightarrow> meta_info_empty | Some m \<Rightarrow> m) in
      case args of
        Some a \<Rightarrow>
          if tokens = [] \<or> \<not> aa_use_score_centering a then op_return meta
          else op_bind (if fp_eq (aa_rollout_top_p a) (Fin 1)
                        then append_topk_capture st (aa_score_centering_top_k a) meta_or_empty (length tokens) trainable
                        else op_return ()) (\<lambda>_.
               if fp_lt (aa_rollout_top_p a) (Fin 1)
               then op_bind (append_top_p_capture st meta_or_empty tokens log_probs trainable) (\<lambda>_.
                 op_return (if trainable then Some (drop_top_p_keys meta_or_empty) else meta))
               else op_return meta)
      | None \<Rightarrow> op_return meta)"

definition apply_new_meta ::
  "straw \<Rightarrow> meta_codec \<Rightarrow> append_args option \<Rightarrow> nat \<Rightarrow> bool \<Rightarrow> bool \<Rightarrow> meta_info option \<Rightarrow> (sample, unit) op" where
  "apply_new_meta st codec args num_tokens should_pad_top_p update_terminal_info meta =
     (if meta \<noteq> None \<or> should_pad_top_p
      then apply_meta_info st codec args (case meta of None \<Rightarrow> meta_info_empty | Some m \<Rightarrow> m)
             num_tokens should_pad_top_p update_terminal_info
      else op_return ())"

text \<open>The statements after the argument checks, and the whole method.\<close>

definition append_checked_tokens ::
  "straw \<Rightarrow> meta_codec \<Rightarrow> append_args option \<Rightarrow> int list \<Rightarrow> fp list option \<Rightarrow> bool \<Rightarrow> meta_info option \<Rightarrow>
   string option \<Rightarrow> bool \<Rightarrow> (sample, unit) op" where
  "append_checked_tokens st codec args tokens lps trainable meta text update_terminal_info =
     op_bind (op_get (\<lambda>s. nat (sm_response_length s))) (\<lambda>previous.
     op_bind (append_captures st args tokens (case lps of None \<Rightarrow> [] | Some xs \<Rightarrow> xs) trainable meta) (\<lambda>meta'.
     op_bind (op_modify (append_text_and_tokens text tokens trainable)) (\<lambda>_.
     op_bind (append_log_probs lps trainable previous) (\<lambda>_.
     op_bind (apply_new_meta st codec args (length tokens) (tokens \<noteq> [] \<and> \<not> trainable) update_terminal_info meta') (\<lambda>_.
     op_bind (op_get (validate_response_metadata_lengths st)) op_lift)))))"

definition append_response_tokens ::
  "straw \<Rightarrow> meta_codec \<Rightarrow> append_args option \<Rightarrow> int list \<Rightarrow> fp list option \<Rightarrow> bool \<Rightarrow> meta_info option \<Rightarrow>
   string option \<Rightarrow> bool \<Rightarrow> (sample, unit) op" where
  "append_response_tokens st codec args tokens log_probs trainable meta text update_terminal_info =
     (if (case log_probs of None \<Rightarrow> False | Some lps \<Rightarrow> length lps \<noteq> length tokens)
      then op_raise (ValueError ''log_probs length != tokens length'')
      else if tokens \<noteq> [] \<and> trainable \<and> log_probs = None
      then op_raise (ValueError ''trainable response tokens require rollout log probabilities.'')
      else if tokens \<noteq> [] \<and> \<not> trainable \<and> log_probs \<noteq> None
      then op_raise (ValueError ''non-trainable response tokens should not pass rollout log probabilities.'')
      else append_checked_tokens st codec args tokens
             (if tokens \<noteq> [] \<and> \<not> trainable then Some (replicate (length tokens) (Fin 0)) else log_probs)
             trainable meta text update_terminal_info)"

section \<open>What an append does\<close>

definition same_response :: "sample \<Rightarrow> sample \<Rightarrow> bool" where
  "same_response s s' \<longleftrightarrow> sm_tokens s' = sm_tokens s \<and> sm_response_length s' = sm_response_length s \<and>
     sm_loss_mask s' = sm_loss_mask s \<and> sm_rollout_log_probs s' = sm_rollout_log_probs s"

lemma same_response_refl [simp]: "same_response s s"
  by (simp add: same_response_def)

lemma same_response_trans: "same_response s t \<Longrightarrow> same_response t u \<Longrightarrow> same_response s u"
  by (simp add: same_response_def)

text \<open>A statement keeps the response if it does so whenever it completes.\<close>

definition keeps_response :: "(sample, 'a) op \<Rightarrow> bool" where
  "keeps_response m \<longleftrightarrow> (\<forall>s s' x. m s = (s', Inr x) \<longrightarrow> same_response s s')"

named_theorems keeps

lemma keeps_basic [keeps]:
  "keeps_response (op_return x)" "keeps_response (op_raise e)" "keeps_response (op_get f)" "keeps_response (op_lift r)"
  by (auto simp: keeps_response_def op_simps)

lemma keeps_modify [keeps]: "(\<And>s. same_response s (g s)) \<Longrightarrow> keeps_response (op_modify g)"
  by (auto simp: keeps_response_def op_simps)

lemma keeps_bind [keeps]: "keeps_response m \<Longrightarrow> (\<And>x. keeps_response (f x)) \<Longrightarrow> keeps_response (op_bind m f)"
  unfolding keeps_response_def op_bind_eq_Inr using same_response_trans by blast

lemma keeps_if [keeps]: "keeps_response a \<Longrightarrow> keeps_response b \<Longrightarrow> keeps_response (if c then a else b)"
  by simp

lemma keeps_option [keeps]:
  "keeps_response a \<Longrightarrow> (\<And>x. keeps_response (f x)) \<Longrightarrow> keeps_response (case v of None \<Rightarrow> a | Some x \<Rightarrow> f x)"
  by (simp split: option.split)

lemma keeps_prod [keeps]: "(\<And>x y. keeps_response (f x y)) \<Longrightarrow> keeps_response (case v of (x, y) \<Rightarrow> f x y)"
  by (simp split: prod.split)

lemma keeps_set_top_p [keeps]: "keeps_response (op_modify (set_top_p ids offsets))"
  by (intro keeps) (simp add: set_top_p_def same_response_def)

lemma keeps_materialize [keeps]: "keeps_response (materialize_rollout_routed_experts st repl)"
  by (auto simp: keeps_response_def materialize_rollout_routed_experts_def same_response_def split: option.splits sum.splits if_splits)

lemma keeps_apply_top_p [keeps]: "keeps_response (apply_top_p st codec meta n pad)"
  unfolding apply_top_p_def by (intro keeps)

lemma keeps_apply_routed [keeps]: "keeps_response (apply_routed_experts st codec args meta)"
  unfolding apply_routed_experts_def Let_def
  by (intro keeps) (simp_all add: same_response_def append_rollout_routed_experts_chunk_def)

lemma keeps_apply_meta_info [keeps]: "keeps_response (apply_meta_info st codec args meta n pad upd)"
  unfolding apply_meta_info_def
  by (intro keeps) (auto simp: same_response_def apply_terminal_info_def Let_def split: option.split)

lemma keeps_append_topk [keeps]: "keeps_response (append_topk_capture st k meta n trainable)"
  unfolding append_topk_capture_def by (intro keeps) (simp_all add: same_response_def)

lemma keeps_append_top_p [keeps]: "keeps_response (append_top_p_capture st meta tokens lps trainable)"
  unfolding append_top_p_capture_def by (intro keeps) (simp_all add: same_response_def)

lemma keeps_append_captures [keeps]: "keeps_response (append_captures st args tokens lps trainable meta)"
  unfolding append_captures_def Let_def by (intro keeps)

lemma keeps_apply_new_meta [keeps]: "keeps_response (apply_new_meta st codec args n pad upd meta)"
  unfolding apply_new_meta_def by (intro keeps)

lemma append_checked_cases:
  assumes "append_checked_tokens st codec args tokens lps trainable meta text upd s = (s', Inr ())"
  obtains s1 s2 meta' where
    "append_captures st args tokens (case lps of None \<Rightarrow> [] | Some xs \<Rightarrow> xs) trainable meta s = (s1, Inr meta')"
    "append_log_probs lps trainable (nat (sm_response_length s)) (append_text_and_tokens text tokens trainable s1) = (s2, Inr ())"
    "apply_new_meta st codec args (length tokens) (tokens \<noteq> [] \<and> \<not> trainable) upd meta' s2 = (s', Inr ())"
    "validate_response_metadata_lengths st s' = Inr ()"
  using assms unfolding append_checked_tokens_def by (auto simp: op_simps)

text \<open>C19: An append that completes has added the tokens, their mask and their log-probabilities (zeros for
  context tokens), kept everything that was there before, and leaves a sample whose per-token
  metadata all have the length of the response.\<close>

theorem append_response_tokens_effect:
  assumes "append_response_tokens st codec args tokens log_probs trainable meta text upd s = (s', Inr ())" "tokens \<noteq> []"
    and "0 \<le> sm_response_length s"
  defines "previous \<equiv> nat (sm_response_length s)"
  shows "sm_tokens s' = sm_tokens s @ tokens \<and> sm_response_length s' = sm_response_length s + int (length tokens) \<and>
    sm_loss_mask s' = Some ((case sm_loss_mask s of None \<Rightarrow> replicate previous 1 | Some m \<Rightarrow> m) @
      replicate (length tokens) (of_bool trainable)) \<and>
    sm_rollout_log_probs s' = Some ((case sm_rollout_log_probs s of None \<Rightarrow> replicate previous (Fin 0) | Some xs \<Rightarrow> xs) @
      (if trainable then the log_probs else replicate (length tokens) (Fin 0))) \<and>
    validate_response_metadata_lengths st s' = Inr ()"
proof -
  let ?lps = "if trainable then log_probs else Some (replicate (length tokens) (Fin 0))"
  have given: "trainable \<Longrightarrow> log_probs \<noteq> None"
    and checked: "append_checked_tokens st codec args tokens ?lps trainable meta text upd s = (s', Inr ())"
    using assms(1,2) by (auto simp: append_response_tokens_def op_simps split: if_splits)
  obtain s1 s2 meta' where
    cap: "append_captures st args tokens (case ?lps of None \<Rightarrow> [] | Some xs \<Rightarrow> xs) trainable meta s = (s1, Inr meta')"
    and lp: "append_log_probs ?lps trainable previous (append_text_and_tokens text tokens trainable s1) = (s2, Inr ())"
    and meta: "apply_new_meta st codec args (length tokens) (tokens \<noteq> [] \<and> \<not> trainable) upd meta' s2 = (s', Inr ())"
    and val: "validate_response_metadata_lengths st s' = Inr ()"
    unfolding previous_def by (rule append_checked_cases [OF checked])
  have "same_response s s1" using cap keeps_append_captures unfolding keeps_response_def by blast
  moreover have "same_response s2 s'" using meta keeps_apply_new_meta unfolding keeps_response_def by blast
  ultimately show ?thesis
    using lp val assms(2,3) given
    by (auto simp: same_response_def append_log_probs_def append_text_and_tokens_def previous_def op_simps
        split: option.splits if_splits)
qed

definition demo_codec :: meta_codec where
  "demo_codec = \<lparr>b64decode = (\<lambda>s. Inr s), frombuffer_int32 = (\<lambda>s. Inr (map (\<lambda>c. int (of_char c)) s))\<rparr>"

theorem append_response_tokens_effect_witness:
  "append_response_tokens demo_straw demo_codec None [5, 6] (Some [Fin (-1), Fin (-2)]) True None None True
     (sample_new\<lparr>sm_tokens := [1, 2]\<rparr>) =
   (sample_new\<lparr>sm_tokens := [1, 2, 5, 6], sm_response_length := 2, sm_loss_mask := Some [1, 1],
      sm_rollout_log_probs := Some [Fin (-1), Fin (-2)]\<rparr>, Inr ()) \<and>
   sm_tokens (sample_new\<lparr>sm_tokens := [1, 2, 5, 6], sm_response_length := 2, sm_loss_mask := Some [1, 1],
      sm_rollout_log_probs := Some [Fin (-1), Fin (-2)]\<rparr>) = [1, 2] @ [5, 6]"
proof -
  have "append_response_tokens demo_straw demo_codec None [5, 6] (Some [Fin (-1), Fin (-2)]) True None None True
     (sample_new\<lparr>sm_tokens := [1, 2]\<rparr>) =
   (sample_new\<lparr>sm_tokens := [1, 2, 5, 6], sm_response_length := 2, sm_loss_mask := Some [1, 1],
      sm_rollout_log_probs := Some [Fin (-1), Fin (-2)]\<rparr>, Inr ())"
    by (simp add: append_response_tokens_def append_checked_tokens_def append_captures_def append_log_probs_def
        append_text_and_tokens_def apply_new_meta_def validate_response_metadata_lengths_def len_is_def
        op_bind_def op_get_def op_modify_def op_return_def op_lift_def sample_new_def)
  from this append_response_tokens_effect [OF this] show ?thesis by (simp add: sample_new_def)
qed

lemma append_text_sel:
  "sm_rollout_log_probs (append_text_and_tokens text tokens b s) = sm_rollout_log_probs s"
  "sm_top_p_token_ids (append_text_and_tokens text tokens b s) = sm_top_p_token_ids s"
  "sm_top_p_token_offsets (append_text_and_tokens text tokens b s) = sm_top_p_token_offsets s"
  "sm_top_p_log_probs (append_text_and_tokens text tokens b s) = sm_top_p_log_probs s"
  "sm_topk_token_ids (append_text_and_tokens text tokens b s) = sm_topk_token_ids s"
  "sm_topk_log_probs (append_text_and_tokens text tokens b s) = sm_topk_log_probs s"
  "sm_response_length (append_text_and_tokens text tokens b s) = sm_response_length s + int (length tokens)"
  by (auto simp: append_text_and_tokens_def Let_def split: option.split)

section \<open>Context tokens can always be appended\<close>

lemma lengths_valid_iff:
  "validate_response_metadata_lengths st s = Inr () \<longleftrightarrow>
     len_is (sm_topk_token_ids s) mat_len (sm_response_length s) \<and> len_is (sm_topk_log_probs s) mat_len (sm_response_length s) \<and>
     len_is (sm_loss_mask s) length (sm_response_length s) \<and> len_is (sm_rollout_log_probs s) length (sm_response_length s) \<and>
     (case (sm_top_p_token_ids s, sm_top_p_token_offsets s) of
        (None, None) \<Rightarrow> True
      | (Some ids, Some offs) \<Rightarrow> int (length (load_stored (load_ints st) offs)) = sm_response_length s + 1 \<and>
          len_is (sm_top_p_log_probs s) stored_len (int (stored_numel ids)) \<and>
          load_stored (load_ints st) offs \<noteq> [] \<and> last (load_stored (load_ints st) offs) = int (stored_numel ids)
      | _ \<Rightarrow> False)"
  by (auto simp: validate_response_metadata_lengths_def Let_def res_bind_eq_Inr split: option.split)

lemma apply_empty_meta:
  assumes "n \<noteq> 0" "sm_top_p_token_ids s = None \<longleftrightarrow> sm_top_p_token_offsets s = None"
    and "\<And>offs. sm_top_p_token_offsets s = Some offs \<Longrightarrow> load_stored (load_ints st) offs \<noteq> []"
  shows "apply_meta_info st codec args meta_info_empty n True upd s =
    ((case (sm_top_p_token_ids s, sm_top_p_token_offsets s) of
        (Some ids, Some offs) \<Rightarrow> set_top_p ids (load_stored (load_ints st) offs @
           replicate n (last (load_stored (load_ints st) offs))) s
      | _ \<Rightarrow> s), Inr ())"
proof -
  have none: "decode_int32_meta_array codec (mi_arrays meta_info_empty) keys = Inr None" for keys
  proof -
    have "first_present Map.empty keys = (None :: meta_array option)" by (induction keys) auto
    then show ?thesis by (simp add: decode_int32_meta_array_def meta_info_empty_def)
  qed
  have fin: "mi_finish_reason meta_info_empty = None" by (simp add: meta_info_empty_def)
  show ?thesis
    using assms
    by (cases "sm_top_p_token_ids s"; cases "sm_top_p_token_offsets s")
       (simp_all add: apply_meta_info_def apply_top_p_def apply_routed_experts_def extract_rollout_top_p_token_data_def none fin
          op_bind_def op_lift_def op_get_def op_return_def op_modify_def pad_rollout_top_p_offsets_def Let_def)
qed

text \<open>C20: Tool and environment tokens can be appended to every well-formed sample that records no top-k heads, without
  score centering and without metadata: no check of the method raises, whatever top-p spans the sample holds
  in memory or on disk.\<close>

theorem append_context_tokens_returns:
  assumes "validate_response_metadata_lengths st s = Inr ()" "0 \<le> sm_response_length s"
    and "sm_topk_token_ids s = None" "sm_topk_log_probs s = None" "\<not> uses_score_centering args"
  shows "\<exists>s'. append_response_tokens st codec args tokens None False None text upd s = (s', Inr ())"
proof (cases "tokens = []")
  case True
  have "validate_response_metadata_lengths st (append_text_and_tokens text [] False s) = Inr ()"
    using assms(1) by (cases "text") (auto simp: append_text_and_tokens_def lengths_valid_iff len_is_def split: option.splits)
  then show ?thesis
    by (simp add: True append_response_tokens_def append_checked_tokens_def append_captures_def append_log_probs_def
        apply_new_meta_def op_bind_def op_get_def op_modify_def op_return_def op_lift_def split: option.split)
next
  case False
  define n where "n = nat (sm_response_length s)"
  define s1 where "s1 = append_text_and_tokens text tokens False s"
  define s2 where "s2 = s1\<lparr>sm_rollout_log_probs := Some ((case sm_rollout_log_probs s of
      None \<Rightarrow> replicate n (Fin 0) | Some xs \<Rightarrow> xs) @ replicate (length tokens) (Fin 0))\<rparr>"
  have cap: "append_captures st args tokens lps False None s = (s, Inr None)" for lps
    using assms(5) by (auto simp: append_captures_def uses_score_centering_def op_return_def split: option.split)
  have lp: "append_log_probs (Some (replicate (length tokens) (Fin 0))) False n s1 = (s2, Inr ())"
    by (auto simp: append_log_probs_def op_bind_def op_get_def op_modify_def s2_def s1_def append_text_sel split: option.split)
  have sel: "sm_top_p_token_ids s2 = sm_top_p_token_ids s" "sm_top_p_token_offsets s2 = sm_top_p_token_offsets s"
    by (simp_all add: s2_def s1_def append_text_sel)
  have spans: "sm_top_p_token_ids s = None \<longleftrightarrow> sm_top_p_token_offsets s = None"
    "\<And>offs. sm_top_p_token_offsets s = Some offs \<Longrightarrow> load_stored (load_ints st) offs \<noteq> []"
    using assms(1) by (auto simp: lengths_valid_iff split: option.splits)
  obtain s3 where s3: "apply_new_meta st codec args (length tokens) True upd None s2 = (s3, Inr ())"
    "s3 = (case (sm_top_p_token_ids s, sm_top_p_token_offsets s) of
        (Some ids, Some offs) \<Rightarrow> set_top_p ids (load_stored (load_ints st) offs @
           replicate (length tokens) (last (load_stored (load_ints st) offs))) s2
      | _ \<Rightarrow> s2)"
    using apply_empty_meta [of "length tokens" s2 st codec args upd] False spans by (simp add: apply_new_meta_def sel)
  have new: "sm_response_length s2 = sm_response_length s + int (length tokens)"
      "sm_topk_token_ids s2 = None" "sm_topk_log_probs s2 = None" "sm_top_p_log_probs s2 = sm_top_p_log_probs s"
      "len_is (sm_loss_mask s2) length (sm_response_length s2)" "len_is (sm_rollout_log_probs s2) length (sm_response_length s2)"
    using assms False by (auto simp: s2_def s1_def append_text_sel append_text_and_tokens_def Let_def lengths_valid_iff len_is_def n_def split: option.splits)
  have "validate_response_metadata_lengths st s3 = Inr ()"
    using assms(1) new spans unfolding lengths_valid_iff s3(2)
    by (cases "sm_top_p_token_ids s"; cases "sm_top_p_token_offsets s")
       (auto simp: set_top_p_def len_is_def sel last_append last_replicate)
  then have "append_checked_tokens st codec args tokens (Some (replicate (length tokens) (Fin 0))) False None text upd s = (s3, Inr ())"
    using cap lp s3(1) False unfolding append_checked_tokens_def
    by (simp add: op_bind_def op_get_def op_modify_def op_lift_def n_def s1_def)
  then show ?thesis using False by (simp add: append_response_tokens_def)
qed


theorem append_context_tokens_returns_witness:
  "\<exists>s'. append_response_tokens demo_straw demo_codec None [7, 8] None False None (Some ''obs'') True
     (sample_new\<lparr>sm_tokens := [1, 5], sm_response_length := 1, sm_loss_mask := Some [1],
        sm_rollout_log_probs := Some [Fin (-1)], sm_top_p_token_ids := Some (Mem [5, 6]),
        sm_top_p_token_offsets := Some (Mem [0, 2])\<rparr>) = (s', Inr ())"
  by (rule append_context_tokens_returns)
     (simp_all add: lengths_valid_iff len_is_def sample_new_def uses_score_centering_def stored_numel_def load_stored_def)

end
