(* ===== verification/Routed_Experts.thy ===== *)
theory Routed_Experts
  imports Routing_Replay Sample_Append
begin

text \<open>
  \<open>vime/utils/routed_experts.py\<close>: validation of captured routes before they are replayed, and the bounded
  prefetcher that prepares the rows of one micro-batch at a time. The futures of the thread pool are part of the
  state, with their queue; the workers of the pool take and finish loads between the operations, which run
  on the training thread.
\<close>

section \<open>Validation\<close>

datatype layer_freq = FreqNone | FreqInt int | FreqList "int list"

record replay_args =
  ra_num_layers :: nat
  ra_moe_router_topk :: nat
  ra_num_experts :: "int option"
  ra_moe_layer_freq :: layer_freq

definition moe_layers :: "replay_args \<Rightarrow> nat list" where
  "moe_layers args = (case ra_moe_layer_freq args of
       FreqList fs \<Rightarrow> filter (\<lambda>l. fs ! l \<noteq> 0) [0..<min (length fs) (ra_num_layers args)]
     | FreqInt f \<Rightarrow> if 0 < f then filter (\<lambda>l. int l mod f = 0) [0..<ra_num_layers args] else [0..<ra_num_layers args]
     | FreqNone \<Rightarrow> [0..<ra_num_layers args])"

definition layer_present :: "expert_row \<Rightarrow> nat \<Rightarrow> bool" where
  "layer_present row l \<longleftrightarrow> (\<exists>x \<in> set (row ! l). x \<noteq> 0)"

text \<open>Lines 47-89: the all-zero test, for more than one expert per token.\<close>

definition check_missing_routes :: "nat list \<Rightarrow> expert_row list \<Rightarrow> unit result" where
  "check_missing_routes layers rows =
     (if \<exists>l \<in> set layers. \<forall>row \<in> set rows. \<not> layer_present row l
      then Inl (ValueError ''R3 routed-experts capture is all zero for MoE layers'')
      else if \<exists>row \<in> set rows. \<exists>l \<in> set layers. \<not> layer_present row l
      then let fully_missing = filter (\<lambda>row. \<forall>l \<in> set layers. \<not> layer_present row l) rows in
        if \<exists>row \<in> set rows. row \<notin> set fully_missing \<and> (\<exists>l \<in> set layers. \<not> layer_present row l)
        then Inl (ValueError ''R3 routed-experts capture is all zero for token/layer pairs'')
        else if max 64 (length rows div 100) < length fully_missing
        then Inl (ValueError ''R3 sample has too many rows with no routing capture at all'')
        else Inr ()
      else Inr ())"

definition ids_out_of_range :: "int \<Rightarrow> nat list \<Rightarrow> expert_row list \<Rightarrow> bool" where
  "ids_out_of_range num_experts layers rows \<longleftrightarrow>
     (\<exists>row \<in> set rows. \<exists>l \<in> set layers. \<exists>x \<in> set (row ! l). x < 0 \<or> num_experts \<le> x)"

definition validate_routed_experts_tensor :: "replay_args \<Rightarrow> nat option \<Rightarrow> expert_tensor \<Rightarrow> unit result" where
  "validate_routed_experts_tensor args expected_rows experts =
     (if et_dims experts \<noteq> (ra_num_layers args, ra_moe_router_topk args)
      then Inl (ValueError ''Invalid rollout routed-experts shape for R3'')
      else if et_rows experts = [] then Inl (ValueError ''R3 sample has no routed-experts rows.'')
      else if (case expected_rows of None \<Rightarrow> False | Some n \<Rightarrow> length (et_rows experts) \<noteq> n)
      then Inl (ValueError ''R3 sample routed-experts rows differ from len(tokens)-1.'')
      else
        res_bind (if 1 < ra_moe_router_topk args then check_missing_routes (moe_layers args) (et_rows experts) else Inr ())
          (\<lambda>_. if ids_out_of_range (case ra_num_experts args of None \<Rightarrow> int32_max | Some n \<Rightarrow> n) (moe_layers args) (et_rows experts)
                then Inl (ValueError ''R3 sample contains routed expert ids outside the range'')
                else Inr ()))"

definition validate_routed_experts_value :: "straw \<Rightarrow> replay_args \<Rightarrow> nat option \<Rightarrow> expert_tensor stored \<Rightarrow> unit result" where
  "validate_routed_experts_value st args expected_rows v = (case v of
       Mem t \<Rightarrow> validate_routed_experts_tensor args expected_rows t
     | Ref r \<Rightarrow>
         if \<not> ref_validated r then validate_routed_experts_tensor args expected_rows (load_experts st r)
         else if length (ref_shape r) \<noteq> 3 \<or> drop 1 (ref_shape r) \<noteq> [ra_num_layers args, ra_moe_router_topk args] \<or> hd (ref_shape r) = 0
         then Inl (ValueError ''Invalid rollout routed-experts disk reference for R3'')
         else if (case expected_rows of None \<Rightarrow> False | Some n \<Rightarrow> hd (ref_shape r) \<noteq> n)
         then Inl (ValueError ''R3 sample routed-experts rows differ from len(tokens)-1.'')
         else Inr ())"

section \<open>The prefetcher\<close>

datatype stage = Forward | Backward

text \<open>A future of the executor: the load of one micro-batch, waiting in the queue, run by a worker, finished with a tensor or an
  exception, or cancelled before it ran. A micro-batch refers to its future by the future's number.\<close>

datatype future_state = Pending | Running | Finished "expert_row list result" | Cancelled

record load_future =
  fu_source :: nat
  fu_state :: future_state

record replay_microbatch =
  rm_values :: "expert_tensor stored list"
  rm_tokens :: "nat list"
  rm_consumer_count :: nat
  rm_future :: "nat option"
  rm_cpu_tensor :: "expert_row list option"
  rm_consumed_forward :: nat
  rm_consumed_backward :: nat

definition replay_microbatch_new :: "expert_tensor stored list \<Rightarrow> nat list \<Rightarrow> nat \<Rightarrow> replay_microbatch" where
  "replay_microbatch_new values tokens consumer_count = \<lparr>rm_values = values, rm_tokens = tokens,
     rm_consumer_count = consumer_count, rm_future = None, rm_cpu_tensor = None, rm_consumed_forward = 0, rm_consumed_backward = 0\<rparr>"

record prefetcher =
  pf_prefetch_microbatches :: nat
  pf_sources :: "replay_microbatch list"
  pf_release_stage :: stage
  pf_closed :: bool
  pf_futures :: "load_future list"

definition prefetcher_new :: "int \<Rightarrow> prefetcher" where
  "prefetcher_new n = \<lparr>pf_prefetch_microbatches = nat n, pf_sources = [], pf_release_stage = Forward, pf_closed = False, pf_futures = []\<rparr>"

definition pf_add :: "replay_microbatch \<Rightarrow> prefetcher \<Rightarrow> prefetcher" where
  "pf_add source p = p\<lparr>pf_sources := pf_sources p @ [source]\<rparr>"

text \<open>There is an executor when microbatches are prefetched and the prefetcher is open.\<close>

definition pf_executor :: "prefetcher \<Rightarrow> bool" where
  "pf_executor p \<longleftrightarrow> \<not> pf_closed p \<and> 0 < pf_prefetch_microbatches p"

definition update_source :: "nat \<Rightarrow> (replay_microbatch \<Rightarrow> replay_microbatch) \<Rightarrow> prefetcher \<Rightarrow> prefetcher" where
  "update_source i f p = p\<lparr>pf_sources := (pf_sources p)[i := f (pf_sources p ! i)]\<rparr>"

definition update_future :: "nat \<Rightarrow> future_state \<Rightarrow> prefetcher \<Rightarrow> prefetcher" where
  "update_future k st p = p\<lparr>pf_futures := (pf_futures p)[k := (pf_futures p ! k)\<lparr>fu_state := st\<rparr>]\<rparr>"

definition mb_prefetch :: "nat \<Rightarrow> prefetcher \<Rightarrow> prefetcher" where
  "mb_prefetch i p =
     (if rm_cpu_tensor (pf_sources p ! i) \<noteq> None \<or> rm_future (pf_sources p ! i) \<noteq> None then p
      else if pf_executor p
      then update_source i (\<lambda>s. s\<lparr>rm_future := Some (length (pf_futures p))\<rparr>)
        (p\<lparr>pf_futures := pf_futures p @ [\<lparr>fu_source = i, fu_state = Pending\<rparr>]\<rparr>)
      else p)"

definition pf_start :: "prefetcher \<Rightarrow> prefetcher" where
  "pf_start p = fold mb_prefetch [0..<min (length (pf_sources p)) (pf_prefetch_microbatches p)] p"

definition begin_pass :: "stage \<Rightarrow> prefetcher \<Rightarrow> prefetcher" where
  "begin_pass release_stage p = pf_start (p\<lparr>pf_release_stage := release_stage\<rparr>)"

definition prefetch_after :: "nat \<Rightarrow> prefetcher \<Rightarrow> prefetcher" where
  "prefetch_after i p = fold mb_prefetch [i + 1..<min (length (pf_sources p)) (i + 1 + pf_prefetch_microbatches p)] p"

text \<open>\<open>future.cancel()\<close> has no effect on a load that runs; the future is dropped in any case.\<close>

definition mb_release :: "nat \<Rightarrow> prefetcher \<Rightarrow> prefetcher" where
  "mb_release i p =
     (let p1 = update_source i (\<lambda>s. s\<lparr>rm_future := None, rm_cpu_tensor := None\<rparr>) p in
      case rm_future (pf_sources p ! i) of
        None \<Rightarrow> p1
      | Some k \<Rightarrow> if fu_state (pf_futures p1 ! k) = Pending then update_future k Cancelled p1 else p1)"

section \<open>Reading a layer\<close>

text \<open>The keyword arguments of the layout helper, the parallel state and the buffer it allocates.\<close>

record prepare_env =
  pe_straw :: straw
  pe_uninit :: "nat \<Rightarrow> expert_row list"
  pe_mpu :: parallel_state
  pe_num_experts :: nat
  pe_multiplier :: nat
  pe_sequence_parallel :: bool
  pe_allgather_cp :: bool

definition load_and_prepare :: "prepare_env \<Rightarrow> replay_microbatch \<Rightarrow> expert_row list result" where
  "load_and_prepare env m =
     prepare_routed_experts_for_routing_replay (pe_uninit env) (pe_mpu env) (map (load_stored (load_experts (pe_straw env))) (rm_values m))
       (rm_tokens m) (pe_num_experts env) (pe_multiplier env) (pe_sequence_parallel env) (pe_allgather_cp env)"

text \<open>The executor's workers, at most two, take the queue in the order of submission.\<close>

definition pf_workers :: "prefetcher \<Rightarrow> nat" where
  "pf_workers p = min 2 (pf_prefetch_microbatches p + 1)"

definition worker_take :: "prefetcher \<Rightarrow> prefetcher" where
  "worker_take p =
     (let with_state = (\<lambda>st. filter (\<lambda>k. fu_state (pf_futures p ! k) = st) [0..<length (pf_futures p)]) in
      if length (with_state Running) < pf_workers p
      then (case with_state Pending of [] \<Rightarrow> p | k # _ \<Rightarrow> update_future k Running p) else p)"

definition future_load :: "prepare_env \<Rightarrow> nat \<Rightarrow> prefetcher \<Rightarrow> expert_row list result" where
  "future_load env k p = load_and_prepare env (pf_sources p ! fu_source (pf_futures p ! k))"

definition worker_finish :: "prepare_env \<Rightarrow> nat \<Rightarrow> prefetcher \<Rightarrow> prefetcher" where
  "worker_finish env k p =
     (if k < length (pf_futures p) \<and> fu_state (pf_futures p ! k) = Running then update_future k (Finished (future_load env k p)) p else p)"

text \<open>While the training thread waits for \<open>future.result()\<close>, the workers run the queue up to that future. (That others run as
  well, or run before, is in the steps of \<open>worker_take\<close> and \<open>worker_finish\<close> between the operations.)\<close>

definition run_future :: "prepare_env \<Rightarrow> nat \<Rightarrow> prefetcher \<Rightarrow> prefetcher" where
  "run_future env k p =
     (if fu_state (pf_futures p ! k) \<in> {Pending, Running} then update_future k (Finished (future_load env k p)) p else p)"

definition future_result :: "prepare_env \<Rightarrow> nat \<Rightarrow> (prefetcher, expert_row list) op" where
  "future_result env k = (\<lambda>p. let p1 = fold (run_future env) [0..<k + 1] p in
     (p1, case fu_state (pf_futures p1 ! k) of Finished r \<Rightarrow> r | _ \<Rightarrow> Inl CancelledError))"

definition get_cpu_tensor :: "prepare_env \<Rightarrow> nat \<Rightarrow> (prefetcher, expert_row list) op" where
  "get_cpu_tensor env i = (\<lambda>p.
     case rm_cpu_tensor (pf_sources p ! i) of
       Some t \<Rightarrow> (prefetch_after i p, Inr t)
     | None \<Rightarrow>
        (case (case rm_future (pf_sources p ! i) of
             Some k \<Rightarrow> future_result env k p
           | None \<Rightarrow> (p, load_and_prepare env (pf_sources p ! i))) of
           (p1, Inl e) \<Rightarrow> (p1, Inl e)
         | (p1, Inr t) \<Rightarrow> (prefetch_after i (update_source i (\<lambda>s. s\<lparr>rm_cpu_tensor := Some t, rm_future := None\<rparr>) p1), Inr t)))"

text \<open>\<open>shutdown(wait=True, cancel_futures=True)\<close> cancels what waits and waits for what runs.\<close>

definition executor_shutdown :: "prepare_env \<Rightarrow> prefetcher \<Rightarrow> prefetcher" where
  "executor_shutdown env p = p\<lparr>pf_futures := map (\<lambda>f. case fu_state f of
       Pending \<Rightarrow> f\<lparr>fu_state := Cancelled\<rparr>
     | Running \<Rightarrow> f\<lparr>fu_state := Finished (load_and_prepare env (pf_sources p ! fu_source f))\<rparr>
     | _ \<Rightarrow> f) (pf_futures p)\<rparr>"

definition pf_close :: "prepare_env \<Rightarrow> prefetcher \<Rightarrow> prefetcher" where
  "pf_close env p =
     (if pf_closed p then p
      else let p1 = p\<lparr>pf_closed := True\<rparr>; p2 = if 0 < pf_prefetch_microbatches p1 then executor_shutdown env p1 else p1
        in fold mb_release [0..<length (pf_sources p2)] p2)"

definition consumed :: "stage \<Rightarrow> replay_microbatch \<Rightarrow> nat" where
  "consumed stage m = (case stage of Forward \<Rightarrow> rm_consumed_forward m | Backward \<Rightarrow> rm_consumed_backward m)"

definition set_consumed :: "stage \<Rightarrow> nat \<Rightarrow> replay_microbatch \<Rightarrow> replay_microbatch" where
  "set_consumed stage n m = (case stage of Forward \<Rightarrow> m\<lparr>rm_consumed_forward := n\<rparr> | Backward \<Rightarrow> m\<lparr>rm_consumed_backward := n\<rparr>)"

text \<open>\<open>cpu_tensor[:, layer_id]\<close>\<close>

definition layer_rows :: "nat \<Rightarrow> expert_row list \<Rightarrow> int list list result" where
  "layer_rows layer_id rows = res_map (\<lambda>row. py_nth row layer_id) rows"

definition layer_to_cuda :: "prepare_env \<Rightarrow> nat \<Rightarrow> nat \<Rightarrow> stage \<Rightarrow> (prefetcher, int list list) op" where
  "layer_to_cuda env i layer_id stage =
     op_bind (get_cpu_tensor env i) (\<lambda>cpu_tensor.
     op_bind (op_lift (layer_rows layer_id cpu_tensor)) (\<lambda>rows.
     op_bind (op_modify (update_source i (\<lambda>s. set_consumed stage (consumed stage s + 1) s))) (\<lambda>_.
     op_bind (op_modify (\<lambda>p. if consumed stage (pf_sources p ! i) = rm_consumer_count (pf_sources p ! i)
         then let p1 = update_source i (set_consumed stage 0) p in if stage = pf_release_stage p1 then mb_release i p1 else p1
         else p)) (\<lambda>_. op_return rows))))"

section \<open>What validation promises\<close>

text \<open>A row is captured when every MoE layer of it has a nonzero expert, and a hole when none has.\<close>

definition captured :: "nat list \<Rightarrow> expert_row \<Rightarrow> bool" where
  "captured layers row \<longleftrightarrow> (\<forall>l \<in> set layers. layer_present row l)"

definition hole :: "nat list \<Rightarrow> expert_row \<Rightarrow> bool" where
  "hole layers row \<longleftrightarrow> (\<forall>l \<in> set layers. \<not> layer_present row l)"

lemma check_missing_iff:
  assumes "rows \<noteq> []"
  shows "check_missing_routes layers rows = Inr () \<longleftrightarrow> layers = [] \<or>
    (\<exists>row \<in> set rows. captured layers row) \<and> (\<forall>row \<in> set rows. captured layers row \<or> hole layers row) \<and>
    length (filter (hole layers) rows) \<le> max 64 (length rows div 100)"
proof (cases "layers = []")
  case True
  then show ?thesis by (simp add: check_missing_routes_def)
next
  case False
  then obtain l0 where l0: "l0 \<in> set layers" by (cases layers) auto
  have excl: "\<not> (captured layers row \<and> hole layers row)" for row using l0 by (auto simp: captured_def hole_def)
  have holes: "filter (\<lambda>row. \<forall>l \<in> set layers. \<not> layer_present row l) rows = filter (hole layers) rows"
    by (rule filter_cong) (simp_all add: hole_def)
  show ?thesis
  proof (cases "\<exists>row \<in> set rows. \<exists>l \<in> set layers. \<not> layer_present row l")
    case True
    then show ?thesis using False l0
      unfolding check_missing_routes_def holes Let_def
      by (auto simp: not_less captured_def hole_def) (blast+)?
  next
    case all: False
    then have "filter (hole layers) rows = []" "\<forall>row \<in> set rows. captured layers row"
      using l0 by (auto simp: filter_empty_conv hole_def captured_def)
    moreover have "\<exists>row. row \<in> set rows" using assms by (cases rows) auto
    ultimately show ?thesis using all False by (auto simp: check_missing_routes_def captured_def)
  qed
qed

text \<open>C21: A capture is accepted for replay exactly when it has the model's shape, has rows, as many as are expected, every
  expert id of an MoE layer is in range, and, where several experts are chosen per token and there are MoE layers, some row
  routes every MoE layer and the other rows route either every MoE layer or none, the latter at most 64 or one percent
  of the rows. With one expert per token expert 0 cannot be told from a missing route, and holes are not looked for.\<close>

theorem validated_routes_complete:
  "validate_routed_experts_tensor args expected t = Inr () \<longleftrightarrow>
    et_dims t = (ra_num_layers args, ra_moe_router_topk args) \<and> et_rows t \<noteq> [] \<and>
    (case expected of None \<Rightarrow> True | Some n \<Rightarrow> length (et_rows t) = n) \<and>
    \<not> ids_out_of_range (case ra_num_experts args of None \<Rightarrow> int32_max | Some e \<Rightarrow> e) (moe_layers args) (et_rows t) \<and>
    (ra_moe_router_topk args \<le> 1 \<or> moe_layers args = [] \<or>
      (\<exists>row \<in> set (et_rows t). captured (moe_layers args) row) \<and>
      (\<forall>row \<in> set (et_rows t). captured (moe_layers args) row \<or> hole (moe_layers args) row) \<and>
      length (filter (hole (moe_layers args)) (et_rows t)) \<le> max 64 (length (et_rows t) div 100))"
proof (cases "et_rows t = []")
  case True
  then show ?thesis by (simp add: validate_routed_experts_tensor_def)
next
  case False
  from check_missing_iff [OF this, of "moe_layers args"] show ?thesis
    using False by (cases expected) (auto simp: validate_routed_experts_tensor_def res_bind_eq_Inr)
qed

section \<open>Frames of the prefetcher\<close>

text \<open>The part of a micro-batch no operation changes, and which determines what it loads.\<close>

definition source_key :: "replay_microbatch \<Rightarrow> expert_tensor stored list \<times> nat list \<times> nat" where
  "source_key m = (rm_values m, rm_tokens m, rm_consumer_count m)"

lemma load_and_prepare_cong: "source_key a = source_key b \<Longrightarrow> load_and_prepare env a = load_and_prepare env b"
  by (simp add: source_key_def load_and_prepare_def)

text \<open>A micro-batch holds no tensor but its own, and waits for no load but its own, which nobody has cancelled; a finished load
  has the result of loading on the spot.\<close>

definition source_valid :: "prepare_env \<Rightarrow> load_future list \<Rightarrow> nat \<Rightarrow> replay_microbatch \<Rightarrow> bool" where
  "source_valid env futures i m \<longleftrightarrow> (\<forall>t. rm_cpu_tensor m = Some t \<longrightarrow> load_and_prepare env m = Inr t) \<and>
     (\<forall>k. rm_future m = Some k \<longrightarrow> k < length futures \<and> fu_source (futures ! k) = i \<and> fu_state (futures ! k) \<noteq> Cancelled)"

definition future_valid :: "prepare_env \<Rightarrow> replay_microbatch list \<Rightarrow> load_future \<Rightarrow> bool" where
  "future_valid env ms f \<longleftrightarrow> fu_source f < length ms \<and> (\<forall>r. fu_state f = Finished r \<longrightarrow> r = load_and_prepare env (ms ! fu_source f))"

definition pf_ok :: "prepare_env \<Rightarrow> prefetcher \<Rightarrow> bool" where
  "pf_ok env p \<longleftrightarrow> (\<forall>i < length (pf_sources p). source_valid env (pf_futures p) i (pf_sources p ! i)) \<and>
     (\<forall>k < length (pf_futures p). future_valid env (pf_sources p) (pf_futures p ! k)) \<and> (pf_prefetch_microbatches p = 0 \<longrightarrow> pf_futures p = [])"

text \<open>\<open>pf_frame env p p'\<close>: from \<open>p\<close> to \<open>p'\<close> sources and settings stay, and tensors and futures stay valid.\<close>

definition pf_frame :: "prepare_env \<Rightarrow> prefetcher \<Rightarrow> prefetcher \<Rightarrow> bool" where
  "pf_frame env p p' \<longleftrightarrow> map source_key (pf_sources p') = map source_key (pf_sources p) \<and>
     pf_prefetch_microbatches p' = pf_prefetch_microbatches p \<and> (pf_ok env p \<longrightarrow> pf_ok env p')"

lemma pf_frame_refl [simp, intro]: "pf_frame env p p"
  by (simp add: pf_frame_def)

lemma pf_frame_trans [trans]: "pf_frame env p q \<Longrightarrow> pf_frame env q r \<Longrightarrow> pf_frame env p r"
  by (simp add: pf_frame_def)

lemma pf_frame_length: "pf_frame env p q \<Longrightarrow> length (pf_sources q) = length (pf_sources p)"
  unfolding pf_frame_def by (metis length_map)

lemma pf_frame_nth:
  assumes "pf_frame env p q" "i < length (pf_sources p)"
  shows "source_key (pf_sources q ! i) = source_key (pf_sources p ! i)"
  using assms pf_frame_length [OF assms(1)] unfolding pf_frame_def by (metis nth_map)

lemma pf_frame_load: "pf_frame env p q \<Longrightarrow> i < length (pf_sources p) \<Longrightarrow> load_and_prepare env (pf_sources q ! i) = load_and_prepare env (pf_sources p ! i)"
  by (rule load_and_prepare_cong) (rule pf_frame_nth)

text \<open>A change of one micro-batch, and of one future.\<close>

lemma update_source_frame:
  assumes "source_key (f (pf_sources p ! i)) = source_key (pf_sources p ! i)"
    and "pf_ok env p \<Longrightarrow> i < length (pf_sources p) \<Longrightarrow> source_valid env (pf_futures p) i (f (pf_sources p ! i))"
  shows "pf_frame env p (update_source i f p)"
proof (cases "i < length (pf_sources p)")
  case True
  let ?m = "pf_sources p ! i" and ?ms = "(pf_sources p)[i := f (pf_sources p ! i)]"
  have key: "map source_key ?ms = map source_key (pf_sources p)" using assms(1) True by (simp add: map_update list_update_same_conv)
  have "source_key (?ms ! j) = source_key (pf_sources p ! j)" for j using assms(1) True by (cases "j = i") simp_all
  then have load: "load_and_prepare env (?ms ! j) = load_and_prepare env (pf_sources p ! j)" for j by (rule load_and_prepare_cong)
  have "pf_ok env (update_source i f p)" if ok: "pf_ok env p"
  proof -
    have "source_valid env (pf_futures p) j (?ms ! j)" if "j < length (pf_sources p)" for j
      using ok that assms(2) [OF ok True] True by (cases "j = i") (simp_all add: pf_ok_def)
    then show ?thesis using ok load by (simp add: pf_ok_def update_source_def future_valid_def)
  qed
  with key show ?thesis by (simp add: pf_frame_def update_source_def)
next
  case False
  then have "update_source i f p = p" by (simp add: update_source_def list_update_beyond not_less)
  then show ?thesis by simp
qed

lemma update_future_sel [simp]:
  "pf_sources (update_future k st p) = pf_sources p" "pf_prefetch_microbatches (update_future k st p) = pf_prefetch_microbatches p"
  "pf_release_stage (update_future k st p) = pf_release_stage p" "pf_closed (update_future k st p) = pf_closed p"
  "length (pf_futures (update_future k st p)) = length (pf_futures p)"
  by (simp_all add: update_future_def)

lemma nth_update_future:
  "j < length (pf_futures p) \<Longrightarrow> pf_futures (update_future k st p) ! j = (if j = k then (pf_futures p ! k)\<lparr>fu_state := st\<rparr> else pf_futures p ! j)"
  by (simp add: update_future_def nth_list_update)

lemma update_future_frame:
  assumes "pf_ok env p \<Longrightarrow> k < length (pf_futures p) \<Longrightarrow> (\<forall>r. st = Finished r \<longrightarrow> r = future_load env k p) \<and>
      (st = Cancelled \<longrightarrow> (\<forall>i < length (pf_sources p). rm_future (pf_sources p ! i) \<noteq> Some k))"
  shows "pf_frame env p (update_future k st p)"
proof (cases "k < length (pf_futures p)")
  case True
  have "pf_ok env (update_future k st p)" if ok: "pf_ok env p"
  proof -
    have "source_valid env (pf_futures (update_future k st p)) i (pf_sources p ! i)" if "i < length (pf_sources p)" for i
      using ok that assms [OF ok True] unfolding pf_ok_def source_valid_def by (auto simp: nth_update_future)
    moreover have "future_valid env (pf_sources p) (pf_futures (update_future k st p) ! j)" if "j < length (pf_futures p)" for j
      using ok that assms [OF ok True] by (auto simp: pf_ok_def future_valid_def nth_update_future future_load_def)
    moreover have "pf_futures p = [] \<Longrightarrow> pf_futures (update_future k st p) = []" by (simp add: update_future_def)
    ultimately show ?thesis using ok by (simp add: pf_ok_def)
  qed
  then show ?thesis by (simp add: pf_frame_def)
next
  case False
  then have "update_future k st p = p" by (simp add: update_future_def list_update_beyond not_less)
  then show ?thesis by simp
qed

lemma fold_frame: "(\<And>i p. pf_frame env p (f i p)) \<Longrightarrow> pf_frame env p (fold f is p)"
  by (induction "is" arbitrary: p) (auto intro: pf_frame_trans)

lemma settings_frame:
  "pf_frame env p (p\<lparr>pf_release_stage := stage\<rparr>)" "pf_frame env p (p\<lparr>pf_closed := c\<rparr>)"
  by (simp_all add: pf_frame_def pf_ok_def)

lemma submit_frame:
  assumes "pf_prefetch_microbatches p \<noteq> 0" "i < length (pf_sources p)"
  shows "pf_frame env p (p\<lparr>pf_futures := pf_futures p @ [\<lparr>fu_source = i, fu_state = Pending\<rparr>]\<rparr>)"
  using assms by (auto simp: pf_frame_def pf_ok_def source_valid_def future_valid_def nth_append less_Suc_eq)

lemma update_source_out: "\<not> i < length (pf_sources p) \<Longrightarrow> update_source i f p = p"
  by (simp add: update_source_def list_update_beyond not_less)

lemma mb_prefetch_frame:
  assumes "i < length (pf_sources p)"
  shows "pf_frame env p (mb_prefetch i p)"
proof -
  let ?p1 = "p\<lparr>pf_futures := pf_futures p @ [\<lparr>fu_source = i, fu_state = Pending\<rparr>]\<rparr>"
  have "pf_frame env p (update_source i (\<lambda>s. s\<lparr>rm_future := Some (length (pf_futures p))\<rparr>) ?p1)" if "pf_executor p"
  proof (rule pf_frame_trans [OF submit_frame update_source_frame])
    show "pf_prefetch_microbatches p \<noteq> 0" using that by (simp add: pf_executor_def)
    assume "pf_ok env ?p1"
    then show "source_valid env (pf_futures ?p1) i ((pf_sources ?p1 ! i)\<lparr>rm_future := Some (length (pf_futures p))\<rparr>)"
      using assms load_and_prepare_cong [of "(pf_sources p ! i)\<lparr>rm_future := Some (length (pf_futures p))\<rparr>" "pf_sources p ! i"]
      by (auto simp: pf_ok_def source_valid_def source_key_def)
  qed (use assms in \<open>simp_all add: source_key_def\<close>)
  then show ?thesis by (simp add: mb_prefetch_def)
qed

lemma fold_prefetch_frame: "\<forall>i \<in> set is. i < length (pf_sources p) \<Longrightarrow> pf_frame env p (fold mb_prefetch is p)"
proof (induction "is" arbitrary: p)
  case (Cons i "is")
  have f: "pf_frame env p (mb_prefetch i p)" using Cons.prems by (intro mb_prefetch_frame) simp
  then show ?case using pf_frame_trans [OF f Cons.IH] Cons.prems pf_frame_length [OF f] by simp
qed simp

lemma prefetch_after_frame: "pf_frame env p (prefetch_after i p)"
  unfolding prefetch_after_def by (rule fold_prefetch_frame) auto

lemma pf_start_frame: "pf_frame env p (pf_start p)"
  unfolding pf_start_def by (rule fold_prefetch_frame) auto

lemma begin_pass_frame: "pf_frame env p (begin_pass stage p)"
  unfolding begin_pass_def by (rule pf_frame_trans [OF settings_frame(1) pf_start_frame])

text \<open>Only the micro-batch itself refers to its future, so a release cancels nobody else's load.\<close>

lemma mb_release_frame:
  assumes "i < length (pf_sources p)"
  shows "pf_frame env p (mb_release i p)"
proof -
  let ?f = "\<lambda>s. s\<lparr>rm_future := None, rm_cpu_tensor := None\<rparr>"
  have clear: "pf_frame env p (update_source i ?f p)"
    by (rule update_source_frame) (simp_all add: source_key_def source_valid_def)
  have "pf_frame env p (update_future k Cancelled (update_source i ?f p))" if k: "rm_future (pf_sources p ! i) = Some k" for k
  proof (cases "pf_ok env p")
    case True
    then have src: "fu_source (pf_futures p ! k) = i" using k assms by (auto simp: pf_ok_def source_valid_def)
    have "rm_future (pf_sources (update_source i ?f p) ! j) \<noteq> Some k" if "j < length (pf_sources p)" for j
      using True that src by (cases "j = i") (auto simp: pf_ok_def source_valid_def update_source_def)
    then show ?thesis by (intro pf_frame_trans [OF clear update_future_frame]) (auto simp: update_source_def)
  next
    case False
    then show ?thesis using clear by (auto simp: pf_frame_def)
  qed
  then show ?thesis using clear by (cases "rm_future (pf_sources p ! i)") (simp_all add: mb_release_def Let_def)
qed

lemma set_consumed_frame: "pf_frame env p (update_source i (\<lambda>s. set_consumed stage (g s) s) p)"
proof (rule update_source_frame)
  show key: "source_key (set_consumed stage (g (pf_sources p ! i)) (pf_sources p ! i)) = source_key (pf_sources p ! i)"
    by (cases stage) (simp_all add: set_consumed_def source_key_def)
  assume "pf_ok env p" "i < length (pf_sources p)"
  then have "source_valid env (pf_futures p) i (pf_sources p ! i)" by (simp add: pf_ok_def)
  moreover have "rm_cpu_tensor (set_consumed stage (g (pf_sources p ! i)) (pf_sources p ! i)) = rm_cpu_tensor (pf_sources p ! i)"
    "rm_future (set_consumed stage (g (pf_sources p ! i)) (pf_sources p ! i)) = rm_future (pf_sources p ! i)"
    by (cases stage; simp add: set_consumed_def)+
  ultimately show "source_valid env (pf_futures p) i (set_consumed stage (g (pf_sources p ! i)) (pf_sources p ! i))"
    using load_and_prepare_cong [OF key] by (simp add: source_valid_def)
qed

section \<open>The workers\<close>

lemma worker_take_frame: "pf_frame env p (worker_take p)"
  by (auto simp: worker_take_def Let_def split: list.split intro!: update_future_frame)

lemma worker_finish_frame: "pf_frame env p (worker_finish env k p)"
  by (auto simp: worker_finish_def intro!: update_future_frame)

lemma run_future_frame: "pf_frame env p (run_future env k p)"
  by (auto simp: run_future_def intro!: update_future_frame)

lemma run_future_state:
  assumes "k < length (pf_futures p)"
  shows "fu_state (pf_futures (run_future env k p) ! k) =
    (if fu_state (pf_futures p ! k) \<in> {Pending, Running} then Finished (future_load env k p) else fu_state (pf_futures p ! k))"
  using assms by (simp add: run_future_def nth_update_future)

lemma run_future_sel [simp]:
  "pf_sources (run_future env k p) = pf_sources p" "length (pf_futures (run_future env k p)) = length (pf_futures p)"
  "pf_release_stage (run_future env k p) = pf_release_stage p" "pf_prefetch_microbatches (run_future env k p) = pf_prefetch_microbatches p"
  "pf_closed (run_future env k p) = pf_closed p"
  by (simp_all add: run_future_def)

lemma fold_run_sel [simp]:
  "pf_sources (fold (run_future env) ks p) = pf_sources p" "length (pf_futures (fold (run_future env) ks p)) = length (pf_futures p)"
  "pf_release_stage (fold (run_future env) ks p) = pf_release_stage p"
  "pf_prefetch_microbatches (fold (run_future env) ks p) = pf_prefetch_microbatches p" "pf_closed (fold (run_future env) ks p) = pf_closed p"
  by (induction ks arbitrary: p) simp_all

lemma fold_run_frame: "pf_frame env p (fold (run_future env) ks p)"
  by (rule fold_frame) (rule run_future_frame)

lemma future_result_sel [simp]:
  "pf_sources (fst (future_result env k p)) = pf_sources p" "pf_release_stage (fst (future_result env k p)) = pf_release_stage p"
  "pf_prefetch_microbatches (fst (future_result env k p)) = pf_prefetch_microbatches p" "pf_closed (fst (future_result env k p)) = pf_closed p"
  by (simp_all add: future_result_def Let_def)

text \<open>Waiting for the future of a micro-batch gives what loading it on the spot gives.\<close>

lemma future_result_returns:
  assumes ok: "pf_ok env p" and i: "i < length (pf_sources p)" and k: "rm_future (pf_sources p ! i) = Some k"
  shows "snd (future_result env k p) = load_and_prepare env (pf_sources p ! i) \<and> pf_frame env p (fst (future_result env k p))"
proof -
  define q where "q = fold (run_future env) [0..<k] p"
  have q: "pf_frame env p q" unfolding q_def by (rule fold_run_frame)
  have "pf_ok env q" using q ok by (simp add: pf_frame_def)
  then have "source_valid env (pf_futures q) i (pf_sources q ! i)" using i by (simp add: pf_ok_def q_def)
  then have f: "k < length (pf_futures q)" "fu_source (pf_futures q ! k) = i" "fu_state (pf_futures q ! k) \<noteq> Cancelled"
    using k by (simp_all add: source_valid_def q_def)
  then have "future_valid env (pf_sources q) (pf_futures q ! k)" using \<open>pf_ok env q\<close> by (simp add: pf_ok_def)
  then have "fu_state (pf_futures (run_future env k q) ! k) = Finished (load_and_prepare env (pf_sources q ! i))"
    using f by (cases "fu_state (pf_futures q ! k)") (simp_all add: run_future_state future_valid_def future_load_def)
  moreover have "fold (run_future env) [0..<k + 1] p = run_future env k q" by (simp add: q_def)
  ultimately show ?thesis
    using pf_frame_trans [OF q run_future_frame] by (simp add: future_result_def Let_def q_def)
qed
section \<open>Reading a layer\<close>

lemma get_cpu_tensor_returns:
  assumes "pf_ok env p" "i < length (pf_sources p)"
  shows "snd (get_cpu_tensor env i p) = load_and_prepare env (pf_sources p ! i) \<and> pf_frame env p (fst (get_cpu_tensor env i p))"
proof (cases "rm_cpu_tensor (pf_sources p ! i)")
  case (Some t)
  then have "load_and_prepare env (pf_sources p ! i) = Inr t" using assms by (simp add: pf_ok_def source_valid_def)
  with Some show ?thesis by (simp add: get_cpu_tensor_def prefetch_after_frame)
next
  case None
  define got where "got = (case rm_future (pf_sources p ! i) of Some k \<Rightarrow> future_result env k p | None \<Rightarrow> (p, load_and_prepare env (pf_sources p ! i)))"
  have got: "snd got = load_and_prepare env (pf_sources p ! i)" "pf_frame env p (fst got)" "pf_sources (fst got) = pf_sources p"
    using future_result_returns [OF assms] by (auto simp: got_def split: option.split)
  obtain p1 r where pr: "got = (p1, r)" by fastforce
  let ?f = "\<lambda>t s. s\<lparr>rm_cpu_tensor := Some t, rm_future := None\<rparr>"
  have "pf_frame env p (prefetch_after i (update_source i (?f t) p1))" if t: "load_and_prepare env (pf_sources p ! i) = Inr t" for t
  proof -
    have "load_and_prepare env (?f t (pf_sources p ! i)) = Inr t"
      using t load_and_prepare_cong [of "?f t (pf_sources p ! i)" "pf_sources p ! i"] by (simp add: source_key_def)
    then have "pf_frame env p1 (update_source i (?f t) p1)"
      using got(3) pr by (intro update_source_frame) (simp_all add: source_key_def source_valid_def)
    then show ?thesis using got(2) pr by (auto intro: pf_frame_trans prefetch_after_frame)
  qed
  with None got pr show ?thesis
    by (cases "load_and_prepare env (pf_sources p ! i)") (simp_all add: get_cpu_tensor_def got_def [symmetric])
qed

text \<open>The two statements after the layer has been read: counting it, and releasing a consumed micro-batch.\<close>

definition count_read :: "nat \<Rightarrow> stage \<Rightarrow> prefetcher \<Rightarrow> prefetcher" where
  "count_read i stage p =
     (let q = update_source i (\<lambda>s. set_consumed stage (consumed stage s + 1) s) p in
      if consumed stage (pf_sources q ! i) = rm_consumer_count (pf_sources q ! i)
      then let r = update_source i (set_consumed stage 0) q in if stage = pf_release_stage r then mb_release i r else r
      else q)"

lemma layer_to_cuda_eq:
  "layer_to_cuda env i l stage p =
     (case get_cpu_tensor env i p of
        (q, Inl e) \<Rightarrow> (q, Inl e)
      | (q, Inr t) \<Rightarrow> (case layer_rows l t of Inl e \<Rightarrow> (q, Inl e) | Inr rows \<Rightarrow> (count_read i stage q, Inr rows)))"
  by (simp add: layer_to_cuda_def op_bind_def op_lift_def op_modify_def op_return_def count_read_def Let_def
      split: prod.split sum.split)

lemma update_source_sel [simp]:
  "length (pf_sources (update_source i f p)) = length (pf_sources p)"
  "pf_release_stage (update_source i f p) = pf_release_stage p"
  "pf_prefetch_microbatches (update_source i f p) = pf_prefetch_microbatches p"
  "pf_futures (update_source i f p) = pf_futures p" "pf_closed (update_source i f p) = pf_closed p"
  by (simp_all add: update_source_def)

lemma count_read_frame:
  assumes "i < length (pf_sources p)"
  shows "pf_frame env p (count_read i stage p)"
proof -
  let ?q = "update_source i (\<lambda>s. set_consumed stage (consumed stage s + 1) s) p"
  let ?r = "update_source i (set_consumed stage 0) ?q"
  have q: "pf_frame env p ?q" by (rule set_consumed_frame)
  have r: "pf_frame env p ?r" by (rule pf_frame_trans [OF q]) (rule set_consumed_frame)
  have "pf_frame env p (mb_release i ?r)" using assms by (intro pf_frame_trans [OF r mb_release_frame]) simp
  with q r show ?thesis unfolding count_read_def Let_def by (auto simp only: split: if_split)
qed

lemma layer_to_cuda_returns:
  assumes "pf_ok env p" "i < length (pf_sources p)"
  shows "snd (layer_to_cuda env i l stage p) = res_bind (load_and_prepare env (pf_sources p ! i)) (layer_rows l) \<and>
    pf_frame env p (fst (layer_to_cuda env i l stage p))"
proof -
  obtain q r where q: "get_cpu_tensor env i p = (q, r)" by (cases "get_cpu_tensor env i p")
  with get_cpu_tensor_returns [OF assms] have r: "load_and_prepare env (pf_sources p ! i) = r" and f: "pf_frame env p q" by simp_all
  have "pf_frame env p (count_read i stage q)" using assms(2) pf_frame_length [OF f] by (intro pf_frame_trans [OF f count_read_frame]) simp
  with q f show ?thesis unfolding layer_to_cuda_eq r by (simp split: sum.split)
qed

section \<open>Closing\<close>

definition settled :: "load_future \<Rightarrow> bool" where
  "settled f \<longleftrightarrow> fu_state f \<noteq> Pending \<and> fu_state f \<noteq> Running"

definition idle :: "replay_microbatch \<Rightarrow> replay_microbatch" where
  "idle m = m\<lparr>rm_future := None, rm_cpu_tensor := None\<rparr>"

lemma source_key_idle [simp]: "source_key (idle m) = source_key m"
  by (simp add: idle_def source_key_def)

lemma mb_release_sel [simp]:
  "pf_sources (mb_release i p) = (pf_sources p)[i := idle (pf_sources p ! i)]" "pf_release_stage (mb_release i p) = pf_release_stage p"
  "pf_prefetch_microbatches (mb_release i p) = pf_prefetch_microbatches p" "pf_closed (mb_release i p) = pf_closed p"
  "length (pf_futures (mb_release i p)) = length (pf_futures p)"
  by (auto simp: mb_release_def Let_def update_source_def idle_def split: option.split)

lemma fold_release_sources:
  assumes "k \<le> length (pf_sources p)"
  shows "pf_sources (fold mb_release [0..<k] p) = map idle (take k (pf_sources p)) @ drop k (pf_sources p) \<and>
    pf_prefetch_microbatches (fold mb_release [0..<k] p) = pf_prefetch_microbatches p"
  using assms
proof (induction k)
  case (Suc k)
  then show ?case
    by (simp add: list_update_append take_Suc_conv_app_nth Cons_nth_drop_Suc [symmetric] nth_append)
qed simp

lemma release_settled:
  assumes "\<forall>f \<in> set (pf_futures p). settled f" "\<And>k. rm_future (pf_sources p ! i) = Some k \<Longrightarrow> k < length (pf_futures p)"
  shows "pf_futures (mb_release i p) = pf_futures p"
proof -
  have "fu_state (pf_futures p ! k) \<noteq> Pending" if "rm_future (pf_sources p ! i) = Some k" for k
    using assms(1) nth_mem [OF assms(2) [OF that]] by (simp add: settled_def)
  then show ?thesis by (auto simp: mb_release_def Let_def split: option.split)
qed

lemma fold_release_settled:
  assumes "\<forall>f \<in> set (pf_futures p). settled f" "\<forall>i < length (pf_sources p). \<forall>k. rm_future (pf_sources p ! i) = Some k \<longrightarrow> k < length (pf_futures p)"
    and "j \<le> length (pf_sources p)"
  shows "pf_futures (fold mb_release [0..<j] p) = pf_futures p"
  using assms(3)
proof (induction j)
  case (Suc j)
  let ?q = "fold mb_release [0..<j] p"
  have q: "pf_futures ?q = pf_futures p" using Suc by simp
  have "pf_sources ?q ! j = pf_sources p ! j" using Suc.prems fold_release_sources [of j p] by (simp add: nth_append)
  then have "pf_futures (mb_release j ?q) = pf_futures ?q"
    using assms(1,2) Suc_le_lessD [OF Suc.prems] q by (intro release_settled) auto
  then show ?case using q by simp
qed simp

lemma shutdown_sel [simp]:
  "pf_sources (executor_shutdown env p) = pf_sources p" "pf_prefetch_microbatches (executor_shutdown env p) = pf_prefetch_microbatches p"
  "length (pf_futures (executor_shutdown env p)) = length (pf_futures p)"
  by (simp_all add: executor_shutdown_def)

lemma shutdown_settles: "\<forall>f \<in> set (pf_futures (executor_shutdown env p)). settled f"
  by (auto simp: executor_shutdown_def settled_def split: future_state.split)

lemma shutdown_valid:
  assumes "future_valid env (pf_sources p) (pf_futures p ! k)" "k < length (pf_futures p)"
  shows "future_valid env (pf_sources p) (pf_futures (executor_shutdown env p) ! k)"
  using assms by (auto simp: executor_shutdown_def future_valid_def split: future_state.split)

text \<open>Closing releases every micro-batch and leaves no load unfinished.\<close>

lemma pf_close_open:
  assumes ok: "pf_ok env p" and opened: "\<not> pf_closed p"
  shows "pf_sources (pf_close env p) = map idle (pf_sources p) \<and> (\<forall>f \<in> set (pf_futures (pf_close env p)). settled f) \<and> pf_frame env p (pf_close env p)"
proof -
  define p1 where "p1 = p\<lparr>pf_closed := True\<rparr>"
  define p2 where "p2 = (if 0 < pf_prefetch_microbatches p1 then executor_shutdown env p1 else p1)"
  have p1: "pf_sources p1 = pf_sources p" "pf_futures p1 = pf_futures p" "pf_prefetch_microbatches p1 = pf_prefetch_microbatches p" by (simp_all add: p1_def)
  have p2: "pf_sources p2 = pf_sources p" "length (pf_futures p2) = length (pf_futures p)" "pf_prefetch_microbatches p2 = pf_prefetch_microbatches p"
    by (simp_all add: p2_def p1)
  have settled: "\<forall>f \<in> set (pf_futures p2). settled f"
    using ok shutdown_settles [of env p1] p1 by (auto simp: p2_def pf_ok_def)
  have close: "pf_close env p = fold mb_release [0..<length (pf_sources p2)] p2"
    using opened by (simp add: pf_close_def Let_def p1_def p2_def)
  have src: "pf_sources (pf_close env p) = map idle (pf_sources p)" "pf_prefetch_microbatches (pf_close env p) = pf_prefetch_microbatches p"
    unfolding close using fold_release_sources [of "length (pf_sources p2)" p2] p2 by simp_all
  have fut: "pf_futures (pf_close env p) = pf_futures p2"
    unfolding close using ok p2 settled by (intro fold_release_settled) (auto simp: pf_ok_def source_valid_def)
  have "future_valid env (pf_sources p) (pf_futures p2 ! k)" if "k < length (pf_futures p)" for k
    using ok that shutdown_valid [of env p1 k] p1 by (auto simp: pf_ok_def p2_def)
  then have "future_valid env (map idle (pf_sources p)) (pf_futures p2 ! k)" if "k < length (pf_futures p)" for k
    using that load_and_prepare_cong [OF source_key_idle] by (auto simp: future_valid_def)
  moreover have "source_valid env (pf_futures p2) i (idle m)" for i m by (simp add: source_valid_def idle_def)
  moreover have "pf_prefetch_microbatches p = 0 \<Longrightarrow> pf_futures p2 = []" using ok by (simp add: pf_ok_def p2_def p1)
  ultimately have "pf_ok env (pf_close env p)" using p2 by (simp add: pf_ok_def src fut)
  then show ?thesis using settled fut src by (simp add: pf_frame_def comp_def)
qed
section \<open>What is loaded ahead, and what is released\<close>

text \<open>The micro-batches that hold a tensor or have a load submitted.\<close>

definition busy :: "prefetcher \<Rightarrow> nat set" where
  "busy p = {i. i < length (pf_sources p) \<and> (rm_cpu_tensor (pf_sources p ! i) \<noteq> None \<or> rm_future (pf_sources p ! i) \<noteq> None)}"

text \<open>Prefetching and loading change no counter and no setting, and only make listed sources busy.\<close>

definition only_loads :: "nat set \<Rightarrow> prefetcher \<Rightarrow> prefetcher \<Rightarrow> bool" where
  "only_loads I p p' \<longleftrightarrow> length (pf_sources p') = length (pf_sources p) \<and> busy p \<subseteq> busy p' \<and> busy p' \<subseteq> busy p \<union> I \<and>
     pf_release_stage p' = pf_release_stage p \<and> pf_prefetch_microbatches p' = pf_prefetch_microbatches p \<and> pf_closed p' = pf_closed p \<and>
     (\<forall>i < length (pf_sources p). (\<forall>st. consumed st (pf_sources p' ! i) = consumed st (pf_sources p ! i)) \<and>
        rm_consumer_count (pf_sources p' ! i) = rm_consumer_count (pf_sources p ! i))"

lemma only_loads_refl [simp, intro]: "only_loads I p p"
  by (simp add: only_loads_def)

lemma only_loads_trans:
  assumes "only_loads I p q" "only_loads J q r" "I \<union> J \<subseteq> K"
  shows "only_loads K p r"
proof -
  have "busy r \<subseteq> busy p \<union> K" "busy p \<subseteq> busy r" using assms unfolding only_loads_def by blast+
  then show ?thesis using assms(1,2) by (simp add: only_loads_def)
qed

lemma nth_update_source:
  assumes "j < length (pf_sources p)"
  shows "pf_sources (update_source i f p) ! j = (if j = i then f (pf_sources p ! i) else pf_sources p ! j)"
  using assms by (cases "j = i") (simp_all add: update_source_def)

lemma mb_prefetch_only_loads: "only_loads {i} p (mb_prefetch i p)"
  by (auto simp: mb_prefetch_def only_loads_def busy_def nth_update_source consumed_def split: stage.split)

lemma fold_prefetch_only_loads: "only_loads (set is) p (fold mb_prefetch is p)"
proof (induction "is" arbitrary: p)
  case (Cons i "is")
  from only_loads_trans [OF mb_prefetch_only_loads Cons.IH, of i "set (i # is)"] show ?case by auto
qed simp

text \<open>While the executor is open, prefetching makes every listed source busy.\<close>

lemma mb_prefetch_busy: "pf_executor p \<Longrightarrow> i < length (pf_sources p) \<Longrightarrow> i \<in> busy (mb_prefetch i p)"
  by (auto simp: mb_prefetch_def busy_def update_source_def)

lemma only_loads_executor: "only_loads I p q \<Longrightarrow> pf_executor q = pf_executor p"
  by (simp add: only_loads_def pf_executor_def)

lemma fold_prefetch_busy:
  "pf_executor p \<Longrightarrow> \<forall>i \<in> set is. i < length (pf_sources p) \<Longrightarrow> set is \<subseteq> busy (fold mb_prefetch is p)"
proof (induction "is" arbitrary: p)
  case (Cons i "is")
  note one = mb_prefetch_only_loads [of i p]
  have "pf_executor (mb_prefetch i p)" "\<forall>i \<in> set is. i < length (pf_sources (mb_prefetch i p))"
    using Cons.prems only_loads_executor [OF one] mb_prefetch_only_loads by (auto simp: only_loads_def)
  moreover have len: "length (pf_sources (mb_prefetch i p)) = length (pf_sources p)" using one by (simp add: only_loads_def)
  ultimately have "set is \<subseteq> busy (fold mb_prefetch is (mb_prefetch i p))" using Cons.prems by (intro Cons.IH) simp_all
  moreover have "i \<in> busy (fold mb_prefetch is (mb_prefetch i p))"
    using mb_prefetch_busy [of p i] Cons.prems fold_prefetch_only_loads [of "is" "mb_prefetch i p"] by (auto simp: only_loads_def)
  ultimately show ?case by simp
qed simp

lemma begin_pass_busy: "pf_executor p \<Longrightarrow> {..<min (length (pf_sources p)) (pf_prefetch_microbatches p)} \<subseteq> busy (begin_pass stage p)"
  using fold_prefetch_busy [of "p\<lparr>pf_release_stage := stage\<rparr>" "[0..<min (length (pf_sources p)) (pf_prefetch_microbatches p)]"]
  by (auto simp: begin_pass_def pf_start_def pf_executor_def)

lemma future_result_only_loads: "only_loads {i} p (fst (future_result env k p))"
  by (auto simp: only_loads_def busy_def)

lemma cache_only_loads: "only_loads {i} p (update_source i (\<lambda>s. s\<lparr>rm_cpu_tensor := Some t, rm_future := None\<rparr>) p)"
  by (auto simp: only_loads_def busy_def nth_update_source consumed_def split: stage.split)

lemma get_cpu_tensor_cases:
  assumes "get_cpu_tensor env i p = (q, r)"
  obtains p1 where "only_loads {i} p p1" "(\<exists>e. r = Inl e) \<and> q = p1 \<or> (\<exists>t. r = Inr t) \<and> q = prefetch_after i p1"
proof (cases "rm_cpu_tensor (pf_sources p ! i)")
  case (Some t)
  then show ?thesis using assms that [of p] by (auto simp: get_cpu_tensor_def)
next
  case None
  define got where "got = (case rm_future (pf_sources p ! i) of Some k \<Rightarrow> future_result env k p | None \<Rightarrow> (p, load_and_prepare env (pf_sources p ! i)))"
  obtain p1 r1 where pr: "got = (p1, r1)" by fastforce
  have p1: "only_loads {i} p p1"
    using arg_cong [OF pr, of fst] future_result_only_loads by (auto simp: got_def split: option.splits)
  show ?thesis
  proof (cases r1)
    case (Inl e)
    then have "q = p1" "r = Inl e" using assms None pr by (simp_all add: get_cpu_tensor_def got_def [symmetric])
    then show ?thesis using p1 that [of p1] by blast
  next
    case (Inr t)
    let ?p2 = "update_source i (\<lambda>s. s\<lparr>rm_cpu_tensor := Some t, rm_future := None\<rparr>) p1"
    have "q = prefetch_after i ?p2" "r = Inr t" using assms None pr Inr by (simp_all add: get_cpu_tensor_def got_def [symmetric])
    moreover have "only_loads {i} p ?p2" using only_loads_trans [OF p1 cache_only_loads, of i "{i}"] by simp
    ultimately show ?thesis using that [of ?p2] by blast
  qed
qed

lemma prefetch_after_only_loads: "only_loads {i + 1..<i + 1 + pf_prefetch_microbatches p} p (prefetch_after i p)"
  using only_loads_trans [OF fold_prefetch_only_loads only_loads_refl, of "[i + 1..<min (length (pf_sources p)) (i + 1 + pf_prefetch_microbatches p)]" "{}"]
  by (auto simp: prefetch_after_def)

lemma get_cpu_tensor_only_loads:
  assumes "get_cpu_tensor env i p = (q, r)"
  shows "only_loads {i..<i + 1 + pf_prefetch_microbatches p} p q"
proof -
  obtain p1 where p1: "only_loads {i} p p1" "(\<exists>e. r = Inl e) \<and> q = p1 \<or> (\<exists>t. r = Inr t) \<and> q = prefetch_after i p1"
    using get_cpu_tensor_cases [OF assms] by blast
  have "pf_prefetch_microbatches p1 = pf_prefetch_microbatches p" using p1(1) by (simp add: only_loads_def)
  then have "only_loads {i..<i + 1 + pf_prefetch_microbatches p} p (prefetch_after i p1)"
    using only_loads_trans [OF p1(1) prefetch_after_only_loads] by auto
  moreover have "only_loads {i..<i + 1 + pf_prefetch_microbatches p} p p1" using only_loads_trans [OF p1(1) only_loads_refl, of "{}"] by auto
  ultimately show ?thesis using p1(2) by blast
qed

lemma get_cpu_tensor_window:
  assumes "get_cpu_tensor env i p = (q, Inr t)" "pf_executor p"
  shows "{i + 1..<min (length (pf_sources p)) (i + 1 + pf_prefetch_microbatches p)} \<subseteq> busy q"
proof -
  obtain p1 where p1: "only_loads {i} p p1" "q = prefetch_after i p1"
    using get_cpu_tensor_cases [OF assms(1)] by (metis Inl_Inr_False)
  have "length (pf_sources p1) = length (pf_sources p)" "pf_prefetch_microbatches p1 = pf_prefetch_microbatches p" "pf_executor p1"
    using p1(1) assms(2) only_loads_executor [OF p1(1)] by (simp_all add: only_loads_def)
  then show ?thesis
    using fold_prefetch_busy [of p1 "[i + 1..<min (length (pf_sources p)) (i + 1 + pf_prefetch_microbatches p)]"] p1(2)
    by (simp add: prefetch_after_def)
qed

text \<open>The last of the consumers of a stage resets the counter, and frees the micro-batch if the pass releases in that stage.\<close>

lemma count_read_effect:
  fixes stage :: stage
  assumes "k < length (pf_sources p)"
  defines "last_read \<equiv> consumed stage (pf_sources p ! k) + 1 = rm_consumer_count (pf_sources p ! k)"
  shows "busy (count_read k stage p) = busy p - (if last_read \<and> stage = pf_release_stage p then {k} else {}) \<and>
    pf_release_stage (count_read k stage p) = pf_release_stage p \<and>
    length (pf_sources (count_read k stage p)) = length (pf_sources p) \<and>
    pf_prefetch_microbatches (count_read k stage p) = pf_prefetch_microbatches p \<and>
    (\<forall>i < length (pf_sources p). consumed stage (pf_sources (count_read k stage p) ! i) =
       (if i \<noteq> k then consumed stage (pf_sources p ! i) else if last_read then 0 else consumed stage (pf_sources p ! k) + 1))"
  using assms
  by (cases stage) (auto simp: count_read_def Let_def busy_def nth_update_source nth_list_update consumed_def set_consumed_def idle_def split: if_splits)
section \<open>Reachable prefetchers\<close>

text \<open>The operations of the training thread, in any order, and between them the steps of the workers.\<close>

inductive pf_reachable :: "prepare_env \<Rightarrow> prefetcher \<Rightarrow> bool" for env where
  new: "pf_reachable env (prefetcher_new n)"
| add: "pf_reachable env p \<Longrightarrow> pf_reachable env (pf_add (replay_microbatch_new values tokens c) p)"
| begin_p: "pf_reachable env p \<Longrightarrow> pf_reachable env (begin_pass stage p)"
| start: "pf_reachable env p \<Longrightarrow> pf_reachable env (pf_start p)"
| read: "pf_reachable env p \<Longrightarrow> i < length (pf_sources p) \<Longrightarrow> pf_reachable env (fst (layer_to_cuda env i l stage p))"
| release: "pf_reachable env p \<Longrightarrow> i < length (pf_sources p) \<Longrightarrow> pf_reachable env (mb_release i p)"
| close: "pf_reachable env p \<Longrightarrow> pf_reachable env (pf_close env p)"
| take: "pf_reachable env p \<Longrightarrow> pf_reachable env (worker_take p)"
| finish: "pf_reachable env p \<Longrightarrow> pf_reachable env (worker_finish env k p)"

lemma pf_add_ok:
  assumes "pf_ok env p"
  shows "pf_ok env (pf_add (replay_microbatch_new values tokens c) p)"
proof -
  let ?m = "replay_microbatch_new values tokens c"
  have "source_valid env (pf_futures p) i ((pf_sources p @ [?m]) ! i)" if "i < Suc (length (pf_sources p))" for i
  proof (cases "i < length (pf_sources p)")
    case True
    then show ?thesis using assms by (simp add: pf_ok_def nth_append)
  next
    case False
    then have "i = length (pf_sources p)" using that by simp
    then show ?thesis by (simp add: source_valid_def replay_microbatch_new_def)
  qed
  moreover have "future_valid env (pf_sources p @ [?m]) f" if "future_valid env (pf_sources p) f" for f
    using that by (auto simp: future_valid_def nth_append)
  ultimately show ?thesis using assms by (simp add: pf_ok_def pf_add_def)
qed

lemma pf_reachable_ok: "pf_reachable env p \<Longrightarrow> pf_ok env p"
proof (induction rule: pf_reachable.induct)
  case (new n)
  show ?case by (simp add: prefetcher_new_def pf_ok_def)
next
  case (add p)
  then show ?case by (intro pf_add_ok)
next
  case (begin_p p stage)
  then show ?case using begin_pass_frame by (simp add: pf_frame_def)
next
  case (start p)
  then show ?case using pf_start_frame by (simp add: pf_frame_def)
next
  case (read p i l stage)
  then show ?case using layer_to_cuda_returns [of env p i l stage] by (simp add: pf_frame_def)
next
  case (release p i)
  then show ?case using mb_release_frame by (simp add: pf_frame_def)
next
  case (close p)
  then show ?case using pf_close_open [of env p] by (cases "pf_closed p") (simp_all add: pf_frame_def pf_close_def)
next
  case (take p)
  then show ?case using worker_take_frame by (simp add: pf_frame_def)
next
  case (finish p k)
  then show ?case using worker_finish_frame by (simp add: pf_frame_def)
qed

text \<open>C22: Prefetching is transparent, and does what it is for. However micro-batches were added, prefetched, read, released and
  closed before, and whatever the workers have run of the queue, reading a layer returns what preparing the micro-batch on
  the spot would give, or raises the exception that raises, never a cancellation. While the
  prefetcher is open and prefetches, after a successful load the next micro-batches of the window are loaded or submitted, and
  beginning a pass submits its first window. After a successful read by the last consumer of the stage that releases, the
  micro-batch is freed. Closing an open prefetcher frees every micro-batch and leaves no load waiting or running.\<close>

theorem prefetched_layer_correct:
  assumes "pf_reachable env p" "i < length (pf_sources p)" "layer_to_cuda env i l stage p = (p', r)"
  shows "r = res_bind (load_and_prepare env (pf_sources p ! i)) (layer_rows l) \<and>
    (load_and_prepare env (pf_sources p ! i) = Inr t \<longrightarrow> pf_executor p \<longrightarrow>
      {i + 1..<min (length (pf_sources p)) (i + 1 + pf_prefetch_microbatches p)} \<subseteq> busy p') \<and>
    (r = Inr rows \<longrightarrow> consumed stage (pf_sources p ! i) + 1 = rm_consumer_count (pf_sources p ! i) \<longrightarrow> stage = pf_release_stage p \<longrightarrow> i \<notin> busy p') \<and>
    (pf_executor p \<longrightarrow> {..<min (length (pf_sources p)) (pf_prefetch_microbatches p)} \<subseteq> busy (begin_pass stage p)) \<and>
    (\<not> pf_closed p \<longrightarrow> busy (pf_close env p) = {} \<and> (\<forall>f \<in> set (pf_futures (pf_close env p)). fu_state f \<notin> {Pending, Running}))"
proof -
  note ok = pf_reachable_ok [OF assms(1)]
  have r: "r = res_bind (load_and_prepare env (pf_sources p ! i)) (layer_rows l)"
    using layer_to_cuda_returns [OF ok assms(2), of l stage] assms(3) by simp
  obtain q g where q: "get_cpu_tensor env i p = (q, g)" by fastforce
  have g: "g = load_and_prepare env (pf_sources p ! i)" using get_cpu_tensor_returns [OF ok assms(2)] q by simp
  have loads: "only_loads {i..<i + 1 + pf_prefetch_microbatches p} p q" by (rule get_cpu_tensor_only_loads [OF q])
  have iq: "i < length (pf_sources q)" using loads assms(2) by (simp add: only_loads_def)
  have p': "p' = q \<or> p' = count_read i stage q \<and> (\<exists>t. g = Inr t)" "\<exists>rows. r = Inr rows \<Longrightarrow> p' = count_read i stage q"
    using assms(3) q by (auto simp: layer_to_cuda_eq split: sum.splits)
  have "{i + 1..<min (length (pf_sources p)) (i + 1 + pf_prefetch_microbatches p)} \<subseteq> busy p'"
    if "load_and_prepare env (pf_sources p ! i) = Inr t" "pf_executor p"
    using get_cpu_tensor_window [of env i p q t] q g that p'(1) count_read_effect [OF iq, of stage] by auto
  moreover have "i \<notin> busy p'" if "r = Inr rows" "consumed stage (pf_sources p ! i) + 1 = rm_consumer_count (pf_sources p ! i)" "stage = pf_release_stage p"
    using p'(2) that count_read_effect [OF iq, of stage] loads assms(2) by (auto simp: only_loads_def)
  moreover have "busy (pf_close env p) = {} \<and> (\<forall>f \<in> set (pf_futures (pf_close env p)). fu_state f \<notin> {Pending, Running})" if "\<not> pf_closed p"
    using pf_close_open [OF ok that] by (auto simp: busy_def idle_def settled_def)
  ultimately show ?thesis using r begin_pass_busy by blast
qed

section \<open>Memory in a forward pass\<close>

text \<open>
  A forward-only pass reads every micro-batch once per consumer, in order. \<open>forward_pass env p0 k c p\<close>: in the
  pass begun on \<open>p0\<close>, the first \<open>k\<close> micro-batches are done and \<open>c\<close> consumers have read the next one.
\<close>

inductive forward_pass :: "prepare_env \<Rightarrow> prefetcher \<Rightarrow> nat \<Rightarrow> nat \<Rightarrow> prefetcher \<Rightarrow> bool" for env p0 where
  start: "forward_pass env p0 0 0 (begin_pass Forward p0)"
| read: "forward_pass env p0 k c p \<Longrightarrow> k < length (pf_sources p) \<Longrightarrow> layer_to_cuda env k l Forward p = (p', Inr rows) \<Longrightarrow>
    c + 1 < rm_consumer_count (pf_sources p ! k) \<Longrightarrow> forward_pass env p0 k (c + 1) p'"
| finish: "forward_pass env p0 k c p \<Longrightarrow> k < length (pf_sources p) \<Longrightarrow> layer_to_cuda env k l Forward p = (p', Inr rows) \<Longrightarrow>
    c + 1 = rm_consumer_count (pf_sources p ! k) \<Longrightarrow> forward_pass env p0 (k + 1) 0 p'"
| worker: "forward_pass env p0 k c p \<Longrightarrow> p' = worker_take p \<or> p' = worker_finish env j p \<Longrightarrow> forward_pass env p0 k c p'"

text \<open>What the pass keeps of the prefetcher between two reads.\<close>

definition pass_inv :: "nat \<Rightarrow> nat \<Rightarrow> prefetcher \<Rightarrow> bool" where
  "pass_inv k c p \<longleftrightarrow> busy p \<subseteq> {k..<k + 1 + pf_prefetch_microbatches p} \<and> pf_release_stage p = Forward \<and>
     (\<forall>i < length (pf_sources p). k \<le> i \<longrightarrow> consumed Forward (pf_sources p ! i) = (if i = k then c else 0))"

lemma pass_read:
  assumes inv: "pass_inv k c p" and k: "k < length (pf_sources p)"
    and read: "layer_to_cuda env k l Forward p = (p', Inr rows)" and c: "c + 1 \<le> rm_consumer_count (pf_sources p ! k)"
  shows "if c + 1 = rm_consumer_count (pf_sources p ! k) then pass_inv (k + 1) 0 p' else pass_inv k (c + 1) p'"
proof -
  obtain q t where q: "get_cpu_tensor env k p = (q, Inr t)" and p': "p' = count_read k Forward q"
    using read by (auto simp: layer_to_cuda_eq split: prod.splits sum.splits)
  have loads: "only_loads {k..<k + 1 + pf_prefetch_microbatches p} p q"
    using get_cpu_tensor_only_loads [OF q] .
  have at_k: "consumed Forward (pf_sources q ! k) = c" "rm_consumer_count (pf_sources q ! k) = rm_consumer_count (pf_sources p ! k)"
    and sel: "pf_release_stage q = Forward" "k < length (pf_sources q)"
    using inv k loads by (auto simp: pass_inv_def only_loads_def)
  note counted = count_read_effect [OF sel(2), of Forward, folded p', unfolded at_k sel(1)]
  have window: "busy q \<subseteq> {k..<k + 1 + pf_prefetch_microbatches q}"
    using inv loads by (auto simp: pass_inv_def only_loads_def)
  have rest: "\<forall>i < length (pf_sources q). k < i \<longrightarrow> consumed Forward (pf_sources q ! i) = 0"
    using inv loads by (auto simp: pass_inv_def only_loads_def)
  show ?thesis
    using counted window rest by (auto simp: pass_inv_def split: if_splits)
qed

lemma worker_pass:
  assumes "pass_inv k c p" "p' = worker_take p \<or> p' = worker_finish env j p"
  shows "pass_inv k c p'"
proof -
  have "pf_sources p' = pf_sources p \<and> pf_prefetch_microbatches p' = pf_prefetch_microbatches p \<and> pf_release_stage p' = pf_release_stage p"
    using assms(2) by (auto simp: worker_take_def worker_finish_def Let_def split: list.split)
  then show ?thesis using assms(1) by (simp add: pass_inv_def busy_def)
qed

lemma forward_pass_inv:
  assumes "busy p0 = {}" "\<forall>m \<in> set (pf_sources p0). consumed Forward m = 0" "forward_pass env p0 k c p"
  shows "pass_inv k c p"
  using assms(3)
proof (induction rule: forward_pass.induct)
  case start
  let ?q = "p0\<lparr>pf_release_stage := Forward\<rparr>"
  have q: "busy ?q = {}" using assms(1) by (simp add: busy_def)
  have "only_loads {0..<pf_prefetch_microbatches p0} ?q (begin_pass Forward p0)"
    using fold_prefetch_only_loads [of "[0..<min (length (pf_sources ?q)) (pf_prefetch_microbatches ?q)]" ?q]
    by (auto simp: begin_pass_def pf_start_def only_loads_def)
  then show ?case using q assms(2) by (auto simp: pass_inv_def only_loads_def)
next
  case (read k c p l p' rows)
  then show ?case using pass_read [OF read.IH read.hyps(2,3)] by simp
next
  case (finish k c p l p' rows)
  then show ?case using pass_read [OF finish.IH finish.hyps(2,3)] by simp
next
  case (worker k c p p' j)
  then show ?case using worker_pass by blast
qed

text \<open>A forward pass over a prefetcher that starts idle holds at most one micro-batch more than it prefetches, the
  current one and its successors; every micro-batch behind the current one has been released, and all of
  them at the end of the pass.\<close>

theorem forward_pass_window:
  assumes "busy p0 = {}" "\<forall>m \<in> set (pf_sources p0). consumed Forward m = 0" "forward_pass env p0 k c p"
  shows "busy p \<subseteq> {k..k + pf_prefetch_microbatches p} \<and> card (busy p) \<le> pf_prefetch_microbatches p + 1 \<and>
    (k = length (pf_sources p) \<longrightarrow> busy p = {})"
proof -
  have b: "busy p \<subseteq> {k..k + pf_prefetch_microbatches p}" using forward_pass_inv [OF assms] by (auto simp: pass_inv_def)
  moreover from card_mono [OF _ b] have "card (busy p) \<le> pf_prefetch_microbatches p + 1" by simp
  ultimately show ?thesis by (auto simp: busy_def)
qed

section \<open>Examples\<close>

theorem validated_routes_complete_witness:
  "validate_routed_experts_tensor
     \<lparr>ra_num_layers = 2, ra_moe_router_topk = 2, ra_num_experts = Some 8, ra_moe_layer_freq = FreqInt 2\<rparr> (Some 2)
     \<lparr>et_dims = (2, 2), et_rows = [[[3, 5], [0, 0]], [[0, 0], [0, 0]]]\<rparr> = Inr ()"
  by (subst validated_routes_complete)
     (simp add: moe_layers_def captured_def hole_def layer_present_def ids_out_of_range_def upt_rec)

definition demo_env :: prepare_env where
  "demo_env = \<lparr>pe_straw = demo_straw, pe_uninit = (\<lambda>n. replicate n [[0]]),
     pe_mpu = \<lparr>mpu_cp_rank = 0, mpu_cp_size = 1, mpu_tp_rank = 0, mpu_tp_size = 1\<rparr>, pe_num_experts = 3,
     pe_multiplier = 2, pe_sequence_parallel = False, pe_allgather_cp = False\<rparr>"

definition demo_microbatch :: replay_microbatch where
  "demo_microbatch = replay_microbatch_new [Mem \<lparr>et_dims = (1, 1), et_rows = [[[5]], [[6]], [[7]]]\<rparr>] [4] 1"

text \<open>Two micro-batches, of which the load of the first is running when it is read, and the second is then submitted.\<close>

definition demo_prefetcher :: prefetcher where
  "demo_prefetcher = pf_add demo_microbatch (pf_add demo_microbatch (prefetcher_new 1))"

definition demo_begun :: prefetcher where
  "demo_begun = worker_take (begin_pass Forward demo_prefetcher)"

lemma demo_begun_eq: "demo_begun = \<lparr>pf_prefetch_microbatches = 1, pf_sources = [demo_microbatch\<lparr>rm_future := Some 0\<rparr>, demo_microbatch],
    pf_release_stage = Forward, pf_closed = False, pf_futures = [\<lparr>fu_source = 0, fu_state = Running\<rparr>]\<rparr>"
  by (simp add: demo_begun_def begin_pass_def pf_start_def demo_prefetcher_def pf_add_def prefetcher_new_def mb_prefetch_def demo_microbatch_def
      replay_microbatch_new_def pf_executor_def update_source_def worker_take_def pf_workers_def update_future_def upt_rec)

lemma demo_load: "load_and_prepare demo_env (pf_sources demo_begun ! 0) = Inr [[[5]], [[6]], [[7]], [[0]]]"
  unfolding demo_begun_eq demo_microbatch_def by code_simp

lemma demo_prefetcher_reachable: "pf_reachable demo_env demo_begun"
  unfolding demo_begun_def demo_prefetcher_def demo_microbatch_def by (intro pf_reachable.intros)

theorem prefetched_layer_correct_witness:
  "\<exists>p'. layer_to_cuda demo_env 0 0 Forward demo_begun = (p', Inr [[5], [6], [7], [0]]) \<and> 1 \<in> busy p' \<and> 0 \<notin> busy p' \<and>
    busy (pf_close demo_env demo_begun) = {}"
proof -
  obtain p' r where read: "layer_to_cuda demo_env 0 0 Forward demo_begun = (p', r)" by fastforce
  have "0 < length (pf_sources demo_begun)" by (simp add: demo_begun_eq)
  note main = prefetched_layer_correct [OF demo_prefetcher_reachable this read, of "[[[5]], [[6]], [[7]], [[0]]]" "[[5], [6], [7], [0]]", unfolded demo_load]
  have r: "r = Inr [[5], [6], [7], [0]]" using main by (simp add: layer_rows_def py_nth_def)
  have open_pf: "pf_executor demo_begun" "\<not> pf_closed demo_begun"
    and last: "consumed Forward (pf_sources demo_begun ! 0) + 1 = rm_consumer_count (pf_sources demo_begun ! 0)" "Forward = pf_release_stage demo_begun"
    by (simp_all add: demo_begun_eq pf_executor_def demo_microbatch_def replay_microbatch_new_def consumed_def)
  have "{0 + 1..<min (length (pf_sources demo_begun)) (0 + 1 + pf_prefetch_microbatches demo_begun)} \<subseteq> busy p'"
    "0 \<notin> busy p'" "busy (pf_close demo_env demo_begun) = {}"
    using main open_pf last r by blast+
  then show ?thesis using read r by (simp add: demo_begun_eq)
qed

theorem forward_pass_window_witness:
  "busy (fst (layer_to_cuda demo_env 0 0 Forward demo_begun)) \<subseteq> {1..2}"
proof -
  obtain p' where read: "layer_to_cuda demo_env 0 0 Forward demo_begun = (p', Inr [[5], [6], [7], [0]])"
    using layer_to_cuda_returns [OF pf_reachable_ok [OF demo_prefetcher_reachable], of 0 0 Forward, unfolded demo_load]
    by (cases "layer_to_cuda demo_env 0 0 Forward demo_begun") (simp add: layer_rows_def py_nth_def demo_begun_eq)
  have begun: "forward_pass demo_env demo_prefetcher 0 0 demo_begun" unfolding demo_begun_def
    by (rule forward_pass.worker [OF forward_pass.start]) simp
  have pass: "forward_pass demo_env demo_prefetcher (0 + 1) 0 p'"
    by (rule forward_pass.finish [OF begun _ read]) (simp_all add: demo_begun_eq demo_microbatch_def replay_microbatch_new_def)
  have idle: "busy demo_prefetcher = {}" "\<forall>m \<in> set (pf_sources demo_prefetcher). consumed Forward m = 0"
    by (auto simp: busy_def demo_prefetcher_def pf_add_def prefetcher_new_def demo_microbatch_def replay_microbatch_new_def consumed_def nth_Cons')
  have "pf_prefetch_microbatches p' = 1"
    using read layer_to_cuda_returns [OF pf_reachable_ok [OF demo_prefetcher_reachable], of 0 0 Forward] by (simp add: pf_frame_def demo_begun_eq)
  then show ?thesis using forward_pass_window [OF idle pass] read by auto
qed

end
