(* ===== verification/Batch_Builder.thy ===== *)
theory Batch_Builder
  imports Dp_Schedule Routed_Experts
begin

text \<open>
  \<open>vime/data/batch_builder.py\<close>: the rewards of a batch are normalised, the samples are converted to the
  fields of a training batch, and the batch is split over the data-parallel ranks by the schedule. The
  user's reward hook is an argument. Conversion completes the samples in place; on success the model
  returns them with the batch, on an exception it returns the exception only. A reward is a number,
  a string, a dictionary or missing, as the field is annotated; a list is rejected here.
\<close>

section \<open>Arguments and the batch\<close>

record batch_args = dp_args +
  ba_reward_key :: "string option"
  ba_advantage_estimator :: string
  ba_rewards_normalization :: bool
  ba_grpo_std_normalization :: bool
  ba_n_samples_per_prompt :: nat
  ba_rollout_batch_size :: nat
  ba_use_score_centering :: bool
  ba_rollout_top_p :: fp
  ba_score_centering_top_k :: nat
  ba_use_rollout_routing_replay :: bool
  ba_replay :: replay_args
  ba_global_batch_size :: nat
  ba_transport :: string

record train_data =
  td_tokens :: "int list list"
  td_response_lengths :: "int list"
  td_rewards :: "py_value list"
  td_raw_reward :: "py_value list"
  td_truncated :: "int list"
  td_sample_indices :: "int option list"
  td_rollout_ids :: "int list"
  td_loss_masks :: "int list list"
  td_rollout_mask_sums :: "int list"
  td_round_number :: "py_value list option"
  td_rollout_log_probs :: "fp list option list option"
  td_topk_token_ids :: "int matrix stored option list option"
  td_topk_log_probs :: "fp matrix stored option list option"
  td_top_p_token_ids :: "int list stored option list option"
  td_top_p_token_offsets :: "int list stored option list option"
  td_top_p_log_probs :: "fp list stored option list option"
  td_routed_experts :: "expert_tensor stored list option"
  td_metadata :: "py_dict option list option"
  td_multimodal_train_inputs :: "py_dict option list option"
  td_teacher_log_probs :: "fp list option list option"
  td_source_names :: "py_value list option"

section \<open>Rewards\<close>

text \<open>The rollout a sample belongs to: its \<open>rollout_id\<close>, its \<open>index\<close>, or its own position.\<close>

datatype rollout_key = ByRollout int | ByPosition nat

definition rid_of :: "sample \<Rightarrow> int option" where
  "rid_of s = (case sm_rollout_id s of Some r \<Rightarrow> Some r | None \<Rightarrow> sm_index s)"

definition rollout_key_of :: "nat \<Rightarrow> sample \<Rightarrow> rollout_key" where
  "rollout_key_of position s = (case rid_of s of Some r \<Rightarrow> ByRollout r | None \<Rightarrow> ByPosition position)"

type_synonym rollouts = "(rollout_key \<times> int option \<times> py_value \<times> nat) list"

definition register_rollout :: "rollouts \<times> nat list \<Rightarrow> nat \<times> sample \<times> py_value \<Rightarrow> (rollouts \<times> nat list) result" where
  "register_rollout = (\<lambda>(rollouts, sample_rollouts) (position, s, reward).
     let key = rollout_key_of position s in
     case map_of rollouts key of
       Some (grp, previous_reward, k) \<Rightarrow>
         if grp \<noteq> sm_group_index s \<or> previous_reward \<noteq> reward
         then Inl (ValueError ''Segments of a rollout must share a prompt group and outcome reward'')
         else Inr (rollouts, sample_rollouts @ [k])
     | None \<Rightarrow> Inr (rollouts @ [(key, sm_group_index s, reward, length rollouts)], sample_rollouts @ [length rollouts]))"

text \<open>Without groups, older flat generators are grouped by position if the batch is complete.\<close>

definition prompt_groups :: "'a batch_args_scheme \<Rightarrow> bool \<Rightarrow> rollouts \<Rightarrow> (int option \<times> nat list) list" where
  "prompt_groups args has_groups rollouts =
     (let legacy_complete_batch = (length rollouts = ba_n_samples_per_prompt args * ba_rollout_batch_size args) in
      group_pairs (map (\<lambda>(key, grp, reward, k).
        (if has_groups then grp else Some (if legacy_complete_batch then int (k div ba_n_samples_per_prompt args) else 0), k)) rollouts))"

definition mean :: "real list \<Rightarrow> real" where
  "mean xs = sum_list xs / length xs"

text \<open>\<open>Tensor.std()\<close>, the unbiased estimate.\<close>

definition std :: "real list \<Rightarrow> real" where
  "std xs = sqrt (sum_list (map (\<lambda>x. (x - mean xs)\<^sup>2) xs) / (length xs - 1))"

definition normalize_group :: "'a batch_args_scheme \<Rightarrow> real list \<Rightarrow> real list" where
  "normalize_group args xs =
     (let centered = map (\<lambda>x. x - mean xs) xs in
      if ba_advantage_estimator args \<in> {''grpo'', ''gspo'', ''cispo''} \<and> ba_grpo_std_normalization args \<and> 1 < length xs
      then map (\<lambda>x. x / (std centered + 1 / 10 ^ 6)) centered
      else centered)"

text \<open>\<open>rewards[positions] = values\<close>\<close>

definition scatter :: "'a list \<Rightarrow> nat list \<Rightarrow> 'a list \<Rightarrow> 'a list" where
  "scatter xs positions values = fold (\<lambda>(p, v) ys. ys[p := v]) (zip positions values) xs"

definition normalize_groups :: "'a batch_args_scheme \<Rightarrow> (int option \<times> nat list) list \<Rightarrow> real list \<Rightarrow> real list" where
  "normalize_groups args groups rewards =
     fold (\<lambda>(grp, positions) rs. scatter rs positions (normalize_group args (map ((!) rs) positions))) groups rewards"

definition reward_number :: "py_value \<Rightarrow> real result" where
  "reward_number v = (case v of PyNum x \<Rightarrow> Inr x | PyStr _ \<Rightarrow> Inl (ValueError ''too many dimensions'')
     | _ \<Rightarrow> Inl (TypeError ''must be real number''))"

definition normalized_rewards :: "'a batch_args_scheme \<Rightarrow> sample list \<Rightarrow> py_value list \<Rightarrow> real list result" where
  "normalized_rewards args samples raw_rewards =
     (let has_groups = (\<exists>s \<in> set samples. sm_group_index s \<noteq> None) in
      if has_groups \<and> (\<exists>s \<in> set samples. sm_group_index s = None)
      then Inl (ValueError ''Reward normalization requires group_index on every sample or none of them'')
      else res_bind (res_fold register_rollout ([], []) (zip [0..<length samples] (zip samples raw_rewards)))
        (\<lambda>(rollouts, sample_rollouts).
        res_bind (res_map (\<lambda>(key, grp, reward, k). reward_number reward) rollouts) (\<lambda>rewards.
        Inr (map ((!) (normalize_groups args (prompt_groups args has_groups rollouts) rewards)) sample_rollouts))))"

definition post_process_rewards ::
  "(sample list \<Rightarrow> (py_value list \<times> py_value list) result) option \<Rightarrow> 'a batch_args_scheme \<Rightarrow> sample list \<Rightarrow>
   (py_value list \<times> py_value list) result" where
  "post_process_rewards hook args samples =
     (case hook of
        Some f \<Rightarrow> f samples
      | None \<Rightarrow>
          res_bind (res_map (get_reward_value (ba_reward_key args)) samples) (\<lambda>raw_rewards.
          if ba_advantage_estimator args \<in> {''grpo'', ''gspo'', ''cispo'', ''reinforce_plus_plus_baseline''} \<and>
             ba_rewards_normalization args
          then res_bind (normalized_rewards args samples raw_rewards) (\<lambda>rs. Inr (raw_rewards, map PyNum rs))
          else Inr (raw_rewards, raw_rewards)))"

section \<open>Rollout ids and loss masks\<close>

text \<open>The first id from \<open>tmp_id\<close> on that no sample has.\<close>

function fresh_id :: "int list \<Rightarrow> int \<Rightarrow> int" where
  "fresh_id existed tmp_id = (if tmp_id \<in> set existed then fresh_id existed (tmp_id + 1) else tmp_id)"
  by auto
termination
proof (relation "measure (\<lambda>(existed, tmp_id). card {x \<in> set existed. tmp_id \<le> x})")
  fix existed and tmp_id :: int
  assume "tmp_id \<in> set existed"
  then have "{x \<in> set existed. tmp_id + 1 \<le> x} \<subset> {x \<in> set existed. tmp_id \<le> x}"
    using order_refl [of tmp_id] by (auto dest!: equalityD2)
  then show "((existed, tmp_id + 1), existed, tmp_id) \<in> measure (\<lambda>(existed, tmp_id). card {x \<in> set existed. tmp_id \<le> x})"
    by (simp add: psubset_card_mono)
qed simp

fun fill_ids :: "int list \<Rightarrow> int \<Rightarrow> int option list \<Rightarrow> int list" where
  "fill_ids existed tmp_id [] = []"
| "fill_ids existed tmp_id (Some r # rest) = r # fill_ids existed tmp_id rest"
| "fill_ids existed tmp_id (None # rest) =
     (let t = fresh_id existed tmp_id in t # fill_ids (existed @ [t]) t rest)"

definition rollout_ids_of :: "sample list \<Rightarrow> int list" where
  "rollout_ids_of samples = (let ids = map rid_of samples in fill_ids (concat (map (case_option [] (\<lambda>r. [r])) ids)) 0 ids)"

definition complete_loss_mask :: "sample \<Rightarrow> sample result" where
  "complete_loss_mask s =
     (let m = (case sm_loss_mask s of None \<Rightarrow> replicate (nat (sm_response_length s)) 1 | Some m \<Rightarrow> m) in
      if int (length m) \<noteq> sm_response_length s then Inl (AssertionError ''loss mask length != response length'')
      else Inr (s\<lparr>sm_loss_mask := Some (if sm_remove_sample s then replicate (nat (sm_response_length s)) 0 else m)\<rparr>))"

definition rollout_total_mask :: "int list \<Rightarrow> int list \<Rightarrow> (int \<rightharpoonup> int)" where
  "rollout_total_mask rids mask_sums =
     foldl (\<lambda>m (rid, ms). m(rid \<mapsto> ((case m rid of None \<Rightarrow> 0 | Some x \<Rightarrow> x) + ms))) Map.empty (zip rids mask_sums)"

definition rollout_mask_sums :: "int list \<Rightarrow> int list list \<Rightarrow> int list result" where
  "rollout_mask_sums rids loss_masks =
     (let total = rollout_total_mask rids (map sum_list loss_masks)
      in res_map (\<lambda>rid. case total rid of None \<Rightarrow> Inl (KeyError ''rid'') | Some x \<Rightarrow> Inr x) rids)"

section \<open>Fields taken from the samples' metadata\<close>

text \<open>\<open>get_source\<close> of \<open>vime/utils/data.py\<close>; samples have no \<open>source\<close> attribute of their own.\<close>

definition get_source :: "sample \<Rightarrow> py_value" where
  "get_source s = (case fmlookup (sm_metadata s) ''source_name'' of
       Some v \<Rightarrow> if truthy v then v else PyStr ''unknown'' | None \<Rightarrow> PyStr ''unknown'')"

definition reported_raw_rewards :: "sample list \<Rightarrow> py_value list \<Rightarrow> py_value list" where
  "reported_raw_rewards samples raw_rewards =
     (if \<exists>s \<in> set samples. fmlookup (sm_metadata s) ''raw_reward'' \<noteq> None
      then map (\<lambda>s. case fmlookup (sm_metadata s) ''raw_reward'' of Some v \<Rightarrow> v | None \<Rightarrow> sm_reward s) samples
      else raw_rewards)"

definition round_numbers :: "sample list \<Rightarrow> py_value list option result" where
  "round_numbers samples = (case samples of
       [] \<Rightarrow> Inl IndexError
     | s0 # _ \<Rightarrow>
         if fmlookup (sm_metadata s0) ''round_number'' = None then Inr None
         else res_bind (res_map (\<lambda>s. case fmlookup (sm_metadata s) ''round_number'' of
             Some v \<Rightarrow> Inr v | None \<Rightarrow> Inl (KeyError ''round_number'')) samples) (\<lambda>vs. Inr (Some vs)))"

section \<open>Captured distributions\<close>

text \<open>Lines 342-360, for one sample.\<close>

definition check_score_centering :: "straw \<Rightarrow> 'a batch_args_scheme \<Rightarrow> sample \<Rightarrow> sample result" where
  "check_score_centering st args s =
     (if (case sm_rollout_log_probs s of None \<Rightarrow> True | Some lps \<Rightarrow> int (length lps) \<noteq> sm_response_length s)
      then Inl (ValueError ''Score centering requires sampler logprobs for every response token.'')
      else if fp_lt (ba_rollout_top_p args) (Fin 1)
      then let n = nat (sm_response_length s);
               s1 = (if sm_response_length s = 0 \<and> sm_top_p_token_ids s = None
                     then s\<lparr>sm_top_p_token_ids := Some (Mem []), sm_top_p_token_offsets := Some (Mem [0]), sm_top_p_log_probs := Some (Mem [])\<rparr>
                     else s)
           in res_bind (validate_sampler_top_p st (sm_top_p_token_ids s1) (sm_top_p_token_offsets s1) (sm_top_p_log_probs s1) n
                (sm_loss_mask s1)
                (Some (if n = 0 then [] else drop (length (sm_tokens s1) - n) (sm_tokens s1),
                       case sm_rollout_log_probs s1 of None \<Rightarrow> [] | Some lps \<Rightarrow> lps))) (\<lambda>_. Inr s1)
      else validate_sampler_topk st (ba_score_centering_top_k args) s)"

text \<open>Lines 368-378, for one sample.\<close>

definition check_top_p_spans :: "straw \<Rightarrow> sample \<Rightarrow> unit result" where
  "check_top_p_spans st s = (case (sm_top_p_token_ids s, sm_top_p_token_offsets s) of
       (None, _) \<Rightarrow> Inl (AssertionError ''rollout_top_p_token_ids is None'')
     | (_, None) \<Rightarrow> Inl (AssertionError ''rollout_top_p_token_offsets is None'')
     | (Some ids, Some offs) \<Rightarrow>
         if int (stored_len offs) \<noteq> sm_response_length s + 1
         then Inl (AssertionError ''top-p token offsets length != response length + 1'')
         else res_bind (py_last (load_stored (load_ints st) offs)) (\<lambda>offset_end.
           if offset_end \<noteq> int (stored_len ids) then Inl (AssertionError ''top-p token offsets[-1] != token ids length'')
           else Inr ()))"

section \<open>Routed experts\<close>

definition is_dead :: "sample \<Rightarrow> bool" where
  "is_dead s \<longleftrightarrow> sm_routed_experts s = None \<and> (case sm_loss_mask s of None \<Rightarrow> False | Some m \<Rightarrow> \<forall>x \<in> set m. x = 0)"

definition zero_experts :: "replay_args \<Rightarrow> nat \<Rightarrow> expert_tensor" where
  "zero_experts args rows = \<lparr>et_dims = (ra_num_layers args, ra_moe_router_topk args),
     et_rows = replicate rows (replicate (ra_num_layers args) (replicate (ra_moe_router_topk args) 0))\<rparr>"

text \<open>The experts of one sample: its handle, its tensor, which the sample then keeps, or zeros.\<close>

definition routed_of :: "straw \<Rightarrow> 'a batch_args_scheme \<Rightarrow> sample \<Rightarrow> (sample \<times> expert_tensor stored) result" where
  "routed_of st args s = (case sm_routed_experts s of
       None \<Rightarrow> Inr (s, Mem (zero_experts (ba_replay args) (length (sm_tokens s) - 1)))
     | Some (RRef r) \<Rightarrow> Inr (s, Ref r)
     | Some _ \<Rightarrow> (case materialize_rollout_routed_experts st True s of
         (_, Inl e) \<Rightarrow> Inl e
       | (s', Inr (Some t)) \<Rightarrow> Inr (s', Mem t)
       | (_, Inr None) \<Rightarrow> Inl (TypeError ''NoneType'')))"

definition validate_rollout_routed_experts_for_replay ::
  "straw \<Rightarrow> replay_args \<Rightarrow> expert_tensor stored list \<Rightarrow> nat list option \<Rightarrow> unit result" where
  "validate_rollout_routed_experts_for_replay st args experts expected_rows =
     (if experts = [] then Inl (ValueError ''R3 is enabled but no rollout routed-experts tensors were returned.'')
      else res_fold (\<lambda>_ (i, v). res_bind (case expected_rows of None \<Rightarrow> Inr None
               | Some rows \<Rightarrow> res_bind (py_nth rows i) (\<lambda>n. Inr (Some n)))
             (\<lambda>expected. validate_routed_experts_value st args expected v)) () (zip [0..<length experts] experts))"

definition collect_routed_experts ::
  "straw \<Rightarrow> 'a batch_args_scheme \<Rightarrow> sample list \<Rightarrow> (sample list \<times> expert_tensor stored list option) result" where
  "collect_routed_experts st args samples =
     (let present = (\<lambda>s. sm_routed_experts s \<noteq> None); replay = ba_use_rollout_routing_replay args;
          live_missing = (\<exists>s \<in> set samples. \<not> present s \<and> \<not> is_dead s); any_present = (\<exists>s \<in> set samples. present s) in
      if live_missing \<and> (replay \<or> any_present)
      then Inl (ValueError ''Rollout routed experts are missing for live sample indices'')
      else if any_present \<or> replay \<and> (\<exists>s \<in> set samples. is_dead s)
      then res_bind (res_map (routed_of st args) samples) (\<lambda>collected.
        let captured_pairs = map (\<lambda>(s, s', v). (v, length (sm_tokens s) - 1))
              (filter (\<lambda>(s, s', v). present s) (zip samples collected)) in
        res_bind (if replay \<and> any_present
                  then validate_rollout_routed_experts_for_replay st (ba_replay args) (map fst captured_pairs) (Some (map snd captured_pairs))
                  else Inr ())
          (\<lambda>_. Inr (map fst collected, Some (map snd collected))))
      else Inr (samples, None))"

section \<open>Conversion\<close>

definition convert ::
  "straw \<Rightarrow> (sample list \<Rightarrow> (py_value list \<times> py_value list) result) option \<Rightarrow> 'a batch_args_scheme \<Rightarrow> sample list \<Rightarrow>
   (sample list \<times> train_data) result" where
  "convert st hook args samples0 =
     res_bind (post_process_rewards hook args samples0) (\<lambda>(raw_rewards, rewards).
     if length raw_rewards \<noteq> length samples0 \<or> length rewards \<noteq> length samples0
     then Inl (AssertionError ''len(rewards) == len(samples)'')
     else
     let rids = rollout_ids_of samples0 in
     res_bind (res_map complete_loss_mask samples0) (\<lambda>samples1.
     let loss_masks = map (\<lambda>s. case sm_loss_mask s of None \<Rightarrow> [] | Some m \<Rightarrow> m) samples1 in
     res_bind (rollout_mask_sums rids loss_masks) (\<lambda>mask_sums.
     res_bind (round_numbers samples1) (\<lambda>rounds.
     res_bind (if ba_use_score_centering args then res_map (check_score_centering st args) samples1 else Inr samples1) (\<lambda>samples2.
     res_bind (if \<not> fp_eq (ba_rollout_top_p args) (Fin 1) then res_map (check_top_p_spans st) samples2 else Inr []) (\<lambda>_.
     res_bind (collect_routed_experts st args samples2) (\<lambda>(samples3, experts).
     let sc = ba_use_score_centering args; top_p = fp_lt (ba_rollout_top_p args) (Fin 1); spans = \<not> fp_eq (ba_rollout_top_p args) (Fin 1);
         s0 = hd samples3 in
     Inr (samples3, \<lparr>
       td_tokens = map sm_tokens samples3,
       td_response_lengths = map sm_response_length samples3,
       td_rewards = rewards,
       td_raw_reward = reported_raw_rewards samples3 raw_rewards,
       td_truncated = map (\<lambda>s. of_bool (sm_status s = TRUNCATED)) samples3,
       td_sample_indices = map sm_index samples3,
       td_rollout_ids = rids,
       td_loss_masks = loss_masks,
       td_rollout_mask_sums = mask_sums,
       td_round_number = rounds,
       td_rollout_log_probs = (if sm_rollout_log_probs s0 \<noteq> None then Some (map sm_rollout_log_probs samples3) else None),
       td_topk_token_ids = (if sc \<and> \<not> top_p then Some (map sm_topk_token_ids samples3) else None),
       td_topk_log_probs = (if sc \<and> \<not> top_p then Some (map sm_topk_log_probs samples3) else None),
       td_top_p_token_ids = (if spans then Some (map sm_top_p_token_ids samples3) else None),
       td_top_p_token_offsets = (if spans then Some (map sm_top_p_token_offsets samples3) else None),
       td_top_p_log_probs = (if sc \<and> top_p then Some (map sm_top_p_log_probs samples3) else None),
       td_routed_experts = experts,
       td_metadata = (if sm_train_metadata s0 \<noteq> None then Some (map sm_train_metadata samples3) else None),
       td_multimodal_train_inputs = (if \<exists>s \<in> set samples3. sm_multimodal_train_inputs s \<noteq> None
         then Some (map sm_multimodal_train_inputs samples3) else None),
       td_teacher_log_probs = (if sm_teacher_log_probs s0 \<noteq> None then Some (map sm_teacher_log_probs samples3) else None),
       td_source_names = Some (map get_source samples3)\<rparr>))))))))"

section \<open>Splitting over the ranks\<close>

text \<open>
  What a rank receives: the per-sample fields at its own samples, the raw rewards and lengths of the whole batch,
  and its part of the schedule. \<open>metadata\<close> is not among the fields.
\<close>

record rank_data =
  rd_fields :: train_data
  rd_total_lengths :: "nat list"
  rd_partition :: "nat list"
  rd_global_batch_sizes :: "nat list"
  rd_num_microbatches :: "nat list"
  rd_micro_batch_indices :: "nat list list"

definition gather :: "nat list \<Rightarrow> 'a list \<Rightarrow> 'a list" where
  "gather p xs = map ((!) xs) p"

definition select_fields :: "nat list \<Rightarrow> train_data \<Rightarrow> train_data" where
  "select_fields p d = \<lparr>
     td_tokens = gather p (td_tokens d), td_response_lengths = gather p (td_response_lengths d),
     td_rewards = gather p (td_rewards d), td_raw_reward = td_raw_reward d, td_truncated = gather p (td_truncated d),
     td_sample_indices = gather p (td_sample_indices d), td_rollout_ids = gather p (td_rollout_ids d),
     td_loss_masks = gather p (td_loss_masks d), td_rollout_mask_sums = gather p (td_rollout_mask_sums d),
     td_round_number = map_option (gather p) (td_round_number d),
     td_rollout_log_probs = map_option (gather p) (td_rollout_log_probs d),
     td_topk_token_ids = map_option (gather p) (td_topk_token_ids d),
     td_topk_log_probs = map_option (gather p) (td_topk_log_probs d),
     td_top_p_token_ids = map_option (gather p) (td_top_p_token_ids d),
     td_top_p_token_offsets = map_option (gather p) (td_top_p_token_offsets d),
     td_top_p_log_probs = map_option (gather p) (td_top_p_log_probs d),
     td_routed_experts = map_option (gather p) (td_routed_experts d), td_metadata = None,
     td_multimodal_train_inputs = map_option (gather p) (td_multimodal_train_inputs d),
     td_teacher_log_probs = map_option (gather p) (td_teacher_log_probs d),
     td_source_names = map_option (gather p) (td_source_names d)\<rparr>"

text \<open>The straw transport publishes the conversion and hands the ranks references that carry the same selections; the
  value here is what loading such a reference selects.\<close>

definition split_by_dp :: "'a batch_args_scheme \<Rightarrow> train_parallel_config \<Rightarrow> train_data \<Rightarrow> rank_data list result" where
  "split_by_dp args cfg d =
     (let total_lengths = map length (td_tokens d) in
      res_bind (build_dp_schedule args cfg total_lengths (ba_global_batch_size args) (td_rollout_ids d)) (\<lambda>sch.
      if ba_transport args \<notin> {''nixl'', ''straw'', ''object-store''} \<and> partitions sch \<noteq> []
      then Inl (ValueError ''Unsupported rollout data transport'')
      else Inr (map (\<lambda>(rank, p). \<lparr>
          rd_fields = select_fields p d, rd_total_lengths = total_lengths, rd_partition = p,
          rd_global_batch_sizes = global_batch_sizes sch, rd_num_microbatches = num_microbatches sch,
          rd_micro_batch_indices = micro_batch_indices sch ! rank\<rparr>) (zip [0..<length (partitions sch)] (partitions sch)))))"

section \<open>Scatter and groups\<close>

lemma length_scatter [simp]: "length (scatter xs ps vs) = length xs"
proof -
  have "length (fold (\<lambda>(p, v) ys. ys[p := v]) pvs xs) = length xs" for pvs :: "(nat \<times> 'a) list"
    by (induction pvs arbitrary: xs) auto
  then show ?thesis by (simp add: scatter_def)
qed

lemma scatter_other: "p \<notin> set ps \<Longrightarrow> scatter xs ps vs ! p = xs ! p"
proof -
  have gen: "\<forall>q \<in> set pvs. fst q \<noteq> p \<Longrightarrow> fold (\<lambda>(p, v) ys. ys[p := v]) pvs xs ! p = xs ! p" for pvs and xs :: "'a list"
    by (induction pvs arbitrary: xs) auto
  show "p \<notin> set ps \<Longrightarrow> scatter xs ps vs ! p = xs ! p" unfolding scatter_def by (rule gen) (auto dest: set_zip_leftD)
qed

lemma scatter_at:
  assumes "distinct ps" "length vs = length ps" "i < length ps" "ps ! i < length xs"
  shows "scatter xs ps vs ! (ps ! i) = vs ! i"
  using assms
proof (induction ps arbitrary: xs vs i)
  case (Cons p ps)
  from Cons.prems obtain v vs' where vs: "vs = v # vs'" by (cases vs) auto
  have step: "scatter xs (p # ps) (v # vs') = scatter (xs[p := v]) ps vs'" by (simp add: scatter_def)
  show ?case
  proof (cases i)
    case 0
    with Cons.prems scatter_other [of p ps "xs[p := v]" vs'] show ?thesis by (simp add: step vs)
  next
    case (Suc j)
    with Cons.prems Cons.IH [of vs' j "xs[p := v]"] show ?thesis by (simp add: step vs)
  qed
qed simp

text \<open>Groups with disjoint positions are normalised independently of each other.\<close>

lemma normalize_groups_at:
  assumes "distinct (concat (map snd groups))" "(g, ps) \<in> set groups" "i < length ps" "\<forall>p \<in> set ps. p < length rs"
  shows "normalize_groups args groups rs ! (ps ! i) = normalize_group args (map ((!) rs) ps) ! i"
  using assms
proof (induction groups arbitrary: rs)
  case (Cons h groups)
  obtain g' qs where h: "h = (g', qs)" by fastforce
  let ?rs = "scatter rs qs (normalize_group args (map ((!) rs) qs))"
  have step: "normalize_groups args ((g', qs) # groups) rs = normalize_groups args groups ?rs" by (simp add: normalize_groups_def)
  have len: "length (normalize_group args xs) = length xs" for xs by (simp add: normalize_group_def Let_def)
  have skip: "p \<notin> set (concat (map snd gs)) \<Longrightarrow> normalize_groups args gs zs ! p = zs ! p" for gs zs p
    by (induction gs arbitrary: zs) (auto simp: normalize_groups_def scatter_other)
  show ?case
  proof (cases "(g, ps) \<in> set groups")
    case True
    then have "set qs \<inter> set ps = {}" using Cons.prems(1) by (force simp: h)
    then have "map ((!) ?rs) ps = map ((!) rs) ps" by (auto intro!: scatter_other)
    with Cons.IH [OF _ True Cons.prems(3), of ?rs] Cons.prems(1,4) show ?thesis by (simp add: step h)
  next
    case False
    then have ps: "ps = qs" using Cons.prems(2) h by simp
    have "ps ! i \<notin> set (concat (map snd groups))" using Cons.prems(1,3) by (auto simp: h ps dest: nth_mem)
    with skip have "normalize_groups args (h # groups) rs ! (ps ! i) = ?rs ! (ps ! i)" by (simp add: step h)
    also have "\<dots> = normalize_group args (map ((!) rs) ps) ! i"
      using Cons.prems unfolding ps by (intro scatter_at) (auto simp: h len)
    finally show ?thesis .
  qed
qed simp

lemma mean_mset: "mset xs = mset ys \<Longrightarrow> mean xs = mean ys"
  unfolding mean_def by (metis size_mset sum_mset_sum_list)

lemma std_mset: "mset xs = mset ys \<Longrightarrow> std xs = std ys"
proof -
  assume eq: "mset xs = mset ys"
  then have "mset (map (\<lambda>x. (x - mean xs)\<^sup>2) xs) = mset (map (\<lambda>x. (x - mean ys)\<^sup>2) ys)" by (simp add: mean_mset [OF eq])
  then show ?thesis unfolding std_def using eq by (metis size_mset sum_mset_sum_list)
qed

lemma sum_list_shift: "sum_list (map (\<lambda>x. x - c) xs) = sum_list xs - real (length xs) * c"
  by (induction xs) (auto simp: algebra_simps)

lemma std_shift: "std (map (\<lambda>x. x - c) xs) = std xs"
proof (cases "xs = []")
  case False
  then have "mean (map (\<lambda>x. x - c) xs) = mean xs - c" by (simp add: mean_def sum_list_shift field_simps)
  then show ?thesis by (simp add: std_def o_def algebra_simps)
qed simp

section \<open>The rollouts of a batch\<close>

text \<open>The outcome of a sample: the key of its rollout, its prompt group and its reward.\<close>

type_synonym outcome = "rollout_key \<times> int option \<times> py_value"

definition outcome_at :: "sample list \<Rightarrow> py_value list \<Rightarrow> nat \<Rightarrow> outcome" where
  "outcome_at samples raw i = (rollout_key_of i (samples ! i), sm_group_index (samples ! i), raw ! i)"

abbreviation entry_outcome :: "rollout_key \<times> int option \<times> py_value \<times> nat \<Rightarrow> outcome" where
  "entry_outcome e \<equiv> (fst e, fst (snd e), fst (snd (snd e)))"

abbreviation entry_pos :: "rollout_key \<times> int option \<times> py_value \<times> nat \<Rightarrow> nat" where
  "entry_pos e \<equiv> snd (snd (snd e))"

definition registered :: "sample list \<Rightarrow> py_value list \<Rightarrow> nat \<Rightarrow> rollouts \<times> nat list \<Rightarrow> bool" where
  "registered samples raw n = (\<lambda>(rollouts, sample_rollouts).
     distinct (map fst rollouts) \<and> map entry_pos rollouts = [0..<length rollouts] \<and>
     entry_outcome ` set rollouts = outcome_at samples raw ` {..<n} \<and> length sample_rollouts = n \<and>
     (\<forall>i < n. sample_rollouts ! i < length rollouts \<and> entry_outcome (rollouts ! (sample_rollouts ! i)) = outcome_at samples raw i))"

lemma register_step:
  assumes "registered samples raw n st" "register_rollout st (n, samples ! n, raw ! n) = Inr st'"
  shows "registered samples raw (Suc n) st'"
proof -
  obtain rollouts ids where st: "st = (rollouts, ids)" by fastforce
  let ?key = "rollout_key_of n (samples ! n)"
  note reg = assms(1) [unfolded st registered_def prod.case]
  show ?thesis
  proof (cases "map_of rollouts ?key")
    case None
    let ?new = "(?key, sm_group_index (samples ! n), raw ! n, length rollouts)"
    have st': "st' = (rollouts @ [?new], ids @ [length rollouts])"
      using assms(2) None by (simp add: register_rollout_def st)
    have "?key \<notin> set (map fst rollouts)" using None by (simp add: map_of_eq_None_iff)
    with reg show ?thesis
      by (auto simp: st' registered_def nth_append outcome_at_def lessThan_Suc less_Suc_eq image_Un insert_commute)
  next
    case (Some e)
    obtain g r k where e: "e = (g, r, k)" by (cases e) auto
    from Some assms(2) have same: "g = sm_group_index (samples ! n)" "r = raw ! n" and st': "st' = (rollouts, ids @ [k])"
      by (auto simp: register_rollout_def st e split: if_splits)
    from Some e have mem: "(?key, g, r, k) \<in> set rollouts" by (auto dest: map_of_SomeD)
    then obtain j where j: "j < length rollouts" "rollouts ! j = (?key, g, r, k)" by (auto simp: in_set_conv_nth)
    have "map entry_pos rollouts ! j = j" using reg j(1) by simp
    then have "k = j" using j by simp
    have "outcome_at samples raw n \<in> entry_outcome ` set rollouts"
      using mem same by (force simp: outcome_at_def)
    with reg j \<open>k = j\<close> show ?thesis
      by (auto simp: st' registered_def nth_append outcome_at_def same lessThan_Suc less_Suc_eq)
  qed
qed

lemma register_all:
  assumes "length raw = length samples"
    and "res_fold register_rollout ([], []) (zip [0..<length samples] (zip samples raw)) = Inr st"
  shows "registered samples raw (length samples) st"
proof -
  let ?items = "zip [0..<length samples] (zip samples raw)"
  have "registered samples raw n st'" if "n \<le> length samples" "res_fold register_rollout ([], []) (take n ?items) = Inr st'" for n st'
    using that
  proof (induction n arbitrary: st')
    case 0
    then show ?case by (auto simp: registered_def)
  next
    case (Suc n)
    then have "take (Suc n) ?items = take n ?items @ [(n, samples ! n, raw ! n)]"
      using assms(1) by (simp add: take_Suc_conv_app_nth)
    with Suc.prems obtain mid where "res_fold register_rollout ([], []) (take n ?items) = Inr mid"
        "register_rollout mid (n, samples ! n, raw ! n) = Inr st'"
      by (auto simp: res_fold_append res_bind_eq_Inr)
    with Suc show ?case by (auto intro: register_step)
  qed
  from this [of "length samples" st] assms show ?thesis by simp
qed

text \<open>The distinct rollouts of a batch, and the rewards of those in one prompt group.\<close>

definition rollout_outcomes :: "sample list \<Rightarrow> py_value list \<Rightarrow> outcome list" where
  "rollout_outcomes samples raw = remdups (map (outcome_at samples raw) [0..<length samples])"

definition num_of :: "py_value \<Rightarrow> real" where
  "num_of v = (case v of PyNum x \<Rightarrow> x | _ \<Rightarrow> 0)"

definition group_rewards :: "sample list \<Rightarrow> py_value list \<Rightarrow> int option \<Rightarrow> real list" where
  "group_rewards samples raw g = map (\<lambda>o'. num_of (snd (snd o'))) (filter (\<lambda>o'. fst (snd o') = g) (rollout_outcomes samples raw))"

lemma registered_outcomes:
  assumes "registered samples raw (length samples) (rollouts, ids)"
  shows "mset (map entry_outcome rollouts) = mset (rollout_outcomes samples raw)"
proof -
  have "distinct (map fst rollouts)" using assms by (simp add: registered_def)
  then have "distinct (map entry_outcome rollouts)" by (auto simp: distinct_map inj_on_def)
  moreover have "set (map entry_outcome rollouts) = set (rollout_outcomes samples raw)"
    using assms by (simp add: registered_def rollout_outcomes_def atLeast0LessThan)
  moreover have "distinct (rollout_outcomes samples raw)" by (simp add: rollout_outcomes_def)
  ultimately show ?thesis using set_eq_iff_mset_eq_distinct by blast
qed

text \<open>What the centred rewards of a group are divided by.\<close>

definition reward_scale :: "'a batch_args_scheme \<Rightarrow> real list \<Rightarrow> real" where
  "reward_scale args xs =
     (if ba_advantage_estimator args \<in> {''grpo'', ''gspo'', ''cispo''} \<and> ba_grpo_std_normalization args \<and> 1 < length xs
      then std xs + 1 / 10 ^ 6 else 1)"

lemma normalize_group_nth:
  assumes "j < length ys" "mset ys = mset xs"
  shows "normalize_group args ys ! j = (ys ! j - mean xs) /
    reward_scale args xs"
  using assms mean_mset [OF assms(2)] std_mset [OF assms(2)] std_shift [of "mean xs" ys] mset_eq_length [OF assms(2)]
  by (simp add: normalize_group_def reward_scale_def Let_def del: insert_iff)

lemma prompt_group_positions:
  assumes reg: "registered samples raw n (rollouts, ids)" and p: "p < length rollouts"
  shows "\<exists>ps j. (fst (snd (rollouts ! p)), ps) \<in> set (prompt_groups args True rollouts) \<and> j < length ps \<and> ps ! j = p \<and>
    ps = filter (\<lambda>q. fst (snd (rollouts ! q)) = fst (snd (rollouts ! p))) [0..<length rollouts]"
proof -
  let ?g = "fst (snd (rollouts ! p))" and ?n = "length rollouts"
  let ?kvs = "map (\<lambda>q. (fst (snd (rollouts ! q)), q)) [0..<?n]"
  have pos: "entry_pos (rollouts ! q) = q" if "q < ?n" for q
  proof -
    have "map entry_pos rollouts ! q = q" using reg that by (simp add: registered_def)
    then show ?thesis using that by simp
  qed
  have kvs: "map (\<lambda>(key, grp, reward, k). (grp, k)) rollouts = ?kvs"
    by (rule nth_equalityI) (auto simp: pos split_beta)
  let ?ps = "filter (\<lambda>q. fst (snd (rollouts ! q)) = ?g) [0..<?n]"
  have "map_of (group_pairs ?kvs) ?g = Some ?ps"
    using p by (auto simp: group_pairs_lookup filter_map o_def image_image)
  then have "(?g, ?ps) \<in> set (prompt_groups args True rollouts)"
    by (auto simp: prompt_groups_def Let_def kvs dest: map_of_SomeD)
  moreover have "p \<in> set ?ps" using p by simp
  then obtain j where "j < length ?ps" "?ps ! j = p" unfolding in_set_conv_nth by blast
  ultimately show ?thesis by blast
qed

lemma prompt_groups_disjoint:
  assumes "registered samples raw n (rollouts, ids)"
  shows "distinct (concat (map snd (prompt_groups args has_groups rollouts)))"
proof -
  have "map entry_pos rollouts = [0..<length rollouts]" using assms by (simp add: registered_def)
  moreover have "map snd (map (\<lambda>(key, grp, reward, k). (f key grp reward k, k)) rollouts) = map entry_pos rollouts"
    for f :: "rollout_key \<Rightarrow> int option \<Rightarrow> py_value \<Rightarrow> nat \<Rightarrow> int option" by (simp add: split_beta)
  ultimately have "mset (concat (map snd (prompt_groups args has_groups rollouts))) = mset [0..<length rollouts]"
    by (simp add: prompt_groups_def Let_def group_pairs_mset split_beta o_def)
  then show ?thesis by (metis distinct_upt mset_eq_imp_distinct_iff)
qed

lemma normalized_rewards_at:
  assumes res: "normalized_rewards args samples raw = Inr rs" and len: "length raw = length samples"
    and grouped: "\<forall>s \<in> set samples. sm_group_index s \<noteq> None" and i: "i < length samples"
  defines "xs \<equiv> group_rewards samples raw (sm_group_index (samples ! i))"
  shows "length rs = length samples \<and> (\<exists>x. raw ! i = PyNum x \<and> rs ! i = (x - mean xs) /
    reward_scale args xs)"
proof -
  have any: "\<exists>s \<in> set samples. sm_group_index s \<noteq> None" using grouped i nth_mem by blast
  obtain rollouts ids rewards where
    reg: "registered samples raw (length samples) (rollouts, ids)" and
    nums: "res_map (\<lambda>(key, grp, reward, k). reward_number reward) rollouts = Inr rewards" and
    rs: "rs = map ((!) (normalize_groups args (prompt_groups args True rollouts) rewards)) ids"
    using res grouped any register_all [OF len] unfolding normalized_rewards_def Let_def
    by (auto simp: res_bind_eq_Inr split: if_splits)
  have num: "fst (snd (snd (rollouts ! q))) = PyNum (rewards ! q)" if "q < length rollouts" for q
    using res_map_nth [OF nums that] by (auto simp: reward_number_def split_beta split: py_value.splits)
  have lens: "length rewards = length rollouts" "length ids = length samples"
    using res_map_length [OF nums] reg by (auto simp: registered_def)
  let ?p = "ids ! i"
  have p: "?p < length rollouts" "entry_outcome (rollouts ! ?p) = outcome_at samples raw i"
    using reg i by (auto simp: registered_def)
  then have g: "fst (snd (rollouts ! ?p)) = sm_group_index (samples ! i)" and raw: "raw ! i = PyNum (rewards ! ?p)"
    using num [OF p(1)] by (auto simp: outcome_at_def)
  from prompt_group_positions [OF reg p(1), of args] g obtain ps j where
    ps: "(sm_group_index (samples ! i), ps) \<in> set (prompt_groups args True rollouts)" "j < length ps" "ps ! j = ?p"
      "ps = filter (\<lambda>q. fst (snd (rollouts ! q)) = sm_group_index (samples ! i)) [0..<length rollouts]" by auto
  have "map ((!) rewards) ps = map (\<lambda>q. num_of (fst (snd (snd (rollouts ! q))))) ps"
    using ps(4) num by (auto simp: num_of_def)
  also have "\<dots> = map (\<lambda>o'. num_of (snd (snd o'))) (filter (\<lambda>o'. fst (snd o') = sm_group_index (samples ! i)) (map entry_outcome rollouts))"
  proof -
    have "map entry_outcome rollouts = map (\<lambda>q. entry_outcome (rollouts ! q)) [0..<length rollouts]"
      by (rule nth_equalityI) simp_all
    then show ?thesis by (simp add: ps(4) filter_map o_def)
  qed
  finally have "mset (map ((!) rewards) ps) = mset xs"
    unfolding xs_def group_rewards_def by (simp only: mset_map mset_filter registered_outcomes [OF reg, unfolded mset_map])
  from normalize_group_nth [OF _ this, of j args] ps(2)
  have "normalize_group args (map ((!) rewards) ps) ! j = (rewards ! ?p - mean xs) /
    reward_scale args xs" using ps(3) by simp
  moreover have "normalize_groups args (prompt_groups args True rollouts) rewards ! ?p = normalize_group args (map ((!) rewards) ps) ! j"
    using normalize_groups_at [OF prompt_groups_disjoint [OF reg] ps(1,2), of rewards] ps(3,4) lens(1) by auto
  ultimately show ?thesis using raw i lens(2) by (simp add: rs)
qed

text \<open>C23: Advantages are computed over rollout outcomes: when every sample has a prompt group, the normalised reward of a
  sample is its reward minus the mean, divided by the standard deviation where that is configured, of the rewards
  of the distinct rollouts of its group, each counted once however many segments it was split into.\<close>

theorem rewards_normalized_per_rollout:
  assumes "post_process_rewards None args samples = Inr (raw, rewards)" "ba_rewards_normalization args"
    and "ba_advantage_estimator args \<in> {''grpo'', ''gspo'', ''cispo'', ''reinforce_plus_plus_baseline''}"
    and "\<forall>s \<in> set samples. sm_group_index s \<noteq> None" "i < length samples"
  defines "xs \<equiv> group_rewards samples raw (sm_group_index (samples ! i))"
  shows "length rewards = length samples \<and> (\<exists>x. raw ! i = PyNum x \<and> rewards ! i = PyNum ((x - mean xs) /
    reward_scale args xs))"
proof -
  obtain rs where raws: "res_map (get_reward_value (ba_reward_key args)) samples = Inr raw"
    and rs: "normalized_rewards args samples raw = Inr rs" "rewards = map PyNum rs"
    using assms(1-3) unfolding post_process_rewards_def by (auto simp: res_bind_eq_Inr split: if_splits)
  from normalized_rewards_at [OF rs(1) res_map_length [OF raws] assms(4,5), folded xs_def] rs(2) assms(5)
  show ?thesis by auto
qed

section \<open>Rollout ids\<close>

declare fresh_id.simps [simp del]

lemma fresh_id_new: "fresh_id existed t \<notin> set existed"
  by (induction existed t rule: fresh_id.induct) (subst fresh_id.simps, simp)

lemma fill_ids_facts:
  assumes "\<And>r. Some r \<in> set opts \<Longrightarrow> r \<in> set existed"
  shows "length (fill_ids existed t opts) = length opts \<and>
    (\<forall>i < length opts. case opts ! i of Some r \<Rightarrow> fill_ids existed t opts ! i = r | None \<Rightarrow> fill_ids existed t opts ! i \<notin> set existed) \<and>
    (\<forall>i < length opts. \<forall>j < i. opts ! i = None \<longrightarrow> opts ! j = None \<longrightarrow> fill_ids existed t opts ! j \<noteq> fill_ids existed t opts ! i)"
  using assms
proof (induction existed t opts rule: fill_ids.induct)
  case (2 existed t r rest)
  from "2.IH" "2.prems" show ?case by (auto simp: nth_Cons' less_Suc_eq_0_disj split: option.splits)
next
  case (3 existed t rest)
  let ?t = "fresh_id existed t" and ?ids = "fill_ids (existed @ [fresh_id existed t]) (fresh_id existed t) rest"
  have IH: "length ?ids = length rest \<and>
    (\<forall>i < length rest. case rest ! i of Some r \<Rightarrow> ?ids ! i = r | None \<Rightarrow> ?ids ! i \<notin> set (existed @ [?t])) \<and>
    (\<forall>i < length rest. \<forall>j < i. rest ! i = None \<longrightarrow> rest ! j = None \<longrightarrow> ?ids ! j \<noteq> ?ids ! i)"
    using "3.prems" by (intro "3.IH") auto
  then have new: "?t \<noteq> ?ids ! i" "?ids ! i \<notin> set existed" if "i < length rest" "rest ! i = None" for i
    using that by (auto split: option.splits)
  show ?case
    using IH new fresh_id_new [of existed t] by (auto simp: Let_def nth_Cons' less_Suc_eq_0_disj split: option.splits)
qed simp

text \<open>Samples share an id exactly when they come from the same rollout.\<close>

lemma rollout_ids_facts:
  fixes samples :: "sample list"
  defines "ids \<equiv> rollout_ids_of samples"
  shows "length ids = length samples" "i < length samples \<Longrightarrow> rid_of (samples ! i) = Some r \<Longrightarrow> ids ! i = r"
    "i < length samples \<Longrightarrow> j < length samples \<Longrightarrow>
      ids ! i = ids ! j \<longleftrightarrow> i = j \<or> rid_of (samples ! i) \<noteq> None \<and> rid_of (samples ! i) = rid_of (samples ! j)"
proof -
  let ?opts = "map rid_of samples" and ?ex = "concat (map (case_option [] (\<lambda>r. [r])) (map rid_of samples))"
  have ex: "r \<in> set ?ex" if "Some r \<in> set ?opts" for r
    using that by (force split: option.splits)
  note facts = fill_ids_facts [of ?opts ?ex 0, OF ex]
  have ids: "ids = fill_ids ?ex 0 ?opts" by (simp add: ids_def rollout_ids_of_def Let_def)
  show "length ids = length samples" using facts by (simp add: ids)
  have some: "ids ! k = r" if "k < length samples" "rid_of (samples ! k) = Some r" for k r
    using facts that unfolding ids by (auto split: option.splits)
  then show "i < length samples \<Longrightarrow> rid_of (samples ! i) = Some r \<Longrightarrow> ids ! i = r" .
  have none: "ids ! k \<notin> set ?ex" if "k < length samples" "rid_of (samples ! k) = None" for k
    using facts that unfolding ids by (auto split: option.splits)
  have differ: "ids ! k \<noteq> ids ! l" if "k < length samples" "l < length samples" "k \<noteq> l" "rid_of (samples ! k) = None" "rid_of (samples ! l) = None" for k l
    using facts that unfolding ids by (cases k l rule: linorder_cases) (auto dest: not_sym)
  have known: "r \<in> set ?ex" if "k < length samples" "rid_of (samples ! k) = Some r" for k r
    using that by (intro ex) (metis length_map nth_map nth_mem)
  assume i: "i < length samples" and j: "j < length samples"
  show "ids ! i = ids ! j \<longleftrightarrow> i = j \<or> rid_of (samples ! i) \<noteq> None \<and> rid_of (samples ! i) = rid_of (samples ! j)"
  proof (cases "rid_of (samples ! i)"; cases "rid_of (samples ! j)")
    fix r r' assume "rid_of (samples ! i) = Some r" "rid_of (samples ! j) = Some r'"
    with some [OF i] some [OF j] show ?thesis by auto
  next
    fix r assume a: "rid_of (samples ! i) = Some r" "rid_of (samples ! j) = None"
    with some [OF i] none [OF j] known [OF i] show ?thesis by auto
  next
    fix r assume a: "rid_of (samples ! i) = None" "rid_of (samples ! j) = Some r"
    with some [OF j] none [OF i] known [OF j] show ?thesis by auto
  next
    assume "rid_of (samples ! i) = None" "rid_of (samples ! j) = None"
    with differ [OF i j] show ?thesis by auto
  qed
qed

section \<open>Mask sums\<close>

lemma rollout_total_mask_eq:
  assumes "length mask_sums = length rids"
  shows "rollout_total_mask rids mask_sums rid =
    (if rid \<in> set rids then Some (\<Sum>j\<leftarrow>[0..<length rids]. if rids ! j = rid then mask_sums ! j else 0) else None)"
  using assms
proof (induction rids arbitrary: mask_sums rid rule: rev_induct)
  case (snoc r rids)
  then obtain ms m where ms: "mask_sums = ms @ [m]" "length ms = length rids" by (cases mask_sums rule: rev_cases) auto
  have IH: "rollout_total_mask rids ms rid =
    (if rid \<in> set rids then Some (\<Sum>j\<leftarrow>[0..<length rids]. if rids ! j = rid then ms ! j else 0) else None)" for rid
    using snoc.IH [OF ms(2)] .
  have step: "rollout_total_mask (rids @ [r]) (ms @ [m]) =
      (rollout_total_mask rids ms)(r \<mapsto> (case rollout_total_mask rids ms r of None \<Rightarrow> 0 | Some x \<Rightarrow> x) + m)"
    using ms(2) by (simp add: rollout_total_mask_def)
  have none: "(\<Sum>j\<leftarrow>[0..<length rids]. if rids ! j = r then ms ! j else 0) = 0" if "r \<notin> set rids"
  proof -
    have zero: "map (\<lambda>j. if rids ! j = r then ms ! j else 0) [0..<length rids] = map (\<lambda>_. 0) [0..<length rids]"
      using that by (auto dest: nth_mem)
    show ?thesis unfolding zero by simp
  qed
  have shift: "(\<Sum>j\<leftarrow>[0..<length rids]. if (rids @ [r]) ! j = rid then (ms @ [m]) ! j else 0) =
      (\<Sum>j\<leftarrow>[0..<length rids]. if rids ! j = rid then ms ! j else 0)"
    using ms(2) by (intro arg_cong [where f = sum_list]) (simp add: nth_append)
  show ?case
    unfolding ms(1) step using none by (auto simp: IH shift ms(2) nth_append_length [of ms, simplified ms(2)] split: if_splits)
qed (simp add: rollout_total_mask_def)

section \<open>The converted batch\<close>

lemma complete_loss_mask_Inr:
  "complete_loss_mask s = Inr s' \<longleftrightarrow>
    (let m = (case sm_loss_mask s of None \<Rightarrow> replicate (nat (sm_response_length s)) 1 | Some m \<Rightarrow> m) in
     int (length m) = sm_response_length s \<and>
     s' = s\<lparr>sm_loss_mask := Some (if sm_remove_sample s then replicate (nat (sm_response_length s)) 0 else m)\<rparr>)"
  by (auto simp: complete_loss_mask_def Let_def)

text \<open>Completing captures and routes leaves the tokens and the response length alone.\<close>

definition same_lengths :: "sample \<Rightarrow> sample \<Rightarrow> bool" where
  "same_lengths s s' \<longleftrightarrow> sm_tokens s' = sm_tokens s \<and> sm_response_length s' = sm_response_length s"

lemma check_score_centering_frame: "check_score_centering st args s = Inr s' \<Longrightarrow> same_lengths s s'"
  by (auto simp: check_score_centering_def validate_sampler_topk_def same_lengths_def Let_def res_bind_eq_Inr
      split: if_splits option.splits stored.splits)

lemma routed_of_frame: "routed_of st args s = Inr (s', v) \<Longrightarrow> same_lengths s s'"
  by (auto simp: routed_of_def materialize_rollout_routed_experts_def same_lengths_def
      split: option.splits routed.splits sum.splits prod.splits)

lemma res_map_frame:
  assumes "res_map f xs = Inr ys" "\<And>x y. x \<in> set xs \<Longrightarrow> f x = Inr y \<Longrightarrow> same_lengths x (g y)"
  shows "map sm_tokens (map g ys) = map sm_tokens xs \<and> map sm_response_length (map g ys) = map sm_response_length xs"
  using assms
proof (induction xs arbitrary: ys)
  case (Cons x xs)
  from Cons.prems(1) obtain y ys' where y: "f x = Inr y" "res_map f xs = Inr ys'" "ys = y # ys'"
    by (auto simp: res_bind_eq_Inr)
  with Cons.IH [OF y(2)] Cons.prems(2) have "map sm_tokens (map g ys') = map sm_tokens xs \<and>
      map sm_response_length (map g ys') = map sm_response_length xs" by simp
  with Cons.prems(2) [OF _ y(1)] y(3) show ?case by (simp add: same_lengths_def)
qed simp

lemma collect_routed_frame:
  assumes "collect_routed_experts st args samples = Inr (samples', experts)"
  shows "map sm_tokens samples' = map sm_tokens samples \<and> map sm_response_length samples' = map sm_response_length samples"
proof (cases "samples' = samples")
  case False
  then obtain collected where "res_map (routed_of st args) samples = Inr collected" "samples' = map fst collected"
    using assms by (auto simp: collect_routed_experts_def Let_def res_bind_eq_Inr split: if_splits)
  with res_map_frame [of "routed_of st args" samples collected fst] show ?thesis
    by (simp add: routed_of_frame split_paired_all)
qed simp

text \<open>The mask a sample trains with.\<close>

definition trained_mask :: "sample \<Rightarrow> int list" where
  "trained_mask s = (if sm_remove_sample s then replicate (nat (sm_response_length s)) 0
     else case sm_loss_mask s of None \<Rightarrow> replicate (nat (sm_response_length s)) 1 | Some m \<Rightarrow> m)"

lemma convert_fields:
  assumes "convert st hook args samples = Inr (samples', d)"
  shows "td_tokens d = map sm_tokens samples" "td_response_lengths d = map sm_response_length samples"
    "td_rollout_ids d = rollout_ids_of samples" "td_loss_masks d = map trained_mask samples"
    "\<forall>s \<in> set samples. int (length (trained_mask s)) = sm_response_length s"
    "rollout_mask_sums (rollout_ids_of samples) (map trained_mask samples) = Inr (td_rollout_mask_sums d)"
    "length (td_rewards d) = length samples" "samples \<noteq> []"
proof -
  obtain raw rs samples1 samples2 rounds experts where steps:
    "post_process_rewards hook args samples = Inr (raw, rs)" "length rs = length samples"
    "res_map complete_loss_mask samples = Inr samples1" "round_numbers samples1 = Inr rounds"
    "rollout_mask_sums (rollout_ids_of samples) (map (\<lambda>s. case sm_loss_mask s of None \<Rightarrow> [] | Some m \<Rightarrow> m) samples1) = Inr (td_rollout_mask_sums d)"
    "(if ba_use_score_centering args then res_map (check_score_centering st args) samples1 else Inr samples1) = Inr samples2"
    "collect_routed_experts st args samples2 = Inr (samples', experts)"
    and d: "td_tokens d = map sm_tokens samples'" "td_response_lengths d = map sm_response_length samples'"
      "td_rollout_ids d = rollout_ids_of samples" "td_rewards d = rs"
      "td_loss_masks d = map (\<lambda>s. case sm_loss_mask s of None \<Rightarrow> [] | Some m \<Rightarrow> m) samples1"
    using assms unfolding convert_def
    by (auto simp: res_bind_eq_Inr Let_def split: if_splits simp del: if_Inl_eq_Inr)
  have each: "samples1 ! i = (samples ! i)\<lparr>sm_loss_mask := Some (trained_mask (samples ! i))\<rparr>"
      "int (length (trained_mask (samples ! i))) = sm_response_length (samples ! i)" if "i < length samples" for i
    using res_map_nth [OF steps(3) that] by (auto simp: complete_loss_mask_Inr trained_mask_def Let_def)
  have len1: "length samples1 = length samples" using steps(3) by (rule res_map_length)
  have sel1: "map f samples1 = map f samples" if "\<And>s m. f (s\<lparr>sm_loss_mask := m\<rparr>) = f s" for f :: "sample \<Rightarrow> 'x"
    by (rule nth_equalityI) (auto simp: len1 each that)
  have masks: "map (\<lambda>s. case sm_loss_mask s of None \<Rightarrow> [] | Some m \<Rightarrow> m) samples1 = map trained_mask samples"
    by (rule nth_equalityI) (auto simp: len1 each)
  have "map sm_tokens samples2 = map sm_tokens samples1 \<and> map sm_response_length samples2 = map sm_response_length samples1"
    using steps(6) res_map_frame [of "check_score_centering st args" samples1 samples2 "\<lambda>s. s"] check_score_centering_frame
    by (auto split: if_splits)
  with collect_routed_frame [OF steps(7)] have "map sm_tokens samples' = map sm_tokens samples"
      "map sm_response_length samples' = map sm_response_length samples"
    using sel1 [of sm_tokens] sel1 [of sm_response_length] by simp_all
  with d show "td_tokens d = map sm_tokens samples" "td_response_lengths d = map sm_response_length samples"
    "td_rollout_ids d = rollout_ids_of samples" by simp_all
  show "td_loss_masks d = map trained_mask samples" using d masks by simp
  show "\<forall>s \<in> set samples. int (length (trained_mask s)) = sm_response_length s"
    using each(2) by (auto simp: in_set_conv_nth)
  show "rollout_mask_sums (rollout_ids_of samples) (map trained_mask samples) = Inr (td_rollout_mask_sums d)"
    using steps(5) masks by simp
  show "length (td_rewards d) = length samples" using d steps(2) by simp
  show "samples \<noteq> []" using steps(4) len1 by (auto simp: round_numbers_def)
qed

lemma mask_sums_at:
  assumes "rollout_mask_sums rids masks = Inr out" "length masks = length rids" "i < length rids"
  shows "out ! i = (\<Sum>j\<leftarrow>[0..<length rids]. if rids ! j = rids ! i then sum_list (masks ! j) else 0)"
proof -
  have "(case rollout_total_mask rids (map sum_list masks) (rids ! i) of None \<Rightarrow> Inl (KeyError ''rid'') | Some x \<Rightarrow> Inr x) = Inr (out ! i)"
    using assms(1,3) by (auto simp: rollout_mask_sums_def Let_def dest: res_map_nth)
  moreover have "map (\<lambda>j. if rids ! j = rids ! i then map sum_list masks ! j else 0) [0..<length rids] =
      map (\<lambda>j. if rids ! j = rids ! i then sum_list (masks ! j) else 0) [0..<length rids]" using assms(2) by simp
  ultimately show ?thesis using assms(2,3) by (simp add: rollout_total_mask_eq del: map_eq_conv)
qed

lemma mask_sums_length: "rollout_mask_sums rids masks = Inr out \<Longrightarrow> length out = length rids"
  by (auto simp: rollout_mask_sums_def Let_def dest: res_map_length)

text \<open>C24: Conversion keeps the batch aligned: tokens and response lengths are the samples', every mask has its response's
  length and is zero for removed samples, samples share a rollout id exactly when they are segments of one rollout, and
  every sample carries the number of trained tokens of its whole rollout as denominator.\<close>

theorem converted_batch_aligned:
  assumes "convert st hook args samples = Inr (samples', d)"
  shows "td_tokens d = map sm_tokens samples \<and> td_response_lengths d = map sm_response_length samples \<and>
    length (td_rewards d) = length samples \<and> td_loss_masks d = map trained_mask samples \<and>
    (\<forall>i < length samples. int (length (td_loss_masks d ! i)) = td_response_lengths d ! i) \<and>
    (\<forall>i < length samples. \<forall>j < length samples. td_rollout_ids d ! i = td_rollout_ids d ! j \<longleftrightarrow>
       i = j \<or> rid_of (samples ! i) \<noteq> None \<and> rid_of (samples ! i) = rid_of (samples ! j)) \<and>
    (\<forall>i < length samples. td_rollout_mask_sums d ! i =
       (\<Sum>j\<leftarrow>[0..<length samples]. if td_rollout_ids d ! j = td_rollout_ids d ! i then sum_list (trained_mask (samples ! j)) else 0))"
proof -
  note f = convert_fields [OF assms]
  have "td_rollout_mask_sums d ! i =
      (\<Sum>j\<leftarrow>[0..<length samples]. if td_rollout_ids d ! j = td_rollout_ids d ! i then sum_list (trained_mask (samples ! j)) else 0)"
    if "i < length samples" for i
  proof -
    have eq: "map (\<lambda>j. if rollout_ids_of samples ! j = rollout_ids_of samples ! i then sum_list (map trained_mask samples ! j) else 0) [0..<length samples] =
        map (\<lambda>j. if rollout_ids_of samples ! j = rollout_ids_of samples ! i then sum_list (trained_mask (samples ! j)) else 0) [0..<length samples]"
      by simp
    from mask_sums_at [OF f(6), of i] that show ?thesis by (simp only: eq f(3) rollout_ids_facts(1) length_map)
  qed
  then show ?thesis using f rollout_ids_facts(3) [of _ samples] by auto
qed

section \<open>A concrete batch\<close>

text \<open>Six segments of four rollouts of two prompts, the batch of the schedule example.\<close>

definition demo_replay_args :: replay_args where
  "demo_replay_args = \<lparr>ra_num_layers = 1, ra_moe_router_topk = 1, ra_num_experts = Some 4, ra_moe_layer_freq = FreqNone\<rparr>"

definition demo_batch_args :: batch_args where
  "demo_batch_args = dp_args.extend sample_args (batch_args.fields None ''reinforce_plus_plus_baseline'' True False 2 2 False (Fin 1) 8
     False demo_replay_args 2 ''object-store'')"

definition demo_segment :: "int \<Rightarrow> int \<Rightarrow> nat \<Rightarrow> int \<Rightarrow> real \<Rightarrow> sample" where
  "demo_segment group_index rollout len response_length reward = sample_new\<lparr>sm_group_index := Some group_index,
     sm_rollout_id := Some rollout, sm_tokens := replicate len 1, sm_response_length := response_length, sm_reward := PyNum reward\<rparr>"

definition demo_samples :: "sample list" where
  "demo_samples = [demo_segment 0 7 3 2 1, demo_segment 0 7 5 1 1, demo_segment 0 8 4 2 0,
     demo_segment 1 9 2 1 1, demo_segment 1 9 6 3 1, demo_segment 1 5 1 0 0]"

lemma demo_post:
  "post_process_rewards None demo_batch_args demo_samples =
    Inr (map PyNum [1, 1, 0, 1, 1, 0], map PyNum [1 / 2, 1 / 2, - 1 / 2, 1 / 2, 1 / 2, - 1 / 2])"
  by (simp add: post_process_rewards_def demo_batch_args_def sample_args_def dp_args.extend_def batch_args.fields_def demo_samples_def demo_segment_def
      sample_new_def get_reward_value_def normalized_rewards_def register_rollout_def rollout_key_of_def rid_of_def reward_number_def
      prompt_groups_def group_pairs_def normalize_groups_def normalize_group_def scatter_def mean_def Let_def upt_rec)

theorem rewards_normalized_per_rollout_witness:
  "map PyNum [1 / 2, 1 / 2, - 1 / 2, 1 / 2, 1 / 2, - 1 / 2] ! 0 = PyNum (1 - mean [1, 0])"
proof -
  have "\<forall>s \<in> set demo_samples. sm_group_index s \<noteq> None"
    by (simp add: demo_samples_def demo_segment_def)
  moreover have "group_rewards demo_samples (map PyNum [1, 1, 0, 1, 1, 0]) (sm_group_index (demo_samples ! 0)) = [1, 0]"
    by (simp add: group_rewards_def rollout_outcomes_def outcome_at_def demo_samples_def demo_segment_def sample_new_def num_of_def
        rollout_key_of_def rid_of_def upt_rec)
  ultimately show ?thesis
    using rewards_normalized_per_rollout [OF demo_post, of 0]
    by (simp add: demo_batch_args_def sample_args_def dp_args.extend_def batch_args.fields_def demo_samples_def reward_scale_def)
qed

lemma demo_convert: "\<exists>samples' d. convert demo_straw None demo_batch_args demo_samples = Inr (samples', d)"
  unfolding convert_def demo_post res_bind_Inr prod.case
  by (simp add: demo_batch_args_def sample_args_def dp_args.extend_def batch_args.fields_def demo_samples_def demo_segment_def
      sample_new_def complete_loss_mask_def rollout_ids_of_def rid_of_def rollout_mask_sums_def rollout_total_mask_def
      round_numbers_def collect_routed_experts_def is_dead_def Let_def fp_eq_def fp_lt.simps)

theorem converted_batch_aligned_witness:
  "\<exists>samples' d. convert demo_straw None demo_batch_args demo_samples = Inr (samples', d) \<and>
    td_loss_masks d = map trained_mask demo_samples \<and> td_tokens d = map sm_tokens demo_samples"
  using demo_convert converted_batch_aligned by metis

section \<open>A rank's view of the batch\<close>

text \<open>\<open>process_rollout_data\<close> of \<open>vime/utils/data.py\<close>: the rank's entry, with its own lengths and raw rewards beside the
  batch's. A raw reward list that is too short raises.\<close>

record local_data = rank_data +
  ld_total_lengths :: "nat list"
  ld_raw_reward :: "py_value list"

definition process_rollout_data :: "rank_data list \<Rightarrow> nat \<Rightarrow> nat \<Rightarrow> local_data result" where
  "process_rollout_data refs dp_rank num_ranks =
     (if length refs \<noteq> num_ranks then Inl (AssertionError ''len(rollout_data_ref) == dp_size'')
      else res_bind (py_nth refs dp_rank) (\<lambda>rd.
        res_bind (res_map (py_nth (rd_total_lengths rd)) (rd_partition rd)) (\<lambda>lengths.
        res_bind (res_map (py_nth (td_raw_reward (rd_fields rd))) (rd_partition rd)) (\<lambda>raw.
        Inr (rank_data.extend rd (local_data.fields lengths raw))))))"

end
