(* ===== verification/Data_Source.thy ===== *)
theory Data_Source
  imports Sample_Types
begin

text \<open>
  \<open>vime/data/data_source.py\<close> with the dataset ordering of \<open>vime/utils/data.py\<close> and the cursor functions of
  \<open>vime/data/rewind.py\<close>: prompts are read epoch by epoch through a cursor, unfinished groups come back
  through a buffer, and a checkpoint restores the cursor and regenerates the groups it lost. The order
  \<open>random.Random(seed).shuffle\<close> gives a list is an argument, as is the loading of the dataset. Samples
  are values, so copying them is the identity.
\<close>

section \<open>Groups of samples\<close>

text \<open>Rollout functions may nest the samples of a group.\<close>

datatype sample_tree = SLeaf sample | SNode "sample_tree list"

type_synonym group = "sample_tree list"

fun iter_samples :: "sample_tree \<Rightarrow> sample list" where
  "iter_samples (SLeaf s) = [s]"
| "iter_samples (SNode ts) = concat (map iter_samples ts)"

abbreviation group_samples :: "group \<Rightarrow> sample list" where
  "group_samples g \<equiv> iter_samples (SNode g)"

section \<open>The dataset\<close>

record dataset =
  ds_origin_samples :: "sample list"
  ds_samples :: "sample list"
  ds_epoch_id :: int
  ds_seed :: int

definition dataset_new :: "sample list \<Rightarrow> int \<Rightarrow> dataset" where
  "dataset_new origin seed = \<lparr>ds_origin_samples = origin, ds_samples = origin, ds_epoch_id = -1, ds_seed = seed\<rparr>"

text \<open>\<open>perm seed n i\<close> is the index that a shuffle of \<open>range(n)\<close> with this seed puts at position \<open>i\<close>.\<close>

type_synonym shuffler = "int \<Rightarrow> nat \<Rightarrow> nat \<Rightarrow> nat"

definition dataset_shuffle :: "shuffler \<Rightarrow> int \<Rightarrow> dataset \<Rightarrow> dataset" where
  "dataset_shuffle perm new_epoch_id d =
     (if ds_epoch_id d = new_epoch_id then d
      else let n = length (ds_samples d) in
        d\<lparr>ds_samples := map (\<lambda>i. ds_origin_samples d ! perm (ds_seed d + new_epoch_id) n i) [0..<n], ds_epoch_id := new_epoch_id\<rparr>)"

section \<open>The source\<close>

record source_args =
  sa_n_samples_per_prompt :: nat
  sa_rollout_shuffle :: bool

text \<open>A source with a buffer is a \<open>RolloutDataSourceWithBuffer\<close>. Consumers are background workers, known by their
  saved state.\<close>

record 'c source =
  src_epoch_id :: int
  src_sample_group_index :: int
  src_sample_index :: int
  src_sample_offset :: int
  src_metadata :: py_dict
  src_dataset :: "dataset option"
  src_buffer :: "group list option"
  src_consumers :: "string \<rightharpoonup> 'c"
  src_restored_consumers :: "string \<rightharpoonup> 'c"

definition source_new :: "shuffler \<Rightarrow> source_args \<Rightarrow> dataset option \<Rightarrow> group list option \<Rightarrow> 'c source" where
  "source_new perm args d buffer = \<lparr>src_epoch_id = 0, src_sample_group_index = 0, src_sample_index = 0, src_sample_offset = 0,
     src_metadata = fmempty, src_dataset = map_option (if sa_rollout_shuffle args then dataset_shuffle perm 0 else (\<lambda>d. d)) d,
     src_buffer = buffer, src_consumers = Map.empty, src_restored_consumers = Map.empty\<rparr>"

lemma length_dataset_shuffle [simp]: "length (ds_samples (dataset_shuffle perm e d)) = length (ds_samples d)"
  by (simp add: dataset_shuffle_def Let_def)

lemma dataset_shuffle_Nil [simp]: "ds_samples (dataset_shuffle perm e d) = [] \<longleftrightarrow> ds_samples d = []"
  by (metis length_0_conv length_dataset_shuffle)

text \<open>Lines 107-117: the loop over the dataset's epochs.\<close>

function take_prompts :: "shuffler \<Rightarrow> bool \<Rightarrow> int \<Rightarrow> dataset \<Rightarrow> int \<Rightarrow> int \<Rightarrow> sample list \<times> dataset \<times> int \<times> int" where
  "take_prompts perm shuf num_samples d epoch offset =
     (if 0 < num_samples \<and> ds_samples d \<noteq> [] then
        let wrap = (int (length (ds_samples d)) \<le> offset);
            d1 = (if wrap \<and> shuf then dataset_shuffle perm (epoch + 1) d else d);
            epoch1 = (if wrap then epoch + 1 else epoch);
            offset1 = (if wrap then 0 else offset);
            n = min num_samples (int (length (ds_samples d1)) - offset1);
            (rest, final) = take_prompts perm shuf (num_samples - n) d1 epoch1 (offset1 + n)
        in (py_slice offset1 (offset1 + n) (ds_samples d1) @ rest, final)
      else ([], d, epoch, offset))"
  by auto

termination
  by (relation "measure (\<lambda>(perm, shuf, num_samples, d, epoch, offset). nat num_samples)") auto

text \<open>Lines 121-132: every prompt becomes a group of numbered samples.\<close>

fun number_groups :: "nat \<Rightarrow> int \<Rightarrow> int \<Rightarrow> sample list \<Rightarrow> group list" where
  "number_groups n group_index index [] = []"
| "number_groups n group_index index (p # ps) =
     map (\<lambda>k. SLeaf (p\<lparr>sm_group_index := Some group_index, sm_index := Some (index + int k)\<rparr>)) [0..<n]
     # number_groups n (group_index + 1) (index + int n) ps"

definition get_dataset_samples :: "shuffler \<Rightarrow> source_args \<Rightarrow> int \<Rightarrow> 'c source \<Rightarrow> 'c source \<times> group list" where
  "get_dataset_samples perm args num_samples s =
     (let (prompts, s1) = (case src_dataset s of
            Some d \<Rightarrow> (let (ps, d', epoch, offset) = take_prompts perm (sa_rollout_shuffle args) num_samples d (src_epoch_id s) (src_sample_offset s)
               in (ps, s\<lparr>src_dataset := Some d', src_epoch_id := epoch, src_sample_offset := offset\<rparr>))
          | None \<Rightarrow> (replicate (nat num_samples) sample_new, s));
          n = sa_n_samples_per_prompt args
      in (s1\<lparr>src_sample_group_index := src_sample_group_index s1 + int (length prompts),
             src_sample_index := src_sample_index s1 + int (n * length prompts)\<rparr>,
          number_groups n (src_sample_group_index s) (src_sample_index s) prompts))"

section \<open>The buffer\<close>

text \<open>\<open>int(v)\<close> of a version that \<open>isascii\<close> and, without one leading minus, \<open>isdigit\<close>.\<close>

definition is_digit :: "char \<Rightarrow> bool" where
  "is_digit c \<longleftrightarrow> (of_char c :: nat) \<in> {48..57}"

definition digits_value :: "string \<Rightarrow> int" where
  "digits_value cs = foldl (\<lambda>v c. 10 * v + int (of_char c - 48)) 0 cs"

definition parse_version :: "string \<Rightarrow> int option" where
  "parse_version v =
     (let ds = (case v of c # cs \<Rightarrow> if c = CHR ''-'' then cs else v | [] \<Rightarrow> []) in
      if ds = [] \<or> \<not> list_all is_digit ds then None
      else Some (if ds = v then digits_value ds else - digits_value ds))"

text \<open>The least numeric weight version of a group; \<open>None\<close> is infinity.\<close>

definition oldest_version :: "group \<Rightarrow> int option" where
  "oldest_version g =
     (let vs = List.map_filter parse_version (concat (map sm_weight_versions (group_samples g))) in
      if vs = [] then None else Some (Min (set vs)))"

fun version_lt :: "int option \<Rightarrow> int option \<Rightarrow> bool" where
  "version_lt (Some a) (Some b) = (a < b)"
| "version_lt (Some a) None = True"
| "version_lt None b = False"

type_synonym buffer_filter = "group list \<Rightarrow> int \<Rightarrow> group list \<times> group list"

text \<open>The popped groups and the buffer that remains.\<close>

definition pop_first :: buffer_filter where
  "pop_first buffer num_samples =
     (let num_to_pop = min (int (length buffer)) num_samples in
      (py_slice 0 num_to_pop buffer, py_slice num_to_pop (int (length buffer)) buffer))"

definition pop_oldest :: buffer_filter where
  "pop_oldest buffer num_samples = pop_first (py_sorted (\<lambda>g h. version_lt (oldest_version g) (oldest_version h)) buffer) num_samples"

definition get_samples_from_buffer :: "buffer_filter \<Rightarrow> int \<Rightarrow> group list \<Rightarrow> group list \<times> group list" where
  "get_samples_from_buffer filt num_samples buffer =
     (if buffer = [] \<or> num_samples = 0 then ([], buffer) else filt buffer num_samples)"

definition get_samples :: "shuffler \<Rightarrow> buffer_filter \<Rightarrow> source_args \<Rightarrow> int \<Rightarrow> 'c source \<Rightarrow> 'c source \<times> group list" where
  "get_samples perm filt args num_samples s =
     (case src_buffer s of
        None \<Rightarrow> get_dataset_samples perm args num_samples s
      | Some buffer \<Rightarrow>
          (let (popped, rest) = get_samples_from_buffer filt num_samples buffer;
               s1 = s\<lparr>src_buffer := Some rest\<rparr>; missing = num_samples - int (length popped) in
           if missing = 0 then (s1, popped)
           else let (s2, fresh) = get_dataset_samples perm args missing s1 in (s2, popped @ fresh)))"

text \<open>Groups before one of the wrong size stay in the buffer when the assertion fails.\<close>

fun add_groups :: "nat \<Rightarrow> group list \<Rightarrow> (group list, unit) op" where
  "add_groups n [] = op_return ()"
| "add_groups n (g # gs) =
     (if length g \<noteq> n then op_raise (AssertionError ''the length of the elements of samples must be equal to n_samples_per_prompt'')
      else op_bind (op_modify (\<lambda>buffer. buffer @ [g])) (\<lambda>_. add_groups n gs))"

definition add_samples :: "source_args \<Rightarrow> group list \<Rightarrow> ('c source, unit) op" where
  "add_samples args groups = (\<lambda>s.
     case src_buffer s of
       None \<Rightarrow> (s, Inl (RuntimeError ''Cannot add samples to a read-only data source.''))
     | Some buffer \<Rightarrow> (case add_groups (sa_n_samples_per_prompt args) groups buffer of (buffer', r) \<Rightarrow> (s\<lparr>src_buffer := Some buffer'\<rparr>, r)))"

section \<open>Consumers and checkpoints\<close>

definition register_consumer :: "string \<Rightarrow> 'c \<Rightarrow> ('c source, unit) op" where
  "register_consumer name consumer = (\<lambda>s.
     if src_consumers s name \<noteq> None then (s, Inl (ValueError ''Consumer already registered''))
     else (case src_restored_consumers s name of
         Some state \<Rightarrow> (s\<lparr>src_consumers := (src_consumers s)(name \<mapsto> state), src_restored_consumers := (src_restored_consumers s)(name := None)\<rparr>, Inr ())
       | None \<Rightarrow> (s\<lparr>src_consumers := (src_consumers s)(name \<mapsto> consumer)\<rparr>, Inr ())))"

record 'c source_state =
  st_sample_offset :: int
  st_epoch_id :: int
  st_sample_group_index :: int
  st_sample_index :: int
  st_metadata :: py_dict
  st_buffer :: "group list option"
  st_consumers :: "string \<rightharpoonup> 'c"

definition state_dict :: "'c source \<Rightarrow> 'c source_state" where
  "state_dict s = \<lparr>st_sample_offset = src_sample_offset s, st_epoch_id = src_epoch_id s,
     st_sample_group_index = src_sample_group_index s, st_sample_index = src_sample_index s, st_metadata = src_metadata s,
     st_buffer = src_buffer s, st_consumers = src_restored_consumers s ++ src_consumers s\<rparr>"

definition load_state_dict :: "shuffler \<Rightarrow> source_args \<Rightarrow> 'c source_state \<Rightarrow> 'c source \<Rightarrow> 'c source" where
  "load_state_dict perm args state s =
     (let s1 = s\<lparr>src_sample_offset := st_sample_offset state, src_epoch_id := st_epoch_id state,
            src_sample_group_index := st_sample_group_index state, src_sample_index := st_sample_index state,
            src_metadata := st_metadata state,
            src_buffer := (case st_buffer state of None \<Rightarrow> src_buffer s | Some b \<Rightarrow> Some b),
            src_restored_consumers := st_consumers state\<rparr>
      in if sa_rollout_shuffle args then s1\<lparr>src_dataset := map_option (dataset_shuffle perm (src_epoch_id s1)) (src_dataset s1)\<rparr> else s1)"

section \<open>Rewinding to a cursor\<close>

record cursor =
  cu_sample_offset :: int
  cu_epoch_id :: int
  cu_sample_group_index :: int
  cu_sample_index :: int
  cu_metadata :: py_dict

definition cursor_of :: "'c source \<Rightarrow> cursor" where
  "cursor_of s = \<lparr>cu_sample_offset = src_sample_offset s, cu_epoch_id = src_epoch_id s,
     cu_sample_group_index = src_sample_group_index s, cu_sample_index = src_sample_index s, cu_metadata = src_metadata s\<rparr>"

definition restore_dataset_cursor :: "shuffler \<Rightarrow> bool \<Rightarrow> cursor \<Rightarrow> ('c source, unit) op" where
  "restore_dataset_cursor perm shuf c = (\<lambda>s.
     if cu_sample_offset c < 0 \<or> cu_epoch_id c < 0 \<or> cu_sample_group_index c < 0 \<or> cu_sample_index c < 0
     then (s, Inl (ValueError ''Dataset cursor counters must be nonnegative integers''))
     else if (case src_dataset s of None \<Rightarrow> False | Some d \<Rightarrow> int (length (ds_samples d)) < cu_sample_offset c)
     then (s, Inl (ValueError ''Dataset cursor offset exceeds the dataset size''))
     else (s\<lparr>src_dataset := (if shuf then map_option (dataset_shuffle perm (cu_epoch_id c)) (src_dataset s) else src_dataset s),
             src_sample_offset := cu_sample_offset c, src_epoch_id := cu_epoch_id c,
             src_sample_group_index := cu_sample_group_index c, src_sample_index := cu_sample_index c,
             src_metadata := cu_metadata c\<rparr>, Inr ()))"

text \<open>\<open>fresh_samples\<close> keeps the prompt inputs of a sample; on a group it returns the same nesting.\<close>

definition fresh_sample :: "sample \<Rightarrow> sample" where
  "fresh_sample s = sample_new\<lparr>sm_group_index := sm_group_index s, sm_index := sm_index s, sm_prompt := sm_prompt s,
     sm_multimodal_inputs := sm_multimodal_inputs s, sm_apply_chat_template_kwargs := sm_apply_chat_template_kwargs s,
     sm_label := sm_label s, sm_metadata := sm_metadata s, sm_generate_function_path := sm_generate_function_path s,
     sm_custom_rm_path := sm_custom_rm_path s, sm_train_metadata := sm_train_metadata s\<rparr>"

fun fresh_samples :: "sample_tree \<Rightarrow> sample_tree" where
  "fresh_samples (SLeaf s) = SLeaf (fresh_sample s)"
| "fresh_samples (SNode ts) = SNode (map fresh_samples ts)"

text \<open>What has been restored already: original inputs by digest, dataset groups by id.\<close>

datatype regen_key = ByDigest string | ByGroup "int option"

text \<open>Lines 62-65: the original inputs a group's samples refer to, by digest and with the stored group.\<close>

fun restore_originals :: "(string \<times> group) list \<Rightarrow> group list \<times> regen_key list \<Rightarrow> group list \<times> regen_key list" where
  "restore_originals [] st = st"
| "restore_originals ((digest, g) # refs) (restored, seen) =
     restore_originals refs (if ByDigest digest \<in> set seen then (restored, seen) else (restored @ [g], seen @ [ByDigest digest]))"

text \<open>Lines 72-88: rereading one group of the dataset.\<close>

definition reread_group :: "shuffler \<Rightarrow> source_args \<Rightarrow> bool \<Rightarrow> cursor \<Rightarrow> int \<Rightarrow> ('c source, group list) op" where
  "reread_group perm args shuf c group_id = (\<lambda>s. case src_dataset s of
       None \<Rightarrow> (s, Inl (TypeError ''object of type NoneType has no len()''))
     | Some d \<Rightarrow>
         let distance = cu_sample_group_index c - group_id; size = int (length (ds_samples d));
             absolute = cu_epoch_id c * size + cu_sample_offset c - distance in
         if distance \<le> 0 \<or> absolute < 0
         then (s, Inl (ValueError ''Checkpoint sample identity is inconsistent with its dataset cursor''))
         else if size = 0 then (s, Inl ZeroDivisionError)
         else let s1 = s\<lparr>src_epoch_id := absolute div size, src_sample_offset := absolute mod size,
                src_sample_group_index := group_id,
                src_sample_index := cu_sample_index c - distance * int (sa_n_samples_per_prompt args),
                src_metadata := cu_metadata c,
                src_dataset := Some (if shuf then dataset_shuffle perm (absolute div size) d else d)\<rparr>;
              (s2, groups) = get_dataset_samples perm args 1 s1 in (s2, Inr groups))"

text \<open>One round of the loop, for a group with the references \<open>original_input\<close> finds on its samples.\<close>

definition regenerate_group ::
  "shuffler \<Rightarrow> source_args \<Rightarrow> bool \<Rightarrow> cursor \<Rightarrow> (sample \<Rightarrow> (string \<times> group) option) \<Rightarrow> group \<Rightarrow>
   group list \<times> regen_key list \<Rightarrow> ('c source, group list \<times> regen_key list) op" where
  "regenerate_group perm args shuf c original_input g = (\<lambda>(restored, seen).
     let samples = group_samples g; originals = map original_input samples in
     if originals \<noteq> [] \<and> None \<notin> set originals
     then op_return (restore_originals (map the originals) (restored, seen))
     else if \<forall>s \<in> set samples. sm_status s = PENDING \<and> sm_response_length s = 0
     then op_return (restored @ [g], seen)
     else op_bind (op_get (\<lambda>s. src_buffer s = None \<and> src_dataset s \<noteq> None)) (\<lambda>from_dataset.
       if \<not> from_dataset then op_return (restored @ [map fresh_samples g], seen)
       else let group_id = sm_group_index (hd samples) in
         if ByGroup group_id \<in> set seen then op_return (restored, seen)
         else case group_id of
           None \<Rightarrow> op_raise (TypeError ''unsupported operand type(s) for -: int and NoneType'')
         | Some gid \<Rightarrow> op_bind (reread_group perm args shuf c gid) (\<lambda>groups.
             op_return (restored @ groups, seen @ [ByGroup group_id]))))"

fun regenerate_loop ::
  "shuffler \<Rightarrow> source_args \<Rightarrow> bool \<Rightarrow> cursor \<Rightarrow> (sample \<Rightarrow> (string \<times> group) option) \<Rightarrow> group list \<Rightarrow>
   group list \<times> regen_key list \<Rightarrow> ('c source, group list \<times> regen_key list) op" where
  "regenerate_loop perm args shuf c original_input [] st = op_return st"
| "regenerate_loop perm args shuf c original_input (g # gs) st =
     op_bind (regenerate_group perm args shuf c original_input g st) (regenerate_loop perm args shuf c original_input gs)"

definition regeneration_groups ::
  "shuffler \<Rightarrow> source_args \<Rightarrow> bool \<Rightarrow> cursor \<Rightarrow> (sample \<Rightarrow> (string \<times> group) option) \<Rightarrow> group list \<Rightarrow> ('c source, group list) op" where
  "regeneration_groups perm args shuf c original_input groups =
     op_bind (regenerate_loop perm args shuf c original_input groups ([], [])) (\<lambda>(restored, seen).
     op_bind (restore_dataset_cursor perm shuf c) (\<lambda>_. op_return restored))"

section \<open>The stream of prompts\<close>

text \<open>The order of an epoch, and the prompt at an absolute position of the endless sequence of epochs.\<close>

definition epoch_order :: "shuffler \<Rightarrow> bool \<Rightarrow> sample list \<Rightarrow> int \<Rightarrow> int \<Rightarrow> sample list" where
  "epoch_order perm shuf origin seed e =
     (if shuf then map (\<lambda>i. origin ! perm (seed + e) (length origin) i) [0..<length origin] else origin)"

definition stream_prompt :: "shuffler \<Rightarrow> bool \<Rightarrow> sample list \<Rightarrow> int \<Rightarrow> int \<Rightarrow> sample" where
  "stream_prompt perm shuf origin seed a =
     epoch_order perm shuf origin seed (a div int (length origin)) ! nat (a mod int (length origin))"

text \<open>The dataset is ordered for epoch \<open>e\<close>.\<close>

definition ds_at :: "shuffler \<Rightarrow> bool \<Rightarrow> sample list \<Rightarrow> int \<Rightarrow> int \<Rightarrow> dataset \<Rightarrow> bool" where
  "ds_at perm shuf origin seed e d \<longleftrightarrow> d = \<lparr>ds_origin_samples = origin, ds_samples = epoch_order perm shuf origin seed e,
     ds_epoch_id = (if shuf then e else -1), ds_seed = seed\<rparr>"

lemma length_epoch_order [simp]: "length (epoch_order perm shuf origin seed e) = length origin"
  by (simp add: epoch_order_def)

lemma ds_at_sel:
  assumes "ds_at perm shuf origin seed e d"
  shows "ds_samples d = epoch_order perm shuf origin seed e" "length (ds_samples d) = length origin"
  using assms by (simp_all add: ds_at_def)

lemma shuffle_ds_at:
  assumes "ds_at perm True origin seed e d \<or> d = dataset_new origin seed" "0 \<le> e'"
  shows "ds_at perm True origin seed e' (dataset_shuffle perm e' d)"
  using assms by (auto simp: ds_at_def dataset_shuffle_def dataset_new_def epoch_order_def Let_def)

lemma stream_prompt_at:
  assumes "0 \<le> i" "i < int (length origin)"
  shows "stream_prompt perm shuf origin seed (e * int (length origin) + i) = epoch_order perm shuf origin seed e ! nat i"
proof -
  have "(e * int (length origin) + i) div int (length origin) = e" using assms
    by (metis (no_types) add.commute div_mult_self1 div_pos_pos_trivial add.right_neutral less_le_not_le order_le_less_trans mult.commute)
  then show ?thesis using assms by (simp add: stream_prompt_def)
qed

declare take_prompts.simps [simp del]

lemma take_prompts_stream:
  assumes "ds_at perm shuf origin seed e d" "0 \<le> e" "0 \<le> off" "off \<le> int (length origin)" "origin \<noteq> []" "0 \<le> k"
  shows "\<exists>d' e' off'. take_prompts perm shuf k d e off =
      (map (\<lambda>j. stream_prompt perm shuf origin seed (e * int (length origin) + off + int j)) [0..<nat k], d', e', off') \<and>
    ds_at perm shuf origin seed e' d' \<and> 0 \<le> e' \<and> 0 \<le> off' \<and> off' \<le> int (length origin) \<and>
    e' * int (length origin) + off' = e * int (length origin) + off + k"
  using assms
proof (induction perm shuf k d e off rule: take_prompts.induct)
  case (1 perm shuf k d e off)
  let ?n = "int (length origin)" and ?P = "stream_prompt perm shuf origin seed"
  show ?case
  proof (cases "k = 0")
    case True
    with "1.prems" show ?thesis by (auto simp: take_prompts.simps)
  next
    case False
    define wrap where "wrap \<longleftrightarrow> int (length (ds_samples d)) \<le> off"
    define d1 where "d1 = (if wrap \<and> shuf then dataset_shuffle perm (e + 1) d else d)"
    define e1 where "e1 = (if wrap then e + 1 else e)"
    define o1 where "o1 = (if wrap then 0 else off)"
    define c where "c = min k (int (length (ds_samples d1)) - o1)"
    have len: "length (ds_samples d) = length origin" using "1.prems"(1) by (rule ds_at_sel)
    have d1: "ds_at perm shuf origin seed e1 d1"
      using "1.prems"(1,2) shuffle_ds_at [of perm origin seed e d "e + 1"]
      by (auto simp: d1_def e1_def ds_at_def epoch_order_def)
    have pos: "e1 * ?n + o1 = e * ?n + off" "0 \<le> o1" "o1 < ?n"
      using "1.prems"(3,4,5) len by (auto simp: wrap_def e1_def o1_def algebra_simps)
    have c: "0 < c" "c \<le> k" "o1 + c \<le> ?n"
      using False "1.prems"(6) pos ds_at_sel(2) [OF d1] by (auto simp: c_def)
    have ne: "0 < k" "ds_samples d \<noteq> []" using False "1.prems"(5,6) len by auto
    have "\<exists>d' e' off'. take_prompts perm shuf (k - c) d1 e1 (o1 + c) =
        (map (\<lambda>j. ?P (e1 * ?n + (o1 + c) + int j)) [0..<nat (k - c)], d', e', off') \<and>
      ds_at perm shuf origin seed e' d' \<and> 0 \<le> e' \<and> 0 \<le> off' \<and> off' \<le> ?n \<and>
      e' * ?n + off' = e1 * ?n + (o1 + c) + (k - c)"
      by (rule "1.IH" [OF _ wrap_def d1_def e1_def o1_def c_def]) (use ne d1 "1.prems"(2,5) pos(2) c in \<open>auto simp: e1_def\<close>)
    then obtain d' e' off' where IH: "take_prompts perm shuf (k - c) d1 e1 (o1 + c) =
        (map (\<lambda>j. ?P (e1 * ?n + (o1 + c) + int j)) [0..<nat (k - c)], d', e', off')"
      "ds_at perm shuf origin seed e' d'" "0 \<le> e'" "0 \<le> off'" "off' \<le> ?n"
      "e' * ?n + off' = e1 * ?n + (o1 + c) + (k - c)" by blast
    have slice: "py_slice o1 (o1 + c) (ds_samples d1) = map (\<lambda>j. ?P (e * ?n + off + int j)) [0..<nat c]"
    proof (rule nth_equalityI)
      show "length (py_slice o1 (o1 + c) (ds_samples d1)) = length (map (\<lambda>j. ?P (e * ?n + off + int j)) [0..<nat c])"
        using pos c ds_at_sel(2) [OF d1] by (simp add: py_slice_def clamp_index_def slice_def)
    next
      fix j assume "j < length (py_slice o1 (o1 + c) (ds_samples d1))"
      then have j: "int j < c" using pos c ds_at_sel(2) [OF d1] by (auto simp: py_slice_def clamp_index_def slice_def)
      have "e * ?n + off + int j = e1 * ?n + (o1 + int j)" using pos(1) by simp
      then have "?P (e * ?n + off + int j) = epoch_order perm shuf origin seed e1 ! nat (o1 + int j)"
        using stream_prompt_at [of "o1 + int j" origin perm shuf seed e1] pos j c by (simp only:)
      then show "py_slice o1 (o1 + c) (ds_samples d1) ! j = map (\<lambda>j. ?P (e * ?n + off + int j)) [0..<nat c] ! j"
        using pos c j ds_at_sel [OF d1] by (simp add: py_slice_def clamp_index_def slice_def nat_add_distrib)
    qed
    have "map (\<lambda>j. ?P (e * ?n + off + int j)) [0..<nat k] = map (\<lambda>j. ?P (e * ?n + off + int j)) [0..<nat c] @
        map (\<lambda>j. ?P (e1 * ?n + (o1 + c) + int j)) [0..<nat (k - c)]"
    proof (rule nth_equalityI)
      fix j assume "j < length (map (\<lambda>j. ?P (e * ?n + off + int j)) [0..<nat k])"
      then show "map (\<lambda>j. ?P (e * ?n + off + int j)) [0..<nat k] ! j =
          (map (\<lambda>j. ?P (e * ?n + off + int j)) [0..<nat c] @ map (\<lambda>j. ?P (e1 * ?n + (o1 + c) + int j)) [0..<nat (k - c)]) ! j"
        using pos(1) c by (auto simp: nth_append of_nat_diff nat_le_iff algebra_simps)
    qed (use c in \<open>simp add: nat_diff_distrib\<close>)
    moreover have "take_prompts perm shuf k d e off =
        (py_slice o1 (o1 + c) (ds_samples d1) @ map (\<lambda>j. ?P (e1 * ?n + (o1 + c) + int j)) [0..<nat (k - c)], d', e', off')"
      using ne IH(1) by (subst take_prompts.simps) (simp add: Let_def wrap_def d1_def e1_def o1_def c_def)
    ultimately show ?thesis using IH(2-6) pos(1) by (auto simp: slice)
  qed
qed

section \<open>Numbered groups\<close>

definition numbered :: "nat \<Rightarrow> int \<Rightarrow> int \<Rightarrow> sample \<Rightarrow> group" where
  "numbered n group_index index p =
     map (\<lambda>k. SLeaf (p\<lparr>sm_group_index := Some group_index, sm_index := Some (index + int k)\<rparr>)) [0..<n]"

lemma number_groups_eq:
  "number_groups n gi si ps = map (\<lambda>j. numbered n (gi + int j) (si + int (n * j)) (ps ! j)) [0..<length ps]"
proof (induction ps arbitrary: gi si)
  case (Cons p ps)
  have "[0..<Suc (length ps)] = 0 # map Suc [0..<length ps]" by (simp add: upt_conv_Cons map_Suc_upt del: upt_Suc)
  then show ?case using Cons.IH [of "gi + 1" "si + int n"] by (simp add: numbered_def o_def algebra_simps)
qed simp

text \<open>Group \<open>g\<close> of the stream: the prompt at position \<open>g\<close>, numbered as the \<open>g\<close>-th group.\<close>

definition stream_group :: "shuffler \<Rightarrow> source_args \<Rightarrow> sample list \<Rightarrow> int \<Rightarrow> int \<Rightarrow> group" where
  "stream_group perm args origin seed g = numbered (sa_n_samples_per_prompt args) g (g * int (sa_n_samples_per_prompt args))
     (stream_prompt perm (sa_rollout_shuffle args) origin seed g)"

definition stream_groups :: "shuffler \<Rightarrow> source_args \<Rightarrow> sample list \<Rightarrow> int \<Rightarrow> int \<Rightarrow> nat \<Rightarrow> group list" where
  "stream_groups perm args origin seed g k = map (\<lambda>j. stream_group perm args origin seed (g + int j)) [0..<k]"

lemma stream_groups_append:
  "stream_groups perm args origin seed g a @ stream_groups perm args origin seed (g + int a) b = stream_groups perm args origin seed g (a + b)"
  by (rule nth_equalityI) (auto simp: stream_groups_def nth_append of_nat_diff)

text \<open>The cursor agrees with the number of groups taken, and the dataset with the epoch.\<close>

definition source_ok :: "shuffler \<Rightarrow> source_args \<Rightarrow> sample list \<Rightarrow> int \<Rightarrow> 'c source \<Rightarrow> bool" where
  "source_ok perm args origin seed s \<longleftrightarrow>
     (\<exists>d. src_dataset s = Some d \<and> ds_at perm (sa_rollout_shuffle args) origin seed (src_epoch_id s) d) \<and>
     0 \<le> src_epoch_id s \<and> 0 \<le> src_sample_offset s \<and> src_sample_offset s \<le> int (length origin) \<and>
     src_sample_group_index s = src_epoch_id s * int (length origin) + src_sample_offset s \<and>
     src_sample_index s = src_sample_group_index s * int (sa_n_samples_per_prompt args)"

definition same_rest :: "'c source \<Rightarrow> 'c source \<Rightarrow> bool" where
  "same_rest s s' \<longleftrightarrow> src_buffer s' = src_buffer s \<and> src_metadata s' = src_metadata s \<and> src_consumers s' = src_consumers s \<and>
     src_restored_consumers s' = src_restored_consumers s"

lemma get_dataset_samples_stream:
  assumes ok: "source_ok perm args origin seed s" and "origin \<noteq> []" "0 \<le> k"
    and get: "get_dataset_samples perm args k s = (s', gs)"
  shows "gs = stream_groups perm args origin seed (src_sample_group_index s) (nat k) \<and> source_ok perm args origin seed s' \<and>
    src_sample_group_index s' = src_sample_group_index s + k \<and> same_rest s s'"
proof -
  let ?n = "sa_n_samples_per_prompt args" and ?g = "src_sample_group_index s"
  let ?P = "stream_prompt perm (sa_rollout_shuffle args) origin seed"
  obtain d where d: "src_dataset s = Some d" "ds_at perm (sa_rollout_shuffle args) origin seed (src_epoch_id s) d"
    using ok by (auto simp: source_ok_def)
  obtain d' e' off' where tp: "take_prompts perm (sa_rollout_shuffle args) k d (src_epoch_id s) (src_sample_offset s) =
      (map (\<lambda>j. ?P (?g + int j)) [0..<nat k], d', e', off')" "ds_at perm (sa_rollout_shuffle args) origin seed e' d'"
      "0 \<le> e'" "0 \<le> off'" "off' \<le> int (length origin)" "e' * int (length origin) + off' = ?g + k"
    using take_prompts_stream [OF d(2), of "src_sample_offset s" k] ok assms(2,3) by (auto simp: source_ok_def)
  have s': "s' = s\<lparr>src_dataset := Some d', src_epoch_id := e', src_sample_offset := off',
      src_sample_group_index := ?g + k, src_sample_index := src_sample_index s + int ?n * k\<rparr>"
    and gs: "gs = number_groups ?n ?g (src_sample_index s) (map (\<lambda>j. ?P (?g + int j)) [0..<nat k])"
    using get d(1) tp(1) assms(3) by (simp_all add: get_dataset_samples_def Let_def split_beta algebra_simps)
  have "gs = stream_groups perm args origin seed ?g (nat k)"
    unfolding gs number_groups_eq stream_groups_def stream_group_def using ok
    by (simp add: source_ok_def algebra_simps)
  moreover have "source_ok perm args origin seed s'"
    using ok tp(2-6) by (simp add: s' source_ok_def algebra_simps)
  ultimately show ?thesis by (simp add: s' same_rest_def)
qed

section \<open>Buffer filters\<close>

text \<open>What the source relies on in a buffer filter: it splits the buffer and fills the request as far as it can.\<close>

locale group_filter =
  fixes filt :: buffer_filter
  assumes split: "0 \<le> k \<Longrightarrow> filt buffer k = (popped, rest) \<Longrightarrow> mset popped + mset rest = mset buffer"
    and fill: "0 \<le> k \<Longrightarrow> filt buffer k = (popped, rest) \<Longrightarrow> length popped = min (length buffer) (nat k)"
begin

lemma from_buffer:
  assumes "0 \<le> k" "get_samples_from_buffer filt k buffer = (popped, rest)"
  shows "mset popped + mset rest = mset buffer" "length popped = min (length buffer) (nat k)"
  using assms split fill by (auto simp: get_samples_from_buffer_def split: if_splits)

text \<open>A request is filled from the buffer first and from the stream for the rest.\<close>

lemma get_samples_split:
  assumes ok: "source_ok perm args origin seed s" and "origin \<noteq> []" "0 \<le> k" and get: "get_samples perm filt args k s = (s', gs)"
    and buffer: "src_buffer s = Some buffer"
  shows "\<exists>popped rest. gs = popped @ stream_groups perm args origin seed (src_sample_group_index s) (nat k - length popped) \<and>
    mset popped + mset rest = mset buffer \<and> length popped = min (length buffer) (nat k) \<and> src_buffer s' = Some rest \<and>
    source_ok perm args origin seed s' \<and> src_sample_group_index s' = src_sample_group_index s + k - int (length popped)"
proof -
  obtain popped rest where pr: "get_samples_from_buffer filt k buffer = (popped, rest)" by fastforce
  note b = from_buffer [OF assms(3) pr]
  let ?s = "s\<lparr>src_buffer := Some rest\<rparr>" and ?m = "k - int (length popped)"
  have ok': "source_ok perm args origin seed ?s" using ok by (simp add: source_ok_def)
  show ?thesis
  proof (cases "?m = 0")
    case True
    then have "s' = ?s" "gs = popped" using get pr buffer by (auto simp: get_samples_def)
    then show ?thesis using b ok' True by - (rule exI [of _ popped], rule exI [of _ rest], auto simp: stream_groups_def)
  next
    case False
    obtain s2 fresh where f: "get_dataset_samples perm args ?m ?s = (s2, fresh)" by fastforce
    have "0 \<le> ?m" using b(2) assms(3) by linarith
    note st = get_dataset_samples_stream [OF ok' assms(2) this f]
    have "nat ?m = nat k - length popped" using assms(3) by linarith
    then have "fresh = stream_groups perm args origin seed (src_sample_group_index s) (nat k - length popped)" using st by simp
    moreover have "s' = s2" "gs = popped @ fresh" using get pr buffer f False by (auto simp: get_samples_def)
    ultimately show ?thesis using st b by - (rule exI [of _ popped], rule exI [of _ rest], auto simp: same_rest_def)
  qed
qed

end

lemma pop_first_nat: "0 \<le> k \<Longrightarrow> pop_first buffer k = (take (nat k) buffer, drop (nat k) buffer)"
  by (auto simp: pop_first_def Let_def py_slice_nat slice_def min_def nat_le_iff)

lemma pop_first_laws:
  assumes "0 \<le> k" "pop_first buffer k = (popped, rest)"
  shows "mset popped + mset rest = mset buffer" "length popped = min (length buffer) (nat k)"
  using assms by (auto simp: pop_first_nat mset_append [symmetric] simp del: mset_append)

interpretation first: group_filter pop_first
  by unfold_locales (rule pop_first_laws, assumption+)+

interpretation oldest: group_filter pop_oldest
proof
  fix k buffer popped rest assume k: "0 \<le> k" and p: "pop_oldest buffer k = (popped, rest)"
  let ?sorted = "py_sorted (\<lambda>g h. version_lt (oldest_version g) (oldest_version h)) buffer"
  have "pop_first ?sorted k = (popped, rest)" using p by (simp add: pop_oldest_def)
  from pop_first_laws [OF k this] show "mset popped + mset rest = mset buffer" "length popped = min (length buffer) (nat k)"
    by (simp_all add: length_py_sorted mset_py_sorted)
qed

section \<open>Runs of a source\<close>

text \<open>
  \<open>source_run perm filt args origin seed buffered s added out\<close>: a source over the prompts \<open>origin\<close> that
  has been asked for groups, given groups back and restarted from its own checkpoints any number of times
  is in state \<open>s\<close>; \<open>added\<close> are the groups its buffer accepted and \<open>out\<close> those it served, in order.
\<close>

definition accepted :: "source_args \<Rightarrow> 'c source \<Rightarrow> group list \<Rightarrow> group list" where
  "accepted args s gs = (if src_buffer s = None then [] else takeWhile (\<lambda>g. length g = sa_n_samples_per_prompt args) gs)"

inductive source_run :: "shuffler \<Rightarrow> buffer_filter \<Rightarrow> source_args \<Rightarrow> sample list \<Rightarrow> int \<Rightarrow> bool \<Rightarrow>
    'c source \<Rightarrow> group list \<Rightarrow> group list \<Rightarrow> bool"
  for perm filt args origin seed buffered where
  run_new: "source_run perm filt args origin seed buffered
     (source_new perm args (Some (dataset_new origin seed)) (if buffered then Some [] else None)) [] []"
| run_get: "source_run perm filt args origin seed buffered s added out \<Longrightarrow> 0 \<le> k \<Longrightarrow>
     get_samples perm filt args k s = (s', gs) \<Longrightarrow> source_run perm filt args origin seed buffered s' added (out @ gs)"
| run_add: "source_run perm filt args origin seed buffered s added out \<Longrightarrow> add_samples args gs s = (s', r) \<Longrightarrow>
     source_run perm filt args origin seed buffered s' (added @ accepted args s gs) out"
| run_register: "source_run perm filt args origin seed buffered s added out \<Longrightarrow> register_consumer name c s = (s', r) \<Longrightarrow>
     source_run perm filt args origin seed buffered s' added out"
| run_restart: "source_run perm filt args origin seed buffered s added out \<Longrightarrow>
     source_run perm filt args origin seed buffered (load_state_dict perm args (state_dict s)
       (source_new perm args (Some (dataset_new origin seed)) (if buffered then Some [] else None))) added out"

inductive_cases run_addE: "source_run perm filt args origin seed buffered s added out"

lemma source_new_ok:
  "source_ok perm args origin seed (source_new perm args (Some (dataset_new origin seed)) b)"
  by (auto simp: source_ok_def source_new_def ds_at_def dataset_new_def dataset_shuffle_def epoch_order_def Let_def)

lemma restart_ok:
  assumes "source_ok perm args origin seed s"
  shows "source_ok perm args origin seed (load_state_dict perm args (state_dict s)
    (source_new perm args (Some (dataset_new origin seed)) b))"
  using assms by (auto simp: source_ok_def load_state_dict_def state_dict_def source_new_def ds_at_def dataset_new_def
      dataset_shuffle_def epoch_order_def Let_def)

lemma restart_fields [simp]:
  "src_buffer (load_state_dict perm args (state_dict s) t) = (case src_buffer s of None \<Rightarrow> src_buffer t | Some b \<Rightarrow> Some b)"
  "src_sample_group_index (load_state_dict perm args (state_dict s) t) = src_sample_group_index s"
  by (simp_all add: load_state_dict_def state_dict_def Let_def)

lemma add_groups_buffer:
  "fst (add_groups n gs buffer) = buffer @ takeWhile (\<lambda>g. length g = n) gs"
  by (induction gs arbitrary: buffer) (simp_all add: op_return_def op_raise_def op_bind_def op_modify_def)

lemma add_samples_frame:
  assumes "add_samples args gs s = (s', r)"
  shows "s' = s\<lparr>src_buffer := map_option (\<lambda>b. b @ accepted args s gs) (src_buffer s)\<rparr>"
proof (cases "src_buffer s")
  case (Some b)
  obtain b' r' where "add_groups (sa_n_samples_per_prompt args) gs b = (b', r')" by fastforce
  then show ?thesis using assms Some add_groups_buffer [of "sa_n_samples_per_prompt args" gs b]
    by (simp add: add_samples_def accepted_def)
qed (use assms in \<open>simp add: add_samples_def\<close>)

lemma register_consumer_frame:
  assumes "register_consumer name c s = (s', r)"
  shows "src_dataset s' = src_dataset s \<and> src_epoch_id s' = src_epoch_id s \<and> src_sample_offset s' = src_sample_offset s \<and>
    src_sample_group_index s' = src_sample_group_index s \<and> src_sample_index s' = src_sample_index s \<and> src_buffer s' = src_buffer s"
  using assms by (auto simp: register_consumer_def split: if_splits option.splits)

lemma source_new_buffer [simp]: "src_buffer (source_new perm args d b) = b"
  by (simp add: source_new_def)

text \<open>What the buffer of a source holds; nothing for a read-only source.\<close>

definition buffered_groups :: "'c source \<Rightarrow> group list" where
  "buffered_groups s = (case src_buffer s of None \<Rightarrow> [] | Some b \<Rightarrow> b)"

context group_filter
begin

lemma run_conserves:
  assumes "source_run perm filt args origin seed buffered s added out" "origin \<noteq> []"
  shows "source_ok perm args origin seed s \<and> (src_buffer s = None \<longleftrightarrow> \<not> buffered) \<and>
    mset out + mset (buffered_groups s) = mset added + mset (stream_groups perm args origin seed 0 (nat (src_sample_group_index s)))"
  using assms(1)
proof (induction rule: source_run.induct)
  case run_new
  show ?case by (simp add: source_new_ok) (simp add: source_new_def buffered_groups_def stream_groups_def)
next
  case (run_get s added out k s' gs)
  then have ok: "source_ok perm args origin seed s" by simp
  then have g0: "0 \<le> src_sample_group_index s" by (simp add: source_ok_def)
  show ?case
  proof (cases "src_buffer s")
    case None
    then have "get_dataset_samples perm args k s = (s', gs)" using run_get by (simp add: get_samples_def)
    note st = get_dataset_samples_stream [OF ok assms(2) run_get.hyps(2) this]
    have "stream_groups perm args origin seed 0 (nat (src_sample_group_index s')) =
        stream_groups perm args origin seed 0 (nat (src_sample_group_index s)) @ gs"
      using st g0 run_get.hyps(2) stream_groups_append [of perm args origin seed 0 "nat (src_sample_group_index s)" "nat k"]
      by (simp add: nat_add_distrib)
    then show ?thesis using st run_get.IH None
      by (simp add: same_rest_def buffered_groups_def)
  next
    case (Some b)
    obtain popped rest where p: "gs = popped @ stream_groups perm args origin seed (src_sample_group_index s) (nat k - length popped)"
      "mset popped + mset rest = mset b" "length popped = min (length b) (nat k)" "src_buffer s' = Some rest"
      "source_ok perm args origin seed s'" "src_sample_group_index s' = src_sample_group_index s + k - int (length popped)"
      using get_samples_split [OF ok assms(2) run_get.hyps(2,3) Some] by blast
    have "nat (src_sample_group_index s') = nat (src_sample_group_index s) + (nat k - length popped)"
      using p(3,6) g0 run_get.hyps(2) by linarith
    then have "stream_groups perm args origin seed 0 (nat (src_sample_group_index s')) =
        stream_groups perm args origin seed 0 (nat (src_sample_group_index s)) @
        stream_groups perm args origin seed (src_sample_group_index s) (nat k - length popped)"
      using stream_groups_append [of perm args origin seed 0 "nat (src_sample_group_index s)" "nat k - length popped"] g0 by simp
    then show ?thesis using p(1,2,4,5) run_get.IH Some
      by (simp add: buffered_groups_def add.assoc)
  qed
next
  case (run_add s added out gs s' r)
  note s' = add_samples_frame [OF run_add.hyps(2)]
  show ?case using run_add.IH
    by (cases "src_buffer s") (auto simp: s' source_ok_def buffered_groups_def accepted_def ac_simps)
next
  case (run_register s added out name c s' r)
  show ?case using run_register.IH register_consumer_frame [OF run_register.hyps(2)] by (simp add: source_ok_def buffered_groups_def)
next
  case (run_restart s added out)
  then show ?case by (auto simp: restart_ok buffered_groups_def split: option.split)
qed

end

lemma read_only_run:
  assumes "source_run perm filt args origin seed False s added out" "origin \<noteq> []"
  shows "source_ok perm args origin seed s \<and> src_buffer s = None \<and> added = [] \<and>
    out = stream_groups perm args origin seed 0 (nat (src_sample_group_index s))"
  using assms(1)
proof (induction rule: source_run.induct)
  case run_new
  show ?case by (simp add: source_new_ok) (simp add: source_new_def stream_groups_def)
next
  case (run_get s added out k s' gs)
  then have ok: "source_ok perm args origin seed s" and g: "get_dataset_samples perm args k s = (s', gs)"
    by (auto simp: get_samples_def)
  have "0 \<le> src_sample_group_index s" using ok by (simp add: source_ok_def)
  then show ?case using get_dataset_samples_stream [OF ok assms(2) run_get.hyps(2) g] run_get
      stream_groups_append [of perm args origin seed 0 "nat (src_sample_group_index s)" "nat k"]
    by (simp add: same_rest_def nat_add_distrib)
next
  case (run_add s added out gs s' r)
  then show ?case using add_samples_frame [OF run_add.hyps(2)] by (auto simp: source_ok_def accepted_def)
next
  case (run_register s added out name c s' r)
  show ?case using run_register.IH register_consumer_frame [OF run_register.hyps(2)] by (simp add: source_ok_def)
next
  case (run_restart s added out)
  then show ?case by (simp add: restart_ok)
qed

text \<open>An epoch of the stream visits every prompt once, when the shuffle is a permutation.\<close>

lemma epoch_order_mset:
  assumes "shuf \<Longrightarrow> bij_betw (perm (seed + e) (length origin)) {..<length origin} {..<length origin}"
  shows "mset (epoch_order perm shuf origin seed e) = mset origin"
proof (cases shuf)
  case True
  let ?n = "length origin" and ?p = "perm (seed + e) (length origin)"
  have "mset (map ?p [0..<?n]) = mset [0..<?n]"
    using assms [OF True] by (intro set_eq_iff_mset_eq_distinct [THEN iffD1])
      (auto simp: distinct_map bij_betw_def lessThan_atLeast0 [symmetric])
  then have "image_mset ((!) origin) (mset (map ?p [0..<?n])) = image_mset ((!) origin) (mset [0..<?n])" by (rule arg_cong)
  also have "\<dots> = mset (map ((!) origin) [0..<?n])" by (simp only: mset_map)
  finally show ?thesis using True by (simp add: epoch_order_def multiset.map_comp o_def map_nth del: mset_upt)
qed (simp add: epoch_order_def)

section \<open>Regenerating a checkpoint's groups\<close>

text \<open>A state that a rewind of \<open>s\<close> may pass through: the same source with its dataset ordered for some epoch.\<close>

definition rewound :: "shuffler \<Rightarrow> source_args \<Rightarrow> sample list \<Rightarrow> int \<Rightarrow> 'c source \<Rightarrow> 'c source \<Rightarrow> bool" where
  "rewound perm args origin seed s t \<longleftrightarrow> src_buffer t = src_buffer s \<and> src_consumers t = src_consumers s \<and>
     src_restored_consumers t = src_restored_consumers s \<and>
     (\<exists>d e. src_dataset t = Some d \<and> 0 \<le> e \<and> ds_at perm (sa_rollout_shuffle args) origin seed e d)"

lemma rewound_refl: "source_ok perm args origin seed s \<Longrightarrow> rewound perm args origin seed s s"
  by (auto simp: source_ok_def rewound_def)

lemma shuffled_ds_at:
  assumes "ds_at perm shuf origin seed e d" "0 \<le> e'"
  shows "ds_at perm shuf origin seed e' (if shuf then dataset_shuffle perm e' d else d)"
  using assms shuffle_ds_at [of perm origin seed e d e'] by (cases shuf) (auto simp: ds_at_def epoch_order_def)

lemma reread_group_stream:
  assumes ok: "source_ok perm args origin seed s" and rew: "rewound perm args origin seed s t" and ne: "origin \<noteq> []"
    and gid: "0 \<le> gid" "gid < src_sample_group_index s"
  shows "\<exists>t'. reread_group perm args (sa_rollout_shuffle args) (cursor_of s) gid t =
    (t', Inr [stream_group perm args origin seed gid]) \<and> rewound perm args origin seed s t'"
proof -
  let ?size = "int (length origin)" and ?shuf = "sa_rollout_shuffle args"
  obtain d e where d: "src_dataset t = Some d" "ds_at perm ?shuf origin seed e d" using rew by (auto simp: rewound_def)
  have size: "0 < ?size" using ne by simp
  have abs: "src_epoch_id s * ?size + src_sample_offset s - (src_sample_group_index s - gid) = gid"
    using ok by (simp add: source_ok_def)
  have si: "src_sample_index s - (src_sample_group_index s - gid) * int (sa_n_samples_per_prompt args) =
      gid * int (sa_n_samples_per_prompt args)"
    using ok by (simp add: source_ok_def algebra_simps)
  define t1 where "t1 = t\<lparr>src_epoch_id := gid div ?size, src_sample_offset := gid mod ?size, src_sample_group_index := gid,
    src_sample_index := gid * int (sa_n_samples_per_prompt args), src_metadata := src_metadata s,
    src_dataset := Some (if ?shuf then dataset_shuffle perm (gid div ?size) d else d)\<rparr>"
  have epoch: "0 \<le> gid div ?size" using gid(1) size by (simp add: pos_imp_zdiv_nonneg_iff)
  have "source_ok perm args origin seed t1"
    using shuffled_ds_at [OF d(2) epoch] epoch size
    by (simp add: source_ok_def t1_def mult.commute order_less_imp_le)
  moreover obtain t' gs where get: "get_dataset_samples perm args 1 t1 = (t', gs)" by fastforce
  ultimately have st: "gs = stream_groups perm args origin seed gid 1" "source_ok perm args origin seed t'" "same_rest t1 t'"
    using get_dataset_samples_stream [OF _ ne _ get] by (simp_all add: t1_def)
  have "reread_group perm args ?shuf (cursor_of s) gid t = (t', Inr gs)"
    unfolding reread_group_def cursor_of_def cursor.select_convs d(1) option.case Let_def ds_at_sel(2) [OF d(2)] abs si
    using gid size get by (simp add: t1_def)
  moreover have "rewound perm args origin seed s t'"
    using st(2,3) rew by (auto simp: rewound_def same_rest_def t1_def source_ok_def)
  ultimately show ?thesis using st(1) by (simp add: stream_groups_def)
qed

lemma restore_cursor_of:
  assumes ok: "source_ok perm args origin seed s" and rew: "rewound perm args origin seed s t"
  shows "restore_dataset_cursor perm (sa_rollout_shuffle args) (cursor_of s) t = (s, Inr ())"
proof -
  let ?shuf = "sa_rollout_shuffle args"
  obtain d e where d: "src_dataset t = Some d" "ds_at perm ?shuf origin seed e d" using rew by (auto simp: rewound_def)
  obtain d0 where d0: "src_dataset s = Some d0" "ds_at perm ?shuf origin seed (src_epoch_id s) d0" "0 \<le> src_epoch_id s"
    using ok by (auto simp: source_ok_def)
  have "(if ?shuf then dataset_shuffle perm (src_epoch_id s) d else d) = d0"
    using shuffled_ds_at [OF d(2) d0(3)] d0(2) by (simp add: ds_at_def)
  moreover have "0 \<le> src_sample_group_index s" "0 \<le> src_sample_index s" "0 \<le> src_sample_offset s"
      "src_sample_offset s \<le> int (length (ds_samples d))" using ok ds_at_sel(2) [OF d(2)] by (auto simp: source_ok_def)
  ultimately have "restore_dataset_cursor perm ?shuf (cursor_of s) t = (t\<lparr>src_dataset := Some d0,
      src_sample_offset := src_sample_offset s, src_epoch_id := src_epoch_id s, src_sample_group_index := src_sample_group_index s,
      src_sample_index := src_sample_index s, src_metadata := src_metadata s\<rparr>, Inr ())"
    using d(1) d0(3) by (auto simp: restore_dataset_cursor_def cursor_of_def)
  also have "\<dots> = (s, Inr ())" using rew d0(1) by (auto simp: rewound_def intro!: source.equality)
  finally show ?thesis .
qed

text \<open>
  What is left of a list of groups. A group whose samples all refer to their original input gives way to
  the inputs behind the digests not met before; a group that nothing has been generated for stays; any
  other group gives way to the group originally served under its index, once, or, for a source that
  cannot reread (\<open>served = None\<close>), to its own prompts.
\<close>

definition pending_group :: "group \<Rightarrow> bool" where
  "pending_group g \<longleftrightarrow> (\<forall>s \<in> set (group_samples g). sm_status s = PENDING \<and> sm_response_length s = 0)"

definition group_id :: "group \<Rightarrow> int option" where
  "group_id g = sm_group_index (hd (group_samples g))"

definition has_originals :: "(sample \<Rightarrow> (string \<times> group) option) \<Rightarrow> group \<Rightarrow> bool" where
  "has_originals orig g \<longleftrightarrow> group_samples g \<noteq> [] \<and> (\<forall>s \<in> set (group_samples g). orig s \<noteq> None)"

definition original_refs :: "(sample \<Rightarrow> (string \<times> group) option) \<Rightarrow> group \<Rightarrow> (string \<times> group) list" where
  "original_refs orig g = map (the \<circ> orig) (group_samples g)"

fun new_originals :: "string set \<Rightarrow> (string \<times> group) list \<Rightarrow> group list" where
  "new_originals digests [] = []"
| "new_originals digests ((d, g) # refs) =
     (if d \<in> digests then new_originals digests refs else g # new_originals (insert d digests) refs)"

fun regenerated :: "(sample \<Rightarrow> (string \<times> group) option) \<Rightarrow> (int \<Rightarrow> group) option \<Rightarrow> string set \<Rightarrow> int set \<Rightarrow>
    group list \<Rightarrow> group list" where
  "regenerated orig served digests ids [] = []"
| "regenerated orig served digests ids (g # gs) =
     (if has_originals orig g
      then new_originals digests (original_refs orig g) @
        regenerated orig served (digests \<union> fst ` set (original_refs orig g)) ids gs
      else if pending_group g then g # regenerated orig served digests ids gs
      else case served of
        None \<Rightarrow> map fresh_samples g # regenerated orig served digests ids gs
      | Some f \<Rightarrow> (case group_id g of
            None \<Rightarrow> []
          | Some i \<Rightarrow> if i \<in> ids then regenerated orig served digests ids gs
              else f i # regenerated orig served digests (insert i ids) gs))"

lemma regenerate_group_alt:
  "regenerate_group perm args shuf c orig g (restored, keys) =
     (if has_originals orig g then op_return (restore_originals (original_refs orig g) (restored, keys))
      else if pending_group g then op_return (restored @ [g], keys)
      else op_bind (op_get (\<lambda>s. src_buffer s = None \<and> src_dataset s \<noteq> None)) (\<lambda>from_dataset.
       if \<not> from_dataset then op_return (restored @ [map fresh_samples g], keys)
       else if ByGroup (group_id g) \<in> set keys then op_return (restored, keys)
       else case group_id g of
           None \<Rightarrow> op_raise (TypeError ''unsupported operand type(s) for -: int and NoneType'')
         | Some gid \<Rightarrow> op_bind (reread_group perm args shuf c gid) (\<lambda>groups.
             op_return (restored @ groups, keys @ [ByGroup (group_id g)]))))"
proof -
  let ?os = "map orig (group_samples g)"
  have orig: "(?os \<noteq> [] \<and> None \<notin> set ?os) = has_originals orig g"
    unfolding has_originals_def set_map image_iff map_is_Nil_conv by metis
  have refs: "map the ?os = original_refs orig g" by (simp add: original_refs_def)
  show ?thesis
    unfolding regenerate_group_def Let_def prod.case orig refs pending_group_def group_id_def by (rule refl)
qed

text \<open>The keys of the loop's set are the digests and the group indices met so far.\<close>

definition regen_keys :: "string set \<Rightarrow> int set \<Rightarrow> regen_key set" where
  "regen_keys digests ids = ByDigest ` digests \<union> (\<lambda>i. ByGroup (Some i)) ` ids"

lemma regen_keys_mem [simp]:
  "ByDigest d \<in> regen_keys digests ids \<longleftrightarrow> d \<in> digests"
  "ByGroup (Some i) \<in> regen_keys digests ids \<longleftrightarrow> i \<in> ids"
  by (auto simp: regen_keys_def)

lemma regen_keys_insert:
  "insert (ByDigest d) (regen_keys digests ids) = regen_keys (insert d digests) ids"
  "insert (ByGroup (Some i)) (regen_keys digests ids) = regen_keys digests (insert i ids)"
  by (auto simp: regen_keys_def)

lemma restore_originals_new:
  "set keys = regen_keys digests ids \<Longrightarrow>
   \<exists>keys'. restore_originals refs (restored, keys) = (restored @ new_originals digests refs, keys') \<and>
     set keys' = regen_keys (digests \<union> fst ` set refs) ids"
proof (induction refs arbitrary: restored keys digests)
  case (Cons r refs)
  obtain d g where r: "r = (d, g)" by fastforce
  show ?case
  proof (cases "d \<in> digests")
    case True
    then show ?thesis using Cons.IH [OF Cons.prems] Cons.prems by (simp add: r insert_absorb)
  next
    case False
    have "set (keys @ [ByDigest d]) = regen_keys (insert d digests) ids"
      using Cons.prems by (simp add: regen_keys_insert)
    from Cons.IH [OF this, of "restored @ [g]"] show ?thesis using False Cons.prems by (simp add: r)
  qed
qed simp

lemma regenerate_loop_stream:
  assumes ok: "source_ok perm args origin seed s" and ne: "origin \<noteq> []"
    and served: "served = (if src_buffer s = None then Some (stream_group perm args origin seed) else None)"
  shows "rewound perm args origin seed s t \<Longrightarrow> set keys = regen_keys digests ids \<Longrightarrow>
      \<forall>g \<in> set gs. has_originals orig g \<or> pending_group g \<or> src_buffer s \<noteq> None \<or>
        (\<exists>i. group_id g = Some i \<and> 0 \<le> i \<and> i < src_sample_group_index s) \<Longrightarrow>
    \<exists>t' keys'. regenerate_loop perm args (sa_rollout_shuffle args) (cursor_of s) orig gs (restored, keys) t =
      (t', Inr (restored @ regenerated orig served digests ids gs, keys')) \<and> rewound perm args origin seed s t'"
proof (induction gs arbitrary: t keys digests ids restored)
  case (Cons g gs)
  let ?step = "regenerate_group perm args (sa_rollout_shuffle args) (cursor_of s) orig g (restored, keys) t"
  have IH: "?step = (t', Inr (restored @ r, keys')) \<Longrightarrow> rewound perm args origin seed s t' \<Longrightarrow>
      set keys' = regen_keys digests' ids' \<Longrightarrow>
      regenerated orig served digests ids (g # gs) = r @ regenerated orig served digests' ids' gs \<Longrightarrow> ?case"
    for t' r keys' digests' ids'
    using Cons.IH [of t' keys' digests' ids' "restored @ r"] Cons.prems(3) by (simp add: op_bind_def)
  obtain d where src: "src_buffer t = src_buffer s" "src_dataset t = Some d"
    using Cons.prems(1) by (auto simp: rewound_def)
  consider (originals) "has_originals orig g" | (pending) "\<not> has_originals orig g" "pending_group g"
    | (buffered) "\<not> has_originals orig g" "\<not> pending_group g" "src_buffer s \<noteq> None"
    | (begun) i where "\<not> has_originals orig g" "\<not> pending_group g" "src_buffer s = None"
        "group_id g = Some i" "0 \<le> i" "i < src_sample_group_index s"
    using Cons.prems(3) by auto
  then show ?case
  proof cases
    case originals
    obtain keys' where k: "restore_originals (original_refs orig g) (restored, keys) =
        (restored @ new_originals digests (original_refs orig g), keys')"
      "set keys' = regen_keys (digests \<union> fst ` set (original_refs orig g)) ids"
      using restore_originals_new [OF Cons.prems(2)] by blast
    show ?thesis
      by (rule IH [OF _ Cons.prems(1) k(2)]) (use originals k(1) in \<open>simp_all add: regenerate_group_alt op_return_def\<close>)
  next
    case pending
    show ?thesis
      by (rule IH [of t "[g]" keys, OF _ Cons.prems(1,2)]) (use pending in \<open>simp_all add: regenerate_group_alt op_return_def\<close>)
  next
    case buffered
    have none: "served = None" using buffered(3) served by simp
    show ?thesis
      by (rule IH [of t "[map fresh_samples g]" keys, OF _ Cons.prems(1,2)])
        (use buffered src none in \<open>simp_all add: regenerate_group_alt op_return_def op_bind_def op_get_def\<close>)
  next
    case (begun i)
    have spec: "served = Some (stream_group perm args origin seed)" "\<not> has_originals orig g" "\<not> pending_group g"
      "group_id g = Some i" using begun served by simp_all
    have step: "?step = (if i \<in> ids then (t, Inr (restored, keys))
        else (op_bind (reread_group perm args (sa_rollout_shuffle args) (cursor_of s) i)
          (\<lambda>groups. op_return (restored @ groups, keys @ [ByGroup (Some i)]))) t)"
      using begun(1-4) src Cons.prems(2) by (simp add: regenerate_group_alt op_return_def op_bind_def op_get_def)
    show ?thesis
    proof (cases "i \<in> ids")
      case True
      show ?thesis by (rule IH [of t "[]" keys, OF _ Cons.prems(1,2)]) (use True spec step in simp_all)
    next
      case False
      obtain t' where t': "reread_group perm args (sa_rollout_shuffle args) (cursor_of s) i t =
          (t', Inr [stream_group perm args origin seed i])" "rewound perm args origin seed s t'"
        using reread_group_stream [OF ok Cons.prems(1) ne begun(5,6)] by blast
      show ?thesis
        by (rule IH [of t' "[stream_group perm args origin seed i]" "keys @ [ByGroup (Some i)]" digests "insert i ids"])
          (use False spec step t' Cons.prems(2) in \<open>simp_all add: op_bind_def op_return_def regen_keys_insert\<close>)
    qed
  qed
qed (auto simp: op_return_def)

lemma regenerated_cong:
  "(\<And>g i. g \<in> set gs \<Longrightarrow> \<not> has_originals orig g \<Longrightarrow> \<not> pending_group g \<Longrightarrow> group_id g = Some i \<Longrightarrow> f i = h i) \<Longrightarrow>
   regenerated orig (Some f) digests ids gs = regenerated orig (Some h) digests ids gs"
  by (induction gs arbitrary: digests ids) (auto split: option.split)

text \<open>The least version decides the order in which \<open>pop_oldest\<close> resumes groups; a group without one comes last.\<close>

interpretation version: strict_weak_order "\<lambda>g h. version_lt (oldest_version g) (oldest_version h)"
proof
  have asym: "version_lt x y \<Longrightarrow> \<not> version_lt y x" for x y by (cases x; cases y) auto
  have weak: "version_lt x z \<Longrightarrow> version_lt x y \<or> version_lt y z" for x y z by (cases x; cases y; cases z) auto
  show "version_lt (oldest_version g) (oldest_version h) \<Longrightarrow> \<not> version_lt (oldest_version h) (oldest_version g)" for g h
    by (rule asym)
  show "version_lt (oldest_version g) (oldest_version i) \<Longrightarrow>
      version_lt (oldest_version g) (oldest_version h) \<or> version_lt (oldest_version h) (oldest_version i)" for g h i
    by (rule weak)
qed

section \<open>Properties\<close>

text \<open>C26: A read-only source serves the endless sequence of epochs in order, without a gap or a repetition, however the
  requests are cut and however often it is restarted from its checkpoint: after any run the groups served are exactly
  the first groups of the stream, numbered from zero, each with its samples numbered consecutively.\<close>

theorem read_only_source_serves_stream:
  assumes "source_run perm filt args origin seed False s added out" "origin \<noteq> []"
  shows "out = map (\<lambda>g. map (\<lambda>k. SLeaf ((stream_prompt perm (sa_rollout_shuffle args) origin seed (int g))
      \<lparr>sm_group_index := Some (int g), sm_index := Some (int g * int (sa_n_samples_per_prompt args) + int k)\<rparr>))
      [0..<sa_n_samples_per_prompt args]) [0..<nat (src_sample_group_index s)]"
  using read_only_run [OF assms] by (simp add: stream_groups_def stream_group_def numbered_def)

text \<open>C28: No group is lost or duplicated by the buffer, under either built-in filter: what a buffered source has served
  and what its buffer holds is what was added to it and the first groups of the stream, as multisets.\<close>

theorem buffered_source_conserves_groups:
  assumes "filt = pop_first \<or> filt = pop_oldest" "source_run perm filt args origin seed True s added out" "origin \<noteq> []"
  shows "mset out + mset (buffered_groups s) =
    mset added + mset (stream_groups perm args origin seed 0 (nat (src_sample_group_index s)))"
  using assms first.run_conserves oldest.run_conserves by blast

text \<open>Every epoch serves every prompt once: when the shuffle permutes, the prompts at the positions of an epoch are the
  prompts of the dataset, in some order.\<close>

theorem epoch_serves_every_prompt:
  assumes "\<And>s. bij_betw (perm s (length origin)) {..<length origin} {..<length origin}"
  shows "mset (map (\<lambda>j. stream_prompt perm shuf origin seed (e * int (length origin) + int j)) [0..<length origin]) = mset origin"
proof -
  have "map (\<lambda>j. stream_prompt perm shuf origin seed (e * int (length origin) + int j)) [0..<length origin] =
      epoch_order perm shuf origin seed e"
    by (rule nth_equalityI) (auto simp: stream_prompt_at)
  then show ?thesis using epoch_order_mset [of shuf perm seed e origin] assms by metis
qed

text \<open>C27: Regenerating the groups a checkpoint holds leaves the source exactly as it was and loses no
  group, for a source over a non-empty dataset after any run, read-only or with a buffer under a built-in filter, and whatever
  references to original inputs the samples carry. In order: a group whose samples all carry one is
  replaced by the original inputs, each digest restored once; of the others a group that had not begun
  is kept, and a group that had begun is replaced, once for all its parts, by the very group that a
  read-only source had served under its index, and for a buffered source by its own prompts, part by part.
  A read-only source needs each group of the last kind to carry an index it has served.\<close>

theorem regeneration_recovers_served_groups:
  assumes "source_run perm filt args origin seed buffered s added out" "origin \<noteq> []"
    and "buffered \<longrightarrow> filt = pop_first \<or> filt = pop_oldest"
    and "\<forall>g \<in> set gs. has_originals orig g \<or> pending_group g \<or> buffered \<or>
      (\<exists>i. group_id g = Some i \<and> 0 \<le> i \<and> i < src_sample_group_index s)"
  shows "regeneration_groups perm args (sa_rollout_shuffle args) (cursor_of s) orig gs s =
    (s, Inr (regenerated orig (if buffered then None else Some (\<lambda>i. out ! nat i)) {} {} gs))"
proof -
  have run: "source_ok perm args origin seed s" "src_buffer s = None \<longleftrightarrow> \<not> buffered"
  proof -
    have "source_ok perm args origin seed s \<and> (src_buffer s = None \<longleftrightarrow> \<not> buffered)"
    proof (cases buffered)
      case True
      then show ?thesis using assms(1-3) first.run_conserves oldest.run_conserves by blast
    next
      case False
      then show ?thesis using read_only_run [of perm filt args origin seed s added out] assms(1,2) by simp
    qed
    then show "source_ok perm args origin seed s" "src_buffer s = None \<longleftrightarrow> \<not> buffered" by simp_all
  qed
  let ?served = "if src_buffer s = None then Some (stream_group perm args origin seed) else None"
  have groups: "\<forall>g \<in> set gs. has_originals orig g \<or> pending_group g \<or> src_buffer s \<noteq> None \<or>
      (\<exists>i. group_id g = Some i \<and> 0 \<le> i \<and> i < src_sample_group_index s)" using assms(4) run(2) by auto
  have start: "set [] = regen_keys {} {}" by (simp add: regen_keys_def)
  obtain t' keys' where loop: "regenerate_loop perm args (sa_rollout_shuffle args) (cursor_of s) orig gs ([], []) s =
      (t', Inr (regenerated orig ?served {} {} gs, keys'))" "rewound perm args origin seed s t'"
    using regenerate_loop_stream [OF run(1) assms(2) refl rewound_refl [OF run(1)] start groups, of "[]"] by auto
  have "regenerated orig (Some (stream_group perm args origin seed)) {} {} gs = regenerated orig (Some (\<lambda>i. out ! nat i)) {} {} gs"
    if "\<not> buffered"
  proof (rule regenerated_cong)
    fix g i assume "g \<in> set gs" "\<not> has_originals orig g" "\<not> pending_group g" "group_id g = Some i"
    then have "0 \<le> i" "i < src_sample_group_index s" using assms(4) that by auto
    then show "stream_group perm args origin seed i = out ! nat i"
      using read_only_run [of perm filt args origin seed s added out] assms(1,2) that by (simp add: stream_groups_def)
  qed
  then show ?thesis using loop restore_cursor_of [OF run(1) loop(2)] run(2)
    by (simp add: regeneration_groups_def op_bind_def op_return_def)
qed

text \<open>\<open>pop_oldest\<close> resumes the groups with the oldest generated tokens first: no group left in the buffer has an
  older weight version than one that was popped.\<close>

theorem pop_oldest_takes_oldest:
  assumes "0 \<le> k" "pop_oldest buffer k = (popped, rest)" "g \<in> set popped" "h \<in> set rest"
  shows "\<not> version_lt (oldest_version h) (oldest_version g)"
proof -
  let ?sorted = "py_sorted (\<lambda>g h. version_lt (oldest_version g) (oldest_version h)) buffer"
  have "?sorted = popped @ rest" using assms(1,2) by (auto simp: pop_oldest_def pop_first_nat)
  then have "sorted_wrt (\<lambda>g h. \<not> version_lt (oldest_version h) (oldest_version g)) (popped @ rest)"
    using version.sorted_py_sorted [of buffer] by simp
  then show ?thesis using assms(3,4) by (simp add: sorted_wrt_append)
qed

section \<open>Witnesses\<close>

definition demo_perm :: shuffler where
  "demo_perm s n i = (if s mod 2 = 0 then i else n - 1 - i)"

definition demo_prompt :: "string \<Rightarrow> sample" where
  "demo_prompt p = sample_new\<lparr>sm_prompt := PyStr p\<rparr>"

definition demo_origin :: "sample list" where
  "demo_origin = [demo_prompt ''a'', demo_prompt ''b'', demo_prompt ''c'']"

definition demo_source_args :: source_args where
  "demo_source_args = \<lparr>sa_n_samples_per_prompt = 2, sa_rollout_shuffle = True\<rparr>"

definition demo_new :: "bool \<Rightarrow> unit source" where
  "demo_new buffered = source_new demo_perm demo_source_args (Some (dataset_new demo_origin 42)) (if buffered then Some [] else None)"

text \<open>Four groups, a restart, and one more group.\<close>

definition demo_first :: "unit source \<times> group list" where
  "demo_first = get_samples demo_perm pop_first demo_source_args 4 (demo_new False)"

definition demo_second :: "unit source \<times> group list" where
  "demo_second = get_samples demo_perm pop_first demo_source_args 1
     (load_state_dict demo_perm demo_source_args (state_dict (fst demo_first)) (demo_new False))"

definition demo_out :: "group list" where
  "demo_out = snd demo_first @ snd demo_second"

lemma demo_run: "source_run demo_perm pop_first demo_source_args demo_origin 42 False (fst demo_second) [] demo_out"
proof -
  have "source_run demo_perm pop_first demo_source_args demo_origin 42 False (fst demo_first) [] ([] @ snd demo_first)"
    by (rule run_get [OF run_new, of 4]) (simp_all add: demo_first_def demo_new_def)
  from run_get [OF run_restart [OF this], of 1 "fst demo_second" "snd demo_second"] show ?thesis
    by (simp add: demo_second_def demo_new_def demo_out_def)
qed

lemma demo_origin_ne: "demo_origin \<noteq> []"
  by (simp add: demo_origin_def)

lemma demo_index: "src_sample_group_index (fst demo_second) = 5"
  by code_simp

lemma demo_served:
  "map (map (\<lambda>s. (sm_prompt s, sm_index s)) \<circ> group_samples) demo_out =
    [[(PyStr ''a'', Some 0), (PyStr ''a'', Some 1)], [(PyStr ''b'', Some 2), (PyStr ''b'', Some 3)],
     [(PyStr ''c'', Some 4), (PyStr ''c'', Some 5)], [(PyStr ''c'', Some 6), (PyStr ''c'', Some 7)],
     [(PyStr ''b'', Some 8), (PyStr ''b'', Some 9)]]"
  by code_simp

theorem read_only_source_serves_stream_witness:
  "src_sample_group_index (fst demo_second) = 5 \<and> demo_out = map (\<lambda>g. map (\<lambda>k. SLeaf ((stream_prompt demo_perm True demo_origin 42 (int g))
      \<lparr>sm_group_index := Some (int g), sm_index := Some (int g * 2 + int k)\<rparr>)) [0..<2]) [0..<5]"
  using read_only_source_serves_stream [OF demo_run demo_origin_ne] demo_index by (simp add: demo_source_args_def)

text \<open>Two groups come back to the buffer after generation under versions 12 and 3; a third request pops the older.\<close>

definition demo_buffered :: "unit source \<times> group list" where
  "demo_buffered = get_samples demo_perm pop_oldest demo_source_args 2 (demo_new True)"

definition with_version :: "string \<Rightarrow> sample \<Rightarrow> sample_tree" where
  "with_version v s = SLeaf (s\<lparr>sm_weight_versions := [v], sm_response_length := 7, sm_status := ABORTED\<rparr>)"

definition demo_returned :: "group list" where
  "demo_returned = map2 (\<lambda>v g. map (with_version v) (group_samples g)) [''12'', ''3''] (snd demo_buffered)"

definition demo_added :: "unit source" where
  "demo_added = fst (add_samples demo_source_args demo_returned (fst demo_buffered))"

definition demo_third :: "unit source \<times> group list" where
  "demo_third = get_samples demo_perm pop_oldest demo_source_args 1 demo_added"

lemma demo_accepted: "accepted demo_source_args (fst demo_buffered) demo_returned = demo_returned"
  by code_simp

lemma demo_buffered_run:
  "source_run demo_perm pop_oldest demo_source_args demo_origin 42 True (fst demo_third) demo_returned (snd demo_buffered @ snd demo_third)"
proof -
  have "source_run demo_perm pop_oldest demo_source_args demo_origin 42 True (fst demo_buffered) [] ([] @ snd demo_buffered)"
    by (rule run_get [OF run_new, of 2]) (simp_all add: demo_buffered_def demo_new_def)
  from run_add [OF this, of demo_returned demo_added "snd (add_samples demo_source_args demo_returned (fst demo_buffered))"]
  have "source_run demo_perm pop_oldest demo_source_args demo_origin 42 True demo_added demo_returned (snd demo_buffered)"
    by (simp add: demo_accepted demo_added_def)
  from run_get [OF this, of 1 "fst demo_third" "snd demo_third"] show ?thesis by (simp add: demo_third_def)
qed

lemma demo_popped: "map group_id (snd demo_third) = [Some 1] \<and> map group_id (buffered_groups (fst demo_third)) = [Some 0]"
  by code_simp

theorem buffered_source_conserves_groups_witness:
  "map group_id (buffered_groups (fst demo_third)) = [Some 0] \<and>
   mset (snd demo_buffered @ snd demo_third) + mset (buffered_groups (fst demo_third)) =
   mset demo_returned + mset (stream_groups demo_perm demo_source_args demo_origin 42 0 (nat (src_sample_group_index (fst demo_third))))"
  using buffered_source_conserves_groups [OF disjI2 [OF refl] demo_buffered_run demo_origin_ne] demo_popped by simp

lemma demo_perm_permutes: "bij_betw (demo_perm s n) {..<n} {..<n}"
  by (rule bij_betw_byWitness [where f' = "demo_perm s n"]) (auto simp: demo_perm_def)

theorem epoch_serves_every_prompt_witness:
  "mset (map (\<lambda>j. stream_prompt demo_perm True demo_origin 42 (1 * int (length demo_origin) + int j)) [0..<length demo_origin]) = mset demo_origin"
  by (rule epoch_serves_every_prompt [of demo_perm demo_origin, OF demo_perm_permutes])

text \<open>Of five groups in the checkpoint, the first two are parts of group 3, which has begun, the third has not, and the
  last two are parts of group 2 whose samples refer to their original input.\<close>

definition demo_original :: "sample \<Rightarrow> (string \<times> group) option" where
  "demo_original s = (if sm_group_index s = Some 2 then Some (''digest'', demo_out ! 2) else None)"

definition demo_checkpoint :: "group list" where
  "demo_checkpoint = [map (with_version ''1'') (group_samples (demo_out ! 3)), map (with_version ''2'') (group_samples (demo_out ! 3)),
     demo_out ! 4, map (with_version ''1'') (group_samples (demo_out ! 2)), map (with_version ''2'') (group_samples (demo_out ! 2))]"

theorem regeneration_recovers_served_groups_witness:
  "regeneration_groups demo_perm demo_source_args (sa_rollout_shuffle demo_source_args) (cursor_of (fst demo_second)) demo_original
     demo_checkpoint (fst demo_second) = (fst demo_second, Inr [demo_out ! 3, demo_out ! 4, demo_out ! 2])"
proof -
  define h where "h k = demo_checkpoint ! k" for k
  have list: "demo_checkpoint = [h 0, h 1, h 2, h 3, h 4]" "h 2 = demo_out ! 4" by (simp_all add: h_def demo_checkpoint_def)
  have ids: "map group_id demo_checkpoint = [Some 3, Some 3, Some 4, Some 2, Some 2]"
    "map pending_group demo_checkpoint = [False, False, True, False, False]"
    "map (has_originals demo_original) demo_checkpoint = [False, False, False, True, True]"
    "map (\<lambda>g. map fst (original_refs demo_original g)) (drop 3 demo_checkpoint) = [[''digest'', ''digest''], [''digest'', ''digest'']]"
    by code_simp+
  note facts = ids [unfolded list(1), simplified]
  have eq: "original_refs demo_original g = map (\<lambda>d. (d, demo_out ! 2)) (map fst (original_refs demo_original g))"
    if "has_originals demo_original g" for g
    using that by (auto simp: original_refs_def has_originals_def demo_original_def split: if_splits)
  have refs: "original_refs demo_original g = [(''digest'', demo_out ! 2), (''digest'', demo_out ! 2)]"
    if "has_originals demo_original g" "map fst (original_refs demo_original g) = [''digest'', ''digest'']" for g
    using eq [OF that(1), unfolded that(2)] by simp
  have "\<forall>g \<in> set demo_checkpoint. has_originals demo_original g \<or> pending_group g \<or> False \<or>
      (\<exists>i. group_id g = Some i \<and> 0 \<le> i \<and> i < src_sample_group_index (fst demo_second))"
    using facts by (simp add: list demo_index)
  from regeneration_recovers_served_groups [OF demo_run demo_origin_ne _ this] show ?thesis
    using facts refs [of "h 3"] refs [of "h 4"] by (simp add: list)
qed

theorem pop_oldest_takes_oldest_witness:
  "\<not> version_lt (oldest_version [with_version ''12'' sample_new]) (oldest_version [with_version ''3'' sample_new])"
  using pop_oldest_takes_oldest [of 1 "[[with_version ''12'' sample_new], [with_version ''3'' sample_new]]"
      "[[with_version ''3'' sample_new]]" "[[with_version ''12'' sample_new]]"
      "[with_version ''3'' sample_new]" "[with_version ''12'' sample_new]"]
  by (simp add: pop_oldest_def pop_first_nat py_sorted_def with_version_def oldest_version_def List.map_filter_simps parse_version_def
      is_digit_def digits_value_def)

end
