(* ===== verification/Packing.thy ===== *)
theory Packing
  imports Cp_Utils
begin

text \<open>
  \<open>vime/backends/megatron_utils/data.py\<close>: the micro-batches a rank iterates over and how \<open>get_batch\<close> packs the samples of
  a micro-batch into the one sequence the model sees, in the two layouts of context parallelism: every sample cut into
  zigzag chunks, or the concatenation of all samples cut into one piece per rank (all-gather). Devices and the merging
  of multimodal tensors are not modelled.
\<close>

section \<open>The iterator\<close>

text \<open>A rollout dict maps a field to its values per sample; an absent field is \<open>None\<close>.\<close>

record 'v data_iterator =
  di_rollout_data :: "string \<rightharpoonup> 'v list"
  di_micro_batch_indices :: "nat list list"
  di_offset :: nat

definition data_iterator_new :: "(string \<rightharpoonup> 'v list) \<Rightarrow> nat list list \<Rightarrow> 'v data_iterator" where
  "data_iterator_new rollout_data indices =
     \<lparr>di_rollout_data = rollout_data, di_micro_batch_indices = indices, di_offset = 0\<rparr>"

fun get_keys :: "(string \<rightharpoonup> 'v list) \<Rightarrow> nat list \<Rightarrow> string list \<Rightarrow> (string \<times> 'v list option) list result" where
  "get_keys data indices [] = Inr []"
| "get_keys data indices (k # ks) = res_bind
     (case data k of None \<Rightarrow> Inr None | Some vals \<Rightarrow> res_bind (res_map (py_nth vals) indices) (\<lambda>vs. Inr (Some vs)))
     (\<lambda>v. res_bind (get_keys data indices ks) (\<lambda>rest. Inr ((k, v) # rest)))"

definition get_next :: "string list \<Rightarrow> ('v data_iterator, (string \<times> 'v list option) list) op" where
  "get_next keys = (\<lambda>it.
     case res_bind (py_nth (di_micro_batch_indices it) (di_offset it)) (\<lambda>indices. get_keys (di_rollout_data it) indices keys) of
       Inl e \<Rightarrow> (it, Inl e)
     | Inr batch \<Rightarrow> (it\<lparr>di_offset := di_offset it + 1\<rparr>, Inr batch))"

definition iterator_reset :: "'v data_iterator \<Rightarrow> 'v data_iterator" where
  "iterator_reset it = it\<lparr>di_offset := 0\<rparr>"

text \<open>One iterator per virtual pipeline stage; \<open>None\<close> or 0 stages count as one.\<close>

definition get_data_iterator :: "(string \<rightharpoonup> 'v list) \<Rightarrow> nat list list \<Rightarrow> nat option \<Rightarrow> 'v data_iterator list" where
  "get_data_iterator rollout_data indices vpp_size =
     replicate (case vpp_size of None \<Rightarrow> 1 | Some n \<Rightarrow> if n = 0 then 1 else n) (data_iterator_new rollout_data indices)"

section \<open>Packing\<close>

text \<open>\<open>xs.chunk(n, dim=0)[r]\<close>: pieces of equal size, the last one shorter, possibly fewer than \<open>n\<close>.\<close>

definition chunk_at :: "nat \<Rightarrow> nat \<Rightarrow> 'a list \<Rightarrow> 'a list result" where
  "chunk_at n r xs =
     (if n = 0 then Inl (RuntimeError ''chunk expects chunks to be greater than 0'')
      else let c = (length xs + n - 1) div n in
        if r < n \<and> (xs = [] \<or> r * c < length xs) then Inr (slice (r * c) ((r + 1) * c) xs) else Inl IndexError)"

definition pad_amount :: "nat \<Rightarrow> nat \<Rightarrow> nat" where
  "pad_amount m len = (m - len mod m) mod m"

text \<open>The running sums \<open>cu_seqlens_list\<close>, with an entry for the padding.\<close>

definition cu_seqlens :: "nat list \<Rightarrow> nat \<Rightarrow> nat list" where
  "cu_seqlens lengths pad =
     (let cu = foldl (\<lambda>cu n. cu @ [last cu + n]) [0] lengths in if pad \<noteq> 0 then cu @ [last cu + pad] else cu)"

text \<open>Lines 68-99: the rank's packed tokens, the padding of the stream and the offsets.\<close>

definition pack_tokens ::
  "nat \<Rightarrow> nat \<Rightarrow> nat \<Rightarrow> bool \<Rightarrow> 'a \<Rightarrow> 'a list list \<Rightarrow> ('a list \<times> nat \<times> nat list) result" where
  "pack_tokens cp_rank cp_size pad_size allgather_cp pad_token_id tokens =
     (if allgather_cp then
        let stream = concat tokens; global_pad_size = cp_size * pad_size in
        if global_pad_size = 0 then Inl ZeroDivisionError
        else let pad = pad_amount global_pad_size (length stream) in
          res_bind (chunk_at cp_size cp_rank (stream @ replicate pad pad_token_id)) (\<lambda>local.
            Inr (local, pad, cu_seqlens (map length tokens) pad))
      else res_bind (res_map (slice_with_cp cp_rank cp_size (pad_constant pad_token_id)) tokens) (\<lambda>sliced.
        let stream = concat sliced in
        if pad_size = 0 then Inl ZeroDivisionError
        else let pad = pad_amount pad_size (length stream) in
          Inr (stream @ replicate pad pad_token_id, pad, map (\<lambda>off. off * cp_size) (cu_seqlens (map length sliced) pad))))"

text \<open>Lines 118-144: the loss masks, shifted to the position that predicts the token and packed like the tokens.
  \<open>F.pad\<close> with a negative amount cuts; the prompts of the program are not empty.\<close>

definition align_mask :: "nat \<Rightarrow> nat \<Rightarrow> int list \<Rightarrow> int list" where
  "align_mask total_length response_length loss_mask =
     (let prompt_length = total_length - response_length in
      if prompt_length = 0 then drop 1 (loss_mask @ [0]) else replicate (prompt_length - 1) 0 @ loss_mask @ [0])"

definition pack_masks ::
  "nat \<Rightarrow> nat \<Rightarrow> bool \<Rightarrow> nat \<Rightarrow> (int list \<times> nat \<times> nat) list \<Rightarrow> int list result" where
  "pack_masks cp_rank cp_size allgather_cp pad masks =
     (let aligned = map (\<lambda>(m, total, resp). align_mask total resp m) masks in
      if allgather_cp then chunk_at cp_size cp_rank (concat aligned @ replicate pad 0)
      else res_bind (res_map (slice_with_cp cp_rank cp_size (pad_constant 0)) aligned) (\<lambda>sliced.
        Inr (concat sliced @ replicate pad 0)))"

record packed_batch =
  pb_tokens :: "int list"
  pb_unconcat_tokens :: "int list list"
  pb_cu_seqlens :: "nat list"
  pb_max_seqlen :: nat
  pb_full_loss_masks :: "int list"

definition get_batch ::
  "nat \<Rightarrow> nat \<Rightarrow> nat \<Rightarrow> nat \<Rightarrow> bool \<Rightarrow> int list list \<Rightarrow> (int list \<times> nat \<times> nat) list \<Rightarrow> packed_batch result" where
  "get_batch cp_rank cp_size tp_size pad_multiplier allgather_cp tokens masks =
     res_bind (pack_tokens cp_rank cp_size (tp_size * pad_multiplier) allgather_cp 0 tokens) (\<lambda>(packed, pad, cu).
     let lens = map2 (\<lambda>a b. b - a) (butlast cu) (tl cu) in
     if lens = [] then Inl (ValueError ''max() arg is an empty sequence'')
     else res_bind (pack_masks cp_rank cp_size allgather_cp pad masks) (\<lambda>full_masks.
       if length full_masks \<noteq> length packed then Inl (AssertionError ''loss_masks.shape'')
       else Inr \<lparr>pb_tokens = packed, pb_unconcat_tokens = tokens, pb_cu_seqlens = cu, pb_max_seqlen = Max (set lens),
              pb_full_loss_masks = full_masks\<rparr>))"

end
