(* ===== verification/Vocab_Parallel.thy ===== *)
theory Vocab_Parallel
  imports Cp_Utils
begin

text \<open>
  The log-probabilities over a vocabulary that is cut over a tensor-parallel group, \<open>vime/utils/ppo_utils.py\<close> lines
  346-530 and 888-980: the forward and the hand-written backward pass of \<open>_VocabParallelLogProbEntropy\<close>, and the
  recomputation by chunks of rows. The functions here run a pass on all ranks of the group at once: an argument per
  rank is a list over the ranks, and the two all-reduces are parameters with their documented behaviour as
  hypotheses. Floats are exact reals; a logit of minus infinity is \<open>None\<close>.
\<close>

section \<open>Logits\<close>

type_synonym logit = "real option"

fun exp_logit :: "logit \<Rightarrow> real" where
  "exp_logit None = 0"
| "exp_logit (Some x) = exp x"

text \<open>Subtracting a maximum; every row of the program holds a finite logit, so the maximum is finite.\<close>

definition sub_logit :: "logit \<Rightarrow> logit \<Rightarrow> logit" where
  "sub_logit x m = map_option (\<lambda>a. a - the m) x"

fun max_logit :: "logit \<Rightarrow> logit \<Rightarrow> logit" where
  "max_logit None y = y"
| "max_logit (Some a) None = Some a"
| "max_logit (Some a) (Some b) = Some (max a b)"

definition row_max :: "logit list \<Rightarrow> logit" where
  "row_max row = foldr max_logit row None"

definition shard_width :: "'a list list \<Rightarrow> nat" where
  "shard_width shard = (case shard of [] \<Rightarrow> 0 | row # _ \<Rightarrow> length row)"

text \<open>Is the target outside the rank's part of the vocabulary; its column there, 0 for a target outside.\<close>

definition off_shard :: "nat \<Rightarrow> nat \<Rightarrow> int \<Rightarrow> bool" where
  "off_shard rank width t \<longleftrightarrow> t < int (rank * width) \<or> int (rank * width) + int width \<le> t"

definition masked_target :: "nat \<Rightarrow> nat \<Rightarrow> int \<Rightarrow> nat" where
  "masked_target rank width t = (if off_shard rank width t then 0 else nat (t - int (rank * width)))"

section \<open>The softmax of a group\<close>

record softmax_parts =
  sp_predicted :: "logit list list"
  sp_sum_exp :: "real list"
  sp_softmax :: "real list list list"
  sp_max :: "logit list"

definition vocab_parallel_softmax ::
  "(logit list list \<Rightarrow> logit list) \<Rightarrow> (real list list \<Rightarrow> real list) \<Rightarrow> nat list list \<Rightarrow> logit list list list \<Rightarrow> softmax_parts" where
  "vocab_parallel_softmax all_max all_sum targets logits =
     (let logits_max = all_max (map (map row_max) logits);
          normalized = map (\<lambda>xs. map2 (\<lambda>row m. map (\<lambda>x. sub_logit x m) row) xs logits_max) logits;
          exp_logits = map (map (map exp_logit)) normalized;
          sum_exp = all_sum (map (map sum_list) exp_logits)
      in \<lparr>sp_predicted = map2 (map2 (!)) normalized targets, sp_sum_exp = sum_exp,
          sp_softmax = map (\<lambda>es. map2 (\<lambda>row z. map (\<lambda>e. e / z) row) es sum_exp) exp_logits, sp_max = logits_max\<rparr>)"

definition sum_softmax_logits :: "(real list list \<Rightarrow> real list) \<Rightarrow> real list list list \<Rightarrow> real list list list \<Rightarrow> real list" where
  "sum_softmax_logits all_sum softmax logits = all_sum (map2 (map2 dot) softmax logits)"

section \<open>The forward pass\<close>

text \<open>Masked logits keep the target of the row.\<close>

definition mask_row :: "bool list \<Rightarrow> bool \<Rightarrow> nat \<Rightarrow> real list \<Rightarrow> logit list" where
  "mask_row keep off t row =
     (let kept = map2 (\<lambda>k x. if k then Some x else None) keep row in if off then kept else kept[t := Some (row ! t)])"

record vp_ctx =
  vc_with_entropy_grad :: bool
  vc_softmax :: "real list list"
  vc_target_mask :: "bool list"
  vc_masked_target :: "nat list"
  vc_entropy_softmax :: "real list list"
  vc_sum_softmax_logits :: "real list"
  vc_logits :: "real list list"

definition vp_forward ::
  "(logit list list \<Rightarrow> logit list) \<Rightarrow> (real list list \<Rightarrow> real list) \<Rightarrow> bool \<Rightarrow> bool \<Rightarrow> bool list list list option \<Rightarrow> int list \<Rightarrow>
   real list list list \<Rightarrow> real list \<times> real list \<times> vp_ctx list" where
  "vp_forward all_max all_sum with_entropy with_entropy_grad log_prob_keep_mask target logits =
     (let entropy_grad = (with_entropy \<and> with_entropy_grad);
          ranks = [0..<length logits];
          target_mask = map (\<lambda>r. map (off_shard r (shard_width (logits ! r))) target) ranks;
          masked_targets = map (\<lambda>r. map (masked_target r (shard_width (logits ! r))) target) ranks;
          plain = map (map (map Some)) logits;
          log_prob_logits = (case log_prob_keep_mask of None \<Rightarrow> plain
            | Some keep \<Rightarrow> map (\<lambda>r. map (\<lambda>i. mask_row (keep ! r ! i) (target_mask ! r ! i) (masked_targets ! r ! i) (logits ! r ! i))
                [0..<length (logits ! r)]) ranks);
          parts = vocab_parallel_softmax all_max all_sum masked_targets log_prob_logits;
          entropy_parts = (case log_prob_keep_mask of None \<Rightarrow> parts | Some _ \<Rightarrow> vocab_parallel_softmax all_max all_sum masked_targets plain);
          weighted = sum_softmax_logits all_sum (sp_softmax entropy_parts) logits;
          entropy = (if with_entropy
            then map (\<lambda>(m, z, s). the m + ln z - s) (zip (sp_max entropy_parts) (zip (sp_sum_exp entropy_parts) weighted)) else []);
          predicted = all_sum (map2 (map2 (\<lambda>x off. if off then 0 else the x)) (sp_predicted parts) target_mask);
          log_prob = map2 (\<lambda>p z. p - ln z) predicted (sp_sum_exp parts)
      in (log_prob, entropy, map (\<lambda>r. \<lparr>vc_with_entropy_grad = entropy_grad, vc_softmax = sp_softmax parts ! r,
            vc_target_mask = target_mask ! r, vc_masked_target = masked_targets ! r,
            vc_entropy_softmax = (if entropy_grad then sp_softmax entropy_parts ! r else []),
            vc_sum_softmax_logits = (if entropy_grad then weighted else []),
            vc_logits = (if entropy_grad then logits ! r else [])\<rparr>) ranks))"

section \<open>The backward pass\<close>

definition entropy_grad_row :: "real \<Rightarrow> real \<Rightarrow> real list \<Rightarrow> real list \<Rightarrow> real list" where
  "entropy_grad_row weighted g softmax logits = map2 (\<lambda>p x. (weighted - x) * p * g) softmax logits"

definition log_prob_grad_row :: "real \<Rightarrow> bool \<Rightarrow> nat \<Rightarrow> real list \<Rightarrow> real list" where
  "log_prob_grad_row g off t softmax =
     (let neg = map uminus softmax in map (\<lambda>x. x * g) (neg[t := neg ! t + of_bool (\<not> off)]))"

definition vp_backward :: "vp_ctx \<Rightarrow> real list option \<Rightarrow> real list option \<Rightarrow> real list list result" where
  "vp_backward c grad_log_prob grad_entropy =
     (case grad_log_prob of
        None \<Rightarrow> Inl (RuntimeError ''expected a materialized grad_log_prob'')
      | Some gs \<Rightarrow>
          let grad = map (\<lambda>i. log_prob_grad_row (gs ! i) (vc_target_mask c ! i) (vc_masked_target c ! i) (vc_softmax c ! i))
                [0..<length (vc_softmax c)]
          in Inr (case grad_entropy of
              None \<Rightarrow> grad
            | Some hs \<Rightarrow>
                if vc_with_entropy_grad c \<and> hs \<noteq> []
                then map (\<lambda>i. map2 (+) (grad ! i)
                  (entropy_grad_row (vc_sum_softmax_logits c ! i) (hs ! i) (vc_entropy_softmax c ! i) (vc_logits c ! i))) [0..<length grad]
                else grad))"

section \<open>Chunks of rows\<close>

definition calculate_log_probs_and_entropy_chunk ::
  "(logit list list \<Rightarrow> logit list) \<Rightarrow> (real list list \<Rightarrow> real list) \<Rightarrow> bool \<Rightarrow> bool \<Rightarrow> bool list list list option \<Rightarrow> int list \<Rightarrow>
   real list list list \<Rightarrow> real list \<times> real list option \<times> vp_ctx list" where
  "calculate_log_probs_and_entropy_chunk all_max all_sum with_entropy with_entropy_grad keep target logits =
     (case vp_forward all_max all_sum with_entropy with_entropy_grad keep target logits of
        (log_prob, entropy, ctxs) \<Rightarrow> (log_prob, if with_entropy then Some entropy else None, ctxs))"

abbreviation row_slice :: "nat \<Rightarrow> nat \<Rightarrow> 'a list list \<Rightarrow> 'a list list" where
  "row_slice a b shards \<equiv> map (slice a b) shards"

text \<open>The forward loop over preallocated columns, of arbitrary content.\<close>

definition chunked_forward ::
  "(logit list list \<Rightarrow> logit list) \<Rightarrow> (real list list \<Rightarrow> real list) \<Rightarrow> bool \<Rightarrow> bool \<Rightarrow> bool list list list option \<Rightarrow> int list \<Rightarrow>
   real list list list \<Rightarrow> nat \<Rightarrow> real list \<Rightarrow> real list \<times> real list" where
  "chunked_forward all_max all_sum with_entropy with_entropy_grad keep target logits chunk_size buf =
     (let n = length (hd logits) in
      fold (\<lambda>start (log_prob, entropy).
          let stop = min (start + chunk_size) n;
              (values, entropies, _) = calculate_log_probs_and_entropy_chunk all_max all_sum with_entropy with_entropy_grad
                (map_option (row_slice start stop) keep) (slice start stop target) (row_slice start stop logits)
          in (blit log_prob start values, case entropies of None \<Rightarrow> entropy | Some es \<Rightarrow> blit entropy start es))
        (py_range 0 n chunk_size) (buf, if with_entropy then buf else []))"

text \<open>The backward loop of one rank: every chunk's forward pass is run again, on all ranks, for its context.\<close>

definition chunked_backward ::
  "(logit list list \<Rightarrow> logit list) \<Rightarrow> (real list list \<Rightarrow> real list) \<Rightarrow> bool \<Rightarrow> bool list list list option \<Rightarrow> int list \<Rightarrow>
   real list list list \<Rightarrow> nat \<Rightarrow> nat \<Rightarrow> real list \<Rightarrow> real list \<Rightarrow> real list list \<Rightarrow> real list list result" where
  "chunked_backward all_max all_sum entropy_grad keep target logits chunk_size rank grad_log_prob grad_entropy buf =
     (let n = length (hd logits) in
      res_fold (\<lambda>grad start.
          let stop = min (start + chunk_size) n;
              (values, entropies, ctxs) = calculate_log_probs_and_entropy_chunk all_max all_sum entropy_grad entropy_grad
                (map_option (row_slice start stop) keep) (slice start stop target) (row_slice start stop logits)
          in res_bind (vp_backward (ctxs ! rank) (Some (slice start stop grad_log_prob))
                (if entropy_grad then Some (slice start stop grad_entropy) else None))
              (\<lambda>g. Inr (blit grad start g)))
        buf (py_range 0 n chunk_size))"

definition calculate_log_probs_and_entropy ::
  "(logit list list \<Rightarrow> logit list) \<Rightarrow> (real list list \<Rightarrow> real list) \<Rightarrow> bool \<Rightarrow> bool \<Rightarrow> bool list list list option \<Rightarrow> int list \<Rightarrow>
   real list list list \<Rightarrow> int \<Rightarrow> real list \<Rightarrow> real list \<times> real list option" where
  "calculate_log_probs_and_entropy all_max all_sum with_entropy with_entropy_grad keep target logits chunk_size buf =
     (if length (hd logits) \<noteq> 0 then
        if 0 < chunk_size then
          (case chunked_forward all_max all_sum with_entropy with_entropy_grad keep target logits (nat chunk_size) buf of
             (log_prob, entropy) \<Rightarrow> (log_prob, if with_entropy then Some entropy else None))
        else (case calculate_log_probs_and_entropy_chunk all_max all_sum with_entropy with_entropy_grad keep target logits of
             (log_prob, entropy, _) \<Rightarrow> (log_prob, entropy))
      else ([], if with_entropy then Some [] else None))"

section \<open>The collectives and the shape of a group\<close>

text \<open>The documented behaviour of the all-reduce with the maximum, and of the one with the sum (\<open>sums_ranks\<close>).\<close>

definition maxes_ranks :: "(logit list list \<Rightarrow> logit list) \<Rightarrow> bool" where
  "maxes_ranks all_max \<longleftrightarrow>
     (\<forall>xss n. xss \<noteq> [] \<and> (\<forall>xs \<in> set xss. length xs = n) \<longrightarrow>
        all_max xss = map (\<lambda>i. foldr max_logit (map (\<lambda>xs. xs ! i) xss) None) [0..<n])"

text \<open>\<open>n\<close> ranks hold \<open>seq\<close> rows of \<open>v\<close> columns each.\<close>

definition group_shape :: "nat \<Rightarrow> nat \<Rightarrow> nat \<Rightarrow> 'a list list list \<Rightarrow> bool" where
  "group_shape n seq v xs \<longleftrightarrow> length xs = n \<and> (\<forall>r < n. length (xs ! r) = seq \<and> (\<forall>i < seq. length (xs ! r ! i) = v))"

lemma group_shapeD:
  assumes "group_shape n seq v xs"
  shows "length xs = n" "r < n \<Longrightarrow> length (xs ! r) = seq" "r < n \<Longrightarrow> i < seq \<Longrightarrow> length (xs ! r ! i) = v"
  using assms by (auto simp: group_shape_def)

lemma all_sum_columns:
  assumes "sums_ranks all_sum" "cols \<noteq> []" "\<And>r. r < length cols \<Longrightarrow> length (cols ! r) = seq"
  shows "all_sum cols = map (\<lambda>i. \<Sum>r < length cols. cols ! r ! i) [0..<seq]"
proof -
  have "\<forall>xs \<in> set cols. length xs = seq" using assms(3) by (auto simp: in_set_conv_nth)
  from sums_ranksD [OF assms(1,2) this] show ?thesis by (simp add: sum_list_sum_nth lessThan_atLeast0)
qed

lemma all_max_columns:
  assumes "maxes_ranks all_max" "cols \<noteq> []" "\<And>r. r < length cols \<Longrightarrow> length (cols ! r) = seq"
  shows "all_max cols = map (\<lambda>i. foldr max_logit (map (\<lambda>xs. xs ! i) cols) None) [0..<seq]"
proof -
  have "\<forall>xs \<in> set cols. length xs = seq" using assms(3) by (auto simp: in_set_conv_nth)
  then show ?thesis using assms(1,2) by (simp add: maxes_ranks_def)
qed

lemma max_logit_finite: "foldr max_logit xs None \<noteq> None \<longleftrightarrow> (\<exists>x \<in> set xs. x \<noteq> None)"
proof (induction xs)
  case (Cons x xs)
  have "max_logit x y \<noteq> None \<longleftrightarrow> x \<noteq> None \<or> y \<noteq> None" for y by (cases x; cases y) auto
  then show ?case using Cons.IH by auto
qed simp

lemma exp_sub_logit [simp]: "exp_logit (sub_logit x (Some m)) = exp_logit x * exp (- m)"
  by (cases x) (simp_all add: sub_logit_def flip: exp_add)

section \<open>The softmax of a group, row by row\<close>

text \<open>The sum of the exponentials of row \<open>i\<close> over the whole vocabulary.\<close>

definition row_sum_exp :: "nat \<Rightarrow> nat \<Rightarrow> logit list list list \<Rightarrow> nat \<Rightarrow> real" where
  "row_sum_exp n v xs i = (\<Sum>r < n. \<Sum>j < v. exp_logit (xs ! r ! i ! j))"

definition finite_rows :: "nat \<Rightarrow> nat \<Rightarrow> nat \<Rightarrow> logit list list list \<Rightarrow> bool" where
  "finite_rows n seq v xs \<longleftrightarrow> (\<forall>i < seq. \<exists>r < n. \<exists>j < v. xs ! r ! i ! j \<noteq> None)"

lemma softmax_parts_rows:
  assumes sums: "sums_ranks all_sum" and maxes: "maxes_ranks all_max" and n: "0 < n"
    and shape: "group_shape n seq v xs" and fin: "finite_rows n seq v xs"
    and targets: "length targets = n" "\<And>r. r < n \<Longrightarrow> length (targets ! r) = seq"
  shows "\<exists>M. sp_max (vocab_parallel_softmax all_max all_sum targets xs) = map (\<lambda>i. Some (M i)) [0..<seq] \<and>
    sp_sum_exp (vocab_parallel_softmax all_max all_sum targets xs) = map (\<lambda>i. row_sum_exp n v xs i * exp (- M i)) [0..<seq] \<and>
    sp_softmax (vocab_parallel_softmax all_max all_sum targets xs) =
      map (\<lambda>r. map (\<lambda>i. map (\<lambda>j. exp_logit (xs ! r ! i ! j) / row_sum_exp n v xs i) [0..<v]) [0..<seq]) [0..<n] \<and>
    (\<forall>r < n. length (sp_predicted (vocab_parallel_softmax all_max all_sum targets xs) ! r) = seq \<and>
       (\<forall>i < seq. targets ! r ! i < v \<longrightarrow> sp_predicted (vocab_parallel_softmax all_max all_sum targets xs) ! r ! i =
          sub_logit (xs ! r ! i ! (targets ! r ! i)) (Some (M i)))) \<and>
    length (sp_predicted (vocab_parallel_softmax all_max all_sum targets xs)) = n"
proof -
  note shape = group_shapeD [OF shape]
  define ms where "ms = all_max (map (map row_max) xs)"
  define M where "M i = the (ms ! i)" for i
  have ms_eq: "ms = map (\<lambda>i. foldr max_logit (map (\<lambda>r. row_max (xs ! r ! i)) [0..<n]) None) [0..<seq]"
  proof -
    have "map (\<lambda>ys. ys ! i) (map (map row_max) xs) = map (\<lambda>r. row_max (xs ! r ! i)) [0..<n]" if "i < seq" for i
      using that shape by (intro nth_equalityI) auto
    then show ?thesis unfolding ms_def
      using all_max_columns [OF maxes, of "map (map row_max) xs" seq] n shape by (auto intro!: map_cong)
  qed
  have ms: "ms = map (\<lambda>i. Some (M i)) [0..<seq]"
  proof (rule nth_equalityI)
    fix i assume "i < length ms"
    then have i: "i < seq" by (simp add: ms_eq)
    then obtain r j where rj: "r < n" "j < v" "xs ! r ! i ! j \<noteq> None" using fin by (auto simp: finite_rows_def)
    then have "xs ! r ! i ! j \<in> set (xs ! r ! i)" using shape(3) [OF rj(1) i] by simp
    then have "row_max (xs ! r ! i) \<noteq> None" using rj(3) max_logit_finite unfolding row_max_def by blast
    then have "ms ! i \<noteq> None" using i rj(1) max_logit_finite [of "map (\<lambda>r. row_max (xs ! r ! i)) [0..<n]"] by (auto simp: ms_eq)
    then show "ms ! i = map (\<lambda>i. Some (M i)) [0..<seq] ! i" using i by (simp add: M_def)
  qed (simp add: ms_eq)
  define ex where "ex = map (map (map exp_logit)) (map (\<lambda>xs. map2 (\<lambda>row m. map (\<lambda>x. sub_logit x m) row) xs ms) xs)"
  have ex: "ex ! r ! i = map (\<lambda>j. exp_logit (xs ! r ! i ! j) * exp (- M i)) [0..<v]" if "r < n" "i < seq" for r i
    using that shape by (intro nth_equalityI) (auto simp: ex_def ms)
  have lex: "length ex = n" "\<And>r. r < n \<Longrightarrow> length (ex ! r) = seq" using shape by (auto simp: ex_def ms)
  define zs where "zs = all_sum (map (map sum_list) ex)"
  have zs: "zs = map (\<lambda>i. row_sum_exp n v xs i * exp (- M i)) [0..<seq]"
  proof -
    have "(\<Sum>r < n. map (map sum_list) ex ! r ! i) = row_sum_exp n v xs i * exp (- M i)" if "i < seq" for i
      using that lex ex by (simp add: row_sum_exp_def sum_list_sum_nth lessThan_atLeast0 sum_distrib_right)
    then show ?thesis unfolding zs_def
      using all_sum_columns [OF sums, of "map (map sum_list) ex" seq] n lex by (auto intro!: map_cong)
  qed
  have parts: "vocab_parallel_softmax all_max all_sum targets xs = \<lparr>sp_predicted =
      map2 (map2 (!)) (map (\<lambda>xs. map2 (\<lambda>row m. map (\<lambda>x. sub_logit x m) row) xs ms) xs) targets,
      sp_sum_exp = zs, sp_softmax = map (\<lambda>es. map2 (\<lambda>row z. map (\<lambda>e. e / z) row) es zs) ex, sp_max = ms\<rparr>"
    by (simp only: vocab_parallel_softmax_def Let_def ms_def zs_def ex_def)
  have soft: "map (\<lambda>es. map2 (\<lambda>row z. map (\<lambda>e. e / z) row) es zs) ex =
      map (\<lambda>r. map (\<lambda>i. map (\<lambda>j. exp_logit (xs ! r ! i ! j) / row_sum_exp n v xs i) [0..<v]) [0..<seq]) [0..<n]"
    using lex by (intro nth_equalityI) (auto simp: zs ex intro!: nth_equalityI)
  show ?thesis unfolding parts soft
    using shape targets by (intro exI [of _ M]) (auto simp: ms zs)
qed

section \<open>The reference: one row over the whole vocabulary\<close>

text \<open>Log-probability and entropy of the softmax of \<open>f\<close> over a finite set of tokens.\<close>

definition sum_exp :: "nat set \<Rightarrow> (nat \<Rightarrow> real) \<Rightarrow> real" where
  "sum_exp A f = (\<Sum>j \<in> A. exp (f j))"

definition token_prob :: "nat set \<Rightarrow> (nat \<Rightarrow> real) \<Rightarrow> nat \<Rightarrow> real" where
  "token_prob A f j = (if j \<in> A then exp (f j) / sum_exp A f else 0)"

definition token_log_prob :: "nat set \<Rightarrow> nat \<Rightarrow> (nat \<Rightarrow> real) \<Rightarrow> real" where
  "token_log_prob A t f = ln (token_prob A f t)"

definition entropy_of :: "nat set \<Rightarrow> (nat \<Rightarrow> real) \<Rightarrow> real" where
  "entropy_of A f = - (\<Sum>j \<in> A. token_prob A f j * ln (token_prob A f j))"

lemma sum_exp_pos: "finite A \<Longrightarrow> A \<noteq> {} \<Longrightarrow> 0 < sum_exp A f"
  by (auto simp: sum_exp_def intro: sum_pos)

lemma token_log_prob_eq: "finite A \<Longrightarrow> t \<in> A \<Longrightarrow> token_log_prob A t f = f t - ln (sum_exp A f)"
  using sum_exp_pos [of A f] by (fastforce simp: token_log_prob_def token_prob_def ln_div)

lemma entropy_of_eq:
  assumes "finite A" "A \<noteq> {}"
  shows "entropy_of A f = ln (sum_exp A f) - (\<Sum>j \<in> A. exp (f j) * f j) / sum_exp A f"
proof -
  have pos: "0 < sum_exp A f" by (rule sum_exp_pos [OF assms])
  have "(\<Sum>j \<in> A. token_prob A f j * ln (token_prob A f j)) =
      (\<Sum>j \<in> A. exp (f j) * f j / sum_exp A f - exp (f j) * (ln (sum_exp A f) / sum_exp A f))"
    using pos by (intro sum.cong refl) (simp add: token_prob_def ln_div field_simps)
  also have "\<dots> = (\<Sum>j \<in> A. exp (f j) * f j) / sum_exp A f - sum_exp A f * (ln (sum_exp A f) / sum_exp A f)"
    by (simp only: sum_subtractf sum_divide_distrib sum_distrib_right sum_exp_def)
  finally show ?thesis using pos by (simp add: entropy_of_def)
qed

section \<open>Derivatives of the reference\<close>

lemma sum_update:
  fixes g :: "real \<Rightarrow> real"
  assumes "finite A"
  shows "(\<Sum>j \<in> A. g ((f(k := z)) j)) = (if k \<in> A then g z - g (f k) else 0) + (\<Sum>j \<in> A. g (f j))"
proof (cases "k \<in> A")
  case True
  then show ?thesis using assms by (simp add: sum.remove [of A k])
next
  case False
  then have "(\<Sum>j \<in> A. g ((f(k := z)) j)) = (\<Sum>j \<in> A. g (f j))" by (intro sum.cong) auto
  then show ?thesis using False by simp
qed

lemma sum_update_deriv:
  fixes g :: "real \<Rightarrow> real"
  assumes "finite A" "(g has_real_derivative d) (at (f k))"
  shows "((\<lambda>z. \<Sum>j \<in> A. g ((f(k := z)) j)) has_real_derivative (if k \<in> A then d else 0)) (at (f k))"
  unfolding sum_update [OF assms(1)] using assms(2) by (cases "k \<in> A") (auto intro!: derivative_eq_intros)

lemma ln_sum_exp_deriv:
  assumes "finite A" "A \<noteq> {}"
  shows "((\<lambda>z. ln (sum_exp A (f(k := z)))) has_real_derivative token_prob A f k) (at (f k))"
proof -
  have e: "(exp has_real_derivative exp (f k)) (at (f k))" by (rule DERIV_exp)
  note s = sum_update_deriv [of A exp "exp (f k)" f k, OF assms(1) e]
  have "0 < sum_exp A (f(k := f k))" by (rule sum_exp_pos [OF assms])
  then have "((\<lambda>z. ln (\<Sum>j \<in> A. exp ((f(k := z)) j))) has_real_derivative
      inverse (\<Sum>j \<in> A. exp (f j)) * (if k \<in> A then exp (f k) else 0)) (at (f k))"
    using DERIV_chain2 [OF DERIV_ln s] by (simp add: sum_exp_def del: fun_upd_apply)
  then show ?thesis by (simp add: sum_exp_def token_prob_def divide_inverse mult.commute split: if_splits)
qed

lemma token_log_prob_deriv:
  assumes "finite A" "t \<in> A"
  shows "((\<lambda>z. token_log_prob A t (f(k := z))) has_real_derivative of_bool (k = t) - token_prob A f k) (at (f k))"
proof -
  have "((\<lambda>z. (f(k := z)) t) has_real_derivative of_bool (k = t)) (at (f k))" by (cases "k = t") (auto intro!: derivative_eq_intros)
  moreover have "A \<noteq> {}" using assms(2) by blast
  ultimately show ?thesis unfolding token_log_prob_eq [OF assms] by (rule DERIV_diff [OF _ ln_sum_exp_deriv [OF assms(1)]])
qed

lemma entropy_deriv:
  assumes "finite A" "k \<in> A"
  shows "((\<lambda>z. entropy_of A (f(k := z))) has_real_derivative
    ((\<Sum>j \<in> A. token_prob A f j * f j) - f k) * token_prob A f k) (at (f k))"
proof -
  have ne: "A \<noteq> {}" using assms(2) by blast
  have pos: "0 < sum_exp A f" by (rule sum_exp_pos [OF assms(1) ne])
  have e: "(exp has_real_derivative exp (f k)) (at (f k))" by (rule DERIV_exp)
  have w: "((\<lambda>x. exp x * x) has_real_derivative exp (f k) * f k + exp (f k)) (at (f k))"
    by (auto intro!: derivative_eq_intros)
  let ?W = "\<lambda>f. \<Sum>j \<in> A. exp (f j) * f j"
  have num: "((\<lambda>z. ?W (f(k := z))) has_real_derivative exp (f k) * f k + exp (f k)) (at (f k))"
    using sum_update_deriv [of A "\<lambda>x. exp x * x" _ f k, OF assms(1) w] assms(2) by (simp del: fun_upd_apply)
  have den: "((\<lambda>z. sum_exp A (f(k := z))) has_real_derivative exp (f k)) (at (f k))"
    using sum_update_deriv [of A exp _ f k, OF assms(1) e] assms(2) by (simp add: sum_exp_def del: fun_upd_apply)
  have quot: "((\<lambda>z. ?W (f(k := z)) / sum_exp A (f(k := z))) has_real_derivative
      ((exp (f k) * f k + exp (f k)) * sum_exp A f - ?W f * exp (f k)) / (sum_exp A f * sum_exp A f)) (at (f k))"
    using DERIV_divide [OF num den] pos by (simp del: fun_upd_apply)
  have avg: "(\<Sum>j \<in> A. token_prob A f j * f j) = ?W f / sum_exp A f"
    by (simp add: token_prob_def sum_divide_distrib)
  have "((\<lambda>z. entropy_of A (f(k := z))) has_real_derivative token_prob A f k -
      ((exp (f k) * f k + exp (f k)) * sum_exp A f - ?W f * exp (f k)) / (sum_exp A f * sum_exp A f)) (at (f k))"
    unfolding entropy_of_eq [OF assms(1) ne] by (rule DERIV_diff) (rule ln_sum_exp_deriv [OF assms(1) ne], rule quot)
  moreover have "token_prob A f k - ((exp (f k) * f k + exp (f k)) * sum_exp A f - ?W f * exp (f k)) / (sum_exp A f * sum_exp A f) =
      (?W f / sum_exp A f - f k) * token_prob A f k"
    using pos assms(2) by (simp add: token_prob_def field_simps)
  ultimately show ?thesis by (simp only: avg)
qed

section \<open>The forward pass is the log-softmax over the whole vocabulary\<close>

text \<open>Row \<open>i\<close> of the whole vocabulary, and the tokens its log-probability is normalised over.\<close>

definition full_row :: "nat \<Rightarrow> 'a list list list \<Rightarrow> nat \<Rightarrow> nat \<Rightarrow> 'a" where
  "full_row v xs i k = xs ! (k div v) ! i ! (k mod v)"

definition support :: "nat \<Rightarrow> nat \<Rightarrow> bool list list list option \<Rightarrow> nat \<Rightarrow> nat \<Rightarrow> nat set" where
  "support n v keep i t = {k. k < n * v \<and> (case keep of None \<Rightarrow> True | Some ks \<Rightarrow> full_row v ks i k \<or> k = t)}"

lemma finite_support [simp]: "finite (support n v keep i t)"
  by (rule finite_subset [of _ "{..<n * v}"]) (auto simp: support_def)

lemma support_target: "t < n * v \<Longrightarrow> t \<in> support n v keep i t"
  by (simp add: support_def split: option.split)

lemma sum_ranks_columns:
  fixes g :: "nat \<Rightarrow> nat \<Rightarrow> real"
  shows "(\<Sum>r < n. \<Sum>j < v. g r j) = (\<Sum>k < n * v. g (k div v) (k mod v))"
proof -
  have "(\<Sum>j < v. g r j) = sum (\<lambda>k. g (k div v) (k mod v)) {r * v..<r * v + v}" for r
  proof -
    have "sum (\<lambda>k. g (k div v) (k mod v)) {r * v..<r * v + v} = (\<Sum>j < v. g ((r * v + j) div v) ((r * v + j) mod v))"
      using sum.shift_bounds_nat_ivl [of "\<lambda>k. g (k div v) (k mod v)" 0 "r * v" v] by (simp add: lessThan_atLeast0 ac_simps)
    also have "\<dots> = (\<Sum>j < v. g r j)" by (intro sum.cong) auto
    finally show ?thesis by (rule sym)
  qed
  then show ?thesis by (simp add: sum.nat_group)
qed

lemma off_shard_iff: "0 \<le> t \<Longrightarrow> 0 < v \<Longrightarrow> off_shard r v t \<longleftrightarrow> r \<noteq> nat t div v"
proof -
  assume t: "0 \<le> t" "0 < v"
  then have "int (nat t div v) = t div int v" by (simp add: zdiv_int)
  then have "r \<noteq> nat t div v \<longleftrightarrow> t div int v \<noteq> int r" by (metis of_nat_eq_iff)
  then show "off_shard r v t \<longleftrightarrow> r \<noteq> nat t div v"
    using in_chunk_iff [of "int v" "int r" t] t by (auto simp: off_shard_def algebra_simps)
qed

lemma masked_target_eq: "0 \<le> t \<Longrightarrow> 0 < v \<Longrightarrow> masked_target r v t = (if r = nat t div v then nat t mod v else 0)"
proof -
  assume t: "0 \<le> t" "0 < v"
  have "nat (t - int (nat t div v * v)) = nat t - nat t div v * v" using t(1) by linarith
  then have "nat (t - int (nat t div v * v)) = nat t mod v" by (simp only: minus_div_mult_eq_mod)
  then show "masked_target r v t = (if r = nat t div v then nat t mod v else 0)"
    using off_shard_iff [OF t, of r] by (simp add: masked_target_def)
qed

text \<open>The logits a log-probability is computed from, masked where a keep-mask is given.\<close>

definition kept_logits :: "nat \<Rightarrow> bool list list list option \<Rightarrow> int list \<Rightarrow> real list list list \<Rightarrow> logit list list list" where
  "kept_logits v keep target logits = (case keep of None \<Rightarrow> map (map (map Some)) logits
     | Some ks \<Rightarrow> map (\<lambda>r. map (\<lambda>i. mask_row (ks ! r ! i) (off_shard r v (target ! i)) (masked_target r v (target ! i)) (logits ! r ! i))
         [0..<length (logits ! r)]) [0..<length logits])"

text \<open>Shards of one tensor with targets in the vocabulary.\<close>

definition shards_ok :: "nat \<Rightarrow> nat \<Rightarrow> nat \<Rightarrow> bool list list list option \<Rightarrow> int list \<Rightarrow> real list list list \<Rightarrow> bool" where
  "shards_ok n seq v keep target logits \<longleftrightarrow> 0 < n \<and> 0 < v \<and> group_shape n seq v logits \<and>
     (case keep of None \<Rightarrow> True | Some ks \<Rightarrow> group_shape n seq v ks) \<and>
     length target = seq \<and> (\<forall>i < seq. 0 \<le> target ! i \<and> target ! i < int (n * v))"

lemma shards_okD:
  assumes "shards_ok n seq v keep target logits"
  shows "0 < n" "0 < v" "group_shape n seq v logits" "keep = Some ks \<Longrightarrow> group_shape n seq v ks" "length target = seq"
    "i < seq \<Longrightarrow> 0 \<le> target ! i" "\<And>i. i < seq \<Longrightarrow> nat (target ! i) < n * v"
    "\<And>i. i < seq \<Longrightarrow> nat (target ! i) div v < n" "nat (target ! i) mod v < v"
proof -
  show lt: "nat (target ! i) < n * v" if "i < seq" for i
  proof -
    have "0 \<le> target ! i" "target ! i < int (n * v)" using assms that unfolding shards_ok_def by blast+
    then show ?thesis by linarith
  qed
  show "nat (target ! i) div v < n" if "i < seq" for i by (rule less_mult_imp_div_less [OF lt [OF that]])
qed (use assms in \<open>auto simp: shards_ok_def\<close>)

abbreviation tok :: "int list \<Rightarrow> nat \<Rightarrow> nat" where
  "tok target i \<equiv> nat (target ! i)"

lemma kept_entry:
  assumes ok: "shards_ok n seq v keep target logits" and "r < n" "i < seq" "j < v"
  shows "kept_logits v keep target logits ! r ! i ! j =
    (if r * v + j \<in> support n v keep i (tok target i) then Some (logits ! r ! i ! j) else None)"
proof -
  note assms = assms(2,3,4) and shapeD = group_shapeD [OF shards_okD(3) [OF ok]] and v = shards_okD(2) [OF ok]
  have k: "r * v + j < n * v"
  proof -
    have "Suc r * v \<le> n * v" using assms(1) by (intro mult_le_mono1) simp
    then show ?thesis using assms(3) by simp
  qed
  have div: "(r * v + j) div v = r" "(r * v + j) mod v = j" using assms(3) by auto
  have here: "r * v + j = tok target i \<longleftrightarrow> r = tok target i div v \<and> j = tok target i mod v" using div by (metis div_mult_mod_eq)
  show ?thesis
  proof (cases keep)
    case None
    then show ?thesis using assms shapeD k by (simp add: kept_logits_def support_def)
  next
    case (Some ks)
    note ks = group_shapeD [OF shards_okD(4) [OF ok Some]]
    show ?thesis using assms shapeD ks k shards_okD(6) [OF ok assms(2)] v div here
      by (auto simp: kept_logits_def Some support_def full_row_def mask_row_def Let_def off_shard_iff masked_target_eq nth_list_update)
  qed
qed

lemma kept_shape:
  "shards_ok n seq v keep target logits \<Longrightarrow> group_shape n seq v (kept_logits v keep target logits)"
  by (auto simp: shards_ok_def group_shape_def kept_logits_def mask_row_def Let_def split: option.splits)

lemma kept_finite:
  assumes ok: "shards_ok n seq v keep target logits"
  shows "finite_rows n seq v (kept_logits v keep target logits)"
  unfolding finite_rows_def
proof (intro allI impI)
  fix i assume i: "i < seq"
  have "tok target i div v * v + tok target i mod v = tok target i" by simp
  then have "kept_logits v keep target logits ! (tok target i div v) ! i ! (tok target i mod v) \<noteq> None"
    using kept_entry [OF ok shards_okD(8) [OF ok i] i shards_okD(9) [OF ok]] support_target [OF shards_okD(7) [OF ok i]] by simp
  then show "\<exists>r < n. \<exists>j < v. kept_logits v keep target logits ! r ! i ! j \<noteq> None" using shards_okD(8,9) [OF ok] i by blast
qed

lemma kept_sum_exp:
  assumes ok: "shards_ok n seq v keep target logits" and "i < seq"
  shows "row_sum_exp n v (kept_logits v keep target logits) i = sum_exp (support n v keep i (tok target i)) (full_row v logits i)"
proof -
  let ?A = "support n v keep i (tok target i)"
  have "row_sum_exp n v (kept_logits v keep target logits) i =
      (\<Sum>r < n. \<Sum>j < v. if r * v + j \<in> ?A then exp (logits ! r ! i ! j) else 0)"
    using assms(2) by (auto simp: row_sum_exp_def kept_entry [OF ok] intro!: sum.cong)
  also have "\<dots> = (\<Sum>k < n * v. if k \<in> ?A then exp (full_row v logits i k) else 0)"
    by (subst sum_ranks_columns) (simp add: full_row_def cong: if_cong)
  also have "\<dots> = (\<Sum>k \<in> {..<n * v} \<inter> ?A. exp (full_row v logits i k))" by (simp add: sum.inter_restrict)
  also have "{..<n * v} \<inter> ?A = ?A" by (auto simp: support_def)
  finally show ?thesis by (simp add: sum_exp_def)
qed

lemma block_entry:
  assumes "r < n" "j < (v :: nat)"
  shows "r * v + j < n * v" "(r * v + j) div v = r" "(r * v + j) mod v = j"
proof -
  have "Suc r * v \<le> n * v" using assms(1) by (intro mult_le_mono1) simp
  then show "r * v + j < n * v" using assms(2) by simp
qed (use assms(2) in auto)

lemma kept_token_prob:
  assumes ok: "shards_ok n seq v keep target logits" and "r < n" "i < seq" "j < v"
  shows "exp_logit (kept_logits v keep target logits ! r ! i ! j) / row_sum_exp n v (kept_logits v keep target logits) i =
    token_prob (support n v keep i (tok target i)) (full_row v logits i) (r * v + j)"
  using assms(2-4) block_entry [OF assms(2,4)]
  by (simp add: kept_entry [OF ok] kept_sum_exp [OF ok] token_prob_def full_row_def)

lemma support_None: "support n v None i t = {..<n * v}"
  by (auto simp: support_def)

lemma predicted_sum:
  assumes ok: "shards_ok n seq v keep target logits" and i: "i < seq"
    and p: "\<And>r. r < n \<Longrightarrow> p r = sub_logit (kept_logits v keep target logits ! r ! i ! masked_target r v (target ! i)) (Some m)"
  shows "(\<Sum>r < n. if off_shard r v (target ! i) then 0 else the (p r)) = full_row v logits i (tok target i) - m"
proof -
  let ?t = "tok target i"
  have "(\<Sum>r < n. if off_shard r v (target ! i) then 0 else the (p r)) = (\<Sum>r < n. if r = ?t div v then full_row v logits i ?t - m else 0)"
  proof (intro sum.cong refl)
    fix r assume r: "r \<in> {..<n}"
    have "kept_logits v keep target logits ! (?t div v) ! i ! (?t mod v) = Some (full_row v logits i ?t)"
      using kept_entry [OF ok shards_okD(8) [OF ok i] i shards_okD(9) [OF ok]] support_target [OF shards_okD(7) [OF ok i]]
      by (simp add: full_row_def)
    moreover have "p r = sub_logit (kept_logits v keep target logits ! r ! i ! masked_target r v (target ! i)) (Some m)"
      using r by (intro p) simp
    ultimately show "(if off_shard r v (target ! i) then 0 else the (p r)) = (if r = ?t div v then full_row v logits i ?t - m else 0)"
      using shards_okD(2,6) [OF ok] i by (cases "r = ?t div v") (simp_all add: off_shard_iff masked_target_eq sub_logit_def)
  qed
  then show ?thesis using shards_okD(8) [OF ok i] by simp
qed

lemma kept_parts:
  assumes sums: "sums_ranks all_sum" and maxes: "maxes_ranks all_max" and ok: "shards_ok n seq v keep target logits"
    and targets: "targets = map (\<lambda>r. map (masked_target r v) target) [0..<n]"
  obtains M where
    "sp_max (vocab_parallel_softmax all_max all_sum targets (kept_logits v keep target logits)) = map (\<lambda>i. Some (M i)) [0..<seq]"
    "sp_sum_exp (vocab_parallel_softmax all_max all_sum targets (kept_logits v keep target logits)) =
      map (\<lambda>i. sum_exp (support n v keep i (tok target i)) (full_row v logits i) * exp (- M i)) [0..<seq]"
    "sp_softmax (vocab_parallel_softmax all_max all_sum targets (kept_logits v keep target logits)) =
      map (\<lambda>r. map (\<lambda>i. map (\<lambda>j. token_prob (support n v keep i (tok target i)) (full_row v logits i) (r * v + j)) [0..<v]) [0..<seq]) [0..<n]"
    "all_sum (map2 (map2 (\<lambda>x off. if off then 0 else the x))
       (sp_predicted (vocab_parallel_softmax all_max all_sum targets (kept_logits v keep target logits)))
       (map (\<lambda>r. map (off_shard r v) target) [0..<n])) = map (\<lambda>i. full_row v logits i (tok target i) - M i) [0..<seq]"
proof -
  let ?L = "kept_logits v keep target logits" and ?parts = "vocab_parallel_softmax all_max all_sum targets (kept_logits v keep target logits)"
  have len: "length targets = n" "r < n \<Longrightarrow> length (targets ! r) = seq" for r
    using shards_okD(5) [OF ok] by (simp_all add: targets)
  obtain M where M: "sp_max ?parts = map (\<lambda>i. Some (M i)) [0..<seq]"
    "sp_sum_exp ?parts = map (\<lambda>i. row_sum_exp n v ?L i * exp (- M i)) [0..<seq]"
    "sp_softmax ?parts = map (\<lambda>r. map (\<lambda>i. map (\<lambda>j. exp_logit (?L ! r ! i ! j) / row_sum_exp n v ?L i) [0..<v]) [0..<seq]) [0..<n]"
    "\<forall>r < n. length (sp_predicted ?parts ! r) = seq \<and> (\<forall>i < seq. targets ! r ! i < v \<longrightarrow>
       sp_predicted ?parts ! r ! i = sub_logit (?L ! r ! i ! (targets ! r ! i)) (Some (M i)))" "length (sp_predicted ?parts) = n"
    using softmax_parts_rows [OF sums maxes shards_okD(1) [OF ok] kept_shape [OF ok] kept_finite [OF ok] len] by blast
  let ?cols = "map2 (map2 (\<lambda>x off. if off then 0 else the x)) (sp_predicted ?parts) (map (\<lambda>r. map (off_shard r v) target) [0..<n])"
  have "all_sum ?cols = map (\<lambda>i. \<Sum>r < length ?cols. ?cols ! r ! i) [0..<seq]"
    using M(4,5) shards_okD(1,5) [OF ok] by (intro all_sum_columns [OF sums]) auto
  moreover have "(\<Sum>r < length ?cols. ?cols ! r ! i) = full_row v logits i (tok target i) - M i" if i: "i < seq" for i
  proof -
    have mt: "masked_target r v (target ! i) < v" for r
      using shards_okD(2,6) [OF ok] i by (simp add: masked_target_eq)
    have "(\<Sum>r < length ?cols. ?cols ! r ! i) = (\<Sum>r < n. if off_shard r v (target ! i) then 0 else the (sp_predicted ?parts ! r ! i))"
      using M(4,5) shards_okD(5) [OF ok] i by (auto intro!: sum.cong)
    also have "\<dots> = full_row v logits i (tok target i) - M i"
      using M(4) i mt shards_okD(5) [OF ok] by (intro predicted_sum [OF ok i]) (simp add: targets)
    finally show ?thesis .
  qed
  ultimately have pred: "all_sum ?cols = map (\<lambda>i. full_row v logits i (tok target i) - M i) [0..<seq]" by simp
  show ?thesis
  proof (rule that [OF M(1) _ _ pred])
    show "sp_sum_exp ?parts = map (\<lambda>i. sum_exp (support n v keep i (tok target i)) (full_row v logits i) * exp (- M i)) [0..<seq]"
      by (simp add: M(2) kept_sum_exp [OF ok])
    show "sp_softmax ?parts = map (\<lambda>r. map (\<lambda>i. map (\<lambda>j.
        token_prob (support n v keep i (tok target i)) (full_row v logits i) (r * v + j)) [0..<v]) [0..<seq]) [0..<n]"
      by (simp add: M(3) kept_token_prob [OF ok])
  qed
qed

lemma weighted_columns:
  assumes sums: "sums_ranks all_sum" and n: "0 < n" and shape: "group_shape n seq v logits"
  shows "sum_softmax_logits all_sum (map (\<lambda>r. map (\<lambda>i. map (\<lambda>j. P i (r * v + j)) [0..<v]) [0..<seq]) [0..<n]) logits =
    map (\<lambda>i. \<Sum>k < n * v. P i k * full_row v logits i k) [0..<seq]"
proof -
  note sh = group_shapeD [OF shape]
  let ?soft = "map (\<lambda>r. map (\<lambda>i. map (\<lambda>j. P i (r * v + j)) [0..<v]) [0..<seq]) [0..<n]"
  have "(\<Sum>r < length (map2 (map2 dot) ?soft logits). map2 (map2 dot) ?soft logits ! r ! i) =
      (\<Sum>k < n * v. P i k * full_row v logits i k)" if "i < seq" for i
  proof -
    have "(\<Sum>r < length (map2 (map2 dot) ?soft logits). map2 (map2 dot) ?soft logits ! r ! i) =
        (\<Sum>r < n. \<Sum>j < v. P i (r * v + j) * logits ! r ! i ! j)"
      using that sh by (auto simp: dot_def sum_list_sum_nth lessThan_atLeast0 intro!: sum.cong)
    then show ?thesis
      by (simp add: sum_ranks_columns [where g = "\<lambda>r j. P i (r * v + j) * logits ! r ! i ! j"] full_row_def)
  qed
  then show ?thesis unfolding sum_softmax_logits_def
    using sh n by (subst all_sum_columns [OF sums, of _ seq]) auto
qed

text \<open>The whole result of a forward pass, in closed form.\<close>

definition ctx_of :: "nat \<Rightarrow> nat \<Rightarrow> nat \<Rightarrow> bool \<Rightarrow> bool list list list option \<Rightarrow> int list \<Rightarrow> real list list list \<Rightarrow> nat \<Rightarrow> vp_ctx" where
  "ctx_of n seq v eg keep target logits r = \<lparr>vc_with_entropy_grad = eg,
     vc_softmax = map (\<lambda>i. map (\<lambda>j. token_prob (support n v keep i (tok target i)) (full_row v logits i) (r * v + j)) [0..<v]) [0..<seq],
     vc_target_mask = map (\<lambda>i. r \<noteq> tok target i div v) [0..<seq],
     vc_masked_target = map (\<lambda>i. if r = tok target i div v then tok target i mod v else 0) [0..<seq],
     vc_entropy_softmax = (if eg then map (\<lambda>i. map (\<lambda>j. token_prob {..<n * v} (full_row v logits i) (r * v + j)) [0..<v]) [0..<seq] else []),
     vc_sum_softmax_logits = (if eg then map (\<lambda>i. \<Sum>k < n * v. token_prob {..<n * v} (full_row v logits i) k * full_row v logits i k) [0..<seq] else []),
     vc_logits = (if eg then logits ! r else [])\<rparr>"

lemma entropy_average:
  assumes "0 < m"
  shows "entropy_of {..<m} f = ln (sum_exp {..<m} f) - (\<Sum>k < m. token_prob {..<m} f k * f k)"
proof -
  have "(\<Sum>k < m. token_prob {..<m} f k * f k) = (\<Sum>k < m. exp (f k) * f k) / sum_exp {..<m} f"
    by (simp add: token_prob_def sum_divide_distrib)
  then show ?thesis using assms entropy_of_eq [of "{..<m}" f] by (simp add: lessThan_empty_iff)
qed

lemma ln_shift: "0 < (s :: real) \<Longrightarrow> ln (s * exp (- m)) = ln s - m"
  by (simp add: ln_mult)

lemma vp_forward_eq:
  assumes sums: "sums_ranks all_sum" and maxes: "maxes_ranks all_max" and ok: "shards_ok n seq v keep target logits"
  shows "vp_forward all_max all_sum we weg keep target logits =
    (map (\<lambda>i. token_log_prob (support n v keep i (tok target i)) (tok target i) (full_row v logits i)) [0..<seq],
     if we then map (\<lambda>i. entropy_of {..<n * v} (full_row v logits i)) [0..<seq] else [],
     map (ctx_of n seq v (we \<and> weg) keep target logits) [0..<n])"
proof -
  note sh = group_shapeD [OF shards_okD(3) [OF ok]]
  have okN: "shards_ok n seq v None target logits" using ok by (simp add: shards_ok_def)
  have pos: "0 < n * v" using shards_okD(1,2) [OF ok] by simp
  define targets where "targets = map (\<lambda>r. map (masked_target r v) target) [0..<n]"
  define offs where "offs = map (\<lambda>r. map (off_shard r v) target) [0..<n]"
  define parts where "parts = vocab_parallel_softmax all_max all_sum targets (kept_logits v keep target logits)"
  define eparts where "eparts = vocab_parallel_softmax all_max all_sum targets (kept_logits v None target logits)"
  obtain M where M: "sp_max parts = map (\<lambda>i. Some (M i)) [0..<seq]"
    "sp_sum_exp parts = map (\<lambda>i. sum_exp (support n v keep i (tok target i)) (full_row v logits i) * exp (- M i)) [0..<seq]"
    "sp_softmax parts = map (\<lambda>r. map (\<lambda>i. map (\<lambda>j. token_prob (support n v keep i (tok target i)) (full_row v logits i) (r * v + j)) [0..<v]) [0..<seq]) [0..<n]"
    "all_sum (map2 (map2 (\<lambda>x off. if off then 0 else the x)) (sp_predicted parts) offs) =
      map (\<lambda>i. full_row v logits i (tok target i) - M i) [0..<seq]"
    unfolding parts_def offs_def by (rule kept_parts [OF sums maxes ok targets_def])
  obtain K where K: "sp_max eparts = map (\<lambda>i. Some (K i)) [0..<seq]"
    "sp_sum_exp eparts = map (\<lambda>i. sum_exp {..<n * v} (full_row v logits i) * exp (- K i)) [0..<seq]"
    "sp_softmax eparts = map (\<lambda>r. map (\<lambda>i. map (\<lambda>j. token_prob {..<n * v} (full_row v logits i) (r * v + j)) [0..<v]) [0..<seq]) [0..<n]"
    unfolding eparts_def by (rule kept_parts [OF sums maxes okN targets_def]) (simp only: support_None)
  have width: "map (f r (shard_width (logits ! r))) target = map (f r v) target" if "r < n" for r and f :: "nat \<Rightarrow> nat \<Rightarrow> int \<Rightarrow> 'b"
  proof (cases "seq = 0")
    case False
    then have "shard_width (logits ! r) = v"
      using sh(2) [OF that] sh(3) [OF that, of 0] by (cases "logits ! r") (auto simp: shard_width_def)
    then show ?thesis by simp
  qed (use shards_okD(5) [OF ok] in simp)
  have offs: "map (\<lambda>r. map (off_shard r (shard_width (logits ! r))) target) [0..<n] = offs"
    and targets: "map (\<lambda>r. map (masked_target r (shard_width (logits ! r))) target) [0..<n] = targets"
    by (simp_all add: offs_def targets_def width)
  have masked: "(case keep of None \<Rightarrow> map (map (map Some)) logits
      | Some ks \<Rightarrow> map (\<lambda>r. map (\<lambda>i. mask_row (ks ! r ! i) (offs ! r ! i) (targets ! r ! i) (logits ! r ! i)) [0..<length (logits ! r)]) [0..<n]) =
      kept_logits v keep target logits"
    using sh shards_okD(5) [OF ok] by (auto simp: kept_logits_def offs_def targets_def split: option.split)
  have "(case keep of None \<Rightarrow> parts | Some _ \<Rightarrow> vocab_parallel_softmax all_max all_sum targets (map (map (map Some)) logits)) = eparts"
    by (auto simp: parts_def eparts_def kept_logits_def split: option.split)
  note run = vp_forward_def [of all_max all_sum we weg keep target logits, unfolded sh(1) Let_def offs targets masked, folded parts_def, unfolded this]
  have weighted: "sum_softmax_logits all_sum (sp_softmax eparts) logits =
      map (\<lambda>i. \<Sum>k < n * v. token_prob {..<n * v} (full_row v logits i) k * full_row v logits i k) [0..<seq]"
    unfolding K(3) by (rule weighted_columns [OF sums shards_okD(1,3) [OF ok]])
  have lp: "map2 (\<lambda>p z. p - ln z) (map (\<lambda>i. full_row v logits i (tok target i) - M i) [0..<seq]) (sp_sum_exp parts) =
      map (\<lambda>i. token_log_prob (support n v keep i (tok target i)) (tok target i) (full_row v logits i)) [0..<seq]"
  proof (rule nth_equalityI)
    fix i assume "i < length (map2 (\<lambda>p z. p - ln z) (map (\<lambda>i. full_row v logits i (tok target i) - M i) [0..<seq]) (sp_sum_exp parts))"
    then have i: "i < seq" by (simp add: M(2))
    have mem: "tok target i \<in> support n v keep i (tok target i)" by (rule support_target [OF shards_okD(7) [OF ok i]])
    then have "0 < sum_exp (support n v keep i (tok target i)) (full_row v logits i)" by (intro sum_exp_pos) auto
    with mem i show "map2 (\<lambda>p z. p - ln z) (map (\<lambda>i. full_row v logits i (tok target i) - M i) [0..<seq]) (sp_sum_exp parts) ! i =
        map (\<lambda>i. token_log_prob (support n v keep i (tok target i)) (tok target i) (full_row v logits i)) [0..<seq] ! i"
      by (simp add: M(2) ln_shift token_log_prob_eq)
  qed (simp add: M(2))
  have ent: "map (\<lambda>(m, z, s). the m + ln z - s) (zip (sp_max eparts) (zip (sp_sum_exp eparts)
      (map (\<lambda>i. \<Sum>k < n * v. token_prob {..<n * v} (full_row v logits i) k * full_row v logits i k) [0..<seq]))) =
      map (\<lambda>i. entropy_of {..<n * v} (full_row v logits i)) [0..<seq]"
  proof -
    have pos': "0 < sum_exp {..<n * v} f" for f using pos by (intro sum_exp_pos) (auto simp: lessThan_empty_iff)
    show ?thesis by (intro nth_equalityI) (simp_all add: K ln_shift [OF pos'] entropy_average [OF pos])
  qed
  have ctx: "\<lparr>vc_with_entropy_grad = we \<and> weg, vc_softmax = sp_softmax parts ! r, vc_target_mask = offs ! r, vc_masked_target = targets ! r,
      vc_entropy_softmax = (if we \<and> weg then sp_softmax eparts ! r else []),
      vc_sum_softmax_logits = (if we \<and> weg then map (\<lambda>i. \<Sum>k < n * v. token_prob {..<n * v} (full_row v logits i) k * full_row v logits i k) [0..<seq] else []),
      vc_logits = (if we \<and> weg then logits ! r else [])\<rparr> = ctx_of n seq v (we \<and> weg) keep target logits r" if r: "r < n" for r
  proof -
    have "map (off_shard r v) target = map (\<lambda>i. r \<noteq> tok target i div v) [0..<seq]"
      "map (masked_target r v) target = map (\<lambda>i. if r = tok target i div v then tok target i mod v else 0) [0..<seq]"
      using shards_okD(2,5,6) [OF ok] by (auto intro!: nth_equalityI simp: off_shard_iff masked_target_eq)
    then show ?thesis using r by (simp add: ctx_of_def offs_def targets_def M(3) K(3))
  qed
  show ?thesis unfolding run weighted M(4) lp ent by (simp add: ctx cong: map_cong)
qed

text \<open>The backward pass in closed form.\<close>

definition grad_entry :: "nat \<Rightarrow> nat \<Rightarrow> bool list list list option \<Rightarrow> int list \<Rightarrow> real list list list \<Rightarrow> nat \<Rightarrow> nat \<Rightarrow> real \<Rightarrow> real \<Rightarrow> real" where
  "grad_entry n v keep target logits i k g h = (let f = full_row v logits i; t = tok target i in
     g * (of_bool (k = t) - token_prob (support n v keep i t) f k) +
     h * (((\<Sum>m < n * v. token_prob {..<n * v} f m * f m) - f k) * token_prob {..<n * v} f k))"

lemma vp_backward_eq:
  assumes ok: "shards_ok n seq v keep target logits" and r: "r < n"
    and hs: "if eg then hs = Some hl \<and> length hl = seq else hs = None \<and> hl = replicate seq 0"
  shows "vp_backward (ctx_of n seq v eg keep target logits r) (Some gs) hs =
    Inr (map (\<lambda>i. map (\<lambda>j. grad_entry n v keep target logits i (r * v + j) (gs ! i) (hl ! i)) [0..<v]) [0..<seq])"
proof -
  note sh = group_shapeD [OF shards_okD(3) [OF ok]]
  let ?A = "\<lambda>i. support n v keep i (tok target i)" and ?F = "\<lambda>i. full_row v logits i"
  define off where "off i \<longleftrightarrow> r \<noteq> tok target i div v" for i
  define mt where "mt i = (if r = tok target i div v then tok target i mod v else 0)" for i
  have ctx: "ctx_of n seq v eg keep target logits r = \<lparr>vc_with_entropy_grad = eg,
     vc_softmax = map (\<lambda>i. map (\<lambda>j. token_prob (?A i) (?F i) (r * v + j)) [0..<v]) [0..<seq],
     vc_target_mask = map off [0..<seq], vc_masked_target = map mt [0..<seq],
     vc_entropy_softmax = (if eg then map (\<lambda>i. map (\<lambda>j. token_prob {..<n * v} (?F i) (r * v + j)) [0..<v]) [0..<seq] else []),
     vc_sum_softmax_logits = (if eg then map (\<lambda>i. \<Sum>k < n * v. token_prob {..<n * v} (?F i) k * ?F i k) [0..<seq] else []),
     vc_logits = (if eg then logits ! r else [])\<rparr>"
    by (simp add: ctx_of_def off_def [abs_def] mt_def [abs_def])
  have lp: "log_prob_grad_row g (off i) (mt i)
      (map (\<lambda>j. token_prob (?A i) (?F i) (r * v + j)) [0..<v]) =
      map (\<lambda>j. g * (of_bool (r * v + j = tok target i) - token_prob (?A i) (?F i) (r * v + j))) [0..<v]" for i g
  proof -
    have "r * v + j = tok target i \<longleftrightarrow> r = tok target i div v \<and> j = tok target i mod v" if "j < v" for j
      using block_entry(2,3) [OF r that] by (metis div_mult_mod_eq)
    then show ?thesis using shards_okD(2) [OF ok] shards_okD(9) [OF ok, of i]
      by (intro nth_equalityI) (auto simp: log_prob_grad_row_def Let_def nth_list_update off_def mt_def algebra_simps)
  qed
  have ent: "entropy_grad_row w h (map (\<lambda>j. token_prob {..<n * v} (?F i) (r * v + j)) [0..<v]) (logits ! r ! i) =
      map (\<lambda>j. h * ((w - ?F i (r * v + j)) * token_prob {..<n * v} (?F i) (r * v + j))) [0..<v]" if "i < seq" for i w h
    using sh(3) [OF r that] by (intro nth_equalityI) (auto simp: entropy_grad_row_def full_row_def)
  show ?thesis
  proof (cases "eg \<and> hl \<noteq> []")
    case True
    then have "hs = Some hl" "hl \<noteq> []" "length hl = seq" using hs by auto
    then have "vp_backward (ctx_of n seq v eg keep target logits r) (Some gs) hs = Inr (map (\<lambda>i. map2 (+)
        (map (\<lambda>j. gs ! i * (of_bool (r * v + j = tok target i) - token_prob (?A i) (?F i) (r * v + j))) [0..<v])
        (map (\<lambda>j. hl ! i * (((\<Sum>m < n * v. token_prob {..<n * v} (?F i) m * ?F i m) - ?F i (r * v + j)) *
          token_prob {..<n * v} (?F i) (r * v + j))) [0..<v])) [0..<seq])"
      unfolding vp_backward_def ctx using True by (simp add: Let_def lp ent cong: map_cong)
    then show ?thesis by (simp add: map2_map_map grad_entry_def Let_def)
  next
    case False
    then have "hs = None \<or> hs = Some []" and hl: "hl = replicate seq 0" using hs by (auto split: if_splits)
    then have "vp_backward (ctx_of n seq v eg keep target logits r) (Some gs) hs = Inr (map (\<lambda>i.
        map (\<lambda>j. gs ! i * (of_bool (r * v + j = tok target i) - token_prob (?A i) (?F i) (r * v + j))) [0..<v]) [0..<seq])"
      unfolding vp_backward_def ctx by (auto simp: Let_def lp cong: map_cong)
    then show ?thesis using hl by (simp add: grad_entry_def Let_def cong: map_cong)
  qed
qed

text \<open>The closed form is the derivative of the reference.\<close>

lemma grad_entry_deriv:
  assumes ok: "shards_ok n seq v keep target logits" and i: "i < seq" and k: "k < n * v"
  shows "((\<lambda>z. g * token_log_prob (support n v keep i (tok target i)) (tok target i) ((full_row v logits i)(k := z)) +
      h * entropy_of {..<n * v} ((full_row v logits i)(k := z)))
    has_real_derivative grad_entry n v keep target logits i k g h) (at (full_row v logits i k))"
proof -
  have lp: "((\<lambda>z. token_log_prob (support n v keep i (tok target i)) (tok target i) ((full_row v logits i)(k := z)))
      has_real_derivative of_bool (k = tok target i) - token_prob (support n v keep i (tok target i)) (full_row v logits i) k)
      (at (full_row v logits i k))"
    by (rule token_log_prob_deriv) (simp_all add: support_target shards_okD(7) [OF ok i])
  have ent: "((\<lambda>z. entropy_of {..<n * v} ((full_row v logits i)(k := z))) has_real_derivative
      ((\<Sum>m < n * v. token_prob {..<n * v} (full_row v logits i) m * full_row v logits i m) - full_row v logits i k) *
      token_prob {..<n * v} (full_row v logits i) k) (at (full_row v logits i k))"
    by (rule entropy_deriv) (use k in auto)
  show ?thesis unfolding grad_entry_def Let_def
    by (rule DERIV_add) (rule DERIV_cmult [OF lp], rule DERIV_cmult [OF ent])
qed

section \<open>Chunks of rows\<close>

lemma token_prob_cong: "(\<And>k. k \<in> A \<Longrightarrow> f k = g k) \<Longrightarrow> token_prob A f = token_prob A g"
proof -
  assume eq: "\<And>k. k \<in> A \<Longrightarrow> f k = g k"
  then have "sum_exp A f = sum_exp A g" unfolding sum_exp_def by (intro sum.cong) auto
  then show "token_prob A f = token_prob A g" using eq by (intro ext) (simp add: token_prob_def)
qed

lemma token_log_prob_cong: "(\<And>k. k \<in> A \<Longrightarrow> f k = g k) \<Longrightarrow> token_log_prob A t f = token_log_prob A t g"
  unfolding token_log_prob_def by (subst token_prob_cong [of A f g]) simp_all

lemma entropy_of_cong: "(\<And>k. k \<in> A \<Longrightarrow> f k = g k) \<Longrightarrow> entropy_of A f = entropy_of A g"
  unfolding entropy_of_def by (subst (1 2) token_prob_cong [of A f g]) simp_all

lemma slice_nth: "a + i < b \<Longrightarrow> b \<le> length xs \<Longrightarrow> slice a b xs ! i = xs ! (a + i)"
  by (simp add: slice_def)

lemma group_shape_slice:
  assumes "group_shape n seq v xs" "a \<le> b" "b \<le> seq"
  shows "group_shape n (b - a) v (row_slice a b xs)"
  using assms by (auto simp: group_shape_def slice_nth)

lemma full_row_slice:
  assumes "group_shape n seq v xs" "a + i < b" "b \<le> seq" "k < n * v"
  shows "full_row v (row_slice a b xs) i k = full_row v xs (a + i) k"
  using assms less_mult_imp_div_less [OF assms(4)] by (simp add: full_row_def group_shape_def slice_nth)

lemma shards_ok_slice:
  assumes ok: "shards_ok n seq v keep target logits" and "a \<le> b" "b \<le> seq"
  shows "shards_ok n (b - a) v (map_option (row_slice a b) keep) (slice a b target) (row_slice a b logits)"
  using assms by (auto simp: shards_ok_def group_shape_slice slice_nth split: option.splits)

lemma support_slice:
  assumes ok: "shards_ok n seq v keep target logits" and "a + i < b" "b \<le> seq"
  shows "support n v (map_option (row_slice a b) keep) i t = support n v keep (a + i) t"
proof (cases keep)
  case (Some ks)
  then show ?thesis using full_row_slice [OF shards_okD(4) [OF ok Some] assms(2,3)] by (auto simp: support_def)
qed (simp add: support_def)

lemma upt_shift: "(\<And>i. i < b - a \<Longrightarrow> f i = g (a + i)) \<Longrightarrow> map f [0..<b - a] = map g [a..<b]"
  by (rule nth_equalityI) auto

definition log_prob_at :: "nat \<Rightarrow> nat \<Rightarrow> bool list list list option \<Rightarrow> int list \<Rightarrow> real list list list \<Rightarrow> nat \<Rightarrow> real" where
  "log_prob_at n v keep target logits i =
     token_log_prob (support n v keep i (tok target i)) (tok target i) (full_row v logits i)"

definition entropy_at :: "nat \<Rightarrow> nat \<Rightarrow> real list list list \<Rightarrow> nat \<Rightarrow> real" where
  "entropy_at n v logits i = entropy_of {..<n * v} (full_row v logits i)"

lemma chunk_columns:
  assumes sums: "sums_ranks all_sum" and maxes: "maxes_ranks all_max" and ok: "shards_ok n seq v keep target logits"
    and ab: "a \<le> b" "b \<le> seq"
  shows "calculate_log_probs_and_entropy_chunk all_max all_sum we weg (map_option (row_slice a b) keep) (slice a b target) (row_slice a b logits) =
    (map (log_prob_at n v keep target logits) [a..<b], if we then Some (map (entropy_at n v logits) [a..<b]) else None,
     map (ctx_of n (b - a) v (we \<and> weg) (map_option (row_slice a b) keep) (slice a b target) (row_slice a b logits)) [0..<n])"
proof -
  let ?keep = "map_option (row_slice a b) keep" and ?tg = "slice a b target" and ?lg = "row_slice a b logits"
  note sh = shards_okD(3) [OF ok] and tl = shards_okD(5) [OF ok]
  have lp: "log_prob_at n v ?keep ?tg ?lg i = log_prob_at n v keep target logits (a + i)" if "i < b - a" for i
  proof -
    have i: "a + i < b" using that by linarith
    have tok: "tok ?tg i = tok target (a + i)" using i ab tl by (simp add: slice_nth)
    show ?thesis unfolding log_prob_at_def support_slice [OF ok i ab(2)] tok
    proof (rule token_log_prob_cong)
      fix k assume "k \<in> support n v keep (a + i) (tok target (a + i))"
      then show "full_row v ?lg i k = full_row v logits (a + i) k"
        by (intro full_row_slice [OF sh i ab(2)]) (simp add: support_def)
    qed
  qed
  have en: "entropy_at n v ?lg i = entropy_at n v logits (a + i)" if "i < b - a" for i
    unfolding entropy_at_def using that by (intro entropy_of_cong full_row_slice [OF sh _ ab(2)]) auto
  have "map (log_prob_at n v ?keep ?tg ?lg) [0..<b - a] = map (log_prob_at n v keep target logits) [a..<b]"
    "map (entropy_at n v ?lg) [0..<b - a] = map (entropy_at n v logits) [a..<b]"
    by (rule upt_shift, erule lp) (rule upt_shift, erule en)
  then show ?thesis using vp_forward_eq [OF sums maxes shards_ok_slice [OF ok ab], of we weg]
    by (simp add: calculate_log_probs_and_entropy_chunk_def log_prob_at_def [abs_def] entropy_at_def [abs_def])
qed

text \<open>A loop over the chunks of a preallocated column fills it.\<close>

lemma fold_chunks:
  assumes sz: "0 < sz" and buf: "length buf = n"
    and chunk: "\<And>start. start < n \<Longrightarrow> g start = map h [start..<min (start + sz) n]"
  shows "fold (\<lambda>start col. blit col start (g start)) (py_range 0 n sz) buf = map h [0..<n]"
proof -
  have "fold (\<lambda>start col. blit col start (g start)) (map (\<lambda>j. j * sz) [0..<m]) buf =
      map h [0..<min (m * sz) n] @ drop (min (m * sz) n) buf" if "m \<le> (n + sz - 1) div sz" for m
    using that
  proof (induction m)
    case (Suc m)
    have "m < (n + sz - 1) div sz" using Suc.prems by simp
    then have "Suc m * sz \<le> n + sz - 1" using sz by (metis Suc_leI div_times_less_eq_dividend dual_order.trans mult_le_mono1)
    then have lt: "m * sz < n" using sz by simp
    let ?a = "m * sz" and ?b = "min (Suc m * sz) n"
    have IH: "fold (\<lambda>start col. blit col start (g start)) (map (\<lambda>j. j * sz) [0..<m]) buf = map h [0..<?a] @ drop ?a buf"
      using Suc lt by (simp add: min_def)
    have "g ?a = map h [?a..<?b]" using chunk [OF lt] by (simp add: add.commute)
    moreover have ab: "?a \<le> ?b" using lt by simp
    moreover have "[0..<?b] = [0..<?a] @ [?a..<?b]" using upt_add_eq_append [of 0 ?a "?b - ?a"] ab by simp
    ultimately have "blit (map h [0..<?a] @ drop ?a buf) ?a (g ?a) = map h [0..<?b] @ drop ?b buf"
      by (simp only: blit_def map_append append_assoc) simp
    then show ?case using IH by (simp add: add.commute)
  qed simp
  moreover have "n \<le> (n + sz - 1) div sz * sz"
  proof -
    have "(n + sz - 1) div sz * sz + (n + sz - 1) mod sz = n + sz - 1" by simp
    moreover have "(n + sz - 1) mod sz < sz" using sz by simp
    ultimately show ?thesis by linarith
  qed
  ultimately show ?thesis using buf by (simp add: py_range_def min_def)
qed

lemma py_range_less: "start \<in> set (py_range 0 n sz) \<Longrightarrow> 0 < sz \<Longrightarrow> start < n"
proof -
  assume "start \<in> set (py_range 0 n sz)" and sz: "0 < sz"
  then obtain j where j: "start = j * sz" "Suc j \<le> (n + sz - 1) div sz" by (auto simp: py_range_def)
  then have "Suc j * sz \<le> n + sz - 1" by (metis div_times_less_eq_dividend dual_order.trans mult_le_mono1)
  then show "start < n" using sz j(1) by simp
qed

lemma fold_pair:
  "fold (\<lambda>x (a, b). (f x a, g x b)) xs (a0, b0) = (fold f xs a0, fold g xs b0)"
  by (induction xs arbitrary: a0 b0) auto

lemma fold_ident: "fold (\<lambda>_ b. b) xs b = b"
  by (induction xs) auto

lemma res_fold_Inr:
  "(\<And>x s. x \<in> set xs \<Longrightarrow> f s x = Inr (g x s)) \<Longrightarrow> res_fold f s xs = Inr (fold g xs s)"
  by (induction xs arbitrary: s) auto

lemma chunked_forward_eq:
  assumes sums: "sums_ranks all_sum" and maxes: "maxes_ranks all_max" and ok: "shards_ok n seq v keep target logits"
    and sz: "0 < sz" and buf: "length buf = seq"
  shows "chunked_forward all_max all_sum we weg keep target logits sz buf =
    (map (log_prob_at n v keep target logits) [0..<seq], if we then map (entropy_at n v logits) [0..<seq] else [])"
proof -
  have n: "length (hd logits) = seq"
    using shards_okD(1) [OF ok] group_shapeD(1) [OF shards_okD(3) [OF ok]] group_shapeD(2) [OF shards_okD(3) [OF ok], of 0]
    by (cases logits) auto
  let ?lp = "\<lambda>start. map (log_prob_at n v keep target logits) [start..<min (start + sz) seq]"
  let ?en = "\<lambda>start. map (entropy_at n v logits) [start..<min (start + sz) seq]"
  have step: "(\<lambda>start (log_prob, entropy).
      let stop = min (start + sz) seq;
          (values, entropies, _) = calculate_log_probs_and_entropy_chunk all_max all_sum we weg
            (map_option (row_slice start stop) keep) (slice start stop target) (row_slice start stop logits)
      in (blit log_prob start values, case entropies of None \<Rightarrow> entropy | Some es \<Rightarrow> blit entropy start es)) start s =
    (\<lambda>start (a, b). (blit a start (?lp start), (if we then blit b start (?en start) else b))) start s"
    if "start < seq" for start s
    using that by (cases s) (simp add: Let_def chunk_columns [OF sums maxes ok])
  have "chunked_forward all_max all_sum we weg keep target logits sz buf =
      fold (\<lambda>start (a, b). (blit a start (?lp start), (if we then blit b start (?en start) else b))) (py_range 0 seq sz)
        (buf, if we then buf else [])"
    unfolding chunked_forward_def Let_def n
    using step [unfolded Let_def] py_range_less [OF _ sz, where n = seq] by (intro fold_cong refl ext) blast
  also have "\<dots> = (fold (\<lambda>start a. blit a start (?lp start)) (py_range 0 seq sz) buf,
      fold (\<lambda>start b. if we then blit b start (?en start) else b) (py_range 0 seq sz) (if we then buf else []))"
    by (rule fold_pair)
  also have "\<dots> = (map (log_prob_at n v keep target logits) [0..<seq], if we then map (entropy_at n v logits) [0..<seq] else [])"
    using fold_chunks [OF sz buf, where g = ?lp and h = "log_prob_at n v keep target logits"]
      fold_chunks [OF sz buf, where g = ?en and h = "entropy_at n v logits"] by (cases we) (simp_all add: fold_ident)
  finally show ?thesis .
qed

lemma grad_entry_slice:
  assumes ok: "shards_ok n seq v keep target logits" and i: "a + i < b" and b: "b \<le> seq" and k: "k < n * v"
  shows "grad_entry n v (map_option (row_slice a b) keep) (slice a b target) (row_slice a b logits) i k g h =
    grad_entry n v keep target logits (a + i) k g h"
proof -
  let ?f = "full_row v (row_slice a b logits) i" and ?f' = "full_row v logits (a + i)"
  have f: "?f m = ?f' m" if "m < n * v" for m by (rule full_row_slice [OF shards_okD(3) [OF ok] i b that])
  have tok: "tok (slice a b target) i = tok target (a + i)" using i b shards_okD(5) [OF ok] by (simp add: slice_nth)
  have all: "token_prob {..<n * v} ?f = token_prob {..<n * v} ?f'" by (rule token_prob_cong) (simp add: f)
  have kept: "token_prob (support n v keep (a + i) t) ?f = token_prob (support n v keep (a + i) t) ?f'" for t
    by (rule token_prob_cong) (simp add: f support_def)
  show ?thesis unfolding grad_entry_def Let_def support_slice [OF ok i b] tok all kept
    using k by (simp add: f)
qed

definition grad_row :: "nat \<Rightarrow> nat \<Rightarrow> bool list list list option \<Rightarrow> int list \<Rightarrow> real list list list \<Rightarrow> nat \<Rightarrow> real list \<Rightarrow> real list \<Rightarrow> nat \<Rightarrow> real list" where
  "grad_row n v keep target logits r gs hl i = map (\<lambda>j. grad_entry n v keep target logits i (r * v + j) (gs ! i) (hl ! i)) [0..<v]"

lemma chunk_backward:
  assumes ok: "shards_ok n seq v keep target logits" and r: "r < n" and ab: "a \<le> b" "b \<le> seq"
    and len: "length gs = seq" "length hl = seq" "\<not> eg \<Longrightarrow> hl = replicate seq 0"
  shows "vp_backward (ctx_of n (b - a) v eg (map_option (row_slice a b) keep) (slice a b target) (row_slice a b logits) r)
      (Some (slice a b gs)) (if eg then Some (slice a b hl) else None) =
    Inr (map (grad_row n v keep target logits r gs hl) [a..<b])"
proof -
  let ?keep = "map_option (row_slice a b) keep" and ?tg = "slice a b target" and ?lg = "row_slice a b logits"
  have hs: "if eg then (if eg then Some (slice a b hl) else None) = Some (slice a b hl) \<and> length (slice a b hl) = b - a
      else (if eg then Some (slice a b hl) else None) = None \<and> slice a b hl = replicate (b - a) 0"
  proof (cases eg)
    case False
    then have "slice a b hl = replicate (b - a) 0" using len(3) ab by (simp add: slice_def min_def)
    then show ?thesis using False by simp
  qed (use len ab in simp)
  have row: "map (\<lambda>j. grad_entry n v ?keep ?tg ?lg i (r * v + j) (slice a b gs ! i) (slice a b hl ! i)) [0..<v] =
      grad_row n v keep target logits r gs hl (a + i)" if "i < b - a" for i
  proof -
    have i: "a + i < b" using that by linarith
    show ?thesis unfolding grad_row_def using len ab(2) i
      by (intro map_cong refl) (simp add: grad_entry_slice [OF ok i ab(2)] block_entry(1) [OF r] slice_nth)
  qed
  show ?thesis unfolding vp_backward_eq [OF shards_ok_slice [OF ok ab] r hs]
    by (intro arg_cong [where f = Inr] upt_shift row)
qed

lemma chunked_backward_eq:
  assumes sums: "sums_ranks all_sum" and maxes: "maxes_ranks all_max" and ok: "shards_ok n seq v keep target logits"
    and sz: "0 < sz" and buf: "length buf = seq" and r: "r < n"
    and len: "length gs = seq" "length hl = seq" "\<not> eg \<Longrightarrow> hl = replicate seq 0"
  shows "chunked_backward all_max all_sum eg keep target logits sz r gs hl buf =
    Inr (map (grad_row n v keep target logits r gs hl) [0..<seq])"
proof -
  have n: "length (hd logits) = seq"
    using shards_okD(1) [OF ok] group_shapeD(1) [OF shards_okD(3) [OF ok]] group_shapeD(2) [OF shards_okD(3) [OF ok], of 0]
    by (cases logits) auto
  have "chunked_backward all_max all_sum eg keep target logits sz r gs hl buf =
      Inr (fold (\<lambda>start grad. blit grad start (map (grad_row n v keep target logits r gs hl) [start..<min (start + sz) seq])) (py_range 0 seq sz) buf)"
    unfolding chunked_backward_def Let_def n
  proof (rule res_fold_Inr)
    fix start :: nat and grad assume "start \<in> set (py_range 0 seq sz)"
    then have st: "start \<le> min (start + sz) seq" "min (start + sz) seq \<le> seq" using py_range_less [OF _ sz] by fastforce+
    show "(case calculate_log_probs_and_entropy_chunk all_max all_sum eg eg (map_option (row_slice start (min (start + sz) seq)) keep)
          (slice start (min (start + sz) seq) target) (row_slice start (min (start + sz) seq) logits) of
        (values, entropies, ctxs) \<Rightarrow> res_bind (vp_backward (ctxs ! r) (Some (slice start (min (start + sz) seq) gs))
          (if eg then Some (slice start (min (start + sz) seq) hl) else None)) (\<lambda>g. Inr (blit grad start g))) =
      Inr (blit grad start (map (grad_row n v keep target logits r gs hl) [start..<min (start + sz) seq]))"
      using r chunk_columns [OF sums maxes ok st, of eg eg] chunk_backward [OF ok r st len] by simp
  qed
  then show ?thesis using fold_chunks [OF sz buf, where h = "grad_row n v keep target logits r gs hl"] by simp
qed

section \<open>Properties\<close>

lemma calculate_log_probs_eq:
  assumes "sums_ranks all_sum" "maxes_ranks all_max" "shards_ok n seq v keep target logits" "length buf = seq"
  shows "calculate_log_probs_and_entropy all_max all_sum we weg keep target logits chunk buf =
    (map (\<lambda>i. token_log_prob (support n v keep i (nat (target ! i))) (nat (target ! i)) (full_row v logits i)) [0..<seq],
     if we then Some (map (\<lambda>i. entropy_of {..<n * v} (full_row v logits i)) [0..<seq]) else None)"
proof -
  have n: "length (hd logits) = seq"
    using shards_okD(1) [OF assms(3)] group_shapeD(1) [OF shards_okD(3) [OF assms(3)]]
      group_shapeD(2) [OF shards_okD(3) [OF assms(3)], of 0] by (cases logits) auto
  consider "seq = 0" | "seq \<noteq> 0" "0 < chunk" | "seq \<noteq> 0" "\<not> 0 < chunk" by blast
  then show ?thesis
  proof cases
    case 2
    then show ?thesis using chunked_forward_eq [OF assms(1-3), of "nat chunk" buf we weg] assms(4)
      by (simp add: calculate_log_probs_and_entropy_def n log_prob_at_def [abs_def] entropy_at_def [abs_def])
  next
    case 3
    then show ?thesis using vp_forward_eq [OF assms(1-3), of we weg]
      by (simp add: calculate_log_probs_and_entropy_def calculate_log_probs_and_entropy_chunk_def n)
  qed (simp add: calculate_log_probs_and_entropy_def n)
qed

text \<open>C29: On a vocabulary cut over the ranks of a tensor-parallel group, the computed log-probability of every target is
  the logarithm of its softmax probability among the tokens its row keeps (its own token always counts), and the entropy
  is that of the softmax of the unmasked row; neither the number of ranks nor the size of the chunks of rows matters.\<close>

theorem vocab_parallel_log_probs:
  assumes "sums_ranks all_sum" "maxes_ranks all_max" "shards_ok n seq v keep target logits" "length buf = seq"
  shows "calculate_log_probs_and_entropy all_max all_sum we weg keep target logits chunk buf =
    (map (\<lambda>i. token_log_prob (support n v keep i (nat (target ! i))) (nat (target ! i)) (full_row v logits i)) [0..<seq],
     if we then Some (map (\<lambda>i. entropy_of {..<n * v} (full_row v logits i)) [0..<seq]) else None)"
  by (rule calculate_log_probs_eq [OF assms])

text \<open>C30: The hand-written backward pass is the derivative of the forward pass: on every rank, the gradient of a row is the
  partial derivative, by each of the rank's logits, of the row's log-probability and entropy weighted with the incoming
  gradients (the entropy counts only when its gradient is wanted); recomputing by chunks of rows gives the same gradient.\<close>

theorem vocab_parallel_backward_is_gradient:
  assumes "sums_ranks all_sum" "maxes_ranks all_max" "shards_ok n seq v keep target logits" "r < n"
    and "length gs = seq" "length hl = seq" "0 < sz" "length buf = seq"
  shows "\<exists>grad. vp_backward (snd (snd (vp_forward all_max all_sum eg eg keep target logits)) ! r) (Some gs) (if eg then Some hl else None) = Inr grad \<and>
    chunked_backward all_max all_sum eg keep target logits sz r gs (if eg then hl else replicate seq 0) buf = Inr grad \<and>
    (\<forall>i j. i < seq \<and> j < v \<longrightarrow> ((\<lambda>z. gs ! i * token_log_prob (support n v keep i (nat (target ! i))) (nat (target ! i)) ((full_row v logits i)(r * v + j := z)) +
        (if eg then hl ! i * entropy_of {..<n * v} ((full_row v logits i)(r * v + j := z)) else 0))
      has_real_derivative grad ! i ! j) (at (logits ! r ! i ! j)))"
proof -
  define hl' where "hl' = (if eg then hl else replicate seq 0)"
  have len: "length hl' = seq" "\<not> eg \<Longrightarrow> hl' = replicate seq 0" using assms(6) by (auto simp: hl'_def)
  let ?grad = "map (grad_row n v keep target logits r gs hl') [0..<seq]"
  have ctx: "snd (snd (vp_forward all_max all_sum eg eg keep target logits)) ! r = ctx_of n seq v eg keep target logits r"
    using vp_forward_eq [OF assms(1-3), of eg eg] assms(4) by simp
  have "vp_backward (ctx_of n seq v eg keep target logits r) (Some gs) (if eg then Some hl else None) = Inr ?grad"
    using assms(6) unfolding grad_row_def by (intro vp_backward_eq [OF assms(3,4)]) (simp add: hl'_def)
  moreover have "chunked_backward all_max all_sum eg keep target logits sz r gs hl' buf = Inr ?grad"
    by (rule chunked_backward_eq [OF assms(1-3,7,8,4,5) len])
  moreover have "((\<lambda>z. gs ! i * token_log_prob (support n v keep i (nat (target ! i))) (nat (target ! i)) ((full_row v logits i)(r * v + j := z)) +
        (if eg then hl ! i * entropy_of {..<n * v} ((full_row v logits i)(r * v + j := z)) else 0))
      has_real_derivative ?grad ! i ! j) (at (logits ! r ! i ! j))" if ij: "i < seq" "j < v" for i j
  proof -
    have k: "full_row v logits i (r * v + j) = logits ! r ! i ! j" by (simp only: full_row_def block_entry [OF assms(4) ij(2)])
    show ?thesis
      using grad_entry_deriv [OF assms(3) ij(1) block_entry(1) [OF assms(4) ij(2)], of "gs ! i" "hl' ! i"] ij
      by (cases eg) (simp_all add: k grad_row_def hl'_def del: fun_upd_apply)
  qed
  ultimately show ?thesis unfolding ctx hl'_def by blast
qed

section \<open>Witnesses\<close>

text \<open>Two ranks with two tokens each; the keep-mask of the first row drops its target.\<close>

definition demo_logits :: "real list list list" where
  "demo_logits = [[[0, 1], [2, 3]], [[4, 5], [6, 7]]]"

definition demo_keep :: "bool list list list" where
  "demo_keep = [[[True, False], [True, True]], [[False, False], [True, False]]]"

definition col_max :: "logit list list \<Rightarrow> logit list" where
  "col_max xss = map (\<lambda>i. foldr max_logit (map (\<lambda>xs. xs ! i) xss) None) [0..<length (hd xss)]"

lemma col_max_maxes: "maxes_ranks col_max"
  by (auto simp: maxes_ranks_def col_max_def neq_Nil_conv)

lemma demo_shards_ok: "shards_ok 2 2 2 (Some demo_keep) [2, 0] demo_logits"
  by (auto simp: shards_ok_def group_shape_def demo_logits_def demo_keep_def less_Suc_eq numeral_2_eq_2)

lemma less_4_cases: "k < (4 :: nat) \<Longrightarrow> (k = 0 \<Longrightarrow> P) \<Longrightarrow> (k = 1 \<Longrightarrow> P) \<Longrightarrow> (k = 2 \<Longrightarrow> P) \<Longrightarrow> (k = 3 \<Longrightarrow> P) \<Longrightarrow> P"
  by linarith

theorem vocab_parallel_log_probs_witness:
  "fst (calculate_log_probs_and_entropy col_max vec_sum True True (Some demo_keep) [2, 0] demo_logits 1 [0, 0]) =
     [4 - ln (exp 0 + exp 4), 2 - ln (exp 2 + exp 3 + exp 6)]"
proof -
  have four: "P 0 \<Longrightarrow> P 1 \<Longrightarrow> P 2 \<Longrightarrow> P 3 \<Longrightarrow> (\<And>k. 4 \<le> k \<Longrightarrow> P k) \<Longrightarrow> P k" for P and k :: nat
    by (cases "4 \<le> k") (simp, simp add: not_le, elim less_4_cases, simp_all)
  have s: "support 2 2 (Some demo_keep) 0 2 = {0, 2}" "support 2 2 (Some demo_keep) 1 0 = {0, 1, 2}"
    by (rule set_eqI, rule four; simp add: support_def full_row_def demo_keep_def)+
  have "0 < exp 0 + exp (4 :: real)" "0 < exp 2 + exp 3 + exp (6 :: real)" by (simp_all add: add_pos_pos)
  then show ?thesis
    unfolding vocab_parallel_log_probs [OF vec_sum_sums_ranks col_max_maxes demo_shards_ok, of "[0, 0]" True True 1, simplified]
    by (simp add: s [unfolded One_nat_def] upt_rec token_log_prob_eq sum_exp_def full_row_def demo_logits_def add.assoc)
qed

theorem vocab_parallel_backward_is_gradient_witness:
  "\<exists>grad. vp_backward (snd (snd (vp_forward col_max vec_sum True True (Some demo_keep) [2, 0] demo_logits)) ! 1) (Some [1, 2]) (Some [3, 4]) = Inr grad \<and>
     chunked_backward col_max vec_sum True (Some demo_keep) [2, 0] demo_logits 1 1 [1, 2] [3, 4] [[], []] = Inr grad"
  using vocab_parallel_backward_is_gradient [OF vec_sum_sums_ranks col_max_maxes demo_shards_ok,
      where r = 1 and gs = "[1, 2]" and hl = "[3, 4]" and sz = 1 and buf = "[[], []]" and eg = True] by auto

end
