(* ===== verification/Loss_Layout.thy ===== *)
theory Loss_Layout
  imports Packing Vocab_Parallel
begin

text \<open>
  \<open>vime/backends/megatron_utils/loss.py\<close>, lines 89-682: from the logits of a packed micro-batch to the
  log-probabilities, entropies and values of every sample's response tokens, in the layouts without context parallelism,
  with zigzag chunks, and with one piece of the stream per rank. A sample of a micro-batch is its tokens with its total
  and response lengths.
\<close>

type_synonym resp_sample = "int list \<times> int \<times> int"

section \<open>Tensor assignments\<close>

text \<open>\<open>dst[lo:hi] = src\<close>: a source of one element is broadcast, any other length must match.\<close>

definition slice_assign :: "int \<Rightarrow> int \<Rightarrow> 'a list \<Rightarrow> 'a list \<Rightarrow> 'a list result" where
  "slice_assign lo hi src dst =
     (let a = clamp_index (length dst) lo; b = max a (clamp_index (length dst) hi) in
      if length src = b - a then Inr (blit dst a src)
      else if length src = 1 then Inr (blit dst a (replicate (b - a) (hd src)))
      else Inl (RuntimeError ''The expanded size of the tensor must match the existing size''))"

definition index_select :: "int list \<Rightarrow> 'a list \<Rightarrow> 'a list result" where
  "index_select idx xs = res_map (\<lambda>i. if 0 \<le> i \<and> i < int (length xs) then Inr (xs ! nat i) else Inl IndexError) idx"

section \<open>Response rows\<close>

text \<open>Where a response's logits lie in the stream and, for a contiguous piece of it, in the piece.\<close>

definition piece_range :: "int \<Rightarrow> int \<Rightarrow> int \<Rightarrow> int \<Rightarrow> int \<Rightarrow> int \<times> int" where
  "piece_range chunk_start chunk_end seq_start total_length response_length =
     (let prompt_length = total_length - response_length; logit_global_start = seq_start + prompt_length - 1;
          logit_global_end = seq_start + total_length - 1
      in (max logit_global_start chunk_start, min logit_global_end chunk_end))"

definition scale_logits :: "bool \<Rightarrow> real \<Rightarrow> real list list \<Rightarrow> real list list" where
  "scale_logits apply_temperature temperature logits =
     (if apply_temperature \<and> temperature \<noteq> 1 then map (map (\<lambda>x. x / temperature)) logits else logits)"

text \<open>One sample of \<open>get_responses\<close>: the new offset in the packed rows, the rows and the tokens they predict.\<close>

definition response_chunk ::
  "int \<Rightarrow> int \<Rightarrow> bool \<Rightarrow> 'r list \<Rightarrow> int \<Rightarrow> int \<Rightarrow> resp_sample \<Rightarrow> (int \<times> 'r list \<times> int list) result" where
  "response_chunk cp_rank cp_size allgather_cp logits offset seq_start = (\<lambda>(tokens, total_length, response_length).
     if cp_size = 1 then
       let stop = offset + total_length; start = stop - response_length in
       Inr (stop, py_slice (start - 1) (stop - 1) logits, py_slice (- response_length) (int (length tokens)) tokens)
     else if allgather_cp then
       let len = int (length logits); chunk_start = cp_rank * len;
           (s, e) = piece_range chunk_start (chunk_start + len) seq_start total_length response_length;
           rows = (if e \<le> s then [] else py_slice (s - chunk_start) (e - chunk_start) logits);
           toks = (if e \<le> s then [] else py_slice (s + 1 - seq_start) (e + 1 - seq_start) tokens) in
       if length rows \<noteq> length toks then Inl (AssertionError ''logits_chunk.size(0)'') else Inr (offset, rows, toks)
     else res_bind (get_logits_and_tokens_offset_with_cp cp_rank cp_size total_length response_length) (\<lambda>o'.
       let c = co_chunk_size o'; ((c0, _), (c1, _)) = co_chunks o'; ((a0, b0), (a1, b1)) = logits_offset o';
           ((s0, e0), (s1, e1)) = tokens_offset o';
           idx = [offset + a0 - c0..offset + b0 - c0 - 1] @ [offset + c + a1 - c1..offset + c + b1 - c1 - 1];
           toks = py_slice s0 e0 tokens @ py_slice s1 e1 tokens in
       res_bind (if idx \<noteq> [] then index_select idx logits else Inr []) (\<lambda>rows.
         if length rows \<noteq> length toks then Inl (AssertionError ''logits_chunk.size(0)'')
         else Inr (offset + 2 * c, rows, toks))))"

fun response_chunks ::
  "int \<Rightarrow> int \<Rightarrow> bool \<Rightarrow> 'r list \<Rightarrow> int \<Rightarrow> int \<Rightarrow> resp_sample list \<Rightarrow> ('r list \<times> int list) list result" where
  "response_chunks cp_rank cp_size allgather_cp logits offset seq_start [] = Inr []"
| "response_chunks cp_rank cp_size allgather_cp logits offset seq_start (s # ss) =
     res_bind (response_chunk cp_rank cp_size allgather_cp logits offset seq_start s) (\<lambda>(offset', rows, toks).
     res_bind (response_chunks cp_rank cp_size allgather_cp logits offset' (seq_start + fst (snd s)) ss) (\<lambda>rest.
       Inr ((rows, toks) # rest)))"

definition get_responses ::
  "int \<Rightarrow> int \<Rightarrow> bool \<Rightarrow> real \<Rightarrow> bool \<Rightarrow> real list list \<Rightarrow> resp_sample list \<Rightarrow> (real list list \<times> int list) list result" where
  "get_responses cp_rank cp_size allgather_cp temperature apply_temperature logits samples =
     response_chunks cp_rank cp_size allgather_cp (scale_logits apply_temperature temperature logits) 0 0 samples"

text \<open>The slice \<open>_extract_per_sample\<close> takes of a column over the packed rows, and where the next sample begins.\<close>

definition extract_one :: "int \<Rightarrow> int \<Rightarrow> bool \<Rightarrow> 'a list \<Rightarrow> int \<Rightarrow> int \<times> int \<Rightarrow> ('a list \<times> int) result" where
  "extract_one cp_rank cp_size allgather_cp full pos = (\<lambda>(total_length, response_length).
     if 1 < cp_size \<and> \<not> allgather_cp then
       res_bind (get_logits_and_tokens_offset_with_cp cp_rank cp_size total_length response_length) (\<lambda>o'.
         let c = co_chunk_size o'; ((c0, _), (c1, _)) = co_chunks o'; ((a0, b0), (a1, b1)) = logits_offset o' in
         Inr (py_slice (pos + (a0 - c0)) (pos + (b0 - c0)) full @ py_slice (pos + c + (a1 - c1)) (pos + c + (b1 - c1)) full, pos + 2 * c))
     else if allgather_cp then
       let len = int (length full); chunk_start = cp_rank * len;
           (s, e) = piece_range chunk_start (chunk_start + len) pos total_length response_length in
       Inr (if e \<le> s then [] else py_slice (s - chunk_start) (e - chunk_start) full, pos + total_length)
     else
       let stop = pos + total_length; start = stop - response_length in Inr (py_slice (start - 1) (stop - 1) full, stop))"

fun extract_rows :: "int \<Rightarrow> int \<Rightarrow> bool \<Rightarrow> 'a list \<Rightarrow> int \<Rightarrow> (int \<times> int) list \<Rightarrow> 'a list list result" where
  "extract_rows cp_rank cp_size allgather_cp full pos [] = Inr []"
| "extract_rows cp_rank cp_size allgather_cp full pos (l # ls) =
     res_bind (extract_one cp_rank cp_size allgather_cp full pos l) (\<lambda>(x, pos').
     res_bind (extract_rows cp_rank cp_size allgather_cp full pos' ls) (\<lambda>xs. Inr (x # xs)))"

definition extract_per_sample ::
  "int \<Rightarrow> int \<Rightarrow> bool \<Rightarrow> real list \<Rightarrow> real list option \<Rightarrow> (int \<times> int) list \<Rightarrow> (real list list \<times> real list list) result" where
  "extract_per_sample cp_rank cp_size allgather_cp log_prob_full entropy_full lengths =
     res_bind (extract_rows cp_rank cp_size allgather_cp log_prob_full 0 lengths) (\<lambda>lps.
     res_bind (case entropy_full of None \<Rightarrow> Inr [] | Some e \<Rightarrow> extract_rows cp_rank cp_size allgather_cp e 0 lengths) (\<lambda>ents.
       Inr (lps, ents)))"

section \<open>Shifted targets\<close>

definition zigzag_targets :: "int \<Rightarrow> int \<Rightarrow> int list \<times> int \<Rightarrow> resp_sample \<Rightarrow> (int list \<times> int) result" where
  "zigzag_targets cp_rank cp_size = (\<lambda>(full_tokens, offset) (tokens, total_length, response_length).
     res_bind (get_logits_and_tokens_offset_with_cp cp_rank cp_size total_length response_length) (\<lambda>o'.
       let c = co_chunk_size o'; ((c0, _), (c1, _)) = co_chunks o'; ((a0, b0), (a1, b1)) = logits_offset o';
           ((s0, e0), (s1, e1)) = tokens_offset o' in
       res_bind (slice_assign (offset + (a0 - c0)) (offset + (b0 - c0)) (py_slice s0 e0 tokens) full_tokens) (\<lambda>full1.
       res_bind (slice_assign (offset + c + (a1 - c1)) (offset + c + (b1 - c1)) (py_slice s1 e1 tokens) full1) (\<lambda>full2.
         Inr (full2, offset + 2 * c)))))"

definition stream_targets :: "int list \<times> int \<Rightarrow> resp_sample \<Rightarrow> (int list \<times> int) result" where
  "stream_targets = (\<lambda>(full_tokens, offset) (tokens, total_length, response_length).
     res_bind (slice_assign offset (offset + total_length - 1) (py_slice 1 total_length tokens) full_tokens) (\<lambda>full.
       Inr (full, offset + total_length)))"

definition build_shifted_tokens :: "int \<Rightarrow> int \<Rightarrow> bool \<Rightarrow> nat \<Rightarrow> resp_sample list \<Rightarrow> int list result" where
  "build_shifted_tokens cp_rank cp_size allgather_cp T samples =
     (if 1 < cp_size \<and> \<not> allgather_cp then
        res_bind (res_fold (zigzag_targets cp_rank cp_size) (replicate T 0, 0) samples) (\<lambda>(full, _). Inr full)
      else
        let T_global = (if allgather_cp then sum_list (map (fst \<circ> snd) samples) else int T) in
        res_bind (zeros T_global) (\<lambda>empty_tokens.
        res_bind (res_fold stream_targets (empty_tokens, 0) samples) (\<lambda>(full, _).
          if allgather_cp then
            let chunk_start = cp_rank * int T; chunk_end = chunk_start + int T in
            if chunk_end \<le> T_global then Inr (py_slice chunk_start chunk_end full)
            else let valid = T_global - chunk_start in
              if 0 < valid then slice_assign 0 valid (py_slice chunk_start (int (length full)) full) (replicate T 0)
              else Inr (replicate T 0)
          else Inr full)))"
section \<open>The keep-mask of a top-p replay\<close>

text \<open>\<open>xs[i]\<close> where a negative index counts from the end.\<close>

definition py_at :: "'a list \<Rightarrow> int \<Rightarrow> 'a result" where
  "py_at xs i = (let j = (if i < 0 then i + int (length xs) else i) in
     if 0 \<le> j \<and> j < int (length xs) then Inr (xs ! nat j) else Inl IndexError)"

text \<open>\<open>repeat_interleave(arange(n), counts)\<close>.\<close>

definition repeat_rows :: "int list \<Rightarrow> nat list result" where
  "repeat_rows counts =
     (if \<exists>c \<in> set counts. c < 0 then Inl (RuntimeError ''repeats can not be negative'')
      else Inr (concat (map (\<lambda>r. replicate (nat (counts ! r)) r) [0..<length counts])))"

text \<open>\<open>keep[rows, columns] = True\<close> for the ids of this rank's part of the vocabulary.\<close>

fun scatter_true :: "int \<Rightarrow> int \<Rightarrow> int \<Rightarrow> (nat \<times> int) list \<Rightarrow> bool list list \<Rightarrow> bool list list result" where
  "scatter_true local_start vocab_start vocab_end [] keep = Inr keep"
| "scatter_true local_start vocab_start vocab_end ((row, tid) # rest) keep =
     (if vocab_start \<le> tid \<and> tid < vocab_end then
        res_bind (py_at keep (int row + local_start)) (\<lambda>old.
          let i = (if int row + local_start < 0 then int row + local_start + int (length keep) else int row + local_start) in
          if length old \<le> nat (tid - vocab_start) then Inl IndexError
          else scatter_true local_start vocab_start vocab_end rest (keep[nat i := old[nat (tid - vocab_start) := True]]))
      else scatter_true local_start vocab_start vocab_end rest keep)"

definition fill_topp_mask_rows ::
  "int list \<Rightarrow> int list \<Rightarrow> int \<Rightarrow> int \<Rightarrow> int \<Rightarrow> int \<Rightarrow> int \<Rightarrow> bool list list \<Rightarrow> bool list list result" where
  "fill_topp_mask_rows ids offsets response_start local_start len vocab_start vocab_end keep =
     (let stop = min (response_start + len) (max (int (length offsets) - 1) 0) in
      if stop \<le> response_start then Inr keep
      else res_bind (py_at offsets response_start) (\<lambda>base.
        res_bind (py_at offsets stop) (\<lambda>limit.
        let span = py_slice base limit ids;
            a = clamp_index (length keep) local_start; b = clamp_index (length keep) (local_start + stop - response_start);
            cleared = take a keep @ map (map (\<lambda>_. False)) (slice a b keep) @ drop (max a b) keep in
        if span = [] then Inr cleared
        else let offs = py_slice response_start (stop + 1) offsets; counts = map2 (\<lambda>x y. y - x) (butlast offs) (tl offs) in
          res_bind (repeat_rows counts) (\<lambda>rows.
            if length rows \<noteq> length span then Inl IndexError
            else scatter_true local_start vocab_start vocab_end (zip rows span) cleared))))"

text \<open>A sample with its recorded support: the token ids and the offsets of the response rows.\<close>

type_synonym topp_sample = "int list \<times> int list \<times> int \<times> int"

definition topp_zigzag :: "int \<Rightarrow> int \<Rightarrow> int \<Rightarrow> int \<Rightarrow> bool list list \<times> int \<Rightarrow> topp_sample \<Rightarrow> (bool list list \<times> int) result" where
  "topp_zigzag cp_rank cp_size vocab_start vocab_end = (\<lambda>(keep, local_base) (ids, offsets, total_length, response_length).
     let prompt_length = total_length - response_length in
     res_bind (get_logits_and_tokens_offset_with_cp cp_rank cp_size total_length response_length) (\<lambda>o'.
       let c = co_chunk_size o'; ((c0, _), (c1, _)) = co_chunks o'; ((a0, b0), (a1, b1)) = logits_offset o';
           ((s0, _), (s1, _)) = tokens_offset o' in
       res_bind (fill_topp_mask_rows ids offsets (s0 - prompt_length) (local_base + a0 - c0) (b0 - a0) vocab_start vocab_end keep) (\<lambda>keep1.
       res_bind (fill_topp_mask_rows ids offsets (s1 - prompt_length) (local_base + c + a1 - c1) (b1 - a1) vocab_start vocab_end keep1) (\<lambda>keep2.
         Inr (keep2, local_base + 2 * c)))))"

definition topp_piece :: "int \<Rightarrow> int \<Rightarrow> int \<Rightarrow> int \<Rightarrow> bool list list \<times> int \<Rightarrow> topp_sample \<Rightarrow> (bool list list \<times> int) result" where
  "topp_piece chunk_start chunk_end vocab_start vocab_end = (\<lambda>(keep, seq_start) (ids, offsets, total_length, response_length).
     let logit_global_start = seq_start + (total_length - response_length) - 1;
         (s, e) = piece_range chunk_start chunk_end seq_start total_length response_length in
     res_bind (if s < e then fill_topp_mask_rows ids offsets (s - logit_global_start) (s - chunk_start) (e - s) vocab_start vocab_end keep
               else Inr keep) (\<lambda>keep'. Inr (keep', seq_start + total_length)))"

definition topp_stream :: "int \<Rightarrow> int \<Rightarrow> bool list list \<times> int \<Rightarrow> topp_sample \<Rightarrow> (bool list list \<times> int) result" where
  "topp_stream vocab_start vocab_end = (\<lambda>(keep, offset) (ids, offsets, total_length, response_length).
     res_bind (fill_topp_mask_rows ids offsets 0 (offset + total_length - response_length - 1) response_length vocab_start vocab_end keep)
       (\<lambda>keep'. Inr (keep', offset + total_length)))"

definition build_topp_keep_mask ::
  "int \<Rightarrow> int \<Rightarrow> int \<Rightarrow> bool \<Rightarrow> nat \<Rightarrow> nat \<Rightarrow> topp_sample list \<Rightarrow> bool list list result" where
  "build_topp_keep_mask tp_rank cp_rank cp_size allgather_cp T vocab_local samples =
     (let vocab_start = tp_rank * int vocab_local; vocab_end = vocab_start + int vocab_local;
          keep = replicate T (replicate vocab_local True);
          step = (if 1 < cp_size \<and> \<not> allgather_cp then topp_zigzag cp_rank cp_size vocab_start vocab_end
            else if allgather_cp then topp_piece (cp_rank * int T) (cp_rank * int T + int T) vocab_start vocab_end
            else topp_stream vocab_start vocab_end) in
      res_bind (res_fold step (keep, 0) samples) (\<lambda>(keep', _). Inr keep'))"

section \<open>Log-probabilities and values of a micro-batch\<close>

text \<open>Lines 205-281, for one metric: the ranks' contributions, the collective, and the slices of rank \<open>cp_rank\<close>.\<close>

definition contribution_step :: "int \<Rightarrow> int \<Rightarrow> real list \<times> int \<Rightarrow> real list \<times> int \<times> int \<Rightarrow> (real list \<times> int) result" where
  "contribution_step cp_rank logits_local_len = (\<lambda>(full_resps, seq_start) (v, total_length, response_length).
     let chunk_start = cp_rank * logits_local_len; logit_global_start = seq_start + (total_length - response_length) - 1;
         (s, e) = piece_range chunk_start (chunk_start + logits_local_len) seq_start total_length response_length in
     res_bind (if e \<le> s then zeros response_length
       else res_bind (zeros (s - logit_global_start)) (\<lambda>left.
         res_bind (zeros (response_length - (e - logit_global_start))) (\<lambda>right. Inr (left @ v @ right)))) (\<lambda>full_resp.
     if int (length full_resp) \<noteq> response_length then Inl (AssertionError ''Expected response_length'')
     else Inr (full_resps @ full_resp, seq_start + total_length)))"

definition redistribute_contribution :: "int \<Rightarrow> int \<Rightarrow> real list list \<Rightarrow> (int \<times> int) list \<Rightarrow> real list result" where
  "redistribute_contribution cp_rank logits_local_len values lengths =
     res_bind (res_fold (contribution_step cp_rank logits_local_len) ([], 0) (zip values lengths)) (\<lambda>(full_resps, _). Inr full_resps)"

definition allgather_cp_redistribute ::
  "(real list list \<Rightarrow> real list) \<Rightarrow> int \<Rightarrow> int \<Rightarrow> real list list list \<Rightarrow> (int \<times> int) list \<Rightarrow> real list list result" where
  "allgather_cp_redistribute all_reduce cp_rank logits_local_len values lengths =
     (let cp_size = int (length values) in
      res_bind (res_map (\<lambda>r. redistribute_contribution (int r) logits_local_len (values ! r) lengths) [0..<length values]) (\<lambda>contribs.
      res_bind (torch_split (all_reduce contribs) (map (nat \<circ> snd) lengths)) (\<lambda>fulls.
        res_map (\<lambda>(full, total, resp). slice_log_prob_with_cp cp_rank cp_size full total resp) (zip fulls lengths))))"

text \<open>The arguments the log-probabilities depend on.\<close>

record logprob_args =
  la_cp_size :: nat
  la_allgather_cp :: bool
  la_temperature :: real
  la_log_probs_chunk_size :: int
  la_entropy_coef :: real

text \<open>What one context-parallel rank computes before a redistribution; \<open>logits\<close> are the shards of its tensor-parallel
  group and \<open>buf\<close> the content of the uninitialised columns.\<close>

definition local_log_probs_and_entropy ::
  "logprob_args \<Rightarrow> (logit list list \<Rightarrow> logit list) \<Rightarrow> (real list list \<Rightarrow> real list) \<Rightarrow> int \<Rightarrow> bool \<Rightarrow> real list list list \<Rightarrow>
   resp_sample list \<Rightarrow> (int list \<times> int list) list option \<Rightarrow> real list \<Rightarrow> (real list list \<times> real list list) result" where
  "local_log_probs_and_entropy args all_max all_sum cp_rank with_entropy logits samples top_p buf =
     (let cp_size = int (la_cp_size args); allgather_cp = la_allgather_cp args;
          scaled = map (scale_logits True (la_temperature args)) logits; T = length (hd scaled);
          lengths = map snd samples in
      res_bind (build_shifted_tokens cp_rank cp_size allgather_cp T samples) (\<lambda>full_tokens.
      res_bind (case top_p of None \<Rightarrow> Inr None
        | Some supports \<Rightarrow> res_bind (res_map (\<lambda>r. build_topp_keep_mask (int r) cp_rank cp_size allgather_cp T (shard_width (scaled ! r))
            (map2 (\<lambda>(ids, offsets) (total, resp). (ids, offsets, total, resp)) supports lengths)) [0..<length scaled])
            (\<lambda>keeps. Inr (Some keeps))) (\<lambda>keep.
      let (log_prob_full, entropy_full) = calculate_log_probs_and_entropy all_max all_sum with_entropy
            (with_entropy \<and> la_entropy_coef args \<noteq> 0) keep full_tokens scaled (la_log_probs_chunk_size args) buf
      in extract_per_sample cp_rank cp_size allgather_cp log_prob_full entropy_full lengths)))"

text \<open>\<open>get_log_probs_and_entropy\<close> on rank \<open>cp_rank\<close>; \<open>logits\<close> holds the shards of every rank of the context-parallel group.\<close>

definition get_log_probs_and_entropy ::
  "logprob_args \<Rightarrow> (logit list list \<Rightarrow> logit list) \<Rightarrow> (real list list \<Rightarrow> real list) \<Rightarrow> nat \<Rightarrow> bool \<Rightarrow> real list list list list \<Rightarrow>
   resp_sample list \<Rightarrow> (int list \<times> int list) list option \<Rightarrow> real list \<Rightarrow> (real list list \<times> real list list option) result" where
  "get_log_probs_and_entropy args all_max all_sum cp_rank with_entropy logits samples top_p buf =
     (let locals = (\<lambda>r. local_log_probs_and_entropy args all_max all_sum (int r) with_entropy (logits ! r) samples top_p buf);
          T = int (length (hd (logits ! cp_rank))); lengths = map snd samples in
      res_bind (locals cp_rank) (\<lambda>(lps, ents).
        if la_allgather_cp args then
          res_bind (res_map locals [0..<length logits]) (\<lambda>group.
          res_bind (allgather_cp_redistribute all_sum (int cp_rank) T (map fst group) lengths) (\<lambda>lps'.
          if with_entropy then
            res_bind (allgather_cp_redistribute all_sum (int cp_rank) T (map snd group) lengths) (\<lambda>ents'. Inr (lps', Some ents'))
          else Inr (lps', None)))
        else Inr (lps, if with_entropy then Some ents else None)))"

text \<open>\<open>get_values\<close>: the rows of the value head, which have one entry.\<close>

definition local_values_of :: "logprob_args \<Rightarrow> int \<Rightarrow> real list list \<Rightarrow> resp_sample list \<Rightarrow> real list list result" where
  "local_values_of args cp_rank logits samples =
     res_bind (get_responses cp_rank (int (la_cp_size args)) (la_allgather_cp args) (la_temperature args) False logits samples) (\<lambda>chunks.
       res_map (\<lambda>(rows, toks). res_map (\<lambda>row. if length row = 1 then Inr (hd row) else Inl (AssertionError ''logits_chunk.size(-1) == 1'')) rows) chunks)"

definition get_values :: "logprob_args \<Rightarrow> (real list list \<Rightarrow> real list) \<Rightarrow> nat \<Rightarrow> real list list list \<Rightarrow> resp_sample list \<Rightarrow> real list list result" where
  "get_values args all_sum cp_rank logits samples =
     res_bind (local_values_of args (int cp_rank) (logits ! cp_rank) samples) (\<lambda>vals.
       if la_allgather_cp args then
         res_bind (res_map (\<lambda>r. local_values_of args (int r) (logits ! r) samples) [0..<length logits]) (\<lambda>group.
           allgather_cp_redistribute all_sum (int cp_rank) (int (length (logits ! cp_rank))) group (map snd samples))
       else Inr vals)"

end
