(* ===== verification/Layout_Rows.thy ===== *)
theory Layout_Rows
  imports Loss_Layout
begin

text \<open>
  The rows a rank holds of a packed micro-batch, in the layouts of \<open>Loss_Layout\<close>: what the extraction per sample takes
  from the zigzag chunks and from the pieces of the stream, what the assignments of the shifted targets write there, and
  that the sum of the ranks' contributions restores a stream that was cut into pieces.
\<close>

section \<open>Extraction commutes with row-wise maps\<close>

lemma slice_map: "slice a b (map f xs) = map f (slice a b xs)"
  by (simp add: slice_def take_map drop_map)

lemma slice_zip: "length xs = length ys \<Longrightarrow> slice a b (zip xs ys) = zip (slice a b xs) (slice a b ys)"
  by (simp add: slice_def take_zip drop_zip)

lemma py_slice_map: "py_slice a b (map f xs) = map f (py_slice a b xs)"
  by (simp add: py_slice_def slice_map)

lemma py_slice_zip: "length xs = length ys \<Longrightarrow> py_slice a b (zip xs ys) = zip (py_slice a b xs) (py_slice a b ys)"
  by (simp add: py_slice_def slice_zip)

lemma py_slice_length_cong: "length xs = length ys \<Longrightarrow> length (py_slice a b xs) = length (py_slice a b ys)"
  by (simp add: py_slice_def)

lemma extract_one_map:
  "extract_one r n ag xs pos l = Inr (x, p) \<Longrightarrow> extract_one r n ag (map f xs) pos l = Inr (map f x, p)"
  by (cases l) (auto simp: extract_one_def Let_def py_slice_map offsets_eq split: prod.splits if_splits)

lemma extract_one_zip:
  assumes "length ys = length xs" "extract_one r n ag xs pos l = Inr (x, p)" "extract_one r n ag ys pos l = Inr (y, q)"
  shows "extract_one r n ag (zip xs ys) pos l = Inr (zip x y, p) \<and> length x = length y \<and> q = p"
  using assms(2,3)
  by (cases l) (auto simp: extract_one_def Let_def py_slice_zip [OF assms(1) [symmetric]] py_slice_length_cong [OF assms(1)]
      assms(1) offsets_eq split: prod.splits if_splits)

lemma extract_rows_map:
  "extract_rows r n ag xs pos ls = Inr ys \<Longrightarrow> extract_rows r n ag (map f xs) pos ls = Inr (map (map f) ys)"
  by (induction ls arbitrary: pos ys) (auto simp: res_bind_eq_Inr extract_one_map)

lemma extract_rows_zip:
  "extract_rows r n ag xs pos ls = Inr xss \<Longrightarrow> length ys = length xs \<Longrightarrow> extract_rows r n ag ys pos ls = Inr yss \<Longrightarrow>
    extract_rows r n ag (zip xs ys) pos ls = Inr (map2 zip xss yss) \<and> list_all2 (\<lambda>a b. length a = length b) xss yss"
proof (induction ls arbitrary: pos xss yss)
  case (Cons l ls)
  obtain x p xss' where x: "extract_one r n ag xs pos l = Inr (x, p)" "extract_rows r n ag xs p ls = Inr xss'" "xss = x # xss'"
    using Cons.prems(1) by (auto simp: res_bind_eq_Inr)
  obtain y q yss' where y: "extract_one r n ag ys pos l = Inr (y, q)" "extract_rows r n ag ys q ls = Inr yss'" "yss = y # yss'"
    using Cons.prems(3) by (auto simp: res_bind_eq_Inr)
  note one = extract_one_zip [OF Cons.prems(2) x(1) y(1)]
  then show ?case using Cons.IH [OF x(2) Cons.prems(2)] x y by simp
qed simp

section \<open>Extraction from a packed stream\<close>

text \<open>The values that predict a sample's response, of a list with one value per position of the sample.\<close>

definition resp_part :: "int \<Rightarrow> int \<Rightarrow> 'a list \<Rightarrow> 'a list" where
  "resp_part tot resp xs = slice (nat (tot - resp - 1)) (nat (tot - 1)) xs"

definition lengths_ok :: "int \<times> int \<Rightarrow> bool" where
  "lengths_ok l \<longleftrightarrow> 0 \<le> snd l \<and> snd l < fst l"

lemma length_resp_part: "0 \<le> resp \<Longrightarrow> resp < tot \<Longrightarrow> int (length xs) = tot \<Longrightarrow> int (length (resp_part tot resp xs)) = resp"
  by (simp add: resp_part_def)

lemma slice_of_slice: "c \<le> a \<Longrightarrow> b \<le> d \<Longrightarrow> slice (a - c) (b - c) (slice c d xs) = slice a b xs"
  by (auto simp: slice_def drop_take min_def)

lemma slice_slice: "b \<le> d - c \<Longrightarrow> slice a b (slice c d xs) = slice (c + a) (c + b) xs"
  by (simp add: slice_def drop_take take_take min_def add.commute)

lemma slice_inner: "a \<le> b \<Longrightarrow> b \<le> length ys \<Longrightarrow> slice (length pre + a) (length pre + b) (pre @ ys @ post) = slice a b ys"
  by (simp add: slice_def)

lemma slice_prefix: "b \<le> length xs \<Longrightarrow> slice a b (xs @ ys) = slice a b xs"
  by (simp add: slice_def)

lemma chunk_extract:
  fixes lo c :: nat
  assumes ok: "lengths_ok (tot, resp)" and len: "int (length xs) = tot" and fits: "lo + c \<le> length (xs @ pad)"
    and pos: "pos = int (length pre)" and ab: "chunk_logits tot (tot - resp) (int lo, int (lo + c)) = (a, b)"
  shows "py_slice (pos + (a - int lo)) (pos + (b - int lo)) (pre @ slice lo (lo + c) (xs @ pad) @ post) =
    slice (chunk_lo (tot - resp) (int lo, int (lo + c))) (chunk_hi tot (tot - resp) (int lo, int (lo + c))) (resp_part tot resp xs)"
proof -
  let ?ch = "(int lo, int (lo + c))" and ?p = "tot - resp"
  have le: "fst ?ch \<le> snd ?ch" by simp
  note ch = chunk_logits_slice [OF le ab]
  show ?thesis
  proof (cases "a < b")
    case False
    then have "chunk_hi tot ?p ?ch \<le> chunk_lo ?p ?ch" using ch(2,3) by simp
    moreover have "a = 0" "b = 0" using ab False by (auto simp: chunk_logits_def Let_def split: if_splits)
    ultimately show ?thesis by simp
  next
    case True
    then have a: "a = max (int lo) (?p - 1)" "b = min (int (lo + c)) (tot - 1)"
      using ab by (auto simp: chunk_logits_def Let_def split: if_splits)
    have p: "1 \<le> ?p" using ok by (simp add: lengths_ok_def)
    define A B where "A = nat a" and "B = nat b"
    have AB: "a = int A" "b = int B" "lo \<le> A" "B \<le> lo + c" "A \<le> B" "B \<le> length xs" "nat (?p - 1) \<le> A" "B \<le> nat (tot - 1)"
      using True a p len by (auto simp: A_def B_def)
    have "py_slice (pos + (a - int lo)) (pos + (b - int lo)) (pre @ slice lo (lo + c) (xs @ pad) @ post) =
        slice (length pre + (A - lo)) (length pre + (B - lo)) (pre @ slice lo (lo + c) (xs @ pad) @ post)"
    proof -
      have "nat (pos + (a - int lo)) = length pre + (A - lo)" "nat (pos + (b - int lo)) = length pre + (B - lo)"
        using pos AB by linarith+
      then show ?thesis using pos AB by (subst py_slice_nat) auto
    qed
    also have "\<dots> = slice A B (xs @ pad)"
      using AB fits by (subst slice_inner) (auto simp: slice_of_slice)
    also have "\<dots> = slice A B xs" by (rule slice_prefix) (rule AB(6))
    also have "\<dots> = slice (A - nat (?p - 1)) (B - nat (?p - 1)) (resp_part tot resp xs)"
      unfolding resp_part_def diff_diff_eq [symmetric] using AB by (subst slice_of_slice) (auto simp: algebra_simps)
    finally have "py_slice (pos + (a - int lo)) (pos + (b - int lo)) (pre @ slice lo (lo + c) (xs @ pad) @ post) =
        slice (A - nat (?p - 1)) (B - nat (?p - 1)) (resp_part tot resp xs)" .
    moreover have "A - nat (?p - 1) = chunk_lo ?p ?ch" "B - nat (?p - 1) = chunk_hi tot ?p ?ch"
      using ch(4) [OF True] AB p by linarith+
    ultimately show ?thesis by (simp only:)
  qed
qed

text \<open>A sample's rows on a rank, in the zigzag layout: its two chunks of the padded sample.\<close>

abbreviation zz_chunk :: "nat \<Rightarrow> 'a list \<Rightarrow> nat" where
  "zz_chunk n xs \<equiv> (length xs + 2 * n - 1) div (2 * n)"

definition zz_rows :: "nat \<Rightarrow> nat \<Rightarrow> 'a \<Rightarrow> 'a list \<Rightarrow> 'a list" where
  "zz_rows r n d xs = (if n = 1 then xs else
     let c = zz_chunk n xs; padded = xs @ replicate (2 * n * c - length xs) d in
     slice (c * r) (c * (r + 1)) padded @ slice (c * (2 * n - r - 1)) (c * (2 * n - r)) padded)"

lemma slice_with_cp_rows: "0 < n \<Longrightarrow> slice_with_cp r n (pad_constant d) xs = Inr (zz_rows r n d xs)"
  by (simp add: slice_with_cp_def zz_rows_def pad_constant_def Let_def)

lemma zz_cover: "0 < n \<Longrightarrow> length xs \<le> 2 * n * zz_chunk n xs"
proof -
  assume n: "0 < n"
  have "zz_chunk n xs * (2 * n) + (length xs + 2 * n - 1) mod (2 * n) = length xs + 2 * n - 1" by (rule div_mult_mod_eq)
  moreover have "(length xs + 2 * n - 1) mod (2 * n) < 2 * n" using n by simp
  ultimately have "length xs \<le> zz_chunk n xs * (2 * n)" by linarith
  then show "length xs \<le> 2 * n * zz_chunk n xs" by (simp only: mult.commute)
qed

lemma zz_halves:
  fixes xs :: "'a list"
  assumes r: "r < n" and n: "1 < n" and len: "int (length xs) = tot"
  obtains c k m where "zz_rows r n d xs = slice (c * r) (c * r + c) (xs @ replicate m d) @ slice k (k + c) (xs @ replicate m d)"
    "c * r + c \<le> length (xs @ replicate m d)" "k + c \<le> length (xs @ replicate m d)"
    "(tot + 2 * int n - 1) div (2 * int n) = int c" "first_chunk (int r) (int n) tot = (int (c * r), int (c * r + c))"
    "second_chunk (int r) (int n) tot = (int k, int (k + c))"
proof -
  define c where "c = zz_chunk n xs"
  define m where "m = 2 * n * c - length xs"
  let ?P = "xs @ replicate m d"
  have P: "length ?P = 2 * n * c" using zz_cover [of n xs] n by (simp add: m_def c_def)
  have rr: "r + 1 \<le> 2 * n" "2 * n - r \<le> 2 * n" using r by auto
  define k where "k = c * (2 * n - r - 1)"
  have ends: "c * r + c = c * (r + 1)" "k + c = c * (2 * n - r)"
  proof -
    have "2 * n - r = Suc (2 * n - r - 1)" using r by simp
    then show "k + c = c * (2 * n - r)" unfolding k_def by (metis add.commute mult_Suc_right)
  qed simp
  have fits: "c * (r + 1) \<le> 2 * n * c" "c * (2 * n - r) \<le> 2 * n * c" using rr by (metis mult.commute mult_le_mono1)+
  have rows: "zz_rows r n d xs = slice (c * r) (c * r + c) ?P @ slice k (k + c) ?P"
    unfolding ends unfolding k_def m_def c_def zz_rows_def Let_def using n by simp
  have ci: "(tot + 2 * int n - 1) div (2 * int n) = int c"
  proof -
    have "tot + 2 * int n - 1 = int (length xs + 2 * n - 1)" using len n by linarith
    then show ?thesis by (simp add: c_def zdiv_int)
  qed
  have ch0: "first_chunk (int r) (int n) tot = (int (c * r), int (c * r + c))"
    unfolding first_chunk_def Let_def ci by (simp add: algebra_simps)
  have ch1: "second_chunk (int r) (int n) tot = (int k, int (k + c))"
  proof -
    have "2 * int n - int r - 1 = int (2 * n - r - 1)" "2 * int n - int r = int (2 * n - r)" using r by linarith+
    then show ?thesis unfolding second_chunk_def Let_def ci ends unfolding k_def by (simp only: of_nat_mult mult.commute [of "int c"])
  qed
  show ?thesis by (rule that [OF rows _ _ ci ch0 ch1]) (simp_all only: ends P fits)
qed

lemma extract_one_rows:
  assumes r: "r < n" and ok: "lengths_ok (tot, resp)" and len: "int (length xs) = tot"
  shows "extract_one (int r) (int n) False (pre @ zz_rows r n d xs @ post) (int (length pre)) (tot, resp) =
    Inr (cp_local r n tot (resp_part tot resp xs), int (length (pre @ zz_rows r n d xs)))"
proof (cases "n = 1")
  case True
  have r0: "r = 0" using r True by simp
  have "py_slice (int (length pre) + tot - resp - 1) (int (length pre) + tot - 1) (pre @ xs @ post) = resp_part tot resp xs"
  proof -
    have "nat (int (length pre) + tot - resp - 1) = length pre + nat (tot - resp - 1)" "nat (int (length pre) + tot - 1) = length pre + nat (tot - 1)"
      using ok by (auto simp: lengths_ok_def)
    then show ?thesis unfolding resp_part_def using ok len
      by (subst py_slice_nat) (auto simp: lengths_ok_def intro!: slice_inner)
  qed
  then show ?thesis using True r0 len ok length_resp_part [of resp tot xs]
    by (simp add: extract_one_def zz_rows_def slice_log_prob_with_cp_def lengths_ok_def)
next
  case False
  have n: "1 < n" using r False by simp
  obtain c k m where z: "zz_rows r n d xs = slice (c * r) (c * r + c) (xs @ replicate m d) @ slice k (k + c) (xs @ replicate m d)"
    "c * r + c \<le> length (xs @ replicate m d)" "k + c \<le> length (xs @ replicate m d)"
    "(tot + 2 * int n - 1) div (2 * int n) = int c" "first_chunk (int r) (int n) tot = (int (c * r), int (c * r + c))"
    "second_chunk (int r) (int n) tot = (int k, int (k + c))" by (rule zz_halves [OF r n len])
  let ?P = "xs @ replicate m d"
  define h0 where "h0 = slice (c * r) (c * r + c) ?P"
  define h1 where "h1 = slice k (k + c) ?P"
  have rows: "zz_rows r n d xs = h0 @ h1" by (simp add: z(1) h0_def h1_def)
  have hl: "length h0 = c" "length h1 = c" using z(2,3) unfolding h0_def h1_def length_slice by linarith+
  obtain a0 b0 where l0: "chunk_logits tot (tot - resp) (int (c * r), int (c * r + c)) = (a0, b0)" by fastforce
  obtain a1 b1 where l1: "chunk_logits tot (tot - resp) (int k, int (k + c)) = (a1, b1)" by fastforce
  have s0: "py_slice (int (length pre) + (a0 - int (c * r))) (int (length pre) + (b0 - int (c * r))) (pre @ zz_rows r n d xs @ post) =
      slice (chunk_lo (tot - resp) (first_chunk (int r) (int n) tot)) (chunk_hi tot (tot - resp) (first_chunk (int r) (int n) tot)) (resp_part tot resp xs)"
    unfolding z(5) rows h0_def append_assoc by (rule chunk_extract [OF ok len z(2) refl l0])
  have s1: "py_slice (int (length pre) + int c + (a1 - int k)) (int (length pre) + int c + (b1 - int k)) (pre @ zz_rows r n d xs @ post) =
      slice (chunk_lo (tot - resp) (second_chunk (int r) (int n) tot)) (chunk_hi tot (tot - resp) (second_chunk (int r) (int n) tot)) (resp_part tot resp xs)"
  proof -
    have eq: "pre @ zz_rows r n d xs @ post = (pre @ h0) @ h1 @ post" by (simp add: rows)
    have len0: "int (length pre) + int c = int (length (pre @ h0))" by (simp add: hl)
    show ?thesis unfolding z(6) eq len0 h1_def by (rule chunk_extract [OF ok len z(3) refl l1])
  qed
  have "0 < tot" using ok by (simp add: lengths_ok_def)
  then have cp: "slice_log_prob_with_cp (int r) (int n) (resp_part tot resp xs) tot resp =
      Inr (rank_slice (int r) (int n) tot (tot - resp) (resp_part tot resp xs))"
    using n r ok len by (intro slice_log_prob_eq) (auto simp: lengths_ok_def length_resp_part)
  have resp: "int (length (resp_part tot resp xs)) = resp" using ok len by (simp add: lengths_ok_def length_resp_part)
  have "extract_one (int r) (int n) False (pre @ zz_rows r n d xs @ post) (int (length pre)) (tot, resp) =
      Inr (py_slice (int (length pre) + (a0 - int (c * r))) (int (length pre) + (b0 - int (c * r))) (pre @ zz_rows r n d xs @ post) @
        py_slice (int (length pre) + int c + (a1 - int k)) (int (length pre) + int c + (b1 - int k))
          (pre @ zz_rows r n d xs @ post), int (length pre) + 2 * int c)"
    using n by (simp add: extract_one_def offsets_eq z l0 l1 Let_def del: of_nat_add of_nat_mult)
  then show ?thesis unfolding s0 s1 resp cp by (simp add: rows hl)
qed

definition zz_stream :: "nat \<Rightarrow> nat \<Rightarrow> 'a \<Rightarrow> 'a list list \<Rightarrow> 'a list" where
  "zz_stream r n d xss = concat (map (zz_rows r n d) xss)"

lemma extract_rows_stream:
  assumes r: "r < n"
  shows "list_all2 (\<lambda>xs l. lengths_ok l \<and> int (length xs) = fst l) xss ls \<Longrightarrow>
    extract_rows (int r) (int n) False (pre @ zz_stream r n d xss @ post) (int (length pre)) ls =
      Inr (map2 (\<lambda>xs l. cp_local r n (fst l) (resp_part (fst l) (snd l) xs)) xss ls)"
proof (induction xss ls arbitrary: pre rule: list_all2_induct)
  case (Cons xs xss l ls)
  obtain tot resp where l: "l = (tot, resp)" by fastforce
  have ok: "lengths_ok (tot, resp)" "int (length xs) = tot" using Cons.hyps(1) by (auto simp: l)
  have "pre @ zz_stream r n d (xs # xss) @ post = pre @ zz_rows r n d xs @ (zz_stream r n d xss @ post)" by (simp add: zz_stream_def)
  then show ?case using Cons.IH [of "pre @ zz_rows r n d xs"]
    by (simp add: l extract_one_rows [OF r ok])
qed simp

section \<open>Writing the response values of a stream\<close>

text \<open>A value per position: the response's values where their logits are, a default elsewhere.\<close>

definition align_values :: "'a \<Rightarrow> int \<Rightarrow> int \<Rightarrow> 'a list \<Rightarrow> 'a list" where
  "align_values d tot resp vs = replicate (nat (tot - resp - 1)) d @ vs @ [d]"

lemma length_align_values: "lengths_ok (tot, resp) \<Longrightarrow> int (length vs) = resp \<Longrightarrow> int (length (align_values d tot resp vs)) = tot"
  by (simp add: align_values_def lengths_ok_def)

lemma resp_part_align: "lengths_ok (tot, resp) \<Longrightarrow> int (length vs) = resp \<Longrightarrow> resp_part tot resp (align_values d tot resp vs) = vs"
  by (auto simp: resp_part_def align_values_def lengths_ok_def slice_def nat_diff_distrib')

lemma window_nth:
  fixes k :: nat
  assumes "lo + c \<le> k + length vs + m" "i < c"
  shows "slice lo (lo + c) (replicate k d @ vs @ replicate m d) ! i = (if k \<le> lo + i \<and> lo + i < k + length vs then vs ! (lo + i - k) else d)"
  using assms by (auto simp: slice_nth nth_append)

lemma window_rows:
  fixes k :: nat
  assumes fits: "lo + c \<le> k + length vs + m" and A: "A = max lo k" and B: "B = min (lo + c) (k + length vs)" and lt: "A < B"
  shows "slice lo (lo + c) (replicate k d @ vs @ replicate m d) =
    replicate (A - lo) d @ slice (A - k) (B - k) vs @ replicate (lo + c - B) d" (is "?L = ?R")
proof (rule nth_equalityI)
  have lens: "length (slice (A - k) (B - k) vs) = B - A" using A B lt by simp
  show "length ?L = length ?R" using fits A B lt by simp
  fix i assume "i < length ?L"
  then have i: "i < c" using fits by simp
  have "?R ! i = (if A \<le> lo + i \<and> lo + i < B then vs ! (lo + i - k) else d)"
  proof -
    consider "lo + i < A" | "A \<le> lo + i" "lo + i < B" | "B \<le> lo + i" by linarith
    then show ?thesis
    proof cases
      case 2
      have "slice (A - k) (B - k) vs ! (i - (A - lo)) = vs ! (A - k + (i - (A - lo)))"
        using 2 A B lt by (intro slice_nth) auto
      also have "A - k + (i - (A - lo)) = lo + i - k" using 2 A by auto
      finally show ?thesis using 2 lens A by (auto simp: nth_append)
    next
      case 3
      have "lo \<le> A" using A by simp
      then have "\<not> i < A - lo" "\<not> i - (A - lo) < B - A" "i - (A - lo) - (B - A) < lo + c - B" "\<not> lo + i < B"
        using 3 lt i by linarith+
      then show ?thesis using lens by (simp add: nth_append del: length_slice)
    qed (use lens A in \<open>auto simp: nth_append\<close>)
  qed
  then show "?L ! i = ?R ! i" using window_nth [OF fits i, of d] i A B by auto
qed

lemma window_default:
  fixes k :: nat
  assumes "lo + c \<le> k + length vs + m" "min (lo + c) (k + length vs) \<le> max lo k"
  shows "slice lo (lo + c) (replicate k d @ vs @ replicate m d) = replicate c d"
proof (rule nth_equalityI)
  fix i assume "i < length (slice lo (lo + c) (replicate k d @ vs @ replicate m d))"
  then have i: "i < c" by simp
  have "\<not> (k \<le> lo + i \<and> lo + i < k + length vs)" using assms(2) i by auto
  then show "slice lo (lo + c) (replicate k d @ vs @ replicate m d) ! i = replicate c d ! i"
    unfolding window_nth [OF assms(1) i] using i by auto
qed (use assms(1) in simp)

text \<open>The bounds of a chunk's part of the response, in natural numbers.\<close>

lemma chunk_bounds:
  fixes lo c k R :: nat
  assumes ab: "chunk_logits tot (tot - resp) (int lo, int (lo + c)) = (a, b)" and k: "tot - resp = int k + 1" and R: "resp = int R"
    and A: "A = max lo k" and B: "B = min (lo + c) (k + R)"
  shows "A < B \<Longrightarrow> a = int A \<and> b = int B" "\<not> A < B \<Longrightarrow> a = 0 \<and> b = 0"
    "chunk_lo (tot - resp) (int lo, int (lo + c)) = A - k" "chunk_hi tot (tot - resp) (int lo, int (lo + c)) = B - k"
proof -
  have k': "tot - resp - 1 = int k" "tot - 1 = int (k + R)" using k R by auto
  have m: "max (int lo) (int k) = int A" "min (int (lo + c)) (int (k + R)) = int B" using A B by auto
  show "A < B \<Longrightarrow> a = int A \<and> b = int B" "\<not> A < B \<Longrightarrow> a = 0 \<and> b = 0"
    using ab [unfolded chunk_logits_def prod.case Let_def fst_conv snd_conv k' m] by (auto split: if_splits)
  show "chunk_lo (tot - resp) (int lo, int (lo + c)) = A - k" "chunk_hi tot (tot - resp) (int lo, int (lo + c)) = B - k"
    unfolding fst_conv snd_conv k' m by (simp_all add: nat_diff_distrib')
qed

lemma half_rows:
  fixes lo c :: nat
  assumes ok: "lengths_ok (tot, resp)" and len: "int (length vs) = resp"
    and fits: "lo + c \<le> length (align_values d tot resp vs @ replicate m d)"
    and ab: "chunk_logits tot (tot - resp) (int lo, int (lo + c)) = (a, b)"
    and src: "src = slice (chunk_lo (tot - resp) (int lo, int (lo + c))) (chunk_hi tot (tot - resp) (int lo, int (lo + c))) vs"
  shows "a < b \<Longrightarrow> \<exists>x y. slice lo (lo + c) (align_values d tot resp vs @ replicate m d) = replicate x d @ src @ replicate y d \<and>
      a = int (lo + x) \<and> b = int (lo + x + length src) \<and> x + length src + y = c"
    and "\<not> a < b \<Longrightarrow> slice lo (lo + c) (align_values d tot resp vs @ replicate m d) = replicate c d \<and> a = 0 \<and> b = 0 \<and> src = []"
proof -
  define k where "k = nat (tot - resp - 1)"
  have k: "tot - resp = int k + 1" using ok by (simp add: k_def lengths_ok_def)
  define A B where "A = max lo k" and "B = min (lo + c) (k + length vs)"
  note cb = chunk_bounds [OF ab k len [symmetric] A_def B_def]
  have src': "src = slice (A - k) (B - k) vs" by (simp only: src cb)
  have al: "align_values d tot resp vs @ replicate m d = replicate k d @ vs @ replicate (Suc m) d"
    by (simp add: align_values_def k_def)
  have fits': "lo + c \<le> k + length vs + Suc m" using fits unfolding al by simp
  show "\<exists>x y. slice lo (lo + c) (align_values d tot resp vs @ replicate m d) = replicate x d @ src @ replicate y d \<and>
      a = int (lo + x) \<and> b = int (lo + x + length src) \<and> x + length src + y = c" if "a < b"
  proof -
    have lt: "A < B" using that cb(2) by (cases "A < B") auto
    have "length src = B - A" using lt by (auto simp: src' A_def B_def)
    then show ?thesis using cb(1) [OF lt] window_rows [OF fits' A_def B_def lt, of d] lt unfolding al src'
      by (intro exI [of _ "A - lo"] exI [of _ "lo + c - B"]) (auto simp: A_def B_def)
  qed
  show "slice lo (lo + c) (align_values d tot resp vs @ replicate m d) = replicate c d \<and> a = 0 \<and> b = 0 \<and> src = []" if "\<not> a < b"
  proof -
    have nlt: "\<not> A < B" using that cb(1) by auto
    then have "min (lo + c) (k + length vs) \<le> max lo k" unfolding A_def B_def not_less .
    then show ?thesis using cb(2) [OF nlt] window_default [OF fits', of d] nlt unfolding al by (simp add: src')
  qed
qed

lemma clamp_index_nat: "0 \<le> i \<Longrightarrow> clamp_index n i = min n (nat i)"
  by (simp add: clamp_index_def)

lemma slice_assign_inner:
  assumes "lo = int (length pre + i)" "hi = int (length pre + i + length src)" "i + length src \<le> length mid"
  shows "slice_assign lo hi src (pre @ mid @ post) = Inr (pre @ (take i mid @ src @ drop (i + length src) mid) @ post)"
proof -
  have "clamp_index (length (pre @ mid @ post)) lo = length pre + i" "clamp_index (length (pre @ mid @ post)) hi = length pre + i + length src"
    using assms by (simp_all add: clamp_index_nat nat_add_distrib min_def)
  then show ?thesis using assms(3) by (simp add: slice_assign_def Let_def blit_def)
qed

lemma slice_assign_nothing: "slice_assign lo lo [] dst = Inr dst"
  by (simp add: slice_assign_def Let_def)

lemma assign_half:
  fixes lo c :: nat
  assumes ok: "lengths_ok (tot, resp)" and len: "int (length vs) = resp"
    and fits: "lo + c \<le> length (align_values d tot resp vs @ replicate m d)" and pos: "pos = int (length pre)"
    and ab: "chunk_logits tot (tot - resp) (int lo, int (lo + c)) = (a, b)"
  shows "slice_assign (pos + (a - int lo)) (pos + (b - int lo))
      (slice (chunk_lo (tot - resp) (int lo, int (lo + c))) (chunk_hi tot (tot - resp) (int lo, int (lo + c))) vs) (pre @ replicate c d @ post) =
    Inr (pre @ slice lo (lo + c) (align_values d tot resp vs @ replicate m d) @ post)"
proof -
  define src where "src = slice (chunk_lo (tot - resp) (int lo, int (lo + c))) (chunk_hi tot (tot - resp) (int lo, int (lo + c))) vs"
  note h = half_rows [OF ok len fits ab src_def]
  show ?thesis unfolding src_def [symmetric]
  proof (cases "a < b")
    case True
    then obtain x y where xy: "slice lo (lo + c) (align_values d tot resp vs @ replicate m d) = replicate x d @ src @ replicate y d"
      "a = int (lo + x)" "b = int (lo + x + length src)" "x + length src + y = c" using h(1) by blast
    have i: "pos + (a - int lo) = int (length pre + x)" "pos + (b - int lo) = int (length pre + x + length src)" using xy pos by auto
    have fit: "x + length src \<le> length (replicate c d)" using xy(4) by simp
    have "take x (replicate c d) = replicate x d" "drop (x + length src) (replicate c d) = replicate y d" using xy(4) by (simp_all add: min_def)
    then show "slice_assign (pos + (a - int lo)) (pos + (b - int lo)) src (pre @ replicate c d @ post) =
        Inr (pre @ slice lo (lo + c) (align_values d tot resp vs @ replicate m d) @ post)"
      unfolding xy(1) slice_assign_inner [OF i fit] by simp
  next
    case False
    then show "slice_assign (pos + (a - int lo)) (pos + (b - int lo)) src (pre @ replicate c d @ post) =
        Inr (pre @ slice lo (lo + c) (align_values d tot resp vs @ replicate m d) @ post)"
      using h(2) by (simp add: slice_assign_nothing)
  qed
qed

section \<open>The shifted targets of the stream\<close>

definition sample_ok :: "resp_sample \<Rightarrow> bool" where
  "sample_ok = (\<lambda>(tokens, tot, resp). lengths_ok (tot, resp) \<and> int (length tokens) = tot)"

definition resp_tokens :: "resp_sample \<Rightarrow> int list" where
  "resp_tokens = (\<lambda>(tokens, tot, resp). drop (nat (tot - resp)) tokens)"

definition aligned_tokens :: "resp_sample \<Rightarrow> int list" where
  "aligned_tokens s = align_values 0 (fst (snd s)) (snd (snd s)) (resp_tokens s)"

lemma length_resp_tokens: "sample_ok (tokens, tot, resp) \<Longrightarrow> int (length (resp_tokens (tokens, tot, resp))) = resp"
  unfolding sample_ok_def lengths_ok_def resp_tokens_def prod.case fst_conv snd_conv length_drop by linarith

lemma slice_drop: "k \<le> a \<Longrightarrow> slice (a - k) (b - k) (drop k xs) = slice a b xs"
  by (cases "a \<le> b") (auto simp: slice_def)

lemma token_slice:
  assumes ok: "sample_ok (tokens, tot, resp)" and le: "fst ch \<le> snd ch" and se: "chunk_tokens tot (tot - resp) ch = (s, e)"
  shows "py_slice s e tokens = slice (chunk_lo (tot - resp) ch) (chunk_hi tot (tot - resp) ch) (resp_tokens (tokens, tot, resp))"
proof -
  let ?p = "tot - resp"
  have p: "1 \<le> ?p" using ok by (simp add: sample_ok_def lengths_ok_def)
  have "py_slice s e tokens = py_slice (s - ?p) (e - ?p) (drop (nat ?p) tokens)"
  proof (cases "s = e")
    case False
    then have "?p \<le> s" "?p \<le> e" using se p by (cases ch; auto simp: chunk_tokens_def Let_def split: if_splits)+
    then show ?thesis using p by (simp add: py_slice_nat nat_diff_distrib' slice_drop)
  qed simp
  then show ?thesis by (simp only: chunk_tokens_slice [OF le se] resp_tokens_def prod.case)
qed

lemma zigzag_targets_step:
  assumes r: "r < n" and n: "1 < n" and ok: "sample_ok (tokens, tot, resp)"
    and room: "length (zz_rows r n 0 (aligned_tokens (tokens, tot, resp))) \<le> k"
  shows "zigzag_targets (int r) (int n) (pre @ replicate k 0, int (length pre)) (tokens, tot, resp) =
    Inr (pre @ zz_rows r n 0 (aligned_tokens (tokens, tot, resp)) @ replicate (k - length (zz_rows r n 0 (aligned_tokens (tokens, tot, resp)))) 0,
      int (length (pre @ zz_rows r n 0 (aligned_tokens (tokens, tot, resp)))))"
proof -
  define vs where "vs = resp_tokens (tokens, tot, resp)"
  define xs where "xs = aligned_tokens (tokens, tot, resp)"
  have lok: "lengths_ok (tot, resp)" using ok by (simp add: sample_ok_def)
  have len: "int (length vs) = resp" unfolding vs_def by (rule length_resp_tokens [OF ok])
  have xs: "xs = align_values 0 tot resp vs" by (simp add: xs_def vs_def aligned_tokens_def)
  have xl: "int (length xs) = tot" unfolding xs by (rule length_align_values [OF lok len])
  obtain c q m where z: "zz_rows r n 0 xs = slice (c * r) (c * r + c) (xs @ replicate m 0) @ slice q (q + c) (xs @ replicate m 0)"
    "c * r + c \<le> length (xs @ replicate m 0)" "q + c \<le> length (xs @ replicate m 0)"
    "(tot + 2 * int n - 1) div (2 * int n) = int c" "first_chunk (int r) (int n) tot = (int (c * r), int (c * r + c))"
    "second_chunk (int r) (int n) tot = (int q, int (q + c))" by (rule zz_halves [OF r n xl])
  define h0 where "h0 = slice (c * r) (c * r + c) (xs @ replicate m 0)"
  define h1 where "h1 = slice q (q + c) (xs @ replicate m 0)"
  have rows: "zz_rows r n 0 xs = h0 @ h1" by (simp add: z(1) h0_def h1_def)
  have hl: "length h0 = c" "length h1 = c" using z(2,3) unfolding h0_def h1_def length_slice by linarith+
  define k' where "k' = k - (c + c)"
  have k: "k = c + (c + k')" using room by (simp add: xs_def [symmetric] rows hl k'_def)
  obtain a0 b0 where l0: "chunk_logits tot (tot - resp) (int (c * r), int (c * r + c)) = (a0, b0)" by fastforce
  obtain a1 b1 where l1: "chunk_logits tot (tot - resp) (int q, int (q + c)) = (a1, b1)" by fastforce
  obtain s0 e0 where t0: "chunk_tokens tot (tot - resp) (int (c * r), int (c * r + c)) = (s0, e0)" by fastforce
  obtain s1 e1 where t1: "chunk_tokens tot (tot - resp) (int q, int (q + c)) = (s1, e1)" by fastforce
  have first: "slice_assign (int (length pre) + (a0 - int (c * r))) (int (length pre) + (b0 - int (c * r))) (py_slice s0 e0 tokens)
      (pre @ replicate k 0) = Inr (pre @ h0 @ replicate (c + k') 0)"
  proof -
    have t: "py_slice s0 e0 tokens = slice (chunk_lo (tot - resp) (int (c * r), int (c * r + c)))
        (chunk_hi tot (tot - resp) (int (c * r), int (c * r + c))) vs"
      unfolding vs_def by (rule token_slice [OF ok _ t0]) simp
    show ?thesis unfolding k replicate_add h0_def t xs
      by (rule assign_half [OF lok len z(2) [unfolded xs] refl l0])
  qed
  have second: "slice_assign (int (length pre) + int c + (a1 - int q)) (int (length pre) + int c + (b1 - int q)) (py_slice s1 e1 tokens)
      (pre @ h0 @ replicate (c + k') 0) = Inr (pre @ h0 @ h1 @ replicate k' 0)"
  proof -
    have "int (length pre) + int c = int (length (pre @ h0))" by (simp add: hl)
    from assign_half [OF lok len z(3) [unfolded xs] this l1, of "replicate k' 0"]
    have "slice_assign (int (length pre) + int c + (a1 - int q)) (int (length pre) + int c + (b1 - int q))
        (slice (chunk_lo (tot - resp) (int q, int (q + c))) (chunk_hi tot (tot - resp) (int q, int (q + c))) vs)
        ((pre @ h0) @ replicate c 0 @ replicate k' 0) = Inr ((pre @ h0) @ h1 @ replicate k' 0)" by (simp only: h1_def xs)
    moreover have "py_slice s1 e1 tokens = slice (chunk_lo (tot - resp) (int q, int (q + c))) (chunk_hi tot (tot - resp) (int q, int (q + c))) vs"
      unfolding vs_def by (rule token_slice [OF ok _ t1]) simp
    ultimately show ?thesis by (simp only: replicate_add append_assoc)
  qed
  have "zigzag_targets (int r) (int n) (pre @ replicate k 0, int (length pre)) (tokens, tot, resp) =
      Inr (pre @ h0 @ h1 @ replicate k' 0, int (length pre) + 2 * int c)"
    using n by (simp add: zigzag_targets_def offsets_eq z(4-6) l0 l1 t0 t1 Let_def first second del: of_nat_add of_nat_mult)
  then show ?thesis unfolding xs_def [symmetric] by (simp add: rows hl k'_def)
qed

lemma zigzag_targets_stream:
  assumes r: "r < n" and n: "1 < n"
  shows "\<forall>s \<in> set samples. sample_ok s \<Longrightarrow> length (zz_stream r n 0 (map aligned_tokens samples)) \<le> k \<Longrightarrow>
    res_fold (zigzag_targets (int r) (int n)) (pre @ replicate k 0, int (length pre)) samples =
      Inr (pre @ zz_stream r n 0 (map aligned_tokens samples) @ replicate (k - length (zz_stream r n 0 (map aligned_tokens samples))) 0,
        int (length (pre @ zz_stream r n 0 (map aligned_tokens samples))))"
proof (induction samples arbitrary: pre k)
  case (Cons s samples)
  obtain tokens tot resp where s: "s = (tokens, tot, resp)" by (cases s)
  let ?b = "zz_rows r n 0 (aligned_tokens s)"
  have ok: "sample_ok (tokens, tot, resp)" and room: "length ?b \<le> k" using Cons.prems by (simp_all add: s zz_stream_def)
  note step = zigzag_targets_step [OF r n ok room [unfolded s], of pre, folded s]
  have "length (zz_stream r n 0 (map aligned_tokens samples)) \<le> k - length ?b" using Cons.prems(2) by (simp add: zz_stream_def)
  with Cons.IH [of "k - length ?b" "pre @ ?b"] Cons.prems(1) show ?case using step by (simp add: s [symmetric] zz_stream_def add.assoc)
qed (simp add: zz_stream_def)

text \<open>Without zigzag chunks, every position's target is the next token of the sample.\<close>

definition next_tokens :: "resp_sample \<Rightarrow> int list" where
  "next_tokens = (\<lambda>(tokens, tot, resp). drop 1 tokens @ [0])"

lemma length_next_tokens: "sample_ok (tokens, tot, resp) \<Longrightarrow> int (length (next_tokens (tokens, tot, resp))) = tot"
  by (auto simp: sample_ok_def lengths_ok_def next_tokens_def)

lemma resp_part_next:
  assumes "sample_ok (tokens, tot, resp)"
  shows "resp_part tot resp (next_tokens (tokens, tot, resp)) = resp_tokens (tokens, tot, resp)"
proof -
  have l: "0 \<le> resp" "resp < tot" "int (length tokens) = tot" using assms by (auto simp: sample_ok_def lengths_ok_def)
  have "nat (tot - 1) \<le> length (drop 1 tokens)" "nat (tot - resp - 1) + 1 = nat (tot - resp)" using l by auto
  then show ?thesis using l
    by (simp add: resp_part_def next_tokens_def resp_tokens_def slice_prefix) (auto simp: slice_def intro!: nth_equalityI)
qed

lemma stream_targets_stream:
  "\<forall>s \<in> set samples. sample_ok s \<Longrightarrow> length (concat (map next_tokens samples)) \<le> k \<Longrightarrow>
    res_fold stream_targets (pre @ replicate k 0, int (length pre)) samples =
      Inr (pre @ concat (map next_tokens samples) @ replicate (k - length (concat (map next_tokens samples))) 0,
        int (length (pre @ concat (map next_tokens samples))))"
proof (induction samples arbitrary: pre k)
  case (Cons s samples)
  obtain tokens tot resp where s: "s = (tokens, tot, resp)" by (cases s)
  have ok: "sample_ok (tokens, tot, resp)" using Cons.prems(1) by (simp add: s)
  have l: "0 < tot" "int (length tokens) = tot" using ok by (auto simp: sample_ok_def lengths_ok_def)
  define R where "R = length (drop 1 tokens)"
  have len: "length (next_tokens s) = Suc R" "tot - 1 = int R" using l by (simp_all add: s next_tokens_def R_def)
  define k' where "k' = k - Suc R"
  have k: "k = Suc R + k'" using Cons.prems(2) len by (simp add: k'_def)
  have src: "py_slice 1 tot tokens = drop 1 tokens" using l by (simp add: py_slice_nat slice_def)
  have step: "stream_targets (pre @ replicate k 0, int (length pre)) s = Inr (pre @ next_tokens s @ replicate k' 0, int (length (pre @ next_tokens s)))"
  proof -
    have "slice_assign (int (length pre + 0)) (int (length pre + 0 + length (drop 1 tokens))) (drop 1 tokens) (pre @ replicate k 0 @ []) =
        Inr (pre @ (take 0 (replicate k 0) @ drop 1 tokens @ drop (0 + length (drop 1 tokens)) (replicate k 0)) @ [])"
      by (rule slice_assign_inner) (use k R_def in auto)
    moreover have "int (length pre) + tot - 1 = int (length pre + 0 + length (drop 1 tokens))" using len(2) by (simp add: R_def)
    ultimately have "slice_assign (int (length pre)) (int (length pre) + tot - 1) (py_slice 1 tot tokens) (pre @ replicate k 0) =
        Inr (pre @ drop 1 tokens @ drop R (replicate k 0))" unfolding src by (simp only: R_def) simp
    moreover have "drop R (replicate k (0 :: int)) = 0 # replicate k' 0" unfolding k by (simp only: drop_replicate) simp
    moreover have "int (length pre) + tot = int (length (pre @ next_tokens s))" using len by simp
    ultimately show ?thesis unfolding s stream_targets_def prod.case by (simp add: next_tokens_def)
  qed
  have room: "length (concat (map next_tokens samples)) \<le> k'" using Cons.prems(2) len k by simp
  have kk: "k - length (concat (map next_tokens (s # samples))) = k' - length (concat (map next_tokens samples))"
    using len by (simp add: k'_def)
  show ?case unfolding kk using Cons.IH [OF _ room, of "pre @ next_tokens s"] Cons.prems(1) by (simp add: step)
qed simp

section \<open>Pieces of the stream\<close>

text \<open>\<open>total\<close> entries cut into \<open>n\<close> pieces of \<open>T\<close>; a sample's logits for its response begin \<open>k\<close> positions after the sample.\<close>

abbreviation piece :: "nat \<Rightarrow> nat \<Rightarrow> 'a list \<Rightarrow> 'a list" where
  "piece T r xs \<equiv> slice (r * T) (r * T + T) xs"

lemma length_piece: "r < n \<Longrightarrow> length xs = n * T \<Longrightarrow> length (piece T r xs) = T"
proof -
  assume a: "r < n" "length xs = n * T"
  have "Suc r * T \<le> n * T" using a(1) by (intro mult_le_mono1) simp
  then show "length (piece T r xs) = T" using a(2) by simp
qed

lemma extract_one_piece:
  assumes r: "r < n" and len: "length xs = n * T" and k: "tot - resp = int k + 1" and R: "resp = int R" and fits: "q + k + R \<le> n * T"
  shows "extract_one (int r) m True (piece T r xs) (int q) (tot, resp) =
    Inr (slice (max (q + k) (r * T)) (min (q + k + R) (r * T + T)) xs, int q + tot)"
proof -
  let ?s = "max (q + k) (r * T)" and ?e = "min (q + k + R) (r * T + T)"
  have pr: "piece_range (int r * int T) (int r * int T + int T) (int q) tot resp = (int ?s, int ?e)"
  proof -
    have "int q + (tot - resp) - 1 = int (q + k)" "int q + tot - 1 = int (q + k + R)" "int r * int T = int (r * T)" using k R by auto
    then show ?thesis unfolding piece_range_def Let_def by (simp only: of_nat_max of_nat_min of_nat_add)
  qed
  show ?thesis
  proof (cases "?e \<le> ?s")
    case True
    then show ?thesis by (simp add: extract_one_def length_piece [OF r len] Let_def pr del: of_nat_max of_nat_min length_slice)
  next
    case False
    have "py_slice (int ?s - int r * int T) (int ?e - int r * int T) (piece T r xs) = slice (?s - r * T) (?e - r * T) (piece T r xs)"
      using False by (subst py_slice_nat) (auto simp: nat_diff_distrib' nat_mult_distrib simp flip: of_nat_mult)
    also have "\<dots> = slice ?s ?e xs" by (rule slice_of_slice) auto
    finally show ?thesis using False by (simp add: extract_one_def length_piece [OF r len] Let_def pr del: of_nat_max of_nat_min length_slice)
  qed
qed

text \<open>The positions of the logits of every sample's response, for samples that begin at \<open>q\<close>.\<close>

definition resp_index :: "nat \<Rightarrow> int \<times> int \<Rightarrow> nat list" where
  "resp_index q = (\<lambda>(tot, resp). [q + nat (tot - resp - 1)..<q + nat (tot - 1)])"

fun resp_indices :: "nat \<Rightarrow> (int \<times> int) list \<Rightarrow> nat list list" where
  "resp_indices q [] = []"
| "resp_indices q (l # ls) = resp_index q l # resp_indices (q + nat (fst l)) ls"

definition in_piece :: "nat \<Rightarrow> nat \<Rightarrow> nat \<Rightarrow> bool" where
  "in_piece T r i \<longleftrightarrow> r * T \<le> i \<and> i < r * T + T"

lemma in_piece_iff: "i < n * T \<Longrightarrow> in_piece T r i \<longleftrightarrow> r = i div T"
proof -
  assume "i < n * T"
  then have T: "0 < T" by (cases T) auto
  show ?thesis
  proof
    assume p: "in_piece T r i"
    then have "i = r * T + (i - r * T)" "i - r * T < T" by (auto simp: in_piece_def)
    then show "r = i div T" using T by (metis add.commute div_mult_self3 div_less add_0 less_nat_zero_code not_gr_zero)
  next
    assume "r = i div T"
    then show "in_piece T r i" using dividend_less_div_times [OF T, of i] by (simp add: in_piece_def add.commute)
  qed
qed

lemma filter_piece: "filter (in_piece T r) [x..<y] = [max x (r * T)..<min y (r * T + T)]"
proof (induction y)
  case (Suc y)
  show ?case
  proof (cases "x \<le> y")
    case True
    then have split: "filter (in_piece T r) [x..<Suc y] = [max x (r * T)..<min y (r * T + T)] @ (if in_piece T r y then [y] else [])"
      using Suc.IH by simp
    consider "y < r * T" | "r * T \<le> y" "y < r * T + T" | "r * T + T \<le> y" by linarith
    then show ?thesis unfolding split using True by cases (simp_all add: in_piece_def)
  qed (simp add: max_def)
qed simp

definition piece_values :: "nat \<Rightarrow> nat \<Rightarrow> 'a list \<Rightarrow> nat list \<Rightarrow> 'a list" where
  "piece_values T r xs is = map ((!) xs) (filter (in_piece T r) is)"

lemma lengths_total:
  assumes "\<forall>l \<in> set ls. lengths_ok l" "l \<in> set ls"
  shows "fst l \<le> sum_list (map fst ls)"
proof -
  have "\<forall>x \<in> set (map fst ls). 0 \<le> x" using assms(1) by (auto simp: lengths_ok_def)
  then show ?thesis using assms(2) member_le_sum_list [of "fst l" "map fst ls"] by force
qed

lemma extract_rows_piece:
  assumes r: "r < n" and len: "length xs = n * T"
  shows "\<forall>l \<in> set ls. lengths_ok l \<Longrightarrow> int q + sum_list (map fst ls) \<le> int (n * T) \<Longrightarrow>
    extract_rows (int r) m True (piece T r xs) (int q) ls = Inr (map (piece_values T r xs) (resp_indices q ls))"
proof (induction ls arbitrary: q)
  case (Cons l ls)
  obtain tot resp where l: "l = (tot, resp)" by fastforce
  have ok: "lengths_ok (tot, resp)" and tail: "\<forall>l \<in> set ls. lengths_ok l" using Cons.prems(1) by (auto simp: l)
  define k where "k = nat (tot - resp - 1)"
  define R where "R = nat resp"
  have k: "tot - resp = int k + 1" and R: "resp = int R" and kR: "nat (tot - 1) = k + R" and tot: "tot = int (nat tot)" "0 < tot"
    using ok by (auto simp: lengths_ok_def k_def R_def)
  have nn: "0 \<le> sum_list (map fst ls)" using tail by (intro sum_list_nonneg) (auto simp: lengths_ok_def)
  have total: "int q + (tot + sum_list (map fst ls)) \<le> int (n * T)" using Cons.prems(2) by (simp add: l)
  have fits: "q + k + R \<le> n * T" using total nn k R by linarith
  have val: "slice (max (q + k) (r * T)) (min (q + k + R) (r * T + T)) xs = piece_values T r xs (resp_index q (tot, resp))"
    using fits len by (subst slice_upt) (auto simp: piece_values_def resp_index_def filter_piece k_def [symmetric] kR add.assoc)
  have "int q + tot = int (q + nat tot)" using tot by linarith
  moreover have "int (q + nat tot) + sum_list (map fst ls) \<le> int (n * T)" using total tot by linarith
  ultimately show ?case using Cons.IH [OF tail, of "q + nat tot"]
    by (simp add: l extract_one_piece [OF r len k R fits] val)
qed simp

lemma contribution_rows:
  assumes "x \<le> y" "y \<le> length xs"
  shows "(if int (min y (r * T + T)) \<le> int (max x (r * T)) then zeros (int (y - x))
     else res_bind (zeros (int (max x (r * T)) - int x)) (\<lambda>left.
       res_bind (zeros (int (y - x) - (int (min y (r * T + T)) - int x))) (\<lambda>right. Inr (left @ piece_values T r xs [x..<y] @ right)))) =
    Inr (map (\<lambda>i. if in_piece T r i then xs ! i else (0 :: real)) [x..<y])"
proof (cases "min y (r * T + T) \<le> max x (r * T)")
  case True
  then have "\<not> in_piece T r i" if "i \<in> set [x..<y]" for i using that by (auto simp: in_piece_def)
  then have "map (\<lambda>i. if in_piece T r i then xs ! i else (0 :: real)) [x..<y] = map (\<lambda>i. 0) [x..<y]" by (intro map_cong) auto
  then show ?thesis using True by (simp add: map_replicate_const del: of_nat_min of_nat_max)
next
  case False
  define s e where "s = max x (r * T)" and "e = min y (r * T + T)"
  have se: "x \<le> s" "s < e" "e \<le> y" using False by (auto simp: s_def e_def)
  have z: "zeros (int s - int x) = Inr (replicate (s - x) (0 :: real))" "zeros (int (y - x) - (int e - int x)) = Inr (replicate (y - e) (0 :: real))"
    using se by (simp_all add: zeros_def nat_diff_distrib')
  have "[x..<y] = [x..<s] @ [s..<e] @ [e..<y]"
    using se upt_add_eq_append [of x s "e - s"] upt_add_eq_append [of x e "y - e"] by simp
  moreover have "map (\<lambda>i. if in_piece T r i then xs ! i else 0) [x..<s] = replicate (s - x) (0 :: real)"
    "map (\<lambda>i. if in_piece T r i then xs ! i else 0) [e..<y] = replicate (y - e) (0 :: real)"
    "map (\<lambda>i. if in_piece T r i then xs ! i else 0) [s..<e] = map ((!) xs) [s..<e]"
    by (intro nth_equalityI; auto simp: in_piece_def s_def e_def min_def max_def split: if_splits)+
  moreover have "piece_values T r xs [x..<y] = map ((!) xs) [s..<e]" by (simp add: piece_values_def filter_piece s_def e_def)
  moreover have "\<not> int e \<le> int s" using se by simp
  ultimately show ?thesis unfolding s_def [symmetric] e_def [symmetric] using z by (simp only: if_False res_bind_Inr map_append)
qed

lemma length_resp_index: "lengths_ok l \<Longrightarrow> length (resp_index q l) = nat (snd l)"
  by (auto simp: resp_index_def lengths_ok_def split: prod.split)

lemma resp_indices_bound:
  "\<forall>l \<in> set ls. lengths_ok l \<Longrightarrow> int q + sum_list (map fst ls) \<le> int m \<Longrightarrow> i \<in> set (concat (resp_indices q ls)) \<Longrightarrow> i < m"
proof (induction ls arbitrary: q)
  case (Cons l ls)
  have ok: "0 \<le> snd l" "snd l < fst l" and tail: "\<forall>l \<in> set ls. lengths_ok l" using Cons.prems(1) by (auto simp: lengths_ok_def)
  have nn: "0 \<le> sum_list (map fst ls)" using tail by (intro sum_list_nonneg) (auto simp: lengths_ok_def)
  have total: "int q + (fst l + sum_list (map fst ls)) \<le> int m" using Cons.prems(2) by simp
  show ?case
  proof (cases "i \<in> set (resp_index q l)")
    case True
    then have "i < q + nat (fst l - 1)" by (auto simp: resp_index_def split: prod.splits)
    then show ?thesis using total nn ok by linarith
  next
    case False
    have "int (q + nat (fst l)) + sum_list (map fst ls) \<le> int m" using total ok by linarith
    then show ?thesis by (rule Cons.IH [OF tail]) (use False Cons.prems(3) in simp)
  qed
qed simp

lemma contribution_step_piece:
  fixes xs :: "real list"
  assumes ok: "lengths_ok (tot, resp)" and total: "int q + tot \<le> int (length xs)"
  shows "contribution_step (int r) (int T) (acc, int q) (piece_values T r xs (resp_index q (tot, resp)), tot, resp) =
    Inr (acc @ map (\<lambda>i. if in_piece T r i then xs ! i else 0) (resp_index q (tot, resp)), int (q + nat tot))"
proof -
  have l: "0 \<le> resp" "resp < tot" using ok by (auto simp: lengths_ok_def)
  define x y where "x = q + nat (tot - resp - 1)" and "y = q + nat (tot - 1)"
  have xy: "x \<le> y" "y \<le> length xs" "int q + (tot - resp) - 1 = int x" "int q + tot - 1 = int y" "resp = int (y - x)"
    using l total by (auto simp: x_def y_def)
  have ri: "resp_index q (tot, resp) = [x..<y]" by (simp add: resp_index_def x_def y_def)
  have pr: "piece_range (int r * int T) (int r * int T + int T) (int q) tot resp = (int (max x (r * T)), int (min y (r * T + T)))"
  proof -
    have "int r * int T = int (r * T)" by simp
    then show ?thesis unfolding piece_range_def Let_def xy(3,4) by (simp only: of_nat_max of_nat_min of_nat_add)
  qed
  have q': "int q + tot = int (q + nat tot)" using l by linarith
  note rows = contribution_rows [OF xy(1,2), of r T, folded xy(5)]
  show ?thesis
    unfolding contribution_step_def prod.case Let_def pr xy(3) ri q' rows using xy(5) by simp
qed

lemma contribution_fold:
  "\<forall>l \<in> set ls. lengths_ok l \<Longrightarrow> int q + sum_list (map fst ls) \<le> int (length xs) \<Longrightarrow>
    \<exists>p. res_fold (contribution_step (int r) (int T)) (acc, int q) (zip (map (piece_values T r xs) (resp_indices q ls)) ls) =
      Inr (acc @ map (\<lambda>i. if in_piece T r i then xs ! i else 0) (concat (resp_indices q ls)), p)"
proof (induction ls arbitrary: acc q)
  case (Cons l ls)
  obtain tot resp where l: "l = (tot, resp)" by fastforce
  have ok: "lengths_ok (tot, resp)" and tail: "\<forall>l \<in> set ls. lengths_ok l" using Cons.prems(1) by (auto simp: l)
  have nn: "0 \<le> sum_list (map fst ls)" using tail by (intro sum_list_nonneg) (auto simp: lengths_ok_def)
  have total: "int q + (tot + sum_list (map fst ls)) \<le> int (length xs)" using Cons.prems(2) by (simp add: l)
  have one: "int q + tot \<le> int (length xs)" and rest: "int (q + nat tot) + sum_list (map fst ls) \<le> int (length xs)"
    using total nn ok by (simp_all add: lengths_ok_def)
  show ?case
    using Cons.IH [OF tail rest, of "acc @ map (\<lambda>i. if in_piece T r i then xs ! i else 0) (resp_index q (tot, resp))"]
    by (simp add: l contribution_step_piece [OF ok one] del: of_nat_add)
qed simp

lemma contributions:
  assumes "\<forall>l \<in> set ls. lengths_ok l" "sum_list (map fst ls) \<le> int (length xs)"
  shows "redistribute_contribution (int r) (int T) (map (piece_values T r xs) (resp_indices 0 ls)) ls =
    Inr (map (\<lambda>i. if in_piece T r i then xs ! i else 0) (concat (resp_indices 0 ls)))"
  using contribution_fold [OF assms(1), of 0 xs r T "[]"] assms(2) by (auto simp: redistribute_contribution_def)

text \<open>Every position lies in one piece, so the sum of the contributions is the whole stream.\<close>

lemma redistribute_pieces:
  assumes sums: "sums_ranks all_sum" and n: "0 < n" and cpr: "cpr < n" and len: "length xs = n * T"
    and ok: "\<forall>l \<in> set ls. lengths_ok l" and total: "sum_list (map fst ls) \<le> int (n * T)"
  shows "allgather_cp_redistribute all_sum (int cpr) (int T) (map (\<lambda>r. map (piece_values T r xs) (resp_indices 0 ls)) [0..<n]) ls =
    Inr (map2 (\<lambda>is l. cp_local cpr n (fst l) (map ((!) xs) is)) (resp_indices 0 ls) ls)"
proof -
  let ?idx = "concat (resp_indices 0 ls)"
  let ?con = "\<lambda>r. map (\<lambda>i. if in_piece T r i then xs ! i else 0) ?idx"
  have con: "res_map (\<lambda>r. redistribute_contribution (int r) (int T) (map (\<lambda>r. map (piece_values T r xs) (resp_indices 0 ls)) [0..<n] ! r) ls) [0..<n] =
      Inr (map ?con [0..<n])"
    using contributions [OF ok] total len by (intro res_map_Inr_ball) auto
  have bound: "i < n * T" if "i \<in> set ?idx" for i using resp_indices_bound [OF ok _ that] total by simp
  have "all_sum (map ?con [0..<n]) = map ((!) xs) ?idx"
  proof (rule nth_equalityI)
    have s: "all_sum (map ?con [0..<n]) = map (\<lambda>j. \<Sum>ys\<leftarrow>map ?con [0..<n]. ys ! j) [0..<length ?idx]"
      using n by (intro sums_ranksD [OF sums]) auto
    then show "length (all_sum (map ?con [0..<n])) = length (map ((!) xs) ?idx)" by simp
    fix j assume "j < length (all_sum (map ?con [0..<n]))"
    then have j: "j < length ?idx" using s by simp
    define i where "i = ?idx ! j"
    have i: "i < n * T" unfolding i_def by (rule bound) (rule nth_mem [OF j])
    have "i div T < n" using i by (rule less_mult_imp_div_less)
    have ij: "?idx ! j = i" by (simp add: i_def)
    have "?con r ! j = (if r = i div T then xs ! i else 0)" for r using j in_piece_iff [OF i] by (simp add: ij)
    then have "(\<Sum>ys\<leftarrow>map ?con [0..<n]. ys ! j) = (\<Sum>r\<leftarrow>[0..<n]. if r = i div T then xs ! i else 0)"
      by (simp only: map_map o_def)
    also have "\<dots> = (\<Sum>r < n. if r = i div T then xs ! i else 0)" by (simp add: interv_sum_list_conv_sum_set_nat lessThan_atLeast0)
    also have "\<dots> = xs ! i" using \<open>i div T < n\<close> by simp
    finally show "all_sum (map ?con [0..<n]) ! j = map ((!) xs) ?idx ! j" using j by (simp add: s i_def)
  qed
  moreover have lens: "map (nat \<circ> snd) ls = map length (map (map ((!) xs)) (resp_indices 0 ls))" for q
  proof -
    have "\<forall>l \<in> set ls. lengths_ok l \<Longrightarrow> map (nat \<circ> snd) ls = map length (resp_indices q ls)" for q
      by (induction ls arbitrary: q) (auto simp: length_resp_index)
    then show ?thesis using ok by (simp add: o_def)
  qed
  moreover have "res_map (\<lambda>(full, total, resp). slice_log_prob_with_cp (int cpr) (int n) full total resp)
      (zip (map (map ((!) xs)) (resp_indices q ls)) ls) = Inr (map2 (\<lambda>is l. cp_local cpr n (fst l) (map ((!) xs) is)) (resp_indices q ls) ls)"
    if "\<forall>l \<in> set ls. lengths_ok l" for q ls using that
  proof (induction ls arbitrary: q)
    case (Cons l ls)
    obtain tot resp where l: "l = (tot, resp)" by fastforce
    have lok: "0 \<le> resp" "resp < tot" using Cons.prems by (auto simp: l lengths_ok_def)
    have "int (length (map ((!) xs) (resp_index q l))) = resp" using Cons.prems lok by (simp add: length_resp_index l)
    then have "slice_log_prob_with_cp (int cpr) (int n) (map ((!) xs) (resp_index q l)) tot resp = Inr (cp_local cpr n tot (map ((!) xs) (resp_index q l)))"
      using cp_local_returns [OF cpr, of "map ((!) xs) (resp_index q l)" tot] lok by simp
    then show ?case using Cons.IH [of "q + nat tot"] Cons.prems by (simp add: l)
  qed simp
  ultimately show ?thesis using n ok torch_split_concat [of "map (map ((!) xs)) (resp_indices 0 ls)"]
    by (simp add: allgather_cp_redistribute_def con map_concat)
qed

text \<open>In a stream of samples these positions hold the values that predict the responses.\<close>

lemma resp_indices_stream:
  "list_all2 (\<lambda>ys l. lengths_ok l \<and> int (length ys) = fst l) xss ls \<Longrightarrow>
    map (map ((!) (pre @ concat xss @ post))) (resp_indices (length pre) ls) = map2 (\<lambda>ys l. resp_part (fst l) (snd l) ys) xss ls"
proof (induction xss ls arbitrary: pre rule: list_all2_induct)
  case (Cons ys xss l ls)
  obtain tot resp where l: "l = (tot, resp)" by fastforce
  have ok: "0 \<le> resp" "resp < tot" "int (length ys) = tot" using Cons.hyps(1) by (auto simp: l lengths_ok_def)
  have "map ((!) (pre @ ys @ concat xss @ post)) (resp_index (length pre) l) = resp_part tot resp ys"
    using ok by (intro nth_equalityI) (auto simp: l resp_index_def resp_part_def nth_append slice_nth)
  moreover have "length pre + nat tot = length (pre @ ys)" using ok by simp
  ultimately show ?case using Cons.IH [of "pre @ ys"] by (simp add: l)
qed simp

end
