(* ===== verification/Layout_Columns.thy ===== *)
theory Layout_Columns
  imports Layout_Rows
begin

text \<open>
  Columns over the packed rows of a rank, in one form for all layouts (\<open>packed\<close>): the shifted targets are the packed
  targets, an extraction chooses rows by the lengths alone, and a column that holds given values at the rows that predict
  the responses (\<open>holds_at_responses\<close>) is extracted, or redistributed, to the context-parallel part of these values.
\<close>

section \<open>The layout of a packed column\<close>

text \<open>What rank \<open>r\<close> of \<open>n\<close> holds of one list per sample, in \<open>T\<close> rows, with \<open>d\<close> in the padding.\<close>

definition packed :: "bool \<Rightarrow> nat \<Rightarrow> nat \<Rightarrow> nat \<Rightarrow> 'a \<Rightarrow> 'a list list \<Rightarrow> 'a list" where
  "packed allgather_cp n T r d xss =
     (if allgather_cp then piece T r (concat xss @ replicate (n * T - length (concat xss)) d)
      else zz_stream r n d xss @ replicate (T - length (zz_stream r n d xss)) d)"

definition room_for :: "bool \<Rightarrow> nat \<Rightarrow> nat \<Rightarrow> nat list \<Rightarrow> bool" where
  "room_for allgather_cp n T lens =
     (if allgather_cp then sum_list lens \<le> n * T
      else (\<Sum>l\<leftarrow>lens. if n = 1 then l else 2 * ((l + 2 * n - 1) div (2 * n))) \<le> T)"

lemma length_zz_rows: "r < n \<Longrightarrow> length (zz_rows r n d xs) = (if n = 1 then length xs else 2 * zz_chunk n xs)"
proof (cases "n = 1")
  case False
  assume r: "r < n"
  then have n: "1 < n" using False by simp
  obtain c k m where z: "zz_rows r n d xs = slice (c * r) (c * r + c) (xs @ replicate m d) @ slice k (k + c) (xs @ replicate m d)"
    "c * r + c \<le> length (xs @ replicate m d)" "k + c \<le> length (xs @ replicate m d)"
    "(int (length xs) + 2 * int n - 1) div (2 * int n) = int c" by (rule zz_halves [OF r n refl])
  have e: "int (length xs) + 2 * int n - 1 = int (length xs + 2 * n - 1)" "2 * int n = int (2 * n)" using n by simp_all
  have "int c = int (length xs + 2 * n - 1) div int (2 * n)" unfolding z(4) [symmetric] unfolding e(1) unfolding e(2) ..
  then have c: "c = zz_chunk n xs" by (simp only: zdiv_int [symmetric] of_nat_eq_iff)
  have half: "length (slice a (a + c) ys) = c" if "a + c \<le> length ys" for a and ys :: "'a list" using that by simp
  have "length (zz_rows r n d xs) = c + c" unfolding z(1) length_append half [OF z(2)] half [OF z(3)] ..
  then show ?thesis using False by (simp add: c)
qed (simp add: zz_rows_def)

lemma room_stream:
  assumes "r < n" "room_for False n T (map length xss)"
  shows "length (zz_stream r n d xss) \<le> T"
proof -
  have "length (zz_stream r n d xss) = (\<Sum>xs\<leftarrow>xss. if n = 1 then length xs else 2 * zz_chunk n xs)"
    unfolding zz_stream_def length_concat map_map o_def by (simp only: length_zz_rows [OF assms(1)])
  then show ?thesis using assms(2) by (simp add: room_for_def o_def cong: if_cong)
qed

lemma zz_stream_one: "n = 1 \<Longrightarrow> zz_stream r n d xss = concat xss"
proof -
  assume "n = 1"
  then have "zz_rows r n d = (\<lambda>xs. xs)" by (intro ext) (simp add: zz_rows_def)
  then show "zz_stream r n d xss = concat xss" by (simp add: zz_stream_def)
qed

lemma length_packed: "r < n \<Longrightarrow> room_for ag n T (map length xss) \<Longrightarrow> length (packed ag n T r d xss) = T"
proof (cases ag)
  case True
  assume a: "r < n" "room_for ag n T (map length xss)"
  then have "length (concat xss @ replicate (n * T - length (concat xss)) d) = n * T" using True by (simp add: room_for_def length_concat)
  then show "length (packed ag n T r d xss) = T" unfolding packed_def using True by (simp only: if_True length_piece [OF a(1)])
next
  case False
  assume "r < n" "room_for ag n T (map length xss)"
  then show "length (packed ag n T r d xss) = T" using room_stream [of r n T xss d] False by (simp add: packed_def)
qed

section \<open>The shifted targets are the packed targets\<close>

definition targets_of :: "nat \<Rightarrow> bool \<Rightarrow> resp_sample \<Rightarrow> int list" where
  "targets_of n allgather_cp s = (if 1 < n \<and> \<not> allgather_cp then aligned_tokens s else next_tokens s)"

lemma length_targets_of: "sample_ok s \<Longrightarrow> int (length (targets_of n ag s)) = fst (snd s)"
proof -
  assume ok: "sample_ok s"
  obtain tokens tot resp where s: "s = (tokens, tot, resp)" by (cases s)
  have "lengths_ok (tot, resp)" using ok by (simp add: s sample_ok_def)
  then show "int (length (targets_of n ag s)) = fst (snd s)"
    using length_next_tokens ok length_align_values [OF _ length_resp_tokens] by (simp add: targets_of_def aligned_tokens_def s)
qed

lemma resp_part_targets: "sample_ok (tokens, tot, resp) \<Longrightarrow> resp_part tot resp (targets_of n ag (tokens, tot, resp)) = resp_tokens (tokens, tot, resp)"
  using resp_part_next resp_part_align [OF _ length_resp_tokens] by (auto simp: targets_of_def aligned_tokens_def sample_ok_def)

lemma total_lengths: "\<forall>s \<in> set samples. sample_ok s \<Longrightarrow> sum_list (map (fst \<circ> snd) samples) = int (length (concat (map next_tokens samples)))"
proof (induction samples)
  case (Cons s samples)
  obtain tokens tot resp where s: "s = (tokens, tot, resp)" by (cases s)
  show ?case using Cons length_next_tokens [of tokens tot resp] by (simp add: s)
qed simp

lemma piece_of_short:
  assumes "0 < x" "length xs = r * T + x" "x \<le> T"
  shows "piece T r (xs @ replicate m d) = drop (r * T) xs @ take (T - x) (replicate m d)"
  using assms by (simp add: slice_def)

lemma build_shifted_tokens_eq:
  assumes r: "r < n" and ok: "\<forall>s \<in> set samples. sample_ok s" and room: "room_for ag n T (map (length \<circ> targets_of n ag) samples)"
  shows "build_shifted_tokens (int r) (int n) ag T samples = Inr (packed ag n T r 0 (map (targets_of n ag) samples))"
proof -
  have room': "room_for ag n T (map length (map (targets_of n ag) samples))" using room by simp
  consider "1 < n" "\<not> ag" | "n = 1" "\<not> ag" | "ag" using r by linarith
  then show ?thesis
  proof cases
    case 1
    then have t: "targets_of n ag = aligned_tokens" by (simp add: targets_of_def fun_eq_iff)
    have "length (zz_stream r n 0 (map aligned_tokens samples)) \<le> T" using room_stream [OF r, of T "map aligned_tokens samples" 0] room' 1(2) unfolding t by simp
    from zigzag_targets_stream [OF r 1(1) ok this, of "[]"] show ?thesis
      unfolding build_shifted_tokens_def packed_def t using 1 by simp
  next
    case 2
    then have t: "targets_of n ag = next_tokens" by (simp add: targets_of_def fun_eq_iff)
    have z: "zz_stream r n 0 (map next_tokens samples) = concat (map next_tokens samples)"
      using 2(1) by (rule zz_stream_one)
    have "length (concat (map next_tokens samples)) \<le> T" using room_stream [OF r, of T "map next_tokens samples" 0] room' 2(2) unfolding t z by simp
    from stream_targets_stream [OF ok this, of "[]"] show ?thesis
      unfolding build_shifted_tokens_def packed_def t z using 2 by (simp add: zeros_def)
  next
    case 3
    then have t: "targets_of n ag = next_tokens" by (simp add: targets_of_def fun_eq_iff)
    define xs where "xs = concat (map next_tokens samples)"
    define L where "L = length xs"
    have fold: "res_fold stream_targets (replicate L 0, 0) samples = Inr (xs, int L)"
      using stream_targets_stream [OF ok, of L "[]"] by (simp add: xs_def L_def)
    have total: "sum_list (map (fst \<circ> snd) samples) = int L" using total_lengths [OF ok] by (simp add: L_def xs_def)
    have le: "L \<le> n * T" using room' 3 unfolding t by (simp add: room_for_def L_def xs_def length_concat)
    have start: "int r * int T = int (r * T)" by simp
    have packed: "packed ag n T r 0 (map (targets_of n ag) samples) = piece T r (xs @ replicate (n * T - L) 0)"
      using 3 unfolding t by (simp add: packed_def xs_def L_def)
    have rT: "r * T + T \<le> n * T" using r mult_le_mono1 [of "Suc r" n T] by simp
    consider "r * T + T \<le> L" | "L < r * T + T" "r * T < L" | "L \<le> r * T" "\<not> r * T + T \<le> L" by linarith
    then show ?thesis
    proof cases
      case 1
      then have "build_shifted_tokens (int r) (int n) ag T samples = Inr (py_slice (int (r * T)) (int (r * T + T)) xs)"
        using 3 unfolding build_shifted_tokens_def total start by (simp add: zeros_def fold Let_def del: of_nat_mult of_nat_add) (simp only: of_nat_add)
      also have "py_slice (int (r * T)) (int (r * T + T)) xs = piece T r xs" unfolding of_nat_add [symmetric] using 1 by (simp only: py_slice_nat L_def of_nat_0_le_iff nat_int of_nat_le_iff)
      finally show ?thesis unfolding packed using 1 by (simp add: L_def slice_prefix)
    next
      case 2
      define x where "x = L - r * T"
      have x: "0 < x" "L = r * T + x" "x \<le> T" "int L - int (r * T) = int x" using 2 by (auto simp: x_def)
      have "T - x \<le> n * T - L" using rT x(2,3) by linarith
      have src: "py_slice (int (r * T)) (int (length xs)) xs = drop (r * T) xs" by (simp add: py_slice_nat slice_def del: of_nat_mult)
      have "build_shifted_tokens (int r) (int n) ag T samples = slice_assign 0 (int x) (drop (r * T) xs) (replicate T 0)"
        using 3 2 x(1) unfolding build_shifted_tokens_def total start Let_def by (simp add: zeros_def fold x(4) src del: of_nat_mult of_nat_add)
      also have "\<dots> = Inr (drop (r * T) xs @ replicate (T - x) 0)"
        using slice_assign_inner [of 0 "[]" 0 "int x" "drop (r * T) xs" "replicate T 0" "[]"] x by (simp add: L_def)
      finally show ?thesis unfolding packed piece_of_short [OF x(1) x(2) [unfolded L_def] x(3)]
        using \<open>T - x \<le> n * T - L\<close> by (simp add: min_def)
    next
      case 3
      then have "build_shifted_tokens (int r) (int n) ag T samples = Inr (replicate T 0)"
        using \<open>ag\<close> unfolding build_shifted_tokens_def total start Let_def of_nat_add [symmetric] of_nat_le_iff by (simp add: zeros_def fold del: of_nat_mult of_nat_add)
      moreover have "piece T r (xs @ replicate (n * T - L) 0) = replicate T 0" using 3 rT le by (simp add: slice_def L_def min_def)
      ultimately show ?thesis unfolding packed by simp
    qed
  qed
qed

section \<open>Extracting from any column\<close>

text \<open>An extraction chooses rows by the lengths alone: the rows \<open>sels\<close> it takes from the column of row numbers are those
  it takes from every column.\<close>

lemma extract_one_other:
  "extract_one r n ag xs pos l = Inr (x, p) \<Longrightarrow> length ys = length xs \<Longrightarrow> \<exists>y. extract_one r n ag ys pos l = Inr (y, p)"
  by (cases l) (auto simp: extract_one_def Let_def offsets_eq split: prod.splits if_splits)

lemma extract_rows_other:
  "extract_rows r n ag xs pos ls = Inr a \<Longrightarrow> length ys = length xs \<Longrightarrow> \<exists>b. extract_rows r n ag ys pos ls = Inr b"
proof (induction ls arbitrary: pos a)
  case (Cons l ls)
  obtain x p a' where x: "extract_one r n ag xs pos l = Inr (x, p)" "extract_rows r n ag xs p ls = Inr a'"
    using Cons.prems(1) by (auto simp: res_bind_eq_Inr)
  then show ?case using extract_one_other [OF x(1) Cons.prems(2)] Cons.IH [OF x(2) Cons.prems(2)] by auto
qed simp

lemma extract_rows_select:
  assumes "extract_rows r n ag [0..<length xs] pos ls = Inr sels"
  shows "extract_rows r n ag xs pos ls = Inr (map (map ((!) xs)) sels)"
  using extract_rows_map [OF assms, of "(!) xs"] by (simp add: map_nth)

lemma extract_rows_selects:
  assumes "extract_rows r n ag xs pos ls = Inr a"
  shows "\<exists>sels. extract_rows r n ag [0..<length xs] pos ls = Inr sels \<and> a = map (map ((!) xs)) sels"
proof -
  obtain sels where s: "extract_rows r n ag [0..<length xs] pos ls = Inr sels"
    using extract_rows_other [OF assms, of "[0..<length xs]"] by auto
  then show ?thesis using extract_rows_select [OF s] assms by auto
qed

lemma extract_one_bound: "extract_one r n ag xs pos l = Inr (x, p) \<Longrightarrow> set x \<subseteq> set xs"
  by (cases l) (auto simp: extract_one_def Let_def offsets_eq py_slice_def slice_def split: prod.splits if_splits dest!: in_set_takeD in_set_dropD)

lemma extract_rows_bound: "extract_rows r n ag xs pos ls = Inr xss \<Longrightarrow> x \<in> set xss \<Longrightarrow> set x \<subseteq> set xs"
proof (induction ls arbitrary: pos xss)
  case (Cons l ls)
  obtain y p xss' where "extract_one r n ag xs pos l = Inr (y, p)" "extract_rows r n ag xs p ls = Inr xss'" "xss = y # xss'"
    using Cons.prems(1) by (auto simp: res_bind_eq_Inr)
  then show ?case using extract_one_bound Cons.IH Cons.prems(2) by (metis set_ConsD)
qed simp

section \<open>Which row predicts which token\<close>

text \<open>The row of a rank that predicts token \<open>k\<close> of the response of sample \<open>s\<close> is labelled \<open>Some (s, k)\<close>; every other row,
  padding included, is labelled \<open>None\<close>.\<close>

definition row_labels :: "nat \<Rightarrow> int \<times> int \<Rightarrow> (nat \<times> nat) option list" where
  "row_labels s l = align_values None (fst l) (snd l) (map (\<lambda>k. Some (s, k)) [0..<nat (snd l)])"

definition all_labels :: "(int \<times> int) list \<Rightarrow> (nat \<times> nat) option list list" where
  "all_labels ls = map (\<lambda>s. row_labels s (ls ! s)) [0..<length ls]"

definition response_at :: "bool \<Rightarrow> nat \<Rightarrow> nat \<Rightarrow> nat \<Rightarrow> (int \<times> int) list \<Rightarrow> (nat \<times> nat) option list" where
  "response_at allgather_cp n T r ls = packed allgather_cp n T r None (all_labels ls)"

text \<open>A column of the rank holds \<open>vals ! s ! k\<close> at those rows; what it holds elsewhere is open.\<close>

definition holds_at_responses :: "bool \<Rightarrow> nat \<Rightarrow> nat \<Rightarrow> nat \<Rightarrow> (int \<times> int) list \<Rightarrow> 'a list list \<Rightarrow> 'a list \<Rightarrow> bool" where
  "holds_at_responses allgather_cp n T r ls vals col \<longleftrightarrow> length col = T \<and>
     (\<forall>j < T. \<forall>s k. response_at allgather_cp n T r ls ! j = Some (s, k) \<longrightarrow> col ! j = vals ! s ! k)"

lemma length_row_labels: "lengths_ok l \<Longrightarrow> length (row_labels s l) = nat (fst l)"
  by (cases l) (auto simp: row_labels_def align_values_def lengths_ok_def)

lemma length_all_labels: "\<forall>l \<in> set ls. lengths_ok l \<Longrightarrow> map length (all_labels ls) = map (nat \<circ> fst) ls"
  by (intro nth_equalityI) (auto simp: all_labels_def length_row_labels)

lemma resp_part_labels: "lengths_ok l \<Longrightarrow> resp_part (fst l) (snd l) (row_labels s l) = map (\<lambda>k. Some (s, k)) [0..<nat (snd l)]"
  unfolding row_labels_def by (rule resp_part_align) (auto simp: lengths_ok_def)

lemma all_labels_ok: "\<forall>l \<in> set ls. lengths_ok l \<Longrightarrow> list_all2 (\<lambda>xs l. lengths_ok l \<and> int (length xs) = fst l) (all_labels ls) ls"
proof -
  assume ok: "\<forall>l \<in> set ls. lengths_ok l"
  have "lengths_ok (ls ! s) \<and> int (length (row_labels s (ls ! s))) = fst (ls ! s)" if "s < length ls" for s
  proof -
    have "lengths_ok (ls ! s)" using ok that by simp
    then show ?thesis using length_row_labels [of "ls ! s" s] by (auto simp: lengths_ok_def)
  qed
  then show "list_all2 (\<lambda>xs l. lengths_ok l \<and> int (length xs) = fst l) (all_labels ls) ls"
    by (simp add: list_all2_conv_all_nth all_labels_def)
qed

lemma resp_parts_labels:
  "\<forall>l \<in> set ls. lengths_ok l \<Longrightarrow> map2 (\<lambda>xs l. resp_part (fst l) (snd l) xs) (all_labels ls) ls =
    map (\<lambda>s. map (\<lambda>k. Some (s, k)) [0..<nat (snd (ls ! s))]) [0..<length ls]"
  by (intro nth_equalityI) (auto simp: all_labels_def resp_part_labels)

subsection \<open>Packing is the same for all values\<close>

lemma slice_rel: "list_all2 R xs ys \<Longrightarrow> list_all2 R (slice a b xs) (slice a b ys)"
  by (auto simp: slice_def dest: list_all2_lengthD intro!: list_all2_dropI list_all2_takeI)

lemma replicate_rel: "R d e \<Longrightarrow> list_all2 R (replicate m d) (replicate m e)"
  by (simp add: list_all2_conv_all_nth)

lemma concat_rel: "list_all2 (list_all2 R) xss yss \<Longrightarrow> list_all2 R (concat xss) (concat yss)"
  by (induction rule: list_all2_induct) (auto intro: list_all2_appendI)

lemma zz_rows_rel:
  assumes "list_all2 R xs ys" "R d e"
  shows "list_all2 R (zz_rows r n d xs) (zz_rows r n e ys)"
proof -
  have l: "length ys = length xs" using assms(1) by (simp add: list_all2_lengthD)
  have "list_all2 R (xs @ replicate m d) (ys @ replicate m e)" for m by (intro list_all2_appendI assms(1) replicate_rel assms(2))
  then show ?thesis using assms(1) unfolding zz_rows_def l Let_def by (auto simp del: list_all2_append intro!: list_all2_appendI [OF slice_rel slice_rel])
qed

lemma zz_stream_rel: "list_all2 (list_all2 R) xss yss \<Longrightarrow> R d e \<Longrightarrow> list_all2 R (zz_stream r n d xss) (zz_stream r n e yss)"
  unfolding zz_stream_def by (intro concat_rel) (auto simp: list_all2_map1 list_all2_map2 intro: zz_rows_rel elim: list_all2_mono)

lemma packed_rel:
  assumes "list_all2 (list_all2 R) xss yss" "R d e"
  shows "list_all2 R (packed ag n T r d xss) (packed ag n T r e yss)"
proof -
  note c = concat_rel [OF assms(1)] and z = zz_stream_rel [OF assms, of r n]
  show ?thesis unfolding packed_def list_all2_lengthD [OF c] list_all2_lengthD [OF z]
    using c z assms(2) by (auto intro!: slice_rel list_all2_appendI replicate_rel)
qed

lemma holds_packed:
  assumes r: "r < n" and room: "room_for ag n T (map (nat \<circ> fst) ls)" and len: "length xss = length ls"
    and parts: "\<And>s. s < length ls \<Longrightarrow> lengths_ok (ls ! s) \<and> int (length (xss ! s)) = fst (ls ! s) \<and>
      resp_part (fst (ls ! s)) (snd (ls ! s)) (xss ! s) = vals ! s"
  shows "holds_at_responses ag n T r ls vals (packed ag n T r d xss)"
proof -
  define R where "R x q \<longleftrightarrow> (\<forall>s k. q = Some (s, k) \<longrightarrow> x = vals ! s ! k)" for x :: 'a and q
  have one: "list_all2 R (xss ! s) (row_labels s (ls ! s))" if "s < length ls" for s
  proof (rule list_all2_all_nthI)
    note p = parts [OF that]
    show l: "length (xss ! s) = length (row_labels s (ls ! s))" using p length_row_labels [of "ls ! s" s] by linarith
    fix i assume "i < length (xss ! s)"
    then have i: "i < nat (fst (ls ! s))" using l p by (simp add: length_row_labels)
    let ?k = "nat (fst (ls ! s) - snd (ls ! s) - 1)"
    have ok: "0 \<le> snd (ls ! s)" "snd (ls ! s) < fst (ls ! s)" using p by (auto simp: lengths_ok_def)
    show "R (xss ! s ! i) (row_labels s (ls ! s) ! i)"
    proof (cases "?k \<le> i \<and> i < ?k + nat (snd (ls ! s))")
      case True
      then have "row_labels s (ls ! s) ! i = Some (s, i - ?k)" by (auto simp: row_labels_def align_values_def nth_append)
      moreover have "vals ! s ! (i - ?k) = xss ! s ! i"
      proof -
        have "vals ! s ! (i - ?k) = slice ?k (nat (fst (ls ! s) - 1)) (xss ! s) ! (i - ?k)" using p by (simp add: resp_part_def)
        also have "\<dots> = xss ! s ! (?k + (i - ?k))" using True p ok by (intro slice_nth) linarith+
        finally show ?thesis using True by simp
      qed
      ultimately show ?thesis by (simp add: R_def)
    next
      case False
      then have "row_labels s (ls ! s) ! i = None" using i ok by (auto simp: row_labels_def align_values_def nth_append nth_Cons')
      then show ?thesis by (simp add: R_def)
    qed
  qed
  have "list_all2 (list_all2 R) xss (all_labels ls)" using one len by (simp add: list_all2_conv_all_nth all_labels_def)
  then have rel: "list_all2 R (packed ag n T r d xss) (response_at ag n T r ls)"
    unfolding response_at_def by (rule packed_rel) (simp add: R_def)
  have ok: "\<forall>l \<in> set ls. lengths_ok l" using parts by (metis in_set_conv_nth)
  have "length (response_at ag n T r ls) = T" unfolding response_at_def
    by (rule length_packed [OF r]) (simp only: length_all_labels [OF ok] room)
  then have lp: "length (packed ag n T r d xss) = T" using list_all2_lengthD [OF rel] by simp
  show ?thesis unfolding holds_at_responses_def lp
    using list_all2_nthD [OF rel] lp by (simp add: R_def)
qed

lemma holds_map2:
  assumes a: "holds_at_responses ag n T r ls as xs" and b: "holds_at_responses ag n T r ls bs ys"
    and f: "\<And>j s k. j < T \<Longrightarrow> response_at ag n T r ls ! j = Some (s, k) \<Longrightarrow> cs ! s ! k = f (as ! s ! k) (bs ! s ! k)"
  shows "holds_at_responses ag n T r ls cs (map2 f xs ys)"
proof -
  have l: "length xs = T" "length ys = T" using a b by (simp_all add: holds_at_responses_def)
  have "map2 f xs ys ! j = cs ! s ! k" if "j < T" "response_at ag n T r ls ! j = Some (s, k)" for j s k
  proof -
    have "xs ! j = as ! s ! k" "ys ! j = bs ! s ! k" using a b that by (simp_all add: holds_at_responses_def)
    then show ?thesis using f [OF that] that(1) l by simp
  qed
  then show ?thesis using l by (simp add: holds_at_responses_def)
qed

lemma slice_chunks_map: "slice_log_prob_with_cp r n (map f xs) tot resp = map_sum id (map f) (slice_log_prob_with_cp r n xs tot resp)"
  by (cases "get_logits_and_tokens_offset_with_cp r n tot resp")
    (auto simp: slice_log_prob_with_cp_def Let_def py_slice_map split: prod.splits)

lemma cp_local_map:
  assumes "r < n" "int (length xs) < tot"
  shows "cp_local r n tot (map f xs) = map f (cp_local r n tot xs)"
proof -
  obtain ys where "slice_log_prob_with_cp (int r) (int n) xs tot (int (length xs)) = Inr ys" using cp_local_returns [OF assms] by blast
  then show ?thesis by (simp only: length_map slice_chunks_map map_sum.simps sum.sel)
qed

lemma py_slice_subset: "set (py_slice a b xs) \<subseteq> set xs"
  by (auto simp: py_slice_def slice_def dest!: in_set_takeD in_set_dropD)

lemma cp_local_subset:
  assumes "r < n" "int (length xs) < tot"
  shows "set (cp_local r n tot xs) \<subseteq> set xs"
proof -
  obtain ys where ys: "slice_log_prob_with_cp (int r) (int n) xs tot (int (length xs)) = Inr ys" using cp_local_returns [OF assms] by blast
  then have "set ys \<subseteq> set xs" using py_slice_subset
    by (cases "get_logits_and_tokens_offset_with_cp (int r) (int n) tot (int (length xs))")
      (fastforce simp: slice_log_prob_with_cp_def Let_def split: prod.splits if_splits)+
  then show ?thesis by (simp only: ys sum.sel)
qed

section \<open>Extracting a column that holds values at the responses\<close>

definition fits_lengths :: "(int \<times> int) list \<Rightarrow> 'a list list \<Rightarrow> bool" where
  "fits_lengths ls vals \<longleftrightarrow> length vals = length ls \<and> (\<forall>s < length ls. int (length (vals ! s)) = snd (ls ! s))"

lemma response_at_length:
  "r < n \<Longrightarrow> \<forall>l \<in> set ls. lengths_ok l \<Longrightarrow> room_for ag n T (map (nat \<circ> fst) ls) \<Longrightarrow> length (response_at ag n T r ls) = T"
  unfolding response_at_def by (rule length_packed) (simp_all only: length_all_labels)

section \<open>Which response tokens a rank's rows predict\<close>

fun piece_tokens :: "nat \<Rightarrow> nat \<Rightarrow> nat \<Rightarrow> (int \<times> int) list \<Rightarrow> nat list list" where
  "piece_tokens T r q [] = []"
| "piece_tokens T r q (l # ls) =
     map (\<lambda>i. i - (q + nat (fst l - snd l - 1))) (filter (in_piece T r) (resp_index q l)) # piece_tokens T r (q + nat (fst l)) ls"

definition held_tokens :: "bool \<Rightarrow> nat \<Rightarrow> nat \<Rightarrow> nat \<Rightarrow> (int \<times> int) list \<Rightarrow> nat list list" where
  "held_tokens ag n T r ls = (if ag then piece_tokens T r 0 ls else map (\<lambda>l. cp_local r n (fst l) [0..<nat (snd l)]) ls)"

lemma length_piece_tokens [simp]: "length (piece_tokens T r q ls) = length ls"
  by (induction ls arbitrary: q) simp_all

lemma length_held_tokens [simp]: "length (held_tokens ag n T r ls) = length ls"
  by (simp add: held_tokens_def)

lemma piece_tokens_bound:
  "\<forall>l \<in> set ls. lengths_ok l \<Longrightarrow> s < length ls \<Longrightarrow> set (piece_tokens T r q ls ! s) \<subseteq> {..<nat (snd (ls ! s))}"
proof (induction ls arbitrary: q s)
  case (Cons l ls)
  then show ?case by (cases s) (auto simp: resp_index_def lengths_ok_def)
qed simp

lemma held_tokens_bound:
  assumes "r < n" "\<forall>l \<in> set ls. lengths_ok l" "s < length ls"
  shows "set (held_tokens ag n T r ls ! s) \<subseteq> {..<nat (snd (ls ! s))}"
proof (cases ag)
  case False
  have "lengths_ok (ls ! s)" using assms(2,3) by simp
  then have "int (length [0..<nat (snd (ls ! s))]) < fst (ls ! s)" by (auto simp: lengths_ok_def)
  from cp_local_subset [OF assms(1) this] show ?thesis using False assms(3) by (simp add: held_tokens_def atLeast0LessThan)
qed (use piece_tokens_bound [OF assms(2,3)] in \<open>simp add: held_tokens_def\<close>)

lemma piece_labels:
  "\<forall>l \<in> set ls. lengths_ok l \<Longrightarrow> s < length ls \<Longrightarrow>
    map ((!) ix) (resp_indices q ls ! s) = map (\<lambda>k. Some (j, k)) [0..<nat (snd (ls ! s))] \<Longrightarrow>
    map ((!) ix) (filter (in_piece T r) (resp_indices q ls ! s)) = map (\<lambda>k. Some (j, k)) (piece_tokens T r q ls ! s)"
proof (induction ls arbitrary: q s)
  case (Cons l ls)
  show ?case
  proof (cases s)
    case 0
    obtain tot resp where l: "l = (tot, resp)" by fastforce
    have ok: "0 \<le> resp" "resp < tot" using Cons.prems(1) by (auto simp: l lengths_ok_def)
    define x where "x = q + nat (tot - resp - 1)"
    have y: "q + nat (tot - 1) = x + nat resp" using ok by (simp add: x_def nat_diff_distrib [symmetric] flip: nat_add_distrib)
    have labels: "map ((!) ix) [x..<x + nat resp] = map (\<lambda>k. Some (j, k)) [0..<nat resp]"
      using Cons.prems(3) unfolding 0 l by (simp add: resp_index_def y flip: x_def)
    have "ix ! i = Some (j, i - x)" if "i \<in> set (filter (in_piece T r) [x..<x + nat resp])" for i
    proof -
      have i: "x \<le> i" "i < x + nat resp" using that by auto
      then have "map ((!) ix) [x..<x + nat resp] ! (i - x) = map (\<lambda>k. Some (j, k)) [0..<nat resp] ! (i - x)" by (simp only: labels)
      then show ?thesis using i by simp
    qed
    then show ?thesis unfolding 0 l by (simp add: resp_index_def y flip: x_def)
  next
    case (Suc s')
    then show ?thesis using Cons.IH [of s' "q + nat (fst l)"] Cons.prems by simp
  qed
qed simp

lemma positions:
  assumes r: "r < n" and ok: "\<forall>l \<in> set ls. lengths_ok l" and room: "room_for ag n T (map (nat \<circ> fst) ls)"
  shows "\<exists>sels. extract_rows (int r) (int n) ag [0..<T] 0 ls = Inr sels \<and> length sels = length ls \<and>
    (\<forall>s < length ls. set (sels ! s) \<subseteq> {..<T} \<and>
      map ((!) (response_at ag n T r ls)) (sels ! s) = map (\<lambda>k. Some (s, k)) (held_tokens ag n T r ls ! s))"
proof -
  let ?ix = "response_at ag n T r ls"
  have lix: "length ?ix = T" by (rule response_at_length [OF r ok room])
  have "extract_rows (int r) (int n) ag ?ix 0 ls = Inr (map (\<lambda>s. map (\<lambda>k. Some (s, k)) (held_tokens ag n T r ls ! s)) [0..<length ls])"
  proof (cases ag)
    case False
    have "extract_rows (int r) (int n) False ?ix 0 ls = Inr (map2 (\<lambda>xs l. cp_local r n (fst l) (resp_part (fst l) (snd l) xs)) (all_labels ls) ls)"
      using extract_rows_stream [OF r all_labels_ok [OF ok], of "[]" None] False by (simp add: response_at_def packed_def)
    moreover have "cp_local r n (fst (ls ! s)) (map (\<lambda>k. Some (s, k)) [0..<nat (snd (ls ! s))]) =
        map (\<lambda>k. Some (s, k)) (cp_local r n (fst (ls ! s)) [0..<nat (snd (ls ! s))])" if "s < length ls" for s
    proof -
      have "lengths_ok (ls ! s)" using ok that by simp
      then have "int (length [0..<nat (snd (ls ! s))]) < fst (ls ! s)" by (auto simp: lengths_ok_def)
      then show ?thesis by (rule cp_local_map [OF r])
    qed
    then have "map2 (\<lambda>xs l. cp_local r n (fst l) (resp_part (fst l) (snd l) xs)) (all_labels ls) ls =
        map (\<lambda>s. map (\<lambda>k. Some (s, k)) (held_tokens ag n T r ls ! s)) [0..<length ls]"
      using ok False by (intro nth_equalityI) (simp_all add: all_labels_def resp_part_labels held_tokens_def)
    ultimately show ?thesis using False by simp
  next
    case True
    define ix where "ix = concat (all_labels ls) @ replicate (n * T - length (concat (all_labels ls))) None"
    have sum: "sum_list (map (nat \<circ> fst) ls) \<le> n * T" using room True by (simp add: room_for_def)
    have "length (concat (all_labels ls)) = sum_list (map (nat \<circ> fst) ls)" unfolding length_concat length_all_labels [OF ok] ..
    then have lx: "length ix = n * T" using sum by (simp add: ix_def)
    have total: "int 0 + sum_list (map fst ls) \<le> int (n * T)"
    proof -
      have "sum_list (map fst ls) = int (sum_list (map (nat \<circ> fst) ls))" using ok by (induction ls) (auto simp: lengths_ok_def)
      then show ?thesis using sum by linarith
    qed
    have pix: "response_at True n T r ls = piece T r ix" by (simp add: response_at_def packed_def ix_def)
    have e: "map (map ((!) ix)) (resp_indices 0 ls) = map (\<lambda>s. map (\<lambda>k. Some (s, k)) [0..<nat (snd (ls ! s))]) [0..<length ls]"
      using resp_indices_stream [OF all_labels_ok [OF ok], of "[]"] unfolding ix_def resp_parts_labels [OF ok] by simp
    have lr: "length (resp_indices 0 ls) = length ls" using arg_cong [OF e, of length] by simp
    have "piece_values T r ix (resp_indices 0 ls ! s) = map (\<lambda>k. Some (s, k)) (held_tokens ag n T r ls ! s)" if s: "s < length ls" for s
    proof -
      have "map ((!) ix) (resp_indices 0 ls ! s) = map (\<lambda>k. Some (s, k)) [0..<nat (snd (ls ! s))]"
        using arg_cong [OF e, of "\<lambda>xs. xs ! s"] s lr by simp
      from piece_labels [OF ok s this] show ?thesis using True by (simp add: piece_values_def held_tokens_def)
    qed
    then have "map (piece_values T r ix) (resp_indices 0 ls) = map (\<lambda>s. map (\<lambda>k. Some (s, k)) (held_tokens ag n T r ls ! s)) [0..<length ls]"
      using lr by (intro nth_equalityI) simp_all
    then show ?thesis using extract_rows_piece [OF r lx ok total, of "int n"] True by (simp add: pix)
  qed
  then obtain sels where sels: "extract_rows (int r) (int n) ag [0..<T] 0 ls = Inr sels"
    "map (\<lambda>s. map (\<lambda>k. Some (s, k)) (held_tokens ag n T r ls ! s)) [0..<length ls] = map (map ((!) ?ix)) sels"
    using extract_rows_selects [of "int r" "int n" ag ?ix 0 ls] unfolding lix by auto
  have len: "length sels = length ls" using arg_cong [OF sels(2), of length] by simp
  have "set (sels ! s) \<subseteq> {..<T}" if "s < length ls" for s
    using extract_rows_bound [OF sels(1), of "sels ! s"] that len by (auto simp: atLeast0LessThan)
  moreover have "map ((!) ?ix) (sels ! s) = map (\<lambda>k. Some (s, k)) (held_tokens ag n T r ls ! s)" if "s < length ls" for s
    using arg_cong [OF sels(2), of "\<lambda>xs. xs ! s"] that len by simp
  ultimately show ?thesis using sels(1) len by blast
qed

text \<open>A column that holds values at the responses gives, per sample, the values of the tokens held.\<close>

lemma column_values:
  assumes r: "r < n" and ok: "\<forall>l \<in> set ls. lengths_ok l" and room: "room_for ag n T (map (nat \<circ> fst) ls)"
    and hold: "holds_at_responses ag n T r ls vals col"
  shows "extract_rows (int r) (int n) ag col 0 ls = Inr (map (\<lambda>s. map ((!) (vals ! s)) (held_tokens ag n T r ls ! s)) [0..<length ls])"
proof -
  obtain sels where sels: "extract_rows (int r) (int n) ag [0..<T] 0 ls = Inr sels" "length sels = length ls"
    "\<And>s. s < length ls \<Longrightarrow> set (sels ! s) \<subseteq> {..<T}"
    "\<And>s. s < length ls \<Longrightarrow> map ((!) (response_at ag n T r ls)) (sels ! s) = map (\<lambda>k. Some (s, k)) (held_tokens ag n T r ls ! s)"
    using positions [OF r ok room] by blast
  have col: "length col = T" using hold by (simp add: holds_at_responses_def)
  have "map ((!) col) (sels ! s) = map ((!) (vals ! s)) (held_tokens ag n T r ls ! s)" if s: "s < length ls" for s
  proof (rule nth_equalityI)
    show len: "length (map ((!) col) (sels ! s)) = length (map ((!) (vals ! s)) (held_tokens ag n T r ls ! s))"
      using arg_cong [OF sels(4) [OF s], of length] by simp
    fix p assume "p < length (map ((!) col) (sels ! s))"
    then have p: "p < length (sels ! s)" "p < length (held_tokens ag n T r ls ! s)" using len by simp_all
    have "response_at ag n T r ls ! (sels ! s ! p) = Some (s, held_tokens ag n T r ls ! s ! p)"
      using arg_cong [OF sels(4) [OF s], of "\<lambda>xs. xs ! p"] p by simp
    moreover have "sels ! s ! p < T" using sels(3) [OF s] nth_mem [OF p(1)] by blast
    ultimately show "map ((!) col) (sels ! s) ! p = map ((!) (vals ! s)) (held_tokens ag n T r ls ! s) ! p"
      using hold p by (simp add: holds_at_responses_def)
  qed
  then have "map (map ((!) col)) sels = map (\<lambda>s. map ((!) (vals ! s)) (held_tokens ag n T r ls ! s)) [0..<length ls]"
    using sels(2) by (intro nth_equalityI) simp_all
  then show ?thesis using extract_rows_select [of "int r" "int n" ag col 0 ls sels] sels(1) col by simp
qed

text \<open>With zigzag chunks the tokens held are the context-parallel part.\<close>

lemma cp_local_held:
  assumes r: "r < n" and ok: "\<forall>l \<in> set ls. lengths_ok l" and vals: "fits_lengths ls vals" and s: "s < length ls"
  shows "cp_local r n (fst (ls ! s)) (vals ! s) = map ((!) (vals ! s)) (held_tokens False n T r ls ! s)"
proof -
  have len: "length (vals ! s) = nat (snd (ls ! s))" using vals s by (auto simp: fits_lengths_def)
  have "lengths_ok (ls ! s)" using ok s by simp
  then have "int (length [0..<nat (snd (ls ! s))]) < fst (ls ! s)" by (auto simp: lengths_ok_def)
  from cp_local_map [OF r this, of "(!) (vals ! s)"]
  have "cp_local r n (fst (ls ! s)) (map ((!) (vals ! s)) [0..<nat (snd (ls ! s))]) = map ((!) (vals ! s)) (held_tokens False n T r ls ! s)"
    using s by (simp add: held_tokens_def)
  moreover have "map ((!) (vals ! s)) [0..<nat (snd (ls ! s))] = vals ! s" unfolding len [symmetric] by (rule map_nth)
  ultimately show ?thesis by simp
qed

lemma extract_held:
  assumes r: "r < n" and ok: "\<forall>l \<in> set ls. lengths_ok l" and room: "room_for False n T (map (nat \<circ> fst) ls)"
    and vals: "fits_lengths ls vals" and hold: "holds_at_responses False n T r ls vals col"
  shows "extract_rows (int r) (int n) False col 0 ls = Inr (map2 (\<lambda>l v. cp_local r n (fst l) v) ls vals)"
proof -
  have "map (\<lambda>s. map ((!) (vals ! s)) (held_tokens False n T r ls ! s)) [0..<length ls] = map2 (\<lambda>l v. cp_local r n (fst l) v) ls vals"
    using vals by (intro nth_equalityI) (simp_all add: fits_lengths_def cp_local_held [OF r ok vals, symmetric])
  then show ?thesis using column_values [OF r ok room hold] by simp
qed

section \<open>The collective restores a column that is cut into pieces\<close>

lemma length_concat_columns: "(\<And>r. r < n \<Longrightarrow> length (f r) = T) \<Longrightarrow> length (concat (map f [0..<n])) = n * T"
  by (induction n) (simp_all add: algebra_simps)

lemma piece_columns: "r < n \<Longrightarrow> (\<And>q. q < n \<Longrightarrow> length (f q) = T) \<Longrightarrow> piece T r (concat (map f [0..<n])) = f r"
proof (induction n)
  case (Suc n)
  have l: "length (concat (map f [0..<n])) = n * T" by (rule length_concat_columns) (simp add: Suc.prems(2))
  show ?case
  proof (cases "r = n")
    case False
    then have r: "r < n" using Suc.prems(1) by simp
    have "r * T + T \<le> n * T" using r mult_le_mono1 [of "Suc r" n T] by simp
    moreover have "piece T r (concat (map f [0..<n])) = f r" by (rule Suc.IH [OF r]) (simp add: Suc.prems(2))
    ultimately show ?thesis using l by (simp add: slice_prefix)
  qed (use l Suc.prems(2) [of n] in \<open>simp add: slice_def\<close>)
qed simp

lemma nth_pieces:
  assumes "i < n * T" "length xs = n * T"
  shows "xs ! i = piece T (i div T) xs ! (i mod T)" "i div T < n" "i mod T < T"
proof -
  have T: "0 < T" using assms(1) by (cases T) auto
  show d: "i div T < n" using assms(1) by (rule less_mult_imp_div_less)
  show m: "i mod T < T" using T by simp
  have "i div T * T + T \<le> n * T" using d mult_le_mono1 [of "Suc (i div T)" n T] by simp
  then have "piece T (i div T) xs ! (i mod T) = xs ! (i div T * T + i mod T)" using m assms(2) by (intro slice_nth) linarith+
  then show "xs ! i = piece T (i div T) xs ! (i mod T)" by simp
qed

lemma redistribute_held:
  assumes sums: "sums_ranks all_sum" and cpr: "cpr < n" and ok: "\<forall>l \<in> set ls. lengths_ok l"
    and room: "room_for True n T (map (nat \<circ> fst) ls)" and vals: "fits_lengths ls vals"
    and hold: "\<And>r. r < n \<Longrightarrow> holds_at_responses True n T r ls vals (col r)"
  shows "\<exists>locals. (\<forall>r < n. \<forall>m. extract_rows (int r) m True (col r) 0 ls = Inr (locals r)) \<and>
    allgather_cp_redistribute all_sum (int cpr) (int T) (map locals [0..<n]) ls = Inr (map2 (\<lambda>l v. cp_local cpr n (fst l) v) ls vals)"
proof -
  define xs where "xs = concat (map col [0..<n])"
  define ix where "ix = concat (all_labels ls) @ replicate (n * T - length (concat (all_labels ls))) None"
  have lcol: "length (col r) = T" if "r < n" for r using hold [OF that] by (simp add: holds_at_responses_def)
  have lxs: "length xs = n * T" unfolding xs_def by (rule length_concat_columns [OF lcol])
  have pxs: "piece T r xs = col r" if "r < n" for r unfolding xs_def by (rule piece_columns [OF that lcol])
  have sum: "sum_list (map (nat \<circ> fst) ls) \<le> n * T" using room by (simp add: room_for_def)
  have lab: "length (concat (all_labels ls)) = sum_list (map (nat \<circ> fst) ls)" unfolding length_concat length_all_labels [OF ok] ..
  then have lix: "length ix = n * T" using sum by (simp add: ix_def)
  have pix: "response_at True n T r ls = piece T r ix" for r by (simp add: response_at_def packed_def ix_def)
  have total: "sum_list (map fst ls) \<le> int (n * T)"
  proof -
    have "sum_list (map fst ls) = int (sum_list (map (nat \<circ> fst) ls))" using ok by (induction ls) (auto simp: lengths_ok_def)
    then show ?thesis using sum by linarith
  qed
  have held: "xs ! i = vals ! s ! k" if i: "i < n * T" and "ix ! i = Some (s, k)" for i s k
  proof -
    note p = nth_pieces [OF i lxs] and q = nth_pieces [OF i lix]
    have "response_at True n T (i div T) ls ! (i mod T) = Some (s, k)" using that(2) unfolding pix q(1) .
    then have "col (i div T) ! (i mod T) = vals ! s ! k" using hold [OF p(2)] p(3) by (simp add: holds_at_responses_def)
    then show ?thesis unfolding p(1) pxs [OF p(2)] .
  qed
  have "map (map ((!) xs)) (resp_indices 0 ls) = vals"
  proof (rule nth_equalityI)
    have "map (map ((!) ix)) (resp_indices 0 ls) = map2 (\<lambda>ys l. resp_part (fst l) (snd l) ys) (all_labels ls) ls"
      using resp_indices_stream [OF all_labels_ok [OF ok], of "[]"] unfolding ix_def by simp
    then have e: "map (map ((!) ix)) (resp_indices 0 ls) = map (\<lambda>s. map (\<lambda>k. Some (s, k)) [0..<nat (snd (ls ! s))]) [0..<length ls]"
      unfolding resp_parts_labels [OF ok] .
    have lr: "length (resp_indices 0 ls) = length ls" using arg_cong [OF e, of length] by simp
    then show "length (map (map ((!) xs)) (resp_indices 0 ls)) = length vals" using vals by (simp add: fits_lengths_def)
    fix s assume "s < length (map (map ((!) xs)) (resp_indices 0 ls))"
    then have s: "s < length ls" "s < length (resp_indices 0 ls)" using lr by simp_all
    have es: "map ((!) ix) (resp_indices 0 ls ! s) = map (\<lambda>k. Some (s, k)) [0..<nat (snd (ls ! s))]"
      using arg_cong [OF e, of "\<lambda>xs. xs ! s"] s by simp
    have len: "length (vals ! s) = nat (snd (ls ! s))" using vals s by (auto simp: fits_lengths_def)
    have lk: "length (resp_indices 0 ls ! s) = nat (snd (ls ! s))" using arg_cong [OF es, of length] by simp
    have "map ((!) xs) (resp_indices 0 ls ! s) = vals ! s"
    proof (rule nth_equalityI)
      fix k assume "k < length (map ((!) xs) (resp_indices 0 ls ! s))"
      then have k: "k < length (resp_indices 0 ls ! s)" by simp
      have "resp_indices 0 ls ! s ! k \<in> set (concat (resp_indices 0 ls))"
        unfolding set_concat using nth_mem [OF k] nth_mem [OF s(2)] by blast
      then have "resp_indices 0 ls ! s ! k < n * T" using resp_indices_bound [OF ok, of 0 "n * T"] total by simp
      moreover have "ix ! (resp_indices 0 ls ! s ! k) = Some (s, k)" using arg_cong [OF es, of "\<lambda>xs. xs ! k"] k lk by simp
      ultimately show "map ((!) xs) (resp_indices 0 ls ! s) ! k = vals ! s ! k" using held k by simp
    qed (simp add: len lk)
    then show "map (map ((!) xs)) (resp_indices 0 ls) ! s = vals ! s" using s by simp
  qed
  then have v: "map2 (\<lambda>is l. cp_local cpr n (fst l) (map ((!) xs) is)) (resp_indices 0 ls) ls = map2 (\<lambda>l v. cp_local cpr n (fst l) v) ls vals"
    by (intro nth_equalityI) auto
  have "extract_rows (int r) m True (col r) 0 ls = Inr (map (piece_values T r xs) (resp_indices 0 ls))" if "r < n" for r m
    using extract_rows_piece [OF that lxs ok, of 0 m] total by (simp add: pxs [OF that])
  moreover have "0 < n" using cpr by simp
  ultimately show ?thesis using redistribute_pieces [OF sums _ cpr lxs ok total] unfolding v
    by (intro exI [of _ "\<lambda>r. map (piece_values T r xs) (resp_indices 0 ls)"]) simp
qed

end
