(* ===== verification/Keep_Mask.thy ===== *)
theory Keep_Mask
  imports Layout_Columns Score_Centering
begin

text \<open>
  The keep-mask of a top-p replay (\<open>_fill_topp_mask_rows\<close> and \<open>_build_topp_keep_mask\<close>): filling a span of rows from the
  ragged ids and offsets, and the mask of a micro-batch as the packed keep-rows of its samples, in every layout.
\<close>

section \<open>The keep-mask\<close>

text \<open>The support of a sample: offsets as the validator of the captures accepts them (\<open>sorted_offsets\<close>) cut the ids into the
  nucleus of every recorded response row. Row \<open>k\<close> on tensor-parallel rank \<open>p\<close>; a row without a record keeps the whole
  vocabulary.\<close>

definition support_ok :: "int list \<times> int list \<Rightarrow> bool" where
  "support_ok = (\<lambda>(ids, offsets). offsets \<noteq> [] \<and> sorted_offsets offsets (length offsets - 1) \<and> nat (offsets ! (length offsets - 1)) \<le> length ids)"

definition keep_row :: "nat \<Rightarrow> nat \<Rightarrow> int list \<times> int list \<Rightarrow> nat \<Rightarrow> bool list" where
  "keep_row p v supp k =
     (if Suc k < length (snd supp) then map (\<lambda>j. int (p * v + j) \<in> set (ragged_row (snd supp) (fst supp) k)) [0..<v] else replicate v True)"

lemma scatter_true_eq:
  assumes "\<And>row t. (row, t) \<in> set pairs \<Longrightarrow> row + a < length keep" "\<And>i. i < length keep \<Longrightarrow> length (keep ! i) = v"
  shows "scatter_true (int a) (int b) (int (b + v)) pairs keep =
    Inr (map (\<lambda>i. map (\<lambda>j. keep ! i ! j \<or> (\<exists>row. i = row + a \<and> (row, int (b + j)) \<in> set pairs)) [0..<v]) [0..<length keep])"
  using assms
proof (induction pairs arbitrary: keep)
  case Nil
  then show ?case by (auto intro!: nth_equalityI)
next
  case (Cons pair pairs)
  obtain row t where p: "pair = (row, t)" by fastforce
  have row: "row + a < length keep" using Cons.prems(1) [of row t] by (simp add: p)
  let ?keep = "if int b \<le> t \<and> t < int (b + v) then keep[row + a := (keep ! (row + a))[nat (t - int b) := True]] else keep"
  have "scatter_true (int a) (int b) (int (b + v)) (pair # pairs) keep = scatter_true (int a) (int b) (int (b + v)) pairs ?keep"
    using row Cons.prems(2) [OF row] by (auto simp: p py_at_def Let_def nat_add_distrib simp flip: of_nat_add)
  also have "\<dots> = Inr (map (\<lambda>i. map (\<lambda>j. ?keep ! i ! j \<or> (\<exists>row. i = row + a \<and> (row, int (b + j)) \<in> set pairs)) [0..<v]) [0..<length ?keep])"
  proof (rule Cons.IH)
    show "row' + a < length ?keep" if "(row', t') \<in> set pairs" for row' t' using Cons.prems(1) [of row' t'] that by simp
    show "length (?keep ! i) = v" if "i < length ?keep" for i
    proof -
      have "i < length keep" using that by (simp split: if_splits)
      then show ?thesis using Cons.prems(2) by (cases "i = row + a") simp_all
    qed
  qed
  also have "?keep ! i ! j \<or> (\<exists>row. i = row + a \<and> (row, int (b + j)) \<in> set pairs) \<longleftrightarrow>
      keep ! i ! j \<or> (\<exists>row. i = row + a \<and> (row, int (b + j)) \<in> set (pair # pairs))" if "i < length keep" "j < v" for i j
    using that Cons.prems(2) [OF that(1)] row by (cases "i = row + a"; cases "j = nat (t - int b)") (auto simp: p)
  then have "map (\<lambda>i. map (\<lambda>j. ?keep ! i ! j \<or> (\<exists>row. i = row + a \<and> (row, int (b + j)) \<in> set pairs)) [0..<v]) [0..<length ?keep] =
      map (\<lambda>i. map (\<lambda>j. keep ! i ! j \<or> (\<exists>row. i = row + a \<and> (row, int (b + j)) \<in> set (pair # pairs))) [0..<v]) [0..<length keep]"
    by (intro map_cong) auto
  finally show ?case .
qed

lemma recorded_counts:
  assumes ok: "support_ok (ids, offsets)" and e: "e < length offsets"
  shows "a + r < e \<Longrightarrow> length (ragged_row offsets ids (a + r)) = nat (offsets ! Suc (a + r) - offsets ! (a + r))"
  using ok e unfolding support_ok_def prod.case by (intro length_ragged_row [where cnt = "length offsets - 1"]) auto

text \<open>The counts, the rows and the ids of a range of response rows.\<close>

lemma range_rows:
  assumes ok: "support_ok (ids, offsets)" and e: "e < length offsets" and a: "a < e"
  defines "counts \<equiv> map2 (\<lambda>x y. y - x) (butlast (slice a (Suc e) offsets)) (tl (slice a (Suc e) offsets))"
    and "f \<equiv> \<lambda>r. ragged_row offsets ids (a + r)"
  shows "py_at offsets (int a) = Inr (offsets ! a)" "py_at offsets (int e) = Inr (offsets ! e)"
    and "py_slice (offsets ! a) (offsets ! e) ids = concat (map f [0..<e - a])"
    and "repeat_rows counts = Inr (concat (map (\<lambda>r. replicate (length (f r)) r) [0..<e - a]))"
proof -
  have so: "sorted_offsets offsets (length offsets - 1)" using ok by (simp add: support_ok_def)
  show "py_at offsets (int a) = Inr (offsets ! a)" "py_at offsets (int e) = Inr (offsets ! e)" using a e by (simp_all add: py_at_def)
  have nn: "0 \<le> offsets ! a" "0 \<le> offsets ! e" using a e by (auto intro!: sorted_offsets_nonneg [OF so])
  have "slice (nat (offsets ! a)) (nat (offsets ! e)) ids = concat (map (ragged_row offsets ids) [a..<e])"
    using a e by (intro ragged_concat [OF so]) auto
  moreover have "[a..<e] = map ((+) a) [0..<e - a]" using a by (intro nth_equalityI) simp_all
  ultimately show "py_slice (offsets ! a) (offsets ! e) ids = concat (map f [0..<e - a])"
    using nn by (simp add: py_slice_nat f_def o_def)
  have "counts = map (\<lambda>r. offsets ! Suc (a + r) - offsets ! (a + r)) [0..<e - a]"
    unfolding counts_def using a e by (intro nth_equalityI) (auto simp: nth_butlast nth_tl slice_nth)
  moreover have "0 \<le> offsets ! Suc (a + r) - offsets ! (a + r)" if "r < e - a" for r
    using sorted_offsets_mono [OF so, of "a + r" "Suc (a + r)"] that e by simp
  moreover have "nat (offsets ! Suc (a + r) - offsets ! (a + r)) = length (f r)" if "r < e - a" for r
    using recorded_counts [OF ok e, of a r] that by (simp add: f_def)
  ultimately show "repeat_rows counts = Inr (concat (map (\<lambda>r. replicate (length (f r)) r) [0..<e - a]))"
    by (auto simp: repeat_rows_def not_less intro!: arg_cong [of _ _ concat] map_cong)
qed

text \<open>Filling a span of rows that are all \<open>True\<close>.\<close>

lemma fill_nothing: "fill_topp_mask_rows ids offsets rs ls 0 vs ve keep = Inr keep"
  by (simp add: fill_topp_mask_rows_def Let_def)

lemma fill_rows:
  assumes ok: "support_ok (ids, offsets)" and pre: "\<forall>row \<in> set pre. length row = v" "\<forall>row \<in> set post. length row = v"
  shows "fill_topp_mask_rows ids offsets (int a) (int (length pre)) (int m) (int (p * v)) (int (p * v + v))
      (pre @ replicate m (replicate v True) @ post) = Inr (pre @ map (keep_row p v (ids, offsets)) [a..<a + m] @ post)"
proof -
  let ?AT = "replicate v True"
  define e where "e = min (a + m) (length offsets - 1)"
  have ne: "offsets \<noteq> []" using ok by (simp add: support_ok_def)
  have stop: "min (int a + int m) (max (int (length offsets) - 1) 0) = int e" using ne by (cases offsets) (simp_all add: e_def)
  show ?thesis
  proof (cases "e \<le> a")
    case True
    then have "keep_row p v (ids, offsets) k = ?AT" if "k \<in> {a..<a + m}" for k using that by (auto simp: keep_row_def e_def min_def split: if_splits)
    then have "map (keep_row p v (ids, offsets)) [a..<a + m] = replicate m ?AT" by (intro nth_equalityI) auto
    then show ?thesis using True by (simp add: fill_topp_mask_rows_def Let_def stop)
  next
    case False
    then have ae: "a < e" "e < length offsets" "e \<le> a + m" using ne by (auto simp: e_def)
    define f where "f r = ragged_row offsets ids (a + r)" for r
    note rr = range_rows [OF ok ae(2,1)]
    define keep where "keep = pre @ replicate (e - a) (replicate v False) @ replicate (a + m - e) ?AT @ post"
    have m: "replicate m ?AT = replicate (e - a) ?AT @ replicate (a + m - e) ?AT" using ae unfolding replicate_add [symmetric] by simp
    define full where "full = pre @ replicate m ?AT @ post"
    define b where "b = length pre + (e - a)"
    have mx: "max (length pre) b = b" by (simp add: b_def)
    have cl: "clamp_index (length full) (int (length pre)) = length pre"
      "clamp_index (length full) (int (length pre) + int e - int a) = b"
      using ae by (auto simp: clamp_index_def full_def b_def)
    have cleared: "take (length pre) full @
        map (map (\<lambda>_. False)) (slice (length pre) b full) @
        drop b full = keep"
      unfolding keep_def full_def b_def m by (simp add: slice_def map_replicate_const)
    have rowv: "length (keep ! i) = v" if "i < length keep" for i
      using pre nth_mem [OF that] unfolding keep_def by auto
    let ?pairs = "concat (map (\<lambda>r. map (Pair r) (f r)) [0..<e - a])"
    have kr: "keep_row p v (ids, offsets) (a + r) = map (\<lambda>j. int (p * v + j) \<in> set (f r)) [0..<v]" if "r < e - a" for r
      using that ae by (auto simp: keep_row_def f_def)
    have fill: "map (\<lambda>i. map (\<lambda>j. keep ! i ! j \<or> (\<exists>row. i = row + length pre \<and> (row, int (p * v + j)) \<in> set ?pairs)) [0..<v]) [0..<length keep] =
        pre @ map (keep_row p v (ids, offsets)) [a..<a + m] @ post"
    proof (rule nth_equalityI)
      show "length (map (\<lambda>i. map (\<lambda>j. keep ! i ! j \<or> (\<exists>row. i = row + length pre \<and> (row, int (p * v + j)) \<in> set ?pairs)) [0..<v]) [0..<length keep]) =
          length (pre @ map (keep_row p v (ids, offsets)) [a..<a + m] @ post)" using ae by (simp add: keep_def)
      fix i assume "i < length (map (\<lambda>i. map (\<lambda>j. keep ! i ! j \<or> (\<exists>row. i = row + length pre \<and> (row, int (p * v + j)) \<in> set ?pairs)) [0..<v]) [0..<length keep])"
      then have i: "i < length keep" by simp
      have new: "(\<exists>row. i = row + length pre \<and> (row, t) \<in> set ?pairs) \<longleftrightarrow> length pre \<le> i \<and> i - length pre < e - a \<and> t \<in> set (f (i - length pre))" for t
        unfolding rows_member by (auto intro!: exI [of _ "i - length pre"])
      have "map (\<lambda>j. keep ! i ! j \<or> (\<exists>row. i = row + length pre \<and> (row, int (p * v + j)) \<in> set ?pairs)) [0..<v] =
          (pre @ map (keep_row p v (ids, offsets)) [a..<a + m] @ post) ! i"
      proof (cases "length pre \<le> i \<and> i - length pre < e - a")
        case True
        then obtain q where q: "i = length pre + q" "q < e - a" by (metis le_add_diff_inverse)
        then have "keep ! i = replicate v False" by (simp add: keep_def nth_append)
        moreover have "(pre @ map (keep_row p v (ids, offsets)) [a..<a + m] @ post) ! i = keep_row p v (ids, offsets) (a + q)"
        proof -
          have "q < m" using q ae by linarith
          then show ?thesis by (simp add: q(1) nth_append)
        qed
        ultimately show ?thesis unfolding new kr [OF q(2)] using q by (auto intro!: nth_equalityI)
      next
        case False
        have "keep ! i = (pre @ map (keep_row p v (ids, offsets)) [a..<a + m] @ post) ! i"
        proof -
          consider "i < length pre" | "length pre + (e - a) \<le> i" "i < length pre + m" | "length pre + m \<le> i" using False by linarith
          then show ?thesis
          proof cases
            case 2
            then have "keep_row p v (ids, offsets) (a + (i - length pre)) = ?AT" using ae by (auto simp: keep_row_def e_def min_def split: if_splits)
            moreover have "\<not> i < length pre" "\<not> i - length pre < e - a" "i - length pre - (e - a) < a + m - e" "i - length pre < m" using 2 ae by linarith+
            ultimately show ?thesis by (simp add: keep_def nth_append)
          next
            case 3
            then have "\<not> i < length pre" "\<not> i - length pre < e - a" "\<not> i - length pre - (e - a) < a + m - e" "\<not> i - length pre < m"
              "i - length pre - (e - a) - (a + m - e) = i - length pre - m" using ae by linarith+
            then show ?thesis by (simp add: keep_def nth_append)
          qed (simp add: keep_def nth_append)
        qed
        moreover have "map (\<lambda>j. keep ! i ! j) [0..<v] = keep ! i" using rowv [OF i] by (auto intro!: nth_equalityI)
        ultimately show ?thesis using False unfolding new by auto
      qed
      then show "map (\<lambda>i. map (\<lambda>j. keep ! i ! j \<or> (\<exists>row. i = row + length pre \<and> (row, int (p * v + j)) \<in> set ?pairs)) [0..<v]) [0..<length keep] ! i =
          (pre @ map (keep_row p v (ids, offsets)) [a..<a + m] @ post) ! i" using i by simp
    qed
    have lt: "row + length pre < length keep" if "(row, t) \<in> set ?pairs" for row t
    proof -
      have "row < e - a" using that unfolding rows_member by blast
      then have "row < m" using ae by linarith
      then show ?thesis using ae by (simp add: keep_def)
    qed
    have scat: "scatter_true (int (length pre)) (int (p * v)) (int (p * v + v)) ?pairs keep = Inr (pre @ map (keep_row p v (ids, offsets)) [a..<a + m] @ post)"
      by (rule trans [OF scatter_true_eq [where v = v]]) (fact lt rowv fill [THEN arg_cong [where f = Inr]])+
    show ?thesis
    proof (cases "concat (map f [0..<e - a]) = []")
      case True
      then have pairs: "?pairs = []" by (auto simp: map_idI)
      have "keep = pre @ map (keep_row p v (ids, offsets)) [a..<a + m] @ post" using scat unfolding pairs by simp
      then show ?thesis using False True unfolding fill_topp_mask_rows_def Let_def stop full_def [symmetric]
        by (simp add: rr(1,2) rr(3) [folded f_def] cl mx cleared del: of_nat_add)
    next
      case nonempty: False
      have lz: "length (concat (map (\<lambda>r. replicate (length (f r)) r) [0..<e - a])) = length (concat (map f [0..<e - a]))"
        by (simp add: length_concat o_def)
      have "py_slice (int a) (int e + 1) offsets = slice a (Suc e) offsets" by (simp add: py_slice_nat nat_add_distrib)
      then show ?thesis using False nonempty scat unfolding fill_topp_mask_rows_def Let_def stop full_def [symmetric]
        by (simp add: rr(1,2) rr(3,4) [folded f_def] cl mx cleared lz zip_replicate_concat del: of_nat_add) blast
    qed
  qed
qed

text \<open>The rows of a sample: the keep-rows of the response where its logits are, nothing masked elsewhere.\<close>

definition keep_rows :: "nat \<Rightarrow> nat \<Rightarrow> int list \<times> int list \<Rightarrow> int \<times> int \<Rightarrow> bool list list" where
  "keep_rows p v supp l = align_values (replicate v True) (fst l) (snd l) (map (keep_row p v supp) [0..<nat (snd l)])"

lemma length_keep_row: "length (keep_row p v supp k) = v"
  by (simp add: keep_row_def)

lemma keep_rows_width: "row \<in> set (keep_rows p v supp l) \<Longrightarrow> length row = v"
  by (auto simp: keep_rows_def align_values_def length_keep_row)

lemma length_keep_rows: "lengths_ok l \<Longrightarrow> int (length (keep_rows p v supp l)) = fst l"
  unfolding keep_rows_def by (rule length_align_values) (auto simp: lengths_ok_def)

lemma slice_map_upt0: "b \<le> n \<Longrightarrow> slice a b (map f [0..<n]) = map f [a..<b]"
  using slice_map_upt [of b n 0 a f] by simp

text \<open>Without context parallelism.\<close>

lemma topp_stream_step:
  assumes ok: "support_ok (ids, offsets)" and lok: "lengths_ok (tot, resp)" and k: "nat tot \<le> k" and pre: "\<forall>row \<in> set pre. length row = v"
  shows "topp_stream (int (p * v)) (int (p * v + v)) (pre @ replicate k (replicate v True), int (length pre)) (ids, offsets, tot, resp) =
    Inr (pre @ keep_rows p v (ids, offsets) (tot, resp) @ replicate (k - nat tot) (replicate v True), int (length pre + nat tot))"
proof -
  let ?AT = "replicate v True"
  define x where "x = nat (tot - resp - 1)"
  define R where "R = nat resp"
  have l: "tot = int (x + R + 1)" "resp = int R" using lok by (auto simp: x_def R_def lengths_ok_def)
  define k' where "k' = k - nat tot"
  have kk: "k = x + (R + (1 + k'))" using k l by (simp add: k'_def)
  have ls: "int (length pre) + tot - resp - 1 = int (length (pre @ replicate x ?AT))" using l by simp
  have "fill_topp_mask_rows ids offsets (int 0) (int (length (pre @ replicate x ?AT))) (int R) (int (p * v)) (int (p * v + v))
      ((pre @ replicate x ?AT) @ replicate R ?AT @ replicate (1 + k') ?AT) =
      Inr ((pre @ replicate x ?AT) @ map (keep_row p v (ids, offsets)) [0..<0 + R] @ replicate (1 + k') ?AT)"
    by (rule fill_rows [OF ok]) (use pre in auto)
  then have "fill_topp_mask_rows ids offsets 0 (int (length pre) + tot - resp - 1) resp (int (p * v)) (int (p * v + v)) (pre @ replicate k ?AT) =
      Inr (pre @ replicate x ?AT @ map (keep_row p v (ids, offsets)) [0..<R] @ ?AT # replicate k' ?AT)"
    unfolding ls unfolding l(2) kk replicate_add by simp
  moreover have "int (length pre) + tot = int (length pre + nat tot)" using l by simp
  ultimately show ?thesis unfolding topp_stream_def prod.case
    by (simp add: keep_rows_def align_values_def x_def R_def k'_def del: of_nat_add of_nat_mult)
qed

lemma topp_stream_fold:
  "list_all2 (\<lambda>supp l. support_ok supp \<and> lengths_ok l) supps ls \<Longrightarrow> sum_list (map (nat \<circ> fst) ls) \<le> k \<Longrightarrow> \<forall>row \<in> set pre. length row = v \<Longrightarrow>
    res_fold (topp_stream (int (p * v)) (int (p * v + v))) (pre @ replicate k (replicate v True), int (length pre))
      (map2 (\<lambda>(ids, offsets) (tot, resp). (ids, offsets, tot, resp)) supps ls) =
    Inr (pre @ concat (map2 (keep_rows p v) supps ls) @ replicate (k - sum_list (map (nat \<circ> fst) ls)) (replicate v True),
      int (length pre + sum_list (map (nat \<circ> fst) ls)))"
proof (induction supps ls arbitrary: pre k rule: list_all2_induct)
  case (Cons supp supps l ls)
  obtain ids offsets where s: "supp = (ids, offsets)" by fastforce
  obtain tot resp where l: "l = (tot, resp)" by fastforce
  have ok: "support_ok (ids, offsets)" "lengths_ok (tot, resp)" using Cons.hyps by (simp_all add: s l)
  have k: "nat tot \<le> k" "sum_list (map (nat \<circ> fst) ls) \<le> k - nat tot" using Cons.prems(1) by (simp_all add: l o_def)
  let ?pre = "pre @ keep_rows p v supp l"
  have lp: "length ?pre = length pre + nat tot" using length_keep_rows [OF ok(2), of p v "(ids, offsets)"] by (simp add: s l)
  have w: "\<forall>row \<in> set ?pre. length row = v" using Cons.prems(2) keep_rows_width unfolding set_append by blast
  show ?case using Cons.IH [OF k(2) w] topp_stream_step [OF ok k(1) Cons.prems(2), of p] lp
    by (simp add: s l add.assoc)
qed simp

text \<open>The pieces of the stream.\<close>

lemma piece_change:
  assumes len: "length pre + R + length post = n * T" and r: "r < n"
    and s: "s = max (length pre) (r * T)" and e: "e = min (length pre + R) (r * T + T)" and lt: "s < e" and mid: "length mid = R" "length mid' = R"
  shows "piece T r (pre @ mid @ post) = slice (r * T) s pre @ slice (s - length pre) (e - length pre) mid @
      slice (e - (length pre + R)) (r * T + T - (length pre + R)) post"
proof -
  have "piece T r (pre @ mid @ post) = slice (r * T) s (pre @ mid @ post) @ slice s e (pre @ mid @ post) @ slice e (r * T + T) (pre @ mid @ post)"
    using s e lt slice_slice_append [of "r * T" s "r * T + T" "pre @ mid @ post"] slice_slice_append [of s e "r * T + T" "pre @ mid @ post"] by simp
  moreover have "slice (r * T) s (pre @ mid @ post) = slice (r * T) s pre"
  proof (cases "r * T \<le> length pre")
    case True
    then show ?thesis using s by (simp add: slice_prefix)
  next
    case False
    then show ?thesis using s by (simp add: slice_def)
  qed
  moreover have "slice s e (pre @ mid @ post) = slice (s - length pre) (e - length pre) mid"
    using s e lt mid by (auto simp: slice_def)
  moreover have "slice e (r * T + T) (pre @ mid @ post) = slice (e - (length pre + R)) (r * T + T - (length pre + R)) post"
    using s e lt mid by (auto simp: slice_def min_def add.commute)
  ultimately show ?thesis by simp
qed

lemma nth_slice: "i < length (slice a b xs) \<Longrightarrow> slice a b xs ! i = xs ! (a + i)"
  by (cases "a \<le> length xs") (simp_all add: slice_def)

lemma piece_same:
  assumes "length mid = R" "length mid' = R" "min (length pre + R) (r * T + T) \<le> max (length pre) (r * T)"
  shows "piece T r (pre @ mid @ post) = piece T r (pre @ mid' @ post)"
proof (rule nth_equalityI)
  fix i assume "i < length (piece T r (pre @ mid @ post))"
  moreover from this have "r * T + i < r * T + T" by simp
  then have "\<not> (length pre \<le> r * T + i \<and> r * T + i < length pre + R)" using assms(3) by linarith
  then have "(pre @ mid @ post) ! (r * T + i) = (pre @ mid' @ post) ! (r * T + i)" using assms(1,2) by (auto simp: nth_append)
  moreover have "length (piece T r (pre @ mid @ post)) = length (piece T r (pre @ mid' @ post))" by (simp add: assms)
  ultimately show "piece T r (pre @ mid @ post) ! i = piece T r (pre @ mid' @ post) ! i" by (simp only: nth_slice)
qed (simp add: assms)

lemma replicate_slice: "slice a b (replicate m d) = replicate (min b m - a) d"
  by (simp add: slice_def min_def)

lemma topp_piece_step:
  assumes ok: "support_ok (ids, offsets)" and lok: "lengths_ok (tot, resp)" and r: "r < n" and total: "length pre + k = n * T" and k: "nat tot \<le> k"
    and pre: "\<forall>row \<in> set pre. length row = v"
  shows "topp_piece (int r * int T) (int r * int T + int T) (int (p * v)) (int (p * v + v))
      (piece T r (pre @ replicate k (replicate v True)), int (length pre)) (ids, offsets, tot, resp) =
    Inr (piece T r (pre @ keep_rows p v (ids, offsets) (tot, resp) @ replicate (k - nat tot) (replicate v True)), int (length pre + nat tot))"
proof -
  let ?AT = "replicate v True"
  define x where "x = nat (tot - resp - 1)"
  define R where "R = nat resp"
  have l: "tot = int (x + R + 1)" "resp = int R" using lok by (auto simp: x_def R_def lengths_ok_def)
  define k' where "k' = k - nat tot"
  have kk: "k = x + (R + (1 + k'))" using k l by (simp add: k'_def)
  define pre' where "pre' = pre @ replicate x ?AT"
  define post where "post = replicate (1 + k') ?AT"
  define mid' where "mid' = map (keep_row p v (ids, offsets)) [0..<R]"
  have lp: "length pre' = length pre + x" by (simp add: pre'_def)
  define s e where "s = max (length pre') (r * T)" and "e = min (length pre' + R) (r * T + T)"
  have pr: "piece_range (int r * int T) (int r * int T + int T) (int (length pre)) tot resp = (int s, int e)"
  proof -
    have "int r * int T = int (r * T)" "int (length pre) + (tot - resp) - 1 = int (length pre')" "int (length pre) + tot - 1 = int (length pre' + R)"
      using l by (simp_all add: lp)
    then show ?thesis unfolding piece_range_def Let_def s_def e_def by (simp only: of_nat_max of_nat_min of_nat_add)
  qed
  have before: "pre @ replicate k ?AT = pre' @ replicate R ?AT @ post" unfolding kk replicate_add pre'_def post_def by simp
  have after: "pre @ keep_rows p v (ids, offsets) (tot, resp) @ replicate k' ?AT = pre' @ mid' @ post"
    by (simp add: keep_rows_def align_values_def pre'_def post_def mid'_def x_def R_def)
  have total': "length pre' + R + length post = n * T" using total kk by (simp add: lp post_def)
  have step: "(if int s < int e then fill_topp_mask_rows ids offsets (int s - (int (length pre) + (tot - resp) - 1)) (int s - int r * int T)
        (int e - int s) (int (p * v)) (int (p * v + v)) (piece T r (pre' @ replicate R ?AT @ post)) else Inr (piece T r (pre' @ replicate R ?AT @ post))) =
      Inr (piece T r (pre' @ mid' @ post))"
  proof (cases "s < e")
    case True
    define P1 P3 where "P1 = slice (r * T) s pre'" and "P3 = slice (e - (length pre' + R)) (r * T + T - (length pre' + R)) post"
    define a where "a = s - length pre'"
    note pc = piece_change [OF total' r s_def e_def True, folded P1_def P3_def]
    have b: "piece T r (pre' @ replicate R ?AT @ post) = P1 @ replicate (e - s) ?AT @ P3"
    proof -
      have "e - length pre' \<le> R" "length pre' \<le> s" by (simp_all add: s_def e_def)
      then have "min (e - length pre') R - (s - length pre') = e - s" by simp
      then show ?thesis using pc [of "replicate R ?AT" mid'] by (simp add: replicate_slice mid'_def)
    qed
    have e': "e - length pre' = a + (e - s)" using True by (simp add: a_def s_def)
    have "e - length pre' \<le> R" by (simp add: e_def)
    then have f: "piece T r (pre' @ mid' @ post) = P1 @ map (keep_row p v (ids, offsets)) [a..<a + (e - s)] @ P3"
      using pc [of mid' mid'] by (simp add: slice_map_upt0 mid'_def e' a_def)
    have "r * T \<le> s" "length pre' \<le> s" by (simp_all add: s_def)
    then have i: "int s - (int (length pre) + (tot - resp) - 1) = int a" "int e - int s = int (e - s)" using l True by (simp_all add: a_def lp)
    have "s \<le> length pre' \<or> s = r * T" by (auto simp: s_def max_def)
    then have lP: "int s - int r * int T = int (length P1)" using \<open>r * T \<le> s\<close> by (auto simp: P1_def min_def)
    have "\<forall>row \<in> set P1. length row = v" "\<forall>row \<in> set P3. length row = v"
      using pre by (auto simp: P1_def P3_def pre'_def post_def slice_def dest!: in_set_takeD in_set_dropD)
    from fill_rows [OF ok this, of a "e - s" p] show ?thesis unfolding i lP b f using True by (simp del: of_nat_add of_nat_mult)
  next
    case False
    have "piece T r (pre' @ replicate R ?AT @ post) = piece T r (pre' @ mid' @ post)"
      using False [unfolded s_def e_def not_less] by (intro piece_same) (simp_all add: mid'_def)
    then show ?thesis using False by simp
  qed
  have "int (length pre) + tot = int (length pre + nat tot)" using l by simp
  then show ?thesis using step unfolding topp_piece_def prod.case Let_def pr before k'_def [symmetric] after by (simp only: prod.case res_bind_Inr)
qed

lemma topp_piece_fold:
  assumes r: "r < n"
  shows "list_all2 (\<lambda>supp l. support_ok supp \<and> lengths_ok l) supps ls \<Longrightarrow> sum_list (map (nat \<circ> fst) ls) \<le> k \<Longrightarrow> length pre + k = n * T \<Longrightarrow>
    \<forall>row \<in> set pre. length row = v \<Longrightarrow>
    res_fold (topp_piece (int r * int T) (int r * int T + int T) (int (p * v)) (int (p * v + v)))
      (piece T r (pre @ replicate k (replicate v True)), int (length pre)) (map2 (\<lambda>(ids, offsets) (tot, resp). (ids, offsets, tot, resp)) supps ls) =
    Inr (piece T r (pre @ concat (map2 (keep_rows p v) supps ls) @ replicate (k - sum_list (map (nat \<circ> fst) ls)) (replicate v True)),
      int (length pre + sum_list (map (nat \<circ> fst) ls)))"
proof (induction supps ls arbitrary: pre k rule: list_all2_induct)
  case (Cons supp supps l ls)
  obtain ids offsets where s: "supp = (ids, offsets)" by fastforce
  obtain tot resp where l: "l = (tot, resp)" by fastforce
  have ok: "support_ok (ids, offsets)" "lengths_ok (tot, resp)" using Cons.hyps by (simp_all add: s l)
  have k: "nat tot \<le> k" "sum_list (map (nat \<circ> fst) ls) \<le> k - nat tot" using Cons.prems(1) by (simp_all add: l o_def)
  let ?pre = "pre @ keep_rows p v supp l"
  have lp: "length ?pre = length pre + nat tot" using length_keep_rows [OF ok(2), of p v "(ids, offsets)"] by (simp add: s l)
  have total: "length ?pre + (k - nat tot) = n * T" using Cons.prems(2) k(1) lp by simp
  have w: "\<forall>row \<in> set ?pre. length row = v" using Cons.prems(3) keep_rows_width unfolding set_append by blast
  show ?case using Cons.IH [OF k(2) total w] topp_piece_step [OF ok r Cons.prems(2) k(1) Cons.prems(3), of p] lp
    by (simp add: s l add.assoc)
qed simp

text \<open>The zigzag chunks.\<close>

lemma fill_half:
  fixes lo c :: nat
  assumes ok: "support_ok (ids, offsets)" and lok: "lengths_ok (tot, resp)"
    and fits: "lo + c \<le> length (keep_rows p v (ids, offsets) (tot, resp) @ replicate m (replicate v True))"
    and ab: "chunk_logits tot (tot - resp) (int lo, int (lo + c)) = (a, b)" and se: "chunk_tokens tot (tot - resp) (int lo, int (lo + c)) = (s, e)"
    and pos: "pos = int (length pre)" and w: "\<forall>row \<in> set pre. length row = v" "\<forall>row \<in> set post. length row = v"
  shows "fill_topp_mask_rows ids offsets (s - (tot - resp)) (pos + a - int lo) (b - a) (int (p * v)) (int (p * v + v)) (pre @ replicate c (replicate v True) @ post) =
    Inr (pre @ slice lo (lo + c) (keep_rows p v (ids, offsets) (tot, resp) @ replicate m (replicate v True)) @ post)"
proof -
  let ?AT = "replicate v True" and ?ch = "(int lo, int (lo + c))"
  define vs where "vs = map (keep_row p v (ids, offsets)) [0..<nat resp]"
  have len: "int (length vs) = resp" using lok by (simp add: vs_def lengths_ok_def)
  have kr: "keep_rows p v (ids, offsets) (tot, resp) = align_values ?AT tot resp vs" by (simp add: keep_rows_def vs_def)
  define src where "src = slice (chunk_lo (tot - resp) ?ch) (chunk_hi tot (tot - resp) ?ch) vs"
  note h = half_rows [OF lok len fits [unfolded kr] ab src_def]
  show ?thesis
  proof (cases "a < b")
    case True
    then obtain x y where xy: "slice lo (lo + c) (align_values ?AT tot resp vs @ replicate m ?AT) = replicate x ?AT @ src @ replicate y ?AT"
      "a = int (lo + x)" "b = int (lo + x + length src)" "x + length src + y = c" using h(1) by blast
    note cl = chunk_logits_slice(4) [OF _ ab True]
    have lo_hi: "a = tot - resp - 1 + int (chunk_lo (tot - resp) ?ch)" "b = tot - resp - 1 + int (chunk_hi tot (tot - resp) ?ch)" using cl by simp_all
    have "s = a + 1" using ab se True by (auto simp: chunk_logits_def chunk_tokens_def Let_def split: if_splits)
    then have s: "s - (tot - resp) = int (chunk_lo (tot - resp) ?ch)" using lo_hi(1) by simp
    have hi: "chunk_hi tot (tot - resp) ?ch = chunk_lo (tot - resp) ?ch + length src" using lo_hi xy(2,3) by linarith
    have "chunk_hi tot (tot - resp) ?ch \<le> nat resp" by (intro nat_mono) auto
    then have src: "src = map (keep_row p v (ids, offsets)) [chunk_lo (tot - resp) ?ch..<chunk_lo (tot - resp) ?ch + length src]"
      unfolding hi [symmetric] by (simp only: src_def vs_def slice_map_upt0)
    have ls: "pos + a - int lo = int (length (pre @ replicate x ?AT))" "b - a = int (length src)" using xy(2,3) pos by simp_all
    have c: "replicate c ?AT = replicate x ?AT @ replicate (length src) ?AT @ replicate y ?AT"
      unfolding xy(4) [symmetric] replicate_add by simp
    have "\<forall>row \<in> set (pre @ replicate x ?AT). length row = v" "\<forall>row \<in> set (replicate y ?AT @ post). length row = v" using w by auto
    from fill_rows [OF ok this, of "chunk_lo (tot - resp) ?ch" "length src" p] show ?thesis
      unfolding s ls kr xy(1) c src [symmetric] by simp
  next
    case False
    then show ?thesis using h(2) unfolding kr by (simp add: fill_nothing)
  qed
qed

lemma zz_rows_width: "\<forall>row \<in> set xs. length row = v \<Longrightarrow> row \<in> set (zz_rows r n (replicate v True) xs) \<Longrightarrow> length row = v"
  by (auto simp: zz_rows_def Let_def slice_def split: if_splits dest!: in_set_takeD in_set_dropD)

lemma topp_zigzag_step:
  assumes ok: "support_ok (ids, offsets)" and lok: "lengths_ok (tot, resp)" and r: "r < n" and n: "1 < n" and pre: "\<forall>row \<in> set pre. length row = v"
    and rows: "rows = zz_rows r n (replicate v True) (keep_rows p v (ids, offsets) (tot, resp))" and room: "length rows \<le> k"
  shows "topp_zigzag (int r) (int n) (int (p * v)) (int (p * v + v)) (pre @ replicate k (replicate v True), int (length pre)) (ids, offsets, tot, resp) =
    Inr (pre @ rows @ replicate (k - length rows) (replicate v True), int (length (pre @ rows)))"
proof -
  let ?AT = "replicate v True"
  define xs where "xs = keep_rows p v (ids, offsets) (tot, resp)"
  have xl: "int (length xs) = tot" using length_keep_rows [OF lok] by (simp add: xs_def)
  obtain c q m where z: "zz_rows r n ?AT xs = slice (c * r) (c * r + c) (xs @ replicate m ?AT) @ slice q (q + c) (xs @ replicate m ?AT)"
    "c * r + c \<le> length (xs @ replicate m ?AT)" "q + c \<le> length (xs @ replicate m ?AT)"
    "(tot + 2 * int n - 1) div (2 * int n) = int c" "first_chunk (int r) (int n) tot = (int (c * r), int (c * r + c))"
    "second_chunk (int r) (int n) tot = (int q, int (q + c))" by (rule zz_halves [OF r n xl])
  define h0 where "h0 = slice (c * r) (c * r + c) (xs @ replicate m ?AT)"
  define h1 where "h1 = slice q (q + c) (xs @ replicate m ?AT)"
  have rows': "rows = h0 @ h1" by (simp add: rows xs_def [symmetric] z(1) h0_def h1_def)
  have hl: "length h0 = c" "length h1 = c" using z(2,3) unfolding h0_def h1_def length_slice by linarith+
  define k' where "k' = k - (c + c)"
  have k: "k = c + (c + k')" using room by (simp add: rows' hl k'_def)
  have wr: "\<forall>row \<in> set rows. length row = v" using zz_rows_width keep_rows_width unfolding rows by blast
  obtain a0 b0 where l0: "chunk_logits tot (tot - resp) (int (c * r), int (c * r + c)) = (a0, b0)" by fastforce
  obtain a1 b1 where l1: "chunk_logits tot (tot - resp) (int q, int (q + c)) = (a1, b1)" by fastforce
  obtain s0 e0 where t0: "chunk_tokens tot (tot - resp) (int (c * r), int (c * r + c)) = (s0, e0)" by fastforce
  obtain s1 e1 where t1: "chunk_tokens tot (tot - resp) (int q, int (q + c)) = (s1, e1)" by fastforce
  have first: "fill_topp_mask_rows ids offsets (s0 - (tot - resp)) (int (length pre) + a0 - int (c * r)) (b0 - a0) (int (p * v)) (int (p * v + v))
      (pre @ replicate k ?AT) = Inr (pre @ h0 @ replicate (c + k') ?AT)"
    unfolding k replicate_add h0_def xs_def
    by (rule fill_half [OF ok lok z(2) [unfolded xs_def] l0 t0 refl pre]) auto
  have second: "fill_topp_mask_rows ids offsets (s1 - (tot - resp)) (int (length pre) + int c + a1 - int q) (b1 - a1) (int (p * v)) (int (p * v + v))
      (pre @ h0 @ replicate (c + k') ?AT) = Inr (pre @ h0 @ h1 @ replicate k' ?AT)"
  proof -
    have "int (length pre) + int c = int (length (pre @ h0))" by (simp add: hl)
    moreover have "\<forall>row \<in> set (pre @ h0). length row = v" using pre wr by (auto simp: rows')
    moreover have "\<forall>row \<in> set (replicate k' ?AT). length row = v" by auto
    ultimately have "fill_topp_mask_rows ids offsets (s1 - (tot - resp)) (int (length pre) + int c + a1 - int q) (b1 - a1) (int (p * v)) (int (p * v + v))
        ((pre @ h0) @ replicate c ?AT @ replicate k' ?AT) = Inr ((pre @ h0) @ h1 @ replicate k' ?AT)"
      unfolding h1_def xs_def by (rule fill_half [OF ok lok z(3) [unfolded xs_def] l1 t1])
    then show ?thesis by (simp only: replicate_add append_assoc)
  qed
  have "topp_zigzag (int r) (int n) (int (p * v)) (int (p * v + v)) (pre @ replicate k ?AT, int (length pre)) (ids, offsets, tot, resp) =
      Inr (pre @ h0 @ h1 @ replicate k' ?AT, int (length pre) + 2 * int c)"
    using n by (simp add: topp_zigzag_def offsets_eq z(4-6) l0 l1 t0 t1 Let_def first second del: of_nat_add of_nat_mult)
  then show ?thesis by (simp add: rows' hl k'_def)
qed

lemma topp_zigzag_fold:
  assumes r: "r < n" and n: "1 < n"
  shows "list_all2 (\<lambda>supp l. support_ok supp \<and> lengths_ok l) supps ls \<Longrightarrow>
    length (zz_stream r n (replicate v True) (map2 (keep_rows p v) supps ls)) \<le> k \<Longrightarrow> \<forall>row \<in> set pre. length row = v \<Longrightarrow>
    \<exists>pos. res_fold (topp_zigzag (int r) (int n) (int (p * v)) (int (p * v + v)))
      (pre @ replicate k (replicate v True), int (length pre)) (map2 (\<lambda>(ids, offsets) (tot, resp). (ids, offsets, tot, resp)) supps ls) =
    Inr (pre @ zz_stream r n (replicate v True) (map2 (keep_rows p v) supps ls) @
      replicate (k - length (zz_stream r n (replicate v True) (map2 (keep_rows p v) supps ls))) (replicate v True), pos)"
proof (induction supps ls arbitrary: pre k rule: list_all2_induct)
  case (Cons supp supps l ls)
  obtain ids offsets where s: "supp = (ids, offsets)" by fastforce
  obtain tot resp where l: "l = (tot, resp)" by fastforce
  have ok: "support_ok (ids, offsets)" "lengths_ok (tot, resp)" using Cons.hyps by (simp_all add: s l)
  define rows where "rows = zz_rows r n (replicate v True) (keep_rows p v (ids, offsets) (tot, resp))"
  have k: "length rows \<le> k" "length (zz_stream r n (replicate v True) (map2 (keep_rows p v) supps ls)) \<le> k - length rows"
    using Cons.prems(1) by (simp_all add: zz_stream_def rows_def s l)
  have "\<forall>row \<in> set rows. length row = v" using zz_rows_width keep_rows_width unfolding rows_def by blast
  then have w: "\<forall>row \<in> set (pre @ rows). length row = v" using Cons.prems(2) by auto
  show ?case using Cons.IH [OF k(2) w] topp_zigzag_step [OF ok r n Cons.prems(2) rows_def k(1)]
    by (auto simp: s l zz_stream_def rows_def [symmetric] add.assoc)
qed (simp add: zz_stream_def)

lemma build_topp_keep_mask_eq:
  assumes r: "r < n" and ok: "list_all2 (\<lambda>supp l. support_ok supp \<and> lengths_ok l) supps ls" and room: "room_for ag n T (map (nat \<circ> fst) ls)"
  shows "build_topp_keep_mask (int p) (int r) (int n) ag T v (map2 (\<lambda>(ids, offsets) (tot, resp). (ids, offsets, tot, resp)) supps ls) =
    Inr (packed ag n T r (replicate v True) (map2 (keep_rows p v) supps ls))"
proof -
  have vs: "int p * int v = int (p * v)" "int (p * v) + int v = int (p * v + v)" by simp_all
  have lens: "map length (map2 (keep_rows p v) supps ls) = map (nat \<circ> fst) ls"
    using ok
  proof (induction supps ls rule: list_all2_induct)
    case (Cons supp supps l ls)
    then have "length (keep_rows p v supp l) = nat (fst l)" using length_keep_rows [of l p v supp] by simp
    then show ?case using Cons.IH by simp
  qed simp
  have room': "room_for ag n T (map length (map2 (keep_rows p v) supps ls))" unfolding lens by (rule room)
  consider "1 < n" "\<not> ag" | "n = 1" "\<not> ag" | "ag" using r by linarith
  then show ?thesis
  proof cases
    case 1
    have "length (zz_stream r n (replicate v True) (map2 (keep_rows p v) supps ls)) \<le> T" using room' 1(2) by (intro room_stream [OF r]) (simp only:)
    from topp_zigzag_fold [OF r 1(1) ok this, of "[]"] show ?thesis using 1 by (auto simp: build_topp_keep_mask_def Let_def vs packed_def simp del: of_nat_add of_nat_mult)
  next
    case 2
    have z: "zz_stream r n (replicate v True) (map2 (keep_rows p v) supps ls) = concat (map2 (keep_rows p v) supps ls)"
      using 2(1) by (rule zz_stream_one)
    have l: "length (concat (map2 (keep_rows p v) supps ls)) = sum_list (map (nat \<circ> fst) ls)" unfolding length_concat lens ..
    have "sum_list (map (nat \<circ> fst) ls) \<le> T" using room 2 by (simp add: room_for_def o_def)
    from topp_stream_fold [OF ok this, of "[]" v p] show ?thesis unfolding packed_def z l using 2
      by (simp add: build_topp_keep_mask_def Let_def vs del: of_nat_add of_nat_mult)
  next
    case 3
    have l: "length (concat (map2 (keep_rows p v) supps ls)) = sum_list (map (nat \<circ> fst) ls)" unfolding length_concat lens ..
    have "sum_list (map (nat \<circ> fst) ls) \<le> n * T" using room 3 by (simp add: room_for_def)
    from topp_piece_fold [OF r ok this, of "[]" T v p]
    have "res_fold (topp_piece (int r * int T) (int r * int T + int T) (int (p * v)) (int (p * v + v)))
        (piece T r (replicate (n * T) (replicate v True)), 0) (map2 (\<lambda>(ids, offsets) (tot, resp). (ids, offsets, tot, resp)) supps ls) =
        Inr (piece T r (concat (map2 (keep_rows p v) supps ls) @ replicate (n * T - sum_list (map (nat \<circ> fst) ls)) (replicate v True)),
          int (sum_list (map (nat \<circ> fst) ls)))" by (simp del: of_nat_add of_nat_mult)
    moreover have "piece T r (replicate (n * T) (replicate v True)) = replicate T (replicate v True)"
      using r mult_le_mono1 [of "Suc r" n T] by (simp add: replicate_slice min_def)
    ultimately show ?thesis unfolding packed_def l using 3
      by (simp add: build_topp_keep_mask_def Let_def vs del: of_nat_add of_nat_mult)
  qed
qed

end
