(* ===== verification/Log_Prob_Layout.thy ===== *)
theory Log_Prob_Layout
  imports Keep_Mask
begin

text \<open>
  What the layouts come to: the log-probabilities and entropies \<open>get_log_probs_and_entropy\<close> returns do not depend on the
  layout of the micro-batch, and \<open>get_batch\<close> packs a micro-batch in the layout they are extracted from.
\<close>

section \<open>The log-probabilities of the responses\<close>

text \<open>The reference: what one sample contributes, from its response tokens, the model's logits over the whole vocabulary for
  them, and its recorded support, if there is one.\<close>

definition kept_tokens :: "nat \<Rightarrow> (int list \<times> int list) option \<Rightarrow> nat \<Rightarrow> int \<Rightarrow> nat set" where
  "kept_tokens V supp k t = {c. c < V \<and> (case supp of None \<Rightarrow> True
     | Some (ids, offsets) \<Rightarrow> length offsets \<le> Suc k \<or> int c \<in> set (ragged_row offsets ids k) \<or> int c = t)}"

definition response_log_probs :: "nat \<Rightarrow> real \<Rightarrow> (int list \<times> int list) option \<Rightarrow> int list \<Rightarrow> real list list \<Rightarrow> real list" where
  "response_log_probs V temperature supp toks rows =
     map (\<lambda>k. token_log_prob (kept_tokens V supp k (toks ! k)) (nat (toks ! k)) (\<lambda>c. rows ! k ! c / temperature)) [0..<length rows]"

definition response_entropies :: "nat \<Rightarrow> real \<Rightarrow> real list list \<Rightarrow> real list" where
  "response_entropies V temperature rows = map (\<lambda>k. entropy_of {..<V} (\<lambda>c. rows ! k ! c / temperature)) [0..<length rows]"

text \<open>The rows a rank's tensor-parallel group holds together.\<close>

definition whole_rows :: "nat \<Rightarrow> real list list list \<Rightarrow> real list list" where
  "whole_rows T shards = map (\<lambda>j. concat (map (\<lambda>shard. shard ! j) shards)) [0..<T]"

definition sample_log_probs ::
  "nat \<Rightarrow> real \<Rightarrow> (int list \<times> int list) list option \<Rightarrow> resp_sample list \<Rightarrow> real list list list \<Rightarrow> real list list" where
  "sample_log_probs V temperature top_p samples rows =
     map (\<lambda>s. response_log_probs V temperature (map_option (\<lambda>supps. supps ! s) top_p) (resp_tokens (samples ! s)) (rows ! s)) [0..<length samples]"

text \<open>What is assumed of a micro-batch: its tokens lie in the vocabulary and its supports are valid, its rows fit the padded
  length, and every rank holds the logits of its part of the packed responses, in any content elsewhere.\<close>

definition batch_ok :: "nat \<Rightarrow> resp_sample list \<Rightarrow> (int list \<times> int list) list option \<Rightarrow> bool" where
  "batch_ok V samples top_p \<longleftrightarrow> (\<forall>s \<in> set samples. sample_ok s \<and> (\<forall>t \<in> set (fst s). 0 \<le> t \<and> t < int V)) \<and>
     (case top_p of None \<Rightarrow> True | Some supps \<Rightarrow> length supps = length samples \<and> (\<forall>supp \<in> set supps. support_ok supp))"

definition logits_ok ::
  "bool \<Rightarrow> nat \<Rightarrow> nat \<Rightarrow> nat \<Rightarrow> nat \<Rightarrow> (int \<times> int) list \<Rightarrow> real list list list \<Rightarrow> real list list list list \<Rightarrow> bool" where
  "logits_ok allgather_cp n T tp v ls rows logits \<longleftrightarrow> 0 < T \<and> 0 < tp \<and> 0 < v \<and> length logits = n \<and> fits_lengths ls rows \<and>
     room_for allgather_cp n T (map (nat \<circ> fst) ls) \<and>
     (\<forall>q < n. group_shape tp T v (logits ! q) \<and> holds_at_responses allgather_cp n T q ls rows (whole_rows T (logits ! q)))"

lemma labels_range:
  assumes "r < n" "\<forall>l \<in> set ls. lengths_ok l" "room_for ag n T (map (nat \<circ> fst) ls)" "j < T" "response_at ag n T r ls ! j = Some (s, k)"
  shows "s < length ls" "k < nat (snd (ls ! s))"
proof -
  have "list_all2 (list_all2 (\<lambda>x _. \<forall>s k. x = Some (s, k) \<longrightarrow> s < length ls \<and> k < nat (snd (ls ! s)))) (all_labels ls) (all_labels ls)"
    by (auto simp: list_all2_same all_labels_def row_labels_def align_values_def)
  then have "list_all2 (\<lambda>x _. \<forall>s k. x = Some (s, k) \<longrightarrow> s < length ls \<and> k < nat (snd (ls ! s))) (response_at ag n T r ls) (response_at ag n T r ls)"
    unfolding response_at_def by (rule packed_rel) simp
  then show "s < length ls" "k < nat (snd (ls ! s))"
    using response_at_length [OF assms(1-3)] assms(4,5) by (auto simp: list_all2_conv_all_nth)
qed

lemma scaled_logits:
  assumes "group_shape tp T v shards"
  shows "group_shape tp T v (map (scale_logits True temperature) shards)"
    and "p < tp \<Longrightarrow> j < T \<Longrightarrow> c < v \<Longrightarrow> map (scale_logits True temperature) shards ! p ! j ! c = shards ! p ! j ! c / temperature"
  using assms by (auto simp: group_shape_def scale_logits_def)

lemma whole_row_entry:
  assumes "group_shape tp T v shards" "j < T" "c < tp * v"
  shows "whole_rows T shards ! j ! c = full_row v shards j c"
proof -
  have len: "length (shards ! p ! j) = v" if "p < tp" for p using group_shapeD(3) [OF assms(1) that assms(2)] .
  have "map (\<lambda>shard. shard ! j) shards = map (\<lambda>p. shards ! p ! j) [0..<tp]"
    using group_shapeD(1) [OF assms(1)] by (intro nth_equalityI) simp_all
  then have w: "whole_rows T shards ! j = concat (map (\<lambda>p. shards ! p ! j) [0..<tp])" using assms(2) by (simp add: whole_rows_def)
  have l: "length (concat (map (\<lambda>p. shards ! p ! j) [0..<tp])) = tp * v" by (rule length_concat_columns [OF len])
  note p = nth_pieces [OF assms(3) l]
  have "piece v (c div v) (concat (map (\<lambda>p. shards ! p ! j) [0..<tp])) = shards ! (c div v) ! j"
    by (rule piece_columns [OF p(2) len])
  then show ?thesis by (simp only: w p(1) full_row_def)
qed

lemma packed_all:
  assumes "\<And>xs x. xs \<in> set xss \<Longrightarrow> x \<in> set xs \<Longrightarrow> P x" "P d" "x \<in> set (packed ag n T r d xss)"
  shows "P x"
proof -
  have "list_all2 (list_all2 (\<lambda>x _. P x)) xss xss" using assms(1) by (simp add: list_all2_same)
  then have "list_all2 (\<lambda>x _. P x) (packed ag n T r d xss) (packed ag n T r d xss)" by (rule packed_rel) (rule assms(2))
  then show "P x" using assms(3) by (simp add: list_all2_same)
qed

lemma targets_of_tokens: "t \<in> set (targets_of n ag s) \<Longrightarrow> t \<in> set (fst s) \<or> t = 0"
  by (cases s) (auto simp: targets_of_def aligned_tokens_def align_values_def next_tokens_def resp_tokens_def split: if_splits dest: in_set_dropD)

lemma keep_rows_held:
  assumes q: "q < n" and room: "room_for ag n T (map (nat \<circ> fst) ls)" and ok: "list_all2 (\<lambda>supp l. support_ok supp \<and> lengths_ok l) supps ls"
  shows "holds_at_responses ag n T q ls (map (\<lambda>s. map (keep_row p v (supps ! s)) [0..<nat (snd (ls ! s))]) [0..<length ls])
    (packed ag n T q (replicate v True) (map2 (keep_rows p v) supps ls))"
proof (rule holds_packed [OF q room])
  have l: "length supps = length ls" using ok by (rule list_all2_lengthD)
  show "length (map2 (keep_rows p v) supps ls) = length ls" using l by simp
  fix s assume s: "s < length ls"
  have lok: "lengths_ok (ls ! s)" using list_all2_nthD2 [OF ok s] by simp
  moreover have "int (length (map (keep_row p v (supps ! s)) [0..<nat (snd (ls ! s))])) = snd (ls ! s)" using lok by (simp add: lengths_ok_def)
  ultimately have "resp_part (fst (ls ! s)) (snd (ls ! s)) (keep_rows p v (supps ! s) (ls ! s)) = map (keep_row p v (supps ! s)) [0..<nat (snd (ls ! s))]"
    unfolding keep_rows_def by (intro resp_part_align) simp_all
  then show "lengths_ok (ls ! s) \<and> int (length (map2 (keep_rows p v) supps ls ! s)) = fst (ls ! s) \<and>
      resp_part (fst (ls ! s)) (snd (ls ! s)) (map2 (keep_rows p v) supps ls ! s) =
        map (\<lambda>s. map (keep_row p v (supps ! s)) [0..<nat (snd (ls ! s))]) [0..<length ls] ! s"
    using s l lok length_keep_rows by simp
qed

lemma support_kept:
  assumes "0 < v" "0 \<le> t" and row: "\<And>p. p < tp \<Longrightarrow> ks ! p ! j = keep_row p v supp k"
  shows "support tp v (Some ks) j (nat t) = kept_tokens (tp * v) (Some supp) k t"
proof -
  have "full_row v ks j c \<longleftrightarrow> length (snd supp) \<le> Suc k \<or> int c \<in> set (ragged_row (snd supp) (fst supp) k)" if c: "c < tp * v" for c
  proof -
    have m: "c mod v < v" using assms(1) by simp
    have "ks ! (c div v) ! j = keep_row (c div v) v supp k" by (rule row [OF less_mult_imp_div_less [OF c]])
    then have "full_row v ks j c = keep_row (c div v) v supp k ! (c mod v)" by (simp only: full_row_def)
    moreover have "int (c div v * v + c mod v) = int c" by (simp only: div_mult_mod_eq)
    ultimately show ?thesis using m by (simp only: keep_row_def nth_map_upt [of "c mod v" v 0] nth_replicate add_0 diff_zero if_distrib [of "\<lambda>xs. xs ! (c mod v)"] not_less [symmetric] if_bool_eq_disj) auto
  qed
  then show ?thesis using assms(2) by (cases supp) (auto simp: support_def kept_tokens_def)
qed

lemma local_columns:
  fixes samples :: "resp_sample list" and top_p :: "(int list \<times> int list) list option"
  defines "ls \<equiv> map snd samples"
  assumes sums: "sums_ranks all_sum" and maxes: "maxes_ranks all_max" and q: "q < n" and args: "la_cp_size args = n"
    and ok: "batch_ok (tp * v) samples top_p" and logits: "logits_ok (la_allgather_cp args) n T tp v ls rows logits" and buf: "length buf = T"
  shows "\<exists>lps ents. local_log_probs_and_entropy args all_max all_sum (int q) we (logits ! q) samples top_p buf =
      extract_per_sample (int q) (int n) (la_allgather_cp args) lps (if we then Some ents else None) ls \<and>
    holds_at_responses (la_allgather_cp args) n T q ls (sample_log_probs (tp * v) (la_temperature args) top_p samples rows) lps \<and>
    holds_at_responses (la_allgather_cp args) n T q ls (map (response_entropies (tp * v) (la_temperature args)) rows) ents"
proof -
  let ?ag = "la_allgather_cp args" and ?V = "tp * v" and ?temp = "la_temperature args"
  define scaled where "scaled = map (scale_logits True ?temp) (logits ! q)"
  have tp: "0 < tp" "0 < v" "0 < T" and room: "room_for ?ag n T (map (nat \<circ> fst) ls)" and fit: "fits_lengths ls rows"
    and shape: "group_shape tp T v (logits ! q)" and hold: "holds_at_responses ?ag n T q ls rows (whole_rows T (logits ! q))"
    using logits q by (auto simp: logits_ok_def)
  have sok: "sample_ok s" "t \<in> set (fst s) \<Longrightarrow> 0 \<le> t \<and> t < int ?V" if "s \<in> set samples" for s t using ok that by (auto simp: batch_ok_def)
  have lok: "\<forall>l \<in> set ls. lengths_ok l" using sok(1) by (force simp: ls_def sample_ok_def)
  have sshape: "group_shape tp T v scaled" unfolding scaled_def by (rule scaled_logits [OF shape])
  note sh = group_shapeD [OF sshape]
  have T: "length (hd scaled) = T" using sh(1) sh(2) [OF tp(1)] tp(1) by (cases scaled) auto
  have width: "shard_width (scaled ! p) = v" if "p < tp" for p
    using sh(2) [OF that] sh(3) [OF that tp(3)] tp(3) by (cases "scaled ! p") (auto simp: shard_width_def)
  define tgts where "tgts = packed ?ag n T q 0 (map (targets_of n ?ag) samples)"
  have tlen: "map (length \<circ> targets_of n ?ag) samples = map (nat \<circ> fst) ls"
    unfolding ls_def using length_targets_of sok(1) by (auto simp: nat_eq_iff2 [symmetric] intro!: map_cong) (metis nat_int)
  have build: "build_shifted_tokens (int q) (int n) ?ag T samples = Inr tgts"
    unfolding tgts_def by (rule build_shifted_tokens_eq [OF q]) (use sok(1) tlen room in auto)
  have tl: "length tgts = T" unfolding tgts_def by (rule length_packed [OF q]) (use tlen room in simp)
  have ht: "holds_at_responses ?ag n T q ls (map resp_tokens samples) tgts"
    unfolding tgts_def
  proof (rule holds_packed [OF q room])
    fix s assume "s < length ls"
    then have s: "s < length samples" by (simp add: ls_def)
    obtain tokens tot resp where e: "samples ! s = (tokens, tot, resp)" by (cases "samples ! s")
    have "sample_ok (tokens, tot, resp)" using sok(1) [OF nth_mem [OF s]] by (simp add: e)
    then show "lengths_ok (ls ! s) \<and> int (length (map (targets_of n ?ag) samples ! s)) = fst (ls ! s) \<and>
        resp_part (fst (ls ! s)) (snd (ls ! s)) (map (targets_of n ?ag) samples ! s) = map resp_tokens samples ! s"
      using s length_targets_of [of "samples ! s" n ?ag] resp_part_targets [of tokens tot resp n ?ag]
      by (simp add: ls_def e) (simp add: sample_ok_def)
  qed (simp add: ls_def)
  have range: "0 \<le> t \<and> t < int ?V" if "t \<in> set tgts" for t
  proof (rule packed_all [where P = "\<lambda>t. 0 \<le> t \<and> t < int ?V", OF _ _ that [unfolded tgts_def]])
    fix xs x assume "xs \<in> set (map (targets_of n ?ag) samples)" "x \<in> set xs"
    then obtain s where s: "s \<in> set samples" "x \<in> set (fst s) \<or> x = 0" using targets_of_tokens by fastforce
    from s(2) show "0 \<le> x \<and> x < int ?V"
    proof
      assume "x \<in> set (fst s)"
      from sok(2) [OF s(1) this] show ?thesis .
    qed (use tp in simp)
  qed (use tp in auto)
  have supp: "list_all2 (\<lambda>supp l. support_ok supp \<and> lengths_ok l) supps ls" if "top_p = Some supps" for supps
    using ok that lok by (auto simp: batch_ok_def list_all2_conv_all_nth ls_def)
  define keeps where "keeps = map_option (\<lambda>supps. map (\<lambda>p. packed ?ag n T q (replicate v True) (map2 (keep_rows p v) supps ls)) [0..<tp]) top_p"
  have kmask: "(case top_p of None \<Rightarrow> Inr None
      | Some supps \<Rightarrow> res_bind (res_map (\<lambda>p. build_topp_keep_mask (int p) (int q) (int n) ?ag T (shard_width (scaled ! p))
            (map2 (\<lambda>(ids, offsets) (tot, resp). (ids, offsets, tot, resp)) supps ls)) [0..<length scaled])
            (\<lambda>keeps. Inr (Some keeps))) = Inr keeps"
  proof (cases top_p)
    case (Some supps)
    have "res_map (\<lambda>p. build_topp_keep_mask (int p) (int q) (int n) ?ag T (shard_width (scaled ! p))
            (map2 (\<lambda>(ids, offsets) (tot, resp). (ids, offsets, tot, resp)) supps ls)) [0..<length scaled] =
        Inr (map (\<lambda>p. packed ?ag n T q (replicate v True) (map2 (keep_rows p v) supps ls)) [0..<length scaled])"
      using build_topp_keep_mask_eq [OF q supp [OF Some] room] width sh(1) by (intro res_map_Inr_ball) simp
    then show ?thesis by (simp add: Some keeps_def sh(1))
  qed (simp add: keeps_def)
  have kshape: "group_shape tp T v ks" if ks: "keeps = Some ks" for ks
  proof -
    obtain supps where supps: "top_p = Some supps" "ks = map (\<lambda>p. packed ?ag n T q (replicate v True) (map2 (keep_rows p v) supps ls)) [0..<tp]"
      using ks by (auto simp: keeps_def)
    have len: "length (packed ?ag n T q (replicate v True) (map2 (keep_rows p v) supps ls)) = T" for p
      using keep_rows_held [OF q room supp [OF supps(1)], of p v] by (simp add: holds_at_responses_def)
    have row: "length row = v" if "row \<in> set (packed ?ag n T q (replicate v True) (map2 (keep_rows p v) supps ls))" for p row
      by (rule packed_all [OF _ _ that]) (use keep_rows_width in \<open>auto simp: in_set_zip split: prod.splits\<close>)
    have "length (packed ?ag n T q (replicate v True) (map2 (keep_rows p v) supps ls) ! i) = v" if "i < T" for p i
      by (rule row) (rule nth_mem, simp only: len that)
    then show ?thesis by (simp add: group_shape_def supps(2) len)
  qed
  have sok': "shards_ok tp T v keeps tgts scaled"
    using tp sshape kshape tl range nth_mem by (auto simp: shards_ok_def split: option.split)
  let ?t = "\<lambda>i. nat (tgts ! i)"
  define lps where "lps = map (\<lambda>i. token_log_prob (support tp v keeps i (?t i)) (?t i) (full_row v scaled i)) [0..<T]"
  define ents where "ents = map (\<lambda>i. entropy_of {..<?V} (full_row v scaled i)) [0..<T]"
  have "local_log_probs_and_entropy args all_max all_sum (int q) we (logits ! q) samples top_p buf =
      extract_per_sample (int q) (int n) ?ag lps (if we then Some ents else None) ls"
    by (simp only: local_log_probs_and_entropy_def Let_def args scaled_def [symmetric] T ls_def [symmetric] build kmask
        calculate_log_probs_eq [OF sums maxes sok' buf] res_bind_Inr prod.case lps_def ents_def)
  moreover have "lps ! j = sample_log_probs ?V ?temp top_p samples rows ! s ! k \<and> ents ! j = map (response_entropies ?V ?temp) rows ! s ! k"
    if j: "j < T" and lab: "response_at ?ag n T q ls ! j = Some (s, k)" for j s k
  proof -
    have s: "s < length ls" "k < nat (snd (ls ! s))" by (rule labels_range [OF q lok room j lab])+
    then have sl: "s < length samples" "s < length rows" "k < length (rows ! s)" using fit by (auto simp: fits_lengths_def ls_def)
    have t: "tgts ! j = resp_tokens (samples ! s) ! k" using ht j lab sl by (simp add: holds_at_responses_def)
    have row: "whole_rows T (logits ! q) ! j = rows ! s ! k" using hold j lab by (simp add: holds_at_responses_def)
    have t0: "0 \<le> tgts ! j" "nat (tgts ! j) < ?V"
    proof -
      have "tgts ! j \<in> set tgts" using tl j by simp
      from range [OF this] show "0 \<le> tgts ! j" "nat (tgts ! j) < ?V" by (simp_all only: nat_less_iff)
    qed
    have f: "full_row v scaled j c = rows ! s ! k ! c / ?temp" if c: "c < ?V" for c
      using whole_row_entry [OF shape j c] row scaled_logits(2) [OF shape less_mult_imp_div_less [OF c] j, of "c mod v" ?temp] tp(2)
      by (simp add: full_row_def scaled_def)
    have "support tp v keeps j (nat (tgts ! j)) = kept_tokens ?V (map_option (\<lambda>supps. supps ! s) top_p) k (tgts ! j)"
    proof (cases top_p)
      case None
      then show ?thesis by (simp add: keeps_def support_def kept_tokens_def)
    next
      case (Some supps)
      define ks where "ks = map (\<lambda>p. packed ?ag n T q (replicate v True) (map2 (keep_rows p v) supps ls)) [0..<tp]"
      have "ks ! p ! j = keep_row p v (supps ! s) k" if "p < tp" for p
        using keep_rows_held [OF q room supp [OF Some], of p v] j lab s that by (simp add: holds_at_responses_def ks_def)
      from support_kept [OF tp(2) t0(1) this] show ?thesis by (simp add: Some keeps_def ks_def)
    qed
    moreover have "c < ?V" if "c \<in> support tp v keeps j (nat (tgts ! j))" for c using that by (simp add: support_def)
    ultimately have "lps ! j = token_log_prob (kept_tokens ?V (map_option (\<lambda>supps. supps ! s) top_p) k (tgts ! j)) (nat (tgts ! j)) (\<lambda>c. rows ! s ! k ! c / ?temp)"
      using j t0 support_target [OF t0(2)] f unfolding lps_def by (simp, intro token_log_prob_cong) auto
    moreover have "ents ! j = entropy_of {..<?V} (\<lambda>c. rows ! s ! k ! c / ?temp)"
      using j f token_prob_cong [of "{..<?V}" "full_row v scaled j" "\<lambda>c. rows ! s ! k ! c / ?temp"] by (simp add: ents_def entropy_of_def)
    ultimately show ?thesis using sl by (simp add: sample_log_probs_def response_log_probs_def response_entropies_def t)
  qed
  then have "holds_at_responses ?ag n T q ls (sample_log_probs ?V ?temp top_p samples rows) lps"
    "holds_at_responses ?ag n T q ls (map (response_entropies ?V ?temp) rows) ents"
    unfolding holds_at_responses_def by (auto simp: lps_def ents_def)
  ultimately show ?thesis by blast
qed

lemma fits_sample_log_probs: "fits_lengths (map snd samples) rows \<Longrightarrow> fits_lengths (map snd samples) (sample_log_probs V t top_p samples rows)"
  by (auto simp: fits_lengths_def sample_log_probs_def response_log_probs_def)

lemma fits_entropies: "fits_lengths ls rows \<Longrightarrow> fits_lengths ls (map (response_entropies V t) rows)"
  by (auto simp: fits_lengths_def response_entropies_def)

text \<open>C31: Whatever the layout (no context parallelism, zigzag chunks, or one piece of the stream per rank), the number of
  context- and tensor-parallel ranks and the chunk size, a rank's log-probabilities of a sample are its context-parallel
  part of the log-probabilities of the sample's response tokens under the model's softmax, at the rollout temperature and
  within the recorded top-p support of each token, and the entropies are its part of the entropies of the whole softmax.\<close>

theorem log_probs_layout_independent:
  assumes "sums_ranks all_sum" "maxes_ranks all_max" "r < n" "la_cp_size args = n"
    and "batch_ok (tp * v) samples top_p" "logits_ok (la_allgather_cp args) n T tp v (map snd samples) rows logits" "length buf = T"
    and "la_temperature args \<noteq> 0"
  shows "get_log_probs_and_entropy args all_max all_sum r we logits samples top_p buf =
    Inr (map2 (\<lambda>(tot, resp) xs. cp_local r n tot xs) (map snd samples) (sample_log_probs (tp * v) (la_temperature args) top_p samples rows),
      if we then Some (map2 (\<lambda>(tot, resp) xs. cp_local r n tot xs) (map snd samples) (map (response_entropies (tp * v) (la_temperature args)) rows)) else None)"
proof -
  let ?ag = "la_allgather_cp args" and ?V = "tp * v" and ?temp = "la_temperature args"
  define ls where "ls = map snd samples"
  define lp where "lp = sample_log_probs ?V ?temp top_p samples rows"
  define en where "en = map (response_entropies ?V ?temp) rows"
  have n: "0 < n" "length logits = n" using assms(3,6) by (auto simp: logits_ok_def)
  have fit: "fits_lengths ls rows" and room: "room_for ?ag n T (map (nat \<circ> fst) ls)" using assms(6) by (simp_all add: logits_ok_def ls_def)
  have lok: "\<forall>l \<in> set ls. lengths_ok l" using assms(5) by (force simp: ls_def batch_ok_def sample_ok_def)
  have fits: "fits_lengths ls lp" "fits_lengths ls en"
    using fit by (simp_all add: lp_def en_def ls_def fits_sample_log_probs fits_entropies)
  have "\<exists>lps ents. local_log_probs_and_entropy args all_max all_sum (int q) we (logits ! q) samples top_p buf =
      extract_per_sample (int q) (int n) ?ag lps (if we then Some ents else None) ls \<and>
    holds_at_responses ?ag n T q ls lp lps \<and> holds_at_responses ?ag n T q ls en ents" if "q < n" for q
    unfolding ls_def lp_def en_def by (rule local_columns [OF assms(1,2) that assms(4,5,6,7)])
  then obtain lps ents where cols: "\<And>q. q < n \<Longrightarrow> local_log_probs_and_entropy args all_max all_sum (int q) we (logits ! q) samples top_p buf =
      extract_per_sample (int q) (int n) ?ag (lps q) (if we then Some (ents q) else None) ls"
    "\<And>q. q < n \<Longrightarrow> holds_at_responses ?ag n T q ls lp (lps q)" "\<And>q. q < n \<Longrightarrow> holds_at_responses ?ag n T q ls en (ents q)"
    by metis
  let ?cut = "\<lambda>vals. map2 (\<lambda>l xs. cp_local r n (fst l) xs) ls vals"
  have "get_log_probs_and_entropy args all_max all_sum r we logits samples top_p buf = Inr (?cut lp, if we then Some (?cut en) else None)"
  proof (cases ?ag)
    case False
    then have "extract_rows (int r) (int n) False (lps r) 0 ls = Inr (?cut lp)" "extract_rows (int r) (int n) False (ents r) 0 ls = Inr (?cut en)"
      using extract_held [OF assms(3) lok _ fits(1), of T "lps r"] extract_held [OF assms(3) lok _ fits(2), of T "ents r"] room cols(2,3) [OF assms(3)] by simp_all
    then show ?thesis using cols(1) [OF assms(3)] False
      by (simp add: get_log_probs_and_entropy_def Let_def extract_per_sample_def)
  next
    case True
    obtain a where a: "\<forall>q < n. \<forall>m. extract_rows (int q) m True (lps q) 0 ls = Inr (a q)"
      "allgather_cp_redistribute all_sum (int r) (int T) (map a [0..<n]) ls = Inr (?cut lp)"
      using redistribute_held [OF assms(1,3) lok _ fits(1), of T lps] room cols(2) True by auto
    obtain b where b: "\<forall>q < n. \<forall>m. extract_rows (int q) m True (ents q) 0 ls = Inr (b q)"
      "allgather_cp_redistribute all_sum (int r) (int T) (map b [0..<n]) ls = Inr (?cut en)"
      using redistribute_held [OF assms(1,3) lok _ fits(2), of T ents] room cols(3) True by auto
    have local: "local_log_probs_and_entropy args all_max all_sum (int q) we (logits ! q) samples top_p buf = Inr (a q, if we then b q else [])" if "q < n" for q
      using cols(1) [OF that] a(1) b(1) that True by (simp add: extract_per_sample_def)
    have group: "res_map (\<lambda>q. local_log_probs_and_entropy args all_max all_sum (int q) we (logits ! q) samples top_p buf) [0..<length logits] =
        Inr (map (\<lambda>q. (a q, if we then b q else [])) [0..<n])"
      unfolding n(2) using local by (intro res_map_Inr_ball) simp
    have T: "length (hd (logits ! r)) = T"
    proof -
      have g: "group_shape tp T v (logits ! r)" "0 < tp" using assms(3,6) by (auto simp: logits_ok_def)
      show ?thesis using group_shapeD(1) [OF g(1)] group_shapeD(2) [OF g] g(2) by (cases "logits ! r") auto
    qed
    have ab: "map fst (map (\<lambda>q. (a q, if we then b q else [])) [0..<n]) = map a [0..<n]"
      "we \<Longrightarrow> map snd (map (\<lambda>q. (a q, if we then b q else [])) [0..<n]) = map b [0..<n]" by simp_all
    show ?thesis using a(2) b(2) True local [OF assms(3)] ab(2)
      by (simp add: get_log_probs_and_entropy_def Let_def group T ls_def [symmetric] ab(1) del: map_map)
  qed
  then show ?thesis by (simp add: ls_def lp_def en_def case_prod_beta)
qed

section \<open>The packing of a micro-batch\<close>

lemma align_mask_values: "lengths_ok (int tot, int resp) \<Longrightarrow> align_mask tot resp m = align_values 0 (int tot) (int resp) m"
  by (auto simp: align_mask_def align_values_def lengths_ok_def nat_diff_distrib')

lemma pad_amount: "0 < m \<Longrightarrow> m dvd len + pad_amount m len" "0 < m \<Longrightarrow> pad_amount m len < m"
proof -
  assume m: "0 < m"
  show "pad_amount m len < m" using m by (simp add: pad_amount_def)
  have "m dvd len + (m - len mod m)"
  proof -
    have "len + (m - len mod m) = len div m * m + m" using m mod_less_divisor [OF m, of len] div_mult_mod_eq [of len m] by linarith
    then show ?thesis by simp
  qed
  moreover have "(len + pad_amount m len) mod m = (len + (m - len mod m)) mod m" by (simp add: pad_amount_def mod_add_right_eq)
  ultimately show "m dvd len + pad_amount m len" by (simp add: dvd_eq_mod_eq_0)
qed

lemma chunk_at_piece:
  assumes "r < n" "length xs = n * T" "0 < T"
  shows "chunk_at n r xs = Inr (piece T r xs)"
proof -
  have "n * T + n - 1 = n - 1 + T * n" using assms(1) by (simp add: mult.commute)
  then have "(n * T + n - 1) div n = T + (n - 1) div n" using assms(1) by (simp only: div_mult_self1)
  then have c: "(length xs + n - 1) div n = T" using assms(1,2) by simp
  have "r * T < n * T" using assms(1,3) by simp
  then show ?thesis using assms(1,2) unfolding chunk_at_def Let_def c by (auto simp: algebra_simps)
qed

lemma last_cu: "cu \<noteq> [] \<Longrightarrow> last (foldl (\<lambda>cu n. cu @ [last cu + n]) cu ns) = last cu + sum_list ns \<and> foldl (\<lambda>cu n. cu @ [last cu + n]) cu ns \<noteq> []"
  by (induction ns arbitrary: cu) (simp_all add: add.assoc)

lemma last_cu_seqlens: "last (cu_seqlens lens pad) = sum_list lens + pad \<and> cu_seqlens lens pad \<noteq> []"
  using last_cu [of "[0 :: nat]" lens] by (simp add: cu_seqlens_def Let_def)

lemma length_cu: "length (foldl (\<lambda>cu n. cu @ [last cu + n]) cu ns) = length cu + length ns"
  by (induction ns arbitrary: cu) simp_all

lemma length_cu_seqlens: "length (cu_seqlens lens pad) = Suc (length lens) + of_bool (pad \<noteq> 0)"
  by (simp add: cu_seqlens_def Let_def length_cu)

definition packed_length :: "bool \<Rightarrow> nat \<Rightarrow> nat \<Rightarrow> nat list \<Rightarrow> nat" where
  "packed_length allgather_cp n pad_size lens =
     (if allgather_cp then (sum_list lens + pad_amount (n * pad_size) (sum_list lens)) div n
      else let m = (\<Sum>l\<leftarrow>lens. if n = 1 then l else 2 * ((l + 2 * n - 1) div (2 * n))) in m + pad_amount pad_size m)"

lemma pack_tokens_packed:
  fixes xss :: "'a list list" and ag :: bool
  assumes r: "r < n" and pad: "0 < pad_size" and ne: "concat xss \<noteq> []"
  defines "T \<equiv> packed_length ag n pad_size (map length xss)"
  shows "\<exists>cu p. pack_tokens r n pad_size ag d xss = Inr (packed ag n T r d xss, p, cu) \<and> last cu = n * T \<and> length xss < length cu \<and>
      (\<forall>masks. map (\<lambda>(m, tot, resp). length (align_mask tot resp m)) masks = map length xss \<longrightarrow>
        pack_masks r n ag p masks = Inr (packed ag n T r 0 (map (\<lambda>(m, tot, resp). align_mask tot resp m) masks)))"
    and "pad_size dvd T" "room_for ag n T (map length xss)" "0 < T"
proof -
  have n: "0 < n" using r by simp
  let ?L = "length (concat xss)"
  have L: "?L = sum_list (map length xss)" by (rule length_concat)
  have L0: "0 < ?L" using ne unfolding length_greater_0_conv .
  have "(\<exists>cu p. pack_tokens r n pad_size ag d xss = Inr (packed ag n T r d xss, p, cu) \<and> last cu = n * T \<and> length xss < length cu \<and>
      (\<forall>masks. map (\<lambda>(m, tot, resp). length (align_mask tot resp m)) masks = map length xss \<longrightarrow>
        pack_masks r n ag p masks = Inr (packed ag n T r 0 (map (\<lambda>(m, tot, resp). align_mask tot resp m) masks)))) \<and>
    pad_size dvd T \<and> room_for ag n T (map length xss) \<and> 0 < T"
  proof (cases ag)
    case True
    define p where "p = pad_amount (n * pad_size) ?L"
    have np: "0 < n * pad_size" using n pad by simp
    obtain k where k: "?L + p = n * pad_size * k" using pad_amount(1) [OF np, of ?L] unfolding p_def by (elim dvdE)
    have T: "T = pad_size * k" "?L + p = n * T"
      using k n True by (simp_all add: T_def packed_length_def L [symmetric] p_def [symmetric] mult.assoc)
    have T0: "0 < T" using T(2) L0 by (cases T) auto
    have pT: "n * T - ?L = p" using T(2) by linarith
    have pk: "packed True n T r e yss = piece T r (concat yss @ replicate p e)" if "length (concat yss) = ?L" for e :: 'b and yss
      using that pT by (simp add: packed_def)
    have chunk: "chunk_at n r (concat yss @ replicate p e) = Inr (packed True n T r e yss)" if "length (concat yss) = ?L" for e :: 'b and yss
      unfolding pk [OF that] by (rule chunk_at_piece [OF r _ T0]) (use T(2) that in simp)
    have "pack_tokens r n pad_size True d xss = Inr (packed True n T r d xss, p, cu_seqlens (map length xss) p)"
      using np chunk [OF refl, of d] unfolding pack_tokens_def Let_def p_def by simp
    moreover have "pack_masks r n True p masks = Inr (packed True n T r 0 (map (\<lambda>(m, tot, resp). align_mask tot resp m) masks))"
      if "map (\<lambda>(m, tot, resp). length (align_mask tot resp m)) masks = map length xss" for masks
    proof -
      have "length (concat (map (\<lambda>(m, tot, resp). align_mask tot resp m) masks)) = ?L"
        unfolding L that [symmetric] length_concat map_map by (intro arg_cong [of _ _ sum_list] map_cong) auto
      from chunk [OF this, of 0] show ?thesis by (simp add: pack_masks_def)
    qed
    moreover have "pad_size dvd T" using T(1) by simp
    moreover have "room_for True n T (map length xss)" using T(2) L by (simp add: room_for_def)
    moreover have "last (cu_seqlens (map length xss) p) = n * T" using last_cu_seqlens [of "map length xss" p] T(2) L by simp
    ultimately show ?thesis using True T0 by (intro conjI exI [of _ "cu_seqlens (map length xss) p"] exI [of _ p]) (simp_all add: length_cu_seqlens)
  next
    case False
    let ?z = "\<lambda>l. if n = 1 then l else 2 * ((l + 2 * n - 1) div (2 * n))"
    have zl: "length (zz_stream r n e yss) = (\<Sum>l\<leftarrow>map length yss. ?z l)" for e :: 'b and yss
      unfolding zz_stream_def length_concat map_map o_def by (simp only: length_zz_rows [OF r])
    define m where "m = (\<Sum>l\<leftarrow>map length xss. ?z l)"
    define p where "p = pad_amount pad_size m"
    have T: "T = m + p" using False by (simp add: T_def packed_length_def Let_def m_def p_def)
    have pk: "packed False n T r e yss = zz_stream r n e yss @ replicate p e" if "map length yss = map length xss" for e :: 'b and yss
      using zl [of e yss] that T by (simp add: packed_def m_def)
    have sl: "res_map (slice_with_cp r n (pad_constant e)) yss = Inr (map (zz_rows r n e) yss)" for e :: 'b and yss
      by (intro res_map_Inr_ball) (simp add: slice_with_cp_rows [OF n])
    have lz: "length (zz_stream r n d xss) = m" unfolding m_def by (rule zl)
    have lm: "sum_list (map length (map (zz_rows r n d) xss)) = m" using zl [of d xss] by (simp add: zz_stream_def length_concat m_def)
    have "pack_tokens r n pad_size False d xss = Inr (packed False n T r d xss, p, map (\<lambda>off. off * n) (cu_seqlens (map length (map (zz_rows r n d) xss)) p))"
      using pad unfolding pack_tokens_def sl pk [OF refl] by (simp add: Let_def zz_stream_def [symmetric] lz p_def)
    moreover have "pack_masks r n False p masks = Inr (packed False n T r 0 (map (\<lambda>(m, tot, resp). align_mask tot resp m) masks))"
      if "map (\<lambda>(m, tot, resp). length (align_mask tot resp m)) masks = map length xss" for masks
    proof -
      have "map length (map (\<lambda>(m, tot, resp). align_mask tot resp m) masks) = map length xss"
        unfolding that [symmetric] map_map by (intro map_cong) auto
      from pk [OF this, of 0] show ?thesis by (simp add: pack_masks_def sl zz_stream_def)
    qed
    moreover have "pad_size dvd T" unfolding T p_def by (rule pad_amount(1) [OF pad])
    moreover have "room_for False n T (map length xss)" using T by (simp add: room_for_def m_def)
    moreover have "0 < T"
    proof -
      obtain xs where xs: "xs \<in> set xss" "0 < length xs" using ne by auto
      have "0 < ?z (length xs)" proof -
        have "2 * n \<le> length xs + 2 * n - 1" using xs(2) by linarith
        then have "0 < zz_chunk n xs" using n unfolding div_greater_zero_iff by simp
        then show ?thesis using xs(2) by (cases "n = 1") simp_all
      qed
      moreover have "?z (length xs) \<le> m" unfolding m_def using xs(1) by (intro member_le_sum_list) auto
      ultimately show ?thesis using T by linarith
    qed
    moreover have "last (map (\<lambda>off. off * n) (cu_seqlens (map length (map (zz_rows r n d) xss)) p)) = n * T"
      using last_cu_seqlens [of "map length (map (zz_rows r n d) xss)" p] lm T by (simp add: last_map)
    ultimately show ?thesis using False
      by (intro conjI exI [of _ "map (\<lambda>off. off * n) (cu_seqlens (map length (map (zz_rows r n d) xss)) p)"] exI [of _ p]) (simp_all add: length_cu_seqlens)
  qed
  then show "\<exists>cu p. pack_tokens r n pad_size ag d xss = Inr (packed ag n T r d xss, p, cu) \<and> last cu = n * T \<and> length xss < length cu \<and>
      (\<forall>masks. map (\<lambda>(m, tot, resp). length (align_mask tot resp m)) masks = map length xss \<longrightarrow>
        pack_masks r n ag p masks = Inr (packed ag n T r 0 (map (\<lambda>(m, tot, resp). align_mask tot resp m) masks)))"
    "pad_size dvd T" "room_for ag n T (map length xss)" "0 < T" by blast+
qed

text \<open>The aligned masks of a micro-batch: they stand as the responses do, with the lengths of the samples.\<close>

lemma aligned_masks:
  assumes "\<forall>s \<in> set samples. sample_ok s" "fits_lengths (map snd samples) masks" "s < length samples"
  shows "align_mask (nat (fst (snd (samples ! s)))) (nat (snd (snd (samples ! s)))) (masks ! s) =
      align_values 0 (fst (snd (samples ! s))) (snd (snd (samples ! s))) (masks ! s)"
    and "length (align_values 0 (fst (snd (samples ! s))) (snd (snd (samples ! s))) (masks ! s)) = length (fst (samples ! s))"
    and "lengths_ok (snd (samples ! s))" "int (length (fst (samples ! s))) = fst (snd (samples ! s))" "int (length (masks ! s)) = snd (snd (samples ! s))"
proof -
  obtain toks tot resp where l: "samples ! s = (toks, tot, resp)" by (cases "samples ! s")
  have ok: "lengths_ok (tot, resp)" "int (length toks) = tot" using bspec [OF assms(1) nth_mem [OF assms(3)]] by (auto simp: l sample_ok_def)
  have len: "int (length (masks ! s)) = resp" using assms(2,3) by (auto simp: fits_lengths_def l)
  have "0 \<le> tot" "0 \<le> resp" "lengths_ok (int (nat tot), int (nat resp))" using ok(1) by (auto simp: lengths_ok_def)
  then show "align_mask (nat (fst (snd (samples ! s)))) (nat (snd (snd (samples ! s)))) (masks ! s) =
      align_values 0 (fst (snd (samples ! s))) (snd (snd (samples ! s))) (masks ! s)"
    using align_mask_values [of "nat tot" "nat resp" "masks ! s"] by (simp add: l)
  have "int (length (align_values 0 tot resp (masks ! s))) = tot" by (rule length_align_values) (use ok len in simp_all)
  then show "length (align_values 0 (fst (snd (samples ! s))) (snd (snd (samples ! s))) (masks ! s)) = length (fst (samples ! s))"
    using ok(2) by (simp add: l)
qed (use bspec [OF assms(1) nth_mem [OF assms(3)]] assms(2,3) in \<open>auto simp: sample_ok_def fits_lengths_def\<close>)

lemma aligned_masks_zero:
  fixes xss :: "int list list"
  assumes "length xss = length ls" "fits_lengths ls masks"
    and "\<And>s. s < length ls \<Longrightarrow> xss ! s = align_values 0 (fst (ls ! s)) (snd (ls ! s)) (masks ! s)"
    and "length (packed ag n T r 0 xss) = T" "j < T" "response_at ag n T r ls ! j = None"
  shows "packed ag n T r 0 xss ! j = 0"
proof -
  let ?rel = "\<lambda>x q. q = None \<longrightarrow> x = (0 :: int)"
  have "list_all2 (list_all2 ?rel) xss (all_labels ls)"
  proof (rule list_all2_all_nthI)
    show "length xss = length (all_labels ls)" using assms(1) by (simp add: all_labels_def)
    fix s assume "s < length xss"
    then have s: "s < length ls" using assms(1) by simp
    have "all_labels ls ! s = align_values None (fst (ls ! s)) (snd (ls ! s)) (map (\<lambda>k. Some (s, k)) [0..<nat (snd (ls ! s))])"
      using s by (simp add: all_labels_def row_labels_def)
    moreover have "list_all2 ?rel (masks ! s) (map (\<lambda>k. Some (s, k)) [0..<nat (snd (ls ! s))])"
      using assms(2) s by (auto simp: list_all2_conv_all_nth fits_lengths_def)
    ultimately show "list_all2 ?rel (xss ! s) (all_labels ls ! s)"
      unfolding assms(3) [OF s] align_values_def by (simp add: list_all2_appendI replicate_rel)
  qed
  then have "list_all2 ?rel (packed ag n T r 0 xss) (response_at ag n T r ls)"
    unfolding response_at_def by (rule packed_rel) simp
  from list_all2_nthD [OF this] show ?thesis using assms(4-6) by simp
qed

text \<open>C32: The micro-batch a rank gets is packed in the layout the log-probabilities are extracted from: its tokens are the
  rank's part of the padded stream (or of every sample's zigzag chunks), of the same length, a multiple of the padding size,
  on every rank, the offsets end at the length of the whole stream, and the loss mask stands at the rows that predict the
  masked tokens and is 0 at every other row.\<close>

theorem get_batch_layout:
  fixes ag :: bool
  assumes "r < n" "0 < tp_size * pad_multiplier" "samples \<noteq> []"
    and "\<forall>s \<in> set samples. sample_ok s" "fits_lengths (map snd samples) masks"
  defines "ls \<equiv> map snd samples" and "T \<equiv> packed_length ag n (tp_size * pad_multiplier) (map (length \<circ> fst) samples)"
  shows "\<exists>batch. get_batch r n tp_size pad_multiplier ag (map fst samples) (map2 (\<lambda>m (tot, resp). (m, nat tot, nat resp)) masks ls) = Inr batch \<and>
    pb_tokens batch = packed ag n T r 0 (map fst samples) \<and> length (pb_tokens batch) = T \<and> tp_size * pad_multiplier dvd T \<and>
    last (pb_cu_seqlens batch) = n * T \<and>
    holds_at_responses ag n T r ls masks (pb_full_loss_masks batch) \<and>
    (\<forall>j < T. response_at ag n T r ls ! j = None \<longrightarrow> pb_full_loss_masks batch ! j = 0)"
proof -
  let ?xss = "map fst samples" and ?masks = "map2 (\<lambda>m (tot, resp). (m, nat tot, nat resp)) masks ls"
  let ?aligned = "map (\<lambda>(m, tot, resp). align_mask tot resp m) ?masks"
  note am = aligned_masks [OF assms(4,5)]
  have len: "length masks = length samples" using assms(5) by (simp add: fits_lengths_def)
  have al: "?aligned ! s = align_values 0 (fst (ls ! s)) (snd (ls ! s)) (masks ! s)" if "s < length samples" for s
    using am(1) [OF that] that len by (simp add: ls_def case_prod_beta)
  have alen: "length (?aligned ! s) = length (?xss ! s)" if "s < length samples" for s
    using al [OF that] am(2) [OF that] that by (simp add: ls_def)
  have la: "map length ?aligned = map length ?xss"
    by (rule nth_equalityI) (use alen len in \<open>simp_all add: ls_def del: map_map\<close>)
  have "map (\<lambda>(m, tot, resp). length (align_mask tot resp m)) ?masks = map length ?aligned" unfolding map_map by (intro map_cong) auto
  then have ml: "map (\<lambda>(m, tot, resp). length (align_mask tot resp m)) ?masks = map length ?xss" using la by (rule trans)
  obtain s0 where s0: "s0 \<in> set samples" using assms(3) by (cases samples) auto
  then have "fst s0 \<noteq> []" using assms(4) by (force simp: sample_ok_def lengths_ok_def)
  then have ne: "concat ?xss \<noteq> []" using s0 by auto
  have Tx: "T = packed_length ag n (tp_size * pad_multiplier) (map length ?xss)" by (simp add: T_def o_def)
  note pt = pack_tokens_packed(1) [OF assms(1,2) ne, where ag = ag and d = 0, folded Tx] pack_tokens_packed(2-4) [OF assms(1,2) ne, where ag = ag, folded Tx]
  obtain cu p where cu: "pack_tokens r n (tp_size * pad_multiplier) ag 0 ?xss = Inr (packed ag n T r 0 ?xss, p, cu)" "last cu = n * T" "length ?xss < length cu"
    and pm: "pack_masks r n ag p ?masks = Inr (packed ag n T r 0 ?aligned)" using pt(1) ml by blast
  have lens: "length (packed ag n T r 0 ?xss) = T" "length (packed ag n T r 0 ?aligned) = T"
    by (rule length_packed [OF assms(1)], simp only: pt(3) la)+
  have "length (map2 (\<lambda>a b. b - a) (butlast cu) (tl cu)) \<noteq> 0" using cu(3) assms(3) by (cases samples) auto
  then have "map2 (\<lambda>a b. b - a) (butlast cu) (tl cu) \<noteq> []" unfolding length_0_conv .
  then obtain batch where batch: "get_batch r n tp_size pad_multiplier ag ?xss ?masks = Inr batch" "pb_tokens batch = packed ag n T r 0 ?xss"
    "pb_cu_seqlens batch = cu" "pb_full_loss_masks batch = packed ag n T r 0 ?aligned"
    using cu(1) pm lens by (auto simp: get_batch_def Let_def)
  have "map (nat \<circ> fst) ls = map length ?xss" by (rule nth_equalityI) (use am(4) in \<open>auto simp: ls_def simp flip: am(4)\<close>)
  then have room: "room_for ag n T (map (nat \<circ> fst) ls)" using pt(3) by simp
  have hold: "holds_at_responses ag n T r ls masks (packed ag n T r 0 ?aligned)"
  proof (rule holds_packed [OF assms(1) room])
    show "length ?aligned = length ls" using len by (simp add: ls_def)
    fix s assume "s < length ls"
    then have s: "s < length samples" by (simp add: ls_def)
    have "resp_part (fst (ls ! s)) (snd (ls ! s)) (?aligned ! s) = masks ! s"
      unfolding al [OF s] using am(3,5) [OF s] s by (cases "ls ! s") (auto simp: ls_def intro!: resp_part_align)
    then show "lengths_ok (ls ! s) \<and> int (length (?aligned ! s)) = fst (ls ! s) \<and> resp_part (fst (ls ! s)) (snd (ls ! s)) (?aligned ! s) = masks ! s"
      using am(3,4) [OF s] alen [OF s] s by (simp add: ls_def)
  qed
  have zero: "packed ag n T r 0 ?aligned ! j = 0" if "j < T" "response_at ag n T r ls ! j = None" for j
    by (rule aligned_masks_zero [OF _ _ _ lens(2) that]) (use assms(5) len al in \<open>simp_all add: ls_def\<close>)
  show ?thesis using batch cu(2) lens(1) pt(2) hold zero by (intro exI [of _ batch]) simp
qed

section \<open>Witnesses\<close>

text \<open>One sample of three tokens in zigzag chunks on two context-parallel ranks, two tensor-parallel ranks with one token
  each, and a support that keeps one token for the first response token and both for the second.\<close>

definition layout_demo_args :: logprob_args where
  "layout_demo_args = \<lparr>la_cp_size = 2, la_allgather_cp = False, la_temperature = 2, la_log_probs_chunk_size = 1, la_entropy_coef = 0\<rparr>"

definition layout_demo_samples :: "resp_sample list" where
  "layout_demo_samples = [([0, 1, 1], 3, 2)]"

definition layout_demo_supports :: "(int list \<times> int list) list" where
  "layout_demo_supports = [([1, 0, 1], [0, 1, 3])]"

definition layout_demo_ranks :: "real list list list list" where
  "layout_demo_ranks = [[[[1], [7]], [[2], [7]]], [[[3], [7]], [[4], [7]]]]"

definition layout_demo_rows :: "real list list list" where
  "layout_demo_rows = [[[1, 2], [3, 4]]]"

lemma layout_demo_batch_ok: "batch_ok (2 * 1) layout_demo_samples (Some layout_demo_supports)"
  by (simp add: batch_ok_def layout_demo_samples_def layout_demo_supports_def sample_ok_def lengths_ok_def support_ok_def sorted_offsets_def
      All_less_Suc numeral_2_eq_2)

lemma layout_demo_labels: "response_at False 2 2 q [(3, 2)] = (if q = 0 then [Some (0, 0), None] else [Some (0, 1), None])" if "q < 2"
proof -
  from that have "q = 0 \<or> q = 1" by linarith
  then show ?thesis by (auto simp: response_at_def packed_def all_labels_def row_labels_def align_values_def zz_stream_def zz_rows_def slice_def
      numeral_2_eq_2 Let_def)
qed

lemma layout_demo_logits_ok: "logits_ok False 2 2 2 1 (map snd layout_demo_samples) layout_demo_rows layout_demo_ranks"
  by (auto simp: logits_ok_def layout_demo_samples_def layout_demo_rows_def layout_demo_ranks_def fits_lengths_def room_for_def group_shape_def
      holds_at_responses_def layout_demo_labels whole_rows_def less_2_cases_iff)

theorem log_probs_layout_independent_witness:
  "\<exists>res. get_log_probs_and_entropy layout_demo_args col_max vec_sum 1 True layout_demo_ranks layout_demo_samples (Some layout_demo_supports) [0, 0] = Inr res \<and>
     length (fst res) = 1"
  using log_probs_layout_independent [OF vec_sum_sums_ranks col_max_maxes _ _ layout_demo_batch_ok, of 1 2 layout_demo_args 2 layout_demo_rows layout_demo_ranks "[0, 0]" True]
    layout_demo_logits_ok
  by (simp add: layout_demo_args_def layout_demo_samples_def sample_log_probs_def)

theorem get_batch_layout_witness:
  "\<exists>batch. get_batch 1 2 1 4 False [[5, 6, 7, 8, 9]] [([1, 1, 0], 5, 3)] = Inr batch \<and> 4 dvd length (pb_tokens batch)"
  using get_batch_layout [of 1 2 1 4 "[([5, 6, 7, 8, 9], 5, 3)]" "[[1, 1, 0]]" False]
  by (auto simp: sample_ok_def lengths_ok_def fits_lengths_def)



end
