(* ===== verification/Response_Rows.thy ===== *)
theory Response_Rows
  imports Log_Prob_Layout
begin

text \<open>
  What \<open>get_responses\<close> (\<open>loss.py\<close>) gives a rank: the rows that predict the response tokens the rank holds, in every layout of
  the micro-batch; and the values read off them by \<open>get_values\<close>.
\<close>

section \<open>The rows of a sample are those the extraction takes\<close>

lemma index_select_in:
  "\<forall>i \<in> set idx. 0 \<le> i \<and> i < int (length xs) \<Longrightarrow> index_select idx xs = Inr (map (\<lambda>i. xs ! nat i) idx)"
  unfolding index_select_def by (intro res_map_Inr_ball) auto

lemma range_slice:
  assumes "0 \<le> x" "x \<le> y" "y \<le> int (length xs)"
  shows "map (\<lambda>i. xs ! nat i) [x..y - 1] = py_slice x y xs" "int (length (py_slice x y xs)) = y - x"
proof -
  have p: "py_slice x y xs = slice (nat x) (nat y) xs" using assms by (intro py_slice_nat) auto
  show l: "int (length (py_slice x y xs)) = y - x" unfolding p using assms by simp
  show "map (\<lambda>i. xs ! nat i) [x..y - 1] = py_slice x y xs"
  proof (rule nth_equalityI)
    show "length (map (\<lambda>i. xs ! nat i) [x..y - 1]) = length (py_slice x y xs)" using l by simp
    fix i assume "i < length (map (\<lambda>i. xs ! nat i) [x..y - 1])"
    then have i: "x + int i \<le> y - 1" "nat x + i < nat y" using assms by auto
    have "[x..y - 1] ! i = x + int i" using i(1) by (rule nth_upto)
    moreover have "nat (x + int i) = nat x + i" using assms(1) by linarith
    ultimately have "nat ([x..y - 1] ! i) = nat x + i" by simp
    with \<open>i < length (map (\<lambda>i. xs ! nat i) [x..y - 1])\<close> show "map (\<lambda>i. xs ! nat i) [x..y - 1] ! i = py_slice x y xs ! i"
      unfolding p using i assms(3) by (simp add: slice_nth nth_upto)
  qed
qed

lemma chunk_logits_range:
  assumes "chunk_logits tot prompt (lo, hi) = (a, b)" "lo \<le> hi"
  shows "a \<le> b" "a < b \<Longrightarrow> lo \<le> a \<and> b \<le> hi" "\<not> a < b \<Longrightarrow> a = 0 \<and> b = 0"
  using assms by (auto simp: chunk_logits_def Let_def split: if_splits)

text \<open>One half of a zigzag sample: the selected rows.\<close>

lemma half_selected:
  assumes ab: "chunk_logits tot prompt (lo, hi) = (a, b)" "lo \<le> hi" and fits: "0 \<le> pos" "pos + (hi - lo) \<le> int (length xs)"
  shows "map (\<lambda>i. xs ! nat i) [pos + a - lo..pos + b - lo - 1] = py_slice (pos + (a - lo)) (pos + (b - lo)) xs"
    "\<forall>i \<in> set [pos + a - lo..pos + b - lo - 1]. 0 \<le> i \<and> i < int (length xs)"
    "int (length [pos + a - lo..pos + b - lo - 1]) = b - a"
proof -
  note r = chunk_logits_range [OF ab]
  have eq: "pos + a - lo = pos + (a - lo)" "pos + b - lo - 1 = pos + (b - lo) - 1" by simp_all
  show "int (length [pos + a - lo..pos + b - lo - 1]) = b - a" using r(1) by simp
  show "\<forall>i \<in> set [pos + a - lo..pos + b - lo - 1]. 0 \<le> i \<and> i < int (length xs)" using r fits by (cases "a < b") auto
  show "map (\<lambda>i. xs ! nat i) [pos + a - lo..pos + b - lo - 1] = py_slice (pos + (a - lo)) (pos + (b - lo)) xs"
  proof (cases "a < b")
    case True
    then show ?thesis unfolding eq using r fits by (intro range_slice(1)) auto
  next
    case False
    then show ?thesis using r(3) by simp
  qed
qed

lemma chunk_tokens_length:
  assumes ok: "sample_ok (tokens, tot, resp)" and le: "fst ch \<le> snd ch" and se: "chunk_tokens tot (tot - resp) ch = (s, e)"
    and ab: "chunk_logits tot (tot - resp) ch = (a, b)"
  shows "int (length (py_slice s e tokens)) = b - a"
proof -
  have "chunk_hi tot (tot - resp) ch \<le> length (resp_tokens (tokens, tot, resp))"
    using length_resp_tokens [OF ok] by linarith
  then have "chunk_hi tot (tot - resp) ch - chunk_lo (tot - resp) ch \<le> length (resp_tokens (tokens, tot, resp)) - chunk_lo (tot - resp) ch"
    by (rule diff_le_mono)
  then have "length (py_slice s e tokens) = nat (b - a)"
    unfolding token_slice [OF ok le se] chunk_logits_slice(2) [OF le ab] by (simp add: min.absorb1)
  then show ?thesis using chunk_logits_slice(3) [OF le ab] by simp
qed

lemma response_chunk_rows:
  assumes r: "r < n" and ok: "sample_ok (tokens, tot, resp)"
    and x: "extract_one (int r) (int n) (ag \<and> 1 < n) xs pos (tot, resp) = Inr (x, pos')"
    and off: "n = 1 \<or> \<not> ag \<Longrightarrow> offset = pos" and start: "ag \<Longrightarrow> seq_start = pos"
    and room: "n \<noteq> 1 \<Longrightarrow> \<not> ag \<Longrightarrow> 0 \<le> pos \<and> pos + 2 * ((tot + 2 * int n - 1) div (2 * int n)) \<le> int (length xs)"
  shows "\<exists>offset' toks. response_chunk (int r) (int n) ag xs offset seq_start (tokens, tot, resp) = Inr (offset', x, toks) \<and> (n = 1 \<or> \<not> ag \<longrightarrow> offset' = pos')"
proof -
  consider "n = 1" | "1 < n" "ag" | "1 < n" "\<not> ag" using r by linarith
  then show ?thesis
  proof cases
    case 1
    then show ?thesis using x off by (auto simp: response_chunk_def extract_one_def Let_def)
  next
    case 2
    obtain s e where se: "piece_range (int r * int (length xs)) (int r * int (length xs) + int (length xs)) pos tot resp = (s, e)" by fastforce
    have sp: "seq_start = pos" using start 2 by simp
    have xe: "x = (if e \<le> s then [] else py_slice (s - int r * int (length xs)) (e - int r * int (length xs)) xs)"
      using x 2 se by (simp add: extract_one_def Let_def)
    have len: "length x = length (if e \<le> s then [] else py_slice (s + 1 - pos) (e + 1 - pos) tokens)"
    proof (cases "e \<le> s")
      case False
      have b: "int r * int (length xs) \<le> s" "e \<le> int r * int (length xs) + int (length xs)" "pos + (tot - resp) - 1 \<le> s" "e \<le> pos + tot - 1"
        using se by (auto simp: piece_range_def Let_def)
      have "int (length (py_slice (s - int r * int (length xs)) (e - int r * int (length xs)) xs)) = e - s"
        using b False by (subst range_slice(2)) auto
      moreover have "int (length (py_slice (s + 1 - pos) (e + 1 - pos) tokens)) = e - s"
        using b False ok by (subst range_slice(2)) (auto simp: sample_ok_def lengths_ok_def)
      ultimately show ?thesis using False xe by simp
    qed (simp add: xe)
    show ?thesis using 2 len by (simp add: response_chunk_def Let_def sp se xe split del: if_split)
  next
    case 3
    define c where "c = (tot + 2 * int n - 1) div (2 * int n)"
    have tot: "0 < tot" using ok by (auto simp: sample_ok_def lengths_ok_def)
    have n: "1 < int n" "0 \<le> int r" "int r < int n" using 3 r by simp_all
    note chs = rank_chunks [OF n tot]
    obtain l0 h0 where ch0: "first_chunk (int r) (int n) tot = (l0, h0)" by fastforce
    obtain l1 h1 where ch1: "second_chunk (int r) (int n) tot = (l1, h1)" by fastforce
    have w: "h0 - l0 = c" "h1 - l1 = c" using ch0 ch1 by (auto simp: first_chunk_def second_chunk_def Let_def c_def algebra_simps)
    obtain a0 b0 where lg0: "chunk_logits tot (tot - resp) (l0, h0) = (a0, b0)" by fastforce
    obtain a1 b1 where lg1: "chunk_logits tot (tot - resp) (l1, h1) = (a1, b1)" by fastforce
    obtain s0 e0 where tk0: "chunk_tokens tot (tot - resp) (l0, h0) = (s0, e0)" by fastforce
    obtain s1 e1 where tk1: "chunk_tokens tot (tot - resp) (l1, h1) = (s1, e1)" by fastforce
    have le: "l0 \<le> h0" "l1 \<le> h1" using chs(2,4) ch0 ch1 by simp_all
    have c0: "0 \<le> c" using w le by simp
    have op: "offset = pos" using off 3 by simp
    have fit: "0 \<le> pos" "pos + 2 * c \<le> int (length xs)" using room 3 by (simp_all add: c_def)
    have f0: "pos + (h0 - l0) \<le> int (length xs)" and f1: "0 \<le> pos + c" "pos + c + (h1 - l1) \<le> int (length xs)" using fit w c0 by linarith+
    note hs0 = half_selected [OF lg0 le(1) fit(1) f0] and hs1 = half_selected [OF lg1 le(2) f1]
    let ?idx = "[pos + a0 - l0..pos + b0 - l0 - 1] @ [pos + c + a1 - l1..pos + c + b1 - l1 - 1]"
    have xe: "x = py_slice (pos + (a0 - l0)) (pos + (b0 - l0)) xs @ py_slice (pos + c + (a1 - l1)) (pos + c + (b1 - l1)) xs" "pos' = pos + 2 * c"
      using x 3 by (simp_all add: extract_one_def Let_def offsets_eq [OF n(1)] ch0 ch1 lg0 lg1 c_def [symmetric])
    have sel: "(if ?idx \<noteq> [] then index_select ?idx xs else Inr []) = Inr x"
    proof -
      have "index_select ?idx xs = Inr (map (\<lambda>i. xs ! nat i) ?idx)" using hs0(2) hs1(2) by (intro index_select_in) (auto simp del: set_upto)
      also have "map (\<lambda>i. xs ! nat i) ?idx = x" unfolding map_append hs0(1) hs1(1) xe(1) ..
      finally show ?thesis by (cases "?idx = []") (simp_all add: index_select_def)
    qed
    have len: "length x = length (py_slice s0 e0 tokens @ py_slice s1 e1 tokens)"
    proof -
      have "map (\<lambda>i. xs ! nat i) ?idx = x" unfolding map_append hs0(1) hs1(1) xe(1) ..
      then have "int (length x) = int (length ?idx)" by (metis length_map)
      also have "\<dots> = (b0 - a0) + (b1 - a1)" unfolding length_append of_nat_add hs0(3) hs1(3) ..
      also have "\<dots> = int (length (py_slice s0 e0 tokens @ py_slice s1 e1 tokens))"
        using chunk_tokens_length [OF ok _ tk0 lg0] chunk_tokens_length [OF ok _ tk1 lg1] le by simp
      finally show ?thesis by simp
    qed
    have "response_chunk (int r) (int n) ag xs offset seq_start (tokens, tot, resp) =
        res_bind (if ?idx \<noteq> [] then index_select ?idx xs else Inr []) (\<lambda>rows.
          if length rows \<noteq> length (py_slice s0 e0 tokens @ py_slice s1 e1 tokens) then Inl (AssertionError ''logits_chunk.size(0)'')
          else Inr (pos + 2 * c, rows, py_slice s0 e0 tokens @ py_slice s1 e1 tokens))"
      unfolding response_chunk_def prod.case op offsets_eq [OF n(1)] res_bind_Inr Let_def ch0 ch1 cp_offsets.simps lg0 lg1 tk0 tk1 c_def [symmetric]
      using 3 by simp
    then show ?thesis unfolding sel res_bind_Inr using len xe(2) by simp
  qed
qed

lemma response_chunks_rows:
  assumes r: "r < n"
  shows "\<lbrakk>\<forall>s \<in> set samples. sample_ok s; extract_rows (int r) (int n) (ag \<and> 1 < n) xs pos (map snd samples) = Inr xss;
      n = 1 \<or> \<not> ag \<Longrightarrow> offset = pos; ag \<Longrightarrow> seq_start = pos;
      n \<noteq> 1 \<Longrightarrow> \<not> ag \<Longrightarrow> 0 \<le> pos \<and> pos + (\<Sum>l\<leftarrow>map snd samples. 2 * ((fst l + 2 * int n - 1) div (2 * int n))) \<le> int (length xs)\<rbrakk> \<Longrightarrow>
    \<exists>yss. response_chunks (int r) (int n) ag xs offset seq_start samples = Inr yss \<and> map fst yss = xss"
proof (induction samples arbitrary: pos offset seq_start xss)
  case (Cons s samples)
  obtain tokens tot resp where s: "s = (tokens, tot, resp)" by (cases s)
  let ?c = "\<lambda>tot. 2 * ((tot + 2 * int n - 1) div (2 * int n))"
  have ok: "sample_ok (tokens, tot, resp)" and oks: "\<forall>s \<in> set samples. sample_ok s" using Cons.prems(1) by (simp_all add: s)
  have nonneg: "0 \<le> (\<Sum>l\<leftarrow>map snd samples. ?c (fst l))"
  proof (rule sum_list_nonneg)
    fix x assume "x \<in> set (map (\<lambda>l. ?c (fst l)) (map snd samples))"
    then obtain s' where "s' \<in> set samples" "x = ?c (fst (snd s'))" by auto
    moreover from this have "0 \<le> fst (snd s')" using oks by (fastforce simp: sample_ok_def lengths_ok_def)
    ultimately show "0 \<le> x" using r by (simp add: pos_imp_zdiv_nonneg_iff)
  qed
  have tot: "0 \<le> ?c tot" using ok r by (simp add: pos_imp_zdiv_nonneg_iff sample_ok_def lengths_ok_def)
  obtain x pos' xss' where x: "extract_one (int r) (int n) (ag \<and> 1 < n) xs pos (tot, resp) = Inr (x, pos')"
    "extract_rows (int r) (int n) (ag \<and> 1 < n) xs pos' (map snd samples) = Inr xss'" "xss = x # xss'"
    using Cons.prems(2) by (auto simp: s res_bind_eq_Inr)
  have room: "0 \<le> pos \<and> pos + ?c tot \<le> int (length xs)" if "n \<noteq> 1" "\<not> ag" using Cons.prems(5) [OF that] nonneg by (simp add: s)
  obtain offset' toks where one: "response_chunk (int r) (int n) ag xs offset seq_start (tokens, tot, resp) = Inr (offset', x, toks)" "n = 1 \<or> \<not> ag \<Longrightarrow> offset' = pos'"
    using response_chunk_rows [OF r ok x(1) Cons.prems(3,4) room] by blast
  have pos': "n \<noteq> 1 \<Longrightarrow> \<not> ag \<Longrightarrow> pos' = pos + ?c tot" "ag \<Longrightarrow> pos' = pos + tot"
    using x(1) r by (auto simp: extract_one_def Let_def offsets_eq split: prod.splits if_splits)
  have "n \<noteq> 1 \<Longrightarrow> \<not> ag \<Longrightarrow> 0 \<le> pos' \<and> pos' + (\<Sum>l\<leftarrow>map snd samples. ?c (fst l)) \<le> int (length xs)"
    using Cons.prems(5) tot pos'(1) by (simp add: s)
  moreover have "ag \<Longrightarrow> seq_start + tot = pos'" using Cons.prems(4) pos'(2) by simp
  ultimately obtain yss where "response_chunks (int r) (int n) ag xs offset' (seq_start + tot) samples = Inr yss" "map fst yss = xss'"
    using Cons.IH [OF oks x(2) one(2)] by blast
  then show ?case using one(1) x(3) by (simp add: s)
qed simp

lemma zigzag_room:
  assumes "n \<noteq> 1" "0 < n" "\<forall>l \<in> set ls. lengths_ok l" "room_for False n T (map (nat \<circ> fst) ls)"
  shows "(\<Sum>l\<leftarrow>ls. 2 * ((fst l + 2 * int n - 1) div (2 * int n))) \<le> int T"
proof -
  have "2 * ((fst l + 2 * int n - 1) div (2 * int n)) = int (2 * ((nat (fst l) + 2 * n - 1) div (2 * n)))" if "l \<in> set ls" for l
  proof -
    have "0 < fst l" using assms(3) that by (auto simp: lengths_ok_def)
    then have "fst l + 2 * int n - 1 = int (nat (fst l) + 2 * n - 1)" using assms(2) by linarith
    then show ?thesis by (simp add: zdiv_int)
  qed
  then have "(\<Sum>l\<leftarrow>ls. 2 * ((fst l + 2 * int n - 1) div (2 * int n))) = (\<Sum>l\<leftarrow>ls. int (2 * ((nat (fst l) + 2 * n - 1) div (2 * n))))"
    by (intro arg_cong [where f = sum_list] map_cong refl)
  also have "\<dots> = int (\<Sum>l\<leftarrow>ls. 2 * ((nat (fst l) + 2 * n - 1) div (2 * n)))" by (induction ls) simp_all
  finally show ?thesis using assms(1,4) by (simp add: room_for_def o_def)
qed

lemma get_responses_rows:
  assumes r: "r < n" and ok: "\<forall>s \<in> set samples. sample_ok s" and room: "room_for (ag \<and> 1 < n) n T (map (nat \<circ> fst) (map snd samples))"
    and col: "length xs = T"
    and x: "extract_rows (int r) (int n) (ag \<and> 1 < n) xs 0 (map snd samples) = Inr xss"
  shows "\<exists>yss. get_responses (int r) (int n) ag temperature False xs samples = Inr yss \<and> map fst yss = xss"
proof -
  have lok: "\<forall>l \<in> set (map snd samples). lengths_ok l" using ok by (auto simp: sample_ok_def)
  have n: "0 < n" using r by simp
  have "\<exists>yss. response_chunks (int r) (int n) ag xs 0 0 samples = Inr yss \<and> map fst yss = xss"
    by (rule response_chunks_rows [OF r ok x]) (use zigzag_room [OF _ n lok, of T] room col in \<open>simp_all\<close>)
  then show ?thesis by (simp add: get_responses_def scale_logits_def)
qed

section \<open>The values of the responses\<close>

lemma extract_rows_one:
  "\<forall>l \<in> set ls. lengths_ok l \<Longrightarrow> 0 \<le> pos \<Longrightarrow> pos + sum_list (map fst ls) \<le> int (length xs) \<Longrightarrow>
    extract_rows 0 1 True xs pos ls = extract_rows 0 1 False xs pos ls"
proof (induction ls arbitrary: pos)
  case (Cons l ls)
  obtain tot resp where l: "l = (tot, resp)" by fastforce
  have ok: "0 \<le> resp" "resp < tot" and tail: "\<forall>l \<in> set ls. lengths_ok l" using Cons.prems(1) by (auto simp: l lengths_ok_def)
  have nn: "0 \<le> sum_list (map fst ls)" using tail by (intro sum_list_nonneg) (auto simp: lengths_ok_def)
  have fits: "pos + tot + sum_list (map fst ls) \<le> int (length xs)" using Cons.prems(3) by (simp add: l)
  have pr: "piece_range 0 (int (length xs)) pos tot resp = (pos + tot - resp - 1, pos + tot - 1)"
    using ok Cons.prems(2) fits nn by (simp add: piece_range_def Let_def)
  have "extract_one 0 1 True xs pos (tot, resp) = Inr (py_slice (pos + tot - resp - 1) (pos + tot - 1) xs, pos + tot)"
  proof (cases "resp = 0")
    case True
    then show ?thesis using pr by (simp add: extract_one_def Let_def)
  next
    case False
    then show ?thesis using ok by (simp add: extract_one_def Let_def pr)
  qed
  then have one: "extract_one 0 1 True xs pos (tot, resp) = extract_one 0 1 False xs pos (tot, resp)"
    by (simp add: extract_one_def Let_def)
  have p': "extract_one 0 1 False xs pos (tot, resp) = Inr (x, p) \<Longrightarrow> p = pos + tot" for x p by (simp add: extract_one_def Let_def)
  have "extract_rows 0 1 True xs (pos + tot) ls = extract_rows 0 1 False xs (pos + tot) ls"
    using Cons.prems(2) ok by (intro Cons.IH [OF tail _ fits]) simp
  then show ?case unfolding l extract_rows.simps one using p'
    by (cases "extract_one 0 1 False xs pos (tot, resp)") auto
qed simp

lemma one_room: "room_for ag (Suc 0) T lens \<longleftrightarrow> sum_list lens \<le> T"
  by (simp add: room_for_def)

lemma room_narrow: "0 < n \<Longrightarrow> room_for ag n T lens \<Longrightarrow> room_for (ag \<and> 1 < n) n T lens"
  by (cases "n = 1") (auto simp: one_room)

lemma get_responses_column:
  assumes r: "r < n" and ok: "\<forall>s \<in> set samples. sample_ok s" and room: "room_for ag n T (map (nat \<circ> fst) (map snd samples))"
    and col: "length xs = T"
  shows "\<exists>yss. get_responses (int r) (int n) ag temperature False xs samples = Inr yss \<and>
    extract_rows (int r) (int n) (ag \<and> 1 < n) (map f xs) 0 (map snd samples) = Inr (map (map f \<circ> fst) yss)"
proof -
  have lok: "\<forall>l \<in> set (map snd samples). lengths_ok l" using ok by (auto simp: sample_ok_def)
  have room': "room_for (ag \<and> 1 < n) n T (map (nat \<circ> fst) (map snd samples))" using r room by (intro room_narrow) auto
  obtain sels where "extract_rows (int r) (int n) (ag \<and> 1 < n) [0..<T] 0 (map snd samples) = Inr sels"
    using positions [OF r lok room'] by blast
  then have x: "extract_rows (int r) (int n) (ag \<and> 1 < n) xs 0 (map snd samples) = Inr (map (map ((!) xs)) sels)"
    using extract_rows_select [of "int r" "int n" _ xs] col by simp
  obtain yss where "get_responses (int r) (int n) ag temperature False xs samples = Inr yss" "map fst yss = map (map ((!) xs)) sels"
    using get_responses_rows [OF r ok room' col x] by blast
  then show ?thesis using extract_rows_map [OF x, of f] by (metis map_map)
qed

lemma local_values_column:
  assumes r: "r < n" and n: "la_cp_size args = n" and ok: "\<forall>s \<in> set samples. sample_ok s"
    and room: "room_for (la_allgather_cp args) n T (map (nat \<circ> fst) (map snd samples))" and col: "length rows = T"
    and one: "\<forall>row \<in> set rows. length row = 1"
  shows "local_values_of args (int r) rows samples =
    extract_rows (int r) (int n) (la_allgather_cp args \<and> 1 < n) (map hd rows) 0 (map snd samples)"
proof -
  let ?ag = "la_allgather_cp args"
  obtain yss where y: "get_responses (int r) (int n) ?ag (la_temperature args) False rows samples = Inr yss"
    "extract_rows (int r) (int n) (?ag \<and> 1 < n) (map hd rows) 0 (map snd samples) = Inr (map (map hd \<circ> fst) yss)"
    using get_responses_column [OF r ok room col] by blast
  obtain zss where z: "get_responses (int r) (int n) ?ag (la_temperature args) False rows samples = Inr zss"
    "extract_rows (int r) (int n) (?ag \<and> 1 < n) (map (\<lambda>x. x) rows) 0 (map snd samples) = Inr (map (map (\<lambda>x. x) \<circ> fst) zss)"
    using get_responses_column [OF r ok room col] by blast
  have "length row = 1" if "p \<in> set yss" "row \<in> set (fst p)" for p row
  proof -
    have "fst p \<in> set (map (map (\<lambda>x. x) \<circ> fst) zss)" using that(1) y(1) z(1) by auto
    then have "set (fst p) \<subseteq> set rows" using extract_rows_bound [OF z(2)] by simp
    then show ?thesis using one that(2) by blast
  qed
  then have "res_map (\<lambda>(rows, toks). res_map (\<lambda>row. if length row = 1 then Inr (hd row) else Inl (AssertionError ''logits_chunk.size(-1) == 1'')) rows) yss =
      Inr (map (map hd \<circ> fst) yss)"
    by (intro res_map_Inr_ball ballI) (auto intro!: res_map_Inr_ball)
  then show ?thesis unfolding local_values_of_def n y(1) y(2) res_bind_Inr .
qed

lemma values_cuts:
  fixes samples :: "resp_sample list"
  defines "ls \<equiv> map snd samples"
  assumes "sums_ranks all_sum" "r < n" "la_cp_size args = n" "length logits = n" "\<forall>s \<in> set samples. sample_ok s"
    and "fits_lengths ls vals" "room_for (la_allgather_cp args) n T (map (nat \<circ> fst) ls)"
    and "\<And>q. q < n \<Longrightarrow> (\<forall>row \<in> set (logits ! q). length row = 1) \<and> holds_at_responses (la_allgather_cp args) n T q ls vals (map hd (logits ! q))"
  shows "get_values args all_sum r logits samples = Inr (map2 (\<lambda>(tot, resp) xs. cp_local r n tot xs) ls vals)"
proof -
  let ?ag = "la_allgather_cp args" and ?cut = "map2 (\<lambda>l xs. cp_local r n (fst l) xs) ls vals"
  have lok: "\<forall>l \<in> set ls. lengths_ok l" using assms(6) by (auto simp: ls_def sample_ok_def)
  have len: "length (logits ! q) = T" if "q < n" for q using assms(9) [OF that] by (simp add: holds_at_responses_def)
  have loc: "local_values_of args (int q) (logits ! q) samples = extract_rows (int q) (int n) (?ag \<and> 1 < n) (map hd (logits ! q)) 0 ls" if "q < n" for q
    unfolding ls_def using assms(9) [OF that] assms(8) by (intro local_values_column [OF that assms(4,6) _ len [OF that]]) (simp_all add: ls_def)
  have "get_values args all_sum r logits samples = Inr ?cut"
  proof (cases ?ag)
    case False
    have "extract_rows (int r) (int n) False (map hd (logits ! r)) 0 ls = Inr ?cut"
      using assms(8,9) [OF] False by (intro extract_held [OF assms(3) lok _ assms(7)]) (use assms(3,9) in auto)
    then show ?thesis using loc [OF assms(3)] False by (simp add: get_values_def)
  next
    case True
    obtain locals where l: "\<forall>q < n. \<forall>m. extract_rows (int q) m True (map hd (logits ! q)) 0 ls = Inr (locals q)"
      "allgather_cp_redistribute all_sum (int r) (int T) (map locals [0..<n]) ls = Inr ?cut"
      using redistribute_held [OF assms(2,3) lok _ assms(7), of T "\<lambda>q. map hd (logits ! q)"] assms(8,9) True by auto
    have "local_values_of args (int q) (logits ! q) samples = Inr (locals q)" if q: "q < n" for q
    proof (cases "n = 1")
      case False
      then show ?thesis using loc [OF q] l(1) q True by simp
    next
      case one: True
      have "sum_list (map fst ls) \<le> int T"
      proof -
        have "sum_list (map fst ls) = int (sum_list (map (nat \<circ> fst) ls))" using lok by (induction ls) (auto simp: lengths_ok_def)
        then show ?thesis using assms(8) by (simp add: one one_room)
      qed
      then have "extract_rows 0 1 True (map hd (logits ! 0)) 0 ls = extract_rows 0 1 False (map hd (logits ! 0)) 0 ls"
        using len [of 0] one by (intro extract_rows_one [OF lok]) simp_all
      then show ?thesis using loc [OF q] l(1) q one by auto
    qed
    then have "local_values_of args (int r) (logits ! r) samples = Inr (locals r)"
      "res_map (\<lambda>q. local_values_of args (int q) (logits ! q) samples) [0..<length logits] = Inr (map locals [0..<n])"
      using assms(3,5) by (auto intro!: res_map_Inr_ball)
    then show ?thesis using True l(2) len [OF assms(3)] by (simp add: get_values_def ls_def)
  qed
  moreover have "?cut = map2 (\<lambda>(tot, resp) xs. cp_local r n tot xs) ls vals" by (intro map_cong) auto
  ultimately show ?thesis by simp
qed

text \<open>Whatever the layout and the number of ranks, the values \<open>get_values\<close> returns to a rank for a sample are its
  context-parallel part of the values the ranks' value heads give at the rows that predict the sample's response tokens.\<close>

theorem values_layout_independent:
  assumes "sums_ranks all_sum" "r < n" "la_cp_size args = n" "length logits = n" "\<forall>s \<in> set samples. sample_ok s"
    and "fits_lengths (map snd samples) vals" "room_for (la_allgather_cp args) n T (map (nat \<circ> fst) (map snd samples))"
    and "\<And>q. q < n \<Longrightarrow> (\<forall>row \<in> set (logits ! q). length row = 1) \<and>
      holds_at_responses (la_allgather_cp args) n T q (map snd samples) vals (map hd (logits ! q))"
  shows "get_values args all_sum r logits samples = Inr (map2 (\<lambda>(tot, resp) xs. cp_local r n tot xs) (map snd samples) vals)"
  by (rule values_cuts [OF assms])

text \<open>Two ranks with zigzag chunks of one sample of three tokens, two of them the response.\<close>

theorem values_layout_independent_witness:
  "get_values layout_demo_args vec_sum 1 [[[7], [0]], [[8], [0]]] [([5, 6, 7], 3, 2)] = Inr [cp_local 1 2 3 [7, 8]]"
proof -
  have a: "la_cp_size layout_demo_args = 2" "la_allgather_cp layout_demo_args = False" by (simp_all add: layout_demo_args_def)
  have hold: "(\<forall>row \<in> set ([[[7], [0]], [[8], [0 :: real]]] ! q). length row = 1) \<and>
      holds_at_responses False 2 2 q [(3, 2)] [[7, 8]] (map hd ([[[7], [0 :: real]], [[8], [0]]] ! q))" if "q < 2" for q
    using that layout_demo_labels [OF that] by (auto simp: holds_at_responses_def less_Suc_eq numeral_2_eq_2)
  have room: "room_for False 2 2 [3]" by (simp add: room_for_def)
  show ?thesis
    using values_layout_independent [OF vec_sum_sums_ranks, of 1 2 layout_demo_args "[[[7], [0]], [[8], [0]]]" "[([5, 6, 7], 3, 2)]" "[[7, 8]]" 2] hold room
    by (simp add: a sample_ok_def lengths_ok_def fits_lengths_def)
qed

end
