(* ===== verification/Selected_Log_Probs.thy ===== *)
theory Selected_Log_Probs
  imports Loss_Layout
begin

text \<open>
  Log-probabilities of given tokens over a vocabulary that is cut over a tensor-parallel group,
  \<open>vime/utils/ppo_utils.py\<close> lines 38-179: the heads of score centering, normalised over the whole vocabulary and computed
  by chunks of rows, and the ragged supports of a top-p replay, normalised over the support; both with their
  hand-written backward passes. The functions run a pass on all ranks of the group at once.
\<close>

section \<open>Top-k heads\<close>

definition temper :: "real \<Rightarrow> real \<Rightarrow> real" where
  "temper temperature x = (if temperature \<noteq> 1 then x / temperature else x)"

lemma temper_eq [simp]: "temper t x = x / t"
  by (simp add: temper_def)

definition local_id :: "nat \<Rightarrow> nat \<Rightarrow> int \<Rightarrow> nat" where
  "local_id rank width t = nat (max 0 (min (t - int (rank * width)) (int width - 1)))"

text \<open>An all-reduce of matrices reduces their rows.\<close>

definition all_reduce_rows :: "(real list list \<Rightarrow> real list) \<Rightarrow> real list list list \<Rightarrow> real list list" where
  "all_reduce_rows all_sum xss = map (\<lambda>i. all_sum (map (\<lambda>xs. xs ! i) xss)) [0..<length (hd xss)]"

definition scatter_add :: "nat list \<Rightarrow> real list \<Rightarrow> real list \<Rightarrow> real list" where
  "scatter_add idx vals dst = fold (\<lambda>(i, x) dst. dst[i := dst ! i + x]) (zip idx vals) dst"

text \<open>One chunk of rows: the log-probabilities, the maxima and the denominators.\<close>

definition topk_chunk ::
  "(logit list list \<Rightarrow> logit list) \<Rightarrow> (real list list \<Rightarrow> real list) \<Rightarrow> real \<Rightarrow> int list list \<Rightarrow> real list list list \<Rightarrow>
   real list list \<times> real list \<times> real list" where
  "topk_chunk all_max all_sum temperature token_ids logits =
     (let work = map (map (map (temper temperature))) logits;
          maximum = all_max (map (map (row_max \<circ> map Some)) work);
          targets = all_reduce_rows all_sum (map (\<lambda>r. map2 (\<lambda>ids row. map (\<lambda>t.
              if off_shard r (shard_width (logits ! r)) t then 0 else row ! local_id r (shard_width (logits ! r)) t) ids)
            token_ids (work ! r)) [0..<length logits]);
          exps = map (\<lambda>rows. map2 (\<lambda>row m. map (\<lambda>x. exp (x - the m)) row) rows maximum) work;
          denominator = all_sum (map (map sum_list) exps)
      in (map2 (\<lambda>ts (m, z). map (\<lambda>t. t - the m - ln z) ts) targets (zip maximum denominator), map the maximum, denominator))"

text \<open>The loop over preallocated tensors, of arbitrary content.\<close>

definition topk_forward ::
  "(logit list list \<Rightarrow> logit list) \<Rightarrow> (real list list \<Rightarrow> real list) \<Rightarrow> real \<Rightarrow> nat \<Rightarrow> int list list \<Rightarrow> real list list list \<Rightarrow>
   real list list \<times> real list \<times> real list \<Rightarrow> real list list \<times> real list \<times> real list" where
  "topk_forward all_max all_sum temperature chunk_size token_ids logits bufs =
     (let n = length (hd logits) in
      fold (\<lambda>start (output, maxima, denominators).
          let stop = min (start + chunk_size) n;
              (lps, m, z) = topk_chunk all_max all_sum temperature (slice start stop token_ids) (row_slice start stop logits)
          in (blit output start lps, blit maxima start m, blit denominators start z))
        (py_range 0 n chunk_size) bufs)"

definition topk_grad_row :: "nat \<Rightarrow> real \<Rightarrow> real \<Rightarrow> real \<Rightarrow> int list \<Rightarrow> real list \<Rightarrow> real list \<Rightarrow> real list" where
  "topk_grad_row rank temperature m z ids grad row =
     (let v = length row; work = map (\<lambda>x. exp (temper temperature x - m) / z * - sum_list grad) row
      in map (temper temperature)
        (scatter_add (map (local_id rank v) ids) (map2 (\<lambda>t g. if off_shard rank v t then 0 else g) ids grad) work))"

text \<open>The backward loop of one rank, from the rank's logits and what the forward pass saved.\<close>

definition topk_backward ::
  "nat \<Rightarrow> real \<Rightarrow> nat \<Rightarrow> int list list \<Rightarrow> real list list \<Rightarrow> real list \<Rightarrow> real list \<Rightarrow> real list list \<Rightarrow> real list list \<Rightarrow> real list list" where
  "topk_backward rank temperature chunk_size token_ids logits maxima denominators grad_output buf =
     (let n = length logits in
      fold (\<lambda>start grad_input.
          let stop = min (start + chunk_size) n
          in blit grad_input start (map (\<lambda>i. topk_grad_row rank temperature (maxima ! i) (denominators ! i) (token_ids ! i)
               (grad_output ! i) (logits ! i)) [start..<stop]))
        (py_range 0 n chunk_size) buf)"

definition topk_chunk_size :: "int \<Rightarrow> nat \<Rightarrow> nat" where
  "topk_chunk_size chunk_size n = (if 0 < chunk_size then nat chunk_size else max n 1)"

definition calculate_topk_log_probs ::
  "(logit list list \<Rightarrow> logit list) \<Rightarrow> (real list list \<Rightarrow> real list) \<Rightarrow> real list list list \<Rightarrow> int list list \<Rightarrow> int \<Rightarrow> real \<Rightarrow>
   real list list \<times> real list \<times> real list \<Rightarrow> real list list" where
  "calculate_topk_log_probs all_max all_sum logits token_ids chunk_size temperature bufs =
     fst (topk_forward all_max all_sum temperature (topk_chunk_size chunk_size (length (hd logits))) token_ids logits bufs)"

section \<open>Ragged supports\<close>

text \<open>Offsets are expected per row, and a row per token id: torch's broadcasting of a single one is not modelled.\<close>

record ragged_ctx =
  rc_rows :: "nat list"
  rc_local_ids :: "nat list"
  rc_local :: "bool list"
  rc_probs :: "real list"
  rc_shape :: "nat \<times> nat"

definition scatter_amax :: "nat list \<Rightarrow> real list \<Rightarrow> logit list \<Rightarrow> logit list" where
  "scatter_amax idx vals dst = fold (\<lambda>(i, x) dst. dst[i := max_logit (dst ! i) (Some x)]) (zip idx vals) dst"

definition ragged_forward ::
  "(real list list \<Rightarrow> real list) \<Rightarrow> real \<Rightarrow> int list \<Rightarrow> int list \<Rightarrow> real list list list \<Rightarrow> (real list \<times> ragged_ctx list) result" where
  "ragged_forward all_sum temperature token_ids offsets logits =
     (let n = length (hd logits); vocab_size = shard_width (hd logits); world_size = length logits; ranks = [0..<world_size] in
      if \<exists>t \<in> set token_ids. t < 0 \<or> int (vocab_size * world_size) \<le> t
      then Inl (ValueError ''Top-p replay token ids are outside the model vocabulary.'')
      else if length offsets \<noteq> Suc n then Inl (RuntimeError ''repeats must have the same size as input along dim'')
      else res_bind (repeat_rows (map2 (\<lambda>x y. y - x) (butlast offsets) (tl offsets))) (\<lambda>rows.
        if length rows \<noteq> length token_ids then Inl IndexError
        else
          let local_ids = map (\<lambda>r. map (local_id r vocab_size) token_ids) ranks;
              is_local = map (\<lambda>r. map (\<lambda>t. \<not> off_shard r vocab_size t) token_ids) ranks;
              vals = all_sum (map (\<lambda>r. map (\<lambda>(row, id, l). if l then logits ! r ! row ! id / temperature else 0)
                (zip rows (zip (local_ids ! r) (is_local ! r)))) ranks);
              maxima = scatter_amax rows vals (replicate n None);
              centred = map2 (\<lambda>x row. x - the (maxima ! row)) vals rows;
              probs = map exp centred;
              denominators = scatter_add rows probs (replicate n 0);
              log_probs = map2 (\<lambda>x row. x - ln (denominators ! row)) centred rows
          in Inr (log_probs, map (\<lambda>r. \<lparr>rc_rows = rows, rc_local_ids = local_ids ! r, rc_local = is_local ! r,
                rc_probs = map2 (\<lambda>p row. p / denominators ! row) probs rows, rc_shape = (n, vocab_size)\<rparr>) ranks)))"

definition ragged_backward :: "real \<Rightarrow> ragged_ctx \<Rightarrow> real list \<Rightarrow> real list list" where
  "ragged_backward temperature c grad_output =
     (let rows = rc_rows c; row_sum = scatter_add rows grad_output (replicate (fst (rc_shape c)) 0);
          grad = map (\<lambda>(g, p, row). (g - p * row_sum ! row) / temperature) (zip grad_output (zip (rc_probs c) rows))
      in fold (\<lambda>(row, id, l, g) acc. if l then acc[row := (acc ! row)[id := acc ! row ! id + g]] else acc)
           (zip rows (zip (rc_local_ids c) (zip (rc_local c) grad))) (replicate (fst (rc_shape c)) (replicate (snd (rc_shape c)) 0)))"

definition calculate_ragged_log_probs ::
  "(real list list \<Rightarrow> real list) \<Rightarrow> real list list list \<Rightarrow> int list \<Rightarrow> int list \<Rightarrow> real \<Rightarrow> real list result" where
  "calculate_ragged_log_probs all_sum logits token_ids offsets temperature =
     res_bind (ragged_forward all_sum temperature token_ids offsets logits) (\<lambda>(log_probs, _). Inr log_probs)"

section \<open>The heads are the log-softmax over the whole vocabulary\<close>

text \<open>Shards of one tensor, and ids of the vocabulary for every row.\<close>

definition heads_ok :: "nat \<Rightarrow> nat \<Rightarrow> nat \<Rightarrow> int list list \<Rightarrow> real list list list \<Rightarrow> bool" where
  "heads_ok n seq v token_ids logits \<longleftrightarrow> 0 < n \<and> 0 < v \<and> group_shape n seq v logits \<and> length token_ids = seq \<and>
     (\<forall>i < seq. \<forall>t \<in> set (token_ids ! i). 0 \<le> t \<and> t < int (n * v))"

lemma heads_okD:
  assumes "heads_ok n seq v token_ids logits"
  shows "0 < n" "0 < v" "group_shape n seq v logits" "length token_ids = seq"
    "i < seq \<Longrightarrow> t \<in> set (token_ids ! i) \<Longrightarrow> 0 \<le> t" "i < seq \<Longrightarrow> t \<in> set (token_ids ! i) \<Longrightarrow> nat t < n * v"
proof -
  show "nat t < n * v" if "i < seq" "t \<in> set (token_ids ! i)"
  proof -
    have "0 \<le> t" "t < int (n * v)" using assms that unfolding heads_ok_def by blast+
    then show ?thesis by linarith
  qed
qed (use assms in \<open>auto simp: heads_ok_def\<close>)

definition scaled_row :: "nat \<Rightarrow> real \<Rightarrow> real list list list \<Rightarrow> nat \<Rightarrow> nat \<Rightarrow> real" where
  "scaled_row v t logits i k = full_row v logits i k / t"

definition head_log_prob :: "nat \<Rightarrow> nat \<Rightarrow> real \<Rightarrow> real list list list \<Rightarrow> nat \<Rightarrow> int \<Rightarrow> real" where
  "head_log_prob n v t logits i k = token_log_prob {..<n * v} (nat k) (scaled_row v t logits i)"

definition row_top :: "nat \<Rightarrow> real \<Rightarrow> real list list list \<Rightarrow> nat \<Rightarrow> real" where
  "row_top n t logits i = the (foldr max_logit (map (\<lambda>r. row_max (map (\<lambda>x. Some (x / t)) (logits ! r ! i))) [0..<n]) None)"

definition row_mass :: "nat \<Rightarrow> nat \<Rightarrow> real \<Rightarrow> real list list list \<Rightarrow> nat \<Rightarrow> real" where
  "row_mass n v t logits i = sum_exp {..<n * v} (scaled_row v t logits i)"

lemma local_id_eq:
  assumes "0 \<le> t" "0 < v"
  shows "nat t div v = r \<Longrightarrow> local_id r v t = nat t mod v" "local_id r v t < v"
proof -
  show "local_id r v t < v" using assms(2) by (simp add: local_id_def)
  assume r: "nat t div v = r"
  have "int (nat t div v * v + nat t mod v) = t" using assms(1) by simp
  then have "int (nat t div v * v) + int (nat t mod v) = t" by (simp only: of_nat_add)
  moreover have "nat t mod v < v" using assms(2) by simp
  ultimately show "local_id r v t = nat t mod v" using r by (simp add: local_id_def)
qed

lemma local_sum:
  assumes "group_shape n seq v logits" "0 < v" "i < seq" "0 \<le> t" "nat t < n * v"
  shows "(\<Sum>r < n. if off_shard r v t then 0 else (logits ! r ! i ! local_id r v t) / c) = scaled_row v c logits i (nat t)"
proof -
  have "(\<Sum>r < n. if off_shard r v t then 0 else (logits ! r ! i ! local_id r v t) / c) =
      (\<Sum>r < n. if r = nat t div v then scaled_row v c logits i (nat t) else 0)"
    using assms(2,4) by (intro sum.cong refl) (auto simp: off_shard_iff local_id_eq(1) scaled_row_def full_row_def)
  then show ?thesis using less_mult_imp_div_less [OF assms(5)] by simp
qed

lemma topk_stats:
  assumes sums: "sums_ranks all_sum" and maxes: "maxes_ranks all_max" and ok: "heads_ok n seq v token_ids logits"
    and work: "work = map (map (map (temper t))) logits"
  shows "all_max (map (map (row_max \<circ> map Some)) work) = map (\<lambda>i. Some (row_top n t logits i)) [0..<seq]"
    "all_sum (map (map sum_list) (map (\<lambda>rows. map2 (\<lambda>row m. map (\<lambda>x. exp (x - the m)) row) rows (map (\<lambda>i. Some (row_top n t logits i)) [0..<seq])) work)) =
      map (\<lambda>i. row_mass n v t logits i * exp (- row_top n t logits i)) [0..<seq]"
proof -
  note okd = heads_okD [OF ok] and shape = group_shapeD [OF okd(3)]
  let ?xs = "map (map (map (\<lambda>x. Some (x / t)))) logits"
  have gs: "group_shape n seq v ?xs" using okd(3) by (auto simp: group_shape_def)
  have "?xs ! 0 ! i ! 0 \<noteq> None" if "i < seq" for i using okd(1,2) shape that by simp
  then have fin: "finite_rows n seq v ?xs" unfolding finite_rows_def using okd(1,2) by blast
  have max_eq: "all_max (map (map row_max) ?xs) = map (\<lambda>i. foldr max_logit (map (\<lambda>r. row_max (?xs ! r ! i)) [0..<n]) None) [0..<seq]"
  proof -
    have "map (\<lambda>ys. ys ! i) (map (map row_max) ?xs) = map (\<lambda>r. row_max (?xs ! r ! i)) [0..<n]" if "i < seq" for i
      using that shape by (intro nth_equalityI) auto
    then show ?thesis using all_max_columns [OF maxes, of "map (map row_max) ?xs" seq] okd(1) shape by (auto intro!: map_cong)
  qed
  let ?tg = "replicate n (replicate seq (0 :: nat))"
  obtain M where M: "sp_max (vocab_parallel_softmax all_max all_sum ?tg ?xs) = map (\<lambda>i. Some (M i)) [0..<seq]"
    "sp_sum_exp (vocab_parallel_softmax all_max all_sum ?tg ?xs) = map (\<lambda>i. row_sum_exp n v ?xs i * exp (- M i)) [0..<seq]"
    using softmax_parts_rows [OF sums maxes okd(1) gs fin, of ?tg] by auto
  have mx: "all_max (map (map row_max) ?xs) = map (\<lambda>i. Some (M i)) [0..<seq]"
    using M(1) by (simp add: vocab_parallel_softmax_def Let_def)
  have top: "M i = row_top n t logits i" if "i < seq" for i
  proof -
    have "Some (M i) = foldr max_logit (map (\<lambda>r. row_max (?xs ! r ! i)) [0..<n]) None"
      using mx max_eq that by (metis (no_types, lifting) add_0 diff_zero length_upt nth_map_upt)
    moreover have "map (\<lambda>r. row_max (?xs ! r ! i)) [0..<n] = map (\<lambda>r. row_max (map (\<lambda>x. Some (x / t)) (logits ! r ! i))) [0..<n]"
      using shape that by (intro map_cong refl) simp
    ultimately show ?thesis unfolding row_top_def by (metis option.sel)
  qed
  have eq: "map (map (row_max \<circ> map Some)) work = map (map row_max) ?xs" by (simp add: work comp_def)
  show m: "all_max (map (map (row_max \<circ> map Some)) work) = map (\<lambda>i. Some (row_top n t logits i)) [0..<seq]"
    unfolding eq mx using top by simp
  have mass: "row_sum_exp n v ?xs i = row_mass n v t logits i" if "i < seq" for i
  proof -
    have "row_sum_exp n v ?xs i = (\<Sum>r<n. \<Sum>j<v. exp (logits ! r ! i ! j / t))"
      unfolding row_sum_exp_def using shape that by (intro sum.cong refl) simp
    also have "\<dots> = row_mass n v t logits i"
      unfolding sum_ranks_columns by (simp add: row_mass_def sum_exp_def scaled_row_def full_row_def)
    finally show ?thesis .
  qed
  have "map (map exp_logit) (map2 (\<lambda>row m. map (\<lambda>x. sub_logit x m) row) (?xs ! r) (map (\<lambda>i. Some (M i)) [0..<seq])) =
      map2 (\<lambda>row m. map (\<lambda>x. exp (x - the m)) row) (work ! r) (map (\<lambda>i. Some (row_top n t logits i)) [0..<seq])" if "r < n" for r
    using that shape by (intro nth_equalityI) (auto simp: work top sub_logit_def)
  then have ex: "map (map (map exp_logit)) (map (\<lambda>xs. map2 (\<lambda>row m. map (\<lambda>x. sub_logit x m) row) xs (map (\<lambda>i. Some (M i)) [0..<seq])) ?xs) =
      map (\<lambda>rows. map2 (\<lambda>row m. map (\<lambda>x. exp (x - the m)) row) rows (map (\<lambda>i. Some (row_top n t logits i)) [0..<seq])) work"
    using shape(1) by (intro nth_equalityI) (simp_all add: work)
  show "all_sum (map (map sum_list) (map (\<lambda>rows. map2 (\<lambda>row m. map (\<lambda>x. exp (x - the m)) row) rows (map (\<lambda>i. Some (row_top n t logits i)) [0..<seq])) work)) =
      map (\<lambda>i. row_mass n v t logits i * exp (- row_top n t logits i)) [0..<seq]"
    using M(2) unfolding vocab_parallel_softmax_def Let_def mx ex by (simp add: top mass)
qed

lemma topk_chunk_eq:
  assumes sums: "sums_ranks all_sum" and maxes: "maxes_ranks all_max" and ok: "heads_ok n seq v token_ids logits"
  shows "topk_chunk all_max all_sum t token_ids logits =
    (map (\<lambda>i. map (head_log_prob n v t logits i) (token_ids ! i)) [0..<seq], map (row_top n t logits) [0..<seq],
     map (\<lambda>i. row_mass n v t logits i * exp (- row_top n t logits i)) [0..<seq])"
proof -
  note okd = heads_okD [OF ok] and shape = group_shapeD [OF okd(3)]
  define work where "work = map (map (map (temper t))) logits"
  define targets where "targets = all_reduce_rows all_sum (map (\<lambda>r. map2 (\<lambda>ids row. map (\<lambda>t.
      if off_shard r (shard_width (logits ! r)) t then 0 else row ! local_id r (shard_width (logits ! r)) t) ids)
    token_ids (work ! r)) [0..<length logits])"
  note stats = topk_stats [OF sums maxes ok work_def]
  have width: "shard_width (logits ! r) = v" if "r < n" "i < seq" for r i
    using shape(2) [OF that(1)] shape(3) [OF that(1), of 0] that(2) by (cases "logits ! r") (simp_all add: shard_width_def)
  have targets: "targets = map (\<lambda>i. map (\<lambda>k. scaled_row v t logits i (nat k)) (token_ids ! i)) [0..<seq]"
  proof -
    let ?part = "\<lambda>r i. map (\<lambda>k. if off_shard r v k then 0 else logits ! r ! i ! local_id r v k / t) (token_ids ! i)"
    have part: "map2 (\<lambda>ids row. map (\<lambda>k. if off_shard r (shard_width (logits ! r)) k then 0 else row ! local_id r (shard_width (logits ! r)) k) ids)
        token_ids (work ! r) = map (?part r) [0..<seq]" if r: "r < n" for r
    proof (rule nth_equalityI)
      fix i assume "i < length (map2 (\<lambda>ids row. map (\<lambda>k. if off_shard r (shard_width (logits ! r)) k then 0
        else row ! local_id r (shard_width (logits ! r)) k) ids) token_ids (work ! r))"
      then have i: "i < seq" using okd(4) r shape(1,2) by (simp add: work_def)
      have "local_id r v k < v" if "k \<in> set (token_ids ! i)" for k by (rule local_id_eq(2) [OF okd(5) [OF i that] okd(2)])
      then show "map2 (\<lambda>ids row. map (\<lambda>k. if off_shard r (shard_width (logits ! r)) k then 0
          else row ! local_id r (shard_width (logits ! r)) k) ids) token_ids (work ! r) ! i = map (?part r) [0..<seq] ! i"
        using i r okd(4) shape by (simp add: width [OF r i] work_def)
    qed (use okd(4) r shape(1,2) in \<open>simp add: work_def\<close>)
    have "map (\<lambda>r. map2 (\<lambda>ids row. map (\<lambda>t. if off_shard r (shard_width (logits ! r)) t then 0 else row ! local_id r (shard_width (logits ! r)) t) ids)
        token_ids (work ! r)) [0..<length logits] = map (\<lambda>r. map (?part r) [0..<seq]) [0..<n]"
      using shape(1) part by (intro map_cong) auto
    then have "targets = all_reduce_rows all_sum (map (\<lambda>r. map (?part r) [0..<seq]) [0..<n])" unfolding targets_def by simp
    also have "\<dots> = map (\<lambda>i. all_sum (map (\<lambda>r. ?part r i) [0..<n])) [0..<seq]"
    proof -
      have "map (\<lambda>xs. xs ! i) (map (\<lambda>r. map (?part r) [0..<seq]) [0..<n]) = map (\<lambda>r. ?part r i) [0..<n]" if "i < seq" for i
        using that by (intro nth_equalityI) simp_all
      moreover have "length (hd (map (\<lambda>r. map (?part r) [0..<seq]) [0..<n])) = seq" using okd(1) by (simp add: hd_map)
      ultimately show ?thesis unfolding all_reduce_rows_def by (intro map_cong) (simp_all only: set_upt atLeastLessThan_iff)
    qed
    also have "\<dots> = map (\<lambda>i. map (\<lambda>k. scaled_row v t logits i (nat k)) (token_ids ! i)) [0..<seq]"
    proof (intro map_cong refl)
      fix i assume "i \<in> set [0..<seq]"
      then have i: "i < seq" by simp
      have "all_sum (map (\<lambda>r. ?part r i) [0..<n]) = map (\<lambda>m. \<Sum>r<n. ?part r i ! m) [0..<length (token_ids ! i)]"
        using all_sum_columns [OF sums, of "map (\<lambda>r. ?part r i) [0..<n]" "length (token_ids ! i)"] okd(1) by (simp cong: if_cong)
      also have "\<dots> = map (\<lambda>m. scaled_row v t logits i (nat (token_ids ! i ! m))) [0..<length (token_ids ! i)]"
      proof (intro map_cong refl)
        fix m assume "m \<in> set [0..<length (token_ids ! i)]"
        then have m: "m < length (token_ids ! i)" "token_ids ! i ! m \<in> set (token_ids ! i)" by simp_all
        show "(\<Sum>r<n. ?part r i ! m) = scaled_row v t logits i (nat (token_ids ! i ! m))"
          using local_sum [OF okd(3,2) i okd(5) [OF i m(2)] okd(6) [OF i m(2)], of t] m(1) by simp
      qed
      also have "\<dots> = map (\<lambda>k. scaled_row v t logits i (nat k)) (token_ids ! i)" by (rule nth_equalityI) simp_all
      finally show "all_sum (map (\<lambda>r. ?part r i) [0..<n]) = map (\<lambda>k. scaled_row v t logits i (nat k)) (token_ids ! i)" .
    qed
    finally show ?thesis .
  qed
  let ?top = "row_top n t logits" and ?mass = "row_mass n v t logits"
  have lp: "map (\<lambda>x. x - ?top i - ln (?mass i * exp (- ?top i))) (map (\<lambda>k. scaled_row v t logits i (nat k)) (token_ids ! i)) =
      map (head_log_prob n v t logits i) (token_ids ! i)" if i: "i < seq" for i
  proof -
    have pos: "0 < ?mass i" unfolding row_mass_def using okd(1,2) by (intro sum_exp_pos) (simp_all add: lessThan_empty_iff)
    have "scaled_row v t logits i (nat k) - ?top i - ln (?mass i * exp (- ?top i)) = head_log_prob n v t logits i k"
      if "k \<in> set (token_ids ! i)" for k
      using okd(6) [OF i that] by (simp add: head_log_prob_def token_log_prob_eq ln_shift [OF pos] flip: row_mass_def)
    then show ?thesis by simp
  qed
  have "topk_chunk all_max all_sum t token_ids logits =
      (map2 (\<lambda>ts (m, z). map (\<lambda>t. t - the m - ln z) ts) targets (zip (map (\<lambda>i. Some (?top i)) [0..<seq]) (map (\<lambda>i. ?mass i * exp (- ?top i)) [0..<seq])),
       map the (map (\<lambda>i. Some (?top i)) [0..<seq]), map (\<lambda>i. ?mass i * exp (- ?top i)) [0..<seq])"
    unfolding topk_chunk_def Let_def work_def [symmetric] targets_def [symmetric] stats ..
  also have "map2 (\<lambda>ts (m, z). map (\<lambda>t. t - the m - ln z) ts) targets (zip (map (\<lambda>i. Some (?top i)) [0..<seq]) (map (\<lambda>i. ?mass i * exp (- ?top i)) [0..<seq])) =
      map (\<lambda>i. map (head_log_prob n v t logits i) (token_ids ! i)) [0..<seq]"
    by (rule nth_equalityI) (simp_all add: targets lp del: map_map)
  finally show ?thesis by (simp add: comp_def)
qed

lemma heads_ok_slice:
  assumes "heads_ok n seq v token_ids logits" "a \<le> b" "b \<le> seq"
  shows "heads_ok n (b - a) v (slice a b token_ids) (row_slice a b logits)"
proof -
  note okd = heads_okD [OF assms(1)]
  have "slice a b token_ids ! i = token_ids ! (a + i)" "a + i < seq" if "i < b - a" for i
    using that assms(2,3) okd(4) by (simp_all add: slice_nth)
  then show ?thesis
    using assms group_shape_slice [OF okd(3) assms(2,3)] unfolding heads_ok_def by auto
qed

lemma head_slice:
  assumes "heads_ok n seq v token_ids logits" "a + i < b" "b \<le> seq"
  shows "row_mass n v t (row_slice a b logits) i = row_mass n v t logits (a + i)"
    "row_top n t (row_slice a b logits) i = row_top n t logits (a + i)"
    "head_log_prob n v t (row_slice a b logits) i k = head_log_prob n v t logits (a + i) k"
proof -
  note gs = heads_okD(3) [OF assms(1)]
  have fr: "scaled_row v t (row_slice a b logits) i k = scaled_row v t logits (a + i) k" if "k < n * v" for k
    using full_row_slice [OF gs assms(2,3) that] by (simp add: scaled_row_def)
  show "row_mass n v t (row_slice a b logits) i = row_mass n v t logits (a + i)"
    unfolding row_mass_def sum_exp_def using fr by (intro sum.cong) simp_all
  show "head_log_prob n v t (row_slice a b logits) i k = head_log_prob n v t logits (a + i) k"
    unfolding head_log_prob_def using fr by (intro token_log_prob_cong) simp
  show "row_top n t (row_slice a b logits) i = row_top n t logits (a + i)"
    unfolding row_top_def using group_shapeD [OF gs] assms(2,3)
    by (intro arg_cong [where f = the] arg_cong [where f = "\<lambda>xs. foldr max_logit xs None"] map_cong refl) (simp add: slice_nth)
qed

lemma topk_chunk_slice:
  assumes "sums_ranks all_sum" "maxes_ranks all_max" "heads_ok n seq v token_ids logits" "a \<le> b" "b \<le> seq"
  shows "topk_chunk all_max all_sum t (slice a b token_ids) (row_slice a b logits) =
    (map (\<lambda>i. map (head_log_prob n v t logits i) (token_ids ! i)) [a..<b], map (row_top n t logits) [a..<b],
     map (\<lambda>i. row_mass n v t logits i * exp (- row_top n t logits i)) [a..<b])"
  unfolding topk_chunk_eq [OF assms(1,2) heads_ok_slice [OF assms(3-5)]] prod.inject
  using assms(4,5) heads_okD(4) [OF assms(3)] head_slice [OF assms(3) _ assms(5)]
  by (intro conjI upt_shift) (simp_all add: slice_nth)

lemma fold_triple:
  "fold (\<lambda>x (a, b, c). (f x a, g x b, h x c)) xs (a0, b0, c0) = (fold f xs a0, fold g xs b0, fold h xs c0)"
  by (induction xs arbitrary: a0 b0 c0) auto

lemma topk_forward_eq:
  assumes sums: "sums_ranks all_sum" and maxes: "maxes_ranks all_max" and ok: "heads_ok n seq v token_ids logits"
    and sz: "0 < sz" and buf: "length obuf = seq" "length mbuf = seq" "length zbuf = seq"
  shows "topk_forward all_max all_sum t sz token_ids logits (obuf, mbuf, zbuf) =
    (map (\<lambda>i. map (head_log_prob n v t logits i) (token_ids ! i)) [0..<seq], map (row_top n t logits) [0..<seq],
     map (\<lambda>i. row_mass n v t logits i * exp (- row_top n t logits i)) [0..<seq])"
proof -
  have n: "length (hd logits) = seq"
    using heads_okD(1) [OF ok] group_shapeD(1) [OF heads_okD(3) [OF ok]] group_shapeD(2) [OF heads_okD(3) [OF ok], of 0]
    by (cases logits) auto
  let ?f = "\<lambda>i. map (head_log_prob n v t logits i) (token_ids ! i)" and ?g = "row_top n t logits"
    and ?h = "\<lambda>i. row_mass n v t logits i * exp (- row_top n t logits i)"
  let ?c = "\<lambda>f start. map f [start..<min (start + sz) seq]"
  have step: "(\<lambda>start (output, maxima, denominators).
      let stop = min (start + sz) seq;
          (lps, m, z) = topk_chunk all_max all_sum t (slice start stop token_ids) (row_slice start stop logits)
      in (blit output start lps, blit maxima start m, blit denominators start z)) start s =
    (\<lambda>start (a, b, c). (blit a start (?c ?f start), blit b start (?c ?g start), blit c start (?c ?h start))) start s"
    if "start < seq" for start s
    using that by (cases s) (simp add: Let_def topk_chunk_slice [OF sums maxes ok])
  have "topk_forward all_max all_sum t sz token_ids logits (obuf, mbuf, zbuf) =
      fold (\<lambda>start (a, b, c). (blit a start (?c ?f start), blit b start (?c ?g start), blit c start (?c ?h start))) (py_range 0 seq sz) (obuf, mbuf, zbuf)"
    unfolding topk_forward_def Let_def n
    using step [unfolded Let_def] py_range_less [OF _ sz, where n = seq] by (intro fold_cong refl ext) blast
  also have "\<dots> = (map ?f [0..<seq], map ?g [0..<seq], map ?h [0..<seq])"
    unfolding fold_triple by (simp add: fold_chunks [OF sz buf(1)] fold_chunks [OF sz buf(2)] fold_chunks [OF sz buf(3)])
  finally show ?thesis .
qed

section \<open>The backward pass of the heads is their derivative\<close>

lemma scatter_add_nth:
  assumes "length idx = length vals" "j < length dst"
  shows "scatter_add idx vals dst ! j = dst ! j + (\<Sum>(i, x)\<leftarrow>zip idx vals. if i = j then x else 0)"
  using assms
proof (induction idx vals arbitrary: dst rule: list_induct2)
  case (Cons i idx x vals)
  have "scatter_add (i # idx) (x # vals) dst = scatter_add idx vals (dst[i := dst ! i + x])" by (simp add: scatter_add_def)
  then show ?case using Cons.IH [of "dst[i := dst ! i + x]"] Cons.prems by (simp add: nth_list_update)
qed (simp add: scatter_add_def)

lemma length_scatter_add [simp]: "length (scatter_add idx vals dst) = length dst"
proof -
  have "length (fold (\<lambda>(i, x) dst. dst[i := dst ! i + x]) ps dst) = length dst" for ps
    by (induction ps arbitrary: dst) auto
  then show ?thesis by (simp add: scatter_add_def)
qed

lemma on_shard_iff:
  assumes "0 \<le> t" "r < n" "j < v"
  shows "\<not> off_shard r v t \<and> local_id r v t = j \<longleftrightarrow> nat t = r * v + j"
proof
  have v: "0 < v" using assms(3) by simp
  show "nat t = r * v + j" if "\<not> off_shard r v t \<and> local_id r v t = j"
  proof -
    have r: "nat t div v = r" using that off_shard_iff [OF assms(1) v] by auto
    then have "nat t mod v = j" using local_id_eq(1) [OF assms(1) v r] that by simp
    then show ?thesis using r div_mult_mod_eq [of "nat t" v] by simp
  qed
  show "\<not> off_shard r v t \<and> local_id r v t = j" if "nat t = r * v + j"
    using that off_shard_iff [OF assms(1) v, of r] local_id_eq(1) [OF assms(1) v, of r] assms(3) by simp
qed

text \<open>Log-probabilities over the tokens \<open>A\<close>, weighted, and the derivative by entry \<open>k\<close> of the row before scaling.\<close>

definition weighted_log_probs :: "nat set \<Rightarrow> real \<Rightarrow> int list \<Rightarrow> real list \<Rightarrow> (nat \<Rightarrow> real) \<Rightarrow> real" where
  "weighted_log_probs A t ids grad f = (\<Sum>(id, g)\<leftarrow>zip ids grad. g * token_log_prob A (nat id) (\<lambda>c. f c / t))"

definition head_grad :: "nat set \<Rightarrow> real \<Rightarrow> (nat \<Rightarrow> real) \<Rightarrow> nat \<Rightarrow> int list \<Rightarrow> real list \<Rightarrow> real" where
  "head_grad A t f k ids grad = (\<Sum>(id, g)\<leftarrow>zip ids grad. g * ((of_bool (k = nat id) - token_prob A (\<lambda>c. f c / t) k) / t))"

lemma head_grad_deriv:
  assumes "finite A" "nat ` set ids \<subseteq> A"
  shows "((\<lambda>z. weighted_log_probs A t ids grad (f(k := z))) has_real_derivative head_grad A t f k ids grad) (at (f k))"
  using assms(2)
proof (induction ids arbitrary: grad)
  case (Cons id ids)
  show ?case
  proof (cases grad)
    case (Cons g gs)
    have upd: "(\<lambda>c. (f(k := z)) c / t) = (\<lambda>c. f c / t)(k := z / t)" for z by auto
    have "nat id \<in> A" using Cons.prems by simp
    from token_log_prob_deriv [OF assms(1) this, of "\<lambda>c. f c / t" k]
    have "((\<lambda>z. token_log_prob A (nat id) ((\<lambda>c. f c / t)(k := z / t))) has_real_derivative
        (of_bool (k = nat id) - token_prob A (\<lambda>c. f c / t) k) * (1 / t)) (at (f k))"
      by (rule DERIV_chain2) (rule DERIV_cdivide [OF DERIV_ident])
    note d = DERIV_cmult [OF this, of g]
    have "nat ` set ids \<subseteq> A" using Cons.prems by simp
    from DERIV_add [OF d Cons.IH [OF this, of gs]] show ?thesis
      by (simp add: Cons upd head_grad_def weighted_log_probs_def del: fun_upd_apply)
  qed (simp add: head_grad_def weighted_log_probs_def)
qed (simp add: head_grad_def weighted_log_probs_def)

lemma topk_grad_row_eq:
  assumes ok: "heads_ok n seq v token_ids logits" and r: "r < n" and i: "i < seq" and j: "j < v"
    and len: "length grad = length (token_ids ! i)"
  shows "topk_grad_row r t (row_top n t logits i) (row_mass n v t logits i * exp (- row_top n t logits i)) (token_ids ! i) grad (logits ! r ! i) ! j =
    head_grad {..<n * v} t (full_row v logits i) (r * v + j) (token_ids ! i) grad"
proof -
  note okd = heads_okD [OF ok]
  let ?ids = "token_ids ! i" and ?k = "r * v + j"
  let ?p = "token_prob {..<n * v} (scaled_row v t logits i) ?k"
  have width: "length (logits ! r ! i) = v" by (rule group_shapeD(3) [OF okd(3) r i])
  have row: "logits ! r ! i ! j / t = scaled_row v t logits i ?k"
    using block_entry(2,3) [OF r j] by (simp add: scaled_row_def full_row_def)
  have pos: "0 < row_mass n v t logits i" unfolding row_mass_def using okd(1,2) by (intro sum_exp_pos) (simp_all add: lessThan_empty_iff)
  have p: "exp (logits ! r ! i ! j / t - row_top n t logits i) / (row_mass n v t logits i * exp (- row_top n t logits i)) = ?p"
    using pos block_entry(1) [OF r j] by (simp add: row token_prob_def row_mass_def exp_diff exp_minus field_simps)
  have scattered: "(\<Sum>(d, x)\<leftarrow>zip (map (local_id r v) ids) (map2 (\<lambda>t g. if off_shard r v t then 0 else g) ids gs). if d = j then x else 0) =
      (\<Sum>(id, g)\<leftarrow>zip ids gs. g * of_bool (?k = nat id))" if "length gs = length ids" "\<And>t. t \<in> set ids \<Longrightarrow> 0 \<le> t" for ids :: "int list" and gs :: "real list"
    using that
  proof (induction gs ids rule: list_induct2)
    case (Cons g gs t ts)
    then show ?case using on_shard_iff [of t r n j v] r j by auto
  qed simp
  have spread: "(p * - sum_list gs + (\<Sum>(id, g)\<leftarrow>zip ids gs. g * of_bool (?k = nat id))) / t =
      (\<Sum>(id, g)\<leftarrow>zip ids gs. g * ((of_bool (?k = nat id) - p) / t))" if "length gs = length ids" for p and ids :: "int list" and gs :: "real list"
    using that by (induction gs ids rule: list_induct2) (simp_all add: algebra_simps diff_divide_distrib add_divide_distrib)
  have "topk_grad_row r t (row_top n t logits i) (row_mass n v t logits i * exp (- row_top n t logits i)) ?ids grad (logits ! r ! i) ! j =
      (exp (logits ! r ! i ! j / t - row_top n t logits i) / (row_mass n v t logits i * exp (- row_top n t logits i)) * - sum_list grad +
        (\<Sum>(id, g)\<leftarrow>zip ?ids grad. g * of_bool (?k = nat id))) / t"
    using len j by (simp add: topk_grad_row_def Let_def width scatter_add_nth scattered [OF len okd(5) [OF i]])
  also have "\<dots> = (?p * - sum_list grad + (\<Sum>(id, g)\<leftarrow>zip ?ids grad. g * of_bool (?k = nat id))) / t" by (simp only: p)
  also have "\<dots> = head_grad {..<n * v} t (full_row v logits i) ?k ?ids grad"
    unfolding head_grad_def scaled_row_def [abs_def] by (rule spread [OF len])
  finally show ?thesis .
qed

lemma topk_backward_eq:
  assumes "0 < sz" "length logits = seq" "length buf = seq"
  shows "topk_backward r t sz token_ids logits maxima denominators grad_output buf =
    map (\<lambda>i. topk_grad_row r t (maxima ! i) (denominators ! i) (token_ids ! i) (grad_output ! i) (logits ! i)) [0..<seq]"
  unfolding topk_backward_def Let_def assms(2) by (rule fold_chunks [OF assms(1,3)]) simp

text \<open>C38: The log-probabilities of the heads are those of the softmax over the whole vocabulary at the rollout temperature, for
  every number of ranks and every chunk size, and the backward pass gives every rank the derivative, by each of its logits, of
  the log-probabilities weighted with the incoming gradients.\<close>

theorem topk_log_probs_and_gradient:
  assumes "sums_ranks all_sum" "maxes_ranks all_max" "heads_ok n seq v token_ids logits" "0 < t"
    and "length obuf = seq" "length mbuf = seq" "length zbuf = seq" "length gbuf = seq"
    and "r < n" "\<And>i. i < seq \<Longrightarrow> length (grad_output ! i) = length (token_ids ! i)"
    and "topk_forward all_max all_sum t (topk_chunk_size chunk seq) token_ids logits (obuf, mbuf, zbuf) = (output, maxima, denominators)"
  shows "calculate_topk_log_probs all_max all_sum logits token_ids chunk t (obuf, mbuf, zbuf) = output \<and>
    output = map (\<lambda>i. map (\<lambda>id. token_log_prob {..<n * v} (nat id) (\<lambda>c. full_row v logits i c / t)) (token_ids ! i)) [0..<seq] \<and>
    (\<forall>i j. i < seq \<and> j < v \<longrightarrow>
      ((\<lambda>z. weighted_log_probs {..<n * v} t (token_ids ! i) (grad_output ! i) ((full_row v logits i)(r * v + j := z)))
        has_real_derivative topk_backward r t (topk_chunk_size chunk seq) token_ids (logits ! r) maxima denominators grad_output gbuf ! i ! j)
      (at (logits ! r ! i ! j)))"
proof (intro conjI)
  note okd = heads_okD [OF assms(3)]
  have sz: "0 < topk_chunk_size chunk seq" by (auto simp: topk_chunk_size_def)
  note fwd = topk_forward_eq [OF assms(1-3) sz assms(5-7), of t, unfolded assms(11) prod.inject]
  have n: "length (hd logits) = seq"
    using okd(1) group_shapeD(1) [OF okd(3)] group_shapeD(2) [OF okd(3), of 0] by (cases logits) auto
  show "calculate_topk_log_probs all_max all_sum logits token_ids chunk t (obuf, mbuf, zbuf) = output"
    by (simp add: calculate_topk_log_probs_def n assms(11))
  show "output = map (\<lambda>i. map (\<lambda>id. token_log_prob {..<n * v} (nat id) (\<lambda>c. full_row v logits i c / t)) (token_ids ! i)) [0..<seq]"
    using fwd by (simp add: head_log_prob_def [abs_def] scaled_row_def [abs_def])
  show "\<forall>i j. i < seq \<and> j < v \<longrightarrow>
      ((\<lambda>z. weighted_log_probs {..<n * v} t (token_ids ! i) (grad_output ! i) ((full_row v logits i)(r * v + j := z)))
        has_real_derivative topk_backward r t (topk_chunk_size chunk seq) token_ids (logits ! r) maxima denominators grad_output gbuf ! i ! j)
      (at (logits ! r ! i ! j))"
  proof (intro allI impI)
    fix i j assume ij: "i < seq \<and> j < v"
    have "topk_backward r t (topk_chunk_size chunk seq) token_ids (logits ! r) maxima denominators grad_output gbuf ! i ! j =
        head_grad {..<n * v} t (full_row v logits i) (r * v + j) (token_ids ! i) (grad_output ! i)"
      using topk_grad_row_eq [OF assms(3,9) _ _ assms(10)] ij fwd
      by (simp add: topk_backward_eq [OF sz group_shapeD(2) [OF okd(3) assms(9)] assms(8)])
    moreover have "full_row v logits i (r * v + j) = logits ! r ! i ! j"
      using block_entry(2,3) [OF assms(9), of j v] ij by (simp add: full_row_def)
    ultimately show "((\<lambda>z. weighted_log_probs {..<n * v} t (token_ids ! i) (grad_output ! i) ((full_row v logits i)(r * v + j := z)))
        has_real_derivative topk_backward r t (topk_chunk_size chunk seq) token_ids (logits ! r) maxima denominators grad_output gbuf ! i ! j)
      (at (logits ! r ! i ! j))"
      using head_grad_deriv [of "{..<n * v}" "token_ids ! i" t "grad_output ! i" "full_row v logits i" "r * v + j"] okd(6) ij by force
  qed
qed

section \<open>The supports are normalised row by row\<close>

text \<open>The positions of the entries of ragged rows, in order.\<close>

definition entries :: "nat list \<Rightarrow> (nat \<times> nat) list" where
  "entries lens = concat (map (\<lambda>i. map (Pair i) [0..<lens ! i]) [0..<length lens])"

lemma set_entries: "e \<in> set (entries lens) \<longleftrightarrow> fst e < length lens \<and> snd e < lens ! fst e"
  by (cases e) (auto simp: entries_def image_iff)

lemma entries_concat: "concat xss = map (\<lambda>(i, m). xss ! i ! m) (entries (map length xss))"
proof -
  have "concat xss = concat (map (\<lambda>i. xss ! i) [0..<length xss])" by (simp add: map_nth)
  also have "\<dots> = concat (map (\<lambda>i. map (\<lambda>m. xss ! i ! m) [0..<length (xss ! i)]) [0..<length xss])" by (simp only: map_nth)
  also have "\<dots> = map (\<lambda>(i, m). xss ! i ! m) (entries (map length xss))"
    by (auto simp: entries_def map_concat comp_def intro!: arg_cong [where f = concat] map_cong)
  finally show ?thesis .
qed

lemma sum_concat_map: "(\<Sum>x\<leftarrow>concat xss. f x) = (\<Sum>xs\<leftarrow>xss. \<Sum>x\<leftarrow>xs. f x)" for f :: "'a \<Rightarrow> real"
  by (induction xss) auto

lemma sum_entries: "(\<Sum>e\<leftarrow>entries lens. if fst e = i then f e else 0) = (if i < length lens then \<Sum>m<lens ! i. f (i, m) else (0 :: real))"
proof -
  have "(\<Sum>e\<leftarrow>entries lens. if fst e = i then f e else 0) = (\<Sum>q\<leftarrow>[0..<length lens]. \<Sum>m\<leftarrow>[0..<lens ! q]. if q = i then f (q, m) else 0)"
    by (simp add: entries_def sum_concat_map comp_def)
  also have "\<dots> = (\<Sum>q<length lens. \<Sum>m<lens ! q. if q = i then f (q, m) else 0)"
    by (simp add: interv_sum_list_conv_sum_set_nat lessThan_atLeast0)
  also have "\<dots> = (\<Sum>q<length lens. if q = i then \<Sum>m<lens ! i. f (i, m) else 0)"
    by (rule sum.cong) simp_all
  finally show ?thesis by simp
qed

lemma repeat_entries: "repeat_rows (map int lens) = Inr (map fst (entries lens))"
proof -
  have "map fst (entries lens) = concat (map (\<lambda>i. replicate (lens ! i) i) [0..<length lens])"
    by (auto simp: entries_def map_concat comp_def map_replicate_trivial intro!: arg_cong [where f = concat] map_cong)
  then show ?thesis by (auto simp: repeat_rows_def intro!: arg_cong [where f = concat] map_cong)
qed

lemma entries_rows:
  assumes "length offsets = Suc (length lens)" "\<And>i. i < length lens \<Longrightarrow> offsets ! Suc i - offsets ! i = int (lens ! i)"
  shows "repeat_rows (map2 (\<lambda>x y. y - x) (butlast offsets) (tl offsets)) = Inr (map fst (entries lens))"
proof -
  have "map2 (\<lambda>x y. y - x) (butlast offsets) (tl offsets) = map int lens"
    using assms by (intro nth_equalityI) (simp_all add: nth_butlast nth_tl)
  then show ?thesis by (simp only: repeat_entries)
qed

text \<open>Shards of one tensor, with a support of distinct tokens of the vocabulary per row.\<close>

definition supports_ok :: "nat \<Rightarrow> nat \<Rightarrow> nat \<Rightarrow> int list list \<Rightarrow> int list \<Rightarrow> real list list list \<Rightarrow> bool" where
  "supports_ok n seq v supp offsets logits \<longleftrightarrow> heads_ok n seq v supp logits \<and> 0 < seq \<and> (\<forall>ids \<in> set supp. distinct ids) \<and>
     length offsets = Suc seq \<and> (\<forall>i < seq. offsets ! Suc i - offsets ! i = int (length (supp ! i)))"

definition token_set :: "int list \<Rightarrow> nat set" where
  "token_set ids = nat ` set ids"

lemma sum_tokens:
  assumes "distinct ids" "\<forall>t \<in> set ids. 0 \<le> t"
  shows "(\<Sum>m<length ids. f (nat (ids ! m))) = (\<Sum>k \<in> token_set ids. f k :: real)"
proof -
  have "inj_on nat (set ids)" using assms(2) by (auto simp: inj_on_def eq_nat_nat_iff)
  then have "(\<Sum>k \<in> token_set ids. f k) = (\<Sum>t \<in> set ids. f (nat t))" by (simp add: token_set_def sum.reindex)
  also have "\<dots> = (\<Sum>t\<leftarrow>ids. f (nat t))" by (rule sum_list_distinct_conv_sum_set [OF assms(1), symmetric])
  finally show ?thesis by (simp add: sum_list_sum_nth lessThan_atLeast0)
qed

lemma ragged_forward_eq:
  assumes sums: "sums_ranks all_sum" and ok: "supports_ok n seq v supp offsets logits"
  shows "ragged_forward all_sum t (concat supp) offsets logits =
    Inr (map (\<lambda>(i, m). token_log_prob (token_set (supp ! i)) (nat (supp ! i ! m)) (scaled_row v t logits i)) (entries (map length supp)),
      map (\<lambda>r. \<lparr>rc_rows = map fst (entries (map length supp)), rc_local_ids = map (local_id r v) (concat supp),
        rc_local = map (\<lambda>k. \<not> off_shard r v k) (concat supp),
        rc_probs = map (\<lambda>(i, m). token_prob (token_set (supp ! i)) (scaled_row v t logits i) (nat (supp ! i ! m))) (entries (map length supp)),
        rc_shape = (seq, v)\<rparr>) [0..<n])"
proof -
  have hok: "heads_ok n seq v supp logits" and seq: "0 < seq" using ok by (simp_all add: supports_ok_def)
  note okd = heads_okD [OF hok] and shape = group_shapeD [OF okd(3)]
  let ?es = "entries (map length supp)" and ?id = "\<lambda>(i, m). supp ! i ! m"
  have es: "fst e < seq" "?id e \<in> set (supp ! fst e)" if "e \<in> set ?es" for e
    using that okd(4) by (auto simp: set_entries case_prod_beta)
  note ids = entries_concat [of supp]
  have hd_eq: "hd logits = logits ! 0" using okd(1) shape(1) by (cases logits) auto
  have n: "length (hd logits) = seq" unfolding hd_eq by (rule shape(2) [OF okd(1)])
  have width: "shard_width (hd logits) = v" unfolding hd_eq
    using shape(2) [OF okd(1)] shape(3) [OF okd(1) seq] seq by (cases "logits ! 0") (simp_all add: shard_width_def)
  have range: "\<not> (\<exists>k \<in> set (concat supp). k < 0 \<or> int (v * length logits) \<le> k)"
  proof -
    have "0 \<le> k \<and> k < int (v * n)" if k: "k \<in> set (concat supp)" for k
    proof -
      obtain ids where "ids \<in> set supp" "k \<in> set ids" using k by auto
      then obtain i where "i < length supp" "k \<in> set (supp ! i)" by (metis in_set_conv_nth)
      then have i: "i < seq" "k \<in> set (supp ! i)" using okd(4) by simp_all
      have "nat k < v * n" using okd(6) [OF i] by (simp add: mult.commute)
      then show ?thesis using okd(5) [OF i] by linarith
    qed
    then show ?thesis using shape(1) by (metis not_le)
  qed
  have rows: "repeat_rows (map2 (\<lambda>x y. y - x) (butlast offsets) (tl offsets)) = Inr (map fst ?es)"
    using ok okd(4) by (intro entries_rows) (auto simp: supports_ok_def)
  have lens: "length (concat supp) = length ?es" "length offsets = Suc seq" using ids ok by (simp_all add: supports_ok_def)
  let ?s = "\<lambda>(i, m). scaled_row v t logits i (nat (supp ! i ! m))"
  have vals: "all_sum (map (\<lambda>r. map (\<lambda>(row, k, l). if l then logits ! r ! row ! k / t else 0)
      (zip (map fst ?es) (zip (map (\<lambda>r. map (local_id r v) (concat supp)) [0..<length logits] ! r)
        (map (\<lambda>r. map (\<lambda>k. \<not> off_shard r v k) (concat supp)) [0..<length logits] ! r)))) [0..<length logits]) = map ?s ?es"
  proof -
    let ?part = "\<lambda>r e. if off_shard r v (?id e) then 0 else logits ! r ! fst e ! local_id r v (?id e) / t"
    have "map (\<lambda>r. map (\<lambda>(row, k, l). if l then logits ! r ! row ! k / t else 0)
      (zip (map fst ?es) (zip (map (\<lambda>r. map (local_id r v) (concat supp)) [0..<length logits] ! r)
        (map (\<lambda>r. map (\<lambda>k. \<not> off_shard r v k) (concat supp)) [0..<length logits] ! r)))) [0..<length logits] =
      map (\<lambda>r. map (?part r) ?es) [0..<n]"
      using shape(1) unfolding ids by (intro map_cong refl) (simp_all add: zip_map_map zip_same_conv_map comp_def case_prod_beta if_not_P cong: if_cong)
    moreover have "all_sum (map (\<lambda>r. map (?part r) ?es) [0..<n]) = map (\<lambda>p. \<Sum>r<n. ?part r (?es ! p)) [0..<length ?es]"
      using all_sum_columns [OF sums, of "map (\<lambda>r. map (?part r) ?es) [0..<n]" "length ?es"] okd(1) by (simp cong: if_cong)
    moreover have "(\<Sum>r<n. ?part r e) = ?s e" if "e \<in> set ?es" for e
      using local_sum [OF okd(3,2) es(1) [OF that] okd(5) [OF es [OF that]] okd(6) [OF es [OF that]], of t] by (simp add: case_prod_beta)
    then have "map (\<lambda>p. \<Sum>r<n. ?part r (?es ! p)) [0..<length ?es] = map ?s ?es"
      by (intro nth_equalityI) (simp_all add: case_prod_beta cong: if_cong)
    ultimately show ?thesis by simp
  qed
  define top where "top i = the (scatter_amax (map fst ?es) (map ?s ?es) (replicate seq None) ! i)" for i
  define mass where "mass i = sum_exp (token_set (supp ! i)) (scaled_row v t logits i)" for i
  have centred: "map2 (\<lambda>x row. x - the (scatter_amax (map fst ?es) (map ?s ?es) (replicate seq None) ! row)) (map ?s ?es) (map fst ?es) =
      map (\<lambda>e. ?s e - top (fst e)) ?es"
    by (simp add: zip_map_map zip_same_conv_map comp_def top_def case_prod_beta)
  have denom: "scatter_add (map fst ?es) (map exp (map (\<lambda>e. ?s e - top (fst e)) ?es)) (replicate seq 0) ! i = mass i * exp (- top i)"
    if i: "i < seq" for i
  proof -
    have "scatter_add (map fst ?es) (map exp (map (\<lambda>e. ?s e - top (fst e)) ?es)) (replicate seq 0) ! i =
        (\<Sum>e\<leftarrow>?es. if fst e = i then exp (?s e - top (fst e)) else 0)"
      using i by (simp add: scatter_add_nth zip_map_map zip_same_conv_map comp_def case_prod_beta cong: if_cong)
    also have "\<dots> = (\<Sum>m<length (supp ! i). exp (scaled_row v t logits i (nat (supp ! i ! m)) - top i))"
      using i okd(4) by (simp add: sum_entries)
    also have "\<dots> = (\<Sum>k \<in> token_set (supp ! i). exp (scaled_row v t logits i k - top i))"
      using ok okd(4) okd(5) [OF i] i by (intro sum_tokens) (auto simp: supports_ok_def)
    finally show ?thesis by (simp add: mass_def sum_exp_def sum_distrib_right exp_diff exp_minus divide_inverse)
  qed
  have token: "nat (?id e) \<in> token_set (supp ! fst e)" if "e \<in> set ?es" for e
    using es(2) [OF that] by (simp add: token_set_def)
  have fin: "finite (token_set ids)" for ids by (simp add: token_set_def)
  have pos: "0 < mass (fst e)" if "e \<in> set ?es" for e
    unfolding mass_def using token [OF that] by (intro sum_exp_pos fin) auto
  have lp: "?s e - top (fst e) - ln (mass (fst e) * exp (- top (fst e))) =
      token_log_prob (token_set (supp ! fst e)) (nat (?id e)) (scaled_row v t logits (fst e))" if "e \<in> set ?es" for e
    using token_log_prob_eq [OF fin token [OF that]] ln_shift [OF pos [OF that]] by (simp add: case_prod_beta flip: mass_def)
  have pr: "exp (?s e - top (fst e)) / (mass (fst e) * exp (- top (fst e))) =
      token_prob (token_set (supp ! fst e)) (scaled_row v t logits (fst e)) (nat (?id e))" if "e \<in> set ?es" for e
    using token [OF that] pos [OF that] by (simp add: token_prob_def case_prod_beta exp_diff exp_minus field_simps flip: mass_def)
  show ?thesis
    unfolding ragged_forward_def Let_def n width if_not_P [OF range] rows res_bind_Inr vals centred
    using lens es(1) by (simp add: zip_map_map zip_same_conv_map comp_def case_prod_beta shape(1)
      denom [unfolded map_map comp_def case_prod_beta] lp [unfolded case_prod_beta] pr [unfolded case_prod_beta] cong: map_cong)
qed

section \<open>The backward pass of the supports is their derivative\<close>

lemma scatter_rows:
  assumes "i < length acc" "j < length (acc ! i)"
  shows "fold (\<lambda>(row, id, l, g) acc. if l then acc[row := (acc ! row)[id := acc ! row ! id + g]] else acc) xs acc ! i ! j =
    acc ! i ! j + (\<Sum>(row, id, l, g)\<leftarrow>xs. if l \<and> row = i \<and> id = j then g else (0 :: real))"
  using assms
proof (induction xs arbitrary: acc)
  case (Cons x xs)
  obtain row k l g where x: "x = (row, k, l, g)" by (cases x)
  let ?acc = "if l then acc[row := (acc ! row)[k := acc ! row ! k + g]] else acc"
  have "i < length ?acc" "j < length (?acc ! i)" using Cons.prems by (cases "row < length acc"; simp add: nth_list_update)+
  from Cons.IH [OF this] show ?case using Cons.prems by (cases "row < length acc") (auto simp: x nth_list_update)
qed simp

lemma head_grad_sum:
  assumes "length grad = length ids"
  shows "head_grad A t f k ids grad = (\<Sum>m<length ids. if nat (ids ! m) = k then grad ! m / t else 0) - token_prob A (\<lambda>c. f c / t) k * sum_list grad / t"
proof -
  have "head_grad A t f k ids grad = (\<Sum>m<length ids. grad ! m * ((of_bool (k = nat (ids ! m)) - token_prob A (\<lambda>c. f c / t) k) / t))"
    using assms by (simp add: head_grad_def sum_list_sum_nth lessThan_atLeast0)
  also have "\<dots> = (\<Sum>m<length ids. (if nat (ids ! m) = k then grad ! m / t else 0) - token_prob A (\<lambda>c. f c / t) k * grad ! m / t)"
    by (intro sum.cong) (auto simp: diff_divide_distrib algebra_simps)
  also have "\<dots> = (\<Sum>m<length ids. if nat (ids ! m) = k then grad ! m / t else 0) - token_prob A (\<lambda>c. f c / t) k * (\<Sum>m<length ids. grad ! m) / t"
    by (simp add: sum_subtractf sum_distrib_left sum_divide_distrib)
  finally show ?thesis using assms by (simp add: sum_list_sum_nth lessThan_atLeast0)
qed

lemma ragged_backward_eq:
  assumes ok: "supports_ok n seq v supp offsets logits" and r: "r < n" and ij: "i < seq" "j < v"
    and len: "map length G = map length supp"
    and ctx: "c = \<lparr>rc_rows = map fst (entries (map length supp)), rc_local_ids = map (local_id r v) (concat supp),
        rc_local = map (\<lambda>k. \<not> off_shard r v k) (concat supp),
        rc_probs = map (\<lambda>(i, m). token_prob (token_set (supp ! i)) (scaled_row v t logits i) (nat (supp ! i ! m))) (entries (map length supp)),
        rc_shape = (seq, v)\<rparr>"
  shows "ragged_backward t c (concat G) ! i ! j = head_grad (token_set (supp ! i)) t (full_row v logits i) (r * v + j) (supp ! i) (G ! i)"
proof -
  have hok: "heads_ok n seq v supp logits" using ok by (simp add: supports_ok_def)
  note okd = heads_okD [OF hok]
  let ?es = "entries (map length supp)" and ?k = "r * v + j"
  let ?P = "\<lambda>e. token_prob (token_set (supp ! fst e)) (scaled_row v t logits (fst e)) (nat (supp ! fst e ! snd e))"
  have es: "fst e < seq" "supp ! fst e ! snd e \<in> set (supp ! fst e)" if "e \<in> set ?es" for e
    using that okd(4) by (auto simp: set_entries)
  have Gi: "length (G ! i) = length (supp ! i)" "length G = seq"
    using len okd(4) ij(1) by (metis length_map nth_map)+
  note ids = entries_concat [of supp, unfolded case_prod_beta] and gs = entries_concat [of G, unfolded len case_prod_beta]
  have row_sum: "scatter_add (map fst ?es) (map (\<lambda>e. G ! fst e ! snd e) ?es) (replicate seq 0) ! fst e = sum_list (G ! fst e)" if "e \<in> set ?es" for e
  proof -
    have "length (G ! fst e) = length (supp ! fst e)" using len es(1) [OF that] okd(4) Gi(2) by (metis nth_map)
    moreover have "scatter_add (map fst ?es) (map (\<lambda>e. G ! fst e ! snd e) ?es) (replicate seq 0) ! fst e =
        (\<Sum>m<length (supp ! fst e). G ! fst e ! m)"
      using es(1) [OF that] okd(4) by (simp add: scatter_add_nth zip_map_map zip_same_conv_map comp_def sum_entries cong: if_cong)
    ultimately show ?thesis by (simp add: sum_list_sum_nth lessThan_atLeast0)
  qed
  let ?g = "\<lambda>e. (G ! fst e ! snd e - ?P e * sum_list (G ! fst e)) / t"
  have "ragged_backward t c (concat G) = fold (\<lambda>(row, id, l, g) acc. if l then acc[row := (acc ! row)[id := acc ! row ! id + g]] else acc)
      (map (\<lambda>e. (fst e, local_id r v (supp ! fst e ! snd e), \<not> off_shard r v (supp ! fst e ! snd e), ?g e)) ?es) (replicate seq (replicate v 0))"
    unfolding ragged_backward_def Let_def ctx ids gs
    by (simp add: zip_map_map zip_same_conv_map comp_def case_prod_beta row_sum cong: map_cong)
  then have "ragged_backward t c (concat G) ! i ! j = (\<Sum>e\<leftarrow>?es. if \<not> off_shard r v (supp ! fst e ! snd e) \<and> fst e = i \<and> local_id r v (supp ! fst e ! snd e) = j
      then ?g e else 0)"
    using scatter_rows [of i "replicate seq (replicate v 0)" j] ij by (simp add: comp_def cong: if_cong)
  also have "\<dots> = (\<Sum>e\<leftarrow>?es. if fst e = i then (if nat (supp ! fst e ! snd e) = ?k then ?g e else 0) else 0)"
  proof (intro arg_cong [where f = sum_list] map_cong refl)
    fix e assume e: "e \<in> set ?es"
    have "\<not> off_shard r v (supp ! fst e ! snd e) \<and> local_id r v (supp ! fst e ! snd e) = j \<longleftrightarrow> nat (supp ! fst e ! snd e) = ?k"
      by (rule on_shard_iff [OF okd(5) [OF es [OF e]] r ij(2)])
    then show "(if \<not> off_shard r v (supp ! fst e ! snd e) \<and> fst e = i \<and> local_id r v (supp ! fst e ! snd e) = j then ?g e else 0) =
        (if fst e = i then (if nat (supp ! fst e ! snd e) = ?k then ?g e else 0) else 0)" by auto
  qed
  also have "\<dots> = (\<Sum>m<length (supp ! i). if nat (supp ! i ! m) = ?k then ?g (i, m) else 0)"
    using ij(1) okd(4) by (simp add: sum_entries cong: if_cong)
  also have "\<dots> = (\<Sum>m<length (supp ! i). (if nat (supp ! i ! m) = ?k then G ! i ! m / t else 0) -
      (if nat (supp ! i ! m) = ?k then token_prob (token_set (supp ! i)) (scaled_row v t logits i) ?k * sum_list (G ! i) / t else 0))"
    by (intro sum.cong) (auto simp: diff_divide_distrib)
  also have "\<dots> = (\<Sum>m<length (supp ! i). if nat (supp ! i ! m) = ?k then G ! i ! m / t else 0) -
      (\<Sum>k \<in> token_set (supp ! i). if k = ?k then token_prob (token_set (supp ! i)) (scaled_row v t logits i) ?k * sum_list (G ! i) / t else 0)"
  proof -
    have "(\<Sum>m<length (supp ! i). (\<lambda>k. if k = ?k then x else 0) (nat (supp ! i ! m))) = (\<Sum>k \<in> token_set (supp ! i). if k = ?k then x else 0)" for x :: real
      using ok okd(4) okd(5) [OF ij(1)] ij(1) by (intro sum_tokens [where f = "\<lambda>k. if k = ?k then x else 0"]) (auto simp: supports_ok_def)
    then show ?thesis by (simp only: sum_subtractf)
  qed
  also have "\<dots> = head_grad (token_set (supp ! i)) t (full_row v logits i) ?k (supp ! i) (G ! i)"
    unfolding head_grad_sum [OF Gi(1)] scaled_row_def [abs_def] by (simp add: token_set_def token_prob_def)
  finally show ?thesis .
qed

text \<open>C39: The log-probabilities of ragged supports of distinct tokens are those of the softmax over each row's support at the
  rollout temperature, whatever the number of ranks, empty supports included, and the backward pass gives every rank the derivative,
  by each of its logits, of a row's log-probabilities weighted with the incoming gradients.\<close>

theorem ragged_log_probs_and_gradient:
  assumes "sums_ranks all_sum" "supports_ok n seq v supp offsets logits" "0 < t" "r < n" "map length G = map length supp"
  shows "\<exists>ctxs. ragged_forward all_sum t (concat supp) offsets logits =
      Inr (concat (map (\<lambda>i. map (\<lambda>id. token_log_prob (nat ` set (supp ! i)) (nat id) (\<lambda>c. full_row v logits i c / t)) (supp ! i)) [0..<seq]), ctxs) \<and>
    (\<forall>i j. i < seq \<and> j < v \<longrightarrow>
      ((\<lambda>z. weighted_log_probs (nat ` set (supp ! i)) t (supp ! i) (G ! i) ((full_row v logits i)(r * v + j := z)))
        has_real_derivative ragged_backward t (ctxs ! r) (concat G) ! i ! j) (at (logits ! r ! i ! j)))"
proof -
  have hok: "heads_ok n seq v supp logits" using assms(2) by (simp add: supports_ok_def)
  note okd = heads_okD [OF hok]
  let ?lp = "\<lambda>i id. token_log_prob (token_set (supp ! i)) (nat id) (scaled_row v t logits i)"
  let ?xss = "map (\<lambda>i. map (?lp i) (supp ! i)) [0..<seq]"
  have xss: "map length ?xss = map length supp" using okd(4) by (intro nth_equalityI) simp_all
  have "concat ?xss = map (\<lambda>(i, m). ?lp i (supp ! i ! m)) (entries (map length supp))"
    unfolding entries_concat [of ?xss] xss using okd(4) by (intro map_cong) (auto simp: set_entries)
  then have concat: "map (\<lambda>(i, m). token_log_prob (token_set (supp ! i)) (nat (supp ! i ! m)) (scaled_row v t logits i)) (entries (map length supp)) = concat ?xss"
    by simp
  have deriv: "((\<lambda>z. weighted_log_probs (nat ` set (supp ! i)) t (supp ! i) (G ! i) ((full_row v logits i)(r * v + j := z)))
      has_real_derivative head_grad (token_set (supp ! i)) t (full_row v logits i) (r * v + j) (supp ! i) (G ! i)) (at (logits ! r ! i ! j))"
    if "i < seq" "j < v" for i j
    using head_grad_deriv [of "token_set (supp ! i)" "supp ! i" t "G ! i" "full_row v logits i" "r * v + j"] block_entry(2,3) [OF assms(4) that(2)]
    by (simp add: token_set_def full_row_def)
  show ?thesis
    unfolding ragged_forward_eq [OF assms(1,2)] concat
    using ragged_backward_eq [OF assms(2,4) _ _ assms(5) refl] deriv assms(4)
    by (intro exI conjI refl) (auto simp: token_set_def scaled_row_def [abs_def])
qed

section \<open>Witnesses\<close>

lemma demo_heads_ok: "heads_ok 2 2 2 [[3, 0], [1]] demo_logits"
  by (auto simp: heads_ok_def group_shape_def demo_logits_def less_Suc_eq numeral_2_eq_2)

lemma demo_supports_ok: "supports_ok 2 2 2 [[3, 0], [1]] [0, 2, 3] demo_logits"
  using demo_heads_ok by (auto simp: supports_ok_def less_Suc_eq numeral_2_eq_2)

theorem topk_log_probs_and_gradient_witness:
  "calculate_topk_log_probs col_max vec_sum demo_logits [[3, 0], [1]] 1 2 ([[], []], [0, 0], [0, 0]) =
     map (\<lambda>i. map (\<lambda>id. token_log_prob {..<2 * 2} (nat id) (\<lambda>c. full_row 2 demo_logits i c / 2)) ([[3, 0], [1]] ! i)) [0..<2]"
proof -
  obtain o' m z where f: "topk_forward col_max vec_sum 2 (topk_chunk_size 1 2) [[3, 0], [1]] demo_logits ([[], []], [0, 0], [0, 0]) = (o', m, z)"
    by (cases "topk_forward col_max vec_sum 2 (topk_chunk_size 1 2) [[3, 0], [1]] demo_logits ([[], []], [0, 0], [0, 0])")
  have g: "length ([[1, 2], [3 :: real]] ! i) = length ([[3, 0], [1 :: int]] ! i)" if "i < 2" for i using that by (auto simp: less_Suc_eq numeral_2_eq_2)
  have "length [[], [] :: real list] = 2" "length [0, 0 :: real] = 2" by simp_all
  note l = this
  note main = topk_log_probs_and_gradient [OF vec_sum_sums_ranks col_max_maxes demo_heads_ok _ l(1,2,2,1) zero_less_numeral g f]
  show ?thesis using main by simp
qed

theorem ragged_log_probs_and_gradient_witness:
  "\<exists>ctxs. ragged_forward vec_sum 2 [3, 0, 1] [0, 2, 3] demo_logits =
     Inr ([token_log_prob {0, 3} 3 (\<lambda>c. full_row 2 demo_logits 0 c / 2), token_log_prob {0, 3} 0 (\<lambda>c. full_row 2 demo_logits 0 c / 2),
       token_log_prob {1} 1 (\<lambda>c. full_row 2 demo_logits 1 c / 2)], ctxs)"
  using ragged_log_probs_and_gradient [OF vec_sum_sums_ranks demo_supports_ok, of 2 0 "[[1, 2], [3]]"]
  by (auto simp: upt_rec insert_commute)

end
