(* ===== verification/Advantages.thy ===== *)
theory Advantages
  imports Ppo_Utils Layout_Columns
begin

text \<open>
  From log-probabilities, values and rewards to advantages and returns, \<open>vime/backends/megatron_utils/loss.py\<close> lines
  684-901, and the whitening over a process group, \<open>vime/utils/distributed_utils.py\<close> lines 102-163. The functions run on
  the last pipeline stage. \<open>parts ! r\<close> is what context-parallel rank \<open>r\<close> holds of the rollout data of one data-parallel
  rank; the all-reduces are parameters; floats are exact reals.
\<close>

section \<open>Arguments and data\<close>

record rollout_part =
  rp_rollout_log_probs :: "real list list option"
  rp_log_probs :: "real list list option"
  rp_ref_log_probs :: "real list list option"
  rp_values :: "real list list option"
  rp_teacher_log_probs :: "real list list option"
  rp_rewards :: "real list"
  rp_response_lengths :: "nat list"
  rp_loss_masks :: "real list list"
  rp_total_lengths :: "int list"

text \<open>Advantages and returns. Without a second list the returns are the very list of the advantages, and change when that list
  is changed in place.\<close>

type_synonym adv_ret = "real list list \<times> real list list option"

text \<open>\<open>aa_custom\<close> is the function at \<open>custom_advantage_function_path\<close>, given the data of the rank and its KL terms.\<close>

record adv_args =
  aa_advantage_estimator :: string
  aa_kl_coef :: real
  aa_kl_loss_type :: string
  aa_use_rollout_logprobs :: bool
  aa_custom :: "(rollout_part \<Rightarrow> real list list \<Rightarrow> adv_ret result) option"
  aa_gamma :: real
  aa_lambd :: real
  aa_use_opd :: bool
  aa_opd_kl_coef :: real
  aa_normalize_advantages :: bool

text \<open>Python's \<open>a or b\<close> on optional lists.\<close>

definition py_or :: "'a list option \<Rightarrow> 'a list option \<Rightarrow> 'a list option" where
  "py_or a b = (case a of Some (x # xs) \<Rightarrow> a | _ \<Rightarrow> b)"

section \<open>KL terms\<close>

definition log_probs_used :: "adv_args \<Rightarrow> rollout_part \<Rightarrow> real list list option" where
  "log_probs_used args p = (if aa_use_rollout_logprobs args then rp_rollout_log_probs p else rp_log_probs p)"

definition kl_terms :: "adv_args \<Rightarrow> rollout_part \<Rightarrow> real list list result" where
  "kl_terms args p =
     (let log_probs = log_probs_used args p in
      if aa_kl_coef args = 0 \<or> py_or log_probs None = None then
        case py_or log_probs (py_or (rp_rollout_log_probs p) (rp_values p)) of
          None \<Rightarrow> Inl (TypeError ''NoneType object is not iterable'')
        | Some xs \<Rightarrow> Inr (map (map (\<lambda>_. 0)) xs)
      else
        res_map (\<lambda>i. case rp_ref_log_probs p of
            None \<Rightarrow> Inl (TypeError ''NoneType object is not subscriptable'')
          | Some refs \<Rightarrow> res_bind (py_nth refs i) (\<lambda>base. compute_approx_kl (the log_probs ! i) base (aa_kl_loss_type args) None))
          [0..<length (the log_probs)])"

section \<open>Estimators\<close>

text \<open>The token rewards of \<open>ppo\<close>: the first context-parallel rank adds the reward to its last entry.\<close>

definition ppo_token_rewards :: "nat \<Rightarrow> real \<Rightarrow> real \<Rightarrow> real list \<Rightarrow> real list result" where
  "ppo_token_rewards cp_rank kl_coef reward per_token_kl =
     (let token_level_rewards = map (\<lambda>x. x * (- kl_coef)) per_token_kl in
      if cp_rank = 0 then
        if token_level_rewards = [] then Inl IndexError
        else Inr (token_level_rewards[length token_level_rewards - 1 := last token_level_rewards + reward])
      else Inr token_level_rewards)"

definition with_kl :: "'a list \<Rightarrow> 'b result \<Rightarrow> 'b result" where
  "with_kl kl m = (if kl = [] then Inl IndexError else m)"

definition estimate ::
  "adv_args \<Rightarrow> (real list list \<Rightarrow> real list) \<Rightarrow> rollout_part list \<Rightarrow> nat \<Rightarrow> real list list list \<Rightarrow> adv_ret result" where
  "estimate args all_reduce parts r kls =
     (let p = parts ! r; kl = kls ! r; e = aa_advantage_estimator args in
      case aa_custom args of
        Some f \<Rightarrow> f p kl
      | None \<Rightarrow>
        if e \<in> {''grpo'', ''gspo'', ''cispo''} then
          with_kl kl (res_bind (get_grpo_returns (rp_rewards p) kl) (\<lambda>ret. Inr (ret, Some ret)))
        else if e = ''ppo'' then
          res_bind (res_map (\<lambda>q. res_map (\<lambda>(reward, k). ppo_token_rewards q (aa_kl_coef args) reward k) (zip (rp_rewards (parts ! q)) (kls ! q)))
              [0..<length parts]) (\<lambda>rewards.
            if \<exists>q \<in> set parts. rp_values q = None then Inl (TypeError ''object of type NoneType has no len()'')
            else res_bind (get_advantages_and_returns_batch all_reduce r (rp_total_lengths p) (rp_response_lengths p)
              (map (\<lambda>q. the (rp_values q)) parts) rewards (aa_gamma args) (aa_lambd args) True) (\<lambda>(adv, ret). Inr (adv, Some ret)))
        else if e = ''reinforce_plus_plus'' then
          with_kl kl (res_bind (get_reinforce_plus_plus_returns all_reduce r (rp_rewards p) kls (rp_loss_masks p) (rp_response_lengths p)
            (rp_total_lengths p) (aa_kl_coef args) (aa_gamma args)) (\<lambda>ret. Inr (ret, Some ret)))
        else if e = ''reinforce_plus_plus_baseline'' then
          with_kl kl (let adv = get_reinforce_plus_plus_baseline_advantages (rp_rewards p) kl (aa_kl_coef args) in Inr (adv, None))
        else Inl (NotImplementedError ''advantage_estimator is not supported''))"

definition apply_opd_kl_to_advantages :: "adv_args \<Rightarrow> rollout_part \<Rightarrow> real list list \<Rightarrow> real list list option \<Rightarrow> real list list result" where
  "apply_opd_kl_to_advantages args p advantages student =
     (case student of
        None \<Rightarrow> Inr advantages
      | Some student_lps \<Rightarrow>
        (case rp_teacher_log_probs p of
           None \<Rightarrow> Inl (ValueError ''OPD requires teacher_log_probs'')
         | Some teacher \<Rightarrow>
           if student_lps = [] then Inl IndexError
           else res_map (\<lambda>i. res_bind (py_nth student_lps i) (\<lambda>s. res_bind (py_nth teacher i) (\<lambda>t.
               res_bind (broadcast2 (-) s t) (\<lambda>reverse_kl. broadcast2 (\<lambda>a k. a - aa_opd_kl_coef args * k) (advantages ! i) reverse_kl))))
             [0..<length advantages]))"

section \<open>Whitening\<close>

text \<open>The part of a loss mask that belongs to the rank's own response tokens.\<close>

definition whitening_mask :: "nat \<Rightarrow> nat \<Rightarrow> int \<Rightarrow> nat \<Rightarrow> real list \<Rightarrow> real list result" where
  "whitening_mask cp_rank cp_size total_len response_len full_mask =
     res_bind (get_logits_and_tokens_offset_with_cp (int cp_rank) (int cp_size) total_len (int response_len)) (\<lambda>o'.
       let prompt_len = total_len - int response_len; ((s0, e0), (s1, e1)) = tokens_offset o';
           part = (\<lambda>s e. let lo = max 0 (s - prompt_len); hi = max 0 (e - prompt_len) in if lo < hi then [py_slice lo hi full_mask] else [])
       in Inr (concat (part s0 e0 @ part s1 e1)))"

definition local_masks :: "nat \<Rightarrow> nat \<Rightarrow> rollout_part \<Rightarrow> nat \<Rightarrow> real list result" where
  "local_masks cp_rank cp_size p k =
     (if cp_size = 1 then
       if rp_loss_masks p = [] then Inl (RuntimeError ''torch.cat(): expected a non-empty list of Tensors'') else Inr (concat (rp_loss_masks p))
      else res_bind (res_map (\<lambda>i. res_bind (py_nth (rp_total_lengths p) i) (\<lambda>t. res_bind (py_nth (rp_response_lengths p) i) (\<lambda>l.
          res_bind (py_nth (rp_loss_masks p) i) (\<lambda>m. whitening_mask cp_rank cp_size t l m)))) [0..<k]) (\<lambda>ms. Inr (concat ms)))"

definition local_stats :: "real list \<Rightarrow> real list \<Rightarrow> real list" where
  "local_stats xs ms = [dot xs ms, dot (map (\<lambda>x. x ^ 2) xs) ms, sum_list ms]"

text \<open>The whitened values of rank \<open>rank\<close> of a group; \<open>xss\<close> and \<open>mss\<close> hold the values and masks of all its ranks.\<close>

definition distributed_masked_whiten ::
  "(real list list \<Rightarrow> real list) \<Rightarrow> real list list \<Rightarrow> real list list \<Rightarrow> nat \<Rightarrow> bool \<Rightarrow> real \<Rightarrow> real list result" where
  "distributed_masked_whiten all_reduce xss mss rank shift_mean epsilon =
     (let stats = all_reduce (map2 local_stats xss mss);
          global_sum = stats ! 0; global_sum_sq = stats ! 1; global_mask_sum = stats ! 2 in
      if global_mask_sum = 0 then Inl (ValueError ''The global mask sum across all participating GPUs is zero.'')
      else let global_mean = global_sum / global_mask_sum; global_mean_sq = global_sum_sq / global_mask_sum;
          var = global_mean_sq - global_mean ^ 2;
          global_var = (if 2 \<le> global_mask_sum then var * (global_mask_sum / (global_mask_sum - 1)) else var);
          whitened = map (\<lambda>x. (x - global_mean) * (1 / sqrt (global_var + epsilon))) (xss ! rank)
        in Inr (if shift_mean then whitened else map (\<lambda>x. x + global_mean) whitened))"

section \<open>Advantages and returns\<close>

text \<open>The distillation penalty replaces the entries of the list of advantages, so the returns of
  \<open>reinforce_plus_plus_baseline\<close>, which are that list, are penalised with it.\<close>

text \<open>Before the whitening, on rank \<open>r\<close> of the context-parallel group of one data-parallel rank.\<close>

definition raw_advantages ::
  "adv_args \<Rightarrow> (real list list \<Rightarrow> real list) \<Rightarrow> rollout_part list \<Rightarrow> nat \<Rightarrow> (real list list \<times> real list list) result" where
  "raw_advantages args all_reduce parts r =
     res_bind (res_map (kl_terms args) parts) (\<lambda>kls.
     res_bind (estimate args all_reduce parts r kls) (\<lambda>(advantages, returns).
     res_bind (if aa_use_opd args then apply_opd_kl_to_advantages args (parts ! r) advantages (log_probs_used args (parts ! r))
               else Inr advantages) (\<lambda>adv. Inr (adv, case returns of None \<Rightarrow> adv | Some ret \<Rightarrow> ret))))"

text \<open>\<open>groups ! d ! r\<close> is what context-parallel rank \<open>r\<close> of data-parallel rank \<open>d\<close> holds. Its values and masks for the whitening:\<close>

definition whitening_input ::
  "adv_args \<Rightarrow> (real list list \<Rightarrow> real list) \<Rightarrow> rollout_part list list \<Rightarrow> nat \<Rightarrow> nat \<Rightarrow> (real list \<times> real list) result" where
  "whitening_input args all_reduce groups e q =
     res_bind (raw_advantages args all_reduce (groups ! e) q) (\<lambda>(adv, _).
       if adv = [] then Inl (RuntimeError ''torch.cat(): expected a non-empty list of Tensors'')
       else res_bind (local_masks q (length (groups ! e)) (groups ! e ! q) (length adv)) (\<lambda>ms.
         if length (concat adv) \<noteq> length ms then Inl (AssertionError ''Shape mismatch before whitening'')
         else Inr (concat adv, ms)))"

definition compute_advantages_and_returns ::
  "adv_args \<Rightarrow> (real list list \<Rightarrow> real list) \<Rightarrow> rollout_part list list \<Rightarrow> nat \<Rightarrow> nat \<Rightarrow> (real list list \<times> real list list) result" where
  "compute_advantages_and_returns args all_reduce groups d r =
     res_bind (raw_advantages args all_reduce (groups ! d) r) (\<lambda>(advantages, returns).
       if aa_normalize_advantages args then
         res_bind (res_map (\<lambda>(e, q). whitening_input args all_reduce groups e q)
             (concat (map (\<lambda>e. map (Pair e) [0..<length (groups ! e)]) [0..<length groups]))) (\<lambda>flat.
         res_bind (distributed_masked_whiten all_reduce (map fst flat) (map snd flat)
             (sum_list (map length (take d groups)) + r) True (1 / 10 ^ 8)) (\<lambda>whitened.
         res_bind (torch_split whitened (map length advantages)) (\<lambda>adv. Inr (adv, returns))))
       else Inr (advantages, returns))"

section \<open>The part of a context-parallel rank\<close>

text \<open>The response tokens a rank owns, and what it holds of the data of a data-parallel rank.\<close>

definition cp_idx :: "nat \<Rightarrow> nat \<Rightarrow> int \<Rightarrow> nat \<Rightarrow> nat list" where
  "cp_idx r n tot L = cp_local r n tot [0..<L]"

definition cut :: "nat \<Rightarrow> nat \<Rightarrow> int list \<Rightarrow> 'a list list \<Rightarrow> 'a list list" where
  "cut n r totals xss = map2 (\<lambda>tot xs. cp_local r n tot xs) totals xss"

definition cp_part :: "nat \<Rightarrow> nat \<Rightarrow> rollout_part \<Rightarrow> rollout_part" where
  "cp_part n r p = (let t = rp_total_lengths p in
     p\<lparr>rp_rollout_log_probs := map_option (cut n r t) (rp_rollout_log_probs p), rp_log_probs := map_option (cut n r t) (rp_log_probs p),
       rp_ref_log_probs := map_option (cut n r t) (rp_ref_log_probs p), rp_values := map_option (cut n r t) (rp_values p),
       rp_teacher_log_probs := map_option (cut n r t) (rp_teacher_log_probs p)\<rparr>)"

text \<open>A list per sample of one entry per response token.\<close>

definition per_token :: "rollout_part \<Rightarrow> 'a list list \<Rightarrow> bool" where
  "per_token p xss \<longleftrightarrow> length xss = length (rp_total_lengths p) \<and> (\<forall>i < length xss. length (xss ! i) = rp_response_lengths p ! i)"

definition part_ok :: "rollout_part \<Rightarrow> bool" where
  "part_ok p \<longleftrightarrow> rp_total_lengths p \<noteq> [] \<and> length (rp_response_lengths p) = length (rp_total_lengths p) \<and>
     length (rp_rewards p) = length (rp_total_lengths p) \<and> per_token p (rp_loss_masks p) \<and>
     (\<forall>i < length (rp_total_lengths p). int (rp_response_lengths p ! i) < rp_total_lengths p ! i) \<and>
     (\<forall>f \<in> {rp_rollout_log_probs, rp_log_probs, rp_ref_log_probs, rp_values, rp_teacher_log_probs}. \<forall>xss. f p = Some xss \<longrightarrow> per_token p xss)"

lemma cp_local_idx:
  assumes "r < n" "int (length xs) < tot"
  shows "cp_local r n tot xs = map ((!) xs) (cp_idx r n tot (length xs))"
proof -
  have "int (length [0..<length xs]) < tot" using assms(2) by simp
  from cp_local_map [OF assms(1) this, of "(!) xs"] show ?thesis unfolding cp_idx_def by (simp add: map_nth)
qed

lemma cp_idx_bound: "r < n \<Longrightarrow> int L < tot \<Longrightarrow> k \<in> set (cp_idx r n tot L) \<Longrightarrow> k < L"
  using cp_local_subset [of r n "[0..<L]" tot] by (auto simp: cp_idx_def)

lemma cp_local_one [simp]: "cp_local 0 (Suc 0) tot xs = xs"
  by (simp add: slice_log_prob_with_cp_def)

lemma cp_local_zip:
  assumes "r < n" "int (length xs) < tot" "length ys = length xs"
  shows "cp_local r n tot (zip xs ys) = zip (cp_local r n tot xs) (cp_local r n tot ys)"
proof -
  have "int (length (zip xs ys)) < tot" "int (length ys) < tot" "length (zip xs ys) = length xs" using assms(2,3) by simp_all
  note idx = cp_local_idx [OF assms(1) this(1)] cp_local_idx [OF assms(1,2)] cp_local_idx [OF assms(1) this(2)]
  show ?thesis unfolding idx unfolding assms(3) \<open>length (zip xs ys) = length xs\<close>
    using cp_idx_bound [OF assms(1,2)] assms(3) by (intro nth_equalityI) (auto simp: nth_mem)
qed

lemma cp_local_map2:
  assumes "r < n" "int (length xs) < tot" "length ys = length xs"
  shows "cp_local r n tot (map2 f xs ys) = map2 f (cp_local r n tot xs) (cp_local r n tot ys)"
proof -
  have "int (length (zip xs ys)) < tot" using assms(2) by simp
  from cp_local_map [OF assms(1) this] show ?thesis by (simp only: cp_local_zip [OF assms])
qed

lemma part_okD:
  assumes "part_ok p" "i < length (rp_total_lengths p)"
  shows "int (rp_response_lengths p ! i) < rp_total_lengths p ! i" "length (rp_loss_masks p ! i) = rp_response_lengths p ! i"
    "per_token p xss \<Longrightarrow> length (xss ! i) = rp_response_lengths p ! i" "per_token p xss \<Longrightarrow> int (length (xss ! i)) < rp_total_lengths p ! i"
  using assms by (auto simp: part_ok_def per_token_def)

lemma length_cut [simp]: "length (cut n r totals xss) = min (length totals) (length xss)"
  by (simp add: cut_def)

lemma nth_cut: "per_token p xss \<Longrightarrow> i < length (rp_total_lengths p) \<Longrightarrow> cut n r (rp_total_lengths p) xss ! i = cp_local r n (rp_total_lengths p ! i) (xss ! i)"
  by (simp add: per_token_def cut_def)

text \<open>Operations on every entry commute with the cut.\<close>

lemma cut_pointwise:
  assumes "part_ok p" "r < n" "per_token p xss" "per_token p yss"
  shows "map2 (map2 f) (cut n r (rp_total_lengths p) xss) (cut n r (rp_total_lengths p) yss) = cut n r (rp_total_lengths p) (map2 (map2 f) xss yss)"
    and "per_token p (map2 (map2 f) xss yss)"
proof -
  show pt: "per_token p (map2 (map2 f) xss yss)" using assms(3,4) by (auto simp: per_token_def)
  show "map2 (map2 f) (cut n r (rp_total_lengths p) xss) (cut n r (rp_total_lengths p) yss) = cut n r (rp_total_lengths p) (map2 (map2 f) xss yss)"
  proof (rule nth_equalityI)
    fix i assume "i < length (map2 (map2 f) (cut n r (rp_total_lengths p) xss) (cut n r (rp_total_lengths p) yss))"
    then have i: "i < length (rp_total_lengths p)" by simp
    have l: "length (yss ! i) = length (xss ! i)" using part_okD(3) [OF assms(1) i assms(3)] part_okD(3) [OF assms(1) i assms(4)] by simp
    show "map2 (map2 f) (cut n r (rp_total_lengths p) xss) (cut n r (rp_total_lengths p) yss) ! i = cut n r (rp_total_lengths p) (map2 (map2 f) xss yss) ! i"
      using i assms(3,4) cp_local_map2 [OF assms(2) part_okD(4) [OF assms(1) i assms(3)] l, of f]
      by (simp add: nth_cut [OF pt] nth_cut [OF assms(3)] nth_cut [OF assms(4)] length_cut per_token_def)
  qed (use assms(3,4) in \<open>simp add: per_token_def\<close>)
qed

lemma cut_map:
  assumes "part_ok p" "r < n" "per_token p xss"
  shows "map (map f) (cut n r (rp_total_lengths p) xss) = cut n r (rp_total_lengths p) (map (map f) xss)" "per_token p (map (map f) xss)"
proof -
  show pt: "per_token p (map (map f) xss)" using assms(3) by (auto simp: per_token_def)
  show "map (map f) (cut n r (rp_total_lengths p) xss) = cut n r (rp_total_lengths p) (map (map f) xss)"
  proof (rule nth_equalityI)
    fix i assume "i < length (map (map f) (cut n r (rp_total_lengths p) xss))"
    then have i: "i < length (rp_total_lengths p)" by simp
    show "map (map f) (cut n r (rp_total_lengths p) xss) ! i = cut n r (rp_total_lengths p) (map (map f) xss) ! i"
      using i assms(3) cp_local_map [OF assms(2) part_okD(4) [OF assms(1) i assms(3)], of f]
      by (simp add: nth_cut [OF pt] nth_cut [OF assms(3)] length_cut per_token_def)
  qed (use assms(3) in \<open>simp add: per_token_def\<close>)
qed

lemma cut_with:
  assumes "part_ok p" "r < n" "per_token p xss" "length ws = length (rp_total_lengths p)"
  shows "map2 (\<lambda>w xs. map (f w) xs) ws (cut n r (rp_total_lengths p) xss) = cut n r (rp_total_lengths p) (map2 (\<lambda>w xs. map (f w) xs) ws xss)"
    and "per_token p (map2 (\<lambda>w xs. map (f w) xs) ws xss)"
proof -
  show pt: "per_token p (map2 (\<lambda>w xs. map (f w) xs) ws xss)" using assms(3,4) by (auto simp: per_token_def)
  show "map2 (\<lambda>w xs. map (f w) xs) ws (cut n r (rp_total_lengths p) xss) = cut n r (rp_total_lengths p) (map2 (\<lambda>w xs. map (f w) xs) ws xss)"
  proof (rule nth_equalityI)
    fix i assume "i < length (map2 (\<lambda>w xs. map (f w) xs) ws (cut n r (rp_total_lengths p) xss))"
    then have i: "i < length (rp_total_lengths p)" by simp
    show "map2 (\<lambda>w xs. map (f w) xs) ws (cut n r (rp_total_lengths p) xss) ! i = cut n r (rp_total_lengths p) (map2 (\<lambda>w xs. map (f w) xs) ws xss) ! i"
      using i assms(3,4) cp_local_map [OF assms(2) part_okD(4) [OF assms(1) i assms(3)], of "f (ws ! i)"]
      by (simp add: nth_cut [OF pt] nth_cut [OF assms(3)] length_cut per_token_def)
  qed (use assms(3,4) in \<open>simp add: per_token_def\<close>)
qed

text \<open>Fields of a rank's part.\<close>

lemma cp_part_simps [simp]:
  "rp_rollout_log_probs (cp_part n r p) = map_option (cut n r (rp_total_lengths p)) (rp_rollout_log_probs p)"
  "rp_log_probs (cp_part n r p) = map_option (cut n r (rp_total_lengths p)) (rp_log_probs p)"
  "rp_ref_log_probs (cp_part n r p) = map_option (cut n r (rp_total_lengths p)) (rp_ref_log_probs p)"
  "rp_values (cp_part n r p) = map_option (cut n r (rp_total_lengths p)) (rp_values p)"
  "rp_teacher_log_probs (cp_part n r p) = map_option (cut n r (rp_total_lengths p)) (rp_teacher_log_probs p)"
  "rp_rewards (cp_part n r p) = rp_rewards p" "rp_response_lengths (cp_part n r p) = rp_response_lengths p"
  "rp_loss_masks (cp_part n r p) = rp_loss_masks p" "rp_total_lengths (cp_part n r p) = rp_total_lengths p"
  by (simp_all add: cp_part_def Let_def)

lemma part_ok_fields:
  assumes "part_ok p"
  shows "rp_rollout_log_probs p = Some xss \<Longrightarrow> per_token p xss" "rp_log_probs p = Some xss \<Longrightarrow> per_token p xss"
    "rp_ref_log_probs p = Some xss \<Longrightarrow> per_token p xss" "rp_values p = Some xss \<Longrightarrow> per_token p xss"
    "rp_teacher_log_probs p = Some xss \<Longrightarrow> per_token p xss" "log_probs_used args p = Some xss \<Longrightarrow> per_token p xss"
proof -
  have all: "\<forall>f \<in> {rp_rollout_log_probs, rp_log_probs, rp_ref_log_probs, rp_values, rp_teacher_log_probs}. \<forall>xss. f p = Some xss \<longrightarrow> per_token p xss"
    using assms unfolding part_ok_def by blast
  show "rp_rollout_log_probs p = Some xss \<Longrightarrow> per_token p xss" using all by blast
  show "rp_log_probs p = Some xss \<Longrightarrow> per_token p xss" using all by blast
  show "rp_ref_log_probs p = Some xss \<Longrightarrow> per_token p xss" using all by blast
  show "rp_values p = Some xss \<Longrightarrow> per_token p xss" using all by blast
  show "rp_teacher_log_probs p = Some xss \<Longrightarrow> per_token p xss" using all by blast
  show "log_probs_used args p = Some xss \<Longrightarrow> per_token p xss"
    using all by (cases "aa_use_rollout_logprobs args") (simp_all add: log_probs_used_def)
qed

lemma part_not_Nil:
  assumes "part_ok p"
  shows "rp_total_lengths p \<noteq> []" "per_token p xss \<Longrightarrow> xss \<noteq> []" "per_token p xss \<Longrightarrow> cut n r (rp_total_lengths p) xss \<noteq> []"
proof -
  show t: "rp_total_lengths p \<noteq> []" using assms unfolding part_ok_def by blast
  show "xss \<noteq> []" if "per_token p xss" using t that by (auto simp: per_token_def)
  then show "cut n r (rp_total_lengths p) xss \<noteq> []" if "per_token p xss" using t that by (cases "rp_total_lengths p"; cases xss) (simp_all add: cut_def)
qed

lemma log_probs_used_cp [simp]: "log_probs_used args (cp_part n r p) = map_option (cut n r (rp_total_lengths p)) (log_probs_used args p)"
  by (simp add: log_probs_used_def)

lemma py_or_simps [simp]: "py_or None b = b" "xs \<noteq> [] \<Longrightarrow> py_or (Some xs) b = Some xs"
  by (auto simp: py_or_def split: list.split)

section \<open>KL terms of a part\<close>

lemma approx_kl_pointwise:
  assumes "compute_approx_kl xs ys t None = Inr zs"
  shows "\<exists>g. \<forall>as bs. compute_approx_kl as bs t None = Inr (map2 g as bs)"
proof -
  have m: "map f (map2 (-) as bs) = map2 (\<lambda>a b. f (a - b)) as bs" for f :: "real \<Rightarrow> real" and as bs by (simp add: case_prod_beta o_def)
  consider "t = ''k1''" | "t = ''k2''" | "t = ''k3''" | "t = ''low_var_kl''"
    using assms by (auto simp: compute_approx_kl_def Let_def split: if_splits)
  then show ?thesis
  proof cases
    case 1
    then show ?thesis by (intro exI [of _ "(-)"]) (simp add: compute_approx_kl_def)
  next
    case 2
    then show ?thesis by (intro exI [of _ "\<lambda>a b. (a - b) ^ 2 / 2"]) (simp add: compute_approx_kl_def m del: map_map)
  next
    case 3
    then show ?thesis by (intro exI [of _ "\<lambda>a b. exp (- (a - b)) - 1 - (- (a - b))"]) (simp add: compute_approx_kl_def case_prod_beta o_def)
  next
    case 4
    then show ?thesis by (intro exI [of _ "\<lambda>a b. clamp (-10) 10 (exp (- (a - b)) - 1 - (- (a - b)))"]) (simp add: compute_approx_kl_def case_prod_beta o_def algebra_simps)
  qed
qed

lemma kl_terms_cp:
  assumes "part_ok p" "r < n" "kl_terms args p = Inr kl"
  shows "per_token p kl \<and> kl_terms args (cp_part n r p) = Inr (cut n r (rp_total_lengths p) kl)"
proof -
  let ?lps = "log_probs_used args" and ?q = "cp_part n r p" and ?cut = "\<lambda>xss. cut n r (rp_total_lengths p) xss"
  have nonempty: "m = Some xss \<Longrightarrow> per_token p xss \<Longrightarrow> py_or m b = m \<and> py_or (Some (?cut xss)) b' = Some (?cut xss)"
    for m and xss :: "real list list" and b b'
    using py_or_simps(2) [OF part_not_Nil(2) [OF assms(1)]] py_or_simps(2) [OF part_not_Nil(3) [OF assms(1)]] by blast
  show ?thesis
  proof (cases "aa_kl_coef args = 0 \<or> ?lps p = None")
    case True
    let ?or = "\<lambda>p. py_or (?lps p) (py_or (rp_rollout_log_probs p) (rp_values p))"
    have none: "py_or (?lps x) None = None" if "?lps x = None" for x using that by simp
    obtain xss where xss: "?or p = Some xss" "kl = map (map (\<lambda>_. 0)) xss"
      using assms(3) True by (auto simp: kl_terms_def Let_def split: option.splits)
    have "per_token p xss \<and> ?or ?q = Some (?cut xss)"
    proof (cases "?lps p")
      case lps: None
      show ?thesis
      proof (cases "rp_rollout_log_probs p")
        case None
        then show ?thesis using lps xss(1) part_ok_fields(4) [OF assms(1)] by simp
      next
        case (Some yss)
        then show ?thesis using lps xss(1) part_ok_fields(1) [OF assms(1) Some] nonempty by simp
      qed
    next
      case (Some yss)
      then show ?thesis using xss(1) part_ok_fields(6) [OF assms(1) Some] nonempty by simp
    qed
    then show ?thesis using cut_map [OF assms(1,2), of xss "\<lambda>_. 0"] True xss(2) by (auto simp: kl_terms_def Let_def)
  next
    case False
    then obtain xss where xss: "?lps p = Some xss" by auto
    have pt: "per_token p xss" by (rule part_ok_fields(6) [OF assms(1) xss])
    have whole: "res_map (\<lambda>i. case rp_ref_log_probs p of
            None \<Rightarrow> Inl (TypeError ''NoneType object is not subscriptable'')
          | Some refs \<Rightarrow> res_bind (py_nth refs i) (\<lambda>base. compute_approx_kl (xss ! i) base (aa_kl_loss_type args) None))
          [0..<length xss] = Inr kl"
      using assms(3) False xss nonempty [OF xss pt] by (simp add: kl_terms_def Let_def cong: option.case_cong)
    have i0: "0 < length xss" using part_not_Nil(2) [OF assms(1) pt] by simp
    obtain refs where refs: "rp_ref_log_probs p = Some refs" using res_map_nth [OF whole, of 0] i0 by (cases "rp_ref_log_probs p") auto
    have ptr: "per_token p refs" by (rule part_ok_fields(3) [OF assms(1) refs])
    have len: "length refs = length xss" using pt ptr by (simp add: per_token_def)
    obtain zs where "compute_approx_kl (xss ! 0) (refs ! 0) (aa_kl_loss_type args) None = Inr zs"
      using res_map_nth [OF whole, of 0] i0 refs by (auto simp: res_bind_eq_Inr)
    then obtain g where g: "\<forall>as bs. compute_approx_kl as bs (aa_kl_loss_type args) None = Inr (map2 g as bs)"
      using approx_kl_pointwise by blast
    have run: "res_map (\<lambda>i. res_bind (py_nth bs i) (\<lambda>base. compute_approx_kl (as ! i) base (aa_kl_loss_type args) None)) [0..<length as] = Inr (map2 (map2 g) as bs)"
      if "length bs = length as" for as bs
    proof -
      have "res_map (\<lambda>i. res_bind (py_nth bs i) (\<lambda>base. compute_approx_kl (as ! i) base (aa_kl_loss_type args) None)) [0..<length as] =
          Inr (map (\<lambda>i. map2 g (as ! i) (bs ! i)) [0..<length as])"
        using that g by (intro res_map_Inr_ball) (simp add: py_nth_def)
      also have "map (\<lambda>i. map2 g (as ! i) (bs ! i)) [0..<length as] = map2 (map2 g) as bs"
        using that by (intro nth_equalityI) simp_all
      finally show ?thesis .
    qed
    have "kl = map2 (map2 g) xss refs" using whole run [OF len] refs by simp
    moreover have "length (?cut refs) = length (?cut xss)" using pt ptr by (simp add: per_token_def)
    from run [OF this] have "kl_terms args ?q = Inr (map2 (map2 g) (?cut xss) (?cut refs))"
      using False xss refs nonempty [OF xss pt] by (simp add: kl_terms_def Let_def cong: option.case_cong)
    ultimately show ?thesis using cut_pointwise [OF assms(1,2) pt ptr, of g] by simp
  qed
qed

section \<open>Where the reward of a sequence lands\<close>

text \<open>The reference: minus the weighted KL of every token, plus the reward on the last token.\<close>

definition ppo_reference :: "real \<Rightarrow> real \<Rightarrow> real list \<Rightarrow> real list" where
  "ppo_reference kl_coef reward kl = map (\<lambda>i. kl ! i * (- kl_coef) + (if Suc i = length kl then reward else 0)) [0..<length kl]"

lemma length_ppo_reference [simp]: "length (ppo_reference kl_coef reward kl) = length kl"
  by (simp add: ppo_reference_def)

text \<open>The first rank holds the row that predicts the last token of a sequence.\<close>

definition reward_row_on_first :: "nat \<Rightarrow> int \<Rightarrow> bool" where
  "reward_row_on_first n tot \<longleftrightarrow> n = 1 \<or> owns 0 (int n) tot (tot - 2)"

lemma slice_upt_0: "slice a b [0..<L] = [a..<min b L]"
  by (rule nth_equalityI) (auto simp: slice_def less_diff_conv add.commute)

lemma cp_idx_eq:
  assumes "1 < n" "r < n" "int L < tot"
  shows "\<exists>a b c d. cp_idx r n tot L = [a..<min b L] @ [c..<min d L] \<and> b \<le> c \<and>
    (\<forall>k < L. (a \<le> k \<and> k < b \<or> c \<le> k \<and> k < d) \<longleftrightarrow> owns (int r) (int n) tot (int k + tot - int L - 1))"
proof -
  let ?P = "tot - int L" and ?f = "first_chunk (int r) (int n) tot" and ?s = "second_chunk (int r) (int n) tot"
  have ch: "1 < int n" "0 \<le> int r" "int r < int n" "0 < tot" using assms by simp_all
  have "cp_idx r n tot L = rank_slice (int r) (int n) tot ?P [0..<L]"
    using slice_log_prob_eq [OF ch, of "[0..<L]" "int L"] by (simp add: cp_idx_def del: diff_diff_eq)
  then have eq: "cp_idx r n tot L = [chunk_lo ?P ?f..<min (chunk_hi tot ?P ?f) L] @ [chunk_lo ?P ?s..<min (chunk_hi tot ?P ?s) L]"
    by (simp only: slice_upt_0)
  have order: "chunk_hi tot ?P ?f \<le> chunk_lo ?P ?s" using rank_chunks(3) [OF ch] by (intro nat_mono) linarith
  have "(chunk_lo ?P ?f \<le> k \<and> k < chunk_hi tot ?P ?f \<or> chunk_lo ?P ?s \<le> k \<and> k < chunk_hi tot ?P ?s) \<longleftrightarrow>
      owns (int r) (int n) tot (int k + tot - int L - 1)" if "k < L" for k
  proof -
    have P: "1 \<le> ?P" "int k < tot - ?P" using assms(3) that by simp_all
    have pos: "int k + tot - int L - 1 = int k + ?P - 1" by simp
    show ?thesis unfolding pos rank_chunks(5) [OF ch] using chunk_member [OF P, of ?f] chunk_member [OF P, of ?s] by blast
  qed
  with eq order show ?thesis by blast
qed

lemma cp_idx_set:
  assumes "1 < n" "r < n" "int L < tot"
  shows "k \<in> set (cp_idx r n tot L) \<longleftrightarrow> k < L \<and> owns (int r) (int n) tot (int k + tot - int L - 1)"
proof -
  obtain a b c d where idx: "cp_idx r n tot L = [a..<min b L] @ [c..<min d L]"
    "\<forall>k < L. (a \<le> k \<and> k < b \<or> c \<le> k \<and> k < d) \<longleftrightarrow> owns (int r) (int n) tot (int k + tot - int L - 1)"
    using cp_idx_eq [OF assms] by blast
  then show ?thesis by auto
qed

lemma sorted_cp_idx:
  assumes "1 < n" "r < n" "int L < tot"
  shows "sorted_wrt (<) (cp_idx r n tot L)"
proof -
  obtain a b c d where idx: "cp_idx r n tot L = [a..<min b L] @ [c..<min d L]" "b \<le> c"
    using cp_idx_eq [OF assms] by blast
  then show ?thesis by (auto simp: sorted_wrt_append)
qed

lemma cp_idx_one [simp]: "cp_idx 0 (Suc 0) tot L = [0..<L]"
  by (simp add: cp_idx_def slice_log_prob_with_cp_def)

text \<open>If a rank's rows include the last one, it stands last.\<close>

lemma cp_idx_last:
  assumes "r < n" "int L < tot" "L - 1 \<in> set (cp_idx r n tot L)"
  shows "\<exists>ks. cp_idx r n tot L = ks @ [L - 1] \<and> L - 1 \<notin> set ks"
proof -
  obtain ks js where split: "cp_idx r n tot L = ks @ (L - 1) # js" "L - 1 \<notin> set ks" using split_list_first [OF assms(3)] by blast
  have "sorted_wrt (<) (cp_idx r n tot L)"
  proof (cases "n = 1")
    case True
    then show ?thesis using assms(1) by simp
  next
    case False
    then show ?thesis using sorted_cp_idx [OF _ assms(1,2)] assms(1) by simp
  qed
  then have "\<forall>k \<in> set js. L - 1 < k" by (simp add: split(1) sorted_wrt_append)
  moreover have "\<forall>k \<in> set js. k < L" using cp_idx_bound [OF assms(1,2)] split(1) by simp
  ultimately have "js = []" by (cases js) auto
  with split show ?thesis by blast
qed

lemma cut_ppo_reference:
  assumes "r < n" "int (length kl) < tot"
  shows "cp_local r n tot (ppo_reference kl_coef reward kl) =
    map (\<lambda>i. kl ! i * (- kl_coef) + (if Suc i = length kl then reward else 0)) (cp_idx r n tot (length kl))"
  using cp_local_idx [OF assms(1), of "ppo_reference kl_coef reward kl" tot] assms(2) cp_idx_bound [OF assms]
  by (simp add: ppo_reference_def)

lemma ppo_token_rewards_idx:
  assumes "r < n" "int (length kl) < tot"
  shows "ppo_token_rewards r kl_coef reward (cp_local r n tot kl) =
    ppo_token_rewards r kl_coef reward (map ((!) kl) (cp_idx r n tot (length kl)))"
  by (simp only: cp_local_idx [OF assms])

lemma update_snoc: "length xs = k \<Longrightarrow> (xs @ [x])[k := y] = xs @ [y]"
  by (auto simp: list_update_append)

lemma ppo_rewards_placed:
  assumes "q < n" "int (length kl) < tot" "kl \<noteq> []" "reward_row_on_first n tot"
  shows "ppo_token_rewards q kl_coef reward (cp_local q n tot kl) = Inr (cp_local q n tot (ppo_reference kl_coef reward kl))"
proof -
  let ?L = "length kl"
  have L: "?L - 1 < ?L" "int (?L - 1) + tot - int ?L - 1 = tot - 2" using assms(3) by (simp_all add: of_nat_diff Suc_leI)
  have first: "?L - 1 \<in> set (cp_idx 0 n tot ?L)" 
  proof (cases "n = 1")
    case False
    then have "1 < n" using assms(1) by simp
    from cp_idx_set [OF this _ assms(2), of 0 "?L - 1"] show ?thesis using L assms(1,4) False by (simp add: reward_row_on_first_def)
  qed (use assms(3) in simp)
  show ?thesis
  proof (cases "q = 0")
    case True
    from first cp_idx_last [OF assms(1,2)] True obtain ks where ks: "cp_idx 0 n tot ?L = ks @ [?L - 1]" "?L - 1 \<notin> set ks" by blast
    have "Suc k \<noteq> ?L" if "k \<in> set ks" for k using ks(2) that by (metis diff_Suc_1)
    then show ?thesis unfolding ppo_token_rewards_idx [OF assms(1,2)] cut_ppo_reference [OF assms(1,2)]
      using L(1) ks(1) True assms(3) by (simp add: ppo_token_rewards_def Let_def update_snoc)
  next
    case False
    then have n: "1 < n" using assms(1) by simp
    have "owns 0 (int n) tot (tot - 2)" using assms(4) n by (simp add: reward_row_on_first_def)
    moreover have "1 \<le> length kl" using assms(3) by (simp add: Suc_leI)
    then have "2 \<le> tot" using assms(2) by linarith
    ultimately have "\<not> owns (int q) (int n) tot (tot - 2)"
      using owns_iff_owner(1) [of "int n" "tot - 2" tot 0] owns_iff_owner(1) [of "int n" "tot - 2" tot "int q"] n assms(1) False by auto
    then have "?L - 1 \<notin> set (cp_idx q n tot ?L)" using cp_idx_set [OF n assms(1,2), of "?L - 1"] L(2) by simp
    then have "Suc k \<noteq> ?L" if "k \<in> set (cp_idx q n tot ?L)" for k using that by (metis diff_Suc_1)
    then show ?thesis unfolding ppo_token_rewards_idx [OF assms(1,2)] cut_ppo_reference [OF assms(1,2)]
      using False by (simp add: ppo_token_rewards_def)
  qed
qed

text \<open>C34: the token rewards of \<open>ppo\<close>: the ranks' rewards are the slices of the token rewards with the reward on the last token
  exactly if the first context-parallel rank holds the row of the last token.\<close>

theorem ppo_reward_on_last_token_iff:
  assumes "0 < n" "int (length kl) < tot" "kl \<noteq> []" "reward \<noteq> 0"
  shows "(\<forall>q < n. ppo_token_rewards q kl_coef reward (cp_local q n tot kl) = Inr (cp_local q n tot (ppo_reference kl_coef reward kl)))
    \<longleftrightarrow> n = 1 \<or> owns 0 (int n) tot (tot - 2)"
proof
  assume all: "\<forall>q < n. ppo_token_rewards q kl_coef reward (cp_local q n tot kl) = Inr (cp_local q n tot (ppo_reference kl_coef reward kl))"
  let ?L = "length kl" and ?idx = "cp_idx 0 n tot (length kl)"
  have L: "?L - 1 < ?L" "int (?L - 1) + tot - int ?L - 1 = tot - 2" using assms(3) by (simp_all add: of_nat_diff Suc_leI)
  show "n = 1 \<or> owns 0 (int n) tot (tot - 2)"
  proof (rule ccontr)
    assume "\<not> ?thesis"
    then have n: "1 < n" "\<not> owns 0 (int n) tot (tot - 2)" using assms(1) by auto
    have "?L - 1 \<notin> set ?idx" using cp_idx_set [OF n(1) assms(1,2), of "?L - 1"] L(2) n(2) by simp
    then have no: "Suc k \<noteq> ?L" if "k \<in> set ?idx" for k using that by (metis diff_Suc_1)
    have "ppo_token_rewards 0 kl_coef reward (map ((!) kl) ?idx) = Inr (cp_local 0 n tot (ppo_reference kl_coef reward kl))"
      using all [rule_format, OF assms(1)] unfolding ppo_token_rewards_idx [OF assms(1,2)] .
    also have "cp_local 0 n tot (ppo_reference kl_coef reward kl) = map (\<lambda>i. kl ! i * (- kl_coef)) ?idx"
      unfolding cut_ppo_reference [OF assms(1,2)] using no by simp
    finally have "ppo_token_rewards 0 kl_coef reward (map ((!) kl) ?idx) = Inr (map (\<lambda>i. kl ! i * (- kl_coef)) ?idx)" .
    then show False using assms(4) by (cases ?idx rule: rev_cases) (auto simp: ppo_token_rewards_def Let_def update_snoc)
  qed
qed (use ppo_rewards_placed [OF _ assms(2,3)] in \<open>simp add: reward_row_on_first_def\<close>)

theorem ppo_reward_on_last_token_iff_witness:
  "\<not> (\<forall>q < 2. ppo_token_rewards q 0 1 (cp_local q 2 5 [0, 0]) = Inr (cp_local q 2 5 (ppo_reference 0 1 [0, 0])))"
  using ppo_reward_on_last_token_iff [of 2 "[0, 0]" 5 1 0] by (simp add: owns_def)

section \<open>Estimators on the parts\<close>

abbreviation parts_of :: "nat \<Rightarrow> rollout_part \<Rightarrow> rollout_part list" where
  "parts_of n p \<equiv> map (\<lambda>q. cp_part n q p) [0..<n]"

abbreviation cuts :: "nat \<Rightarrow> rollout_part \<Rightarrow> 'a list list \<Rightarrow> 'a list list list" where
  "cuts n p xss \<equiv> map (\<lambda>q. cut n q (rp_total_lengths p) xss) [0..<n]"

lemma cut_one: "per_token p xss \<Longrightarrow> cut (Suc 0) 0 (rp_total_lengths p) xss = xss"
  by (rule nth_equalityI) (simp_all add: per_token_def slice_log_prob_with_cp_def cut_def)

lemma map_option_same: "(\<And>x. m = Some x \<Longrightarrow> f x = x) \<Longrightarrow> map_option f m = m"
  by (cases m) simp_all

lemma cp_part_one:
  assumes "part_ok p"
  shows "cp_part (Suc 0) 0 p = p"
proof -
  have same: "map_option (cut (Suc 0) 0 (rp_total_lengths p)) m = m" if "\<And>xss. m = Some xss \<Longrightarrow> per_token p xss" for m :: "real list list option"
    using that by (intro map_option_same cut_one)
  note fields = part_ok_fields(1-5) [OF assms]
  have "map_option (cut (Suc 0) 0 (rp_total_lengths p)) (rp_rollout_log_probs p) = rp_rollout_log_probs p"
    "map_option (cut (Suc 0) 0 (rp_total_lengths p)) (rp_log_probs p) = rp_log_probs p"
    "map_option (cut (Suc 0) 0 (rp_total_lengths p)) (rp_ref_log_probs p) = rp_ref_log_probs p"
    "map_option (cut (Suc 0) 0 (rp_total_lengths p)) (rp_values p) = rp_values p"
    "map_option (cut (Suc 0) 0 (rp_total_lengths p)) (rp_teacher_log_probs p) = rp_teacher_log_probs p"
    by (rule same, erule fields)+
  then show ?thesis by (simp add: cp_part_def Let_def)
qed

lemma parts_of_one: "part_ok p \<Longrightarrow> parts_of (Suc 0) p = [p]"
  by (simp add: cp_part_one)

lemma cuts_one: "per_token p xss \<Longrightarrow> cuts (Suc 0) p xss = [xss]"
  by (simp add: cut_one)

lemma part_lengths:
  assumes "part_ok p"
  shows "length (rp_response_lengths p) = length (rp_total_lengths p)" "length (rp_rewards p) = length (rp_total_lengths p)"
    "length (rp_loss_masks p) = length (rp_total_lengths p)" "per_token p (rp_loss_masks p)"
  using assms unfolding part_ok_def by (simp_all add: per_token_def)

lemma per_token_length: "per_token p xss \<Longrightarrow> length xss = length (rp_total_lengths p)"
  by (simp add: per_token_def)

lemma response_lengths_eq: "part_ok p \<Longrightarrow> per_token p xss \<Longrightarrow> rp_response_lengths p = map length xss"
  by (rule nth_equalityI) (auto simp: per_token_def part_lengths)

text \<open>GRPO and the baseline of REINFORCE++ map every entry by itself.\<close>

lemma grpo_returns_eq: "length rewards = length kl \<Longrightarrow> get_grpo_returns rewards kl = Inr (map2 (\<lambda>w xs. map (\<lambda>_. w) xs) rewards kl)"
proof -
  assume "length rewards = length kl"
  moreover have "map (\<lambda>i. map (\<lambda>_. rewards ! i) (kl ! i)) [0..<length rewards] = map2 (\<lambda>w xs. map (\<lambda>_. w) xs) rewards kl"
    using calculation by (intro nth_equalityI) simp_all
  ultimately show ?thesis unfolding get_grpo_returns_def by (subst res_map_Inr_ball) (auto simp: py_nth_def)
qed

lemma baseline_eq: "length rewards = length kl \<Longrightarrow> get_reinforce_plus_plus_baseline_advantages rewards kl c = map2 (\<lambda>w xs. map (\<lambda>x. w - c * x) xs) rewards kl"
  unfolding get_reinforce_plus_plus_baseline_advantages_def by (intro nth_equalityI) simp_all

lemma zip3_map:
  assumes "length xs = length ts" "length ys = length ts"
  shows "map (\<lambda>s. f (fst s) (g (fst (snd s)) (snd (snd s)))) (zip ts (zip xs ys)) = map2 f ts (map2 g xs ys)"
  using assms by (intro nth_equalityI) simp_all

text \<open>The token rewards of \<open>ppo\<close> over all ranks.\<close>

lemma ppo_rewards_cp:
  assumes "part_ok p" "per_token p kl" "\<forall>xs \<in> set kl. xs \<noteq> []" "\<forall>tot \<in> set (rp_total_lengths p). reward_row_on_first n tot"
  shows "res_map (\<lambda>q. res_map (\<lambda>(reward, k). ppo_token_rewards q c reward k) (zip (rp_rewards (parts_of n p ! q)) (cuts n p kl ! q))) [0..<n] =
      Inr (cuts n p (map2 (ppo_reference c) (rp_rewards p) kl))"
    and "per_token p (map2 (ppo_reference c) (rp_rewards p) kl)"
proof -
  let ?tot = "rp_total_lengths p" and ?ref = "map2 (ppo_reference c) (rp_rewards p) kl"
  show pt: "per_token p ?ref" using assms(2) part_lengths(2) [OF assms(1)] by (simp add: per_token_def)
  have one: "res_map (\<lambda>(reward, k). ppo_token_rewards q c reward k) (zip (rp_rewards p) (cut n q ?tot kl)) = Inr (cut n q ?tot ?ref)" if q: "q < n" for q
    unfolding res_map_eq_Inr
  proof (rule list_all2_all_nthI)
    fix i assume "i < length (zip (rp_rewards p) (cut n q ?tot kl))"
    then have i: "i < length ?tot" by simp
    have ne: "kl ! i \<noteq> []" using assms(2,3) i by (simp add: per_token_def)
    have "ppo_token_rewards q c (rp_rewards p ! i) (cp_local q n (?tot ! i) (kl ! i)) = Inr (cp_local q n (?tot ! i) (ppo_reference c (rp_rewards p ! i) (kl ! i)))"
      using assms(4) i by (intro ppo_rewards_placed [OF q part_okD(4) [OF assms(1) i assms(2)] ne]) simp
    then show "(case zip (rp_rewards p) (cut n q ?tot kl) ! i of (reward, k) \<Rightarrow> ppo_token_rewards q c reward k) = Inr (cut n q ?tot ?ref ! i)"
      using i part_lengths(2) [OF assms(1)] per_token_length [OF assms(2)] by (simp add: nth_cut [OF pt] nth_cut [OF assms(2)])
  qed (use part_lengths(2) [OF assms(1)] per_token_length [OF assms(2)] in simp)
  show "res_map (\<lambda>q. res_map (\<lambda>(reward, k). ppo_token_rewards q c reward k) (zip (rp_rewards (parts_of n p ! q)) (cuts n p kl ! q))) [0..<n] = Inr (cuts n p ?ref)"
    by (rule res_map_Inr_ball) (use one in simp)
qed

lemma gae_batch_cp:
  assumes "sums_ranks all_reduce" "r < n" "part_ok p" "per_token p rewards" "per_token p vals" "\<exists>xs \<in> set vals. xs \<noteq> []"
  shows "get_advantages_and_returns_batch all_reduce r (rp_total_lengths p) (rp_response_lengths p) (cuts n p vals) (cuts n p rewards) g l chunked =
    Inr (cut n r (rp_total_lengths p) (map2 (gae g l) rewards vals),
      cut n r (rp_total_lengths p) (map2 (\<lambda>xs ys. map2 (+) (gae g l xs ys) ys) rewards vals))"
proof -
  define batch where "batch = zip (rp_total_lengths p) (zip rewards vals)"
  have len: "length rewards = length (rp_total_lengths p)" "length vals = length (rp_total_lengths p)" using assms(4,5) by (simp_all add: per_token_def)
  note z = zip3_map [OF len, folded batch_def]
  have tot: "map fst batch = rp_total_lengths p" using len by (simp add: batch_def)
  have resp: "map (\<lambda>s. length (gs_values s)) batch = rp_response_lengths p"
    by (rule nth_equalityI) (use len part_lengths(1) [OF assms(3)] part_okD(3) [OF assms(3) _ assms(5)] in \<open>simp_all add: batch_def\<close>)
  have ok: "gae_batch_ok batch"
    using part_not_Nil(1) [OF assms(3)] len assms(3,4,5) part_okD(4) [OF assms(3) _ assms(5)]
    by (auto simp: gae_batch_ok_def batch_def set_zip per_token_def)
  have ex: "\<exists>s \<in> set batch. gs_values s \<noteq> []" 
  proof -
    obtain i where "i < length vals" "vals ! i \<noteq> []" using assms(6) by (auto simp: in_set_conv_nth)
    then show ?thesis using len by (intro bexI [of _ "batch ! i"] nth_mem) (simp_all add: batch_def)
  qed
  have v: "map (local_rows gs_values batch n) [0..<n] = cuts n p vals" "map (local_rows gs_rewards batch n) [0..<n] = cuts n p rewards"
    unfolding cut_def using len by (auto simp: batch_def intro!: nth_equalityI)
  show ?thesis using gae_batch_slices [OF assms(1,2) ok ex, of g l chunked]
    unfolding tot resp v z [of "\<lambda>tot xs. cp_local r n tot xs" "gae g l"] z [of "\<lambda>tot xs. cp_local r n tot xs" "\<lambda>xs ys. map2 (+) (gae g l xs ys) ys"]
    by (simp add: cut_def)
qed

lemma rpp_batch_cp:
  assumes "sums_ranks all_reduce" "r < n" "part_ok p" "per_token p kl" "\<forall>m \<in> set (rp_loss_masks p). 0 < sum_list m"
  defines "batch \<equiv> zip (rp_total_lengths p) (zip kl (zip (rp_loss_masks p) (rp_rewards p)))"
  shows "get_reinforce_plus_plus_returns all_reduce r (rp_rewards p) (cuts n p kl) (rp_loss_masks p) (rp_response_lengths p) (rp_total_lengths p) c g =
      Inr (cut n r (rp_total_lengths p) (map (\<lambda>s. discounted g (rpp_token_rewards c s)) batch))"
    and "per_token p (map (\<lambda>s. discounted g (rpp_token_rewards c s)) batch)"
proof -
  have len: "length kl = length (rp_total_lengths p)" "length (rp_loss_masks p) = length (rp_total_lengths p)" "length (rp_rewards p) = length (rp_total_lengths p)"
    using assms(4) part_lengths [OF assms(3)] by (simp_all add: per_token_def)
  note pt = part_okD(3,4) [OF assms(3) _ assms(4)] and ml = part_okD(2) [OF assms(3)]
  show "per_token p (map (\<lambda>s. discounted g (rpp_token_rewards c s)) batch)"
    using len pt(1) by (simp add: per_token_def batch_def)
  have maps: "map fst batch = rp_total_lengths p" "map rpp_mask batch = rp_loss_masks p" "map rpp_reward batch = rp_rewards p"
    using len by (simp_all add: batch_def map_zip_map2 list_eq_iff_nth_eq)
  have resp: "map (\<lambda>s. length (rpp_kl s)) batch = rp_response_lengths p"
    by (rule nth_equalityI) (use len part_lengths(1) [OF assms(3)] pt(1) in \<open>simp_all add: batch_def\<close>)
  have kls: "map (rpp_local rpp_kl batch n) [0..<n] = cuts n p kl"
    unfolding cut_def using len by (auto simp: batch_def intro!: nth_equalityI)
  have ok: "rpp_batch_ok batch"
    using len pt ml assms(5) by (auto simp: rpp_batch_ok_def batch_def set_zip)
  have res: "rpp_local (\<lambda>s. discounted g (rpp_token_rewards c s)) batch n r = cut n r (rp_total_lengths p) (map (\<lambda>s. discounted g (rpp_token_rewards c s)) batch)"
    unfolding cut_def using len by (auto simp: batch_def intro!: nth_equalityI)
  show "get_reinforce_plus_plus_returns all_reduce r (rp_rewards p) (cuts n p kl) (rp_loss_masks p) (rp_response_lengths p) (rp_total_lengths p) c g =
      Inr (cut n r (rp_total_lengths p) (map (\<lambda>s. discounted g (rpp_token_rewards c s)) batch))"
    using reinforce_returns_slices [OF assms(1,2) ok, of c g] unfolding maps resp kls res .
qed

text \<open>The advantages and returns of all layouts are the cuts of one reference, unless the estimator raises.\<close>

definition cuts_of :: "(nat \<Rightarrow> nat \<Rightarrow> (real list list \<times> real list list) result) \<Rightarrow> (nat \<Rightarrow> bool) \<Rightarrow> rollout_part \<Rightarrow> bool" where
  "cuts_of f ok p \<longleftrightarrow> (\<exists>a t. per_token p a \<and> per_token p t \<and>
     (\<forall>n r. r < n \<and> ok n \<longrightarrow> f n r = Inr (cut n r (rp_total_lengths p) a, cut n r (rp_total_lengths p) t)))"

lemma cuts_ofI:
  "per_token p a \<Longrightarrow> per_token p t \<Longrightarrow>
    (\<And>n r. r < n \<Longrightarrow> ok n \<Longrightarrow> f n r = Inr (cut n r (rp_total_lengths p) a, cut n r (rp_total_lengths p) t)) \<Longrightarrow> cuts_of f ok p"
  by (auto simp: cuts_of_def)

text \<open>The same of an estimator, whose returns may be the list of its advantages.\<close>

definition est_cuts :: "(nat \<Rightarrow> nat \<Rightarrow> adv_ret result) \<Rightarrow> (nat \<Rightarrow> bool) \<Rightarrow> rollout_part \<Rightarrow> bool" where
  "est_cuts f ok p \<longleftrightarrow> (\<exists>a t. per_token p a \<and> (\<forall>xs. t = Some xs \<longrightarrow> per_token p xs) \<and>
     (\<forall>n r. r < n \<and> ok n \<longrightarrow> f n r = Inr (cut n r (rp_total_lengths p) a, map_option (cut n r (rp_total_lengths p)) t)))"

lemma est_cutsI:
  assumes "per_token p a" "per_token p t"
    and "\<And>n r. r < n \<Longrightarrow> ok n \<Longrightarrow> f n r = Inr (cut n r (rp_total_lengths p) a, Some (cut n r (rp_total_lengths p) t))"
  shows "est_cuts f ok p"
  using assms unfolding est_cuts_def by (intro exI [of _ a] exI [of _ "Some t"]) simp

lemma est_cuts_sharedI:
  assumes "per_token p a" "\<And>n r. r < n \<Longrightarrow> ok n \<Longrightarrow> f n r = Inr (cut n r (rp_total_lengths p) a, None)"
  shows "est_cuts f ok p"
  using assms unfolding est_cuts_def by (intro exI [of _ a] exI [of _ None]) simp

definition rewards_ok :: "adv_args \<Rightarrow> rollout_part \<Rightarrow> nat \<Rightarrow> bool" where
  "rewards_ok args p n \<longleftrightarrow> (aa_advantage_estimator args = ''ppo'' \<longrightarrow> (\<forall>tot \<in> set (rp_total_lengths p). reward_row_on_first n tot))"

lemma rewards_ok_one [simp]: "rewards_ok args p (Suc 0)"
  by (simp add: rewards_ok_def reward_row_on_first_def)

lemma ppo_cuts:
  assumes "sums_ranks all_reduce" "part_ok p" "per_token p kl" "aa_custom args = None" "aa_advantage_estimator args = ''ppo''"
    and "estimate args all_reduce [p] 0 [kl] = Inr z"
  shows "est_cuts (\<lambda>n r. estimate args all_reduce (parts_of n p) r (cuts n p kl)) (rewards_ok args p) p"
proof -
  let ?rew = "map2 (ppo_reference (aa_kl_coef args)) (rp_rewards p) kl" and ?g = "gae (aa_gamma args) (aa_lambd args)"
  note len = part_lengths(2) [OF assms(2)] per_token_length [OF assms(3)]
  obtain rewards where rew: "res_map (\<lambda>(reward, k). ppo_token_rewards 0 (aa_kl_coef args) reward k) (zip (rp_rewards p) kl) = Inr rewards"
    and val: "rp_values p \<noteq> None"
    using assms(4-6) by (auto simp: estimate_def Let_def res_bind_eq_Inr split: if_splits)
  obtain vals where vals: "rp_values p = Some vals" using val by auto
  have ptv: "per_token p vals" by (rule part_ok_fields(4) [OF assms(2) vals])
  have ne: "kl ! i \<noteq> []" if "i < length kl" for i
    using res_map_nth [OF rew, of i] that len by (auto simp: ppo_token_rewards_def)
  then have ne_all: "\<forall>xs \<in> set kl. xs \<noteq> []" by (auto simp: in_set_conv_nth)
  have ptr: "per_token p ?rew" using assms(3) len by (simp add: per_token_def)
  have ex: "\<exists>xs \<in> set vals. xs \<noteq> []"
  proof (intro bexI)
    have "0 < length vals" using part_not_Nil(2) [OF assms(2) ptv] by simp
    then show "vals ! 0 \<in> set vals" by simp
    have "0 < length (rp_total_lengths p)" using part_not_Nil(1) [OF assms(2)] by simp
    then show "vals ! 0 \<noteq> []" using ne [of 0] part_okD(3) [OF assms(2), of 0 vals] part_okD(3) [OF assms(2), of 0 kl] ptv assms(3) len by fastforce
  qed
  show ?thesis
  proof (rule est_cutsI)
    show "per_token p (map2 ?g ?rew vals)" "per_token p (map2 (\<lambda>xs ys. map2 (+) (?g xs ys) ys) ?rew vals)"
      using ptr ptv len by (simp_all add: per_token_def)
    fix n r :: nat assume r: "r < n" and ok: "rewards_ok args p n"
    have "res_map (\<lambda>q. res_map (\<lambda>(reward, k). ppo_token_rewards q (aa_kl_coef args) reward k) (zip (rp_rewards (parts_of n p ! q)) (cuts n p kl ! q))) [0..<n] =
        Inr (cuts n p ?rew)"
      using ok assms(5) by (intro ppo_rewards_cp [OF assms(2,3) ne_all]) (simp add: rewards_ok_def)
    moreover have "map (\<lambda>q. the (rp_values q)) (parts_of n p) = cuts n p vals" "\<not> (\<exists>q \<in> set (parts_of n p). rp_values q = None)" by (auto simp: vals)
    ultimately show "estimate args all_reduce (parts_of n p) r (cuts n p kl) =
        Inr (cut n r (rp_total_lengths p) (map2 ?g ?rew vals), Some (cut n r (rp_total_lengths p) (map2 (\<lambda>xs ys. map2 (+) (?g xs ys) ys) ?rew vals)))"
      using gae_batch_cp [OF assms(1) r assms(2) ptr ptv ex, of "aa_gamma args" "aa_lambd args" True] r assms(4,5)
      by (simp add: estimate_def Let_def del: map_map)
  qed
qed

lemma reinforce_cuts:
  assumes "sums_ranks all_reduce" "part_ok p" "per_token p kl" "aa_custom args = None" "aa_advantage_estimator args = ''reinforce_plus_plus''"
    and "estimate args all_reduce [p] 0 [kl] = Inr z"
  shows "est_cuts (\<lambda>n r. estimate args all_reduce (parts_of n p) r (cuts n p kl)) ok p"
proof -
  note len = part_lengths [OF assms(2)] per_token_length [OF assms(3)]
  obtain ret where ret: "get_reinforce_plus_plus_returns all_reduce 0 (rp_rewards p) [kl] (rp_loss_masks p) (rp_response_lengths p)
      (rp_total_lengths p) (aa_kl_coef args) (aa_gamma args) = Inr ret"
    using assms(4-6) by (auto simp: estimate_def Let_def with_kl_def res_bind_eq_Inr split: if_splits)
  have pos: "0 < sum_list (rp_loss_masks p ! i)" if "i < length (rp_rewards p)" for i
  proof -
    obtain ys where "res_map (\<lambda>i. res_bind (py_nth kl i) (\<lambda>local_kl_chunk. res_bind (py_nth (rp_total_lengths p) i) (\<lambda>total_len.
        res_bind (py_nth (rp_response_lengths p) i) (\<lambda>response_len. res_bind (py_nth (rp_loss_masks p) i) (\<lambda>full_mask.
          reinforce_token_rewards (aa_kl_coef args) local_kl_chunk full_mask (rp_rewards p ! i)))))) [0..<length (rp_rewards p)] = Inr ys"
      using ret by (auto simp: get_reinforce_plus_plus_returns_def Let_def res_bind_eq_Inr)
    from res_map_nth [OF this, of i] that show ?thesis by (auto simp: res_bind_eq_Inr reinforce_token_rewards_def split: if_splits)
  qed
  have all: "\<forall>m \<in> set (rp_loss_masks p). 0 < sum_list m" using pos len by (auto simp: in_set_conv_nth)
  let ?ret = "map (\<lambda>s. discounted (aa_gamma args) (rpp_token_rewards (aa_kl_coef args) s))
    (zip (rp_total_lengths p) (zip kl (zip (rp_loss_masks p) (rp_rewards p))))"
  note run = rpp_batch_cp [OF assms(1) _ assms(2,3) all, where c = "aa_kl_coef args" and g = "aa_gamma args"]
  show ?thesis
  proof (rule est_cutsI)
    show "per_token p ?ret" "per_token p ?ret" by (rule run(2) [of 0 1], simp)+
    fix n r :: nat assume r: "r < n"
    have "cuts n p kl ! r \<noteq> []" using r part_not_Nil(3) [OF assms(2,3), of n r] by simp
    then show "estimate args all_reduce (parts_of n p) r (cuts n p kl) = Inr (cut n r (rp_total_lengths p) ?ret, Some (cut n r (rp_total_lengths p) ?ret))"
      using run(1) [OF r] r assms(4,5) by (simp add: estimate_def Let_def with_kl_def del: length_0_conv)
  qed
qed

lemma entrywise_cuts:
  assumes "part_ok p" "per_token p kl"
    and "\<And>n r. r < n \<Longrightarrow> est n r = (let xss = map2 (\<lambda>w xs. map (f w) xs) (rp_rewards p) (cut n r (rp_total_lengths p) kl)
      in Inr (xss, if shared then None else Some xss))"
  shows "est_cuts est ok p"
proof -
  let ?a = "map2 (\<lambda>w xs. map (f w) xs) (rp_rewards p) kl"
  have a: "per_token p ?a" by (rule cut_with(2) [OF assms(1) _ assms(2) part_lengths(2) [OF assms(1)], of 0 1]) simp
  have est: "est n r = Inr (cut n r (rp_total_lengths p) ?a, if shared then None else Some (cut n r (rp_total_lengths p) ?a))" if r: "r < n" for n r
    unfolding assms(3) [OF r] Let_def cut_with(1) [OF assms(1) r assms(2) part_lengths(2) [OF assms(1)]] ..
  show ?thesis
  proof (cases shared)
    case True
    then show ?thesis using est by (intro est_cuts_sharedI [OF a]) simp
  next
    case False
    then show ?thesis using est by (intro est_cutsI [OF a a]) simp
  qed
qed

lemma estimate_cuts:
  assumes "sums_ranks all_reduce" "part_ok p" "per_token p kl" "aa_custom args = None"
    and "estimate args all_reduce [p] 0 [kl] = Inr z"
  shows "est_cuts (\<lambda>n r. estimate args all_reduce (parts_of n p) r (cuts n p kl)) (rewards_ok args p) p"
proof -
  have len: "length (rp_rewards p) = length (cut n r (rp_total_lengths p) kl)" for n r
    using part_lengths(2) [OF assms(2)] per_token_length [OF assms(3)] by simp
  have ne: "cut n r (rp_total_lengths p) kl \<noteq> []" for n r by (rule part_not_Nil(3) [OF assms(2,3)])
  consider "aa_advantage_estimator args \<in> {''grpo'', ''gspo'', ''cispo''}" | "aa_advantage_estimator args = ''ppo''"
    | "aa_advantage_estimator args = ''reinforce_plus_plus''" | "aa_advantage_estimator args = ''reinforce_plus_plus_baseline''"
    using assms(4,5) by (auto simp: estimate_def Let_def split: if_splits)
  then show ?thesis
  proof cases
    case 1
    then show ?thesis using assms(4) grpo_returns_eq [OF len] ne
      by (intro entrywise_cuts [OF assms(2,3), where f = "\<lambda>w _. w" and shared = False]) (auto simp: estimate_def Let_def with_kl_def)
  next
    case 2
    then show ?thesis by (rule ppo_cuts [OF assms(1-4) _ assms(5)])
  next
    case 3
    then show ?thesis by (rule reinforce_cuts [OF assms(1-4) _ assms(5)])
  next
    case 4
    then show ?thesis using assms(4) baseline_eq [OF len] ne
      by (intro entrywise_cuts [OF assms(2,3), where f = "\<lambda>w x. w - aa_kl_coef args * x" and shared = True]) (auto simp: estimate_def Let_def with_kl_def)
  qed
qed

text \<open>The distillation penalty commutes with the cut.\<close>

lemma opd_eq:
  assumes "log_probs_used args p = Some student" "rp_teacher_log_probs p = Some teacher" "student \<noteq> []"
    and "length student = length adv" "length teacher = length adv"
    and "\<And>i. i < length adv \<Longrightarrow> length (student ! i) = length (adv ! i) \<and> length (teacher ! i) = length (adv ! i)"
  shows "apply_opd_kl_to_advantages args p adv (log_probs_used args p) =
    Inr (map2 (map2 (\<lambda>a k. a - aa_opd_kl_coef args * k)) adv (map2 (map2 (-)) student teacher))"
proof -
  have "apply_opd_kl_to_advantages args p adv (log_probs_used args p) =
      Inr (map (\<lambda>i. map2 (\<lambda>a k. a - aa_opd_kl_coef args * k) (adv ! i) (map2 (-) (student ! i) (teacher ! i))) [0..<length adv])"
    unfolding assms(1) apply_opd_kl_to_advantages_def option.case assms(2) using assms(3-6)
    by (simp, intro res_map_Inr_ball) (simp add: py_nth_def broadcast2_def)
  also have "map (\<lambda>i. map2 (\<lambda>a k. a - aa_opd_kl_coef args * k) (adv ! i) (map2 (-) (student ! i) (teacher ! i))) [0..<length adv] =
      map2 (map2 (\<lambda>a k. a - aa_opd_kl_coef args * k)) adv (map2 (map2 (-)) student teacher)"
    using assms(4,5) by (intro nth_equalityI) simp_all
  finally show ?thesis .
qed

lemma length_cut_nth:
  assumes "part_ok p" "r < n" "per_token p xss" "per_token p yss" "i < length (rp_total_lengths p)"
  shows "length (cut n r (rp_total_lengths p) xss ! i) = length (cut n r (rp_total_lengths p) yss ! i)"
proof -
  have len: "length (xss ! i) = length (yss ! i)" using part_okD(3) [OF assms(1,5,3)] part_okD(3) [OF assms(1,5,4)] by simp
  have "length (cp_local r n (rp_total_lengths p ! i) xs) = length (cp_idx r n (rp_total_lengths p ! i) (length xs))"
    if "int (length xs) < rp_total_lengths p ! i" for xs :: "'c list" using cp_local_idx [OF assms(2) that] by simp
  note this [OF part_okD(4) [OF assms(1,5,3)]]
  moreover have "length (cp_local r n (rp_total_lengths p ! i) xs) = length (cp_idx r n (rp_total_lengths p ! i) (length xs))"
    if "int (length xs) < rp_total_lengths p ! i" for xs :: "'b list" using cp_local_idx [OF assms(2) that] by simp
  note this [OF part_okD(4) [OF assms(1,5,4)]]
  ultimately show ?thesis unfolding nth_cut [OF assms(3,5)] nth_cut [OF assms(4,5)] by (simp only: len)
qed

lemma opd_cp:
  assumes "part_ok p" "per_token p adv" "apply_opd_kl_to_advantages args p adv (log_probs_used args p) = Inr a"
  shows "per_token p a \<and> (\<forall>n r. r < n \<longrightarrow> apply_opd_kl_to_advantages args (cp_part n r p) (cut n r (rp_total_lengths p) adv) (log_probs_used args (cp_part n r p)) =
    Inr (cut n r (rp_total_lengths p) a))"
proof (cases "log_probs_used args p")
  case None
  then show ?thesis using assms(2,3) by (simp add: apply_opd_kl_to_advantages_def)
next
  case (Some student)
  then obtain teacher where teacher: "rp_teacher_log_probs p = Some teacher"
    using assms(3) by (auto simp: apply_opd_kl_to_advantages_def split: option.splits)
  let ?f = "\<lambda>a k. a - aa_opd_kl_coef args * k"
  have pt: "per_token p student" "per_token p teacher" using part_ok_fields(5,6) [OF assms(1)] Some teacher by blast+
  have sub: "per_token p (map2 (map2 (-)) student teacher)" by (rule cut_pointwise(2) [OF assms(1) _ pt, of 0 1]) simp
  have len: "length student = length adv" "length teacher = length adv" using pt assms(2) by (simp_all add: per_token_def)
  have "apply_opd_kl_to_advantages args p adv (log_probs_used args p) = Inr (map2 (map2 ?f) adv (map2 (map2 (-)) student teacher))"
    using pt assms(2) by (intro opd_eq [OF Some teacher part_not_Nil(2) [OF assms(1) pt(1)] len]) (simp add: per_token_def)
  then have a: "a = map2 (map2 ?f) adv (map2 (map2 (-)) student teacher)" using assms(3) by simp
  have "apply_opd_kl_to_advantages args (cp_part n r p) (cut n r (rp_total_lengths p) adv) (log_probs_used args (cp_part n r p)) =
      Inr (cut n r (rp_total_lengths p) a)" if r: "r < n" for n r
  proof -
    let ?c = "\<lambda>xss. cut n r (rp_total_lengths p) xss"
    have "apply_opd_kl_to_advantages args (cp_part n r p) (?c adv) (log_probs_used args (cp_part n r p)) =
        Inr (map2 (map2 ?f) (?c adv) (map2 (map2 (-)) (?c student) (?c teacher)))"
    proof (rule opd_eq)
      fix i assume "i < length (?c adv)"
      then have i: "i < length (rp_total_lengths p)" by simp
      show "length (?c student ! i) = length (?c adv ! i) \<and> length (?c teacher ! i) = length (?c adv ! i)"
        using length_cut_nth [OF assms(1) r _ assms(2) i] pt by blast
    qed (use Some teacher len part_not_Nil(3) [OF assms(1) pt(1)] in simp_all)
    then show ?thesis unfolding a cut_pointwise(1) [OF assms(1) r pt] cut_pointwise(1) [OF assms(1) r assms(2) sub] .
  qed
  moreover have "per_token p a" unfolding a by (rule cut_pointwise(2) [OF assms(1) _ assms(2) sub, of 0 1]) simp
  ultimately show ?thesis by blast
qed

lemma raw_cuts:
  assumes "sums_ranks all_reduce" "part_ok p" "aa_custom args = None" "raw_advantages args all_reduce [p] 0 = Inr z"
  shows "cuts_of (\<lambda>n r. raw_advantages args all_reduce (parts_of n p) r) (rewards_ok args p) p"
proof -
  obtain kl where kl: "kl_terms args p = Inr kl" using assms(4) by (auto simp: raw_advantages_def res_bind_eq_Inr)
  have pt: "per_token p kl" using kl_terms_cp [OF assms(2) _ kl, of 0 1] by simp
  have kls: "res_map (kl_terms args) (parts_of n p) = Inr (cuts n p kl)" for n
    using kl_terms_cp [OF assms(2) _ kl] by (simp add: res_map_eq_Inr list_all2_conv_all_nth)
  obtain a0 t0 where est: "estimate args all_reduce [p] 0 [kl] = Inr (a0, t0)"
    and opd0: "aa_use_opd args \<Longrightarrow> \<exists>b. apply_opd_kl_to_advantages args p a0 (log_probs_used args p) = Inr b"
    using assms(4) kl by (cases "aa_use_opd args") (auto simp: raw_advantages_def res_bind_eq_Inr)
  obtain a t where at: "per_token p a" "\<And>xs. t = Some xs \<Longrightarrow> per_token p xs" "\<And>n r. r < n \<Longrightarrow> rewards_ok args p n \<Longrightarrow>
      estimate args all_reduce (parts_of n p) r (cuts n p kl) = Inr (cut n r (rp_total_lengths p) a, map_option (cut n r (rp_total_lengths p)) t)"
    using estimate_cuts [OF assms(1,2) pt assms(3) est] unfolding est_cuts_def by blast
  have "a0 = a"
    using at(3) [of 0 "Suc 0"] est cut_one [OF at(1)] unfolding parts_of_one [OF assms(2)] cuts_one [OF pt] by simp
  obtain b where b: "per_token p b" "\<And>n r. r < n \<Longrightarrow> (if aa_use_opd args
      then apply_opd_kl_to_advantages args (cp_part n r p) (cut n r (rp_total_lengths p) a) (log_probs_used args (cp_part n r p))
      else Inr (cut n r (rp_total_lengths p) a)) = Inr (cut n r (rp_total_lengths p) b)"
  proof (cases "aa_use_opd args")
    case True
    with opd0 \<open>a0 = a\<close> obtain b where "apply_opd_kl_to_advantages args p a (log_probs_used args p) = Inr b" by blast
    from opd_cp [OF assms(2) at(1) this] show ?thesis using True that [of b] by simp
  qed (use at(1) that [of a] in simp)
  define ret where "ret = (case t of None \<Rightarrow> b | Some xs \<Rightarrow> xs)"
  have ret: "per_token p ret" "(case map_option (cut n r (rp_total_lengths p)) t of None \<Rightarrow> cut n r (rp_total_lengths p) b | Some xs \<Rightarrow> xs) =
      cut n r (rp_total_lengths p) ret" for n r
    using at(2) b(1) by (simp_all add: ret_def split: option.split)
  show ?thesis
  proof (rule cuts_ofI [OF b(1) ret(1)])
    fix n r :: nat assume r: "r < n" and ok: "rewards_ok args p n"
    have "parts_of n p ! r = cp_part n r p" using r by simp
    then show "raw_advantages args all_reduce (parts_of n p) r = Inr (cut n r (rp_total_lengths p) b, cut n r (rp_total_lengths p) ret)"
      unfolding raw_advantages_def kls res_bind_Inr at(3) [OF r ok] prod.case by (simp only: b(2) [OF r] res_bind_Inr ret(2))
  qed
qed

section \<open>Whitening over the ranks\<close>

lemma whitening_mask_chunks:
  assumes "1 < n"
  shows "whitening_mask r n tot L m = chunked_loss_mask (int r) (int n) tot (int L) m"
proof -
  have part: "concat (let lo = max 0 (s - (tot - int L)); hi = max 0 (e - (tot - int L)) in if lo < hi then [py_slice lo hi m] else []) =
      py_slice (s - (tot - int L)) (e - (tot - int L)) m" if "chunk_tokens tot (tot - int L) ch = (s, e)" for s e ch
  proof -
    obtain lo hi where ch: "ch = (lo, hi)" by fastforce
    show ?thesis
    proof (cases "max lo (tot - int L - 1) < min hi (tot - 1)")
      case True
      then have "tot - int L \<le> s" "s < e" using that by (auto simp: chunk_tokens_def ch)
      then show ?thesis by (simp add: Let_def)
    next
      case False
      then have "s = 0" "e = 0" using that by (auto simp: chunk_tokens_def ch)
      then show ?thesis by (simp add: Let_def)
    qed
  qed
  have n: "1 < int n" using assms by simp
  obtain a b where ab: "chunk_tokens tot (tot - int L) (first_chunk (int r) (int n) tot) = (a, b)" by fastforce
  obtain c e where ce: "chunk_tokens tot (tot - int L) (second_chunk (int r) (int n) tot) = (c, e)" by fastforce
  show ?thesis
    using part [OF ab] part [OF ce] unfolding whitening_mask_def chunked_loss_mask_def offsets_eq [OF n] by (simp add: ab ce Let_def)
qed

lemma whitening_mask_cp:
  assumes "1 < n" "r < n" "int (length m) < tot"
  shows "whitening_mask r n tot (length m) m = Inr (cp_local r n tot m)"
proof -
  have n: "1 < int n" "0 \<le> int r" "int r < int n" "0 < tot" using assms by simp_all
  show ?thesis unfolding whitening_mask_chunks [OF assms(1)] chunked_loss_mask_eq [OF n] slice_log_prob_eq [OF n refl] by simp
qed

lemma local_masks_cp:
  assumes "part_ok p" "r < n"
  shows "local_masks r n (cp_part n r p) (length (rp_total_lengths p)) = Inr (concat (cut n r (rp_total_lengths p) (rp_loss_masks p)))"
proof (cases "n = 1")
  case True
  then show ?thesis using cut_one [OF part_lengths(4) [OF assms(1)]] part_not_Nil(2) [OF assms(1) part_lengths(4) [OF assms(1)]] assms(2) by (simp add: local_masks_def)
next
  case False
  then have n: "1 < n" using assms(2) by simp
  let ?m = "rp_loss_masks p" and ?t = "rp_total_lengths p"
  have "res_map (\<lambda>i. res_bind (py_nth ?t i) (\<lambda>t. res_bind (py_nth (rp_response_lengths p) i) (\<lambda>l. res_bind (py_nth ?m i) (\<lambda>m. whitening_mask r n t l m))))
      [0..<length ?t] = Inr (map (\<lambda>i. cp_local r n (?t ! i) (?m ! i)) [0..<length ?t])"
  proof (intro res_map_Inr_ball ballI)
    fix i assume "i \<in> set [0..<length ?t]"
    then have i: "i < length ?t" by simp
    note m = part_okD(4) [OF assms(1) i part_lengths(4) [OF assms(1)]] part_okD(2) [OF assms(1) i, symmetric]
    show "res_bind (py_nth ?t i) (\<lambda>t. res_bind (py_nth (rp_response_lengths p) i) (\<lambda>l. res_bind (py_nth ?m i) (\<lambda>m. whitening_mask r n t l m))) =
        Inr (cp_local r n (?t ! i) (?m ! i))"
      using i whitening_mask_cp [OF n assms(2) m(1)] part_lengths [OF assms(1)] by (simp add: py_nth_def m(2))
  qed
  moreover have "map (\<lambda>i. cp_local r n (?t ! i) (?m ! i)) [0..<length ?t] = cut n r ?t ?m"
    by (rule nth_equalityI) (simp_all add: nth_cut [OF part_lengths(4) [OF assms(1)]] part_lengths(3) [OF assms(1)])
  ultimately show ?thesis using False by (simp add: local_masks_def)
qed

text \<open>The statistics of the ranks add up to those of the whole.\<close>

lemma dot_concat:
  assumes "length yss = length xss" "\<And>i. i < length xss \<Longrightarrow> length (yss ! i) = length (xss ! i)"
  shows "dot (concat xss) (concat yss) = (\<Sum>i<length xss. dot (xss ! i) (yss ! i))"
  using assms
proof (induction xss arbitrary: yss)
  case (Cons xs xss)
  then obtain ys yss' where yss: "yss = ys # yss'" by (cases yss) auto
  have len: "length yss' = length xss" "length ys = length xs" "\<And>i. i < length xss \<Longrightarrow> length (yss' ! i) = length (xss ! i)"
    using Cons.prems(1) Cons.prems(2) [of 0] Cons.prems(2) [of "Suc _"] by (simp_all add: yss)
  have "dot (concat (xs # xss)) (concat yss) = dot xs ys + dot (concat xss) (concat yss')" using len(2) by (simp add: dot_def yss)
  then show ?case using Cons.IH [OF len(1,3)] by (simp add: yss sum.lessThan_Suc_shift del: sum.lessThan_Suc)
qed (simp add: dot_def)

lemma dot_cp_local:
  assumes "0 < n" "length ms = length xs" "int (length xs) < tot"
  shows "(\<Sum>q<n. dot (cp_local q n tot xs) (cp_local q n tot ms)) = dot xs ms"
proof (cases "n = 1")
  case False
  then have n: "1 < int n" "0 < tot" using assms by simp_all
  have "(\<Sum>q<n. dot (cp_local q n tot xs) (cp_local q n tot ms)) =
      (\<Sum>q<n. dot (rank_slice (int q) (int n) tot (tot - int (length xs)) xs) (rank_slice (int q) (int n) tot (tot - int (length xs)) ms))"
  proof (rule sum.cong)
    fix q assume "q \<in> {..<n}"
    then have "slice_log_prob_with_cp (int q) (int n) ys tot (int (length ys)) = Inr (rank_slice (int q) (int n) tot (tot - int (length ys)) ys)" for ys :: "real list"
      by (intro slice_log_prob_eq [OF n(1) _ _ n(2) refl]) simp_all
    from this [of xs] this [of ms] show "dot (cp_local q n tot xs) (cp_local q n tot ms) =
        dot (rank_slice (int q) (int n) tot (tot - int (length xs)) xs) (rank_slice (int q) (int n) tot (tot - int (length xs)) ms)"
      by (simp only: sum.sel assms(2))
  qed simp
  also have "\<dots> = dot xs ms"
    using dot_over_ranks [of "int n" xs ms tot "tot - int (length xs)"] n assms by (simp add: interv_sum_list_conv_sum_set_nat atLeast0LessThan)
  finally show ?thesis .
qed (use assms(2) in \<open>simp add: slice_log_prob_with_cp_def\<close>)

lemma dot_cuts:
  assumes "part_ok p" "0 < n" "per_token p xss" "per_token p mss"
  shows "(\<Sum>q<n. dot (concat (cut n q (rp_total_lengths p) xss)) (concat (cut n q (rp_total_lengths p) mss))) = dot (concat xss) (concat mss)"
proof -
  let ?t = "rp_total_lengths p" and ?L = "length (rp_total_lengths p)"
  have L: "length xss = ?L" "length mss = ?L" using assms(3,4) by (simp_all add: per_token_def)
  have len: "length (mss ! i) = length (xss ! i)" if "i < ?L" for i
    using part_okD(3) [OF assms(1) that assms(3)] part_okD(3) [OF assms(1) that assms(4)] by simp
  have "(\<Sum>q<n. dot (concat (cut n q ?t xss)) (concat (cut n q ?t mss))) =
      (\<Sum>q<n. \<Sum>i<?L. dot (cp_local q n (?t ! i) (xss ! i)) (cp_local q n (?t ! i) (mss ! i)))"
  proof (rule sum.cong)
    fix q assume "q \<in> {..<n}"
    then have q: "q < n" by simp
    have "dot (concat (cut n q ?t xss)) (concat (cut n q ?t mss)) = (\<Sum>i<?L. dot (cut n q ?t xss ! i) (cut n q ?t mss ! i))"
      using dot_concat [of "cut n q ?t mss" "cut n q ?t xss"] length_cut_nth [OF assms(1) q assms(4,3)] L by simp
    then show "dot (concat (cut n q ?t xss)) (concat (cut n q ?t mss)) =
        (\<Sum>i<?L. dot (cp_local q n (?t ! i) (xss ! i)) (cp_local q n (?t ! i) (mss ! i)))"
      by (simp add: nth_cut [OF assms(3)] nth_cut [OF assms(4)])
  qed simp
  also have "\<dots> = (\<Sum>i<?L. \<Sum>q<n. dot (cp_local q n (?t ! i) (xss ! i)) (cp_local q n (?t ! i) (mss ! i)))" by (rule sum.swap)
  also have "\<dots> = (\<Sum>i<?L. dot (xss ! i) (mss ! i))"
    by (intro sum.cong dot_cp_local [OF assms(2)] len part_okD(4) [OF assms(1) _ assms(3)]) simp_all
  also have "\<dots> = dot (concat xss) (concat mss)" using dot_concat [of mss xss] len L by simp
  finally show ?thesis .
qed

lemma local_stats_cuts:
  assumes "part_ok p" "0 < n" "per_token p xss" "j < 3"
  shows "(\<Sum>q<n. local_stats (concat (cut n q (rp_total_lengths p) xss)) (concat (cut n q (rp_total_lengths p) (rp_loss_masks p))) ! j) =
    local_stats (concat xss) (concat (rp_loss_masks p)) ! j"
proof -
  let ?m = "rp_loss_masks p"
  note m = part_lengths(4) [OF assms(1)]
  have ones: "sum_list ys = dot (map (\<lambda>_. 1) ys) ys" for ys by (induction ys) (simp_all add: dot_def)
  have sq: "map f (concat (cut n q (rp_total_lengths p) yss)) = concat (cut n q (rp_total_lengths p) (map (map f) yss))"
    if "q < n" "per_token p yss" for f :: "real \<Rightarrow> real" and q yss unfolding map_concat cut_map(1) [OF assms(1) that] ..
  have pt: "per_token p (map (map f) yss)" if "per_token p yss" for f :: "real \<Rightarrow> real" and yss by (rule cut_map(2) [OF assms(1,2) that])
  consider "j = 0" | "j = 1" | "j = 2" using assms(4) by linarith
  then show ?thesis
  proof cases
    case 1
    then show ?thesis using dot_cuts [OF assms(1,2,3) m] by (simp add: local_stats_def)
  next
    case 2
    then show ?thesis using dot_cuts [OF assms(1,2) pt [OF assms(3)] m, of "\<lambda>x. x ^ 2"] sq [OF _ assms(3), of _ "\<lambda>x. x ^ 2"]
      by (simp add: local_stats_def map_concat)
  next
    case 3
    have "(\<Sum>q<n. sum_list (concat (cut n q (rp_total_lengths p) ?m))) = sum_list (concat ?m)"
      unfolding ones [of "concat _"] using dot_cuts [OF assms(1,2) pt [OF m] m, of "\<lambda>_. 1"] sq [OF _ m, of _ "\<lambda>_. 1"]
      by (simp add: map_concat)
    then show ?thesis using 3 by (simp add: local_stats_def)
  qed
qed

definition whiten_entry :: "real list \<Rightarrow> bool \<Rightarrow> real \<Rightarrow> real \<Rightarrow> real" where
  "whiten_entry stats shift_mean epsilon x =
     (let N = stats ! 2; mean = stats ! 0 / N; var = stats ! 1 / N - mean ^ 2;
          global_var = (if 2 \<le> N then var * (N / (N - 1)) else var);
          w = (x - mean) * (1 / sqrt (global_var + epsilon)) in if shift_mean then w else w + mean)"

lemma whiten_eq:
  "distributed_masked_whiten all_reduce xss mss q shift_mean epsilon =
    (let stats = all_reduce (map2 local_stats xss mss) in
     if stats ! 2 = 0 then Inl (ValueError ''The global mask sum across all participating GPUs is zero.'')
     else Inr (map (whiten_entry stats shift_mean epsilon) (xss ! q)))"
  by (simp add: distributed_masked_whiten_def whiten_entry_def Let_def)

lemma reduce_stats:
  assumes "sums_ranks all_reduce" "flat \<noteq> []"
  shows "all_reduce (map2 local_stats (map fst flat) (map snd flat)) = map (\<lambda>j. \<Sum>(x, m)\<leftarrow>flat. local_stats x m ! j) [0..<3]"
proof -
  have eq: "map2 local_stats (map fst flat) (map snd flat) = map (\<lambda>(x, m). local_stats x m) flat"
    by (simp add: zip_map_fst_snd)
  have "\<forall>xs \<in> set (map (\<lambda>(x, m). local_stats x m) flat). length xs = 3" by (auto simp: local_stats_def)
  from sums_ranksD [OF assms(1) _ this] assms(2) show ?thesis unfolding eq unfolding case_prod_unfold by (simp add: o_def)
qed

lemma nth_blocks:
  assumes "d < D" "r < n"
  shows "concat (map (\<lambda>e. map (g e) [0..<n]) [0..<D]) ! (d * n + r) = g d r"
proof -
  have split: "[0..<D] = [0..<d] @ d # [Suc d..<D]" using assms(1) by (metis le_add1 less_imp_le plus_nat.add_0 upt_add_eq_append upt_conv_Cons le_Suc_ex)
  have "length (concat (map (\<lambda>e. map (g e) [0..<n]) [0..<d])) = d * n" by (rule length_concat_columns) simp
  then show ?thesis using assms(2) unfolding split by (simp add: nth_append)
qed

lemma sum_blocks: "(\<Sum>x\<leftarrow>concat (map (\<lambda>e. map (g e) [0..<n]) [0..<D]). h x) = (\<Sum>e<D. \<Sum>q<n. h (g e q))" for h :: "'a \<Rightarrow> real"
  by (induction D) (simp_all add: interv_sum_list_conv_sum_set_nat atLeast0LessThan o_def)

text \<open>What the ranks contribute to the whitening when their advantages are cuts.\<close>

definition flat_of :: "nat \<Rightarrow> rollout_part list \<Rightarrow> (nat \<Rightarrow> real list list) \<Rightarrow> (real list \<times> real list) list" where
  "flat_of n data a = concat (map (\<lambda>e. map (\<lambda>q. (concat (cut n q (rp_total_lengths (data ! e)) (a e)),
     concat (cut n q (rp_total_lengths (data ! e)) (rp_loss_masks (data ! e))))) [0..<n]) [0..<length data])"

lemma flat_run:
  assumes "\<forall>p \<in> set data. part_ok p"
    and "\<And>e. e < length data \<Longrightarrow> per_token (data ! e) (a e)"
    and "\<And>e q. e < length data \<Longrightarrow> q < n \<Longrightarrow> \<exists>ret. raw_advantages args all_reduce (parts_of n (data ! e)) q = Inr (cut n q (rp_total_lengths (data ! e)) (a e), ret)"
  defines "groups \<equiv> map (parts_of n) data"
  shows "res_map (\<lambda>(e, q). whitening_input args all_reduce groups e q) (concat (map (\<lambda>e. map (Pair e) [0..<length (groups ! e)]) [0..<length groups])) = Inr (flat_of n data a)"
proof -
  let ?g = "\<lambda>(e, q). (concat (cut n q (rp_total_lengths (data ! e)) (a e)), concat (cut n q (rp_total_lengths (data ! e)) (rp_loss_masks (data ! e))))"
  have idx: "concat (map (\<lambda>e. map (Pair e) [0..<length (groups ! e)]) [0..<length groups]) = concat (map (\<lambda>e. map (Pair e) [0..<n]) [0..<length data])"
    unfolding groups_def by (intro arg_cong [of _ _ concat] map_cong) simp_all
  have flat: "map ?g (concat (map (\<lambda>e. map (Pair e) [0..<n]) [0..<length data])) = flat_of n data a"
    by (simp add: flat_of_def map_concat o_def)
  show ?thesis unfolding idx flat [symmetric]
  proof (intro res_map_Inr_ball ballI)
    fix eq assume "eq \<in> set (concat (map (\<lambda>e. map (Pair e) [0..<n]) [0..<length data]))"
    then obtain e q where eq: "eq = (e, q)" "e < length data" "q < n" by auto
    let ?p = "data ! e"
    have ok: "part_ok ?p" using assms(1) eq(2) by simp
    obtain ret where raw: "raw_advantages args all_reduce (groups ! e) q = Inr (cut n q (rp_total_lengths ?p) (a e), ret)"
      using assms(3) [OF eq(2,3)] eq(2) by (auto simp: groups_def)
    have part: "groups ! e ! q = cp_part n q ?p" "length (groups ! e) = n" using eq(2,3) by (simp_all add: groups_def)
    have len: "length (cut n q (rp_total_lengths ?p) (a e)) = length (rp_total_lengths ?p)" using assms(2) [OF eq(2)] by (simp add: per_token_def)
    have "map length (cut n q (rp_total_lengths ?p) (a e)) = map length (cut n q (rp_total_lengths ?p) (rp_loss_masks ?p))"
      by (rule nth_equalityI) (use len part_lengths [OF ok] length_cut_nth [OF ok eq(3) assms(2) [OF eq(2)] part_lengths(4) [OF ok]] in simp_all)
    then have lc: "length (concat (cut n q (rp_total_lengths ?p) (a e))) = length (concat (cut n q (rp_total_lengths ?p) (rp_loss_masks ?p)))"
      unfolding length_concat by simp
    show "(case eq of (e, q) \<Rightarrow> whitening_input args all_reduce groups e q) = Inr (?g eq)"
      unfolding whitening_input_def eq(1) prod.case raw res_bind_Inr part len local_masks_cp [OF ok eq(3)]
      using part_not_Nil(3) [OF ok assms(2) [OF eq(2)], of n q] lc by (simp only: simp_thms if_False if_True)
  qed
qed

lemma flat_stats:
  assumes "sums_ranks all_reduce" "\<forall>p \<in> set data. part_ok p" "data \<noteq> []" "0 < n"
    and "\<And>e. e < length data \<Longrightarrow> per_token (data ! e) (a e)"
  shows "all_reduce (map2 local_stats (map fst (flat_of n data a)) (map snd (flat_of n data a))) =
    map (\<lambda>j. \<Sum>e<length data. local_stats (concat (a e)) (concat (rp_loss_masks (data ! e))) ! j) [0..<3]"
proof -
  have ne: "flat_of n data a \<noteq> []" using assms(3,4) by (auto simp: flat_of_def)
  have "(\<Sum>(x, m)\<leftarrow>flat_of n data a. local_stats x m ! j) =
      (\<Sum>e<length data. local_stats (concat (a e)) (concat (rp_loss_masks (data ! e))) ! j)" if j: "j < 3" for j
  proof -
    have "(\<Sum>(x, m)\<leftarrow>flat_of n data a. local_stats x m ! j) =
        (\<Sum>e<length data. \<Sum>q<n. local_stats (concat (cut n q (rp_total_lengths (data ! e)) (a e)))
          (concat (cut n q (rp_total_lengths (data ! e)) (rp_loss_masks (data ! e)))) ! j)"
      by (simp add: flat_of_def sum_blocks)
    also have "\<dots> = (\<Sum>e<length data. local_stats (concat (a e)) (concat (rp_loss_masks (data ! e))) ! j)"
      using assms(2,5) j by (intro sum.cong local_stats_cuts [OF _ assms(4)]) simp_all
    finally show ?thesis .
  qed
  then show ?thesis unfolding reduce_stats [OF assms(1) ne] by simp
qed

section \<open>The layout does not matter\<close>

lemma normalized_raw:
  assumes "compute_advantages_and_returns args all_reduce (map (parts_of 1) data) d 0 = Inr z" "aa_normalize_advantages args" "e < length data"
  shows "\<exists>w. raw_advantages args all_reduce (parts_of 1 (data ! e)) 0 = Inr w"
proof -
  let ?groups = "map (parts_of 1) data"
  let ?idx = "concat (map (\<lambda>e. map (Pair e) [0..<length (?groups ! e)]) [0..<length ?groups])"
  obtain a b where "raw_advantages args all_reduce (?groups ! d) 0 = Inr (a, b)"
    using assms(1) unfolding compute_advantages_and_returns_def res_bind_eq_Inr by auto
  then obtain flat where flat: "res_map (\<lambda>(e, q). whitening_input args all_reduce ?groups e q) ?idx = Inr flat"
    using assms(1,2) unfolding compute_advantages_and_returns_def by (simp only: res_bind_Inr prod.case if_True) (auto simp only: res_bind_eq_Inr)
  have "(e, 0) \<in> set ?idx" using assms(3) by auto
  then obtain k where "k < length ?idx" "?idx ! k = (e, 0)" unfolding in_set_conv_nth by blast
  with res_map_nth [OF flat] have "whitening_input args all_reduce ?groups e 0 = Inr (flat ! k)" by fastforce
  then have "\<exists>w. raw_advantages args all_reduce (?groups ! e) 0 = Inr w" unfolding whitening_input_def res_bind_eq_Inr by blast
  then show ?thesis using assms(3) by simp
qed

lemma advantages_cuts:
  assumes "sums_ranks all_reduce" "\<forall>p \<in> set data. part_ok p" "aa_custom args = None" "d < length data"
    and "compute_advantages_and_returns args all_reduce (map (parts_of 1) data) d 0 = Inr z"
  shows "cuts_of (\<lambda>n r. compute_advantages_and_returns args all_reduce (map (parts_of n) data) d r)
    (\<lambda>n. \<forall>p \<in> set data. rewards_ok args p n) (data ! d)"
proof (cases "aa_normalize_advantages args")
  case False
  have ok: "part_ok (data ! d)" using assms(2,4) by simp
  have eq: "compute_advantages_and_returns args all_reduce (map (parts_of n) data) d r = raw_advantages args all_reduce (parts_of n (data ! d)) r" for n r
    using False assms(4) by (cases "raw_advantages args all_reduce (parts_of n (data ! d)) r") (auto simp: compute_advantages_and_returns_def)
  have "raw_advantages args all_reduce [data ! d] 0 = Inr z" using assms(5) unfolding eq One_nat_def parts_of_one [OF ok] .
  from raw_cuts [OF assms(1) ok assms(3) this] show ?thesis unfolding eq cuts_of_def using assms(4) by fastforce
next
  case True
  have "\<exists>w. raw_advantages args all_reduce [data ! e] 0 = Inr w" if "e < length data" for e
    using normalized_raw [OF assms(5) True that] parts_of_one [of "data ! e"] that assms(2) by simp
  then have "\<exists>a t. per_token (data ! e) a \<and> per_token (data ! e) t \<and> (\<forall>n r. r < n \<and> rewards_ok args (data ! e) n \<longrightarrow>
      raw_advantages args all_reduce (parts_of n (data ! e)) r = Inr (cut n r (rp_total_lengths (data ! e)) a, cut n r (rp_total_lengths (data ! e)) t))"
    if "e < length data" for e using raw_cuts [OF assms(1) _ assms(3)] that assms(2) unfolding cuts_of_def by (metis nth_mem)
  then obtain a t where pt: "\<And>e. e < length data \<Longrightarrow> per_token (data ! e) (a e)" "\<And>e. e < length data \<Longrightarrow> per_token (data ! e) (t e)"
    and raw: "\<And>e n r. e < length data \<Longrightarrow> r < n \<Longrightarrow> rewards_ok args (data ! e) n \<Longrightarrow> raw_advantages args all_reduce (parts_of n (data ! e)) r =
      Inr (cut n r (rp_total_lengths (data ! e)) (a e), cut n r (rp_total_lengths (data ! e)) (t e))" by metis
  define stats where "stats = map (\<lambda>j. \<Sum>e<length data. local_stats (concat (a e)) (concat (rp_loss_masks (data ! e))) ! j) [0..<3]"
  let ?w = "whiten_entry stats True (1 / 10 ^ 8)" and ?tot = "rp_total_lengths (data ! d)"
  have okd: "part_ok (data ! d)" and ne: "data \<noteq> []" using assms(2,4) by auto
  have run: "compute_advantages_and_returns args all_reduce (map (parts_of n) data) d r =
      (if stats ! 2 = 0 then Inl (ValueError ''The global mask sum across all participating GPUs is zero.'')
       else Inr (cut n r ?tot (map (map ?w) (a d)), cut n r ?tot (t d)))"
    if r: "r < n" and ok: "\<forall>p \<in> set data. rewards_ok args p n" for n r
  proof -
    have n: "0 < n" using r by simp
    have pos: "sum_list (map length (take d (map (parts_of n) data))) + r = d * n + r"
      using assms(4) by (simp add: take_map o_def sum_list_triv)
    have flat_d: "map fst (flat_of n data a) ! (d * n + r) = concat (cut n r ?tot (a d))"
      unfolding flat_of_def map_concat map_map o_def fst_conv by (rule nth_blocks [OF assms(4) r])
    have split: "torch_split (map ?w (concat (cut n r ?tot (a d)))) (map length (cut n r ?tot (a d))) = Inr (cut n r ?tot (map (map ?w) (a d)))"
      using torch_split_concat [of "map (map ?w) (cut n r ?tot (a d))"] unfolding map_concat [symmetric] cut_map(1) [OF okd r pt(1) [OF assms(4)], symmetric]
      by (simp add: o_def)
    have "\<exists>ret. raw_advantages args all_reduce (parts_of n (data ! e)) q = Inr (cut n q (rp_total_lengths (data ! e)) (a e), ret)"
      if "e < length data" "q < n" for e q using raw [OF that] ok that(1) by simp
    from flat_run [OF assms(2) pt(1) this] raw [OF assms(4) r] ok assms(4) True show ?thesis
      using flat_stats [OF assms(1,2) ne n pt(1)] flat_d split
      by (simp add: compute_advantages_and_returns_def whiten_eq Let_def pos stats_def)
  qed
  have "stats ! 2 \<noteq> 0" using run [of 0 1] assms(5) by (auto simp: rewards_ok_def reward_row_on_first_def)
  then show ?thesis using run pt assms(4) cut_map(2) [OF okd zero_less_one pt(1) [OF assms(4)]] by (intro cuts_ofI) auto
qed

text \<open>C33: With every built-in estimator, with or without the distillation penalty and the normalisation, what a
  context-parallel rank computes are its parts of the advantages and returns that one rank computes from the whole sequences, whenever
  those are computed without an error. For \<open>ppo\<close> this is so where the first rank of the group holds the row of the last token of every
  sequence. A custom advantage function is excluded.\<close>

theorem advantages_layout_independent:
  assumes "sums_ranks all_reduce" "\<forall>p \<in> set data. part_ok p" "aa_custom args = None" "d < length data" "r < n"
    and "aa_advantage_estimator args = ''ppo'' \<longrightarrow> (\<forall>p \<in> set data. \<forall>tot \<in> set (rp_total_lengths p). n = 1 \<or> owns 0 (int n) tot (tot - 2))"
    and "compute_advantages_and_returns args all_reduce (map (\<lambda>p. [p]) data) d 0 = Inr (advantages, returns)"
  shows "compute_advantages_and_returns args all_reduce (map (\<lambda>p. map (\<lambda>q. cp_part n q p) [0..<n]) data) d r =
    Inr (cut n r (rp_total_lengths (data ! d)) advantages, cut n r (rp_total_lengths (data ! d)) returns)"
proof -
  have one: "map (parts_of 1) data = map (\<lambda>p. [p]) data" using assms(2) by (simp add: cp_part_one)
  obtain a t where at: "per_token (data ! d) a" "per_token (data ! d) t" "\<And>n r. r < n \<Longrightarrow> \<forall>p \<in> set data. rewards_ok args p n \<Longrightarrow>
      compute_advantages_and_returns args all_reduce (map (parts_of n) data) d r = Inr (cut n r (rp_total_lengths (data ! d)) a, cut n r (rp_total_lengths (data ! d)) t)"
    using advantages_cuts [OF assms(1-4) assms(7) [folded one]] unfolding cuts_of_def by blast
  have "(advantages, returns) = (a, t)"
    using at(3) [of 0 1] assms(7) unfolding one by (simp add: cut_one [OF at(1)] cut_one [OF at(2)])
  moreover have "\<forall>p \<in> set data. rewards_ok args p n" using assms(6) by (simp add: rewards_ok_def reward_row_on_first_def)
  ultimately show ?thesis using at(3) [OF assms(5)] by simp
qed

section \<open>A concrete batch\<close>

definition adv_demo_args :: adv_args where
  "adv_demo_args = \<lparr>aa_advantage_estimator = ''grpo'', aa_kl_coef = 0, aa_kl_loss_type = ''k1'', aa_use_rollout_logprobs = False, aa_custom = None,
     aa_gamma = 1, aa_lambd = 1, aa_use_opd = False, aa_opd_kl_coef = 0, aa_normalize_advantages = True\<rparr>"

definition adv_demo_part :: rollout_part where
  "adv_demo_part = \<lparr>rp_rollout_log_probs = None, rp_log_probs = Some [[0, 0]], rp_ref_log_probs = None, rp_values = None, rp_teacher_log_probs = None,
     rp_rewards = [1], rp_response_lengths = [2], rp_loss_masks = [[1, 1]], rp_total_lengths = [5]\<rparr>"

theorem advantages_layout_independent_witness:
  "\<exists>a t. compute_advantages_and_returns adv_demo_args vec_sum (map (\<lambda>p. map (\<lambda>q. cp_part 2 q p) [0..<2]) [adv_demo_part]) 0 1 =
    Inr (cut 2 1 [5] a, cut 2 1 [5] t)"
proof -
  have ok: "\<forall>p \<in> set [adv_demo_part]. part_ok p" by (simp add: adv_demo_part_def part_ok_def per_token_def)
  have "\<exists>a t. compute_advantages_and_returns adv_demo_args vec_sum (map (\<lambda>p. [p]) [adv_demo_part]) 0 0 = Inr (a, t)"
    by (simp add: compute_advantages_and_returns_def raw_advantages_def kl_terms_def log_probs_used_def adv_demo_args_def adv_demo_part_def
      estimate_def with_kl_def get_grpo_returns_def py_nth_def whitening_input_def local_masks_def distributed_masked_whiten_def Let_def
      local_stats_def vec_sum_def dot_def numeral_3_eq_3)
  then show ?thesis
    using advantages_layout_independent [OF vec_sum_sums_ranks ok, of adv_demo_args 0 1 2] by (auto simp: adv_demo_args_def adv_demo_part_def)
qed

section \<open>What the whitening achieves\<close>

lemma dot_centered:
  assumes "length xs = length ms"
  shows "dot (map (\<lambda>x. (x - m) * k) xs) ms = (dot xs ms - m * sum_list ms) * k"
    and "dot (map (\<lambda>x. ((x - m) * k) ^ 2) xs) ms = (dot (map (\<lambda>x. x ^ 2) xs) ms - 2 * m * dot xs ms + m ^ 2 * sum_list ms) * k ^ 2"
  using assms by (induction xs ms rule: list_induct2) (simp_all add: dot_def algebra_simps power2_eq_square)

lemma dot_nonneg: "(\<And>x. 0 \<le> f x) \<Longrightarrow> \<forall>m \<in> set ms. 0 \<le> m \<Longrightarrow> 0 \<le> dot (map f xs) ms"
  unfolding dot_def by (intro sum_list_nonneg) (auto simp: set_zip)

lemma group_stats:
  assumes "sums_ranks all_reduce" "xss \<noteq> []" "length mss = length xss" "\<And>i. i < length xss \<Longrightarrow> length (mss ! i) = length (xss ! i)"
  shows "all_reduce (map2 local_stats xss mss) = local_stats (concat xss) (concat mss)"
proof -
  have dots: "(\<Sum>i<length xss. dot (map f (xss ! i)) (mss ! i)) = dot (map f (concat xss)) (concat mss)" for f
    using dot_concat [of mss "map (map f) xss"] assms(3,4) by (simp add: map_concat)
  have "(\<Sum>i<length zss. sum_list (zss ! i)) = sum_list (concat zss)" for zss :: "real list list"
    by (induction zss) (simp_all add: sum.lessThan_Suc_shift del: sum.lessThan_Suc)
  then have sums: "(\<Sum>i<length xss. sum_list (mss ! i)) = sum_list (concat mss)" using assms(3) by metis
  have "(\<Sum>ys\<leftarrow>map2 local_stats xss mss. ys ! j) = (\<Sum>i<length xss. local_stats (xss ! i) (mss ! i) ! j)" for j
    using assms(3) by (simp add: sum_list_sum_nth atLeast0LessThan)
  moreover have "\<forall>ys \<in> set (map2 local_stats xss mss). length ys = 3" by (auto simp: local_stats_def)
  ultimately have "all_reduce (map2 local_stats xss mss) = map (\<lambda>j. \<Sum>i<length xss. local_stats (xss ! i) (mss ! i) ! j) [0..<3]"
    using sums_ranksD [OF assms(1), of "map2 local_stats xss mss" 3] assms(2,3) by (cases xss; cases mss) simp_all
  then show ?thesis using dots [of "\<lambda>x. x"] dots [of "\<lambda>x. x ^ 2"] sums by (simp add: local_stats_def numeral_3_eq_3)
qed

text \<open>C35: whitening normalises over the whole group: the whitened values of all ranks have masked mean 0, and masked unbiased
  variance \<open>V / (V + epsilon)\<close> for the variance \<open>V\<close> of the values.\<close>

theorem whitening_normalizes:
  fixes xss mss :: "real list list"
  defines "X \<equiv> concat xss" and "M \<equiv> concat mss"
  defines "N \<equiv> sum_list M"
  defines "V \<equiv> dot (map (\<lambda>x. (x - dot X M / N) ^ 2) X) M / (N - 1)"
  assumes "sums_ranks all_reduce" "xss \<noteq> []" "length mss = length xss" "\<forall>i < length xss. length (mss ! i) = length (xss ! i)"
    and "\<forall>m \<in> set M. 0 \<le> m" "2 \<le> N" "0 < epsilon"
  shows "\<exists>ws. (\<forall>q < length xss. distributed_masked_whiten all_reduce xss mss q True epsilon = Inr (ws ! q)) \<and> length ws = length xss \<and>
    dot (concat ws) M = 0 \<and> dot (map (\<lambda>x. x ^ 2) (concat ws)) M / (N - 1) = V / (V + epsilon)"
proof -
  let ?mean = "dot X M / N" and ?w = "whiten_entry (local_stats X M) True epsilon"
  define k where "k = 1 / sqrt (V + epsilon)"
  have stats: "all_reduce (map2 local_stats xss mss) = local_stats X M" unfolding X_def M_def using assms(5-8) by (intro group_stats) auto
  have len: "length X = length M"
  proof -
    have "map length xss = map length mss" using assms(7,8) by (intro nth_equalityI) simp_all
    then show ?thesis unfolding X_def M_def length_concat by simp
  qed
  have N: "N \<noteq> 0" "N - 1 \<noteq> 0" "0 < N - 1" using assms(10) by simp_all
  have sq: "dot (map (\<lambda>x. (x - ?mean) ^ 2) X) M = dot (map (\<lambda>x. x ^ 2) X) M - N * ?mean ^ 2"
    using dot_centered(2) [OF len, of ?mean 1] N(1) by (simp add: N_def [symmetric] power2_eq_square field_simps)
  have V: "V = (dot (map (\<lambda>x. x ^ 2) X) M / N - ?mean ^ 2) * (N / (N - 1))" unfolding V_def sq using N by (simp add: field_simps)
  have "0 \<le> V" unfolding V_def using dot_nonneg [of "\<lambda>x. (x - ?mean) ^ 2" M X] assms(9) N(3) by simp
  then have k: "k ^ 2 = 1 / (V + epsilon)" using assms(11) by (simp add: k_def power_divide)
  have w: "?w = (\<lambda>x. (x - ?mean) * k)"
    unfolding whiten_entry_def Let_def using assms(10) by (simp add: local_stats_def N_def [symmetric] V k_def fun_eq_iff)
  have run: "distributed_masked_whiten all_reduce xss mss q True epsilon = Inr (map ?w (xss ! q))" for q
    unfolding whiten_eq Let_def stats using N(1) by (simp add: local_stats_def N_def)
  have "concat (map (map ?w) xss) = map (\<lambda>x. (x - ?mean) * k) X" unfolding w unfolding X_def map_concat ..
  then have cw: "concat (map (map ?w) xss) = map (\<lambda>x. (x - ?mean) * k) X" .
  have "dot (map (\<lambda>x. ((x - ?mean) * k) ^ 2) X) M = dot (map (\<lambda>x. (x - ?mean) ^ 2) X) M * k ^ 2"
    unfolding dot_centered(2) [OF len, of ?mean k] using dot_centered(2) [OF len, of ?mean 1] by simp
  also have "dot (map (\<lambda>x. (x - ?mean) ^ 2) X) M = V * (N - 1)" unfolding V_def using N(2) by simp
  finally have "dot (map (\<lambda>x. ((x - ?mean) * k) ^ 2) X) M / (N - 1) = V / (V + epsilon)" using N(2) k by simp
  moreover have "dot (map (\<lambda>x. (x - ?mean) * k) X) M = 0" using dot_centered(1) [OF len, of ?mean k] N(1) by (simp add: N_def [symmetric])
  ultimately show ?thesis using run by (intro exI [of _ "map (map ?w) xss"]) (simp add: cw o_def)
qed

theorem whitening_normalizes_witness:
  "\<exists>ws. (\<forall>q < 2. distributed_masked_whiten vec_sum [[1], [3]] [[1], [1]] q True 1 = Inr (ws ! q)) \<and> length ws = 2 \<and>
    dot (concat ws) [1, 1] = 0 \<and> dot (map (\<lambda>x. x ^ 2) (concat ws)) [1, 1] / (2 - 1) = 2 / (2 + 1)"
  using whitening_normalizes [OF vec_sum_sums_ranks, of "[[1], [3]]" "[[1], [1]]" 1]
  by (simp add: dot_def numeral_2_eq_2 less_Suc_eq)

end
