(* ===== verification/Policy_Loss.thy ===== *)
theory Policy_Loss
  imports Advantages Loss_Layout
begin

text \<open>
  The losses of \<open>vime/backends/megatron_utils/loss.py\<close> lines 904-950 and 1128-1607, computed by every rank of a
  context-parallel group from its share of a micro-batch. What a rank's forward pass gives (log-probabilities, entropies and
  the score-centering terms of its response tokens) is an argument; \<open>get_log_probs_and_entropy\<close> computes it. Only the values of
  the losses are modelled, not their gradients: \<open>detach\<close> and adding \<open>0 * logits.sum()\<close> are identities.
\<close>

section \<open>Arguments and data\<close>

text \<open>An off-policy correction, given the loss per token, the trainer's and the rollout's log-probabilities and the loss
  masks, returns the corrected loss, the masks and metrics per token.\<close>

type_synonym metric_vectors = "(string \<times> real list) list"
type_synonym off_policy = "real list \<Rightarrow> real list list \<Rightarrow> real list list \<Rightarrow> real list list \<Rightarrow> (real list \<times> real list list \<times> metric_vectors) result"

record policy_args =
  pa_pg_loss_type :: "string option"
  pa_use_score_centering :: bool
  pa_sc_weighting :: "string \<times> real option \<times> real option"
  pa_advantage_estimator :: string
  pa_use_rollout_logprobs :: bool
  pa_use_opsm :: bool
  pa_opsm_delta :: real
  pa_eps_clip :: real
  pa_eps_clip_high :: real
  pa_eps_clip_c :: "real option"
  pa_get_mismatch_metrics :: bool
  pa_use_tis :: bool
  pa_custom_tis :: "off_policy option"
  pa_tis_clip_low :: real
  pa_tis_clip :: real
  pa_custom_reducer :: "(int list \<Rightarrow> nat list \<Rightarrow> real list list \<Rightarrow> bool \<Rightarrow> real list \<Rightarrow> real result) option"
  pa_entropy_coef :: real
  pa_use_kl_loss :: bool
  pa_use_unbiased_kl :: bool
  pa_kl_loss_type :: string
  pa_kl_loss_coef :: real
  pa_calculate_per_token_loss :: bool
  pa_value_clip :: real

text \<open>A rank's share of a micro-batch, and what its forward pass gives.\<close>

record policy_batch =
  pb_data :: rollout_part
  pb_advantages :: "real list list"
  pb_returns :: "real list list"
  pb_rollout_mask_sums :: "real list"
  pb_opd_reverse_kl :: "real list list option"

record forward_pass =
  fw_log_probs :: "real list list"
  fw_entropy :: "real list list"
  fw_values :: "real list list"
  fw_sc_correction :: "real list list"
  fw_sc_sampler_head_mass :: "real list list"
  fw_sc_train_head_mass :: "real list list"

definition torch_cat :: "'a list list \<Rightarrow> 'a list result" where
  "torch_cat xss = (if xss = [] then Inl (RuntimeError ''torch.cat(): expected a non-empty list of Tensors'') else Inr (concat xss))"

section \<open>Off-policy corrections\<close>

definition importance_correction :: "string \<Rightarrow> policy_args \<Rightarrow> off_policy" where
  "importance_correction mode args pg_loss train_log_probs rollout_log_probs loss_masks =
     res_bind (torch_cat rollout_log_probs) (\<lambda>rollout.
     res_bind (torch_cat train_log_probs) (\<lambda>old.
     res_bind (broadcast2 (\<lambda>o' r. exp (o' - r)) old rollout) (\<lambda>ratio.
     res_bind (importance_weights ratio mode (Some (pa_tis_clip_low args)) (Some (pa_tis_clip args))) (\<lambda>weights.
     res_bind (broadcast2 (*) pg_loss weights) (\<lambda>pg.
       Inr (pg, loss_masks, [(''tis'', ratio), (''tis_clipfrac'', map2 (\<lambda>w x. if w \<noteq> x then 1 else 0) weights ratio),
         (''tis_abs'', map (\<lambda>x. \<bar>x - 1\<bar>) ratio)]))))))"

definition vanilla_tis_function :: "policy_args \<Rightarrow> off_policy" where
  "vanilla_tis_function = importance_correction ''tis''"

definition icepop_function :: "policy_args \<Rightarrow> off_policy" where
  "icepop_function = importance_correction ''mis''"

section \<open>Policy loss\<close>

definition old_log_probs_of :: "policy_args \<Rightarrow> policy_batch \<Rightarrow> forward_pass \<Rightarrow> real list list result" where
  "old_log_probs_of args b fw =
     (if pa_use_rollout_logprobs args then
        case rp_rollout_log_probs (pb_data b) of None \<Rightarrow> Inl (KeyError ''rollout_log_probs'') | Some xs \<Rightarrow> Inr xs
      else Inr (the (py_or (rp_log_probs (pb_data b)) (Some (fw_log_probs fw)))))"

definition train_log_probs_for_tis :: "string \<Rightarrow> policy_batch \<Rightarrow> forward_pass \<Rightarrow> real list list" where
  "train_log_probs_for_tis pg_loss_type b fw =
     (if pg_loss_type = ''reinforce'' then fw_log_probs fw else the (py_or (rp_log_probs (pb_data b)) (Some (fw_log_probs fw))))"

text \<open>\<open>tensors ! q\<close> are the local tensors of rank \<open>q\<close>.\<close>

definition gather_full ::
  "(real list list \<Rightarrow> real list) \<Rightarrow> nat \<Rightarrow> int list \<Rightarrow> nat list \<Rightarrow> real list list list \<Rightarrow> real list list result" where
  "gather_full all_reduce r total_lengths response_lengths tensors =
     res_map (\<lambda>i. all_gather_with_cp all_reduce (map (\<lambda>v. v ! i) tensors) (total_lengths ! i) (int (response_lengths ! i)))
       [0..<min (length (tensors ! r)) (min (length total_lengths) (length response_lengths))]"

definition ppo_kl_of ::
  "policy_args \<Rightarrow> (real list list \<Rightarrow> real list) \<Rightarrow> nat \<Rightarrow> rollout_part \<Rightarrow> real list list list \<Rightarrow> real list list list \<Rightarrow> real list result" where
  "ppo_kl_of args all_reduce r d log_probs olds =
     (if pa_advantage_estimator args = ''gspo'' then
        res_bind (gather_full all_reduce r (rp_total_lengths d) (rp_response_lengths d) log_probs) (\<lambda>full_log_probs.
        res_bind (gather_full all_reduce r (rp_total_lengths d) (rp_response_lengths d) olds) (\<lambda>full_old_log_probs.
          compute_gspo_kl full_log_probs full_old_log_probs (log_probs ! r) (rp_loss_masks d)))
      else res_bind (torch_cat (olds ! r)) (\<lambda>old. res_bind (torch_cat (log_probs ! r)) (broadcast2 (-) old)))"

definition opsm_of ::
  "policy_args \<Rightarrow> (real list list \<Rightarrow> real list) \<Rightarrow> nat \<Rightarrow> rollout_part \<Rightarrow> real list list \<Rightarrow> real list list list \<Rightarrow> real list list list \<Rightarrow>
   (real list \<times> real) option result" where
  "opsm_of args all_reduce r d advantages log_probs olds =
     (if pa_use_opsm args then
        res_bind (gather_full all_reduce r (rp_total_lengths d) (rp_response_lengths d) log_probs) (\<lambda>full_log_probs.
        res_bind (gather_full all_reduce r (rp_total_lengths d) (rp_response_lengths d) olds) (\<lambda>full_old_log_probs.
        res_bind (compute_opsm_mask (pa_opsm_delta args) full_log_probs full_old_log_probs advantages (rp_loss_masks d)) (\<lambda>m. Inr (Some m))))
      else Inr None)"

definition pg_loss_of :: "policy_args \<Rightarrow> string \<Rightarrow> real list \<Rightarrow> real list \<Rightarrow> real list \<Rightarrow> (real list \<times> real list) result" where
  "pg_loss_of args pg_loss_type ppo_kl log_probs advantages =
     (if pg_loss_type = ''reinforce'' then
        res_bind (broadcast2 (\<lambda>a l. - a * l) advantages log_probs) (\<lambda>pg. Inr (pg, map (\<lambda>_. 0) log_probs))
      else if pg_loss_type = ''cispo'' then
        Inr (compute_cispo_loss ppo_kl log_probs advantages (pa_eps_clip args) (pa_eps_clip_high args))
      else compute_policy_loss ppo_kl advantages (pa_eps_clip args) (pa_eps_clip_high args) (pa_eps_clip_c args))"

definition correct_off_policy ::
  "policy_args \<Rightarrow> string \<Rightarrow> policy_batch \<Rightarrow> forward_pass \<Rightarrow> real list \<Rightarrow> real list \<Rightarrow> (real list \<times> real list list \<times> metric_vectors) result" where
  "correct_off_policy args pg_loss_type b fw ppo_kl pg_loss =
     (if pa_get_mismatch_metrics args \<or> pa_use_tis args then
        case rp_rollout_log_probs (pb_data b) of
          None \<Rightarrow> Inl (AssertionError ''rollout_log_probs must be provided for TIS'')
        | Some rollout \<Rightarrow>
          let f = (case pa_custom_tis args of Some f \<Rightarrow> f | None \<Rightarrow> vanilla_tis_function args) in
          res_bind (f pg_loss (train_log_probs_for_tis pg_loss_type b fw) rollout (rp_loss_masks (pb_data b))) (\<lambda>(pg, masks, metrics).
            Inr (pg, masks, (''ois'', map (\<lambda>x. exp (- x)) ppo_kl) # metrics))
      else Inr (pg_loss, rp_loss_masks (pb_data b), []))"

definition center_scores ::
  "policy_args \<Rightarrow> policy_batch \<Rightarrow> forward_pass \<Rightarrow> real list \<Rightarrow> real list \<Rightarrow> real list \<Rightarrow> (real list \<times> metric_vectors) result" where
  "center_scores args b fw log_probs advantages pg_loss =
     (if pa_use_score_centering args then
        res_bind (torch_cat (fw_sc_correction fw)) (\<lambda>sc_correction.
        res_bind (torch_cat (fw_sc_sampler_head_mass fw)) (\<lambda>sampler_head_mass.
        res_bind (torch_cat (fw_sc_train_head_mass fw)) (\<lambda>train_head_mass.
        res_bind (broadcast2 (*) advantages sc_correction) (\<lambda>correction.
        res_bind (broadcast2 (+) pg_loss correction) (\<lambda>pg.
        case rp_rollout_log_probs (pb_data b) of
          None \<Rightarrow> Inl (KeyError ''rollout_log_probs'')
        | Some rollout \<Rightarrow> res_bind (torch_cat rollout) (\<lambda>rollout.
            res_bind (broadcast2 (\<lambda>l r. exp (l - r)) log_probs rollout) (\<lambda>sampled_ratio.
            let (mode, low, high) = pa_sc_weighting args in
            res_bind (importance_weights sampled_ratio mode low high) (\<lambda>w.
              Inr (pg, [(''sc_correction'', sc_correction), (''sc_sampler_head_mass'', sampler_head_mass),
                (''sc_train_head_mass'', train_head_mass), (''sc_importance_weight'', w)])))))))))
      else Inr (pg_loss, []))"

definition kl_loss_of :: "policy_args \<Rightarrow> policy_batch \<Rightarrow> real list \<Rightarrow> real list \<Rightarrow> metric_vectors result" where
  "kl_loss_of args b log_probs old_log_probs =
     (if pa_use_kl_loss args then
        case rp_ref_log_probs (pb_data b) of
          None \<Rightarrow> Inl (KeyError ''ref_log_probs'')
        | Some ref \<Rightarrow> res_bind (torch_cat ref) (\<lambda>ref.
            res_bind (if pa_use_unbiased_kl args then res_bind (broadcast2 (\<lambda>l o'. exp (l - o')) log_probs old_log_probs) (\<lambda>x. Inr (Some x)) else Inr None)
              (\<lambda>ratio. res_bind (compute_approx_kl log_probs ref (pa_kl_loss_type args) ratio) (\<lambda>kl. Inr [(''kl_loss'', kl)])))
      else Inr [])"

definition logprob_diff_of :: "policy_args \<Rightarrow> policy_batch \<Rightarrow> real list \<Rightarrow> real list \<Rightarrow> metric_vectors result" where
  "logprob_diff_of args b log_probs old_log_probs =
     (case rp_rollout_log_probs (pb_data b) of
        Some (x # xs) \<Rightarrow> res_bind (broadcast2 (\<lambda>l r. \<bar>l - r\<bar>)
            (if pa_use_rollout_logprobs args \<or> pa_use_score_centering args then log_probs else old_log_probs) (concat (x # xs)))
          (\<lambda>v. Inr [(''train_rollout_logprob_abs_diff'', v)])
      | _ \<Rightarrow> Inr [])"

text \<open>The quantities per token that the policy loss reduces: those reduced with the (possibly modified) masks, first the loss and
  the entropy; the modified masks; those reduced with the original masks; the clip fraction of OPSM; and the KL of the
  distillation.\<close>

type_synonym policy_terms = "metric_vectors \<times> real list list \<times> metric_vectors \<times> real option \<times> metric_vectors"

definition corrected_terms ::
  "policy_args \<Rightarrow> string \<Rightarrow> policy_batch \<Rightarrow> forward_pass \<Rightarrow> (real list \<times> real) option \<Rightarrow> real list \<Rightarrow> real list \<Rightarrow> real list \<Rightarrow> real list \<Rightarrow>
   real list \<times> real list \<Rightarrow> policy_terms result" where
  "corrected_terms args pg_loss_type b fw opsm ppo_kl old_log_probs log_probs advantages = (\<lambda>(pg_loss, pg_clipfrac).
      res_bind (case opsm of None \<Rightarrow> Inr pg_loss | Some (keep, _) \<Rightarrow> broadcast2 (*) pg_loss keep) (\<lambda>pg_loss.
      res_bind (correct_off_policy args pg_loss_type b fw ppo_kl pg_loss) (\<lambda>(pg_loss, masks, tis_metrics).
      res_bind (center_scores args b fw log_probs advantages pg_loss) (\<lambda>(pg_loss, sc_terms).
      res_bind (torch_cat (fw_entropy fw)) (\<lambda>entropy.
      res_bind (kl_loss_of args b log_probs old_log_probs) (\<lambda>kl_loss.
      res_bind (logprob_diff_of args b log_probs old_log_probs) (\<lambda>diff.
      let opd = (case pb_opd_reverse_kl b of Some (x # xs) \<Rightarrow> [(''opd_reverse_kl'', concat (x # xs))] | _ \<Rightarrow> []) in
      Inr ([(''pg_loss'', pg_loss), (''entropy_loss'', entropy), (''pg_clipfrac'', pg_clipfrac), (''ppo_kl'', ppo_kl)] @ sc_terms @ diff @ kl_loss,
        masks, tis_metrics, map_option snd opsm, opd))))))))"

definition policy_terms ::
  "policy_args \<Rightarrow> (real list list \<Rightarrow> real list) \<Rightarrow> policy_batch list \<Rightarrow> forward_pass list \<Rightarrow> nat \<Rightarrow> policy_terms result" where
  "policy_terms args all_reduce batches fws r =
     (let b = batches ! r; fw = fws ! r; d = pb_data b; lps = map fw_log_probs fws in
      res_bind (get_pg_loss_type (pa_pg_loss_type args) (pa_use_score_centering args) (Some (pa_advantage_estimator args))) (\<lambda>pg_loss_type.
      res_bind (torch_cat (pb_advantages b)) (\<lambda>advantages.
      res_bind (res_map (\<lambda>(b, fw). old_log_probs_of args b fw) (zip batches fws)) (\<lambda>olds.
      res_bind (opsm_of args all_reduce r d (pb_advantages b) lps olds) (\<lambda>opsm.
      res_bind (ppo_kl_of args all_reduce r d lps olds) (\<lambda>ppo_kl.
      res_bind (torch_cat (olds ! r)) (\<lambda>old_log_probs.
      res_bind (torch_cat (lps ! r)) (\<lambda>log_probs.
      res_bind (pg_loss_of args pg_loss_type ppo_kl log_probs advantages)
        (corrected_terms args pg_loss_type b fw opsm ppo_kl old_log_probs log_probs advantages)))))))))"

definition reduce_metrics :: "(real list \<Rightarrow> real result) \<Rightarrow> metric_vectors \<Rightarrow> (string \<times> real) list result" where
  "reduce_metrics sum_of_sample_mean = res_map (\<lambda>(key, v). res_bind (sum_of_sample_mean v) (\<lambda>x. Inr (key, x)))"

definition sample_mean_of :: "policy_args \<Rightarrow> nat \<Rightarrow> nat \<Rightarrow> policy_batch \<Rightarrow> real list list \<Rightarrow> real list \<Rightarrow> real result" where
  "sample_mean_of args r n b masks = get_sum_of_sample_mean (int r) (int n) (rp_total_lengths (pb_data b)) (map int (rp_response_lengths (pb_data b)))
     masks (Some (pb_rollout_mask_sums b)) (pa_calculate_per_token_loss args)"

definition policy_loss_function ::
  "policy_args \<Rightarrow> (real list list \<Rightarrow> real list) \<Rightarrow> policy_batch list \<Rightarrow> forward_pass list \<Rightarrow> nat \<Rightarrow> (real \<times> (string \<times> real) list) result" where
  "policy_loss_function args all_reduce batches fws r =
     (let b = batches ! r; d = pb_data b; n = length batches in
      res_bind (policy_terms args all_reduce batches fws r) (\<lambda>(terms, masks, tis_metrics, opsm_clipfrac, opd).
      let mean = sample_mean_of args r n b masks;
          pg_mean = (case pa_custom_reducer args of None \<Rightarrow> mean
            | Some f \<Rightarrow> f (rp_total_lengths d) (rp_response_lengths d) masks (pa_calculate_per_token_loss args)) in
      res_bind (pg_mean (snd (hd terms))) (\<lambda>pg_loss.
      res_bind (reduce_metrics mean (drop 1 terms)) (\<lambda>metrics.
      res_bind (reduce_metrics (sample_mean_of args r n b (rp_loss_masks d)) tis_metrics) (\<lambda>tis.
      res_bind (reduce_metrics mean opd) (\<lambda>opd.
      let kl_loss = (case map_of metrics ''kl_loss'' of None \<Rightarrow> 0 | Some x \<Rightarrow> x);
          loss = pg_loss - pa_entropy_coef args * snd (hd metrics) + (if pa_use_kl_loss args then pa_kl_loss_coef args * kl_loss else 0)
      in Inr (loss, [(''loss'', loss), (''pg_loss'', pg_loss)] @ metrics @ tis @
           (case opsm_clipfrac of None \<Rightarrow> [] | Some x \<Rightarrow> [(''opsm_clipfrac'', x)]) @ opd)))))))"

section \<open>Value and supervised losses\<close>

definition value_loss_function :: "policy_args \<Rightarrow> nat \<Rightarrow> nat \<Rightarrow> policy_batch \<Rightarrow> forward_pass \<Rightarrow> (real \<times> (string \<times> real) list) result" where
  "value_loss_function args r n b fw =
     (case rp_values (pb_data b) of
        None \<Rightarrow> Inl (KeyError ''values'')
      | Some old \<Rightarrow>
        res_bind (torch_cat old) (\<lambda>old_values.
        res_bind (torch_cat (fw_values fw)) (\<lambda>vals.
        res_bind (torch_cat (pb_returns b)) (\<lambda>returns.
        res_bind (broadcast2 (\<lambda>v o'. if \<bar>v - o'\<bar> > pa_value_clip args then 1 else 0) vals old_values) (\<lambda>values_clipfrac.
        res_bind (broadcast2 (\<lambda>v o'. o' + clamp (- pa_value_clip args) (pa_value_clip args) (v - o')) vals old_values) (\<lambda>values_clipped.
        res_bind (broadcast2 (\<lambda>c ret. (c - ret) ^ 2) values_clipped returns) (\<lambda>surr1.
        res_bind (broadcast2 (\<lambda>v ret. (v - ret) ^ 2) vals returns) (\<lambda>surr2.
        let mean = sample_mean_of args r n b (rp_loss_masks (pb_data b)) in
        res_bind (mean (map2 max surr1 surr2)) (\<lambda>loss.
        res_bind (mean values_clipfrac) (\<lambda>clipfrac.
          Inr (loss, [(''value_loss'', loss), (''value_clipfrac'', clipfrac)])))))))))))"

definition sft_loss_function :: "policy_args \<Rightarrow> nat \<Rightarrow> nat \<Rightarrow> policy_batch \<Rightarrow> forward_pass \<Rightarrow> (real \<times> (string \<times> real) list) result" where
  "sft_loss_function args r n b fw =
     res_bind (torch_cat (fw_log_probs fw)) (\<lambda>log_probs.
     res_bind (sample_mean_of args r n b (rp_loss_masks (pb_data b)) log_probs) (\<lambda>x. Inr (- x, [(''loss'', - x)])))"

section \<open>The loss of a micro-batch, scaled for Megatron\<close>

definition loss_function ::
  "policy_args \<Rightarrow> string \<Rightarrow> (policy_batch \<Rightarrow> forward_pass \<Rightarrow> (real \<times> (string \<times> real) list) result) \<Rightarrow> (real list list \<Rightarrow> real list) \<Rightarrow> nat \<Rightarrow>
   nat \<Rightarrow> real \<Rightarrow> policy_batch list \<Rightarrow> forward_pass list \<Rightarrow> nat \<Rightarrow> (real \<times> real \<times> (string \<times> real) list) result" where
  "loss_function args loss_type custom_loss all_reduce dp_cp_size num_microbatches step_global_batch_size batches fws r =
     (let b = batches ! r; fw = fws ! r; cp_size = length batches;
          num_tokens = (\<Sum>m\<leftarrow>rp_loss_masks (pb_data b). max (sum_list m) 1) in
      res_bind
        (if loss_type = ''policy_loss'' then policy_loss_function args all_reduce batches fws r
         else if loss_type = ''value_loss'' then value_loss_function args r cp_size b fw
         else if loss_type = ''sft_loss'' then sft_loss_function args r cp_size b fw
         else if loss_type = ''custom_loss'' then custom_loss b fw
         else Inl (ValueError ''Unknown loss type''))
        (\<lambda>(loss, log).
          if pa_calculate_per_token_loss args then Inr (loss * real cp_size, num_tokens, (''count'', num_tokens) # log)
          else Inr (loss * real num_microbatches / step_global_batch_size * real dp_cp_size, 1, (''count'', 0) # log)))"

section \<open>Concatenated cuts\<close>

definition flat :: "nat \<Rightarrow> nat \<Rightarrow> rollout_part \<Rightarrow> 'a list list \<Rightarrow> 'a list" where
  "flat n r p xss = concat (cut n r (rp_total_lengths p) xss)"

lemma torch_cat_cut: "part_ok p \<Longrightarrow> per_token p xss \<Longrightarrow> torch_cat (cut n r (rp_total_lengths p) xss) = Inr (flat n r p xss)"
  using part_not_Nil(3) by (simp add: torch_cat_def flat_def)

lemma flat_map:
  assumes "part_ok p" "r < n" "per_token p xss"
  shows "map f (flat n r p xss) = flat n r p (map (map f) xss)"
  unfolding flat_def map_concat cut_map(1) [OF assms] ..

lemma map2_concat:
  assumes "length yss = length xss" "\<And>i. i < length xss \<Longrightarrow> length (yss ! i) = length (xss ! i)"
  shows "map2 f (concat xss) (concat yss) = concat (map2 (map2 f) xss yss)" "length (concat xss) = length (concat yss)"
proof -
  have "list_all2 (\<lambda>ys xs. length ys = length xs) yss xss" using assms by (simp add: list_all2_conv_all_nth)
  then have "map2 f (concat xss) (concat yss) = concat (map2 (map2 f) xss yss) \<and> length (concat xss) = length (concat yss)"
    by (induction rule: list_all2_induct) simp_all
  then show "map2 f (concat xss) (concat yss) = concat (map2 (map2 f) xss yss)" "length (concat xss) = length (concat yss)" by blast+
qed

lemma flat_map2:
  assumes "part_ok p" "r < n" "per_token p xss" "per_token p yss"
  shows "map2 f (flat n r p xss) (flat n r p yss) = flat n r p (map2 (map2 f) xss yss)" "length (flat n r p xss) = length (flat n r p yss)"
proof -
  let ?c = "\<lambda>xss. cut n r (rp_total_lengths p) xss"
  have len: "length (?c yss) = length (?c xss)" using assms(3,4) by (simp add: per_token_def)
  have "length (?c yss ! i) = length (?c xss ! i)" if "i < length (?c xss)" for i
    using that by (intro length_cut_nth [OF assms(1,2,4,3)]) simp
  note mc = map2_concat [OF len this]
  show "map2 f (flat n r p xss) (flat n r p yss) = flat n r p (map2 (map2 f) xss yss)"
    using mc(1) [of f] cut_pointwise(1) [OF assms, of f] by (simp only: flat_def)
  show "length (flat n r p xss) = length (flat n r p yss)" unfolding flat_def by (rule mc(2))
qed

lemma flat_broadcast2:
  assumes "part_ok p" "r < n" "per_token p xss" "per_token p yss"
  shows "broadcast2 f (flat n r p xss) (flat n r p yss) = Inr (flat n r p (map2 (map2 f) xss yss))"
  unfolding broadcast2_def flat_map2(1) [OF assms] using flat_map2(2) [OF assms] by simp

lemma per_token_map: "part_ok p \<Longrightarrow> per_token p xss \<Longrightarrow> per_token p (map (map f) xss)"
  by (rule cut_map(2) [where r = 0 and n = 1]) simp_all

lemma per_token_map2: "part_ok p \<Longrightarrow> per_token p xss \<Longrightarrow> per_token p yss \<Longrightarrow> per_token p (map2 (map2 f) xss yss)"
  by (rule cut_pointwise(2) [where r = 0 and n = 1]) simp_all

lemma gather_full_cut:
  assumes "sums_ranks all_reduce" "r < n" "part_ok p" "per_token p xss"
  shows "gather_full all_reduce r (rp_total_lengths p) (rp_response_lengths p) (cuts n p xss) = Inr xss"
proof -
  have len: "min (length (cuts n p xss ! r)) (min (length (rp_total_lengths p)) (length (rp_response_lengths p))) = length xss"
    using assms(2) part_lengths(1) [OF assms(3)] per_token_length [OF assms(4)] by simp
  have "all_gather_with_cp all_reduce (map (\<lambda>v. v ! i) (cuts n p xss)) (rp_total_lengths p ! i) (int (rp_response_lengths p ! i)) = Inr (xss ! i)"
    if "i < length xss" for i
  proof -
    have i: "i < length (rp_total_lengths p)" using that per_token_length [OF assms(4)] by simp
    have locals: "map (\<lambda>v. v ! i) (cuts n p xss) = map (\<lambda>q. cp_local q n (rp_total_lengths p ! i) (xss ! i)) [0..<n]"
      by (simp add: nth_cut [OF assms(4) i])
    show ?thesis unfolding locals
      using cp_gather_local [OF assms(1) _ part_okD(4) [OF assms(3) i assms(4)], of n] assms(2) part_okD(3) [OF assms(3) i assms(4)] by simp
  qed
  then have "gather_full all_reduce r (rp_total_lengths p) (rp_response_lengths p) (cuts n p xss) = Inr (map (\<lambda>i. xss ! i) [0..<length xss])"
    unfolding gather_full_def len by (intro res_map_Inr_ball) simp
  then show ?thesis by (simp add: map_nth)
qed

section \<open>The quantities per token of a rank are its share of those of the whole\<close>

definition batch_part :: "nat \<Rightarrow> nat \<Rightarrow> policy_batch \<Rightarrow> policy_batch" where
  "batch_part n r b = (let c = \<lambda>xss. cut n r (rp_total_lengths (pb_data b)) xss in
     b\<lparr>pb_data := cp_part n r (pb_data b), pb_advantages := c (pb_advantages b), pb_returns := c (pb_returns b),
       pb_opd_reverse_kl := map_option c (pb_opd_reverse_kl b)\<rparr>)"

definition forward_part :: "nat \<Rightarrow> nat \<Rightarrow> policy_batch \<Rightarrow> forward_pass \<Rightarrow> forward_pass" where
  "forward_part n r b fw = (let c = \<lambda>xss. cut n r (rp_total_lengths (pb_data b)) xss in
     \<lparr>fw_log_probs = c (fw_log_probs fw), fw_entropy = c (fw_entropy fw), fw_values = c (fw_values fw), fw_sc_correction = c (fw_sc_correction fw),
      fw_sc_sampler_head_mass = c (fw_sc_sampler_head_mass fw), fw_sc_train_head_mass = c (fw_sc_train_head_mass fw)\<rparr>)"

definition micro_batch_ok :: "policy_batch \<Rightarrow> forward_pass \<Rightarrow> bool" where
  "micro_batch_ok b fw \<longleftrightarrow> part_ok (pb_data b) \<and> per_token (pb_data b) (pb_advantages b) \<and> per_token (pb_data b) (pb_returns b) \<and>
     (\<forall>xss. pb_opd_reverse_kl b = Some xss \<longrightarrow> per_token (pb_data b) xss) \<and>
     per_token (pb_data b) (fw_log_probs fw) \<and> per_token (pb_data b) (fw_entropy fw) \<and> per_token (pb_data b) (fw_values fw) \<and>
     per_token (pb_data b) (fw_sc_correction fw) \<and> per_token (pb_data b) (fw_sc_sampler_head_mass fw) \<and> per_token (pb_data b) (fw_sc_train_head_mass fw)"

lemma batch_part_simps [simp]:
  "pb_data (batch_part n r b) = cp_part n r (pb_data b)" "pb_rollout_mask_sums (batch_part n r b) = pb_rollout_mask_sums b"
  "pb_advantages (batch_part n r b) = cut n r (rp_total_lengths (pb_data b)) (pb_advantages b)"
  "pb_returns (batch_part n r b) = cut n r (rp_total_lengths (pb_data b)) (pb_returns b)"
  "pb_opd_reverse_kl (batch_part n r b) = map_option (cut n r (rp_total_lengths (pb_data b))) (pb_opd_reverse_kl b)"
  by (simp_all add: batch_part_def Let_def)

lemma forward_part_simps [simp]:
  "fw_log_probs (forward_part n r b fw) = cut n r (rp_total_lengths (pb_data b)) (fw_log_probs fw)"
  "fw_entropy (forward_part n r b fw) = cut n r (rp_total_lengths (pb_data b)) (fw_entropy fw)"
  "fw_values (forward_part n r b fw) = cut n r (rp_total_lengths (pb_data b)) (fw_values fw)"
  "fw_sc_correction (forward_part n r b fw) = cut n r (rp_total_lengths (pb_data b)) (fw_sc_correction fw)"
  "fw_sc_sampler_head_mass (forward_part n r b fw) = cut n r (rp_total_lengths (pb_data b)) (fw_sc_sampler_head_mass fw)"
  "fw_sc_train_head_mass (forward_part n r b fw) = cut n r (rp_total_lengths (pb_data b)) (fw_sc_train_head_mass fw)"
  by (simp_all add: forward_part_def Let_def)

lemma micro_batch_okD:
  assumes "micro_batch_ok b fw"
  shows "part_ok (pb_data b)" "per_token (pb_data b) (pb_advantages b)" "per_token (pb_data b) (pb_returns b)"
    "pb_opd_reverse_kl b = Some xss \<Longrightarrow> per_token (pb_data b) xss"
    "per_token (pb_data b) (fw_log_probs fw)" "per_token (pb_data b) (fw_entropy fw)" "per_token (pb_data b) (fw_values fw)"
    "per_token (pb_data b) (fw_sc_correction fw)" "per_token (pb_data b) (fw_sc_sampler_head_mass fw)" "per_token (pb_data b) (fw_sc_train_head_mass fw)"
  using assms unfolding micro_batch_ok_def by blast+

lemma batch_part_one:
  assumes "micro_batch_ok b fw"
  shows "batch_part (Suc 0) 0 b = b" "forward_part (Suc 0) 0 b fw = fw"
proof -
  note ok = micro_batch_okD [OF assms]
  have "map_option (cut (Suc 0) 0 (rp_total_lengths (pb_data b))) (pb_opd_reverse_kl b) = pb_opd_reverse_kl b"
    by (rule map_option_same, rule cut_one, erule ok(4))
  then show "batch_part (Suc 0) 0 b = b"
    unfolding batch_part_def Let_def cp_part_one [OF ok(1)] cut_one [OF ok(2)] cut_one [OF ok(3)] by simp
  show "forward_part (Suc 0) 0 b fw = fw"
    unfolding forward_part_def Let_def cut_one [OF ok(5)] cut_one [OF ok(6)] cut_one [OF ok(7)] cut_one [OF ok(8)] cut_one [OF ok(9)] cut_one [OF ok(10)] by simp
qed

lemma py_or_cut:
  assumes "part_ok p" "\<And>xss. m = Some xss \<Longrightarrow> per_token p xss"
  shows "the (py_or (map_option (cut n r (rp_total_lengths p)) m) (Some (cut n r (rp_total_lengths p) yss))) =
    cut n r (rp_total_lengths p) (the (py_or m (Some yss)))"
proof (cases m)
  case (Some xss)
  show ?thesis
    using py_or_simps(2) [OF part_not_Nil(2) [OF assms(1) assms(2) [OF Some]]] py_or_simps(2) [OF part_not_Nil(3) [OF assms(1) assms(2) [OF Some]]]
    by (simp add: Some)
qed simp

lemma per_token_py_or: "(\<And>xss. m = Some xss \<Longrightarrow> per_token p xss) \<Longrightarrow> per_token p yss \<Longrightarrow> per_token p (the (py_or m (Some yss)))"
  by (auto simp: py_or_def split: option.splits list.splits)

lemma old_log_probs_cut:
  assumes "micro_batch_ok b fw" "old_log_probs_of args b fw = Inr old"
  shows "per_token (pb_data b) old \<and> old_log_probs_of args (batch_part n r b) (forward_part n r b fw) = Inr (cut n r (rp_total_lengths (pb_data b)) old)"
proof (cases "pa_use_rollout_logprobs args")
  case True
  then show ?thesis
    using assms(2) part_ok_fields(1) [OF micro_batch_okD(1) [OF assms(1)]] by (auto simp: old_log_probs_of_def split: option.splits)
next
  case False
  note ok = micro_batch_okD [OF assms(1)]
  have old: "old = the (py_or (rp_log_probs (pb_data b)) (Some (fw_log_probs fw)))" using False assms(2) by (simp add: old_log_probs_of_def)
  show ?thesis
    using False py_or_cut [OF ok(1) part_ok_fields(2) [OF ok(1)]] per_token_py_or [OF part_ok_fields(2) [OF ok(1)] ok(5)]
    by (simp add: old_log_probs_of_def old)
qed

lemma train_log_probs_cut:
  assumes "micro_batch_ok b fw"
  shows "per_token (pb_data b) (train_log_probs_for_tis t b fw)"
    "train_log_probs_for_tis t (batch_part n r b) (forward_part n r b fw) = cut n r (rp_total_lengths (pb_data b)) (train_log_probs_for_tis t b fw)"
proof -
  note ok = micro_batch_okD [OF assms]
  show "per_token (pb_data b) (train_log_probs_for_tis t b fw)"
    using ok(5) per_token_py_or [OF part_ok_fields(2) [OF ok(1)] ok(5)] by (simp add: train_log_probs_for_tis_def)
  show "train_log_probs_for_tis t (batch_part n r b) (forward_part n r b fw) = cut n r (rp_total_lengths (pb_data b)) (train_log_probs_for_tis t b fw)"
    using py_or_cut [OF ok(1) part_ok_fields(2) [OF ok(1)]] by (simp add: train_log_probs_for_tis_def)
qed

lemma gspo_kl_flat:
  assumes "part_ok p" "r < n" "per_token p lps" "per_token p olds"
  shows "\<exists>ws. length ws = length (rp_total_lengths p) \<and>
    (\<forall>n r. r < n \<longrightarrow> compute_gspo_kl lps olds (cut n r (rp_total_lengths p) lps) (rp_loss_masks p) =
      Inr (flat n r p (map2 (\<lambda>w xs. map (\<lambda>_. w) xs) ws lps)))"
proof -
  let ?ws = "map (\<lambda>(lp, old, m). masked_mean (map2 (-) old lp) m) (zip lps (zip olds (rp_loss_masks p)))"
  have len: "length ?ws = length (rp_total_lengths p)" using per_token_length [OF assms(3)] per_token_length [OF assms(4)] part_lengths(3) [OF assms(1)] by simp
  have "compute_gspo_kl lps olds (cut n r (rp_total_lengths p) lps) (rp_loss_masks p) = Inr (flat n r p (map2 (\<lambda>w xs. map (\<lambda>_. w) xs) ?ws lps))"
    if r: "r < n" for n r
  proof -
    have const: "map2 (\<lambda>kl lp. replicate (length lp) kl) ks xss = map2 (\<lambda>w xs. map (\<lambda>_. w) xs) ks xss" for ks :: "real list" and xss :: "real list list"
      by (simp add: map_replicate_const)
    have ne: "map2 (\<lambda>kl lp. replicate (length lp) kl) ?ws (cut n r (rp_total_lengths p) lps) \<noteq> []"
    proof -
      have "length (map2 (\<lambda>kl lp. replicate (length lp) kl) ?ws (cut n r (rp_total_lengths p) lps)) = length (rp_total_lengths p)"
        using len per_token_length [OF assms(3)] by simp
      then show ?thesis using part_not_Nil(1) [OF assms(1)] by (metis length_0_conv)
    qed
    have "compute_gspo_kl lps olds (cut n r (rp_total_lengths p) lps) (rp_loss_masks p) = Inr (concat (map2 (\<lambda>kl lp. replicate (length lp) kl) ?ws (cut n r (rp_total_lengths p) lps)))"
      unfolding compute_gspo_kl_def Let_def using ne by (simp only: if_False)
    then show ?thesis unfolding const cut_with(1) [OF assms(1) r assms(3) len] flat_def .
  qed
  with len show ?thesis by blast
qed

lemma ppo_kl_flat:
  assumes "sums_ranks all_reduce" "part_ok p" "per_token p lps" "per_token p olds"
  shows "\<exists>kl. per_token p kl \<and> (\<forall>n r. r < n \<longrightarrow> ppo_kl_of args all_reduce r (cp_part n r p) (cuts n p lps) (cuts n p olds) = Inr (flat n r p kl))"
proof (cases "pa_advantage_estimator args = ''gspo''")
  case True
  obtain ws where ws: "length ws = length (rp_total_lengths p)"
    "\<forall>n r. r < n \<longrightarrow> compute_gspo_kl lps olds (cut n r (rp_total_lengths p) lps) (rp_loss_masks p) = Inr (flat n r p (map2 (\<lambda>w xs. map (\<lambda>_. w) xs) ws lps))"
    using gspo_kl_flat [OF assms(2) zero_less_one assms(3,4)] by blast
  show ?thesis
    using ws True gather_full_cut [OF assms(1) _ assms(2,3)] gather_full_cut [OF assms(1) _ assms(2,4)]
    by (intro exI [of _ "map2 (\<lambda>w xs. map (\<lambda>_. w) xs) ws lps"] conjI cut_with(2) [OF assms(2) zero_less_one assms(3)])
      (simp_all add: ppo_kl_of_def)
next
  case False
  then show ?thesis
    using torch_cat_cut [OF assms(2,3)] torch_cat_cut [OF assms(2,4)] flat_broadcast2 [OF assms(2) _ assms(4,3)]
    by (intro exI [of _ "map2 (map2 (-)) olds lps"] conjI per_token_map2 [OF assms(2,4,3)]) (simp_all add: ppo_kl_of_def)
qed

lemma pg_loss_flat:
  assumes "part_ok p" "per_token p kl" "per_token p lps" "per_token p adv"
    and "pg_loss_of args t (flat 1 0 p kl) (flat 1 0 p lps) (flat 1 0 p adv) = Inr z"
  shows "\<exists>pg frac. per_token p pg \<and> per_token p frac \<and>
    (\<forall>n r. r < n \<longrightarrow> pg_loss_of args t (flat n r p kl) (flat n r p lps) (flat n r p adv) = Inr (flat n r p pg, flat n r p frac))"
proof -
  note pt2 = per_token_map2 [OF assms(1)] and pt = per_token_map [OF assms(1)] and f2 = flat_map2(1) [OF assms(1)] and f1 = flat_map [OF assms(1)]
  consider "t = ''reinforce''" | "t = ''cispo''" | "t \<notin> {''reinforce'', ''cispo''}" by blast
  then show ?thesis
  proof cases
    case 1
    let ?pg = "map2 (map2 (\<lambda>a l. - a * l)) adv lps"
    have "pg_loss_of args t (flat n r p kl) (flat n r p lps) (flat n r p adv) = Inr (flat n r p ?pg, flat n r p (map (map (\<lambda>_. 0)) lps))" if "r < n" for n r
      using 1 flat_broadcast2 [OF assms(1) that assms(4,3)] f1 [OF that assms(3), of "\<lambda>_. 0"] by (simp add: pg_loss_of_def)
    then show ?thesis using pt2 [OF assms(4,3)] pt [OF assms(3)] by blast
  next
    case 2
    let ?ratio = "map (map (\<lambda>k. exp (- k))) kl"
    let ?cut = "map (map (clamp (1 - pa_eps_clip args) (1 + pa_eps_clip_high args))) ?ratio"
    let ?ta = "map2 (map2 (\<lambda>t a. - t * a)) ?cut adv"
    let ?pg = "map2 (map2 (*)) ?ta lps" and ?frac = "map2 (map2 (\<lambda>t r. if t \<noteq> r then 1 else (0 :: real))) ?cut ?ratio"
    have r: "per_token p ?ratio" by (rule pt [OF assms(2)])
    have c: "per_token p ?cut" by (rule pt [OF r])
    have ta: "per_token p ?ta" by (rule pt2 [OF c assms(4)])
    have triple: "map (\<lambda>(t, a, lp). - t * a * lp) (zip ts (zip as ls)) = map2 (*) (map2 (\<lambda>t a. - t * a) ts as) ls" for ts as ls :: "real list"
      by (rule nth_equalityI) simp_all
    have cispo: "pg_loss_of args t xs ls as = Inr (compute_cispo_loss xs ls as (pa_eps_clip args) (pa_eps_clip_high args))" for xs ls as
      using 2 by (simp add: pg_loss_of_def)
    have "pg_loss_of args t (flat n r p kl) (flat n r p lps) (flat n r p adv) = Inr (flat n r p ?pg, flat n r p ?frac)" if "r < n" for n r
      unfolding cispo compute_cispo_loss_def Let_def triple f1 [OF that assms(2)] f1 [OF that r] f2 [OF that c assms(4)] f2 [OF that ta assms(3)] f2 [OF that c r] ..
    then show ?thesis using pt2 [OF ta assms(3)] pt2 [OF c r] by blast
  next
    case 3
    let ?f = "policy_loss_token (pa_eps_clip args) (pa_eps_clip_high args) (pa_eps_clip_c args)"
    have run: "pg_loss_of args t xs ls as = Inr (map2 (\<lambda>k a. fst (?f k a)) xs as, map2 (\<lambda>k a. snd (?f k a)) xs as)" for xs ls as
    proof -
      have "\<forall>c. pa_eps_clip_c args = Some c \<longrightarrow> \<not> c \<le> 1"
        using assms(5) 3 by (auto simp: pg_loss_of_def compute_policy_loss_def split: if_splits)
      then show ?thesis using 3 by (auto simp: pg_loss_of_def compute_policy_loss_def Let_def split: option.splits)
    qed
    have "pg_loss_of args t (flat n r p kl) (flat n r p lps) (flat n r p adv) =
        Inr (flat n r p (map2 (map2 (\<lambda>k a. fst (?f k a))) kl adv), flat n r p (map2 (map2 (\<lambda>k a. snd (?f k a))) kl adv))" if "r < n" for n r
      unfolding run f2 [OF that assms(2,4)] ..
    then show ?thesis using pt2 [OF assms(2,4)] by blast
  qed
qed

lemma sum_cp_local:
  assumes "0 < n" "int (length xs) < tot"
  shows "(\<Sum>q<n. sum_list (cp_local q n tot xs)) = sum_list (xs :: real list)"
proof -
  have ones: "sum_list ys = dot ys (map (\<lambda>_. 1) ys)" for ys by (induction ys) (simp_all add: dot_def)
  have "(\<Sum>q<n. dot (cp_local q n tot xs) (cp_local q n tot (map (\<lambda>_. 1) xs))) = dot xs (map (\<lambda>_. 1) xs)"
    using dot_cp_local [OF assms(1) _ assms(2), of "map (\<lambda>_. 1) xs"] by simp
  moreover have "cp_local q n tot (map (\<lambda>_. 1 :: real) xs) = map (\<lambda>_. 1) (cp_local q n tot xs)" if "q < n" for q
    by (rule cp_local_map [OF that assms(2)])
  ultimately show ?thesis unfolding ones by simp
qed

text \<open>The mask of off-policy sequences, and its clip fraction, which adds up over the ranks.\<close>

lemma opsm_flat:
  assumes "sums_ranks all_reduce" "part_ok p" "per_token p lps" "per_token p olds" "per_token p adv" "pa_use_opsm args"
  shows "\<exists>keep frac. per_token p keep \<and>
    (\<forall>n r. r < n \<longrightarrow> opsm_of args all_reduce r (cp_part n r p) (cut n r (rp_total_lengths p) adv) (cuts n p lps) (cuts n p olds) = Inr (Some (flat n r p keep, frac n r))) \<and>
    (\<forall>n. 0 < n \<longrightarrow> (\<Sum>r<n. frac n r) = (frac 1 0 :: real))"
proof -
  let ?tot = "rp_total_lengths p" and ?m = "rp_loss_masks p"
  define ws where "ws = map (\<lambda>(lp, old, m). pa_opsm_delta args < masked_mean (map2 (-) old lp) m) (zip lps (zip olds ?m))"
  define off where "off = map2 (\<lambda>w xs. map (\<lambda>a. if a < 0 \<and> w then 1 else (0 :: real)) xs) ws adv"
  define frac where "frac n r = sum_list (map2 (\<lambda>mask m. sum_list mask / max (sum_list m) 1) (cut n r ?tot off) ?m)" for n r
  note len = per_token_length [OF assms(3)] per_token_length [OF assms(4)] per_token_length [OF assms(5)] part_lengths(3) [OF assms(2)]
  have lw: "length ws = length ?tot" using len by (simp add: ws_def)
  have off: "per_token p off" unfolding off_def by (rule cut_with(2) [OF assms(2) zero_less_one assms(5) lw])
  have quad: "map (\<lambda>(lp, old, adv, m). map (\<lambda>a. if a < 0 \<and> pa_opsm_delta args < masked_mean (map2 (-) old lp) m then 1 else 0) adv)
      (zip lps (zip olds (zip as ?m))) = map2 (\<lambda>w xs. map (\<lambda>a. if a < 0 \<and> w then 1 else (0 :: real)) xs) ws as" if "length as = length ?tot" for as
    unfolding ws_def by (rule nth_equalityI) (use len that in simp_all)
  have run: "opsm_of args all_reduce r (cp_part n r p) (cut n r ?tot adv) (cuts n p lps) (cuts n p olds) =
      Inr (Some (flat n r p (map (map (\<lambda>m. 1 - m)) off), frac n r))" if r: "r < n" for n r
  proof -
    have "map2 (\<lambda>w xs. map (\<lambda>a. if a < 0 \<and> w then 1 else (0 :: real)) xs) ws (cut n r ?tot adv) = cut n r ?tot off"
      unfolding off_def by (rule cut_with(1) [OF assms(2) r assms(5) lw])
    then have masks: "map (\<lambda>(lp, old, adv, m). map (\<lambda>a. if a < 0 \<and> pa_opsm_delta args < masked_mean (map2 (-) old lp) m then 1 else 0) adv)
      (zip lps (zip olds (zip (cut n r ?tot adv) ?m))) = cut n r ?tot off" using quad [of "cut n r ?tot adv"] len by simp
    have "compute_opsm_mask (pa_opsm_delta args) lps olds (cut n r ?tot adv) ?m = Inr (concat (map (map (\<lambda>m. 1 - m)) (cut n r ?tot off)), frac n r)"
      unfolding compute_opsm_mask_def Let_def masks frac_def using part_not_Nil(3) [OF assms(2,5)] part_not_Nil(3) [OF assms(2) off] by simp
    then show ?thesis
      using assms(6) gather_full_cut [OF assms(1) r assms(2,3)] gather_full_cut [OF assms(1) r assms(2,4)] cut_map(1) [OF assms(2) r off, of "\<lambda>m. 1 - m"]
      by (simp add: opsm_of_def flat_def)
  qed
  have frac_sum: "frac n r = (\<Sum>i<length ?tot. sum_list (cp_local r n (?tot ! i) (off ! i)) / max (sum_list (?m ! i)) 1)" for n r
    using len per_token_length [OF off] unfolding frac_def by (simp add: sum_list_sum_nth nth_cut [OF off] atLeast0LessThan)
  have "(\<Sum>r<n. frac n r) = (\<Sum>i<length ?tot. sum_list (off ! i) / max (sum_list (?m ! i)) 1)" if n: "0 < n" for n
  proof -
    have "(\<Sum>r<n. frac n r) = (\<Sum>i<length ?tot. (\<Sum>r<n. sum_list (cp_local r n (?tot ! i) (off ! i))) / max (sum_list (?m ! i)) 1)"
      unfolding frac_sum sum_divide_distrib by (rule sum.swap)
    then show ?thesis using sum_cp_local [OF n part_okD(4) [OF assms(2) _ off]] by simp
  qed
  from this this [of 1] have "\<forall>n. 0 < n \<longrightarrow> (\<Sum>r<n. frac n r) = frac 1 0" by simp
  with run per_token_map [OF assms(2) off] show ?thesis by blast
qed

text \<open>Metrics per token.\<close>

definition flats :: "nat \<Rightarrow> nat \<Rightarrow> rollout_part \<Rightarrow> (string \<times> real list list) list \<Rightarrow> metric_vectors" where
  "flats n r p ms = map (\<lambda>(key, xss). (key, flat n r p xss)) ms"

definition per_tokens :: "rollout_part \<Rightarrow> (string \<times> real list list) list \<Rightarrow> bool" where
  "per_tokens p ms \<longleftrightarrow> (\<forall>xss \<in> snd ` set ms. per_token p xss)"

lemma flats_simps [simp]:
  "flats n r p [] = []" "flats n r p ((key, xss) # ms) = (key, flat n r p xss) # flats n r p ms" "flats n r p (ms @ ms') = flats n r p ms @ flats n r p ms'"
  "per_tokens p []" "per_tokens p ((key, xss) # ms) \<longleftrightarrow> per_token p xss \<and> per_tokens p ms" "per_tokens p (ms @ ms') \<longleftrightarrow> per_tokens p ms \<and> per_tokens p ms'"
  by (auto simp: flats_def per_tokens_def)

lemma importance_weights_pointwise:
  assumes "importance_weights xs mode low high = Inr ws"
  shows "\<exists>g. \<forall>ys. importance_weights ys mode low high = Inr (map g ys)"
proof -
  consider "mode = ''none''" | "mode = ''tis''" | "mode = ''mis''"
    using assms by (auto simp: importance_weights_def split: if_splits)
  then show ?thesis
  proof cases
    case 1
    then show ?thesis by (intro exI [of _ "\<lambda>_. 1"]) (simp add: importance_weights_def)
  next
    case 2
    then show ?thesis
      by (intro exI [of _ "clamp (case low of None \<Rightarrow> 0 | Some l \<Rightarrow> l) (case high of None \<Rightarrow> 2 | Some h \<Rightarrow> h)"]) (simp add: importance_weights_def)
  next
    case 3
    then show ?thesis
      by (intro exI [of _ "\<lambda>r. if (case low of None \<Rightarrow> 1 / 2 | Some l \<Rightarrow> l) \<le> r \<and> r \<le> (case high of None \<Rightarrow> 5 | Some h \<Rightarrow> h) then r else 0"])
        (simp add: importance_weights_def Let_def)
  qed
qed

lemma importance_correction_flat:
  assumes "part_ok p" "per_token p pg" "per_token p train" "per_token p rollout"
    and "importance_correction mode args (flat 1 0 p pg) (cut 1 0 (rp_total_lengths p) train) (cut 1 0 (rp_total_lengths p) rollout) masks = Inr z"
  shows "\<exists>pg' ms. per_token p pg' \<and> per_tokens p ms \<and> (\<forall>n r. r < n \<longrightarrow>
    importance_correction mode args (flat n r p pg) (cut n r (rp_total_lengths p) train) (cut n r (rp_total_lengths p) rollout) masks =
      Inr (flat n r p pg', masks, flats n r p ms))"
proof -
  note pt2 = per_token_map2 [OF assms(1)] and pt = per_token_map [OF assms(1)]
  note b2 = flat_broadcast2 [OF assms(1)] and f2 = flat_map2(1) [OF assms(1)] and f1 = flat_map [OF assms(1)] and tc = torch_cat_cut [OF assms(1)]
  let ?ratio = "map2 (map2 (\<lambda>o' r. exp (o' - r))) train rollout"
  have r: "per_token p ?ratio" by (rule pt2 [OF assms(3,4)])
  obtain ws where "importance_weights (flat 1 0 p ?ratio) mode (Some (pa_tis_clip_low args)) (Some (pa_tis_clip args)) = Inr ws"
    using assms(5) unfolding importance_correction_def tc [OF assms(4)] tc [OF assms(3)] res_bind_Inr b2 [OF zero_less_one assms(3,4)]
    by (auto simp: res_bind_eq_Inr)
  then obtain g where g: "\<And>ys. importance_weights ys mode (Some (pa_tis_clip_low args)) (Some (pa_tis_clip args)) = Inr (map g ys)"
    using importance_weights_pointwise by blast
  have w: "per_token p (map (map g) ?ratio)" by (rule pt [OF r])
  let ?ms = "[(''tis'', ?ratio), (''tis_clipfrac'', map2 (map2 (\<lambda>w x. if w \<noteq> x then 1 else 0)) (map (map g) ?ratio) ?ratio),
    (''tis_abs'', map (map (\<lambda>x. \<bar>x - 1\<bar>)) ?ratio)]"
  have "importance_correction mode args (flat n r p pg) (cut n r (rp_total_lengths p) train) (cut n r (rp_total_lengths p) rollout) masks =
      Inr (flat n r p (map2 (map2 (*)) pg (map (map g) ?ratio)), masks, flats n r p ?ms)" if n: "r < n" for n r
    unfolding importance_correction_def tc [OF assms(4)] tc [OF assms(3)] res_bind_Inr b2 [OF n assms(3,4)] g f1 [OF n r] b2 [OF n assms(2) w] f2 [OF n w r]
      flats_simps ..
  moreover have "per_tokens p ?ms" by (simp only: flats_simps) (intro conjI r pt2 [OF w r] pt [OF r] TrueI)
  ultimately show ?thesis using pt2 [OF assms(2) w] by blast
qed

lemma off_policy_flat:
  assumes "micro_batch_ok b fw" "per_token (pb_data b) kl" "per_token (pb_data b) pg"
    and "pa_custom_tis args \<in> {None, Some (vanilla_tis_function args), Some (icepop_function args)}"
    and "correct_off_policy args t b fw (flat 1 0 (pb_data b) kl) (flat 1 0 (pb_data b) pg) = Inr z"
  shows "\<exists>pg' ms. per_token (pb_data b) pg' \<and> per_tokens (pb_data b) ms \<and> (\<forall>n r. r < n \<longrightarrow>
    correct_off_policy args t (batch_part n r b) (forward_part n r b fw) (flat n r (pb_data b) kl) (flat n r (pb_data b) pg) =
      Inr (flat n r (pb_data b) pg', rp_loss_masks (pb_data b), flats n r (pb_data b) ms))"
proof (cases "pa_get_mismatch_metrics args \<or> pa_use_tis args")
  case False
  then show ?thesis using assms(3) by (intro exI [of _ pg] exI [of _ "[]"]) (simp add: correct_off_policy_def)
next
  case True
  note ok = micro_batch_okD [OF assms(1)] and train = train_log_probs_cut [OF assms(1)]
  obtain mode where mode: "(case pa_custom_tis args of Some f \<Rightarrow> f | None \<Rightarrow> vanilla_tis_function args) = importance_correction mode args"
    using assms(4) by (auto simp: vanilla_tis_function_def icepop_function_def)
  obtain rollout where rollout: "rp_rollout_log_probs (pb_data b) = Some rollout"
    using assms(5) True by (auto simp: correct_off_policy_def split: option.splits)
  have ptr: "per_token (pb_data b) rollout" by (rule part_ok_fields(1) [OF ok(1) rollout])
  have "\<exists>z. importance_correction mode args (flat 1 0 (pb_data b) pg) (cut 1 0 (rp_total_lengths (pb_data b)) (train_log_probs_for_tis t b fw))
      (cut 1 0 (rp_total_lengths (pb_data b)) rollout) (rp_loss_masks (pb_data b)) = Inr z"
    using assms(5) True unfolding correct_off_policy_def rollout option.case mode One_nat_def cut_one [OF train(1)] cut_one [OF ptr]
    by (auto simp: res_bind_eq_Inr)
  then obtain pg' ms where run: "per_token (pb_data b) pg'" "per_tokens (pb_data b) ms" "\<And>n r. r < n \<Longrightarrow>
      importance_correction mode args (flat n r (pb_data b) pg) (cut n r (rp_total_lengths (pb_data b)) (train_log_probs_for_tis t b fw))
        (cut n r (rp_total_lengths (pb_data b)) rollout) (rp_loss_masks (pb_data b)) = Inr (flat n r (pb_data b) pg', rp_loss_masks (pb_data b), flats n r (pb_data b) ms)"
    using importance_correction_flat [OF ok(1) assms(3) train(1) ptr] by blast
  let ?ms = "(''ois'', map (map (\<lambda>x. exp (- x))) kl) # ms"
  have "correct_off_policy args t (batch_part n r b) (forward_part n r b fw) (flat n r (pb_data b) kl) (flat n r (pb_data b) pg) =
      Inr (flat n r (pb_data b) pg', rp_loss_masks (pb_data b), flats n r (pb_data b) ?ms)" if n: "r < n" for n r
    using True run(3) [OF n] flat_map [OF ok(1) n assms(2), of "\<lambda>x. exp (- x)"] mode
    by (simp add: correct_off_policy_def rollout train(2))
  moreover have "per_tokens (pb_data b) ?ms" using run(2) per_token_map [OF ok(1) assms(2)] by simp
  ultimately show ?thesis using run(1) by blast
qed

lemma center_scores_flat:
  assumes "micro_batch_ok b fw" "per_token (pb_data b) lps" "per_token (pb_data b) adv" "per_token (pb_data b) pg"
    and "center_scores args b fw (flat 1 0 (pb_data b) lps) (flat 1 0 (pb_data b) adv) (flat 1 0 (pb_data b) pg) = Inr z"
  shows "\<exists>pg' ms. per_token (pb_data b) pg' \<and> per_tokens (pb_data b) ms \<and> (\<forall>n r. r < n \<longrightarrow>
    center_scores args (batch_part n r b) (forward_part n r b fw) (flat n r (pb_data b) lps) (flat n r (pb_data b) adv) (flat n r (pb_data b) pg) =
      Inr (flat n r (pb_data b) pg', flats n r (pb_data b) ms))"
proof (cases "pa_use_score_centering args")
  case False
  then show ?thesis using assms(4) by (intro exI [of _ pg] exI [of _ "[]"]) (simp add: center_scores_def)
next
  case True
  let ?p = "pb_data b"
  note ok = micro_batch_okD [OF assms(1)]
  note pt2 = per_token_map2 [OF ok(1)] and b2 = flat_broadcast2 [OF ok(1)] and f1 = flat_map [OF ok(1)] and tc = torch_cat_cut [OF ok(1)]
  note one = batch_part_one [OF assms(1)]
  obtain rollout where rollout: "rp_rollout_log_probs ?p = Some rollout"
    using assms(5) True by (auto simp: center_scores_def res_bind_eq_Inr split: option.splits)
  have ptr: "per_token ?p rollout" by (rule part_ok_fields(1) [OF ok(1) rollout])
  obtain mode low high where sc: "pa_sc_weighting args = (mode, low, high)" by (cases "pa_sc_weighting args")
  let ?corr = "map2 (map2 (*)) adv (fw_sc_correction fw)" and ?ratio = "map2 (map2 (\<lambda>l r. exp (l - r))) lps rollout"
  have corr: "per_token ?p ?corr" and ratio: "per_token ?p ?ratio" by (rule pt2 [OF assms(3) ok(8)], rule pt2 [OF assms(2) ptr])
  have run: "center_scores args (batch_part n r b) (forward_part n r b fw) (flat n r ?p lps) (flat n r ?p adv) (flat n r ?p pg) =
      res_bind (importance_weights (flat n r ?p ?ratio) mode low high) (\<lambda>w. Inr (flat n r ?p (map2 (map2 (+)) pg ?corr),
        [(''sc_correction'', flat n r ?p (fw_sc_correction fw)), (''sc_sampler_head_mass'', flat n r ?p (fw_sc_sampler_head_mass fw)),
         (''sc_train_head_mass'', flat n r ?p (fw_sc_train_head_mass fw)), (''sc_importance_weight'', w)]))" if n: "r < n" for n r
    using True tc [OF ok(8)] tc [OF ok(9)] tc [OF ok(10)] tc [OF ptr] b2 [OF n assms(3) ok(8)] b2 [OF n assms(4) corr] b2 [OF n assms(2) ptr]
    by (simp add: center_scores_def rollout sc)
  obtain w where "importance_weights (flat 1 0 ?p ?ratio) mode low high = Inr w"
    using trans [OF run [OF zero_less_one, symmetric, unfolded One_nat_def one] assms(5) [unfolded One_nat_def]] by (auto simp: res_bind_eq_Inr)
  then obtain g where g: "\<And>ys. importance_weights ys mode low high = Inr (map g ys)" using importance_weights_pointwise by blast
  let ?ms = "[(''sc_correction'', fw_sc_correction fw), (''sc_sampler_head_mass'', fw_sc_sampler_head_mass fw),
    (''sc_train_head_mass'', fw_sc_train_head_mass fw), (''sc_importance_weight'', map (map g) ?ratio)]"
  have "center_scores args (batch_part n r b) (forward_part n r b fw) (flat n r ?p lps) (flat n r ?p adv) (flat n r ?p pg) =
      Inr (flat n r ?p (map2 (map2 (+)) pg ?corr), flats n r ?p ?ms)" if n: "r < n" for n r
    unfolding run [OF n] g res_bind_Inr f1 [OF n ratio] by simp
  moreover have "per_tokens ?p ?ms" using ok(8-10) per_token_map [OF ok(1) ratio] by simp
  ultimately show ?thesis using pt2 [OF assms(4) corr] by blast
qed

lemma approx_kl_flat:
  assumes "part_ok p" "per_token p lps" "per_token p ref" "\<And>ratio. weights = Some ratio \<Longrightarrow> per_token p ratio"
    and "compute_approx_kl (flat 1 0 p lps) (flat 1 0 p ref) t (map_option (flat 1 0 p) weights) = Inr z"
  shows "\<exists>kl. per_token p kl \<and> (\<forall>n r. r < n \<longrightarrow>
    compute_approx_kl (flat n r p lps) (flat n r p ref) t (map_option (flat n r p) weights) = Inr (flat n r p kl))"
proof -
  note pt2 = per_token_map2 [OF assms(1)] and pt = per_token_map [OF assms(1)] and f2 = flat_map2(1) [OF assms(1)] and f1 = flat_map [OF assms(1)]
  obtain h :: "real \<Rightarrow> real" where h: "\<And>xs. (if t = ''k1'' then Inr xs else if t = ''k2'' then Inr (map (\<lambda>x. x ^ 2 / 2) xs)
      else if t \<in> {''k3'', ''low_var_kl''} then Inr (map (\<lambda>x. exp (- x) - 1 - (- x)) xs) else Inl (ValueError ''Unknown kl_loss_type'')) = Inr (map h xs)"
  proof (cases "t \<in> {''k1'', ''k2'', ''k3'', ''low_var_kl''}")
    case True
    then show ?thesis
      using that [of "if t = ''k1'' then (\<lambda>x. x) else if t = ''k2'' then (\<lambda>x. x ^ 2 / 2) else (\<lambda>x. exp (- x) - 1 - (- x))"] by auto
  next
    case False
    then show ?thesis using assms(5) by (simp add: compute_approx_kl_def)
  qed
  define diff where "diff = map (map h) (map2 (map2 (-)) lps ref)"
  define kl where "kl = (case weights of None \<Rightarrow> diff | Some ratio \<Rightarrow> map2 (map2 (*)) ratio diff)"
  define res where "res = (if t = ''low_var_kl'' then map (map (clamp (-10) 10)) kl else kl)"
  have d: "per_token p (map2 (map2 (-)) lps ref)" by (rule pt2 [OF assms(2,3)])
  have pd: "per_token p diff" unfolding diff_def by (rule pt [OF d])
  have pk: "per_token p kl" using pd pt2 [OF assms(4) pd] by (auto simp: kl_def split: option.splits)
  have "compute_approx_kl (flat n r p lps) (flat n r p ref) t (map_option (flat n r p) weights) = Inr (flat n r p res)" if n: "r < n" for n r
  proof -
    have weighted: "(case map_option (flat n r p) weights of None \<Rightarrow> flat n r p diff | Some ratio \<Rightarrow> map2 (*) ratio (flat n r p diff)) = flat n r p kl"
    proof (cases weights)
      case (Some ratio)
      then show ?thesis using f2 [OF n assms(4) [OF Some] pd] by (simp add: kl_def)
    qed (simp add: kl_def)
    show ?thesis
      unfolding compute_approx_kl_def f2 [OF n assms(2,3)] Let_def h res_bind_Inr f1 [OF n d] diff_def [symmetric] weighted
      using f1 [OF n pk, of "clamp (-10) 10"] by (simp add: res_def)
  qed
  moreover have "per_token p res" using pk pt [OF pk, of "clamp (-10) 10"] by (simp add: res_def)
  ultimately show ?thesis by blast
qed

lemma kl_loss_flat:
  assumes "micro_batch_ok b fw" "per_token (pb_data b) lps" "per_token (pb_data b) old"
    and "kl_loss_of args b (flat 1 0 (pb_data b) lps) (flat 1 0 (pb_data b) old) = Inr z"
  shows "\<exists>ms. per_tokens (pb_data b) ms \<and> (\<forall>n r. r < n \<longrightarrow>
    kl_loss_of args (batch_part n r b) (flat n r (pb_data b) lps) (flat n r (pb_data b) old) = Inr (flats n r (pb_data b) ms))"
proof (cases "pa_use_kl_loss args")
  case False
  then show ?thesis by (intro exI [of _ "[]"]) (simp add: kl_loss_of_def)
next
  case True
  let ?p = "pb_data b"
  note ok = micro_batch_okD [OF assms(1)]
  obtain ref where ref: "rp_ref_log_probs ?p = Some ref" using assms(4) True by (auto simp: kl_loss_of_def split: option.splits)
  have ptr: "per_token ?p ref" by (rule part_ok_fields(3) [OF ok(1) ref])
  define weights where "weights = (if pa_use_unbiased_kl args then Some (map2 (map2 (\<lambda>l o'. exp (l - o'))) lps old) else None)"
  have pw: "per_token ?p ratio" if "weights = Some ratio" for ratio
    using that per_token_map2 [OF ok(1) assms(2,3)] by (auto simp: weights_def split: if_splits)
  have run: "kl_loss_of args (batch_part n r b) (flat n r ?p lps) (flat n r ?p old) =
      res_bind (compute_approx_kl (flat n r ?p lps) (flat n r ?p ref) (pa_kl_loss_type args) (map_option (flat n r ?p) weights)) (\<lambda>kl. Inr [(''kl_loss'', kl)])"
    if n: "r < n" for n r
    using True torch_cat_cut [OF ok(1) ptr] flat_broadcast2 [OF ok(1) n assms(2,3)] by (simp add: kl_loss_of_def ref weights_def)
  obtain v where "compute_approx_kl (flat 1 0 ?p lps) (flat 1 0 ?p ref) (pa_kl_loss_type args) (map_option (flat 1 0 ?p) weights) = Inr v"
    using trans [OF run [OF zero_less_one, symmetric, unfolded One_nat_def batch_part_one(1) [OF assms(1)]] assms(4) [unfolded One_nat_def]]
    by (auto simp: res_bind_eq_Inr)
  from approx_kl_flat [OF ok(1) assms(2) ptr pw this] obtain kl where "per_token ?p kl" "\<And>n r. r < n \<Longrightarrow>
      compute_approx_kl (flat n r ?p lps) (flat n r ?p ref) (pa_kl_loss_type args) (map_option (flat n r ?p) weights) = Inr (flat n r ?p kl)" by blast
  then show ?thesis using run by (intro exI [of _ "[(''kl_loss'', kl)]"]) simp
qed

lemma logprob_diff_flat:
  assumes "micro_batch_ok b fw" "per_token (pb_data b) lps" "per_token (pb_data b) old"
  shows "\<exists>ms. per_tokens (pb_data b) ms \<and> (\<forall>n r. r < n \<longrightarrow>
    logprob_diff_of args (batch_part n r b) (flat n r (pb_data b) lps) (flat n r (pb_data b) old) = Inr (flats n r (pb_data b) ms))"
proof (cases "rp_rollout_log_probs (pb_data b)")
  case None
  then show ?thesis by (intro exI [of _ "[]"]) (simp add: logprob_diff_of_def)
next
  case (Some rollout)
  let ?p = "pb_data b"
  define x where "x = (if pa_use_rollout_logprobs args \<or> pa_use_score_centering args then lps else old)"
  note ok = micro_batch_okD [OF assms(1)]
  have ptr: "per_token ?p rollout" and ptx: "per_token ?p x" using part_ok_fields(1) [OF ok(1) Some] assms(2,3) by (simp_all add: x_def)
  have "logprob_diff_of args (batch_part n r b) (flat n r ?p lps) (flat n r ?p old) =
      Inr (flats n r ?p [(''train_rollout_logprob_abs_diff'', map2 (map2 (\<lambda>l r. \<bar>l - r\<bar>)) x rollout)])" if n: "r < n" for n r
  proof -
    obtain y ys where cut: "cut n r (rp_total_lengths ?p) rollout = y # ys"
      using part_not_Nil(3) [OF ok(1) ptr] by (meson list.exhaust)
    then have cat: "concat (y # ys) = flat n r ?p rollout" by (simp add: flat_def)
    have lhs: "(if pa_use_rollout_logprobs args \<or> pa_use_score_centering args then flat n r ?p lps else flat n r ?p old) = flat n r ?p x" by (simp add: x_def)
    show ?thesis
      unfolding logprob_diff_of_def batch_part_simps cp_part_simps Some option.map cut option.case list.case cat lhs flat_broadcast2 [OF ok(1) n ptx ptr] by simp
  qed
  then show ?thesis using per_token_map2 [OF ok(1) ptx ptr] by (intro exI [of _ "[(''train_rollout_logprob_abs_diff'', map2 (map2 (\<lambda>l r. \<bar>l - r\<bar>)) x rollout)]"]) simp
qed

lemma opd_flat:
  assumes "micro_batch_ok b fw"
  shows "\<exists>ms. per_tokens (pb_data b) ms \<and> (\<forall>n r. r < n \<longrightarrow>
    (case pb_opd_reverse_kl (batch_part n r b) of Some (x # xs) \<Rightarrow> [(''opd_reverse_kl'', concat (x # xs))] | _ \<Rightarrow> []) = flats n r (pb_data b) ms)"
proof (cases "pb_opd_reverse_kl b")
  case None
  then show ?thesis by (intro exI [of _ "[]"]) simp
next
  case (Some xss)
  note ok = micro_batch_okD [OF assms]
  have "(case pb_opd_reverse_kl (batch_part n r b) of Some (x # xs) \<Rightarrow> [(''opd_reverse_kl'', concat (x # xs))] | _ \<Rightarrow> []) =
      flats n r (pb_data b) [(''opd_reverse_kl'', xss)]" for n r
  proof -
    obtain y ys where cut: "cut n r (rp_total_lengths (pb_data b)) xss = y # ys"
      using part_not_Nil(3) [OF ok(1) ok(4) [OF Some]] by (meson list.exhaust)
    then have "concat (y # ys) = flat n r (pb_data b) xss" by (simp add: flat_def)
    then show ?thesis by (simp add: Some cut)
  qed
  then show ?thesis using ok(4) [OF Some] by (intro exI [of _ "[(''opd_reverse_kl'', xss)]"]) simp
qed

lemma old_log_probs_group:
  assumes "micro_batch_ok b fw" "old_log_probs_of args b fw = Inr old"
  shows "res_map (\<lambda>(b, fw). old_log_probs_of args b fw) (zip (map (\<lambda>q. batch_part n q b) [0..<n]) (map (\<lambda>q. forward_part n q b fw) [0..<n])) =
    Inr (cuts n (pb_data b) old)"
  using old_log_probs_cut [OF assms] by (simp add: res_map_eq_Inr list_all2_conv_all_nth)

text \<open>What holds of a computation of the terms on every rank of every layout.\<close>

definition terms_flat :: "policy_args \<Rightarrow> rollout_part \<Rightarrow> (nat \<Rightarrow> nat \<Rightarrow> real) \<Rightarrow> (nat \<Rightarrow> nat \<Rightarrow> policy_terms result) \<Rightarrow> bool" where
  "terms_flat args p fr f \<longleftrightarrow> (\<exists>pg ent ms tis opd. per_tokens p ((''pg_loss'', pg) # (''entropy_loss'', ent) # ms) \<and> per_tokens p tis \<and> per_tokens p opd \<and>
     (\<forall>n r. r < n \<longrightarrow> f n r = Inr (flats n r p ((''pg_loss'', pg) # (''entropy_loss'', ent) # ms), rp_loss_masks p, flats n r p tis,
       if pa_use_opsm args then Some (fr n r) else None, flats n r p opd)))"

lemma corrected_terms_flat:
  fixes fr :: "nat \<Rightarrow> nat \<Rightarrow> real" and t :: string
  assumes "micro_batch_ok b fw" "pa_custom_tis args \<in> {None, Some (vanilla_tis_function args), Some (icepop_function args)}"
    and "per_token (pb_data b) kl" "per_token (pb_data b) old" "per_token (pb_data b) pg" "per_token (pb_data b) clip" "per_token (pb_data b) keep"
  defines "p \<equiv> pb_data b"
  defines "f \<equiv> \<lambda>n r. corrected_terms args t (batch_part n r b) (forward_part n r b fw)
      (if pa_use_opsm args then Some (flat n r p keep, fr n r) else None) (flat n r p kl) (flat n r p old)
      (flat n r p (fw_log_probs fw)) (flat n r p (pb_advantages b)) (flat n r p pg, flat n r p clip)"
  assumes "f 1 0 = Inr z"
  shows "terms_flat args p fr f"
proof -
  note ok = micro_batch_okD [OF assms(1), folded p_def] and one = batch_part_one [OF assms(1), folded One_nat_def]
  note pts = assms(3-7) [folded p_def]
  define pg1 where "pg1 = (if pa_use_opsm args then map2 (map2 (*)) pg keep else pg)"
  have pg1: "per_token p pg1" using pts(3) per_token_map2 [OF ok(1) pts(3,5), of "(*)"] by (simp add: pg1_def)
  have masked: "(case if pa_use_opsm args then Some (flat n r p keep, fr n r) else None of None \<Rightarrow> Inr (flat n r p pg)
      | Some (keep, _) \<Rightarrow> broadcast2 (*) (flat n r p pg) keep) = Inr (flat n r p pg1)" if n: "r < n" for n r
    using flat_broadcast2 [OF ok(1) n pts(3,5)] by (simp add: pg1_def)
  note f1 = assms(10) [unfolded f_def corrected_terms_def prod.case masked [OF zero_less_one] res_bind_Inr one]
  have "\<exists>z. correct_off_policy args t b fw (flat 1 0 p kl) (flat 1 0 p pg1) = Inr z" using f1 by (auto simp: res_bind_eq_Inr)
  then obtain pg2 tis where pg2: "per_token p pg2" "per_tokens p tis" "\<And>n r. r < n \<Longrightarrow>
      correct_off_policy args t (batch_part n r b) (forward_part n r b fw) (flat n r p kl) (flat n r p pg1) = Inr (flat n r p pg2, rp_loss_masks p, flats n r p tis)"
    using off_policy_flat [OF assms(1,3) pg1 [unfolded p_def] assms(2)] unfolding p_def by blast
  note f2 = f1 [unfolded pg2(3) [OF zero_less_one, unfolded one] res_bind_Inr prod.case]
  have "\<exists>z. center_scores args b fw (flat 1 0 p (fw_log_probs fw)) (flat 1 0 p (pb_advantages b)) (flat 1 0 p pg2) = Inr z" using f2 by (auto simp: res_bind_eq_Inr)
  then obtain pg3 sc where pg3: "per_token p pg3" "per_tokens p sc" "\<And>n r. r < n \<Longrightarrow>
      center_scores args (batch_part n r b) (forward_part n r b fw) (flat n r p (fw_log_probs fw)) (flat n r p (pb_advantages b)) (flat n r p pg2) =
        Inr (flat n r p pg3, flats n r p sc)"
    using center_scores_flat [OF assms(1) ok(5,2) [unfolded p_def] pg2(1) [unfolded p_def]] unfolding p_def by blast
  note f3 = f2 [unfolded pg3(3) [OF zero_less_one, unfolded one] res_bind_Inr prod.case]
  have "\<exists>z. kl_loss_of args b (flat 1 0 p (fw_log_probs fw)) (flat 1 0 p old) = Inr z" using f3 by (auto simp: res_bind_eq_Inr)
  then obtain kls where kls: "per_tokens p kls" "\<And>n r. r < n \<Longrightarrow> kl_loss_of args (batch_part n r b) (flat n r p (fw_log_probs fw)) (flat n r p old) = Inr (flats n r p kls)"
    using kl_loss_flat [OF assms(1) ok(5) [unfolded p_def] assms(4)] unfolding p_def by blast
  obtain diff where diff: "per_tokens p diff" "\<And>n r. r < n \<Longrightarrow> logprob_diff_of args (batch_part n r b) (flat n r p (fw_log_probs fw)) (flat n r p old) = Inr (flats n r p diff)"
    using logprob_diff_flat [OF assms(1) ok(5) [unfolded p_def] assms(4)] unfolding p_def by blast
  obtain opd where opd: "per_tokens p opd" "\<And>n r. r < n \<Longrightarrow>
      (case pb_opd_reverse_kl (batch_part n r b) of Some (x # xs) \<Rightarrow> [(''opd_reverse_kl'', concat (x # xs))] | _ \<Rightarrow> []) = flats n r p opd"
    using opd_flat [OF assms(1)] unfolding p_def by blast
  let ?ms = "[(''pg_clipfrac'', clip), (''ppo_kl'', kl)] @ sc @ diff @ kls"
  have "f n r = Inr (flats n r p ((''pg_loss'', pg3) # (''entropy_loss'', fw_entropy fw) # ?ms), rp_loss_masks p, flats n r p tis,
      if pa_use_opsm args then Some (fr n r) else None, flats n r p opd)" if n: "r < n" for n r
    unfolding f_def corrected_terms_def prod.case masked [OF n] res_bind_Inr pg2(3) [OF n] pg3(3) [OF n] forward_part_simps p_def [symmetric]
      torch_cat_cut [OF ok(1,6)] kls(2) [OF n] diff(2) [OF n] opd(2) [OF n] Let_def by simp
  moreover have "per_tokens p ((''pg_loss'', pg3) # (''entropy_loss'', fw_entropy fw) # ?ms)" using pg3(1,2) ok(6) pts(1,4) kls(1) diff(1) by simp
  ultimately show ?thesis using pg2(2) opd(1) unfolding terms_flat_def by blast
qed

lemma policy_terms_flat:
  assumes "sums_ranks all_reduce" "micro_batch_ok b fw"
    and "pa_custom_tis args \<in> {None, Some (vanilla_tis_function args), Some (icepop_function args)}"
    and "policy_terms args all_reduce [b] [fw] 0 = Inr z"
  shows "\<exists>fr. (\<forall>n. 0 < n \<longrightarrow> (\<Sum>r<n. fr n r) = fr 1 0) \<and>
    terms_flat args (pb_data b) fr (\<lambda>n. policy_terms args all_reduce (map (\<lambda>q. batch_part n q b) [0..<n]) (map (\<lambda>q. forward_part n q b fw) [0..<n]))"
proof -
  let ?p = "pb_data b" and ?tot = "rp_total_lengths (pb_data b)" and ?lps = "fw_log_probs fw" and ?adv = "pb_advantages b"
  let ?bs = "\<lambda>n. map (\<lambda>q. batch_part n q b) [0..<n]" and ?fs = "\<lambda>n. map (\<lambda>q. forward_part n q b fw) [0..<n]"
  note ok = micro_batch_okD [OF assms(2)] and one = batch_part_one [OF assms(2)]
  have whole: "policy_terms args all_reduce (?bs 1) (?fs 1) 0 = Inr z" using assms(4) one by simp
  have lps: "map fw_log_probs (?fs n) = cuts n ?p ?lps" for n by simp
  obtain t where t: "get_pg_loss_type (pa_pg_loss_type args) (pa_use_score_centering args) (Some (pa_advantage_estimator args)) = Inr t"
    using whole by (auto simp: policy_terms_def Let_def res_bind_eq_Inr)
  obtain old where old: "old_log_probs_of args b fw = Inr old"
    using assms(4) by (cases "old_log_probs_of args b fw") (auto simp: policy_terms_def Let_def res_bind_eq_Inr)
  have pto: "per_token ?p old" using old_log_probs_cut [OF assms(2) old, of 1 0] by blast
  obtain kl where kl: "per_token ?p kl" "\<And>n r. r < n \<Longrightarrow> ppo_kl_of args all_reduce r (cp_part n r ?p) (cuts n ?p ?lps) (cuts n ?p old) = Inr (flat n r ?p kl)"
    using ppo_kl_flat [OF assms(1) ok(1,5) pto] by blast
  obtain keep fr where opsm: "\<And>n r. r < n \<Longrightarrow> opsm_of args all_reduce r (cp_part n r ?p) (cut n r ?tot ?adv) (cuts n ?p ?lps) (cuts n ?p old) =
      Inr (if pa_use_opsm args then Some (flat n r ?p keep, fr n r) else None)" "per_token ?p keep" "\<And>n. 0 < n \<Longrightarrow> (\<Sum>r<n. fr n r) = (fr 1 0 :: real)"
  proof (cases "pa_use_opsm args")
    case True
    then show ?thesis using opsm_flat [OF assms(1) ok(1,5) pto ok(2) True] that by force
  next
    case False
    have "(\<Sum>r<n. 0 :: real) = 0" for n :: nat by simp
    then show ?thesis using False that [of ?adv "\<lambda>_ _. 0"] ok(2) by (simp add: opsm_of_def)
  qed
  have start: "policy_terms args all_reduce (?bs n) (?fs n) r =
      res_bind (pg_loss_of args t (flat n r ?p kl) (flat n r ?p ?lps) (flat n r ?p ?adv))
        (corrected_terms args t (batch_part n r b) (forward_part n r b fw) (if pa_use_opsm args then Some (flat n r ?p keep, fr n r) else None)
          (flat n r ?p kl) (flat n r ?p old) (flat n r ?p ?lps) (flat n r ?p ?adv))" if r: "r < n" for n r
  proof -
    have nth: "?bs n ! r = batch_part n r b" "?fs n ! r = forward_part n r b fw" "cuts n ?p ?lps ! r = cut n r ?tot ?lps" "cuts n ?p old ! r = cut n r ?tot old"
      using r by simp_all
    show ?thesis
      unfolding policy_terms_def Let_def nth lps t batch_part_simps(1,3) old_log_probs_group [OF assms(2) old] res_bind_Inr torch_cat_cut [OF ok(1,2)]
        opsm(1) [OF r] kl(2) [OF r] torch_cat_cut [OF ok(1) pto] torch_cat_cut [OF ok(1,5)] ..
  qed
  have first: "\<exists>w. pg_loss_of args t (flat 1 0 ?p kl) (flat 1 0 ?p ?lps) (flat 1 0 ?p ?adv) = Inr w"
    using whole unfolding start [OF zero_less_one] by (auto simp: res_bind_eq_Inr)
  then obtain pg clip where pg: "per_token ?p pg" "per_token ?p clip"
    "\<And>n r. r < n \<Longrightarrow> pg_loss_of args t (flat n r ?p kl) (flat n r ?p ?lps) (flat n r ?p ?adv) = Inr (flat n r ?p pg, flat n r ?p clip)"
    using pg_loss_flat [OF ok(1) kl(1) ok(5,2)] by blast
  have run: "policy_terms args all_reduce (?bs n) (?fs n) r = corrected_terms args t (batch_part n r b) (forward_part n r b fw)
      (if pa_use_opsm args then Some (flat n r ?p keep, fr n r) else None) (flat n r ?p kl) (flat n r ?p old)
      (flat n r ?p ?lps) (flat n r ?p ?adv) (flat n r ?p pg, flat n r ?p clip)" if "r < n" for n r
    unfolding start [OF that] pg(3) [OF that] res_bind_Inr ..
  from corrected_terms_flat [where fr = fr, OF assms(2,3) kl(1) pto pg(1,2) opsm(2) whole [unfolded run [OF zero_less_one]]] opsm(3) run
  show ?thesis unfolding terms_flat_def by (intro exI [of _ fr]) simp
qed

section \<open>The reduced losses of the ranks add up\<close>

text \<open>What a rank's reduction of its share of a quantity per token gives.\<close>

definition mean_share :: "policy_args \<Rightarrow> policy_batch \<Rightarrow> nat \<Rightarrow> nat \<Rightarrow> real list list \<Rightarrow> real" where
  "mean_share args b n r xss = projr (sample_mean_of args r n (batch_part n r b) (rp_loss_masks (pb_data b)) (flat n r (pb_data b) xss))"

lemma mean_shares:
  assumes "part_ok (pb_data b)" "per_token (pb_data b) xss" "0 < n"
  shows "r < n \<Longrightarrow> sample_mean_of args r n (batch_part n r b) (rp_loss_masks (pb_data b)) (flat n r (pb_data b) xss) = Inr (mean_share args b n r xss)"
    and "(\<Sum>r<n. mean_share args b n r xss) = reduce_with xss (rp_loss_masks (pb_data b)) (pb_rollout_mask_sums b) (pa_calculate_per_token_loss args)"
proof -
  let ?p = "pb_data b" and ?pt = "pa_calculate_per_token_loss args" and ?sums = "Some (pb_rollout_mask_sums b)"
  define batch where "batch = zip (rp_total_lengths ?p) (zip xss (rp_loss_masks ?p))"
  note len = per_token_length [OF assms(2)] part_lengths [OF assms(1)]
  have maps: "map fst batch = rp_total_lengths ?p" "map cp_mask batch = rp_loss_masks ?p" "map cp_values batch = xss"
    using len by (simp_all add: batch_def map_zip_map2 list_eq_iff_nth_eq)
  have resp: "map (\<lambda>s. int (length (cp_values s))) batch = map int (rp_response_lengths ?p)"
    by (rule nth_equalityI) (use len part_okD(3) [OF assms(1) _ assms(2)] in \<open>simp_all add: batch_def\<close>)
  have ok: "cp_batch_ok batch"
    using len part_okD(2) [OF assms(1)] part_okD(3,4) [OF assms(1) _ assms(2)] by (auto simp: cp_batch_ok_def batch_def set_zip)
  have local: "local_values (int r) (int n) batch = Inr (flat n r ?p xss)" if r: "r < n" for r
  proof -
    have "res_map (\<lambda>s. slice_log_prob_with_cp (int r) (int n) (cp_values s) (fst s) (int (length (cp_values s)))) batch =
        Inr (map (\<lambda>s. cp_local r n (fst s) (cp_values s)) batch)"
      using ok r by (intro res_map_Inr_ball ballI cp_local_returns) (auto simp: cp_batch_ok_def)
    also have "map (\<lambda>s. cp_local r n (fst s) (cp_values s)) batch = cut n r (rp_total_lengths ?p) xss"
      unfolding cut_def using len by (auto simp: batch_def intro!: nth_equalityI)
    finally show ?thesis by (simp add: local_values_def flat_def)
  qed
  have mean: "sample_mean_of args r n (batch_part n r b) (rp_loss_masks ?p) (flat n r ?p xss) = local_mean (int r) (int n) batch ?sums ?pt"
    if "r < n" for r
    unfolding local_mean_def local [OF that] res_bind_Inr maps resp sample_mean_of_def by simp
  obtain ms where ms: "res_map (\<lambda>r. local_mean (int r) (int n) batch ?sums ?pt) [0..<n] = Inr ms"
    "sum_list ms = reduce_with xss (rp_loss_masks ?p) (pb_rollout_mask_sums b) ?pt"
    using local_means_add_up [OF ok assms(3), of ?sums ?pt] unfolding maps by auto
  have each: "local_mean (int r) (int n) batch ?sums ?pt = Inr (ms ! r)" if "r < n" for r
    using res_map_nth [OF ms(1), of r] that by simp
  show "sample_mean_of args r n (batch_part n r b) (rp_loss_masks ?p) (flat n r ?p xss) = Inr (mean_share args b n r xss)" if "r < n"
    unfolding mean_share_def mean [OF that] each [OF that] by simp
  have "length ms = n" using res_map_length [OF ms(1)] by simp
  moreover have "mean_share args b n r xss = ms ! r" if "r < n" for r unfolding mean_share_def mean [OF that] each [OF that] by simp
  ultimately show "(\<Sum>r<n. mean_share args b n r xss) = reduce_with xss (rp_loss_masks ?p) (pb_rollout_mask_sums b) ?pt"
    using ms(2) by (simp add: sum_list_sum_nth atLeast0LessThan)
qed

lemma mean_share_whole:
  assumes "part_ok (pb_data b)" "per_token (pb_data b) xss" "0 < n"
  shows "(\<Sum>r<n. mean_share args b n r xss) = mean_share args b 1 0 xss"
  using mean_shares(2) [OF assms] mean_shares(2) [OF assms(1,2) zero_less_one, of args] by simp

text \<open>Reports whose entries add up over the ranks to those of a single rank.\<close>

definition adds_up :: "(nat \<Rightarrow> nat \<Rightarrow> (string \<times> real) list) \<Rightarrow> bool" where
  "adds_up report \<longleftrightarrow> (\<forall>n. 0 < n \<longrightarrow> (\<forall>r < n. map fst (report n r) = map fst (report 1 0)) \<and>
     (\<forall>j < length (report 1 0). (\<Sum>r<n. snd (report n r ! j)) = snd (report 1 0 ! j)))"

lemma adds_up_length: "adds_up report \<Longrightarrow> r < n \<Longrightarrow> length (report n r) = length (report 1 0)"
  unfolding adds_up_def by (metis length_map gr_implies_not0 gr0I)

lemma adds_up_Nil [simp]: "adds_up (\<lambda>n r. [])"
  by (simp add: adds_up_def)

lemma adds_up_single: "(\<And>n. 0 < n \<Longrightarrow> (\<Sum>r<n. x n r) = x 1 0) \<Longrightarrow> adds_up (\<lambda>n r. [(key, x n r)])"
  by (simp add: adds_up_def)

lemma adds_up_append:
  assumes "adds_up f" "adds_up g"
  shows "adds_up (\<lambda>n r. f n r @ g n r)"
  unfolding adds_up_def
proof (intro allI impI conjI)
  fix n :: nat assume n: "0 < n"
  show "map fst (f n r @ g n r) = map fst (f 1 0 @ g 1 0)" if "r < n" for r
    using assms [unfolded adds_up_def, rule_format, OF n] that by simp
  fix j assume j: "j < length (f 1 0 @ g 1 0)"
  have "(\<Sum>r<n. snd ((f n r @ g n r) ! j)) = (\<Sum>r<n. snd (if j < length (f 1 0) then f n r ! j else g n r ! (j - length (f 1 0))))"
  proof (rule sum.cong)
    fix r assume "r \<in> {..<n}"
    then have "length (f n r) = length (f 1 0)" by (intro adds_up_length [OF assms(1)]) simp
    then show "snd ((f n r @ g n r) ! j) = snd (if j < length (f 1 0) then f n r ! j else g n r ! (j - length (f 1 0)))"
      unfolding nth_append by (simp only:)
  qed simp
  then show "(\<Sum>r<n. snd ((f n r @ g n r) ! j)) = snd ((f 1 0 @ g 1 0) ! j)"
    using assms [unfolded adds_up_def, rule_format, OF n, THEN conjunct2] j
    by (cases "j < length (f 1 0)") (simp_all add: nth_append)
qed

definition mean_metrics :: "policy_args \<Rightarrow> policy_batch \<Rightarrow> (string \<times> real list list) list \<Rightarrow> nat \<Rightarrow> nat \<Rightarrow> (string \<times> real) list" where
  "mean_metrics args b ms n r = map (\<lambda>(key, xss). (key, mean_share args b n r xss)) ms"

lemma mean_metrics_simps [simp]:
  "mean_metrics args b [] n r = []" "mean_metrics args b ((key, xss) # ms) n r = (key, mean_share args b n r xss) # mean_metrics args b ms n r"
  by (simp_all add: mean_metrics_def)

lemma adds_up_mean_metrics: "part_ok (pb_data b) \<Longrightarrow> per_tokens (pb_data b) ms \<Longrightarrow> adds_up (mean_metrics args b ms)"
proof (induction ms)
  case (Cons m ms)
  obtain key xss where m: "m = (key, xss)" by fastforce
  have "adds_up (\<lambda>n r. [(key, mean_share args b n r xss)] @ mean_metrics args b ms n r)"
    using Cons by (intro adds_up_append adds_up_single mean_share_whole) (simp_all add: m)
  then show ?case by (simp add: m mean_metrics_def [abs_def])
qed (simp add: mean_metrics_def [abs_def])

lemma reduce_metrics_flats:
  assumes "part_ok (pb_data b)" "per_tokens (pb_data b) ms" "r < n"
  shows "reduce_metrics (sample_mean_of args r n (batch_part n r b) (rp_loss_masks (pb_data b))) (flats n r (pb_data b) ms) = Inr (mean_metrics args b ms n r)"
proof -
  have n: "0 < n" using assms(3) by simp
  show ?thesis using assms(2)
  proof (induction ms)
    case (Cons m ms)
    obtain key xss where m: "m = (key, xss)" by fastforce
    have "per_token (pb_data b) xss" using Cons.prems by (simp add: m)
    from mean_shares(1) [OF assms(1) this n assms(3), of args] Cons show ?case by (simp add: m reduce_metrics_def)
  qed (simp add: reduce_metrics_def)
qed

lemma map_of_mean_metrics: "map_of (mean_metrics args b ms n r) key = map_option (mean_share args b n r) (map_of ms key)"
  unfolding mean_metrics_def by (induction ms) auto

lemma per_tokens_map_of: "per_tokens p ms \<Longrightarrow> map_of ms key = Some xss \<Longrightarrow> per_token p xss"
  by (auto simp: per_tokens_def dest!: map_of_SomeD)

section \<open>The losses of the layouts\<close>

text \<open>Losses with reports that add up over the ranks of every layout.\<close>

definition loss_adds_up :: "(nat \<Rightarrow> nat \<Rightarrow> (real \<times> (string \<times> real) list) result) \<Rightarrow> bool" where
  "loss_adds_up f \<longleftrightarrow> (\<exists>loss report. (\<forall>n r. r < n \<longrightarrow> f n r = Inr (loss n r, report n r)) \<and>
     (\<forall>n. 0 < n \<longrightarrow> (\<Sum>r<n. loss n r) = loss 1 0) \<and> adds_up report)"

lemma loss_adds_upI:
  "(\<And>n r. r < n \<Longrightarrow> f n r = Inr (loss n r, report n r)) \<Longrightarrow> (\<And>n. 0 < n \<Longrightarrow> (\<Sum>r<n. loss n r) = loss 1 0) \<Longrightarrow> adds_up report \<Longrightarrow> loss_adds_up f"
  unfolding loss_adds_up_def by (intro exI [of _ loss] exI [of _ report] conjI allI impI) simp_all

lemma sum_linear:
  fixes x y z :: "nat \<Rightarrow> real"
  shows "(\<Sum>r<n. x r - c * y r + d * z r) = (\<Sum>r<n. x r) - c * (\<Sum>r<n. y r) + d * (\<Sum>r<n. z r)"
  by (simp add: sum.distrib sum_subtractf sum_distrib_left)

lemma policy_loss_adds_up:
  assumes "sums_ranks all_reduce" "micro_batch_ok b fw" "pa_custom_reducer args = None"
    and "pa_custom_tis args \<in> {None, Some (vanilla_tis_function args), Some (icepop_function args)}"
    and "policy_loss_function args all_reduce [b] [fw] 0 = Inr z"
  shows "loss_adds_up (\<lambda>n. policy_loss_function args all_reduce (map (\<lambda>q. batch_part n q b) [0..<n]) (map (\<lambda>q. forward_part n q b fw) [0..<n]))"
proof -
  let ?p = "pb_data b"
  note ok = micro_batch_okD [OF assms(2)]
  obtain terms where "policy_terms args all_reduce [b] [fw] 0 = Inr terms"
    using assms(5) by (auto simp: policy_loss_function_def Let_def res_bind_eq_Inr)
  from policy_terms_flat [OF assms(1,2,4) this] obtain fr where fr: "\<And>n. 0 < n \<Longrightarrow> (\<Sum>r<n. fr n r) = fr 1 0"
    and flat: "terms_flat args ?p fr (\<lambda>n. policy_terms args all_reduce (map (\<lambda>q. batch_part n q b) [0..<n]) (map (\<lambda>q. forward_part n q b fw) [0..<n]))"
    by blast
  from flat obtain pg ent ms tis opd where pt: "per_token ?p pg" "per_token ?p ent" "per_tokens ?p ms" "per_tokens ?p tis" "per_tokens ?p opd"
    and terms: "\<And>n r. r < n \<Longrightarrow> policy_terms args all_reduce (map (\<lambda>q. batch_part n q b) [0..<n]) (map (\<lambda>q. forward_part n q b fw) [0..<n]) r =
      Inr (flats n r ?p ((''pg_loss'', pg) # (''entropy_loss'', ent) # ms), rp_loss_masks ?p, flats n r ?p tis,
        if pa_use_opsm args then Some (fr n r) else None, flats n r ?p opd)"
    unfolding terms_flat_def by auto
  let ?ms = "(''entropy_loss'', ent) # ms" and ?mean = "mean_share args b"
  define kl where "kl n r = (case map_of ?ms ''kl_loss'' of None \<Rightarrow> 0 | Some xss \<Rightarrow> ?mean n r xss)" for n r
  define loss where "loss n r = ?mean n r pg - pa_entropy_coef args * ?mean n r ent + (if pa_use_kl_loss args then pa_kl_loss_coef args else 0) * kl n r" for n r
  define opsm where "opsm n r = (if pa_use_opsm args then [(''opsm_clipfrac'', fr n r)] else [])" for n r
  define report where "report n r = [(''loss'', loss n r)] @ [(''pg_loss'', ?mean n r pg)] @ mean_metrics args b ?ms n r @
    mean_metrics args b tis n r @ opsm n r @ mean_metrics args b opd n r" for n r
  have run: "policy_loss_function args all_reduce (map (\<lambda>q. batch_part n q b) [0..<n]) (map (\<lambda>q. forward_part n q b fw) [0..<n]) r = Inr (loss n r, report n r)"
    if r: "r < n" for n r
  proof -
    have n: "0 < n" using r by simp
    have nth: "map (\<lambda>q. batch_part n q b) [0..<n] ! r = batch_part n r b" using r by simp
    have hd: "snd (hd (flats n r ?p ((''pg_loss'', pg) # ?ms))) = flat n r ?p pg" "drop 1 (flats n r ?p ((''pg_loss'', pg) # ?ms)) = flats n r ?p ?ms" by simp_all
    have pms: "per_tokens ?p ?ms" using pt(2,3) by simp
    have look: "(case map_of (mean_metrics args b ?ms n r) ''kl_loss'' of None \<Rightarrow> 0 | Some x \<Rightarrow> x) = kl n r"
      unfolding map_of_mean_metrics kl_def by (cases "map_of ?ms ''kl_loss''") simp_all
    have ent: "snd (hd (mean_metrics args b ?ms n r)) = ?mean n r ent" by simp
    have clip: "(case if pa_use_opsm args then Some (fr n r) else None of None \<Rightarrow> [] | Some x \<Rightarrow> [(''opsm_clipfrac'', x)]) = opsm n r" by (simp add: opsm_def)
    have len: "length (map (\<lambda>q. batch_part n q b) [0..<n]) = n" by simp
    show ?thesis
      unfolding policy_loss_function_def Let_def nth terms [OF r] res_bind_Inr prod.case assms(3) option.case hd batch_part_simps(1) cp_part_simps len
        mean_shares(1) [OF ok(1) pt(1) n r] reduce_metrics_flats [OF ok(1) pms r] reduce_metrics_flats [OF ok(1) pt(4) r] reduce_metrics_flats [OF ok(1) pt(5) r]
        look ent clip by (simp add: report_def loss_def)
  qed
  have share: "(\<Sum>r<n. ?mean n r xss) = ?mean 1 0 xss" if "0 < n" "per_token ?p xss" for n xss by (rule mean_share_whole [OF ok(1) that(2,1)])
  have kls: "(\<Sum>r<n. kl n r) = kl 1 0" if "0 < n" for n
    using per_tokens_map_of [of ?p ?ms "''kl_loss''"] pt(2,3) share [OF that] unfolding kl_def by (cases "map_of ?ms ''kl_loss''") auto
  have losses: "(\<Sum>r<n. loss n r) = loss 1 0" if "0 < n" for n
    unfolding loss_def sum_linear share [OF that pt(1)] share [OF that pt(2)] kls [OF that] ..
  have pms: "per_tokens ?p ?ms" using pt(2,3) by simp
  note metrics = adds_up_mean_metrics [OF ok(1) pms] adds_up_mean_metrics [OF ok(1) pt(4)] adds_up_mean_metrics [OF ok(1) pt(5)]
  have opsm: "adds_up opsm" unfolding opsm_def [abs_def] using adds_up_single [of fr, OF fr] by (cases "pa_use_opsm args") simp_all
  have up: "adds_up report"
    unfolding report_def [abs_def] by (intro adds_up_append adds_up_single metrics opsm losses share [OF _ pt(1)])
  show ?thesis by (rule loss_adds_upI [OF run losses up])
qed

lemma value_loss_adds_up:
  assumes "micro_batch_ok b fw" "value_loss_function args 0 1 b fw = Inr z"
  shows "loss_adds_up (\<lambda>n r. value_loss_function args r n (batch_part n r b) (forward_part n r b fw))"
proof -
  let ?p = "pb_data b" and ?c = "pa_value_clip args" and ?mean = "mean_share args b"
  note ok = micro_batch_okD [OF assms(1)]
  note pt2 = per_token_map2 [OF ok(1)] and b2 = flat_broadcast2 [OF ok(1)] and f2 = flat_map2(1) [OF ok(1)] and tc = torch_cat_cut [OF ok(1)]
  obtain old where old: "rp_values ?p = Some old" using assms(2) by (auto simp: value_loss_function_def split: option.splits)
  have pto: "per_token ?p old" by (rule part_ok_fields(4) [OF ok(1) old])
  let ?frac = "map2 (map2 (\<lambda>v o'. if \<bar>v - o'\<bar> > ?c then 1 else 0)) (fw_values fw) old"
  let ?clipped = "map2 (map2 (\<lambda>v o'. o' + clamp (- ?c) ?c (v - o'))) (fw_values fw) old"
  let ?s1 = "map2 (map2 (\<lambda>c ret. (c - ret) ^ 2)) ?clipped (pb_returns b)" and ?s2 = "map2 (map2 (\<lambda>v ret. (v - ret) ^ 2)) (fw_values fw) (pb_returns b)"
  let ?loss = "map2 (map2 max) ?s1 ?s2"
  have pf: "per_token ?p ?frac" by (rule pt2 [OF ok(7) pto])
  have pc: "per_token ?p ?clipped" by (rule pt2 [OF ok(7) pto])
  have p1: "per_token ?p ?s1" by (rule pt2 [OF pc ok(3)])
  have p2: "per_token ?p ?s2" by (rule pt2 [OF ok(7,3)])
  have pl: "per_token ?p ?loss" by (rule pt2 [OF p1 p2])
  have run: "value_loss_function args r n (batch_part n r b) (forward_part n r b fw) =
      Inr (?mean n r ?loss, [(''value_loss'', ?mean n r ?loss)] @ [(''value_clipfrac'', ?mean n r ?frac)])" if r: "r < n" for n r
  proof -
    have n: "0 < n" using r by simp
    show ?thesis
      unfolding value_loss_function_def batch_part_simps(1,4) cp_part_simps forward_part_simps old option.map option.case tc [OF pto] tc [OF ok(7)] tc [OF ok(3)]
        res_bind_Inr b2 [OF r ok(7) pto] b2 [OF r pc ok(3)] b2 [OF r ok(7,3)] f2 [OF r p1 p2] Let_def mean_shares(1) [OF ok(1) pl n r] mean_shares(1) [OF ok(1) pf n r]
      by simp
  qed
  have share: "(\<Sum>r<n. ?mean n r xss) = ?mean 1 0 xss" if "per_token ?p xss" "0 < n" for n xss by (rule mean_share_whole [OF ok(1) that])
  have up: "adds_up (\<lambda>n r. [(''value_loss'', ?mean n r ?loss)] @ [(''value_clipfrac'', ?mean n r ?frac)])"
    by (intro adds_up_append adds_up_single share [OF pl] share [OF pf])
  show ?thesis by (rule loss_adds_upI [OF run share [OF pl] up])
qed

lemma sft_loss_adds_up:
  assumes "micro_batch_ok b fw"
  shows "loss_adds_up (\<lambda>n r. sft_loss_function args r n (batch_part n r b) (forward_part n r b fw))"
proof -
  let ?mean = "\<lambda>n r. mean_share args b n r (fw_log_probs fw)"
  note ok = micro_batch_okD [OF assms]
  have run: "sft_loss_function args r n (batch_part n r b) (forward_part n r b fw) = Inr (- ?mean n r, [(''loss'', - ?mean n r)])" if r: "r < n" for n r
    using torch_cat_cut [OF ok(1,5)] mean_shares(1) [OF ok(1,5) _ r] r by (simp add: sft_loss_function_def)
  have share: "(\<Sum>r<n. - ?mean n r) = - ?mean 1 0" if "0 < n" for n using mean_share_whole [OF ok(1,5) that] by (simp add: sum_negf)
  have up: "adds_up (\<lambda>n r. [(''loss'', - ?mean n r)])" by (rule adds_up_single [OF share])
  show ?thesis by (rule loss_adds_upI [OF run share up])
qed

text \<open>C36: the policy loss of a micro-batch does not depend on the context-parallel layout: the losses of the ranks add up to the
  loss a single rank computes from the whole sequences, and so does every metric they report, for every objective (PPO, GSPO, CISPO,
  REINFORCE), with off-policy sequence masking, importance-sampling correction, score centering and KL loss.\<close>

theorem policy_loss_layout_independent:
  assumes "sums_ranks all_reduce" "micro_batch_ok b fw" "pa_custom_reducer args = None" "0 < n"
    and "pa_custom_tis args \<in> {None, Some (vanilla_tis_function args), Some (icepop_function args)}"
    and "policy_loss_function args all_reduce [b] [fw] 0 = Inr (loss, metrics)"
  shows "\<exists>results. (\<forall>r < n. policy_loss_function args all_reduce (map (\<lambda>q. batch_part n q b) [0..<n]) (map (\<lambda>q. forward_part n q b fw) [0..<n]) r = Inr (results r)) \<and>
    (\<Sum>r<n. fst (results r)) = loss \<and> (\<forall>r < n. map fst (snd (results r)) = map fst metrics) \<and>
    (\<forall>j < length metrics. (\<Sum>r<n. snd (snd (results r) ! j)) = snd (metrics ! j))"
proof -
  obtain l report where lr: "\<And>n r. r < n \<Longrightarrow> policy_loss_function args all_reduce (map (\<lambda>q. batch_part n q b) [0..<n]) (map (\<lambda>q. forward_part n q b fw) [0..<n]) r = Inr (l n r, report n r)"
    "\<And>n. 0 < n \<Longrightarrow> (\<Sum>r<n. l n r) = l 1 0" "adds_up report"
    using policy_loss_adds_up [OF assms(1-3,5,6)] unfolding loss_adds_up_def by blast
  have whole: "loss = l 1 0" "metrics = report 1 0" using lr(1) [of 0 1] assms(6) batch_part_one [OF assms(2)] by simp_all
  show ?thesis
    using lr(1) [of _ n] lr(2) [OF assms(4)] lr(3) [unfolded adds_up_def, rule_format, OF assms(4)] whole by (intro exI [of _ "\<lambda>r. (l n r, report n r)"]) simp
qed

lemma loss_function_sums:
  assumes "loss_adds_up f" "f 1 0 = Inr (x, lg)" "0 < n"
  shows "\<exists>results. (\<forall>r < n. f n r = Inr (results r)) \<and> (\<Sum>r<n. fst (results r)) = x"
proof -
  obtain l report where lr: "\<And>n r. r < n \<Longrightarrow> f n r = Inr (l n r, report n r)" "\<And>n. 0 < n \<Longrightarrow> (\<Sum>r<n. l n r) = l 1 0"
    using assms(1) unfolding loss_adds_up_def by blast
  have "x = l 1 0" using lr(1) [of 0 1] assms(2) by simp
  then show ?thesis using lr(1) [of _ n] lr(2) [OF assms(3)] by (intro exI [of _ "\<lambda>r. (l n r, report n r)"]) simp
qed

text \<open>C37: the loss handed to Megatron, which averages the gradients over the \<open>n * dp\<close> ranks of the data-parallel group with context
  parallelism: the scaled losses of the \<open>n\<close> context-parallel ranks add up to \<open>n\<close> times what a single rank without context
  parallelism hands over, for the policy, the value and the supervised loss, with and without normalisation by tokens.\<close>

theorem loss_function_layout_independent:
  assumes "sums_ranks all_reduce" "micro_batch_ok b fw" "pa_custom_reducer args = None" "0 < n"
    and "pa_custom_tis args \<in> {None, Some (vanilla_tis_function args), Some (icepop_function args)}" "loss_type \<noteq> ''custom_loss''"
    and "loss_function args loss_type custom_loss all_reduce dp num_microbatches step_global_batch_size [b] [fw] 0 = Inr (loss, normalizer, report)"
  shows "\<exists>results. (\<forall>r < n. loss_function args loss_type custom_loss all_reduce (n * dp) num_microbatches step_global_batch_size
      (map (\<lambda>q. batch_part n q b) [0..<n]) (map (\<lambda>q. forward_part n q b fw) [0..<n]) r = Inr (results r) \<and> fst (snd (results r)) = normalizer) \<and>
    (\<Sum>r<n. fst (results r)) = real n * loss"
proof -
  let ?bs = "\<lambda>n. map (\<lambda>q. batch_part n q b) [0..<n]" and ?fs = "\<lambda>n. map (\<lambda>q. forward_part n q b fw) [0..<n]"
  define f where "f n r = (if loss_type = ''policy_loss'' then policy_loss_function args all_reduce (?bs n) (?fs n) r
      else if loss_type = ''value_loss'' then value_loss_function args r n (batch_part n r b) (forward_part n r b fw)
      else if loss_type = ''sft_loss'' then sft_loss_function args r n (batch_part n r b) (forward_part n r b fw)
      else Inl (ValueError ''Unknown loss type''))" for n r
  define tokens where "tokens = (\<Sum>m\<leftarrow>rp_loss_masks (pb_data b). max (sum_list m) 1)"
  define scale where "scale n = (if pa_calculate_per_token_loss args then real n else real num_microbatches / step_global_batch_size * real (n * dp))" for n
  have eq: "loss_function args loss_type custom_loss all_reduce (n * dp) num_microbatches step_global_batch_size (?bs n) (?fs n) r =
      res_bind (f n r) (\<lambda>(loss, log). Inr (loss * scale n, if pa_calculate_per_token_loss args then tokens else 1,
        (''count'', if pa_calculate_per_token_loss args then tokens else 0) # log))" if "r < n" for n r
  proof -
    have nth: "?bs n ! r = batch_part n r b" "?fs n ! r = forward_part n r b fw" "length (?bs n) = n" using that by simp_all
    show ?thesis
      unfolding loss_function_def Let_def nth batch_part_simps(1) cp_part_simps f_def scale_def tokens_def using assms(6)
      by (simp add: case_prod_beta mult.assoc)
  qed
  note one = batch_part_one [OF assms(2)]
  have "loss_function args loss_type custom_loss all_reduce (1 * dp) num_microbatches step_global_batch_size (?bs 1) (?fs 1) 0 = Inr (loss, normalizer, report)"
    using assms(7) one by simp
  then obtain x lg where x: "f 1 0 = Inr (x, lg)" "loss = x * scale 1" "normalizer = (if pa_calculate_per_token_loss args then tokens else 1)"
    unfolding eq [OF zero_less_one] by (auto simp: res_bind_eq_Inr)
  have "loss_adds_up f"
  proof -
    consider "loss_type = ''policy_loss''" | "loss_type = ''value_loss''" | "loss_type = ''sft_loss''"
      using x(1) by (auto simp: f_def split: if_splits)
    then show ?thesis
    proof cases
      case 1
      then show ?thesis using policy_loss_adds_up [OF assms(1-3,5)] x(1) one unfolding f_def [abs_def] by simp
    next
      case 2
      then show ?thesis using value_loss_adds_up [OF assms(2)] x(1) one unfolding f_def [abs_def] by simp
    next
      case 3
      then show ?thesis using sft_loss_adds_up [OF assms(2)] unfolding f_def [abs_def] by simp
    qed
  qed
  from loss_function_sums [OF this x(1) assms(4)] obtain results where res: "\<And>r. r < n \<Longrightarrow> f n r = Inr (results r)" "(\<Sum>r<n. fst (results r)) = x" by blast
  let ?out = "\<lambda>r. (fst (results r) * scale n, normalizer, (''count'', if pa_calculate_per_token_loss args then tokens else 0) # snd (results r))"
  have "scale n = real n * scale 1" by (simp add: scale_def)
  then have "(\<Sum>r<n. fst (?out r)) = real n * loss" using res(2) x(2) by (simp flip: sum_distrib_right)
  then show ?thesis using eq [of _ n] res(1) x(3) by (intro exI [of _ ?out]) (simp add: case_prod_beta)
qed

section \<open>A concrete micro-batch\<close>

definition policy_demo_args :: policy_args where
  "policy_demo_args = \<lparr>pa_pg_loss_type = None, pa_use_score_centering = False, pa_sc_weighting = (''none'', None, None), pa_advantage_estimator = ''grpo'',
     pa_use_rollout_logprobs = False, pa_use_opsm = False, pa_opsm_delta = 0, pa_eps_clip = 1 / 5, pa_eps_clip_high = 1 / 5, pa_eps_clip_c = None,
     pa_get_mismatch_metrics = False, pa_use_tis = True, pa_custom_tis = None, pa_tis_clip_low = 0, pa_tis_clip = 2, pa_custom_reducer = None,
     pa_entropy_coef = 0, pa_use_kl_loss = True, pa_use_unbiased_kl = False, pa_kl_loss_type = ''k2'', pa_kl_loss_coef = 1,
     pa_calculate_per_token_loss = False, pa_value_clip = 1\<rparr>"

definition policy_demo_batch :: policy_batch where
  "policy_demo_batch = \<lparr>pb_data = \<lparr>rp_rollout_log_probs = Some [[0, 0]], rp_log_probs = Some [[0, 0]], rp_ref_log_probs = Some [[1, 1]], rp_values = None,
     rp_teacher_log_probs = None, rp_rewards = [1], rp_response_lengths = [2], rp_loss_masks = [[1, 1]], rp_total_lengths = [5]\<rparr>,
     pb_advantages = [[1, 1]], pb_returns = [[0, 0]], pb_rollout_mask_sums = [2], pb_opd_reverse_kl = None\<rparr>"

definition policy_demo_forward :: forward_pass where
  "policy_demo_forward = \<lparr>fw_log_probs = [[0, 1]], fw_entropy = [[1, 1]], fw_values = [[0, 0]], fw_sc_correction = [[0, 0]],
     fw_sc_sampler_head_mass = [[0, 0]], fw_sc_train_head_mass = [[0, 0]]\<rparr>"

lemma policy_demo_ok: "micro_batch_ok policy_demo_batch policy_demo_forward"
  by (simp add: micro_batch_ok_def policy_demo_batch_def policy_demo_forward_def part_ok_def per_token_def)

lemma policy_demo_custom:
  "pa_custom_reducer policy_demo_args = None"
  "pa_custom_tis policy_demo_args \<in> {None, Some (vanilla_tis_function policy_demo_args), Some (icepop_function policy_demo_args)}"
  by (simp_all add: policy_demo_args_def)

lemma policy_demo_loss: "\<exists>loss metrics. policy_loss_function policy_demo_args vec_sum [policy_demo_batch] [policy_demo_forward] 0 = Inr (loss, metrics)"
  by (simp add: policy_demo_args_def policy_demo_batch_def policy_demo_forward_def policy_loss_function_def policy_terms_def corrected_terms_def Let_def
    get_pg_loss_type_def torch_cat_def old_log_probs_of_def py_or_def opsm_of_def ppo_kl_of_def broadcast2_def pg_loss_of_def compute_policy_loss_def
    correct_off_policy_def vanilla_tis_function_def importance_correction_def importance_weights_def train_log_probs_for_tis_def center_scores_def
    kl_loss_of_def compute_approx_kl_def logprob_diff_of_def reduce_metrics_def sample_mean_of_def get_sum_of_sample_mean_def case_prod_beta)

theorem policy_loss_layout_independent_witness:
  "\<exists>results loss. (\<forall>r < 2. policy_loss_function policy_demo_args vec_sum (map (\<lambda>q. batch_part 2 q policy_demo_batch) [0..<2])
      (map (\<lambda>q. forward_part 2 q policy_demo_batch policy_demo_forward) [0..<2]) r = Inr (results r)) \<and> (\<Sum>r<2. fst (results r)) = (loss :: real)"
proof -
  obtain loss metrics where "policy_loss_function policy_demo_args vec_sum [policy_demo_batch] [policy_demo_forward] 0 = Inr (loss, metrics)"
    using policy_demo_loss by blast
  from policy_loss_layout_independent [OF vec_sum_sums_ranks policy_demo_ok policy_demo_custom(1) zero_less_numeral policy_demo_custom(2) this]
  show ?thesis by blast
qed

theorem loss_function_layout_independent_witness:
  "\<exists>results loss. (\<forall>r < 2. loss_function policy_demo_args ''policy_loss'' (\<lambda>_ _. Inr (0, [])) vec_sum (2 * 3) 4 8
      (map (\<lambda>q. batch_part 2 q policy_demo_batch) [0..<2]) (map (\<lambda>q. forward_part 2 q policy_demo_batch policy_demo_forward) [0..<2]) r = Inr (results r)) \<and>
    (\<Sum>r<2. fst (results r)) = 2 * (loss :: real)"
proof -
  obtain loss metrics where l: "policy_loss_function policy_demo_args vec_sum [policy_demo_batch] [policy_demo_forward] 0 = Inr (loss, metrics)"
    using policy_demo_loss by blast
  have "\<exists>x y z. loss_function policy_demo_args ''policy_loss'' (\<lambda>_ _. Inr (0, [])) vec_sum 3 4 8 [policy_demo_batch] [policy_demo_forward] 0 = Inr (x, y, z)"
    by (simp add: loss_function_def l Let_def del: times_divide_eq_left)
  then obtain x y z where "loss_function policy_demo_args ''policy_loss'' (\<lambda>_ _. Inr (0, [])) vec_sum 3 4 8 [policy_demo_batch] [policy_demo_forward] 0 = Inr (x, y, z)"
    by blast
  from loss_function_layout_independent [OF vec_sum_sums_ranks policy_demo_ok policy_demo_custom(1) zero_less_numeral policy_demo_custom(2) _ this]
  show ?thesis unfolding of_nat_numeral by fastforce
qed

end
