(* ===== verification/Centering_Terms.thy ===== *)
theory Centering_Terms
  imports Response_Rows Selected_Log_Probs Policy_Loss
begin

text \<open>
  \<open>get_score_centering_terms\<close>, \<open>vime/backends/megatron_utils/loss.py\<close> lines 952-1125: for every response token the rank holds,
  the score-centering correction and the probability mass of the sampler's head under the sampler and the trainer. With top-p
  replay the head is the complete recorded support, otherwise the sampler's top-k tokens.
\<close>

section \<open>Arguments and data\<close>

record centering_args =
  ca_cp_size :: nat
  ca_allgather_cp :: bool
  ca_top_p :: real
  ca_temperature :: real
  ca_log_probs_chunk_size :: int
  ca_weighting :: "string \<times> real option \<times> real option"

text \<open>A head is in memory, where the actor has cut it for zigzag chunks, or stored whole.\<close>

datatype 'a head_rows = Resident "'a list" | Stored "'a list"

fun whole_head :: "'a head_rows \<Rightarrow> 'a list" where
  "whole_head (Resident xs) = xs"
| "whole_head (Stored xs) = xs"

record centering_batch =
  cb_samples :: "resp_sample list"
  cb_has_rollout_log_probs :: bool
  cb_topk_token_ids :: "int list head_rows list option"
  cb_topk_log_probs :: "real list head_rows list option"
  cb_top_p_token_ids :: "int list list option"
  cb_top_p_token_offsets :: "int list list option"
  cb_top_p_log_probs :: "real list list option"

type_synonym centering_columns = "real list \<times> real list \<times> real list"

section \<open>The rank's share of the heads\<close>

fun slice_allgather_response_rows :: "int \<Rightarrow> int \<Rightarrow> int \<Rightarrow> 'a list list \<Rightarrow> (int \<times> int) list \<Rightarrow> 'a list list result" where
  "slice_allgather_response_rows cp_rank logits_local_len seq_start [] [] = Inr []"
| "slice_allgather_response_rows cp_rank logits_local_len seq_start (v # vs) ((total_length, response_length) # ls) =
     (let chunk_start = cp_rank * logits_local_len; logit_global_start = seq_start + (total_length - response_length) - 1;
          (s, e) = piece_range chunk_start (chunk_start + logits_local_len) seq_start total_length response_length
      in res_bind (slice_allgather_response_rows cp_rank logits_local_len (seq_start + total_length) vs ls) (\<lambda>rest.
           Inr ((if e \<le> s then [] else py_slice (s - logit_global_start) (e - logit_global_start) v) # rest)))"
| "slice_allgather_response_rows cp_rank logits_local_len seq_start vs ls = Inl (ValueError ''zip() arguments differ in length'')"

definition local_heads :: "int \<Rightarrow> int \<Rightarrow> 'a head_rows list \<Rightarrow> (int \<times> int) list \<Rightarrow> 'a list list result" where
  "local_heads cp_rank cp_size vals lengths =
     (if length vals \<noteq> length lengths then Inl (ValueError ''zip() arguments differ in length'')
      else res_map (\<lambda>(v, total, response). case v of Resident xs \<Rightarrow> Inr xs
        | Stored xs \<Rightarrow> if cp_size = 1 then Inr xs else slice_log_prob_with_cp cp_rank cp_size xs total response) (zip vals lengths))"

definition topk_heads :: "centering_args \<Rightarrow> int \<Rightarrow> int \<Rightarrow> 'a head_rows list \<Rightarrow> (int \<times> int) list \<Rightarrow> 'a list list result" where
  "topk_heads args cp_rank T vals lengths =
     (if ca_allgather_cp args \<and> 1 < ca_cp_size args then slice_allgather_response_rows cp_rank T 0 (map whole_head vals) lengths
      else local_heads cp_rank (int (ca_cp_size args)) vals lengths)"

text \<open>The response rows of every sample, from the shards of the rank's tensor-parallel group: sample by sample, a list over
  the group.\<close>

definition response_rows :: "centering_args \<Rightarrow> int \<Rightarrow> real list list list \<Rightarrow> resp_sample list \<Rightarrow> real list list list list result" where
  "response_rows args cp_rank shards samples =
     res_bind (res_map (\<lambda>shard. get_responses cp_rank (int (ca_cp_size args)) (ca_allgather_cp args) (ca_temperature args) False shard samples) shards)
       (\<lambda>group. Inr (map (\<lambda>s. map (\<lambda>pairs. fst (pairs ! s)) group) [0..<length samples]))"

section \<open>Terms of a sample\<close>

text \<open>Top-k heads; \<open>buf n\<close> is the content of the preallocated tensors of \<open>n\<close> rows.\<close>

definition topk_terms ::
  "centering_args \<Rightarrow> (logit list list \<Rightarrow> logit list) \<Rightarrow> (real list list \<Rightarrow> real list) \<Rightarrow> (nat \<Rightarrow> real list list \<times> real list \<times> real list) \<Rightarrow>
   real list list list \<Rightarrow> int list list \<Rightarrow> real list list \<Rightarrow> centering_columns result" where
  "topk_terms args all_max all_sum buf rows head_ids q =
     (let p = calculate_topk_log_probs all_max all_sum rows head_ids (ca_log_probs_chunk_size args) (ca_temperature args) (buf (length (hd rows)));
          (mode, low, high) = ca_weighting args
      in score_centering_correction mode low high (1 / 1000000) p q)"

definition mask_select :: "bool list \<Rightarrow> 'a list \<Rightarrow> 'a list" where
  "mask_select keep xs = map snd (filter fst (zip keep xs))"

text \<open>The contiguous ranges to read for the supports of the rows \<open>indices\<close>.\<close>

definition read_spans :: "int list \<Rightarrow> int list \<Rightarrow> (int \<times> int) list" where
  "read_spans starts ends =
     (let nonempty = map2 (\<noteq>) starts ends; starts = mask_select nonempty starts; ends = mask_select nonempty ends;
          boundary = map2 (\<noteq>) (drop 1 starts) (butlast ends); first = replicate (min (length starts) 1) True
      in zip (mask_select (first @ boundary) starts) (mask_select (boundary @ first) ends))"

definition read_ranges :: "(int \<times> int) list \<Rightarrow> 'a list \<Rightarrow> 'a list" where
  "read_ranges spans xs = concat (map (\<lambda>(a, b). py_slice a b xs) spans)"

fun cumsum_from :: "int \<Rightarrow> int list \<Rightarrow> int list" where
  "cumsum_from acc [] = [acc]"
| "cumsum_from acc (x # xs) = acc # cumsum_from (acc + x) xs"

definition top_p_terms ::
  "centering_args \<Rightarrow> (real list list \<Rightarrow> real list) \<Rightarrow> real list list list \<Rightarrow> int list \<Rightarrow> int list \<Rightarrow> int list \<Rightarrow> real list \<Rightarrow> centering_columns result" where
  "top_p_terms args all_sum rows indices ids offsets sampler_log_probs =
     res_bind (index_select indices offsets) (\<lambda>starts.
     res_bind (index_select (map (\<lambda>i. i + 1) indices) offsets) (\<lambda>ends.
     let lengths = map2 (\<lambda>e s. e - s) ends starts; spans = read_spans starts ends;
         head_ids = read_ranges spans ids; q = read_ranges spans sampler_log_probs;
         zeros = replicate (length (hd rows)) 0; (mode, low, high) = ca_weighting args in
     res_bind (calculate_ragged_log_probs all_sum rows head_ids (cumsum_from 0 lengths) (ca_temperature args)) (\<lambda>p.
     res_bind (repeat_rows lengths) (\<lambda>row_ids.
     res_bind (broadcast2 (\<lambda>x y. exp (x - y)) p q) (\<lambda>ratio.
     res_bind (importance_weights ratio mode low high) (\<lambda>weights.
     if length q < length row_ids then Inl (RuntimeError ''Expected index to be smaller than src'') else
     res_bind (importance_weights (map (\<lambda>_. 1) zeros) mode low high) (\<lambda>alpha.
       let coefficients = map2 (*) (map exp q) weights;
           residual = map2 (-) coefficients (map2 (\<lambda>row x. alpha ! row * exp x) row_ids p)
       in Inr (scatter_add row_ids (map2 (*) residual p) zeros, scatter_add row_ids (map exp q) zeros, scatter_add row_ids (map exp p) zeros))))))))"

section \<open>The terms of a micro-batch\<close>

definition local_top_p_terms ::
  "centering_args \<Rightarrow> (real list list \<Rightarrow> real list) \<Rightarrow> int \<Rightarrow> real list list list \<Rightarrow> centering_batch \<Rightarrow> centering_columns list result" where
  "local_top_p_terms args all_sum cp_rank shards b =
     (if cb_top_p_log_probs b = None \<or> \<not> cb_has_rollout_log_probs b
      then Inl (ValueError ''Top-p score centering requires complete sampler top-p and sampled-token logprobs.'')
      else if cb_top_p_token_ids b = None \<or> cb_top_p_token_offsets b = None
      then Inl (ValueError ''rollout_top_p != 1.0 requires rollout_top_p_token_ids and rollout_top_p_token_offsets.'')
      else
        let lengths = map snd (cb_samples b); ids = the (cb_top_p_token_ids b); offsets = the (cb_top_p_token_offsets b);
            qs = the (cb_top_p_log_probs b); indices = map (\<lambda>l. map int [0..<nat (snd l)]) lengths in
        res_bind (if ca_allgather_cp args \<and> 1 < ca_cp_size args
          then slice_allgather_response_rows cp_rank (int (length (hd shards))) 0 indices lengths
          else res_map (\<lambda>(i, total, response). slice_log_prob_with_cp cp_rank (int (ca_cp_size args)) i total response) (zip indices lengths)) (\<lambda>indices.
        res_bind (response_rows args cp_rank shards (cb_samples b)) (\<lambda>rows.
        if length ids \<noteq> length rows \<or> length offsets \<noteq> length rows \<or> length qs \<noteq> length rows
        then Inl (ValueError ''zip() arguments differ in length'')
        else res_map (\<lambda>(rows, indices, ids, offsets, q). top_p_terms args all_sum rows indices ids offsets q)
          (zip rows (zip indices (zip ids (zip offsets qs)))))))"

definition local_topk_terms ::
  "centering_args \<Rightarrow> (logit list list \<Rightarrow> logit list) \<Rightarrow> (real list list \<Rightarrow> real list) \<Rightarrow> (nat \<Rightarrow> real list list \<times> real list \<times> real list) \<Rightarrow> int \<Rightarrow>
   real list list list \<Rightarrow> centering_batch \<Rightarrow> centering_columns list result" where
  "local_topk_terms args all_max all_sum buf cp_rank shards b =
     (if cb_topk_token_ids b = None \<or> cb_topk_log_probs b = None \<or> \<not> cb_has_rollout_log_probs b
      then Inl (ValueError ''Score centering requires sampler top-k ids, top-k logprobs, and sampled-token logprobs.'')
      else
        let lengths = map snd (cb_samples b); T = int (length (hd shards)) in
        res_bind (topk_heads args cp_rank T (the (cb_topk_token_ids b)) lengths) (\<lambda>ids.
        res_bind (topk_heads args cp_rank T (the (cb_topk_log_probs b)) lengths) (\<lambda>sampler_head.
        res_bind (response_rows args cp_rank shards (cb_samples b)) (\<lambda>rows.
          res_map (\<lambda>(rows, head_ids, q). topk_terms args all_max all_sum buf rows head_ids q) (zip rows (zip ids sampler_head))))))"

definition local_centering_terms ::
  "centering_args \<Rightarrow> (logit list list \<Rightarrow> logit list) \<Rightarrow> (real list list \<Rightarrow> real list) \<Rightarrow> (nat \<Rightarrow> real list list \<times> real list \<times> real list) \<Rightarrow> int \<Rightarrow>
   real list list list \<Rightarrow> centering_batch \<Rightarrow> centering_columns list result" where
  "local_centering_terms args all_max all_sum buf cp_rank shards b =
     (if ca_top_p args < 1 then local_top_p_terms args all_sum cp_rank shards b
      else local_topk_terms args all_max all_sum buf cp_rank shards b)"

text \<open>On rank \<open>cp_rank\<close>; \<open>logits\<close> and \<open>batches\<close> hold what every rank of the context-parallel group has.\<close>

definition get_score_centering_terms ::
  "centering_args \<Rightarrow> (logit list list \<Rightarrow> logit list) \<Rightarrow> (real list list \<Rightarrow> real list) \<Rightarrow> (nat \<Rightarrow> real list list \<times> real list \<times> real list) \<Rightarrow> nat \<Rightarrow>
   real list list list list \<Rightarrow> centering_batch list \<Rightarrow> centering_columns result" where
  "get_score_centering_terms args all_max all_sum buf cp_rank logits batches =
     (let locals = (\<lambda>r. local_centering_terms args all_max all_sum buf (int r) (logits ! r) (batches ! r));
          T = int (length (hd (logits ! cp_rank))); lengths = map snd (cb_samples (batches ! cp_rank)) in
      res_bind (locals cp_rank) (\<lambda>terms.
      res_bind
        (if ca_allgather_cp args \<and> 1 < ca_cp_size args then
           res_bind (res_map locals [0..<length logits]) (\<lambda>group.
           res_bind (allgather_cp_redistribute all_sum (int cp_rank) T (map (map fst) group) lengths) (\<lambda>corrections.
           res_bind (allgather_cp_redistribute all_sum (int cp_rank) T (map (map (fst \<circ> snd)) group) lengths) (\<lambda>q_masses.
           res_bind (allgather_cp_redistribute all_sum (int cp_rank) T (map (map (snd \<circ> snd)) group) lengths) (\<lambda>p_masses.
             Inr (corrections, q_masses, p_masses)))))
         else Inr (map fst terms, map (fst \<circ> snd) terms, map (snd \<circ> snd) terms)) (\<lambda>(corrections, q_masses, p_masses).
      res_bind (torch_cat corrections) (\<lambda>correction.
      res_bind (torch_cat q_masses) (\<lambda>q_mass.
      res_bind (torch_cat p_masses) (\<lambda>p_mass. Inr (correction, q_mass, p_mass)))))))"

section \<open>The rank's share of the heads are the heads of the tokens it holds\<close>

lemma slice_allgather_held:
  "\<forall>l \<in> set ls. lengths_ok l \<Longrightarrow> length vs = length ls \<Longrightarrow> (\<And>s. s < length ls \<Longrightarrow> int (length (vs ! s)) = snd (ls ! s)) \<Longrightarrow>
    slice_allgather_response_rows (int r) (int T) (int q) vs ls = Inr (map2 (\<lambda>ks v. map ((!) v) ks) (piece_tokens T r q ls) vs)"
proof (induction ls arbitrary: vs q)
  case (Cons l ls)
  obtain tot resp where l: "l = (tot, resp)" by fastforce
  obtain v vs' where vs: "vs = v # vs'" using Cons.prems(2) by (cases vs) auto
  have ok: "0 \<le> resp" "resp < tot" and tail: "\<forall>l \<in> set ls. lengths_ok l" using Cons.prems(1) by (auto simp: l lengths_ok_def)
  have lv: "int (length v) = resp" using Cons.prems(3) [of 0] by (simp add: vs l)
  have rest: "slice_allgather_response_rows (int r) (int T) (int (q + nat tot)) vs' ls =
      Inr (map2 (\<lambda>ks v. map ((!) v) ks) (piece_tokens T r (q + nat tot) ls) vs')"
    using Cons.prems(2) Cons.prems(3) [of "Suc _"] by (intro Cons.IH [OF tail]) (auto simp: vs)
  define x where "x = q + nat (tot - resp - 1)"
  have y: "q + nat (tot - 1) = x + length v" using ok lv by (simp add: x_def)
  have g: "int q + (tot - resp) - 1 = int x" "int q + tot - 1 = int (x + length v)" "int q + tot = int (q + nat tot)"
    using ok lv by (simp_all add: x_def)
  let ?a = "max x (r * T)" and ?b = "min (x + length v) (r * T + T)"
  have pr: "piece_range (int r * int T) (int r * int T + int T) (int q) tot resp = (int ?a, int ?b)"
  proof -
    have "int r * int T = int (r * T)" by simp
    then show ?thesis unfolding piece_range_def Let_def g(1,2) by (simp only: of_nat_max of_nat_min of_nat_add)
  qed
  have "(if int ?b \<le> int ?a then [] else py_slice (int ?a - int x) (int ?b - int x) v) = map ((!) v) (map (\<lambda>i. i - x) [?a..<?b])"
  proof (cases "?b \<le> ?a")
    case False
    have "py_slice (int ?a - int x) (int ?b - int x) v = slice (?a - x) (?b - x) v"
      using False by (subst py_slice_nat) (auto simp: nat_diff_distrib' simp del: of_nat_max of_nat_min)
    also have "\<dots> = map ((!) v) (map (\<lambda>i. i - x) [?a..<?b])"
    proof (rule nth_equalityI)
      show "length (slice (?a - x) (?b - x) v) = length (map ((!) v) (map (\<lambda>i. i - x) [?a..<?b]))" using False by (auto simp: min_def max_def)
      fix i assume "i < length (slice (?a - x) (?b - x) v)"
      then have i: "?a - x + i < ?b - x" "?b - x \<le> length v" by auto
      then have "slice (?a - x) (?b - x) v ! i = v ! (?a - x + i)" by (intro slice_nth) linarith+
      moreover have "?a - x + i = ?a + i - x" "?a + i < ?b" using i by linarith+
      ultimately show "slice (?a - x) (?b - x) v ! i = map ((!) v) (map (\<lambda>i. i - x) [?a..<?b]) ! i"
        by (simp del: max.bounded_iff min_less_iff_conj)
    qed
    finally show ?thesis using False by (simp only: of_nat_le_iff if_False)
  qed simp
  moreover have "piece_tokens T r q (l # ls) = map (\<lambda>i. i - x) [?a..<?b] # piece_tokens T r (q + nat tot) ls"
    by (simp add: l resp_index_def y filter_piece flip: x_def)
  ultimately show ?case
    unfolding vs l slice_allgather_response_rows.simps Let_def pr prod.case g(1) unfolding g(3) rest by (simp del: of_nat_max of_nat_min)
qed simp

section \<open>The spans read are the supports, one after the other\<close>

lemma slice_join:
  assumes "a \<le> b" "b \<le> c"
  shows "slice a b xs @ slice b c xs = slice a c xs"
proof -
  obtain m k where mk: "b = a + m" "c = a + m + k" using assms by (metis le_Suc_ex)
  have "a + m - a = m" "a + m + k - (a + m) = k" "a + m + k - a = m + k" "drop (a + m) xs = drop m (drop a xs)" by (simp_all add: add.commute)
  then show ?thesis unfolding mk slice_def by (simp only: take_add)
qed

definition spans_from :: "int \<Rightarrow> int list \<Rightarrow> int list \<Rightarrow> (int \<times> int) list" where
  "spans_from a starts ends = (let boundary = map2 (\<noteq>) (drop 1 starts) (butlast ends) in
     zip (a # mask_select boundary (drop 1 starts)) (mask_select (boundary @ [True]) ends))"

lemma mask_select_simps [simp]:
  "mask_select [] xs = []" "mask_select (b # bs) (x # xs) = (if b then x # mask_select bs xs else mask_select bs xs)"
  by (simp_all add: mask_select_def)

lemma spans_from_step:
  "spans_from a (s1 # s2 # ss) (e1 # e2 # es) =
    (if s2 \<noteq> e1 then (a, e1) # spans_from s2 (s2 # ss) (e2 # es) else spans_from a (s2 # ss) (e2 # es))"
  by (simp add: spans_from_def Let_def)

lemma read_spans_from:
  "length ss = length es \<Longrightarrow> 0 \<le> a \<Longrightarrow> a \<le> e \<Longrightarrow> \<forall>(s, e) \<in> set (zip ss es). 0 \<le> s \<and> s \<le> e \<Longrightarrow>
    read_ranges (spans_from a (s # ss) (e # es)) xs = py_slice a e xs @ concat (map2 (\<lambda>s e. py_slice s e xs) ss es)"
proof (induction ss es arbitrary: a s e rule: list_induct2)
  case (Cons s2 ss e2 es)
  have ok: "0 \<le> s2" "s2 \<le> e2" and tail: "\<forall>(s, e) \<in> set (zip ss es). 0 \<le> s \<and> s \<le> e" using Cons.prems(3) by auto
  show ?case
  proof (cases "s2 = e")
    case True
    have "read_ranges (spans_from a (s2 # ss) (e2 # es)) xs = py_slice a e2 xs @ concat (map2 (\<lambda>s e. py_slice s e xs) ss es)"
      using Cons.IH [of a e2 s2] Cons.prems(1,2) ok True tail by simp
    moreover have "py_slice a e2 xs = py_slice a e xs @ py_slice s2 e2 xs"
      using Cons.prems(1,2) ok True by (simp add: py_slice_nat slice_join nat_mono)
    ultimately show ?thesis using True by (simp add: spans_from_step)
  next
    case False
    have "read_ranges (spans_from s2 (s2 # ss) (e2 # es)) xs = py_slice s2 e2 xs @ concat (map2 (\<lambda>s e. py_slice s e xs) ss es)"
      using Cons.IH [of s2 e2 s2] ok tail by simp
    then show ?thesis using False by (simp add: spans_from_step read_ranges_def)
  qed
qed (simp add: spans_from_def read_ranges_def)

lemma mask_select_zip: "length xs = length ys \<Longrightarrow> zip (mask_select bs xs) (mask_select bs ys) = mask_select bs (zip xs ys)"
proof (induction xs ys arbitrary: bs rule: list_induct2)
  case (Cons x xs y ys)
  then show ?case by (cases bs) auto
qed (simp add: mask_select_def)

lemma length_mask_select: "length xs = length ys \<Longrightarrow> length (mask_select bs xs) = length (mask_select bs ys)"
proof (induction xs ys arbitrary: bs rule: list_induct2)
  case (Cons x xs y ys)
  then show ?case by (cases bs) auto
qed (simp add: mask_select_def)

lemma nonempty_ranges:
  "length starts = length ends \<Longrightarrow>
    concat (map (\<lambda>(s, e). py_slice s e xs) (mask_select (map2 (\<noteq>) starts ends) (zip starts ends))) = concat (map2 (\<lambda>s e. py_slice s e xs) starts ends)"
  by (induction starts ends rule: list_induct2) auto

lemma read_spans_ranges:
  assumes len: "length starts = length ends" and ok: "\<forall>(s, e) \<in> set (zip starts ends). 0 \<le> s \<and> s \<le> e"
  shows "read_ranges (read_spans starts ends) xs = concat (map2 (\<lambda>s e. py_slice s e xs) starts ends)"
proof -
  let ?n = "map2 (\<noteq>) starts ends"
  define ss es where "ss = mask_select ?n starts" and "es = mask_select ?n ends"
  have l: "length ss = length es" unfolding ss_def es_def by (rule length_mask_select [OF len])
  have z: "zip ss es = mask_select ?n (zip starts ends)" unfolding ss_def es_def by (rule mask_select_zip [OF len])
  have "set (zip ss es) \<subseteq> set (zip starts ends)" unfolding z by (auto simp: mask_select_def dest: set_zip_rightD)
  then have ok': "\<forall>(s, e) \<in> set (zip ss es). 0 \<le> s \<and> s \<le> e" using ok by blast
  have "read_ranges (read_spans starts ends) xs = concat (map2 (\<lambda>s e. py_slice s e xs) ss es)"
  proof (cases ss)
    case Nil
    then show ?thesis using l by (simp add: read_spans_def Let_def read_ranges_def flip: ss_def es_def)
  next
    case (Cons s ss')
    then obtain e es' where es: "es = e # es'" using l by (cases es) auto
    have "read_spans starts ends = spans_from s (s # ss') (e # es')"
      unfolding read_spans_def Let_def ss_def [symmetric] es_def [symmetric] Cons es by (simp add: spans_from_def Let_def)
    then show ?thesis using read_spans_from [of ss' es' s e s xs] l ok' by (simp add: Cons es)
  qed
  also have "\<dots> = concat (map2 (\<lambda>s e. py_slice s e xs) starts ends)"
    unfolding z by (rule nonempty_ranges [OF len])
  finally show ?thesis .
qed

section \<open>The terms of one token\<close>

definition valid_mode :: "string \<Rightarrow> bool" where
  "valid_mode mode \<longleftrightarrow> mode \<in> {''none'', ''tis'', ''mis''}"

definition weight_of :: "string \<times> real option \<times> real option \<Rightarrow> real \<Rightarrow> real" where
  "weight_of = (\<lambda>(mode, low, high) x. hd (projr (importance_weights [x] mode low high)))"

lemma importance_weights_eq: "valid_mode mode \<Longrightarrow> importance_weights xs mode low high = Inr (map (weight_of (mode, low, high)) xs)"
  by (auto simp: valid_mode_def weight_of_def importance_weights_def Let_def)

text \<open>The correction of a token with weights \<open>w\<close>, and the masses of its head, from the log-probabilities of the trainer and the
  sampler.\<close>

definition centred_token :: "(real \<Rightarrow> real) \<Rightarrow> real \<Rightarrow> real list \<Rightarrow> real list \<Rightarrow> real \<times> real \<times> real" where
  "centred_token w alpha p q =
     ((\<Sum>(x, y)\<leftarrow>zip p q. (exp y * w (exp (x - y)) - alpha * exp x) * x), (\<Sum>y\<leftarrow>q. exp y), (\<Sum>x\<leftarrow>p. exp x))"

text \<open>With top-k heads the tail of the sampler is modelled as a multiple of the trainer's.\<close>

definition tail_alpha :: "(real \<Rightarrow> real) \<Rightarrow> real list \<Rightarrow> real list \<Rightarrow> real" where
  "tail_alpha w p q = (let rho = sc_rho (1 / 1000000) (map exp p) (map exp q) in rho * w (1 / rho))"

definition columns :: "(real \<times> real \<times> real) list \<Rightarrow> centering_columns" where
  "columns ts = (map fst ts, map (fst \<circ> snd) ts, map (snd \<circ> snd) ts)"

lemma correction_token:
  assumes "valid_mode mode" "length p = length q"
  shows "\<exists>residual. sc_residual mode low high (1 / 1000000) p q = Inr residual \<and>
    dot residual p = fst (centred_token (weight_of (mode, low, high)) (tail_alpha (weight_of (mode, low, high)) p q) p q)"
proof -
  let ?w = "weight_of (mode, low, high)" and ?alpha = "tail_alpha (weight_of (mode, low, high)) p q"
  have "sum_list (map2 (*) (map2 (-) (map2 (*) (map exp q) (map ?w (map exp (map2 (-) p q)))) (map (\<lambda>x. a * x) (map exp p))) p) =
      (\<Sum>(x, y)\<leftarrow>zip p q. (exp y * ?w (exp (x - y)) - a * exp x) * x)" for a
    using assms(2) by (induction p q rule: list_induct2) simp_all
  then show ?thesis
    unfolding sc_residual_def Let_def importance_weights_eq [OF assms(1)] res_bind_Inr centred_token_def dot_def tail_alpha_def fst_conv
    by simp
qed

lemma score_centering_columns:
  assumes "valid_mode mode" "length ps = length qs" "\<And>i. i < length qs \<Longrightarrow> length (ps ! i) = length (qs ! i)"
  shows "score_centering_correction mode low high (1 / 1000000) ps qs =
    Inr (columns (map2 (\<lambda>p q. centred_token (weight_of (mode, low, high)) (tail_alpha (weight_of (mode, low, high)) p q) p q) ps qs))"
proof -
  let ?w = "weight_of (mode, low, high)"
  let ?c = "\<lambda>p q. centred_token ?w (tail_alpha ?w p q) p q"
  have "res_map (\<lambda>(t, s). res_bind (sc_residual mode low high (1 / 1000000) t s) (\<lambda>residual. Inr (dot residual t))) (zip ps qs) =
      Inr (map (\<lambda>(t, s). fst (?c t s)) (zip ps qs))"
  proof (intro res_map_Inr_ball ballI)
    fix x assume "x \<in> set (zip ps qs)"
    then obtain i where "x = (ps ! i, qs ! i)" "i < length qs" by (fastforce simp: in_set_conv_nth)
    then show "(\<lambda>(t, s). res_bind (sc_residual mode low high (1 / 1000000) t s) (\<lambda>residual. Inr (dot residual t))) x = Inr ((\<lambda>(t, s). fst (?c t s)) x)"
      using correction_token [OF assms(1) assms(3), of i low high] by auto
  qed
  moreover have "map (\<lambda>s. sum_list (map exp s)) qs = map (fst \<circ> snd) (map2 ?c ps qs)" "map (\<lambda>t. sum_list (map exp t)) ps = map (snd \<circ> snd) (map2 ?c ps qs)"
    using assms(2) by (induction ps qs rule: list_induct2) (simp_all add: centred_token_def)
  ultimately show ?thesis
    unfolding score_centering_correction_def importance_weights_eq [OF assms(1)] by (simp add: columns_def comp_def case_prod_beta)
qed

lemma topk_terms_eq:
  assumes sums: "sums_ranks all_sum" and maxes: "maxes_ranks all_max" and ok: "heads_ok tp m v head_ids G"
    and q: "length q = m" "\<And>i. i < m \<Longrightarrow> length (q ! i) = length (head_ids ! i)"
    and buf: "\<And>n. length (fst (buf n)) = n \<and> length (fst (snd (buf n))) = n \<and> length (snd (snd (buf n))) = n"
    and w: "ca_weighting args = (mode, low, high)" "valid_mode mode"
  shows "topk_terms args all_max all_sum buf G head_ids q =
    Inr (columns (map (\<lambda>i. let p = map (head_log_prob tp v (ca_temperature args) G i) (head_ids ! i)
       in centred_token (weight_of (mode, low, high)) (tail_alpha (weight_of (mode, low, high)) p (q ! i)) p (q ! i)) [0..<m]))"
proof -
  let ?t = "ca_temperature args"
  let ?ps = "map (\<lambda>i. map (head_log_prob tp v ?t G i) (head_ids ! i)) [0..<m]"
  note okd = heads_okD [OF ok]
  have n: "length (hd G) = m"
    using okd(1) group_shapeD(1) [OF okd(3)] group_shapeD(2) [OF okd(3), of 0] by (cases G) auto
  obtain b1 b2 b3 where b: "buf m = (b1, b2, b3)" by (cases "buf m")
  have sz: "0 < topk_chunk_size (ca_log_probs_chunk_size args) m" by (auto simp: topk_chunk_size_def)
  have "calculate_topk_log_probs all_max all_sum G head_ids (ca_log_probs_chunk_size args) ?t (buf (length (hd G))) = ?ps"
    unfolding calculate_topk_log_probs_def n b using buf [of m] b by (subst topk_forward_eq [OF sums maxes ok sz]) simp_all
  moreover have "score_centering_correction mode low high (1 / 1000000) ?ps q =
      Inr (columns (map2 (\<lambda>p q. centred_token (weight_of (mode, low, high)) (tail_alpha (weight_of (mode, low, high)) p q) p q) ?ps q))"
    using q by (intro score_centering_columns w(2)) simp_all
  moreover have "map2 (\<lambda>p q. centred_token (weight_of (mode, low, high)) (tail_alpha (weight_of (mode, low, high)) p q) p q) ?ps q =
      map (\<lambda>i. let p = map (head_log_prob tp v ?t G i) (head_ids ! i)
       in centred_token (weight_of (mode, low, high)) (tail_alpha (weight_of (mode, low, high)) p (q ! i)) p (q ! i)) [0..<m]"
    using q(1) by (intro nth_equalityI) (simp_all add: Let_def)
  ultimately show ?thesis by (simp add: topk_terms_def Let_def w(1))
qed

section \<open>The terms of a recorded support\<close>

lemma scatter_entries:
  "scatter_add (map fst (entries lens)) (map f (entries lens)) (replicate (length lens) 0) = map (\<lambda>i. \<Sum>m<lens ! i. f (i, m)) [0..<length lens]"
  by (rule nth_equalityI) (simp_all add: scatter_add_nth zip_map_map zip_same_conv_map comp_def sum_entries cong: if_cong)

lemma length_cumsum_from [simp]: "length (cumsum_from a xs) = Suc (length xs)"
  by (induction xs arbitrary: a) simp_all

lemma cumsum_from_0: "cumsum_from a xs ! 0 = a"
  by (cases xs) simp_all

lemma cumsum_from_diff: "i < length xs \<Longrightarrow> cumsum_from a xs ! Suc i - cumsum_from a xs ! i = xs ! i"
proof (induction xs arbitrary: a i)
  case (Cons x xs)
  then show ?case by (cases i) (simp_all add: cumsum_from_0)
qed simp

text \<open>No rows, no entries.\<close>

lemma ragged_nothing:
  assumes "sums_ranks all_sum" "group_shape tp 0 v G" "0 < tp"
  shows "calculate_ragged_log_probs all_sum G [] [a] t = Inr []"
proof -
  have "length (hd G) = 0" using group_shapeD(1) [OF assms(2)] group_shapeD(2) [OF assms(2), of 0] assms(3) by (cases G) auto
  moreover have "all_sum (map (\<lambda>r. []) [0..<length G]) = ([] :: real list)"
    using all_sum_columns [OF assms(1), of "map (\<lambda>r. []) [0..<length G]" 0] group_shapeD(1) [OF assms(2)] assms(3) by simp
  ultimately show ?thesis
    by (simp add: calculate_ragged_log_probs_def ragged_forward_def Let_def repeat_rows_def)
qed

lemma centred_sums:
  assumes "length p = length q"
  shows "centred_token w alpha p q = ((\<Sum>m<length q. (exp (q ! m) * w (exp (p ! m - q ! m)) - alpha * exp (p ! m)) * p ! m),
    (\<Sum>m<length q. exp (q ! m)), (\<Sum>m<length q. exp (p ! m)))"
  using assms by (simp add: centred_token_def sum_list_sum_nth lessThan_atLeast0)

definition recorded_ok :: "nat \<Rightarrow> int list \<Rightarrow> int list \<Rightarrow> real list \<Rightarrow> nat \<Rightarrow> bool" where
  "recorded_ok V ids offsets q resp \<longleftrightarrow> sorted_offsets offsets resp \<and> nat (offsets ! resp) \<le> length ids \<and> length q = length ids \<and>
     (\<forall>k < resp. distinct (ragged_row offsets ids k)) \<and> (\<forall>t \<in> set ids. 0 \<le> t \<and> t < int V)"

lemma recorded_row:
  assumes ok: "recorded_ok V ids offsets q resp" and k: "k < resp"
  shows "0 \<le> offsets ! k" "offsets ! k \<le> offsets ! Suc k" "int (length (ragged_row offsets ids k)) = offsets ! Suc k - offsets ! k"
    "length (ragged_row offsets q k) = length (ragged_row offsets ids k)" "Suc k < length offsets"
proof -
  have s: "sorted_offsets offsets resp" using ok by (simp add: recorded_ok_def)
  have "offsets ! 0 \<le> offsets ! k" using k by (intro sorted_offsets_mono [OF s]) simp_all
  then show o0: "0 \<le> offsets ! k" using s by (simp add: sorted_offsets_def)
  show o1: "offsets ! k \<le> offsets ! Suc k" "Suc k < length offsets" using s k by (simp_all add: sorted_offsets_def)
  have "offsets ! Suc k \<le> offsets ! resp" using k by (intro sorted_offsets_mono [OF s]) simp_all
  then have "nat (offsets ! Suc k) \<le> length ids" using ok by (simp add: recorded_ok_def) linarith
  then show "int (length (ragged_row offsets ids k)) = offsets ! Suc k - offsets ! k" "length (ragged_row offsets q k) = length (ragged_row offsets ids k)"
    using o0 o1 ok by (simp_all add: ragged_row_def recorded_ok_def)
qed

lemma recorded_supports:
  assumes rec: "recorded_ok (tp * v) ids offsets q resp" and ks: "set ks \<subseteq> {..<resp}" "ks \<noteq> []"
    and shape: "0 < tp" "0 < v" "group_shape tp (length ks) v G" and cum: "cum = cumsum_from 0 (map (\<lambda>k. int (length (ragged_row offsets ids k))) ks)"
  shows "supports_ok tp (length ks) v (map (ragged_row offsets ids) ks) cum G"
proof -
  have "0 \<le> t \<and> t < int (tp * v)" if "t \<in> set (ragged_row offsets ids k)" for t k
  proof -
    have "t \<in> set ids" using that by (auto simp: ragged_row_def slice_def dest!: in_set_takeD in_set_dropD)
    then show ?thesis using rec unfolding recorded_ok_def by blast
  qed
  then have "heads_ok tp (length ks) v (map (ragged_row offsets ids) ks) G" using shape unfolding heads_ok_def by simp
  moreover have "\<forall>ids' \<in> set (map (ragged_row offsets ids) ks). distinct ids'" using rec ks(1) by (auto simp: recorded_ok_def)
  ultimately show ?thesis using ks(2) by (simp add: supports_ok_def cum cumsum_from_diff)
qed

lemma top_p_terms_eq:
  assumes sums: "sums_ranks all_sum" and rec: "recorded_ok (tp * v) ids offsets qs resp" and ks: "set ks \<subseteq> {..<resp}"
    and shape: "0 < tp" "0 < v" "group_shape tp (length ks) v G" and w: "ca_weighting args = (mode, low, high)" "valid_mode mode"
  shows "top_p_terms args all_sum G (map int ks) ids offsets qs =
    Inr (columns (map (\<lambda>i. centred_token (weight_of (mode, low, high)) (weight_of (mode, low, high) 1)
      (map (\<lambda>id. token_log_prob (token_set (ragged_row offsets ids (ks ! i))) (nat id) (scaled_row v (ca_temperature args) G i)) (ragged_row offsets ids (ks ! i)))
      (ragged_row offsets qs (ks ! i))) [0..<length ks]))"
proof -
  let ?t = "ca_temperature args" and ?w = "weight_of (mode, low, high)"
  define supp where "supp = map (ragged_row offsets ids) ks"
  define qq where "qq = map (ragged_row offsets qs) ks"
  define es where "es = entries (map length supp)"
  define P where "P e = token_log_prob (token_set (supp ! fst e)) (nat (supp ! fst e ! snd e)) (scaled_row v ?t G (fst e))" for e
  define Q where "Q e = qq ! fst e ! snd e" for e
  let ?starts = "map (\<lambda>k. offsets ! k) ks" and ?ends = "map (\<lambda>k. offsets ! Suc k) ks"
  have row: "0 \<le> offsets ! k" "offsets ! k \<le> offsets ! Suc k" "int (length (ragged_row offsets ids k)) = offsets ! Suc k - offsets ! k"
    "length (ragged_row offsets qs k) = length (ragged_row offsets ids k)" "Suc k < length offsets" if "k \<in> set ks" for k
    using recorded_row [OF rec, of k] ks that by auto
  have sel: "index_select (map int ks) offsets = Inr ?starts" "index_select (map (\<lambda>i. i + 1) (map int ks)) offsets = Inr ?ends"
    using row(5) by (subst index_select_in; force simp: nat_add_distrib)+
  have lengths: "map2 (\<lambda>e s. e - s) ?ends ?starts = map (int \<circ> length) supp"
    using row(3) by (simp add: supp_def zip_map_map zip_same_conv_map comp_def)
  have ranges: "read_ranges (read_spans ?starts ?ends) xs = concat (map (ragged_row offsets xs) ks)" for xs :: "'b list"
  proof -
    have "read_ranges (read_spans ?starts ?ends) xs = concat (map2 (\<lambda>s e. py_slice s e xs) ?starts ?ends)"
      using row(1,2) by (intro read_spans_ranges) (auto simp: zip_map_map zip_same_conv_map)
    also have "map2 (\<lambda>s e. py_slice s e xs) ?starts ?ends = map (ragged_row offsets xs) ks"
      using row(1,2) by (auto simp: zip_map_map zip_same_conv_map ragged_row_def intro!: py_slice_nat intro: order_trans)
    finally show ?thesis .
  qed
  have hd: "length (hd G) = length ks" using shape(1) group_shapeD(1) [OF shape(3)] group_shapeD(2) [OF shape(3), of 0] by (cases G) auto
  have lens: "map length qq = map length supp" using row(4) by (simp add: qq_def supp_def)
  have lsupp: "length supp = length ks" by (simp add: supp_def)
  have p: "calculate_ragged_log_probs all_sum G (concat supp) (cumsum_from 0 (map (int \<circ> length) supp)) ?t = Inr (map P es)"
  proof (cases "ks = []")
    case True
    then show ?thesis using ragged_nothing [OF sums _ shape(1)] shape(3) by (simp add: supp_def es_def entries_def)
  next
    case False
    have "supports_ok tp (length ks) v supp (cumsum_from 0 (map (int \<circ> length) supp)) G"
      using recorded_supports [OF rec ks False shape refl] by (simp add: supp_def comp_def)
    from ragged_forward_eq [OF sums this, of ?t] show ?thesis
      by (simp add: calculate_ragged_log_probs_def P_def [abs_def] es_def case_prod_beta)
  qed
  have rows: "repeat_rows (map (int \<circ> length) supp) = Inr (map fst es)" using repeat_entries [of "map length supp"] by (simp add: es_def)
  have q: "concat qq = map Q es" using entries_concat [of qq] by (simp add: Q_def [abs_def] es_def lens case_prod_beta)
  have bound: "fst e < length ks" if "e \<in> set es" for e using that lsupp by (simp add: es_def set_entries)
  have m2: "map2 h (map f es) (map g es) = map (\<lambda>e. h (f e) (g e)) es" for h :: "'x \<Rightarrow> 'y \<Rightarrow> 'z" and f g
    by (simp add: zip_map_map zip_same_conv_map comp_def)
  let ?res = "\<lambda>e. (exp (Q e) * ?w (exp (P e - Q e)) - ?w 1 * exp (P e)) * P e"
  have "top_p_terms args all_sum G (map int ks) ids offsets qs =
      Inr (scatter_add (map fst es) (map ?res es) (replicate (length ks) 0), scatter_add (map fst es) (map (\<lambda>e. exp (Q e)) es) (replicate (length ks) 0),
        scatter_add (map fst es) (map (\<lambda>e. exp (P e)) es) (replicate (length ks) 0))"
    unfolding top_p_terms_def sel res_bind_Inr Let_def lengths ranges supp_def [symmetric] qq_def [symmetric] hd w(1) prod.case p rows q
      broadcast2_def importance_weights_eq [OF w(2)] map_replicate
    using bound by (simp add: m2 comp_def cong: map_cong)
  also have "\<dots> = Inr (columns (map (\<lambda>i. centred_token ?w (?w 1)
      (map (\<lambda>id. token_log_prob (token_set (supp ! i)) (nat id) (scaled_row v ?t G i)) (supp ! i)) (qq ! i)) [0..<length ks]))"
  proof -
    have l: "length (qq ! i) = length (supp ! i)" if "i < length ks" for i using row(4) [OF nth_mem [OF that]] that by (simp add: qq_def supp_def)
    have sc: "scatter_add (map fst es) (map f es) (replicate (length ks) 0) = map (\<lambda>i. \<Sum>m<length (supp ! i). f (i, m)) [0..<length ks]" for f
      using scatter_entries [of "map length supp" f] by (simp add: es_def lsupp)
    show ?thesis unfolding sc columns_def
      using l by (simp add: centred_sums P_def Q_def lsupp)
  qed
  also have "map (\<lambda>i. centred_token ?w (?w 1)
      (map (\<lambda>id. token_log_prob (token_set (supp ! i)) (nat id) (scaled_row v ?t G i)) (supp ! i)) (qq ! i)) [0..<length ks] =
    map (\<lambda>i. centred_token ?w (?w 1)
      (map (\<lambda>id. token_log_prob (token_set (ragged_row offsets ids (ks ! i))) (nat id) (scaled_row v ?t G i)) (ragged_row offsets ids (ks ! i)))
      (ragged_row offsets qs (ks ! i))) [0..<length ks]"
    by (intro map_cong refl) (simp add: supp_def qq_def)
  finally show ?thesis .
qed

section \<open>What every rank of the group has\<close>

text \<open>A rank's heads are stored whole, or in memory: whole for the pieces of the stream, cut for zigzag chunks.\<close>

definition heads_given :: "bool \<Rightarrow> nat \<Rightarrow> nat \<Rightarrow> (int \<times> int) list \<Rightarrow> 'a list list \<Rightarrow> 'a head_rows list \<Rightarrow> bool" where
  "heads_given ag n r ls vals heads \<longleftrightarrow> length heads = length ls \<and> fits_lengths ls vals \<and>
     (\<forall>s < length ls. case heads ! s of Stored xs \<Rightarrow> xs = vals ! s
        | Resident xs \<Rightarrow> xs = (if ag then vals ! s else cp_local r n (fst (ls ! s)) (vals ! s)))"

lemma slice_held:
  assumes r: "r < n" and ok: "\<forall>l \<in> set ls. lengths_ok l" and vals: "fits_lengths ls vals" and s: "s < length ls"
  shows "slice_log_prob_with_cp (int r) (int n) (vals ! s) (fst (ls ! s)) (snd (ls ! s)) = Inr (map ((!) (vals ! s)) (held_tokens False n T r ls ! s))"
proof -
  have len: "int (length (vals ! s)) = snd (ls ! s)" using vals s by (simp add: fits_lengths_def)
  have "lengths_ok (ls ! s)" using ok s by simp
  then have "int (length (vals ! s)) < fst (ls ! s)" using len by (auto simp: lengths_ok_def)
  from cp_local_returns [OF r this] show ?thesis unfolding len cp_local_held [OF assms, of T, unfolded len] .
qed

lemma allgather_held:
  assumes "\<forall>l \<in> set ls. lengths_ok l" "fits_lengths ls vals"
  shows "slice_allgather_response_rows (int r) (int T) 0 vals ls = Inr (map (\<lambda>s. map ((!) (vals ! s)) (held_tokens True n T r ls ! s)) [0..<length ls])"
proof -
  have "slice_allgather_response_rows (int r) (int T) (int 0) vals ls = Inr (map2 (\<lambda>ks v. map ((!) v) ks) (piece_tokens T r 0 ls) vals)"
    using assms by (intro slice_allgather_held) (auto simp: fits_lengths_def)
  moreover have "map2 (\<lambda>ks v. map ((!) v) ks) (piece_tokens T r 0 ls) vals = map (\<lambda>s. map ((!) (vals ! s)) (held_tokens True n T r ls ! s)) [0..<length ls]"
    using assms(2) by (intro nth_equalityI) (simp_all add: fits_lengths_def held_tokens_def)
  ultimately show ?thesis by simp
qed

lemma res_map_map: "res_map f (map g xs) = res_map (\<lambda>x. f (g x)) xs"
  by (induction xs) simp_all

lemma topk_heads_held:
  assumes r: "r < n" and n: "ca_cp_size args = n" and ok: "\<forall>l \<in> set ls. lengths_ok l"
    and given: "heads_given (ca_allgather_cp args \<and> 1 < n) n r ls vals heads"
  shows "topk_heads args (int r) (int T) heads ls =
    Inr (map (\<lambda>s. map ((!) (vals ! s)) (held_tokens (ca_allgather_cp args \<and> 1 < n) n T r ls ! s)) [0..<length ls])"
proof (cases "ca_allgather_cp args \<and> 1 < n")
  case True
  have fit: "fits_lengths ls vals" using given by (simp add: heads_given_def)
  have "whole_head (heads ! s) = vals ! s" if "s < length ls" for s using given that True by (cases "heads ! s") (force simp: heads_given_def)+
  then have "map whole_head heads = vals" using given by (intro nth_equalityI) (auto simp: heads_given_def fits_lengths_def)
  then show ?thesis using allgather_held [OF ok fit, of r T n] True n by (simp add: topk_heads_def)
next
  case False
  have fit: "fits_lengths ls vals" and len: "length heads = length ls" using given by (simp_all add: heads_given_def)
  let ?held = "\<lambda>s. map ((!) (vals ! s)) (held_tokens False n T r ls ! s)"
  have one: "(case heads ! s of Resident xs \<Rightarrow> Inr xs
      | Stored xs \<Rightarrow> if int n = 1 then Inr xs else slice_log_prob_with_cp (int r) (int n) xs (fst (ls ! s)) (snd (ls ! s))) = Inr (?held s)" if s: "s < length ls" for s
  proof (cases "heads ! s")
    case (Resident xs)
    then have "xs = cp_local r n (fst (ls ! s)) (vals ! s)" using given False s by (force simp: heads_given_def)
    then show ?thesis using cp_local_held [OF r ok fit s, of T] Resident by simp
  next
    case (Stored xs)
    then have xs: "xs = vals ! s" using given s by (force simp: heads_given_def)
    show ?thesis
    proof (cases "n = 1")
      case True
      then have "slice_log_prob_with_cp (int r) (int n) (vals ! s) (fst (ls ! s)) (snd (ls ! s)) = Inr (vals ! s)"
        using fit s by (simp add: slice_log_prob_with_cp_def fits_lengths_def)
      then show ?thesis using slice_held [OF r ok fit s, of T] Stored xs True by simp
    qed (use slice_held [OF r ok fit s, of T] Stored xs in simp)
  qed
  have "local_heads (int r) (int n) heads ls = Inr (map ?held [0..<length ls])"
  proof -
    have z: "zip heads ls = map (\<lambda>s. (heads ! s, ls ! s)) [0..<length ls]" using len by (intro nth_equalityI) simp_all
    have "res_map (\<lambda>s. case heads ! s of Resident xs \<Rightarrow> Inr xs
      | Stored xs \<Rightarrow> if int n = 1 then Inr xs else slice_log_prob_with_cp (int r) (int n) xs (fst (ls ! s)) (snd (ls ! s))) [0..<length ls] = Inr (map ?held [0..<length ls])"
      using one by (intro res_map_Inr_ball) simp
    then show ?thesis using len unfolding local_heads_def z by (simp add: res_map_map case_prod_beta)
  qed
  moreover have f: "(ca_allgather_cp args \<and> 1 < n) = False" using False by simp
  ultimately show ?thesis unfolding topk_heads_def n f if_False by simp
qed

lemma indices_held:
  assumes r: "r < n" and n: "ca_cp_size args = n" and ok: "\<forall>l \<in> set ls. lengths_ok l"
  defines "ag \<equiv> ca_allgather_cp args \<and> 1 < n" and "indices \<equiv> map (\<lambda>l. map int [0..<nat (snd l)]) ls"
  shows "(if ca_allgather_cp args \<and> 1 < ca_cp_size args then slice_allgather_response_rows (int r) (int T) 0 indices ls
      else res_map (\<lambda>(i, total, response). slice_log_prob_with_cp (int r) (int (ca_cp_size args)) i total response) (zip indices ls)) =
    Inr (map (\<lambda>s. map int (held_tokens ag n T r ls ! s)) [0..<length ls])"
proof -
  have fit: "fits_lengths ls indices" using ok by (auto simp: fits_lengths_def indices_def lengths_ok_def)
  have int: "map ((!) (indices ! s)) (held_tokens ag n T r ls ! s) = map int (held_tokens ag n T r ls ! s)" if "s < length ls" for s
    using held_tokens_bound [OF r ok that, of ag T] that by (auto simp: indices_def)
  show ?thesis
  proof (cases ag)
    case True
    then show ?thesis using allgather_held [OF ok fit, of r T n] int n by (simp add: ag_def cong: map_cong)
  next
    case False
    have z: "zip indices ls = map (\<lambda>s. (indices ! s, ls ! s)) [0..<length ls]" by (intro nth_equalityI) (simp_all add: indices_def)
    have "res_map (\<lambda>(i, total, response). slice_log_prob_with_cp (int r) (int n) i total response) (zip indices ls) =
        Inr (map (\<lambda>s. map ((!) (indices ! s)) (held_tokens False n T r ls ! s)) [0..<length ls])"
      unfolding z using slice_held [OF r ok fit, of _ T]
      by (simp add: res_map_map case_prod_beta comp_def res_map_Inr_ball)
    moreover have f: "(ca_allgather_cp args \<and> 1 < n) = False" using False by (simp add: ag_def)
    moreover have "map (\<lambda>s. map ((!) (indices ! s)) (held_tokens False n T r ls ! s)) [0..<length ls] = map (\<lambda>s. map int (held_tokens False n T r ls ! s)) [0..<length ls]"
      using int False by (intro map_cong) simp_all
    ultimately show ?thesis unfolding n f if_False ag_def by simp
  qed
qed

section \<open>The rows of a group\<close>

definition group_rows :: "nat \<Rightarrow> real list list list \<Rightarrow> nat list \<Rightarrow> real list list list" where
  "group_rows tp shards js = map (\<lambda>p. map ((!) (shards ! p)) js) [0..<tp]"

lemma response_rows_eq:
  assumes r: "r < n" and n: "ca_cp_size args = n" and ok: "\<forall>s \<in> set samples. sample_ok s"
    and room: "room_for (ca_allgather_cp args \<and> 1 < n) n T (map (nat \<circ> fst) (map snd samples))"
    and shape: "group_shape tp T v shards"
    and sels: "extract_rows (int r) (int n) (ca_allgather_cp args \<and> 1 < n) [0..<T] 0 (map snd samples) = Inr sels" "length sels = length samples"
  shows "response_rows args (int r) shards samples = Inr (map (\<lambda>s. group_rows tp shards (sels ! s)) [0..<length samples])"
proof -
  let ?get = "\<lambda>shard. get_responses (int r) (int n) (ca_allgather_cp args) (ca_temperature args) False shard samples"
  have one: "\<exists>yss. ?get shard = Inr yss \<and> map fst yss = map (map ((!) shard)) sels" if "shard \<in> set shards" for shard
  proof -
    have l: "length shard = T" using that shape by (auto simp: in_set_conv_nth group_shape_def)
    then have "extract_rows (int r) (int n) (ca_allgather_cp args \<and> 1 < n) shard 0 (map snd samples) = Inr (map (map ((!) shard)) sels)"
      using sels(1) by (intro extract_rows_select) simp
    from get_responses_rows [OF r ok room l this] show ?thesis .
  qed
  then obtain yss where y: "\<And>shard. shard \<in> set shards \<Longrightarrow> ?get shard = Inr (yss shard) \<and> map fst (yss shard) = map (map ((!) shard)) sels"
    by metis
  have "res_map ?get shards = Inr (map yss shards)" using y by (intro res_map_Inr_ball) blast
  moreover have "map (\<lambda>pairs. fst (pairs ! s)) (map yss shards) = group_rows tp shards (sels ! s)" if s: "s < length samples" for s
  proof (rule nth_equalityI)
    show "length (map (\<lambda>pairs. fst (pairs ! s)) (map yss shards)) = length (group_rows tp shards (sels ! s))"
      using group_shapeD(1) [OF shape] by (simp add: group_rows_def)
    fix p assume "p < length (map (\<lambda>pairs. fst (pairs ! s)) (map yss shards))"
    then have p: "p < length shards" "p < tp" using group_shapeD(1) [OF shape] by simp_all
    have e: "map fst (yss (shards ! p)) = map (map ((!) (shards ! p))) sels" using y nth_mem [OF p(1)] by blast
    have "length (yss (shards ! p)) = length samples" using arg_cong [OF e, of length] sels(2) by simp
    then have "fst (yss (shards ! p) ! s) = map ((!) (shards ! p)) (sels ! s)" using arg_cong [OF e, of "\<lambda>xs. xs ! s"] s sels(2) by simp
    then show "map (\<lambda>pairs. fst (pairs ! s)) (map yss shards) ! p = group_rows tp shards (sels ! s) ! p" using p by (simp add: group_rows_def)
  qed
  ultimately show ?thesis unfolding response_rows_def n res_bind_Inr by (simp cong: map_cong)
qed

lemma group_rows_shape:
  assumes "group_shape tp T v shards" "set js \<subseteq> {..<T}"
  shows "group_shape tp (length js) v (group_rows tp shards js)"
proof -
  have "js ! i < T" if "i < length js" for i using assms(2) nth_mem [OF that] by blast
  then show ?thesis using group_shapeD(3) [OF assms(1)] by (simp add: group_shape_def group_rows_def)
qed

lemma group_rows_entry:
  assumes shape: "group_shape tp T v shards" and js: "set js \<subseteq> {..<T}" and hold: "holds_at_responses ag n T r ls rows (whole_rows T shards)"
    and labels: "map ((!) (response_at ag n T r ls)) js = map (\<lambda>k. Some (s, k)) ks" and i: "i < length js" and c: "c < tp * v"
  shows "full_row v (group_rows tp shards js) i c = rows ! s ! (ks ! i) ! c"
proof -
  have l: "length ks = length js" using arg_cong [OF labels, of length] by simp
  have j: "js ! i < T" using js nth_mem [OF i] by blast
  have "response_at ag n T r ls ! (js ! i) = Some (s, ks ! i)" using arg_cong [OF labels, of "\<lambda>xs. xs ! i"] i l by simp
  then have "whole_rows T shards ! (js ! i) = rows ! s ! (ks ! i)" using hold j by (simp add: holds_at_responses_def)
  moreover have "full_row v (group_rows tp shards js) i c = full_row v shards (js ! i) c"
    using less_mult_imp_div_less [OF c] i by (simp add: full_row_def group_rows_def)
  ultimately show ?thesis using whole_row_entry [OF shape j c] by simp
qed

section \<open>The reference: the terms of every response token\<close>

text \<open>From the logits \<open>row\<close> of the whole vocabulary that predict the token, and the sampler's head.\<close>

definition topk_token :: "(real \<Rightarrow> real) \<Rightarrow> nat \<Rightarrow> real \<Rightarrow> real list \<Rightarrow> int list \<Rightarrow> real list \<Rightarrow> real \<times> real \<times> real" where
  "topk_token w V t row ids q =
     (let p = map (\<lambda>id. token_log_prob {..<V} (nat id) (\<lambda>c. row ! c / t)) ids in centred_token w (tail_alpha w p q) p q)"

definition top_p_token :: "(real \<Rightarrow> real) \<Rightarrow> real \<Rightarrow> real list \<Rightarrow> int list \<Rightarrow> real list \<Rightarrow> real \<times> real \<times> real" where
  "top_p_token w t row ids q =
     (let p = map (\<lambda>id. token_log_prob (nat ` set ids) (nat id) (\<lambda>c. row ! c / t)) ids in centred_token w (w 1) p q)"

definition head_terms ::
  "centering_args \<Rightarrow> nat \<Rightarrow> real list list list \<Rightarrow> int list list list \<Rightarrow> real list list list \<Rightarrow> nat \<Rightarrow> nat \<Rightarrow> real \<times> real \<times> real" where
  "head_terms args V rows ids qs s k =
     (if ca_top_p args < 1 then top_p_token (weight_of (ca_weighting args)) (ca_temperature args) (rows ! s ! k) (ids ! s ! k) (qs ! s ! k)
      else topk_token (weight_of (ca_weighting args)) V (ca_temperature args) (rows ! s ! k) (ids ! s ! k) (qs ! s ! k))"

text \<open>What a rank's batch holds of heads \<open>ids\<close> and \<open>qs\<close>.\<close>

definition batch_given ::
  "centering_args \<Rightarrow> nat \<Rightarrow> nat \<Rightarrow> resp_sample list \<Rightarrow> int list list list \<Rightarrow> real list list list \<Rightarrow> nat \<Rightarrow> centering_batch \<Rightarrow> bool" where
  "batch_given args n V samples ids qs r b \<longleftrightarrow> cb_samples b = samples \<and> cb_has_rollout_log_probs b \<and>
     (if ca_top_p args < 1 then
        \<exists>flat offsets sampler. cb_top_p_token_ids b = Some flat \<and> cb_top_p_token_offsets b = Some offsets \<and> cb_top_p_log_probs b = Some sampler \<and>
          length flat = length samples \<and> length offsets = length samples \<and> length sampler = length samples \<and>
          (\<forall>s < length samples. let resp = nat (snd (snd (samples ! s))) in recorded_ok V (flat ! s) (offsets ! s) (sampler ! s) resp \<and>
             ids ! s = map (ragged_row (offsets ! s) (flat ! s)) [0..<resp] \<and> qs ! s = map (ragged_row (offsets ! s) (sampler ! s)) [0..<resp])
      else \<exists>heads log_probs. cb_topk_token_ids b = Some heads \<and> cb_topk_log_probs b = Some log_probs \<and>
          heads_given (ca_allgather_cp args \<and> 1 < n) n r (map snd samples) ids heads \<and>
          heads_given (ca_allgather_cp args \<and> 1 < n) n r (map snd samples) qs log_probs \<and>
          (\<forall>s < length samples. \<forall>k < nat (snd (snd (samples ! s))). length (qs ! s ! k) = length (ids ! s ! k) \<and>
             (\<forall>t \<in> set (ids ! s ! k). 0 \<le> t \<and> t < int V)))"

section \<open>The terms a rank computes\<close>

lemma redistribute_tokens:
  assumes sums: "sums_ranks all_sum" and r: "r < n" and ok: "\<forall>l \<in> set ls. lengths_ok l"
    and room: "room_for True n T (map (nat \<circ> fst) ls)" and vals: "fits_lengths ls vals"
  shows "allgather_cp_redistribute all_sum (int r) (int T) (map (\<lambda>q. map (\<lambda>s. map ((!) (vals ! s)) (held_tokens True n T q ls ! s)) [0..<length ls]) [0..<n]) ls =
    Inr (map2 (\<lambda>l xs. cp_local r n (fst l) xs) ls vals)"
proof -
  define col where "col q = map (\<lambda>x. case x of None \<Rightarrow> 0 | Some (s, k) \<Rightarrow> vals ! s ! k) (response_at True n T q ls)" for q
  have hold: "holds_at_responses True n T q ls vals (col q)" if "q < n" for q
    using response_at_length [OF that ok room] by (simp add: holds_at_responses_def col_def)
  obtain locals where l: "\<forall>q < n. \<forall>m. extract_rows (int q) m True (col q) 0 ls = Inr (locals q)"
    "allgather_cp_redistribute all_sum (int r) (int T) (map locals [0..<n]) ls = Inr (map2 (\<lambda>l xs. cp_local r n (fst l) xs) ls vals)"
    using redistribute_held [OF sums r ok room vals hold] by auto
  have "locals q = map (\<lambda>s. map ((!) (vals ! s)) (held_tokens True n T q ls ! s)) [0..<length ls]" if "q < n" for q
    using l(1) that column_values [OF that ok room hold [OF that]] by simp
  then have "map locals [0..<n] = map (\<lambda>q. map (\<lambda>s. map ((!) (vals ! s)) (held_tokens True n T q ls ! s)) [0..<length ls]) [0..<n]"
    by (intro map_cong) simp_all
  from l(2) [unfolded this] show ?thesis .
qed

lemma topk_terms_tokens:
  assumes sums: "sums_ranks all_sum" and maxes: "maxes_ranks all_max" and pos: "0 < tp" "0 < v"
    and shape: "group_shape tp T v shards" and js: "set js \<subseteq> {..<T}" and hold: "holds_at_responses ag n T r ls rows (whole_rows T shards)"
    and labels: "map ((!) (response_at ag n T r ls)) js = map (\<lambda>k. Some (s, k)) ks"
    and heads: "\<And>k. k \<in> set ks \<Longrightarrow> length (q ! k) = length (ids ! k) \<and> (\<forall>t \<in> set (ids ! k). 0 \<le> t \<and> t < int (tp * v))"
    and buf: "\<And>n. length (fst (buf n)) = n \<and> length (fst (snd (buf n))) = n \<and> length (snd (snd (buf n))) = n"
    and w: "ca_weighting args = (mode, low, high)" "valid_mode mode"
  shows "topk_terms args all_max all_sum buf (group_rows tp shards js) (map ((!) ids) ks) (map ((!) q) ks) =
    Inr (columns (map (\<lambda>k. topk_token (weight_of (ca_weighting args)) (tp * v) (ca_temperature args) (rows ! s ! k) (ids ! k) (q ! k)) ks))"
proof -
  let ?G = "group_rows tp shards js" and ?w = "weight_of (mode, low, high)" and ?t = "ca_temperature args"
  have l: "length ks = length js" using arg_cong [OF labels, of length] by simp
  have k: "ks ! i \<in> set ks" if "i < length js" for i using that l by simp
  have "heads_ok tp (length js) v (map ((!) ids) ks) ?G"
    unfolding heads_ok_def using pos group_rows_shape [OF shape js] heads [OF k] l by simp
  moreover have "length (map ((!) q) ks ! i) = length (map ((!) ids) ks ! i)" if "i < length js" for i using heads [OF k [OF that]] that l by simp
  ultimately have eq: "topk_terms args all_max all_sum buf ?G (map ((!) ids) ks) (map ((!) q) ks) =
    Inr (columns (map (\<lambda>i. let p = map (head_log_prob tp v ?t ?G i) (map ((!) ids) ks ! i)
       in centred_token ?w (tail_alpha ?w p (map ((!) q) ks ! i)) p (map ((!) q) ks ! i)) [0..<length js]))"
    using l by (intro topk_terms_eq [OF sums maxes _ _ _ buf w]) simp_all
  have p: "head_log_prob tp v ?t ?G i t = token_log_prob {..<tp * v} (nat t) (\<lambda>c. rows ! s ! (ks ! i) ! c / ?t)" if "i < length js" for i t
    unfolding head_log_prob_def scaled_row_def by (intro token_log_prob_cong) (simp add: group_rows_entry [OF shape js hold labels that])
  have "map (\<lambda>i. let p = map (head_log_prob tp v ?t ?G i) (map ((!) ids) ks ! i)
       in centred_token ?w (tail_alpha ?w p (map ((!) q) ks ! i)) p (map ((!) q) ks ! i)) [0..<length js] =
      map (\<lambda>k. topk_token ?w (tp * v) ?t (rows ! s ! k) (ids ! k) (q ! k)) ks"
    using l by (intro nth_equalityI) (simp_all add: topk_token_def p Let_def cong: map_cong)
  then show ?thesis unfolding eq by (simp add: w(1))
qed

lemma top_p_terms_tokens:
  assumes sums: "sums_ranks all_sum" and pos: "0 < tp" "0 < v"
    and shape: "group_shape tp T v shards" and js: "set js \<subseteq> {..<T}" and hold: "holds_at_responses ag n T r ls rows (whole_rows T shards)"
    and labels: "map ((!) (response_at ag n T r ls)) js = map (\<lambda>k. Some (s, k)) ks"
    and rec: "recorded_ok (tp * v) ids offsets q resp" and ks: "set ks \<subseteq> {..<resp}"
    and w: "ca_weighting args = (mode, low, high)" "valid_mode mode"
  shows "top_p_terms args all_sum (group_rows tp shards js) (map int ks) ids offsets q =
    Inr (columns (map (\<lambda>k. top_p_token (weight_of (ca_weighting args)) (ca_temperature args) (rows ! s ! k) (ragged_row offsets ids k) (ragged_row offsets q k)) ks))"
proof -
  let ?G = "group_rows tp shards js" and ?w = "weight_of (mode, low, high)" and ?t = "ca_temperature args"
  have l: "length ks = length js" using arg_cong [OF labels, of length] by simp
  have G: "group_shape tp (length ks) v ?G" unfolding l by (rule group_rows_shape [OF shape js])
  have p: "token_log_prob (token_set (ragged_row offsets ids (ks ! i))) t (scaled_row v ?t ?G i) =
      token_log_prob (nat ` set (ragged_row offsets ids (ks ! i))) t (\<lambda>c. rows ! s ! (ks ! i) ! c / ?t)" if i: "i < length ks" for i t
    unfolding token_set_def scaled_row_def
  proof (intro token_log_prob_cong)
    fix c assume "c \<in> nat ` set (ragged_row offsets ids (ks ! i))"
    then obtain t where "t \<in> set ids" "c = nat t" by (auto simp: ragged_row_def slice_def dest!: in_set_takeD in_set_dropD)
    then have "0 \<le> t" "t < int (tp * v)" "c = nat t" using rec unfolding recorded_ok_def by blast+
    then have "c < tp * v" by linarith
    then show "full_row v ?G i c / ?t = rows ! s ! (ks ! i) ! c / ?t" using group_rows_entry [OF shape js hold labels] i l by simp
  qed
  have "map (\<lambda>i. centred_token ?w (?w 1)
      (map (\<lambda>id. token_log_prob (token_set (ragged_row offsets ids (ks ! i))) (nat id) (scaled_row v ?t ?G i)) (ragged_row offsets ids (ks ! i)))
      (ragged_row offsets q (ks ! i))) [0..<length ks] =
    map (\<lambda>k. top_p_token ?w ?t (rows ! s ! k) (ragged_row offsets ids k) (ragged_row offsets q k)) ks"
    by (intro nth_equalityI) (simp_all add: top_p_token_def p)
  then show ?thesis unfolding top_p_terms_eq [OF sums rec ks pos G w] by (simp add: w(1))
qed

text \<open>What is assumed of the context-parallel group: its logits, its batches and its arguments.\<close>

definition centering_ok ::
  "centering_args \<Rightarrow> nat \<Rightarrow> nat \<Rightarrow> nat \<Rightarrow> nat \<Rightarrow> resp_sample list \<Rightarrow> real list list list \<Rightarrow> int list list list \<Rightarrow> real list list list \<Rightarrow>
   real list list list list \<Rightarrow> centering_batch list \<Rightarrow> bool" where
  "centering_ok args n T tp v samples rows ids qs logits batches \<longleftrightarrow> ca_cp_size args = n \<and> 0 < ca_temperature args \<and> valid_mode (fst (ca_weighting args)) \<and>
     samples \<noteq> [] \<and> (\<forall>s \<in> set samples. sample_ok s) \<and> logits_ok (ca_allgather_cp args \<and> 1 < n) n T tp v (map snd samples) rows logits \<and>
     length batches = n \<and> (\<forall>r < n. batch_given args n (tp * v) samples ids qs r (batches ! r))"

definition fills_rows :: "(nat \<Rightarrow> 'a list \<times> 'b list \<times> 'c list) \<Rightarrow> bool" where
  "fills_rows buf \<longleftrightarrow> (\<forall>n. length (fst (buf n)) = n \<and> length (fst (snd (buf n))) = n \<and> length (snd (snd (buf n))) = n)"

lemma rank_rows:
  assumes ok: "centering_ok args n T tp v samples rows ids qs logits batches" and r: "r < n"
  defines "ag \<equiv> ca_allgather_cp args \<and> 1 < n" and "ls \<equiv> map snd samples"
  shows "\<exists>sels. response_rows args (int r) (logits ! r) samples = Inr (map (\<lambda>s. group_rows tp (logits ! r) (sels ! s)) [0..<length ls]) \<and>
    (\<forall>s < length ls. set (sels ! s) \<subseteq> {..<T} \<and> map ((!) (response_at ag n T r ls)) (sels ! s) = map (\<lambda>k. Some (s, k)) (held_tokens ag n T r ls ! s))"
    and "int (length (hd (logits ! r))) = int T" "group_shape tp T v (logits ! r)" "holds_at_responses ag n T r ls rows (whole_rows T (logits ! r))"
    and "\<forall>l \<in> set ls. lengths_ok l" "0 < tp" "0 < v"
proof -
  have lo: "logits_ok ag n T tp v ls rows logits" and n: "ca_cp_size args = n" and sok: "\<forall>s \<in> set samples. sample_ok s"
    using ok by (simp_all add: centering_ok_def ag_def ls_def)
  show lok: "\<forall>l \<in> set ls. lengths_ok l" using sok by (force simp: ls_def sample_ok_def)
  show shape: "group_shape tp T v (logits ! r)" and "holds_at_responses ag n T r ls rows (whole_rows T (logits ! r))" "0 < tp" "0 < v"
    using lo r by (simp_all add: logits_ok_def)
  then show "int (length (hd (logits ! r))) = int T"
    using group_shapeD(1) [OF shape] group_shapeD(2) [OF shape, of 0] by (cases "logits ! r") auto
  have room: "room_for ag n T (map (nat \<circ> fst) ls)" using lo by (simp add: logits_ok_def)
  obtain sels where sels: "extract_rows (int r) (int n) ag [0..<T] 0 ls = Inr sels" "length sels = length ls"
    "\<forall>s < length ls. set (sels ! s) \<subseteq> {..<T} \<and> map ((!) (response_at ag n T r ls)) (sels ! s) = map (\<lambda>k. Some (s, k)) (held_tokens ag n T r ls ! s)"
    using positions [OF r lok room] by blast
  have "response_rows args (int r) (logits ! r) samples = Inr (map (\<lambda>s. group_rows tp (logits ! r) (sels ! s)) [0..<length samples])"
    using room sels(1,2) by (intro response_rows_eq [OF r n sok _ shape]) (simp_all add: ag_def ls_def)
  then show "\<exists>sels. response_rows args (int r) (logits ! r) samples = Inr (map (\<lambda>s. group_rows tp (logits ! r) (sels ! s)) [0..<length ls]) \<and>
    (\<forall>s < length ls. set (sels ! s) \<subseteq> {..<T} \<and> map ((!) (response_at ag n T r ls)) (sels ! s) = map (\<lambda>k. Some (s, k)) (held_tokens ag n T r ls ! s))"
    using sels(3) by (auto simp: ls_def)
qed

lemma zip_upt: "zip (map f [0..<n]) (map g [0..<n]) = map (\<lambda>s. (f s, g s)) [0..<n]"
  by (simp add: zip_map_map zip_same_conv_map)

lemma local_topk_terms_eq:
  assumes sums: "sums_ranks all_sum" and maxes: "maxes_ranks all_max" and buf: "fills_rows buf"
    and ok: "centering_ok args n T tp v samples rows ids qs logits batches" and r: "r < n" and topk: "\<not> ca_top_p args < 1"
  defines "ag \<equiv> ca_allgather_cp args \<and> 1 < n" and "ls \<equiv> map snd samples"
  shows "local_topk_terms args all_max all_sum buf (int r) (logits ! r) (batches ! r) =
    Inr (map (\<lambda>s. columns (map (head_terms args (tp * v) rows ids qs s) (held_tokens ag n T r ls ! s))) [0..<length ls])"
proof -
  note R = rank_rows [OF ok r, folded ag_def ls_def]
  obtain sels where sels: "response_rows args (int r) (logits ! r) samples = Inr (map (\<lambda>s. group_rows tp (logits ! r) (sels ! s)) [0..<length ls])"
    "\<And>s. s < length ls \<Longrightarrow> set (sels ! s) \<subseteq> {..<T}"
    "\<And>s. s < length ls \<Longrightarrow> map ((!) (response_at ag n T r ls)) (sels ! s) = map (\<lambda>k. Some (s, k)) (held_tokens ag n T r ls ! s)"
    using R(1) by blast
  have n: "ca_cp_size args = n" and "batch_given args n (tp * v) samples ids qs r (batches ! r)" using ok r by (simp_all add: centering_ok_def)
  then obtain heads log_probs where b: "cb_samples (batches ! r) = samples" "cb_has_rollout_log_probs (batches ! r)"
    "cb_topk_token_ids (batches ! r) = Some heads" "cb_topk_log_probs (batches ! r) = Some log_probs"
    and given: "heads_given ag n r ls ids heads" "heads_given ag n r ls qs log_probs"
    and heads: "\<And>s k. s < length ls \<Longrightarrow> k < nat (snd (ls ! s)) \<Longrightarrow> length (qs ! s ! k) = length (ids ! s ! k) \<and> (\<forall>t \<in> set (ids ! s ! k). 0 \<le> t \<and> t < int (tp * v))"
    using topk by (auto simp: batch_given_def ls_def ag_def)
  obtain mode low high where w: "ca_weighting args = (mode, low, high)" "valid_mode mode" using ok by (cases "ca_weighting args") (auto simp: centering_ok_def)
  have one: "topk_terms args all_max all_sum buf (group_rows tp (logits ! r) (sels ! s)) (map ((!) (ids ! s)) (held_tokens ag n T r ls ! s))
      (map ((!) (qs ! s)) (held_tokens ag n T r ls ! s)) =
    Inr (columns (map (head_terms args (tp * v) rows ids qs s) (held_tokens ag n T r ls ! s)))" if s: "s < length ls" for s
  proof -
    have "length (qs ! s ! k) = length (ids ! s ! k) \<and> (\<forall>t \<in> set (ids ! s ! k). 0 \<le> t \<and> t < int (tp * v))" if "k \<in> set (held_tokens ag n T r ls ! s)" for k
      using held_tokens_bound [OF r R(5) s, of ag T] that by (intro heads [OF s]) auto
    then show ?thesis
      using buf unfolding fills_rows_def
      by (subst topk_terms_tokens [OF sums maxes R(6,7,3) sels(2) [OF s] R(4) sels(3) [OF s] _ _ w])
        (simp_all add: head_terms_def topk cong: map_cong)
  qed
  have "res_map (\<lambda>(rows, head_ids, q). topk_terms args all_max all_sum buf rows head_ids q)
      (map (\<lambda>s. (group_rows tp (logits ! r) (sels ! s), map ((!) (ids ! s)) (held_tokens ag n T r ls ! s), map ((!) (qs ! s)) (held_tokens ag n T r ls ! s))) [0..<length ls]) =
    Inr (map (\<lambda>s. columns (map (head_terms args (tp * v) rows ids qs s) (held_tokens ag n T r ls ! s))) [0..<length ls])"
    unfolding res_map_map prod.case using one by (intro res_map_Inr_ball) simp
  moreover note topk_heads_held [OF r n R(5) given(1) [unfolded ag_def], of T, folded ag_def]
  moreover note topk_heads_held [OF r n R(5) given(2) [unfolded ag_def], of T, folded ag_def]
  ultimately show ?thesis
    unfolding local_topk_terms_def Let_def b R(2) using sels(1) b(2)
    by (simp add: zip_upt flip: ls_def)
qed

lemma local_top_p_terms_eq:
  assumes sums: "sums_ranks all_sum"
    and ok: "centering_ok args n T tp v samples rows ids qs logits batches" and r: "r < n" and top_p: "ca_top_p args < 1"
  defines "ag \<equiv> ca_allgather_cp args \<and> 1 < n" and "ls \<equiv> map snd samples"
  shows "local_top_p_terms args all_sum (int r) (logits ! r) (batches ! r) =
    Inr (map (\<lambda>s. columns (map (head_terms args (tp * v) rows ids qs s) (held_tokens ag n T r ls ! s))) [0..<length ls])"
proof -
  note R = rank_rows [OF ok r, folded ag_def ls_def]
  obtain sels where sels: "response_rows args (int r) (logits ! r) samples = Inr (map (\<lambda>s. group_rows tp (logits ! r) (sels ! s)) [0..<length ls])"
    "\<And>s. s < length ls \<Longrightarrow> set (sels ! s) \<subseteq> {..<T}"
    "\<And>s. s < length ls \<Longrightarrow> map ((!) (response_at ag n T r ls)) (sels ! s) = map (\<lambda>k. Some (s, k)) (held_tokens ag n T r ls ! s)"
    using R(1) by blast
  have n: "ca_cp_size args = n" and "batch_given args n (tp * v) samples ids qs r (batches ! r)" using ok r by (simp_all add: centering_ok_def)
  then obtain flat offsets sampler where b: "cb_samples (batches ! r) = samples" "cb_has_rollout_log_probs (batches ! r)"
    "cb_top_p_token_ids (batches ! r) = Some flat" "cb_top_p_token_offsets (batches ! r) = Some offsets" "cb_top_p_log_probs (batches ! r) = Some sampler"
    "length flat = length ls" "length offsets = length ls" "length sampler = length ls"
    and rec: "\<And>s. s < length ls \<Longrightarrow> recorded_ok (tp * v) (flat ! s) (offsets ! s) (sampler ! s) (nat (snd (ls ! s)))"
    and given: "\<And>s. s < length ls \<Longrightarrow> ids ! s = map (ragged_row (offsets ! s) (flat ! s)) [0..<nat (snd (ls ! s))] \<and>
      qs ! s = map (ragged_row (offsets ! s) (sampler ! s)) [0..<nat (snd (ls ! s))]"
    using top_p by (auto simp: batch_given_def ls_def Let_def)
  obtain mode low high where w: "ca_weighting args = (mode, low, high)" "valid_mode mode" using ok by (cases "ca_weighting args") (auto simp: centering_ok_def)
  have one: "top_p_terms args all_sum (group_rows tp (logits ! r) (sels ! s)) (map int (held_tokens ag n T r ls ! s)) (flat ! s) (offsets ! s) (sampler ! s) =
    Inr (columns (map (head_terms args (tp * v) rows ids qs s) (held_tokens ag n T r ls ! s)))" if s: "s < length ls" for s
  proof -
    note ks = held_tokens_bound [OF r R(5) s, of ag T]
    have "head_terms args (tp * v) rows ids qs s k = top_p_token (weight_of (ca_weighting args)) (ca_temperature args) (rows ! s ! k)
        (ragged_row (offsets ! s) (flat ! s) k) (ragged_row (offsets ! s) (sampler ! s) k)" if "k \<in> set (held_tokens ag n T r ls ! s)" for k
      using that ks given [OF s] by (auto simp: head_terms_def top_p)
    then show ?thesis
      unfolding top_p_terms_tokens [OF sums R(6,7,3) sels(2) [OF s] R(4) sels(3) [OF s] rec [OF s] ks w] by (simp cong: map_cong)
  qed
  have z: "zip flat (zip offsets sampler) = map (\<lambda>s. (flat ! s, offsets ! s, sampler ! s)) [0..<length ls]"
    using b(6-8) by (intro nth_equalityI) simp_all
  have "res_map (\<lambda>(rows, indices, ids, offsets, q). top_p_terms args all_sum rows indices ids offsets q)
      (map (\<lambda>s. (group_rows tp (logits ! r) (sels ! s), map int (held_tokens ag n T r ls ! s), flat ! s, offsets ! s, sampler ! s)) [0..<length ls]) =
    Inr (map (\<lambda>s. columns (map (head_terms args (tp * v) rows ids qs s) (held_tokens ag n T r ls ! s))) [0..<length ls])"
    unfolding res_map_map prod.case using one by (intro res_map_Inr_ball) simp
  then show ?thesis
    unfolding local_top_p_terms_def Let_def b(1-5) R(2) ls_def [symmetric] option.sel
      indices_held [OF r n R(5), of T, folded ag_def] res_bind_Inr sels(1) z zip_upt
    using b(2,6-8) by simp
qed

section \<open>The terms of a micro-batch do not depend on its layout\<close>

lemma columns_map:
  "map (fst \<circ> columns) tss = map (map fst) tss" "map (fst \<circ> snd \<circ> columns) tss = map (map (fst \<circ> snd)) tss"
  "map (snd \<circ> snd \<circ> columns) tss = map (map (snd \<circ> snd)) tss"
  by (simp_all add: columns_def)

definition all_terms ::
  "centering_args \<Rightarrow> nat \<Rightarrow> resp_sample list \<Rightarrow> real list list list \<Rightarrow> int list list list \<Rightarrow> real list list list \<Rightarrow> (real \<times> real \<times> real) list list" where
  "all_terms args V samples rows ids qs = map (\<lambda>s. map (head_terms args V rows ids qs s) [0..<nat (snd (snd (samples ! s)))]) [0..<length samples]"

lemma fits_all_terms: "\<forall>l \<in> set (map snd samples). lengths_ok l \<Longrightarrow> fits_lengths (map snd samples) (all_terms args V samples rows ids qs)"
  by (auto simp: fits_lengths_def all_terms_def lengths_ok_def)

lemma held_terms:
  assumes "r < n" "\<forall>l \<in> set (map snd samples). lengths_ok l" "s < length samples"
  shows "map (f \<circ> (head_terms args V rows ids qs s)) (held_tokens ag n T r (map snd samples) ! s) =
    map ((!) (map (map f) (all_terms args V samples rows ids qs) ! s)) (held_tokens ag n T r (map snd samples) ! s)"
proof -
  have "set (held_tokens ag n T r (map snd samples) ! s) \<subseteq> {..<nat (snd (snd (samples ! s)))}"
    using held_tokens_bound [OF assms(1,2), of s ag T] assms(3) by simp
  then show ?thesis using assms(3) by (intro map_cong refl) (auto simp: all_terms_def)
qed

lemma fits_map: "fits_lengths ls vals \<Longrightarrow> fits_lengths ls (map (map f) vals)"
  by (simp add: fits_lengths_def)

lemma local_centering_terms_eq:
  assumes "sums_ranks all_sum" "maxes_ranks all_max" "fills_rows buf" "centering_ok args n T tp v samples rows ids qs logits batches" "q < n"
  shows "local_centering_terms args all_max all_sum buf (int q) (logits ! q) (batches ! q) =
    Inr (map (\<lambda>s. columns (map (head_terms args (tp * v) rows ids qs s) (held_tokens (ca_allgather_cp args \<and> 1 < n) n T q (map snd samples) ! s)))
      [0..<length samples])"
  using local_topk_terms_eq [OF assms] local_top_p_terms_eq [OF assms(1,4,5)] by (simp add: local_centering_terms_def)

lemma concat_columns:
  "(concat (map (map fst) tss), concat (map (map (fst \<circ> snd)) tss), concat (map (map (snd \<circ> snd)) tss)) = columns (concat tss)"
  by (simp add: columns_def map_concat)

text \<open>C40: Whatever the layout and the number of ranks, with recorded supports as with top-k heads, what a rank computes of the
  score-centering correction and of the head masses is, sample by sample, its context-parallel part of the terms of all
  response tokens of the micro-batch.\<close>

theorem score_centering_terms_layout_independent:
  assumes "sums_ranks all_sum" "maxes_ranks all_max" "fills_rows buf" "centering_ok args n T tp v samples rows ids qs logits batches" "r < n"
  shows "get_score_centering_terms args all_max all_sum buf r logits batches =
    Inr (columns (concat (map2 (\<lambda>(tokens, tot, resp) ts. cp_local r n tot ts) samples (all_terms args (tp * v) samples rows ids qs))))"
proof -
  let ?ag = "ca_allgather_cp args \<and> 1 < n" and ?terms = "all_terms args (tp * v) samples rows ids qs"
  define ls where "ls = map snd samples"
  define locals where "locals q = map (\<lambda>s. columns (map (head_terms args (tp * v) rows ids qs s) (held_tokens ?ag n T q ls ! s))) [0..<length ls]" for q
  define cuts where "cuts = map2 (\<lambda>l ts. cp_local r n (fst l) ts) ls ?terms"
  note R = rank_rows [OF assms(4,5), folded ls_def]
  have n: "ca_cp_size args = n" and b: "cb_samples (batches ! r) = samples" and ne: "samples \<noteq> []" and ll: "length logits = n"
    and room: "room_for ?ag n T (map (nat \<circ> fst) ls)"
    using assms(4,5) by (auto simp: centering_ok_def batch_given_def logits_ok_def ls_def)
  have fit: "fits_lengths ls ?terms" using fits_all_terms R(5) by (simp add: ls_def)
  have lfit: "length ?terms = length ls" using fit by (simp add: fits_lengths_def)
  have loc: "local_centering_terms args all_max all_sum buf (int q) (logits ! q) (batches ! q) = Inr (locals q)" if "q < n" for q
    using local_centering_terms_eq [OF assms(1-4) that] by (simp add: locals_def ls_def)
  have part: "map (f \<circ> head_terms args (tp * v) rows ids qs s) (held_tokens ?ag n T q ls ! s) =
      map ((!) (map (map f) ?terms ! s)) (held_tokens ?ag n T q ls ! s)" if "q < n" "s < length ls" for f :: "real \<times> real \<times> real \<Rightarrow> real" and q s
    using that R(5) held_terms [OF that(1)] unfolding ls_def by simp
  have cut: "map2 (\<lambda>l xs. cp_local r n (fst l) xs) ls (map (map f) ?terms) = map (map f) cuts" for f :: "real \<times> real \<times> real \<Rightarrow> real"
  proof (rule nth_equalityI)
    fix s assume "s < length (map2 (\<lambda>l xs. cp_local r n (fst l) xs) ls (map (map f) ?terms))"
    then have s: "s < length ls" by simp
    have "lengths_ok (ls ! s)" "int (length (?terms ! s)) = snd (ls ! s)" using s R(5) fit by (simp_all add: fits_lengths_def)
    then have "int (length (?terms ! s)) < fst (ls ! s)" by (auto simp: lengths_ok_def)
    from cp_local_map [OF assms(5) this, of f] show "map2 (\<lambda>l xs. cp_local r n (fst l) xs) ls (map (map f) ?terms) ! s = map (map f) cuts ! s"
      using s lfit by (simp add: cuts_def)
  qed (simp add: cuts_def)
  have cne: "cuts \<noteq> []" using ne lfit by (simp add: cuts_def ls_def all_terms_def)
  have cs: "cuts = map2 (\<lambda>(tokens, tot, resp) ts. cp_local r n tot ts) samples ?terms"
    using lfit by (intro nth_equalityI) (simp_all add: cuts_def ls_def case_prod_beta)
  have "(if ca_allgather_cp args \<and> 1 < ca_cp_size args then
           res_bind (res_map (\<lambda>q. local_centering_terms args all_max all_sum buf (int q) (logits ! q) (batches ! q)) [0..<length logits]) (\<lambda>group.
           res_bind (allgather_cp_redistribute all_sum (int r) (int T) (map (map fst) group) ls) (\<lambda>corrections.
           res_bind (allgather_cp_redistribute all_sum (int r) (int T) (map (map (fst \<circ> snd)) group) ls) (\<lambda>q_masses.
           res_bind (allgather_cp_redistribute all_sum (int r) (int T) (map (map (snd \<circ> snd)) group) ls) (\<lambda>p_masses.
             Inr (corrections, q_masses, p_masses)))))
         else Inr (map fst (locals r), map (fst \<circ> snd) (locals r), map (snd \<circ> snd) (locals r))) =
      Inr (map (map fst) cuts, map (map (fst \<circ> snd)) cuts, map (map (snd \<circ> snd)) cuts)"
  proof (cases ?ag)
    case True
    have group: "res_map (\<lambda>q. local_centering_terms args all_max all_sum buf (int q) (logits ! q) (batches ! q)) [0..<length logits] = Inr (map locals [0..<n])"
      unfolding ll using loc by (intro res_map_Inr_ball) simp
    have red: "allgather_cp_redistribute all_sum (int r) (int T) (map (map g) (map locals [0..<n])) ls = Inr (map (map f) cuts)"
      if g: "\<And>ts. g (columns ts) = map f ts" for f :: "real \<times> real \<times> real \<Rightarrow> real" and g
    proof -
      have eq: "map (map g) (map locals [0..<n]) = map (\<lambda>q. map (\<lambda>s. map ((!) (map (map f) ?terms ! s)) (held_tokens True n T q ls ! s)) [0..<length ls]) [0..<n]"
        using part True by (intro nth_equalityI) (simp_all add: locals_def g)
      have "room_for True n T (map (nat \<circ> fst) ls)" using room True by simp
      then show ?thesis unfolding eq cut [of f, symmetric] by (rule redistribute_tokens [OF assms(1,5) R(5) _ fits_map [OF fit]])
    qed
    show ?thesis using True n group red [of fst fst] red [of "fst \<circ> snd" "fst \<circ> snd"] red [of "snd \<circ> snd" "snd \<circ> snd"]
      by (simp add: columns_def)
  next
    case False
    have "map g (locals r) = map (map f) cuts" if g: "\<And>ts. g (columns ts) = map f ts" for f :: "real \<times> real \<times> real \<Rightarrow> real" and g
      unfolding cut [of f, symmetric]
    proof (rule nth_equalityI)
      fix s assume "s < length (map g (locals r))"
      then have s: "s < length ls" by (simp add: locals_def)
      have ag: "?ag = False" using False by simp
      have "map g (locals r) ! s = map (f \<circ> head_terms args (tp * v) rows ids qs s) (held_tokens ?ag n T r ls ! s)"
        using s by (simp add: locals_def g)
      also have "\<dots> = cp_local r n (fst (ls ! s)) (map (map f) ?terms ! s)"
        unfolding ag by (rule trans [OF part [OF assms(5) s, unfolded ag] cp_local_held [OF assms(5) R(5) fits_map [OF fit] s, symmetric]])
      finally show "map g (locals r) ! s = map2 (\<lambda>l xs. cp_local r n (fst l) xs) ls (map (map f) ?terms) ! s" using s lfit by simp
    qed (simp add: locals_def lfit)
    from this [of fst fst] this [of "fst \<circ> snd" "fst \<circ> snd"] this [of "snd \<circ> snd" "snd \<circ> snd"]
    have "map fst (locals r) = map (map fst) cuts" "map (fst \<circ> snd) (locals r) = map (map (fst \<circ> snd)) cuts"
      "map (snd \<circ> snd) (locals r) = map (map (snd \<circ> snd)) cuts" by (simp_all add: columns_def)
    moreover have "(ca_allgather_cp args \<and> 1 < ca_cp_size args) = False" using False n by simp
    ultimately show ?thesis by (simp only: if_False)
  qed
  then show ?thesis
    unfolding get_score_centering_terms_def Let_def loc [OF assms(5)] R(2) b ls_def [symmetric] res_bind_Inr cs [symmetric] concat_columns [symmetric]
    using cne by (simp add: torch_cat_def)
qed

text \<open>Two ranks with zigzag chunks of one sample of three tokens, two of them the response, and the supports of the sampler.\<close>

definition centering_demo_args :: centering_args where
  "centering_demo_args = \<lparr>ca_cp_size = 2, ca_allgather_cp = False, ca_top_p = 1 / 2, ca_temperature = 2, ca_log_probs_chunk_size = 1,
     ca_weighting = (''tis'', Some 0, Some 2)\<rparr>"

definition centering_demo_batch :: centering_batch where
  "centering_demo_batch = \<lparr>cb_samples = layout_demo_samples, cb_has_rollout_log_probs = True, cb_topk_token_ids = None, cb_topk_log_probs = None,
     cb_top_p_token_ids = Some [[1, 0, 1]], cb_top_p_token_offsets = Some [[0, 1, 3]], cb_top_p_log_probs = Some [[0, -2, -1]]\<rparr>"

theorem score_centering_terms_layout_independent_witness:
  "get_score_centering_terms centering_demo_args col_max vec_sum (\<lambda>n. (replicate n [], replicate n 0, replicate n 0)) 1 layout_demo_ranks
     [centering_demo_batch, centering_demo_batch] =
   Inr (columns (cp_local 1 2 3 [top_p_token (weight_of (''tis'', Some 0, Some 2)) 2 [1, 2] [1] [0], top_p_token (weight_of (''tis'', Some 0, Some 2)) 2 [3, 4] [0, 1] [-2, -1]]))"
proof -
  have rec: "recorded_ok 2 [1, 0, 1] [0, 1, 3] [0, -2, -1] 2"
    by (simp add: recorded_ok_def sorted_offsets_def ragged_row_def slice_def All_less_Suc numeral_2_eq_2)
  have rows: "[[1], [0, 1]] = map (ragged_row [0, 1, 3] [1, 0, 1 :: int]) [0..<2]" "[[0], [-2, -1]] = map (ragged_row [0, 1, 3] [0, -2, -1 :: real]) [0..<2]"
    by (simp_all add: ragged_row_def slice_def upt_rec)
  have "batch_given centering_demo_args 2 2 layout_demo_samples [[[1], [0, 1]]] [[[0], [-2, -1]]] r centering_demo_batch" for r
    using rec rows by (simp add: batch_given_def centering_demo_args_def centering_demo_batch_def layout_demo_samples_def)
  then have "centering_ok centering_demo_args 2 2 2 1 layout_demo_samples layout_demo_rows [[[1], [0, 1]]] [[[0], [-2, -1]]] layout_demo_ranks
      [centering_demo_batch, centering_demo_batch]"
    using layout_demo_logits_ok
    by (auto simp: centering_ok_def centering_demo_args_def valid_mode_def layout_demo_samples_def sample_ok_def lengths_ok_def less_2_cases_iff)
  from score_centering_terms_layout_independent [OF vec_sum_sums_ranks col_max_maxes _ this, of "\<lambda>n. (replicate n [], replicate n 0, replicate n 0)" 1]
  show ?thesis
    by (simp add: fills_rows_def all_terms_def head_terms_def layout_demo_samples_def layout_demo_rows_def centering_demo_args_def upt_rec)
qed

end
