(* ===== verification/Spec2Isabelle.thy ===== *)
theory Spec2Isabelle
  imports Dp_Schedule Routing_Replay Ppo_Utils Trajectory_Session Sample_Append Batch_Builder Data_Source Centering_Terms
begin

text \<open>
  \<^bold>\<open>vime: the bookkeeping of a reinforcement-learning trainer.\<close>

  vime (Python, under \<open>src/vime\<close>) trains language models by reinforcement learning. A data source hands out groups of
  prompts; a rollout engine (vLLM) generates responses, for agents over many turns; the samples are scored, converted to a
  training batch, scheduled over the data-parallel ranks and micro-batches, and trained by Megatron under tensor and context
  parallelism, with log-probabilities, advantages and a policy loss computed from each rank's share. What makes such a system
  correct is bookkeeping: which prompt is served when, which token was sampled by whom in which context, which rank holds which
  row, which denominator a loss is divided by. That is what this development models: the code between the engine and the optimiser,
  function by function, with every exception as a value.

  \<^bold>\<open>Theories and the code they model\<close> (file names under \<open>src/vime\<close>)

  \<^item> \<open>Prelude\<close>: Python exceptions (\<open>py_error\<close>), results (\<open>error + value\<close>, \<open>res_bind\<close>, \<open>res_map\<close>), indexing and slices with their
    negative cases, stable sorting, insertion-ordered dictionaries; the locale \<open>strict_weak_order\<close>, which every comparison of the
    sources interprets. \<open>Values\<close>: Python and torch values with Python's equality.
  \<^item> \<open>Heapq\<close>, \<open>Seqlen_Balancing\<close>: Python's \<open>heapq\<close> and \<open>utils/seqlen_balancing.py\<close> (whole). \<open>Karmarkar-Karp\<close> over the heap, first-fit
    packing, growing a packing. The heap is used through the locales \<open>mset_queue\<close> and \<open>min_queue\<close>.
  \<^item> \<open>Flops\<close>: \<open>utils/flops_utils.py\<close> (whole). \<open>Dp_Schedule\<close>: \<open>utils/dp_schedule.py\<close> (whole).
  \<^item> \<open>Cp_Utils\<close>, \<open>Routing_Replay\<close>: \<open>backends/megatron_utils/cp_utils.py\<close>: how a sequence is cut into \<open>2 * cp_size\<close> chunks of which rank \<open>r\<close>
    holds chunks \<open>r\<close> and \<open>2 * cp_size - 1 - r\<close>; slices, gathering, loss reducers; the routed-expert rows a rank replays (locale
    \<open>segment_filler\<close>, one interpretation per layout).
  \<^item> \<open>Ppo_Utils\<close>, \<open>Vocab_Parallel\<close>: \<open>utils/ppo_utils.py\<close>: KL estimators, policy losses, returns and advantages; softmax, log-probabilities
    and entropies over a vocabulary cut over the tensor-parallel ranks, with the hand-written backward pass. \<open>Selected_Log_Probs\<close>: log-probabilities of given tokens, over the
    whole vocabulary or a recorded support, with their backward passes.
  \<^item> \<open>Packing\<close>: \<open>backends/megatron_utils/data.py\<close>, the micro-batch iterator and \<open>get_batch\<close>. \<open>Loss_Layout\<close>:
    \<open>backends/megatron_utils/loss.py\<close> from the logits of a packed micro-batch to log-probabilities, entropies and values of the
    response tokens. \<open>Layout_Rows\<close>, \<open>Layout_Columns\<close>, \<open>Keep_Mask\<close>, \<open>Log_Prob_Layout\<close>, \<open>Response_Rows\<close>: lemmas on the rows a rank holds, on
    columns over them, on the top-p keep mask and on the rows of a response, and what they come to.
  \<^item> \<open>Advantages\<close>: \<open>loss.py\<close> from log-probabilities, values and rewards to advantages and returns, with the whitening of
    \<open>utils/distributed_utils.py\<close>. \<open>Policy_Loss\<close>: its policy, value and supervised losses with the off-policy corrections, and their
    scaling for Megatron. What the forward pass gives a rank is an argument there: the result of \<open>Loss_Layout\<close>, whose layout theorem
    gives exactly the cuts that the loss theorems assume. \<open>Centering_Terms\<close>: its score-centering terms, from the heads the sampler recorded,
    over \<open>Score_Centering\<close> and \<open>Selected_Log_Probs\<close>.
  \<^item> \<open>Trajectory\<close>, \<open>Trajectory_Tree\<close>, \<open>Trajectory_Builder\<close>, \<open>Trajectory_Samples\<close>, \<open>Trajectory_Session\<close>: \<open>agent/trajectory.py\<close>
    (whole). Sessions are trees of messages; a node is addressed by its path of child positions where the code keeps a parent
    pointer. The manager is a step relation with its reachable states.
  \<^item> \<open>Sample_Types\<close>, \<open>Sample_Append\<close>: \<open>utils/types.py\<close> and the decoder it uses of \<open>utils/misc.py\<close>. \<open>Score_Centering\<close>:
    \<open>utils/score_centering.py\<close>. \<open>Routed_Experts\<close>: \<open>utils/routed_experts.py\<close> with the prefetcher and its
    queue of futures as a state machine, whose workers step between the operations of the training thread.
  \<^item> \<open>Batch_Builder\<close>: \<open>data/batch_builder.py\<close>, with the rank's view of its share. \<open>Data_Source\<close>: \<open>data/data_source.py\<close>, the cursor functions of
    \<open>data/rewind.py\<close>, the epoch order of \<open>utils/data.py\<close> and the two buffer filters (locale \<open>group_filter\<close>, interpreted on both).
  \<^item> this theory: how they compose, from the samples of a rollout to the loss of a training step.

  \<^bold>\<open>How the parts interact\<close>

  \<open>Data_Source\<close> serves groups of samples (\<open>Sample_Types\<close>), which the engine's responses (\<open>Sample_Append\<close>) or the agent's sessions
  (\<open>Trajectory\<close>) fill. \<open>Batch_Builder\<close> normalises their rewards, converts them to a batch and calls \<open>Dp_Schedule\<close>, which calls
  \<open>Seqlen_Balancing\<close> and \<open>Flops\<close>, to place every sample on a rank and in a micro-batch. A rank packs a micro-batch (\<open>Packing\<close>), takes
  log-probabilities from the logits (\<open>Loss_Layout\<close> over \<open>Vocab_Parallel\<close> and \<open>Cp_Utils\<close>), estimates advantages (\<open>Advantages\<close>) and reduces
  the loss (\<open>Policy_Loss\<close> over \<open>Ppo_Utils\<close> and \<open>Cp_Utils\<close>); captured routes and sampler distributions (\<open>Routed_Experts\<close>, \<open>Routing_Replay\<close>,
  \<open>Score_Centering\<close>) travel beside the tokens. Exceptions propagate through \<open>res_bind\<close> as they do in the code.

  \<^bold>\<open>What the properties show\<close>

  \<^item> Scheduling: every kept sample is placed once, rollouts stay whole, the ranks run in lockstep, micro-batches respect the token
    cap, and the exact conditions under which the assertions fail; the balancing and packing routines return partitions with their bounds.
  \<^item> Layout independence: slicing and gathering are inverse, and reductions, returns, advantages, log-probabilities, centering terms and replayed
    routes of the context-parallel ranks are the parts of the result one rank would compute (the advantages of \<open>ppo\<close> only where the first rank
    holds the row of a sequence's last token), and their losses and metrics add up to its. Tensor parallelism: the log-probabilities
    are the logarithms of the softmax over the whole vocabulary, and the backward pass is their derivative.
  \<^item> Trajectories: a token is trained only if a recorded turn sampled it in exactly that context, with its log-probability, and shared
    responses are trained once.
  \<^item> Samples: validators accept exactly the well-formed captures, and appending keeps all metadata aligned.
  \<^item> Data: served prompts follow the stream of epochs whatever the requests and restarts; nothing is lost or served twice, and a checkpoint's
    unfinished groups are regenerated. Prefetching routes is transparent in every reachable state of the prefetcher.
  \<^item> Composition: the reduced losses of all ranks and micro-batches add up to the sum of the rollouts' mean token losses.

  \<^bold>\<open>Conventions, bounds and parameters\<close>

  All recursion is structural or has a measure; there is no fuel. Floats are exact reals, so rounding is not modelled; a logit of minus infinity is
  \<open>None\<close>. Lengths and indices are unbounded, as in Python; int32 fields are checked as the code checks them. A key absent
  from a batch or a keyword argument is \<open>None\<close>. Code outside
  \<open>src\<close> is a parameter: the collectives of \<open>torch.distributed\<close> (with the hypothesis \<open>sums_ranks\<close> or \<open>maxes_ranks\<close> that they sum or take the maximum over the
  ranks), the shuffle of \<open>random.Random\<close>, base64 and \<open>torch.frombuffer\<close>, tensors stored by the \<open>straw\<close> package, user hooks, and the content of
  uninitialised buffers. A process group is the list of what its ranks hold, and a function run by every rank takes that list
  and the rank.

  \<^bold>\<open>Not modelled\<close>

  The command line and its validation (\<open>utils/arguments.py\<close>); the Ray actors, placement and recovery (\<open>ray/\<close>) and the vLLM engine and
  rollout loops (\<open>backends/vllm_utils\<close>, \<open>rollout/\<close>), which are asynchronous calls of external services; the queue, the transport,
  the codec and the archive of \<open>data/\<close>, whose state lives in the \<open>straw\<close> package; the model code, kernels, checkpoint conversion and weight updates of
  \<open>backends/megatron_utils\<close>, which call Megatron, CUDA and Triton; all gradients but the backward passes of the log-probabilities; the agent
  adapters, harnesses and sandboxes (HTTP and processes); observability, tools, plugins, examples and tests.
\<close>

section \<open>What a training step optimises\<close>

text \<open>The part of \<open>loss_function\<close> (\<open>loss.py\<close>) that reduces per-token losses: micro-batch \<open>mb\<close> of a rank, reduced by every
  context-parallel rank with the rollouts' mask sums as denominators. \<open>token_loss i\<close> are the losses of sample \<open>i\<close>.\<close>

definition micro_batch :: "(nat \<Rightarrow> real list) \<Rightarrow> rank_data \<Rightarrow> nat list \<Rightarrow> cp_sample list" where
  "micro_batch token_loss rd mb = map (\<lambda>k. (int (rd_total_lengths rd ! (rd_partition rd ! k)), token_loss (rd_partition rd ! k),
     map real_of_int (td_loss_masks (rd_fields rd) ! k))) mb"

definition micro_batch_loss :: "nat \<Rightarrow> (nat \<Rightarrow> real list) \<Rightarrow> rank_data \<Rightarrow> nat list \<Rightarrow> real result" where
  "micro_batch_loss n token_loss rd mb = res_bind
     (res_map (\<lambda>r. local_mean (int r) (int n) (micro_batch token_loss rd mb)
        (Some (map (\<lambda>k. real_of_int (td_rollout_mask_sums (rd_fields rd) ! k)) mb)) False) [0..<n])
     (\<lambda>ms. Inr (sum_list ms))"

definition rank_loss :: "nat \<Rightarrow> (nat \<Rightarrow> real list) \<Rightarrow> rank_data \<Rightarrow> real result" where
  "rank_loss n token_loss rd =
     res_bind (res_map (micro_batch_loss n token_loss rd) (rd_micro_batch_indices rd)) (\<lambda>ls. Inr (sum_list ls))"

definition batch_loss :: "nat \<Rightarrow> (nat \<Rightarrow> real list) \<Rightarrow> rank_data list \<Rightarrow> real result" where
  "batch_loss n token_loss ranks = res_bind (res_map (rank_loss n token_loss) ranks) (\<lambda>ls. Inr (sum_list ls))"

text \<open>The specification: the mean loss of the trained tokens of one rollout, given by its samples.\<close>

definition rollout_mean :: "(nat \<Rightarrow> real list) \<Rightarrow> sample list \<Rightarrow> nat list \<Rightarrow> real" where
  "rollout_mean token_loss samples is =
     (\<Sum>i\<leftarrow>is. dot (token_loss i) (map real_of_int (trained_mask (samples ! i)))) /
     max (\<Sum>i\<leftarrow>is. real_of_int (sum_list (trained_mask (samples ! i)))) 1"

lemma reduce_with_map:
  "reduce_with (map x ks) (map m ks) (map d ks) False = (\<Sum>k\<leftarrow>ks. dot (x k) (m k) / max (d k) 1)"
  by (induction ks) (simp_all add: reduce_with_def)

lemma split_ranks:
  assumes "split_by_dp args cfg d = Inr ranks"
  shows "\<exists>sch. build_dp_schedule args cfg (map length (td_tokens d)) (ba_global_batch_size args) (td_rollout_ids d) = Inr sch \<and>
    length ranks = length (partitions sch) \<and>
    (\<forall>r < length ranks. rd_partition (ranks ! r) = partitions sch ! r \<and> rd_fields (ranks ! r) = select_fields (partitions sch ! r) d \<and>
      rd_total_lengths (ranks ! r) = map length (td_tokens d) \<and> rd_micro_batch_indices (ranks ! r) = micro_batch_indices sch ! r)"
  using assms by (auto simp: split_by_dp_def Let_def res_bind_eq_Inr split: if_splits)

lemma rank_loss_eq:
  assumes "0 < n" and tile: "concat (rd_micro_batch_indices rd) = [0..<length (rd_partition rd)]"
    and fields: "rd_fields rd = select_fields (rd_partition rd) d"
    and tot: "\<And>i. i \<in> set (rd_partition rd) \<Longrightarrow> length (td_loss_masks d ! i) = length (token_loss i) \<and> length (token_loss i) < rd_total_lengths rd ! i"
  shows "rank_loss n token_loss rd = Inr (\<Sum>i\<leftarrow>rd_partition rd.
    dot (token_loss i) (map real_of_int (td_loss_masks d ! i)) / max (real_of_int (td_rollout_mask_sums d ! i)) 1)"
proof -
  let ?p = "rd_partition rd"
  let ?f = "\<lambda>i. dot (token_loss i) (map real_of_int (td_loss_masks d ! i)) / max (real_of_int (td_rollout_mask_sums d ! i)) 1"
  have mb: "micro_batch_loss n token_loss rd mb = Inr (\<Sum>k\<leftarrow>mb. ?f (?p ! k))" if "mb \<in> set (rd_micro_batch_indices rd)" for mb
  proof -
    have k: "k < length ?p" if "k \<in> set mb" for k
      using that \<open>mb \<in> set (rd_micro_batch_indices rd)\<close> tile by (metis UN_I atLeastLessThan_iff set_concat set_upt)
    have masks: "td_loss_masks (rd_fields rd) ! k = td_loss_masks d ! (?p ! k)"
        "td_rollout_mask_sums (rd_fields rd) ! k = td_rollout_mask_sums d ! (?p ! k)" if "k \<in> set mb" for k
      using k [OF that] by (simp_all add: fields select_fields_def gather_def)
    have "cp_batch_ok (micro_batch token_loss rd mb)"
      unfolding cp_batch_ok_def micro_batch_def using k masks tot nth_mem by fastforce
    moreover have "reduce_with (map cp_values (micro_batch token_loss rd mb)) (map cp_mask (micro_batch token_loss rd mb))
        (map (\<lambda>k. real_of_int (td_rollout_mask_sums (rd_fields rd) ! k)) mb) False = (\<Sum>k\<leftarrow>mb. ?f (?p ! k))"
      unfolding micro_batch_def map_map o_def fst_conv snd_conv reduce_with_map
      by (intro arg_cong [where f = sum_list] map_cong refl) (simp add: masks)
    ultimately show ?thesis
      using local_means_add_up [OF _ assms(1), of "micro_batch token_loss rd mb"
        "Some (map (\<lambda>k. real_of_int (td_rollout_mask_sums (rd_fields rd) ! k)) mb)" False]
      by (auto simp: micro_batch_loss_def)
  qed
  have "(\<Sum>mb\<leftarrow>rd_micro_batch_indices rd. \<Sum>k\<leftarrow>mb. ?f (?p ! k)) = (\<Sum>k\<leftarrow>[0..<length ?p]. ?f (?p ! k))"
    by (simp only: sum_concat_map [symmetric] tile)
  also have "\<dots> = (\<Sum>i\<leftarrow>?p. ?f i)"
    by (metis (mono_tags, lifting) map_map map_nth o_def map_cong)
  finally show ?thesis
    using res_map_Inr_ball [of "rd_micro_batch_indices rd" "micro_batch_loss n token_loss rd" "\<lambda>mb. \<Sum>k\<leftarrow>mb. ?f (?p ! k)"] mb
    by (simp add: rank_loss_def)
qed

lemma group_mask_sum:
  assumes conv: "convert st hook args samples = Inr (samples', d)" and g: "(rid, is) \<in> set (group_by_rollout (td_rollout_ids d))"
    and i: "i \<in> set is"
  shows "td_rollout_mask_sums d ! i = (\<Sum>j\<leftarrow>is. sum_list (trained_mask (samples ! j)))"
proof -
  note f = convert_fields [OF conv] and len = rollout_ids_facts(1) [of samples]
  have "map_of (group_by_rollout (td_rollout_ids d)) rid = Some is"
    using g group_by_rollout_facts(1) by (simp add: map_of_eq_Some_iff)
  then have is_eq: "is = filter (\<lambda>j. td_rollout_ids d ! j = rid) [0..<length samples]"
    using group_by_rollout_facts(3) len f(3) by metis
  have i': "i < length samples" "td_rollout_ids d ! i = rid" using i is_eq by auto
  have "td_rollout_mask_sums d ! i =
      (\<Sum>j\<leftarrow>[0..<length samples]. if td_rollout_ids d ! j = rid then sum_list (map trained_mask samples ! j) else 0)"
    using mask_sums_at [OF f(6), of i] i' by (simp add: f(3) len)
  also have "\<dots> = (\<Sum>j\<leftarrow>is. sum_list (map trained_mask samples ! j))"
    unfolding is_eq by (rule sum_list_map_filter' [symmetric])
  also have "\<dots> = (\<Sum>j\<leftarrow>is. sum_list (trained_mask (samples ! j)))"
    unfolding is_eq by (intro arg_cong [where f = sum_list] map_cong refl) simp
  finally show ?thesis .
qed

text \<open>The ranks' results add up over the kept samples, wherever those were placed.\<close>

lemma batch_loss_samples:
  assumes conv: "convert st hook args samples = Inr (samples', d)" and split: "split_by_dp args cfg d = Inr ranks"
    and "0 < n" and loss: "\<forall>i < length samples. length (token_loss i) = length (trained_mask (samples ! i)) \<and>
      length (token_loss i) < length (sm_tokens (samples ! i))"
  shows "batch_loss n token_loss ranks = Inr (\<Sum>i\<leftarrow>kept_samples (ba_global_batch_size args) (td_rollout_ids d).
    dot (token_loss i) (map real_of_int (td_loss_masks d ! i)) / max (real_of_int (td_rollout_mask_sums d ! i)) 1)"
proof -
  let ?gbs = "ba_global_batch_size args" and ?rids = "td_rollout_ids d"
  let ?f = "\<lambda>i. dot (token_loss i) (map real_of_int (td_loss_masks d ! i)) / max (real_of_int (td_rollout_mask_sums d ! i)) 1"
  note f = convert_fields [OF conv]
  from split_ranks [OF split] obtain sch where sch: "build_dp_schedule args cfg (map length (td_tokens d)) ?gbs ?rids = Inr sch"
    "length ranks = length (partitions sch)" and r: "\<And>r. r < length ranks \<Longrightarrow> rd_partition (ranks ! r) = partitions sch ! r \<and>
      rd_fields (ranks ! r) = select_fields (partitions sch ! r) d \<and> rd_total_lengths (ranks ! r) = map length (td_tokens d) \<and>
      rd_micro_batch_indices (ranks ! r) = micro_batch_indices sch ! r" by blast
  note tiling = dp_schedule_tiling [OF sch(1)]
  have index: "i < length samples" if "i \<in> set (concat (partitions sch))" for i
  proof -
    have "i \<in> set (kept_samples ?gbs ?rids)" using that tiling(1) by (metis set_mset_mset)
    then show ?thesis using kept_samples_index rollout_ids_facts(1) f(3) by metis
  qed
  have rank: "rank_loss n token_loss (ranks ! r) = Inr (\<Sum>i\<leftarrow>rd_partition (ranks ! r). ?f i)" if rr: "r < length ranks" for r
  proof -
    have "length (td_loss_masks d ! i) = length (token_loss i) \<and> length (token_loss i) < rd_total_lengths (ranks ! r) ! i"
      if "i \<in> set (rd_partition (ranks ! r))" for i
    proof -
      have i: "i < length samples" using that r [OF rr] rr sch(2) by (intro index) auto
      from loss [rule_format, OF i] show ?thesis using r [OF rr] i f(1,4) by simp
    qed
    then show ?thesis using r [OF rr] tiling(2,3) rr sch(2) by (intro rank_loss_eq assms(3)) auto
  qed
  have part: "map rd_partition ranks = partitions sch" using r sch(2) by (intro nth_equalityI) auto
  have "\<forall>rd \<in> set ranks. rank_loss n token_loss rd = Inr (\<Sum>i\<leftarrow>rd_partition rd. ?f i)"
    using rank by (auto simp: in_set_conv_nth)
  from res_map_Inr_ball [OF this] have "batch_loss n token_loss ranks = Inr (\<Sum>p\<leftarrow>map rd_partition ranks. \<Sum>i\<leftarrow>p. ?f i)"
    by (simp add: batch_loss_def o_def)
  also have "(\<Sum>p\<leftarrow>map rd_partition ranks. \<Sum>i\<leftarrow>p. ?f i) = (\<Sum>i\<leftarrow>kept_samples ?gbs ?rids. ?f i)"
    unfolding sum_concat_map [symmetric] part using tiling(1) by (rule sum_list_perm)
  finally show ?thesis .
qed

text \<open>The samples of one rollout share its denominator.\<close>

lemma rollout_samples_mean:
  assumes conv: "convert st hook args samples = Inr (samples', d)" and g: "(rid, is) \<in> set (group_by_rollout (td_rollout_ids d))"
  shows "(\<Sum>i\<leftarrow>is. dot (token_loss i) (map real_of_int (td_loss_masks d ! i)) / max (real_of_int (td_rollout_mask_sums d ! i)) 1) =
    rollout_mean token_loss samples is"
proof -
  note f = convert_fields [OF conv]
  have "mset (concat (map snd (group_by_rollout (td_rollout_ids d)))) = mset [0..<length samples]"
    by (simp add: group_by_rollout_facts(2) f(3) rollout_ids_facts(1))
  then have "set (concat (map snd (group_by_rollout (td_rollout_ids d)))) = {0..<length samples}"
    by (metis set_mset_mset set_upt)
  with g have index: "i < length samples" if "i \<in> set is" for i using that by fastforce
  have each: "dot (token_loss i) (map real_of_int (td_loss_masks d ! i)) / max (real_of_int (td_rollout_mask_sums d ! i)) 1 =
      dot (token_loss i) (map real_of_int (trained_mask (samples ! i))) *
      (1 / max (\<Sum>j\<leftarrow>is. real_of_int (sum_list (trained_mask (samples ! j)))) 1)" if "i \<in> set is" for i
  proof -
    have "real_of_int (td_rollout_mask_sums d ! i) = (\<Sum>j\<leftarrow>is. real_of_int (sum_list (trained_mask (samples ! j))))"
      unfolding group_mask_sum [OF conv g that] by (induction "is") auto
    then show ?thesis using index [OF that] by (simp add: f(4))
  qed
  have "(\<Sum>i\<leftarrow>is. dot (token_loss i) (map real_of_int (td_loss_masks d ! i)) / max (real_of_int (td_rollout_mask_sums d ! i)) 1) =
      (\<Sum>i\<leftarrow>is. dot (token_loss i) (map real_of_int (trained_mask (samples ! i))) *
        (1 / max (\<Sum>j\<leftarrow>is. real_of_int (sum_list (trained_mask (samples ! j)))) 1))"
    by (intro arg_cong [where f = sum_list] map_cong refl each)
  then show ?thesis unfolding sum_list_mult_const rollout_mean_def by simp
qed

text \<open>C25: From rollout to loss. Converting a batch, scheduling it over the data-parallel ranks and reducing every micro-batch on
  every context-parallel rank returns, and the results add up to the sum over the scheduled rollouts of the mean loss
  of the rollout's trained tokens: however a rollout was cut into samples, placed, packed and sliced, it counts once.\<close>

theorem batch_loss_is_sum_of_rollout_means:
  assumes conv: "convert st hook args samples = Inr (samples', d)" and split: "split_by_dp args cfg d = Inr ranks"
    and "0 < n" and loss: "\<forall>i < length samples. length (token_loss i) = length (trained_mask (samples ! i)) \<and>
      length (token_loss i) < length (sm_tokens (samples ! i))"
  shows "batch_loss n token_loss ranks = Inr (\<Sum>(rid, is)\<leftarrow>kept_groups (ba_global_batch_size args) (td_rollout_ids d).
    rollout_mean token_loss samples is)"
proof -
  let ?f = "\<lambda>i. dot (token_loss i) (map real_of_int (td_loss_masks d ! i)) / max (real_of_int (td_rollout_mask_sums d ! i)) 1"
  let ?kept = "kept_groups (ba_global_batch_size args) (td_rollout_ids d)"
  have mean: "(\<Sum>i\<leftarrow>snd g. ?f i) = rollout_mean token_loss samples (snd g)" if "g \<in> set ?kept" for g
  proof -
    have "g \<in> set (group_by_rollout (td_rollout_ids d))"
      using that unfolding kept_groups_def Let_def by (meson in_set_takeD)
    then show ?thesis using rollout_samples_mean [OF conv, of "fst g" "snd g"] by simp
  qed
  have "(\<Sum>i\<leftarrow>kept_samples (ba_global_batch_size args) (td_rollout_ids d). ?f i) = (\<Sum>g\<leftarrow>?kept. \<Sum>i\<leftarrow>snd g. ?f i)"
    by (simp add: kept_samples_def sum_concat_map o_def)
  also have "\<dots> = (\<Sum>(rid, is)\<leftarrow>?kept. rollout_mean token_loss samples is)"
    by (intro arg_cong [where f = sum_list] map_cong refl) (simp add: mean split_beta)
  finally show ?thesis using batch_loss_samples [OF assms] by simp
qed

lemma demo_schedule:
  "build_dp_schedule demo_batch_args sample_cfg [3, 5, 4, 2, 6, 1] 2 [7, 7, 8, 9, 9, 5] = Inr sample_schedule"
  by code_simp

lemma demo_split:
  assumes "convert demo_straw None demo_batch_args demo_samples = Inr (samples', d)"
  shows "\<exists>ranks. split_by_dp demo_batch_args sample_cfg d = Inr ranks"
proof -
  have "map length (td_tokens d) = [3, 5, 4, 2, 6, 1]" "td_rollout_ids d = [7, 7, 8, 9, 9, 5]"
    using convert_fields(1,3) [OF assms]
    by (simp_all add: demo_samples_def demo_segment_def sample_new_def rollout_ids_of_def rid_of_def)
  moreover have "ba_global_batch_size demo_batch_args = 2" "ba_transport demo_batch_args = ''object-store''"
    by (simp_all add: demo_batch_args_def sample_args_def dp_args.extend_def batch_args.fields_def)
  ultimately show ?thesis unfolding split_by_dp_def Let_def by (simp add: demo_schedule [simplified])
qed

text \<open>A loss of 1 for every token: the three rollouts with trained tokens count 1 each, on two context-parallel ranks.\<close>

theorem batch_loss_is_sum_of_rollout_means_witness:
  "\<exists>samples' d ranks. convert demo_straw None demo_batch_args demo_samples = Inr (samples', d) \<and>
    split_by_dp demo_batch_args sample_cfg d = Inr ranks \<and>
    batch_loss 2 (\<lambda>i. replicate (length (trained_mask (demo_samples ! i))) 1) ranks = Inr 3"
proof -
  obtain samples' d ranks where run: "convert demo_straw None demo_batch_args demo_samples = Inr (samples', d)"
    "split_by_dp demo_batch_args sample_cfg d = Inr ranks"
    using demo_convert demo_split by metis
  have "\<forall>i < length demo_samples. length (replicate (length (trained_mask (demo_samples ! i))) (1 :: real)) = length (trained_mask (demo_samples ! i)) \<and>
      length (replicate (length (trained_mask (demo_samples ! i))) (1 :: real)) < length (sm_tokens (demo_samples ! i))"
    by (simp add: demo_samples_def demo_segment_def sample_new_def trained_mask_def less_Suc_eq numeral_nat all_conj_distrib)
  from batch_loss_is_sum_of_rollout_means [OF run zero_less_numeral [of "num.Bit0 num.One"] this]
  have "batch_loss 2 (\<lambda>i. replicate (length (trained_mask (demo_samples ! i))) 1) ranks =
      Inr (\<Sum>(rid, is)\<leftarrow>kept_groups (ba_global_batch_size demo_batch_args) (td_rollout_ids d).
        rollout_mean (\<lambda>i. replicate (length (trained_mask (demo_samples ! i))) 1) demo_samples is)" .
  moreover have "kept_groups (ba_global_batch_size demo_batch_args) (td_rollout_ids d) = [(7, [0, 1]), (8, [2]), (9, [3, 4]), (5, [5])]"
    using convert_fields(3) [OF run(1)]
    by (simp add: demo_samples_def demo_segment_def sample_new_def rollout_ids_of_def rid_of_def kept_groups_def group_by_rollout_def
        group_pairs_def demo_batch_args_def sample_args_def dp_args.extend_def batch_args.fields_def upt_rec)
  moreover have "rollout_mean (\<lambda>i. replicate (length (trained_mask (demo_samples ! i))) 1) demo_samples [0, 1] = 1"
    "rollout_mean (\<lambda>i. replicate (length (trained_mask (demo_samples ! i))) 1) demo_samples [2] = 1"
    "rollout_mean (\<lambda>i. replicate (length (trained_mask (demo_samples ! i))) 1) demo_samples [3, 4] = 1"
    "rollout_mean (\<lambda>i. replicate (length (trained_mask (demo_samples ! i))) 1) demo_samples [5] = 0"
    by (simp_all add: rollout_mean_def dot_def demo_samples_def demo_segment_def sample_new_def trained_mask_def numeral_nat)
  ultimately show ?thesis using run by (intro exI [of _ samples'] exI [of _ d] exI [of _ ranks]) simp
qed

end
